(* ===== verification/Prelude.thy ===== *)
theory Prelude
  imports Main "HOL-Library.Multiset"
begin

text \<open>
  Shared vocabulary of the development.

  \<^item> \<open>py_error\<close> and \<open>'a res\<close>: a Python exception as a value.  \<open>Inl\<close> is the raised
    exception, \<open>Inr\<close> the returned value, and \<open>bindE\<close> sequences two fallible steps
    so that the first exception wins, as in the source.
  \<^item> Integer helpers of the source: rounding up to a multiple and ceiling division.
    Python's floor division is Isabelle's \<open>div\<close> on \<open>int\<close>.
  \<^item> Address intervals \<open>[lo, hi)\<close> and the lemmas on disjointness shared by the
    memory planners.
  \<^item> A dictionary built by a comprehension over a list keeps the last entry of a key:
    \<open>last_such\<close>.
\<close>

named_theorems interval_simps \<open>unfolding rules for half-open integer intervals\<close>
named_theorems res_simps \<open>inversion rules for fallible computations\<close>

subsection \<open>Exceptions as values\<close>

datatype py_error =
    AssertionError
  | ValueError
  | IndexError
  | KeyError
  | TypeError
  | ZeroDivisionError
  | RuntimeError
  | Unsupported
  | StopIteration
  | NotImplementedError

type_synonym 'a res = "py_error + 'a"

fun bindE :: "'a res \<Rightarrow> ('a \<Rightarrow> 'b res) \<Rightarrow> 'b res" where
  "bindE (Inl e) f = Inl e"
| "bindE (Inr x) f = f x"

fun mapE :: "('a \<Rightarrow> 'b res) \<Rightarrow> 'a list \<Rightarrow> 'b list res" where
  "mapE f [] = Inr []"
| "mapE f (x # xs) = bindE (f x) (\<lambda>y. bindE (mapE f xs) (\<lambda>ys. Inr (y # ys)))"

fun filterE :: "('a \<Rightarrow> bool res) \<Rightarrow> 'a list \<Rightarrow> 'a list res" where
  "filterE p [] = Inr []"
| "filterE p (x # xs) = bindE (p x) (\<lambda>b. bindE (filterE p xs) (\<lambda>ys. Inr (if b then x # ys else ys)))"

fun forE :: "('a \<Rightarrow> unit res) \<Rightarrow> 'a list \<Rightarrow> unit res" where
  "forE f [] = Inr ()"
| "forE f (x # xs) = bindE (f x) (\<lambda>_. forE f xs)"

fun foldE :: "('a \<Rightarrow> 's \<Rightarrow> 's res) \<Rightarrow> 'a list \<Rightarrow> 's \<Rightarrow> 's res" where
  "foldE f [] s = Inr s"
| "foldE f (x # xs) s = bindE (f x s) (foldE f xs)"

definition check :: "bool \<Rightarrow> py_error \<Rightarrow> unit res" where
  "check ok e = (if ok then Inr () else Inl e)"

lemma bindE_Inr_iff [simp, res_simps]:
  "bindE m f = Inr y \<longleftrightarrow> (\<exists>x. m = Inr x \<and> f x = Inr y)"
  by (cases m) auto

lemma bindE_InrE: "bindE m f = Inr y \<Longrightarrow> (\<And>x. m = Inr x \<Longrightarrow> f x = Inr y \<Longrightarrow> P) \<Longrightarrow> P"
  by (cases m) auto

lemma bindE_Inl_iff [res_simps]:
  "bindE m f = Inl e \<longleftrightarrow> m = Inl e \<or> (\<exists>x. m = Inr x \<and> f x = Inl e)"
  by (cases m) auto

lemma if_Inl_eq_Inr [res_simps]: "(if b then Inl e else m) = Inr y \<longleftrightarrow> \<not> b \<and> m = Inr y"
  by simp

lemma check_Inr_iff [simp, res_simps]: "check ok e = Inr u \<longleftrightarrow> ok"
  by (cases u) (simp add: check_def)

lemma check_Inl_iff [simp, res_simps]: "check ok e = Inl e' \<longleftrightarrow> \<not> ok \<and> e' = e"
  by (auto simp: check_def)

lemma forE_Inr_iff [simp, res_simps]: "forE f xs = Inr u \<longleftrightarrow> (\<forall>x\<in>set xs. f x = Inr ())"
  by (induction xs) auto

lemma mapE_Inr_iff:
  "mapE f xs = Inr ys \<longleftrightarrow>
     length ys = length xs \<and> (\<forall>i<length xs. f (xs ! i) = Inr (ys ! i))"
proof (induction xs arbitrary: ys)
  case Nil
  then show ?case by auto
next
  case (Cons x xs)
  show ?case
    by (cases ys) (auto simp: Cons.IH nth_Cons split: nat.splits)
qed

lemma mapE_length: "mapE f xs = Inr ys \<Longrightarrow> length ys = length xs"
  by (simp add: mapE_Inr_iff)

lemma mapE_Inr_nth: "mapE f xs = Inr ys \<Longrightarrow> i < length xs \<Longrightarrow> f (xs ! i) = Inr (ys ! i)"
  by (simp add: mapE_Inr_iff)

lemma mapE_Inr_mem: "mapE f xs = Inr ys \<Longrightarrow> x \<in> set xs \<Longrightarrow> \<exists>y. f x = Inr y \<and> y \<in> set ys"
  by (metis in_set_conv_nth mapE_Inr_iff)

lemma mapE_all: "(\<And>x. x \<in> set xs \<Longrightarrow> f x = Inr (g x)) \<Longrightarrow> mapE f xs = Inr (map g xs)"
  by (induction xs) auto

lemma filterE_Inr: "filterE p xs = Inr ys \<Longrightarrow> ys = filter (\<lambda>x. p x = Inr True) xs"
proof (induction xs arbitrary: ys)
  case (Cons x xs)
  then obtain b zs where "p x = Inr b" "filterE p xs = Inr zs" "ys = (if b then x # zs else zs)" by auto
  then show ?case using Cons.IH [of zs] by simp
qed simp

lemma foldE_append: "foldE f (xs @ ys) s = bindE (foldE f xs s) (foldE f ys)"
proof (induction xs arbitrary: s)
  case (Cons x xs)
  show ?case by (cases "f x s") (simp_all add: Cons.IH)
qed simp

lemma foldE_concat_map: "foldE f (concat (map g xs)) s = foldE (\<lambda>x. foldE f (g x)) xs s"
proof (induction xs arbitrary: s)
  case (Cons x xs)
  show ?case by (simp add: foldE_append, cases "foldE f (g x) s") (simp_all add: Cons.IH)
qed simp

lemma map_sum_InrD: "map_sum id f m = Inr y \<Longrightarrow> \<exists>x. m = Inr x \<and> y = f x"
  by (cases m) auto

subsection \<open>Integer arithmetic\<close>

definition round_up_to_alignment :: "int \<Rightarrow> int \<Rightarrow> int" where
  "round_up_to_alignment arg alignment = ((arg + alignment - 1) div alignment) * alignment"

lemma round_up_ge: "0 < a \<Longrightarrow> x \<le> round_up_to_alignment x a"
proof -
  assume a: "0 < a"
  have "(x + a - 1) = ((x + a - 1) div a) * a + (x + a - 1) mod a" by simp
  moreover have "(x + a - 1) mod a < a" using a by simp
  ultimately show ?thesis unfolding round_up_to_alignment_def by linarith
qed

lemma round_up_lt: "0 < a \<Longrightarrow> round_up_to_alignment x a < x + a"
proof -
  assume a: "0 < a"
  have "(x + a - 1) = ((x + a - 1) div a) * a + (x + a - 1) mod a" by simp
  moreover have "0 \<le> (x + a - 1) mod a" using a by simp
  ultimately show ?thesis unfolding round_up_to_alignment_def by linarith
qed

lemma round_up_dvd [simp]: "a dvd round_up_to_alignment x a"
  by (simp add: round_up_to_alignment_def)

lemma round_up_dvd_id: "0 < a \<Longrightarrow> a dvd x \<Longrightarrow> round_up_to_alignment x a = x"
proof -
  assume a: "0 < a" and "a dvd x"
  then obtain k where x: "x = a * k" by (auto elim: dvdE)
  have "(a * k + a - 1) div a = (a - 1 + k * a) div a" by (simp add: algebra_simps)
  also have "\<dots> = k + (a - 1) div a" using a by (intro div_mult_self1) simp
  also have "\<dots> = k" using a by (simp add: div_pos_pos_trivial)
  finally have "(a * k + a - 1) div a = k" .
  then show ?thesis by (simp add: round_up_to_alignment_def x)
qed

lemma round_up_nonneg: "0 < a \<Longrightarrow> 0 \<le> x \<Longrightarrow> 0 \<le> round_up_to_alignment x a"
  using round_up_ge [of a x] by linarith

lemma round_up_mono: "x \<le> y \<Longrightarrow> 0 < a \<Longrightarrow> round_up_to_alignment x a \<le> round_up_to_alignment y a"
  unfolding round_up_to_alignment_def by (intro mult_right_mono zdiv_mono1) auto

lemma fold_max_ge_start: "a \<le> fold (\<lambda>x w. max w (f x)) xs (a::int)"
proof (induction xs arbitrary: a)
  case (Cons x xs)
  have "a \<le> max a (f x)" by simp
  also have "\<dots> \<le> fold (\<lambda>x w. max w (f x)) xs (max a (f x))" by (rule Cons.IH)
  finally show ?case by simp
qed simp

lemma fold_max_ge: "x \<in> set xs \<Longrightarrow> f x \<le> fold (\<lambda>x w. max w (f x)) xs (a::int)"
proof (induction xs arbitrary: a)
  case (Cons y ys)
  show ?case
  proof (cases "x = y")
    case True
    have "f x \<le> max a (f y)" using True by simp
    also have "\<dots> \<le> fold (\<lambda>x w. max w (f x)) ys (max a (f y))" by (rule fold_max_ge_start)
    finally show ?thesis by simp
  next
    case False
    then show ?thesis using Cons by simp
  qed
qed simp

subsection \<open>Half-open intervals\<close>

definition disjoint_iv :: "int \<Rightarrow> int \<Rightarrow> int \<Rightarrow> int \<Rightarrow> bool" where
  "disjoint_iv lo1 hi1 lo2 hi2 \<longleftrightarrow> hi1 \<le> lo2 \<or> hi2 \<le> lo1"

declare disjoint_iv_def [interval_simps]

lemma disjoint_iv_sym: "disjoint_iv a b c d \<Longrightarrow> disjoint_iv c d a b"
  by (auto simp: interval_simps)

lemma disjoint_iv_sub: "disjoint_iv a b c d \<Longrightarrow> a \<le> a' \<Longrightarrow> b' \<le> b \<Longrightarrow> disjoint_iv a' b' c d"
  by (auto simp: interval_simps)

lemma disjoint_iv_no_common: "disjoint_iv a b c d \<Longrightarrow> {a..<b} \<inter> {c..<d} = {}"
  by (auto simp: interval_simps)

lemma interval_cover_iff:
  fixes a b s n :: int
  assumes "0 < n"
  shows "(\<forall>c\<in>{s..<s + n}. a \<le> c \<and> c < b) \<longleftrightarrow> a \<le> s \<and> s + n \<le> b"
proof
  assume cols: "\<forall>c\<in>{s..<s + n}. a \<le> c \<and> c < b"
  have "s \<in> {s..<s + n}" "s + n - 1 \<in> {s..<s + n}" using assms by auto
  with cols have "a \<le> s" "s + n - 1 < b" by blast+
  then show "a \<le> s \<and> s + n \<le> b" by simp
qed auto

lemma set_concat_map2:
  "length xs = length ys \<Longrightarrow> set (concat (map2 f xs ys)) = (\<Union>i<length xs. set (f (xs ! i) (ys ! i)))"
proof (induction xs ys rule: list_induct2)
  case (Cons x xs y ys)
  have "{..<Suc (length xs)} = insert 0 (Suc ` {..<length xs})"
    by (auto simp: lessThan_Suc_eq_insert_0)
  with Cons show ?case by simp
qed simp

subsection \<open>Dictionaries built from lists\<close>

text \<open>\<open>{key(b): b for b in xs}.get(k)\<close>: the last element with the key wins.\<close>

definition last_such :: "('a \<Rightarrow> bool) \<Rightarrow> 'a list \<Rightarrow> 'a option" where
  "last_such p xs = find p (rev xs)"

lemma last_such_Some: "last_such p xs = Some x \<Longrightarrow> x \<in> set xs \<and> p x"
  by (auto simp: last_such_def find_Some_iff) (metis nth_mem length_rev set_rev)

lemma last_such_None: "last_such p xs = None \<longleftrightarrow> (\<forall>x\<in>set xs. \<not> p x)"
  by (auto simp: last_such_def find_None_iff)

lemma last_such_unique:
  assumes "x \<in> set xs" "p x" "\<And>y. y \<in> set xs \<Longrightarrow> p y \<Longrightarrow> y = x"
  shows "last_such p xs = Some x"
proof (cases "last_such p xs")
  case None
  then have "\<not> p x" using assms(1) by (simp add: last_such_None)
  with assms(2) show ?thesis by simp
next
  case (Some y)
  from last_such_Some [OF Some] have "y = x" by (blast intro: assms(3))
  with Some show ?thesis by simp
qed

lemma filter_only:
  assumes "distinct xs" "p \<in> set xs" "\<And>q. q \<in> set xs \<Longrightarrow> P q \<longleftrightarrow> q = p"
  shows "filter P xs = [p]"
  using assms
proof (induction xs)
  case (Cons x xs)
  show ?case
  proof (cases "x = p")
    case True
    then have "filter P xs = []" using Cons.prems by (auto simp: filter_empty_conv)
    then show ?thesis using True Cons.prems(3) by simp
  next
    case False
    then show ?thesis using Cons by auto
  qed
qed simp

lemma set_map_filter_iff: "y \<in> set (List.map_filter f xs) \<longleftrightarrow> (\<exists>x\<in>set xs. f x = Some y)"
  by (induction xs) (auto simp: List.map_filter_simps split: option.splits)

subsection \<open>Precedence in a list\<close>

definition before :: "'a \<Rightarrow> 'a \<Rightarrow> 'a list \<Rightarrow> bool" where
  "before x y xs \<longleftrightarrow> (\<exists>as bs cs. xs = as @ x # bs @ y # cs)"

lemma before_append:
  "before x y (xs @ ys) \<longleftrightarrow> before x y xs \<or> (x \<in> set xs \<and> y \<in> set ys) \<or> before x y ys"
proof
  assume "before x y (xs @ ys)"
  then obtain as bs cs where e: "xs @ ys = as @ x # bs @ y # cs" by (auto simp: before_def)
  then consider us where "xs = as @ us" "us @ ys = x # bs @ y # cs"
    | us where "as = xs @ us" "us @ x # bs @ y # cs = ys"
    by (auto simp: append_eq_append_conv2)
  then show "before x y xs \<or> (x \<in> set xs \<and> y \<in> set ys) \<or> before x y ys"
  proof cases
    case (1 us)
    show ?thesis
    proof (cases us)
      case Nil
      then have "ys = [] @ x # bs @ y # cs" using 1 by simp
      then show ?thesis unfolding before_def by blast
    next
      case (Cons u vs)
      then have v: "u = x" "vs @ ys = bs @ y # cs" using 1 by auto
      then consider ws where "vs = bs @ ws" "ws @ ys = y # cs" | ws where "bs = vs @ ws" "ws @ y # cs = ys"
        by (auto simp: append_eq_append_conv2)
      then show ?thesis
      proof cases
        case w: (1 ws)
        show ?thesis
        proof (cases ws)
          case Nil
          then have "y \<in> set ys" using w by (cases ys) auto
          then show ?thesis using 1 v Cons by simp
        next
          case (Cons w' ws')
          then have "xs = as @ x # bs @ y # ws'" using w 1 v \<open>us = u # vs\<close> by simp
          then show ?thesis unfolding before_def by blast
        qed
      next
        case (2 ws)
        then have "y \<in> set ys" by auto
        then show ?thesis using 1 v Cons by simp
      qed
    qed
  next
    case (2 us)
    then have "ys = us @ x # bs @ y # cs" by simp
    then show ?thesis unfolding before_def by blast
  qed
next
  assume "before x y xs \<or> (x \<in> set xs \<and> y \<in> set ys) \<or> before x y ys"
  then show "before x y (xs @ ys)"
  proof (elim disjE conjE)
    assume "before x y xs"
    then obtain as bs cs where "xs = as @ x # bs @ y # cs" by (auto simp: before_def)
    then have "xs @ ys = as @ x # bs @ y # (cs @ ys)" by simp
    then show ?thesis unfolding before_def by blast
  next
    assume "x \<in> set xs" "y \<in> set ys"
    then obtain as bs cs ds where "xs = as @ x # bs" "ys = cs @ y # ds" by (meson split_list)
    then have "xs @ ys = as @ x # (bs @ cs) @ y # ds" by simp
    then show ?thesis unfolding before_def by blast
  next
    assume "before x y ys"
    then obtain as bs cs where "ys = as @ x # bs @ y # cs" by (auto simp: before_def)
    then have "xs @ ys = (xs @ as) @ x # bs @ y # cs" by simp
    then show ?thesis unfolding before_def by blast
  qed
qed

lemma before_Nil [simp]: "\<not> before x y []"
  by (simp add: before_def)

lemma before_single [simp]: "\<not> before x y [z]"
  by (auto simp: before_def Cons_eq_append_conv)

lemma before_Cons: "before x y (z # zs) \<longleftrightarrow> (x = z \<and> y \<in> set zs) \<or> before x y zs"
  using before_append [of x y "[z]" zs] by auto

lemma before_mem: "before x y xs \<Longrightarrow> x \<in> set xs \<and> y \<in> set xs"
  by (auto simp: before_def)

lemma before_map: "before x y xs \<Longrightarrow> before (f x) (f y) (map f xs)"
proof -
  assume "before x y xs"
  then obtain as bs cs where "xs = as @ x # bs @ y # cs" by (auto simp: before_def)
  then have "map f xs = map f as @ f x # map f bs @ f y # map f cs" by simp
  then show ?thesis unfolding before_def by blast
qed

lemma before_filter: "before x y (filter P xs) \<longleftrightarrow> P x \<and> P y \<and> before x y xs"
  by (induction xs) (auto simp: before_Cons dest: before_mem)

lemma before_nth: "before x y xs \<longleftrightarrow> (\<exists>i j. i < j \<and> j < length xs \<and> xs ! i = x \<and> xs ! j = y)"
proof
  assume "before x y xs"
  then obtain as bs cs where "xs = as @ x # bs @ y # cs" by (auto simp: before_def)
  then show "\<exists>i j. i < j \<and> j < length xs \<and> xs ! i = x \<and> xs ! j = y"
    by (intro exI [of _ "length as"] exI [of _ "length as + length bs + 1"]) (auto simp: nth_append)
next
  assume "\<exists>i j. i < j \<and> j < length xs \<and> xs ! i = x \<and> xs ! j = y"
  then obtain i j where ij: "i < j" "j < length xs" "xs ! i = x" "xs ! j = y" by blast
  have "x = take j xs ! i" "i < length (take j xs)" using ij by auto
  then have "x \<in> set (take j xs)" by (metis nth_mem)
  moreover have "y \<in> set (drop j xs)" using ij by (metis Cons_nth_drop_Suc list.set_intros(1))
  ultimately have "before x y (take j xs @ drop j xs)" unfolding before_append by blast
  then show "before x y xs" by simp
qed

end
