(* ===== verification/Sliding_Window.thy ===== *)
theory Sliding_Window
  imports Prelude
begin

text \<open>
  The sliding-window placement of attention (\<open>torch_spyre/_inductor/sliding_window_plan.py\<close>):
  which slice of the KV cache each query block reads.  Messages of the source are the
  constructors of \<open>rejection\<close> and \<open>window_error\<close>; only whether there is one
  matters to the callers.
\<close>

definition STICK :: int where "STICK = 64"
definition MAX_QUERY_BLOCK :: int where "MAX_QUERY_BLOCK = 512"

definition default_buffer_origin :: "int \<Rightarrow> int \<Rightarrow> int" where
  "default_buffer_origin seqlen_kv cache_capacity = max 0 (seqlen_kv - cache_capacity)"

definition floor_stick :: "int \<Rightarrow> int" where
  "floor_stick v = (v div STICK) * STICK"

definition ceil_stick :: "int \<Rightarrow> int" where
  "ceil_stick v = - ((- v) div STICK) * STICK"

record SlidingWindowPlan =
  seqlen_q :: int
  seqlen_kv :: int
  window_size :: int
  q_block :: int
  num_q_blocks :: int
  buffer_width :: int
  q_kv_offset :: int
  is_causal :: bool
  cache_capacity :: int
  buffer_origin :: int

definition block_q_range :: "SlidingWindowPlan \<Rightarrow> int \<Rightarrow> int \<times> int" where
  "block_q_range p qi =
     (let q_start = qi * q_block p in (q_start, min (seqlen_q p) (q_start + q_block p)))"

definition row_window :: "SlidingWindowPlan \<Rightarrow> int \<Rightarrow> int \<times> int" where
  "row_window p q_index =
     (let coord = q_kv_offset p + q_index;
          lo = max 0 (coord - window_size p + 1);
          hi = min (seqlen_kv p) (coord + 1)
      in (lo, hi))"

definition read_start :: "SlidingWindowPlan \<Rightarrow> int \<Rightarrow> int" where
  "read_start p qi =
     (let q_start = fst (block_q_range p qi);
          first_coord = q_kv_offset p + q_start;
          window_start_logical = max 0 (first_coord - window_size p + 1);
          physical_origin = floor_stick (window_start_logical - buffer_origin p)
      in min physical_origin (cache_capacity p - buffer_width p))"

definition read_start_logical :: "SlidingWindowPlan \<Rightarrow> int \<Rightarrow> int" where
  "read_start_logical p qi = read_start p qi + buffer_origin p"

definition block_is_fully_attended :: "SlidingWindowPlan \<Rightarrow> int \<Rightarrow> bool" where
  "block_is_fully_attended p qi =
     (let start = read_start_logical p qi;
          stop = start + buffer_width p;
          (q_start, q_end) = block_q_range p qi
      in list_all (\<lambda>q_index. fst (row_window p q_index) \<le> start \<and>
                             stop \<le> snd (row_window p q_index))
           [q_start..q_end - 1])"

datatype window_error =
    NegativeStart int
  | WidthNotPositive int
  | RunsPastCache int int int
  | HeadsNotMultiple int int
  | ShapeMismatch "int list" "int list"

definition check_window_read ::
  "int \<Rightarrow> int \<Rightarrow> int \<Rightarrow> int \<Rightarrow> int \<Rightarrow> int list \<Rightarrow> int list \<Rightarrow> window_error option" where
  "check_window_read start width capacity num_heads num_kv_heads key_shape value_shape =
     (if start < 0 then Some (NegativeStart start)
      else if width \<le> 0 then Some (WidthNotPositive width)
      else if start + width > capacity then Some (RunsPastCache start (start + width) capacity)
      else if num_kv_heads \<le> 0 \<or> num_heads mod num_kv_heads \<noteq> 0
        then Some (HeadsNotMultiple num_heads num_kv_heads)
      else if key_shape \<noteq> value_shape then Some (ShapeMismatch key_shape value_shape)
      else None)"

definition block_span :: "int \<Rightarrow> int \<Rightarrow> int \<Rightarrow> int \<Rightarrow> int \<Rightarrow> int \<Rightarrow> int" where
  "block_span sq w qb off origin qi =
     (let q_start = qi * qb;
          q_end = min sq (q_start + qb);
          first_coord = off + q_start;
          last_coord = off + q_end - 1;
          window_start_logical = max 0 (first_coord - w + 1);
          physical_start = floor_stick (window_start_logical - origin);
          physical_end = (last_coord - origin) + 1
      in physical_end - physical_start)"

definition required_width :: "int \<Rightarrow> int \<Rightarrow> int \<Rightarrow> int \<Rightarrow> int \<Rightarrow> int" where
  "required_width sq w qb off origin =
     ceil_stick (fold (\<lambda>qi widest. max widest (block_span sq w qb off origin qi))
       [0 .. - ((- sq) div qb) - 1] 0)"

fun scan_q_block :: "int \<Rightarrow> int list \<Rightarrow> int" where
  "scan_q_block padded [] = STICK"
| "scan_q_block padded (qb # qbs) = (if padded mod qb = 0 then qb else scan_q_block padded qbs)"

text \<open>\<open>range(largest, STICK - 1, -STICK)\<close>.\<close>

function down_sticks :: "int \<Rightarrow> int list" where
  "down_sticks c = (if c > STICK - 1 then c # down_sticks (c - STICK) else [])"
  by pat_completeness auto
termination
  by (relation "measure (\<lambda>c. nat (c + STICK))") (auto simp: STICK_def)

declare down_sticks.simps [simp del]

definition query_blocking :: "int \<Rightarrow> int \<Rightarrow> int \<times> int" where
  "query_blocking sq max_query_block =
     (if sq = 1 then (1, 1)
      else let padded = ceil_stick sq;
               bound = min max_query_block MAX_QUERY_BLOCK;
               largest_candidate = min padded bound
           in (scan_q_block padded (down_sticks largest_candidate), padded))"

datatype rejection =
    Bidirectional
  | DegenerateLengths int int int
  | NotWholeBlocks int int
  | WindowNotPositive int
  | QueryExceedsCache int int
  | DegenerateCapacity int
  | CapacityNotAligned int
  | OriginTooSmall int int
  | OriginNotBeforeEnd int int
  | CapacityTooNarrow int int
  | DoesNotReachBack int int

definition rejection_reason ::
  "int \<Rightarrow> int \<Rightarrow> int \<Rightarrow> bool \<Rightarrow> int \<Rightarrow> int option \<Rightarrow> int option \<Rightarrow> rejection option" where
  "rejection_reason sq skv w causal qb capacity origin_opt =
     (if \<not> causal then Some Bidirectional
      else if sq \<le> 0 \<or> skv \<le> 0 \<or> qb \<le> 0 then Some (DegenerateLengths sq skv qb)
      else if sq mod qb \<noteq> 0 then Some (NotWholeBlocks sq qb)
      else if w \<le> 0 then Some (WindowNotPositive w)
      else if skv - sq < 0 then Some (QueryExceedsCache sq skv)
      else let effective_capacity = (case capacity of None \<Rightarrow> skv | Some c \<Rightarrow> c) in
        if effective_capacity \<le> 0 then Some (DegenerateCapacity effective_capacity)
        else if effective_capacity mod STICK \<noteq> 0 then Some (CapacityNotAligned effective_capacity)
        else let smallest_origin = default_buffer_origin skv effective_capacity;
                 origin = (case origin_opt of None \<Rightarrow> smallest_origin | Some b \<Rightarrow> b) in
          if origin < smallest_origin then Some (OriginTooSmall origin smallest_origin)
          else if origin \<ge> skv then Some (OriginNotBeforeEnd origin skv)
          else let off = skv - sq;
                   width = required_width sq w qb off origin in
            if effective_capacity < width then Some (CapacityTooNarrow effective_capacity width)
            else let earliest_window_start = max 0 (off - w + 1) in
              if earliest_window_start < origin
              then Some (DoesNotReachBack earliest_window_start origin)
              else None)"

definition plan_sliding_window ::
  "int \<Rightarrow> int \<Rightarrow> int \<Rightarrow> bool \<Rightarrow> int \<Rightarrow> int option \<Rightarrow> int option \<Rightarrow> SlidingWindowPlan option" where
  "plan_sliding_window sq skv w causal qb capacity_opt origin_opt =
     (if rejection_reason sq skv w causal qb capacity_opt origin_opt \<noteq> None then None
      else let capacity = (case capacity_opt of None \<Rightarrow> skv | Some c \<Rightarrow> c);
               origin = (case origin_opt of None \<Rightarrow> default_buffer_origin skv capacity | Some b \<Rightarrow> b);
               off = skv - sq;
               width = required_width sq w qb off origin
           in Some \<lparr>seqlen_q = sq, seqlen_kv = skv, window_size = w, q_block = qb,
                    num_q_blocks = - ((- sq) div qb), buffer_width = width, q_kv_offset = off,
                    is_causal = causal, cache_capacity = capacity, buffer_origin = origin\<rparr>)"

subsection \<open>Stick rounding\<close>

lemma floor_stick_le: "floor_stick v \<le> v"
  and floor_stick_gt: "v - STICK < floor_stick v"
  and floor_stick_dvd [simp]: "STICK dvd floor_stick v"
  and floor_stick_nonneg: "0 \<le> v \<Longrightarrow> 0 \<le> floor_stick v"
  by (auto simp: floor_stick_def STICK_def)

lemma ceil_stick_ge: "v \<le> ceil_stick v"
  and ceil_stick_lt: "ceil_stick v < v + STICK"
  and ceil_stick_dvd [simp]: "STICK dvd ceil_stick v"
  by (auto simp: ceil_stick_def STICK_def)

lemma floor_stick_mono: "a \<le> b \<Longrightarrow> floor_stick a \<le> floor_stick b"
  by (auto simp: floor_stick_def STICK_def zdiv_mono1)

lemmas stick_facts = floor_stick_le floor_stick_gt ceil_stick_ge ceil_stick_lt

subsection \<open>What an accepted plan satisfies\<close>

definition plan_ok :: "SlidingWindowPlan \<Rightarrow> bool" where
  "plan_ok p \<longleftrightarrow>
     0 < seqlen_q p \<and> 0 < q_block p \<and> 0 < window_size p \<and> seqlen_q p \<le> seqlen_kv p \<and>
     seqlen_q p mod q_block p = 0 \<and> num_q_blocks p = seqlen_q p div q_block p \<and>
     STICK dvd cache_capacity p \<and> q_kv_offset p = seqlen_kv p - seqlen_q p \<and>
     0 \<le> buffer_origin p \<and> seqlen_kv p - cache_capacity p \<le> buffer_origin p \<and>
     buffer_width p = required_width (seqlen_q p) (window_size p) (q_block p)
                        (q_kv_offset p) (buffer_origin p) \<and>
     buffer_width p \<le> cache_capacity p \<and>
     buffer_origin p \<le> max 0 (q_kv_offset p - window_size p + 1)"

lemma ceil_div_exact: "(a::int) mod b = 0 \<Longrightarrow> - ((- a) div b) = a div b"
  by (metis dvd_eq_mod_eq_0 dvd_neg_div minus_minus)

lemma rejection_reason_NoneD:
  assumes "rejection_reason sq skv w causal qb cap org = None"
  defines "c \<equiv> (case cap of None \<Rightarrow> skv | Some c \<Rightarrow> c)"
  defines "b \<equiv> (case org of None \<Rightarrow> default_buffer_origin skv c | Some b \<Rightarrow> b)"
  shows "causal" "0 < sq" "0 < qb" "sq mod qb = 0" "0 < w" "sq \<le> skv" "c mod STICK = 0"
    and "default_buffer_origin skv c \<le> b" "b < skv"
    and "required_width sq w qb (skv - sq) b \<le> c" "b \<le> max 0 (skv - sq - w + 1)"
  using assms(1) unfolding rejection_reason_def Let_def b_def c_def
  by (simp_all split: if_split_asm) (auto simp: le_max_iff_disj not_less)

lemma plan_sliding_window_ok:
  assumes "plan_sliding_window sq skv w causal qb cap org = Some p"
  shows "plan_ok p"
proof -
  have nr: "rejection_reason sq skv w causal qb cap org = None"
    using assms by (simp add: plan_sliding_window_def split: if_split_asm)
  note facts = rejection_reason_NoneD [OF nr]
  have eq: "p = the (plan_sliding_window sq skv w causal qb cap org)"
    using assms by simp
  show ?thesis
    unfolding eq using facts nr
    by (simp add: plan_sliding_window_def plan_ok_def Let_def ceil_div_exact dvd_eq_mod_eq_0
        default_buffer_origin_def)
qed

lemma plan_ok_rows:
  assumes "plan_ok p"
  shows "seqlen_q p = num_q_blocks p * q_block p" "0 < q_block p" "0 < num_q_blocks p"
proof -
  from assms have m: "seqlen_q p mod q_block p = 0" and n: "num_q_blocks p = seqlen_q p div q_block p"
    and qb: "0 < q_block p" and sq: "0 < seqlen_q p"
    by (simp_all add: plan_ok_def)
  show eq: "seqlen_q p = num_q_blocks p * q_block p"
    using div_mult_mod_eq [of "seqlen_q p" "q_block p"] m n by simp
  show "0 < q_block p" by (rule qb)
  show "0 < num_q_blocks p" using sq qb unfolding eq by (simp add: zero_less_mult_iff)
qed

lemma block_span_le_width:
  assumes "0 \<le> qi" "qi < - ((- sq) div qb)"
  shows "block_span sq w qb off origin qi \<le> required_width sq w qb off origin"
proof -
  have "block_span sq w qb off origin qi \<le>
          fold (\<lambda>qi widest. max widest (block_span sq w qb off origin qi))
            [0 .. - ((- sq) div qb) - 1] 0"
    using assms by (intro fold_max_ge) simp
  also have "\<dots> \<le> required_width sq w qb off origin"
    unfolding required_width_def by (rule ceil_stick_ge)
  finally show ?thesis .
qed

lemma required_width_dvd [simp]: "STICK dvd required_width sq w qb off origin"
  by (simp add: required_width_def)

lemma block_q_range_full:
  assumes "plan_ok p" "0 \<le> qi" "qi < num_q_blocks p"
  shows "block_q_range p qi = (qi * q_block p, qi * q_block p + q_block p)"
proof -
  note eq = plan_ok_rows(1) [OF assms(1)] and qb = plan_ok_rows(2) [OF assms(1)]
  from assms have "qi + 1 \<le> num_q_blocks p" by simp
  then have "(qi + 1) * q_block p \<le> num_q_blocks p * q_block p"
    using qb by (intro mult_right_mono) simp_all
  then have "qi * q_block p + q_block p \<le> seqlen_q p"
    unfolding eq by (simp add: distrib_right)
  then show ?thesis by (simp add: block_q_range_def Let_def)
qed

text \<open>The block that owns a query row.\<close>

lemma row_block:
  assumes "plan_ok p" "0 \<le> q" "q < seqlen_q p"
  shows "0 \<le> q div q_block p" "q div q_block p < num_q_blocks p"
    and "(q div q_block p) * q_block p \<le> q"
    and "q < (q div q_block p) * q_block p + q_block p"
proof -
  note eq = plan_ok_rows(1) [OF assms(1)] and qb = plan_ok_rows(2) [OF assms(1)]
  show "0 \<le> q div q_block p" using qb assms by (simp add: pos_imp_zdiv_nonneg_iff)
  show "q div q_block p < num_q_blocks p"
  proof (rule ccontr)
    assume "\<not> q div q_block p < num_q_blocks p"
    then have "num_q_blocks p * q_block p \<le> (q div q_block p) * q_block p"
      using qb by (intro mult_right_mono) simp_all
    also have "\<dots> \<le> q"
      using qb by (metis div_mult_mod_eq le_add_same_cancel1 pos_mod_sign)
    finally show False using assms(3) eq by simp
  qed
  show "(q div q_block p) * q_block p \<le> q"
    using qb by (metis div_mult_mod_eq le_add_same_cancel1 pos_mod_sign)
  show "q < (q div q_block p) * q_block p + q_block p"
    using qb by (metis add_strict_left_mono div_mult_mod_eq pos_mod_bound)
qed

text \<open>One block: the read stays inside the allocation, on a stick boundary.\<close>

lemma read_start_bounds:
  assumes ok: "plan_ok p" and qi: "0 \<le> qi" "qi < num_q_blocks p"
  shows "0 \<le> read_start p qi" "read_start p qi + buffer_width p \<le> cache_capacity p"
    and "STICK dvd read_start p qi" "0 < buffer_width p"
proof -
  let ?ws = "max 0 (q_kv_offset p + qi * q_block p - window_size p + 1)"
  have "0 \<le> qi * q_block p" using ok qi by (auto simp: plan_ok_def)
  then have reach: "buffer_origin p \<le> ?ws" using ok by (auto simp: plan_ok_def)
  have rs: "read_start p qi =
      min (floor_stick (?ws - buffer_origin p)) (cache_capacity p - buffer_width p)"
    using block_q_range_full [OF ok qi] by (simp add: read_start_def Let_def)
  have width: "STICK dvd buffer_width p" using ok by (simp add: plan_ok_def)
  show "0 \<le> read_start p qi"
    using reach ok by (auto simp: rs plan_ok_def intro!: floor_stick_nonneg)
  show "read_start p qi + buffer_width p \<le> cache_capacity p" by (simp add: rs)
  show "STICK dvd read_start p qi"
    using ok width by (auto simp: rs min_def plan_ok_def intro: dvd_diff)
  have "0 < block_span (seqlen_q p) (window_size p) (q_block p) (q_kv_offset p) (buffer_origin p) 0"
    using ok floor_stick_le [of "max 0 (q_kv_offset p - window_size p + 1) - buffer_origin p"]
    by (auto simp: block_span_def plan_ok_def Let_def)
  also have "\<dots> \<le> buffer_width p"
    using ok qi by (auto simp: plan_ok_def ceil_div_exact intro!: block_span_le_width)
  finally show "0 < buffer_width p" .
qed

lemma row_window_in_read:
  assumes ok: "plan_ok p" and qi: "0 \<le> qi" "qi < num_q_blocks p"
    and q: "qi * q_block p \<le> q" "q < qi * q_block p + q_block p"
  shows "read_start_logical p qi \<le> fst (row_window p q)"
    and "snd (row_window p q) \<le> read_start_logical p qi + buffer_width p"
    and "fst (row_window p q) < snd (row_window p q)"
proof -
  let ?ws = "max 0 (q_kv_offset p + qi * q_block p - window_size p + 1)"
  have rs: "read_start_logical p qi = buffer_origin p +
      min (floor_stick (?ws - buffer_origin p)) (cache_capacity p - buffer_width p)"
    using block_q_range_full [OF ok qi] by (simp add: read_start_def read_start_logical_def Let_def)
  have fl: "floor_stick (?ws - buffer_origin p) \<le> ?ws - buffer_origin p" by (rule floor_stick_le)
  have qge: "0 \<le> qi * q_block p" using ok qi by (auto simp: plan_ok_def)
  have end_le: "qi * q_block p + q_block p \<le> seqlen_q p"
    using block_q_range_full [OF ok qi] by (simp add: block_q_range_def Let_def min_def split: if_splits)
  show "read_start_logical p qi \<le> fst (row_window p q)"
    using fl q by (auto simp: rs row_window_def Let_def)
  have "block_span (seqlen_q p) (window_size p) (q_block p) (q_kv_offset p) (buffer_origin p) qi
          \<le> buffer_width p"
    using ok qi by (auto simp: plan_ok_def ceil_div_exact intro!: block_span_le_width)
  then have width: "q_kv_offset p + qi * q_block p + q_block p - buffer_origin p
      \<le> floor_stick (?ws - buffer_origin p) + buffer_width p"
    using end_le by (simp add: block_span_def Let_def min_def algebra_simps split: if_splits)
  show "snd (row_window p q) \<le> read_start_logical p qi + buffer_width p"
    using width q ok by (auto simp: rs row_window_def Let_def plan_ok_def min_def)
  show "fst (row_window p q) < snd (row_window p q)"
    using ok q end_le qge by (auto simp: row_window_def Let_def plan_ok_def)
qed

lemma scan_down_sticks:
  assumes "STICK dvd padded" "STICK dvd c"
  defines "r \<equiv> scan_q_block padded (down_sticks c)"
  shows "r dvd padded \<and> STICK dvd r \<and>
    (\<forall>d. 0 < d \<and> STICK dvd d \<and> d \<le> c \<and> d dvd padded \<longrightarrow> d \<le> r)"
  using assms(2) unfolding r_def
proof (induction c rule: down_sticks.induct)
  case (1 c)
  show ?case
  proof (cases "c > STICK - 1")
    case False
    then have "\<not> (0 < d \<and> STICK dvd d \<and> d \<le> c)" for d
      by (auto simp: STICK_def dest: zdvd_imp_le)
    with False assms(1) show ?thesis by (auto simp: down_sticks.simps [of c])
  next
    case True
    show ?thesis
    proof (cases "padded mod c = 0")
      case True
      with \<open>c > STICK - 1\<close> "1.prems" show ?thesis
        by (auto simp: down_sticks.simps [of c] dvd_eq_mod_eq_0)
    next
      case no: False
      have IH: "scan_q_block padded (down_sticks (c - STICK)) dvd padded"
          "STICK dvd scan_q_block padded (down_sticks (c - STICK))"
          "\<And>d. 0 < d \<Longrightarrow> STICK dvd d \<Longrightarrow> d \<le> c - STICK \<Longrightarrow> d dvd padded \<Longrightarrow>
             d \<le> scan_q_block padded (down_sticks (c - STICK))"
        using "1.IH" [OF True] "1.prems" by auto
      have "d \<le> c - STICK" if "STICK dvd d" "d \<le> c" "d dvd padded" for d
      proof -
        have "d \<noteq> c" using that no by (auto simp: dvd_eq_mod_eq_0)
        moreover have "STICK dvd c - d" using that "1.prems" by simp
        ultimately show ?thesis using that by (auto simp: STICK_def dest: zdvd_imp_le)
      qed
      with IH True no show ?thesis by (auto simp: down_sticks.simps [of c])
    qed
  qed
qed

subsection \<open>Properties\<close>

text \<open>C21: every query row of an accepted plan is served.  The block that owns the row reads
  a stick-aligned slice inside the cache allocation, and the row's whole (non-empty)
  attention window lies inside the slice its block reads.\<close>

theorem sliding_window_row_served:
  assumes "plan_sliding_window sq skv w causal qb cap org = Some p"
    and "0 \<le> q" "q < sq"
  defines "qi \<equiv> q div q_block p"
  shows "0 \<le> read_start p qi \<and> read_start p qi + buffer_width p \<le> cache_capacity p \<and>
    STICK dvd read_start p qi \<and>
    fst (row_window p q) < snd (row_window p q) \<and>
    {fst (row_window p q)..<snd (row_window p q)} \<subseteq>
      {read_start_logical p qi..<read_start_logical p qi + buffer_width p}"
proof -
  have ok: "plan_ok p" using assms(1) by (rule plan_sliding_window_ok)
  have "seqlen_q p = sq"
    using assms(1) by (auto simp: plan_sliding_window_def Let_def split: if_split_asm)
  with assms have q: "0 \<le> q" "q < seqlen_q p" by simp_all
  note rb = row_block [OF ok q, folded qi_def]
  show ?thesis
    using read_start_bounds [OF ok rb(1,2)] row_window_in_read [OF ok rb] by simp
qed

lemma sliding_window_row_served_witness:
  "\<exists>p. plan_sliding_window 64 4096 100 True 64 None None = Some p \<and>
     {fst (row_window p 10)..<snd (row_window p 10)} \<subseteq>
       {read_start_logical p 0..<read_start_logical p 0 + buffer_width p}"
proof -
  obtain p where p: "plan_sliding_window 64 4096 100 True 64 None None = Some p"
      and qb: "q_block p = 64"
    by (simp add: plan_sliding_window_def rejection_reason_def default_buffer_origin_def
        required_width_def block_span_def floor_stick_def ceil_stick_def STICK_def Let_def
        upto.simps)
  from sliding_window_row_served [OF p, of 10] qb p show ?thesis by auto
qed

text \<open>the mask of a block may be skipped exactly when it masks nothing.
  \<open>block_is_fully_attended\<close> holds iff every column the block reads is inside the window of
  every row of the block.\<close>

theorem fully_attended_iff_no_column_masked:
  assumes "plan_sliding_window sq skv w causal qb cap org = Some p"
    and "0 \<le> qi" "qi < num_q_blocks p"
  shows "block_is_fully_attended p qi \<longleftrightarrow>
    (\<forall>q\<in>{fst (block_q_range p qi)..<snd (block_q_range p qi)}.
       \<forall>col\<in>{read_start_logical p qi..<read_start_logical p qi + buffer_width p}.
         fst (row_window p q) \<le> col \<and> col < snd (row_window p q))"
proof -
  have ok: "plan_ok p" using assms(1) by (rule plan_sliding_window_ok)
  have w: "0 < buffer_width p" by (rule read_start_bounds(4) [OF ok assms(2,3)])
  have rows: "{a..b - 1} = {a..<b}" for a b :: int by auto
  show ?thesis
    unfolding interval_cover_iff [OF w]
    by (simp add: block_is_fully_attended_def Let_def split_beta list_all_iff rows)
qed

lemma fully_attended_iff_no_column_masked_witness:
  "\<exists>p. plan_sliding_window 1 4096 128 True 1 None None = Some p \<and>
     block_is_fully_attended p 0 \<and> fst (row_window p 0) \<le> read_start_logical p 0 \<and>
     read_start_logical p 0 < snd (row_window p 0)"
proof -
  obtain p where p: "plan_sliding_window 1 4096 128 True 1 None None = Some p"
      and n: "num_q_blocks p = 1" and full: "block_is_fully_attended p 0"
      and rows: "0 \<in> {fst (block_q_range p 0)..<snd (block_q_range p 0)}"
      and cols: "read_start_logical p 0 \<in> {read_start_logical p 0..<read_start_logical p 0 + buffer_width p}"
    by (simp add: plan_sliding_window_def rejection_reason_def default_buffer_origin_def
        required_width_def block_span_def floor_stick_def ceil_stick_def STICK_def Let_def
        upto.simps block_is_fully_attended_def read_start_logical_def read_start_def
        block_q_range_def row_window_def)
  have "0 < num_q_blocks p" using n by simp
  from fully_attended_iff_no_column_masked [OF p order.refl this] full rows cols p
  show ?thesis by blast
qed

text \<open>\<open>query_blocking\<close> with a stick-multiple bound: the padded length is the query rounded
  up to a stick, the block divides it, is a stick multiple, and no larger stick-aligned
  divisor within the bound exists.\<close>

theorem query_blocking_largest_divisor:
  assumes "1 < sq" "STICK dvd bound" "0 < bound"
  defines "qb \<equiv> fst (query_blocking sq bound)" and "padded \<equiv> snd (query_blocking sq bound)"
  shows "sq \<le> padded \<and> padded < sq + STICK \<and> qb dvd padded \<and> STICK dvd qb \<and> STICK dvd padded \<and>
    (\<forall>d. 0 < d \<and> STICK dvd d \<and> d \<le> min bound MAX_QUERY_BLOCK \<and> d dvd padded \<longrightarrow> d \<le> qb)"
proof -
  have eqs: "padded = ceil_stick sq"
      "qb = scan_q_block padded (down_sticks (min padded (min bound MAX_QUERY_BLOCK)))"
    using assms(1) by (auto simp: qb_def padded_def query_blocking_def Let_def)
  have pos: "0 < padded" using assms(1) ceil_stick_ge [of sq] eqs by simp
  have dvd: "STICK dvd padded" "STICK dvd min padded (min bound MAX_QUERY_BLOCK)"
    using assms(2) by (simp_all add: eqs(1) min_def) (simp add: MAX_QUERY_BLOCK_def STICK_def)
  have "d \<le> padded" if "d dvd padded" for d using that pos by (rule zdvd_imp_le)
  then show ?thesis
    using scan_down_sticks [OF dvd] ceil_stick_ge [of sq] ceil_stick_lt [of sq] dvd
    unfolding eqs(2) [symmetric] by (auto simp: eqs(1))
qed

lemma query_blocking_largest_divisor_witness:
  "snd (query_blocking 1000 512) = 1024 \<and> STICK dvd fst (query_blocking 1000 512)"
  using query_blocking_largest_divisor [of 1000 512]
  by (simp add: STICK_def query_blocking_def ceil_stick_def)

end
