(* ===== verification/Plan_Solver.thy ===== *)
theory Plan_Solver
  imports Prelude
begin

text \<open>
  The data model and the solver base class of scratchpad planning
  (\<open>torch_spyre/_inductor/scratchpad/plan_solver.py\<close>).

  The subclass \<open>CoreDivisionBuffer\<close> extends the record of \<open>LifetimeBoundBuffer\<close>, and the solvers
  take lists of the extended record, \<open>buffer\<close>: the subclass's fields have defaults under which
  every overridden method agrees with the base class (no candidate divisions: \<open>min_footprint\<close> is \<open>size\<close>).  A reference to another
  buffer object is its index in the solver's list.  \<open>uses\<close> may be empty while a buffer is
  being registered; reading \<open>start_time\<close> or \<open>end_time\<close> then raises \<open>IndexError\<close> in the
  source, and every operation that reads them first checks \<open>uses_known\<close>.
\<close>

subsection \<open>Coarse tilings and core divisions\<close>

record TileAxis =
  host_dim :: int
  axis_count :: int
  axis_is_reduction :: bool

type_synonym TileSpec = "TileAxis list"

definition is_untiled :: "TileSpec \<Rightarrow> bool" where
  "is_untiled axes = (axes = [])"

definition depth :: "TileSpec \<Rightarrow> nat" where
  "depth axes = length axes"

definition tile_count :: "TileSpec \<Rightarrow> int" where
  "tile_count axes = prod_list (map axis_count axes)"

definition level_counts :: "TileSpec \<Rightarrow> int list" where
  "level_counts axes = map axis_count axes"

definition output_tile_count :: "TileSpec \<Rightarrow> int" where
  "output_tile_count axes = prod_list (map axis_count (filter (\<lambda>a. \<not> axis_is_reduction a) axes))"

definition count_for :: "TileSpec \<Rightarrow> int \<times> bool \<Rightarrow> int" where
  "count_for axes key =
     prod_list (map axis_count (filter (\<lambda>a. (host_dim a, axis_is_reduction a) = key) axes))"

definition is_clean :: "TileSpec \<Rightarrow> bool" where
  "is_clean axes = (\<not> list_ex axis_is_reduction axes)"

record CoreDivision =
  splits :: "(string \<times> int) list"
  reduction_syms :: "string list"
  tiling :: TileSpec
  tile_splits :: "(string \<times> int) list"

definition cores_used :: "CoreDivision \<Rightarrow> int" where
  "cores_used cd = prod_list (map snd (splits cd))"

definition output_splits :: "CoreDivision \<Rightarrow> (string \<times> int) list" where
  "output_splits cd = filter (\<lambda>(s, v). s \<notin> set (reduction_syms cd)) (splits cd)"

definition reduction_splits :: "CoreDivision \<Rightarrow> (string \<times> int) list" where
  "reduction_splits cd = filter (\<lambda>(s, v). s \<in> set (reduction_syms cd)) (splits cd)"

definition output_partition :: "CoreDivision \<Rightarrow> int" where
  "output_partition cd = prod_list (map snd (output_splits cd))"

definition ceil_div :: "int \<Rightarrow> int \<Rightarrow> int res" where
  "ceil_div a b = (if b = 0 then Inl ZeroDivisionError else Inr (- ((- a) div b)))"

subsection \<open>Buffers\<close>

datatype BufferType = Intermediate | Input | Output

datatype exclusion =
    Reason string
  | FootprintOverCapacity int int

record LifetimeBoundBuffer =
  b_name :: string
  b_size :: int
  uses :: "int list"
  first_use_is_read :: bool
  address :: "int option"
  in_place_parents :: "string list"
  residency_reason :: "string option"
  untiled_bar :: "string option"
  lifetime_start_override :: "int option"
  lifetime_end_override :: "int option"
  paired_with :: "nat list"
  spill_reason :: "exclusion option"

record CoreDivisionBuffer = LifetimeBoundBuffer +
  core_divisions :: "CoreDivision list"
  cd_parents :: "string list"
  cd_parent_matches :: "(string \<times> (nat \<times> nat) list) list"
  chosen_division :: "nat option"
  boundary :: BufferType

type_synonym buffer = CoreDivisionBuffer

fun strictly_increasing :: "int list \<Rightarrow> bool" where
  "strictly_increasing (a # b # xs) = (a < b \<and> strictly_increasing (b # xs))"
| "strictly_increasing xs = True"

definition post_init :: "buffer \<Rightarrow> unit res" where
  "post_init b =
     bindE (check (strictly_increasing (uses b)) AssertionError) (\<lambda>_.
     bindE (case lifetime_start_override b of
              Some v \<Rightarrow> if uses b \<noteq> [] then check (v \<le> hd (uses b)) AssertionError else Inr ()
            | None \<Rightarrow> Inr ()) (\<lambda>_.
     (case lifetime_end_override b of
        Some v \<Rightarrow> if uses b \<noteq> [] then check (v \<ge> last (uses b) + 1) AssertionError else Inr ()
      | None \<Rightarrow> Inr ())))"

definition read_count :: "buffer \<Rightarrow> int" where
  "read_count b = max 0 (int (length (uses b)) - (if first_use_is_read b then 0 else 1))"

definition uses_known :: "buffer \<Rightarrow> bool" where
  "uses_known b = (uses b \<noteq> [])"

definition start_time :: "buffer \<Rightarrow> int" where
  "start_time b =
     (let nominal = hd (uses b)
      in min nominal (case lifetime_start_override b of Some v \<Rightarrow> v | None \<Rightarrow> nominal))"

text \<open>\<open>self.lifetime_end_override or nominal\<close>: an override of 0 is falsy.\<close>

definition end_time :: "buffer \<Rightarrow> int" where
  "end_time b =
     (let nominal = last (uses b) + 1
      in max nominal (case lifetime_end_override b of
                        None \<Rightarrow> nominal
                      | Some v \<Rightarrow> if v = 0 then nominal else v))"

definition overlaps_in_time :: "buffer \<Rightarrow> buffer \<Rightarrow> bool" where
  "overlaps_in_time a b = (start_time a < end_time b \<and> start_time b < end_time a)"

definition per_core_size :: "buffer \<Rightarrow> nat \<Rightarrow> int res" where
  "per_core_size b division =
     (if division < length (core_divisions b)
      then let cd = core_divisions b ! division
           in ceil_div (b_size b) (output_partition cd * output_tile_count (tiling cd))
      else Inl IndexError)"

definition min_footprint :: "buffer \<Rightarrow> int res" where
  "min_footprint b =
     (if core_divisions b = [] then Inr (b_size b)
      else bindE (mapE (per_core_size b) [0..<length (core_divisions b)])
             (\<lambda>sizes. Inr (Min (set sizes))))"

subsection \<open>In-place invariants\<close>

definition check_in_place_parent_is_read :: "buffer \<Rightarrow> unit res" where
  "check_in_place_parent_is_read parent =
     (let has_read_after_write =
        length (uses parent) > 1 \<and> last (uses parent) > hd (uses parent)
      in check (first_use_is_read parent \<or> has_read_after_write) ValueError)"

definition by_name :: "buffer list \<Rightarrow> string \<Rightarrow> buffer option" where
  "by_name bs n = last_such (\<lambda>b. b_name b = n) bs"

definition check_in_place_pair :: "buffer \<Rightarrow> buffer \<Rightarrow> unit res" where
  "check_in_place_pair parent child =
     bindE (check (uses_known parent \<and> uses_known child) IndexError) (\<lambda>_.
     bindE (check (end_time parent = start_time child + 1) ValueError) (\<lambda>_.
     bindE (check_in_place_parent_is_read parent) (\<lambda>_.
       if core_divisions parent = [] \<and> core_divisions child = []
       then check (b_size child \<le> b_size parent) ValueError
       else Inr ())))"

definition check_in_place_relationships :: "buffer list \<Rightarrow> unit res" where
  "check_in_place_relationships buffers =
     forE (\<lambda>child. forE (\<lambda>parent_name.
       (case by_name buffers parent_name of
          None \<Rightarrow> Inr ()
        | Some parent \<Rightarrow> check_in_place_pair parent child)) (in_place_parents child)) buffers"

subsection \<open>The solver base class\<close>

record capabilities =
  chooses_core_divisions :: bool
  supports_paired_buffers :: bool
  decides_lx_relayouts :: bool
  generates_divisions :: bool
  chooses_tilings :: bool
  tilings_from_menu :: bool
  linear_cost_only :: bool

text \<open>\<open>__init_subclass__\<close> of a concrete solver class: \<open>is_cdls\<close> says whether it derives from
  \<open>CoreDivisionLayoutSolver\<close>.\<close>

definition init_subclass :: "bool \<Rightarrow> capabilities \<Rightarrow> unit res" where
  "init_subclass is_cdls c =
     bindE (check (chooses_core_divisions c = is_cdls) TypeError) (\<lambda>_.
     forE (\<lambda>(implied, prerequisite). check (\<not> (implied \<and> \<not> prerequisite)) TypeError)
       [(decides_lx_relayouts c, chooses_core_divisions c),
        (generates_divisions c, chooses_core_divisions c),
        (chooses_tilings c, chooses_core_divisions c),
        (linear_cost_only c, chooses_core_divisions c),
        (tilings_from_menu c, chooses_tilings c)])"

record solver =
  s_buffers :: "buffer list"
  s_limit :: int
  s_alignment :: int
  s_caps :: capabilities

definition init_solver :: "capabilities \<Rightarrow> buffer list \<Rightarrow> int \<Rightarrow> int \<Rightarrow> solver res" where
  "init_solver caps buffers sz alignment =
     bindE (check (supports_paired_buffers caps \<or> (\<forall>b\<in>set buffers. paired_with b = []))
              AssertionError)
       (\<lambda>_. Inr \<lparr>s_buffers = buffers, s_limit = sz, s_alignment = alignment, s_caps = caps\<rparr>)"

definition excluded :: "solver \<Rightarrow> buffer \<Rightarrow> exclusion option res" where
  "excluded s b =
     (let by_size = bindE (min_footprint b) (\<lambda>fp.
            Inr (if fp > s_limit s then Some (FootprintOverCapacity fp (s_limit s)) else None))
      in case residency_reason b of
           Some r \<Rightarrow> Inr (Some (Reason r))
         | None \<Rightarrow>
             (case untiled_bar b of
                Some r \<Rightarrow> if \<not> tilings_from_menu (s_caps s) then Inr (Some (Reason r)) else by_size
              | None \<Rightarrow> by_size))"

definition record_exclusions :: "solver \<Rightarrow> (solver \<times> (string \<times> exclusion) list) res" where
  "record_exclusions s =
     bindE (mapE (excluded s) (s_buffers s)) (\<lambda>verdicts.
       let marked = map2 (\<lambda>b v. b\<lparr>spill_reason := v\<rparr>) (s_buffers s) verdicts;
           reasons = concat (map2 (\<lambda>b v. case v of None \<Rightarrow> [] | Some r \<Rightarrow> [(b_name b, r)])
                       (s_buffers s) verdicts)
       in Inr (s\<lparr>s_buffers := marked\<rparr>, reasons))"

text \<open>\<open>partition\<close> returns references (indices) to the placeable and the excluded buffers.\<close>

definition partition :: "solver \<Rightarrow> (solver \<times> nat list \<times> nat list) res" where
  "partition s =
     bindE (record_exclusions s) (\<lambda>(s', reasons).
       let names = set (map fst reasons);
           is = [0..<length (s_buffers s')]
       in Inr (s', filter (\<lambda>i. b_name (s_buffers s' ! i) \<notin> names) is,
                   filter (\<lambda>i. b_name (s_buffers s' ! i) \<in> names) is))"

subsection \<open>Lifetimes\<close>

lemma strictly_increasing_hd_le: "strictly_increasing (x # xs) \<Longrightarrow> y \<in> set (x # xs) \<Longrightarrow> x \<le> y"
proof (induction xs arbitrary: x)
  case (Cons z zs)
  then show ?case by (cases "y = x") force+
qed simp

lemma strictly_increasing_sorted: "strictly_increasing xs \<Longrightarrow> sorted_wrt (<) xs"
proof (induction xs rule: strictly_increasing.induct)
  case (1 a b xs)
  then show ?case using strictly_increasing_hd_le [of b xs] by fastforce
qed auto

lemma post_initD:
  assumes "post_init b = Inr ()" "uses_known b"
  shows "start_time b \<le> hd (uses b)" "last (uses b) < end_time b"
    and "hd (uses b) \<le> last (uses b)" "start_time b < end_time b"
proof -
  obtain x xs where u: "uses b = x # xs" using assms(2) by (cases "uses b") (auto simp: uses_known_def)
  have "strictly_increasing (uses b)" using assms(1) by (simp add: post_init_def)
  then have hl: "hd (uses b) \<le> last (uses b)"
    using strictly_increasing_hd_le [of x xs "last (x # xs)"] u by auto
  moreover have s: "start_time b \<le> hd (uses b)" by (simp add: start_time_def Let_def)
  moreover have e: "last (uses b) < end_time b" by (auto simp: end_time_def Let_def)
  ultimately show "start_time b < end_time b" by simp
  show "start_time b \<le> hd (uses b)" "last (uses b) < end_time b" "hd (uses b) \<le> last (uses b)"
    using s e hl by auto
qed

lemma overlaps_in_time_sym: "overlaps_in_time a b = overlaps_in_time b a"
  by (auto simp: overlaps_in_time_def)

subsection \<open>Footprints\<close>

lemma ceil_div_bounds:
  assumes "ceil_div a b = Inr r" "0 < b"
  shows "a \<le> r * b" "(r - 1) * b < a"
proof -
  from assms have r: "r = - ((- a) div b)" by (simp add: ceil_div_def)
  have eq: "- a = ((- a) div b) * b + (- a) mod b" by simp
  have m: "0 \<le> (- a) mod b" "(- a) mod b < b" using assms(2) by simp_all
  have "r * b = a + (- a) mod b" using eq unfolding r by linarith
  with m show "a \<le> r * b" "(r - 1) * b < a" by (auto simp: left_diff_distrib)
qed

lemma ceil_div_exact_multiple: "0 < b \<Longrightarrow> ceil_div (a * b) b = Inr a"
  using nonzero_mult_div_cancel_right [of b "- a"] by (simp add: ceil_div_def)

lemma min_footprint_least:
  assumes "min_footprint b = Inr m" "i < length (core_divisions b)"
  shows "\<exists>r. per_core_size b i = Inr r \<and> m \<le> r"
proof -
  from assms have "core_divisions b \<noteq> []" by auto
  with assms(1) obtain sizes where sizes: "mapE (per_core_size b) [0..<length (core_divisions b)] = Inr sizes"
      and m: "m = Min (set sizes)"
    by (auto simp: min_footprint_def)
  have i: "per_core_size b i = Inr (sizes ! i)"
    using mapE_Inr_nth [OF sizes, of i] assms(2) by simp
  have "i < length sizes" using mapE_length [OF sizes] assms(2) by simp
  then have "m \<le> sizes ! i" unfolding m by (intro Min_le) auto
  with i show ?thesis by blast
qed

lemma min_footprint_attained:
  assumes "min_footprint b = Inr m" "core_divisions b \<noteq> []"
  shows "\<exists>i<length (core_divisions b). per_core_size b i = Inr m"
proof -
  from assms obtain sizes where sizes: "mapE (per_core_size b) [0..<length (core_divisions b)] = Inr sizes"
      and m: "m = Min (set sizes)"
    by (auto simp: min_footprint_def)
  have "sizes \<noteq> []" using mapE_length [OF sizes] assms(2) by auto
  then have "m \<in> set sizes" unfolding m by (intro Min_in) auto
  then obtain i where i: "i < length sizes" "sizes ! i = m" by (auto simp: in_set_conv_nth)
  with mapE_Inr_nth [OF sizes, of i] mapE_length [OF sizes] show ?thesis by auto
qed

subsection \<open>What planning never changes\<close>

text \<open>Planning writes \<open>address\<close> and \<open>spill_reason\<close> only; \<open>static\<close> forgets the two.\<close>

definition static :: "buffer \<Rightarrow> buffer" where
  "static b = b\<lparr>address := None, spill_reason := None\<rparr>"

lemma static_idem [simp]: "static (static b) = static b"
  by (simp add: static_def)

lemma static_update [simp]:
  "static (b\<lparr>address := a\<rparr>) = static b" "static (b\<lparr>spill_reason := r\<rparr>) = static b"
  by (simp_all add: static_def)

lemma static_fields [simp]:
  "b_name (static b) = b_name b" "b_size (static b) = b_size b" "uses (static b) = uses b"
  "in_place_parents (static b) = in_place_parents b"
  "core_divisions (static b) = core_divisions b"
  "start_time (static b) = start_time b" "end_time (static b) = end_time b"
  "uses_known (static b) = uses_known b"
  "paired_with (static b) = paired_with b" "first_use_is_read (static b) = first_use_is_read b"
  "address (static b) = None"
  by (simp_all add: static_def start_time_def end_time_def uses_known_def)

lemma post_init_static [simp]: "post_init (static b) = post_init b"
  by (cases "lifetime_start_override b"; cases "lifetime_end_override b")
     (simp_all add: post_init_def static_def)

lemma static_eqD:
  assumes "static b = static c"
  shows "b_name b = b_name c" "b_size b = b_size c" "uses b = uses c"
    "in_place_parents b = in_place_parents c" "core_divisions b = core_divisions c"
    "start_time b = start_time c" "end_time b = end_time c" "uses_known b = uses_known c"
    "post_init b = post_init c" "paired_with b = paired_with c"
    "first_use_is_read b = first_use_is_read c"
  using assms by (metis static_fields post_init_static)+

definition same_static :: "buffer list \<Rightarrow> buffer list \<Rightarrow> bool" where
  "same_static bs bs' = (map static bs = map static bs')"

lemma same_static_refl [simp]: "same_static bs bs"
  by (simp add: same_static_def)

lemma same_static_trans: "same_static as bs \<Longrightarrow> same_static bs cs \<Longrightarrow> same_static as cs"
  by (simp add: same_static_def)

lemma same_static_length: "same_static bs bs' \<Longrightarrow> length bs' = length bs"
  unfolding same_static_def by (metis length_map)

lemma same_static_nth: "same_static bs bs' \<Longrightarrow> i < length bs \<Longrightarrow> static (bs' ! i) = static (bs ! i)"
  unfolding same_static_def by (metis length_map nth_map)

lemma same_static_names: "same_static bs bs' \<Longrightarrow> map b_name bs' = map b_name bs"
proof -
  assume "same_static bs bs'"
  then have "map b_name (map static bs) = map b_name (map static bs')"
    by (simp only: same_static_def)
  then show ?thesis by (simp add: comp_def)
qed

lemma same_static_update:
  "same_static bs bs' \<Longrightarrow> same_static bs (bs'[i := (bs' ! i)\<lparr>address := a\<rparr>])"
proof (cases "i < length bs'")
  case True
  then have "map static (bs'[i := (bs' ! i)\<lparr>address := a\<rparr>]) = (map static bs')[i := map static bs' ! i]"
    by (simp add: map_update)
  also have "\<dots> = map static bs'" by (rule list_update_id)
  finally show "same_static bs bs' \<Longrightarrow> ?thesis" by (simp add: same_static_def)
qed (simp add: list_update_beyond)

subsection \<open>Excluding buffers\<close>

lemma record_exclusions_Inr:
  assumes "record_exclusions s = Inr (s', reasons)"
  shows "same_static (s_buffers s) (s_buffers s')" "s_limit s' = s_limit s"
    and "s_alignment s' = s_alignment s" "s_caps s' = s_caps s"
    and "\<forall>i<length (s_buffers s). excluded s (s_buffers s ! i) = Inr (spill_reason (s_buffers s' ! i))"
    and "\<forall>i<length (s_buffers s). address (s_buffers s' ! i) = address (s_buffers s ! i)"
    and "set (map fst reasons) =
      {b_name (s_buffers s ! i) | i. i < length (s_buffers s) \<and> excluded s (s_buffers s ! i) \<noteq> Inr None}"
proof -
  from assms obtain verdicts where v: "mapE (excluded s) (s_buffers s) = Inr verdicts"
      and s': "s' = s\<lparr>s_buffers := map2 (\<lambda>b v. b\<lparr>spill_reason := v\<rparr>) (s_buffers s) verdicts\<rparr>"
      and rs: "reasons = concat (map2 (\<lambda>b v. case v of None \<Rightarrow> [] | Some r \<Rightarrow> [(b_name b, r)])
                 (s_buffers s) verdicts)"
    by (auto simp: record_exclusions_def Let_def)
  note len = mapE_length [OF v] and nth = mapE_Inr_nth [OF v]
  show "same_static (s_buffers s) (s_buffers s')"
    unfolding same_static_def s' by (rule nth_equalityI) (auto simp: len)
  show "s_limit s' = s_limit s" "s_alignment s' = s_alignment s" "s_caps s' = s_caps s"
    by (simp_all add: s')
  show "\<forall>i<length (s_buffers s). excluded s (s_buffers s ! i) = Inr (spill_reason (s_buffers s' ! i))"
    and "\<forall>i<length (s_buffers s). address (s_buffers s' ! i) = address (s_buffers s ! i)"
    using nth len by (auto simp: s')
  have one: "fst ` set (case v of None \<Rightarrow> [] | Some r \<Rightarrow> [(n, r)]) = (if v = None then {} else {n})"
    for v :: "exclusion option" and n :: string
    by (cases v) simp_all
  have "x \<in> set (map fst reasons) \<longleftrightarrow>
      (\<exists>i<length (s_buffers s). x = b_name (s_buffers s ! i) \<and> verdicts ! i \<noteq> None)" for x
    unfolding rs set_map set_concat_map2 [OF len [symmetric]] image_UN one
    by auto
  then have "set (map fst reasons) =
      {x. \<exists>i<length (s_buffers s). x = b_name (s_buffers s ! i) \<and> verdicts ! i \<noteq> None}"
    by (intro set_eqI) (simp only: mem_Collect_eq)
  also have "\<dots> =
      {b_name (s_buffers s ! i) | i. i < length (s_buffers s) \<and> excluded s (s_buffers s ! i) \<noteq> Inr None}"
    using nth by (intro Collect_cong) auto
  finally show "set (map fst reasons) =
      {b_name (s_buffers s ! i) | i. i < length (s_buffers s) \<and> excluded s (s_buffers s ! i) \<noteq> Inr None}" .
qed

lemma partition_Inr:
  assumes "partition s = Inr (s', placeable, barred)"
  shows "same_static (s_buffers s) (s_buffers s')" "s_limit s' = s_limit s"
    and "s_alignment s' = s_alignment s"
    and "\<forall>i<length (s_buffers s). address (s_buffers s' ! i) = address (s_buffers s ! i)"
    and "distinct placeable" "set placeable \<subseteq> {..<length (s_buffers s)}"
    and "\<forall>i\<in>set placeable. excluded s (s_buffers s ! i) = Inr None"
proof -
  from assms obtain reasons where r: "record_exclusions s = Inr (s', reasons)"
      and p: "placeable = filter (\<lambda>i. b_name (s_buffers s' ! i) \<notin> set (map fst reasons))
                [0..<length (s_buffers s')]"
    by (auto simp: partition_def Let_def)
  note f = record_exclusions_Inr [OF r]
  show "same_static (s_buffers s) (s_buffers s')" "s_limit s' = s_limit s"
      "s_alignment s' = s_alignment s"
      "\<forall>i<length (s_buffers s). address (s_buffers s' ! i) = address (s_buffers s ! i)"
    using f by simp_all
  have len: "length (s_buffers s') = length (s_buffers s)"
    using f(1) by (rule same_static_length)
  show "distinct placeable" "set placeable \<subseteq> {..<length (s_buffers s)}"
    using len by (auto simp: p)
  show "\<forall>i\<in>set placeable. excluded s (s_buffers s ! i) = Inr None"
  proof
    fix i assume "i \<in> set placeable"
    then have i: "i < length (s_buffers s)"
        and n: "b_name (s_buffers s' ! i) \<notin> set (map fst reasons)"
      using len by (auto simp: p)
    have "b_name (s_buffers s' ! i) = b_name (s_buffers s ! i)"
      using same_static_nth [OF f(1) i] by (rule static_eqD)
    with n i show "excluded s (s_buffers s ! i) = Inr None"
      unfolding f(7) by auto
  qed
qed

lemma record_exclusions_barred:
  assumes "record_exclusions s = Inr (s', reasons)" "i < length (s_buffers s)"
    and "spill_reason (s_buffers s' ! i) \<noteq> None"
  shows "b_name (s_buffers s' ! i) \<in> set (map fst reasons)"
proof -
  note f = record_exclusions_Inr [OF assms(1)]
  have "b_name (s_buffers s' ! i) = b_name (s_buffers s ! i)"
    using same_static_nth [OF f(1) assms(2)] by (rule static_eqD)
  with f(5,7) assms(2,3) show ?thesis by auto
qed

subsection \<open>The placement contract\<close>

text \<open>What a placement-only solver is given: distinct names, constructed buffers (so
  \<open>__post_init__\<close> passed), non-negative sizes, and no candidate divisions left to choose,
  so \<open>size\<close> is the footprint to pack.\<close>

definition placement_input :: "buffer list \<Rightarrow> bool" where
  "placement_input bs \<longleftrightarrow> distinct (map b_name bs) \<and>
     (\<forall>b\<in>set bs. 0 \<le> b_size b \<and> post_init b = Inr () \<and> core_divisions b = [])"

definition in_place_pair :: "buffer \<Rightarrow> buffer \<Rightarrow> bool" where
  "in_place_pair a b \<longleftrightarrow> b_name a \<in> set (in_place_parents b) \<or> b_name b \<in> set (in_place_parents a)"

text \<open>Two placed buffers may share bytes while both are live only by an in-place handover,
  and then they start at the same address.\<close>

definition compatible :: "buffer \<Rightarrow> buffer \<Rightarrow> bool" where
  "compatible a b \<longleftrightarrow>
     (\<forall>x y. address a = Some x \<longrightarrow> address b = Some y \<longrightarrow> overlaps_in_time a b \<longrightarrow>
        disjoint_iv x (x + b_size a) y (y + b_size b) \<or> (x = y \<and> in_place_pair a b))"

definition placed_in_bounds :: "int \<Rightarrow> buffer \<Rightarrow> bool" where
  "placed_in_bounds limit b \<longleftrightarrow>
     (\<forall>x. address b = Some x \<longrightarrow> 0 \<le> x \<and> x + b_size b \<le> limit)"

definition layout_ok :: "int \<Rightarrow> buffer list \<Rightarrow> bool" where
  "layout_ok limit bs \<longleftrightarrow>
     (\<forall>i<length bs. placed_in_bounds limit (bs ! i)) \<and>
     (\<forall>i<length bs. \<forall>j<length bs. i \<noteq> j \<longrightarrow> compatible (bs ! i) (bs ! j))"

lemma compatible_sym: "compatible a b \<Longrightarrow> compatible b a"
  unfolding compatible_def in_place_pair_def
  by (metis disjoint_iv_sym overlaps_in_time_sym)

definition pairs_ok :: "buffer list \<Rightarrow> bool" where
  "pairs_ok bs \<longleftrightarrow> (\<forall>i<length bs. \<forall>j<length bs. b_name (bs ! j) \<in> set (in_place_parents (bs ! i)) \<longrightarrow>
     end_time (bs ! j) = start_time (bs ! i) + 1 \<and> b_size (bs ! i) \<le> b_size (bs ! j))"

lemma by_name_distinct:
  assumes "distinct (map b_name bs)" "i < length bs"
  shows "by_name bs (b_name (bs ! i)) = Some (bs ! i)"
  unfolding by_name_def
proof (rule last_such_unique)
  fix b assume "b \<in> set bs" "b_name b = b_name (bs ! i)"
  with assms show "b = bs ! i"
    by (metis in_set_conv_nth length_map nth_eq_iff_index_eq nth_map)
qed (use assms in simp_all)

lemma check_in_place_pairs_ok:
  assumes "check_in_place_relationships bs = Inr ()" "placement_input bs"
  shows "pairs_ok bs"
  unfolding pairs_ok_def
proof (intro allI impI)
  fix i j assume i: "i < length bs" and j: "j < length bs"
    and par: "b_name (bs ! j) \<in> set (in_place_parents (bs ! i))"
  have nodiv: "core_divisions (bs ! i) = []" "core_divisions (bs ! j) = []"
    using assms(2) i j by (auto simp: placement_input_def)
  have "by_name bs (b_name (bs ! j)) = Some (bs ! j)"
    using assms(2) j by (intro by_name_distinct) (auto simp: placement_input_def)
  moreover have "bs ! i \<in> set bs" using i by simp
  ultimately have "check_in_place_pair (bs ! j) (bs ! i) = Inr ()"
    using assms(1) par unfolding check_in_place_relationships_def by fastforce
  then show "end_time (bs ! j) = start_time (bs ! i) + 1 \<and> b_size (bs ! i) \<le> b_size (bs ! j)"
    using nodiv by (simp add: check_in_place_pair_def)
qed

text \<open>A parent that hands its storage over is read after its first tick, unless it is a graph input.\<close>

lemma check_in_place_parent_read:
  assumes "check_in_place_relationships bs = Inr ()" "placement_input bs"
    and "i < length bs" "j < length bs" "b_name (bs ! j) \<in> set (in_place_parents (bs ! i))"
    and "\<not> first_use_is_read (bs ! j)"
  shows "start_time (bs ! j) + 1 < end_time (bs ! j)"
proof -
  have "by_name bs (b_name (bs ! j)) = Some (bs ! j)"
    using assms(2,4) by (intro by_name_distinct) (auto simp: placement_input_def)
  moreover have "bs ! i \<in> set bs" "bs ! j \<in> set bs" using assms(3,4) by simp_all
  ultimately have "check_in_place_pair (bs ! j) (bs ! i) = Inr ()" "post_init (bs ! j) = Inr ()"
    using assms(1,2,5) unfolding check_in_place_relationships_def placement_input_def by fastforce+
  then have "hd (uses (bs ! j)) < last (uses (bs ! j))" "uses_known (bs ! j)" "post_init (bs ! j) = Inr ()"
    using assms(6) by (auto simp: check_in_place_pair_def check_in_place_parent_is_read_def Let_def)
  with post_initD(1,2) [of "bs ! j"] show ?thesis by simp
qed

lemma compatible_address_None: "address a = None \<Longrightarrow> compatible a b"
  by (simp add: compatible_def)

locale placement_solver =
  fixes plan :: "buffer list \<Rightarrow> int \<Rightarrow> int \<Rightarrow> buffer list res"
    and admissible :: "buffer list \<Rightarrow> bool"
  assumes plan_static: "plan bs limit al = Inr bs' \<Longrightarrow> admissible bs \<Longrightarrow> 0 < al \<Longrightarrow> 0 \<le> limit \<Longrightarrow>
      same_static bs bs'"
    and plan_ok: "plan bs limit al = Inr bs' \<Longrightarrow> admissible bs \<Longrightarrow> 0 < al \<Longrightarrow> 0 \<le> limit \<Longrightarrow>
      layout_ok limit bs'"
    and plan_excluded: "plan bs limit al = Inr bs' \<Longrightarrow> admissible bs \<Longrightarrow> 0 < al \<Longrightarrow> 0 \<le> limit \<Longrightarrow>
      i < length bs \<Longrightarrow> residency_reason (bs ! i) \<noteq> None \<Longrightarrow> address (bs' ! i) = None"
begin

text \<open>At any tick the live placed buffers that take part in no handover fit the scratchpad
  side by side.\<close>

lemma live_bytes_disjoint:
  assumes "plan bs limit al = Inr bs'" "admissible bs" "0 < al" "0 \<le> limit"
    and "i < length bs" "j < length bs" "i \<noteq> j"
    and "address (bs' ! i) = Some x" "address (bs' ! j) = Some y"
    and "overlaps_in_time (bs' ! i) (bs' ! j)" "\<not> in_place_pair (bs' ! i) (bs' ! j)"
  shows "{x..<x + b_size (bs ! i)} \<inter> {y..<y + b_size (bs ! j)} = {}"
proof -
  have st: "same_static bs bs'" by (rule plan_static [OF assms(1-4)])
  have sz: "b_size (bs' ! k) = b_size (bs ! k)" if "k < length bs" for k
    using same_static_nth [OF st that] by (rule static_eqD)
  have "compatible (bs' ! i) (bs' ! j)"
    using plan_ok [OF assms(1-4)] assms(5-7) same_static_length [OF st] by (simp add: layout_ok_def)
  then have "disjoint_iv x (x + b_size (bs' ! i)) y (y + b_size (bs' ! j))"
    using assms(8-11) by (auto simp: compatible_def)
  then show ?thesis unfolding sz [OF assms(5)] sz [OF assms(6)] by (rule disjoint_iv_no_common)
qed

end

subsection \<open>Concrete buffers for witnesses\<close>

definition demo_buffer :: "string \<Rightarrow> int \<Rightarrow> int list \<Rightarrow> string list \<Rightarrow> buffer" where
  "demo_buffer n sz us ps = \<lparr>b_name = n, b_size = sz, uses = us, first_use_is_read = False,
     address = None, in_place_parents = ps, residency_reason = None, untiled_bar = None,
     lifetime_start_override = None, lifetime_end_override = None, paired_with = [],
     spill_reason = None, core_divisions = [], cd_parents = [], cd_parent_matches = [],
     chosen_division = None, boundary = Intermediate\<rparr>"

definition demo_pair :: "buffer list" where
  "demo_pair = [demo_buffer ''p'' 2 [0, 1] [], demo_buffer ''c'' 2 [1, 2] [''p'']]"

lemma demo_pair_input: "placement_input demo_pair"
  by (simp add: placement_input_def demo_pair_def demo_buffer_def post_init_def check_def)

end
