(* ===== verification/Gap_Solver.thy ===== *)
theory Gap_Solver
  imports Plan_Solver Complex_Main "HOL-Library.Product_Lexorder"
begin

text \<open>
  The gap-based placement solvers \<open>FirstFitLayoutSolver\<close> and \<open>BestFitLayoutSolver\<close>
  (\<open>torch_spyre/_inductor/scratchpad/firstfit_bestfit_solver.py\<close>).  The two classes share
  every method but \<open>_pick_gap\<close>, which is the parameter \<open>pick\<close> of the shared definitions and
  the interface \<open>gap_policy\<close>; both policies interpret it.  Buffer objects are indices into
  the solver's list.  The priority of a buffer is a quotient of multiples of 1/4 and 1/2,
  computed exactly in \<open>rat\<close>; no safety property depends on it.
\<close>

record Gap =
  g_start :: int
  g_end :: int
  g_parents :: "string list"

abbreviation mk_gap :: "int \<Rightarrow> int \<Rightarrow> Gap" where
  "mk_gap a b \<equiv> \<lparr>g_start = a, g_end = b, g_parents = []\<rparr>"

subsection \<open>Topological order of in-place families\<close>

definition name_to_idx :: "buffer list \<Rightarrow> string \<Rightarrow> nat option" where
  "name_to_idx bs n = last_such (\<lambda>i. b_name (bs ! i) = n) [0..<length bs]"

definition topo_edges :: "buffer list \<Rightarrow> (nat \<times> nat) list" where
  "topo_edges bs =
     concat (map (\<lambda>i. concat (map (\<lambda>n. case name_to_idx bs n of None \<Rightarrow> [] | Some p \<Rightarrow> [(p, i)])
                              (in_place_parents (bs ! i))))
       [0..<length bs])"

definition topo_children :: "buffer list \<Rightarrow> nat \<Rightarrow> nat list" where
  "topo_children bs p = map snd (filter (\<lambda>e. fst e = p) (topo_edges bs))"

definition topo_in_degree :: "buffer list \<Rightarrow> int list" where
  "topo_in_degree bs =
     map (\<lambda>i. int (length (filter (\<lambda>e. snd e = i) (topo_edges bs)))) [0..<length bs]"

text \<open>One child of a popped buffer: its in-degree drops, and it joins the heap at zero.  The
  heap is a sorted list; \<open>heappop\<close> takes the least entry.\<close>

definition topo_release ::
  "(nat \<Rightarrow> 'k::linorder) \<Rightarrow> nat \<Rightarrow> ('k \<times> nat) list \<times> int list \<Rightarrow> ('k \<times> nat) list \<times> int list" where
  "topo_release key j st =
     (let (heap, deg) = st
      in if j < length deg
         then let deg' = deg[j := deg ! j - 1]
              in (if deg' ! j = 0 then insort (key j, j) heap else heap, deg')
         else st)"

definition positive_degrees :: "int list \<Rightarrow> nat" where
  "positive_degrees deg = length (filter (\<lambda>d. 0 < d) deg)"

lemma positive_degrees_update:
  assumes "j < length deg"
  shows "positive_degrees (deg[j := d]) + (if 0 < deg ! j then 1 else 0) =
         positive_degrees deg + (if 0 < d then 1 else 0)"
  using assms unfolding positive_degrees_def
proof (induction deg arbitrary: j)
  case (Cons a deg)
  then show ?case by (cases j) auto
qed simp

lemma topo_release_measure:
  assumes "topo_release key j (heap, deg) = (heap', deg')"
  shows "positive_degrees deg' + length heap' \<le> positive_degrees deg + length heap"
    and "positive_degrees deg' \<le> positive_degrees deg"
  using assms positive_degrees_update [of j deg "deg ! j - 1"]
  by (auto simp: topo_release_def Let_def split: if_splits)

lemma topo_release_fold_measure:
  assumes "fold (topo_release key) js (heap, deg) = (heap', deg')"
  shows "positive_degrees deg' + length heap' \<le> positive_degrees deg + length heap \<and>
         positive_degrees deg' \<le> positive_degrees deg"
  using assms
proof (induction js arbitrary: heap deg)
  case (Cons j js)
  obtain h d where step: "topo_release key j (heap, deg) = (h, d)" by fastforce
  with Cons.prems have "fold (topo_release key) js (h, d) = (heap', deg')" by simp
  from Cons.IH [OF this] topo_release_measure [OF step] show ?case by auto
qed simp

function topo_loop ::
  "(nat \<Rightarrow> nat list) \<Rightarrow> (nat \<Rightarrow> 'k::linorder) \<Rightarrow> ('k \<times> nat) list \<Rightarrow> int list \<Rightarrow> nat list" where
  "topo_loop children key [] deg = []"
| "topo_loop children key ((k, i) # heap) deg =
     i # (case fold (topo_release key) (children i) (heap, deg) of
            (heap', deg') \<Rightarrow> topo_loop children key heap' deg')"
  by pat_completeness auto
termination
proof (relation "measure (\<lambda>(children, key, heap, deg). positive_degrees deg + length heap)", goal_cases)
  case 1
  show ?case by simp
next
  case (2 children key k i heap deg heap' deg')
  then have "fold (topo_release key) (children i) (heap, deg) = (heap', deg')" by simp
  from topo_release_fold_measure [OF this] show ?case by simp
qed

definition topological_sort :: "buffer list \<Rightarrow> (buffer \<Rightarrow> 'k::linorder) \<Rightarrow> nat list res" where
  "topological_sort bs f =
     (let deg = topo_in_degree bs;
          key = (\<lambda>i. f (bs ! i));
          heap = fold (\<lambda>i h. if deg ! i = 0 then insort (key i, i) h else h) [0..<length bs] [];
          result = topo_loop (topo_children bs) key heap deg
      in bindE (check (length result = length bs) AssertionError) (\<lambda>_. Inr result))"

subsection \<open>Gaps\<close>

definition gap_minus :: "int \<times> int \<Rightarrow> int \<Rightarrow> Gap \<Rightarrow> Gap list" where
  "gap_minus interval minimum_size gap =
     (let a = g_start gap; b = g_end gap; lo = fst interval; hi = snd interval
      in (if a < lo
          then if b < lo then (if b - a \<ge> minimum_size then [mk_gap a b] else [])
               else (if lo - a \<ge> minimum_size then [mk_gap a lo] else [])
          else []) @
         (if b > hi
          then if a > hi then (if b - a \<ge> minimum_size then [mk_gap a b] else [])
               else (if b - hi \<ge> minimum_size then [mk_gap hi b] else [])
          else []))"

definition all_minus :: "Gap list \<Rightarrow> int \<times> int \<Rightarrow> int \<Rightarrow> Gap list" where
  "all_minus gaps interval minimum_size = concat (map (gap_minus interval minimum_size) gaps)"

definition conflict_intervals :: "buffer \<Rightarrow> buffer list \<Rightarrow> string set \<Rightarrow> (int \<times> int) list" where
  "conflict_intervals b placed parent_names =
     concat (map (\<lambda>other.
       (case address other of
          None \<Rightarrow> []
        | Some a \<Rightarrow>
            if b_name other \<in> parent_names then []
            else if \<not> (start_time other < end_time b \<and> start_time b < end_time other) then []
            else [(a, a + b_size other)])) placed)"

definition annotate_gap :: "buffer \<Rightarrow> buffer list \<Rightarrow> Gap \<Rightarrow> Gap" where
  "annotate_gap b placed gap =
     gap\<lparr>g_parents := g_parents gap @
       filter (\<lambda>parent_name.
         (case by_name placed parent_name of
            None \<Rightarrow> False
          | Some parent \<Rightarrow>
              (case address parent of
                 None \<Rightarrow> False
               | Some addr_p \<Rightarrow> g_start gap \<le> addr_p \<and> addr_p + b_size parent \<le> g_end gap)))
         (in_place_parents b)\<rparr>"

definition build_gaps :: "int \<Rightarrow> buffer \<Rightarrow> buffer list \<Rightarrow> bool \<Rightarrow> Gap list" where
  "build_gaps limit b placed reuse_in_place_parents =
     (let parent_names = (if reuse_in_place_parents then set (in_place_parents b) else {});
          gaps = foldl (\<lambda>gaps interval. all_minus gaps interval (b_size b)) [mk_gap 0 limit]
                   (conflict_intervals b placed parent_names)
      in map (annotate_gap b placed) gaps)"

definition gap_fits :: "int \<Rightarrow> int \<Rightarrow> Gap \<Rightarrow> bool" where
  "gap_fits alignment sz gap \<longleftrightarrow> round_up_to_alignment (g_start gap) alignment + sz \<le> g_end gap"

definition pick_gap_first :: "int \<Rightarrow> Gap list \<Rightarrow> int \<Rightarrow> Gap option" where
  "pick_gap_first alignment gaps sz = find (gap_fits alignment sz) gaps"

definition best_step :: "int \<Rightarrow> int \<Rightarrow> Gap option \<times> int \<Rightarrow> Gap \<Rightarrow> Gap option \<times> int" where
  "best_step alignment sz best gap =
     (let (best_gap, best_waste) = best;
          addr = round_up_to_alignment (g_start gap) alignment
      in if addr + sz \<le> g_end gap
         then let waste = g_end gap - addr - sz
              in if best_gap = None \<or> waste < best_waste then (Some gap, waste) else best
         else best)"

definition pick_gap_best :: "int \<Rightarrow> Gap list \<Rightarrow> int \<Rightarrow> Gap option" where
  "pick_gap_best alignment gaps sz = fst (foldl (best_step alignment sz) (None, 0) gaps)"

subsection \<open>Placing the buffers in priority order\<close>

type_synonym gap_picker = "int \<Rightarrow> Gap list \<Rightarrow> int \<Rightarrow> Gap option"

definition ff_sort_key :: "string set \<Rightarrow> buffer \<Rightarrow> rat \<times> int" where
  "ff_sort_key parent_names b =
     (let span = end_time b - start_time b;
          discount = (if in_place_parents b \<noteq> [] then 1/4 else 0) +
                     (if b_name b \<in> parent_names then 1/4 else 0);
          n_uses = of_nat (length (uses b)) + (if first_use_is_read b then 0 else 1/2)
      in ((of_int span - discount) / n_uses, span))"

text \<open>One iteration: \<open>placed\<close> are the references placed before, \<open>addrs\<close> is
  \<open>names_to_addresses\<close>.\<close>

definition place_one ::
  "gap_picker \<Rightarrow> int \<Rightarrow> int \<Rightarrow> nat list \<Rightarrow> nat \<Rightarrow> buffer list \<times> (string \<rightharpoonup> int) \<Rightarrow>
   (buffer list \<times> (string \<rightharpoonup> int)) res" where
  "place_one pick limit alignment placed i st =
     (let (bs, addrs) = st;
          b = bs ! i;
          placed_bufs = map (\<lambda>k. bs ! k) placed;
          gaps = build_gaps limit b placed_bufs True
      in case pick alignment (filter (\<lambda>g. g_parents g \<noteq> []) gaps) (b_size b) of
           Some gap \<Rightarrow>
             (case addrs (hd (g_parents gap)) of
                None \<Rightarrow> Inl KeyError
              | Some a \<Rightarrow> Inr (bs[i := b\<lparr>address := Some a\<rparr>], addrs(b_name b \<mapsto> a)))
         | None \<Rightarrow>
             (case pick alignment (build_gaps limit b placed_bufs False) (b_size b) of
                None \<Rightarrow> Inr (bs, addrs)
              | Some gap \<Rightarrow>
                  let a = round_up_to_alignment (g_start gap) alignment
                  in Inr (bs[i := b\<lparr>address := Some a\<rparr>], addrs(b_name b \<mapsto> a))))"

fun place_all ::
  "gap_picker \<Rightarrow> int \<Rightarrow> int \<Rightarrow> nat list \<Rightarrow> nat list \<Rightarrow> buffer list \<times> (string \<rightharpoonup> int) \<Rightarrow>
   (buffer list \<times> (string \<rightharpoonup> int)) res" where
  "place_all pick limit alignment placed [] st = Inr st"
| "place_all pick limit alignment placed (i # is) st =
     bindE (place_one pick limit alignment placed i st)
       (place_all pick limit alignment (placed @ [i]) is)"

definition gap_caps :: capabilities where
  "gap_caps = \<lparr>chooses_core_divisions = False, supports_paired_buffers = False,
     decides_lx_relayouts = False, generates_divisions = False, chooses_tilings = False,
     tilings_from_menu = False, linear_cost_only = False\<rparr>"

definition gap_plan_layout :: "gap_picker \<Rightarrow> solver \<Rightarrow> buffer list res" where
  "gap_plan_layout pick s =
     (if s_buffers s = [] then Inr []
      else
        bindE (check (\<forall>b\<in>set (s_buffers s). address b = None) AssertionError) (\<lambda>_.
        bindE (check_in_place_relationships (s_buffers s)) (\<lambda>_.
        bindE (partition s) (\<lambda>(s', placeable, _).
        let bs = s_buffers s' in
        bindE (check (\<forall>i\<in>set placeable. uses_known (bs ! i)) IndexError) (\<lambda>_.
        let filtered = filter (\<lambda>i. end_time (bs ! i) \<ge> start_time (bs ! i) + 1) placeable;
            parent_names = (\<Union>i\<in>set filtered. set (in_place_parents (bs ! i)));
            by_score = sort_key (\<lambda>i. ff_sort_key parent_names (bs ! i)) filtered
        in bindE (topological_sort (map (\<lambda>i. bs ! i) by_score) (\<lambda>_. 0::int)) (\<lambda>perm.
           bindE (place_all pick (s_limit s') (s_alignment s') [] (map (\<lambda>k. by_score ! k) perm)
                    (bs, Map.empty)) (\<lambda>(bs', _).
           Inr bs')))))))"

definition gap_plan :: "gap_picker \<Rightarrow> buffer list \<Rightarrow> int \<Rightarrow> int \<Rightarrow> buffer list res" where
  "gap_plan pick bs limit alignment =
     bindE (init_solver gap_caps bs limit alignment) (gap_plan_layout pick)"

subsection \<open>The topological order\<close>

definition ready :: "('k \<times> nat) list \<Rightarrow> int list \<Rightarrow> bool" where
  "ready heap deg \<longleftrightarrow> distinct (map snd heap) \<and> (\<forall>i\<in>snd ` set heap. i < length deg \<and> deg ! i \<le> 0)"

abbreviation waiting :: "int list \<Rightarrow> nat set" where
  "waiting deg \<equiv> {i. i < length deg \<and> 0 < deg ! i}"

lemma distinct_insort_snd: "distinct (map snd (insort x xs)) \<longleftrightarrow> snd x \<notin> snd ` set xs \<and> distinct (map snd xs)"
proof -
  have "mset (insort x xs) = mset (x # xs)" by simp
  then have "mset (map snd (insort x xs)) = mset (map snd (x # xs))" by (metis mset_map)
  then have "distinct (map snd (insort x xs)) = distinct (map snd (x # xs))"
    by (rule mset_eq_imp_distinct_iff)
  then show ?thesis by simp
qed

lemma topo_release_ready:
  assumes "topo_release key j (heap, deg) = (heap', deg')" "ready heap deg"
  shows "ready heap' deg'" "snd ` set heap' \<union> waiting deg' \<subseteq> snd ` set heap \<union> waiting deg"
    and "length deg' = length deg"
proof -
  show len: "length deg' = length deg"
    using assms(1) by (auto simp: topo_release_def Let_def split: if_splits)
  consider (out) "\<not> j < length deg" "heap' = heap" "deg' = deg"
    | (zero) "j < length deg" "deg ! j = 1" "heap' = insort (key j, j) heap" "deg' = deg[j := 0]"
    | (dec) "j < length deg" "deg ! j \<noteq> 1" "heap' = heap" "deg' = deg[j := deg ! j - 1]"
    using assms(1) by (auto simp: topo_release_def Let_def split: if_splits)
  then have "ready heap' deg' \<and>
      snd ` set heap' \<union> waiting deg' \<subseteq> snd ` set heap \<union> waiting deg"
  proof cases
    case out
    then show ?thesis using assms(2) by simp
  next
    case zero
    then have "j \<notin> snd ` set heap" using assms(2) by (auto simp: ready_def)
    then show ?thesis using zero assms(2)
      by (auto simp: ready_def distinct_insort_snd set_insort_key nth_list_update split: if_splits)
  next
    case dec
    then show ?thesis using assms(2)
      by (auto simp: ready_def nth_list_update split: if_splits)
  qed
  then show "ready heap' deg'" "snd ` set heap' \<union> waiting deg' \<subseteq> snd ` set heap \<union> waiting deg"
    by simp_all
qed

lemma topo_release_fold_ready:
  assumes "fold (topo_release key) js (heap, deg) = (heap', deg')" "ready heap deg"
  shows "ready heap' deg' \<and> snd ` set heap' \<union> waiting deg' \<subseteq> snd ` set heap \<union> waiting deg \<and>
    length deg' = length deg"
  using assms
proof (induction js arbitrary: heap deg)
  case (Cons j js)
  obtain h d where step: "topo_release key j (heap, deg) = (h, d)" by fastforce
  note r = topo_release_ready [OF step Cons.prems(2)]
  have "fold (topo_release key) js (h, d) = (heap', deg')" using Cons.prems(1) step by simp
  note IH = Cons.IH [OF this r(1)]
  from IH r(2) have "snd ` set heap' \<union> waiting deg' \<subseteq> snd ` set heap \<union> waiting deg"
    by (blast intro: subset_trans)
  with IH r(3) show ?case by simp
qed simp

lemma topo_loop_distinct:
  assumes "ready heap deg"
  shows "distinct (topo_loop children key heap deg) \<and>
    set (topo_loop children key heap deg) \<subseteq> snd ` set heap \<union> waiting deg"
  using assms
proof (induction children key heap deg rule: topo_loop.induct)
  case (2 children key k i heap deg)
  obtain h d where step: "fold (topo_release key) (children i) (heap, deg) = (h, d)" by fastforce
  have heap: "ready heap deg" and i: "i \<notin> snd ` set heap \<union> waiting deg"
    using "2.prems" by (auto simp: ready_def)
  note r = topo_release_fold_ready [OF step heap]
  have IH: "distinct (topo_loop children key h d)"
      "set (topo_loop children key h d) \<subseteq> snd ` set h \<union> waiting d"
    using "2.IH" [OF step [symmetric]] r by auto
  then have "i \<notin> set (topo_loop children key h d)" using r i by blast
  moreover have "set (topo_loop children key h d) \<subseteq> snd ` set heap \<union> waiting deg"
    using IH(2) r by (blast intro: subset_trans)
  ultimately show ?case using IH(1) step by auto
qed simp

lemma topo_heap_ready:
  fixes key :: "nat \<Rightarrow> 'k::linorder"
  defines "heap n deg \<equiv> fold (\<lambda>i h. if deg ! i = (0::int) then insort (key i, i) h else h) [0..<n] []"
  assumes "n \<le> length deg"
  shows "ready (heap n deg) deg" and "snd ` set (heap n deg) = {i. i < n \<and> deg ! i = 0}"
proof -
  have "ready (heap n deg) deg \<and> snd ` set (heap n deg) = {i. i < n \<and> deg ! i = 0}"
    using assms(2)
  proof (induction n)
    case 0
    then show ?case by (simp add: heap_def ready_def)
  next
    case (Suc n)
    have "heap (Suc n) deg = (if deg ! n = 0 then insort (key n, n) (heap n deg) else heap n deg)"
      by (simp add: heap_def)
    with Suc show ?case
      by (auto simp: ready_def distinct_insort_snd set_insort_key less_Suc_eq)
  qed
  then show "ready (heap n deg) deg" "snd ` set (heap n deg) = {i. i < n \<and> deg ! i = 0}"
    by simp_all
qed

lemma length_topo_in_degree [simp]: "length (topo_in_degree bs) = length bs"
  by (simp add: topo_in_degree_def)

lemma topological_sort_perm:
  assumes "topological_sort bs f = Inr perm"
  shows "distinct perm" "set perm = {..<length bs}"
proof -
  define key where "key = (\<lambda>i. f (bs ! i))"
  define heap where "heap = fold (\<lambda>i h. if topo_in_degree bs ! i = 0 then insort (key i, i) h else h)
      [0..<length bs] []"
  from assms have perm: "perm = topo_loop (topo_children bs) key heap (topo_in_degree bs)"
      and len: "length perm = length bs"
    unfolding topological_sort_def Let_def key_def heap_def by auto
  have heap_ok: "ready heap (topo_in_degree bs)"
      "snd ` set heap = {i. i < length bs \<and> topo_in_degree bs ! i = 0}"
    unfolding heap_def by (simp_all add: topo_heap_ready)
  have d: "distinct perm" "set perm \<subseteq> {..<length bs}"
    using topo_loop_distinct [OF heap_ok(1), of "topo_children bs" key] heap_ok(2)
    by (auto simp: perm)
  show "distinct perm" by (rule d)
  have "card (set perm) = card {..<length bs}" using distinct_card [OF d(1)] len by simp
  then show "set perm = {..<length bs}" using d(2) by (intro card_subset_eq) auto
qed

text \<open>Every entry of the in-degree table counts the edges from buffers not yet emitted, so a
  buffer reaches the heap only after all its in-place parents were emitted.\<close>

definition degrees_of :: "(nat \<times> nat) list \<Rightarrow> nat set \<Rightarrow> int list \<Rightarrow> bool" where
  "degrees_of edges emitted deg \<longleftrightarrow>
     (\<forall>c<length deg. deg ! c = int (length (filter (\<lambda>e. snd e = c \<and> fst e \<notin> emitted) edges)))"

lemma topo_release_fold_degrees:
  assumes "fold (topo_release key) js (heap, deg) = (heap', deg')"
  shows "length deg' = length deg \<and> (\<forall>c<length deg. deg' ! c = deg ! c - int (count_list js c))"
  using assms
proof (induction js arbitrary: heap deg)
  case (Cons j js)
  obtain h d where step: "topo_release key j (heap, deg) = (h, d)" by fastforce
  then have d: "length d = length deg" "\<forall>c<length deg. d ! c = deg ! c - (if c = j then 1 else 0)"
    by (auto simp: topo_release_def Let_def nth_list_update split: if_splits)
  have "fold (topo_release key) js (h, d) = (heap', deg')" using Cons.prems step by simp
  from Cons.IH [OF this] d show ?case by auto
qed simp

lemma edges_split_count:
  "i \<notin> emitted \<Longrightarrow>
   length (filter (\<lambda>e. snd e = c \<and> fst e \<notin> emitted) edges) =
   length (filter (\<lambda>e. snd e = c \<and> fst e \<notin> insert i emitted) edges) +
   count_list (map snd (filter (\<lambda>e. fst e = i) edges)) c"
  by (induction edges) auto

lemma topo_loop_parents_first:
  assumes "ready heap deg" "degrees_of edges emitted deg"
    and "children = (\<lambda>p. map snd (filter (\<lambda>e. fst e = p) edges))"
    and "emitted \<inter> (snd ` set heap \<union> waiting deg) = {}"
    and "k < length (topo_loop children key heap deg)"
    and "(p, topo_loop children key heap deg ! k) \<in> set edges"
  shows "p \<in> emitted \<union> set (take k (topo_loop children key heap deg))"
  using assms
proof (induction children key heap deg arbitrary: emitted k rule: topo_loop.induct)
  case (2 children key kk i heap deg)
  obtain h d where step: "fold (topo_release key) (children i) (heap, deg) = (h, d)" by fastforce
  have heap: "ready heap deg" and i: "i \<notin> snd ` set heap \<union> waiting deg" "i < length deg" "deg ! i \<le> 0"
    using "2.prems"(1) by (auto simp: ready_def)
  have i_new: "i \<notin> emitted" using "2.prems"(4) by auto
  note r = topo_release_fold_ready [OF step heap]
  note dg = topo_release_fold_degrees [OF step]
  have deg': "degrees_of edges (insert i emitted) d"
    unfolding degrees_of_def
  proof (intro allI impI)
    fix c assume "c < length d"
    with dg "2.prems"(2) edges_split_count [OF i_new, of c edges]
    show "d ! c = int (length (filter (\<lambda>e. snd e = c \<and> fst e \<notin> insert i emitted) edges))"
      by (simp add: degrees_of_def "2.prems"(3))
  qed
  have disj: "insert i emitted \<inter> (snd ` set h \<union> waiting d) = {}"
  proof -
    have "snd ` set h \<union> waiting d \<subseteq> snd ` set heap \<union> waiting deg" using r by blast
    moreover have "emitted \<inter> (snd ` set heap \<union> waiting deg) = {}" using "2.prems"(4) by auto
    ultimately show ?thesis using i(1) by blast
  qed
  have loop: "topo_loop children key ((kk, i) # heap) deg = i # topo_loop children key h d"
    using step by simp
  show ?case
  proof (cases k)
    case 0
    have "filter (\<lambda>e. snd e = i \<and> fst e \<notin> emitted) edges = []"
      using "2.prems"(2) i(2,3) by (auto simp: degrees_of_def)
    with "2.prems"(6) 0 loop show ?thesis by (auto simp: filter_empty_conv)
  next
    case (Suc k')
    have "p \<in> insert i emitted \<union> set (take k' (topo_loop children key h d))"
      using "2.IH" [OF step [symmetric], of "insert i emitted" k'] r deg' disj "2.prems"(3,5,6) loop Suc
      by auto
    then show ?thesis using loop Suc by auto
  qed
qed simp

lemma topo_edges_mem:
  "(p, c) \<in> set (topo_edges bs) \<longleftrightarrow>
     c < length bs \<and> (\<exists>n\<in>set (in_place_parents (bs ! c)). name_to_idx bs n = Some p)"
proof -
  have "(p, c) \<in> set (case name_to_idx bs n of None \<Rightarrow> [] | Some q \<Rightarrow> [(q, i)]) \<longleftrightarrow>
      name_to_idx bs n = Some p \<and> c = i" for n i
    by (cases "name_to_idx bs n") auto
  then show ?thesis by (auto simp: topo_edges_def)
qed

lemma topological_sort_parents_first:
  assumes "topological_sort bs f = Inr perm" "k < length perm"
    and "n \<in> set (in_place_parents (bs ! (perm ! k)))" "name_to_idx bs n = Some p"
  shows "p \<in> set (take k perm)"
proof -
  define key where "key = (\<lambda>i. f (bs ! i))"
  define heap where "heap = fold (\<lambda>i h. if topo_in_degree bs ! i = 0 then insort (key i, i) h else h)
      [0..<length bs] []"
  have perm: "perm = topo_loop (topo_children bs) key heap (topo_in_degree bs)"
    using assms(1) unfolding topological_sort_def Let_def key_def heap_def by auto
  have ready: "ready heap (topo_in_degree bs)"
    unfolding heap_def by (simp add: topo_heap_ready)
  have "perm ! k < length bs"
    using topological_sort_perm(2) [OF assms(1)] assms(2) nth_mem by blast
  then have edge: "(p, perm ! k) \<in> set (topo_edges bs)" using assms(3,4) by (auto simp: topo_edges_mem)
  have "degrees_of (topo_edges bs) {} (topo_in_degree bs)"
    by (simp add: degrees_of_def topo_in_degree_def)
  moreover have "topo_children bs = (\<lambda>p. map snd (filter (\<lambda>e. fst e = p) (topo_edges bs)))"
    by (simp add: topo_children_def fun_eq_iff)
  ultimately show ?thesis
    using topo_loop_parents_first [OF ready, of "topo_edges bs" "{}" "topo_children bs" k key p]
      assms(2) edge perm by simp
qed

subsection \<open>Gap arithmetic\<close>

lemma gap_minus_sound:
  assumes "g' \<in> set (gap_minus (lo, hi) m g)" "lo \<le> hi"
  shows "g_start g \<le> g_start g'" "g_end g' \<le> g_end g"
    and "disjoint_iv (g_start g') (g_end g') lo hi" "g_parents g' = []"
  using assms by (auto simp: gap_minus_def Let_def interval_simps split: if_splits)

lemma gap_minus_complete:
  assumes "g_start g \<le> x" "x + m \<le> g_end g" "0 < m" "lo \<le> hi" "disjoint_iv x (x + m) lo hi"
  shows "\<exists>g'\<in>set (gap_minus (lo, hi) m g). g_start g' \<le> x \<and> x + m \<le> g_end g'"
  using assms by (auto simp: gap_minus_def Let_def interval_simps)

abbreviation minus_fold :: "int \<Rightarrow> Gap list \<Rightarrow> (int \<times> int) list \<Rightarrow> Gap list" where
  "minus_fold m \<equiv> foldl (\<lambda>gaps interval. all_minus gaps interval m)"

lemma minus_fold_sound:
  assumes "g \<in> set (minus_fold m gaps ivs)" "\<forall>(lo, hi)\<in>set ivs. lo \<le> hi"
    and "\<forall>g\<in>set gaps. g_parents g = []"
  shows "(\<exists>g0\<in>set gaps. g_start g0 \<le> g_start g \<and> g_end g \<le> g_end g0) \<and>
    (\<forall>(lo, hi)\<in>set ivs. disjoint_iv (g_start g) (g_end g) lo hi) \<and> g_parents g = []"
  using assms
proof (induction ivs arbitrary: gaps)
  case (Cons iv ivs)
  obtain lo hi where iv: "iv = (lo, hi)" by fastforce
  have step: "(\<exists>g0\<in>set gaps. g_start g0 \<le> g_start g1 \<and> g_end g1 \<le> g_end g0) \<and>
      disjoint_iv (g_start g1) (g_end g1) lo hi \<and> g_parents g1 = []"
    if "g1 \<in> set (all_minus gaps iv m)" for g1
    using that Cons.prems(2) gap_minus_sound [of g1 lo hi m] by (auto simp: all_minus_def iv)
  then have "\<forall>g\<in>set (all_minus gaps iv m). g_parents g = []" by blast
  then have "(\<exists>g1\<in>set (all_minus gaps iv m). g_start g1 \<le> g_start g \<and> g_end g \<le> g_end g1) \<and>
      (\<forall>(lo, hi)\<in>set ivs. disjoint_iv (g_start g) (g_end g) lo hi) \<and> g_parents g = []"
    using Cons.prems by (intro Cons.IH) auto
  then obtain g1 where g1: "g1 \<in> set (all_minus gaps iv m)"
      "g_start g1 \<le> g_start g" "g_end g \<le> g_end g1"
      "\<forall>(lo, hi)\<in>set ivs. disjoint_iv (g_start g) (g_end g) lo hi" "g_parents g = []"
    by blast
  with step [OF g1(1)] show ?case
    by (auto simp: iv intro: disjoint_iv_sub order_trans)
qed auto

lemma minus_fold_complete:
  assumes "g \<in> set gaps" "g_start g \<le> x" "x + m \<le> g_end g" "0 < m"
    and "\<forall>(lo, hi)\<in>set ivs. lo \<le> hi \<and> disjoint_iv x (x + m) lo hi"
  shows "\<exists>g'\<in>set (minus_fold m gaps ivs). g_start g' \<le> x \<and> x + m \<le> g_end g'"
  using assms
proof (induction ivs arbitrary: gaps g)
  case (Cons iv ivs)
  obtain lo hi where iv: "iv = (lo, hi)" by fastforce
  obtain g' where "g' \<in> set (gap_minus (lo, hi) m g)" "g_start g' \<le> x" "x + m \<le> g_end g'"
    using gap_minus_complete [of g x m lo hi] Cons.prems iv by auto
  moreover from this have "g' \<in> set (all_minus gaps iv m)"
    using Cons.prems(1) by (auto simp: all_minus_def iv)
  ultimately show ?case using Cons.IH [of g' "all_minus gaps iv m"] Cons.prems by auto
qed auto

lemma conflict_intervals_mem:
  "(lo, hi) \<in> set (conflict_intervals b placed ns) \<longleftrightarrow>
     (\<exists>other\<in>set placed. address other = Some lo \<and> hi = lo + b_size other \<and>
        b_name other \<notin> ns \<and> overlaps_in_time other b)"
proof -
  have "(lo, hi) \<in> set (case address other of
          None \<Rightarrow> []
        | Some a \<Rightarrow>
            if b_name other \<in> ns then []
            else if \<not> (start_time other < end_time b \<and> start_time b < end_time other) then []
            else [(a, a + b_size other)]) \<longleftrightarrow>
      address other = Some lo \<and> hi = lo + b_size other \<and> b_name other \<notin> ns \<and> overlaps_in_time other b"
    for other
    by (cases "address other") (auto simp: overlaps_in_time_def)
  then show ?thesis by (simp add: conflict_intervals_def)
qed

lemma build_gaps_sound:
  assumes "g \<in> set (build_gaps limit b placed reuse)" "\<forall>p\<in>set placed. 0 \<le> b_size p"
  shows "0 \<le> g_start g" "g_end g \<le> limit"
    and "\<And>other y. other \<in> set placed \<Longrightarrow> address other = Some y \<Longrightarrow> overlaps_in_time other b \<Longrightarrow>
      reuse \<longrightarrow> b_name other \<notin> set (in_place_parents b) \<Longrightarrow>
      disjoint_iv (g_start g) (g_end g) y (y + b_size other)"
    and "\<And>n. n \<in> set (g_parents g) \<Longrightarrow> n \<in> set (in_place_parents b) \<and>
      (\<exists>parent y. by_name placed n = Some parent \<and> address parent = Some y \<and>
         g_start g \<le> y \<and> y + b_size parent \<le> g_end g)"
proof -
  let ?ns = "if reuse then set (in_place_parents b) else {}"
  let ?ivs = "conflict_intervals b placed ?ns"
  from assms(1) obtain g0 where g: "g = annotate_gap b placed g0"
      and g0: "g0 \<in> set (minus_fold (b_size b) [mk_gap 0 limit] ?ivs)"
    by (auto simp: build_gaps_def Let_def)
  have se: "g_start g = g_start g0" "g_end g = g_end g0" by (simp_all add: g annotate_gap_def)
  have "\<forall>(lo, hi)\<in>set ?ivs. lo \<le> hi"
    using assms(2) by (auto simp: conflict_intervals_mem)
  note sound = minus_fold_sound [OF g0 this]
  show "0 \<le> g_start g" "g_end g \<le> limit" using sound se by auto
  show "disjoint_iv (g_start g) (g_end g) y (y + b_size other)"
    if "other \<in> set placed" "address other = Some y" "overlaps_in_time other b"
      "reuse \<longrightarrow> b_name other \<notin> set (in_place_parents b)" for other y
  proof -
    have "(y, y + b_size other) \<in> set ?ivs"
      using that by (auto simp: conflict_intervals_mem)
    then show ?thesis using sound se by auto
  qed
  show "n \<in> set (in_place_parents b) \<and>
      (\<exists>parent y. by_name placed n = Some parent \<and> address parent = Some y \<and>
         g_start g \<le> y \<and> y + b_size parent \<le> g_end g)" if "n \<in> set (g_parents g)" for n
    using that sound se by (auto simp: g annotate_gap_def split: option.splits)
qed

lemma build_gaps_complete:
  assumes "\<forall>p\<in>set placed. 0 \<le> b_size p" "0 < b_size b" "0 \<le> x" "x + b_size b \<le> limit"
    and "\<And>other y. other \<in> set placed \<Longrightarrow> address other = Some y \<Longrightarrow> overlaps_in_time other b \<Longrightarrow>
      disjoint_iv x (x + b_size b) y (y + b_size other)"
  shows "\<exists>g\<in>set (build_gaps limit b placed False). g_start g \<le> x \<and> x + b_size b \<le> g_end g"
proof -
  have "\<exists>g\<in>set (minus_fold (b_size b) [mk_gap 0 limit] (conflict_intervals b placed {})).
      g_start g \<le> x \<and> x + b_size b \<le> g_end g"
    using assms by (intro minus_fold_complete [of "mk_gap 0 limit"]) (auto simp: conflict_intervals_mem)
  then show ?thesis by (auto simp: build_gaps_def annotate_gap_def)
qed

subsection \<open>The invariant of the placement loop\<close>

definition placed_inv :: "int \<Rightarrow> int \<Rightarrow> buffer list \<Rightarrow> nat set \<Rightarrow> (string \<rightharpoonup> int) \<Rightarrow> bool" where
  "placed_inv limit al bs D addrs \<longleftrightarrow>
     D \<subseteq> {..<length bs} \<and>
     (\<forall>i\<in>D. \<forall>x. address (bs ! i) = Some x \<longrightarrow> 0 \<le> x \<and> x + b_size (bs ! i) \<le> limit \<and> al dvd x) \<and>
     (\<forall>i\<in>D. \<forall>j\<in>D. i \<noteq> j \<longrightarrow> compatible (bs ! i) (bs ! j)) \<and>
     (\<forall>n x. addrs n = Some x \<longleftrightarrow> (\<exists>i\<in>D. b_name (bs ! i) = n \<and> address (bs ! i) = Some x)) \<and>
     (\<forall>i<length bs. i \<notin> D \<longrightarrow> address (bs ! i) = None)"

lemma placed_inv_skip:
  assumes "placed_inv limit al bs D addrs" "i < length bs" "i \<notin> D"
  shows "placed_inv limit al bs (insert i D) addrs"
proof -
  have none: "address (bs ! i) = None" using assms by (simp add: placed_inv_def)
  then have "compatible (bs ! i) (bs ! j)" "compatible (bs ! j) (bs ! i)" for j
    by (auto intro: compatible_address_None compatible_sym)
  with none assms show ?thesis by (auto simp: placed_inv_def)
qed

lemma placed_inv_extend:
  assumes inv: "placed_inv limit al bs D addrs" and i: "i < length bs" "i \<notin> D"
    and names: "distinct (map b_name bs)"
    and a: "0 \<le> a" "a + b_size (bs ! i) \<le> limit" "al dvd a"
    and comp: "\<And>k. k \<in> D \<Longrightarrow> compatible ((bs ! i)\<lparr>address := Some a\<rparr>) (bs ! k)"
  shows "placed_inv limit al (bs[i := (bs ! i)\<lparr>address := Some a\<rparr>]) (insert i D)
    (addrs(b_name (bs ! i) \<mapsto> a))"
proof -
  let ?bs = "bs[i := (bs ! i)\<lparr>address := Some a\<rparr>]"
  have D: "k < length bs" "k \<noteq> i" if "k \<in> D" for k using inv i that by (auto simp: placed_inv_def)
  have nth: "?bs ! k = (if k = i then (bs ! i)\<lparr>address := Some a\<rparr> else bs ! k)" for k
    using i by (simp add: nth_list_update)
  have name: "b_name (bs ! k) \<noteq> b_name (bs ! i)" if "k \<in> D" for k
    using names D [OF that] i(1) by (metis length_map nth_eq_iff_index_eq nth_map)
  have "(addrs(b_name (bs ! i) \<mapsto> a)) n = Some x \<longleftrightarrow>
      (\<exists>k\<in>insert i D. b_name (?bs ! k) = n \<and> address (?bs ! k) = Some x)" for n x
    using inv D name by (auto simp: placed_inv_def nth split: if_splits)
  moreover have "compatible (?bs ! j) (?bs ! k)"
    if "j \<in> insert i D" "k \<in> insert i D" "j \<noteq> k" for j k
    using that inv comp compatible_sym [OF comp] D by (auto simp: placed_inv_def nth)
  ultimately show ?thesis
    using inv a i D by (auto simp: placed_inv_def nth)
qed

lemma compatibleI_disjoint:
  assumes "\<And>x y. address a = Some x \<Longrightarrow> address b = Some y \<Longrightarrow> overlaps_in_time a b \<Longrightarrow>
    disjoint_iv x (x + b_size a) y (y + b_size b)"
  shows "compatible a b"
  using assms by (auto simp: compatible_def)

lemma overlaps_update [simp]:
  "overlaps_in_time (a\<lparr>address := x\<rparr>) b = overlaps_in_time a b"
  "overlaps_in_time b (a\<lparr>address := x\<rparr>) = overlaps_in_time b a"
  by (simp_all add: overlaps_in_time_def start_time_def end_time_def)

lemma in_place_pair_update [simp]:
  "in_place_pair (a\<lparr>address := x\<rparr>) b = in_place_pair a b"
  by (simp add: in_place_pair_def)

text \<open>A child that takes over a parent's slot is compatible with everything placed so far.\<close>

lemma inherit_compatible:
  assumes inv: "placed_inv limit al bs D addrs" and i: "i < length bs"
    and k: "k \<in> D" and p: "p \<in> D" "address (bs ! p) = Some a"
      "b_name (bs ! p) \<in> set (in_place_parents (bs ! i))"
    and pairs: "pairs_ok bs" and live: "\<And>k. k \<in> D \<Longrightarrow> start_time (bs ! k) < end_time (bs ! k)"
    and slot: "g_start g \<le> a" "a + b_size (bs ! p) \<le> g_end g"
    and free: "\<And>y. address (bs ! k) = Some y \<Longrightarrow> overlaps_in_time (bs ! k) (bs ! i) \<Longrightarrow>
      b_name (bs ! k) \<notin> set (in_place_parents (bs ! i)) \<Longrightarrow>
      disjoint_iv (g_start g) (g_end g) y (y + b_size (bs ! k))"
  shows "compatible ((bs ! i)\<lparr>address := Some a\<rparr>) (bs ! k)"
proof -
  have len: "k < length bs" "p < length bs" using inv k p by (auto simp: placed_inv_def)
  have size: "b_size (bs ! i) \<le> b_size (bs ! p)"
    using pairs i len p(3) by (auto simp: pairs_ok_def)
  show ?thesis
  proof (cases "b_name (bs ! k) \<in> set (in_place_parents (bs ! i))")
    case False
    show ?thesis
    proof (rule compatibleI_disjoint)
      fix x y assume "address ((bs ! i)\<lparr>address := Some a\<rparr>) = Some x" and y: "address (bs ! k) = Some y"
        and "overlaps_in_time ((bs ! i)\<lparr>address := Some a\<rparr>) (bs ! k)"
      then have x: "x = a" and "overlaps_in_time (bs ! k) (bs ! i)"
        by (simp_all add: overlaps_in_time_sym [of "bs ! k"])
      from free [OF y this(2) False] slot size
      show "disjoint_iv x (x + b_size ((bs ! i)\<lparr>address := Some a\<rparr>)) y (y + b_size (bs ! k))"
        by (auto simp: x intro: disjoint_iv_sub)
    qed
  next
    case True
    have ends: "end_time (bs ! p) = start_time (bs ! i) + 1" "end_time (bs ! k) = start_time (bs ! i) + 1"
      using pairs i len p(3) True by (auto simp: pairs_ok_def)
    then have both: "overlaps_in_time (bs ! p) (bs ! k)"
      using live [OF k] live [OF p(1)] by (auto simp: overlaps_in_time_def)
    have pair: "in_place_pair (bs ! i) (bs ! k)" using True by (simp add: in_place_pair_def)
    have "disjoint_iv a (a + b_size (bs ! i)) y (y + b_size (bs ! k)) \<or> a = y"
      if y: "address (bs ! k) = Some y" for y
    proof (cases "k = p")
      case True
      then show ?thesis using y p by simp
    next
      case False
      then have "compatible (bs ! p) (bs ! k)" using inv k p by (auto simp: placed_inv_def)
      then have "disjoint_iv a (a + b_size (bs ! p)) y (y + b_size (bs ! k)) \<or> a = y"
        using p(2) y both by (auto simp: compatible_def)
      then show ?thesis using size by (auto intro: disjoint_iv_sub)
    qed
    with pair show ?thesis by (auto simp: compatible_def)
  qed
qed

subsection \<open>What one iteration leaves alone\<close>

lemma place_one_frame:
  assumes "place_one pick limit al placed i (bs, addrs) = Inr (bs', addrs')"
  shows "same_static bs bs' \<and> (\<forall>k. k \<noteq> i \<longrightarrow> bs' ! k = bs ! k)"
proof -
  from assms have "bs' = bs \<or> (\<exists>a. bs' = bs[i := (bs ! i)\<lparr>address := Some a\<rparr>])"
    by (auto simp: place_one_def Let_def split: option.splits)
  then show ?thesis using same_static_update [OF same_static_refl] by auto
qed

lemma place_all_frame:
  assumes "place_all pick limit al placed is (bs, addrs) = Inr (bs', addrs')"
  shows "same_static bs bs' \<and> (\<forall>k. k \<notin> set is \<longrightarrow> bs' ! k = bs ! k)"
  using assms
proof (induction "is" arbitrary: placed bs addrs)
  case (Cons i "is")
  then obtain bs1 addrs1 where one: "place_one pick limit al placed i (bs, addrs) = Inr (bs1, addrs1)"
      and rest: "place_all pick limit al (placed @ [i]) is (bs1, addrs1) = Inr (bs', addrs')"
    by auto
  from place_one_frame [OF one] Cons.IH [OF rest] show ?case
    by (auto intro: same_static_trans)
qed simp

definition plannable :: "buffer list \<Rightarrow> bool" where
  "plannable bs \<longleftrightarrow> distinct (map b_name bs) \<and> pairs_ok bs \<and> (\<forall>k<length bs. 0 \<le> b_size (bs ! k))"

lemma plannable_static:
  assumes "same_static bs bs'" "plannable bs"
  shows "plannable bs'"
proof -
  note len = same_static_length [OF assms(1)]
  have eqs: "b_size (bs' ! k) = b_size (bs ! k)" "b_name (bs' ! k) = b_name (bs ! k)"
      "in_place_parents (bs' ! k) = in_place_parents (bs ! k)"
      "start_time (bs' ! k) = start_time (bs ! k)" "end_time (bs' ! k) = end_time (bs ! k)"
    if "k < length bs" for k
    using static_eqD [OF same_static_nth [OF assms(1) that]] by simp_all
  then show ?thesis
    using assms(2) same_static_names [OF assms(1)] len by (simp add: plannable_def pairs_ok_def)
qed

lemma placed_inv_layout_ok:
  assumes "placed_inv limit al bs D addrs"
  shows "layout_ok limit bs"
proof -
  have "compatible (bs ! i) (bs ! j)" if "i < length bs" "j < length bs" "i \<noteq> j" for i j
    using that assms compatible_address_None compatible_sym unfolding placed_inv_def by metis
  moreover have "placed_in_bounds limit (bs ! i)" if "i < length bs" for i
    using that assms by (cases "i \<in> D") (auto simp: placed_inv_def placed_in_bounds_def)
  ultimately show ?thesis by (simp add: layout_ok_def)
qed

text \<open>What a finished plan went through: the order of placement and the initial state.\<close>

lemma gap_plan_layout_Inr:
  assumes "gap_plan_layout pick s = Inr bs'" "s_buffers s \<noteq> []"
  obtains bs order addrs where
    "same_static (s_buffers s) bs" "\<forall>i<length (s_buffers s). address (bs ! i) = None"
    "check_in_place_relationships (s_buffers s) = Inr ()"
    "distinct order" "set order \<subseteq> {..<length (s_buffers s)}"
    "\<forall>i\<in>set order. excluded s (s_buffers s ! i) = Inr None \<and> uses_known (bs ! i)"
    "place_all pick (s_limit s) (s_alignment s) [] order (bs, Map.empty) = Inr (bs', addrs)"
proof -
  from assms obtain s' placeable barred perm addrs where
      none: "\<forall>b\<in>set (s_buffers s). address b = None"
      and chk: "check_in_place_relationships (s_buffers s) = Inr ()"
      and part: "partition s = Inr (s', placeable, barred)"
      and known: "\<forall>i\<in>set placeable. uses_known (s_buffers s' ! i)"
      and topo: "topological_sort (map (\<lambda>i. s_buffers s' ! i)
          (sort_key (\<lambda>i. ff_sort_key (\<Union>i\<in>set (filter (\<lambda>i. end_time (s_buffers s' ! i) \<ge>
              start_time (s_buffers s' ! i) + 1) placeable). set (in_place_parents (s_buffers s' ! i)))
            (s_buffers s' ! i))
            (filter (\<lambda>i. end_time (s_buffers s' ! i) \<ge> start_time (s_buffers s' ! i) + 1) placeable)))
          (\<lambda>_. 0::int) = Inr perm"
      and placed: "place_all pick (s_limit s') (s_alignment s') []
          (map (\<lambda>k. sort_key (\<lambda>i. ff_sort_key (\<Union>i\<in>set (filter (\<lambda>i. end_time (s_buffers s' ! i) \<ge>
              start_time (s_buffers s' ! i) + 1) placeable). set (in_place_parents (s_buffers s' ! i)))
            (s_buffers s' ! i))
            (filter (\<lambda>i. end_time (s_buffers s' ! i) \<ge> start_time (s_buffers s' ! i) + 1) placeable) ! k)
            perm) (s_buffers s', Map.empty) = Inr (bs', addrs)"
    by (auto simp: gap_plan_layout_def Let_def)
  note pf = partition_Inr [OF part]
  define score where "score = sort_key (\<lambda>i. ff_sort_key (\<Union>i\<in>set (filter (\<lambda>i. end_time (s_buffers s' ! i) \<ge>
              start_time (s_buffers s' ! i) + 1) placeable). set (in_place_parents (s_buffers s' ! i)))
            (s_buffers s' ! i))
            (filter (\<lambda>i. end_time (s_buffers s' ! i) \<ge> start_time (s_buffers s' ! i) + 1) placeable)"
  have score: "distinct score" "set score \<subseteq> set placeable"
    using pf(5) by (auto simp: score_def)
  note perm = topological_sort_perm [OF topo [folded score_def]]
  have order: "distinct (map (\<lambda>k. score ! k) perm)" "set (map (\<lambda>k. score ! k) perm) \<subseteq> set placeable"
    using perm score by (auto simp: distinct_map inj_on_def nth_eq_iff_index_eq)
  have "\<forall>i<length (s_buffers s). address (s_buffers s' ! i) = None"
    using pf(4) none by simp
  then show ?thesis
    using that [OF pf(1) _ chk order(1), of addrs] order(2) pf(2,3,6,7) known placed [folded score_def]
    by (metis (no_types, lifting) subsetD subset_trans)
qed

subsection \<open>The gap policies\<close>

locale gap_policy =
  fixes pick :: "int \<Rightarrow> Gap list \<Rightarrow> int \<Rightarrow> Gap option"
  assumes pick_fits: "pick al gaps sz = Some g \<Longrightarrow> g \<in> set gaps \<and> gap_fits al sz g"
    and pick_complete: "pick al gaps sz = None \<Longrightarrow> g \<in> set gaps \<Longrightarrow> \<not> gap_fits al sz g"
begin

lemma place_one_inv:
  assumes st: "place_one pick limit al placed i (bs, addrs) = Inr (bs', addrs')"
    and inv: "placed_inv limit al bs (set placed) addrs" and i: "i < length bs" "i \<notin> set placed"
    and names: "distinct (map b_name bs)" and pairs: "pairs_ok bs"
    and sizes: "\<And>k. k < length bs \<Longrightarrow> 0 \<le> b_size (bs ! k)" and al: "0 < al"
    and live: "\<And>k. k \<in> set placed \<Longrightarrow> start_time (bs ! k) < end_time (bs ! k)"
  shows "placed_inv limit al bs' (insert i (set placed)) addrs' \<and> same_static bs bs'"
proof -
  let ?placed = "map (\<lambda>k. bs ! k) placed"
  let ?g1 = "build_gaps limit (bs ! i) ?placed True"
  let ?g2 = "build_gaps limit (bs ! i) ?placed False"
  have placed_lt: "k < length bs" if "k \<in> set placed" for k
    using inv that by (auto simp: placed_inv_def)
  have psz: "\<forall>p\<in>set ?placed. 0 \<le> b_size p" using sizes placed_lt by auto
  consider (inherit) g a where "pick al (filter (\<lambda>g. g_parents g \<noteq> []) ?g1) (b_size (bs ! i)) = Some g"
      "addrs (hd (g_parents g)) = Some a" "bs' = bs[i := (bs ! i)\<lparr>address := Some a\<rparr>]"
      "addrs' = addrs(b_name (bs ! i) \<mapsto> a)"
    | (fresh) g a where "pick al ?g2 (b_size (bs ! i)) = Some g"
      "a = round_up_to_alignment (g_start g) al" "bs' = bs[i := (bs ! i)\<lparr>address := Some a\<rparr>]"
      "addrs' = addrs(b_name (bs ! i) \<mapsto> a)"
    | (evict) "bs' = bs" "addrs' = addrs"
    using st by (auto simp: place_one_def Let_def split: option.splits)
  then show ?thesis
  proof cases
    case evict
    then show ?thesis using placed_inv_skip [OF inv i] by simp
  next
    case fresh
    have g: "g \<in> set ?g2" "a + b_size (bs ! i) \<le> g_end g" "g_start g \<le> a" "al dvd a"
      using pick_fits [OF fresh(1)] fresh(2) round_up_ge [OF al] by (auto simp: gap_fits_def)
    note sound = build_gaps_sound [OF g(1) psz]
    have "compatible ((bs ! i)\<lparr>address := Some a\<rparr>) (bs ! k)" if k: "k \<in> set placed" for k
    proof (rule compatibleI_disjoint)
      fix x y assume "address ((bs ! i)\<lparr>address := Some a\<rparr>) = Some x" and y: "address (bs ! k) = Some y"
        and "overlaps_in_time ((bs ! i)\<lparr>address := Some a\<rparr>) (bs ! k)"
      then have "x = a" "disjoint_iv (g_start g) (g_end g) y (y + b_size (bs ! k))"
        using k by (auto simp: overlaps_in_time_sym [of "bs ! k"] intro!: sound(3))
      then show "disjoint_iv x (x + b_size ((bs ! i)\<lparr>address := Some a\<rparr>)) y (y + b_size (bs ! k))"
        using g by (auto intro: disjoint_iv_sub)
    qed
    then show ?thesis
      unfolding fresh(3,4)
      using placed_inv_extend [OF inv i names, of a] sound(1,2) g same_static_update [OF same_static_refl]
      by auto
  next
    case inherit
    from pick_fits [OF inherit(1)] have g: "g \<in> set ?g1" "g_parents g \<noteq> []" by auto
    note sound = build_gaps_sound [OF g(1) psz]
    let ?n = "hd (g_parents g)"
    obtain parent y where par: "?n \<in> set (in_place_parents (bs ! i))" "by_name ?placed ?n = Some parent"
        "address parent = Some y" "g_start g \<le> y" "y + b_size parent \<le> g_end g"
      using sound(4) [of ?n] g(2) by auto
    from par(2) obtain p where p: "p \<in> set placed" "parent = bs ! p" "b_name (bs ! p) = ?n"
      by (auto simp: by_name_def dest!: last_such_Some)
    have "addrs ?n = Some y"
      using inv p par(3) by (auto simp: placed_inv_def)
    then have ay: "y = a" using inherit(2) by simp
    have pa: "address (bs ! p) = Some a" using p par ay by simp
    have bounds: "0 \<le> a" "a + b_size (bs ! p) \<le> limit" "al dvd a"
      using inv p(1) pa by (auto simp: placed_inv_def)
    have "b_size (bs ! i) \<le> b_size (bs ! p)"
      using pairs i placed_lt [OF p(1)] p(3) par(1) by (auto simp: pairs_ok_def)
    moreover have "compatible ((bs ! i)\<lparr>address := Some a\<rparr>) (bs ! k)" if k: "k \<in> set placed" for k
      using par p pa ay k sound(3)
      by (intro inherit_compatible [OF inv i(1) k p(1) pa _ pairs live, where g = g]) auto
    ultimately show ?thesis
      unfolding inherit(3,4)
      using placed_inv_extend [OF inv i names, of a] bounds same_static_update [OF same_static_refl]
      by auto
  qed
qed

lemma place_all_inv:
  assumes "place_all pick limit al placed is (bs, addrs) = Inr (bs', addrs')"
    and "placed_inv limit al bs (set placed) addrs" "distinct (placed @ is)"
    and "set is \<subseteq> {..<length bs}" "plannable bs" "0 < al"
    and "\<And>k. k \<in> set (placed @ is) \<Longrightarrow> start_time (bs ! k) < end_time (bs ! k)"
  shows "placed_inv limit al bs' (set (placed @ is)) addrs'"
  using assms
proof (induction "is" arbitrary: placed bs addrs)
  case (Cons i "is")
  then obtain bs1 addrs1 where one: "place_one pick limit al placed i (bs, addrs) = Inr (bs1, addrs1)"
      and rest: "place_all pick limit al (placed @ [i]) is (bs1, addrs1) = Inr (bs', addrs')"
    by auto
  have step: "placed_inv limit al bs1 (insert i (set placed)) addrs1 \<and> same_static bs bs1"
    using Cons.prems by (intro place_one_inv [OF one]) (auto simp: plannable_def)
  then have st: "same_static bs bs1" by simp
  have "start_time (bs1 ! k) < end_time (bs1 ! k)" if "k \<in> set (placed @ i # is)" for k
  proof -
    have "k < length bs" using that Cons.prems(2,4) by (auto simp: placed_inv_def)
    from static_eqD(6,7) [OF same_static_nth [OF st this]] Cons.prems(7) [OF that]
    show ?thesis by simp
  qed
  then have "placed_inv limit al bs' (set ((placed @ [i]) @ is)) addrs'"
    using Cons.prems step same_static_length [OF st] plannable_static [OF st]
    by (intro Cons.IH [OF rest]) auto
  then show ?case by simp
qed simp

lemma gap_plan_sound:
  assumes "gap_plan_layout pick s = Inr bs'" "placement_input (s_buffers s)" "0 < s_alignment s"
    and "0 \<le> s_limit s"
  shows "layout_ok (s_limit s) bs' \<and>
    (\<forall>i<length bs'. \<forall>x. address (bs' ! i) = Some x \<longrightarrow> s_alignment s dvd x)"
proof (cases "s_buffers s = []")
  case True
  then show ?thesis using assms by (simp add: gap_plan_layout_def layout_ok_def)
next
  case False
  obtain bs order addrs where st: "same_static (s_buffers s) bs"
      and none: "\<forall>i<length (s_buffers s). address (bs ! i) = None"
      and chk: "check_in_place_relationships (s_buffers s) = Inr ()"
      and order: "distinct order" "set order \<subseteq> {..<length (s_buffers s)}"
        "\<forall>i\<in>set order. excluded s (s_buffers s ! i) = Inr None \<and> uses_known (bs ! i)"
      and run: "place_all pick (s_limit s) (s_alignment s) [] order (bs, Map.empty) = Inr (bs', addrs)"
    using gap_plan_layout_Inr [OF assms(1) False] by metis
  have len: "length bs = length (s_buffers s)" using same_static_length [OF st] .
  have "plannable (s_buffers s)"
    using check_in_place_pairs_ok [OF chk assms(2)] assms(2)
    by (auto simp: plannable_def placement_input_def)
  then have "plannable bs" using plannable_static [OF st] by simp
  moreover have "start_time (bs ! k) < end_time (bs ! k)" if "k \<in> set order" for k
  proof -
    have k: "k < length (s_buffers s)" using that order by auto
    from static_eqD(9) [OF same_static_nth [OF st k]] have "post_init (bs ! k) = Inr ()"
      using assms(2) k by (auto simp: placement_input_def)
    then show ?thesis using order(3) that by (intro post_initD) auto
  qed
  moreover have "placed_inv (s_limit s) (s_alignment s) bs (set []) Map.empty"
    using none len by (simp add: placed_inv_def)
  ultimately have inv: "placed_inv (s_limit s) (s_alignment s) bs' (set ([] @ order)) addrs"
    using order len assms(3) by (intro place_all_inv [OF run]) auto
  then have "\<forall>i<length bs'. \<forall>x. address (bs' ! i) = Some x \<longrightarrow> s_alignment s dvd x"
    by (auto simp: placed_inv_def)
  with placed_inv_layout_ok [OF inv] show ?thesis by simp
qed

end

sublocale gap_policy \<subseteq> layout: placement_solver "gap_plan pick" placement_input
proof
  fix bs limit al bs'
  assume "gap_plan pick bs limit al = Inr bs'"
  then obtain s where s: "gap_plan_layout pick s = Inr bs'" "s_buffers s = bs" "s_limit s = limit"
      "s_alignment s = al"
    by (auto simp: gap_plan_def init_solver_def)
  show "same_static bs bs'"
  proof (cases "bs = []")
    case True
    then show ?thesis using s by (simp add: gap_plan_layout_def)
  next
    case False
    then have "s_buffers s \<noteq> []" using s by simp
    from gap_plan_layout_Inr [OF s(1) this] obtain bs0 order addrs where
        st: "same_static (s_buffers s) bs0"
        and run: "place_all pick (s_limit s) (s_alignment s) [] order (bs0, Map.empty) = Inr (bs', addrs)"
      by metis
    from place_all_frame [OF run] have "same_static bs0 bs'" by simp
    with st s(2) show ?thesis by (auto intro: same_static_trans)
  qed
  show "layout_ok limit bs'" if "placement_input bs" "0 < al" "0 \<le> limit"
    using gap_plan_sound [OF s(1)] s that by simp
  show "address (bs' ! i) = None" if i: "i < length bs" and r: "residency_reason (bs ! i) \<noteq> None" for i
  proof -
    have "s_buffers s \<noteq> []" using s i by auto
    from gap_plan_layout_Inr [OF s(1) this] obtain bs0 order addrs where
        none: "\<forall>i<length (s_buffers s). address (bs0 ! i) = None"
        and o: "\<forall>i\<in>set order. excluded s (s_buffers s ! i) = Inr None \<and> uses_known (bs0 ! i)"
        and run: "place_all pick (s_limit s) (s_alignment s) [] order (bs0, Map.empty) = Inr (bs', addrs)"
      by metis
    have "excluded s (s_buffers s ! i) \<noteq> Inr None" using r s by (auto simp: excluded_def Let_def)
    then have "i \<notin> set order" using o by auto
    then show ?thesis using place_all_frame [OF run] none i s by auto
  qed
qed

interpretation first_fit: gap_policy pick_gap_first
proof
  show "g \<in> set gaps \<and> gap_fits al sz g" if "pick_gap_first al gaps sz = Some g" for al gaps sz g
    using that by (auto simp: pick_gap_first_def find_Some_iff)
  show "\<not> gap_fits al sz g" if "pick_gap_first al gaps sz = None" "g \<in> set gaps" for al gaps sz g
    using that by (auto simp: pick_gap_first_def find_None_iff)
qed

definition gap_waste :: "int \<Rightarrow> int \<Rightarrow> Gap \<Rightarrow> int" where
  "gap_waste al sz g = g_end g - round_up_to_alignment (g_start g) al - sz"

lemma best_fold:
  assumes "foldl (best_step al sz) (bg, bw) gaps = (bg', bw')"
    and "\<forall>g0. bg = Some g0 \<longrightarrow> gap_fits al sz g0 \<and> bw = gap_waste al sz g0"
  shows "case bg' of
      None \<Rightarrow> bg = None \<and> (\<forall>h\<in>set gaps. \<not> gap_fits al sz h)
    | Some g \<Rightarrow> (g \<in> set gaps \<or> bg = Some g) \<and> gap_fits al sz g \<and>
        (\<forall>h. h \<in> set gaps \<and> gap_fits al sz h \<or> bg = Some h \<longrightarrow> gap_waste al sz g \<le> gap_waste al sz h)"
  using assms
proof (induction gaps arbitrary: bg bw)
  case Nil
  then show ?case by (auto split: option.splits)
next
  case (Cons h gaps)
  obtain b1 w1 where step: "best_step al sz (bg, bw) h = (b1, w1)" by fastforce
  have rest: "foldl (best_step al sz) (b1, w1) gaps = (bg', bw')" using Cons.prems(1) step by simp
  have b1: "(b1 = bg \<and> w1 = bw \<and> (gap_fits al sz h \<longrightarrow> (\<exists>g0. bg = Some g0 \<and> gap_waste al sz g0 \<le> gap_waste al sz h)))
      \<or> (b1 = Some h \<and> gap_fits al sz h \<and> w1 = gap_waste al sz h \<and>
          (\<forall>g0. bg = Some g0 \<longrightarrow> gap_waste al sz h \<le> gap_waste al sz g0))"
    using step Cons.prems(2)
    by (cases bg) (auto simp: best_step_def gap_fits_def gap_waste_def Let_def split: if_splits)
  then have "\<forall>g0. b1 = Some g0 \<longrightarrow> gap_fits al sz g0 \<and> w1 = gap_waste al sz g0"
    using Cons.prems(2) by auto
  note IH = Cons.IH [OF rest this]
  show ?case
  proof (cases bg')
    case None
    with IH have "b1 = None" "\<forall>h\<in>set gaps. \<not> gap_fits al sz h" by simp_all
    with b1 None show ?thesis by auto
  next
    case (Some g)
    with IH have g: "g \<in> set gaps \<or> b1 = Some g" "gap_fits al sz g"
        and least: "\<And>k. k \<in> set gaps \<Longrightarrow> gap_fits al sz k \<Longrightarrow> gap_waste al sz g \<le> gap_waste al sz k"
          "\<And>k. b1 = Some k \<Longrightarrow> gap_waste al sz g \<le> gap_waste al sz k"
      by auto
    have "gap_waste al sz g \<le> gap_waste al sz k"
      if "k \<in> set (h # gaps) \<and> gap_fits al sz k \<or> bg = Some k" for k
      using that b1 least by (metis order_trans set_ConsD)
    then show ?thesis using g b1 Some by auto
  qed
qed

interpretation best_fit: gap_policy pick_gap_best
proof
  fix al sz g and gaps :: "Gap list"
  obtain bg bw where run: "foldl (best_step al sz) (None, 0) gaps = (bg, bw)" by fastforce
  note f = best_fold [OF run]
  show "g \<in> set gaps \<and> gap_fits al sz g" if "pick_gap_best al gaps sz = Some g"
    using that f run by (simp add: pick_gap_best_def)
  show "\<not> gap_fits al sz g" if "pick_gap_best al gaps sz = None" "g \<in> set gaps"
    using that f run by (simp add: pick_gap_best_def)
qed

subsection \<open>Properties\<close>

text \<open>Two buffers for the witnesses: a parent and the child that takes its slot over.\<close>

lemma demo_pair_first_fit:
  "map_sum id (map address) (gap_plan pick_gap_first demo_pair 4 1) = Inr [Some 0, Some 0]"
  by code_simp

lemma demo_pair_best_fit:
  "map_sum id (map address) (gap_plan pick_gap_best demo_pair 4 1) = Inr [Some 0, Some 0]"
  by code_simp

text \<open>C2: a finished first-fit plan is a valid layout.  Every placed buffer lies inside
  \<open>[0, limit)\<close> at an aligned address, and two placed buffers that are live at the same time
  occupy disjoint byte ranges unless one takes over the other's slot in place, at the same
  address.\<close>

theorem first_fit_layout_sound:
  assumes "gap_plan pick_gap_first bs limit al = Inr bs'" "placement_input bs" "0 < al" "0 \<le> limit"
  shows "layout_ok limit bs' \<and> (\<forall>i<length bs'. \<forall>x. address (bs' ! i) = Some x \<longrightarrow> al dvd x)"
proof -
  from assms(1) obtain s where "gap_plan_layout pick_gap_first s = Inr bs'" "s_buffers s = bs"
      "s_limit s = limit" "s_alignment s = al"
    by (auto simp: gap_plan_def init_solver_def)
  with first_fit.gap_plan_sound [of s bs'] assms(2-4) show ?thesis by simp
qed

lemma first_fit_layout_sound_witness:
  "\<exists>bs'. gap_plan pick_gap_first demo_pair 4 1 = Inr bs' \<and> map address bs' = [Some 0, Some 0] \<and>
     layout_ok 4 bs'"
proof -
  obtain bs' where run: "gap_plan pick_gap_first demo_pair 4 1 = Inr bs'"
      and addrs: "map address bs' = [Some 0, Some 0]"
    using map_sum_InrD [OF demo_pair_first_fit] by metis
  from first_fit_layout_sound [OF run demo_pair_input] run addrs show ?thesis by simp
qed

text \<open>the same for best-fit, which differs in the gap policy only.\<close>

theorem best_fit_layout_sound:
  assumes "gap_plan pick_gap_best bs limit al = Inr bs'" "placement_input bs" "0 < al" "0 \<le> limit"
  shows "layout_ok limit bs' \<and> (\<forall>i<length bs'. \<forall>x. address (bs' ! i) = Some x \<longrightarrow> al dvd x)"
proof -
  from assms(1) obtain s where "gap_plan_layout pick_gap_best s = Inr bs'" "s_buffers s = bs"
      "s_limit s = limit" "s_alignment s = al"
    by (auto simp: gap_plan_def init_solver_def)
  with best_fit.gap_plan_sound [of s bs'] assms(2-4) show ?thesis by simp
qed

lemma best_fit_layout_sound_witness:
  "\<exists>bs'. gap_plan pick_gap_best demo_pair 4 1 = Inr bs' \<and> map address bs' = [Some 0, Some 0] \<and>
     layout_ok 4 bs'"
proof -
  obtain bs' where run: "gap_plan pick_gap_best demo_pair 4 1 = Inr bs'"
      and addrs: "map address bs' = [Some 0, Some 0]"
    using map_sum_InrD [OF demo_pair_best_fit] by metis
  from best_fit_layout_sound [OF run demo_pair_input] run addrs show ?thesis by simp
qed

text \<open>eviction is justified.  If first-fit leaves a buffer without an address, then every
  aligned position inside the scratchpad collides with a buffer placed before it that is live
  at the same time.\<close>

theorem first_fit_evicts_only_when_no_room:
  assumes "place_one pick_gap_first limit al placed i (bs, addrs) = Inr (bs', addrs')"
    and "i < length bs" "address (bs' ! i) = None" "0 < b_size (bs ! i)" "0 < al"
    and "\<forall>k\<in>set placed. 0 \<le> b_size (bs ! k)"
    and "al dvd x" "0 \<le> x" "x + b_size (bs ! i) \<le> limit"
  shows "\<exists>k\<in>set placed. \<exists>y. address (bs ! k) = Some y \<and> overlaps_in_time (bs ! k) (bs ! i) \<and>
    \<not> disjoint_iv x (x + b_size (bs ! i)) y (y + b_size (bs ! k))"
proof (rule ccontr)
  assume no: "\<not> ?thesis"
  let ?gaps = "build_gaps limit (bs ! i) (map (\<lambda>k. bs ! k) placed) False"
  have none: "pick_gap_first al ?gaps (b_size (bs ! i)) = None"
    using assms(1-3) by (auto simp: place_one_def Let_def split: option.splits)
  obtain g where g: "g \<in> set ?gaps" "g_start g \<le> x" "x + b_size (bs ! i) \<le> g_end g"
    using build_gaps_complete [of "map (\<lambda>k. bs ! k) placed" "bs ! i" x limit] assms no by auto
  have "round_up_to_alignment (g_start g) al \<le> round_up_to_alignment x al"
    using g(2) assms(5) by (intro round_up_mono)
  then have "gap_fits al (b_size (bs ! i)) g"
    using g(3) round_up_dvd_id [OF assms(5,7)] by (simp add: gap_fits_def)
  with first_fit.pick_complete [OF none g(1)] show False by simp
qed

lemma first_fit_evicts_only_when_no_room_witness:
  "\<exists>y. address (demo_buffer ''a'' 3 [0, 2] []\<lparr>address := Some 0\<rparr>) = Some y \<and>
     \<not> disjoint_iv 1 3 y (y + 3)"
proof -
  let ?bs = "[demo_buffer ''a'' 3 [0, 2] []\<lparr>address := Some 0\<rparr>, demo_buffer ''b'' 2 [1, 2] []]"
  have "place_one pick_gap_first 4 1 [0] 1 (?bs, [''a'' \<mapsto> 0]) = Inr (?bs, [''a'' \<mapsto> 0])"
    by (simp add: place_one_def Let_def demo_buffer_def build_gaps_def conflict_intervals_def
        start_time_def end_time_def all_minus_def gap_minus_def annotate_gap_def pick_gap_first_def
        gap_fits_def)
  from first_fit_evicts_only_when_no_room [OF this, of 1] show ?thesis
    by (simp add: demo_buffer_def)
qed

text \<open>The best-fit policy returns a fitting gap with the least waste.\<close>

theorem best_fit_gap_is_tightest:
  assumes "pick_gap_best al gaps sz = Some g"
  shows "g \<in> set gaps \<and> gap_fits al sz g \<and>
    (\<forall>h\<in>set gaps. gap_fits al sz h \<longrightarrow> gap_waste al sz g \<le> gap_waste al sz h)"
proof -
  obtain bw where run: "foldl (best_step al sz) (None, 0) gaps = (Some g, bw)"
    using assms by (cases "foldl (best_step al sz) (None, 0) gaps") (auto simp: pick_gap_best_def)
  from best_fold [OF run] show ?thesis by auto
qed

lemma best_fit_gap_is_tightest_witness:
  "pick_gap_best 1 [mk_gap 0 9, mk_gap 10 12] 2 = Some (mk_gap 10 12) \<and>
   gap_waste 1 2 (mk_gap 10 12) \<le> gap_waste 1 2 (mk_gap 0 9)"
proof -
  have "pick_gap_best 1 [mk_gap 0 9, mk_gap 10 12] 2 = Some (mk_gap 10 12)"
    by (simp add: pick_gap_best_def best_step_def round_up_to_alignment_def)
  moreover have "gap_fits 1 2 (mk_gap 0 9)" by (simp add: gap_fits_def round_up_to_alignment_def)
  ultimately show ?thesis
    using best_fit_gap_is_tightest [of 1 "[mk_gap 0 9, mk_gap 10 12]" 2 "mk_gap 10 12"] by simp
qed

text \<open>the placement order of in-place families.  \<open>_topological_sort\<close> returns every index
  exactly once, and a declared parent that is a candidate comes before its child.\<close>

theorem topological_sort_order:
  assumes "topological_sort bs f = Inr perm"
  shows "distinct perm \<and> set perm = {..<length bs} \<and>
    (\<forall>k<length perm. \<forall>n\<in>set (in_place_parents (bs ! (perm ! k))). \<forall>p.
       name_to_idx bs n = Some p \<longrightarrow> p \<in> set (take k perm))"
  using topological_sort_perm [OF assms] topological_sort_parents_first [OF assms] by auto

lemma topological_sort_order_witness:
  "\<exists>perm. topological_sort (rev demo_pair) (\<lambda>_. 0::int) = Inr perm \<and> perm = [1, 0] \<and>
     set perm = {..<2}"
proof -
  have run: "topological_sort (rev demo_pair) (\<lambda>_. 0::int) = Inr [1, 0]"
    by (simp add: topological_sort_def demo_pair_def demo_buffer_def topo_in_degree_def topo_edges_def
        topo_children_def topo_release_def name_to_idx_def last_such_def check_def Let_def upt_rec)
  from topological_sort_order [OF this] run show ?thesis by (simp add: demo_pair_def numeral_2_eq_2)
qed

end
