(* ===== verification/Greedy_Solver.thy ===== *)
theory Greedy_Solver
  imports Plan_Solver "HOL-Library.Product_Lexorder"
begin

text \<open>
  The time-stepping solver (\<open>torch_spyre/_inductor/scratchpad/greedy_solver.py\<close>).

  The solver object is the record \<open>greedy\<close>; a reference to a buffer is its index.  The walk
  visits the start and end ticks in order, frees the buffers that end there and places the ones
  that start there: on the slot of an in-place parent whose slot was not handed over before, else
  below, above or between the spans in use.  A paired group is placed as a whole or not at
  all.  \<open>math.ceil(x / alignment)\<close> is integer ceiling division, which the float quotient equals
  for addresses below \<open>2^53\<close>.
\<close>

subsection \<open>The solver object\<close>

record greedy =
  gd_buffers :: "buffer list"
  gd_limit :: int
  gd_alignment :: int
  usage :: "nat list"
  reused_parents :: "string list"
  paired_group_by_name :: "(string \<times> nat list) list"
  rejected_paired_buffers :: "string list"

definition greedy_caps :: capabilities where
  "greedy_caps = \<lparr>chooses_core_divisions = False, supports_paired_buffers = True,
     decides_lx_relayouts = False, generates_divisions = False, chooses_tilings = False,
     tilings_from_menu = False, linear_cost_only = False\<rparr>"

definition spans_in_use :: "greedy \<Rightarrow> (int \<times> int) list" where
  "spans_in_use g =
     List.map_filter (\<lambda>u. case address (gd_buffers g ! u) of
         None \<Rightarrow> None
       | Some a \<Rightarrow> Some (a, a + b_size (gd_buffers g ! u))) (usage g)"

definition get_lowest_addr_in_use :: "greedy \<Rightarrow> int" where
  "get_lowest_addr_in_use g =
     (case spans_in_use g of [] \<Rightarrow> 0 | x # xs \<Rightarrow> fold min (map fst xs) (fst x))"

definition get_highest_addr_in_use :: "greedy \<Rightarrow> int" where
  "get_highest_addr_in_use g =
     (case spans_in_use g of [] \<Rightarrow> 0 | x # xs \<Rightarrow> fold max (map snd xs) (snd x))"

definition merge_step :: "(int \<times> int) list \<Rightarrow> int \<times> int \<Rightarrow> (int \<times> int) list" where
  "merge_step merged sp =
     (if merged \<noteq> [] \<and> fst sp \<le> snd (last merged)
      then butlast merged @ [(fst (last merged), max (snd (last merged)) (snd sp))]
      else merged @ [sp])"

definition occupied_spans :: "greedy \<Rightarrow> (int \<times> int) list" where
  "occupied_spans g = foldl merge_step [] (sort (spans_in_use g))"

definition align_ceil :: "int \<Rightarrow> int \<Rightarrow> int" where
  "align_ceil x al = - ((- x) div al) * al"

fun first_gap :: "int \<Rightarrow> int \<Rightarrow> (int \<times> int) list \<Rightarrow> int option" where
  "first_gap al size_needed (a # b # spans) =
     (let frag_st = align_ceil (snd a) al
      in if fst b - frag_st \<ge> size_needed then Some frag_st
         else first_gap al size_needed (b # spans))"
| "first_gap al size_needed spans = None"

definition find_free_block :: "greedy \<Rightarrow> int \<Rightarrow> int option res" where
  "find_free_block g size_needed =
     bindE (check (\<forall>u\<in>set (usage g). address (gd_buffers g ! u) \<noteq> None) AssertionError) (\<lambda>_.
       if gd_limit g < size_needed then Inr None
       else if usage g = [] \<or> get_lowest_addr_in_use g \<ge> size_needed then Inr (Some 0)
       else if gd_alignment g = 0 then Inl ZeroDivisionError
       else
         let addr = align_ceil (get_highest_addr_in_use g) (gd_alignment g)
         in if addr + size_needed \<le> gd_limit g then Inr (Some addr)
            else Inr (first_gap (gd_alignment g) size_needed (occupied_spans g)))"

subsection \<open>Placing one buffer or one group\<close>

text \<open>The first parent in order that is in use, large enough and not handed over yet.\<close>

fun find_parent :: "greedy \<Rightarrow> nat \<Rightarrow> string list \<Rightarrow> nat option" where
  "find_parent g i [] = None"
| "find_parent g i (p # ps) =
     (if p \<in> set (reused_parents g) then find_parent g i ps
      else (case find (\<lambda>u. b_name (gd_buffers g ! u) = p) (usage g) of
              Some m \<Rightarrow>
                if b_size (gd_buffers g ! i) \<le> b_size (gd_buffers g ! m) then Some m
                else find_parent g i ps
            | None \<Rightarrow> find_parent g i ps))"

definition set_address :: "nat \<Rightarrow> int option \<Rightarrow> greedy \<Rightarrow> greedy" where
  "set_address i a g = g\<lparr>gd_buffers := (gd_buffers g)[i := (gd_buffers g ! i)\<lparr>address := a\<rparr>]\<rparr>"

definition try_allocate_one :: "nat \<Rightarrow> greedy \<Rightarrow> greedy res" where
  "try_allocate_one i g =
     (case find_parent g i (in_place_parents (gd_buffers g ! i)) of
        Some m \<Rightarrow>
          (let g1 = set_address i (address (gd_buffers g ! m)) g
           in Inr (g1\<lparr>usage := usage g @ [i],
                     reused_parents := b_name (gd_buffers g ! m) # reused_parents g\<rparr>))
      | None \<Rightarrow>
          bindE (find_free_block g (b_size (gd_buffers g ! i))) (\<lambda>addr.
            case addr of
              Some a \<Rightarrow> Inr ((set_address i (Some a) g)\<lparr>usage := usage g @ [i]\<rparr>)
            | None \<Rightarrow> Inr (set_address i None g)))"

text \<open>Members in order; \<open>False\<close> as soon as one stays without an address.\<close>

fun place_members :: "nat list \<Rightarrow> greedy \<Rightarrow> (bool \<times> greedy) res" where
  "place_members [] g = Inr (True, g)"
| "place_members (m # ms) g =
     bindE (try_allocate_one m g) (\<lambda>g1.
       if address (gd_buffers g1 ! m) \<noteq> None then place_members ms g1 else Inr (False, g1))"

definition reject_group :: "nat list \<Rightarrow> greedy \<Rightarrow> greedy \<Rightarrow> greedy" where
  "reject_group grp previous g =
     fold (\<lambda>i. set_address i None) grp
       (g\<lparr>usage := usage previous, reused_parents := reused_parents previous,
          rejected_paired_buffers :=
            map (\<lambda>i. b_name (gd_buffers g ! i)) grp @ rejected_paired_buffers g\<rparr>)"

definition try_allocate :: "nat \<Rightarrow> greedy \<Rightarrow> greedy res" where
  "try_allocate i g =
     (if address (gd_buffers g ! i) \<noteq> None \<or>
         b_name (gd_buffers g ! i) \<in> set (rejected_paired_buffers g) then Inr g
      else (case map_of (paired_group_by_name g) (b_name (gd_buffers g ! i)) of
              None \<Rightarrow> try_allocate_one i g
            | Some grp \<Rightarrow>
                bindE (place_members grp g) (\<lambda>(ok, g1).
                  Inr (if ok then g1 else reject_group grp g g1))))"

text \<open>Dataclass equality ignores the fields declared \<open>compare=False\<close>.\<close>

definition buffer_eq :: "buffer \<Rightarrow> buffer \<Rightarrow> bool" where
  "buffer_eq a b = (a\<lparr>paired_with := [], spill_reason := None\<rparr> = b\<lparr>paired_with := [], spill_reason := None\<rparr>)"

fun remove_first :: "('a \<Rightarrow> bool) \<Rightarrow> 'a list \<Rightarrow> 'a list" where
  "remove_first p [] = []"
| "remove_first p (x # xs) = (if p x then xs else x # remove_first p xs)"

definition try_deallocate :: "nat \<Rightarrow> greedy \<Rightarrow> greedy" where
  "try_deallocate i g =
     g\<lparr>usage := remove_first (\<lambda>u. buffer_eq (gd_buffers g ! u) (gd_buffers g ! i)) (usage g)\<rparr>"

subsection \<open>Paired groups\<close>

definition index_by_name :: "buffer list \<Rightarrow> string \<Rightarrow> nat option" where
  "index_by_name bs n = last_such (\<lambda>i. b_name (bs ! i) = n) [0..<length bs]"

text \<open>Registering the members of one group; a reference outside the solve is an assertion error.\<close>

fun register_members :: "nat list \<Rightarrow> nat list \<Rightarrow> greedy \<Rightarrow> greedy res" where
  "register_members grp [] g = Inr g"
| "register_members grp (m # ms) g =
     (let name = b_name (gd_buffers g ! m)
      in bindE (check (m < length (gd_buffers g) \<and> index_by_name (gd_buffers g) name = Some m) AssertionError) (\<lambda>_.
         bindE (check (map_of (paired_group_by_name g) name = None) AssertionError) (\<lambda>_.
           register_members grp ms
             (g\<lparr>paired_group_by_name := (name, grp) # paired_group_by_name g\<rparr>))))"

definition register_group :: "string set \<Rightarrow> nat \<Rightarrow> greedy \<Rightarrow> greedy res" where
  "register_group placeable_names root g =
     (if paired_with (gd_buffers g ! root) = [] then Inr g
      else
        let grp = root # paired_with (gd_buffers g ! root);
            names = map (\<lambda>i. b_name (gd_buffers g ! i)) grp
        in bindE (check (distinct names) AssertionError) (\<lambda>_.
           bindE (register_members grp grp g) (\<lambda>g1.
             Inr (if \<exists>n\<in>set names. n \<notin> placeable_names
                  then g1\<lparr>rejected_paired_buffers := names @ rejected_paired_buffers g1\<rparr>
                  else g1))))"

subsection \<open>The time walk\<close>

definition tick :: "nat list \<Rightarrow> int \<Rightarrow> greedy \<Rightarrow> greedy res" where
  "tick placeable idx g =
     foldE (\<lambda>i g. if idx = start_time (gd_buffers g ! i) then try_allocate i g else Inr g) placeable
       (fold (\<lambda>i g. if idx = end_time (gd_buffers g ! i) then try_deallocate i g else g) placeable g)"

definition transition_times :: "buffer list \<Rightarrow> nat list \<Rightarrow> int list" where
  "transition_times bs placeable =
     sort (remdups (concat (map (\<lambda>i. [start_time (bs ! i), end_time (bs ! i)]) placeable)))"

definition greedy_plan_layout :: "solver \<Rightarrow> buffer list res" where
  "greedy_plan_layout s =
     (if s_buffers s = [] then Inr []
      else
        bindE (check (\<forall>b\<in>set (s_buffers s). address b = None) AssertionError) (\<lambda>_.
        bindE (check_in_place_relationships (s_buffers s)) (\<lambda>_.
        bindE (partition s) (\<lambda>(s1, placeable, _).
          if placeable = [] then Inr (s_buffers s1)
          else
            let g0 = \<lparr>gd_buffers = s_buffers s1, gd_limit = s_limit s, gd_alignment = s_alignment s,
                  usage = [], reused_parents = [], paired_group_by_name = [],
                  rejected_paired_buffers = []\<rparr>;
                placeable_names = set (map (\<lambda>i. b_name (s_buffers s1 ! i)) placeable)
            in bindE (foldE (register_group placeable_names) [0..<length (s_buffers s1)] g0) (\<lambda>g1.
               bindE (check (\<forall>i\<in>set placeable. uses_known (s_buffers s1 ! i)) IndexError) (\<lambda>_.
               bindE (foldE (tick placeable) (transition_times (s_buffers s1) placeable) g1) (\<lambda>g2.
                 Inr (gd_buffers g2))))))))"

definition greedy_plan :: "buffer list \<Rightarrow> int \<Rightarrow> int \<Rightarrow> buffer list res" where
  "greedy_plan bs limit al = bindE (init_solver greedy_caps bs limit al) greedy_plan_layout"

subsection \<open>Free space\<close>

lemma fold_min_le: "fold min xs (x::int) \<le> x \<and> (\<forall>y\<in>set xs. fold min xs x \<le> y)"
proof (induction xs arbitrary: x)
  case (Cons a xs)
  from Cons.IH [of "min a x"] show ?case by auto
qed simp

lemma fold_max_le: "x \<le> fold max xs (x::int) \<and> (\<forall>y\<in>set xs. y \<le> fold max xs x)"
proof (induction xs arbitrary: x)
  case (Cons a xs)
  from Cons.IH [of "max a x"] show ?case by auto
qed simp

lemma lowest_le: "sp \<in> set (spans_in_use g) \<Longrightarrow> get_lowest_addr_in_use g \<le> fst sp"
  using fold_min_le by (auto simp: get_lowest_addr_in_use_def split: list.split)

lemma highest_ge: "sp \<in> set (spans_in_use g) \<Longrightarrow> snd sp \<le> get_highest_addr_in_use g"
  using fold_max_le by (auto simp: get_highest_addr_in_use_def split: list.split)

lemma spans_in_use_iff:
  "(lo, hi) \<in> set (spans_in_use g) \<longleftrightarrow>
     (\<exists>u\<in>set (usage g). address (gd_buffers g ! u) = Some lo \<and> hi = lo + b_size (gd_buffers g ! u))"
  by (force simp: spans_in_use_def List.map_filter_def split: option.splits)

lemma align_ceil_ge: "0 < al \<Longrightarrow> x \<le> align_ceil x al"
  using ceil_div_bounds(1) [of x al] by (simp add: align_ceil_def ceil_div_def)

lemma align_ceil_dvd [simp]: "al dvd align_ceil x al"
  by (simp add: align_ceil_def)

text \<open>The merged spans are ordered, apart from each other, and cover every span.\<close>

definition spans_ok :: "(int \<times> int) list \<Rightarrow> (int \<times> int) list \<Rightarrow> bool" where
  "spans_ok xs m \<longleftrightarrow> sorted_wrt (\<lambda>a b. snd a < fst b) m \<and> (\<forall>s\<in>set m. fst s \<le> snd s) \<and>
     (\<forall>x\<in>set xs. \<exists>s\<in>set m. fst s \<le> fst x \<and> snd x \<le> snd s) \<and> fst ` set m \<subseteq> fst ` set xs"

lemma merge_step_ok:
  assumes ok: "spans_ok xs m" and x: "fst x \<le> snd x" and le: "\<forall>y\<in>set xs. fst y \<le> fst x"
  shows "spans_ok (xs @ [x]) (merge_step m x)"
proof (cases "m \<noteq> [] \<and> fst x \<le> snd (last m)")
  case True
  then obtain m' l where m: "m = m' @ [l]" by (cases m rule: rev_cases) auto
  have step: "merge_step m x = m' @ [(fst l, max (snd l) (snd x))]" using True by (simp add: merge_step_def m)
  have "fst l \<in> fst ` set xs" using ok by (auto simp: spans_ok_def m)
  then have l: "fst l \<le> fst x" using le by auto
  have cover: "\<exists>s\<in>set (m' @ [(fst l, max (snd l) (snd x))]). fst s \<le> fst y \<and> snd y \<le> snd s"
    if "y \<in> set (xs @ [x])" for y
  proof (cases "y = x")
    case True
    then show ?thesis using l by auto
  next
    case False
    with that have "y \<in> set xs" by simp
    then obtain s where "s \<in> set m" "fst s \<le> fst y" "snd y \<le> snd s"
      using ok by (auto simp: spans_ok_def)
    then show ?thesis by (cases "s = l") (auto simp: m)
  qed
  show ?thesis
    using ok cover unfolding spans_ok_def step by (auto simp: m sorted_wrt_append)
next
  case False
  then have step: "merge_step m x = m @ [x]" by (auto simp: merge_step_def)
  have "\<forall>s\<in>set m. snd s < fst x"
  proof (cases m rule: rev_cases)
    case (snoc m' l)
    have "snd l < fst x" using False snoc by simp
    moreover have "snd s < fst l" "fst l \<le> snd l" if "s \<in> set m'" for s
      using ok that by (auto simp: spans_ok_def snoc sorted_wrt_append)
    ultimately show ?thesis using snoc by fastforce
  qed simp
  then show ?thesis using ok x unfolding spans_ok_def step by (auto simp: sorted_wrt_append)
qed

lemma merge_spans_ok: "sorted xs \<Longrightarrow> \<forall>x\<in>set xs. fst x \<le> snd x \<Longrightarrow> spans_ok xs (foldl merge_step [] xs)"
proof (induction xs rule: rev_induct)
  case Nil
  show ?case by (simp add: spans_ok_def)
next
  case (snoc x xs)
  then have "\<forall>y\<in>set xs. y \<le> x" by (simp add: sorted_append)
  then have "\<forall>y\<in>set xs. fst y \<le> fst x" by (auto simp: less_eq_prod_def)
  with snoc show ?case by (auto simp: sorted_append intro!: merge_step_ok)
qed

lemma first_gap_Some:
  assumes "first_gap al sz m = Some a" "sorted_wrt (\<lambda>a b. snd a < fst b) m" "\<forall>s\<in>set m. fst s \<le> snd s" "0 < al"
  shows "al dvd a \<and> (\<exists>s\<in>set m. snd s \<le> a) \<and> (\<exists>s\<in>set m. a + sz \<le> fst s) \<and>
    (\<forall>s\<in>set m. snd s \<le> a \<or> a + sz \<le> fst s)"
  using assms
proof (induction al sz m rule: first_gap.induct)
  case (1 al sz s t spans)
  show ?case
  proof (cases "fst t - align_ceil (snd s) al \<ge> sz")
    case True
    then have a: "a = align_ceil (snd s) al" using "1.prems"(1) by simp
    have "fst t \<le> fst r" if "r \<in> set (t # spans)" for r
      using that "1.prems"(2,3) by fastforce
    with True a align_ceil_ge [of al "snd s"] "1.prems"(4) show ?thesis by fastforce
  next
    case False
    then have "first_gap al sz (t # spans) = Some a" using "1.prems"(1) by simp
    from "1.IH" [OF refl False this] "1.prems"
    have ih: "al dvd a" "\<exists>s\<in>set (t # spans). snd s \<le> a" "\<exists>s\<in>set (t # spans). a + sz \<le> fst s"
        "\<forall>s\<in>set (t # spans). snd s \<le> a \<or> a + sz \<le> fst s" by auto
    from ih(2) "1.prems"(2,3) have "snd s \<le> a" by fastforce
    with ih show ?thesis by auto
  qed
qed simp_all

definition in_use_ok :: "greedy \<Rightarrow> bool" where
  "in_use_ok g \<longleftrightarrow> (\<forall>u\<in>set (usage g). \<exists>a. address (gd_buffers g ! u) = Some a \<and> 0 \<le> a \<and>
     0 \<le> b_size (gd_buffers g ! u) \<and> a + b_size (gd_buffers g ! u) \<le> gd_limit g)"

lemma find_free_block_Some:
  assumes "find_free_block g sz = Inr (Some a)"
  obtains (empty) "usage g = []" "a = 0" "sz \<le> gd_limit g"
  | (below) "a = 0" "sz \<le> gd_limit g" "sz \<le> get_lowest_addr_in_use g"
  | (above) "a = align_ceil (get_highest_addr_in_use g) (gd_alignment g)" "a + sz \<le> gd_limit g"
      "usage g \<noteq> []"
  | (between) "first_gap (gd_alignment g) sz (occupied_spans g) = Some a"
  using assms by (auto simp: find_free_block_def Let_def split: if_splits)

lemma find_free_block_sound:
  assumes f: "find_free_block g sz = Inr (Some a)" and ok: "in_use_ok g" and al: "0 < gd_alignment g"
    and sz: "0 \<le> sz"
  shows "0 \<le> a \<and> a + sz \<le> gd_limit g \<and> gd_alignment g dvd a \<and>
    (\<forall>sp\<in>set (spans_in_use g). snd sp \<le> a \<or> a + sz \<le> fst sp)"
proof -
  have sp: "0 \<le> fst sp \<and> fst sp \<le> snd sp \<and> snd sp \<le> gd_limit g" if "sp \<in> set (spans_in_use g)" for sp
    using that ok spans_in_use_iff [of "fst sp" "snd sp" g] by (fastforce simp: in_use_ok_def)
  from f show ?thesis
  proof (cases rule: find_free_block_Some)
    case empty
    then show ?thesis by (simp add: spans_in_use_def List.map_filter_def)
  next
    case below
    then show ?thesis using lowest_le by fastforce
  next
    case above
    then obtain u where "u \<in> set (usage g)" by (cases "usage g") auto
    then obtain s where s: "s \<in> set (spans_in_use g)" using ok by (fastforce simp: in_use_ok_def spans_in_use_iff)
    have hi: "get_highest_addr_in_use g \<le> a" using above align_ceil_ge [OF al] by simp
    with sp [OF s] highest_ge [OF s] have "0 \<le> a" by linarith
    moreover have "\<forall>sp\<in>set (spans_in_use g). snd sp \<le> a" using highest_ge hi by fastforce
    ultimately show ?thesis using above by simp
  next
    case between
    have m: "spans_ok (sort (spans_in_use g)) (occupied_spans g)"
      unfolding occupied_spans_def using sp by (intro merge_spans_ok) auto
    have g: "gd_alignment g dvd a" "\<exists>s\<in>set (occupied_spans g). snd s \<le> a"
        "\<exists>s\<in>set (occupied_spans g). a + sz \<le> fst s" "\<forall>s\<in>set (occupied_spans g). snd s \<le> a \<or> a + sz \<le> fst s"
      using first_gap_Some [OF between _ _ al] m by (auto simp: spans_ok_def)
    have fsts: "fst s \<in> fst ` set (spans_in_use g)" if "s \<in> set (occupied_spans g)" for s
      using m that by (auto simp: spans_ok_def)
    obtain s where s: "s \<in> set (occupied_spans g)" "snd s \<le> a" using g(2) by blast
    have "0 \<le> fst s" "fst s \<le> snd s" using fsts [OF s(1)] sp m s(1) by (auto simp: spans_ok_def)
    then have "0 \<le> a" using s(2) by simp
    moreover obtain r where r: "r \<in> set (occupied_spans g)" "a + sz \<le> fst r" using g(3) by blast
    have "fst r \<le> gd_limit g" using fsts [OF r(1)] sp by fastforce
    then have "a + sz \<le> gd_limit g" using r(2) by simp
    moreover have "snd x \<le> a \<or> a + sz \<le> fst x" if x: "x \<in> set (spans_in_use g)" for x
    proof -
      have "\<forall>x\<in>set (spans_in_use g). \<exists>s\<in>set (occupied_spans g). fst s \<le> fst x \<and> snd x \<le> snd s"
        using m by (simp add: spans_ok_def)
      then obtain s where s: "s \<in> set (occupied_spans g)" "fst s \<le> fst x" "snd x \<le> snd s"
        using x by blast
      show ?thesis using bspec [OF g(4) s(1)] s(2,3) by linarith
    qed
    ultimately show ?thesis using g(1) by blast
  qed
qed

subsection \<open>The placement invariant\<close>

lemma time_address [simp]:
  "start_time (b\<lparr>address := a\<rparr>) = start_time b" "end_time (b\<lparr>address := a\<rparr>) = end_time b"
  by (simp_all add: start_time_def end_time_def)

definition apart :: "buffer \<Rightarrow> buffer \<Rightarrow> bool" where
  "apart a b \<longleftrightarrow> (\<forall>x y. address a = Some x \<longrightarrow> address b = Some y \<longrightarrow>
     disjoint_iv x (x + b_size a) y (y + b_size b))"

text \<open>\<open>b\<close> stands on the slot of \<open>a\<close>, which was handed over before.\<close>

definition handed :: "string list \<Rightarrow> buffer \<Rightarrow> buffer \<Rightarrow> bool" where
  "handed reused a b \<longleftrightarrow> address a = address b \<and> end_time a \<le> start_time b + 1 \<and>
     (end_time a \<le> start_time b \<or> b_name a \<in> set (in_place_parents b)) \<and>
     b_name a \<in> set reused \<and> in_place_parents b \<noteq> []"

definition solvable :: "buffer list \<Rightarrow> bool" where
  "solvable bs \<longleftrightarrow> distinct (map b_name bs) \<and> pairs_ok bs \<and> (\<forall>b\<in>set bs. 0 \<le> b_size b) \<and>
     (\<forall>i<length bs. \<forall>j<length bs. b_name (bs ! j) \<in> set (in_place_parents (bs ! i)) \<longrightarrow>
        in_place_parents (bs ! j) \<noteq> [] \<longrightarrow> start_time (bs ! j) + 1 < end_time (bs ! j))"

definition greedy_inv :: "int \<Rightarrow> greedy \<Rightarrow> bool" where
  "greedy_inv now g \<longleftrightarrow> solvable (gd_buffers g) \<and> 0 < gd_alignment g \<and> in_use_ok g \<and>
     set (usage g) \<subseteq> {..<length (gd_buffers g)} \<and>
     (\<forall>u\<in>set (usage g). \<forall>v\<in>set (usage g). u \<noteq> v \<longrightarrow>
        apart (gd_buffers g ! u) (gd_buffers g ! v) \<or>
        handed (reused_parents g) (gd_buffers g ! u) (gd_buffers g ! v) \<or>
        handed (reused_parents g) (gd_buffers g ! v) (gd_buffers g ! u)) \<and>
     (\<forall>i<length (gd_buffers g). address (gd_buffers g ! i) \<noteq> None \<longrightarrow>
        i \<in> set (usage g) \<or> end_time (gd_buffers g ! i) \<le> now) \<and>
     (\<forall>i<length (gd_buffers g). \<forall>a. address (gd_buffers g ! i) = Some a \<longrightarrow> gd_alignment g dvd a) \<and>
     layout_ok (gd_limit g) (gd_buffers g)"

lemma apart_sym: "apart a b \<Longrightarrow> apart b a"
  by (auto simp: apart_def dest: disjoint_iv_sym)

lemma apart_compatible: "apart a b \<Longrightarrow> compatible a b"
  by (auto simp: apart_def compatible_def)

lemma handed_compatible: "handed reused a b \<Longrightarrow> compatible a b"
  by (auto simp: handed_def compatible_def in_place_pair_def overlaps_in_time_def)

lemma solvable_static:
  assumes "same_static bs bs'" "solvable bs"
  shows "solvable bs'"
proof -
  have len: "length bs' = length bs" by (rule same_static_length [OF assms(1)])
  have eq: "b_name (bs' ! i) = b_name (bs ! i)" "b_size (bs' ! i) = b_size (bs ! i)"
      "in_place_parents (bs' ! i) = in_place_parents (bs ! i)"
      "start_time (bs' ! i) = start_time (bs ! i)" "end_time (bs' ! i) = end_time (bs ! i)"
    if "i < length bs" for i
    using static_eqD [OF same_static_nth [OF assms(1) that]] by simp_all
  have "\<forall>b\<in>set bs'. 0 \<le> b_size b"
    using assms(2) by (simp add: solvable_def all_set_conv_all_nth len eq)
  moreover have "pairs_ok bs'"
    using assms(2) by (simp add: solvable_def pairs_ok_def len eq)
  moreover have "\<forall>i<length bs. \<forall>j<length bs. b_name (bs ! j) \<in> set (in_place_parents (bs ! i)) \<longrightarrow>
      in_place_parents (bs ! j) \<noteq> [] \<longrightarrow> start_time (bs ! j) + 1 < end_time (bs ! j)"
    using assms(2) unfolding solvable_def by blast
  ultimately show ?thesis
    using assms(2) by (simp add: solvable_def same_static_names [OF assms(1)] len eq)
qed

lemma address_update_static: "same_static bs (bs[i := (bs ! i)\<lparr>address := a\<rparr>])"
  by (rule same_static_update) simp

text \<open>Putting a fresh buffer at an address that is apart from, or handed over by, everything in use.\<close>

lemma greedy_inv_place:
  assumes inv: "greedy_inv now g" and i: "i < length (gd_buffers g)" "address (gd_buffers g ! i) = None"
    and now: "now \<le> start_time (gd_buffers g ! i)"
    and a: "0 \<le> a" "a + b_size (gd_buffers g ! i) \<le> gd_limit g" "gd_alignment g dvd a"
    and sub: "set (reused_parents g) \<subseteq> set reused'"
    and rel: "\<And>u. u \<in> set (usage g) \<Longrightarrow> apart (gd_buffers g ! u) ((gd_buffers g ! i)\<lparr>address := Some a\<rparr>) \<or>
      handed reused' (gd_buffers g ! u) ((gd_buffers g ! i)\<lparr>address := Some a\<rparr>)"
    and g': "g' = (set_address i (Some a) g)\<lparr>usage := usage g @ [i], reused_parents := reused'\<rparr>"
  shows "greedy_inv now g'"
proof -
  let ?bs = "gd_buffers g" and ?b = "(gd_buffers g ! i)\<lparr>address := Some a\<rparr>"
  have bs': "gd_buffers g' = ?bs[i := ?b]" by (simp add: g' set_address_def)
  have fresh: "i \<notin> set (usage g)" using inv i(2) by (auto simp: greedy_inv_def in_use_ok_def)
  have nth: "?bs[i := ?b] ! u = ?bs ! u" if "u \<noteq> i" for u using that by simp
  have ith: "?bs[i := ?b] ! i = ?b" using i(1) by simp
  have other: "?bs[i := ?b] ! u = ?bs ! u" if "u \<in> set (usage g)" for u using that fresh by (metis nth)
  have sz: "0 \<le> b_size (?bs ! i)" using inv i(1) by (simp add: greedy_inv_def solvable_def)
  have solv: "solvable (?bs[i := ?b])"
    using inv solvable_static [OF address_update_static] by (simp add: greedy_inv_def)
  have use: "in_use_ok g'"
    using inv a(1,2) sz other by (auto simp: in_use_ok_def greedy_inv_def bs' ith g' set_address_def)
  have mono: "handed (reused_parents g) x y \<Longrightarrow> handed reused' x y" for x y
    using sub by (auto simp: handed_def)
  have pair: "apart (?bs[i := ?b] ! u) (?bs[i := ?b] ! v) \<or> handed reused' (?bs[i := ?b] ! u) (?bs[i := ?b] ! v) \<or>
      handed reused' (?bs[i := ?b] ! v) (?bs[i := ?b] ! u)"
    if h: "u \<in> set (usage g @ [i])" "v \<in> set (usage g @ [i])" "u \<noteq> v" for u v
  proof -
    consider "u \<in> set (usage g)" "v \<in> set (usage g)" | "u = i" "v \<in> set (usage g)" | "u \<in> set (usage g)" "v = i"
      using h by auto
    then show ?thesis
    proof cases
      case 1
      then have "apart (?bs ! u) (?bs ! v) \<or> handed (reused_parents g) (?bs ! u) (?bs ! v) \<or>
          handed (reused_parents g) (?bs ! v) (?bs ! u)"
        using inv h(3) by (simp add: greedy_inv_def)
      then show ?thesis unfolding other [OF 1(1)] other [OF 1(2)] by (blast intro: mono)
    next
      case 2
      then show ?thesis using rel [OF 2(2)] other [OF 2(2)] ith by (auto intro: apart_sym)
    next
      case 3
      then show ?thesis using rel [OF 3(1)] other [OF 3(1)] ith by auto
    qed
  qed
  have compat: "compatible (?bs ! j) ?b" if j: "j < length ?bs" "j \<noteq> i" for j
  proof (cases "address (?bs ! j)")
    case None
    then show ?thesis by (rule compatible_address_None)
  next
    case (Some x)
    then consider "j \<in> set (usage g)" | "end_time (?bs ! j) \<le> now"
      using inv j(1) by (auto simp: greedy_inv_def)
    then show ?thesis
    proof cases
      case 1
      then show ?thesis using rel apart_compatible handed_compatible by blast
    next
      case 2
      then show ?thesis using now by (simp add: compatible_def overlaps_in_time_def)
    qed
  qed
  have "layout_ok (gd_limit g) (?bs[i := ?b])"
    unfolding layout_ok_def
  proof (intro conjI allI impI)
    fix j assume "j < length (?bs[i := ?b])"
    then show "placed_in_bounds (gd_limit g) (?bs[i := ?b] ! j)"
      using inv a i(1) by (cases "j = i") (auto simp: greedy_inv_def layout_ok_def placed_in_bounds_def)
  next
    fix j k assume "j < length (?bs[i := ?b])" "k < length (?bs[i := ?b])" "j \<noteq> k"
    then show "compatible (?bs[i := ?b] ! j) (?bs[i := ?b] ! k)"
      using inv i(1) compat by (cases "j = i"; cases "k = i")
        (auto simp: greedy_inv_def layout_ok_def intro: compatible_sym)
  qed
  moreover have "j \<in> set (usage g @ [i]) \<or> end_time (?bs[i := ?b] ! j) \<le> now"
    if "j < length ?bs" "address (?bs[i := ?b] ! j) \<noteq> None" for j
    using that inv by (cases "j = i") (auto simp: greedy_inv_def)
  moreover have "gd_alignment g dvd x" if "j < length ?bs" "address (?bs[i := ?b] ! j) = Some x" for j x
    using that inv a(3) i(1) by (cases "j = i") (auto simp: greedy_inv_def)
  ultimately show ?thesis
    unfolding greedy_inv_def bs' using solv use pair inv i(1)
    by (auto simp: g' set_address_def greedy_inv_def)
qed

lemma find_parent_Some:
  assumes "find_parent g i ps = Some m"
  shows "m \<in> set (usage g) \<and> b_name (gd_buffers g ! m) \<in> set ps \<and>
    b_name (gd_buffers g ! m) \<notin> set (reused_parents g) \<and>
    b_size (gd_buffers g ! i) \<le> b_size (gd_buffers g ! m)"
  using assms
proof (induction g i ps rule: find_parent.induct)
  case (2 g i p ps)
  show ?case
  proof (cases "p \<in> set (reused_parents g)")
    case True
    with 2 show ?thesis by simp
  next
    case False
    show ?thesis
    proof (cases "find (\<lambda>u. b_name (gd_buffers g ! u) = p) (usage g)")
      case None
      with 2 False show ?thesis by simp
    next
      case (Some u)
      then have u: "u \<in> set (usage g)" "b_name (gd_buffers g ! u) = p"
        by (auto simp: find_Some_iff)
      show ?thesis
        using 2 False Some u by (cases "b_size (gd_buffers g ! i) \<le> b_size (gd_buffers g ! u)") auto
    qed
  qed
qed simp

lemma handover_related:
  assumes inv: "greedy_inv now g" and i: "i < length (gd_buffers g)" and m: "m \<in> set (usage g)"
    and par: "b_name (gd_buffers g ! m) \<in> set (in_place_parents (gd_buffers g ! i))"
    and fresh: "b_name (gd_buffers g ! m) \<notin> set (reused_parents g)"
    and sz: "b_size (gd_buffers g ! i) \<le> b_size (gd_buffers g ! m)"
    and a: "address (gd_buffers g ! m) = Some a" and u: "u \<in> set (usage g)"
  shows "apart (gd_buffers g ! u) ((gd_buffers g ! i)\<lparr>address := Some a\<rparr>) \<or>
    handed (b_name (gd_buffers g ! m) # reused_parents g) (gd_buffers g ! u) ((gd_buffers g ! i)\<lparr>address := Some a\<rparr>)"
proof -
  let ?u = "gd_buffers g ! u" and ?m = "gd_buffers g ! m" and ?i = "gd_buffers g ! i"
  have ml: "m < length (gd_buffers g)" using inv m by (auto simp: greedy_inv_def)
  have pair: "end_time ?m = start_time ?i + 1"
    using inv i ml par by (simp add: greedy_inv_def solvable_def pairs_ok_def)
  show ?thesis
  proof (cases "u = m")
    case True
    have "handed (b_name ?m # reused_parents g) ?m (?i\<lparr>address := Some a\<rparr>)"
      using a pair par by (auto simp: handed_def)
    then show ?thesis using True by simp
  next
    case False
    then consider "apart ?u ?m" | "handed (reused_parents g) ?u ?m" | "handed (reused_parents g) ?m ?u"
      using inv u m by (auto simp: greedy_inv_def)
    then show ?thesis
    proof cases
      case 1
      have "apart ?u (?i\<lparr>address := Some a\<rparr>)"
        using 1 a sz by (fastforce simp: apart_def interval_simps)
      then show ?thesis ..
    next
      case 2
      have "start_time ?m + 1 < end_time ?m"
        using inv i ml par 2 by (simp add: greedy_inv_def solvable_def handed_def)
      then have "handed (b_name ?m # reused_parents g) ?u (?i\<lparr>address := Some a\<rparr>)"
        using 2 a par pair by (auto simp: handed_def)
      then show ?thesis ..
    next
      case 3
      then show ?thesis using fresh by (simp add: handed_def)
    qed
  qed
qed

text \<open>What one placement attempt does: it changes the address of its buffer only, and a placed
  buffer enters \<open>usage\<close>.\<close>

definition attempt :: "nat \<Rightarrow> greedy \<Rightarrow> greedy \<Rightarrow> bool" where
  "attempt i g g' \<longleftrightarrow> gd_buffers g' = (gd_buffers g)[i := (gd_buffers g ! i)\<lparr>address := address (gd_buffers g' ! i)\<rparr>] \<and>
     gd_limit g' = gd_limit g \<and> gd_alignment g' = gd_alignment g \<and>
     paired_group_by_name g' = paired_group_by_name g \<and>
     rejected_paired_buffers g' = rejected_paired_buffers g"

lemma try_allocate_one_ok:
  assumes inv: "greedy_inv now g" and i: "i < length (gd_buffers g)" "address (gd_buffers g ! i) = None"
    and now: "now \<le> start_time (gd_buffers g ! i)" and run: "try_allocate_one i g = Inr g'"
  shows "greedy_inv now g' \<and> attempt i g g'"
proof (cases "find_parent g i (in_place_parents (gd_buffers g ! i))")
  case (Some m)
  note m = find_parent_Some [OF Some]
  have use: "in_use_ok g" and ml: "m < length (gd_buffers g)" using inv m by (auto simp: greedy_inv_def)
  obtain a where a: "address (gd_buffers g ! m) = Some a" "0 \<le> a"
      "a + b_size (gd_buffers g ! m) \<le> gd_limit g"
    using use m by (auto simp: in_use_ok_def)
  have g': "g' = (set_address i (Some a) g)\<lparr>usage := usage g @ [i],
      reused_parents := b_name (gd_buffers g ! m) # reused_parents g\<rparr>"
    using run by (simp add: try_allocate_one_def Some Let_def a(1))
  have dvd: "gd_alignment g dvd a" using inv ml a(1) by (simp add: greedy_inv_def)
  have rel: "apart (gd_buffers g ! u) ((gd_buffers g ! i)\<lparr>address := Some a\<rparr>) \<or>
      handed (b_name (gd_buffers g ! m) # reused_parents g) (gd_buffers g ! u) ((gd_buffers g ! i)\<lparr>address := Some a\<rparr>)"
    if "u \<in> set (usage g)" for u
    using m by (intro handover_related [OF inv i(1) _ _ _ _ a(1) that]) simp_all
  have "greedy_inv now g'"
    using a(2,3) m dvd by (intro greedy_inv_place [OF inv i now _ _ dvd _ rel g']) auto
  moreover have "attempt i g g'" using i(1) by (simp add: attempt_def g' set_address_def)
  ultimately show ?thesis ..
next
  case None
  have sz: "0 \<le> b_size (gd_buffers g ! i)" using inv i(1) by (simp add: greedy_inv_def solvable_def)
  obtain r where r: "find_free_block g (b_size (gd_buffers g ! i)) = Inr r"
    using run by (auto simp: try_allocate_one_def None)
  show ?thesis
  proof (cases r)
    case None': None
    have "(gd_buffers g ! i)\<lparr>address := None\<rparr> = gd_buffers g ! i" using i(2) by simp
    then have "g' = g"
      using run by (simp add: try_allocate_one_def None r None' set_address_def)
    then show ?thesis using inv by (simp add: attempt_def)
  next
    case (Some a)
    have "g' = (set_address i (Some a) g)\<lparr>usage := usage g @ [i]\<rparr>"
      using run by (simp add: try_allocate_one_def None r Some)
    also have "\<dots> = (set_address i (Some a) g)\<lparr>usage := usage g @ [i], reused_parents := reused_parents g\<rparr>"
      by (cases g) (simp add: set_address_def)
    finally have g': "g' = (set_address i (Some a) g)\<lparr>usage := usage g @ [i], reused_parents := reused_parents g\<rparr>" .
    have free: "0 \<le> a" "a + b_size (gd_buffers g ! i) \<le> gd_limit g" "gd_alignment g dvd a"
        "\<forall>sp\<in>set (spans_in_use g). snd sp \<le> a \<or> a + b_size (gd_buffers g ! i) \<le> fst sp"
      using find_free_block_sound [OF r [unfolded Some] _ _ sz] inv by (auto simp: greedy_inv_def)
    have "apart (gd_buffers g ! u) ((gd_buffers g ! i)\<lparr>address := Some a\<rparr>)" if u: "u \<in> set (usage g)" for u
    proof (cases "address (gd_buffers g ! u)")
      case (Some x)
      then have "(x, x + b_size (gd_buffers g ! u)) \<in> set (spans_in_use g)"
        using u by (auto simp: spans_in_use_iff)
      from bspec [OF free(4) this] Some show ?thesis by (auto simp: apart_def interval_simps)
    qed (simp add: apart_def)
    then have "greedy_inv now g'"
      using free by (intro greedy_inv_place [OF inv i now _ _ _ _ _ g']) auto
    moreover have "attempt i g g'" using i(1) by (simp add: attempt_def g' set_address_def)
    ultimately show ?thesis ..
  qed
qed

subsection \<open>Groups\<close>

lemma attempt_static: "attempt i g g' \<Longrightarrow> same_static (gd_buffers g) (gd_buffers g')"
  unfolding attempt_def by (metis address_update_static)

lemma attempt_other: "attempt i g g' \<Longrightarrow> j \<noteq> i \<Longrightarrow> gd_buffers g' ! j = gd_buffers g ! j"
  unfolding attempt_def by (metis nth_list_update_neq)

text \<open>A run of attempts over a list of buffers.\<close>

definition attempts :: "nat list \<Rightarrow> greedy \<Rightarrow> greedy \<Rightarrow> bool" where
  "attempts ms g g' \<longleftrightarrow> same_static (gd_buffers g) (gd_buffers g') \<and>
     (\<forall>j. j \<notin> set ms \<longrightarrow> gd_buffers g' ! j = gd_buffers g ! j) \<and>
     (\<forall>j<length (gd_buffers g). \<exists>a. gd_buffers g' ! j = (gd_buffers g ! j)\<lparr>address := a\<rparr>) \<and>
     gd_limit g' = gd_limit g \<and> gd_alignment g' = gd_alignment g \<and>
     paired_group_by_name g' = paired_group_by_name g \<and>
     rejected_paired_buffers g' = rejected_paired_buffers g"

lemma attempts_refl: "attempts ms g g"
proof -
  have "\<exists>a. gd_buffers g ! j = (gd_buffers g ! j)\<lparr>address := a\<rparr>" for j
    by (rule exI [of _ "address (gd_buffers g ! j)"]) simp
  then show ?thesis by (simp add: attempts_def)
qed

lemma attempt_attempts:
  assumes "attempt i g g'"
  shows "attempts [i] g g'"
proof -
  have "\<exists>a. gd_buffers g' ! j = (gd_buffers g ! j)\<lparr>address := a\<rparr>" if "j < length (gd_buffers g)" for j
  proof (cases "j = i")
    case True
    then have "gd_buffers g' ! j = (gd_buffers g ! j)\<lparr>address := address (gd_buffers g' ! j)\<rparr>"
      using assms that unfolding attempt_def by (metis nth_list_update_eq)
    then show ?thesis ..
  next
    case False
    have "gd_buffers g ! j = (gd_buffers g ! j)\<lparr>address := address (gd_buffers g ! j)\<rparr>" by simp
    with attempt_other [OF assms False] show ?thesis by metis
  qed
  moreover have "\<forall>j. j \<notin> set [i] \<longrightarrow> gd_buffers g' ! j = gd_buffers g ! j"
    using attempt_other [OF assms] by simp
  ultimately show ?thesis
    using attempt_static [OF assms] assms unfolding attempts_def attempt_def by blast
qed

lemma attempts_trans:
  assumes "attempts ms g g1" "attempts ns g1 g2"
  shows "attempts (ms @ ns) g g2"
proof -
  have len: "length (gd_buffers g1) = length (gd_buffers g)"
    using assms(1) same_static_length by (auto simp: attempts_def)
  have "\<exists>a. gd_buffers g2 ! j = (gd_buffers g ! j)\<lparr>address := a\<rparr>" if j: "j < length (gd_buffers g)" for j
  proof -
    obtain a where a: "gd_buffers g1 ! j = (gd_buffers g ! j)\<lparr>address := a\<rparr>"
      using assms(1) j by (auto simp: attempts_def)
    obtain b where "gd_buffers g2 ! j = (gd_buffers g1 ! j)\<lparr>address := b\<rparr>"
      using assms(2) j len by (auto simp: attempts_def)
    with a show ?thesis by auto
  qed
  with assms show ?thesis by (auto simp: attempts_def intro: same_static_trans)
qed

lemma place_members_ok:
  assumes "greedy_inv now g" "distinct ms"
    and "\<forall>m\<in>set ms. m < length (gd_buffers g) \<and> address (gd_buffers g ! m) = None \<and>
      now \<le> start_time (gd_buffers g ! m)"
    and "place_members ms g = Inr (ok, g')"
  shows "greedy_inv now g' \<and> attempts ms g g' \<and> (ok \<longrightarrow> (\<forall>m\<in>set ms. address (gd_buffers g' ! m) \<noteq> None))"
  using assms
proof (induction ms arbitrary: g)
  case Nil
  then show ?case by (auto intro: attempts_refl)
next
  case (Cons m ms)
  obtain g1 where one: "try_allocate_one m g = Inr g1"
      and rest: "(if address (gd_buffers g1 ! m) \<noteq> None then place_members ms g1 else Inr (False, g1)) = Inr (ok, g')"
    using Cons.prems(4) by auto
  have inv1: "greedy_inv now g1" and at: "attempt m g g1"
    using try_allocate_one_ok [OF Cons.prems(1) _ _ _ one] Cons.prems(3) by auto
  have len: "length (gd_buffers g1) = length (gd_buffers g)"
    using attempt_static [OF at] by (rule same_static_length)
  show ?case
  proof (cases "address (gd_buffers g1 ! m) \<noteq> None")
    case True
    have "\<forall>k\<in>set ms. k < length (gd_buffers g1) \<and> address (gd_buffers g1 ! k) = None \<and>
        now \<le> start_time (gd_buffers g1 ! k)"
      using Cons.prems(2,3) attempt_other [OF at] len by (metis distinct.simps(2) list.set_intros(2))
    from Cons.IH [OF inv1 _ this] rest True Cons.prems(2)
    have ih: "greedy_inv now g'" "attempts ms g1 g'" "ok \<longrightarrow> (\<forall>m\<in>set ms. address (gd_buffers g' ! m) \<noteq> None)"
      by auto
    have "address (gd_buffers g' ! m) \<noteq> None"
      using ih(2) Cons.prems(2) True by (simp add: attempts_def)
    then show ?thesis
      using ih attempts_trans [OF attempt_attempts [OF at] ih(2)] by simp
  next
    case False
    then have "ok = False" "g' = g1" using rest by auto
    moreover have "attempts (m # ms) g g1"
      using attempts_trans [OF attempt_attempts [OF at] attempts_refl, of ms] by simp
    ultimately show ?thesis using inv1 by simp
  qed
qed

text \<open>A failed group leaves the solver as it was, but for the rejection.\<close>

lemma clear_nth:
  "length (gd_buffers (fold (\<lambda>i. set_address i None) ms g)) = length (gd_buffers g) \<and>
   (\<forall>j<length (gd_buffers g). gd_buffers (fold (\<lambda>i. set_address i None) ms g) ! j =
     (if j \<in> set ms then (gd_buffers g ! j)\<lparr>address := None\<rparr> else gd_buffers g ! j))"
proof (induction ms arbitrary: g)
  case (Cons m ms)
  have len: "length (gd_buffers (set_address m None g)) = length (gd_buffers g)"
    by (simp add: set_address_def)
  have nth: "gd_buffers (set_address m None g) ! j =
      (if j = m then (gd_buffers g ! j)\<lparr>address := None\<rparr> else gd_buffers g ! j)" if "j < length (gd_buffers g)" for j
    using that by (simp add: set_address_def)
  show ?case using Cons.IH [of "set_address m None g"] by (simp add: len nth)
qed simp

lemma clear_rest:
  "fold (\<lambda>i. set_address i None) ms g = g\<lparr>gd_buffers := gd_buffers (fold (\<lambda>i. set_address i None) ms g)\<rparr>"
proof (induction ms arbitrary: g)
  case (Cons m ms)
  show ?case by (simp, subst Cons.IH) (simp add: set_address_def)
qed simp

lemma reject_group_eq:
  assumes at: "attempts ms g g1" and none: "\<forall>m\<in>set ms. address (gd_buffers g ! m) = None"
    and lt: "\<forall>m\<in>set ms. m < length (gd_buffers g)"
  shows "reject_group ms g g1 = g\<lparr>rejected_paired_buffers :=
    map (\<lambda>i. b_name (gd_buffers g ! i)) ms @ rejected_paired_buffers g\<rparr>"
proof -
  have len: "length (gd_buffers g1) = length (gd_buffers g)"
    using at same_static_length by (auto simp: attempts_def)
  have nth: "(if j \<in> set ms then (gd_buffers g1 ! j)\<lparr>address := None\<rparr> else gd_buffers g1 ! j) = gd_buffers g ! j"
    if "j < length (gd_buffers g)" for j
  proof (cases "j \<in> set ms")
    case True
    obtain a where "gd_buffers g1 ! j = (gd_buffers g ! j)\<lparr>address := a\<rparr>"
      using at \<open>j < length (gd_buffers g)\<close> by (auto simp: attempts_def)
    then show ?thesis using True none by simp
  next
    case False
    then show ?thesis using at by (simp add: attempts_def)
  qed
  let ?g = "g1\<lparr>usage := usage g, reused_parents := reused_parents g, rejected_paired_buffers :=
    map (\<lambda>i. b_name (gd_buffers g1 ! i)) ms @ rejected_paired_buffers g1\<rparr>"
  have gb: "gd_buffers ?g = gd_buffers g1" by simp
  have bufs: "gd_buffers (fold (\<lambda>i. set_address i None) ms ?g) = gd_buffers g"
    using clear_nth [of ms ?g, unfolded gb len] nth by (intro nth_equalityI) metis+
  have names: "map (\<lambda>i. b_name (gd_buffers g1 ! i)) ms = map (\<lambda>i. b_name (gd_buffers g ! i)) ms"
    using at lt static_eqD(1) [OF same_static_nth] by (auto simp: attempts_def)
  have "reject_group ms g g1 = ?g\<lparr>gd_buffers := gd_buffers (fold (\<lambda>i. set_address i None) ms ?g)\<rparr>"
    unfolding reject_group_def by (rule clear_rest)
  also have "\<dots> = ?g\<lparr>gd_buffers := gd_buffers g\<rparr>" by (simp only: bufs)
  also have "\<dots> = g\<lparr>rejected_paired_buffers :=
      map (\<lambda>i. b_name (gd_buffers g ! i)) ms @ rejected_paired_buffers g\<rparr>"
    by (rule greedy.equality) (use at names in \<open>simp_all add: attempts_def\<close>)
  finally show ?thesis .
qed

text \<open>A group is settled when all its members are placed, or all are rejected and unplaced; until
  then none of them is touched and all of them start at a tick that is still to come.\<close>

definition settled :: "greedy \<Rightarrow> nat list \<Rightarrow> bool" where
  "settled g grp \<longleftrightarrow> (\<forall>m\<in>set grp. address (gd_buffers g ! m) \<noteq> None) \<or>
     (\<forall>m\<in>set grp. address (gd_buffers g ! m) = None \<and>
        b_name (gd_buffers g ! m) \<in> set (rejected_paired_buffers g))"

definition untouched :: "nat set \<Rightarrow> int set \<Rightarrow> greedy \<Rightarrow> nat list \<Rightarrow> bool" where
  "untouched P T g grp \<longleftrightarrow> (\<forall>m\<in>set grp. address (gd_buffers g ! m) = None \<and> m \<in> P \<and>
     b_name (gd_buffers g ! m) \<notin> set (rejected_paired_buffers g) \<and> start_time (gd_buffers g ! m) \<in> T)"

definition groups_ok :: "greedy \<Rightarrow> bool" where
  "groups_ok g \<longleftrightarrow> (\<forall>nm grp. map_of (paired_group_by_name g) nm = Some grp \<longrightarrow>
     distinct grp \<and> (\<exists>m\<in>set grp. b_name (gd_buffers g ! m) = nm) \<and>
     (\<forall>m\<in>set grp. m < length (gd_buffers g) \<and>
        map_of (paired_group_by_name g) (b_name (gd_buffers g ! m)) = Some grp))"

definition only_placed :: "nat set \<Rightarrow> greedy \<Rightarrow> bool" where
  "only_placed P g \<longleftrightarrow> (\<forall>i<length (gd_buffers g). address (gd_buffers g ! i) \<noteq> None \<longrightarrow> i \<in> P)"

definition walk_inv :: "nat set \<Rightarrow> int \<Rightarrow> int set \<Rightarrow> greedy \<Rightarrow> bool" where
  "walk_inv P now T g \<longleftrightarrow> greedy_inv now g \<and> groups_ok g \<and> only_placed P g \<and>
     (\<forall>nm grp. map_of (paired_group_by_name g) nm = Some grp \<longrightarrow> settled g grp \<or> untouched P T g grp)"

lemma name_inj:
  assumes "distinct (map b_name bs)" "i < length bs" "j < length bs" "b_name (bs ! i) = b_name (bs ! j)"
  shows "i = j"
  using assms by (metis length_map nth_eq_iff_index_eq nth_map)

lemma attempts_fields:
  assumes "attempts ms g g'" "j < length (gd_buffers g)"
  shows "b_name (gd_buffers g' ! j) = b_name (gd_buffers g ! j)"
    "start_time (gd_buffers g' ! j) = start_time (gd_buffers g ! j)"
    "end_time (gd_buffers g' ! j) = end_time (gd_buffers g ! j)"
  using assms static_eqD [OF same_static_nth] by (auto simp: attempts_def)

lemma attempts_length: "attempts ms g g' \<Longrightarrow> length (gd_buffers g') = length (gd_buffers g)"
  by (auto simp: attempts_def same_static_length)

lemma only_placed_attempts:
  assumes "attempts ms g g'" "only_placed P g" "set ms \<subseteq> P"
  shows "only_placed P g'"
  unfolding only_placed_def
proof (intro allI impI)
  fix i assume i: "i < length (gd_buffers g')" "address (gd_buffers g' ! i) \<noteq> None"
  show "i \<in> P"
  proof (cases "i \<in> set ms")
    case True
    then show ?thesis using assms(3) by auto
  next
    case False
    then have "gd_buffers g' ! i = gd_buffers g ! i" using assms(1) by (simp add: attempts_def)
    then show ?thesis using i assms(2) attempts_length [OF assms(1)] by (simp add: only_placed_def)
  qed
qed

lemma groups_ok_attempts:
  assumes "attempts ms g g'" "groups_ok g"
  shows "groups_ok g'"
  unfolding groups_ok_def
proof (intro allI impI)
  fix nm grp assume "map_of (paired_group_by_name g') nm = Some grp"
  moreover have tab: "paired_group_by_name g' = paired_group_by_name g" using assms(1) by (simp add: attempts_def)
  ultimately have "map_of (paired_group_by_name g) nm = Some grp" by simp
  with assms(2) have *: "distinct grp" "\<exists>m\<in>set grp. b_name (gd_buffers g ! m) = nm"
      "\<forall>m\<in>set grp. m < length (gd_buffers g) \<and> map_of (paired_group_by_name g) (b_name (gd_buffers g ! m)) = Some grp"
    unfolding groups_ok_def by blast+
  show "distinct grp \<and> (\<exists>m\<in>set grp. b_name (gd_buffers g' ! m) = nm) \<and>
    (\<forall>m\<in>set grp. m < length (gd_buffers g') \<and>
       map_of (paired_group_by_name g') (b_name (gd_buffers g' ! m)) = Some grp)"
    using * attempts_fields(1) [OF assms(1)] by (auto simp: tab attempts_length [OF assms(1)])
qed

text \<open>Attempts on buffers outside a group leave its fate alone.\<close>

lemma fate_attempts:
  assumes at: "attempts ms g g'" and disj: "set grp \<inter> set ms = {}"
  shows "settled g grp \<Longrightarrow> settled g' grp" and "untouched P T g grp \<Longrightarrow> untouched P T g' grp"
proof -
  have "gd_buffers g' ! m = gd_buffers g ! m" if "m \<in> set grp" for m
    using at disj that by (auto simp: attempts_def)
  moreover have "rejected_paired_buffers g' = rejected_paired_buffers g" using at by (simp add: attempts_def)
  ultimately show "settled g grp \<Longrightarrow> settled g' grp" "untouched P T g grp \<Longrightarrow> untouched P T g' grp"
    by (simp_all add: settled_def untouched_def)
qed

lemma groups_disjoint:
  assumes "groups_ok g" "map_of (paired_group_by_name g) nm = Some grp"
    and "map_of (paired_group_by_name g) nm' = Some grp'" "m \<in> set grp" "m \<in> set grp'"
  shows "grp = grp'"
proof -
  have "map_of (paired_group_by_name g) (b_name (gd_buffers g ! m)) = Some grp"
    "map_of (paired_group_by_name g) (b_name (gd_buffers g ! m)) = Some grp'"
    using assms unfolding groups_ok_def by blast+
  then show ?thesis by simp
qed

definition progress :: "nat \<Rightarrow> greedy \<Rightarrow> greedy \<Rightarrow> bool" where
  "progress i g g' \<longleftrightarrow> same_static (gd_buffers g) (gd_buffers g') \<and>
     gd_limit g' = gd_limit g \<and> gd_alignment g' = gd_alignment g \<and>
     paired_group_by_name g' = paired_group_by_name g \<and>
     (\<forall>nm grp. map_of (paired_group_by_name g) nm = Some grp \<longrightarrow>
        settled g grp \<or> i \<in> set grp \<longrightarrow> settled g' grp)"

lemma try_allocate_group:
  assumes inv: "walk_inv P now T g" and T: "\<forall>t\<in>T. now \<le> t"
    and grp: "map_of (paired_group_by_name g) nm = Some grp" and fate: "untouched P T g grp"
    and run: "place_members grp g = Inr (ok, g1)"
    and g': "g' = (if ok then g1 else reject_group grp g g1)"
  shows "walk_inv P now T g' \<and> same_static (gd_buffers g) (gd_buffers g') \<and>
     gd_limit g' = gd_limit g \<and> gd_alignment g' = gd_alignment g \<and>
     paired_group_by_name g' = paired_group_by_name g \<and> settled g' grp \<and>
     (\<forall>nm' grp'. map_of (paired_group_by_name g) nm' = Some grp' \<longrightarrow> settled g grp' \<longrightarrow> settled g' grp')"
proof -
  have ginv: "greedy_inv now g" and gok: "groups_ok g" using inv by (auto simp: walk_inv_def)
  have d: "distinct grp" "\<forall>m\<in>set grp. m < length (gd_buffers g)"
    using gok grp unfolding groups_ok_def by blast+
  have pre: "\<forall>m\<in>set grp. m < length (gd_buffers g) \<and> address (gd_buffers g ! m) = None \<and>
      now \<le> start_time (gd_buffers g ! m)"
    using d(2) fate T by (auto simp: untouched_def)
  from place_members_ok [OF ginv d(1) pre run]
  have inv1: "greedy_inv now g1" and at: "attempts grp g g1"
    and placed: "ok \<longrightarrow> (\<forall>m\<in>set grp. address (gd_buffers g1 ! m) \<noteq> None)" by auto
  have other: "set grp' \<inter> set grp = {}" if "map_of (paired_group_by_name g) nm' = Some grp'" "grp' \<noteq> grp" for nm' grp'
    using groups_disjoint [OF gok that(1) grp] that(2) by blast
  show ?thesis
  proof (cases ok)
    case True
    then have eq: "g' = g1" by (simp add: g')
    have s: "settled g1 grp" using placed True by (simp add: settled_def)
    have tab: "paired_group_by_name g1 = paired_group_by_name g" using at by (simp add: attempts_def)
    have fates: "(settled g grp' \<longrightarrow> settled g1 grp') \<and> (settled g1 grp' \<or> untouched P T g1 grp')"
      if "map_of (paired_group_by_name g) nm' = Some grp'" for nm' grp'
    proof (cases "grp' = grp")
      case False
      have "settled g grp' \<or> untouched P T g grp'" using inv that unfolding walk_inv_def by blast
      then show ?thesis using fate_attempts [OF at other [OF that False]] by blast
    qed (use s in simp)
    have "only_placed P g1"
      using inv fate by (intro only_placed_attempts [OF at]) (auto simp: walk_inv_def untouched_def)
    then have "walk_inv P now T g1"
      using inv1 groups_ok_attempts [OF at gok] fates unfolding walk_inv_def tab by blast
    then show ?thesis using s fates at unfolding eq attempts_def by blast
  next
    case False
    have eq: "g' = g\<lparr>rejected_paired_buffers := map (\<lambda>i. b_name (gd_buffers g ! i)) grp @ rejected_paired_buffers g\<rparr>"
      using reject_group_eq [OF at] fate d(2) False by (simp add: g' untouched_def)
    have s: "settled g' grp" using fate by (auto simp: eq settled_def untouched_def)
    have names: "b_name (gd_buffers g ! m) \<notin> set (map (\<lambda>i. b_name (gd_buffers g ! i)) grp)"
      if "map_of (paired_group_by_name g) nm' = Some grp'" "grp' \<noteq> grp" "m \<in> set grp'" for nm' grp' m
    proof
      assume "b_name (gd_buffers g ! m) \<in> set (map (\<lambda>i. b_name (gd_buffers g ! i)) grp)"
      then obtain k where k: "k \<in> set grp" "b_name (gd_buffers g ! m) = b_name (gd_buffers g ! k)" by auto
      have "m < length (gd_buffers g)" using gok that(1,3) unfolding groups_ok_def by blast
      then have "m = k"
        using name_inj [OF _ _ _ k(2)] ginv d(2) k(1) by (auto simp: greedy_inv_def solvable_def)
      with other [OF that(1,2)] that(3) k(1) show False by auto
    qed
    have fates: "(settled g grp' \<longrightarrow> settled g' grp') \<and> (settled g' grp' \<or> untouched P T g' grp')"
      if "map_of (paired_group_by_name g) nm' = Some grp'" for nm' grp'
    proof (cases "grp' = grp")
      case False
      have "settled g grp' \<or> untouched P T g grp'" using inv that unfolding walk_inv_def by blast
      then show ?thesis using names [OF that False] by (auto simp: eq settled_def untouched_def)
    qed (use s in simp)
    have "greedy_inv now g'" "groups_ok g'" "only_placed P g'"
      using ginv gok inv by (simp_all add: eq greedy_inv_def in_use_ok_def groups_ok_def only_placed_def walk_inv_def)
    then have "walk_inv P now T g'" using fates unfolding walk_inv_def by (simp add: eq)
    then show ?thesis using s fates by (simp add: eq)
  qed
qed

lemma try_allocate_ok:
  assumes inv: "walk_inv P now T g" and T: "\<forall>t\<in>T. now \<le> t"
    and i: "i < length (gd_buffers g)" "start_time (gd_buffers g ! i) = now" and iP: "i \<in> P"
    and run: "try_allocate i g = Inr g'"
  shows "walk_inv P now T g' \<and> progress i g g'"
proof -
  have ginv: "greedy_inv now g" and gok: "groups_ok g" using inv by (auto simp: walk_inv_def)
  have dist: "distinct (map b_name (gd_buffers g))" using ginv by (simp add: greedy_inv_def solvable_def)
  have own: "map_of (paired_group_by_name g) (b_name (gd_buffers g ! i)) = Some grp"
    if "map_of (paired_group_by_name g) nm = Some grp" "i \<in> set grp" for nm grp
    using gok that unfolding groups_ok_def by blast
  show ?thesis
  proof (cases "address (gd_buffers g ! i) \<noteq> None \<or> b_name (gd_buffers g ! i) \<in> set (rejected_paired_buffers g)")
    case True
    then have "g' = g" using run by (simp add: try_allocate_def)
    moreover have "settled g grp" if "map_of (paired_group_by_name g) nm = Some grp" "i \<in> set grp" for nm grp
    proof -
      have "settled g grp \<or> untouched P T g grp" using inv that(1) unfolding walk_inv_def by blast
      then show ?thesis using True that(2) by (auto simp: untouched_def)
    qed
    ultimately show ?thesis using inv by (auto simp: progress_def)
  next
    case False
    then have none: "address (gd_buffers g ! i) = None" and nrej: "b_name (gd_buffers g ! i) \<notin> set (rejected_paired_buffers g)"
      by auto
    show ?thesis
    proof (cases "map_of (paired_group_by_name g) (b_name (gd_buffers g ! i))")
      case None
      then have one: "try_allocate_one i g = Inr g'" using run False by (simp add: try_allocate_def)
      have inv1: "greedy_inv now g'" and at: "attempts [i] g g'"
        using try_allocate_one_ok [OF ginv i(1) none _ one] i(2) attempt_attempts by auto
      have out: "set grp \<inter> set [i] = {}" if "map_of (paired_group_by_name g) nm = Some grp" for nm grp
        using own [OF that] None by auto
      have tab: "paired_group_by_name g' = paired_group_by_name g" using at by (simp add: attempts_def)
      have fates: "(settled g grp \<longrightarrow> settled g' grp) \<and> (settled g' grp \<or> untouched P T g' grp) \<and> i \<notin> set grp"
        if "map_of (paired_group_by_name g) nm = Some grp" for nm grp
      proof -
        have "settled g grp \<or> untouched P T g grp" using inv that unfolding walk_inv_def by blast
        then show ?thesis using fate_attempts [OF at out [OF that]] out [OF that] by auto
      qed
      have "only_placed P g'"
        using inv iP by (intro only_placed_attempts [OF at]) (auto simp: walk_inv_def)
      then have "walk_inv P now T g'"
        using inv1 groups_ok_attempts [OF at gok] fates unfolding walk_inv_def tab by blast
      moreover have "progress i g g'" using at fates unfolding progress_def attempts_def by blast
      ultimately show ?thesis ..
    next
      case (Some grp)
      then obtain ok g1 where pm: "place_members grp g = Inr (ok, g1)"
          and g': "g' = (if ok then g1 else reject_group grp g g1)"
        using run False by (auto simp: try_allocate_def)
      obtain m where m: "m \<in> set grp" "b_name (gd_buffers g ! m) = b_name (gd_buffers g ! i)" "m < length (gd_buffers g)"
        using gok Some unfolding groups_ok_def by blast
      have "m = i" by (rule name_inj [OF dist m(3) i(1) m(2)])
      then have fate: "untouched P T g grp"
        using inv Some none nrej m(1) unfolding walk_inv_def settled_def by blast
      note res = try_allocate_group [OF inv T Some fate pm g']
      have "grp' = grp" if "map_of (paired_group_by_name g) nm = Some grp'" "i \<in> set grp'" for nm grp'
        using own [OF that] Some by simp
      with res show ?thesis unfolding progress_def by blast
    qed
  qed
qed

subsection \<open>The walk\<close>

lemma remove_first_subset: "set (remove_first p xs) \<subseteq> set xs"
  by (induction xs) auto

lemma remove_first_keeps: "x \<in> set xs \<Longrightarrow> \<not> p x \<Longrightarrow> x \<in> set (remove_first p xs)"
  by (induction xs) auto

lemma buffer_eq_name: "buffer_eq a b \<Longrightarrow> b_name a = b_name b"
  unfolding buffer_eq_def by (cases a; cases b) simp

lemma greedy_inv_release:
  assumes inv: "greedy_inv now g" and i: "i < length (gd_buffers g)" "end_time (gd_buffers g ! i) = now"
  shows "greedy_inv now (try_deallocate i g)"
proof -
  let ?us = "remove_first (\<lambda>u. buffer_eq (gd_buffers g ! u) (gd_buffers g ! i)) (usage g)"
  have sub: "set ?us \<subseteq> set (usage g)" by (rule remove_first_subset)
  have "j \<in> set ?us \<or> end_time (gd_buffers g ! j) \<le> now"
    if j: "j < length (gd_buffers g)" "address (gd_buffers g ! j) \<noteq> None" for j
  proof (cases "buffer_eq (gd_buffers g ! j) (gd_buffers g ! i)")
    case True
    have "j = i"
      using name_inj [OF _ j(1) i(1) buffer_eq_name [OF True]] inv by (simp add: greedy_inv_def solvable_def)
    then show ?thesis using i(2) by simp
  next
    case False
    have "j \<in> set (usage g) \<or> end_time (gd_buffers g ! j) \<le> now" using inv j by (simp add: greedy_inv_def)
    then show ?thesis using False by (blast intro: remove_first_keeps)
  qed
  moreover have "\<forall>u\<in>set ?us. \<forall>v\<in>set ?us. u \<noteq> v \<longrightarrow>
        apart (gd_buffers g ! u) (gd_buffers g ! v) \<or>
        handed (reused_parents g) (gd_buffers g ! u) (gd_buffers g ! v) \<or>
        handed (reused_parents g) (gd_buffers g ! v) (gd_buffers g ! u)"
    using inv sub unfolding greedy_inv_def by blast
  moreover have "in_use_ok (try_deallocate i g)"
    using inv sub by (auto simp: greedy_inv_def in_use_ok_def try_deallocate_def)
  ultimately show ?thesis
    using inv sub by (auto simp: greedy_inv_def try_deallocate_def)
qed

lemma walk_inv_release:
  assumes "walk_inv P now T g" "i < length (gd_buffers g)" "end_time (gd_buffers g ! i) = now"
  shows "walk_inv P now T (try_deallocate i g)"
  using assms greedy_inv_release [of now g i]
  by (simp add: walk_inv_def groups_ok_def settled_def untouched_def try_deallocate_def only_placed_def)

lemma release_loop_ok:
  assumes "walk_inv P now T g" "\<forall>i\<in>set is. i < length (gd_buffers g)"
  shows "walk_inv P now T (fold (\<lambda>i g. if now = end_time (gd_buffers g ! i) then try_deallocate i g else g) is g) \<and>
    gd_buffers (fold (\<lambda>i g. if now = end_time (gd_buffers g ! i) then try_deallocate i g else g) is g) = gd_buffers g \<and>
    paired_group_by_name (fold (\<lambda>i g. if now = end_time (gd_buffers g ! i) then try_deallocate i g else g) is g) = paired_group_by_name g \<and>
    gd_limit (fold (\<lambda>i g. if now = end_time (gd_buffers g ! i) then try_deallocate i g else g) is g) = gd_limit g \<and>
    gd_alignment (fold (\<lambda>i g. if now = end_time (gd_buffers g ! i) then try_deallocate i g else g) is g) = gd_alignment g"
  using assms
proof (induction "is" arbitrary: g)
  case (Cons i is')
  show ?case
  proof (cases "now = end_time (gd_buffers g ! i)")
    case True
    have "walk_inv P now T (try_deallocate i g)"
      using Cons.prems True by (intro walk_inv_release) auto
    moreover have same: "gd_buffers (try_deallocate i g) = gd_buffers g"
        "paired_group_by_name (try_deallocate i g) = paired_group_by_name g" "gd_limit (try_deallocate i g) = gd_limit g"
        "gd_alignment (try_deallocate i g) = gd_alignment g"
      by (simp_all add: try_deallocate_def)
    ultimately show ?thesis
      using Cons.IH [of "try_deallocate i g"] Cons.prems(2) True by (simp add: same)
  next
    case False
    then show ?thesis using Cons.IH [of g] Cons.prems by simp
  qed
qed simp

lemma place_loop_ok:
  assumes "walk_inv P now T g" "\<forall>t\<in>T. now \<le> t" "\<forall>i\<in>set is. i < length (gd_buffers g) \<and> i \<in> P"
    and "foldE (\<lambda>i g. if now = start_time (gd_buffers g ! i) then try_allocate i g else Inr g) is g = Inr g'"
  shows "walk_inv P now T g' \<and> same_static (gd_buffers g) (gd_buffers g') \<and> gd_limit g' = gd_limit g \<and>
    gd_alignment g' = gd_alignment g \<and> paired_group_by_name g' = paired_group_by_name g \<and>
    (\<forall>nm grp. map_of (paired_group_by_name g) nm = Some grp \<longrightarrow>
       settled g grp \<or> (\<exists>i\<in>set is \<inter> set grp. start_time (gd_buffers g ! i) = now) \<longrightarrow> settled g' grp)"
  using assms
proof (induction "is" arbitrary: g)
  case (Cons i is')
  obtain g1 where one: "(if now = start_time (gd_buffers g ! i) then try_allocate i g else Inr g) = Inr g1"
      and rest: "foldE (\<lambda>i g. if now = start_time (gd_buffers g ! i) then try_allocate i g else Inr g) is' g1 = Inr g'"
    using Cons.prems(4) by auto
  have il: "i < length (gd_buffers g)" "i \<in> P" using Cons.prems(3) by simp_all
  have s1: "walk_inv P now T g1 \<and> same_static (gd_buffers g) (gd_buffers g1) \<and> gd_limit g1 = gd_limit g \<and>
      gd_alignment g1 = gd_alignment g \<and> paired_group_by_name g1 = paired_group_by_name g \<and>
      (\<forall>nm grp. map_of (paired_group_by_name g) nm = Some grp \<longrightarrow>
        settled g grp \<or> (i \<in> set grp \<and> start_time (gd_buffers g ! i) = now) \<longrightarrow> settled g1 grp)"
  proof (cases "now = start_time (gd_buffers g ! i)")
    case True
    then have "try_allocate i g = Inr g1" using one by simp
    from try_allocate_ok [OF Cons.prems(1,2) il(1) True [symmetric] il(2) this] show ?thesis
      unfolding progress_def by blast
  next
    case False
    then show ?thesis using one Cons.prems(1) by auto
  qed
  then have st: "same_static (gd_buffers g) (gd_buffers g1)" by blast
  have len: "length (gd_buffers g1) = length (gd_buffers g)" by (rule same_static_length [OF st])
  have start: "start_time (gd_buffers g1 ! k) = start_time (gd_buffers g ! k)" if "k \<in> set is'" for k
    using static_eqD(6) [OF same_static_nth [OF st]] Cons.prems(3) that by simp
  have "\<forall>i\<in>set is'. i < length (gd_buffers g1) \<and> i \<in> P" using Cons.prems(3) len by simp
  note ih = Cons.IH [OF conjunct1 [OF s1] Cons.prems(2) this rest]
  have "settled g' grp"
    if "map_of (paired_group_by_name g) nm = Some grp"
      "settled g grp \<or> (\<exists>k\<in>set (i # is') \<inter> set grp. start_time (gd_buffers g ! k) = now)" for nm grp
    using ih s1 that start by (auto 0 3)
  with ih s1 show ?case by (auto intro: same_static_trans)
qed simp

lemma tick_ok:
  assumes inv: "walk_inv (set placeable) idx (set (idx # ts)) g" and sorted: "sorted_wrt (<) (idx # ts)"
    and lt: "\<forall>i\<in>set placeable. i < length (gd_buffers g)" and run: "tick placeable idx g = Inr g'"
  shows "walk_inv (set placeable) idx (set ts) g' \<and> same_static (gd_buffers g) (gd_buffers g') \<and>
    paired_group_by_name g' = paired_group_by_name g \<and> gd_limit g' = gd_limit g \<and>
    gd_alignment g' = gd_alignment g"
proof -
  let ?g0 = "fold (\<lambda>i g. if idx = end_time (gd_buffers g ! i) then try_deallocate i g else g) placeable g"
  have T: "\<forall>t\<in>set (idx # ts). idx \<le> t" using sorted by auto
  note rel = release_loop_ok [OF inv lt]
  have lt0: "\<forall>i\<in>set placeable. i < length (gd_buffers ?g0) \<and> i \<in> set placeable" using rel lt by simp
  note pl = place_loop_ok [OF conjunct1 [OF rel] T lt0 run [unfolded tick_def]]
  have st: "same_static (gd_buffers g) (gd_buffers g')" using pl rel by simp
  have tab: "paired_group_by_name g' = paired_group_by_name g" using pl rel by simp
  have fate: "settled g' grp \<or> untouched (set placeable) (set ts) g' grp"
    if "map_of (paired_group_by_name g') nm = Some grp" for nm grp
  proof (cases "settled g' grp")
    case ns: False
    have un: "untouched (set placeable) (set (idx # ts)) g' grp"
      using pl that ns unfolding walk_inv_def by blast
    have "start_time (gd_buffers g' ! m) \<noteq> idx" if m: "m \<in> set grp" for m
    proof
      assume s: "start_time (gd_buffers g' ! m) = idx"
      have mp: "m \<in> set placeable" using un m by (simp add: untouched_def)
      have "start_time (gd_buffers ?g0 ! m) = idx"
        using s static_eqD(6) [OF same_static_nth [OF st]] lt mp rel by simp
      then have "settled g' grp"
        using pl \<open>map_of (paired_group_by_name g') nm = Some grp\<close> mp m rel unfolding tab
        by (metis IntI)
      with ns show False ..
    qed
    with un show ?thesis by (auto simp: untouched_def)
  qed simp
  then have "walk_inv (set placeable) idx (set ts) g'" using pl unfolding walk_inv_def by blast
  then show ?thesis using st tab pl rel by simp
qed

lemma walk_inv_later:
  assumes "walk_inv P now T g" "now \<le> now'"
  shows "walk_inv P now' T g"
proof -
  have "i \<in> set (usage g) \<or> end_time (gd_buffers g ! i) \<le> now'"
    if "i < length (gd_buffers g)" "address (gd_buffers g ! i) \<noteq> None" for i
    using assms that unfolding walk_inv_def greedy_inv_def by (meson order_trans)
  with assms(1) show ?thesis unfolding walk_inv_def greedy_inv_def by blast
qed

lemma walk_ok:
  assumes "walk_inv (set placeable) now (set ts) g" "sorted_wrt (<) ts" "\<forall>t\<in>set ts. now \<le> t"
    and "\<forall>i\<in>set placeable. i < length (gd_buffers g)" "foldE (tick placeable) ts g = Inr g'"
  shows "(\<exists>now'. walk_inv (set placeable) now' {} g') \<and> same_static (gd_buffers g) (gd_buffers g') \<and>
    paired_group_by_name g' = paired_group_by_name g \<and> gd_limit g' = gd_limit g \<and>
    gd_alignment g' = gd_alignment g"
  using assms
proof (induction ts arbitrary: now g)
  case (Cons idx ts)
  obtain g1 where tk: "tick placeable idx g = Inr g1" and rest: "foldE (tick placeable) ts g1 = Inr g'"
    using Cons.prems(5) by auto
  have "walk_inv (set placeable) idx (set (idx # ts)) g"
    using walk_inv_later [OF Cons.prems(1)] Cons.prems(3) by simp
  note one = tick_ok [OF this Cons.prems(2,4) tk]
  have len: "length (gd_buffers g1) = length (gd_buffers g)" using one same_static_length by blast
  have "\<forall>i\<in>set placeable. i < length (gd_buffers g1)" using Cons.prems(4) len by simp
  moreover have "sorted_wrt (<) ts" "\<forall>t\<in>set ts. idx \<le> t" using Cons.prems(2) by auto
  ultimately show ?case using Cons.IH [OF conjunct1 [OF one] _ _ _ rest] one by (auto intro: same_static_trans)
qed auto

subsection \<open>Registration\<close>

lemma register_members_ok:
  assumes "register_members grp ms g = Inr g'"
  shows "g' = g\<lparr>paired_group_by_name := rev (map (\<lambda>m. (b_name (gd_buffers g ! m), grp)) ms) @ paired_group_by_name g\<rparr> \<and>
    (\<forall>m\<in>set ms. m < length (gd_buffers g) \<and> map_of (paired_group_by_name g) (b_name (gd_buffers g ! m)) = None)"
  using assms
proof (induction ms arbitrary: g)
  case (Cons m ms)
  let ?n = "b_name (gd_buffers g ! m)"
  let ?g1 = "g\<lparr>paired_group_by_name := (?n, grp) # paired_group_by_name g\<rparr>"
  have m: "m < length (gd_buffers g)" "map_of (paired_group_by_name g) ?n = None"
      and rest: "register_members grp ms ?g1 = Inr g'"
    using Cons.prems by (auto simp: Let_def)
  from Cons.IH [OF rest] have
    g': "g' = ?g1\<lparr>paired_group_by_name := rev (map (\<lambda>m. (b_name (gd_buffers g ! m), grp)) ms) @ (?n, grp) # paired_group_by_name g\<rparr>"
    and ms: "\<forall>k\<in>set ms. k < length (gd_buffers g) \<and>
      map_of ((?n, grp) # paired_group_by_name g) (b_name (gd_buffers g ! k)) = None" by auto
  from ms have "\<forall>k\<in>set ms. k < length (gd_buffers g) \<and> map_of (paired_group_by_name g) (b_name (gd_buffers g ! k)) = None"
    by (auto split: if_splits)
  with m g' show ?case by simp
qed simp

definition reg_inv :: "nat set \<Rightarrow> greedy \<Rightarrow> bool" where
  "reg_inv P g \<longleftrightarrow> groups_ok g \<and>
     (\<forall>n\<in>set (rejected_paired_buffers g). map_of (paired_group_by_name g) n \<noteq> None) \<and>
     (\<forall>nm grp. map_of (paired_group_by_name g) nm = Some grp \<longrightarrow>
        (\<forall>m\<in>set grp. b_name (gd_buffers g ! m) \<in> set (rejected_paired_buffers g)) \<or>
        (\<forall>m\<in>set grp. b_name (gd_buffers g ! m) \<notin> set (rejected_paired_buffers g) \<and> m \<in> P))"

lemma map_of_names:
  "map_of (rev (map (\<lambda>m. (f m, grp)) ms) @ tab) nm = (if nm \<in> f ` set ms then Some grp else map_of tab nm)"
  by (induction ms arbitrary: tab) (auto simp del: map_of_append)

lemma register_group_ok:
  assumes inv: "reg_inv P g" and dist: "distinct (map b_name (gd_buffers g))"
    and P: "P \<subseteq> {..<length (gd_buffers g)}" and names: "pn = (\<lambda>i. b_name (gd_buffers g ! i)) ` P"
    and run: "register_group pn root g = Inr g'"
  shows "reg_inv P g' \<and> gd_buffers g' = gd_buffers g \<and> gd_limit g' = gd_limit g \<and>
    gd_alignment g' = gd_alignment g \<and> usage g' = usage g \<and>
    (\<forall>nm grp. map_of (paired_group_by_name g) nm = Some grp \<longrightarrow> map_of (paired_group_by_name g') nm = Some grp) \<and>
    (paired_with (gd_buffers g ! root) \<noteq> [] \<longrightarrow>
       map_of (paired_group_by_name g') (b_name (gd_buffers g ! root)) = Some (root # paired_with (gd_buffers g ! root)))"
proof (cases "paired_with (gd_buffers g ! root) = []")
  case True
  then show ?thesis using run inv by (simp add: register_group_def)
next
  case False
  let ?nm = "\<lambda>i. b_name (gd_buffers g ! i)" and ?tab = "paired_group_by_name g"
  define grp where "grp = root # paired_with (gd_buffers g ! root)"
  have "bindE (check (distinct (map ?nm grp)) AssertionError) (\<lambda>_. bindE (register_members grp grp g) (\<lambda>g1.
      Inr (if \<exists>n\<in>set (map ?nm grp). n \<notin> pn
        then g1\<lparr>rejected_paired_buffers := map ?nm grp @ rejected_paired_buffers g1\<rparr> else g1))) = Inr g'"
    using run False by (simp only: register_group_def Let_def grp_def if_False)
  then obtain g1 where grp: "distinct (map ?nm grp)" and reg: "register_members grp grp g = Inr g1"
      and g': "g' = (if \<exists>n\<in>set (map ?nm grp). n \<notin> pn
        then g1\<lparr>rejected_paired_buffers := map ?nm grp @ rejected_paired_buffers g1\<rparr> else g1)"
    by (auto simp del: set_map)
  have g1: "g1 = g\<lparr>paired_group_by_name := rev (map (\<lambda>m. (?nm m, grp)) grp) @ ?tab\<rparr>"
      and fresh: "\<forall>m\<in>set grp. m < length (gd_buffers g) \<and> map_of ?tab (?nm m) = None"
    using register_members_ok [OF reg] by auto
  have bufs: "gd_buffers g' = gd_buffers g" by (simp add: g' g1)
  have tab: "map_of (paired_group_by_name g') n = (if n \<in> ?nm ` set grp then Some grp else map_of ?tab n)" for n
    by (simp add: g' g1 map_of_names del: map_of_append)
  have old: "?nm m \<notin> ?nm ` set grp" if "map_of ?tab nm = Some grp'" "m \<in> set grp'" for nm grp' m
  proof -
    have "map_of ?tab (?nm m) = Some grp'" using inv that unfolding reg_inv_def groups_ok_def by blast
    then show ?thesis using fresh by force
  qed
  have "groups_ok g'"
    unfolding groups_ok_def bufs
  proof (intro allI impI)
    fix nm grp' assume a: "map_of (paired_group_by_name g') nm = Some grp'"
    show "distinct grp' \<and> (\<exists>m\<in>set grp'. ?nm m = nm) \<and>
      (\<forall>m\<in>set grp'. m < length (gd_buffers g) \<and> map_of (paired_group_by_name g') (?nm m) = Some grp')"
    proof (cases "nm \<in> ?nm ` set grp")
      case True
      then have "grp' = grp" using a by (simp add: tab)
      then show ?thesis using True grp fresh by (auto simp: tab distinct_map)
    next
      case False
      then have m: "map_of ?tab nm = Some grp'" using a by (simp add: tab)
      then have "distinct grp' \<and> (\<exists>m\<in>set grp'. ?nm m = nm) \<and>
          (\<forall>m\<in>set grp'. m < length (gd_buffers g) \<and> map_of ?tab (?nm m) = Some grp')"
        using inv unfolding reg_inv_def groups_ok_def by blast
      then show ?thesis using old [OF m] by (simp add: tab)
    qed
  qed
  moreover have rej: "set (rejected_paired_buffers g') =
      (if \<exists>n\<in>?nm ` set grp. n \<notin> pn then ?nm ` set grp else {}) \<union> set (rejected_paired_buffers g)"
    by (simp add: g' g1)
  have "\<forall>n\<in>set (rejected_paired_buffers g'). map_of (paired_group_by_name g') n \<noteq> None"
    using inv unfolding rej by (auto simp: tab reg_inv_def)
  moreover have "(\<forall>m\<in>set grp'. ?nm m \<in> set (rejected_paired_buffers g')) \<or>
      (\<forall>m\<in>set grp'. ?nm m \<notin> set (rejected_paired_buffers g') \<and> m \<in> P)"
    if a: "map_of (paired_group_by_name g') nm = Some grp'" for nm grp'
  proof (cases "nm \<in> ?nm ` set grp")
    case True
    then have eq: "grp' = grp" using a by (simp add: tab)
    have nr: "?nm m \<notin> set (rejected_paired_buffers g)" if "m \<in> set grp" for m
      using inv fresh that unfolding reg_inv_def by metis
    have inP: "m \<in> P" if h: "m \<in> set grp" "?nm m \<in> pn" for m
    proof -
      obtain k where k: "k \<in> P" "?nm m = ?nm k" using h(2) names by auto
      have "m = k" by (rule name_inj [OF dist _ _ k(2)]) (use fresh h(1) k(1) P in auto)
      with k(1) show ?thesis by simp
    qed
    show ?thesis unfolding eq rej using nr inP by auto
  next
    case False
    then have m: "map_of ?tab nm = Some grp'" using a by (simp add: tab)
    then have "(\<forall>m\<in>set grp'. ?nm m \<in> set (rejected_paired_buffers g)) \<or>
      (\<forall>m\<in>set grp'. ?nm m \<notin> set (rejected_paired_buffers g) \<and> m \<in> P)"
      using inv unfolding reg_inv_def by blast
    then show ?thesis using old [OF m] unfolding rej by auto
  qed
  ultimately have "reg_inv P g'" unfolding reg_inv_def bufs by blast
  moreover have "map_of (paired_group_by_name g') (?nm root) = Some (root # paired_with (gd_buffers g ! root))"
    by (simp add: tab) (simp add: grp_def)
  moreover have "map_of (paired_group_by_name g') nm = Some grp'" if "map_of ?tab nm = Some grp'" for nm grp'
    using fresh that by (auto simp: tab)
  moreover have "gd_limit g' = gd_limit g" "gd_alignment g' = gd_alignment g" "usage g' = usage g"
    by (simp_all add: g' g1)
  ultimately show ?thesis using bufs by blast
qed

lemma register_all_ok:
  assumes "reg_inv P g" "distinct (map b_name (gd_buffers g))" "P \<subseteq> {..<length (gd_buffers g)}"
    and "pn = (\<lambda>i. b_name (gd_buffers g ! i)) ` P" "foldE (register_group pn) rs g = Inr g'"
  shows "reg_inv P g' \<and> gd_buffers g' = gd_buffers g \<and> gd_limit g' = gd_limit g \<and>
    gd_alignment g' = gd_alignment g \<and> usage g' = usage g \<and>
    (\<forall>nm grp. map_of (paired_group_by_name g) nm = Some grp \<longrightarrow> map_of (paired_group_by_name g') nm = Some grp) \<and>
    (\<forall>r\<in>set rs. paired_with (gd_buffers g ! r) \<noteq> [] \<longrightarrow>
       map_of (paired_group_by_name g') (b_name (gd_buffers g ! r)) = Some (r # paired_with (gd_buffers g ! r)))"
  using assms
proof (induction rs arbitrary: g)
  case (Cons r rs)
  obtain g1 where one: "register_group pn r g = Inr g1" and rest: "foldE (register_group pn) rs g1 = Inr g'"
    using Cons.prems(5) by auto
  note s1 = register_group_ok [OF Cons.prems(1-4) one]
  then have b: "gd_buffers g1 = gd_buffers g" by blast
  note ih = Cons.IH [of g1, unfolded b, OF conjunct1 [OF s1] Cons.prems(2-4) rest]
  show ?case using ih s1 by auto
qed simp

subsection \<open>The plan\<close>

text \<open>An in-place child is computed, not a graph input: a buffer whose first use is a read
  declares no in-place parent.\<close>

definition greedy_input :: "buffer list \<Rightarrow> bool" where
  "greedy_input bs \<longleftrightarrow> placement_input bs \<and>
     (\<forall>b\<in>set bs. first_use_is_read b \<longrightarrow> in_place_parents b = [])"

lemma greedy_input_solvable:
  assumes "greedy_input bs" "check_in_place_relationships bs = Inr ()"
  shows "solvable bs"
proof -
  have p: "placement_input bs" using assms(1) by (simp add: greedy_input_def)
  have "start_time (bs ! j) + 1 < end_time (bs ! j)"
    if "i < length bs" "j < length bs" "b_name (bs ! j) \<in> set (in_place_parents (bs ! i))"
      "in_place_parents (bs ! j) \<noteq> []" for i j
    using assms(1) that by (intro check_in_place_parent_read [OF assms(2) p that(1-3)]) (auto simp: greedy_input_def)
  with p check_in_place_pairs_ok [OF assms(2) p] show ?thesis
    by (auto simp: solvable_def placement_input_def)
qed

lemma greedy_plan_layout_cases:
  assumes "greedy_plan_layout s = Inr bs'"
  obtains (none) "s_buffers s = []" "bs' = []"
  | (barred) s1 ex where "partition s = Inr (s1, [], ex)" "bs' = s_buffers s1"
      "\<forall>b\<in>set (s_buffers s). address b = None" "s_buffers s \<noteq> []"
  | (walked) s1 placeable ex g0 g1 g2 where "\<forall>b\<in>set (s_buffers s). address b = None"
      "check_in_place_relationships (s_buffers s) = Inr ()" "partition s = Inr (s1, placeable, ex)"
      "g0 = \<lparr>gd_buffers = s_buffers s1, gd_limit = s_limit s, gd_alignment = s_alignment s,
         usage = [], reused_parents = [], paired_group_by_name = [], rejected_paired_buffers = []\<rparr>"
      "foldE (register_group ((\<lambda>i. b_name (s_buffers s1 ! i)) ` set placeable)) [0..<length (s_buffers s1)] g0 = Inr g1"
      "\<forall>i\<in>set placeable. uses_known (s_buffers s1 ! i)"
      "foldE (tick placeable) (transition_times (s_buffers s1) placeable) g1 = Inr g2" "bs' = gd_buffers g2"
  using assms
  by (auto simp: greedy_plan_layout_def Let_def case_prod_beta split: if_splits)

lemma transition_times_ok:
  "sorted_wrt (<) (transition_times bs placeable)"
  "i \<in> set placeable \<Longrightarrow> start_time (bs ! i) \<in> set (transition_times bs placeable)"
proof -
  have "distinct (transition_times bs placeable)" "sorted (transition_times bs placeable)"
    by (simp_all add: transition_times_def)
  then show "sorted_wrt (<) (transition_times bs placeable)" by (simp add: strict_sorted_iff)
  show "i \<in> set placeable \<Longrightarrow> start_time (bs ! i) \<in> set (transition_times bs placeable)"
    by (auto simp: transition_times_def)
qed

lemma walk_start:
  assumes solv: "solvable (gd_buffers g)" and al: "0 < gd_alignment g" and use: "usage g = []"
    and none: "\<forall>i<length (gd_buffers g). address (gd_buffers g ! i) = None"
    and reg: "reg_inv P g" and T: "\<forall>i\<in>P. start_time (gd_buffers g ! i) \<in> T"
  shows "walk_inv P now T g"
proof -
  have "greedy_inv now g"
    using assms by (auto simp: greedy_inv_def in_use_ok_def layout_ok_def placed_in_bounds_def compatible_def)
  moreover have "settled g grp \<or> untouched P T g grp"
    if m: "map_of (paired_group_by_name g) nm = Some grp" for nm grp
  proof -
    have "\<forall>m\<in>set grp. address (gd_buffers g ! m) = None"
      using reg m none unfolding reg_inv_def groups_ok_def by blast
    moreover have "(\<forall>m\<in>set grp. b_name (gd_buffers g ! m) \<in> set (rejected_paired_buffers g)) \<or>
        (\<forall>m\<in>set grp. b_name (gd_buffers g ! m) \<notin> set (rejected_paired_buffers g) \<and> m \<in> P)"
      using reg m unfolding reg_inv_def by blast
    ultimately show ?thesis using T by (auto simp: settled_def untouched_def)
  qed
  moreover have "only_placed P g" using none by (simp add: only_placed_def)
  ultimately show ?thesis using reg by (simp add: walk_inv_def reg_inv_def)
qed

lemma greedy_walk_result:
  assumes run: "greedy_plan_layout s = Inr bs'" and inp: "greedy_input (s_buffers s)" and al: "0 < s_alignment s"
  obtains (unplaced) "\<forall>i<length bs'. address (bs' ! i) = None" "same_static (s_buffers s) bs'"
  | (result) placeable now g where "walk_inv (set placeable) now {} g" "bs' = gd_buffers g"
      "same_static (s_buffers s) bs'" "gd_limit g = s_limit s" "gd_alignment g = s_alignment s"
      "\<forall>i\<in>set placeable. excluded s (s_buffers s ! i) = Inr None"
      "\<forall>r<length bs'. paired_with (s_buffers s ! r) \<noteq> [] \<longrightarrow>
         map_of (paired_group_by_name g) (b_name (s_buffers s ! r)) = Some (r # paired_with (s_buffers s ! r))"
  using run
proof (cases rule: greedy_plan_layout_cases)
  case none
  then show thesis by (intro unplaced) simp_all
next
  case (barred s1 ex)
  note f = partition_Inr [OF barred(1)]
  have "\<forall>i<length bs'. address (bs' ! i) = None"
    using f barred same_static_length [of "s_buffers s" "s_buffers s1"] by auto
  then show thesis using f(1) barred(2) by (intro unplaced) simp_all
next
  case (walked s1 placeable ex g0 g1 g2)
  note f = partition_Inr [OF walked(3)]
  have len: "length (s_buffers s1) = length (s_buffers s)" using f(1) by (rule same_static_length)
  have solv: "solvable (s_buffers s1)"
    using solvable_static [OF f(1)] greedy_input_solvable [OF inp walked(2)] .
  have names: "distinct (map b_name (s_buffers s1))" using solv by (simp add: solvable_def)
  have P: "set placeable \<subseteq> {..<length (s_buffers s1)}" using f len by simp
  have "reg_inv (set placeable) g0" by (simp add: walked(4) reg_inv_def groups_ok_def)
  from register_all_ok [OF this _ _ _ walked(5)] names P
  have reg: "reg_inv (set placeable) g1" "gd_buffers g1 = s_buffers s1" "gd_limit g1 = s_limit s"
      "gd_alignment g1 = s_alignment s" "usage g1 = []"
      and tab1: "\<forall>r\<in>set [0..<length (s_buffers s1)]. paired_with (s_buffers s1 ! r) \<noteq> [] \<longrightarrow>
        map_of (paired_group_by_name g1) (b_name (s_buffers s1 ! r)) = Some (r # paired_with (s_buffers s1 ! r))"
    by (simp_all add: walked(4))
  let ?ts = "transition_times (s_buffers s1) placeable" and ?now = "Min (insert 0 (set (transition_times (s_buffers s1) placeable)))"
  have "walk_inv (set placeable) ?now (set ?ts) g1"
    using reg solv al walked(1) f(4) len transition_times_ok(2)
    by (intro walk_start) auto
  from walk_ok [OF this transition_times_ok(1) _ _ walked(7)] P reg
  obtain now where w: "walk_inv (set placeable) now {} g2" and st: "same_static (gd_buffers g1) (gd_buffers g2)"
      and tab: "paired_group_by_name g2 = paired_group_by_name g1" and lim: "gd_limit g2 = gd_limit g1" "gd_alignment g2 = gd_alignment g1"
    by fastforce
  have all: "same_static (s_buffers s) bs'" using f(1) st walked(8) reg(2) by (auto intro: same_static_trans)
  have "\<forall>r<length bs'. paired_with (s_buffers s ! r) \<noteq> [] \<longrightarrow>
      map_of (paired_group_by_name g2) (b_name (s_buffers s ! r)) = Some (r # paired_with (s_buffers s ! r))"
    using tab1 static_eqD(1,10) [OF same_static_nth [OF f(1)]] same_static_length [OF all] len
    by (simp add: tab)
  with w walked(8) all lim reg f(7) show thesis by (intro result) simp_all
qed

lemma greedy_plan_solver:
  assumes "greedy_plan bs limit al = Inr bs'"
  obtains s where "greedy_plan_layout s = Inr bs'" "s_buffers s = bs" "s_limit s = limit" "s_alignment s = al"
  using assms by (auto simp: greedy_plan_def init_solver_def)

interpretation greedy_solver: placement_solver greedy_plan greedy_input
proof
  fix bs limit al bs' assume run: "greedy_plan bs limit al = Inr bs'" and inp: "greedy_input bs" and al: "0 < al"
  obtain s where s: "greedy_plan_layout s = Inr bs'" "s_buffers s = bs" "s_limit s = limit" "s_alignment s = al"
    using run by (rule greedy_plan_solver)
  have inp': "greedy_input (s_buffers s)" and al': "0 < s_alignment s" using inp al s by simp_all
  show st: "same_static bs bs'"
    by (rule greedy_walk_result [OF s(1) inp' al']) (simp_all add: s)
  show "layout_ok limit bs'"
  proof (rule greedy_walk_result [OF s(1) inp' al'])
    assume "\<forall>i<length bs'. address (bs' ! i) = None"
    then show ?thesis by (simp add: layout_ok_def placed_in_bounds_def compatible_def)
  next
    fix P now g assume "walk_inv (set P) now {} g" "bs' = gd_buffers g" "gd_limit g = s_limit s"
    then show ?thesis by (simp add: walk_inv_def greedy_inv_def s)
  qed
  show "address (bs' ! i) = None" if i: "i < length bs" and r: "residency_reason (bs ! i) \<noteq> None" for i
  proof (rule greedy_walk_result [OF s(1) inp' al'])
    assume "\<forall>i<length bs'. address (bs' ! i) = None"
    then show ?thesis using i same_static_length [OF st] by simp
  next
    fix P now g assume w: "walk_inv (set P) now {} g" "bs' = gd_buffers g"
      and ex: "\<forall>i\<in>set P. excluded s (s_buffers s ! i) = Inr None"
    have "excluded s (s_buffers s ! i) \<noteq> Inr None" using r s by (auto simp: excluded_def Let_def)
    then have "i \<notin> set P" using ex by blast
    then show ?thesis
      using w i same_static_length [OF st] by (auto simp: walk_inv_def only_placed_def)
  qed
qed

subsection \<open>Properties\<close>

definition demo_paired :: "buffer list" where
  "demo_paired = [demo_buffer ''s'' 2 [0, 1] []\<lparr>paired_with := [1]\<rparr>, demo_buffer ''d'' 2 [1, 2] [],
     demo_buffer ''t'' 1 [2, 3] []]"

lemma demo_inputs: "greedy_input demo_pair" "greedy_input demo_paired"
  by (simp_all add: greedy_input_def placement_input_def demo_pair_def demo_paired_def demo_buffer_def
      post_init_def check_def)

lemma demo_greedy:
  "map_sum id (map address) (greedy_plan demo_pair 4 1) = Inr [Some 0, Some 0]"
  "map_sum id (map address) (greedy_plan demo_paired 4 1) = Inr [Some 0, Some 2, Some 0]"
  "map_sum id (map address) (greedy_plan demo_paired 3 1) = Inr [None, None, Some 0]"
  by code_simp+

text \<open>C4: A finished greedy plan is a valid layout: every placed buffer lies inside \<open>[0, limit)\<close> at an
  aligned address, and two placed buffers that are live at the same time occupy disjoint byte ranges
  unless one takes over the other's slot in place.\<close>

theorem greedy_layout_sound:
  assumes "greedy_plan bs limit al = Inr bs'" "greedy_input bs" "0 < al" "0 \<le> limit"
  shows "layout_ok limit bs' \<and> (\<forall>i<length bs'. \<forall>x. address (bs' ! i) = Some x \<longrightarrow> al dvd x)"
proof -
  obtain s where s: "greedy_plan_layout s = Inr bs'" "s_buffers s = bs" "s_limit s = limit" "s_alignment s = al"
    using assms(1) by (rule greedy_plan_solver)
  have "greedy_input (s_buffers s)" "0 < s_alignment s" using assms s by simp_all
  then have "\<forall>i<length bs'. \<forall>x. address (bs' ! i) = Some x \<longrightarrow> al dvd x"
    by (rule greedy_walk_result [OF s(1)]) (auto simp: walk_inv_def greedy_inv_def s)
  with greedy_solver.plan_ok [OF assms] show ?thesis by blast
qed

theorem greedy_layout_sound_witness:
  "\<exists>bs'. greedy_plan demo_pair 4 1 = Inr bs' \<and> map address bs' = [Some 0, Some 0] \<and> layout_ok 4 bs'"
proof -
  obtain bs' where run: "greedy_plan demo_pair 4 1 = Inr bs'" and a: "map address bs' = [Some 0, Some 0]"
    using map_sum_InrD [OF demo_greedy(1)] by metis
  from greedy_layout_sound [OF run demo_inputs(1)] run a show ?thesis by simp
qed

text \<open>A paired group is placed atomically: either its root and every partner have an address, or
  none of them has one.\<close>

theorem greedy_paired_atomic:
  assumes "greedy_plan bs limit al = Inr bs'" "greedy_input bs" "0 < al" "0 \<le> limit"
    and "r < length bs" "m \<in> set (paired_with (bs ! r))" "m < length bs"
  shows "address (bs' ! r) = None \<longleftrightarrow> address (bs' ! m) = None"
proof -
  obtain s where s: "greedy_plan_layout s = Inr bs'" "s_buffers s = bs" "s_limit s = limit" "s_alignment s = al"
    using assms(1) by (rule greedy_plan_solver)
  have pre: "greedy_input (s_buffers s)" "0 < s_alignment s" using assms s by simp_all
  have len: "length bs' = length bs" by (rule same_static_length [OF greedy_solver.plan_static [OF assms(1-4)]])
  show ?thesis
    using s(1) pre
  proof (cases rule: greedy_walk_result)
    case unplaced
    then show ?thesis using assms(5,7) len by simp
  next
    case (result placeable now g)
    have "map_of (paired_group_by_name g) (b_name (bs ! r)) = Some (r # paired_with (bs ! r))"
      using result(7) assms(5,6) len s(2) by auto
    then have "settled g (r # paired_with (bs ! r)) \<or> untouched (set placeable) {} g (r # paired_with (bs ! r))"
      using result(1) unfolding walk_inv_def by blast
    then have "settled g (r # paired_with (bs ! r))" by (auto simp: untouched_def)
    then show ?thesis using assms(6) result(2) by (auto simp: settled_def)
  qed
qed

theorem greedy_paired_atomic_witness:
  "\<exists>bs'. greedy_plan demo_paired 3 1 = Inr bs' \<and> map address bs' = [None, None, Some 0] \<and>
     (address (bs' ! 0) = None) = (address (bs' ! 1) = None)"
proof -
  obtain bs' where run: "greedy_plan demo_paired 3 1 = Inr bs'" and a: "map address bs' = [None, None, Some 0]"
    using map_sum_InrD [OF demo_greedy(3)] by metis
  have "(address (bs' ! 0) = None) = (address (bs' ! 1) = None)"
    by (rule greedy_paired_atomic [OF run demo_inputs(2)]) (simp_all add: demo_paired_def demo_buffer_def)
  with run a show ?thesis by (intro exI [of _ bs'] conjI)
qed

end
