(* ===== verification/Exhaustive_Search.thy ===== *)
theory Exhaustive_Search
  imports Gap_Solver Greedy_Solver
begin

text \<open>
  The exhaustive co-optimisation of core divisions and placement
  (\<open>torch_spyre/_inductor/scratchpad/exhaustive_search.py\<close>).

  The wrapper is parameterised by the inner placement solver, \<open>inner\<close>, a function of the
  buffers, the limit and the alignment, as the solver class is.  \<open>chosen\<close> maps a buffer name to
  the index of its candidate division.  The depth-first search threads the best total
  (\<open>None\<close> is \<open>math.inf\<close>) and the best choice; a raised exception ends it.
\<close>

type_synonym choice = "string \<Rightarrow> nat"
type_synonym inner_solver = "buffer list \<Rightarrow> int \<Rightarrow> int \<Rightarrow> buffer list res"

definition exhaustive_caps :: capabilities where
  "exhaustive_caps = \<lparr>chooses_core_divisions = True, supports_paired_buffers = False,
     decides_lx_relayouts = False, generates_divisions = False, chooses_tilings = False,
     tilings_from_menu = False, linear_cost_only = False\<rparr>"

subsection \<open>Scoring one choice\<close>

definition children_by_parent :: "buffer list \<Rightarrow> string \<Rightarrow> (buffer \<times> (nat \<times> nat) list) list" where
  "children_by_parent bs parent_name =
     (if by_name bs parent_name = None then []
      else concat (map (\<lambda>child.
             map (\<lambda>_. (child, case map_of (cd_parent_matches child) parent_name of
                                 Some pairs \<Rightarrow> pairs | None \<Rightarrow> []))
               (filter (\<lambda>p. p = parent_name) (cd_parents child))) bs))"

definition division_residency_reason :: "buffer list \<Rightarrow> choice \<Rightarrow> buffer \<Rightarrow> string option" where
  "division_residency_reason bs chosen b =
     (case residency_reason b of
        Some r \<Rightarrow> Some r
      | None \<Rightarrow>
          if list_all (\<lambda>(child, pairs).
               list_ex (\<lambda>(pd, cd). pd = chosen (b_name b) \<and> cd = chosen (b_name child)) pairs)
               (children_by_parent bs (b_name b))
          then None else Some ''core div mismatch'')"

fun valid_parents :: "buffer list \<Rightarrow> choice \<Rightarrow> int \<Rightarrow> string list \<Rightarrow> string list res" where
  "valid_parents bs chosen b_per_core [] = Inr []"
| "valid_parents bs chosen b_per_core (p_name # ps) =
     (case by_name bs p_name of
        None \<Rightarrow> bindE (valid_parents bs chosen b_per_core ps) (\<lambda>vs. Inr (p_name # vs))
      | Some p \<Rightarrow>
          bindE (per_core_size p (chosen p_name)) (\<lambda>p_per_core.
          bindE (valid_parents bs chosen b_per_core ps) (\<lambda>vs.
            Inr (if b_per_core \<le> p_per_core then p_name # vs else vs))))"

definition valid_inplace_parents :: "buffer list \<Rightarrow> choice \<Rightarrow> buffer \<Rightarrow> string list res" where
  "valid_inplace_parents bs chosen b =
     bindE (per_core_size b (chosen (b_name b))) (\<lambda>b_per_core.
       valid_parents bs chosen b_per_core (in_place_parents b))"

definition plain_buffer ::
  "string \<Rightarrow> int \<Rightarrow> int list \<Rightarrow> bool \<Rightarrow> string list \<Rightarrow> string option \<Rightarrow> int option \<Rightarrow> int option \<Rightarrow> buffer" where
  "plain_buffer nm sz us fr ps reason so eo =
     \<lparr>b_name = nm, b_size = sz, uses = us, first_use_is_read = fr, address = None,
       in_place_parents = ps, residency_reason = reason, untiled_bar = None,
       lifetime_start_override = so, lifetime_end_override = eo, paired_with = [],
       spill_reason = None, core_divisions = [], cd_parents = [], cd_parent_matches = [],
       chosen_division = None, boundary = Intermediate\<rparr>"

definition make_temp_buf :: "buffer list \<Rightarrow> choice \<Rightarrow> buffer \<Rightarrow> buffer res" where
  "make_temp_buf bs chosen b =
     bindE (per_core_size b (chosen (b_name b))) (\<lambda>sz.
     bindE (valid_inplace_parents bs chosen b) (\<lambda>ps.
       let t = plain_buffer (b_name b) sz (uses b) (first_use_is_read b) ps
                 (division_residency_reason bs chosen b)
                 (lifetime_start_override b) (lifetime_end_override b)
       in bindE (post_init t) (\<lambda>_. Inr t)))"

definition make_temp_bufs :: "buffer list \<Rightarrow> choice \<Rightarrow> buffer list res" where
  "make_temp_bufs bs chosen = mapE (make_temp_buf bs chosen) bs"

text \<open>\<open>buf_total_bytes\<close> is a dict: one entry per name, the last buffer of that name.\<close>

definition buf_total_bytes :: "buffer list \<Rightarrow> (string \<times> int) list" where
  "buf_total_bytes bs =
     map (\<lambda>n. (n, case by_name bs n of Some b \<Rightarrow> b_size b | None \<Rightarrow> 0)) (remdups (map b_name bs))"

definition hbm_bytes :: "buffer list \<Rightarrow> buffer list \<Rightarrow> int" where
  "hbm_bytes bs allocation =
     (let pinned = set (map b_name (filter (\<lambda>a. address a \<noteq> None) allocation))
      in sum_list (map snd (filter (\<lambda>(k, v). k \<notin> pinned) (buf_total_bytes bs))))"

definition score_leaf :: "inner_solver \<Rightarrow> buffer list \<Rightarrow> int \<Rightarrow> choice \<Rightarrow> int res" where
  "score_leaf inner bs limit chosen =
     bindE (make_temp_bufs bs chosen) (\<lambda>tmp.
     bindE (inner tmp limit 128) (\<lambda>allocation. Inr (hbm_bytes bs allocation)))"

subsection \<open>The search\<close>

primrec recurse ::
  "(choice \<Rightarrow> int res) \<Rightarrow> buffer list \<Rightarrow> choice \<Rightarrow> int option \<times> choice \<Rightarrow> (int option \<times> choice) res" where
  "recurse score [] = (\<lambda>chosen best.
     bindE (score chosen) (\<lambda>hbm.
       Inr (case fst best of
              None \<Rightarrow> (Some hbm, chosen)
            | Some best_total \<Rightarrow> if hbm < best_total then (Some hbm, chosen) else best)))"
| "recurse score (b # bs) = (\<lambda>chosen best.
     foldE (\<lambda>opt_idx best. recurse score bs (chosen(b_name b := opt_idx)) best)
       [0..<length (core_divisions b)] best)"

definition variable_buffers :: "buffer list \<Rightarrow> buffer list" where
  "variable_buffers bs = filter (\<lambda>b. length (core_divisions b) > 1) bs"

definition commit_choice :: "choice \<Rightarrow> buffer list \<Rightarrow> buffer \<Rightarrow> buffer" where
  "commit_choice chosen final_alloc b =
     (let a = by_name final_alloc (b_name b)
      in b\<lparr>chosen_division := Some (chosen (b_name b)),
           address := (case a of Some a \<Rightarrow> address a | None \<Rightarrow> None),
           spill_reason := (case a of Some a \<Rightarrow> spill_reason a | None \<Rightarrow> None)\<rparr>)"

definition plan_layout_and_core_divisions :: "inner_solver \<Rightarrow> buffer list \<Rightarrow> int \<Rightarrow> buffer list res" where
  "plan_layout_and_core_divisions inner bs limit =
     bindE (check (list_all (\<lambda>b. list_all (\<lambda>cd. is_untiled (tiling cd)) (core_divisions b)) bs) ValueError) (\<lambda>_.
     bindE (recurse (score_leaf inner bs limit) (variable_buffers bs) (\<lambda>_. 0) (None, \<lambda>_. 0)) (\<lambda>(_, best_chosen).
     bindE (make_temp_bufs bs best_chosen) (\<lambda>tmp.
     bindE (inner tmp limit 128) (\<lambda>final_alloc.
       Inr (map (commit_choice best_chosen final_alloc) bs)))))"

definition exhaustive_plan :: "inner_solver \<Rightarrow> buffer list \<Rightarrow> int \<Rightarrow> int \<Rightarrow> buffer list res" where
  "exhaustive_plan inner bs limit al =
     bindE (init_solver exhaustive_caps bs limit al) (\<lambda>s.
       plan_layout_and_core_divisions inner (s_buffers s) (s_limit s))"

subsection \<open>The search visits every choice\<close>

fun leaves :: "buffer list \<Rightarrow> choice \<Rightarrow> choice list" where
  "leaves [] chosen = [chosen]"
| "leaves (b # bs) chosen =
     concat (map (\<lambda>i. leaves bs (chosen(b_name b := i))) [0..<length (core_divisions b)])"

definition visit :: "(choice \<Rightarrow> int res) \<Rightarrow> choice \<Rightarrow> int option \<times> choice \<Rightarrow> (int option \<times> choice) res" where
  "visit score chosen best = recurse score [] chosen best"

lemma recurse_leaves: "recurse score vs chosen best = foldE (visit score) (leaves vs chosen) best"
proof (induction vs arbitrary: chosen best)
  case Nil
  show ?case by (cases "score chosen") (simp_all add: visit_def)
next
  case (Cons b bs)
  show ?case unfolding leaves.simps foldE_concat_map recurse.simps Cons.IH ..
qed

text \<open>What a run over a list of leaves leaves in \<open>best\<close>.\<close>

lemma visit_fold:
  assumes "foldE (visit score) cs best = Inr best'"
  shows "(\<forall>t. fst best = Some t \<longrightarrow> (\<exists>t'. fst best' = Some t' \<and> t' \<le> t)) \<and>
    (\<forall>c\<in>set cs. \<exists>h t'. score c = Inr h \<and> fst best' = Some t' \<and> t' \<le> h) \<and>
    (best' = best \<or> (\<exists>t'. fst best' = Some t' \<and> snd best' \<in> set cs \<and> score (snd best') = Inr t'))"
  using assms
proof (induction cs arbitrary: best)
  case (Cons c cs)
  obtain h where h: "score c = Inr h" using Cons.prems by (auto simp: visit_def)
  define b1 where "b1 = (case fst best of None \<Rightarrow> (Some h, c)
    | Some best_total \<Rightarrow> if h < best_total then (Some h, c) else best)"
  have one: "visit score c best = Inr b1" using h by (simp add: visit_def b1_def)
  have rest: "foldE (visit score) cs b1 = Inr best'" using Cons.prems one by simp
  have b1: "\<exists>t1. fst b1 = Some t1 \<and> t1 \<le> h" "\<forall>t. fst best = Some t \<longrightarrow> (\<exists>t1. fst b1 = Some t1 \<and> t1 \<le> t)"
      "b1 = best \<or> b1 = (Some h, c)"
    by (auto simp: b1_def split: option.splits)
  note ih = Cons.IH [OF rest]
  obtain t1 where t1: "fst b1 = Some t1" "t1 \<le> h" using b1(1) by blast
  then obtain t' where t': "fst best' = Some t'" "t' \<le> t1" using ih by blast
  have "\<exists>t'. fst best' = Some t' \<and> t' \<le> t" if "fst best = Some t" for t
    using b1(2) that t1(1) t' by fastforce
  moreover have "\<exists>h t'. score d = Inr h \<and> fst best' = Some t' \<and> t' \<le> h" if "d \<in> set (c # cs)" for d
    using that h t' t1 ih by (cases "d = c") auto
  moreover have "best' = best \<or> (\<exists>t'. fst best' = Some t' \<and> snd best' \<in> set (c # cs) \<and> score (snd best') = Inr t')"
    using ih b1(3) h by auto
  ultimately show ?case by blast
qed auto

lemma leaves_iff:
  assumes "distinct (map b_name vs)"
  shows "c \<in> set (leaves vs chosen) \<longleftrightarrow>
    (\<forall>n. n \<notin> b_name ` set vs \<longrightarrow> c n = chosen n) \<and> (\<forall>b\<in>set vs. c (b_name b) < length (core_divisions b))"
  using assms
proof (induction vs arbitrary: chosen)
  case Nil
  show ?case by (auto simp: fun_eq_iff)
next
  case (Cons b bs)
  have fresh: "b_name b \<notin> b_name ` set bs" and d: "distinct (map b_name bs)" using Cons.prems by auto
  have "c \<in> set (leaves (b # bs) chosen) \<longleftrightarrow>
      (\<exists>i<length (core_divisions b). (\<forall>n. n \<notin> b_name ` set bs \<longrightarrow> c n = (chosen(b_name b := i)) n) \<and>
        (\<forall>b\<in>set bs. c (b_name b) < length (core_divisions b)))"
    unfolding leaves.simps set_concat set_map UN_iff set_upt Cons.IH [OF d] bex_simps by auto
  also have "\<dots> \<longleftrightarrow> (\<forall>n. n \<notin> b_name ` set (b # bs) \<longrightarrow> c n = chosen n) \<and>
      (\<forall>b\<in>set (b # bs). c (b_name b) < length (core_divisions b))"
    using fresh by (auto simp: fun_upd_def)
  finally show ?case .
qed

text \<open>A choice of one candidate per buffer; a buffer with at most one candidate stays at index 0.\<close>

definition valid_choice :: "buffer list \<Rightarrow> choice \<Rightarrow> bool" where
  "valid_choice bs c \<longleftrightarrow> (\<forall>n. n \<notin> b_name ` set bs \<longrightarrow> c n = 0) \<and>
     (\<forall>b\<in>set bs. c (b_name b) < max 1 (length (core_divisions b)))"

lemma valid_choice_leaves:
  assumes "distinct (map b_name bs)"
  shows "valid_choice bs c \<longleftrightarrow> c \<in> set (leaves (variable_buffers bs) (\<lambda>_. 0))"
proof -
  have d: "distinct (map b_name (variable_buffers bs))"
    using assms by (simp add: variable_buffers_def distinct_map_filter)
  have inj: "b = b'" if "b \<in> set bs" "b' \<in> set bs" "b_name b = b_name b'" for b b'
    using assms that by (auto simp: distinct_map inj_on_def)
  show ?thesis
    unfolding leaves_iff [OF d]
  proof
    assume v: "valid_choice bs c"
    show "(\<forall>n. n \<notin> b_name ` set (variable_buffers bs) \<longrightarrow> c n = 0) \<and>
        (\<forall>b\<in>set (variable_buffers bs). c (b_name b) < length (core_divisions b))"
      using v by (force simp: valid_choice_def variable_buffers_def max_def split: if_splits)
  next
    assume r: "(\<forall>n. n \<notin> b_name ` set (variable_buffers bs) \<longrightarrow> c n = 0) \<and>
        (\<forall>b\<in>set (variable_buffers bs). c (b_name b) < length (core_divisions b))"
    have "c (b_name b) < max 1 (length (core_divisions b))" if b: "b \<in> set bs" for b
    proof (cases "1 < length (core_divisions b)")
      case True
      then show ?thesis using r b by (auto simp: variable_buffers_def)
    next
      case False
      then have "b_name b \<notin> b_name ` set (variable_buffers bs)"
        using inj b by (auto simp: variable_buffers_def)
      then show ?thesis using r by simp
    qed
    then show "valid_choice bs c" using r by (auto simp: valid_choice_def variable_buffers_def)
  qed
qed

text \<open>The winner scores at most as much as any choice.\<close>

lemma recurse_best:
  assumes "recurse score (variable_buffers bs) (\<lambda>_. 0) (None, \<lambda>_. 0) = Inr (t, c)" "distinct (map b_name bs)"
  shows "valid_choice bs c \<and> (\<exists>h. score c = Inr h \<and>
    (\<forall>c'. valid_choice bs c' \<longrightarrow> (\<exists>h'. score c' = Inr h' \<and> h \<le> h')))"
proof -
  note v = visit_fold [OF assms(1) [unfolded recurse_leaves]]
  have "valid_choice bs (\<lambda>_. 0)" by (simp add: valid_choice_def less_max_iff_disj)
  then have "(\<lambda>_. 0) \<in> set (leaves (variable_buffers bs) (\<lambda>_. 0))"
    using valid_choice_leaves [OF assms(2)] by blast
  with v obtain h where h: "t = Some h" by fastforce
  with v have c: "c \<in> set (leaves (variable_buffers bs) (\<lambda>_. 0))" "score c = Inr h" by auto
  have "\<exists>h'. score c' = Inr h' \<and> h \<le> h'" if "valid_choice bs c'" for c'
    using v that h valid_choice_leaves [OF assms(2), of c'] by fastforce
  with c valid_choice_leaves [OF assms(2)] show ?thesis by blast
qed

subsection \<open>The buffers handed to the inner solver\<close>

definition search_input :: "buffer list \<Rightarrow> bool" where
  "search_input bs \<longleftrightarrow> distinct (map b_name bs) \<and>
     (\<forall>b\<in>set bs. 0 \<le> b_size b \<and> (first_use_is_read b \<longrightarrow> in_place_parents b = []) \<and>
        (\<forall>cd\<in>set (core_divisions b). 0 < output_partition cd))"

lemma valid_parents_subset: "valid_parents bs c z ps = Inr vs \<Longrightarrow> set vs \<subseteq> set ps"
proof (induction bs c z ps arbitrary: vs rule: valid_parents.induct)
  case (2 bs chosen z p ps)
  show ?case
  proof (cases "by_name bs p")
    case None
    then show ?thesis using 2 by fastforce
  next
    case (Some b)
    then obtain q ws where "valid_parents bs chosen z ps = Inr ws" "per_core_size b (chosen p) = Inr q"
        "vs = (if z \<le> q then p # ws else ws)"
      using "2.prems" by auto
    then show ?thesis using "2.IH"(2) [OF Some] by auto
  qed
qed simp

lemma make_temp_buf_Inr:
  assumes "make_temp_buf bs c b = Inr t"
  shows "b_name t = b_name b" "per_core_size b (c (b_name b)) = Inr (b_size t)" "uses t = uses b"
    "first_use_is_read t = first_use_is_read b" "set (in_place_parents t) \<subseteq> set (in_place_parents b)"
    "residency_reason t = division_residency_reason bs c b" "core_divisions t = []" "post_init t = Inr ()"
    "start_time t = start_time b" "end_time t = end_time b"
proof -
  obtain sz ps where ps: "valid_parents bs c sz (in_place_parents b) = Inr ps" "per_core_size b (c (b_name b)) = Inr sz"
      and t: "t = plain_buffer (b_name b) sz (uses b) (first_use_is_read b) ps
        (division_residency_reason bs c b) (lifetime_start_override b) (lifetime_end_override b)"
      and ok: "post_init t = Inr ()"
    using assms by (auto simp: make_temp_buf_def valid_inplace_parents_def Let_def)
  show "b_name t = b_name b" "per_core_size b (c (b_name b)) = Inr (b_size t)" "uses t = uses b"
    "first_use_is_read t = first_use_is_read b" "set (in_place_parents t) \<subseteq> set (in_place_parents b)"
    "residency_reason t = division_residency_reason bs c b" "core_divisions t = []" "post_init t = Inr ()"
    using ps ok valid_parents_subset [OF ps(1)] by (simp_all add: t plain_buffer_def)
  have o: "uses t = uses b" "lifetime_start_override t = lifetime_start_override b"
      "lifetime_end_override t = lifetime_end_override b" by (simp_all add: t plain_buffer_def)
  show "start_time t = start_time b" "end_time t = end_time b"
    by (simp_all only: start_time_def end_time_def o)
qed

lemma per_core_size_nonneg:
  assumes "per_core_size b d = Inr r" "0 \<le> b_size b" "\<forall>cd\<in>set (core_divisions b). 0 < output_partition cd"
    and "list_all (\<lambda>cd. is_untiled (tiling cd)) (core_divisions b)"
  shows "0 \<le> r"
proof -
  let ?cd = "core_divisions b ! d"
  have d: "d < length (core_divisions b)" and r: "ceil_div (b_size b) (output_partition ?cd * output_tile_count (tiling ?cd)) = Inr r"
    using assms(1) by (auto simp: per_core_size_def Let_def split: if_splits)
  have "tiling ?cd = []" using assms(4) d by (simp add: list_all_length is_untiled_def)
  then have r': "ceil_div (b_size b) (output_partition ?cd) = Inr r" using r by (simp add: output_tile_count_def)
  have pos: "0 < output_partition ?cd" using assms(3) d by simp
  have "0 \<le> r * output_partition ?cd" using ceil_div_bounds(1) [OF r' pos] assms(2) by simp
  then show ?thesis using pos by (simp add: zero_le_mult_iff)
qed

lemma make_temp_bufs_ok:
  assumes "make_temp_bufs bs c = Inr tmp" "search_input bs"
    and "list_all (\<lambda>b. list_all (\<lambda>cd. is_untiled (tiling cd)) (core_divisions b)) bs"
  shows "length tmp = length bs" "i < length bs \<Longrightarrow> make_temp_buf bs c (bs ! i) = Inr (tmp ! i)"
    "map b_name tmp = map b_name bs" "placement_input tmp"
    "\<forall>b\<in>set tmp. first_use_is_read b \<longrightarrow> in_place_parents b = []"
proof -
  show len: "length tmp = length bs" using assms(1) by (auto simp: make_temp_bufs_def dest: mapE_length)
  have nth: "make_temp_buf bs c (bs ! i) = Inr (tmp ! i)" if "i < length bs" for i
    using assms(1) that by (simp add: make_temp_bufs_def mapE_Inr_nth)
  then show "i < length bs \<Longrightarrow> make_temp_buf bs c (bs ! i) = Inr (tmp ! i)" .
  show names: "map b_name tmp = map b_name bs"
    using len make_temp_buf_Inr(1) [OF nth] by (intro nth_equalityI) auto
  have "0 \<le> b_size (tmp ! i) \<and> post_init (tmp ! i) = Inr () \<and> core_divisions (tmp ! i) = []" if i: "i < length bs" for i
  proof -
    note f = make_temp_buf_Inr [OF nth [OF i]]
    have b: "bs ! i \<in> set bs" using i by simp
    have "0 \<le> b_size (tmp ! i)"
      using assms(2,3) b by (intro per_core_size_nonneg [OF f(2)]) (auto simp: search_input_def list_all_iff)
    with f show ?thesis by simp
  qed
  then show "placement_input tmp"
    using assms(2) len names by (auto simp: placement_input_def search_input_def in_set_conv_nth)
  have "in_place_parents (tmp ! i) = []" if i: "i < length bs" and fr: "first_use_is_read (tmp ! i)" for i
  proof -
    note f = make_temp_buf_Inr [OF nth [OF i]]
    have "in_place_parents (bs ! i) = []" using assms(2) i f(4) fr by (simp add: search_input_def)
    then show ?thesis using f(5) by simp
  qed
  then show "\<forall>b\<in>set tmp. first_use_is_read b \<longrightarrow> in_place_parents b = []"
    using len by (auto simp: in_set_conv_nth)
qed

lemma plan_layout_cases:
  assumes "plan_layout_and_core_divisions inner bs limit = Inr bs'"
  obtains t c tmp fa where
    "list_all (\<lambda>b. list_all (\<lambda>cd. is_untiled (tiling cd)) (core_divisions b)) bs"
    "recurse (score_leaf inner bs limit) (variable_buffers bs) (\<lambda>_. 0) (None, \<lambda>_. 0) = Inr (t, c)"
    "make_temp_bufs bs c = Inr tmp" "inner tmp limit 128 = Inr fa" "bs' = map (commit_choice c fa) bs"
  using assms by (auto simp: plan_layout_and_core_divisions_def)

subsection \<open>The wrapper over any placement solver\<close>

definition spilled_bytes :: "buffer list \<Rightarrow> int" where
  "spilled_bytes bs = sum_list (map b_size (filter (\<lambda>b. address b = None) bs))"

lemma buf_total_bytes_distinct:
  assumes "distinct (map b_name bs)"
  shows "buf_total_bytes bs = map (\<lambda>b. (b_name b, b_size b)) bs"
proof -
  have "by_name bs (b_name b) = Some b" if "b \<in> set bs" for b
    using by_name_distinct [OF assms] that by (metis in_set_conv_nth)
  then show ?thesis
    using assms by (auto simp: buf_total_bytes_def distinct_remdups_id)
qed

lemma hbm_bytes_committed:
  assumes names: "map b_name fa = map b_name bs" and dist: "distinct (map b_name bs)"
  shows "hbm_bytes bs fa = spilled_bytes (map (commit_choice c fa) bs)"
    and "i < length bs \<Longrightarrow> address (commit_choice c fa (bs ! i)) = address (fa ! i)"
proof -
  have len: "length fa = length bs" using names by (metis length_map)
  have at: "by_name fa (b_name (bs ! i)) = Some (fa ! i)" if "i < length bs" for i
    using by_name_distinct [of fa i] names dist that len by (metis nth_map)
  then show addr: "i < length bs \<Longrightarrow> address (commit_choice c fa (bs ! i)) = address (fa ! i)" for i
    by (simp add: commit_choice_def Let_def)
  have pin: "b_name b \<in> set (map b_name (filter (\<lambda>a. address a \<noteq> None) fa)) \<longleftrightarrow>
      address (commit_choice c fa b) \<noteq> None" if b: "b \<in> set bs" for b
  proof -
    obtain i where i: "i < length bs" "b = bs ! i" using b by (metis in_set_conv_nth)
    have same: "b_name (fa ! k) = b_name (bs ! k)" if "k < length bs" for k
      using names that len by (metis nth_map)
    have "b_name b \<in> set (map b_name (filter (\<lambda>a. address a \<noteq> None) fa)) \<longleftrightarrow> address (fa ! i) \<noteq> None"
    proof
      assume "b_name b \<in> set (map b_name (filter (\<lambda>a. address a \<noteq> None) fa))"
      then obtain a where a: "a \<in> set fa" "address a \<noteq> None" "b_name a = b_name b" by auto
      obtain k where k: "k < length bs" "a = fa ! k" using a(1) len by (metis in_set_conv_nth)
      have "k = i" by (rule name_inj [OF dist k(1) i(1)]) (use a(3) k(2) same [OF k(1)] i(2) in simp)
      with a(2) k(2) show "address (fa ! i) \<noteq> None" by simp
    next
      assume "address (fa ! i) \<noteq> None"
      then have "fa ! i \<in> set (filter (\<lambda>a. address a \<noteq> None) fa)" using i(1) len by simp
      then have "b_name (fa ! i) \<in> b_name ` set (filter (\<lambda>a. address a \<noteq> None) fa)" by (rule imageI)
      then show "b_name b \<in> set (map b_name (filter (\<lambda>a. address a \<noteq> None) fa))"
        using same [OF i(1)] i(2) by simp
    qed
    then show ?thesis using addr [OF i(1)] i(2) by simp
  qed
  have eq: "filter (\<lambda>b. b_name b \<notin> set (map b_name (filter (\<lambda>a. address a \<noteq> None) fa))) bs =
      filter (\<lambda>b. address (commit_choice c fa b) = None) bs"
    by (rule filter_cong [OF refl]) (simp only: pin not_not)
  have "hbm_bytes bs fa = sum_list (map b_size (filter (\<lambda>b. address (commit_choice c fa b) = None) bs))"
    unfolding hbm_bytes_def Let_def buf_total_bytes_distinct [OF dist] filter_map map_map comp_def
      prod.case snd_conv eq ..
  also have "\<dots> = spilled_bytes (map (commit_choice c fa) bs)"
    by (simp add: spilled_bytes_def filter_map comp_def) (simp add: commit_choice_def Let_def)
  finally show "hbm_bytes bs fa = spilled_bytes (map (commit_choice c fa) bs)" .
qed

locale division_inner = placement_solver +
  assumes admissible_plain: "placement_input tmp \<Longrightarrow>
    (\<forall>b\<in>set tmp. first_use_is_read b \<longrightarrow> in_place_parents b = []) \<Longrightarrow> admissible tmp"
begin

lemma final_alloc:
  assumes run: "plan_layout_and_core_divisions plan bs limit = Inr bs'" and inp: "search_input bs" and lim: "0 \<le> limit"
  obtains c tmp fa where "make_temp_bufs bs c = Inr tmp" "plan tmp limit 128 = Inr fa" "same_static tmp fa"
    "layout_ok limit fa" "length tmp = length bs" "\<And>i. i < length bs \<Longrightarrow> make_temp_buf bs c (bs ! i) = Inr (tmp ! i)"
    "map b_name fa = map b_name bs" "bs' = map (commit_choice c fa) bs"
    "\<And>i. i < length bs \<Longrightarrow> residency_reason (tmp ! i) \<noteq> None \<Longrightarrow> address (fa ! i) = None"
    "valid_choice bs c" "score_leaf plan bs limit c = Inr (spilled_bytes bs')"
    "\<And>c'. valid_choice bs c' \<Longrightarrow> \<exists>h. score_leaf plan bs limit c' = Inr h \<and> spilled_bytes bs' \<le> h"
  using run
proof (cases rule: plan_layout_cases)
  case (1 t c tmp fa)
  note tmp = make_temp_bufs_ok [OF 1(3) inp 1(1)]
  have adm: "admissible tmp" using tmp(4,5) by (rule admissible_plain)
  have st: "same_static tmp fa" and ok: "layout_ok limit fa"
    using plan_static [OF 1(4) adm _ lim] plan_ok [OF 1(4) adm _ lim] by simp_all
  have names: "map b_name fa = map b_name bs" using same_static_names [OF st] tmp(3) by simp
  have dist: "distinct (map b_name bs)" using inp by (simp add: search_input_def)
  have barred: "address (fa ! i) = None" if "i < length bs" "residency_reason (tmp ! i) \<noteq> None" for i
    using plan_excluded [OF 1(4) adm _ lim] that tmp(1) by simp
  have score: "score_leaf plan bs limit c = Inr (spilled_bytes bs')"
    using 1(3,4) hbm_bytes_committed(1) [OF names dist, of c] by (simp add: score_leaf_def 1(5))
  obtain h where "valid_choice bs c" "score_leaf plan bs limit c = Inr h"
      "\<forall>c'. valid_choice bs c' \<longrightarrow> (\<exists>h'. score_leaf plan bs limit c' = Inr h' \<and> h \<le> h')"
    using recurse_best [OF 1(2) dist] by blast
  with score have "valid_choice bs c"
      "\<And>c'. valid_choice bs c' \<Longrightarrow> \<exists>h. score_leaf plan bs limit c' = Inr h \<and> spilled_bytes bs' \<le> h" by auto
  then show thesis using that 1(3-5) st ok tmp(1,2) names barred score by blast
qed

lemma search_optimal:
  assumes "plan_layout_and_core_divisions plan bs limit = Inr bs'" "search_input bs" "0 \<le> limit"
  shows "\<exists>c. valid_choice bs c \<and> map chosen_division bs' = map (\<lambda>b. Some (c (b_name b))) bs \<and>
    score_leaf plan bs limit c = Inr (spilled_bytes bs') \<and>
    (\<forall>c'. valid_choice bs c' \<longrightarrow> (\<exists>h. score_leaf plan bs limit c' = Inr h \<and> spilled_bytes bs' \<le> h))"
proof (rule final_alloc [OF assms])
  fix c tmp fa
  assume "bs' = map (commit_choice c fa) bs" "valid_choice bs c" "score_leaf plan bs limit c = Inr (spilled_bytes bs')"
    "\<And>c'. valid_choice bs c' \<Longrightarrow> \<exists>h. score_leaf plan bs limit c' = Inr h \<and> spilled_bytes bs' \<le> h"
  then show ?thesis
    by (intro exI [of _ c]) (simp add: commit_choice_def Let_def)
qed

text \<open>A resident producer and its consumers were given matching divisions.\<close>

lemma resident_matches:
  assumes "plan_layout_and_core_divisions plan bs limit = Inr bs'" "search_input bs" "0 \<le> limit"
    and "i < length bs" "j < length bs" "address (bs' ! i) \<noteq> None" "b_name (bs ! i) \<in> set (cd_parents (bs ! j))"
  shows "\<exists>pairs p q. map_of (cd_parent_matches (bs ! j)) (b_name (bs ! i)) = Some pairs \<and> (p, q) \<in> set pairs \<and>
    chosen_division (bs' ! i) = Some p \<and> chosen_division (bs' ! j) = Some q"
proof (rule final_alloc [OF assms(1-3)])
  fix c tmp fa
  assume t: "make_temp_bufs bs c = Inr tmp" "map b_name fa = map b_name bs" "bs' = map (commit_choice c fa) bs"
    and nth: "\<And>i. i < length bs \<Longrightarrow> make_temp_buf bs c (bs ! i) = Inr (tmp ! i)"
    and barred: "\<And>i. i < length bs \<Longrightarrow> residency_reason (tmp ! i) \<noteq> None \<Longrightarrow> address (fa ! i) = None"
  have dist: "distinct (map b_name bs)" using assms(2) by (simp add: search_input_def)
  have "address (fa ! i) \<noteq> None"
    using assms(4,6) hbm_bytes_committed(2) [OF t(2) dist assms(4), of c] by (simp add: t(3))
  then have "division_residency_reason bs c (bs ! i) = None"
    using barred [OF assms(4)] make_temp_buf_Inr(6) [OF nth [OF assms(4)]]
    by (cases "division_residency_reason bs c (bs ! i)") simp_all
  then have all: "list_all (\<lambda>(child, pairs). list_ex (\<lambda>(pd, cd). pd = c (b_name (bs ! i)) \<and> cd = c (b_name child)) pairs)
      (children_by_parent bs (b_name (bs ! i)))"
    by (auto simp: division_residency_reason_def split: option.splits if_splits)
  let ?pairs = "case map_of (cd_parent_matches (bs ! j)) (b_name (bs ! i)) of Some pairs \<Rightarrow> pairs | None \<Rightarrow> []"
  have "by_name bs (b_name (bs ! i)) \<noteq> None" using by_name_distinct [OF dist assms(4)] by simp
  then have "(bs ! j, ?pairs) \<in> set (children_by_parent bs (b_name (bs ! i)))"
    using assms(5,7) by (force simp: children_by_parent_def)
  then have "list_ex (\<lambda>(pd, cd). pd = c (b_name (bs ! i)) \<and> cd = c (b_name (bs ! j))) ?pairs"
    using all by (auto simp: list_all_iff)
  then have "(c (b_name (bs ! i)), c (b_name (bs ! j))) \<in> set ?pairs" by (auto simp: list_ex_iff)
  then obtain pairs where "map_of (cd_parent_matches (bs ! j)) (b_name (bs ! i)) = Some pairs"
      "(c (b_name (bs ! i)), c (b_name (bs ! j))) \<in> set pairs"
    by (cases "map_of (cd_parent_matches (bs ! j)) (b_name (bs ! i))") simp_all
  then show ?thesis
    using assms(4,5) by (simp add: t(3) commit_choice_def Let_def)
qed

text \<open>The committed addresses are a layout of the per-core footprints of the chosen divisions.\<close>

lemma committed_layout:
  assumes "plan_layout_and_core_divisions plan bs limit = Inr bs'" "search_input bs" "0 \<le> limit"
    and "i < length bs" "j < length bs" "i \<noteq> j" "overlaps_in_time (bs ! i) (bs ! j)"
    and "address (bs' ! i) = Some x" "address (bs' ! j) = Some y"
    and "chosen_division (bs' ! i) = Some p" "per_core_size (bs ! i) p = Inr zi"
    and "chosen_division (bs' ! j) = Some q" "per_core_size (bs ! j) q = Inr zj"
  shows "0 \<le> x \<and> x + zi \<le> limit \<and> ({x..<x + zi} \<inter> {y..<y + zj} = {} \<or> x = y \<and> in_place_pair (bs ! i) (bs ! j))"
proof (rule final_alloc [OF assms(1-3)])
  fix c tmp fa
  assume t: "make_temp_bufs bs c = Inr tmp" "map b_name fa = map b_name bs" "bs' = map (commit_choice c fa) bs"
    and nth: "\<And>i. i < length bs \<Longrightarrow> make_temp_buf bs c (bs ! i) = Inr (tmp ! i)"
    and st: "same_static tmp fa" and lay: "layout_ok limit fa" and len: "length tmp = length bs"
  have dist: "distinct (map b_name bs)" using assms(2) by (simp add: search_input_def)
  have addr: "address (fa ! i) = Some x" "address (fa ! j) = Some y"
    using assms(4,5,8,9) hbm_bytes_committed(2) [OF t(2) dist, of _ c] by (simp_all add: t(3))
  have fl: "length fa = length bs" using same_static_length [OF st] len by simp
  have f: "b_size (fa ! k) = b_size (tmp ! k)" "start_time (fa ! k) = start_time (bs ! k)" "end_time (fa ! k) = end_time (bs ! k)"
      "b_name (fa ! k) = b_name (bs ! k)" "set (in_place_parents (fa ! k)) \<subseteq> set (in_place_parents (bs ! k))"
    if "k < length bs" for k
    using static_eqD [OF same_static_nth [OF st]] make_temp_buf_Inr [OF nth [OF that]] that len by simp_all
  have z: "b_size (fa ! i) = zi" "b_size (fa ! j) = zj"
    using assms(4,5,10-13) make_temp_buf_Inr(2) [OF nth [OF assms(4)]] make_temp_buf_Inr(2) [OF nth [OF assms(5)]]
      f(1) by (simp_all add: t(3) commit_choice_def Let_def)
  have "compatible (fa ! i) (fa ! j)" "placed_in_bounds limit (fa ! i)"
    using lay assms(4-6) fl by (simp_all add: layout_ok_def)
  moreover have "overlaps_in_time (fa ! i) (fa ! j)"
    using assms(7) f(2,3) [OF assms(4)] f(2,3) [OF assms(5)] by (simp add: overlaps_in_time_def)
  ultimately have b: "0 \<le> x" "x + zi \<le> limit"
      and d: "disjoint_iv x (x + zi) y (y + zj) \<or> x = y \<and> in_place_pair (fa ! i) (fa ! j)"
    using addr z by (auto simp: compatible_def placed_in_bounds_def)
  have "in_place_pair (bs ! i) (bs ! j)" if "in_place_pair (fa ! i) (fa ! j)"
    using that f(4,5) [OF assms(4)] f(4,5) [OF assms(5)] by (auto simp: in_place_pair_def)
  with b d show ?thesis using disjoint_iv_no_common by blast
qed

end

interpretation over_first_fit: division_inner "gap_plan pick_gap_first" placement_input
  by unfold_locales simp

interpretation over_best_fit: division_inner "gap_plan pick_gap_best" placement_input
  by unfold_locales simp

interpretation over_greedy: division_inner greedy_plan greedy_input
  by unfold_locales (simp add: greedy_input_def)

subsection \<open>Properties\<close>

text \<open>A producer and a consumer with two divisions each; only the second of each matches.\<close>

definition demo_division :: "int \<Rightarrow> CoreDivision" where
  "demo_division k = \<lparr>splits = [(''m'', k)], reduction_syms = [], tiling = [], tile_splits = []\<rparr>"

definition demo_search :: "buffer list" where
  "demo_search =
     [demo_buffer ''p'' 8 [0, 1] []\<lparr>core_divisions := [demo_division 1, demo_division 2]\<rparr>,
      demo_buffer ''c'' 8 [1, 2] []\<lparr>core_divisions := [demo_division 1, demo_division 4],
        cd_parents := [''p''], cd_parent_matches := [(''p'', [(1, 1)])]\<rparr>]"

definition demo_view :: "buffer \<Rightarrow> nat option \<times> int option" where
  "demo_view b = (chosen_division b, address b)"

lemma demo_search_input: "search_input demo_search"
  by (simp add: search_input_def demo_search_def demo_buffer_def demo_division_def output_partition_def output_splits_def)

lemma demo_search_run:
  "map_sum id (map demo_view) (plan_layout_and_core_divisions greedy_plan demo_search 200) =
     Inr [(Some 1, Some 0), (Some 1, Some 128)]"
  by code_simp

lemma demo_search_result:
  obtains bs' where "plan_layout_and_core_divisions greedy_plan demo_search 200 = Inr bs'"
    "map demo_view bs' = [(Some 1, Some 0), (Some 1, Some 128)]"
  using map_sum_InrD [OF demo_search_run] by metis

lemma demo_search_buffers:
  "plan_layout_and_core_divisions greedy_plan demo_search 200 = Inr bs' \<Longrightarrow>
   map demo_view bs' = [(Some 1, Some 0), (Some 1, Some 128)] \<Longrightarrow>
   chosen_division (bs' ! 0) = Some 1 \<and> address (bs' ! 0) = Some 0 \<and>
   chosen_division (bs' ! 1) = Some 1 \<and> address (bs' ! 1) = Some 128"
  by (auto simp: demo_view_def map_eq_Cons_conv)

text \<open>C14: Over the first-fit, best-fit or greedy solver, the exhaustive search commits a choice of
  candidate divisions whose plan leaves no more bytes in HBM than the plan of any other choice:
  the bytes of the buffers it leaves without an address are the least score over the whole
  cross product.\<close>

theorem exhaustive_search_minimises_hbm_bytes:
  assumes "inner \<in> {gap_plan pick_gap_first, gap_plan pick_gap_best, greedy_plan}"
    and "plan_layout_and_core_divisions inner bs limit = Inr bs'" "search_input bs" "0 \<le> limit"
  shows "\<exists>c. valid_choice bs c \<and> map chosen_division bs' = map (\<lambda>b. Some (c (b_name b))) bs \<and>
    score_leaf inner bs limit c = Inr (spilled_bytes bs') \<and>
    (\<forall>c'. valid_choice bs c' \<longrightarrow> (\<exists>h. score_leaf inner bs limit c' = Inr h \<and> spilled_bytes bs' \<le> h))"
  using assms over_first_fit.search_optimal over_best_fit.search_optimal over_greedy.search_optimal by blast

theorem exhaustive_search_minimises_hbm_bytes_witness:
  "\<exists>bs' c. plan_layout_and_core_divisions greedy_plan demo_search 200 = Inr bs' \<and>
     map chosen_division bs' = map (\<lambda>b. Some (c (b_name b))) demo_search \<and>
     score_leaf greedy_plan demo_search 200 c = Inr (spilled_bytes bs')"
proof (rule demo_search_result)
  fix bs' assume run: "plan_layout_and_core_divisions greedy_plan demo_search 200 = Inr bs'"
  from exhaustive_search_minimises_hbm_bytes [OF _ run demo_search_input] run show ?thesis by auto
qed

text \<open>A buffer the exhaustive search keeps resident was cut the way every consumer of it reads it:
  the chosen divisions of producer and consumer are a pair the consumer lists as matching.\<close>

theorem exhaustive_resident_producer_matches:
  assumes "inner \<in> {gap_plan pick_gap_first, gap_plan pick_gap_best, greedy_plan}"
    and "plan_layout_and_core_divisions inner bs limit = Inr bs'" "search_input bs" "0 \<le> limit"
    and "i < length bs" "j < length bs" "address (bs' ! i) \<noteq> None" "b_name (bs ! i) \<in> set (cd_parents (bs ! j))"
  shows "\<exists>pairs p q. map_of (cd_parent_matches (bs ! j)) (b_name (bs ! i)) = Some pairs \<and> (p, q) \<in> set pairs \<and>
    chosen_division (bs' ! i) = Some p \<and> chosen_division (bs' ! j) = Some q"
  using assms over_first_fit.resident_matches over_best_fit.resident_matches over_greedy.resident_matches by blast

theorem exhaustive_resident_producer_matches_witness:
  "\<exists>bs' p q. plan_layout_and_core_divisions greedy_plan demo_search 200 = Inr bs' \<and>
     address (bs' ! 0) = Some 0 \<and> (p, q) \<in> set [(1, 1)] \<and>
     chosen_division (bs' ! 0) = Some p \<and> chosen_division (bs' ! 1) = Some q"
proof (rule demo_search_result)
  fix bs' assume run: "plan_layout_and_core_divisions greedy_plan demo_search 200 = Inr bs'"
    and view: "map demo_view bs' = [(Some 1, Some 0), (Some 1, Some 128)]"
  have a: "address (bs' ! 0) = Some 0" using demo_search_buffers [OF run view] by simp
  have d: "0 < length demo_search" "1 < length demo_search" "b_name (demo_search ! 0) \<in> set (cd_parents (demo_search ! 1))"
      "map_of (cd_parent_matches (demo_search ! 1)) (b_name (demo_search ! 0)) = Some [(1, 1)]"
    by (simp_all add: demo_search_def demo_buffer_def)
  from exhaustive_resident_producer_matches [OF _ run demo_search_input _ d(1,2) _ d(3)] a d(4) run
  show ?thesis by auto
qed

text \<open>The addresses the exhaustive search commits are a layout of the per-core footprints of the
  committed divisions: two buffers live at the same time get disjoint byte ranges inside the
  scratchpad, or one takes over the other's address in place.\<close>

theorem exhaustive_layout_of_chosen_divisions:
  assumes "inner \<in> {gap_plan pick_gap_first, gap_plan pick_gap_best, greedy_plan}"
    and "plan_layout_and_core_divisions inner bs limit = Inr bs'" "search_input bs" "0 \<le> limit"
    and "i < length bs" "j < length bs" "i \<noteq> j" "overlaps_in_time (bs ! i) (bs ! j)"
    and "address (bs' ! i) = Some x" "address (bs' ! j) = Some y"
    and "chosen_division (bs' ! i) = Some p" "per_core_size (bs ! i) p = Inr zi"
    and "chosen_division (bs' ! j) = Some q" "per_core_size (bs ! j) q = Inr zj"
  shows "0 \<le> x \<and> x + zi \<le> limit \<and> ({x..<x + zi} \<inter> {y..<y + zj} = {} \<or> x = y \<and> in_place_pair (bs ! i) (bs ! j))"
proof -
  consider "inner = gap_plan pick_gap_first" | "inner = gap_plan pick_gap_best" | "inner = greedy_plan"
    using assms(1) by blast
  then show ?thesis
  proof cases
    case 1
    show ?thesis by (rule over_first_fit.committed_layout [OF assms(2) [unfolded 1] assms(3-14)])
  next
    case 2
    show ?thesis by (rule over_best_fit.committed_layout [OF assms(2) [unfolded 2] assms(3-14)])
  next
    case 3
    show ?thesis by (rule over_greedy.committed_layout [OF assms(2) [unfolded 3] assms(3-14)])
  qed
qed

theorem exhaustive_layout_of_chosen_divisions_witness:
  "\<exists>bs'. plan_layout_and_core_divisions greedy_plan demo_search 200 = Inr bs' \<and>
     address (bs' ! 0) = Some 0 \<and> address (bs' ! 1) = Some 128 \<and> (0::int) + 4 \<le> 200"
proof (rule demo_search_result)
  fix bs' assume run: "plan_layout_and_core_divisions greedy_plan demo_search 200 = Inr bs'"
    and view: "map demo_view bs' = [(Some 1, Some 0), (Some 1, Some 128)]"
  have s: "per_core_size (demo_search ! 0) 1 = Inr 4" "per_core_size (demo_search ! 1) 1 = Inr 2"
      "overlaps_in_time (demo_search ! 0) (demo_search ! 1)" "0 < length demo_search" "1 < length demo_search"
    by code_simp+
  note v = demo_search_buffers [OF run view]
  have "0 \<le> (0::int) \<and> (0::int) + 4 \<le> 200 \<and> ({0..<0 + 4} \<inter> {128..<128 + 2} = ({} :: int set) \<or>
      (0::int) = 128 \<and> in_place_pair (demo_search ! 0) (demo_search ! 1))"
    by (rule exhaustive_layout_of_chosen_divisions [OF _ run demo_search_input _ s(4,5) _ s(3), where p = 1 and q = 1])
      (use v s in simp_all)
  with run v show ?thesis by blast
qed

end
