(* ===== verification/Liveness.thy ===== *)
theory Liveness
  imports Plan_Solver
begin

text \<open>
  Buffer lifetimes (\<open>torch_spyre/_inductor/scratchpad/utils.py\<close>): \<open>calculate_liveness\<close> and the
  counted-loop overrides.

  An operation is what the analyses read of it: whether it is an extern kernel, its
  \<open>loop_info.loop_group_id\<close> (empty without one), and the buffer names of the dependencies
  \<open>op_read_writes\<close> reports.  The dictionaries are maps; a loop over the operations is a left fold
  over the numbered list.
\<close>

record operation =
  is_extern :: bool
  loop_group_id :: "nat list"
  op_reads :: "string list"
  op_writes :: "string list"

record op_graph =
  graph_input_names :: "string list"
  operations :: "operation list"

definition accesses :: "operation \<Rightarrow> string list" where
  "accesses op = op_reads op @ op_writes op"

subsection \<open>Liveness\<close>

definition touch :: "nat \<Rightarrow> (string \<rightharpoonup> nat list) \<Rightarrow> string \<Rightarrow> (string \<rightharpoonup> nat list)" where
  "touch i liveness buf_name =
     (let us = (case liveness buf_name of Some us \<Rightarrow> us | None \<Rightarrow> [])
      in liveness(buf_name \<mapsto> (if us = [] \<or> last us \<noteq> i then us @ [i] else us)))"

definition calculate_liveness :: "op_graph \<Rightarrow> (string \<rightharpoonup> nat list)" where
  "calculate_liveness g =
     foldl (\<lambda>liveness (i, op). foldl (touch i) liveness (accesses op))
       (foldl (\<lambda>m n. m(n \<mapsto> [])) Map.empty (graph_input_names g))
       (List.enumerate 0 (operations g))"

subsection \<open>Counted loops\<close>

definition counted_loop_group_path :: "operation \<Rightarrow> nat list" where
  "counted_loop_group_path op = (if is_extern op then [] else loop_group_id op)"

definition counted_loop_entry :: "operation list \<Rightarrow> operation \<Rightarrow> operation option" where
  "counted_loop_entry ops op =
     (let outer = take 1 (counted_loop_group_path op)
      in if outer = [] then None
         else find (\<lambda>q. take 1 (counted_loop_group_path q) = outer) ops)"

record loop_scan =
  loop_start :: "nat list \<rightharpoonup> nat"
  loop_end :: "nat list \<rightharpoonup> nat"
  birth_group :: "string \<rightharpoonup> nat list"
  first_access :: "string \<rightharpoonup> nat"
  last_access :: "string \<rightharpoonup> nat"

definition setdefault :: "('k \<rightharpoonup> 'v) \<Rightarrow> 'k \<Rightarrow> 'v \<Rightarrow> ('k \<rightharpoonup> 'v)" where
  "setdefault m k v = (case m k of None \<Rightarrow> m(k \<mapsto> v) | Some _ \<Rightarrow> m)"

definition enter_loop :: "nat \<Rightarrow> loop_scan \<Rightarrow> nat list \<Rightarrow> loop_scan" where
  "enter_loop i s loop =
     s\<lparr>loop_start := setdefault (loop_start s) loop i, loop_end := (loop_end s)(loop \<mapsto> i)\<rparr>"

definition note_access :: "nat list \<Rightarrow> nat \<Rightarrow> loop_scan \<Rightarrow> string \<Rightarrow> loop_scan" where
  "note_access born i s n =
     s\<lparr>birth_group := setdefault (birth_group s) n born, first_access := setdefault (first_access s) n i,
       last_access := (last_access s)(n \<mapsto> i)\<rparr>"

definition scan_op :: "loop_scan \<Rightarrow> nat \<times> operation \<Rightarrow> loop_scan" where
  "scan_op s x =
     (case x of (i, op) \<Rightarrow>
        let path = counted_loop_group_path op;
            s1 = foldl (enter_loop i) s (map (\<lambda>depth. take depth path) [1..<length path + 1]);
            s2 = foldl (note_access path i) s1 (op_writes op)
        in foldl (note_access [] i) s2 (op_reads op))"

definition scan_start :: "string list \<Rightarrow> loop_scan" where
  "scan_start inputs = \<lparr>loop_start = Map.empty, loop_end = Map.empty,
     birth_group = foldl (\<lambda>m n. m(n \<mapsto> [])) Map.empty inputs,
     first_access = Map.empty, last_access = Map.empty\<rparr>"

definition scan_ops :: "op_graph \<Rightarrow> loop_scan" where
  "scan_ops g = foldl scan_op (scan_start (graph_input_names g)) (List.enumerate 0 (operations g))"

fun common_prefix :: "nat list \<Rightarrow> nat list \<Rightarrow> nat" where
  "common_prefix (p # ps) (c # cs) = (if p = c then Suc (common_prefix ps cs) else 0)"
| "common_prefix _ _ = 0"

record loop_overrides =
  start_overrides :: "string \<rightharpoonup> nat"
  end_overrides :: "string \<rightharpoonup> nat"

definition get :: "('k \<rightharpoonup> 'v) \<Rightarrow> 'k \<Rightarrow> 'v \<Rightarrow> 'v" where
  "get m k d = (case m k of Some v \<Rightarrow> v | None \<Rightarrow> d)"

text \<open>\<open>loop_start[enclosing_loop]\<close> raises \<open>KeyError\<close> for an unknown loop.\<close>

definition widen_read :: "loop_scan \<Rightarrow> nat \<Rightarrow> nat list \<Rightarrow> string \<Rightarrow> loop_overrides \<Rightarrow> loop_overrides res" where
  "widen_read s i consumer_path n ov =
     (let producer_path = get (birth_group s) n [];
          common = common_prefix producer_path consumer_path
      in if common = length consumer_path then Inr ov
         else
           let enclosing_loop = take (common + 1) consumer_path
           in case (loop_start s enclosing_loop, loop_end s enclosing_loop) of
                (Some st, Some en) \<Rightarrow>
                  (let ov1 = (if st < get (first_access s) n i
                              then ov\<lparr>start_overrides := (start_overrides ov)(n \<mapsto>
                                     min (get (start_overrides ov) n st) st)\<rparr>
                              else ov)
                   in Inr (if en + 1 > get (last_access s) n i + 1
                           then ov1\<lparr>end_overrides := (end_overrides ov1)(n \<mapsto>
                                  max (get (end_overrides ov1) n 0) (en + 1))\<rparr>
                           else ov1))
              | _ \<Rightarrow> Inl KeyError)"

definition widen_op :: "loop_scan \<Rightarrow> nat \<times> operation \<Rightarrow> loop_overrides \<Rightarrow> loop_overrides res" where
  "widen_op s x ov =
     (case x of (i, op) \<Rightarrow>
        let consumer_path = counted_loop_group_path op
        in if consumer_path = [] then Inr ov
           else foldE (widen_read s i consumer_path) (op_reads op) ov)"

definition counted_loop_lifetime_overrides :: "op_graph \<Rightarrow> loop_overrides res" where
  "counted_loop_lifetime_overrides g =
     foldE (widen_op (scan_ops g)) (List.enumerate 0 (operations g))
       \<lparr>start_overrides = Map.empty, end_overrides = Map.empty\<rparr>"

definition counted_loop_lifetime_end_overrides :: "op_graph \<Rightarrow> (string \<rightharpoonup> nat) res" where
  "counted_loop_lifetime_end_overrides g =
     bindE (counted_loop_lifetime_overrides g) (\<lambda>ov. Inr (end_overrides ov))"

subsection \<open>Liveness lists the accessing operations\<close>

definition accessed_at :: "operation list \<Rightarrow> string \<Rightarrow> nat list" where
  "accessed_at ops n = filter (\<lambda>i. n \<in> set (accesses (ops ! i))) [0..<length ops]"

lemma accessed_at_iff: "i \<in> set (accessed_at ops n) \<longleftrightarrow> i < length ops \<and> n \<in> set (accesses (ops ! i))"
  by (auto simp: accessed_at_def)

lemma accessed_at_snoc:
  "accessed_at (ops @ [op]) n = accessed_at ops n @ (if n \<in> set (accesses op) then [length ops] else [])"
  by (auto simp: accessed_at_def nth_append intro!: filter_cong)

lemma accessed_at_sorted: "sorted_wrt (<) (accessed_at ops n)"
  unfolding accessed_at_def by (intro sorted_wrt_filter) simp

lemma foldl_fresh_keys: "foldl (\<lambda>m n. m(n \<mapsto> c)) m ns k = (if k \<in> set ns then Some c else m k)"
  by (induction ns arbitrary: m) auto

lemma touch_apply:
  "touch k m x n = (if n = x then Some (if get m x [] = [] \<or> last (get m x []) \<noteq> k
     then get m x [] @ [k] else get m x []) else m n)"
  unfolding touch_def get_def Let_def by simp

lemma touch_all:
  assumes "\<forall>n us. m n = Some us \<longrightarrow> k \<notin> set us"
  shows "foldl (touch k) m ns n = (if n \<in> set ns then Some (get m n [] @ [k]) else m n)"
proof (induction ns arbitrary: n rule: rev_induct)
  case (snoc x ns)
  have "last (get m x []) \<noteq> k" if "get m x [] \<noteq> []"
    using assms that by (auto simp: get_def split: option.splits) (metis last_in_set)
  moreover have "get (foldl (touch k) m ns) x [] = (if x \<in> set ns then get m x [] @ [k] else get m x [])"
    by (simp add: get_def [of "foldl (touch k) m ns"] snoc.IH) (simp add: get_def)
  ultimately show ?case
    using snoc.IH [of n] touch_apply [of k "foldl (touch k) m ns" x n] by auto
qed simp

lemma calculate_liveness_eq:
  "calculate_liveness g n =
     (if n \<in> set (graph_input_names g) \<or> accessed_at (operations g) n \<noteq> []
      then Some (accessed_at (operations g) n) else None)"
proof -
  define step where "step = (\<lambda>liveness (i, op). foldl (touch i) liveness (accesses op))"
  define m0 where "m0 = foldl (\<lambda>m n. m(n \<mapsto> ([] :: nat list))) Map.empty (graph_input_names g)"
  have "foldl step m0 (List.enumerate 0 ops) n =
      (if n \<in> set (graph_input_names g) \<or> accessed_at ops n \<noteq> [] then Some (accessed_at ops n) else None)" for ops n
  proof (induction ops arbitrary: n rule: rev_induct)
    case Nil
    show ?case by (simp add: m0_def foldl_fresh_keys accessed_at_def)
  next
    case (snoc op ops)
    let ?m = "foldl step m0 (List.enumerate 0 ops)"
    have fresh: "\<forall>n us. ?m n = Some us \<longrightarrow> length ops \<notin> set us"
      using snoc.IH by (auto simp: accessed_at_iff split: if_splits)
    have "foldl step m0 (List.enumerate 0 (ops @ [op])) n = foldl (touch (length ops)) ?m (accesses op) n"
      by (simp add: enumerate_append_eq step_def)
    also have "\<dots> = (if n \<in> set (accesses op) then Some (get ?m n [] @ [length ops]) else ?m n)"
      by (rule touch_all [OF fresh])
    finally show ?case using snoc.IH [of n] by (auto simp: accessed_at_snoc get_def)
  qed
  then show ?thesis by (simp add: calculate_liveness_def step_def m0_def)
qed

subsection \<open>What the scan records\<close>

definition in_loop :: "nat list \<Rightarrow> operation \<Rightarrow> bool" where
  "in_loop loop op \<longleftrightarrow> loop \<noteq> [] \<and> take (length loop) (counted_loop_group_path op) = loop"

lemma setdefault_apply: "setdefault m k v x = (if x = k \<and> m k = None then Some v else m x)"
  by (auto simp: setdefault_def split: option.split)

lemma enter_loops:
  "loop_start (foldl (enter_loop i) s ls) l = (if l \<in> set ls \<and> loop_start s l = None then Some i else loop_start s l)"
  "loop_end (foldl (enter_loop i) s ls) l = (if l \<in> set ls then Some i else loop_end s l)"
  "first_access (foldl (enter_loop i) s ls) = first_access s" "last_access (foldl (enter_loop i) s ls) = last_access s"
  by (induction ls arbitrary: s) (auto simp: enter_loop_def setdefault_apply)

lemma note_accesses:
  "first_access (foldl (note_access b i) s ns) n =
     (if n \<in> set ns \<and> first_access s n = None then Some i else first_access s n)"
  "last_access (foldl (note_access b i) s ns) n = (if n \<in> set ns then Some i else last_access s n)"
  "loop_start (foldl (note_access b i) s ns) = loop_start s" "loop_end (foldl (note_access b i) s ns) = loop_end s"
  by (induction ns arbitrary: s) (auto simp: note_access_def setdefault_apply)

lemma loops_of_path:
  "l \<in> set (map (\<lambda>depth. take depth path) [1..<length path + 1]) \<longleftrightarrow> l \<noteq> [] \<and> take (length l) path = l"
proof
  assume "l \<noteq> [] \<and> take (length l) path = l"
  moreover from this have "length l \<le> length path" by (metis length_take min.cobounded1)
  ultimately show "l \<in> set (map (\<lambda>depth. take depth path) [1..<length path + 1])"
    by (auto simp: image_iff intro!: bexI [of _ "length l"] simp: Suc_le_eq)
qed auto

lemma scan_op_apply:
  "loop_start (scan_op s (i, op)) l = (if in_loop l op \<and> loop_start s l = None then Some i else loop_start s l)"
  "loop_end (scan_op s (i, op)) l = (if in_loop l op then Some i else loop_end s l)"
  "first_access (scan_op s (i, op)) n =
     (if n \<in> set (accesses op) \<and> first_access s n = None then Some i else first_access s n)"
  "last_access (scan_op s (i, op)) n = (if n \<in> set (accesses op) then Some i else last_access s n)"
  unfolding scan_op_def Let_def prod.case in_loop_def accesses_def
  by (simp_all only: note_accesses enter_loops loops_of_path) auto

text \<open>The least and the greatest index with a property, as a map built by a left-to-right scan.\<close>

definition least_at :: "(operation \<Rightarrow> bool) \<Rightarrow> operation list \<Rightarrow> nat option \<Rightarrow> bool" where
  "least_at p ops r \<longleftrightarrow> (case r of
      None \<Rightarrow> \<forall>k<length ops. \<not> p (ops ! k)
    | Some i \<Rightarrow> i < length ops \<and> p (ops ! i) \<and> (\<forall>k<length ops. p (ops ! k) \<longrightarrow> i \<le> k))"

definition greatest_at :: "(operation \<Rightarrow> bool) \<Rightarrow> operation list \<Rightarrow> nat option \<Rightarrow> bool" where
  "greatest_at p ops r \<longleftrightarrow> (case r of
      None \<Rightarrow> \<forall>k<length ops. \<not> p (ops ! k)
    | Some i \<Rightarrow> i < length ops \<and> p (ops ! i) \<and> (\<forall>k<length ops. p (ops ! k) \<longrightarrow> k \<le> i))"

lemma least_at_snoc:
  "least_at p ops r \<Longrightarrow> least_at p (ops @ [op]) (if p op \<and> r = None then Some (length ops) else r)"
  by (auto simp: least_at_def nth_append less_Suc_eq split: option.splits)

lemma greatest_at_snoc:
  "greatest_at p ops r \<Longrightarrow> greatest_at p (ops @ [op]) (if p op then Some (length ops) else r)"
  by (auto simp: greatest_at_def nth_append less_Suc_eq split: option.splits)

lemma scan_ops_spec:
  "least_at (in_loop l) (operations g) (loop_start (scan_ops g) l)"
  "greatest_at (in_loop l) (operations g) (loop_end (scan_ops g) l)"
  "least_at (\<lambda>op. n \<in> set (accesses op)) (operations g) (first_access (scan_ops g) n)"
  "greatest_at (\<lambda>op. n \<in> set (accesses op)) (operations g) (last_access (scan_ops g) n)"
proof -
  have "least_at (in_loop l) ops (loop_start (foldl scan_op (scan_start ins) (List.enumerate 0 ops)) l) \<and>
      greatest_at (in_loop l) ops (loop_end (foldl scan_op (scan_start ins) (List.enumerate 0 ops)) l) \<and>
      least_at (\<lambda>op. n \<in> set (accesses op)) ops (first_access (foldl scan_op (scan_start ins) (List.enumerate 0 ops)) n) \<and>
      greatest_at (\<lambda>op. n \<in> set (accesses op)) ops (last_access (foldl scan_op (scan_start ins) (List.enumerate 0 ops)) n)"
    for ops ins
  proof (induction ops rule: rev_induct)
    case Nil
    show ?case by (simp add: scan_start_def least_at_def greatest_at_def)
  next
    case (snoc op ops)
    let ?s = "foldl scan_op (scan_start ins) (List.enumerate 0 ops)"
    have split: "foldl scan_op (scan_start ins) (List.enumerate 0 (ops @ [op])) = scan_op ?s (length ops, op)"
      by (simp add: enumerate_append_eq)
    show ?case
      unfolding split scan_op_apply using snoc.IH
        least_at_snoc [of "in_loop l" ops "loop_start ?s l" op] greatest_at_snoc [of "in_loop l" ops "loop_end ?s l" op]
        least_at_snoc [of "\<lambda>op. n \<in> set (accesses op)" ops "first_access ?s n" op]
        greatest_at_snoc [of "\<lambda>op. n \<in> set (accesses op)" ops "last_access ?s n" op]
      by blast
  qed
  then show "least_at (in_loop l) (operations g) (loop_start (scan_ops g) l)"
    "greatest_at (in_loop l) (operations g) (loop_end (scan_ops g) l)"
    "least_at (\<lambda>op. n \<in> set (accesses op)) (operations g) (first_access (scan_ops g) n)"
    "greatest_at (\<lambda>op. n \<in> set (accesses op)) (operations g) (last_access (scan_ops g) n)"
    by (simp_all add: scan_ops_def)
qed

subsection \<open>What the overrides guarantee\<close>

definition ov_ok :: "loop_scan \<Rightarrow> loop_overrides \<Rightarrow> bool" where
  "ov_ok s ov \<longleftrightarrow>
     (\<forall>n v. start_overrides ov n = Some v \<longrightarrow> (\<exists>f. first_access s n = Some f \<and> v \<le> f)) \<and>
     (\<forall>n v. end_overrides ov n = Some v \<longrightarrow> (\<exists>l. last_access s n = Some l \<and> l + 1 \<le> v))"

definition ov_mono :: "loop_overrides \<Rightarrow> loop_overrides \<Rightarrow> bool" where
  "ov_mono ov ov' \<longleftrightarrow>
     (\<forall>n v. start_overrides ov n = Some v \<longrightarrow> (\<exists>v'. start_overrides ov' n = Some v' \<and> v' \<le> v)) \<and>
     (\<forall>n v. end_overrides ov n = Some v \<longrightarrow> (\<exists>v'. end_overrides ov' n = Some v' \<and> v \<le> v'))"

definition enclosing :: "loop_scan \<Rightarrow> nat list \<Rightarrow> string \<Rightarrow> nat list" where
  "enclosing s path n = take (common_prefix (get (birth_group s) n []) path + 1) path"

definition crosses :: "loop_scan \<Rightarrow> nat list \<Rightarrow> string \<Rightarrow> bool" where
  "crosses s path n \<longleftrightarrow> common_prefix (get (birth_group s) n []) path < length path"

definition covers :: "loop_scan \<Rightarrow> nat list \<Rightarrow> string \<Rightarrow> loop_overrides \<Rightarrow> bool" where
  "covers s path n ov \<longleftrightarrow> (crosses s path n \<longrightarrow>
     (\<exists>st en. loop_start s (enclosing s path n) = Some st \<and> loop_end s (enclosing s path n) = Some en \<and>
        (\<forall>f. first_access s n = Some f \<longrightarrow> st < f \<longrightarrow> (\<exists>v. start_overrides ov n = Some v \<and> v \<le> st)) \<and>
        (\<forall>l. last_access s n = Some l \<longrightarrow> l < en \<longrightarrow> (\<exists>v. end_overrides ov n = Some v \<and> en + 1 \<le> v))))"

lemma common_prefix_le: "common_prefix ps cs \<le> length cs"
  by (induction ps cs rule: common_prefix.induct) auto

lemma ov_mono_refl: "ov_mono ov ov"
  by (auto simp: ov_mono_def)

lemma ov_mono_trans: "ov_mono a b \<Longrightarrow> ov_mono b c \<Longrightarrow> ov_mono a c"
  unfolding ov_mono_def by (meson order_trans)

lemma ov_monoD:
  assumes "ov_mono ov ov'"
  shows "start_overrides ov n = Some v \<Longrightarrow> v \<le> b \<Longrightarrow> \<exists>v'. start_overrides ov' n = Some v' \<and> v' \<le> b"
    and "end_overrides ov n = Some v \<Longrightarrow> b \<le> v \<Longrightarrow> \<exists>v'. end_overrides ov' n = Some v' \<and> b \<le> v'"
  using assms by (fastforce simp: ov_mono_def)+

lemma covers_mono:
  assumes c: "covers s path n ov" and m: "ov_mono ov ov'"
  shows "covers s path n ov'"
  unfolding covers_def
proof
  assume "crosses s path n"
  then obtain st en where l: "loop_start s (enclosing s path n) = Some st" "loop_end s (enclosing s path n) = Some en"
      and st: "\<forall>f. first_access s n = Some f \<longrightarrow> st < f \<longrightarrow> (\<exists>v. start_overrides ov n = Some v \<and> v \<le> st)"
      and en: "\<forall>l. last_access s n = Some l \<longrightarrow> l < en \<longrightarrow> (\<exists>v. end_overrides ov n = Some v \<and> en + 1 \<le> v)"
    using c unfolding covers_def by blast
  have "\<forall>f. first_access s n = Some f \<longrightarrow> st < f \<longrightarrow> (\<exists>v. start_overrides ov' n = Some v \<and> v \<le> st)"
    using st ov_monoD(1) [OF m] by blast
  moreover have "\<forall>l. last_access s n = Some l \<longrightarrow> l < en \<longrightarrow> (\<exists>v. end_overrides ov' n = Some v \<and> en + 1 \<le> v)"
    using en ov_monoD(2) [OF m] by blast
  ultimately show "\<exists>st en. loop_start s (enclosing s path n) = Some st \<and> loop_end s (enclosing s path n) = Some en \<and>
        (\<forall>f. first_access s n = Some f \<longrightarrow> st < f \<longrightarrow> (\<exists>v. start_overrides ov' n = Some v \<and> v \<le> st)) \<and>
        (\<forall>l. last_access s n = Some l \<longrightarrow> l < en \<longrightarrow> (\<exists>v. end_overrides ov' n = Some v \<and> en + 1 \<le> v))"
    using l by blast
qed

lemma widen_read_cases:
  assumes "widen_read s i path n ov = Inr ov'"
  obtains (stay) "\<not> crosses s path n" "ov' = ov"
  | (widened) st en where "crosses s path n" "loop_start s (enclosing s path n) = Some st"
      "loop_end s (enclosing s path n) = Some en"
      "start_overrides ov' = (if st < get (first_access s) n i
         then (start_overrides ov)(n \<mapsto> min (get (start_overrides ov) n st) st) else start_overrides ov)"
      "end_overrides ov' = (if get (last_access s) n i < en
         then (end_overrides ov)(n \<mapsto> max (get (end_overrides ov) n 0) (en + 1)) else end_overrides ov)"
proof (cases "common_prefix (get (birth_group s) n []) path = length path")
  case True
  then show thesis using assms by (intro stay) (auto simp: widen_read_def Let_def crosses_def)
next
  case False
  then have c: "crosses s path n" using common_prefix_le [of "get (birth_group s) n []" path] by (simp add: crosses_def)
  obtain st en where "loop_start s (enclosing s path n) = Some st" "loop_end s (enclosing s path n) = Some en"
    using assms False
    by (auto simp: widen_read_def Let_def enclosing_def split: option.splits)
  with assms False show thesis
    by (intro widened [OF c]) (auto simp: widen_read_def Let_def enclosing_def)
qed

lemma widen_read_ok:
  assumes run: "widen_read s i path n ov = Inr ov'" and f: "first_access s n = Some f" and l: "last_access s n = Some l"
    and ok: "ov_ok s ov"
  shows "ov_ok s ov' \<and> ov_mono ov ov' \<and> covers s path n ov'"
  using run
proof (cases rule: widen_read_cases)
  case stay
  then show ?thesis using ok by (simp add: ov_mono_refl covers_def)
next
  case (widened st en)
  have fl: "get (first_access s) n i = f" "get (last_access s) n i = l" using f l by (simp_all add: get_def)
  have "ov_ok s ov'"
    using ok f l unfolding ov_ok_def widened(4,5) fl
    by (auto simp: get_def min_def max_def split: if_splits option.splits)
  moreover have "ov_mono ov ov'"
    unfolding ov_mono_def widened(4,5) by (auto simp: get_def)
  moreover have "covers s path n ov'"
    unfolding covers_def widened(2-5) fl using f l by auto
  ultimately show ?thesis by blast
qed

lemma widen_reads_ok:
  assumes "foldE (widen_read s i path) ns ov = Inr ov'" "ov_ok s ov"
    and "\<forall>n\<in>set ns. first_access s n \<noteq> None \<and> last_access s n \<noteq> None"
  shows "ov_ok s ov' \<and> ov_mono ov ov' \<and> (\<forall>n\<in>set ns. covers s path n ov')"
  using assms
proof (induction ns arbitrary: ov)
  case Nil
  then show ?case by (simp add: ov_mono_refl)
next
  case (Cons n ns)
  obtain ov1 where one: "widen_read s i path n ov = Inr ov1" and rest: "foldE (widen_read s i path) ns ov1 = Inr ov'"
    using Cons.prems(1) by auto
  have "ov_ok s ov1 \<and> ov_mono ov ov1 \<and> covers s path n ov1"
    using widen_read_ok [OF one _ _ Cons.prems(2)] Cons.prems(3) by auto
  with Cons.IH [OF rest] Cons.prems(3) show ?case by (auto intro: ov_mono_trans covers_mono)
qed

lemma widen_op_ok:
  assumes "widen_op s (i, op) ov = Inr ov'" "ov_ok s ov"
    and "\<forall>n\<in>set (op_reads op). first_access s n \<noteq> None \<and> last_access s n \<noteq> None"
  shows "ov_ok s ov' \<and> ov_mono ov ov' \<and> (\<forall>n\<in>set (op_reads op). covers s (counted_loop_group_path op) n ov')"
proof (cases "counted_loop_group_path op = []")
  case True
  then show ?thesis using assms by (simp add: widen_op_def ov_mono_refl covers_def crosses_def)
next
  case False
  then show ?thesis using assms widen_reads_ok [of s i "counted_loop_group_path op" "op_reads op" ov ov']
    by (simp add: widen_op_def Let_def)
qed

lemma widen_ops_ok:
  assumes "foldE (widen_op s) xs ov = Inr ov'" "ov_ok s ov"
    and "\<forall>(i, op)\<in>set xs. \<forall>n\<in>set (op_reads op). first_access s n \<noteq> None \<and> last_access s n \<noteq> None"
  shows "ov_ok s ov' \<and> ov_mono ov ov' \<and>
    (\<forall>(i, op)\<in>set xs. \<forall>n\<in>set (op_reads op). covers s (counted_loop_group_path op) n ov')"
  using assms
proof (induction xs arbitrary: ov)
  case Nil
  then show ?case by (simp add: ov_mono_refl)
next
  case (Cons x xs)
  obtain i op where x: "x = (i, op)" by (cases x)
  obtain ov1 where one: "widen_op s (i, op) ov = Inr ov1" and rest: "foldE (widen_op s) xs ov1 = Inr ov'"
    using Cons.prems(1) x by auto
  have s1: "ov_ok s ov1 \<and> ov_mono ov ov1 \<and> (\<forall>n\<in>set (op_reads op). covers s (counted_loop_group_path op) n ov1)"
    using widen_op_ok [OF one Cons.prems(2)] Cons.prems(3) x by auto
  have ih: "ov_ok s ov' \<and> ov_mono ov1 ov' \<and>
      (\<forall>(i, op)\<in>set xs. \<forall>n\<in>set (op_reads op). covers s (counted_loop_group_path op) n ov')"
    using Cons.IH [OF rest] s1 Cons.prems(3) by simp
  have "\<forall>n\<in>set (op_reads op). covers s (counted_loop_group_path op) n ov'"
    using s1 ih covers_mono by blast
  with s1 ih show ?case unfolding x by (auto intro: ov_mono_trans)
qed

lemma scanned_reads:
  assumes "op \<in> set (operations g)" "n \<in> set (op_reads op)"
  shows "first_access (scan_ops g) n \<noteq> None \<and> last_access (scan_ops g) n \<noteq> None"
proof -
  obtain k where "k < length (operations g)" "op = operations g ! k" using assms(1) by (metis in_set_conv_nth)
  then show ?thesis
    using scan_ops_spec(3,4) [where g = g and n = n] assms(2)
    by (auto simp: least_at_def greatest_at_def accesses_def split: option.splits)
qed

lemma overrides_ok:
  assumes "counted_loop_lifetime_overrides g = Inr ov"
  shows "ov_ok (scan_ops g) ov"
    and "op \<in> set (operations g) \<Longrightarrow> n \<in> set (op_reads op) \<Longrightarrow> covers (scan_ops g) (counted_loop_group_path op) n ov"
proof -
  have ops: "op \<in> set (operations g)" if "(i, op) \<in> set (List.enumerate 0 (operations g))" for i op
    using that by (auto simp: in_set_enumerate_eq)
  have enum: "\<exists>i. (i, op) \<in> set (List.enumerate 0 (operations g))" if op: "op \<in> set (operations g)" for op
  proof -
    obtain k where "k < length (operations g)" "op = operations g ! k" using op by (metis in_set_conv_nth)
    then have "(k, op) \<in> set (List.enumerate 0 (operations g))" by (simp add: in_set_enumerate_eq)
    then show ?thesis ..
  qed
  have reads: "\<forall>(i, op)\<in>set (List.enumerate 0 (operations g)). \<forall>n\<in>set (op_reads op).
      first_access (scan_ops g) n \<noteq> None \<and> last_access (scan_ops g) n \<noteq> None"
    using scanned_reads ops by blast
  have "ov_ok (scan_ops g) ov \<and> ov_mono \<lparr>start_overrides = Map.empty, end_overrides = Map.empty\<rparr> ov \<and>
      (\<forall>(i, op)\<in>set (List.enumerate 0 (operations g)). \<forall>n\<in>set (op_reads op).
         covers (scan_ops g) (counted_loop_group_path op) n ov)"
    by (rule widen_ops_ok [OF assms [unfolded counted_loop_lifetime_overrides_def] _ reads]) (simp add: ov_ok_def)
  then show "ov_ok (scan_ops g) ov"
      and c: "op \<in> set (operations g) \<Longrightarrow> n \<in> set (op_reads op) \<Longrightarrow> covers (scan_ops g) (counted_loop_group_path op) n ov"
    using enum by blast+
qed

text \<open>The analysis never meets a loop it has not scanned.\<close>

lemma in_loop_prefix: "path = counted_loop_group_path op \<Longrightarrow> k < length path \<Longrightarrow> in_loop (take (k + 1) path) op"
  by (auto simp: in_loop_def min_def)

lemma widen_read_total:
  assumes "op \<in> set (operations g)"
  shows "\<exists>ov'. widen_read (scan_ops g) i (counted_loop_group_path op) n ov = Inr ov'"
proof -
  let ?s = "scan_ops g" and ?path = "counted_loop_group_path op"
  let ?c = "common_prefix (get (birth_group ?s) n []) ?path"
  show ?thesis
  proof (cases "?c = length ?path")
    case True
    then show ?thesis by (simp add: widen_read_def)
  next
    case False
    then have "?c < length ?path" using common_prefix_le [of "get (birth_group ?s) n []" ?path] by simp
    then have "in_loop (take (?c + 1) ?path) op" by (rule in_loop_prefix [OF refl])
    moreover obtain k where "k < length (operations g)" "op = operations g ! k"
      using assms by (metis in_set_conv_nth)
    ultimately obtain st en where "loop_start ?s (take (?c + 1) ?path) = Some st" "loop_end ?s (take (?c + 1) ?path) = Some en"
      using scan_ops_spec(1,2) [where g = g and l = "take (?c + 1) ?path"]
      by (auto simp: least_at_def greatest_at_def split: option.splits)
    then show ?thesis using False by (simp add: widen_read_def Let_def)
  qed
qed

lemma foldE_total:
  assumes "\<And>x s. x \<in> set xs \<Longrightarrow> \<exists>s'. f x s = Inr s'"
  shows "\<exists>s'. foldE f xs s = Inr s'"
  using assms
proof (induction xs arbitrary: s)
  case (Cons x xs)
  obtain s1 where "f x s = Inr s1" using Cons.prems by auto
  then show ?case using Cons by simp
qed simp

lemma overrides_total: "\<exists>ov. counted_loop_lifetime_overrides g = Inr ov"
  unfolding counted_loop_lifetime_overrides_def
proof (rule foldE_total)
  fix x ov assume mem: "x \<in> set (List.enumerate 0 (operations g))"
  obtain i op where "x = (i, op)" by (cases x)
  with mem have x: "x = (i, op)" "op \<in> set (operations g)" by (auto simp: in_set_enumerate_eq)
  show "\<exists>ov'. widen_op (scan_ops g) x ov = Inr ov'"
    using widen_read_total [OF x(2)] unfolding x(1) widen_op_def Let_def
    by (auto intro: foldE_total)
qed

subsection \<open>Properties\<close>

text \<open>A buffer whose lifetime fields come from the two analyses.\<close>

definition lifetime_of :: "op_graph \<Rightarrow> loop_overrides \<Rightarrow> string \<Rightarrow> buffer \<Rightarrow> bool" where
  "lifetime_of g ov n b \<longleftrightarrow> map_option (map int) (calculate_liveness g n) = Some (uses b) \<and>
     lifetime_start_override b = map_option int (start_overrides ov n) \<and>
     lifetime_end_override b = map_option int (end_overrides ov n)"

lemma strictly_increasing_map: "sorted_wrt (<) (xs :: nat list) \<Longrightarrow> strictly_increasing (map int xs)"
proof (induction xs)
  case (Cons x xs)
  then show ?case by (cases xs) auto
qed simp

lemma accessed_at_bounds:
  assumes "accessed_at (operations g) n \<noteq> []"
  shows "first_access (scan_ops g) n = Some (hd (accessed_at (operations g) n))"
    and "last_access (scan_ops g) n = Some (last (accessed_at (operations g) n))"
proof -
  let ?us = "accessed_at (operations g) n"
  have m: "hd ?us \<in> set ?us" "last ?us \<in> set ?us" using assms by simp_all
  have "hd ?us \<le> k" "k \<le> last ?us" if "k \<in> set ?us" for k
  proof -
    have "sorted ?us" using accessed_at_sorted [of "operations g" n] by (simp add: strict_sorted_iff)
    then show "hd ?us \<le> k" "k \<le> last ?us"
      using that assms
      by (auto simp: hd_conv_nth [OF assms] last_conv_nth [OF assms] in_set_conv_nth sorted_iff_nth_mono)
  qed
  with m show "first_access (scan_ops g) n = Some (hd ?us)" "last_access (scan_ops g) n = Some (last ?us)"
    using scan_ops_spec(3,4) [where g = g and n = n]
    by (auto simp: least_at_def greatest_at_def accessed_at_iff split: option.splits) (meson antisym)+
qed

lemma lifetime_of_times:
  assumes ov: "counted_loop_lifetime_overrides g = Inr ov" and b: "lifetime_of g ov n b"
    and ne: "accessed_at (operations g) n \<noteq> []"
  shows "post_init b = Inr ()"
    and "start_overrides ov n = Some v \<Longrightarrow> start_time b \<le> int v" "start_time b \<le> int (hd (accessed_at (operations g) n))"
    and "end_overrides ov n = Some v \<Longrightarrow> int v \<le> end_time b" "int (last (accessed_at (operations g) n)) < end_time b"
proof -
  let ?us = "accessed_at (operations g) n"
  have us: "uses b = map int ?us" using b ne by (simp add: lifetime_of_def calculate_liveness_eq)
  note fl = accessed_at_bounds [OF ne]
  have so: "lifetime_start_override b = map_option int (start_overrides ov n)"
    and eo: "lifetime_end_override b = map_option int (end_overrides ov n)" using b by (simp_all add: lifetime_of_def)
  have s: "v \<le> hd ?us" if "start_overrides ov n = Some v" for v
    using overrides_ok(1) [OF ov] that fl unfolding ov_ok_def by fastforce
  have e: "last ?us + 1 \<le> v" if "end_overrides ov n = Some v" for v
    using overrides_ok(1) [OF ov] that fl unfolding ov_ok_def by fastforce
  show "post_init b = Inr ()"
    unfolding post_init_def so eo us
    using strictly_increasing_map [OF accessed_at_sorted] s e ne
    by (cases "start_overrides ov n"; cases "end_overrides ov n") (auto simp: hd_map last_map)
  show "start_time b \<le> int v" if "start_overrides ov n = Some v"
    using that by (simp add: start_time_def so Let_def)
  show "start_time b \<le> int (hd ?us)" using ne by (simp add: start_time_def us hd_map Let_def)
  show "int v \<le> end_time b" if "end_overrides ov n = Some v"
    using that e by (auto simp: end_time_def eo us last_map ne Let_def)
  show "int (last ?us) < end_time b"
    using ne by (auto simp: end_time_def us last_map Let_def)
qed

text \<open>C18: A value read inside a counted loop that it was not born in stays live for the whole loop: with
  the uses of \<open>calculate_liveness\<close> and the loop overrides, the buffer passes its construction checks
  and its lifetime contains every operation of the outermost loop that separates reader and birth,
  including the operations after the last textual read, which run again on the next iteration.\<close>

theorem loop_value_live_through_loop:
  assumes ov: "counted_loop_lifetime_overrides g = Inr ov" and b: "lifetime_of g ov n b"
    and r: "r < length (operations g)" "n \<in> set (op_reads (operations g ! r))"
    and c: "crosses (scan_ops g) (counted_loop_group_path (operations g ! r)) n"
    and k: "k < length (operations g)"
      "in_loop (enclosing (scan_ops g) (counted_loop_group_path (operations g ! r)) n) (operations g ! k)"
  shows "post_init b = Inr () \<and> start_time b \<le> int k \<and> int k < end_time b"
proof -
  let ?s = "scan_ops g" and ?us = "accessed_at (operations g) n"
  let ?L = "enclosing ?s (counted_loop_group_path (operations g ! r)) n"
  have "r \<in> set ?us" using r by (simp add: accessed_at_iff accesses_def)
  then have ne: "?us \<noteq> []" by auto
  note fl = accessed_at_bounds [OF ne] and times = lifetime_of_times [OF ov b ne]
  have "operations g ! r \<in> set (operations g)" using r(1) by simp
  from overrides_ok(2) [OF ov this r(2)] c
  obtain st en where l: "loop_start ?s ?L = Some st" "loop_end ?s ?L = Some en"
      and so: "\<forall>f. first_access ?s n = Some f \<longrightarrow> st < f \<longrightarrow> (\<exists>v. start_overrides ov n = Some v \<and> v \<le> st)"
      and eo: "\<forall>l. last_access ?s n = Some l \<longrightarrow> l < en \<longrightarrow> (\<exists>v. end_overrides ov n = Some v \<and> en + 1 \<le> v)"
    unfolding covers_def by blast
  have lk: "st \<le> k" "k \<le> en"
    using scan_ops_spec(1,2) [where g = g and l = ?L] l k by (auto simp: least_at_def greatest_at_def)
  have "start_time b \<le> int st"
  proof (cases "st < hd ?us")
    case True
    then obtain v where "start_overrides ov n = Some v" "v \<le> st" using so fl(1) by blast
    then show ?thesis using times(2) by fastforce
  next
    case False
    then show ?thesis using times(3) by linarith
  qed
  moreover have "int en < end_time b"
  proof (cases "last ?us < en")
    case True
    then obtain v where "end_overrides ov n = Some v" "en + 1 \<le> v" using eo fl(2) by blast
    then show ?thesis using times(4) by fastforce
  next
    case False
    then show ?thesis using times(5) by linarith
  qed
  ultimately show ?thesis using times(1) lk by linarith
qed

text \<open>Liveness has exactly one entry per accessing operation, in order: a name's list is the strictly
  increasing list of the operations that read or write it, and it is present for every graph input
  and every accessed buffer.  The loop overrides never fail.\<close>

theorem liveness_lists_accessing_operations:
  "(\<exists>ov. counted_loop_lifetime_overrides g = Inr ov) \<and>
   (calculate_liveness g n = None \<longleftrightarrow> n \<notin> set (graph_input_names g) \<and> (\<forall>op\<in>set (operations g). n \<notin> set (accesses op))) \<and>
   (\<forall>us. calculate_liveness g n = Some us \<longrightarrow> sorted_wrt (<) us \<and>
      set us = {i. i < length (operations g) \<and> n \<in> set (accesses (operations g ! i))})"
proof -
  have "accessed_at (operations g) n = [] \<longleftrightarrow> (\<forall>op\<in>set (operations g). n \<notin> set (accesses op))"
    unfolding accessed_at_def filter_empty_conv all_set_conv_all_nth by auto
  then show ?thesis
    using overrides_total accessed_at_sorted [of "operations g" n]
    by (auto simp: calculate_liveness_eq accessed_at_iff)
qed

text \<open>A loop of three operations that reads \<open>x\<close>, computed before it, at its second operation.\<close>

definition demo_loop_graph :: op_graph where
  "demo_loop_graph = \<lparr>graph_input_names = [''i''], operations =
     [\<lparr>is_extern = False, loop_group_id = [], op_reads = [''i''], op_writes = [''x'']\<rparr>,
      \<lparr>is_extern = False, loop_group_id = [7], op_reads = [''i''], op_writes = [''t'']\<rparr>,
      \<lparr>is_extern = False, loop_group_id = [7], op_reads = [''x'', ''t''], op_writes = [''u'']\<rparr>,
      \<lparr>is_extern = False, loop_group_id = [7], op_reads = [''u''], op_writes = [''v'']\<rparr>]\<rparr>"

definition demo_loop_buffer :: buffer where
  "demo_loop_buffer = demo_buffer ''x'' 2 [0, 2] []\<lparr>lifetime_end_override := Some 4\<rparr>"

lemma demo_loop_run:
  "\<exists>ov. counted_loop_lifetime_overrides demo_loop_graph = Inr ov \<and>
     start_overrides ov ''x'' = None \<and> end_overrides ov ''x'' = Some 4"
proof -
  have "case counted_loop_lifetime_overrides demo_loop_graph of Inl _ \<Rightarrow> False
    | Inr ov \<Rightarrow> start_overrides ov ''x'' = None \<and> end_overrides ov ''x'' = Some 4" by code_simp
  then show ?thesis by (auto split: sum.splits)
qed

theorem loop_value_live_through_loop_witness:
  "calculate_liveness demo_loop_graph ''x'' = Some [0, 2] \<and> post_init demo_loop_buffer = Inr () \<and>
   start_time demo_loop_buffer \<le> int 3 \<and> int 3 < end_time demo_loop_buffer"
proof -
  obtain ov where ov: "counted_loop_lifetime_overrides demo_loop_graph = Inr ov"
      "start_overrides ov ''x'' = None" "end_overrides ov ''x'' = Some 4"
    using demo_loop_run by blast
  have live: "calculate_liveness demo_loop_graph ''x'' = Some [0, 2]" by code_simp
  have b: "lifetime_of demo_loop_graph ov ''x'' demo_loop_buffer"
    using ov by (simp add: lifetime_of_def live demo_loop_buffer_def demo_buffer_def)
  have c: "crosses (scan_ops demo_loop_graph) (counted_loop_group_path (operations demo_loop_graph ! 2)) ''x''"
    by code_simp
  have k: "in_loop (enclosing (scan_ops demo_loop_graph) (counted_loop_group_path (operations demo_loop_graph ! 2)) ''x'')
      (operations demo_loop_graph ! 3)" by code_simp
  from loop_value_live_through_loop [OF ov(1) b _ _ c _ k] live show ?thesis
    by (simp add: demo_loop_graph_def)
qed

theorem liveness_lists_accessing_operations_witness:
  "calculate_liveness demo_loop_graph ''x'' = Some [0, 2] \<and> sorted_wrt (<) [0, 2 :: nat]"
proof -
  have "calculate_liveness demo_loop_graph ''x'' = Some [0, 2]" by code_simp
  with liveness_lists_accessing_operations [of demo_loop_graph "''x''"] show ?thesis by blast
qed

end
