(* ===== verification/Lx_Switching.thy ===== *)
theory Lx_Switching
  imports Liveness
begin

text \<open>
  Saving LX-resident buffers across opaque kernels
  (\<open>torch_spyre/_inductor/scratchpad/lx_context_switching.py\<close>) and the residency guards of
  \<open>scratchpad/allocator.py\<close> it relies on.

  A fallback kernel is opaque: it may launch other compiled programs, which place their own data in
  the LX scratchpad.  The pass brackets a risky kernel with a dump of every LX-resident buffer that is
  live across it and a restore afterwards.  An operation is its buffer name, its operation name, the
  buffers it reads and writes and its class; the dumps and restores the pass creates are clones and have
  classes of their own.  Registering a buffer or an operation with the graph draws a name from a counter:
  the parameters \<open>fresh_buf\<close> and \<open>fresh_op\<close> give the names of a counter value.  The parallel edit of the
  FX graph and the copied tiling metadata are not modelled.  Extern kernels that are not fallback kernels,
  which the pass leaves alone, are not part of a modelled graph.
\<close>

text \<open>An overload object: whether it is registered as a CPU fallback, and whether it is marked LX-safe.
  Another object (a \<open>CustomOpDef\<close>) can carry the mark too, but the pass looks at overloads only.\<close>

datatype overload = OpOverload bool bool | OtherOverload bool

datatype lx_class = ComputedOp | FallbackKernel "nat option" overload | DumpOp string | RestoreOp string string

record lx_op =
  lx_buf :: string
  lx_opname :: string
  lx_reads :: "string list"
  lx_writes :: "string list"
  lx_class :: lx_class

record lx_graph =
  lx_inputs :: "string list"
  lx_operations :: "lx_op list"
  in_lx :: "string set"
  computed_bufs :: "string set"
  additional_buffer_deps :: "(string \<times> string) list"
  registered :: nat

subsection \<open>Choosing the brackets\<close>

definition is_cpu_only_fallback :: "overload \<Rightarrow> bool" where
  "is_cpu_only_fallback ov = (case ov of OpOverload cpu_only lx_safe \<Rightarrow> cpu_only | OtherOverload lx_safe \<Rightarrow> False)"

definition is_marked_lx_safe :: "overload \<Rightarrow> bool" where
  "is_marked_lx_safe ov = (case ov of OpOverload cpu_only lx_safe \<Rightarrow> lx_safe | OtherOverload lx_safe \<Rightarrow> False)"

definition mark_lx_safe :: "overload \<Rightarrow> overload" where
  "mark_lx_safe ov = (case ov of OpOverload cpu_only lx_safe \<Rightarrow> OpOverload cpu_only True | OtherOverload lx_safe \<Rightarrow> OtherOverload True)"

definition is_lx_resident :: "lx_graph \<Rightarrow> string \<Rightarrow> bool" where
  "is_lx_resident g name \<longleftrightarrow> name \<in> in_lx g"

definition op_graph_of :: "lx_graph \<Rightarrow> op_graph" where
  "op_graph_of g = \<lparr>graph_input_names = lx_inputs g,
     operations = map (\<lambda>op. \<lparr>is_extern = (case lx_class op of FallbackKernel outs ov \<Rightarrow> True | _ \<Rightarrow> False),
       loop_group_id = [], op_reads = lx_reads op, op_writes = lx_writes op\<rparr>) (lx_operations g)\<rparr>"

text \<open>The keys of the liveness dictionary, in insertion order.\<close>

definition liveness_names :: "lx_graph \<Rightarrow> string list" where
  "liveness_names g = rev (remdups (rev (lx_inputs g @ concat (map (\<lambda>op. lx_reads op @ lx_writes op) (lx_operations g)))))"

definition at_risk_buffers :: "lx_graph \<Rightarrow> nat \<Rightarrow> (string \<Rightarrow> nat list option) \<Rightarrow> string list" where
  "at_risk_buffers g fk_idx liveness =
     filter (\<lambda>name. case liveness name of
         None \<Rightarrow> False
       | Some us \<Rightarrow> us \<noteq> [] \<and> is_lx_resident g name \<and> hd us < fk_idx \<and> fk_idx < last us + 1) (liveness_names g)"

definition select_target :: "lx_graph \<Rightarrow> (string \<Rightarrow> nat list option) \<Rightarrow> nat \<times> lx_op \<Rightarrow> (lx_op \<times> string list) option" where
  "select_target g liveness x =
     (case lx_class (snd x) of
        FallbackKernel outs ov \<Rightarrow>
          if (case outs of None \<Rightarrow> True | Some n \<Rightarrow> n > 1) then None
          else if is_cpu_only_fallback ov then None
          else if is_marked_lx_safe ov then None
          else
            let at_risk = at_risk_buffers g (fst x) liveness
            in if at_risk = [] then None else Some (snd x, at_risk)
      | _ \<Rightarrow> None)"

definition select_bracket_targets :: "lx_graph \<Rightarrow> (lx_op \<times> string list) list" where
  "select_bracket_targets g =
     (let liveness = calculate_liveness (op_graph_of g)
      in List.map_filter (select_target g liveness) (List.enumerate 0 (lx_operations g)))"

subsection \<open>Editing the graph\<close>

fun insert_before :: "lx_op \<Rightarrow> lx_op \<Rightarrow> lx_op list \<Rightarrow> lx_op list res" where
  "insert_before target x [] = Inl ValueError"
| "insert_before target x (op # ops) =
     (if op = target then Inr (x # op # ops) else bindE (insert_before target x ops) (\<lambda>ops'. Inr (op # ops')))"

fun insert_after :: "lx_op \<Rightarrow> lx_op \<Rightarrow> lx_op list \<Rightarrow> lx_op list res" where
  "insert_after target x [] = Inl ValueError"
| "insert_after target x (op # ops) =
     (if op = target then Inr (op # x # ops) else bindE (insert_after target x ops) (\<lambda>ops'. Inr (op # ops')))"

definition dump_op :: "string \<Rightarrow> string \<Rightarrow> string \<Rightarrow> lx_op" where
  "dump_op buf name opname = \<lparr>lx_buf = name, lx_opname = opname, lx_reads = [buf], lx_writes = [name], lx_class = DumpOp buf\<rparr>"

definition restore_op :: "string \<Rightarrow> string \<Rightarrow> string \<Rightarrow> string \<Rightarrow> lx_op" where
  "restore_op buf dump name opname =
     \<lparr>lx_buf = name, lx_opname = opname, lx_reads = [dump], lx_writes = [name], lx_class = RestoreOp buf dump\<rparr>"

definition dump_buffer ::
  "(nat \<Rightarrow> string) \<Rightarrow> (nat \<Rightarrow> string) \<Rightarrow> lx_op \<Rightarrow> string \<Rightarrow> lx_graph \<times> (string \<times> string) list \<Rightarrow>
   (lx_graph \<times> (string \<times> string) list) res" where
  "dump_buffer fresh_buf fresh_op target buf st =
     (case st of (g, dumped) \<Rightarrow>
        if buf \<notin> computed_bufs g then Inl AssertionError
        else let name = fresh_buf (registered g)
             in bindE (insert_before target (dump_op buf name (fresh_op (registered g))) (lx_operations g)) (\<lambda>ops.
                  Inr (g\<lparr>lx_operations := ops, registered := registered g + 1\<rparr>, dumped @ [(buf, name)])))"

definition dump_buffers ::
  "(nat \<Rightarrow> string) \<Rightarrow> (nat \<Rightarrow> string) \<Rightarrow> lx_op \<Rightarrow> string list \<Rightarrow> lx_graph \<Rightarrow> (lx_graph \<times> (string \<times> string) list) res" where
  "dump_buffers fresh_buf fresh_op target at_risk g = foldE (dump_buffer fresh_buf fresh_op target) at_risk (g, [])"

definition restore_buffer ::
  "(nat \<Rightarrow> string) \<Rightarrow> (nat \<Rightarrow> string) \<Rightarrow> lx_op \<Rightarrow> (string \<times> string) list \<Rightarrow> string \<Rightarrow> lx_graph \<times> lx_op list \<Rightarrow>
   (lx_graph \<times> lx_op list) res" where
  "restore_buffer fresh_buf fresh_op target dumped buf st =
     (case st of (g, restored) \<Rightarrow>
        (case map_of (rev dumped) buf of
           None \<Rightarrow> Inl KeyError
         | Some dump \<Rightarrow>
             let x = restore_op buf dump (fresh_buf (registered g)) (fresh_op (registered g))
             in bindE (insert_after target x (lx_operations g)) (\<lambda>ops.
                  Inr (g\<lparr>lx_operations := ops, registered := registered g + 1\<rparr>, restored @ [x]))))"

definition restore_buffers ::
  "(nat \<Rightarrow> string) \<Rightarrow> (nat \<Rightarrow> string) \<Rightarrow> lx_op \<Rightarrow> string list \<Rightarrow> (string \<times> string) list \<Rightarrow> lx_graph \<Rightarrow> (lx_graph \<times> lx_op list) res" where
  "restore_buffers fresh_buf fresh_op target at_risk dumped g =
     foldE (restore_buffer fresh_buf fresh_op target dumped) at_risk (g, [])"

definition order_around_bracket :: "lx_op \<Rightarrow> string list \<Rightarrow> lx_op list \<Rightarrow> lx_graph \<Rightarrow> lx_graph" where
  "order_around_bracket target dump_bufs restored g =
     g\<lparr>additional_buffer_deps := additional_buffer_deps g @
         map (\<lambda>d. (lx_opname target, d)) dump_bufs @ map (\<lambda>r. (lx_opname r, lx_buf target)) restored\<rparr>"

definition bracket ::
  "(nat \<Rightarrow> string) \<Rightarrow> (nat \<Rightarrow> string) \<Rightarrow> lx_op \<times> string list \<Rightarrow> lx_graph \<Rightarrow> lx_graph res" where
  "bracket fresh_buf fresh_op x g =
     (case x of (target, at_risk) \<Rightarrow>
        bindE (dump_buffers fresh_buf fresh_op target at_risk g) (\<lambda>(g1, dumped).
        bindE (restore_buffers fresh_buf fresh_op target at_risk dumped g1) (\<lambda>(g2, restored).
          Inr (order_around_bracket target (map snd dumped) restored g2))))"

definition apply_pass :: "(nat \<Rightarrow> string) \<Rightarrow> (nat \<Rightarrow> string) \<Rightarrow> bool \<Rightarrow> lx_graph \<Rightarrow> lx_graph res" where
  "apply_pass fresh_buf fresh_op enable_lx_context_switching g =
     (if \<not> enable_lx_context_switching then Inr g
      else foldE (bracket fresh_buf fresh_op) (select_bracket_targets g) g)"

subsection \<open>The residency guard of the allocator\<close>

definition multi_output_extern_kernel_in_live_range :: "lx_op list \<Rightarrow> nat list \<Rightarrow> bool" where
  "multi_output_extern_kernel_in_live_range ops us =
     (if us = [] then False
      else list_ex (\<lambda>i. case lx_class (ops ! i) of
             FallbackKernel (Some n) ov \<Rightarrow> n > 1
           | _ \<Rightarrow> False) [Min (set us)..<Max (set us) + 1])"

section \<open>What the operations do to memory\<close>

text \<open>
  A buffer lives in LX or in HBM.  An operation computes from the values it reads; \<open>sem\<close> gives the value
  of each buffer it writes.  A risky kernel leaves in LX whatever \<open>clob\<close> says, before its own result is
  stored.  A CPU-only or LX-safe overload does not touch LX.
\<close>

record 'v lx_mem =
  hbm_val :: "string \<Rightarrow> 'v"
  lx_val :: "string \<Rightarrow> 'v"

type_synonym 'v meaning = "string \<Rightarrow> 'v list \<Rightarrow> string \<Rightarrow> 'v"
type_synonym 'v clobber = "string \<Rightarrow> (string \<Rightarrow> 'v) \<Rightarrow> string \<Rightarrow> 'v"

definition read_buf :: "string set \<Rightarrow> 'v lx_mem \<Rightarrow> string \<Rightarrow> 'v" where
  "read_buf L s n = (if n \<in> L then lx_val s n else hbm_val s n)"

definition write_buf :: "string set \<Rightarrow> string \<Rightarrow> 'v \<Rightarrow> 'v lx_mem \<Rightarrow> 'v lx_mem" where
  "write_buf L n v s = (if n \<in> L then s\<lparr>lx_val := (lx_val s)(n := v)\<rparr> else s\<lparr>hbm_val := (hbm_val s)(n := v)\<rparr>)"

definition risky :: "lx_op \<Rightarrow> bool" where
  "risky op = (case lx_class op of
      FallbackKernel outs ov \<Rightarrow> \<not> is_cpu_only_fallback ov \<and> \<not> is_marked_lx_safe ov
    | _ \<Rightarrow> False)"

definition compute :: "'v meaning \<Rightarrow> string set \<Rightarrow> lx_op \<Rightarrow> 'v list \<Rightarrow> 'v lx_mem \<Rightarrow> 'v lx_mem" where
  "compute sem L op vals s = fold (\<lambda>w. write_buf L w (sem (lx_opname op) vals w)) (lx_writes op) s"

definition exec_op :: "'v meaning \<Rightarrow> 'v clobber \<Rightarrow> string set \<Rightarrow> lx_op \<Rightarrow> 'v lx_mem \<Rightarrow> 'v lx_mem" where
  "exec_op sem clob L op s =
     (case lx_class op of
        DumpOp buf \<Rightarrow> write_buf L (lx_buf op) (read_buf L s buf) s
      | RestoreOp buf dump \<Rightarrow> write_buf L buf (read_buf L s dump) s
      | _ \<Rightarrow>
          let vals = map (read_buf L s) (lx_reads op);
              s1 = (if risky op then s\<lparr>lx_val := clob (lx_opname op) (lx_val s)\<rparr> else s)
          in compute sem L op vals s1)"

definition exec_ops :: "'v meaning \<Rightarrow> 'v clobber \<Rightarrow> string set \<Rightarrow> lx_op list \<Rightarrow> 'v lx_mem \<Rightarrow> 'v lx_mem" where
  "exec_ops sem clob L ops s = fold (exec_op sem clob L) ops s"

definition no_clobber :: "'v clobber" where
  "no_clobber op m = m"

section \<open>Which buffers are at risk\<close>

definition touches :: "lx_op list \<Rightarrow> nat \<Rightarrow> string \<Rightarrow> bool" where
  "touches ops j n \<longleftrightarrow> j < length ops \<and> n \<in> set (lx_reads (ops ! j) @ lx_writes (ops ! j))"

definition straddles :: "lx_op list \<Rightarrow> nat \<Rightarrow> string \<Rightarrow> bool" where
  "straddles ops i n \<longleftrightarrow> (\<exists>j<i. touches ops j n) \<and> (\<exists>j\<ge>i. touches ops j n)"

lemma accessed_at_touches: "set (accessed_at (operations (op_graph_of g)) n) = {j. touches (lx_operations g) j n}"
  by (auto simp: accessed_at_iff touches_def op_graph_of_def accesses_def)

lemma sorted_hd_last:
  assumes "sorted_wrt (<) (us :: nat list)" "us \<noteq> []"
  shows "hd us < i \<longleftrightarrow> (\<exists>j\<in>set us. j < i)" "i < last us + 1 \<longleftrightarrow> (\<exists>j\<in>set us. i \<le> j)"
proof -
  have s: "sorted us" using assms(1) by (auto intro: sorted_wrt_mono_rel [of us "(<)"])
  have "\<forall>j\<in>set us. hd us \<le> j" using s assms(2) by (cases us) auto
  then show "hd us < i \<longleftrightarrow> (\<exists>j\<in>set us. j < i)" using assms(2) by (meson hd_in_set le_less_trans)
  have "\<forall>j\<in>set us. j \<le> last us" using s by (cases us rule: rev_cases) (auto simp: sorted_append)
  then show "i < last us + 1 \<longleftrightarrow> (\<exists>j\<in>set us. i \<le> j)"
    using assms(2) by (metis last_in_set less_Suc_eq_le Suc_eq_plus1 le_trans)
qed

lemma liveness_names_all: "touches (lx_operations g) j n \<Longrightarrow> n \<in> set (liveness_names g)" "distinct (liveness_names g)"
  by (force simp: liveness_names_def touches_def) (simp add: liveness_names_def)

lemma at_risk_iff:
  "n \<in> set (at_risk_buffers g i (calculate_liveness (op_graph_of g))) \<longleftrightarrow> n \<in> in_lx g \<and> straddles (lx_operations g) i n"
proof -
  let ?us = "accessed_at (operations (op_graph_of g)) n"
  have t: "set ?us = {j. touches (lx_operations g) j n}" by (rule accessed_at_touches)
  show ?thesis
  proof (cases "?us = []")
    case True
    then have "\<not> touches (lx_operations g) j n" for j using t by auto
    then show ?thesis using True by (auto simp: at_risk_buffers_def calculate_liveness_eq straddles_def split: if_splits)
  next
    case False
    then have l: "calculate_liveness (op_graph_of g) n = Some ?us" by (simp add: calculate_liveness_eq)
    obtain j where "touches (lx_operations g) j n" using False t by (cases ?us) auto
    then have "n \<in> set (liveness_names g)" by (rule liveness_names_all)
    then show ?thesis using l False sorted_hd_last [OF accessed_at_sorted False, of i] t
      by (auto simp: at_risk_buffers_def is_lx_resident_def straddles_def)
  qed
qed

lemma at_risk_distinct: "distinct (at_risk_buffers g i l)"
  by (simp add: at_risk_buffers_def liveness_names_all)

section \<open>The edited operation list\<close>

text \<open>An operation list in which every original operation carries what was inserted around it.\<close>

definition spread :: "(lx_op \<Rightarrow> lx_op list) \<Rightarrow> (lx_op \<Rightarrow> lx_op list) \<Rightarrow> lx_op list \<Rightarrow> lx_op list" where
  "spread pre post ops = concat (map (\<lambda>op. pre op @ [op] @ post op) ops)"

definition inserted_ok :: "(lx_op \<Rightarrow> lx_op list) \<Rightarrow> (lx_op \<Rightarrow> lx_op list) \<Rightarrow> lx_op list \<Rightarrow> bool" where
  "inserted_ok pre post ops \<longleftrightarrow> distinct ops \<and> (\<forall>op\<in>set ops. \<forall>x\<in>set (pre op) \<union> set (post op). x \<notin> set ops)"

lemma bindE_assoc: "bindE (bindE m f) g = bindE m (\<lambda>x. bindE (f x) g)"
  by (cases m) auto

lemma bindE_Inr_id: "bindE m (\<lambda>x. Inr x) = m"
  by (cases m) auto

lemma insert_before_skip: "target \<notin> set xs \<Longrightarrow> insert_before target x (xs @ ys) = bindE (insert_before target x ys) (\<lambda>zs. Inr (xs @ zs))"
  by (induction xs) (auto simp: bindE_assoc bindE_Inr_id)

lemma insert_after_skip: "target \<notin> set xs \<Longrightarrow> insert_after target x (xs @ ys) = bindE (insert_after target x ys) (\<lambda>zs. Inr (xs @ zs))"
  by (induction xs) (auto simp: bindE_assoc bindE_Inr_id)

lemma spread_split:
  assumes "distinct ops" "target \<in> set ops"
  obtains as bs where "ops = as @ target # bs" "target \<notin> set as" "target \<notin> set bs"
  using split_list [OF assms(2)] assms(1) by auto

lemma spread_cong: "(\<And>op. op \<in> set ops \<Longrightarrow> pre op = pre' op \<and> post op = post' op) \<Longrightarrow> spread pre post ops = spread pre' post' ops"
  unfolding spread_def by (intro arg_cong [of _ _ concat] map_cong) auto

lemma insert_before_spread:
  assumes "inserted_ok pre post ops" "target \<in> set ops"
  shows "insert_before target x (spread pre post ops) = Inr (spread (pre(target := pre target @ [x])) post ops)"
proof -
  have d: "distinct ops" using assms(1) by (simp add: inserted_ok_def)
  obtain as bs where s: "ops = as @ target # bs" "target \<notin> set as" "target \<notin> set bs"
    by (rule spread_split [OF d assms(2)])
  have "spread pre post ops = (spread pre post as @ pre target) @ target # post target @ spread pre post bs"
    by (simp add: s(1) spread_def)
  moreover have "target \<notin> set (spread pre post as @ pre target)"
  proof -
    have n: "target \<notin> set (pre op) \<union> set (post op)" if "op \<in> set ops" for op
      using assms that unfolding inserted_ok_def by blast
    have "set as \<subseteq> set ops" using s(1) by auto
    then show ?thesis using n assms(2) s(2) by (auto simp: spread_def)
  qed
  moreover have "spread (pre(target := pre target @ [x])) post ops =
      (spread pre post as @ pre target) @ x # target # post target @ spread pre post bs"
  proof -
    have "spread (pre(target := pre target @ [x])) post zs = spread pre post zs" if "target \<notin> set zs" for zs
      using that by (intro spread_cong) auto
    then show ?thesis using s(2,3) unfolding s(1) by (simp add: spread_def)
  qed
  ultimately show ?thesis by (simp add: insert_before_skip)
qed

lemma insert_after_spread:
  assumes "inserted_ok pre post ops" "target \<in> set ops"
  shows "insert_after target x (spread pre post ops) = Inr (spread pre (post(target := x # post target)) ops)"
proof -
  have d: "distinct ops" using assms(1) by (simp add: inserted_ok_def)
  obtain as bs where s: "ops = as @ target # bs" "target \<notin> set as" "target \<notin> set bs"
    by (rule spread_split [OF d assms(2)])
  have "spread pre post ops = (spread pre post as @ pre target) @ target # post target @ spread pre post bs"
    by (simp add: s(1) spread_def)
  moreover have "target \<notin> set (spread pre post as @ pre target)"
  proof -
    have n: "target \<notin> set (pre op) \<union> set (post op)" if "op \<in> set ops" for op
      using assms that unfolding inserted_ok_def by blast
    have "set as \<subseteq> set ops" using s(1) by auto
    then show ?thesis using n assms(2) s(2) by (auto simp: spread_def)
  qed
  moreover have "spread pre (post(target := x # post target)) ops =
      (spread pre post as @ pre target) @ target # x # post target @ spread pre post bs"
  proof -
    have "spread pre (post(target := x # post target)) zs = spread pre post zs" if "target \<notin> set zs" for zs
      using that by (intro spread_cong) auto
    then show ?thesis using s(2,3) unfolding s(1) by (simp add: spread_def)
  qed
  ultimately show ?thesis by (simp add: insert_after_skip)
qed

subsection \<open>The brackets the pass builds\<close>

fun made :: "lx_op \<Rightarrow> bool" where
  "made op = (case lx_class op of DumpOp b \<Rightarrow> True | RestoreOp b d \<Rightarrow> True | _ \<Rightarrow> False)"

fun mk_dumps :: "(nat \<Rightarrow> string) \<Rightarrow> (nat \<Rightarrow> string) \<Rightarrow> nat \<Rightarrow> string list \<Rightarrow> lx_op list" where
  "mk_dumps fb fo k [] = []"
| "mk_dumps fb fo k (b # bs) = dump_op b (fb k) (fo k) # mk_dumps fb fo (Suc k) bs"

fun dump_pairs :: "(nat \<Rightarrow> string) \<Rightarrow> nat \<Rightarrow> string list \<Rightarrow> (string \<times> string) list" where
  "dump_pairs fb k [] = []"
| "dump_pairs fb k (b # bs) = (b, fb k) # dump_pairs fb (Suc k) bs"

fun mk_restores :: "(nat \<Rightarrow> string) \<Rightarrow> (nat \<Rightarrow> string) \<Rightarrow> (string \<times> string) list \<Rightarrow> nat \<Rightarrow> string list \<Rightarrow> lx_op list" where
  "mk_restores fb fo D k [] = []"
| "mk_restores fb fo D k (b # bs) = restore_op b (the (map_of (rev D) b)) (fb k) (fo k) # mk_restores fb fo D (Suc k) bs"

lemma mk_made: "x \<in> set (mk_dumps fb fo k bs) \<Longrightarrow> made x" "x \<in> set (mk_restores fb fo D k bs) \<Longrightarrow> made x"
  by (induction bs arbitrary: k) (auto simp: dump_op_def restore_op_def)

lemma dump_pairs_keys: "map fst (dump_pairs fb k bs) = bs"
  by (induction bs arbitrary: k) auto

definition originals :: "lx_op list \<Rightarrow> bool" where
  "originals ops \<longleftrightarrow> distinct ops \<and> (\<forall>op\<in>set ops. \<not> made op)"

definition made_only :: "(lx_op \<Rightarrow> lx_op list) \<Rightarrow> (lx_op \<Rightarrow> lx_op list) \<Rightarrow> bool" where
  "made_only pre post \<longleftrightarrow> (\<forall>op x. x \<in> set (pre op) \<union> set (post op) \<longrightarrow> made x)"

lemma made_only_inserted: "originals ops \<Longrightarrow> made_only pre post \<Longrightarrow> inserted_ok pre post ops"
  unfolding originals_def made_only_def inserted_ok_def by blast

lemma dump_run:
  assumes "originals ops" "t \<in> set ops" "made_only pre post" "lx_operations g = spread pre post ops" "set bs \<subseteq> computed_bufs g"
  shows "foldE (dump_buffer fb fo t) bs (g, D) =
    Inr (g\<lparr>lx_operations := spread (pre(t := pre t @ mk_dumps fb fo (registered g) bs)) post ops,
           registered := registered g + length bs\<rparr>, D @ dump_pairs fb (registered g) bs)"
  using assms(3-5)
proof (induction bs arbitrary: g pre D)
  case Nil
  then show ?case by simp
next
  case (Cons b bs)
  let ?x = "dump_op b (fb (registered g)) (fo (registered g))"
  let ?pre = "pre(t := pre t @ [?x])"
  let ?g = "g\<lparr>lx_operations := spread ?pre post ops, registered := registered g + 1\<rparr>"
  have i: "insert_before t ?x (lx_operations g) = Inr (spread ?pre post ops)"
    unfolding Cons.prems(2) by (rule insert_before_spread [OF made_only_inserted [OF assms(1) Cons.prems(1)] assms(2)])
  have m: "made_only ?pre post" using Cons.prems(1) by (auto simp: made_only_def dump_op_def)
  have "dump_buffer fb fo t b (g, D) = Inr (?g, D @ [(b, fb (registered g))])"
    using i Cons.prems(3) by (simp add: dump_buffer_def Let_def)
  moreover have "foldE (dump_buffer fb fo t) bs (?g, D @ [(b, fb (registered g))]) =
      Inr (?g\<lparr>lx_operations := spread (?pre(t := ?pre t @ mk_dumps fb fo (registered ?g) bs)) post ops,
        registered := registered ?g + length bs\<rparr>, (D @ [(b, fb (registered g))]) @ dump_pairs fb (registered ?g) bs)"
    by (rule Cons.IH [OF m]) (use Cons.prems(3) in \<open>simp_all add: fun_upd_def\<close>)
  ultimately show ?case by (simp add: fun_upd_def cong: if_cong)
qed

lemma restore_run:
  assumes "originals ops" "t \<in> set ops" "made_only pre post" "lx_operations g = spread pre post ops" "set bs \<subseteq> fst ` set D"
  shows "\<exists>rs. foldE (restore_buffer fb fo t D) bs (g, R) =
    Inr (g\<lparr>lx_operations := spread pre (post(t := rev (mk_restores fb fo D (registered g) bs) @ post t)) ops,
           registered := registered g + length bs\<rparr>, rs)"
  using assms(3-5)
proof (induction bs arbitrary: g post R)
  case Nil
  then show ?case by simp
next
  case (Cons b bs)
  have "map_of (rev D) b \<noteq> None" using Cons.prems(3) by (auto simp: map_of_eq_None_iff)
  then obtain d where d: "map_of (rev D) b = Some d" by blast
  let ?x = "restore_op b d (fb (registered g)) (fo (registered g))"
  let ?post = "post(t := ?x # post t)"
  let ?g = "g\<lparr>lx_operations := spread pre ?post ops, registered := registered g + 1\<rparr>"
  have i: "insert_after t ?x (lx_operations g) = Inr (spread pre ?post ops)"
    unfolding Cons.prems(2) by (rule insert_after_spread [OF made_only_inserted [OF assms(1) Cons.prems(1)] assms(2)])
  have m: "made_only pre ?post" using Cons.prems(1) by (auto simp: made_only_def restore_op_def)
  have "restore_buffer fb fo t D b (g, R) = Inr (?g, R @ [?x])"
    using i d by (simp add: restore_buffer_def Let_def)
  moreover have "\<exists>rs. foldE (restore_buffer fb fo t D) bs (?g, R @ [?x]) =
      Inr (?g\<lparr>lx_operations := spread pre (?post(t := rev (mk_restores fb fo D (registered ?g) bs) @ ?post t)) ops,
        registered := registered ?g + length bs\<rparr>, rs)"
    by (rule Cons.IH [OF m]) (use Cons.prems(3) in \<open>simp_all add: fun_upd_def\<close>)
  ultimately show ?case using d by (simp add: fun_upd_def cong: if_cong)
qed

definition bracket_of :: "(nat \<Rightarrow> string) \<Rightarrow> (nat \<Rightarrow> string) \<Rightarrow> nat \<Rightarrow> string list \<Rightarrow> lx_op list \<Rightarrow> lx_op list \<Rightarrow> bool" where
  "bracket_of fb fo k bs ds rs \<longleftrightarrow> ds = mk_dumps fb fo k bs \<and>
     rs = rev (mk_restores fb fo (dump_pairs fb k bs) (k + length bs) bs)"

lemma bracket_run:
  assumes "originals ops" "t \<in> set ops" "made_only pre post" "lx_operations g = spread pre post ops" "set bs \<subseteq> computed_bufs g"
    "pre t = []" "post t = []"
  shows "\<exists>g' ds rs k. bracket fb fo (t, bs) g = Inr g' \<and> bracket_of fb fo k bs ds rs \<and>
    lx_operations g' = spread (pre(t := ds)) (post(t := rs)) ops \<and> made_only (pre(t := ds)) (post(t := rs)) \<and>
    computed_bufs g' = computed_bufs g"
proof -
  let ?k = "registered g"
  let ?ds = "mk_dumps fb fo ?k bs" and ?D = "dump_pairs fb ?k bs"
  let ?rs = "rev (mk_restores fb fo ?D (?k + length bs) bs)"
  let ?g1 = "g\<lparr>lx_operations := spread (pre(t := ?ds)) post ops, registered := ?k + length bs\<rparr>"
  have d: "dump_buffers fb fo t bs g = Inr (?g1, ?D)"
    using dump_run [OF assms(1-5), of fb fo "[]"] assms(6) by (simp add: dump_buffers_def)
  have m: "made_only (pre(t := ?ds)) post" "made_only (pre(t := ?ds)) (post(t := ?rs))"
    using assms(3) mk_made unfolding made_only_def by auto
  have "set bs \<subseteq> fst ` set ?D" using arg_cong [OF dump_pairs_keys [of fb ?k bs], of set] by simp
  then obtain rs where r: "restore_buffers fb fo t bs ?D ?g1 = Inr (?g1\<lparr>lx_operations := spread (pre(t := ?ds)) (post(t := ?rs)) ops,
      registered := ?k + length bs + length bs\<rparr>, rs)"
    using restore_run [OF assms(1,2) m(1), of ?g1 bs ?D fb fo "[]"] assms(7) by (auto simp: restore_buffers_def)
  then show ?thesis using d m(2) by (auto simp: bracket_def order_around_bracket_def bracket_of_def)
qed

lemma apply_run:
  assumes "originals ops" "distinct (map fst ts)" "fst ` set ts \<subseteq> set ops" "\<forall>(t, bs)\<in>set ts. set bs \<subseteq> computed_bufs g"
    "made_only pre post" "lx_operations g = spread pre post ops" "\<forall>(t, bs)\<in>set ts. pre t = [] \<and> post t = []"
  shows "\<exists>g' pre' post'. foldE (bracket fb fo) ts g = Inr g' \<and> lx_operations g' = spread pre' post' ops \<and>
    (\<forall>op. op \<notin> fst ` set ts \<longrightarrow> pre' op = pre op \<and> post' op = post op) \<and>
    (\<forall>(t, bs)\<in>set ts. \<exists>k. bracket_of fb fo k bs (pre' t) (post' t))"
  using assms(2-7)
proof (induction ts arbitrary: g pre post)
  case Nil
  then show ?case by auto
next
  case (Cons x ts)
  obtain t bs where x: "x = (t, bs)" by (cases x)
  obtain g1 ds rs k where b: "bracket fb fo (t, bs) g = Inr g1" "bracket_of fb fo k bs ds rs"
    "lx_operations g1 = spread (pre(t := ds)) (post(t := rs)) ops" "made_only (pre(t := ds)) (post(t := rs))"
    "computed_bufs g1 = computed_bufs g"
    using bracket_run [OF assms(1) _ Cons.prems(4,5), of t bs fb fo] Cons.prems(2,3,6) x by auto
  have t: "t \<notin> fst ` set ts" using Cons.prems(1) x by simp
  define p where "p = pre(t := ds)"
  define q where "q = post(t := rs)"
  have pq: "p t = ds" "q t = rs" "u \<noteq> t \<Longrightarrow> p u = pre u \<and> q u = post u" for u by (simp_all add: p_def q_def)
  have e: "\<forall>(t', bs')\<in>set ts. p t' = [] \<and> q t' = []"
  proof (intro ballI, clarify)
    fix t' bs'
    assume a: "(t', bs') \<in> set ts"
    then have "t' \<noteq> t" using t by force
    then show "p t' = [] \<and> q t' = []" using pq(3) Cons.prems(6) a by fastforce
  qed
  have c: "\<forall>(t, bs)\<in>set ts. set bs \<subseteq> computed_bufs g1" using Cons.prems(3) b(5) by simp
  have "distinct (map fst ts)" "fst ` set ts \<subseteq> set ops" using Cons.prems(1,2) by auto
  then obtain g' pre' post' where r: "foldE (bracket fb fo) ts g1 = Inr g'" "lx_operations g' = spread pre' post' ops"
    "\<forall>op. op \<notin> fst ` set ts \<longrightarrow> pre' op = p op \<and> post' op = q op"
    "\<forall>(t, bs)\<in>set ts. \<exists>k. bracket_of fb fo k bs (pre' t) (post' t)"
    using Cons.IH [OF _ _ c b(4) [folded p_def q_def] b(3) [folded p_def q_def] e] by blast
  have "foldE (bracket fb fo) (x # ts) g = Inr g'" using b(1) r(1) x by simp
  moreover have "\<exists>k. bracket_of fb fo k bs (pre' t) (post' t)" using r(3) t b(2) pq(1,2) by auto
  moreover have "\<forall>op. op \<notin> fst ` set (x # ts) \<longrightarrow> pre' op = pre op \<and> post' op = post op" using r(3) pq(3) x by simp
  ultimately show ?case using r(2,4) x by auto
qed

section \<open>Running a bracket\<close>

lemma exec_ops_simps [simp]: "exec_ops sem clob L [] s = s"
  "exec_ops sem clob L (op # ops) s = exec_ops sem clob L ops (exec_op sem clob L op s)"
  "exec_ops sem clob L (xs @ ys) s = exec_ops sem clob L ys (exec_ops sem clob L xs s)"
  by (simp_all add: exec_ops_def)

lemma write_buf_sel [simp]:
  "hbm_val (write_buf L n v s) = (if n \<in> L then hbm_val s else (hbm_val s)(n := v))"
  "lx_val (write_buf L n v s) = (if n \<in> L then (lx_val s)(n := v) else lx_val s)"
  by (simp_all add: write_buf_def)

lemma exec_dumps:
  assumes "inj fb" "range fb \<inter> L = {}" "set bs \<subseteq> L" "s' = exec_ops sem clob L (mk_dumps fb fo k bs) s"
  shows "lx_val s' = lx_val s \<and> (\<forall>n. n \<notin> range fb \<longrightarrow> hbm_val s' n = hbm_val s n) \<and> (\<forall>j<k. hbm_val s' (fb j) = hbm_val s (fb j)) \<and>
    (\<forall>(b, d)\<in>set (dump_pairs fb k bs). hbm_val s' d = lx_val s b)"
  using assms(3,4)
proof (induction bs arbitrary: k s)
  case (Cons a bs)
  let ?s = "exec_op sem clob L (dump_op a (fb k) (fo k)) s"
  have "fb k \<notin> L" using assms(2) by auto
  then have s: "lx_val ?s = lx_val s" "hbm_val ?s = (hbm_val s)(fb k := lx_val s a)"
    using Cons.prems by (auto simp: exec_op_def dump_op_def read_buf_def)
  have "lx_val s' = lx_val ?s \<and> (\<forall>n. n \<notin> range fb \<longrightarrow> hbm_val s' n = hbm_val ?s n) \<and> (\<forall>j<Suc k. hbm_val s' (fb j) = hbm_val ?s (fb j)) \<and>
    (\<forall>(b, d)\<in>set (dump_pairs fb (Suc k) bs). hbm_val s' d = lx_val ?s b)"
    by (rule Cons.IH) (use Cons.prems in simp_all)
  then have ih: "lx_val s' = lx_val ?s" "n \<notin> range fb \<Longrightarrow> hbm_val s' n = hbm_val ?s n" "j < Suc k \<Longrightarrow> hbm_val s' (fb j) = hbm_val ?s (fb j)"
    "(b, d) \<in> set (dump_pairs fb (Suc k) bs) \<Longrightarrow> hbm_val s' d = lx_val ?s b" for n j b d by auto
  have "hbm_val s' n = hbm_val s n" if "n \<notin> range fb" for n using that ih(2) s(2) by auto
  moreover have "hbm_val s' (fb j) = hbm_val s (fb j)" if "j < k" for j
    using that ih(3) [of j] s(2) assms(1) by (simp add: inj_eq)
  moreover have "hbm_val s' d = lx_val s b" if "(b, d) \<in> set (dump_pairs fb k (a # bs))" for b d
    using that ih(3) [of k] ih(4) s by auto
  ultimately show ?case using ih(1) s(1) by auto
qed auto

lemma exec_restores:
  assumes "set bs \<subseteq> L" "\<forall>b\<in>set bs. the (map_of (rev D) b) \<notin> L"
  shows "hbm_val (exec_ops sem clob L (rev (mk_restores fb fo D k bs)) s) = hbm_val s \<and>
    lx_val (exec_ops sem clob L (rev (mk_restores fb fo D k bs)) s) =
      (\<lambda>n. if n \<in> set bs then hbm_val s (the (map_of (rev D) n)) else lx_val s n)"
  using assms
  by (induction bs arbitrary: k) (auto simp: exec_op_def restore_op_def read_buf_def fun_eq_iff)

lemma dump_pairs_range: "(b, d) \<in> set (dump_pairs fb k bs) \<Longrightarrow> d \<in> range fb"
  by (induction bs arbitrary: k) auto

lemma dump_pairs_lookup:
  assumes "b \<in> set bs"
  shows "(b, the (map_of (rev (dump_pairs fb k bs)) b)) \<in> set (dump_pairs fb k bs)"
proof -
  have "b \<in> fst ` set (dump_pairs fb k bs)" using assms arg_cong [OF dump_pairs_keys [of fb k bs], of set] by simp
  then have "map_of (rev (dump_pairs fb k bs)) b \<noteq> None" by (auto simp: map_of_eq_None_iff)
  then show ?thesis using map_of_SomeD by fastforce
qed

lemma compute_sel:
  "hbm_val (compute sem L op vals s) = (\<lambda>n. if n \<in> set (lx_writes op) - L then sem (lx_opname op) vals n else hbm_val s n)"
  "lx_val (compute sem L op vals s) = (\<lambda>n. if n \<in> set (lx_writes op) \<inter> L then sem (lx_opname op) vals n else lx_val s n)"
proof -
  have "hbm_val (fold (\<lambda>w. write_buf L w (sem (lx_opname op) vals w)) ws s) = (\<lambda>n. if n \<in> set ws - L then sem (lx_opname op) vals n else hbm_val s n) \<and>
      lx_val (fold (\<lambda>w. write_buf L w (sem (lx_opname op) vals w)) ws s) = (\<lambda>n. if n \<in> set ws \<inter> L then sem (lx_opname op) vals n else lx_val s n)" for ws
    by (induction ws arbitrary: s) (auto simp: fun_eq_iff)
  then show "hbm_val (compute sem L op vals s) = (\<lambda>n. if n \<in> set (lx_writes op) - L then sem (lx_opname op) vals n else hbm_val s n)"
    "lx_val (compute sem L op vals s) = (\<lambda>n. if n \<in> set (lx_writes op) \<inter> L then sem (lx_opname op) vals n else lx_val s n)"
    unfolding compute_def by blast+
qed

lemma exec_original:
  assumes "\<not> made op"
  shows "exec_op sem clob L op s = compute sem L op (map (read_buf L s) (lx_reads op))
    (if risky op then s\<lparr>lx_val := clob (lx_opname op) (lx_val s)\<rparr> else s)"
  using assms by (cases "lx_class op") (simp_all add: exec_op_def)

text \<open>A bracketed kernel does to memory what the kernel alone would do if it left LX alone.\<close>

lemma exec_bracket:
  assumes "inj fb" "range fb \<inter> L = {}" "set bs \<subseteq> L" "bracket_of fb fo k bs ds rs" "\<not> made t"
    "set (lx_reads t) \<inter> L = {}" "set (lx_writes t) \<inter> L = {}" "range fb \<inter> set (lx_reads t @ lx_writes t) = {}"
    "s' = exec_ops sem clob L (ds @ [t] @ rs) s"
  shows "n \<notin> range fb \<Longrightarrow> hbm_val s' n = hbm_val (exec_op sem no_clobber L t s) n" "n \<in> set bs \<Longrightarrow> lx_val s' n = lx_val s n"
proof -
  let ?s1 = "exec_ops sem clob L ds s" and ?D = "dump_pairs fb k bs"
  let ?s2 = "exec_op sem clob L t ?s1"
  have d: "lx_val ?s1 = lx_val s" "n \<notin> range fb \<Longrightarrow> hbm_val ?s1 n = hbm_val s n" "(b, d) \<in> set ?D \<Longrightarrow> hbm_val ?s1 d = lx_val s b" for n b d
    using exec_dumps [OF assms(1-3), of ?s1 sem clob fo k s] assms(4) by (auto simp: bracket_of_def)
  have v: "map (read_buf L ?s1) (lx_reads t) = map (read_buf L s) (lx_reads t)"
    using assms(6,8) by (intro map_cong refl) (auto simp: read_buf_def disjoint_iff intro!: d(2))
  have h2: "hbm_val ?s2 n = (if n \<in> set (lx_writes t) - L then sem (lx_opname t) (map (read_buf L s) (lx_reads t)) n else hbm_val ?s1 n)" for n
    by (simp add: exec_original [OF assms(5)] compute_sel v)
  have o: "the (map_of (rev ?D) b) \<in> range fb" if "b \<in> set bs" for b
    using dump_pairs_range [OF dump_pairs_lookup [OF that]] .
  have "\<forall>b\<in>set bs. the (map_of (rev ?D) b) \<notin> L" using o assms(2) by blast
  from exec_restores [OF assms(3) this, of sem clob fb fo "k + length bs" ?s2]
  have e: "hbm_val s' = hbm_val ?s2" "n \<in> set bs \<Longrightarrow> lx_val s' n = hbm_val ?s2 (the (map_of (rev ?D) n))" for n
    using assms(4,9) by (auto simp: bracket_of_def)
  show "hbm_val s' n = hbm_val (exec_op sem no_clobber L t s) n" if "n \<notin> range fb"
    using that e(1) h2 d(2) by (simp add: exec_original [OF assms(5)] compute_sel no_clobber_def)
  show "lx_val s' n = lx_val s n" if "n \<in> set bs"
  proof -
    have "the (map_of (rev ?D) n) \<notin> set (lx_writes t)" using o [OF that] assms(8) by auto
    then show ?thesis using e(2) [OF that] h2 d(3) [OF dump_pairs_lookup [OF that]] by simp
  qed
qed

section \<open>The pass preserves what the program computes\<close>

definition kernel_io_in_hbm :: "lx_graph \<Rightarrow> bool" where
  "kernel_io_in_hbm g \<longleftrightarrow> list_all (\<lambda>op. lx_class op \<noteq> ComputedOp \<longrightarrow>
     list_all (\<lambda>n. n \<notin> in_lx g) (lx_reads op @ lx_writes op)) (lx_operations g)"

definition written_before_read :: "lx_graph \<Rightarrow> bool" where
  "written_before_read g \<longleftrightarrow> list_all (\<lambda>i. list_all (\<lambda>n. n \<in> in_lx g \<longrightarrow>
     list_ex (\<lambda>j. touches (lx_operations g) j n) [0..<i]) (lx_reads (lx_operations g ! i))) [0..<length (lx_operations g)]"

definition known_outputs :: "lx_graph \<Rightarrow> bool" where
  "known_outputs g \<longleftrightarrow> list_all (\<lambda>op. case lx_class op of FallbackKernel outs ov \<Rightarrow> outs \<noteq> None | _ \<Rightarrow> True) (lx_operations g)"

definition guarded_residency :: "lx_graph \<Rightarrow> bool" where
  "guarded_residency g \<longleftrightarrow> (\<forall>n\<in>in_lx g. case calculate_liveness (op_graph_of g) n of
     None \<Rightarrow> True | Some us \<Rightarrow> \<not> multi_output_extern_kernel_in_live_range (lx_operations g) us)"

definition names_fresh :: "(nat \<Rightarrow> string) \<Rightarrow> lx_graph \<Rightarrow> bool" where
  "names_fresh fb g \<longleftrightarrow> inj fb \<and> range fb \<inter> in_lx g = {} \<and> range fb \<inter> set (liveness_names g) = {}"

lemma guard_excludes_crossing:
  assumes "guarded_residency g" "n \<in> in_lx g" "straddles (lx_operations g) i n" "lx_class (lx_operations g ! i) = FallbackKernel (Some m) ov"
  shows "m \<le> 1"
proof -
  let ?us = "accessed_at (operations (op_graph_of g)) n"
  have t: "set ?us = {j. touches (lx_operations g) j n}" by (rule accessed_at_touches)
  obtain j1 j2 where j: "j1 \<in> set ?us" "j1 < i" "j2 \<in> set ?us" "i \<le> j2" using assms(3) t by (auto simp: straddles_def)
  have "Min (set ?us) \<le> j1" "j2 \<le> Max (set ?us)" using j by auto
  then have "Min (set ?us) \<le> i" "i < Max (set ?us) + 1" using j(2,4) by linarith+
  then have "i \<in> set [Min (set ?us)..<Max (set ?us) + 1]" by (simp only: set_upt atLeastLessThan_iff)
  moreover have ne: "?us \<noteq> []" using j(1) by auto
  then have "\<not> multi_output_extern_kernel_in_live_range (lx_operations g) ?us"
    using assms(1,2) by (auto simp: guarded_residency_def calculate_liveness_eq split: if_splits)
  ultimately have "\<not> (case lx_class (lx_operations g ! i) of FallbackKernel (Some n) ov \<Rightarrow> n > 1 | _ \<Rightarrow> False)"
    using ne unfolding multi_output_extern_kernel_in_live_range_def list_ex_iff by meson
  then show ?thesis using assms(4) by simp
qed

text \<open>What the pass puts around each operation: nothing, or the bracket of the buffers crossing it.\<close>

definition protected :: "(nat \<Rightarrow> string) \<Rightarrow> (nat \<Rightarrow> string) \<Rightarrow> string set \<Rightarrow> lx_op list \<Rightarrow> nat \<Rightarrow> lx_op list \<Rightarrow> lx_op list \<Rightarrow> bool" where
  "protected fb fo L ops i ds rs \<longleftrightarrow>
     (if risky (ops ! i) then \<exists>k bs. bracket_of fb fo k bs ds rs \<and> set bs = {n \<in> L. straddles ops i n} else ds = [] \<and> rs = [])"

lemma map_filter_keys:
  assumes "\<And>x y. f x = Some y \<Longrightarrow> fst y = snd x" "distinct (map snd xs)"
  shows "distinct (map fst (List.map_filter f xs))"
proof -
  have "map fst (List.map_filter f ys) = map snd (filter (\<lambda>x. f x \<noteq> None) ys)" for ys
    by (induction ys) (auto simp: List.map_filter_def assms(1))
  then show ?thesis using assms(2) by (simp add: distinct_map_filter)
qed

lemma select_target_op: "select_target g l x = Some y \<Longrightarrow> fst y = snd x"
  unfolding select_target_def Let_def by (cases "lx_class (snd x)") (auto split: if_splits option.splits)

lemma selected_iff:
  "(t, bs) \<in> set (select_bracket_targets g) \<longleftrightarrow>
    (\<exists>i<length (lx_operations g). select_target g (calculate_liveness (op_graph_of g)) (i, lx_operations g ! i) = Some (t, bs))"
proof -
  have "set (List.enumerate 0 (lx_operations g)) = {(i, lx_operations g ! i) |i. i < length (lx_operations g)}"
    by (auto simp: in_set_enumerate_eq)
  then show ?thesis by (force simp: select_bracket_targets_def List.map_filter_def Let_def)
qed

lemma select_risky:
  assumes "i < length (lx_operations g)" "known_outputs g" "guarded_residency g"
  defines "t \<equiv> lx_operations g ! i" and "bs \<equiv> at_risk_buffers g i (calculate_liveness (op_graph_of g))"
  shows "select_target g (calculate_liveness (op_graph_of g)) (i, t) = (if risky t \<and> bs \<noteq> [] then Some (t, bs) else None)"
proof (cases "lx_class t")
  case (FallbackKernel outs ov)
  have "outs \<noteq> None" using assms(1,2) FallbackKernel nth_mem [OF assms(1)] unfolding known_outputs_def list_all_iff t_def by fastforce
  then obtain m where m: "outs = Some m" by blast
  have "m \<le> 1" if "n \<in> set bs" for n
    using guard_excludes_crossing [OF assms(3), of n i m ov] that FallbackKernel m by (simp add: bs_def at_risk_iff t_def)
  then have "m > 1 \<longrightarrow> bs = []" by (cases bs) fastforce+
  then show ?thesis using FallbackKernel m by (auto simp: select_target_def risky_def bs_def Let_def)
qed (simp_all add: select_target_def risky_def)

lemma select_unique:
  assumes "originals (lx_operations g)" "i < length (lx_operations g)" "(lx_operations g ! i, bs) \<in> set (select_bracket_targets g)"
  shows "select_target g (calculate_liveness (op_graph_of g)) (i, lx_operations g ! i) = Some (lx_operations g ! i, bs)"
proof -
  obtain j where j: "j < length (lx_operations g)"
    "select_target g (calculate_liveness (op_graph_of g)) (j, lx_operations g ! j) = Some (lx_operations g ! i, bs)"
    using assms(3) by (auto simp: selected_iff)
  have "lx_operations g ! i = lx_operations g ! j" using select_target_op [OF j(2)] by simp
  then have "i = j" using assms(1,2) j(1) by (simp add: originals_def nth_eq_iff_index_eq)
  then show ?thesis using j(2) by simp
qed

lemma spread_trivial: "spread (\<lambda>op. []) (\<lambda>op. []) ops = ops"
  by (induction ops) (auto simp: spread_def)

lemma apply_protects:
  assumes "originals (lx_operations g)" "in_lx g \<subseteq> computed_bufs g" "known_outputs g" "guarded_residency g"
  shows "\<exists>g' pre post. apply_pass fb fo True g = Inr g' \<and> lx_operations g' = spread pre post (lx_operations g) \<and>
    (\<forall>i<length (lx_operations g). protected fb fo (in_lx g) (lx_operations g) i (pre (lx_operations g ! i)) (post (lx_operations g ! i)))"
proof -
  let ?ops = "lx_operations g" and ?ts = "select_bracket_targets g"
  let ?bs = "\<lambda>i. at_risk_buffers g i (calculate_liveness (op_graph_of g))"
  have sel: "(t, bs) \<in> set ?ts \<Longrightarrow> \<exists>i<length ?ops. t = ?ops ! i \<and> bs = ?bs i" for t bs
    using select_risky [OF _ assms(3,4)] by (auto simp: selected_iff split: if_splits)
  have d: "distinct (map fst ?ts)" unfolding select_bracket_targets_def Let_def
    using assms(1) by (intro map_filter_keys select_target_op) (simp_all add: originals_def)
  have o: "fst ` set ?ts \<subseteq> set ?ops" using sel by force
  have c: "\<forall>(t, bs)\<in>set ?ts. set bs \<subseteq> computed_bufs g" using sel assms(2) by (fastforce simp: at_risk_iff)
  have m: "made_only (\<lambda>op. []) (\<lambda>op. [])" by (simp add: made_only_def)
  have e: "\<forall>(t, bs)\<in>set ?ts. (\<lambda>op. []) t = ([] :: lx_op list) \<and> (\<lambda>op. []) t = ([] :: lx_op list)" by simp
  obtain g' pre post where r: "foldE (bracket fb fo) ?ts g = Inr g'" "lx_operations g' = spread pre post ?ops"
    "\<forall>op. op \<notin> fst ` set ?ts \<longrightarrow> pre op = [] \<and> post op = []" "\<forall>(t, bs)\<in>set ?ts. \<exists>k. bracket_of fb fo k bs (pre t) (post t)"
    using apply_run [OF assms(1) d o c m spread_trivial [symmetric] e, of fb fo] by blast
  have "protected fb fo (in_lx g) ?ops i (pre (?ops ! i)) (post (?ops ! i))" if i: "i < length ?ops" for i
  proof -
    have b: "set (?bs i) = {n \<in> in_lx g. straddles ?ops i n}" by (auto simp: at_risk_iff)
    show ?thesis
    proof (cases "risky (?ops ! i) \<and> ?bs i \<noteq> []")
      case True
      then have "(?ops ! i, ?bs i) \<in> set ?ts" using select_risky [OF i assms(3,4)] i unfolding selected_iff by auto
      then show ?thesis using r(4) True b by (fastforce simp: protected_def)
    next
      case False
      then have "?ops ! i \<notin> fst ` set ?ts" using select_unique [OF assms(1) i] select_risky [OF i assms(3,4)] by auto
      then have "pre (?ops ! i) = []" "post (?ops ! i) = []" using r(3) by auto
      moreover have "bracket_of fb fo 0 [] [] []" by (simp add: bracket_of_def)
      ultimately show ?thesis using False b unfolding protected_def by (metis empty_set)
    qed
  qed
  then show ?thesis using r(1,2) by (auto simp: apply_pass_def)
qed

definition agree :: "string set \<Rightarrow> string set \<Rightarrow> lx_op list \<Rightarrow> nat \<Rightarrow> 'v lx_mem \<Rightarrow> 'v lx_mem \<Rightarrow> bool" where
  "agree L F ops i s s' \<longleftrightarrow> (\<forall>n. n \<notin> F \<longrightarrow> hbm_val s' n = hbm_val s n) \<and> (\<forall>n\<in>L. straddles ops i n \<longrightarrow> lx_val s' n = lx_val s n)"

lemma straddles_Suc:
  assumes "straddles ops (Suc i) n"
  shows "straddles ops i n \<or> n \<in> set (lx_reads (ops ! i) @ lx_writes (ops ! i))"
proof -
  obtain j1 j2 where j: "j1 < Suc i" "touches ops j1 n" "j2 \<ge> Suc i" "touches ops j2 n" using assms by (auto simp: straddles_def)
  show ?thesis
  proof (cases "j1 = i")
    case True
    then show ?thesis using j(2) by (simp add: touches_def)
  next
    case False
    then have "j1 < i" "i \<le> j2" using j by auto
    then show ?thesis using j(2,4) unfolding straddles_def by blast
  qed
qed

lemma read_straddles:
  assumes "written_before_read g" "i < length (lx_operations g)" "n \<in> set (lx_reads (lx_operations g ! i))" "n \<in> in_lx g"
  shows "straddles (lx_operations g) i n"
proof -
  have "\<exists>j<i. touches (lx_operations g) j n" using assms unfolding written_before_read_def list_all_iff list_ex_iff by fastforce
  moreover have "touches (lx_operations g) i n" using assms(2,3) by (simp add: touches_def)
  ultimately show ?thesis unfolding straddles_def by blast
qed

lemma fresh_not_touched:
  assumes "names_fresh fb g" "i < length (lx_operations g)"
  shows "range fb \<inter> set (lx_reads (lx_operations g ! i) @ lx_writes (lx_operations g ! i)) = {}"
  using assms liveness_names_all(1) [of g i] unfolding names_fresh_def touches_def by blast

lemma agree_reads:
  assumes "written_before_read g" "names_fresh fb g" "i < length (lx_operations g)" "agree (in_lx g) (range fb) (lx_operations g) i s s'"
  shows "map (read_buf (in_lx g) s') (lx_reads (lx_operations g ! i)) = map (read_buf (in_lx g) s) (lx_reads (lx_operations g ! i))"
proof (intro map_cong refl)
  fix n
  assume n: "n \<in> set (lx_reads (lx_operations g ! i))"
  then have "n \<notin> range fb" using fresh_not_touched [OF assms(2,3)] by auto
  then show "read_buf (in_lx g) s' n = read_buf (in_lx g) s n"
    using assms(4) read_straddles [OF assms(1,3) n] by (simp add: read_buf_def agree_def)
qed

lemma agree_safe_step:
  assumes "written_before_read g" "names_fresh fb g" "i < length (lx_operations g)" "agree (in_lx g) (range fb) (lx_operations g) i s s'"
    "\<not> made (lx_operations g ! i)" "\<not> risky (lx_operations g ! i)"
  shows "agree (in_lx g) (range fb) (lx_operations g) (Suc i)
    (exec_op sem no_clobber (in_lx g) (lx_operations g ! i) s) (exec_op sem clob (in_lx g) (lx_operations g ! i) s')"
proof -
  have "lx_val s' n = lx_val s n" if "n \<in> in_lx g" "straddles (lx_operations g) (Suc i) n" "n \<notin> set (lx_writes (lx_operations g ! i))" for n
  proof -
    have "straddles (lx_operations g) i n" using straddles_Suc [OF that(2)] that(1,3) read_straddles [OF assms(1,3)] by auto
    then show ?thesis using assms(4) that(1) by (simp add: agree_def)
  qed
  then show ?thesis using assms(4)
    by (simp add: agree_def exec_original [OF assms(5)] compute_sel assms(6) agree_reads [OF assms(1-4)])
qed

lemma risky_io:
  assumes "kernel_io_in_hbm g" "i < length (lx_operations g)" "risky (lx_operations g ! i)"
  shows "set (lx_reads (lx_operations g ! i)) \<inter> in_lx g = {}" "set (lx_writes (lx_operations g ! i)) \<inter> in_lx g = {}"
proof -
  have "lx_class (lx_operations g ! i) \<noteq> ComputedOp" using assms(3) by (auto simp: risky_def)
  then have "list_all (\<lambda>n. n \<notin> in_lx g) (lx_reads (lx_operations g ! i) @ lx_writes (lx_operations g ! i))"
    using assms(1) nth_mem [OF assms(2)] unfolding kernel_io_in_hbm_def list_all_iff by blast
  then show "set (lx_reads (lx_operations g ! i)) \<inter> in_lx g = {}" "set (lx_writes (lx_operations g ! i)) \<inter> in_lx g = {}"
    by (auto simp: list_all_iff)
qed

lemma agree_risky_step:
  assumes "written_before_read g" "names_fresh fb g" "i < length (lx_operations g)" "agree (in_lx g) (range fb) (lx_operations g) i s s'"
    "\<not> made (lx_operations g ! i)" "risky (lx_operations g ! i)" "kernel_io_in_hbm g"
    "bracket_of fb fo k bs ds rs" "set bs = {n \<in> in_lx g. straddles (lx_operations g) i n}"
  shows "agree (in_lx g) (range fb) (lx_operations g) (Suc i)
    (exec_op sem no_clobber (in_lx g) (lx_operations g ! i) s) (exec_ops sem clob (in_lx g) (ds @ [lx_operations g ! i] @ rs) s')"
proof -
  let ?t = "lx_operations g ! i" and ?L = "in_lx g"
  let ?e = "exec_ops sem clob ?L (ds @ [?t] @ rs) s'"
  have f: "inj fb" "range fb \<inter> ?L = {}" using assms(2) by (simp_all add: names_fresh_def)
  have b: "set bs \<subseteq> ?L" using assms(9) by auto
  note io = risky_io [OF assms(7,3,6)]
  note r = exec_bracket [OF f b assms(8,5) io fresh_not_touched [OF assms(2,3)] refl, of _ sem clob s']
  have "hbm_val ?e n = hbm_val (exec_op sem no_clobber ?L ?t s) n" if "n \<notin> range fb" for n
    using r(1) [OF that] that assms(4)
    by (simp add: exec_original [OF assms(5)] compute_sel agree_reads [OF assms(1-4)] agree_def)
  moreover have "lx_val ?e n = lx_val (exec_op sem no_clobber ?L ?t s) n" if n: "n \<in> ?L" "straddles (lx_operations g) (Suc i) n" for n
  proof -
    have "n \<notin> set (lx_reads ?t @ lx_writes ?t)" using io n(1) by auto
    then have c: "straddles (lx_operations g) i n" using straddles_Suc [OF n(2)] by blast
    then have "lx_val ?e n = lx_val s n" using r(2) [of n] assms(4,9) n(1) by (simp add: agree_def)
    then show ?thesis using io(2) n(1) by (auto simp: exec_original [OF assms(5)] compute_sel no_clobber_def)
  qed
  ultimately show ?thesis by (simp add: agree_def)
qed

lemma agree_run:
  assumes "originals (lx_operations g)" "written_before_read g" "names_fresh fb g" "kernel_io_in_hbm g"
    "\<forall>i<length (lx_operations g). protected fb fo (in_lx g) (lx_operations g) i (pre (lx_operations g ! i)) (post (lx_operations g ! i))"
    "i \<le> length (lx_operations g)"
  shows "agree (in_lx g) (range fb) (lx_operations g) i
    (exec_ops sem no_clobber (in_lx g) (take i (lx_operations g)) s)
    (exec_ops sem clob (in_lx g) (spread pre post (take i (lx_operations g))) s)"
  using assms(6)
proof (induction i)
  case 0
  show ?case by (simp add: agree_def spread_def)
next
  case (Suc i)
  let ?t = "lx_operations g ! i"
  have i: "i < length (lx_operations g)" using Suc.prems by simp
  then have ih: "agree (in_lx g) (range fb) (lx_operations g) i
    (exec_ops sem no_clobber (in_lx g) (take i (lx_operations g)) s)
    (exec_ops sem clob (in_lx g) (spread pre post (take i (lx_operations g))) s)" using Suc.IH by simp
  have m: "\<not> made ?t" using assms(1) nth_mem [OF i] unfolding originals_def by blast
  have p: "protected fb fo (in_lx g) (lx_operations g) i (pre ?t) (post ?t)" using assms(5) i by blast
  have e: "spread pre post (take (Suc i) (lx_operations g)) = spread pre post (take i (lx_operations g)) @ pre ?t @ [?t] @ post ?t"
    using i by (simp add: take_Suc_conv_app_nth spread_def)
  show ?case
  proof (cases "risky ?t")
    case True
    then obtain k bs where b: "bracket_of fb fo k bs (pre ?t) (post ?t)" "set bs = {n \<in> in_lx g. straddles (lx_operations g) i n}"
      using p by (auto simp: protected_def)
    show ?thesis using agree_risky_step [OF assms(2,3) i ih m True assms(4) b, of sem clob] i
      unfolding e by (simp add: take_Suc_conv_app_nth)
  next
    case False
    then have "pre ?t = []" "post ?t = []" using p by (simp_all add: protected_def)
    then show ?thesis using agree_safe_step [OF assms(2,3) i ih m False, of sem clob] i
      unfolding e by (simp add: take_Suc_conv_app_nth)
  qed
qed

text \<open>
  C9: dumping and restoring around risky kernels preserves what the program computes.  Take a graph of
  distinct operations in which extern kernels read and write HBM only, every LX-resident buffer is
  accessed before it is read, the allocator's multi-output guard admitted every LX-resident buffer, every
  fallback kernel knows its outputs and every LX-resident buffer has a computed layout, and let the names
  drawn for new buffers be fresh.  Then the pass succeeds, and whatever the opaque kernels leave in the
  scratchpad, running the edited graph gives every HBM buffer of the program the value it gets when the
  original graph runs and no kernel disturbs LX.
\<close>

theorem lx_context_switching_preserves_results:
  fixes g :: lx_graph
  assumes "originals (lx_operations g)" "kernel_io_in_hbm g" "written_before_read g" "guarded_residency g"
    "known_outputs g" "in_lx g \<subseteq> computed_bufs g" "names_fresh fb g"
  shows "\<exists>g'. apply_pass fb fo True g = Inr g' \<and>
    (\<forall>sem clob s n. n \<in> range fb \<or>
      hbm_val (exec_ops sem clob (in_lx g) (lx_operations g') s) n =
      hbm_val (exec_ops sem no_clobber (in_lx g) (lx_operations g) s) n)"
proof -
  obtain g' pre post where r: "apply_pass fb fo True g = Inr g'" "lx_operations g' = spread pre post (lx_operations g)"
    "\<forall>i<length (lx_operations g). protected fb fo (in_lx g) (lx_operations g) i (pre (lx_operations g ! i)) (post (lx_operations g ! i))"
    using apply_protects [OF assms(1,6,5,4), of fb fo] by blast
  have "agree (in_lx g) (range fb) (lx_operations g) (length (lx_operations g))
      (exec_ops sem no_clobber (in_lx g) (lx_operations g) s) (exec_ops sem clob (in_lx g) (lx_operations g') s)" for sem clob s
    using agree_run [OF assms(1,3,7,2) r(3), of "length (lx_operations g)" sem s clob] r(2) by simp
  then show ?thesis using r(1) unfolding agree_def by blast
qed

definition lx_demo_fresh :: "nat \<Rightarrow> string" where
  "lx_demo_fresh k = ''tmp'' @ replicate k CHR ''x''"

definition lx_demo_graph :: "nat option \<Rightarrow> lx_graph" where
  "lx_demo_graph outs = \<lparr>lx_inputs = [''x'', ''y''],
     lx_operations =
       [\<lparr>lx_buf = ''a'', lx_opname = ''op0'', lx_reads = [''x''], lx_writes = [''a''], lx_class = ComputedOp\<rparr>,
        \<lparr>lx_buf = ''k'', lx_opname = ''op1'', lx_reads = [''y''], lx_writes = [''k''], lx_class = FallbackKernel outs (OpOverload False False)\<rparr>,
        \<lparr>lx_buf = ''b'', lx_opname = ''op2'', lx_reads = [''a'', ''k''], lx_writes = [''b''], lx_class = ComputedOp\<rparr>],
     in_lx = {''a''}, computed_bufs = {''a'', ''b''}, additional_buffer_deps = [], registered = 0\<rparr>"

lemma lx_demo_names_fresh: "names_fresh lx_demo_fresh (lx_demo_graph outs)"
proof -
  have "inj lx_demo_fresh" by (auto simp: inj_def lx_demo_fresh_def)
  then show ?thesis by (auto simp: names_fresh_def lx_demo_fresh_def lx_demo_graph_def liveness_names_def)
qed

lemma lx_demo_graph_ok:
  "originals (lx_operations (lx_demo_graph outs))" "kernel_io_in_hbm (lx_demo_graph outs)" "written_before_read (lx_demo_graph outs)"
  "in_lx (lx_demo_graph outs) \<subseteq> computed_bufs (lx_demo_graph outs)"
  by (simp_all add: originals_def kernel_io_in_hbm_def written_before_read_def lx_demo_graph_def touches_def upt_rec)

lemma lx_demo_guard: "outs = None \<or> outs = Some (Suc 0) \<Longrightarrow> guarded_residency (lx_demo_graph outs)"
  by (auto simp: guarded_residency_def lx_demo_graph_def calculate_liveness_eq op_graph_of_def accessed_at_def accesses_def
    multi_output_extern_kernel_in_live_range_def upt_rec split: option.splits)

theorem lx_context_switching_preserves_results_witness:
  "\<exists>g'. apply_pass lx_demo_fresh lx_demo_fresh True (lx_demo_graph (Some 1)) = Inr g' \<and>
    hbm_val (exec_ops (\<lambda>op vals w. sum_list vals + (1 :: nat)) (\<lambda>op m b. 99) {''a''} (lx_operations g') \<lparr>hbm_val = \<lambda>n. 5, lx_val = \<lambda>n. 0\<rparr>) ''b'' = 13"
proof -
  let ?g = "lx_demo_graph (Some 1)"
  obtain g' where r: "apply_pass lx_demo_fresh lx_demo_fresh True ?g = Inr g'"
    "\<forall>sem clob s n. n \<in> range lx_demo_fresh \<or> hbm_val (exec_ops sem clob (in_lx ?g) (lx_operations g') (s :: nat lx_mem)) n =
      hbm_val (exec_ops sem no_clobber (in_lx ?g) (lx_operations ?g) s) n"
    using lx_context_switching_preserves_results
      [OF lx_demo_graph_ok(1-3) lx_demo_guard _ lx_demo_graph_ok(4) lx_demo_names_fresh, of "Some 1" lx_demo_fresh]
    by (auto simp: known_outputs_def lx_demo_graph_def)
  have "''b'' \<notin> range lx_demo_fresh" by (auto simp: lx_demo_fresh_def)
  then have e: "hbm_val (exec_ops sem clob (in_lx ?g) (lx_operations g') (s :: nat lx_mem)) ''b'' =
      hbm_val (exec_ops sem no_clobber (in_lx ?g) (lx_operations ?g) s) ''b''" for sem clob s using r(2) by blast
  have "hbm_val (exec_ops (\<lambda>op vals w. sum_list vals + (1 :: nat)) no_clobber (in_lx ?g) (lx_operations ?g) \<lparr>hbm_val = \<lambda>n. 5, lx_val = \<lambda>n. 0\<rparr>) ''b'' = 13"
    by (simp add: lx_demo_graph_def exec_op_def compute_def read_buf_def risky_def is_cpu_only_fallback_def is_marked_lx_safe_def no_clobber_def)
  moreover have "in_lx ?g = {''a''}" by (simp add: lx_demo_graph_def)
  ultimately show ?thesis using r(1) e by metis
qed

text \<open>
  A kernel whose outputs are not recorded falls between the two protections.  The pass skips it, as it
  skips a kernel with several outputs; the allocator's guard, to which the pass refers for the kernels it
  skips, only fires when the outputs are recorded.  In this graph the buffer \<open>a\<close> is admitted to LX, lives
  across the kernel, is neither dumped nor restored, and the result computed from it changes with what the
  kernel leaves in the scratchpad.
\<close>

theorem unrecorded_outputs_unprotected:
  "multi_output_extern_kernel_in_live_range (lx_operations (lx_demo_graph None)) [0, 2] = False \<and>
   calculate_liveness (op_graph_of (lx_demo_graph None)) ''a'' = Some [0, 2] \<and>
   apply_pass lx_demo_fresh lx_demo_fresh True (lx_demo_graph None) = Inr (lx_demo_graph None) \<and>
   hbm_val (exec_ops (\<lambda>op vals w. sum_list vals + (1 :: nat)) no_clobber {''a''} (lx_operations (lx_demo_graph None)) \<lparr>hbm_val = \<lambda>n. 5, lx_val = \<lambda>n. 0\<rparr>) ''b'' = 13 \<and>
   hbm_val (exec_ops (\<lambda>op vals w. sum_list vals + (1 :: nat)) (\<lambda>op m b. 99) {''a''} (lx_operations (lx_demo_graph None)) \<lparr>hbm_val = \<lambda>n. 5, lx_val = \<lambda>n. 0\<rparr>) ''b'' = 106"
proof (intro conjI)
  show "multi_output_extern_kernel_in_live_range (lx_operations (lx_demo_graph None)) [0, 2] = False"
    by (simp add: multi_output_extern_kernel_in_live_range_def lx_demo_graph_def upt_rec)
  show "calculate_liveness (op_graph_of (lx_demo_graph None)) ''a'' = Some [0, 2]"
    by (simp add: calculate_liveness_eq accessed_at_def accesses_def op_graph_of_def lx_demo_graph_def upt_rec)
  show "apply_pass lx_demo_fresh lx_demo_fresh True (lx_demo_graph None) = Inr (lx_demo_graph None)"
    by (simp add: apply_pass_def select_bracket_targets_def select_target_def lx_demo_graph_def List.map_filter_def Let_def)
qed (simp_all add: lx_demo_graph_def exec_op_def compute_def read_buf_def risky_def is_cpu_only_fallback_def is_marked_lx_safe_def no_clobber_def)

end
