(* ===== verification/Hbm_Pool.thy ===== *)
theory Hbm_Pool
  imports Prelude "HOL-Library.AList" "HOL-Library.Product_Lexorder" "HOL-Library.List_Lexorder" "HOL-Library.Char_ord"
begin

text \<open>
  Pool allocation of HBM intermediates (\<open>torch_spyre/_inductor/hbm_pool_planning.py\<close>).

  The free-list \<open>Allocator\<close> is a record with its two state-changing methods.  The pass walks a
  list of scheduler nodes: a node carries its kind, the names its merged read/write sets
  hold (Inductor computes them) and, for fused nodes and counted loops, its children.  A graph
  buffer is what the pass reads of it: the identity of the allocation dict of its
  \<open>FixedTiledLayout\<close> (none for another layout), the device size the native layer reports, and
  whether it is a \<open>SpyreEmptyFallback\<close>.  The pass writes \<open>allocation["hbm_pool"]\<close> per
  allocation identity, the pool size per bundle, and \<open>removed_buffers\<close>.
\<close>

subsection \<open>The free-list allocator\<close>

record Allocator =
  free_blocks :: "(int \<times> int) list"
  pool_end :: int
  segment_size :: int
  currently_allocated :: int
  peak_usage :: int

definition new_allocator :: "int \<Rightarrow> Allocator" where
  "new_allocator seg = \<lparr>free_blocks = [], pool_end = 0, segment_size = seg,
     currently_allocated = 0, peak_usage = 0\<rparr>"

fun find_block :: "int \<Rightarrow> (int \<times> int) list \<Rightarrow> nat option" where
  "find_block sz [] = None"
| "find_block sz ((blk_offset, blk_size) # bs) =
     (if blk_size \<ge> sz then Some 0 else map_option Suc (find_block sz bs))"

definition allocate :: "Allocator \<Rightarrow> int \<Rightarrow> int option \<times> Allocator" where
  "allocate a sz =
     (let found = find_block sz (free_blocks a);
          offset = (case found of Some i \<Rightarrow> fst (free_blocks a ! i) | None \<Rightarrow> pool_end a);
          new_pool_end = (case found of Some i \<Rightarrow> pool_end a | None \<Rightarrow> pool_end a + sz)
      in if new_pool_end > segment_size a then (None, a)
         else
           let free' = (case found of
                 Some i \<Rightarrow>
                   (let (blk_offset, blk_size) = free_blocks a ! i;
                        popped = take i (free_blocks a) @ drop (Suc i) (free_blocks a);
                        remainder = blk_size - sz
                    in if remainder > 0 then popped @ [(blk_offset + sz, remainder)] else popped)
               | None \<Rightarrow> free_blocks a);
               cur = currently_allocated a + sz
           in (Some offset, a\<lparr>free_blocks := free', pool_end := new_pool_end,
                 currently_allocated := cur, peak_usage := max cur (peak_usage a)\<rparr>))"

definition free_block :: "Allocator \<Rightarrow> int \<Rightarrow> int \<Rightarrow> Allocator" where
  "free_block a offset sz =
     a\<lparr>free_blocks := free_blocks a @ [(offset, sz)],
       currently_allocated := currently_allocated a - sz\<rparr>"

definition align_up :: "int \<Rightarrow> int \<Rightarrow> int" where
  "align_up n alignment = ((n + alignment - 1) div alignment) * alignment"

definition HBM_ALLOCATION_ALIGNMENT_BYTES :: int where
  "HBM_ALLOCATION_ALIGNMENT_BYTES = 128"

definition SEGMENT_SIZE :: int where "SEGMENT_SIZE = 17179869184"
definition MAX_POOL_SIZE_BYTES :: int where "MAX_POOL_SIZE_BYTES = SEGMENT_SIZE - 2 * 1024 ^ 3"
definition INTERMEDIATES_SEGMENT :: int where "INTERMEDIATES_SEGMENT = 0"

subsection \<open>Scheduler nodes and graph buffers\<close>

datatype node_kind =
    Plain
  | KernelArg "string option"
  | Fused
  | CountedLoop

text \<open>\<open>KernelArg\<close> is a fallback, extern or nop node; its argument names the buffer of a
  \<open>SpyreEmptyFallback\<close>.\<close>

datatype snode = SNode (node_name: string) (kind: node_kind)
  (rw_writes: "string list") (rw_reads: "string list") (snodes: "snode list")

definition is_fused :: "snode \<Rightarrow> bool" where
  "is_fused n = (kind n = Fused \<or> kind n = CountedLoop)"

definition is_kernel_arg :: "snode \<Rightarrow> bool" where
  "is_kernel_arg n = (case kind n of KernelArg _ \<Rightarrow> True | _ \<Rightarrow> False)"

lemma snodes_smaller [termination_simp]: "size_list size (snodes n) < size n"
  by (cases n) simp

fun iter_all_nodes :: "snode list \<Rightarrow> snode list" where
  "iter_all_nodes [] = []"
| "iter_all_nodes (n # ns) =
     (if is_fused n then iter_all_nodes (snodes n) else [n]) @ iter_all_nodes ns"

record graph_buffer =
  gb_alloc :: "nat option"
  gb_is_symbol :: bool
  gb_device_size :: int
  gb_is_empty_fallback :: bool

record graph =
  graph_inputs :: "string list"
  graph_outputs :: "string list"
  get_buffer :: "string \<rightharpoonup> graph_buffer"
  lx_allocated :: "nat set"
  symbolic_args :: bool

definition alloc_id :: "graph \<Rightarrow> string \<Rightarrow> nat option" where
  "alloc_id g name = (case get_buffer g name of None \<Rightarrow> None | Some b \<Rightarrow> gb_alloc b)"

definition compute_size_bytes :: "graph \<Rightarrow> string \<Rightarrow> int res" where
  "compute_size_bytes g name =
     (case get_buffer g name of
        None \<Rightarrow> Inl AssertionError
      | Some b \<Rightarrow>
          if gb_alloc b = None then Inl AssertionError
          else Inr (align_up (gb_device_size b) HBM_ALLOCATION_ALIGNMENT_BYTES))"

subsection \<open>Live ranges\<close>

fun last_access :: "(snode \<Rightarrow> string list) \<Rightarrow> snode list \<Rightarrow> nat \<Rightarrow> string \<Rightarrow> nat option" where
  "last_access f [] idx name = None"
| "last_access f (n # ns) idx name =
     (case last_access f ns (Suc idx) name of
        Some i \<Rightarrow> Some i
      | None \<Rightarrow> if name \<in> set (f n) then Some idx else None)"

definition own_ranges :: "snode list \<Rightarrow> string list \<Rightarrow> (string \<times> nat \<times> nat) list" where
  "own_ranges nodes candidates =
     concat (map (\<lambda>name.
       (case last_access rw_writes nodes 0 name of
          None \<Rightarrow> []
        | Some s \<Rightarrow>
            [(name, s, (case last_access rw_reads nodes 0 name of
                          Some e \<Rightarrow> e | None \<Rightarrow> length nodes + 1))])) candidates)"

definition group_range :: "(string \<Rightarrow> nat option) \<Rightarrow> (string \<times> nat \<times> nat) list \<Rightarrow> nat \<Rightarrow> (nat \<times> nat) option" where
  "group_range alloc_of ranges aid =
     foldl (\<lambda>acc (name, s, e).
        if alloc_of name = Some aid
        then (case acc of None \<Rightarrow> Some (s, e) | Some (gs, ge) \<Rightarrow> Some (min gs s, max ge e))
        else acc) None ranges"

definition compute_live_ranges ::
  "snode list \<Rightarrow> string list \<Rightarrow> (string \<Rightarrow> nat option) \<Rightarrow> (string \<times> nat \<times> nat) list" where
  "compute_live_ranges nodes candidates alloc_of =
     (let ranges = own_ranges nodes candidates
      in map (\<lambda>(name, s, e).
           (case alloc_of name of
              None \<Rightarrow> (name, s, e)
            | Some aid \<Rightarrow>
                (case group_range alloc_of ranges aid of
                   None \<Rightarrow> (name, s, e)
                 | Some (gs, ge) \<Rightarrow> (name, gs, ge)))) ranges)"

subsection \<open>Pool candidates\<close>

definition io_names :: "graph \<Rightarrow> string set" where
  "io_names g = set (graph_inputs g) \<union> set (graph_outputs g)"

definition io_alloc_ids :: "graph \<Rightarrow> nat set" where
  "io_alloc_ids g =
     set (List.map_filter
       (\<lambda>n. case get_buffer g n of
              None \<Rightarrow> None
            | Some b \<Rightarrow> if gb_is_symbol b then None else gb_alloc b)
       (graph_inputs g @ graph_outputs g))"

definition fallback_read :: "snode list \<Rightarrow> string list" where
  "fallback_read nodes = concat (map rw_reads (filter is_kernel_arg (iter_all_nodes nodes)))"

definition fallback_read_alloc_ids :: "graph \<Rightarrow> snode list \<Rightarrow> nat set" where
  "fallback_read_alloc_ids g nodes =
     set (List.map_filter (alloc_id g) (fallback_read nodes))"

definition is_intermediate :: "graph \<Rightarrow> snode list \<Rightarrow> string \<Rightarrow> bool" where
  "is_intermediate g nodes name =
     (case alloc_id g name of
        None \<Rightarrow> False
      | Some aid \<Rightarrow> aid \<notin> lx_allocated g \<and> aid \<notin> io_alloc_ids g \<and>
          aid \<notin> fallback_read_alloc_ids g nodes)"

text \<open>Writes and reads of a bundle in walk order: first the dependency walk over its kernel
  nodes, then the \<open>SpyreEmptyFallback\<close> buffers, which have no dependency-tracked write.\<close>

definition bundle_writes :: "graph \<Rightarrow> snode \<Rightarrow> string list" where
  "bundle_writes g bundle =
     filter (\<lambda>w. w \<notin> set (graph_outputs g))
       (concat (map rw_writes (filter (\<lambda>n. \<not> is_kernel_arg n) (iter_all_nodes [bundle]))) @
        concat (map (\<lambda>n. case kind n of KernelArg (Some b) \<Rightarrow> [b] | _ \<Rightarrow> [])
          (iter_all_nodes [bundle])))"

definition bundle_reads :: "graph \<Rightarrow> snode \<Rightarrow> string list" where
  "bundle_reads g bundle =
     filter (\<lambda>r. r \<notin> set (graph_inputs g))
       (concat (map rw_reads (filter (\<lambda>n. \<not> is_kernel_arg n) (iter_all_nodes [bundle]))))"

definition buffer_writer_bundle :: "graph \<Rightarrow> snode list \<Rightarrow> string \<Rightarrow> string option" where
  "buffer_writer_bundle g nodes name =
     map_option node_name (last_such (\<lambda>b. name \<in> set (bundle_writes g b)) nodes)"

definition buffer_writer_bundles :: "graph \<Rightarrow> snode list \<Rightarrow> string \<Rightarrow> string list" where
  "buffer_writer_bundles g nodes name =
     remdups (map node_name (filter (\<lambda>b. name \<in> set (bundle_writes g b)) nodes))"

definition buffer_reader_bundles :: "graph \<Rightarrow> snode list \<Rightarrow> string \<Rightarrow> string list" where
  "buffer_reader_bundles g nodes name =
     remdups (map node_name (filter (\<lambda>b. name \<in> set (bundle_reads g b)) nodes))"

definition alloc_id_bundles :: "graph \<Rightarrow> snode list \<Rightarrow> nat \<Rightarrow> string list" where
  "alloc_id_bundles g nodes aid =
     remdups (map node_name
       (filter (\<lambda>b. Some aid \<in> set (map (alloc_id g) (bundle_writes g b))) nodes))"

definition alloc_id_reader_bundles :: "graph \<Rightarrow> snode list \<Rightarrow> nat \<Rightarrow> string list" where
  "alloc_id_reader_bundles g nodes aid =
     remdups (map node_name
       (filter (\<lambda>b. Some aid \<in> set (map (alloc_id g) (bundle_reads g b))) nodes))"

definition is_cross_bundle :: "graph \<Rightarrow> snode list \<Rightarrow> string \<Rightarrow> bool" where
  "is_cross_bundle g nodes name =
     (if length (buffer_writer_bundles g nodes name) > 1 then True
      else
        let aid = alloc_id g name;
            writer = buffer_writer_bundle g nodes name;
            shared_write = (case aid of None \<Rightarrow> False
                            | Some a \<Rightarrow> length (alloc_id_bundles g nodes a) > 1);
            shared_read = (case aid of None \<Rightarrow> False
                           | Some a \<Rightarrow>
                               (let alias_readers = set (map Some (alloc_id_reader_bundles g nodes a));
                                    ws = alloc_id_bundles g nodes a;
                                    alias_writers = (if ws = [] then {writer} else set (map Some ws))
                                in alias_readers - alias_writers \<noteq> {}))
        in if shared_write then True
           else if shared_read then True
           else set (map Some (buffer_reader_bundles g nodes name)) - {writer} \<noteq> {})"

definition all_candidates :: "graph \<Rightarrow> snode list \<Rightarrow> string list" where
  "all_candidates g nodes =
     filter (\<lambda>name. name \<in> set (concat (map (bundle_reads g) nodes)) \<and>
               name \<notin> io_names g \<and> name \<notin> set (fallback_read nodes) \<and>
               is_intermediate g nodes name \<and> \<not> is_cross_bundle g nodes name)
       (remdups (concat (map (bundle_writes g) nodes)))"

subsection \<open>Planning one bundle\<close>

definition live_range_nodes :: "snode \<Rightarrow> snode list" where
  "live_range_nodes bundle =
     (if kind bundle = CountedLoop then [bundle]
      else if is_fused bundle then snodes bundle else [bundle])"

definition join_group ::
  "(string \<Rightarrow> nat option) \<Rightarrow> nat \<Rightarrow> string \<Rightarrow> (string \<times> string list) list \<Rightarrow> (string \<times> string list) list" where
  "join_group alloc_of aid name groups =
     map (\<lambda>(rep, ns). if alloc_of rep = Some aid then (rep, ns @ [name]) else (rep, ns)) groups"

fun alloc_groups ::
  "(string \<Rightarrow> nat option) \<Rightarrow> string list \<Rightarrow> (string \<times> string list) list \<Rightarrow> (string \<times> string list) list" where
  "alloc_groups alloc_of [] groups = groups"
| "alloc_groups alloc_of (name # names) groups =
     (case alloc_of name of
        Some aid \<Rightarrow>
          if list_ex (\<lambda>(rep, _). alloc_of rep = Some aid) groups
          then alloc_groups alloc_of names (join_group alloc_of aid name groups)
          else alloc_groups alloc_of names (groups @ [(name, [name])])
      | None \<Rightarrow> alloc_groups alloc_of names (groups @ [(name, [name])]))"

text \<open>The allocation loop calls the allocator through its two methods, which are arguments here.
  \<open>release_expired\<close> frees every pending block whose live range ended before \<open>start\<close>; the rest
  stay.  A request is \<open>(start, end, size)\<close>; the result has an offset or \<open>None\<close> per request.\<close>

definition release_expired ::
  "('a \<Rightarrow> int \<Rightarrow> int \<Rightarrow> 'a) \<Rightarrow> 'a \<Rightarrow> (int \<times> int \<times> int) list \<Rightarrow> int \<Rightarrow> 'a \<times> (int \<times> int \<times> int) list" where
  "release_expired free a pending start =
     (foldl (\<lambda>a (e, off, sz). if e < start then free a off sz else a) a pending,
      filter (\<lambda>(e, off, sz). \<not> e < start) pending)"

fun pool_run ::
  "('a \<Rightarrow> int \<Rightarrow> int option \<times> 'a) \<Rightarrow> ('a \<Rightarrow> int \<Rightarrow> int \<Rightarrow> 'a) \<Rightarrow> 'a \<Rightarrow>
   (int \<times> int \<times> int) list \<Rightarrow> (int \<times> int \<times> int) list \<Rightarrow> 'a \<times> int option list" where
  "pool_run alloc free a pending [] = (a, [])"
| "pool_run alloc free a pending ((start, e, sz) # rs) =
     (case release_expired free a pending start of (a1, still_live) \<Rightarrow>
        (case alloc a1 sz of
           (None, a2) \<Rightarrow>
             (case pool_run alloc free a2 still_live rs of (a3, os) \<Rightarrow> (a3, None # os))
         | (Some off, a2) \<Rightarrow>
             (case pool_run alloc free a2 (still_live @ [(e, off, sz)]) rs of
                (a3, os) \<Rightarrow> (a3, Some off # os))))"

record bundle_plan =
  bp_groups :: "(string \<times> string list) list"
  bp_requests :: "(int \<times> int \<times> int) list"
  bp_offsets :: "int option list"
  bp_pool_extent :: int

definition sorted_ranges :: "(string \<times> nat \<times> nat) list \<Rightarrow> (string \<times> nat \<times> nat) list" where
  "sorted_ranges rs = sort_key (\<lambda>(name, s, e). (s, e, name)) rs"

definition bundle_candidates :: "graph \<Rightarrow> snode list \<Rightarrow> snode \<Rightarrow> string list" where
  "bundle_candidates g nodes bundle =
     filter (\<lambda>n. buffer_writer_bundle g nodes n = Some (node_name bundle)) (all_candidates g nodes)"

definition bundle_ranges :: "graph \<Rightarrow> snode list \<Rightarrow> snode \<Rightarrow> (string \<times> nat \<times> nat) list" where
  "bundle_ranges g nodes bundle =
     sorted_ranges (compute_live_ranges (live_range_nodes bundle)
       (bundle_candidates g nodes bundle) (alloc_id g))"

definition group_request ::
  "graph \<Rightarrow> (string \<times> nat \<times> nat) list \<Rightarrow> string \<times> string list \<Rightarrow> (int \<times> int \<times> int) res" where
  "group_request g ranges gr =
     bindE (compute_size_bytes g (fst gr)) (\<lambda>sz.
       case map_of ranges (fst gr) of
         None \<Rightarrow> Inl KeyError
       | Some (s, e) \<Rightarrow> Inr (int s, int e, sz))"

definition plan_bundle :: "graph \<Rightarrow> snode list \<Rightarrow> snode \<Rightarrow> bundle_plan option res" where
  "plan_bundle g nodes bundle =
     (if bundle_candidates g nodes bundle = [] then Inr None
      else
        let ranges = bundle_ranges g nodes bundle;
            groups = alloc_groups (alloc_id g) (map fst ranges) []
        in bindE (mapE (group_request g ranges) groups) (\<lambda>requests.
             case pool_run allocate free_block (new_allocator MAX_POOL_SIZE_BYTES) [] requests of
               (a, offsets) \<Rightarrow>
                 Inr (Some \<lparr>bp_groups = groups, bp_requests = requests, bp_offsets = offsets,
                        bp_pool_extent = pool_end a\<rparr>)))"

text \<open>Writing the plan back: the allocation dict of every allocated group, the pool size of
  the bundle and the removed buffers.\<close>

record pool_state =
  hbm_pool :: "nat \<rightharpoonup> int"
  hbm_pool_sizes :: "(string \<times> int) list"
  removed_buffers :: "string set"

definition commit_group :: "graph \<Rightarrow> (string \<times> string list) \<times> int option \<Rightarrow> pool_state \<Rightarrow> pool_state" where
  "commit_group g p st =
     (case p of ((rep, names), off) \<Rightarrow>
        (case off of
           None \<Rightarrow> st
         | Some offset \<Rightarrow>
             st\<lparr>hbm_pool := (case alloc_id g rep of
                   None \<Rightarrow> hbm_pool st
                 | Some aid \<Rightarrow> (hbm_pool st)(aid \<mapsto>
                     (if symbolic_args g then offset else INTERMEDIATES_SEGMENT + offset))),
                removed_buffers := removed_buffers st \<union>
                  set (filter (\<lambda>n. case get_buffer g n of
                     None \<Rightarrow> False | Some b \<Rightarrow> gb_is_empty_fallback b) names)\<rparr>))"

definition commit_bundle :: "graph \<Rightarrow> string \<Rightarrow> bundle_plan \<Rightarrow> pool_state \<Rightarrow> pool_state" where
  "commit_bundle g bundle_name p st =
     (let st' = fold (commit_group g) (zip (bp_groups p) (bp_offsets p)) st
      in st'\<lparr>hbm_pool_sizes := AList.update bundle_name (bp_pool_extent p) (hbm_pool_sizes st')\<rparr>)"

fun plan_bundles :: "graph \<Rightarrow> snode list \<Rightarrow> snode list \<Rightarrow> pool_state \<Rightarrow> pool_state res" where
  "plan_bundles g nodes [] st = Inr st"
| "plan_bundles g nodes (b # bs) st =
     bindE (plan_bundle g nodes b) (\<lambda>p.
       plan_bundles g nodes bs (case p of None \<Rightarrow> st | Some p \<Rightarrow> commit_bundle g (node_name b) p st))"

definition hbm_pool_planning :: "bool \<Rightarrow> graph \<Rightarrow> snode list \<Rightarrow> (nat \<rightharpoonup> int) \<Rightarrow> string set \<Rightarrow> pool_state res" where
  "hbm_pool_planning enabled g nodes pool removed =
     (let st = \<lparr>hbm_pool = pool, hbm_pool_sizes = [], removed_buffers = removed\<rparr>
      in if \<not> enabled then Inr st else plan_bundles g nodes nodes st)"

subsection \<open>The allocator invariant\<close>

text \<open>Blocks as a multiset: distinct positions of it hold disjoint byte ranges.\<close>

definition separate :: "int \<times> int \<Rightarrow> int \<times> int \<Rightarrow> bool" where
  "separate b c \<longleftrightarrow> disjoint_iv (fst b) (fst b + snd b) (fst c) (fst c + snd c)"

definition pairwise_separate :: "(int \<times> int) multiset \<Rightarrow> bool" where
  "pairwise_separate M \<longleftrightarrow> (\<forall>b\<in>#M. \<forall>c\<in>#M - {#b#}. separate b c)"

text \<open>The blocks tile the pool: pairwise disjoint, inside \<open>[0, pool_end)\<close>, and no byte is lost.\<close>

definition tiles :: "int \<Rightarrow> (int \<times> int) multiset \<Rightarrow> bool" where
  "tiles pe M \<longleftrightarrow> pairwise_separate M \<and>
     (\<forall>b\<in>#M. 0 \<le> fst b \<and> 0 \<le> snd b \<and> fst b + snd b \<le> pe) \<and> (\<Sum>b\<in>#M. snd b) = pe"

definition alloc_inv :: "Allocator \<Rightarrow> (int \<times> int) multiset \<Rightarrow> bool" where
  "alloc_inv a live \<longleftrightarrow> tiles (pool_end a) (mset (free_blocks a) + live) \<and>
     currently_allocated a = (\<Sum>b\<in>#live. snd b) \<and>
     currently_allocated a \<le> peak_usage a \<and> peak_usage a \<le> pool_end a \<and>
     pool_end a \<le> segment_size a"

lemma separate_sym: "separate b c \<Longrightarrow> separate c b"
  by (auto simp: separate_def interval_simps)

lemma pairwise_separate_add [simp]:
  "pairwise_separate (add_mset b M) \<longleftrightarrow> pairwise_separate M \<and> (\<forall>c\<in>#M. separate b c)"
proof
  assume L: "pairwise_separate (add_mset b M)"
  then have b: "\<forall>c\<in>#M. separate b c" by (simp add: pairwise_separate_def)
  have "separate x c" if "x \<in># M" "c \<in># M - {#x#}" for x c
  proof -
    have "c \<in># add_mset b M - {#x#}" using that by (simp add: multiset_add_sub_el_shuffle in_diff_count)
    with L that(1) show ?thesis by (auto simp: pairwise_separate_def)
  qed
  with b show "pairwise_separate M \<and> (\<forall>c\<in>#M. separate b c)" by (simp add: pairwise_separate_def)
next
  assume R: "pairwise_separate M \<and> (\<forall>c\<in>#M. separate b c)"
  have "separate x c" if "x \<in># add_mset b M" "c \<in># add_mset b M - {#x#}" for x c
  proof (cases "x = b")
    case True
    with that R show ?thesis by simp
  next
    case False
    with that have x: "x \<in># M" by simp
    with that(2) False have "c = b \<or> c \<in># M - {#x#}" by (auto simp: add_mset_diff_bothsides diff_add_mset_swap)
    with R x show ?thesis by (auto simp: pairwise_separate_def intro: separate_sym)
  qed
  then show "pairwise_separate (add_mset b M)" by (simp add: pairwise_separate_def)
qed


lemma find_block_Some:
  "find_block sz bs = Some i \<Longrightarrow> i < length bs \<and> sz \<le> snd (bs ! i)"
  by (induction sz bs arbitrary: i rule: find_block.induct) (auto split: if_splits)

lemma find_block_None: "find_block sz bs = None \<longleftrightarrow> (\<forall>b\<in>set bs. snd b < sz)"
  by (induction sz bs rule: find_block.induct) auto

lemma find_block_first: "find_block sz bs = Some i \<Longrightarrow> j < i \<Longrightarrow> snd (bs ! j) < sz"
proof (induction sz bs arbitrary: i j rule: find_block.induct)
  case (2 sz o' s bs)
  then show ?case by (cases j) (auto split: if_splits)
qed simp

lemma mset_pop: "i < length xs \<Longrightarrow> mset xs = add_mset (xs ! i) (mset (take i xs @ drop (Suc i) xs))"
  by (metis id_take_nth_drop mset.simps(2) mset_append union_mset_add_mset_right)

lemma sum_snd_nonneg: "\<forall>b\<in>#M. 0 \<le> snd b \<Longrightarrow> 0 \<le> (\<Sum>b\<in>#M. (snd b :: int))"
  by (induction M) auto

lemma tiles_sub_nonneg: "tiles pe (M + N) \<Longrightarrow> 0 \<le> (\<Sum>b\<in>#M. snd b)"
  by (rule sum_snd_nonneg) (simp add: tiles_def)

lemma tiles_nonneg: "tiles pe M \<Longrightarrow> 0 \<le> pe"
  using tiles_sub_nonneg [of pe M "{#}"] by (simp add: tiles_def)

lemma tiles_bump:
  assumes "tiles pe M" "0 \<le> sz"
  shows "tiles (pe + sz) (add_mset (pe, sz) M)"
  using assms tiles_nonneg [OF assms(1)]
  by (fastforce simp: tiles_def separate_def interval_simps)

lemma tiles_split:
  assumes "tiles pe (add_mset (off, s) M)" "0 \<le> sz" "sz \<le> s"
  shows "tiles pe (add_mset (off, sz) (add_mset (off + sz, s - sz) M))"
  using assms by (fastforce simp: tiles_def separate_def interval_simps)

lemma tiles_drop_empty: "tiles pe (add_mset (off, 0) M) \<Longrightarrow> tiles pe M"
  by (simp add: tiles_def)

text \<open>The three outcomes of \<open>allocate\<close>.\<close>

lemma allocate_cases:
  assumes "allocate a sz = (r, a')"
  obtains (full) "r = None" "a' = a" "find_block sz (free_blocks a) = None"
      "segment_size a < pool_end a + sz"
  | (oversized) i where "r = None" "a' = a" "find_block sz (free_blocks a) = Some i"
      "segment_size a < pool_end a"
  | (bump) "find_block sz (free_blocks a) = None" "r = Some (pool_end a)"
      "pool_end a + sz \<le> segment_size a"
      "a' = a\<lparr>pool_end := pool_end a + sz, currently_allocated := currently_allocated a + sz,
              peak_usage := max (currently_allocated a + sz) (peak_usage a)\<rparr>"
  | (reuse) i where "find_block sz (free_blocks a) = Some i"
      "r = Some (fst (free_blocks a ! i))" "pool_end a \<le> segment_size a"
      "a' = a\<lparr>free_blocks := take i (free_blocks a) @ drop (Suc i) (free_blocks a) @
                (if snd (free_blocks a ! i) - sz > 0
                 then [(fst (free_blocks a ! i) + sz, snd (free_blocks a ! i) - sz)] else []),
              currently_allocated := currently_allocated a + sz,
              peak_usage := max (currently_allocated a + sz) (peak_usage a)\<rparr>"
proof (cases "find_block sz (free_blocks a)")
  case None
  then show thesis
    using assms full bump by (auto simp: allocate_def Let_def split: if_splits)
next
  case (Some i)
  then show thesis
    using assms oversized [OF _ _ Some] reuse [OF Some]
    by (auto simp: allocate_def Let_def case_prod_beta split: if_splits)
qed

lemma alloc_inv_new: "0 \<le> seg \<Longrightarrow> alloc_inv (new_allocator seg) {#}"
  by (simp add: alloc_inv_def tiles_def new_allocator_def pairwise_separate_def)

lemma alloc_inv_free:
  assumes "alloc_inv a (add_mset (off, sz) live)"
  shows "alloc_inv (free_block a off sz) live"
proof -
  have "0 \<le> sz" using assms by (simp add: alloc_inv_def tiles_def)
  with assms show ?thesis by (simp add: alloc_inv_def free_block_def)
qed

lemma alloc_inv_after:
  assumes inv: "alloc_inv a live" and "0 \<le> sz"
    and t: "tiles (pool_end a') (mset (free_blocks a') + add_mset (off, sz) live)"
    and "currently_allocated a' = currently_allocated a + sz"
    and "peak_usage a' = max (currently_allocated a + sz) (peak_usage a)"
    and "pool_end a \<le> pool_end a'" "pool_end a' \<le> segment_size a'"
  shows "alloc_inv a' (add_mset (off, sz) live)"
proof -
  have "(\<Sum>b\<in>#mset (free_blocks a') + add_mset (off, sz) live. snd b) = pool_end a'"
    using t by (simp add: tiles_def)
  with tiles_sub_nonneg [OF t] have "(\<Sum>b\<in>#live. snd b) + sz \<le> pool_end a'" by simp
  with assms show ?thesis by (simp add: alloc_inv_def)
qed

lemma alloc_inv_allocate:
  assumes inv: "alloc_inv a live" and sz: "0 \<le> sz" and al: "allocate a sz = (Some off, a')"
  shows "alloc_inv a' (add_mset (off, sz) live)"
  using al
proof (cases rule: allocate_cases)
  case bump
  then show ?thesis
    using inv sz by (intro alloc_inv_after [OF inv sz]) (auto simp: alloc_inv_def dest: tiles_bump)
next
  case (reuse i)
  let ?b = "free_blocks a ! i" and ?rest = "mset (take i (free_blocks a) @ drop (Suc i) (free_blocks a))"
  note i = find_block_Some [OF reuse(1)]
  have "tiles (pool_end a) (add_mset (fst ?b, snd ?b) (?rest + live))"
    using inv mset_pop [of i "free_blocks a"] i by (simp add: alloc_inv_def)
  from tiles_split [OF this sz] i
  have "tiles (pool_end a) (add_mset (fst ?b, sz) (add_mset (fst ?b + sz, snd ?b - sz) (?rest + live)))"
    by simp
  then have "tiles (pool_end a') (mset (free_blocks a') + add_mset (off, sz) live)"
    using reuse i tiles_drop_empty [of "pool_end a" "fst ?b + sz" "add_mset (fst ?b, sz) (?rest + live)"]
    by (auto simp: add_mset_commute)
  then show ?thesis
    using reuse inv sz by (intro alloc_inv_after [OF inv sz]) simp_all
qed auto


text \<open>Offsets and sizes stay multiples of a granule when every request is one.\<close>

definition granular :: "int \<Rightarrow> Allocator \<Rightarrow> (int \<times> int) multiset \<Rightarrow> bool" where
  "granular k a live \<longleftrightarrow> k dvd pool_end a \<and>
     (\<forall>b\<in>#mset (free_blocks a) + live. k dvd fst b \<and> k dvd snd b)"

lemma granular_allocate:
  assumes "granular k a live" "k dvd sz" "allocate a sz = (Some off, a')"
  shows "granular k a' (add_mset (off, sz) live)"
  using assms(3)
proof (cases rule: allocate_cases)
  case (reuse i)
  have "free_blocks a ! i \<in> set (free_blocks a)" using find_block_Some [OF reuse(1)] by simp
  then have "k dvd fst (free_blocks a ! i)" "k dvd snd (free_blocks a ! i)"
    using assms(1) by (auto simp: granular_def)
  moreover have "set (take i (free_blocks a)) \<union> set (drop (Suc i) (free_blocks a)) \<subseteq> set (free_blocks a)"
    by (simp add: set_take_subset set_drop_subset)
  ultimately show ?thesis
    using reuse assms(1,2) by (auto simp: granular_def)
qed (use assms(1,2) in \<open>auto simp: granular_def\<close>)

subsection \<open>The allocation loop over an allocator contract\<close>

locale block_pool =
  fixes alloc :: "'a \<Rightarrow> int \<Rightarrow> int option \<times> 'a"
    and release :: "'a \<Rightarrow> int \<Rightarrow> int \<Rightarrow> 'a"
    and inv :: "'a \<Rightarrow> (int \<times> int) multiset \<Rightarrow> bool"
    and extent :: "'a \<Rightarrow> int"
    and granule :: int
  assumes alloc_Some: "inv a live \<Longrightarrow> 0 \<le> sz \<Longrightarrow> granule dvd sz \<Longrightarrow> alloc a sz = (Some off, a') \<Longrightarrow>
      inv a' (add_mset (off, sz) live) \<and> extent a \<le> extent a'"
    and alloc_None: "alloc a sz = (None, a') \<Longrightarrow> a' = a"
    and release_inv: "inv a (add_mset (off, sz) live) \<Longrightarrow>
      inv (release a off sz) live \<and> extent (release a off sz) = extent a"
    and inv_separate: "inv a (add_mset b (add_mset c live)) \<Longrightarrow> separate b c"
    and inv_block: "inv a (add_mset (off, sz) live) \<Longrightarrow> 0 \<le> off \<and> off + sz \<le> extent a \<and> granule dvd off"
begin

abbreviation held :: "(int \<times> int \<times> int) list \<Rightarrow> (int \<times> int) multiset" where
  "held pending \<equiv> image_mset snd (mset pending)"

lemma release_loop:
  assumes "inv a (held pending + M)"
  shows "inv (foldl (\<lambda>a (e, off, sz). if e < start then release a off sz else a) a pending)
           (held (filter (\<lambda>(e, off, sz). \<not> e < start) pending) + M) \<and>
         extent (foldl (\<lambda>a (e, off, sz). if e < start then release a off sz else a) a pending) = extent a"
  using assms
proof (induction pending arbitrary: a M)
  case (Cons p ps)
  obtain e off sz where p: "p = (e, off, sz)" by (cases p)
  show ?case
  proof (cases "e < start")
    case True
    with Cons.prems p have "inv (release a off sz) (held ps + M)" "extent (release a off sz) = extent a"
      by (auto dest!: release_inv)
    with Cons.IH [OF this(1)] True p show ?thesis by simp
  next
    case False
    have "inv a (held ps + add_mset (off, sz) M)" using Cons.prems p by simp
    from Cons.IH [OF this] False p show ?thesis by simp
  qed
qed simp

lemma release_expired_inv:
  assumes "inv a (held pending)" "release_expired release a pending start = (a1, still)"
  shows "inv a1 (held still)" "extent a1 = extent a" "set still = {p \<in> set pending. start \<le> fst p}"
  using release_loop [of a pending "{#}" start] assms by (auto simp: release_expired_def)

lemma held_separate:
  assumes "inv a (add_mset b (held pending))" "(e, c) \<in> set pending"
  shows "separate c b"
proof -
  obtain M where "mset pending = add_mset (e, c) M"
    using assms(2) by (metis mset_add set_mset_mset)
  with assms(1) have "inv a (add_mset b (add_mset c (image_mset snd M)))" by simp
  then show ?thesis by (auto dest: inv_separate intro: separate_sym)
qed

text \<open>What a run of the loop guarantees, for the requests \<open>rs\<close> and the blocks still pending.\<close>

definition run_ok :: "(int \<times> int \<times> int) list \<Rightarrow> (int \<times> int \<times> int) list \<Rightarrow> int \<Rightarrow> int option list \<Rightarrow> bool" where
  "run_ok pending rs ext os \<longleftrightarrow> length os = length rs \<and>
     (\<forall>j off. j < length rs \<longrightarrow> os ! j = Some off \<longrightarrow>
        0 \<le> off \<and> off + snd (snd (rs ! j)) \<le> ext \<and> granule dvd off) \<and>
     (\<forall>i j off off'. i < j \<longrightarrow> j < length rs \<longrightarrow> os ! i = Some off \<longrightarrow> os ! j = Some off' \<longrightarrow>
        fst (rs ! j) \<le> fst (snd (rs ! i)) \<longrightarrow>
        separate (off, snd (snd (rs ! i))) (off', snd (snd (rs ! j)))) \<and>
     (\<forall>e c j off'. (e, c) \<in> set pending \<longrightarrow> j < length rs \<longrightarrow> os ! j = Some off' \<longrightarrow>
        fst (rs ! j) \<le> e \<longrightarrow> separate c (off', snd (snd (rs ! j))))"

lemma run_okD:
  assumes "run_ok pending rs ext os"
  shows "length os = length rs"
    and "j < length rs \<Longrightarrow> os ! j = Some off \<Longrightarrow> 0 \<le> off \<and> off + snd (snd (rs ! j)) \<le> ext \<and> granule dvd off"
    and "i < j \<Longrightarrow> j < length rs \<Longrightarrow> os ! i = Some off \<Longrightarrow> os ! j = Some off' \<Longrightarrow>
      fst (rs ! j) \<le> fst (snd (rs ! i)) \<Longrightarrow>
      separate (off, snd (snd (rs ! i))) (off', snd (snd (rs ! j)))"
    and "(e, c) \<in> set pending \<Longrightarrow> j < length rs \<Longrightarrow> os ! j = Some off' \<Longrightarrow> fst (rs ! j) \<le> e \<Longrightarrow>
      separate c (off', snd (snd (rs ! j)))"
  using assms unfolding run_ok_def by blast+

lemma run_ok_skip:
  assumes ok: "run_ok still rs ext os" and still: "{p \<in> set pending. start \<le> fst p} \<subseteq> set still"
    and sorted: "\<forall>r\<in>set rs. start \<le> fst r"
  shows "run_ok pending ((start, e, sz) # rs) ext (None # os)"
  unfolding run_ok_def
proof (intro conjI allI impI)
  show "length (None # os) = length ((start, e, sz) # rs)" using run_okD(1) [OF ok] by simp
next
  fix j off assume "j < length ((start, e, sz) # rs)" "(None # os) ! j = Some off"
  then show "0 \<le> off" "off + snd (snd (((start, e, sz) # rs) ! j)) \<le> ext" "granule dvd off"
    using run_okD(2) [OF ok] by (cases j; simp)+
next
  fix i j off off'
  assume h: "i < j" "j < length ((start, e, sz) # rs)" "(None # os) ! i = Some off" "(None # os) ! j = Some off'"
    "fst (((start, e, sz) # rs) ! j) \<le> fst (snd (((start, e, sz) # rs) ! i))"
  then obtain i' j' where "i = Suc i'" "j = Suc j'" by (cases i; cases j) auto
  with h show "separate (off, snd (snd (((start, e, sz) # rs) ! i))) (off', snd (snd (((start, e, sz) # rs) ! j)))"
    using run_okD(3) [OF ok] by simp
next
  fix e' c j off'
  assume h: "(e', c) \<in> set pending" "j < length ((start, e, sz) # rs)" "(None # os) ! j = Some off'"
    "fst (((start, e, sz) # rs) ! j) \<le> e'"
  then obtain j' where j: "j = Suc j'" by (cases j) auto
  with h(2) have "rs ! j' \<in> set rs" by simp
  with sorted h(4) j have "start \<le> e'" by fastforce
  with h(1) still have "(e', c) \<in> set still" by auto
  with h j show "separate c (off', snd (snd (((start, e, sz) # rs) ! j)))"
    using run_okD(4) [OF ok] by simp
qed

lemma run_ok_take:
  assumes ok: "run_ok (still @ [(e, off0, sz)]) rs ext os"
    and still: "{p \<in> set pending. start \<le> fst p} \<subseteq> set still"
    and sorted: "\<forall>r\<in>set rs. start \<le> fst r"
    and block: "0 \<le> off0" "off0 + sz \<le> ext" "granule dvd off0"
    and sep: "\<And>e' c. (e', c) \<in> set still \<Longrightarrow> separate c (off0, sz)"
  shows "run_ok pending ((start, e, sz) # rs) ext (Some off0 # os)"
  unfolding run_ok_def
proof (intro conjI allI impI)
  show "length (Some off0 # os) = length ((start, e, sz) # rs)" using run_okD(1) [OF ok] by simp
next
  fix j off assume "j < length ((start, e, sz) # rs)" "(Some off0 # os) ! j = Some off"
  then show "0 \<le> off" "off + snd (snd (((start, e, sz) # rs) ! j)) \<le> ext" "granule dvd off"
    using run_okD(2) [OF ok] block by (cases j; simp)+
next
  fix i j off off'
  assume h: "i < j" "j < length ((start, e, sz) # rs)" "(Some off0 # os) ! i = Some off"
    "(Some off0 # os) ! j = Some off'"
    "fst (((start, e, sz) # rs) ! j) \<le> fst (snd (((start, e, sz) # rs) ! i))"
  then obtain j' where j: "j = Suc j'" by (cases j) auto
  with h show "separate (off, snd (snd (((start, e, sz) # rs) ! i))) (off', snd (snd (((start, e, sz) # rs) ! j)))"
    using run_okD(3) [OF ok, of "i - 1" j'] run_okD(4) [OF ok, of e "(off0, sz)" j']
    by (cases i) simp_all
next
  fix e' c j off'
  assume h: "(e', c) \<in> set pending" "j < length ((start, e, sz) # rs)" "(Some off0 # os) ! j = Some off'"
    "fst (((start, e, sz) # rs) ! j) \<le> e'"
  have "start \<le> fst (((start, e, sz) # rs) ! j)" using h(2) sorted by (cases j) auto
  with h(1,4) still have s: "(e', c) \<in> set still" by auto
  with h sep [OF s] show "separate c (off', snd (snd (((start, e, sz) # rs) ! j)))"
    using run_okD(4) [OF ok, of e' c "j - 1"] by (cases j) simp_all
qed

lemma pool_run_ok:
  assumes "inv a (held pending)" "sorted_wrt (\<lambda>r r'. fst r \<le> fst r') rs"
    and "\<forall>r\<in>set rs. 0 \<le> snd (snd r) \<and> granule dvd snd (snd r)"
    and "pool_run alloc release a pending rs = (a', os)"
  shows "run_ok pending rs (extent a') os \<and> extent a \<le> extent a' \<and> (\<exists>live. inv a' live)"
  using assms
proof (induction rs arbitrary: a pending os)
  case Nil
  then show ?case by (auto simp: run_ok_def)
next
  case (Cons r rs)
  obtain start e sz where r: "r = (start, e, sz)" by (cases r)
  obtain a1 still where rel: "release_expired release a pending start = (a1, still)" by fastforce
  obtain x a2 where al: "alloc a1 sz = (x, a2)" by fastforce
  note a1 = release_expired_inv [OF Cons.prems(1) rel]
  have sorted: "\<forall>r\<in>set rs. start \<le> fst r" "sorted_wrt (\<lambda>r r'. fst r \<le> fst r') rs"
    using Cons.prems(2) r by auto
  have sizes: "\<forall>r\<in>set rs. 0 \<le> snd (snd r) \<and> granule dvd snd (snd r)" "0 \<le> sz" "granule dvd sz"
    using Cons.prems(3) r by auto
  show ?case
  proof (cases x)
    case None
    obtain os' where run: "pool_run alloc release a1 still rs = (a', os')" and os: "os = None # os'"
      using Cons.prems(4) al None alloc_None by (auto simp: r rel split: prod.splits)
    from Cons.IH [OF a1(1) sorted(2) sizes(1) run] a1(2,3) sorted(1) show ?thesis
      unfolding os r by (auto intro!: run_ok_skip)
  next
    case (Some off0)
    obtain os' where run: "pool_run alloc release a2 (still @ [(e, off0, sz)]) rs = (a', os')"
        and os: "os = Some off0 # os'"
      using Cons.prems(4) al Some by (auto simp: r rel split: prod.splits)
    have inv2: "inv a2 (add_mset (off0, sz) (held still))" and ext: "extent a1 \<le> extent a2"
      using alloc_Some [OF a1(1) sizes(2,3)] al Some by auto
    then have "inv a2 (held (still @ [(e, off0, sz)]))" by simp
    from Cons.IH [OF this sorted(2) sizes(1) run]
    have ih: "run_ok (still @ [(e, off0, sz)]) rs (extent a') os'" "extent a2 \<le> extent a'"
        "\<exists>live. inv a' live" by auto
    have "run_ok pending ((start, e, sz) # rs) (extent a') (Some off0 # os')"
      using inv_block [OF inv2] ih(2) a1(3)
      by (intro run_ok_take [OF ih(1) _ sorted(1)]) (auto intro: held_separate [OF inv2])
    with ih ext a1(2) show ?thesis unfolding os r by auto
  qed
qed

end

interpretation pool: block_pool allocate free_block
  "\<lambda>a live. alloc_inv a live \<and> granular HBM_ALLOCATION_ALIGNMENT_BYTES a live" pool_end
  HBM_ALLOCATION_ALIGNMENT_BYTES
proof
  fix a a' off live and sz :: int
  assume "alloc_inv a live \<and> granular HBM_ALLOCATION_ALIGNMENT_BYTES a live" "0 \<le> sz"
    "HBM_ALLOCATION_ALIGNMENT_BYTES dvd sz" and al: "allocate a sz = (Some off, a')"
  moreover have "pool_end a \<le> pool_end a'"
    using al by (cases rule: allocate_cases) (use \<open>0 \<le> sz\<close> in auto)
  ultimately show "(alloc_inv a' (add_mset (off, sz) live) \<and>
      granular HBM_ALLOCATION_ALIGNMENT_BYTES a' (add_mset (off, sz) live)) \<and> pool_end a \<le> pool_end a'"
    by (auto intro: alloc_inv_allocate granular_allocate)
next
  fix a a' :: Allocator and sz :: int
  assume "allocate a sz = (None, a')"
  then show "a' = a" by (cases rule: allocate_cases) auto
next
  fix a off live and sz :: int
  assume "alloc_inv a (add_mset (off, sz) live) \<and>
    granular HBM_ALLOCATION_ALIGNMENT_BYTES a (add_mset (off, sz) live)"
  then show "(alloc_inv (free_block a off sz) live \<and>
      granular HBM_ALLOCATION_ALIGNMENT_BYTES (free_block a off sz) live) \<and>
      pool_end (free_block a off sz) = pool_end a"
    using alloc_inv_free [of a off sz live] by (auto simp: granular_def free_block_def)
qed (auto simp: alloc_inv_def tiles_def granular_def)

subsection \<open>Alias groups\<close>

lemma join_group_reps [simp]: "map fst (join_group alloc_of aid name groups) = map fst groups"
  unfolding join_group_def by (induction groups) auto

lemma alloc_groups_step:
  obtains (join) aid where "alloc_of name = Some aid" "Some aid \<in> set (map alloc_of (map fst groups))"
      "alloc_groups alloc_of (name # names) groups = alloc_groups alloc_of names (join_group alloc_of aid name groups)"
  | (fresh) "alloc_of name = None \<or> alloc_of name \<notin> set (map alloc_of (map fst groups))"
      "alloc_groups alloc_of (name # names) groups = alloc_groups alloc_of names (groups @ [(name, [name])])"
proof (cases "alloc_of name")
  case None
  then show thesis using fresh by simp
next
  case (Some aid)
  have ex: "list_ex (\<lambda>(rep, _). alloc_of rep = Some aid) groups \<longleftrightarrow>
      Some aid \<in> set (map alloc_of (map fst groups))"
    by (induction groups) auto
  show thesis
  proof (cases "Some aid \<in> set (map alloc_of (map fst groups))")
    case True
    then show thesis using join [OF Some] ex Some by simp
  next
    case False
    then show thesis using fresh ex Some by simp
  qed
qed

lemma alloc_groups_sorted:
  assumes "sorted_wrt R (map fst groups @ names)"
  shows "sorted_wrt R (map fst (alloc_groups alloc_of names groups))"
  using assms
proof (induction names arbitrary: groups)
  case (Cons name names)
  show ?case
  proof (cases rule: alloc_groups_step [of alloc_of name groups names])
    case (join aid)
    have "sorted_wrt R (map fst groups @ names)"
      using Cons.prems by (auto simp: sorted_wrt_append)
    then show ?thesis unfolding join(3) by (intro Cons.IH) simp
  next
    case fresh
    show ?thesis unfolding fresh(2) using Cons.prems by (intro Cons.IH) simp
  qed
qed simp

definition group_ok :: "(string \<Rightarrow> nat option) \<Rightarrow> string \<times> string list \<Rightarrow> bool" where
  "group_ok alloc_of gr \<longleftrightarrow> fst gr \<in> set (snd gr) \<and> alloc_of ` set (snd gr) = {alloc_of (fst gr)}"

lemma join_group_ok:
  assumes "\<forall>gr\<in>set groups. group_ok alloc_of gr" "alloc_of name = Some aid"
  shows "\<forall>gr\<in>set (join_group alloc_of aid name groups). group_ok alloc_of gr"
proof -
  have "group_ok alloc_of (rep, ns @ [name])" if "group_ok alloc_of (rep, ns)" "alloc_of rep = Some aid" for rep ns
    using that assms(2) by (simp add: group_ok_def)
  then show ?thesis using assms(1) by (fastforce simp: join_group_def)
qed

lemma alloc_groups_ok:
  assumes "\<forall>gr\<in>set groups. group_ok alloc_of gr"
  shows "\<forall>gr\<in>set (alloc_groups alloc_of names groups). group_ok alloc_of gr"
  using assms
proof (induction names arbitrary: groups)
  case (Cons name names)
  show ?case
  proof (cases rule: alloc_groups_step [of alloc_of name groups names])
    case (join aid)
    have "\<forall>gr\<in>set (join_group alloc_of aid name groups). group_ok alloc_of gr"
      using Cons.prems join(1) by (rule join_group_ok)
    then show ?thesis unfolding join(3) by (rule Cons.IH)
  next
    case fresh
    show ?thesis unfolding fresh(2) using Cons.prems by (intro Cons.IH) (simp add: group_ok_def)
  qed
qed simp

lemma join_group_names:
  assumes "Some aid \<in> set (map alloc_of (map fst groups))"
  shows "\<Union> (set (map (set \<circ> snd) (join_group alloc_of aid name groups))) =
    insert name (\<Union> (set (map (set \<circ> snd) groups)))"
  using assms unfolding join_group_def by (induction groups) (auto split: if_splits)

lemma alloc_groups_names:
  "\<Union> (set (map (set \<circ> snd) (alloc_groups alloc_of names groups))) =
     set names \<union> \<Union> (set (map (set \<circ> snd) groups))"
proof (induction names arbitrary: groups)
  case (Cons name names)
  show ?case
  proof (cases rule: alloc_groups_step [of alloc_of name groups names])
    case (join aid)
    show ?thesis unfolding join(3) Cons.IH join_group_names [OF join(2)] by auto
  next
    case fresh
    show ?thesis unfolding fresh(2) Cons.IH by auto
  qed
qed simp

lemma alloc_groups_distinct:
  assumes "\<forall>n\<in>set names. alloc_of n \<noteq> None" "distinct (map alloc_of (map fst groups))"
  shows "distinct (map alloc_of (map fst (alloc_groups alloc_of names groups)))"
  using assms
proof (induction names arbitrary: groups)
  case (Cons name names)
  have n: "\<forall>n\<in>set names. alloc_of n \<noteq> None" using Cons.prems(1) by simp
  show ?case
  proof (cases rule: alloc_groups_step [of alloc_of name groups names])
    case (join aid)
    show ?thesis unfolding join(3) using Cons.prems(2) by (intro Cons.IH [OF n]) (simp only: join_group_reps)
  next
    case fresh
    then have "alloc_of name \<notin> set (map alloc_of (map fst groups))" using Cons.prems(1) by simp
    then show ?thesis unfolding fresh(2) using Cons.prems(2) by (intro Cons.IH [OF n]) simp
  qed
qed simp

subsection \<open>Live ranges cover every alias\<close>

lemma last_access_None: "last_access f ns idx name = None \<longleftrightarrow> (\<forall>n\<in>set ns. name \<notin> set (f n))"
proof (induction ns arbitrary: idx)
  case (Cons n ns)
  show ?case
    using Cons.IH [of "Suc idx"] by (cases "last_access f ns (Suc idx) name") auto
qed simp

lemma last_access_Some:
  assumes "last_access f ns idx name = Some i"
  shows "\<exists>k<length ns. i = idx + k \<and> name \<in> set (f (ns ! k)) \<and>
    (\<forall>k'<length ns. name \<in> set (f (ns ! k')) \<longrightarrow> k' \<le> k)"
  using assms
proof (induction ns arbitrary: idx)
  case (Cons n ns)
  show ?case
  proof (cases "last_access f ns (Suc idx) name")
    case None
    then have "i = idx" "name \<in> set (f n)" using Cons.prems by (auto split: if_splits)
    moreover have "name \<notin> set (f (ns ! k))" if "k < length ns" for k
      using None that by (simp add: last_access_None)
    ultimately show ?thesis by (auto simp: nth_Cons split: nat.split)
  next
    case (Some j)
    then have "last_access f ns (Suc idx) name = Some i" using Cons.prems by simp
    from Cons.IH [OF this] obtain k where k: "k < length ns" "i = Suc idx + k" "name \<in> set (f (ns ! k))"
        "\<forall>k'<length ns. name \<in> set (f (ns ! k')) \<longrightarrow> k' \<le> k" by blast
    show ?thesis
      by (rule exI [of _ "Suc k"]) (use k in \<open>auto simp: nth_Cons split: nat.split\<close>)
  qed
qed simp

lemma own_ranges_mem:
  "(name, s, e) \<in> set (own_ranges nodes cs) \<longleftrightarrow>
     name \<in> set cs \<and> last_access rw_writes nodes 0 name = Some s \<and>
     e = (case last_access rw_reads nodes 0 name of Some e \<Rightarrow> e | None \<Rightarrow> length nodes + 1)"
  by (auto simp: own_ranges_def split: option.splits)

lemma own_ranges_names:
  "map fst (own_ranges nodes cs) = filter (\<lambda>n. last_access rw_writes nodes 0 n \<noteq> None) cs"
  by (induction cs) (auto simp: own_ranges_def split: option.splits)

lemma own_range_access:
  assumes "(name, s, e) \<in> set (own_ranges nodes cs)" "k < length nodes"
  shows "name \<in> set (rw_writes (nodes ! k)) \<Longrightarrow> k \<le> s"
    and "name \<in> set (rw_reads (nodes ! k)) \<Longrightarrow> k \<le> e"
    and "name \<in> set (rw_writes (nodes ! s)) \<and> s < length nodes"
proof -
  show "k \<le> s" if "name \<in> set (rw_writes (nodes ! k))"
    using assms that by (auto simp: own_ranges_mem dest!: last_access_Some)
  show "name \<in> set (rw_writes (nodes ! s)) \<and> s < length nodes"
    using assms by (auto simp: own_ranges_mem dest!: last_access_Some)
  show "k \<le> e" if "name \<in> set (rw_reads (nodes ! k))"
    using assms that by (cases "last_access rw_reads nodes 0 name")
      (auto simp: own_ranges_mem dest!: last_access_Some)
qed

definition widen ::
  "(string \<Rightarrow> nat option) \<Rightarrow> nat \<Rightarrow> (nat \<times> nat) option \<Rightarrow> string \<times> nat \<times> nat \<Rightarrow> (nat \<times> nat) option" where
  "widen alloc_of aid acc r =
     (if alloc_of (fst r) = Some aid
      then (case acc of None \<Rightarrow> Some (snd r) | Some g \<Rightarrow> Some (min (fst g) (fst (snd r)), max (snd g) (snd (snd r))))
      else acc)"

lemma group_range_fold: "group_range alloc_of ranges aid = foldl (widen alloc_of aid) None ranges"
  unfolding group_range_def widen_def by (intro foldl_cong) (auto split: option.split)

lemma widen_acc:
  "\<exists>g. foldl (widen alloc_of aid) (Some g0) ranges = Some g \<and> fst g \<le> fst g0 \<and> snd g0 \<le> snd g"
proof (induction ranges arbitrary: g0)
  case (Cons r rs)
  obtain g1 where g1: "widen alloc_of aid (Some g0) r = Some g1" "fst g1 \<le> fst g0" "snd g0 \<le> snd g1"
    by (cases "alloc_of (fst r) = Some aid") (auto simp: widen_def)
  from Cons.IH [of g1] g1 show ?case by (auto intro: order_trans)
qed simp

lemma widen_mem:
  assumes "r \<in> set ranges" "alloc_of (fst r) = Some aid"
  shows "\<exists>g. foldl (widen alloc_of aid) acc ranges = Some g \<and> fst g \<le> fst (snd r) \<and> snd (snd r) \<le> snd g"
  using assms(1)
proof (induction ranges arbitrary: acc)
  case (Cons r' rs)
  show ?case
  proof (cases "r = r'")
    case True
    have "\<exists>g1. widen alloc_of aid acc r' = Some g1 \<and> fst g1 \<le> fst (snd r) \<and> snd (snd r) \<le> snd g1"
      using assms(2) True by (cases "snd r'"; cases acc) (auto simp: widen_def)
    with widen_acc [of alloc_of aid] show ?thesis by (fastforce intro: order_trans)
  next
    case False
    with Cons show ?thesis by simp
  qed
qed simp

text \<open>Every name of an alias group gets one range, and it contains the own range of each alias.\<close>

lemma compute_live_ranges_names [simp]:
  "map fst (compute_live_ranges nodes cs alloc_of) = map fst (own_ranges nodes cs)"
  unfolding compute_live_ranges_def Let_def
  by (auto split: option.split)

lemma compute_live_ranges_alias:
  assumes "(x, s, e) \<in> set (compute_live_ranges nodes cs alloc_of)"
    and "(y, s', e') \<in> set (own_ranges nodes cs)" "alloc_of x = Some aid" "alloc_of y = Some aid"
  shows "group_range alloc_of (own_ranges nodes cs) aid = Some (s, e) \<and> s \<le> s' \<and> e' \<le> e"
proof -
  obtain g where g: "group_range alloc_of (own_ranges nodes cs) aid = Some g" "fst g \<le> s'" "e' \<le> snd g"
    using widen_mem [OF assms(2), of alloc_of aid None] assms(4) by (auto simp: group_range_fold)
  moreover have "g = (s, e)"
    using assms(1,3) g(1) by (auto simp: compute_live_ranges_def Let_def split: option.splits)
  ultimately show ?thesis by simp
qed

subsection \<open>One bundle\<close>

definition sizes_nonneg :: "graph \<Rightarrow> bool" where
  "sizes_nonneg g \<longleftrightarrow> (\<forall>b\<in>ran (get_buffer g). 0 \<le> gb_device_size b)"

lemma align_up_round: "align_up n k = round_up_to_alignment n k"
  by (simp add: align_up_def round_up_to_alignment_def)

lemma compute_size_bytes_ok:
  assumes "compute_size_bytes g n = Inr sz" "sizes_nonneg g"
  shows "0 \<le> sz \<and> HBM_ALLOCATION_ALIGNMENT_BYTES dvd sz"
proof -
  obtain b where b: "get_buffer g n = Some b" "sz = align_up (gb_device_size b) HBM_ALLOCATION_ALIGNMENT_BYTES"
    using assms(1) by (auto simp: compute_size_bytes_def split: option.splits if_splits)
  then have "0 \<le> gb_device_size b" using assms(2) by (auto simp: sizes_nonneg_def ranI)
  then show ?thesis
    by (simp add: b align_up_round HBM_ALLOCATION_ALIGNMENT_BYTES_def round_up_nonneg)
qed

lemma bundle_candidates_alloc:
  assumes "n \<in> set (bundle_candidates g nodes b)"
  shows "alloc_id g n \<noteq> None"
  using assms by (auto simp: bundle_candidates_def all_candidates_def is_intermediate_def split: option.splits)

lemma bundle_candidates_distinct: "distinct (bundle_candidates g nodes b)"
  by (simp add: bundle_candidates_def all_candidates_def)

lemma bundle_ranges_set:
  "set (bundle_ranges g nodes b) =
     set (compute_live_ranges (live_range_nodes b) (bundle_candidates g nodes b) (alloc_id g))"
  by (simp add: bundle_ranges_def sorted_ranges_def)

lemma bundle_ranges_names:
  "set (map fst (bundle_ranges g nodes b)) \<subseteq> set (bundle_candidates g nodes b)"
  "distinct (map fst (bundle_ranges g nodes b))"
proof -
  let ?cl = "compute_live_ranges (live_range_nodes b) (bundle_candidates g nodes b) (alloc_id g)"
  have eq: "mset (map fst (bundle_ranges g nodes b)) = mset (map fst ?cl)"
    by (simp add: bundle_ranges_def sorted_ranges_def del: compute_live_ranges_names)
  have names: "set (map fst ?cl) \<subseteq> set (bundle_candidates g nodes b)" "distinct (map fst ?cl)"
    unfolding compute_live_ranges_names own_ranges_names
    by (simp_all add: bundle_candidates_distinct) 
  show "distinct (map fst (bundle_ranges g nodes b))"
    using names(2) mset_eq_imp_distinct_iff [OF eq] by blast
  show "set (map fst (bundle_ranges g nodes b)) \<subseteq> set (bundle_candidates g nodes b)"
    using names(1) mset_eq_setD [OF eq] by blast
qed

text \<open>The start step of a name in a list of ranges.\<close>

definition start_of :: "(string \<times> nat \<times> nat) list \<Rightarrow> string \<Rightarrow> nat" where
  "start_of ranges n = (case map_of ranges n of Some (s, e) \<Rightarrow> s | None \<Rightarrow> 0)"

lemma sorted_names:
  assumes "distinct (map fst rs)" "sorted_wrt (\<lambda>r r'. fst (snd r) \<le> fst (snd r')) rs"
  shows "sorted_wrt (\<lambda>n n'. start_of rs n \<le> start_of rs n') (map fst rs)"
proof -
  have "start_of rs (fst r) = fst (snd r)" if "r \<in> set rs" for r
    using map_of_is_SomeI [OF assms(1), of "fst r" "snd r"] that
    by (simp add: start_of_def split: prod.split)
  then show ?thesis
    using assms(2) by (auto simp: sorted_wrt_map intro: sorted_wrt_mono_rel [OF _ assms(2)])
qed

lemma sorted_ranges_start: "sorted_wrt (\<lambda>r r'. fst (snd r) \<le> fst (snd r')) (sorted_ranges rs)"
proof -
  have "sorted (map (\<lambda>(name, s, e). (s, e, name)) (sorted_ranges rs))"
    unfolding sorted_ranges_def by (rule sorted_sort_key)
  then have "sorted_wrt (\<lambda>r r'. (\<lambda>(name, s, e). (s, e, name)) r \<le> (\<lambda>(name, s, e). (s, e, name)) r') (sorted_ranges rs)"
    by (simp add: sorted_map)
  then show ?thesis by (rule sorted_wrt_mono_rel [rotated]) auto
qed

lemma plan_bundle_Some:
  assumes "plan_bundle g nodes b = Inr (Some p)"
  shows "bp_groups p = alloc_groups (alloc_id g) (map fst (bundle_ranges g nodes b)) []"
    and "mapE (group_request g (bundle_ranges g nodes b)) (bp_groups p) = Inr (bp_requests p)"
    and "\<exists>a. pool_run allocate free_block (new_allocator MAX_POOL_SIZE_BYTES) [] (bp_requests p) = (a, bp_offsets p) \<and>
      bp_pool_extent p = pool_end a"
  using assms by (auto simp: plan_bundle_def Let_def case_prod_beta split: if_splits)
    (metis prod.collapse)

lemma group_request_Inr:
  assumes "group_request g ranges gr = Inr r"
  shows "\<exists>s e. map_of ranges (fst gr) = Some (s, e) \<and> fst r = int s \<and> fst (snd r) = int e \<and>
    compute_size_bytes g (fst gr) = Inr (snd (snd r))"
  using assms by (auto simp: group_request_def split: option.splits)

lemma plan_bundle_requests:
  assumes plan: "plan_bundle g nodes b = Inr (Some p)" and nn: "sizes_nonneg g"
  shows "sorted_wrt (\<lambda>r r'. fst r \<le> fst r') (bp_requests p)"
    and "\<forall>r\<in>set (bp_requests p). 0 \<le> snd (snd r) \<and> HBM_ALLOCATION_ALIGNMENT_BYTES dvd snd (snd r)"
proof -
  let ?rs = "bundle_ranges g nodes b"
  note f = plan_bundle_Some [OF plan]
  have len: "length (bp_requests p) = length (bp_groups p)" by (rule mapE_length [OF f(2)])
  have req: "\<exists>s e. map_of ?rs (fst (bp_groups p ! i)) = Some (s, e) \<and> fst (bp_requests p ! i) = int s \<and>
      fst (snd (bp_requests p ! i)) = int e \<and>
      compute_size_bytes g (fst (bp_groups p ! i)) = Inr (snd (snd (bp_requests p ! i)))"
    if "i < length (bp_groups p)" for i
    by (rule group_request_Inr [OF mapE_Inr_nth [OF f(2) that]])
  have "sorted_wrt (\<lambda>n n'. start_of ?rs n \<le> start_of ?rs n') (map fst ?rs)"
    using bundle_ranges_names(2) sorted_ranges_start
    by (intro sorted_names) (auto simp: bundle_ranges_def)
  then have "sorted_wrt (\<lambda>n n'. start_of ?rs n \<le> start_of ?rs n') (map fst (bp_groups p))"
    unfolding f(1) by (intro alloc_groups_sorted) simp
  moreover have "fst (bp_requests p ! i) = int (start_of ?rs (fst (bp_groups p ! i)))"
    if "i < length (bp_groups p)" for i
    using req [OF that] by (auto simp: start_of_def)
  ultimately show "sorted_wrt (\<lambda>r r'. fst r \<le> fst r') (bp_requests p)"
    by (simp add: sorted_wrt_iff_nth_less len)
  show "\<forall>r\<in>set (bp_requests p). 0 \<le> snd (snd r) \<and> HBM_ALLOCATION_ALIGNMENT_BYTES dvd snd (snd r)"
    using req compute_size_bytes_ok [OF _ nn] by (fastforce simp: in_set_conv_nth len)
qed

lemma new_allocator_inv:
  "alloc_inv (new_allocator MAX_POOL_SIZE_BYTES) {#} \<and>
   granular HBM_ALLOCATION_ALIGNMENT_BYTES (new_allocator MAX_POOL_SIZE_BYTES) {#}"
  using alloc_inv_new [of MAX_POOL_SIZE_BYTES]
  by (simp add: granular_def new_allocator_def MAX_POOL_SIZE_BYTES_def SEGMENT_SIZE_def)

lemma allocate_segment: "segment_size (snd (allocate a sz)) = segment_size a"
  by (simp add: allocate_def Let_def)

lemma release_segment:
  "segment_size (foldl (\<lambda>a (e, off, sz). if e < start then free_block a off sz else a) a ps) = segment_size a"
  by (induction ps arbitrary: a) (auto simp: free_block_def)

lemma pool_run_segment:
  "segment_size (fst (pool_run allocate free_block a pending rs)) = segment_size a"
proof (induction rs arbitrary: a pending)
  case (Cons r rs)
  obtain start e sz where r: "r = (start, e, sz)" by (cases r)
  obtain a1 still where rel: "release_expired free_block a pending start = (a1, still)" by fastforce
  obtain x a2 where al: "allocate a1 sz = (x, a2)" by fastforce
  have "segment_size a1 = segment_size a" using rel release_segment by (auto simp: release_expired_def)
  moreover have "segment_size a2 = segment_size a1" using allocate_segment [of a1 sz] al by simp
  ultimately show ?case
    using Cons.IH by (cases x) (simp_all add: r rel al case_prod_beta)
qed simp

lemma plan_bundle_run:
  assumes plan: "plan_bundle g nodes b = Inr (Some p)" and nn: "sizes_nonneg g"
  shows "pool.run_ok [] (bp_requests p) (bp_pool_extent p) (bp_offsets p)"
    and "bp_pool_extent p \<le> MAX_POOL_SIZE_BYTES"
proof -
  obtain a where run: "pool_run allocate free_block (new_allocator MAX_POOL_SIZE_BYTES) [] (bp_requests p) = (a, bp_offsets p)"
      and ext: "bp_pool_extent p = pool_end a"
    using plan_bundle_Some(3) [OF plan] by blast
  have "pool.run_ok [] (bp_requests p) (pool_end a) (bp_offsets p) \<and>
      pool_end (new_allocator MAX_POOL_SIZE_BYTES) \<le> pool_end a \<and>
      (\<exists>live. alloc_inv a live \<and> granular HBM_ALLOCATION_ALIGNMENT_BYTES a live)"
    using new_allocator_inv
    by (intro pool.pool_run_ok [OF _ plan_bundle_requests [OF plan nn] run]) simp
  moreover have "segment_size a = MAX_POOL_SIZE_BYTES"
    using pool_run_segment [of "new_allocator MAX_POOL_SIZE_BYTES" "[]" "bp_requests p"] run
    by (simp add: new_allocator_def)
  ultimately show "pool.run_ok [] (bp_requests p) (bp_pool_extent p) (bp_offsets p)"
      "bp_pool_extent p \<le> MAX_POOL_SIZE_BYTES"
    by (auto simp: ext alloc_inv_def)
qed

text \<open>The groups of a bundle partition its ranged candidates by allocation identity.\<close>

lemma plan_bundle_groups:
  assumes plan: "plan_bundle g nodes b = Inr (Some p)"
  shows "distinct (map (alloc_id g) (map fst (bp_groups p)))"
    and "gr \<in> set (bp_groups p) \<Longrightarrow> fst gr \<in> set (map fst (bundle_ranges g nodes b))"
    and "x \<in> set (map fst (bundle_ranges g nodes b)) \<Longrightarrow>
      \<exists>i<length (bp_groups p). alloc_id g (fst (bp_groups p ! i)) = alloc_id g x"
proof -
  let ?ns = "map fst (bundle_ranges g nodes b)"
  note f = plan_bundle_Some(1) [OF plan]
  have al: "\<forall>n\<in>set ?ns. alloc_id g n \<noteq> None"
    using bundle_ranges_names(1) bundle_candidates_alloc by blast
  show "distinct (map (alloc_id g) (map fst (bp_groups p)))"
    unfolding f using al by (intro alloc_groups_distinct) simp_all
  have ok: "\<forall>gr\<in>set (bp_groups p). group_ok (alloc_id g) gr"
    unfolding f by (rule alloc_groups_ok) simp
  have names: "\<Union> (set (map (set \<circ> snd) (bp_groups p))) = set ?ns"
    unfolding f by (simp add: alloc_groups_names del: set_map)
  show "fst gr \<in> set ?ns" if "gr \<in> set (bp_groups p)"
    using ok that unfolding names [symmetric] by (force simp: group_ok_def)
  show "\<exists>i<length (bp_groups p). alloc_id g (fst (bp_groups p ! i)) = alloc_id g x" if "x \<in> set ?ns"
  proof -
    from that obtain gr where gr: "gr \<in> set (bp_groups p)" "x \<in> set (snd gr)"
      unfolding names [symmetric] by auto
    with ok have "alloc_id g x = alloc_id g (fst gr)" by (auto simp: group_ok_def)
    with gr show ?thesis by (metis in_set_conv_nth)
  qed
qed

subsection \<open>Writing the plans back\<close>

lemma commit_group_pool:
  "hbm_pool (commit_group g ((rep, names), off) st) aid =
     (case off of Some ofs \<Rightarrow> if alloc_id g rep = Some aid then Some ofs else hbm_pool st aid
      | None \<Rightarrow> hbm_pool st aid)"
  by (simp add: commit_group_def INTERMEDIATES_SEGMENT_def split: option.split)

lemma commit_fold_other:
  assumes "Some aid \<notin> set (map (alloc_id g) (map fst groups))"
  shows "hbm_pool (fold (commit_group g) (zip groups os) st) aid = hbm_pool st aid"
  using assms
proof (induction groups arbitrary: os st)
  case (Cons gr groups)
  then show ?case
    by (cases os; cases gr) (auto simp: commit_group_pool split: option.split)
qed simp

lemma commit_fold_mem:
  assumes "distinct (map (alloc_id g) (map fst groups))" "length os = length groups"
    and "i < length groups" "alloc_id g (fst (groups ! i)) = Some aid"
  shows "hbm_pool (fold (commit_group g) (zip groups os) st) aid =
    (case os ! i of Some ofs \<Rightarrow> Some ofs | None \<Rightarrow> hbm_pool st aid)"
  using assms
proof (induction groups arbitrary: os st i)
  case (Cons gr groups)
  obtain off os' where os: "os = off # os'" using Cons.prems(2) by (cases os) auto
  obtain rep ns where gr: "gr = (rep, ns)" by (cases gr)
  show ?case
  proof (cases i)
    case 0
    then have "Some aid \<notin> set (map (alloc_id g) (map fst groups))"
      using Cons.prems(1,4) by (auto simp: gr)
    from commit_fold_other [OF this] 0 Cons.prems(4) show ?thesis
      by (auto simp: os gr commit_group_pool split: option.split)
  next
    case (Suc i')
    then have "alloc_id g rep \<noteq> Some aid"
      using Cons.prems by (auto simp: gr) (metis image_eqI nth_mem)
    with Cons.IH [of os' i'] Cons.prems Suc show ?thesis
      by (auto simp: os gr commit_group_pool split: option.split)
  qed
qed simp

lemma commit_bundle_pool: "hbm_pool (commit_bundle g nm p st) = hbm_pool (fold (commit_group g) (zip (bp_groups p) (bp_offsets p)) st)"
  by (simp add: commit_bundle_def Let_def)

lemma commit_group_sizes [simp]: "hbm_pool_sizes (commit_group g x st) = hbm_pool_sizes st"
  by (auto simp: commit_group_def split: prod.split option.split)

lemma commit_fold_sizes [simp]: "hbm_pool_sizes (fold (commit_group g) xs st) = hbm_pool_sizes st"
  by (induction xs arbitrary: st) auto

lemma commit_bundle_sizes:
  "map_of (hbm_pool_sizes (commit_bundle g nm p st)) = (map_of (hbm_pool_sizes st))(nm \<mapsto> bp_pool_extent p)"
  by (simp add: commit_bundle_def Let_def update_conv')

text \<open>An allocation identity is pooled by at most one bundle.\<close>

lemma candidate_bundle:
  assumes "x \<in> set (bundle_candidates g nodes b)" "alloc_id g x = Some aid"
  shows "set (alloc_id_bundles g nodes aid) = {node_name b}"
proof -
  have "buffer_writer_bundle g nodes x = Some (node_name b)"
    using assms(1) by (simp add: bundle_candidates_def)
  then obtain b' where b': "b' \<in> set nodes" "x \<in> set (bundle_writes g b')" "node_name b' = node_name b"
    by (auto simp: buffer_writer_bundle_def dest!: last_such_Some)
  have "Some aid \<in> alloc_id g ` set (bundle_writes g b')"
    using b'(2) assms(2) by (metis image_eqI)
  with b'(1) have "node_name b' \<in> set (alloc_id_bundles g nodes aid)"
    unfolding alloc_id_bundles_def by simp
  then have mem: "node_name b \<in> set (alloc_id_bundles g nodes aid)" using b'(3) by simp
  have "\<not> is_cross_bundle g nodes x"
    using assms(1) by (simp add: bundle_candidates_def all_candidates_def)
  then have "length (alloc_id_bundles g nodes aid) \<le> 1"
    using assms(2) by (auto simp: is_cross_bundle_def Let_def split: if_splits)
  with mem show ?thesis by (cases "alloc_id_bundles g nodes aid") auto
qed

definition commit_plan :: "graph \<Rightarrow> snode \<Rightarrow> bundle_plan option \<Rightarrow> pool_state \<Rightarrow> pool_state" where
  "commit_plan g b p st = (case p of None \<Rightarrow> st | Some p \<Rightarrow> commit_bundle g (node_name b) p st)"

lemma plan_bundles_Cons:
  "plan_bundles g nodes (b # bs) st =
     bindE (plan_bundle g nodes b) (\<lambda>p. plan_bundles g nodes bs (commit_plan g b p st))"
  by (simp add: commit_plan_def)

lemma group_in_candidates:
  assumes "plan_bundle g nodes b = Inr (Some p)" "gr \<in> set (bp_groups p)"
  shows "fst gr \<in> set (bundle_candidates g nodes b)"
  using plan_bundle_groups(2) [OF assms] bundle_ranges_names(1) by blast

text \<open>Planning further bundles leaves a pooled allocation and a recorded size alone.\<close>

lemma commit_plan_frame:
  assumes "plan_bundle g nodes b' = Inr q" "node_name b' \<noteq> nm"
    and "set (alloc_id_bundles g nodes aid) = {nm}"
  shows "hbm_pool (commit_plan g b' q st) aid = hbm_pool st aid"
    and "map_of (hbm_pool_sizes (commit_plan g b' q st)) nm = map_of (hbm_pool_sizes st) nm"
proof -
  have "Some aid \<notin> set (map (alloc_id g) (map fst (bp_groups p)))" if q: "q = Some p" for p
  proof
    assume "Some aid \<in> set (map (alloc_id g) (map fst (bp_groups p)))"
    then obtain gr where gr: "gr \<in> set (bp_groups p)" "alloc_id g (fst gr) = Some aid" by auto
    from candidate_bundle [OF group_in_candidates gr(2)] assms gr(1) q show False by auto
  qed
  then show "hbm_pool (commit_plan g b' q st) aid = hbm_pool st aid"
    by (auto simp: commit_plan_def commit_bundle_pool commit_fold_other simp del: set_map split: option.split)
  show "map_of (hbm_pool_sizes (commit_plan g b' q st)) nm = map_of (hbm_pool_sizes st) nm"
    using assms(2) by (auto simp: commit_plan_def commit_bundle_sizes split: option.split)
qed

lemma plan_bundles_frame:
  assumes "plan_bundles g nodes bs st = Inr st'" "nm \<notin> set (map node_name bs)"
    and "set (alloc_id_bundles g nodes aid) = {nm}"
  shows "hbm_pool st' aid = hbm_pool st aid \<and>
    map_of (hbm_pool_sizes st') nm = map_of (hbm_pool_sizes st) nm"
  using assms(1,2)
proof (induction bs arbitrary: st)
  case (Cons b bs)
  then obtain q where q: "plan_bundle g nodes b = Inr q"
      and rest: "plan_bundles g nodes bs (commit_plan g b q st) = Inr st'"
    by (auto simp: commit_plan_def)
  have "hbm_pool st' aid = hbm_pool (commit_plan g b q st) aid \<and>
      map_of (hbm_pool_sizes st') nm = map_of (hbm_pool_sizes (commit_plan g b q st)) nm"
    using Cons.prems(2) by (intro Cons.IH [OF rest]) simp
  moreover have "node_name b \<noteq> nm" using Cons.prems(2) by auto
  ultimately show ?case using commit_plan_frame [OF q _ assms(3)] by metis
qed simp

text \<open>The state the pass leaves is, for each bundle, the plan of that bundle.\<close>

lemma plan_bundles_result:
  assumes "plan_bundles g nodes bs st = Inr st'" "distinct (map node_name bs)" "b \<in> set bs"
    and x: "x \<in> set (map fst (bundle_ranges g nodes b))" "alloc_id g x = Some aid"
    and nn: "sizes_nonneg g"
  shows "\<exists>p i. plan_bundle g nodes b = Inr (Some p) \<and> i < length (bp_groups p) \<and>
    alloc_id g (fst (bp_groups p ! i)) = Some aid \<and>
    hbm_pool st' aid = (case bp_offsets p ! i of Some ofs \<Rightarrow> Some ofs | None \<Rightarrow> hbm_pool st aid) \<and>
    map_of (hbm_pool_sizes st') (node_name b) = Some (bp_pool_extent p)"
  using assms(1-3)
proof (induction bs arbitrary: st)
  case (Cons b' bs)
  obtain q where q: "plan_bundle g nodes b' = Inr q"
      and rest: "plan_bundles g nodes bs (commit_plan g b' q st) = Inr st'"
    using Cons.prems(1) by (auto simp: commit_plan_def)
  have xc: "x \<in> set (bundle_candidates g nodes b)" using x(1) bundle_ranges_names(1) by blast
  note own = candidate_bundle [OF xc x(2)]
  show ?case
  proof (cases "b' = b")
    case True
    have "bundle_candidates g nodes b \<noteq> []" using xc by auto
    then obtain p where p: "plan_bundle g nodes b = Inr (Some p)"
      using q True by (auto simp: plan_bundle_def Let_def case_prod_beta)
    with q True have qp: "q = Some p" by simp
    obtain i where i: "i < length (bp_groups p)" "alloc_id g (fst (bp_groups p ! i)) = Some aid"
      using plan_bundle_groups(3) [OF p x(1)] x(2) by auto
    have len: "length (bp_offsets p) = length (bp_groups p)"
      using pool.run_okD(1) [OF plan_bundle_run(1) [OF p nn]] mapE_length [OF plan_bundle_Some(2) [OF p]]
      by simp
    have "node_name b \<notin> set (map node_name bs)" using Cons.prems(2) True by simp
    from plan_bundles_frame [OF rest this own] commit_fold_mem [OF plan_bundle_groups(1) [OF p] len i] p i
    show ?thesis
      by (auto simp: commit_plan_def qp commit_bundle_pool commit_bundle_sizes True)
  next
    case False
    then have b: "b \<in> set bs" "node_name b' \<noteq> node_name b" using Cons.prems(2,3) by auto
    have "distinct (map node_name bs)" using Cons.prems(2) by simp
    from Cons.IH [OF rest this b(1)] show ?thesis
      unfolding commit_plan_frame(1) [OF q b(2) own] .
  qed
qed simp

subsection \<open>Properties of the pool\<close>

text \<open>Names that share an allocation dict share one \<open>FixedTiledLayout\<close>, so one device size.\<close>

definition alias_sizes_agree :: "graph \<Rightarrow> bool" where
  "alias_sizes_agree g \<longleftrightarrow>
     (\<forall>m n. alloc_id g m = alloc_id g n \<longrightarrow> alloc_id g m \<noteq> None \<longrightarrow>
        compute_size_bytes g m = compute_size_bytes g n)"

lemma map_of_ranges:
  assumes "(x, s, e) \<in> set (bundle_ranges g nodes b)"
  shows "map_of (bundle_ranges g nodes b) x = Some (s, e)"
  using assms bundle_ranges_names(2) by (simp add: map_of_is_SomeI)

lemma ranges_alias_eq:
  assumes "(x, s, e) \<in> set (bundle_ranges g nodes b)" "(y, s', e') \<in> set (bundle_ranges g nodes b)"
    and "alloc_id g x = Some aid" "alloc_id g y = Some aid"
  shows "s' = s \<and> e' = e"
proof -
  let ?own = "own_ranges (live_range_nodes b) (bundle_candidates g nodes b)"
  have "x \<in> fst ` set (bundle_ranges g nodes b)" using assms(1) by force
  then have "x \<in> set (map fst ?own)"
    unfolding bundle_ranges_set compute_live_ranges_names [of _ _ "alloc_id g", symmetric]
    by (simp del: compute_live_ranges_names)
  then obtain sx ex where own: "(x, sx, ex) \<in> set ?own" by auto
  show ?thesis
    using compute_live_ranges_alias [where alloc_of = "alloc_id g", OF assms(1) [unfolded bundle_ranges_set] own assms(3,3)]
      compute_live_ranges_alias [where alloc_of = "alloc_id g", OF assms(2) [unfolded bundle_ranges_set] own assms(4,3)]
    by simp
qed

text \<open>What the final state says of one pooled name: its plan entry.\<close>

lemma pooled_entry:
  assumes plan: "hbm_pool_planning True g nodes Map.empty removed = Inr st"
    and names: "distinct (map node_name nodes)" and nn: "sizes_nonneg g" and agree: "alias_sizes_agree g"
    and b: "b \<in> set nodes" and x: "(x, s, e) \<in> set (bundle_ranges g nodes b)" "alloc_id g x = Some aid"
    and pooled: "hbm_pool st aid = Some ofs" and size: "compute_size_bytes g x = Inr sz"
  shows "\<exists>p i. plan_bundle g nodes b = Inr (Some p) \<and> i < length (bp_requests p) \<and>
    bp_offsets p ! i = Some ofs \<and> bp_requests p ! i = (int s, int e, sz) \<and>
    alloc_id g (fst (bp_groups p ! i)) = Some aid \<and>
    map_of (hbm_pool_sizes st) (node_name b) = Some (bp_pool_extent p)"
proof -
  have run: "plan_bundles g nodes nodes \<lparr>hbm_pool = Map.empty, hbm_pool_sizes = [], removed_buffers = removed\<rparr> = Inr st"
    using plan by (simp add: hbm_pool_planning_def)
  have "x \<in> set (map fst (bundle_ranges g nodes b))" using x(1) by force
  from plan_bundles_result [OF run names b this x(2) nn] obtain p i
    where p: "plan_bundle g nodes b = Inr (Some p)" and i: "i < length (bp_groups p)"
      "alloc_id g (fst (bp_groups p ! i)) = Some aid"
      and off: "hbm_pool st aid = (case bp_offsets p ! i of Some ofs \<Rightarrow> Some ofs | None \<Rightarrow>
        hbm_pool \<lparr>hbm_pool = Map.empty, hbm_pool_sizes = [], removed_buffers = removed\<rparr> aid)"
      and ext: "map_of (hbm_pool_sizes st) (node_name b) = Some (bp_pool_extent p)"
    by blast
  obtain s' e' where r: "map_of (bundle_ranges g nodes b) (fst (bp_groups p ! i)) = Some (s', e')"
      "fst (bp_requests p ! i) = int s'" "fst (snd (bp_requests p ! i)) = int e'"
      "compute_size_bytes g (fst (bp_groups p ! i)) = Inr (snd (snd (bp_requests p ! i)))"
    using group_request_Inr [OF mapE_Inr_nth [OF plan_bundle_Some(2) [OF p] i(1)]] by blast
  have "s' = s \<and> e' = e" by (rule ranges_alias_eq [OF x(1) map_of_SomeD [OF r(1)] x(2) i(2)])
  moreover have "snd (snd (bp_requests p ! i)) = sz"
  proof -
    have "compute_size_bytes g (fst (bp_groups p ! i)) = compute_size_bytes g x"
      using agree i(2) x(2) unfolding alias_sizes_agree_def by (metis option.distinct(1))
    with r(4) size show ?thesis by simp
  qed
  ultimately have "bp_requests p ! i = (int s, int e, sz)"
    using r(2,3) by (metis prod.collapse)
  moreover have "i < length (bp_requests p)" "bp_offsets p ! i = Some ofs"
    using i(1) mapE_length [OF plan_bundle_Some(2) [OF p]] off pooled by (auto split: option.splits)
  ultimately show ?thesis using p i(2) ext by blast
qed

text \<open>A bundle of four kernels in a chain: the third intermediate takes the place of the first.\<close>

definition demo_buf :: "nat \<Rightarrow> int \<Rightarrow> graph_buffer" where
  "demo_buf aid sz = \<lparr>gb_alloc = Some aid, gb_is_symbol = False, gb_device_size = sz,
     gb_is_empty_fallback = False\<rparr>"

definition demo_graph :: graph where
  "demo_graph = \<lparr>graph_inputs = [''i''], graph_outputs = [''o''],
     get_buffer = map_of [(''i'', demo_buf 0 256), (''a'', demo_buf 11 200), (''b'', demo_buf 12 256),
       (''c'', demo_buf 13 100), (''o'', demo_buf 14 256)],
     lx_allocated = {}, symbolic_args = False\<rparr>"

definition demo_bundle :: snode where
  "demo_bundle = SNode ''k'' Fused [''a'', ''b'', ''c'', ''o''] [''i'']
     [SNode ''k0'' Plain [''a''] [''i''] [], SNode ''k1'' Plain [''b''] [''a''] [],
      SNode ''k2'' Plain [''c''] [''b''] [], SNode ''k3'' Plain [''o''] [''c''] []]"

lemma demo_ranges:
  "bundle_ranges demo_graph [demo_bundle] demo_bundle = [(''a'', 0, 1), (''b'', 1, 2), (''c'', 2, 3)]"
  by code_simp

lemma demo_env: "sizes_nonneg demo_graph" "alias_sizes_agree demo_graph"
   by (auto simp: sizes_nonneg_def alias_sizes_agree_def demo_graph_def demo_buf_def ran_def alloc_id_def
    split: if_splits)

lemma demo_pool_run:
  "\<exists>st. hbm_pool_planning True demo_graph [demo_bundle] Map.empty {} = Inr st \<and>
     hbm_pool st 11 = Some 0 \<and> hbm_pool st 12 = Some 256 \<and> hbm_pool st 13 = Some 0"
proof -
  have "case hbm_pool_planning True demo_graph [demo_bundle] Map.empty {} of
      Inl _ \<Rightarrow> False
    | Inr st \<Rightarrow> hbm_pool st 11 = Some 0 \<and> hbm_pool st 12 = Some 256 \<and> hbm_pool st 13 = Some 0"
    by code_simp
  then show ?thesis by (auto split: sum.splits)
qed

lemma demo_sizes:
  "compute_size_bytes demo_graph ''a'' = Inr 256" "compute_size_bytes demo_graph ''b'' = Inr 256"
  "alloc_id demo_graph ''a'' = Some 11" "alloc_id demo_graph ''b'' = Some 12"
  by code_simp+

text \<open>C11: Two intermediates of one bundle with different allocations whose live ranges meet never
  share a pool byte, and each lies at a 128-byte aligned offset inside the pool extent the bundle
  reserves, which stays within \<open>MAX_POOL_SIZE_BYTES\<close>.\<close>

theorem hbm_pool_live_buffers_disjoint:
  assumes plan: "hbm_pool_planning True g nodes Map.empty removed = Inr st"
    and env: "distinct (map node_name nodes)" "sizes_nonneg g" "alias_sizes_agree g" "b \<in> set nodes"
    and x: "(x, sx, ex) \<in> set (bundle_ranges g nodes b)" "alloc_id g x = Some ax" "hbm_pool st ax = Some ox"
      "compute_size_bytes g x = Inr zx"
    and y: "(y, sy, ey) \<in> set (bundle_ranges g nodes b)" "alloc_id g y = Some ay" "hbm_pool st ay = Some oy"
      "compute_size_bytes g y = Inr zy"
    and "ax \<noteq> ay" "sx \<le> ey" "sy \<le> ex"
  shows "{ox..<ox + zx} \<inter> {oy..<oy + zy} = {} \<and> 0 \<le> ox \<and> 128 dvd ox \<and>
    (\<exists>ext. map_of (hbm_pool_sizes st) (node_name b) = Some ext \<and> ox + zx \<le> ext \<and>
       ext \<le> MAX_POOL_SIZE_BYTES)"
proof -
  obtain p i where p: "plan_bundle g nodes b = Inr (Some p)" and i: "i < length (bp_requests p)"
      "bp_offsets p ! i = Some ox" "bp_requests p ! i = (int sx, int ex, zx)"
      "alloc_id g (fst (bp_groups p ! i)) = Some ax"
      and ext: "map_of (hbm_pool_sizes st) (node_name b) = Some (bp_pool_extent p)"
    using pooled_entry [OF plan env x(1-3) x(4)] by blast
  obtain q j where q: "plan_bundle g nodes b = Inr (Some q)" and j': "j < length (bp_requests q)"
      "bp_offsets q ! j = Some oy" "bp_requests q ! j = (int sy, int ey, zy)"
      "alloc_id g (fst (bp_groups q ! j)) = Some ay"
    using pooled_entry [OF plan env y(1-3) y(4)] by blast
  have "q = p" using p q by simp
  note j = j' [unfolded this]
  note ok = plan_bundle_run [OF p env(2)]
  have "i \<noteq> j" using i(4) j(4) \<open>ax \<noteq> ay\<close> by auto
  then have "separate (ox, zx) (oy, zy)"
    using pool.run_okD(3) [OF ok(1), of i j ox oy] pool.run_okD(3) [OF ok(1), of j i oy ox] i j
      \<open>sx \<le> ey\<close> \<open>sy \<le> ex\<close> by (cases "i < j") (auto intro: separate_sym)
  then have "{ox..<ox + zx} \<inter> {oy..<oy + zy} = {}"
    by (auto simp: separate_def dest: disjoint_iv_no_common)
  moreover have "0 \<le> ox \<and> ox + zx \<le> bp_pool_extent p \<and> 128 dvd ox"
    using pool.run_okD(2) [OF ok(1) i(1,2)] i(3) by (simp add: HBM_ALLOCATION_ALIGNMENT_BYTES_def)
  ultimately show ?thesis using ext ok(2) by auto
qed

theorem hbm_pool_live_buffers_disjoint_witness:
  "\<exists>st. hbm_pool_planning True demo_graph [demo_bundle] Map.empty {} = Inr st \<and>
     hbm_pool st 11 = Some 0 \<and> hbm_pool st 12 = Some 256 \<and>
     {0..<0 + 256} \<inter> {256..<256 + 256} = ({} :: int set) \<and>
     (\<exists>ext. map_of (hbm_pool_sizes st) ''k'' = Some ext \<and> 256 \<le> ext \<and> ext \<le> MAX_POOL_SIZE_BYTES)"
proof -
  obtain st where st: "hbm_pool_planning True demo_graph [demo_bundle] Map.empty {} = Inr st"
      "hbm_pool st 11 = Some 0" "hbm_pool st 12 = Some 256"
    using demo_pool_run by blast
  have "{0..<0 + 256} \<inter> {256..<256 + 256} = ({} :: int set) \<and> 0 \<le> (0::int) \<and> 128 dvd (0::int) \<and>
    (\<exists>ext. map_of (hbm_pool_sizes st) (node_name demo_bundle) = Some ext \<and> 0 + 256 \<le> ext \<and>
       ext \<le> MAX_POOL_SIZE_BYTES)"
    by (rule hbm_pool_live_buffers_disjoint [OF st(1) _ demo_env, where x = "''a''" and y = "''b''" and ax = 11 and ay = 12
        and b = demo_bundle and sx = 0 and ex = 1 and sy = 1 and ey = 2])
      (simp_all add: demo_ranges demo_sizes st)
  with st show ?thesis by (auto simp: demo_bundle_def)
qed

text \<open>A pool candidate is never a graph input or output, nor does its allocation belong to one,
  to an LX-resident buffer or to a buffer a fallback reads; and every bundle that writes or reads any
  name sharing its allocation is the one bundle that pools it.\<close>

theorem pool_candidate_confined_to_bundle:
  assumes "x \<in> set (bundle_candidates g nodes b)" "b' \<in> set nodes"
    and "y \<in> set (bundle_writes g b') \<or> y \<in> set (bundle_reads g b')" "alloc_id g y = alloc_id g x"
  shows "node_name b' = node_name b \<and> x \<notin> io_names g \<and>
    (\<exists>aid. alloc_id g x = Some aid \<and> aid \<notin> lx_allocated g \<and> aid \<notin> io_alloc_ids g \<and>
       aid \<notin> fallback_read_alloc_ids g nodes)"
proof -
  obtain aid where aid: "alloc_id g x = Some aid" "aid \<notin> lx_allocated g" "aid \<notin> io_alloc_ids g"
      "aid \<notin> fallback_read_alloc_ids g nodes" and io: "x \<notin> io_names g"
      and cross: "\<not> is_cross_bundle g nodes x"
    using assms(1)
    by (auto simp: bundle_candidates_def all_candidates_def is_intermediate_def split: option.splits)
  note own = candidate_bundle [OF assms(1) aid(1)]
  have "set (map Some (alloc_id_reader_bundles g nodes aid)) \<subseteq> set (map Some (alloc_id_bundles g nodes aid))"
    using cross own aid(1) by (auto simp: is_cross_bundle_def Let_def split: if_splits)
  then have readers: "set (alloc_id_reader_bundles g nodes aid) \<subseteq> {node_name b}"
    using own by auto
  have y: "Some aid \<in> alloc_id g ` set (bundle_writes g b') \<or> Some aid \<in> alloc_id g ` set (bundle_reads g b')"
    using assms(3,4) aid(1) by (metis image_eqI)
  then have "node_name b' \<in> set (alloc_id_bundles g nodes aid) \<or> node_name b' \<in> set (alloc_id_reader_bundles g nodes aid)"
    using assms(2) unfolding alloc_id_bundles_def alloc_id_reader_bundles_def by auto
  then show ?thesis using own readers aid io by auto
qed

theorem pool_candidate_confined_to_bundle_witness:
  "''a'' \<in> set (bundle_candidates demo_graph [demo_bundle] demo_bundle) \<and>
   node_name demo_bundle = ''k'' \<and> ''a'' \<notin> io_names demo_graph"
proof -
  have "''a'' \<in> set (bundle_candidates demo_graph [demo_bundle] demo_bundle)" by code_simp
  moreover have "''a'' \<in> set (bundle_writes demo_graph demo_bundle)" by code_simp
  ultimately show ?thesis
    using pool_candidate_confined_to_bundle [of "''a''" demo_graph "[demo_bundle]" demo_bundle demo_bundle "''a''"]
    by (simp add: demo_bundle_def)
qed

text \<open>The live range given to a name contains every access step of every name of the bundle that
  shares its allocation: no read comes after its end, and the last write of each alias is not
  before its start.\<close>

theorem live_range_covers_aliases:
  assumes "(x, s, e) \<in> set (compute_live_ranges nodes candidates alloc_of)"
    and "alloc_of x = Some aid" "alloc_of y = Some aid" "y \<in> set candidates" "k < length nodes"
    and "y \<in> set (rw_writes (nodes ! w))" "w < length nodes"
    and "\<And>k'. k' < length nodes \<Longrightarrow> y \<in> set (rw_writes (nodes ! k')) \<Longrightarrow> k' \<le> w"
  shows "s \<le> w \<and> (y \<in> set (rw_reads (nodes ! k)) \<longrightarrow> k \<le> e)"
proof -
  have "last_access rw_writes nodes 0 y \<noteq> None"
    using assms(6,7) by (auto simp: last_access_None)
  then obtain s' e' where own: "(y, s', e') \<in> set (own_ranges nodes candidates)"
    using assms(4) by (auto simp: own_ranges_mem)
  have "s' = w"
    using own_range_access(1,3) [OF own assms(7)] assms(6) assms(8) [of s'] by force
  then show ?thesis
    using compute_live_ranges_alias [OF assms(1) own assms(2,3)] own_range_access(2) [OF own assms(5)]
    by auto
qed

theorem live_range_covers_aliases_witness:
  "(''a'', 0, 1) \<in> set (compute_live_ranges (snodes demo_bundle) [''a'', ''b''] (alloc_id demo_graph)) \<and>
   ''a'' \<in> set (rw_reads (snodes demo_bundle ! 1)) \<and> (0::nat) \<le> 0 \<and> (1::nat) \<le> 1"
proof -
  have r: "(''a'', 0, 1) \<in> set (compute_live_ranges (snodes demo_bundle) [''a'', ''b''] (alloc_id demo_graph))"
    by code_simp
  have w: "k' \<le> 0" if "k' < length (snodes demo_bundle)" "''a'' \<in> set (rw_writes (snodes demo_bundle ! k'))" for k'
    using that by (auto simp: demo_bundle_def nth_Cons split: nat.splits)
  have read: "''a'' \<in> set (rw_reads (snodes demo_bundle ! 1))"
    and rest: "''a'' \<in> set [''a'', ''b'']" "1 < length (snodes demo_bundle)"
    "''a'' \<in> set (rw_writes (snodes demo_bundle ! 0))" "0 < length (snodes demo_bundle)"
    by (auto simp: demo_bundle_def)
  from live_range_covers_aliases [OF r demo_sizes(3) demo_sizes(3) rest w] r read show ?thesis by simp
qed

text \<open>The states an allocator reaches by requests of non-negative size and by freeing blocks that
  are held, with the multiset of held blocks.\<close>

inductive pool_reachable :: "int \<Rightarrow> Allocator \<Rightarrow> (int \<times> int) multiset \<Rightarrow> bool" for seg where
  start: "pool_reachable seg (new_allocator seg) {#}"
| granted: "pool_reachable seg a live \<Longrightarrow> 0 \<le> sz \<Longrightarrow> allocate a sz = (Some off, a') \<Longrightarrow>
    pool_reachable seg a' (add_mset (off, sz) live)"
| refused: "pool_reachable seg a live \<Longrightarrow> 0 \<le> sz \<Longrightarrow> allocate a sz = (None, a') \<Longrightarrow>
    pool_reachable seg a' live"
| released: "pool_reachable seg a (add_mset (off, sz) live) \<Longrightarrow>
    pool_reachable seg (free_block a off sz) live"

lemma pool_reachable_inv: "pool_reachable seg a live \<Longrightarrow> 0 \<le> seg \<Longrightarrow> alloc_inv a live \<and> segment_size a = seg"
proof (induction rule: pool_reachable.induct)
  case start
  then show ?case by (simp add: alloc_inv_new) (simp add: new_allocator_def)
next
  case (granted a live sz off a')
  then show ?case using allocate_segment [of a sz] by (auto intro: alloc_inv_allocate)
next
  case (refused a live sz a')
  then show ?case by (metis pool.alloc_None)
next
  case (released a off sz live)
  then show ?case by (auto intro: alloc_inv_free) (simp add: free_block_def)
qed

text \<open>In every reachable state of the allocator the held and the free blocks are pairwise
  disjoint, lie inside the pool and account for every byte of it; the peak concurrent usage is at
  most the pool extent, which is at most the segment; and a request is refused only when no free
  block is large enough and growing the pool would pass the segment.\<close>

theorem allocator_accounts_for_every_byte:
  assumes "pool_reachable seg a live" "0 \<le> seg"
  shows "pairwise_separate (mset (free_blocks a) + live) \<and>
    (\<Sum>b\<in>#mset (free_blocks a) + live. snd b) = pool_end a \<and>
    currently_allocated a = (\<Sum>b\<in>#live. snd b) \<and>
    currently_allocated a \<le> peak_usage a \<and> peak_usage a \<le> pool_end a \<and> pool_end a \<le> seg \<and>
    (fst (allocate a sz) = None \<longleftrightarrow> (\<forall>b\<in>set (free_blocks a). snd b < sz) \<and> seg < pool_end a + sz)"
proof -
  have inv: "alloc_inv a live" and seg: "segment_size a = seg"
    using pool_reachable_inv [OF assms] by auto
  have "fst (allocate a sz) = None \<longleftrightarrow>
      (\<forall>b\<in>set (free_blocks a). snd b < sz) \<and> seg < pool_end a + sz"
  proof (cases rule: allocate_cases [of a sz "fst (allocate a sz)" "snd (allocate a sz)", simplified])
    case 1
    then show ?thesis using seg by (simp add: find_block_None)
  next
    case (2 i)
    then show ?thesis using inv by (simp add: alloc_inv_def)
  next
    case 3
    then show ?thesis using seg by simp
  next
    case (4 i)
    then have "find_block sz (free_blocks a) \<noteq> None" by simp
    then show ?thesis using 4(2) by (simp add: find_block_None)
  qed
  with inv seg show ?thesis by (simp add: alloc_inv_def tiles_def)
qed

theorem allocator_accounts_for_every_byte_witness:
  "\<exists>a. allocate (new_allocator 512) 256 = (Some 0, a) \<and> pool_reachable 512 a {#(0, 256)#} \<and>
     peak_usage a \<le> pool_end a \<and> pool_end a \<le> 512"
proof -
  have al: "allocate (new_allocator 512) 256 = (Some 0, snd (allocate (new_allocator 512) 256))"
    by (simp add: allocate_def new_allocator_def)
  have r: "pool_reachable 512 (snd (allocate (new_allocator 512) 256)) {#(0, 256)#}"
    by (rule pool_reachable.granted [OF pool_reachable.start _ al]) simp
  from allocator_accounts_for_every_byte [OF r] al r show ?thesis by fastforce
qed

text \<open>A name written at two steps of one bundle starts its range at the second one.\<close>

definition twice_graph :: graph where
  "twice_graph = \<lparr>graph_inputs = [''i''], graph_outputs = [''o''],
     get_buffer = map_of [(''i'', demo_buf 10 128), (''t'', demo_buf 11 128), (''acc'', demo_buf 12 128),
       (''u'', demo_buf 13 128),       (''o'', demo_buf 14 128)],
     lx_allocated = {}, symbolic_args = False\<rparr>"

definition twice_bundle :: snode where
  "twice_bundle = SNode ''k'' Fused [''acc'', ''t'', ''u'', ''o''] [''i'']
     [SNode ''k0'' Plain [''t''] [''i''] [], SNode ''k1'' Plain [''acc''] [''i''] [],
      SNode ''k2'' Plain [''u''] [''t''] [], SNode ''k3'' Plain [''acc''] [''i''] [],
      SNode ''k4'' Plain [''o''] [''acc'', ''u''] []]"

text \<open>A buffer that one bundle writes at two steps gets a range that starts at its last write,
  and the pool may place it on bytes another intermediate still holds at the first write: here
  \<open>acc\<close> is first written at step 1 while \<open>t\<close> lives from step 0 to step 2, and both get offset 0.\<close>

theorem double_write_shares_live_bytes:
  "\<exists>st. hbm_pool_planning True twice_graph [twice_bundle] Map.empty {} = Inr st \<and>
     ''acc'' \<in> set (rw_writes (snodes twice_bundle ! 1)) \<and> ''t'' \<in> set (rw_reads (snodes twice_bundle ! 2)) \<and>
     (''t'', 0, 2) \<in> set (bundle_ranges twice_graph [twice_bundle] twice_bundle) \<and>
     (''acc'', 3, 4) \<in> set (bundle_ranges twice_graph [twice_bundle] twice_bundle) \<and>
     hbm_pool st 11 = Some 0 \<and> hbm_pool st 12 = Some 0"
proof -
  have "case hbm_pool_planning True twice_graph [twice_bundle] Map.empty {} of
      Inl _ \<Rightarrow> False | Inr st \<Rightarrow> hbm_pool st 11 = Some 0 \<and> hbm_pool st 12 = Some 0"
    by code_simp
  moreover have "bundle_ranges twice_graph [twice_bundle] twice_bundle = [(''t'', 0, 2), (''u'', 2, 4), (''acc'', 3, 4)]"
    by code_simp
  ultimately show ?thesis by (auto simp: twice_bundle_def split: sum.splits)
qed

end
