(* ===== verification/Dead_Code.thy ===== *)
theory Dead_Code
  imports Prelude
begin

text \<open>
  Dead-code elimination before scheduling (\<open>torch_spyre/_inductor/deadcode_elimination.py\<close>).

  An operation is what the pass reads of it: its name, the buffer names it reads and writes, the
  target of a \<open>MutationLayoutSHOULDREMOVE\<close> layout and whether it is an impure
  \<open>FallbackKernel\<close>.  The pass keeps two growing sets; \<open>len\<close> of a set is its cardinality.
\<close>

record dce_op =
  operation_name :: string
  reads :: "string list"
  writes :: "string list"
  mutation_layout :: "string option"
  fallback_impure :: bool

record dce_graph =
  dce_operations :: "dce_op list"
  output_names :: "string list"
  input_names :: "string list"
  constant_names :: "string list"
  removed :: "string set"

definition mutation_target :: "dce_op \<Rightarrow> string option" where
  "mutation_target op = mutation_layout op"

definition mutation_target_is_live :: "dce_op \<Rightarrow> string set \<Rightarrow> bool" where
  "mutation_target_is_live op live_bufs =
     (case mutation_target op of None \<Rightarrow> True | Some target \<Rightarrow> target \<in> live_bufs)"

definition has_side_effects :: "dce_op \<Rightarrow> bool" where
  "has_side_effects op = (if mutation_target op \<noteq> None then True else fallback_impure op)"

type_synonym live_state = "string set \<times> string set"

definition walk_op :: "dce_op \<Rightarrow> live_state \<Rightarrow> live_state" where
  "walk_op op st =
     (case st of (live_bufs, live_ops) \<Rightarrow>
        let observable = has_side_effects op \<and> mutation_target_is_live op live_bufs
        in if \<not> observable \<and> set (writes op) \<inter> live_bufs = {} then st
           else (live_bufs \<union> set (reads op) \<union>
                   (case mutation_target op of None \<Rightarrow> {} | Some target \<Rightarrow> {target}),
                 insert (operation_name op) live_ops))"

definition walk_once :: "dce_op list \<Rightarrow> live_state \<Rightarrow> live_state" where
  "walk_once ops st = fold walk_op (rev ops) st"

fun walk_until_stable :: "nat \<Rightarrow> dce_op list \<Rightarrow> live_state \<Rightarrow> live_state" where
  "walk_until_stable 0 ops st = st"
| "walk_until_stable (Suc n) ops st =
     (let st' = walk_once ops st
      in if card (fst st') = card (fst st) \<and> card (snd st') = card (snd st) then st'
         else walk_until_stable n ops st')"

definition root_bufs :: "dce_graph \<Rightarrow> string set" where
  "root_bufs g = set (output_names g) \<union> set (input_names g) \<union> set (constant_names g)"

definition live_operations :: "dce_graph \<Rightarrow> string set" where
  "live_operations g =
     snd (walk_until_stable (length (dce_operations g) + 1) (dce_operations g) (root_bufs g, {}))"

definition deadcode_elimination :: "dce_graph \<Rightarrow> dce_graph" where
  "deadcode_elimination g =
     (let live_ops = live_operations g;
          dead = filter (\<lambda>op. operation_name op \<notin> live_ops) (dce_operations g)
      in g\<lparr>dce_operations := filter (\<lambda>op. operation_name op \<in> live_ops) (dce_operations g),
           removed := removed g \<union> set (concat (map writes dead))\<rparr>)"

subsection \<open>Observable operations, declaratively\<close>

inductive live_buf :: "dce_graph \<Rightarrow> string \<Rightarrow> bool" and live_op :: "dce_graph \<Rightarrow> dce_op \<Rightarrow> bool" for g where
  root: "n \<in> root_bufs g \<Longrightarrow> live_buf g n"
| read: "live_op g op \<Longrightarrow> n \<in> set (reads op) \<Longrightarrow> live_buf g n"
| target: "live_op g op \<Longrightarrow> mutation_target op = Some n \<Longrightarrow> live_buf g n"
| writes_live: "op \<in> set (dce_operations g) \<Longrightarrow> n \<in> set (writes op) \<Longrightarrow> live_buf g n \<Longrightarrow> live_op g op"
| mutates_live: "op \<in> set (dce_operations g) \<Longrightarrow> mutation_target op = Some n \<Longrightarrow> live_buf g n \<Longrightarrow> live_op g op"
| impure: "op \<in> set (dce_operations g) \<Longrightarrow> mutation_target op = None \<Longrightarrow> fallback_impure op \<Longrightarrow> live_op g op"

inductive_cases live_opE: "live_op g op"

lemma live_op_mem: "live_op g op \<Longrightarrow> op \<in> set (dce_operations g)"
  by (auto elim: live_opE)

subsection \<open>The walk computes them\<close>

definition below :: "live_state \<Rightarrow> live_state \<Rightarrow> bool" where
  "below s t \<longleftrightarrow> fst s \<subseteq> fst t \<and> snd s \<subseteq> snd t"

lemma below_refl: "below s s"
  by (simp add: below_def)

lemma below_trans: "below s t \<Longrightarrow> below t u \<Longrightarrow> below s u"
  by (auto simp: below_def)

lemma below_antisym: "below s t \<Longrightarrow> below t s \<Longrightarrow> s = t"
  by (auto simp: below_def prod_eq_iff)

lemma walk_op_grows: "below s (walk_op op s)"
  by (cases s) (auto simp: walk_op_def below_def Let_def)

lemma walk_fold_grows: "below s (fold walk_op ops s)"
proof (induction ops arbitrary: s)
  case (Cons op ops)
  show ?case using below_trans [OF walk_op_grows Cons.IH] by simp
qed (simp add: below_refl)

text \<open>A pass that changes nothing changed nothing at any operation.\<close>

lemma walk_fold_stable: "fold walk_op ops s = s \<Longrightarrow> op \<in> set ops \<Longrightarrow> walk_op op s = s"
proof (induction ops)
  case (Cons o' ops)
  have "below (walk_op o' s) s"
    using walk_fold_grows [of "walk_op o' s" ops] Cons.prems(1) by simp
  then have "walk_op o' s = s" by (rule below_antisym) (rule walk_op_grows)
  with Cons show ?case by auto
qed simp

lemma walk_once_stable: "walk_once ops s = s \<Longrightarrow> op \<in> set ops \<Longrightarrow> walk_op op s = s"
  by (simp add: walk_once_def walk_fold_stable)

definition finite_state :: "live_state \<Rightarrow> bool" where
  "finite_state s \<longleftrightarrow> finite (fst s) \<and> finite (snd s)"

lemma walk_op_finite: "finite_state s \<Longrightarrow> finite_state (walk_op op s)"
  by (cases s) (auto simp: walk_op_def finite_state_def Let_def split: option.split)

lemma walk_once_finite: "finite_state s \<Longrightarrow> finite_state (walk_once ops s)"
proof -
  have "finite_state s \<Longrightarrow> finite_state (fold walk_op os s)" for os
    by (induction os arbitrary: s) (simp_all add: walk_op_finite)
  then show "finite_state s \<Longrightarrow> finite_state (walk_once ops s)" by (simp add: walk_once_def)
qed

lemma walk_once_grows: "below s (walk_once ops s)"
  by (simp add: walk_once_def walk_fold_grows)

lemma same_size_stable:
  assumes "finite_state s" "card (fst (walk_once ops s)) = card (fst s)" "card (snd (walk_once ops s)) = card (snd s)"
  shows "walk_once ops s = s"
proof -
  have f: "finite (fst (walk_once ops s))" "finite (snd (walk_once ops s))"
    using walk_once_finite [OF assms(1)] by (auto simp: finite_state_def)
  have "fst s = fst (walk_once ops s)" "snd s = snd (walk_once ops s)"
    using walk_once_grows [of s ops] assms(2,3) card_subset_eq [OF f(1)] card_subset_eq [OF f(2)]
    by (simp_all add: below_def)
  then show ?thesis by (simp add: prod_eq_iff)
qed

subsection \<open>The bound on the number of passes\<close>

definition fires :: "dce_op \<Rightarrow> live_state \<Rightarrow> bool" where
  "fires op s \<longleftrightarrow> has_side_effects op \<and> mutation_target_is_live op (fst s) \<or> set (writes op) \<inter> fst s \<noteq> {}"

definition needed :: "dce_op \<Rightarrow> string set" where
  "needed op = set (reads op) \<union> (case mutation_target op of None \<Rightarrow> {} | Some n \<Rightarrow> {n})"

definition absorbed :: "live_state \<Rightarrow> dce_op \<Rightarrow> bool" where
  "absorbed s op \<longleftrightarrow> fires op s \<and> needed op \<subseteq> fst s \<and> operation_name op \<in> snd s"

lemma walk_op_fires:
  "walk_op op s = (if fires op s then (fst s \<union> needed op, insert (operation_name op) (snd s)) else s)"
  by (cases s) (auto simp: walk_op_def fires_def needed_def Let_def split: option.split)

lemma fires_mono: "below s t \<Longrightarrow> fires op s \<Longrightarrow> fires op t"
  by (auto simp: fires_def below_def mutation_target_is_live_def split: option.splits)

lemma absorbed_mono: "below s t \<Longrightarrow> absorbed s op \<Longrightarrow> absorbed t op"
  using fires_mono by (auto simp: absorbed_def below_def)

lemma absorbed_id: "absorbed s op \<Longrightarrow> walk_op op s = s"
  by (auto simp: absorbed_def walk_op_fires prod_eq_iff)

lemma fold_change_absorbs:
  "fold walk_op ops s \<noteq> s \<Longrightarrow> \<exists>op\<in>set ops. \<not> absorbed s op \<and> absorbed (fold walk_op ops s) op"
proof (induction ops arbitrary: s)
  case (Cons op ops)
  show ?case
  proof (cases "walk_op op s = s")
    case True
    then show ?thesis using Cons by auto
  next
    case False
    then have f: "fires op s" by (auto simp: walk_op_fires split: if_splits)
    have "fires op (walk_op op s)" by (rule fires_mono [OF walk_op_grows f])
    then have "absorbed (walk_op op s) op" using f by (auto simp: absorbed_def walk_op_fires)
    then have "absorbed (fold walk_op ops (walk_op op s)) op" by (rule absorbed_mono [OF walk_fold_grows])
    moreover have "\<not> absorbed s op" using False absorbed_id by blast
    ultimately show ?thesis by auto
  qed
qed simp

lemma pass_absorbs_more:
  assumes "walk_once ops s \<noteq> s"
  shows "card {op \<in> set ops. absorbed s op} < card {op \<in> set ops. absorbed (walk_once ops s) op}"
proof (rule psubset_card_mono)
  obtain op where "op \<in> set ops" "\<not> absorbed s op" "absorbed (walk_once ops s) op"
    using fold_change_absorbs [of "rev ops" s] assms by (auto simp: walk_once_def)
  then show "{op \<in> set ops. absorbed s op} \<subset> {op \<in> set ops. absorbed (walk_once ops s) op}"
    using absorbed_mono [OF walk_once_grows] by blast
qed simp

lemma walk_until_stable_fixed:
  assumes "finite_state s" "card (set ops) < n + card {op \<in> set ops. absorbed s op}"
  shows "walk_once ops (walk_until_stable n ops s) = walk_until_stable n ops s \<and> below s (walk_until_stable n ops s)"
  using assms
proof (induction n arbitrary: s)
  case 0
  have "card {op \<in> set ops. absorbed s op} \<le> card (set ops)" by (rule card_mono) auto
  with 0 show ?case by simp
next
  case (Suc n)
  show ?case
  proof (cases "walk_once ops s = s")
    case True
    then show ?thesis by (simp add: Let_def below_refl)
  next
    case False
    then have "\<not> (card (fst (walk_once ops s)) = card (fst s) \<and> card (snd (walk_once ops s)) = card (snd s))"
      using same_size_stable [OF Suc.prems(1)] by blast
    then have step: "walk_until_stable (Suc n) ops s = walk_until_stable n ops (walk_once ops s)"
      by (simp only: walk_until_stable.simps Let_def if_False)
    have "card (set ops) < n + card {op \<in> set ops. absorbed (walk_once ops s) op}"
      using Suc.prems(2) pass_absorbs_more [OF False] by simp
    from Suc.IH [OF walk_once_finite [OF Suc.prems(1)] this] show ?thesis
      unfolding step using below_trans [OF walk_once_grows] by blast
  qed
qed

subsection \<open>Soundness and completeness\<close>

definition only_live :: "dce_graph \<Rightarrow> live_state \<Rightarrow> bool" where
  "only_live g s \<longleftrightarrow> (\<forall>n\<in>fst s. live_buf g n) \<and> (\<forall>m\<in>snd s. \<exists>op. live_op g op \<and> operation_name op = m)"

lemma fires_live:
  assumes "only_live g s" "op \<in> set (dce_operations g)" "fires op s"
  shows "live_op g op"
proof (cases "set (writes op) \<inter> fst s = {}")
  case False
  then obtain n where "n \<in> set (writes op)" "live_buf g n" using assms(1) by (auto simp: only_live_def)
  then show ?thesis using assms(2) by (auto intro: live_buf_live_op.intros)
next
  case True
  then have e: "has_side_effects op" "mutation_target_is_live op (fst s)" using assms(3) by (auto simp: fires_def)
  show ?thesis
  proof (cases "mutation_target op")
    case None
    then show ?thesis using e assms(2) by (auto simp: has_side_effects_def intro: live_buf_live_op.intros)
  next
    case (Some n)
    then have "live_buf g n" using e assms(1) by (auto simp: mutation_target_is_live_def only_live_def)
    then show ?thesis using Some assms(2) by (auto intro: live_buf_live_op.intros)
  qed
qed

lemma walk_op_only_live:
  assumes "only_live g s" "op \<in> set (dce_operations g)"
  shows "only_live g (walk_op op s)"
proof (cases "fires op s")
  case True
  note l = fires_live [OF assms True]
  then have "\<forall>n\<in>needed op. live_buf g n"
    by (auto simp: needed_def intro: live_buf_live_op.intros split: option.splits)
  then show ?thesis using True l assms(1) by (auto simp: walk_op_fires only_live_def)
qed (simp add: walk_op_fires assms(1))

lemma walk_once_only_live: "only_live g s \<Longrightarrow> only_live g (walk_once (dce_operations g) s)"
proof -
  have "only_live g s \<Longrightarrow> set os \<subseteq> set (dce_operations g) \<Longrightarrow> only_live g (fold walk_op os s)" for os
    by (induction os arbitrary: s) (simp_all add: walk_op_only_live)
  then show "only_live g s \<Longrightarrow> only_live g (walk_once (dce_operations g) s)" by (simp add: walk_once_def)
qed

lemma walk_until_only_live: "only_live g s \<Longrightarrow> only_live g (walk_until_stable n (dce_operations g) s)"
  by (induction n arbitrary: s) (simp_all add: walk_once_only_live Let_def)

lemma live_state:
  obtains s where "walk_once (dce_operations g) s = s" "below (root_bufs g, {}) s" "only_live g s"
    "live_operations g = snd s"
proof
  let ?s = "walk_until_stable (length (dce_operations g) + 1) (dce_operations g) (root_bufs g, {})"
  have f: "finite_state (root_bufs g, {})" by (simp add: finite_state_def root_bufs_def)
  have "card (set (dce_operations g)) < length (dce_operations g) + 1 + card {op \<in> set (dce_operations g). absorbed (root_bufs g, {}) op}"
    using card_length [of "dce_operations g"] by simp
  note fix_ = walk_until_stable_fixed [OF f this]
  show "walk_once (dce_operations g) ?s = ?s" "below (root_bufs g, {}) ?s" using fix_ by blast+
  show "only_live g ?s"
    by (rule walk_until_only_live) (auto simp: only_live_def intro: live_buf_live_op.intros)
  show "live_operations g = snd ?s" by (simp add: live_operations_def)
qed

lemma live_complete:
  assumes "walk_once (dce_operations g) s = s" "below (root_bufs g, {}) s"
  shows "(live_buf g n \<longrightarrow> n \<in> fst s) \<and> (live_op g op \<longrightarrow> operation_name op \<in> snd s \<and> needed op \<subseteq> fst s)"
proof -
  have "(live_buf g n \<longrightarrow> n \<in> fst s) \<and> (live_op g op \<longrightarrow> fires op s)"
  proof (induction rule: live_buf_live_op.induct)
    case (root n)
    then show ?case using assms(2) by (auto simp: below_def)
  next
    case (read op n)
    then have "walk_op op s = s" using walk_once_stable [OF assms(1)] live_op_mem by blast
    then show ?case using read by (auto simp: walk_op_fires needed_def prod_eq_iff)
  next
    case (target op n)
    then have "walk_op op s = s" using walk_once_stable [OF assms(1)] live_op_mem by blast
    then show ?case using target by (auto simp: walk_op_fires needed_def prod_eq_iff)
  next
    case (writes_live op n)
    then show ?case by (auto simp: fires_def)
  next
    case (mutates_live op n)
    then show ?case by (auto simp: fires_def has_side_effects_def mutation_target_is_live_def)
  next
    case (impure op)
    then show ?case by (auto simp: fires_def has_side_effects_def mutation_target_is_live_def)
  qed
  moreover have "operation_name op \<in> snd s \<and> needed op \<subseteq> fst s" if "live_op g op" "fires op s"
  proof -
    have "walk_op op s = s" using walk_once_stable [OF assms(1)] live_op_mem [OF that(1)] by blast
    then show ?thesis using that(2) by (auto simp: walk_op_fires prod_eq_iff)
  qed
  ultimately show ?thesis by blast
qed

text \<open>
  The names the pass keeps are exactly the names of the observable operations of the least
  liveness relation: an operation is live when it writes a live buffer, mutates a live buffer or is
  an impure fallback; a buffer is live when it is an output, an input or a constant of the graph,
  or a live operation reads or mutates it.  The bound of one pass more than there are operations is
  enough in every graph, also when list order is not execution order.
\<close>

theorem live_operations_least_fixpoint:
  "live_operations g = {operation_name op |op. live_op g op}"
proof -
  obtain s where s: "walk_once (dce_operations g) s = s" "below (root_bufs g, {}) s" "only_live g s"
    "live_operations g = snd s" by (rule live_state)
  show ?thesis
  proof (rule set_eqI, rule iffI)
    fix m assume "m \<in> live_operations g"
    then show "m \<in> {operation_name op |op. live_op g op}" using s(3,4) by (auto simp: only_live_def)
  next
    fix m assume "m \<in> {operation_name op |op. live_op g op}"
    then show "m \<in> live_operations g" using live_complete [OF s(1,2)] s(4) by auto
  qed
qed

subsection \<open>What the pass leaves behind\<close>

lemma live_names:
  assumes "distinct (map operation_name (dce_operations g))" "op \<in> set (dce_operations g)"
  shows "operation_name op \<in> live_operations g \<longleftrightarrow> live_op g op"
proof -
  obtain s where s: "walk_once (dce_operations g) s = s" "below (root_bufs g, {}) s" "only_live g s"
    "live_operations g = snd s" by (rule live_state)
  have "live_op g op" if h: "operation_name op \<in> live_operations g"
  proof -
    obtain op' where o: "live_op g op'" "operation_name op' = operation_name op"
      using h s(3,4) by (auto simp: only_live_def)
    then have "op' = op"
      using assms live_op_mem [OF o(1)] by (auto simp: distinct_map dest: inj_onD)
    then show ?thesis using o(1) by simp
  qed
  then show ?thesis using live_complete [OF s(1,2)] s(4) by auto
qed

lemma survivors_eq:
  assumes "distinct (map operation_name (dce_operations g))"
  shows "op \<in> set (dce_operations (deadcode_elimination g)) \<longleftrightarrow> live_op g op"
  using live_names [OF assms] live_op_mem [of g op]
  by (auto simp: deadcode_elimination_def Let_def)

lemma dce_roots: "root_bufs (deadcode_elimination g) = root_bufs g"
  by (simp add: deadcode_elimination_def Let_def root_bufs_def)

lemma live_buf_survives:
  assumes "distinct (map operation_name (dce_operations g))"
  shows "(live_buf g n \<longrightarrow> live_buf (deadcode_elimination g) n) \<and> (live_op g op \<longrightarrow> live_op (deadcode_elimination g) op)"
proof (induction rule: live_buf_live_op.induct)
  case (root n)
  then show ?case by (auto simp: dce_roots intro: live_buf_live_op.intros)
next
  case (read op n)
  then show ?case by (auto intro: live_buf_live_op.intros)
next
  case (target op n)
  then show ?case by (auto intro: live_buf_live_op.intros)
next
  case (writes_live op n)
  then have "live_op g op" by (auto intro: live_buf_live_op.intros)
  then have "op \<in> set (dce_operations (deadcode_elimination g))" using survivors_eq [OF assms] by blast
  then show ?case using writes_live by (auto intro: live_buf_live_op.intros)
next
  case (mutates_live op n)
  then have "live_op g op" by (auto intro: live_buf_live_op.intros)
  then have "op \<in> set (dce_operations (deadcode_elimination g))" using survivors_eq [OF assms] by blast
  then show ?case using mutates_live by (auto intro: live_buf_live_op.intros)
next
  case (impure op)
  then have "live_op g op" by (auto intro: live_buf_live_op.intros)
  then have "op \<in> set (dce_operations (deadcode_elimination g))" using survivors_eq [OF assms] by blast
  then show ?case using impure by (auto intro: live_buf_live_op.intros)
qed

lemma dce_distinct:
  "distinct (map operation_name (dce_operations g)) \<Longrightarrow>
   distinct (map operation_name (dce_operations (deadcode_elimination g)))"
  by (auto simp: deadcode_elimination_def Let_def distinct_map inj_on_def)

lemma survivors_all_live:
  assumes "distinct (map operation_name (dce_operations g))" "op \<in> set (dce_operations (deadcode_elimination g))"
  shows "operation_name op \<in> live_operations (deadcode_elimination g)"
  using live_buf_survives [OF assms(1)] survivors_eq [OF assms(1)] assms(2)
    live_names [OF dce_distinct [OF assms(1)] assms(2)] by blast

lemma eliminated_not_live:
  assumes "n \<in> removed (deadcode_elimination g)" "n \<notin> removed g"
  shows "\<not> live_buf g n"
proof
  assume l: "live_buf g n"
  obtain op where o: "op \<in> set (dce_operations g)" "operation_name op \<notin> live_operations g" "n \<in> set (writes op)"
    using assms by (auto simp: deadcode_elimination_def Let_def)
  then have "live_op g op" using l by (auto intro: live_buf_live_op.intros)
  then show False using o(2) live_complete live_state [of g] by metis
qed

definition observed_bufs :: "dce_graph \<Rightarrow> string set" where
  "observed_bufs g = root_bufs g \<union> (\<Union>op\<in>set (dce_operations g). needed op)"

lemma observed_live:
  assumes "distinct (map operation_name (dce_operations g))"
  shows "n \<in> observed_bufs (deadcode_elimination g) \<longleftrightarrow> live_buf g n"
proof
  assume "n \<in> observed_bufs (deadcode_elimination g)"
  then show "live_buf g n"
    using survivors_eq [OF assms]
    by (auto simp: observed_bufs_def dce_roots needed_def intro: live_buf_live_op.intros split: option.splits)
next
  assume "live_buf g n"
  then show "n \<in> observed_bufs (deadcode_elimination g)"
  proof cases
    case (read op)
    then have "op \<in> set (dce_operations (deadcode_elimination g))" "n \<in> needed op"
      using survivors_eq [OF assms] by (simp_all add: needed_def)
    then show ?thesis by (auto simp: observed_bufs_def)
  next
    case (target op)
    then have "op \<in> set (dce_operations (deadcode_elimination g))" "n \<in> needed op"
      using survivors_eq [OF assms] by (simp_all add: needed_def)
    then show ?thesis by (auto simp: observed_bufs_def)
  qed (simp add: observed_bufs_def dce_roots)
qed

lemma live_op_iff:
  "live_op g op \<longleftrightarrow> op \<in> set (dce_operations g) \<and>
     ((\<exists>n\<in>set (writes op). live_buf g n) \<or>
      (case mutation_target op of None \<Rightarrow> fallback_impure op | Some n \<Rightarrow> live_buf g n))"
  by (auto elim: live_opE intro: live_buf_live_op.intros split: option.splits)

lemma dce_idem:
  assumes "distinct (map operation_name (dce_operations g))"
  shows "deadcode_elimination (deadcode_elimination g) = deadcode_elimination g"
proof -
  let ?h = "deadcode_elimination g"
  have "filter (\<lambda>op. operation_name op \<in> live_operations ?h) (dce_operations ?h) = dce_operations ?h"
    "filter (\<lambda>op. operation_name op \<notin> live_operations ?h) (dce_operations ?h) = []"
    using survivors_all_live [OF assms] by (simp_all add: filter_id_conv filter_empty_conv)
  then show ?thesis by (subst (1) deadcode_elimination_def) (simp only: Let_def, simp)
qed

text \<open>
  C22: Elimination is invisible to the caller.  With operation names distinct (a graph registers
  each name once), every operation of the graph that writes or mutates a graph output, input or
  constant, or a buffer that a surviving operation reads or mutates, survives; so does every impure
  fallback.  A buffer newly marked as removed is neither of those, so codegen skips only buffers
  nobody asks for; the survivors keep their order and one run is enough: a second changes neither
  the operations nor the set of removed buffers.
\<close>

theorem deadcode_elimination_unobservable:
  assumes "distinct (map operation_name (dce_operations g))"
  shows "set (dce_operations (deadcode_elimination g)) =
           {op \<in> set (dce_operations g).
              set (writes op) \<inter> observed_bufs (deadcode_elimination g) \<noteq> {} \<or>
              (case mutation_target op of None \<Rightarrow> fallback_impure op
                 | Some n \<Rightarrow> n \<in> observed_bufs (deadcode_elimination g))} \<and>
         (removed (deadcode_elimination g) - removed g) \<inter> observed_bufs (deadcode_elimination g) = {} \<and>
         dce_operations (deadcode_elimination g) =
           filter (\<lambda>op. op \<in> set (dce_operations (deadcode_elimination g))) (dce_operations g) \<and>
         deadcode_elimination (deadcode_elimination g) = deadcode_elimination g"
proof (intro conjI)
  note ob = observed_live [OF assms]
  have obs: "observed_bufs (deadcode_elimination g) = {n. live_buf g n}" using ob by blast
  show "set (dce_operations (deadcode_elimination g)) =
           {op \<in> set (dce_operations g).
              set (writes op) \<inter> observed_bufs (deadcode_elimination g) \<noteq> {} \<or>
              (case mutation_target op of None \<Rightarrow> fallback_impure op
                 | Some n \<Rightarrow> n \<in> observed_bufs (deadcode_elimination g))}"
    unfolding obs using survivors_eq [OF assms] live_op_iff [of g] by (auto split: option.splits)
  show "(removed (deadcode_elimination g) - removed g) \<inter> observed_bufs (deadcode_elimination g) = {}"
    unfolding obs using eliminated_not_live by blast
  have "operation_name op \<in> live_operations g \<longleftrightarrow> op \<in> set (dce_operations (deadcode_elimination g))"
    if "op \<in> set (dce_operations g)" for op
    using that live_names [OF assms] survivors_eq [OF assms] by blast
  then show "dce_operations (deadcode_elimination g) =
           filter (\<lambda>op. op \<in> set (dce_operations (deadcode_elimination g))) (dce_operations g)"
    by (simp add: deadcode_elimination_def Let_def cong: filter_cong)
qed (rule dce_idem [OF assms])

text \<open>
  A spliced loop body: \<open>use\<close> reads the accumulator that \<open>acc_write\<close>, listed after it, mutates;
  \<open>stray\<close> mutates a buffer nobody reads.
\<close>

definition demo_dce_graph :: dce_graph where
  "demo_dce_graph = \<lparr>dce_operations =
     [\<lparr>operation_name = ''init'', reads = [''x''], writes = [''acc''], mutation_layout = None, fallback_impure = False\<rparr>,
      \<lparr>operation_name = ''use'', reads = [''acc''], writes = [''out''], mutation_layout = None, fallback_impure = False\<rparr>,
      \<lparr>operation_name = ''feed'', reads = [''x''], writes = [''t''], mutation_layout = None, fallback_impure = False\<rparr>,
      \<lparr>operation_name = ''acc_write'', reads = [''t''], writes = [''m''], mutation_layout = Some ''acc'', fallback_impure = False\<rparr>,
      \<lparr>operation_name = ''stray'', reads = [''t''], writes = [''q''], mutation_layout = Some ''scratch'', fallback_impure = False\<rparr>],
     output_names = [''out''], input_names = [''x''], constant_names = [], removed = {}\<rparr>"

lemma demo_dce_result:
  "map operation_name (dce_operations (deadcode_elimination demo_dce_graph)) = [''init'', ''use'', ''feed'', ''acc_write'']"
  by code_simp

theorem deadcode_elimination_unobservable_witness:
  "distinct (map operation_name (dce_operations demo_dce_graph)) \<and>
   map operation_name (dce_operations (deadcode_elimination demo_dce_graph)) = [''init'', ''use'', ''feed'', ''acc_write''] \<and>
   deadcode_elimination (deadcode_elimination demo_dce_graph) = deadcode_elimination demo_dce_graph"
proof -
  have d: "distinct (map operation_name (dce_operations demo_dce_graph))" by code_simp
  show ?thesis using deadcode_elimination_unobservable [OF d] d demo_dce_result by blast
qed

end
