(* ===== verification/Restickify_Costs.thy ===== *)
theory Restickify_Costs
  imports Prelude "HOL-Library.Extended_Nat"
begin

text \<open>
  What a restickify costs (the cost nodes of \<open>optimize_restickify.py\<close>).

  A device layout (\<open>SpyreTensorLayout\<close>) is a type variable.  Costs are Python floats that only hold
  sums of byte counts times small integer weights and \<open>math.inf\<close>; they are \<open>enat\<close> here, exact as floats
  are below \<open>2 ^ 53\<close>.  An edge holds, beside the buffer it reads and that buffer's candidate layouts, the
  coordinate analyses of \<open>pass_utils.py\<close> as functions: \<open>restickify_needed\<close> for
  \<open>compute_restickify_needed\<close>, \<open>forbidden_on_stick\<close> for the test of the forbidden symbol against the
  stick expression (\<open>None\<close> without one), \<open>size1_target\<close> for \<open>compute_size1_restickify_target\<close>.
\<close>

datatype DataFormats = SEN169_FP16 | IEEE_FP32 | IEEE_INT32 | SENUINT32 | OtherFormat

definition RESTICKIFY_DEVICE_DTYPE_COST_WEIGHT :: "DataFormats \<Rightarrow> nat option" where
  "RESTICKIFY_DEVICE_DTYPE_COST_WEIGHT d =
     (case d of SEN169_FP16 \<Rightarrow> Some 1 | IEEE_FP32 \<Rightarrow> Some 2 | IEEE_INT32 \<Rightarrow> Some 2 | SENUINT32 \<Rightarrow> Some 2 | OtherFormat \<Rightarrow> None)"

definition RESTICKIFY_SUPPORTED_DEVICE_DTYPES :: "DataFormats \<Rightarrow> bool" where
  "RESTICKIFY_SUPPORTED_DEVICE_DTYPES d \<longleftrightarrow> RESTICKIFY_DEVICE_DTYPE_COST_WEIGHT d \<noteq> None"

record 'l EdgeCostMap =
  dep_name :: string
  in_layouts :: "'l list"
  restickify_needed :: "'l \<Rightarrow> 'l \<Rightarrow> bool \<times> 'l option"
  forbidden_on_stick :: "('l \<Rightarrow> bool) option"
  size1_target :: "'l \<Rightarrow> 'l option"
  device_dtype :: "'l \<Rightarrow> DataFormats"
  device_bytes :: "'l \<Rightarrow> nat"

datatype 'l restick = Compatible | Infeasible | Restick 'l

definition needed_target :: "'l EdgeCostMap \<Rightarrow> 'l \<Rightarrow> 'l \<Rightarrow> bool \<times> 'l option" where
  "needed_target e in_stl target_stl =
     (case restickify_needed e in_stl target_stl of (needed, tgt) \<Rightarrow>
        (case forbidden_on_stick e of
           None \<Rightarrow> (needed, tgt)
         | Some on_stick \<Rightarrow>
             if \<not> needed \<and> on_stick in_stl
             then (True,
                   if RESTICKIFY_SUPPORTED_DEVICE_DTYPES (device_dtype e in_stl)
                   then (case size1_target e in_stl of
                           None \<Rightarrow> None
                         | Some t \<Rightarrow> if on_stick t then None else Some t)
                   else tgt)
             else (needed, tgt)))"

definition compute_cost :: "'l EdgeCostMap \<Rightarrow> 'l \<Rightarrow> 'l \<Rightarrow> (enat \<times> 'l restick) res" where
  "compute_cost e in_stl target_stl =
     (case needed_target e in_stl target_stl of (needed, tgt) \<Rightarrow>
        if \<not> needed then Inr (0, Compatible)
        else case tgt of
          None \<Rightarrow> Inr (\<infinity>, Infeasible)
        | Some t \<Rightarrow>
            (case RESTICKIFY_DEVICE_DTYPE_COST_WEIGHT (device_dtype e in_stl) of
               None \<Rightarrow> Inl KeyError
             | Some w \<Rightarrow> Inr (enat (device_bytes e in_stl * w), Restick t)))"

subsection \<open>The lazy table\<close>

type_synonym 'l cost_cache = "'l \<times> 'l \<Rightarrow> (enat \<times> 'l restick) option"

definition compute_and_cache_cost :: "'l EdgeCostMap \<Rightarrow> 'l \<Rightarrow> 'l \<Rightarrow> 'l cost_cache \<Rightarrow> 'l cost_cache res" where
  "compute_and_cache_cost e in_stl target_stl cache =
     bindE (compute_cost e in_stl target_stl) (\<lambda>entry. Inr (cache((in_stl, target_stl) \<mapsto> entry)))"

definition lookup_entry :: "'l EdgeCostMap \<Rightarrow> 'l \<Rightarrow> 'l \<Rightarrow> 'l cost_cache \<Rightarrow> ((enat \<times> 'l restick) \<times> 'l cost_cache) res" where
  "lookup_entry e in_stl target_stl cache =
     bindE (if cache (in_stl, target_stl) = None then compute_and_cache_cost e in_stl target_stl cache else Inr cache) (\<lambda>cache'.
       case cache' (in_stl, target_stl) of None \<Rightarrow> Inl KeyError | Some entry \<Rightarrow> Inr (entry, cache'))"

definition ecm_cost :: "'l EdgeCostMap \<Rightarrow> 'l \<Rightarrow> 'l \<Rightarrow> 'l cost_cache \<Rightarrow> (enat \<times> 'l cost_cache) res" where
  "ecm_cost e in_stl target_stl cache =
     bindE (lookup_entry e in_stl target_stl cache) (\<lambda>(entry, cache'). Inr (fst entry, cache'))"

definition ecm_layout :: "'l EdgeCostMap \<Rightarrow> 'l \<Rightarrow> 'l \<Rightarrow> 'l cost_cache \<Rightarrow> ('l restick \<times> 'l cost_cache) res" where
  "ecm_layout e in_stl target_stl cache =
     bindE (lookup_entry e in_stl target_stl cache) (\<lambda>(entry, cache'). Inr (snd entry, cache'))"

text \<open>
  The value behind the table.  \<open>compute_restickify_needed\<close> names a target only for a supported dtype, so
  the weight of a target is always found (\<open>compute_cost_total\<close>) and the \<open>KeyError\<close> branch, read as an infinite
  cost, is not taken; the search below reads costs through \<open>edge_cost\<close>.
\<close>

definition edge_cost :: "'l EdgeCostMap \<Rightarrow> 'l \<Rightarrow> 'l \<Rightarrow> enat" where
  "edge_cost e in_stl target_stl = (case compute_cost e in_stl target_stl of Inl x \<Rightarrow> \<infinity> | Inr entry \<Rightarrow> fst entry)"

definition targets_supported :: "'l EdgeCostMap \<Rightarrow> bool" where
  "targets_supported e \<longleftrightarrow>
     (\<forall>i t. snd (restickify_needed e i t) \<noteq> None \<longrightarrow> RESTICKIFY_SUPPORTED_DEVICE_DTYPES (device_dtype e i))"

definition coherent :: "'l EdgeCostMap \<Rightarrow> 'l cost_cache \<Rightarrow> bool" where
  "coherent e cache \<longleftrightarrow> (\<forall>i t entry. cache (i, t) = Some entry \<longrightarrow> compute_cost e i t = Inr entry)"

lemma compute_cost_total: "targets_supported e \<Longrightarrow> \<exists>entry. compute_cost e i t = Inr entry"
proof -
  assume s: "targets_supported e"
  have n: "RESTICKIFY_DEVICE_DTYPE_COST_WEIGHT (device_dtype e i) \<noteq> None" if h: "snd (needed_target e i t) \<noteq> None"
  proof (cases "snd (restickify_needed e i t)")
    case None
    then show ?thesis using h
      by (auto simp: needed_target_def RESTICKIFY_SUPPORTED_DEVICE_DTYPES_def split: prod.splits option.splits if_splits)
  next
    case (Some d)
    then show ?thesis using s unfolding targets_supported_def RESTICKIFY_SUPPORTED_DEVICE_DTYPES_def by blast
  qed
  show ?thesis
  proof (cases "snd (needed_target e i t)")
    case None
    then show ?thesis by (cases "needed_target e i t") (simp add: compute_cost_def)
  next
    case (Some d)
    then obtain w where "RESTICKIFY_DEVICE_DTYPE_COST_WEIGHT (device_dtype e i) = Some w" using n by blast
    then show ?thesis using Some by (cases "needed_target e i t") (simp add: compute_cost_def)
  qed
qed

lemma lookup_entry_spec:
  assumes "targets_supported e" "coherent e cache"
  shows "\<exists>entry cache'. lookup_entry e i t cache = Inr (entry, cache') \<and> compute_cost e i t = Inr entry \<and> coherent e cache'"
proof -
  obtain entry where c: "compute_cost e i t = Inr entry" using compute_cost_total [OF assms(1)] by blast
  show ?thesis
  proof (cases "cache (i, t)")
    case None
    then show ?thesis using c assms(2) by (auto simp: lookup_entry_def compute_and_cache_cost_def coherent_def)
  next
    case (Some entry')
    then have "entry' = entry" using c assms(2) unfolding coherent_def by (metis Inr_inject)
    then show ?thesis using Some c assms(2) by (simp add: lookup_entry_def)
  qed
qed

subsection \<open>Cost nodes\<close>

datatype 'l RestickNodeCost =
    AllSameNode "'l EdgeCostMap list" "'l EdgeCostMap list"
  | FixedInOutNode "'l EdgeCostMap list" 'l "'l list" "'l \<Rightarrow> bool"
  | AnyInNode

fun edge_costs :: "'l RestickNodeCost \<Rightarrow> 'l EdgeCostMap list" where
  "edge_costs (AllSameNode input_edges output_edges) = input_edges @ output_edges"
| "edge_costs (FixedInOutNode edges required_out_stl required_in_stls out_needed) = edges"
| "edge_costs AnyInNode = []"

definition out_stick_compatible :: "'l \<Rightarrow> ('l \<Rightarrow> bool) \<Rightarrow> 'l \<Rightarrow> bool" where
  "out_stick_compatible required_out_stl out_needed out_stl =
     (if out_stl = required_out_stl then True else \<not> out_needed out_stl)"

fun node_cost :: "'l RestickNodeCost \<Rightarrow> 'l list \<Rightarrow> 'l \<Rightarrow> enat" where
  "node_cost (AllSameNode input_edges output_edges) ins out_stl =
     (let input_cost = sum_list (map (\<lambda>(ec, lk). edge_cost ec lk out_stl) (zip input_edges (take (length input_edges) ins)))
      in if input_cost \<ge> \<infinity> then \<infinity>
         else if list_ex (\<lambda>(ec, lk). lk \<noteq> out_stl) (zip output_edges (drop (length input_edges) ins)) then \<infinity>
         else input_cost)"
| "node_cost (FixedInOutNode edges required_out_stl required_in_stls out_needed) ins out_stl =
     (if \<not> out_stick_compatible required_out_stl out_needed out_stl then \<infinity>
      else sum_list (map (\<lambda>(ec, lk, rk). edge_cost ec lk rk) (zip edges (zip ins required_in_stls))))"
| "node_cost AnyInNode ins out_stl = 0"

fun required_input_stls :: "'l RestickNodeCost \<Rightarrow> 'l \<Rightarrow> ('l EdgeCostMap \<times> 'l) list" where
  "required_input_stls (AllSameNode input_edges output_edges) out_stl = map (\<lambda>ec. (ec, out_stl)) input_edges"
| "required_input_stls (FixedInOutNode edges required_out_stl required_in_stls out_needed) out_stl = zip edges required_in_stls"
| "required_input_stls AnyInNode out_stl = []"

definition some_finite :: "'l EdgeCostMap \<Rightarrow> 'l \<Rightarrow> bool" where
  "some_finite e target_stl = list_ex (\<lambda>i. edge_cost e i target_stl < \<infinity>) (in_layouts e)"

text \<open>The edges and the required layouts of a \<open>FixedInOutNode\<close> are parallel lists, as its constructor documents
  them; the \<open>ValueError\<close> of the strict \<open>zip\<close> on lists of different length is not modelled.\<close>

fun min_input_cost :: "'l RestickNodeCost \<Rightarrow> string \<Rightarrow> 'l \<Rightarrow> 'l \<Rightarrow> enat" where
  "min_input_cost (AllSameNode input_edges output_edges) n in_stl out_stl =
     (case find (\<lambda>e. dep_name e = n) input_edges of
        None \<Rightarrow> 0
      | Some ec \<Rightarrow>
          let edge_c = edge_cost ec in_stl out_stl
          in if edge_c = \<infinity> then \<infinity>
             else if list_all (\<lambda>e. some_finite e out_stl) (filter (\<lambda>e. dep_name e \<noteq> n) input_edges) then edge_c else \<infinity>)"
| "min_input_cost (FixedInOutNode edges required_out_stl required_in_stls out_needed) n in_stl out_stl =
     (if \<not> out_stick_compatible required_out_stl out_needed out_stl then \<infinity>
      else
        let matching = filter (\<lambda>(ec, req). dep_name ec = n) (zip edges required_in_stls);
            cs = map (\<lambda>(ec, req). edge_cost ec in_stl req) matching
        in if matching = [] then \<infinity>
           else if list_ex (\<lambda>c. c = \<infinity>) cs then \<infinity>
           else if list_all (\<lambda>(e, req). some_finite e req) (filter (\<lambda>(e, req). dep_name e \<noteq> n) (zip edges required_in_stls))
                then sum_list cs else \<infinity>)"
| "min_input_cost AnyInNode n in_stl out_stl = 0"

definition first_blocking_edge :: "'l RestickNodeCost \<Rightarrow> 'l \<Rightarrow> 'l EdgeCostMap option" where
  "first_blocking_edge node out_stl =
     find (\<lambda>ec. list_ex (\<lambda>i. edge_cost ec i out_stl = \<infinity>) (in_layouts ec)) (edge_costs node)"

text \<open>
  The lazy cost table is transparent.  Starting from an empty table, whatever was asked before, a
  lookup raises nothing and returns the cost and the restickify target that the analysis computes for
  that pair; the entry never depends on the order of the lookups.
\<close>

theorem cost_table_transparent:
  assumes "targets_supported e" "coherent e cache"
  shows "\<exists>cache'. ecm_cost e i t cache = Inr (edge_cost e i t, cache') \<and> coherent e cache' \<and>
    (\<exists>r cache''. ecm_layout e i t cache = Inr (r, cache'') \<and>
       (r = Compatible \<longleftrightarrow> \<not> fst (needed_target e i t)) \<and> (r = Infeasible \<longleftrightarrow> edge_cost e i t = \<infinity>))"
proof -
  obtain entry cache' where l: "lookup_entry e i t cache = Inr (entry, cache')" "compute_cost e i t = Inr entry" "coherent e cache'"
    using lookup_entry_spec [OF assms] by blast
  have "(snd entry = Compatible \<longleftrightarrow> \<not> fst (needed_target e i t)) \<and> (snd entry = Infeasible \<longleftrightarrow> fst entry = \<infinity>)"
    using l(2) by (auto simp: compute_cost_def split: prod.splits option.splits if_splits)
  then show ?thesis using l by (auto simp: ecm_cost_def ecm_layout_def edge_cost_def)
qed

subsection \<open>Example\<close>

text \<open>
  Layouts are numbers; an edge costs 10 when the stick moves from layout 0 to layout 1, cannot be
  restickified the other way, and costs nothing between equal layouts.
\<close>

definition demo_edge :: "string \<Rightarrow> nat list \<Rightarrow> nat EdgeCostMap" where
  "demo_edge n ls = \<lparr>dep_name = n, in_layouts = ls,
     restickify_needed = (\<lambda>i t. if i = t then (False, None) else if i < t then (True, Some t) else (True, None)),
     forbidden_on_stick = None, size1_target = (\<lambda>i. None), device_dtype = (\<lambda>i. IEEE_FP32), device_bytes = (\<lambda>i. 5)\<rparr>"

definition demo_cache :: "nat cost_cache" where
  "demo_cache = Map.empty"

theorem cost_table_transparent_witness:
  "\<exists>cache'. ecm_cost (demo_edge ''a'' [0, 1]) 0 1 demo_cache = Inr (10, cache')"
proof -
  have s: "targets_supported (demo_edge ''a'' [0, 1])" "coherent (demo_edge ''a'' [0, 1]) demo_cache"
    by (auto simp: targets_supported_def demo_edge_def RESTICKIFY_SUPPORTED_DEVICE_DTYPES_def
        RESTICKIFY_DEVICE_DTYPE_COST_WEIGHT_def coherent_def demo_cache_def)
  have "edge_cost (demo_edge ''a'' [0, 1]) 0 1 = 10" by code_simp
  then show ?thesis using cost_table_transparent [OF s, of 0 1] by auto
qed

end
