(* ===== verification/Beam_Search.thy ===== *)
theory Beam_Search
  imports Restickify_Costs "HOL-Library.AList"
begin

text \<open>
  The global layout selection of \<open>optimize_restickify.py\<close>: the backward estimate
  \<open>compute_future_min_cost\<close>, the liveness of committed slots, and the beam search
  \<open>beam_global_min_cost\<close> with its liveness merge and trimming.

  An operation is its name, its candidate layouts (\<open>None\<close> when it has no attribute \<open>layouts\<close>) and its
  cost node.  A graph input that takes part is its name with its candidate layouts.  Committing the
  chosen layouts to the operations is the returned list of names and layouts.
\<close>

record 'l rop =
  rname :: string
  rlayouts :: "'l list option"
  restick_cost_fn :: "'l RestickNodeCost"

definition has_layouts :: "'l rop \<Rightarrow> bool" where
  "has_layouts op \<longleftrightarrow> rlayouts op \<noteq> None"

definition op_layouts :: "'l rop \<Rightarrow> 'l list" where
  "op_layouts op = (case rlayouts op of None \<Rightarrow> [] | Some ls \<Rightarrow> ls)"

definition dep_names :: "'l rop \<Rightarrow> string list" where
  "dep_names op = map dep_name (edge_costs (restick_cost_fn op))"

record 'l BeamState =
  assignments :: "'l list"
  state_cost :: enat
  lower_bound :: enat

definition BEAM_WIDTH :: nat where
  "BEAM_WIDTH = 200"

record 'l Frontier =
  beam_K :: nat
  buf_names :: "string list"
  buf_idx :: "string \<Rightarrow> nat option"
  states :: "'l BeamState list"

definition new_frontier :: "nat \<Rightarrow> 'l Frontier" where
  "new_frontier k = \<lparr>beam_K = k, buf_names = [], buf_idx = Map.empty,
     states = [\<lparr>assignments = [], state_cost = 0, lower_bound = 0\<rparr>]\<rparr>"

definition add_buf :: "string \<Rightarrow> 'l Frontier \<Rightarrow> 'l Frontier" where
  "add_buf name fr = fr\<lparr>buf_idx := (buf_idx fr)(name \<mapsto> length (buf_names fr)), buf_names := buf_names fr @ [name]\<rparr>"

definition input_stl :: "'l Frontier \<Rightarrow> 'l BeamState \<Rightarrow> string \<Rightarrow> 'l res" where
  "input_stl fr state name =
     (case buf_idx fr name of
        None \<Rightarrow> Inl KeyError
      | Some idx \<Rightarrow> if idx < length (assignments state) then Inr (assignments state ! idx) else Inl IndexError)"

definition best_state :: "'l Frontier \<Rightarrow> 'l BeamState res" where
  "best_state fr =
     (case states fr of
        [] \<Rightarrow> Inl ValueError
      | s # ss \<Rightarrow> Inr (foldl (\<lambda>b s. if state_cost s < state_cost b then s else b) s ss))"

definition trim :: "'l Frontier \<Rightarrow> 'l Frontier" where
  "trim fr = fr\<lparr>states := take (beam_K fr) (sort_key lower_bound (states fr))\<rparr>"

subsection \<open>Order of the operations\<close>

definition is_any_in :: "'l rop \<Rightarrow> bool" where
  "is_any_in op = (case restick_cost_fn op of AnyInNode \<Rightarrow> True | _ \<Rightarrow> False)"

definition first_consumer_pos :: "'l rop list \<Rightarrow> nat \<Rightarrow> nat option" where
  "first_consumer_pos ops i =
     find (\<lambda>j. has_layouts (ops ! j) \<and> rname (ops ! i) \<in> set (dep_names (ops ! j))) [Suc i..<length ops]"

definition move_target :: "'l rop list \<Rightarrow> nat \<Rightarrow> nat option" where
  "move_target ops i =
     (if \<not> has_layouts (ops ! i) then None
      else if \<not> is_any_in (ops ! i) then None
      else case first_consumer_pos ops i of
        None \<Rightarrow> None
      | Some j \<Rightarrow> if j > i + 1 then Some j else None)"

definition reorder_any_in_nodes :: "'l rop list \<Rightarrow> 'l rop list" where
  "reorder_any_in_nodes ops =
     (let to_move = filter (\<lambda>i. move_target ops i \<noteq> None) [0..<length ops]
      in if to_move = [] then ops
         else concat (map (\<lambda>i.
                if i \<in> set to_move then []
                else map ((!) ops) (filter (\<lambda>old. move_target ops old = Some i) to_move) @ [ops ! i]) [0..<length ops]))"

subsection \<open>The backward estimate\<close>

definition downstream :: "'l rop list \<Rightarrow> string \<Rightarrow> 'l rop list" where
  "downstream ops name =
     fold (\<lambda>op acc. if has_layouts op \<and> name \<in> set (dep_names op) \<and> rname op \<notin> set (map rname acc)
                    then acc @ [op] else acc) ops []"

type_synonym 'l future = "(string \<times> ('l \<times> enat) list) list"

definition future_get :: "'l future \<Rightarrow> string \<Rightarrow> 'l \<Rightarrow> enat" where
  "future_get fut name stl =
     (case map_of fut name of None \<Rightarrow> 0 | Some m \<Rightarrow> (case map_of m stl of None \<Rightarrow> 0 | Some c \<Rightarrow> c))"

definition consumer_best :: "'l future \<Rightarrow> string \<Rightarrow> 'l \<Rightarrow> 'l rop \<Rightarrow> enat" where
  "consumer_best fut name candidate d_op =
     (let best = fold (\<lambda>d_cand best.
            let edge_c = min_input_cost (restick_cost_fn d_op) name candidate d_cand
            in if edge_c = \<infinity> then best else min best (edge_c + future_get fut (rname d_op) d_cand)) (op_layouts d_op) \<infinity>
      in if best = \<infinity> then enat (10 ^ 18) else best)"

definition candidate_future :: "'l rop list \<Rightarrow> 'l future \<Rightarrow> string \<Rightarrow> 'l \<Rightarrow> enat" where
  "candidate_future ops fut name candidate =
     fold (\<lambda>d_op total. if \<not> has_layouts d_op then total
                        else if name \<notin> set (dep_names d_op) then total
                        else total + consumer_best fut name candidate d_op) (downstream ops name) 0"

definition set_future :: "string \<Rightarrow> 'l \<Rightarrow> enat \<Rightarrow> 'l future \<Rightarrow> 'l future" where
  "set_future name candidate c fut =
     AList.update name (AList.update candidate c (case map_of fut name of None \<Rightarrow> [] | Some m \<Rightarrow> m)) fut"

definition future_op :: "'l rop list \<Rightarrow> 'l rop \<Rightarrow> 'l future \<Rightarrow> 'l future" where
  "future_op ops op fut =
     (if \<not> has_layouts op then fut
      else fold (\<lambda>candidate fut. set_future (rname op) candidate (candidate_future ops fut (rname op) candidate) fut)
             (op_layouts op) (AList.update (rname op) [] fut))"

definition compute_future_min_cost :: "'l rop list \<Rightarrow> 'l future" where
  "compute_future_min_cost ops = fold (future_op ops) (rev ops) []"

subsection \<open>Liveness of the slots\<close>

definition step_of :: "'l rop list \<Rightarrow> string \<Rightarrow> nat option" where
  "step_of ops = fst (fold (\<lambda>op (m, c). if has_layouts op then (m(rname op \<mapsto> c), c + 1) else (m, c)) ops (Map.empty, 0))"

definition note_use :: "(string \<Rightarrow> nat option) \<Rightarrow> nat \<Rightarrow> string \<Rightarrow> (string \<Rightarrow> nat option) \<Rightarrow> (string \<Rightarrow> nat option)" where
  "note_use steps consumer_step name last_use =
     (if steps name = None then last_use
      else if (case last_use name of None \<Rightarrow> True | Some s \<Rightarrow> s < consumer_step) then last_use(name \<mapsto> consumer_step)
      else last_use)"

definition compute_last_use :: "'l rop list \<Rightarrow> (string \<Rightarrow> nat option) \<Rightarrow> string \<Rightarrow> nat option" where
  "compute_last_use ops steps =
     fold (\<lambda>op last_use. if \<not> has_layouts op then last_use
             else case steps (rname op) of
               None \<Rightarrow> last_use
             | Some consumer_step \<Rightarrow> fold (note_use steps consumer_step) (dep_names op) last_use) ops Map.empty"

subsection \<open>The search\<close>

definition expand :: "'l Frontier \<Rightarrow> 'l rop \<Rightarrow> ('l \<Rightarrow> enat) \<Rightarrow> 'l BeamState \<Rightarrow> 'l BeamState list res" where
  "expand fr op op_future state =
     bindE (mapE (input_stl fr state) (dep_names op)) (\<lambda>ins.
       Inr (concat (map (\<lambda>candidate_stl.
         let extra_cost = node_cost (restick_cost_fn op) ins candidate_stl
         in if extra_cost < \<infinity>
            then [\<lparr>assignments = assignments state @ [candidate_stl], state_cost = state_cost state + extra_cost,
                   lower_bound = state_cost state + extra_cost + op_future candidate_stl\<rparr>]
            else []) (op_layouts op))))"

definition live_key :: "nat set \<Rightarrow> 'l BeamState \<Rightarrow> 'l option list" where
  "live_key live s = map (\<lambda>i. if i \<in> live then Some (assignments s ! i) else None) [0..<length (assignments s)]"

fun keep_better :: "'k \<Rightarrow> 'l BeamState \<Rightarrow> ('k \<times> 'l BeamState) list \<Rightarrow> ('k \<times> 'l BeamState) list" where
  "keep_better key s [] = [(key, s)]"
| "keep_better key s ((key', s') # canon) =
     (if key' = key then (key', if lower_bound s < lower_bound s' then s else s') # canon
      else (key', s') # keep_better key s canon)"

definition merge_states :: "nat set \<Rightarrow> 'l BeamState list \<Rightarrow> 'l BeamState list" where
  "merge_states live ss = map snd (fold (\<lambda>s. keep_better (live_key live s) s) ss [])"

definition live_indices :: "(string \<Rightarrow> nat option) \<Rightarrow> nat \<Rightarrow> string list \<Rightarrow> nat set" where
  "live_indices last_use current_step names =
     set (filter (\<lambda>i. case last_use (names ! i) of None \<Rightarrow> False | Some s \<Rightarrow> s > current_step) [0..<length names])"

definition beam_step ::
  "'l future \<Rightarrow> (string \<Rightarrow> nat option) \<Rightarrow> (string \<Rightarrow> nat option) \<Rightarrow> 'l rop \<Rightarrow> 'l Frontier \<Rightarrow> 'l Frontier res" where
  "beam_step fut steps last_use op fr =
     (if \<not> has_layouts op then Inr fr
      else case steps (rname op) of
        None \<Rightarrow> Inl KeyError
      | Some current_step \<Rightarrow>
          let fr1 = add_buf (rname op) fr
          in bindE (mapE (expand fr1 op (future_get fut (rname op))) (states fr1)) (\<lambda>nexts.
               let live = live_indices last_use current_step (buf_names fr1);
                   fr2 = trim (fr1\<lparr>states := merge_states live (concat nexts)\<rparr>)
               in if states fr2 = [] then Inl NotImplementedError else Inr fr2))"

type_synonym 'l graph_input = "string \<times> 'l list option"

definition seed_input :: "'l future \<Rightarrow> 'l graph_input \<Rightarrow> enat \<times> 'l Frontier \<Rightarrow> (enat \<times> 'l Frontier) res" where
  "seed_input fut inp st =
     (case st of (total_inp_future, fr) \<Rightarrow>
        (case snd inp of
           None \<Rightarrow> Inr st
         | Some [] \<Rightarrow> Inl StopIteration
         | Some (stl # rest) \<Rightarrow>
             let fr1 = add_buf (fst inp) fr
             in Inr (total_inp_future + future_get fut (fst inp) stl,
                     fr1\<lparr>states := map (\<lambda>s. \<lparr>assignments = assignments s @ [stl], state_cost = state_cost s,
                                             lower_bound = state_cost s\<rparr>) (states fr1)\<rparr>)))"

definition beam_global_min_cost :: "'l graph_input list \<Rightarrow> 'l rop list \<Rightarrow> (string \<times> 'l) list res" where
  "beam_global_min_cost graph_inputs operations =
     (let ops = reorder_any_in_nodes operations;
          fut = compute_future_min_cost ops;
          steps = step_of ops;
          last_use = compute_last_use ops steps
      in bindE (foldE (seed_input fut) graph_inputs (0, new_frontier BEAM_WIDTH)) (\<lambda>(total_inp_future, fr).
         bindE (foldE (beam_step fut steps last_use) ops
                 (fr\<lparr>states := map (\<lambda>s. s\<lparr>lower_bound := state_cost s + total_inp_future\<rparr>) (states fr)\<rparr>)) (\<lambda>fr'.
         bindE (best_state fr') (\<lambda>best. Inr (zip (buf_names fr') (assignments best))))))"

definition optimize_restickify_locations :: "'l graph_input list \<Rightarrow> 'l rop list \<Rightarrow> (string \<times> 'l) list res" where
  "optimize_restickify_locations graph_inputs operations = beam_global_min_cost graph_inputs operations"

section \<open>Steps, liveness and the estimate\<close>

abbreviation active :: "'l rop list \<Rightarrow> 'l rop list" where
  "active ops \<equiv> filter has_layouts ops"

lemma step_fold_count:
  "snd (fold (\<lambda>op (m, c). if has_layouts op then (m(rname op \<mapsto> c), c + 1) else (m, c)) ops (m, c)) = c + length (active ops)"
  by (induction ops arbitrary: m c) auto

lemma step_of_snoc:
  "step_of (ops @ [op]) = (if has_layouts op then (step_of ops)(rname op \<mapsto> length (active ops)) else step_of ops)"
  using step_fold_count [of ops Map.empty 0] by (auto simp: step_of_def split: prod.splits)

lemma step_of_active:
  assumes "distinct (map rname (active ops))"
  shows "step_of ops n = Some t \<longleftrightarrow> t < length (active ops) \<and> rname (active ops ! t) = n"
  using assms
proof (induction ops arbitrary: n t rule: rev_induct)
  case Nil
  then show ?case by (simp add: step_of_def)
next
  case (snoc op ops)
  then have "distinct (map rname (active ops))" by (simp split: if_splits)
  note IH = snoc.IH [OF this]
  show ?case
  proof (cases "has_layouts op")
    case False
    then show ?thesis using IH by (simp add: step_of_snoc)
  next
    case True
    have "rname op \<notin> rname ` set (active ops)" using snoc.prems True by simp
    then have "rname (active ops ! t) \<noteq> rname op" if "t < length (active ops)" using that by (metis imageI nth_mem)
    then show ?thesis using True IH [of n t] by (auto simp: step_of_snoc nth_append less_Suc_eq)
  qed
qed

text \<open>The names the frontier knows before step \<open>t\<close> and the layouts seeded from the graph inputs.\<close>

definition seeded :: "'l graph_input list \<Rightarrow> (string \<times> 'l) list" where
  "seeded inputs = List.map_filter (\<lambda>(n, ls). case ls of Some (l # _) \<Rightarrow> Some (n, l) | _ \<Rightarrow> None) inputs"

definition slot_names :: "(string \<times> 'l) list \<Rightarrow> 'l rop list \<Rightarrow> nat \<Rightarrow> string list" where
  "slot_names sd A t = map fst sd @ map rname (take t A)"

text \<open>
  A layout for every buffer, its cost over the first \<open>t\<close> operations, and which of them the search may
  choose.
\<close>

definition step_cost :: "(string \<Rightarrow> 'l) \<Rightarrow> 'l rop \<Rightarrow> enat" where
  "step_cost m op = node_cost (restick_cost_fn op) (map m (dep_names op)) (m (rname op))"

definition cost_upto :: "'l rop list \<Rightarrow> nat \<Rightarrow> (string \<Rightarrow> 'l) \<Rightarrow> enat" where
  "cost_upto A t m = sum_list (map (step_cost m) (take t A))"

definition choice_upto :: "(string \<times> 'l) list \<Rightarrow> 'l rop list \<Rightarrow> nat \<Rightarrow> (string \<Rightarrow> 'l) \<Rightarrow> bool" where
  "choice_upto sd A t m \<longleftrightarrow> map m (map fst sd) = map snd sd \<and> (\<forall>op\<in>set (take t A). m (rname op) \<in> set (op_layouts op))"

definition known_deps :: "(string \<times> 'l) list \<Rightarrow> 'l rop list \<Rightarrow> bool" where
  "known_deps sd A \<longleftrightarrow> distinct (map fst sd @ map rname A) \<and>
     list_all (\<lambda>t. set (dep_names (A ! t)) \<subseteq> set (slot_names sd A t)) [0..<length A]"

definition live_at :: "'l rop list \<Rightarrow> nat \<Rightarrow> string \<Rightarrow> bool" where
  "live_at A t n \<longleftrightarrow> list_ex (\<lambda>op. n \<in> set (dep_names op)) (drop t A)"

definition used_after :: "(string \<Rightarrow> nat option) \<Rightarrow> string \<Rightarrow> nat \<Rightarrow> bool" where
  "used_after last_use n t \<longleftrightarrow> (case last_use n of None \<Rightarrow> False | Some s \<Rightarrow> s > t)"

lemma used_after_note:
  "used_after (note_use steps c name lu) n t \<longleftrightarrow> used_after lu n t \<or> (n = name \<and> steps name \<noteq> None \<and> c > t)"
  by (auto simp: used_after_def note_use_def split: option.splits)

lemma used_after_notes:
  "used_after (fold (note_use steps c) names lu) n t \<longleftrightarrow> used_after lu n t \<or> (n \<in> set names \<and> steps n \<noteq> None \<and> c > t)"
  by (induction names arbitrary: lu) (auto simp: used_after_note)

lemma used_after_last_use:
  "used_after (compute_last_use ops steps) n t \<longleftrightarrow>
     (\<exists>op\<in>set (active ops). n \<in> set (dep_names op) \<and> steps n \<noteq> None \<and> (\<exists>c. steps (rname op) = Some c \<and> c > t))"
proof -
  have "used_after (fold (\<lambda>op last_use. if \<not> has_layouts op then last_use
             else case steps (rname op) of
               None \<Rightarrow> last_use
             | Some consumer_step \<Rightarrow> fold (note_use steps consumer_step) (dep_names op) last_use) ops lu) n t \<longleftrightarrow>
     used_after lu n t \<or>
     (\<exists>op\<in>set (active ops). n \<in> set (dep_names op) \<and> steps n \<noteq> None \<and> (\<exists>c. steps (rname op) = Some c \<and> c > t))" for lu
    by (induction ops arbitrary: lu) (auto simp: used_after_notes split: option.splits)
  then show ?thesis by (simp add: compute_last_use_def used_after_def)
qed

lemma consumer_best_finite: "consumer_best fut n c d \<noteq> \<infinity>"
  by (simp add: consumer_best_def Let_def)

lemma fold_total_finite:
  "acc \<noteq> \<infinity> \<Longrightarrow> fold (\<lambda>d_op total. if \<not> has_layouts d_op then total
                        else if n \<notin> set (dep_names d_op) then total
                        else total + consumer_best fut n c d_op) ds acc \<noteq> (\<infinity>::enat)"
proof (induction ds arbitrary: acc)
  case (Cons d ds)
  then have "acc + consumer_best fut n c d \<noteq> \<infinity>" by (simp add: consumer_best_finite plus_eq_infty_iff_enat del: not_infinity_eq)
  then show ?case using Cons by (simp del: not_infinity_eq)
qed simp

lemma candidate_future_finite: "candidate_future ops fut n c \<noteq> \<infinity>"
  unfolding candidate_future_def by (rule fold_total_finite) simp

lemma future_get_set:
  "future_get (set_future name cand v fut) n c = (if n = name \<and> c = cand then v else future_get fut n c)"
  by (auto simp: future_get_def set_future_def update_conv' split: option.splits)

lemma future_get_reset: "future_get (AList.update name [] fut) n c = (if n = name then 0 else future_get fut n c)"
  by (simp add: future_get_def update_conv')

lemma future_op_invariant:
  assumes "\<And>fut. P (candidate_future ops fut (rname op)) (rname op)"
    and "\<And>n. (\<And>f c. P f n \<Longrightarrow> Q n (f c))" "\<And>n. Q n 0" "\<forall>n c. Q n (future_get fut n c)"
  shows "\<forall>n c. Q n (future_get (future_op ops op fut) n c)"
proof -
  have "\<forall>n c. Q n (future_get fut0 n c) \<Longrightarrow> \<forall>n c. Q n (future_get (fold (\<lambda>candidate fut.
      set_future (rname op) candidate (candidate_future ops fut (rname op) candidate) fut) cs fut0) n c)" for cs fut0
    using assms(1,2) by (induction cs arbitrary: fut0) (auto simp: future_get_set)
  then show ?thesis using assms(3,4) by (auto simp: future_op_def future_get_reset)
qed

lemma future_invariant:
  assumes "\<And>fut n c. Q n (candidate_future ops fut n c)" "\<And>n. Q n 0"
  shows "Q n (future_get (compute_future_min_cost ops) n c)"
proof -
  have "\<forall>n c. Q n (future_get fut n c) \<Longrightarrow> \<forall>n c. Q n (future_get (fold (future_op ops) os fut) n c)" for os fut
  proof (induction os arbitrary: fut)
    case (Cons op os)
    then show ?case
      using future_op_invariant [of "\<lambda>f n. \<forall>c. Q n (f c)" ops op Q fut] assms by auto
  qed simp
  then show ?thesis using assms(2) by (simp add: compute_future_min_cost_def future_get_def)
qed

lemma future_finite: "future_get (compute_future_min_cost ops) n c \<noteq> \<infinity>"
  by (rule future_invariant) (simp_all add: candidate_future_finite del: not_infinity_eq)

lemma downstream_empty:
  assumes "\<forall>op\<in>set (active ops). n \<notin> set (dep_names op)"
  shows "downstream ops n = []"
proof -
  have "fold (\<lambda>op acc. if has_layouts op \<and> n \<in> set (dep_names op) \<and> rname op \<notin> set (map rname acc)
                    then acc @ [op] else acc) ops acc = acc" for acc
    using assms by (induction ops arbitrary: acc) auto
  then show ?thesis by (simp add: downstream_def)
qed

lemma future_unused:
  assumes "\<forall>op\<in>set (active ops). n \<notin> set (dep_names op)"
  shows "future_get (compute_future_min_cost ops) n c = 0"
  using future_invariant [of "\<lambda>k v. k = n \<longrightarrow> v = 0" ops n c] downstream_empty [OF assms]
  by (auto simp: candidate_future_def)

section \<open>One step of the search\<close>

lemma known_depsD: "known_deps sd A \<Longrightarrow> t < length A \<Longrightarrow> set (dep_names (A ! t)) \<subseteq> set (slot_names sd A t)"
  by (simp add: known_deps_def list_all_iff)

lemma slot_names_Suc: "t < length A \<Longrightarrow> slot_names sd A (Suc t) = slot_names sd A t @ [rname (A ! t)]"
  by (simp add: slot_names_def take_Suc_conv_app_nth)

lemma slot_names_distinct: "known_deps sd A \<Longrightarrow> distinct (slot_names sd A t)"
proof -
  assume "known_deps sd A"
  then have "distinct (map fst sd @ map rname A)" by (simp add: known_deps_def)
  then have "distinct (take (length sd + t) (map fst sd @ map rname A))" by (rule distinct_take)
  then show ?thesis by (simp add: slot_names_def take_map)
qed

lemma slot_names_mono: "s \<le> t \<Longrightarrow> set (slot_names sd A s) \<subseteq> set (slot_names sd A t)"
  using set_take_subset_set_take [of s t A] unfolding slot_names_def by auto

lemma step_cost_cong:
  assumes "known_deps sd A" "s < t" "t \<le> length A" "\<forall>n\<in>set (slot_names sd A t). m n = m' n"
  shows "step_cost m (A ! s) = step_cost m' (A ! s)"
proof -
  have s: "s < length A" using assms(2,3) by simp
  have "set (slot_names sd A (Suc s)) \<subseteq> set (slot_names sd A t)" using assms(2) by (intro slot_names_mono) simp
  then have "\<forall>n\<in>set (dep_names (A ! s)). m n = m' n" "m (rname (A ! s)) = m' (rname (A ! s))"
    using known_depsD [OF assms(1) s] assms(4) by (auto simp: slot_names_Suc [OF s])
  then show ?thesis by (simp add: step_cost_def cong: map_cong)
qed

lemma cost_upto_cong:
  assumes "known_deps sd A" "t \<le> length A" "\<forall>n\<in>set (slot_names sd A t). m n = m' n"
  shows "cost_upto A t m = cost_upto A t m'"
proof -
  have "map (step_cost m) (take t A) = map (step_cost m') (take t A)"
    using step_cost_cong [OF assms(1) _ assms(2,3)] assms(2) by (intro nth_equalityI) auto
  then show ?thesis by (simp only: cost_upto_def)
qed

lemma cost_upto_Suc: "t < length A \<Longrightarrow> cost_upto A (Suc t) m = cost_upto A t m + step_cost m (A ! t)"
  by (simp add: cost_upto_def take_Suc_conv_app_nth)

lemma choice_upto_Suc:
  "t < length A \<Longrightarrow> choice_upto sd A (Suc t) m \<longleftrightarrow> choice_upto sd A t m \<and> m (rname (A ! t)) \<in> set (op_layouts (A ! t))"
  by (auto simp: choice_upto_def take_Suc_conv_app_nth)

text \<open>A beam state stands for a choice, and the frontier indexes its slots.\<close>

definition stands_for :: "(string \<times> 'l) list \<Rightarrow> 'l rop list \<Rightarrow> nat \<Rightarrow> 'l BeamState \<Rightarrow> (string \<Rightarrow> 'l) \<Rightarrow> bool" where
  "stands_for sd A t s m \<longleftrightarrow> assignments s = map m (slot_names sd A t) \<and> choice_upto sd A t m \<and>
     state_cost s = cost_upto A t m \<and> state_cost s \<noteq> \<infinity>"

definition indexed :: "'l Frontier \<Rightarrow> bool" where
  "indexed fr \<longleftrightarrow> (\<forall>i<length (buf_names fr). buf_idx fr (buf_names fr ! i) = Some i)"

definition search_inv :: "(string \<times> 'l) list \<Rightarrow> 'l rop list \<Rightarrow> nat \<Rightarrow> 'l Frontier \<Rightarrow> bool" where
  "search_inv sd A t fr \<longleftrightarrow> buf_names fr = slot_names sd A t \<and> indexed fr \<and> states fr \<noteq> [] \<and>
     (\<forall>s\<in>set (states fr). \<exists>m. stands_for sd A t s m)"

lemma indexed_add:
  assumes "indexed fr" "name \<notin> set (buf_names fr)"
  shows "indexed (add_buf name fr)"
  using assms by (auto simp: indexed_def add_buf_def nth_append less_Suc_eq)

lemma input_stl_known:
  assumes "indexed fr" "buf_names fr = slot_names sd A t @ rest" "assignments s = map m (slot_names sd A t)"
    "n \<in> set (slot_names sd A t)"
  shows "input_stl fr s n = Inr (m n)"
proof -
  obtain i where i: "i < length (slot_names sd A t)" "slot_names sd A t ! i = n" using assms(4) by (auto simp: in_set_conv_nth)
  then have "buf_idx fr n = Some i" using assms(1,2) unfolding indexed_def by (metis length_append nth_append trans_less_add1)
  then show ?thesis using i assms(3) by (simp add: input_stl_def)
qed

definition successor :: "'l BeamState \<Rightarrow> 'l \<Rightarrow> enat \<Rightarrow> enat \<Rightarrow> 'l BeamState" where
  "successor s c extra f = \<lparr>assignments = assignments s @ [c], state_cost = state_cost s + extra,
     lower_bound = state_cost s + extra + f\<rparr>"

lemma expand_known:
  assumes "indexed fr" "buf_names fr = slot_names sd A t @ rest" "stands_for sd A t s m"
    "set (dep_names op) \<subseteq> set (slot_names sd A t)"
  shows "expand fr op f s = Inr (concat (map (\<lambda>c.
      let extra = node_cost (restick_cost_fn op) (map m (dep_names op)) c
      in if extra < \<infinity> then [successor s c extra (f c)] else []) (op_layouts op)))"
proof -
  have "mapE (input_stl fr s) (dep_names op) = Inr (map m (dep_names op))"
    using assms(3,4) by (intro mapE_all input_stl_known [OF assms(1,2)]) (auto simp: stands_for_def)
  then show ?thesis unfolding expand_def successor_def Let_def by simp
qed

lemma successor_stands_for:
  assumes "known_deps sd A" "t < length A" "stands_for sd A t s m" "c \<in> set (op_layouts (A ! t))"
    "node_cost (restick_cost_fn (A ! t)) (map m (dep_names (A ! t))) c \<noteq> \<infinity>"
  shows "stands_for sd A (Suc t) (successor s c (node_cost (restick_cost_fn (A ! t)) (map m (dep_names (A ! t))) c) f)
    (m(rname (A ! t) := c))"
proof -
  let ?m = "m(rname (A ! t) := c)"
  have "rname (A ! t) \<notin> set (slot_names sd A t)"
    using slot_names_distinct [OF assms(1), of "Suc t"] assms(2) by (simp add: slot_names_Suc)
  then have eq: "\<forall>n\<in>set (slot_names sd A t). ?m n = m n" by auto
  have "map ?m (dep_names (A ! t)) = map m (dep_names (A ! t))"
    using known_depsD [OF assms(1,2)] eq by (intro map_cong [OF refl]) blast
  then have sc: "step_cost ?m (A ! t) = node_cost (restick_cost_fn (A ! t)) (map m (dep_names (A ! t))) c"
    by (simp only: step_cost_def fun_upd_same)
  have "cost_upto A t ?m = cost_upto A t m" using assms(2) by (intro cost_upto_cong [OF assms(1)]) (use eq in auto)
  moreover have "map ?m (slot_names sd A t) = map m (slot_names sd A t)" using eq by (intro map_cong [OF refl]) blast
  moreover have "choice_upto sd A t ?m"
  proof -
    have "map fst sd @ map rname (take t A) = slot_names sd A t" by (simp add: slot_names_def)
    then have sub: "set (map fst sd) \<subseteq> set (slot_names sd A t)" "rname ` set (take t A) \<subseteq> set (slot_names sd A t)"
      by (metis set_append sup_ge1, metis set_append set_map sup_ge2)
    then have "map ?m (map fst sd) = map m (map fst sd)" using eq by (intro map_cong [OF refl]) blast
    moreover have "\<forall>op\<in>set (take t A). ?m (rname op) = m (rname op)" using eq sub(2) by blast
    ultimately show ?thesis using assms(3) unfolding stands_for_def choice_upto_def by simp
  qed
  moreover have "cost_upto A t m \<noteq> \<infinity>" using assms(3) unfolding stands_for_def by metis
  ultimately show ?thesis using assms(2-5) sc
    by (simp add: stands_for_def successor_def slot_names_Suc choice_upto_Suc cost_upto_Suc plus_eq_infty_iff_enat del: not_infinity_eq)
qed

subsection \<open>Merging and trimming\<close>

definition merge_ok :: "nat set \<Rightarrow> 'l BeamState set \<Rightarrow> ('l option list \<times> 'l BeamState) list \<Rightarrow> bool" where
  "merge_ok live S canon \<longleftrightarrow> distinct (map fst canon) \<and>
     (\<forall>(k, s)\<in>set canon. s \<in> S \<and> k = live_key live s) \<and>
     (\<forall>s\<in>S. \<exists>s'. (live_key live s, s') \<in> set canon \<and> lower_bound s' \<le> lower_bound s)"

lemma keep_better_keys:
  "fst ` set (keep_better key s canon) = insert key (fst ` set canon) \<and>
   (distinct (map fst canon) \<longrightarrow> distinct (map fst (keep_better key s canon)))"
proof (induction canon)
  case (Cons x canon)
  obtain k' s' where x: "x = (k', s')" by (cases x)
  then show ?case using Cons by (cases "k' = key") auto
qed simp

lemma keep_better_members: "x \<in> set (keep_better key s canon) \<Longrightarrow> x \<in> set canon \<or> x = (key, s)"
  by (induction canon) (auto split: if_splits)

lemma keep_better_other: "(k, s') \<in> set canon \<Longrightarrow> \<exists>s''. (k, s'') \<in> set (keep_better key s canon) \<and> lower_bound s'' \<le> lower_bound s'"
  by (induction canon) (auto split: if_splits, fastforce+)

lemma keep_better_new: "\<exists>s''. (key, s'') \<in> set (keep_better key s canon) \<and> lower_bound s'' \<le> lower_bound s"
  by (induction canon) (auto split: if_splits, fastforce+)

lemma merge_ok_step:
  assumes "merge_ok live S canon"
  shows "merge_ok live (insert s S) (keep_better (live_key live s) s canon)"
proof -
  let ?c = "keep_better (live_key live s) s canon"
  have "\<exists>s''. (live_key live s', s'') \<in> set ?c \<and> lower_bound s'' \<le> lower_bound s'" if h: "s' \<in> insert s S" for s'
  proof (cases "s' = s")
    case True
    show ?thesis unfolding True by (rule keep_better_new)
  next
    case False
    then have "s' \<in> S" using h by simp
    then obtain s1 where s1: "(live_key live s', s1) \<in> set canon" "lower_bound s1 \<le> lower_bound s'"
      using assms unfolding merge_ok_def by meson
    obtain s2 where "(live_key live s', s2) \<in> set ?c" "lower_bound s2 \<le> lower_bound s1"
      using keep_better_other [OF s1(1), of "live_key live s" s] by (elim exE conjE)
    then show ?thesis using s1(2) order_trans by blast
  qed
  moreover have "s' \<in> insert s S \<and> k = live_key live s'" if h: "(k, s') \<in> set ?c" for k s'
  proof (cases "(k, s') \<in> set canon")
    case True
    then show ?thesis using assms by (auto simp: merge_ok_def)
  next
    case False
    then show ?thesis using keep_better_members [OF h] by simp
  qed
  moreover have "distinct (map fst ?c)" using assms keep_better_keys [of "live_key live s" s canon] by (simp add: merge_ok_def)
  ultimately show ?thesis unfolding merge_ok_def by blast
qed

lemma merge_fold_ok:
  "merge_ok live S canon \<Longrightarrow> merge_ok live (S \<union> set ss) (fold (\<lambda>s. keep_better (live_key live s) s) ss canon)"
proof (induction ss arbitrary: S canon)
  case (Cons s ss)
  show ?case using Cons.IH [OF merge_ok_step [OF Cons.prems, of s]] by simp
qed simp

lemma merge_states_ok:
  "set (merge_states live ss) \<subseteq> set ss"
  "s \<in> set ss \<Longrightarrow> \<exists>s'\<in>set (merge_states live ss). live_key live s' = live_key live s \<and> lower_bound s' \<le> lower_bound s"
  "length (merge_states live ss) = card (live_key live ` set ss)"
proof -
  let ?c = "fold (\<lambda>s. keep_better (live_key live s) s) ss []"
  have m: "merge_ok live (set ss) ?c" using merge_fold_ok [of live "{}" "[]" ss] by (simp add: merge_ok_def)
  show "set (merge_states live ss) \<subseteq> set ss" using m by (auto simp: merge_states_def merge_ok_def)
  show "\<exists>s'\<in>set (merge_states live ss). live_key live s' = live_key live s \<and> lower_bound s' \<le> lower_bound s" if h: "s \<in> set ss"
  proof -
    obtain s' where s': "(live_key live s, s') \<in> set ?c" "lower_bound s' \<le> lower_bound s" using m h by (auto simp: merge_ok_def)
    then have "live_key live s' = live_key live s" using m by (auto simp: merge_ok_def)
    moreover have "s' \<in> set (merge_states live ss)" unfolding merge_states_def using s'(1) by force
    ultimately show ?thesis using s'(2) by blast
  qed
  have "fst ` set ?c = live_key live ` set ss"
  proof
    show "fst ` set ?c \<subseteq> live_key live ` set ss" using m unfolding merge_ok_def by fastforce
    show "live_key live ` set ss \<subseteq> fst ` set ?c" using m unfolding merge_ok_def by (force simp: image_iff)
  qed
  then show "length (merge_states live ss) = card (live_key live ` set ss)"
    using m distinct_card [of "map fst ?c"] by (simp add: merge_states_def merge_ok_def)
qed

lemma trim_states:
  "set (states (trim fr)) \<subseteq> set (states fr)" "length (states fr) \<le> beam_K fr \<Longrightarrow> set (states (trim fr)) = set (states fr)"
  "buf_names (trim fr) = buf_names fr" "indexed (trim fr) = indexed fr" "beam_K (trim fr) = beam_K fr"
  by (auto simp: trim_def indexed_def dest: in_set_takeD)

subsection \<open>Soundness and dominance of a step\<close>

lemma mapE_concat:
  "(\<And>x. x \<in> set xs \<Longrightarrow> \<exists>ys. f x = Inr ys) \<Longrightarrow>
     \<exists>yss. mapE f xs = Inr yss \<and> set (concat yss) = {y. \<exists>x\<in>set xs. \<exists>ys. f x = Inr ys \<and> y \<in> set ys}"
proof (induction xs)
  case (Cons x xs)
  obtain ys where "f x = Inr ys" using Cons.prems [of x] by auto
  moreover obtain yss where "mapE f xs = Inr yss" "set (concat yss) = {y. \<exists>x\<in>set xs. \<exists>ys. f x = Inr ys \<and> y \<in> set ys}"
    using Cons by auto
  ultimately show ?case by (intro exI [of _ "ys # yss"]) auto
qed simp

definition next_states ::
  "(string \<times> 'l) list \<Rightarrow> 'l rop list \<Rightarrow> nat \<Rightarrow> ('l \<Rightarrow> enat) \<Rightarrow> 'l BeamState list \<Rightarrow> 'l BeamState list \<Rightarrow> bool" where
  "next_states sd A t f ss S \<longleftrightarrow> set S = {s'. \<exists>s\<in>set ss. \<exists>m c. stands_for sd A t s m \<and> c \<in> set (op_layouts (A ! t)) \<and>
     node_cost (restick_cost_fn (A ! t)) (map m (dep_names (A ! t))) c \<noteq> \<infinity> \<and>
     s' = successor s c (node_cost (restick_cost_fn (A ! t)) (map m (dep_names (A ! t))) c) (f c)}"

lemma stands_for_unique:
  "known_deps sd A \<Longrightarrow> t < length A \<Longrightarrow> stands_for sd A t s m \<Longrightarrow> stands_for sd A t s m' \<Longrightarrow>
     map m (dep_names (A ! t)) = map m' (dep_names (A ! t))"
proof -
  assume k: "known_deps sd A" "t < length A" and s: "stands_for sd A t s m" "stands_for sd A t s m'"
  then have "map m (slot_names sd A t) = map m' (slot_names sd A t)" by (metis stands_for_def)
  then have "\<forall>n\<in>set (slot_names sd A t). m n = m' n" by simp
  then show ?thesis using known_depsD [OF k] by (intro map_cong [OF refl]) blast
qed

lemma expand_all:
  assumes "known_deps sd A" "t < length A" "indexed fr" "buf_names fr = slot_names sd A t @ rest"
    "\<forall>s\<in>set ss. \<exists>m. stands_for sd A t s m"
  shows "\<exists>nexts. mapE (expand fr (A ! t) f) ss = Inr nexts \<and> next_states sd A t f ss (concat nexts)"
proof -
  let ?nc = "\<lambda>m c. node_cost (restick_cost_fn (A ! t)) (map m (dep_names (A ! t))) c"
  have e: "expand fr (A ! t) f s = Inr (concat (map (\<lambda>c. let extra = ?nc m c in
      if extra < \<infinity> then [successor s c extra (f c)] else []) (op_layouts (A ! t))))" if h: "stands_for sd A t s m" for s m
    by (rule expand_known [OF assms(3,4) h known_depsD [OF assms(1,2)]])
  have m: "y \<in> set (concat (map (\<lambda>c. let extra = ?nc m c in if extra < \<infinity> then [successor s c extra (f c)] else []) cs)) \<longleftrightarrow>
      (\<exists>c\<in>set cs. ?nc m c \<noteq> \<infinity> \<and> y = successor s c (?nc m c) (f c))" for y s m cs
    by (induction cs) (auto simp: Let_def)
  obtain yss where y: "mapE (expand fr (A ! t) f) ss = Inr yss"
    "set (concat yss) = {y. \<exists>x\<in>set ss. \<exists>ys. expand fr (A ! t) f x = Inr ys \<and> y \<in> set ys}"
    using mapE_concat [of ss "expand fr (A ! t) f"] e assms(5) by blast
  have "next_states sd A t f ss (concat yss)" unfolding next_states_def y(2)
  proof (intro Collect_cong bex_cong refl)
    fix x y assume x: "x \<in> set ss"
    then obtain m0 where m0: "stands_for sd A t x m0" using assms(5) by blast
    have "?nc m' = ?nc m0" if "stands_for sd A t x m'" for m'
      using stands_for_unique [OF assms(1,2) that m0] by (simp only:)
    then show "(\<exists>ys. expand fr (A ! t) f x = Inr ys \<and> y \<in> set ys) \<longleftrightarrow> (\<exists>m c. stands_for sd A t x m \<and> c \<in> set (op_layouts (A ! t)) \<and>
        ?nc m c \<noteq> \<infinity> \<and> y = successor x c (?nc m c) (f c))"
      (is "?l \<longleftrightarrow> ?r")
    proof -
      have "?l \<longleftrightarrow> (\<exists>c\<in>set (op_layouts (A ! t)). ?nc m0 c \<noteq> \<infinity> \<and> y = successor x c (?nc m0 c) (f c))"
        unfolding e [OF m0] m [of y m0 x "op_layouts (A ! t)", symmetric] by simp
      also have "\<dots> \<longleftrightarrow> ?r" using m0 \<open>\<And>m'. stands_for sd A t x m' \<Longrightarrow> ?nc m' = ?nc m0\<close> by metis
      finally show ?thesis .
    qed
  qed
  then show ?thesis using y(1) by blast
qed

lemma next_states_stand:
  assumes "known_deps sd A" "t < length A" "next_states sd A t f ss S" "s' \<in> set S"
  shows "\<exists>m. stands_for sd A (Suc t) s' m"
proof -
  obtain s m c where "stands_for sd A t s m" "c \<in> set (op_layouts (A ! t))"
    "node_cost (restick_cost_fn (A ! t)) (map m (dep_names (A ! t))) c \<noteq> \<infinity>"
    "s' = successor s c (node_cost (restick_cost_fn (A ! t)) (map m (dep_names (A ! t))) c) (f c)"
    using assms(3,4) unfolding next_states_def by blast
  then show ?thesis using successor_stands_for [OF assms(1,2)] by blast
qed

lemma beam_step_spec:
  assumes "known_deps sd A" "t < length A" "search_inv sd A t fr" "has_layouts (A ! t)" "steps (rname (A ! t)) = Some t"
  obtains S fr' where "next_states sd A t (future_get fut (rname (A ! t))) (states fr) S"
    "fr' = trim ((add_buf (rname (A ! t)) fr)\<lparr>states := merge_states (live_indices last_use t (slot_names sd A (Suc t))) S\<rparr>)"
    "beam_step fut steps last_use (A ! t) fr = (if states fr' = [] then Inl NotImplementedError else Inr fr')"
    "states fr' \<noteq> [] \<longrightarrow> search_inv sd A (Suc t) fr'"
proof -
  let ?fr1 = "add_buf (rname (A ! t)) fr"
  have n: "buf_names ?fr1 = slot_names sd A (Suc t)"
    using assms(2,3) by (simp add: search_inv_def add_buf_def slot_names_Suc)
  have "rname (A ! t) \<notin> set (buf_names fr)"
    using slot_names_distinct [OF assms(1), of "Suc t"] assms(2,3) by (simp add: search_inv_def slot_names_Suc)
  then have ix: "indexed ?fr1" using assms(3) by (intro indexed_add) (simp_all add: search_inv_def)
  have ss: "states ?fr1 = states fr" by (simp add: add_buf_def)
  obtain nexts where x: "mapE (expand ?fr1 (A ! t) (future_get fut (rname (A ! t)))) (states fr) = Inr nexts"
    "next_states sd A t (future_get fut (rname (A ! t))) (states fr) (concat nexts)"
    using expand_all [OF assms(1,2) ix, of "[rname (A ! t)]" "states fr" "future_get fut (rname (A ! t))"] n assms(2,3)
    by (auto simp: slot_names_Suc search_inv_def)
  let ?fr2 = "?fr1\<lparr>states := merge_states (live_indices last_use t (slot_names sd A (Suc t))) (concat nexts)\<rparr>"
  have "beam_step fut steps last_use (A ! t) fr = (if states (trim ?fr2) = [] then Inl NotImplementedError else Inr (trim ?fr2))"
    using assms(4,5) x(1) n by (simp add: beam_step_def Let_def ss)
  moreover have "search_inv sd A (Suc t) (trim ?fr2)" if "states (trim ?fr2) \<noteq> []"
  proof -
    have "set (states (trim ?fr2)) \<subseteq> set (concat nexts)"
      using trim_states(1) [of ?fr2] merge_states_ok(1) [of _ "concat nexts"] by fastforce
    then have "\<forall>s\<in>set (states (trim ?fr2)). \<exists>m. stands_for sd A (Suc t) s m"
      using next_states_stand [OF assms(1,2) x(2)] by blast
    moreover have "indexed ?fr2" using ix by (simp add: indexed_def)
    ultimately show ?thesis using that n by (simp add: search_inv_def trim_states)
  qed
  ultimately show ?thesis using that x(2) by blast
qed

lemma live_key_eq:
  assumes "live_key live s = live_key live s'"
  shows "length (assignments s) = length (assignments s')"
    "i \<in> live \<Longrightarrow> i < length (assignments s) \<Longrightarrow> assignments s ! i = assignments s' ! i"
proof -
  show l: "length (assignments s) = length (assignments s')" using arg_cong [OF assms, of length] by (simp add: live_key_def)
  assume i: "i \<in> live" "i < length (assignments s)"
  have "live_key live s ! i = live_key live s' ! i" using assms by simp
  then show "assignments s ! i = assignments s' ! i" using i l by (simp add: live_key_def)
qed

lemma next_states_bound:
  "next_states sd A t f ss S \<Longrightarrow> s \<in> set S \<Longrightarrow> lower_bound s = state_cost s + f (last (assignments s))"
  by (auto simp: next_states_def successor_def)

lemma last_slot: "t < length A \<Longrightarrow> stands_for sd A (Suc t) s m \<Longrightarrow> last (assignments s) = m (rname (A ! t))"
  by (simp add: stands_for_def slot_names_Suc)

lemma choice_inputs: "choice_upto sd A t m \<Longrightarrow> choice_upto sd A t m' \<Longrightarrow> n \<in> set (map fst sd) \<Longrightarrow> m n = m' n"
proof -
  assume "choice_upto sd A t m" "choice_upto sd A t m'"
  then have "map m (map fst sd) = map m' (map fst sd)" by (simp add: choice_upto_def)
  moreover assume "n \<in> set (map fst sd)"
  ultimately show ?thesis unfolding map_eq_conv by blast
qed

lemma live_at_Suc: "live_at A (Suc t) n \<Longrightarrow> live_at A t n"
  using set_drop_subset_set_drop [of t "Suc t" A] unfolding live_at_def list_ex_iff by auto

lemma live_at_dep: "t < length A \<Longrightarrow> n \<in> set (dep_names (A ! t)) \<Longrightarrow> live_at A t n"
  by (auto simp: live_at_def list_ex_iff Cons_nth_drop_Suc [symmetric])

text \<open>What the search needs of the tables computed up front.\<close>

definition tables_ok :: "(string \<times> 'l) list \<Rightarrow> 'l rop list \<Rightarrow> 'l future \<Rightarrow> (string \<Rightarrow> nat option) \<Rightarrow> (string \<Rightarrow> nat option) \<Rightarrow> bool" where
  "tables_ok sd A fut steps last_use \<longleftrightarrow>
     (\<forall>t<length A. steps (rname (A ! t)) = Some t) \<and>
     (\<forall>n c. future_get fut n c \<noteq> \<infinity>) \<and>
     (\<forall>t<length A. \<forall>c. \<not> live_at A (Suc t) (rname (A ! t)) \<longrightarrow> future_get fut (rname (A ! t)) c = 0) \<and>
     (\<forall>n t. used_after last_use n t \<longleftrightarrow> n \<in> rname ` set A \<and> live_at A (Suc t) n)"

lemma live_indices_iff:
  "tables_ok sd A fut steps last_use \<Longrightarrow> i < length names \<Longrightarrow>
     i \<in> live_indices last_use t names \<longleftrightarrow> names ! i \<in> rname ` set A \<and> live_at A (Suc t) (names ! i)"
  by (simp add: live_indices_def tables_ok_def used_after_def)

definition dominates :: "(string \<times> 'l) list \<Rightarrow> 'l rop list \<Rightarrow> nat \<Rightarrow> 'l BeamState set \<Rightarrow> bool" where
  "dominates sd A t S \<longleftrightarrow> (\<forall>m. choice_upto sd A t m \<longrightarrow> cost_upto A t m \<noteq> \<infinity> \<longrightarrow>
     (\<exists>s\<in>S. \<exists>m'. stands_for sd A t s m' \<and> (\<forall>n\<in>set (slot_names sd A t). live_at A t n \<longrightarrow> m' n = m n) \<and>
        state_cost s \<le> cost_upto A t m))"

lemma dominates_next:
  assumes "known_deps sd A" "t < length A" "dominates sd A t (set ss)" "next_states sd A t f ss S"
  shows "dominates sd A (Suc t) (set S)"
  unfolding dominates_def
proof (intro allI impI)
  fix m assume m: "choice_upto sd A (Suc t) m" "cost_upto A (Suc t) m \<noteq> \<infinity>"
  let ?op = "A ! t"
  have c: "choice_upto sd A t m" "m (rname ?op) \<in> set (op_layouts ?op)" using m(1) assms(2) by (simp_all add: choice_upto_Suc)
  have fin: "cost_upto A t m \<noteq> \<infinity>" "step_cost m ?op \<noteq> \<infinity>"
    using m(2) assms(2) by (auto simp: cost_upto_Suc plus_eq_infty_iff_enat simp del: not_infinity_eq)
  obtain s m' where s: "s \<in> set ss" "stands_for sd A t s m'" "\<forall>n\<in>set (slot_names sd A t). live_at A t n \<longrightarrow> m' n = m n"
    "state_cost s \<le> cost_upto A t m" using assms(3) c(1) fin(1) unfolding dominates_def by blast
  have "map m' (dep_names ?op) = map m (dep_names ?op)"
    using s(3) known_depsD [OF assms(1,2)] live_at_dep [OF assms(2)] by (intro map_cong [OF refl]) blast
  then have nc: "node_cost (restick_cost_fn ?op) (map m' (dep_names ?op)) (m (rname ?op)) = step_cost m ?op"
    by (simp only: step_cost_def)
  let ?s = "successor s (m (rname ?op)) (step_cost m ?op) (f (m (rname ?op)))"
  have "?s \<in> set S" using assms(4) s(1,2) c(2) fin(2) nc unfolding next_states_def by force
  moreover have "stands_for sd A (Suc t) ?s (m'(rname ?op := m (rname ?op)))"
    using successor_stands_for [OF assms(1,2) s(2) c(2)] nc fin(2) by simp
  moreover have "\<forall>n\<in>set (slot_names sd A (Suc t)). live_at A (Suc t) n \<longrightarrow> (m'(rname ?op := m (rname ?op))) n = m n"
    using s(3) live_at_Suc assms(2) by (auto simp: slot_names_Suc)
  moreover have "state_cost ?s \<le> cost_upto A (Suc t) m"
    using s(4) assms(2) by (simp add: successor_def cost_upto_Suc add_right_mono)
  ultimately show "\<exists>s\<in>set S. \<exists>m'. stands_for sd A (Suc t) s m' \<and>
      (\<forall>n\<in>set (slot_names sd A (Suc t)). live_at A (Suc t) n \<longrightarrow> m' n = m n) \<and> state_cost s \<le> cost_upto A (Suc t) m"
    by blast
qed

lemma merged_agrees:
  assumes "known_deps sd A" "t < length A" "tables_ok sd A fut steps last_use"
    "stands_for sd A (Suc t) s1 m1" "stands_for sd A (Suc t) s2 m2"
    "live_key (live_indices last_use t (slot_names sd A (Suc t))) s2 = live_key (live_indices last_use t (slot_names sd A (Suc t))) s1"
    "n \<in> set (slot_names sd A (Suc t))" "live_at A (Suc t) n"
  shows "m2 n = m1 n"
proof (cases "n \<in> set (map fst sd)")
  case True
  then show ?thesis using assms(4,5) choice_inputs unfolding stands_for_def by metis
next
  case False
  then have r: "n \<in> rname ` set A" using assms(7) by (auto simp: slot_names_def dest!: in_set_takeD)
  obtain i where i: "i < length (slot_names sd A (Suc t))" "slot_names sd A (Suc t) ! i = n"
    using assms(7) by (auto simp: in_set_conv_nth)
  then have "i \<in> live_indices last_use t (slot_names sd A (Suc t))"
    using live_indices_iff [OF assms(3) i(1), of t] r assms(8) by simp
  then have "assignments s2 ! i = assignments s1 ! i"
    using live_key_eq(2) [OF assms(6)] i(1) assms(5) by (simp add: stands_for_def)
  then show ?thesis using i assms(4,5) by (simp add: stands_for_def)
qed

lemma dominates_merge:
  assumes "known_deps sd A" "t < length A" "tables_ok sd A fut steps last_use"
    "next_states sd A t (future_get fut (rname (A ! t))) ss S" "dominates sd A (Suc t) (set S)"
  shows "dominates sd A (Suc t) (set (merge_states (live_indices last_use t (slot_names sd A (Suc t))) S))"
  unfolding dominates_def
proof (intro allI impI)
  fix m assume m: "choice_upto sd A (Suc t) m" "cost_upto A (Suc t) m \<noteq> \<infinity>"
  let ?live = "live_indices last_use t (slot_names sd A (Suc t))" and ?f = "future_get fut (rname (A ! t))"
  obtain s1 m1 where s1: "s1 \<in> set S" "stands_for sd A (Suc t) s1 m1"
    "\<forall>n\<in>set (slot_names sd A (Suc t)). live_at A (Suc t) n \<longrightarrow> m1 n = m n" "state_cost s1 \<le> cost_upto A (Suc t) m"
    using assms(5) m unfolding dominates_def by blast
  obtain s2 where s2: "s2 \<in> set (merge_states ?live S)" "live_key ?live s2 = live_key ?live s1" "lower_bound s2 \<le> lower_bound s1"
    using merge_states_ok(2) [OF s1(1)] by blast
  have S2: "s2 \<in> set S" using s2(1) merge_states_ok(1) by blast
  then obtain m2 where m2: "stands_for sd A (Suc t) s2 m2" using next_states_stand [OF assms(1,2,4)] by blast
  note agree = merged_agrees [OF assms(1-3) s1(2) m2 s2(2)]
  have "?f (m2 (rname (A ! t))) = ?f (m1 (rname (A ! t)))"
  proof (cases "live_at A (Suc t) (rname (A ! t))")
    case True
    then show ?thesis using agree [of "rname (A ! t)"] assms(2) by (simp add: slot_names_Suc)
  next
    case False
    then show ?thesis using assms(2,3) by (simp add: tables_ok_def)
  qed
  then have "state_cost s2 + ?f (m1 (rname (A ! t))) \<le> state_cost s1 + ?f (m1 (rname (A ! t)))"
    using s2(3) next_states_bound [OF assms(4) S2] next_states_bound [OF assms(4) s1(1)]
      last_slot [OF assms(2) m2] last_slot [OF assms(2) s1(2)] by simp
  moreover have "?f (m1 (rname (A ! t))) \<noteq> \<infinity>" using assms(3) unfolding tables_ok_def by blast
  ultimately have "state_cost s2 \<le> state_cost s1" by (metis add.commute enat_add_left_cancel_le)
  then have "state_cost s2 \<le> cost_upto A (Suc t) m" using s1(4) by order
  then show "\<exists>s\<in>set (merge_states ?live S). \<exists>m'. stands_for sd A (Suc t) s m' \<and>
      (\<forall>n\<in>set (slot_names sd A (Suc t)). live_at A (Suc t) n \<longrightarrow> m' n = m n) \<and> state_cost s \<le> cost_upto A (Suc t) m"
    using s2(1) m2 agree s1(3) by metis
qed

section \<open>The whole search\<close>

lemma dep_is_later:
  assumes "known_deps sd A" "t < length A" "j < length A" "rname (A ! t) \<in> set (dep_names (A ! j))"
  shows "t < j"
proof (rule ccontr)
  assume "\<not> t < j"
  then have "set (slot_names sd A j) \<subseteq> set (slot_names sd A t)" by (intro slot_names_mono) simp
  then have "rname (A ! t) \<in> set (slot_names sd A t)" using known_depsD [OF assms(1,3)] assms(4) by blast
  then show False using slot_names_distinct [OF assms(1), of "Suc t"] assms(2) by (simp add: slot_names_Suc)
qed

lemma live_at_iff: "live_at A t n \<longleftrightarrow> (\<exists>j<length A. t \<le> j \<and> n \<in> set (dep_names (A ! j)))"
proof
  assume "live_at A t n"
  then obtain i where "i < length (drop t A)" "n \<in> set (dep_names (drop t A ! i))"
    by (auto simp: live_at_def list_ex_length)
  then show "\<exists>j<length A. t \<le> j \<and> n \<in> set (dep_names (A ! j))" by (intro exI [of _ "t + i"]) auto
next
  assume "\<exists>j<length A. t \<le> j \<and> n \<in> set (dep_names (A ! j))"
  then obtain j where j: "j < length A" "t \<le> j" "n \<in> set (dep_names (A ! j))" by blast
  then have "drop t A ! (j - t) = A ! j" "j - t < length (drop t A)" by auto
  then show "live_at A t n" using j(3) unfolding live_at_def list_ex_length by metis
qed

lemma computed_tables_ok:
  assumes "known_deps sd (active ops)"
  shows "tables_ok sd (active ops) (compute_future_min_cost ops) (step_of ops) (compute_last_use ops (step_of ops))"
proof -
  let ?A = "active ops"
  have d: "distinct (map rname ?A)" using assms by (simp add: known_deps_def)
  note st = step_of_active [OF d]
  have "future_get (compute_future_min_cost ops) (rname (?A ! t)) c = 0"
    if h: "t < length ?A" "\<not> live_at ?A (Suc t) (rname (?A ! t))" for t c
  proof (rule future_unused, rule ballI, rule notI)
    fix op assume "op \<in> set ?A" "rname (?A ! t) \<in> set (dep_names op)"
    then obtain j where j: "j < length ?A" "rname (?A ! t) \<in> set (dep_names (?A ! j))" by (metis in_set_conv_nth)
    then show False using dep_is_later [OF assms h(1) j] h(2) unfolding live_at_iff by auto
  qed
  moreover have "used_after (compute_last_use ops (step_of ops)) n t \<longleftrightarrow> n \<in> rname ` set ?A \<and> live_at ?A (Suc t) n" for n t
  proof -
    have "step_of ops n \<noteq> None \<longleftrightarrow> (\<exists>t<length ?A. rname (?A ! t) = n)" using st [of n] by blast
    also have "\<dots> \<longleftrightarrow> n \<in> rname ` set ?A" by (simp only: set_conv_nth) blast
    finally have "step_of ops n \<noteq> None \<longleftrightarrow> n \<in> rname ` set ?A" .
    moreover have "(\<exists>op\<in>set ?A. n \<in> set (dep_names op) \<and> (\<exists>c. step_of ops (rname op) = Some c \<and> c > t)) \<longleftrightarrow> live_at ?A (Suc t) n"
    proof
      assume "\<exists>op\<in>set ?A. n \<in> set (dep_names op) \<and> (\<exists>c. step_of ops (rname op) = Some c \<and> c > t)"
      then obtain op c where o: "op \<in> set ?A" "n \<in> set (dep_names op)" "c < length ?A" "rname (?A ! c) = rname op" "c > t"
        using st by blast
      have "inj_on rname (set ?A)" using d by (simp add: distinct_map)
      then have "?A ! c = op" by (rule inj_onD [OF _ o(4) nth_mem [OF o(3)] o(1)])
      then show "live_at ?A (Suc t) n" using o unfolding live_at_iff by auto
    next
      assume "live_at ?A (Suc t) n"
      then obtain j where "j < length ?A" "Suc t \<le> j" "n \<in> set (dep_names (?A ! j))" unfolding live_at_iff by blast
      then show "\<exists>op\<in>set ?A. n \<in> set (dep_names op) \<and> (\<exists>c. step_of ops (rname op) = Some c \<and> c > t)"
        using st [of "rname (?A ! j)" j] nth_mem [of j ?A] by auto
    qed
    ultimately show ?thesis unfolding used_after_last_use by blast
  qed
  moreover have "step_of ops (rname (?A ! t)) = Some t" if "t < length ?A" for t using st that by simp
  ultimately show ?thesis unfolding tables_ok_def by (intro conjI allI impI future_finite) (simp_all only:)
qed

subsection \<open>How many states survive a merge\<close>

definition live_width :: "'l rop list \<Rightarrow> nat \<Rightarrow> nat" where
  "live_width A t = prod_list (map (\<lambda>i. if live_at A (Suc t) (rname (A ! i)) then length (op_layouts (A ! i)) else 1) [0..<Suc t])"

lemma card_listset: "list_all finite As \<Longrightarrow> finite (listset As) \<and> card (listset As) \<le> prod_list (map card As)"
proof (induction As)
  case (Cons A As)
  have e: "listset (A # As) = (\<lambda>(x, xs). x # xs) ` (A \<times> listset As)" by (auto simp: set_Cons_def)
  have "card (listset (A # As)) \<le> card (A \<times> listset As)" unfolding e using Cons by (intro card_image_le) auto
  then show ?case using Cons e by (auto simp: card_cartesian_product intro: order_trans [OF _ mult_le_mono2])
qed simp

lemma in_listset: "length xs = length As \<Longrightarrow> (\<And>i. i < length As \<Longrightarrow> xs ! i \<in> As ! i) \<Longrightarrow> xs \<in> listset As"
proof (induction As arbitrary: xs)
  case (Cons A As)
  then obtain y ys where xs: "xs = y # ys" by (cases xs) auto
  have "ys \<in> listset As" using Cons.prems xs by (intro Cons.IH) fastforce+
  then show ?case using Cons.prems(2) [of 0] xs by (auto simp: set_Cons_def)
qed simp

lemma prod_list_mono: "(\<And>i. i \<in> set is \<Longrightarrow> f i \<le> (g i :: nat)) \<Longrightarrow> prod_list (map f is) \<le> prod_list (map g is)"
  by (induction "is") (auto intro: mult_le_mono)

lemma merged_width:
  assumes "known_deps sd A" "t < length A" "tables_ok sd A fut steps last_use" "\<forall>s\<in>set S. \<exists>m. stands_for sd A (Suc t) s m"
  shows "length (merge_states (live_indices last_use t (slot_names sd A (Suc t))) S) \<le> live_width A t"
proof -
  let ?N = "slot_names sd A (Suc t)" and ?live = "live_indices last_use t (slot_names sd A (Suc t))"
  let ?op = "\<lambda>i. if live_at A (Suc t) (rname (A ! i)) then Some ` set (op_layouts (A ! i)) else {None}"
  let ?C = "replicate (length sd) {None} @ map ?op [0..<Suc t]"
  have len: "length ?N = length ?C" using assms(2) by (simp add: slot_names_def)
  have key: "live_key ?live s \<in> listset ?C" if h: "s \<in> set S" for s
  proof (rule in_listset)
    obtain m where m: "stands_for sd A (Suc t) s m" using assms(4) h by blast
    then have a: "assignments s = map m ?N" "choice_upto sd A (Suc t) m" by (auto simp: stands_for_def)
    show "length (live_key ?live s) = length ?C" using len a by (simp add: live_key_def del: upt_Suc)
    fix i assume i: "i < length ?C"
    then have k: "live_key ?live s ! i = (if i \<in> ?live then Some (m (?N ! i)) else None)" using a len by (simp add: live_key_def del: upt_Suc)
    have live: "i \<in> ?live \<longleftrightarrow> ?N ! i \<in> rname ` set A \<and> live_at A (Suc t) (?N ! i)"
      using live_indices_iff [OF assms(3)] i len by simp
    show "live_key ?live s ! i \<in> ?C ! i"
    proof (cases "i < length sd")
      case True
      then have "?N ! i \<in> fst ` set sd" by (simp add: slot_names_def nth_append)
      then have "?N ! i \<notin> rname ` set A" using assms(1) by (auto simp: known_deps_def)
      then show ?thesis using True k live by (simp add: nth_append)
    next
      case False
      define j where "j = i - length sd"
      then have j: "i = length sd + j" "j < Suc t" using i False by (simp_all del: upt_Suc)
      then have n: "?N ! i = rname (A ! j)" using assms(2) by (simp add: slot_names_def nth_append)
      have "take (Suc t) A ! j \<in> set (take (Suc t) A)" using j(2) assms(2) by (intro nth_mem) simp
      then have "A ! j \<in> set (take (Suc t) A)" using j(2) by simp
      then have "m (rname (A ! j)) \<in> set (op_layouts (A ! j))" "rname (A ! j) \<in> rname ` set A"
        using a(2) by (auto simp: choice_upto_def dest: in_set_takeD)
      moreover have "?C ! i = ?op j" using j by (simp add: nth_append del: upt_Suc)
      ultimately show ?thesis using k live n by auto
    qed
  qed
  have fin: "list_all finite ?C" by (auto simp: list_all_iff simp del: upt_Suc)
  have "length (merge_states ?live S) = card (live_key ?live ` set S)" by (rule merge_states_ok(3))
  also have "\<dots> \<le> card (listset ?C)" using key card_listset [OF fin] by (intro card_mono) auto
  also have "\<dots> \<le> prod_list (map card ?C)" using card_listset [OF fin] by blast
  also have "\<dots> = prod_list (map (\<lambda>i. card (?op i)) [0..<Suc t])" by (simp add: comp_def prod_list_replicate del: upt_Suc)
  also have "\<dots> \<le> live_width A t" unfolding live_width_def
    by (rule prod_list_mono) (auto simp: card_image card_length simp del: upt_Suc)
  finally show ?thesis .
qed

subsection \<open>Running the steps\<close>

lemma beam_steps_active:
  "foldE (beam_step fut steps lu) ops fr = foldE (beam_step fut steps lu) (active ops) fr"
proof (induction ops arbitrary: fr)
  case (Cons op ops)
  show ?case
  proof (cases "has_layouts op")
    case True
    have "bindE x (foldE (beam_step fut steps lu) ops) = bindE x (foldE (beam_step fut steps lu) (active ops))" for x
      using Cons.IH by (cases x) auto
    then show ?thesis using True by simp
  next
    case False
    then show ?thesis using Cons.IH by (simp add: beam_step_def)
  qed
qed simp

lemma choice_upto_mono: "s \<le> t \<Longrightarrow> choice_upto sd A t m \<Longrightarrow> choice_upto sd A s m"
  using set_take_subset_set_take [of s t A] by (auto simp: choice_upto_def)

lemma cost_upto_mono: "s \<le> t \<Longrightarrow> cost_upto A s m \<le> cost_upto A t m"
proof -
  assume "s \<le> t"
  then obtain d where "t = s + d" by (auto simp: le_iff_add)
  then have "take t A = take s A @ take d (drop s A)" by (simp add: take_add)
  then show ?thesis by (simp add: cost_upto_def)
qed

definition outcome_ok :: "(string \<times> 'l) list \<Rightarrow> 'l rop list \<Rightarrow> 'l Frontier res \<Rightarrow> bool" where
  "outcome_ok sd A out \<longleftrightarrow> (case out of
      Inr fr \<Rightarrow> search_inv sd A (length A) fr
    | Inl e \<Rightarrow> e = NotImplementedError)"

definition outcome_best :: "(string \<times> 'l) list \<Rightarrow> 'l rop list \<Rightarrow> 'l Frontier res \<Rightarrow> bool" where
  "outcome_best sd A out \<longleftrightarrow> (case out of
      Inr fr \<Rightarrow> dominates sd A (length A) (set (states fr))
    | Inl e \<Rightarrow> \<forall>m. choice_upto sd A (length A) m \<longrightarrow> cost_upto A (length A) m = \<infinity>)"

lemma search_run:
  assumes "known_deps sd A" "tables_ok sd A fut steps lu" "list_all has_layouts A"
    and "t \<le> length A" "search_inv sd A t fr"
  shows "outcome_ok sd A (foldE (beam_step fut steps lu) (drop t A) fr) \<and>
    (dominates sd A t (set (states fr)) \<and> (\<forall>i<length A. live_width A i \<le> beam_K fr) \<longrightarrow>
       outcome_best sd A (foldE (beam_step fut steps lu) (drop t A) fr))"
  using assms(4,5)
proof (induction "length A - t" arbitrary: t fr)
  case 0
  then show ?case by (simp add: outcome_ok_def outcome_best_def)
next
  case (Suc k)
  then have t: "t < length A" by simp
  then have d: "drop t A = A ! t # drop (Suc t) A" by (simp add: Cons_nth_drop_Suc)
  have h: "has_layouts (A ! t)" "steps (rname (A ! t)) = Some t"
    using t assms(2,3) by (auto simp: tables_ok_def list_all_length)
  obtain S fr' where S: "next_states sd A t (future_get fut (rname (A ! t))) (states fr) S"
    and fr': "fr' = trim ((add_buf (rname (A ! t)) fr)\<lparr>states := merge_states (live_indices lu t (slot_names sd A (Suc t))) S\<rparr>)"
    and step: "beam_step fut steps lu (A ! t) fr = (if states fr' = [] then Inl NotImplementedError else Inr fr')"
    and inv: "states fr' \<noteq> [] \<longrightarrow> search_inv sd A (Suc t) fr'"
    by (rule beam_step_spec [where steps = steps and fut = fut and last_use = lu, OF assms(1) t Suc.prems(2) h])
  have K: "beam_K fr' = beam_K fr" by (simp add: fr' trim_states add_buf_def)
  have dom: "dominates sd A (Suc t) (set (states fr'))"
    if f: "dominates sd A t (set (states fr))" "\<forall>i<length A. live_width A i \<le> beam_K fr"
  proof -
    let ?M = "merge_states (live_indices lu t (slot_names sd A (Suc t))) S"
    have "length ?M \<le> live_width A t"
      using next_states_stand [OF assms(1) t S] by (intro merged_width [OF assms(1) t assms(2)]) blast
    then have "length ?M \<le> beam_K fr" using f(2) t order_trans by blast
    then have "set (states fr') = set ?M" unfolding fr' by (subst trim_states(2)) (simp_all add: add_buf_def)
    then show ?thesis using dominates_merge [OF assms(1) t assms(2) S dominates_next [OF assms(1) t f(1) S]] by simp
  qed
  show ?case
  proof (cases "states fr' = []")
    case False
    then have "search_inv sd A (Suc t) fr'" using inv by simp
    then show ?thesis using Suc.hyps(1) [of "Suc t" fr'] Suc.hyps(2) t dom step d False K by simp
  next
    case True
    have "cost_upto A (length A) m = \<infinity>"
      if f: "dominates sd A t (set (states fr))" "\<forall>i<length A. live_width A i \<le> beam_K fr" "choice_upto sd A (length A) m" for m
    proof -
      have "choice_upto sd A (Suc t) m" using choice_upto_mono [OF _ f(3), of "Suc t"] t by simp
      then have "cost_upto A (Suc t) m = \<infinity>" using dom [OF f(1,2)] True unfolding dominates_def by auto
      then show ?thesis using cost_upto_mono [of "Suc t" "length A" A m] t by simp
    qed
    then show ?thesis using True step d by (auto simp: outcome_ok_def outcome_best_def)
  qed
qed

subsection \<open>Seeding and committing\<close>

lemma seeded_simps [simp]:
  "seeded [] = []" "seeded ((n, None) # is) = seeded is" "seeded ((n, Some (l # ls)) # is) = (n, l) # seeded is"
  by (simp_all add: seeded_def)

lemma seed_run:
  assumes "\<forall>(n, ls)\<in>set inputs. ls \<noteq> Some []" "distinct (buf_names fr @ map fst (seeded inputs))" "indexed fr"
    "states fr = [\<lparr>assignments = a, state_cost = 0, lower_bound = b\<rparr>]"
  shows "\<exists>tot fr' b'. foldE (seed_input fut) inputs (tot0, fr) = Inr (tot, fr') \<and>
    buf_names fr' = buf_names fr @ map fst (seeded inputs) \<and> indexed fr' \<and> beam_K fr' = beam_K fr \<and>
    states fr' = [\<lparr>assignments = a @ map snd (seeded inputs), state_cost = 0, lower_bound = b'\<rparr>]"
  using assms
proof (induction inputs arbitrary: tot0 fr a b)
  case (Cons inp inputs)
  obtain n ls where i: "inp = (n, ls)" by (cases inp)
  show ?case
  proof (cases ls)
    case None
    then show ?thesis using Cons.IH [of fr a b tot0] Cons.prems i by (auto simp: seed_input_def)
  next
    case (Some xs)
    then obtain l rest where ls: "ls = Some (l # rest)" using Cons.prems(1) i by (cases xs) auto
    let ?fr = "(add_buf n fr)\<lparr>states := [\<lparr>assignments = a @ [l], state_cost = 0, lower_bound = 0\<rparr>]\<rparr>"
    have step: "seed_input fut inp (tot0, fr) = Inr (tot0 + future_get fut n l, ?fr)"
      using Cons.prems(4) by (simp add: seed_input_def i ls Let_def add_buf_def)
    have "indexed (add_buf n fr)" using Cons.prems(2,3) i ls by (intro indexed_add) auto
    then have ix: "indexed ?fr" by (simp add: indexed_def)
    have bn: "buf_names ?fr = buf_names fr @ [n]" "beam_K ?fr = beam_K fr" by (simp_all add: add_buf_def)
    have "\<exists>tot fr' b'. foldE (seed_input fut) inputs (tot0 + future_get fut n l, ?fr) = Inr (tot, fr') \<and>
      buf_names fr' = buf_names ?fr @ map fst (seeded inputs) \<and> indexed fr' \<and> beam_K fr' = beam_K ?fr \<and>
      states fr' = [\<lparr>assignments = (a @ [l]) @ map snd (seeded inputs), state_cost = 0, lower_bound = b'\<rparr>]"
      using Cons.prems(1,2) i ls bn by (intro Cons.IH [OF _ _ ix]) auto
    then show ?thesis using step bn i ls by simp
  qed
qed simp

lemma best_state_spec:
  assumes "states fr \<noteq> []"
  shows "\<exists>s. best_state fr = Inr s \<and> s \<in> set (states fr) \<and> (\<forall>s'\<in>set (states fr). state_cost s \<le> state_cost s')"
proof -
  have "foldl (\<lambda>b s. if state_cost s < state_cost b then s else b) s ss \<in> set (s # ss) \<and>
     (\<forall>s'\<in>set (s # ss). state_cost (foldl (\<lambda>b s. if state_cost s < state_cost b then s else b) s ss) \<le> state_cost s')"
    for s and ss :: "'a BeamState list"
  proof (induction ss arbitrary: s)
    case (Cons x ss)
    show ?case using Cons.IH [of "if state_cost x < state_cost s then x else s"]
      by (auto split: if_splits)
  qed simp
  then show ?thesis using assms by (cases "states fr") (auto simp: best_state_def)
qed

section \<open>Reordering keeps producers first\<close>

definition reorder_block :: "'l rop list \<Rightarrow> nat \<Rightarrow> nat list" where
  "reorder_block ops i =
     (if move_target ops i \<noteq> None then []
      else filter (\<lambda>old. move_target ops old = Some i) [0..<length ops] @ [i])"

definition reorder_index :: "'l rop list \<Rightarrow> nat list" where
  "reorder_index ops = concat (map (reorder_block ops) [0..<length ops])"

lemma reorder_as_index: "reorder_any_in_nodes ops = map ((!) ops) (reorder_index ops)"
proof -
  let ?M = "filter (\<lambda>i. move_target ops i \<noteq> None) [0..<length ops]"
  have f: "filter (\<lambda>old. move_target ops old = Some i) ?M = filter (\<lambda>old. move_target ops old = Some i) [0..<length ops]" for i
    by (auto simp: filter_filter intro!: filter_cong)
  have "concat (map (\<lambda>i. if i \<in> set ?M then [] else map ((!) ops) (filter (\<lambda>old. move_target ops old = Some i) ?M) @ [ops ! i])
      [0..<length ops]) = map ((!) ops) (reorder_index ops)"
    unfolding f reorder_index_def map_concat map_map
    by (intro arg_cong [of _ _ concat] map_cong) (auto simp: reorder_block_def)
  moreover have "reorder_index ops = [0..<length ops]" if h: "?M = []"
  proof -
    have "reorder_block ops i = [i]" if "i < length ops" for i
      using that h by (auto simp: reorder_block_def filter_empty_conv)
    then have "map (reorder_block ops) [0..<length ops] = map (\<lambda>i. [i]) [0..<length ops]" by simp
    then show ?thesis unfolding reorder_index_def by (simp only:) simp
  qed
  ultimately show ?thesis unfolding reorder_any_in_nodes_def Let_def by (auto simp: map_nth)
qed

lemma move_target_Some:
  assumes "move_target ops i = Some j"
  shows "Suc i < j" "j < length ops" "has_layouts (ops ! i)" "rname (ops ! i) \<in> set (dep_names (ops ! j))" "dep_names (ops ! i) = []"
    "i < k \<Longrightarrow> k < length ops \<Longrightarrow> has_layouts (ops ! k) \<Longrightarrow> rname (ops ! i) \<in> set (dep_names (ops ! k)) \<Longrightarrow> j \<le> k"
proof -
  have f: "has_layouts (ops ! i)" "is_any_in (ops ! i)" "first_consumer_pos ops i = Some j" "Suc i < j"
    using assms by (auto simp: move_target_def split: if_splits option.splits)
  let ?P = "\<lambda>j. has_layouts (ops ! j) \<and> rname (ops ! i) \<in> set (dep_names (ops ! j))"
  obtain q where q: "q < length [Suc i..<length ops]" "?P ([Suc i..<length ops] ! q)" "j = [Suc i..<length ops] ! q"
    "\<forall>r<q. \<not> ?P ([Suc i..<length ops] ! r)"
    using f(3) by (auto simp: first_consumer_pos_def find_Some_iff simp del: upt_Suc)
  show "Suc i < j" "has_layouts (ops ! i)" using f by blast+
  show "j < length ops" "rname (ops ! i) \<in> set (dep_names (ops ! j))" using q(1-3) by (auto simp del: upt_Suc)
  show "dep_names (ops ! i) = []"
    using f(2) by (auto simp: is_any_in_def dep_names_def split: RestickNodeCost.splits)
  assume k: "i < k" "k < length ops" "has_layouts (ops ! k)" "rname (ops ! i) \<in> set (dep_names (ops ! k))"
  show "j \<le> k"
  proof (rule ccontr)
    assume "\<not> j \<le> k"
    then have "k - Suc i < q" using k(1) q(1,3) by (simp del: upt_Suc)
    moreover have "[Suc i..<length ops] ! (k - Suc i) = k" using k(1,2) by (simp del: upt_Suc)
    ultimately show False using q(4) k(3,4) by metis
  qed
qed

lemma unmoved: "dep_names (ops ! k) \<noteq> [] \<Longrightarrow> move_target ops k = None"
  using move_target_Some(5) by (metis not_None_eq)

lemma in_reorder_block:
  "x \<in> set (reorder_block ops i) \<longleftrightarrow>
     move_target ops i = None \<and> (x = i \<or> (x < length ops \<and> move_target ops x = Some i))"
  by (auto simp: reorder_block_def)

lemma block_of: "x < length ops \<Longrightarrow> x \<in> set (reorder_block ops (case move_target ops x of None \<Rightarrow> x | Some j \<Rightarrow> j))"
proof (cases "move_target ops x")
  case (Some j)
  then have "move_target ops j = None" using move_target_Some(4) [OF Some] by (intro unmoved) auto
  then show "x < length ops \<Longrightarrow> ?thesis" using Some by (simp add: in_reorder_block)
qed (simp add: in_reorder_block)

lemma block_unique: "x \<in> set (reorder_block ops i) \<Longrightarrow> i = (case move_target ops x of None \<Rightarrow> x | Some j \<Rightarrow> j)"
  by (auto simp: in_reorder_block split: option.splits)

lemma reorder_index_perm: "mset (reorder_index ops) = mset [0..<length ops]"
proof -
  have bd: "distinct (reorder_block ops i)" for i
    by (auto simp: reorder_block_def)
  have "distinct (concat (map (reorder_block ops) is))" if "distinct is" for "is"
    using that
  proof (induction "is")
    case (Cons i "is")
    have "set (reorder_block ops i) \<inter> (\<Union>k\<in>set is. set (reorder_block ops k)) = {}"
    proof -
      have "i = k" if "x \<in> set (reorder_block ops i)" "x \<in> set (reorder_block ops k)" for x k
        using block_unique [OF that(1)] block_unique [OF that(2)] by simp
      then show ?thesis using Cons.prems by auto
    qed
    then show ?case using Cons bd by auto
  qed simp
  then have "distinct (reorder_index ops)" by (simp add: reorder_index_def)
  moreover have "set (reorder_index ops) = set [0..<length ops]"
  proof
    show "set (reorder_index ops) \<subseteq> set [0..<length ops]" by (auto simp: reorder_index_def in_reorder_block)
    show "set [0..<length ops] \<subseteq> set (reorder_index ops)"
    proof
      fix x assume "x \<in> set [0..<length ops]"
      then have x: "x < length ops" by simp
      then have "(case move_target ops x of None \<Rightarrow> x | Some j \<Rightarrow> j) < length ops"
        using move_target_Some(2) by (auto split: option.splits)
      then show "x \<in> set (reorder_index ops)" using block_of [OF x] unfolding reorder_index_def by auto
    qed
  qed
  ultimately show ?thesis by (metis distinct_upt set_eq_iff_mset_eq_distinct)
qed

lemma reorder_perm: "mset (reorder_any_in_nodes ops) = mset ops"
proof -
  have "mset (map ((!) ops) (reorder_index ops)) = mset (map ((!) ops) [0..<length ops])"
    by (simp only: mset_map reorder_index_perm)
  then show ?thesis by (simp add: reorder_as_index map_nth)
qed

lemma upt_split: "k \<le> n \<Longrightarrow> [0..<n] = [0..<k] @ [k..<n]"
  using upt_add_eq_append [of 0 k "n - k"] by simp

lemma blocks_before:
  assumes "x \<in> set (reorder_block ops i)" "y \<in> set (reorder_block ops k)" "i < k" "k < length ops"
  shows "before x y (reorder_index ops)"
proof -
  have "[0..<length ops] = [0..<k] @ [k..<length ops]" using assms(4) by (intro upt_split) simp
  then have "reorder_index ops = concat (map (reorder_block ops) [0..<k]) @ concat (map (reorder_block ops) [k..<length ops])"
    by (simp add: reorder_index_def)
  moreover have "x \<in> set (concat (map (reorder_block ops) [0..<k]))" using assms(1,3) by auto
  moreover have "y \<in> set (concat (map (reorder_block ops) [k..<length ops]))" using assms(2,4) by auto
  ultimately show ?thesis by (simp add: before_append)
qed

lemma block_before:
  assumes "move_target ops x = Some k" "x < length ops"
  shows "before x k (reorder_index ops)"
proof -
  have k: "k < length ops" "move_target ops k = None"
    using move_target_Some(2,4) [OF assms(1)] by (auto intro!: unmoved)
  have "before x k (reorder_block ops k)" using k(2) assms by (auto simp: reorder_block_def before_append)
  moreover have "reorder_index ops = concat (map (reorder_block ops) [0..<k]) @ reorder_block ops k @
      concat (map (reorder_block ops) [Suc k..<length ops])"
  proof -
    have "[0..<length ops] = [0..<k] @ k # [Suc k..<length ops]" using k(1) upt_split [of k "length ops"] by (simp add: upt_conv_Cons)
    then show ?thesis by (simp add: reorder_index_def)
  qed
  ultimately show ?thesis by (simp add: before_append)
qed

lemma reorder_before:
  assumes "i < k" "k < length ops" "has_layouts (ops ! k)" "rname (ops ! i) \<in> set (dep_names (ops ! k))"
  shows "before i k (reorder_index ops)"
proof -
  have k: "move_target ops k = None" using assms(4) by (intro unmoved) auto
  show ?thesis
  proof (cases "move_target ops i")
    case None
    then show ?thesis using k assms by (intro blocks_before [of _ _ i _ k]) (auto simp: in_reorder_block)
  next
    case (Some j)
    have "j \<le> k" by (rule move_target_Some(6) [OF Some assms])
    then consider "j = k" | "j < k" by linarith
    then show ?thesis
    proof cases
      case 1
      then show ?thesis using block_before [OF Some] assms(1,2) by simp
    next
      case 2
      then have "i \<in> set (reorder_block ops j)" using block_of [of i ops] Some assms(1,2) by simp
      then show ?thesis using 2 k assms(2) by (intro blocks_before [of _ _ j _ k]) (auto simp: in_reorder_block)
    qed
  qed
qed

lemma known_deps_before:
  "known_deps sd A \<longleftrightarrow> distinct (map fst sd @ map rname A) \<and>
     (\<forall>op\<in>set A. \<forall>n\<in>set (dep_names op). n \<in> fst ` set sd \<or> (\<exists>p. before p op A \<and> rname p = n))"
proof -
  have "n \<in> set (slot_names sd A t) \<longleftrightarrow> n \<in> fst ` set sd \<or> (\<exists>p. before p (A ! t) A \<and> rname p = n)"
    if d: "distinct (map fst sd @ map rname A)" and t: "t < length A" for t n
  proof -
    have da: "distinct A" using d by (simp add: distinct_map)
    have "(\<exists>p. before p (A ! t) A \<and> rname p = n) \<longleftrightarrow> (\<exists>i<t. rname (A ! i) = n)"
    proof
      assume "\<exists>p. before p (A ! t) A \<and> rname p = n"
      then obtain i j where "i < j" "j < length A" "A ! j = A ! t" "rname (A ! i) = n" unfolding before_nth by blast
      moreover from this have "j = t" using da t nth_eq_iff_index_eq by blast
      ultimately show "\<exists>i<t. rname (A ! i) = n" by blast
    next
      assume "\<exists>i<t. rname (A ! i) = n"
      then show "\<exists>p. before p (A ! t) A \<and> rname p = n" using t unfolding before_nth by blast
    qed
    moreover have "(\<exists>i<t. rname (A ! i) = n) \<longleftrightarrow> n \<in> rname ` set (take t A)"
      using t nth_image [of t A, symmetric] by auto
    ultimately show ?thesis by (simp add: slot_names_def)
  qed
  note slots = this
  have "list_all (\<lambda>t. set (dep_names (A ! t)) \<subseteq> set (slot_names sd A t)) [0..<length A] \<longleftrightarrow>
      (\<forall>t<length A. \<forall>n\<in>set (dep_names (A ! t)). n \<in> fst ` set sd \<or> (\<exists>p. before p (A ! t) A \<and> rname p = n))"
    if d: "distinct (map fst sd @ map rname A)"
    using slots [OF d] unfolding list_all_iff subset_iff by auto
  then show ?thesis unfolding known_deps_def all_set_conv_all_nth by blast
qed

lemma reorder_known_deps:
  assumes "known_deps sd (active ops)"
  shows "known_deps sd (active (reorder_any_in_nodes ops))"
proof -
  let ?R = "reorder_any_in_nodes ops"
  have m: "mset (active ?R) = mset (active ops)" by (simp add: reorder_perm)
  then have "mset (map fst sd @ map rname (active ?R)) = mset (map fst sd @ map rname (active ops))" by simp
  then have "distinct (map fst sd @ map rname (active ?R))"
    using assms unfolding known_deps_def by (metis mset_eq_imp_distinct_iff)
  moreover have "\<exists>p. before p op (active ?R) \<and> rname p = n"
    if h: "op \<in> set (active ?R)" "n \<in> set (dep_names op)" "n \<notin> fst ` set sd" for op n
  proof -
    have "op \<in> set (active ops)" using h(1) unfolding mset_eq_setD [OF m] .
    then obtain p where p: "before p op (active ops)" "rname p = n" using assms h(2,3) unfolding known_deps_before by blast
    then have l: "has_layouts p" "has_layouts op" "before p op ops" by (simp_all add: before_filter)
    then obtain i k where ik: "i < k" "k < length ops" "ops ! i = p" "ops ! k = op" unfolding before_nth by blast
    then have "before i k (reorder_index ops)" using l h(2) p(2) by (intro reorder_before) auto
    then have "before p op ?R" using before_map [of i k "reorder_index ops" "(!) ops"] ik by (simp add: reorder_as_index)
    then show ?thesis using l p(2) by (auto simp: before_filter)
  qed
  ultimately show ?thesis unfolding known_deps_before by blast
qed

section \<open>The committed layouts\<close>

definition layout_choice :: "'l graph_input list \<Rightarrow> 'l rop list \<Rightarrow> (string \<Rightarrow> 'l) \<Rightarrow> bool" where
  "layout_choice inputs ops m \<longleftrightarrow> list_all (\<lambda>(n, l). m n = l) (seeded inputs) \<and>
     list_all (\<lambda>op. m (rname op) \<in> set (op_layouts op)) (active ops)"

definition restick_total :: "'l rop list \<Rightarrow> (string \<Rightarrow> 'l) \<Rightarrow> enat" where
  "restick_total ops m = sum_list (map (step_cost m) (active ops))"

definition wf_search :: "'l graph_input list \<Rightarrow> 'l rop list \<Rightarrow> bool" where
  "wf_search inputs ops \<longleftrightarrow> list_all (\<lambda>(n, ls). ls \<noteq> Some []) inputs \<and> known_deps (seeded inputs) (active ops)"

definition beam_fits :: "'l rop list \<Rightarrow> bool" where
  "beam_fits ops \<longleftrightarrow> (let A = active (reorder_any_in_nodes ops) in list_all (\<lambda>t. live_width A t \<le> BEAM_WIDTH) [0..<length A])"

definition chosen :: "(string \<times> 'l) list \<Rightarrow> string \<Rightarrow> 'l" where
  "chosen committed n = the (map_of committed n)"

lemma layout_choice_upto:
  "layout_choice inputs ops m \<longleftrightarrow>
     choice_upto (seeded inputs) (active (reorder_any_in_nodes ops)) (length (active (reorder_any_in_nodes ops))) m"
proof -
  have "set (active (reorder_any_in_nodes ops)) = set (active ops)"
    using mset_eq_setD [OF reorder_perm [of ops]] by simp
  moreover have "list_all (\<lambda>(n, l). m n = l) sd \<longleftrightarrow> map m (map fst sd) = map snd sd" for sd
    by (induction sd) auto
  ultimately show ?thesis by (auto simp: layout_choice_def choice_upto_def list_all_iff simp del: map_map)
qed

lemma restick_total_upto:
  "restick_total ops m = cost_upto (active (reorder_any_in_nodes ops)) (length (active (reorder_any_in_nodes ops))) m"
proof -
  have "mset (active (reorder_any_in_nodes ops)) = mset (active ops)" by (simp add: reorder_perm)
  then have "mset (map (step_cost m) (active (reorder_any_in_nodes ops))) = mset (map (step_cost m) (active ops))" by simp
  then show ?thesis unfolding restick_total_def cost_upto_def by (metis sum_mset_sum_list take_all order.refl)
qed

lemma cost_upto_0: "cost_upto A 0 m = 0"
  by (simp add: cost_upto_def)

lemma initial_frontier:
  assumes "distinct (map fst sd)" "buf_names fr = map fst sd" "indexed fr"
    "states fr = [\<lparr>assignments = map snd sd, state_cost = 0, lower_bound = b\<rparr>]"
  shows "search_inv sd A 0 fr \<and> dominates sd A 0 (set (states fr))"
proof -
  let ?s = "\<lparr>assignments = map snd sd, state_cost = 0, lower_bound = b\<rparr>"
  let ?m = "\<lambda>n. the (map_of sd n)"
  have "map ?m (map fst sd) = map snd sd"
    using assms(1) by (auto intro!: nth_equalityI)
  then have c: "choice_upto sd A 0 ?m" by (simp add: choice_upto_def)
  have st: "stands_for sd A 0 ?s m" if "choice_upto sd A 0 m" for m
    using that by (simp add: stands_for_def slot_names_def choice_upto_def cost_upto_0)
  have "dominates sd A 0 {?s}" unfolding dominates_def using st by (auto simp: cost_upto_0)
  moreover have "search_inv sd A 0 fr" using assms(2-4) st [OF c] by (auto simp: search_inv_def slot_names_def)
  ultimately show ?thesis using assms(4) by simp
qed

lemma search_result:
  assumes "wf_search inputs ops"
  shows "case beam_global_min_cost inputs ops of
      Inl e \<Rightarrow> e = NotImplementedError \<and> (beam_fits ops \<longrightarrow> (\<forall>m. layout_choice inputs ops m \<longrightarrow> restick_total ops m = \<infinity>))
    | Inr committed \<Rightarrow> layout_choice inputs ops (chosen committed) \<and> restick_total ops (chosen committed) \<noteq> \<infinity> \<and>
        (beam_fits ops \<longrightarrow> (\<forall>m. layout_choice inputs ops m \<longrightarrow> restick_total ops (chosen committed) \<le> restick_total ops m))"
proof -
  let ?R = "reorder_any_in_nodes ops" and ?sd = "seeded inputs"
  let ?A = "active ?R"
  let ?fut = "compute_future_min_cost ?R" and ?steps = "step_of ?R"
  let ?lu = "compute_last_use ?R ?steps"
  have k: "known_deps ?sd ?A" using assms by (intro reorder_known_deps) (simp add: wf_search_def)
  have i: "\<forall>(n, ls)\<in>set inputs. ls \<noteq> Some []" using assms by (simp add: wf_search_def list_all_iff)
  have d: "distinct (map fst ?sd)" using k by (simp add: known_deps_def)
  obtain tot fr b where f: "foldE (seed_input ?fut) inputs (0, new_frontier BEAM_WIDTH) = Inr (tot, fr)"
    "buf_names fr = map fst ?sd" "indexed fr" "beam_K fr = BEAM_WIDTH"
    "states fr = [\<lparr>assignments = map snd ?sd, state_cost = 0, lower_bound = b\<rparr>]"
    using seed_run [OF i, of "new_frontier BEAM_WIDTH" "[]" 0 ?fut 0] d by (auto simp: new_frontier_def indexed_def)
  let ?fr = "fr\<lparr>states := map (\<lambda>s. s\<lparr>lower_bound := state_cost s + tot\<rparr>) (states fr)\<rparr>"
  have "search_inv ?sd ?A 0 ?fr \<and> dominates ?sd ?A 0 (set (states ?fr))"
    using f by (intro initial_frontier [OF d]) (auto simp: indexed_def)
  then have run: "outcome_ok ?sd ?A (foldE (beam_step ?fut ?steps ?lu) ?A ?fr)"
    "beam_fits ops \<longrightarrow> outcome_best ?sd ?A (foldE (beam_step ?fut ?steps ?lu) ?A ?fr)"
    using search_run [OF k computed_tables_ok [OF k], of 0 ?fr] f(4) by (auto simp: beam_fits_def list_all_iff Let_def)
  have g: "beam_global_min_cost inputs ops =
    bindE (foldE (beam_step ?fut ?steps ?lu) ?A ?fr) (\<lambda>fr'. bindE (best_state fr') (\<lambda>best. Inr (zip (buf_names fr') (assignments best))))"
    unfolding beam_global_min_cost_def Let_def f(1) bindE.simps prod.case beam_steps_active [of ?fut ?steps ?lu ?R] ..
  show ?thesis
  proof (cases "foldE (beam_step ?fut ?steps ?lu) ?A ?fr")
    case (Inl e)
    then show ?thesis using g run by (simp add: outcome_ok_def outcome_best_def layout_choice_upto restick_total_upto)
  next
    case (Inr fr')
    then have inv: "search_inv ?sd ?A (length ?A) fr'" using run(1) by (simp add: outcome_ok_def)
    obtain s where s: "best_state fr' = Inr s" "s \<in> set (states fr')" "\<forall>s'\<in>set (states fr'). state_cost s \<le> state_cost s'"
      using best_state_spec inv unfolding search_inv_def by blast
    obtain m where m: "stands_for ?sd ?A (length ?A) s m" using inv s(2) by (auto simp: search_inv_def)
    let ?N = "slot_names ?sd ?A (length ?A)"
    have c: "beam_global_min_cost inputs ops = Inr (zip ?N (map m ?N))"
      using g Inr s(1) inv m by (simp add: search_inv_def stands_for_def)
    have eq: "\<forall>n\<in>set ?N. chosen (zip ?N (map m ?N)) n = m n"
      by (simp add: chosen_def map_of_zip_map)
    have v: "layout_choice inputs ops (chosen (zip ?N (map m ?N)))"
    proof -
      have "\<forall>n\<in>set (map fst ?sd) \<union> rname ` set ?A. chosen (zip ?N (map m ?N)) n = m n" using eq by (simp add: slot_names_def)
      then have "map (chosen (zip ?N (map m ?N))) (map fst ?sd) = map m (map fst ?sd)"
        "\<forall>op\<in>set ?A. chosen (zip ?N (map m ?N)) (rname op) = m (rname op)" by (auto simp del: map_map)
      then show ?thesis using m unfolding layout_choice_upto stands_for_def choice_upto_def by simp
    qed
    have t: "restick_total ops (chosen (zip ?N (map m ?N))) = state_cost s"
      using cost_upto_cong [OF k order.refl eq] m by (simp add: restick_total_upto stands_for_def)
    have "state_cost s \<le> restick_total ops m'" if h: "beam_fits ops" "layout_choice inputs ops m'" for m'
    proof (cases "restick_total ops m' = \<infinity>")
      case False
      have "dominates ?sd ?A (length ?A) (set (states fr'))" using run(2) h(1) Inr by (simp add: outcome_best_def)
      then obtain s' where "s' \<in> set (states fr')" "state_cost s' \<le> restick_total ops m'"
        using h(2) False unfolding dominates_def layout_choice_upto restick_total_upto by blast
      then show ?thesis using s(3) order_trans by blast
    qed simp
    moreover have "state_cost s \<noteq> \<infinity>" using m unfolding stands_for_def by blast
    ultimately show ?thesis unfolding c sum.case t using v by blast
  qed
qed

text \<open>
  C8: The beam search commits a cheapest layout assignment.  For operations in dependency order over
  distinct buffers, whenever at every step the layouts of the buffers still to be read combine in at
  most \<open>BEAM_WIDTH\<close> ways, the committed layouts are candidates of their operations, cost a finite
  amount, and no other choice of candidates costs less; and the search reports that no layout is
  feasible only when every choice costs infinity.  Neither the liveness merge, which compares states by an
  estimate, nor the reordering of layout-free producers loses the optimum.
\<close>

theorem beam_search_optimal:
  assumes "wf_search inputs ops" "beam_fits ops"
  shows "case optimize_restickify_locations inputs ops of
      Inl e \<Rightarrow> e = NotImplementedError \<and> (\<forall>m. layout_choice inputs ops m \<longrightarrow> restick_total ops m = \<infinity>)
    | Inr committed \<Rightarrow> layout_choice inputs ops (chosen committed) \<and> restick_total ops (chosen committed) \<noteq> \<infinity> \<and>
        (\<forall>m. layout_choice inputs ops m \<longrightarrow> restick_total ops (chosen committed) \<le> restick_total ops m)"
  using search_result [OF assms(1)] assms(2) unfolding optimize_restickify_locations_def by (auto split: sum.splits)

text \<open>
  Whatever the beam drops, a returned assignment is feasible: every operation got one of its own
  candidates, every graph input its first one, and all the restickifies it implies can be carried out;
  the only exception the search raises is the one for an infeasible graph.
\<close>

theorem beam_search_feasible:
  assumes "wf_search inputs ops"
  shows "case optimize_restickify_locations inputs ops of
      Inl e \<Rightarrow> e = NotImplementedError
    | Inr committed \<Rightarrow> layout_choice inputs ops (chosen committed) \<and> restick_total ops (chosen committed) \<noteq> \<infinity>"
  using search_result [OF assms] unfolding optimize_restickify_locations_def by (auto split: sum.splits)

subsection \<open>Examples\<close>

definition demo_same :: "string \<Rightarrow> nat list \<Rightarrow> (string \<times> nat list) list \<Rightarrow> nat rop" where
  "demo_same n ls deps = \<lparr>rname = n, rlayouts = Some ls,
     restick_cost_fn = AllSameNode (map (\<lambda>(d, dls). demo_edge d dls) deps) []\<rparr>"

definition restick_demo :: "nat rop list" where
  "restick_demo = [\<lparr>rname = ''e'', rlayouts = Some [0, 1], restick_cost_fn = AnyInNode\<rparr>,
     demo_same ''a'' [0, 1] [(''x'', [0])], demo_same ''b'' [0, 1] [(''a'', [0, 1])],
     demo_same ''c'' [1] [(''b'', [0, 1]), (''e'', [0, 1])]]"

lemma fold_eager [code]: "fold f [] s = s" "fold f (x # xs) s = fold f xs (f x s)"
  by simp_all

lemma demo_wf: "wf_search [(''x'', Some [0::nat])] restick_demo" "beam_fits restick_demo"
  by code_simp+

definition demo_choice :: "string \<Rightarrow> nat" where
  "demo_choice n = (if n = ''e'' \<or> n = ''c'' then 1 else 0)"

lemma demo_total: "layout_choice [(''x'', Some [0])] restick_demo demo_choice" "restick_total restick_demo demo_choice = 10"
  by code_simp+

theorem beam_search_optimal_witness:
  "\<exists>committed. optimize_restickify_locations [(''x'', Some [0])] restick_demo = Inr committed \<and>
     restick_total restick_demo (chosen committed) \<le> 10"
proof (cases "optimize_restickify_locations [(''x'', Some [0])] restick_demo")
  case (Inl e)
  then show ?thesis using beam_search_optimal [OF demo_wf] demo_total by auto
next
  case (Inr committed)
  then show ?thesis using beam_search_optimal [OF demo_wf] demo_total by auto
qed

theorem beam_search_feasible_witness:
  "\<exists>committed. optimize_restickify_locations [(''x'', Some [0])] restick_demo = Inr committed \<and>
     layout_choice [(''x'', Some [0])] restick_demo (chosen committed)"
proof (cases "optimize_restickify_locations [(''x'', Some [0])] restick_demo")
  case (Inl e)
  then show ?thesis using search_result [OF demo_wf(1)] demo_wf(2) demo_total by (auto simp: optimize_restickify_locations_def)
next
  case (Inr committed)
  then show ?thesis using beam_search_feasible [OF demo_wf(1)] by auto
qed

definition demo_diamond :: "nat rop list" where
  "demo_diamond = [demo_same ''a'' [0] [], demo_same ''b'' [0] [(''a'', [0])], demo_same ''c'' [0] [(''a'', [0])],
     demo_same ''d'' [0] [(''b'', [0]), (''c'', [0])], demo_same ''e'' [1] [(''d'', [0])]]"

text \<open>
  The backward estimate is not a lower bound.  Where two consumers of a buffer feed the same
  operation, the cost behind that operation is counted once per path: here a single unavoidable
  restickify of cost 10 after the join is estimated as 20, although the only choice of layouts costs 10.
\<close>

theorem future_min_cost_overestimates:
  "future_get (compute_future_min_cost demo_diamond) ''a'' 0 = 20 \<and>
   layout_choice [] demo_diamond (\<lambda>n. if n = ''e'' then 1 else 0) \<and>
   restick_total demo_diamond (\<lambda>n. if n = ''e'' then 1 else 0) = 10"
  by (intro conjI) code_simp+

end
