(* ===== verification/Scheduler_Nodes.thy ===== *)
theory Scheduler_Nodes
  imports Prelude
begin

text \<open>
  What the scheduling passes read of IR operations and scheduler nodes.

  An IR operation is its class (as far as the passes test it), \<open>is_no_op()\<close>, its device, the
  \<open>loop_info\<close> stamp of coarse tiling (\<open>CoarseTileInfo\<close> of \<open>loop_info.py\<close>) and the tag
  \<open>_emit_set_layout\<close> (target and layout).  A scheduler node is one of
  the classes of Inductor's scheduler or the subclass \<open>CountedLoopSchedulerNode\<close> of
  \<open>scheduler.py\<close>.  \<open>node_info\<close> holds the attributes of the node object, \<open>mem_deps\<close> the buffer names
  of its \<open>MemoryDep\<close> reads and writes in order; for a fused or counted-loop
  node Inductor's constructor computes them from the members, so they come from the parameter
  \<open>fused_info\<close> of the operations that build such nodes.  A trip count is a sympy expression that the
  passes only compare and copy; it is an \<open>int\<close> here.
\<close>

definition DEVICE_NAME :: string where
  "DEVICE_NAME = ''spyre''"

record CoarseTileInfo =
  loop_group_id :: "int list"
  loop_count :: "int list"

datatype op_class = ComputedBuffer | NopKernel | OtherOperation

record ir_operation =
  op_name :: string
  op_class :: op_class
  is_no_op :: bool
  op_device :: "string option"
  loop_info :: "CoarseTileInfo option"
  emit_set_layout :: "(string \<times> string) option"

record node_info =
  node_name :: string
  node_device :: "string option"
  buffer_names :: "string list"
  unmet_dependencies :: "string list"
  mem_deps :: "string list"
  ir_node :: "ir_operation option"

datatype sched_node =
    SchedulerNode node_info
  | NopKernelSchedulerNode node_info
  | ExternKernelSchedulerNode node_info
  | FusedSchedulerNode node_info "sched_node list"
  | CountedLoopSchedulerNode node_info "sched_node list" int

fun info_of :: "sched_node \<Rightarrow> node_info" where
  "info_of (SchedulerNode i) = i"
| "info_of (NopKernelSchedulerNode i) = i"
| "info_of (ExternKernelSchedulerNode i) = i"
| "info_of (FusedSchedulerNode i ns) = i"
| "info_of (CountedLoopSchedulerNode i ns c) = i"

definition get_name :: "sched_node \<Rightarrow> string" where
  "get_name n = node_name (info_of n)"

fun get_nodes :: "sched_node \<Rightarrow> sched_node list" where
  "get_nodes (FusedSchedulerNode i ns) = ns"
| "get_nodes (CountedLoopSchedulerNode i ns c) = ns"
| "get_nodes n = [n]"

fun is_loop_node :: "sched_node \<Rightarrow> bool" where
  "is_loop_node (CountedLoopSchedulerNode i ns c) = True"
| "is_loop_node n = False"

fun is_fused_node :: "sched_node \<Rightarrow> bool" where
  "is_fused_node (FusedSchedulerNode i ns) = True"
| "is_fused_node (CountedLoopSchedulerNode i ns c) = True"
| "is_fused_node n = False"

lemma get_nodes_basic: "\<not> is_fused_node n \<Longrightarrow> get_nodes n = [n]"
  by (cases n) auto

end
