(* ===== verification/Fusion.thy ===== *)
theory Fusion
  imports Scheduler_Nodes
begin

text \<open>
  Grouping scheduler nodes into SuperDSC bundles (\<open>torch_spyre/_inductor/fusion.py\<close>): the shared
  policy \<open>group_contiguous_fusable\<close>, the post-fusion pass \<open>spyre_fuse_nodes\<close> and the earlier
  estimate \<open>estimate_bundles\<close>.  \<open>config.bundle_symbolic_args\<close> is an argument.
\<close>

definition make_fused :: "(sched_node list \<Rightarrow> node_info) \<Rightarrow> sched_node list \<Rightarrow> sched_node option" where
  "make_fused fused_info nodes =
     (if length nodes > 1 then Some (FusedSchedulerNode (fused_info nodes) nodes)
      else if length nodes = 1 then Some (nodes ! 0)
      else None)"

definition is_spyre_node :: "sched_node \<Rightarrow> bool" where
  "is_spyre_node node =
     (case node_device (info_of node) of None \<Rightarrow> False | Some ty \<Rightarrow> ty = DEVICE_NAME)"

fun is_fusable_node :: "sched_node \<Rightarrow> bool" where
  "is_fusable_node (SchedulerNode i) = is_spyre_node (SchedulerNode i)"
| "is_fusable_node (CountedLoopSchedulerNode i ns c) = is_spyre_node (CountedLoopSchedulerNode i ns c)"
| "is_fusable_node n = False"

definition is_vetted_nop :: "ir_operation option \<Rightarrow> bool" where
  "is_vetted_nop op =
     (case op of None \<Rightarrow> False
      | Some p \<Rightarrow> if op_class p = NopKernel then True else op_class p = ComputedBuffer \<and> is_no_op p)"

fun is_hoistable_node :: "sched_node \<Rightarrow> bool" where
  "is_hoistable_node (NopKernelSchedulerNode i) = is_vetted_nop (ir_node i)"
| "is_hoistable_node n = False"

definition never_hoistable :: "'a \<Rightarrow> bool" where
  "never_hoistable item = False"

definition group_item ::
  "('a \<Rightarrow> bool) \<Rightarrow> ('a \<Rightarrow> bool) \<Rightarrow> 'a \<Rightarrow> 'a list list \<times> 'a list \<Rightarrow> 'a list list \<times> 'a list" where
  "group_item is_fusable is_hoistable item st =
     (case st of (groups, run) \<Rightarrow>
        if is_fusable item then (groups, run @ [item])
        else if run \<noteq> [] \<and> is_hoistable item then (groups @ [[item]], run)
        else ((if run \<noteq> [] then groups @ [run] else groups) @ [[item]], []))"

definition group_contiguous_fusable ::
  "'a list \<Rightarrow> ('a \<Rightarrow> bool) \<Rightarrow> ('a \<Rightarrow> bool) \<Rightarrow> 'a list list" where
  "group_contiguous_fusable items is_fusable is_hoistable =
     (case fold (group_item is_fusable is_hoistable) items ([], []) of (groups, run) \<Rightarrow>
        if run \<noteq> [] then groups @ [run] else groups)"

definition spyre_fuse_nodes ::
  "(sched_node list \<Rightarrow> node_info) \<Rightarrow> bool \<Rightarrow> sched_node list \<Rightarrow> sched_node list" where
  "spyre_fuse_nodes fused_info bundle_symbolic_args nodes =
     (if length nodes = 0 then nodes
      else if \<not> bundle_symbolic_args then nodes
      else List.map_filter (make_fused fused_info)
             (group_contiguous_fusable nodes is_fusable_node is_hoistable_node))"

definition is_fusable_operation :: "ir_operation \<Rightarrow> bool" where
  "is_fusable_operation op =
     (if op_class op \<noteq> ComputedBuffer \<or> is_no_op op then False
      else case op_device op of None \<Rightarrow> False | Some ty \<Rightarrow> ty = DEVICE_NAME)"

definition is_hoistable_operation :: "ir_operation \<Rightarrow> bool" where
  "is_hoistable_operation op = is_vetted_nop (Some op)"

definition estimate_bundles :: "bool \<Rightarrow> ir_operation list \<Rightarrow> ir_operation list list" where
  "estimate_bundles bundle_symbolic_args operations =
     (if \<not> bundle_symbolic_args then map (\<lambda>op. [op]) operations
      else group_contiguous_fusable operations is_fusable_operation is_hoistable_operation)"

subsection \<open>Invariants of the grouping loop\<close>

definition emitted :: "'a list list \<times> 'a list \<Rightarrow> 'a list" where
  "emitted st = concat (fst st) @ snd st"

definition movable :: "('a \<Rightarrow> bool) \<Rightarrow> ('a \<Rightarrow> bool) \<Rightarrow> 'a \<Rightarrow> bool" where
  "movable f h x \<longleftrightarrow> h x \<and> \<not> f x"

definition shaped :: "('a \<Rightarrow> bool) \<Rightarrow> 'a list \<Rightarrow> bool" where
  "shaped f g \<longleftrightarrow> g \<noteq> [] \<and> (list_all f g \<or> (\<exists>x. g = [x] \<and> \<not> f x))"

text \<open>The item \<open>y\<close> passes \<open>x\<close>, of which it stands \<open>mid\<close> items away: it is a hoistable
  boundary, \<open>x\<close> opened or continued a run, and nothing in between closed it.\<close>

definition passes :: "('a \<Rightarrow> bool) \<Rightarrow> ('a \<Rightarrow> bool) \<Rightarrow> 'a \<Rightarrow> 'a list \<Rightarrow> 'a \<Rightarrow> bool" where
  "passes f h x mid y \<longleftrightarrow> movable f h y \<and> f x \<and> list_all (\<lambda>z. f z \<or> h z) mid"

text \<open>The members of the open run are the items no boundary has closed off.\<close>

definition run_members :: "('a \<Rightarrow> bool) \<Rightarrow> ('a \<Rightarrow> bool) \<Rightarrow> 'a list \<Rightarrow> 'a list list \<times> 'a list \<Rightarrow> bool" where
  "run_members f h ps st \<longleftrightarrow>
     (\<forall>as x mid. ps = as @ x # mid \<longrightarrow>
        (if f x \<and> list_all (\<lambda>z. f z \<or> h z) mid then x \<in> set (snd st) else x \<in> set (concat (fst st))))"

definition order_inv :: "('a \<Rightarrow> bool) \<Rightarrow> ('a \<Rightarrow> bool) \<Rightarrow> 'a list \<Rightarrow> 'a list \<Rightarrow> bool" where
  "order_inv f h ps out \<longleftrightarrow>
     (\<forall>as x mid y cs. ps = as @ x # mid @ y # cs \<longrightarrow>
        (if passes f h x mid y then before y x out else before x y out))"

definition group_inv :: "('a \<Rightarrow> bool) \<Rightarrow> ('a \<Rightarrow> bool) \<Rightarrow> 'a list \<Rightarrow> 'a list list \<times> 'a list \<Rightarrow> bool" where
  "group_inv f h ps st \<longleftrightarrow>
     mset (emitted st) = mset ps \<and> list_all (shaped f) (fst st) \<and> list_all f (snd st) \<and>
     run_members f h ps st \<and> order_inv f h ps (emitted st)"

lemma run_membersD:
  "run_members f h (as @ x # mid) st \<Longrightarrow>
     if f x \<and> list_all (\<lambda>z. f z \<or> h z) mid then x \<in> set (snd st) else x \<in> set (concat (fst st))"
  unfolding run_members_def by blast

lemma order_invD:
  "order_inv f h (as @ x # mid @ y # cs) out \<Longrightarrow> if passes f h x mid y then before y x out else before x y out"
  unfolding order_inv_def by blast

lemma emitted_item:
  "emitted (group_item f h z st) =
     (if movable f h z \<and> snd st \<noteq> [] then concat (fst st) @ [z] @ snd st else emitted st @ [z])"
  by (auto simp: group_item_def emitted_def movable_def split: prod.split)

lemma before_emitted:
  assumes "before x y (emitted st)"
  shows "before x y (emitted (group_item f h z st))"
  unfolding emitted_item using assms by (auto simp: emitted_def before_append before_Cons)

lemma run_members_item:
  assumes "run_members f h ps st"
  shows "run_members f h (ps @ [z]) (group_item f h z st)"
  unfolding run_members_def
proof (intro allI impI)
  fix as x mid
  assume split: "ps @ [z] = as @ x # mid"
  obtain groups run where st: "st = (groups, run)" by (cases st)
  show "if f x \<and> list_all (\<lambda>z. f z \<or> h z) mid then x \<in> set (snd (group_item f h z st))
        else x \<in> set (concat (fst (group_item f h z st)))"
  proof (cases mid rule: rev_cases)
    case Nil
    then have "x = z" using split by simp
    with Nil st show ?thesis by (auto simp: group_item_def)
  next
    case (snoc mid' z')
    then have "ps = as @ x # mid'" "z' = z" using split by simp_all
    moreover from this(1) assms have "if f x \<and> list_all (\<lambda>z. f z \<or> h z) mid' then x \<in> set run else x \<in> set (concat groups)"
      using st run_membersD by fastforce
    ultimately show ?thesis using snoc st by (auto simp: group_item_def split: if_splits)
  qed
qed

lemma order_inv_item:
  assumes "order_inv f h ps (emitted st)" "run_members f h ps st" "mset (emitted st) = mset ps"
  shows "order_inv f h (ps @ [z]) (emitted (group_item f h z st))"
  unfolding order_inv_def
proof (intro allI impI)
  fix as x mid y cs
  assume split: "ps @ [z] = as @ x # mid @ y # cs"
  let ?out = "emitted (group_item f h z st)"
  show "if passes f h x mid y then before y x ?out else before x y ?out"
  proof (cases cs rule: rev_cases)
    case (snoc cs' z')
    then have "ps = as @ x # mid @ y # cs'" using split by simp
    note order_invD [OF assms(1) [unfolded this]]
    then show ?thesis using before_emitted [of _ _ st f h z] by presburger
  next
    case Nil
    then have ps: "ps = as @ x # mid" "y = z" using split by simp_all
    have mem: "if f x \<and> list_all (\<lambda>z. f z \<or> h z) mid then x \<in> set (snd st) else x \<in> set (concat (fst st))"
      by (rule run_membersD [OF assms(2) [unfolded ps(1)]])
    have "x \<in> set (emitted st)" using assms(3) ps(1) by (metis in_set_conv_decomp mset_eq_setD)
    then show ?thesis
      using mem ps(2) by (auto simp: passes_def emitted_item before_append before_Cons)
  qed
qed

lemma group_item_inv:
  assumes "group_inv f h ps st"
  shows "group_inv f h (ps @ [z]) (group_item f h z st)"
proof -
  have m: "mset (emitted st) = mset ps" using assms by (simp add: group_inv_def)
  have "mset (emitted (group_item f h z st)) = mset (emitted st) + {#z#}"
    by (simp add: emitted_item) (simp add: emitted_def)
  moreover have "list_all (shaped f) (fst (group_item f h z st)) \<and> list_all f (snd (group_item f h z st))"
    using assms by (cases st) (auto simp: group_inv_def group_item_def shaped_def)
  ultimately show ?thesis
    using m assms run_members_item order_inv_item unfolding group_inv_def by fastforce
qed

lemma group_fold_inv:
  "group_inv f h ps st \<Longrightarrow> group_inv f h (ps @ items) (fold (group_item f h) items st)"
proof (induction items arbitrary: ps st)
  case (Cons z items)
  show ?case using Cons.IH [OF group_item_inv [OF Cons.prems, of z]] by simp
qed simp

lemma group_final:
  defines "st items f h \<equiv> fold (group_item f h) items ([], [])"
  shows "concat (group_contiguous_fusable items f h) = emitted (st items f h)"
    and "group_inv f h items (st items f h)"
proof -
  have "group_inv f h [] ([], [])" by (simp add: group_inv_def emitted_def run_members_def order_inv_def)
  from group_fold_inv [OF this, of items] show "group_inv f h items (st items f h)" by (simp add: st_def)
  show "concat (group_contiguous_fusable items f h) = emitted (st items f h)"
    by (auto simp: group_contiguous_fusable_def emitted_def st_def split: prod.split)
qed

lemma group_shaped: "g \<in> set (group_contiguous_fusable items f h) \<Longrightarrow> shaped f g"
proof -
  assume g: "g \<in> set (group_contiguous_fusable items f h)"
  obtain gs run where s: "fold (group_item f h) items ([], []) = (gs, run)" by fastforce
  then have "list_all (shaped f) gs" "list_all f run"
    using group_final(2) [of f h items] by (auto simp: group_inv_def)
  then show ?thesis using g s
    by (auto simp: group_contiguous_fusable_def list_all_iff shaped_def split: if_splits)
qed

subsection \<open>Moved no-ops aside, the bundles are the maximal runs\<close>

definition moved_group :: "('a \<Rightarrow> bool) \<Rightarrow> ('a \<Rightarrow> bool) \<Rightarrow> 'a list \<Rightarrow> bool" where
  "moved_group f h g \<longleftrightarrow> (case g of [x] \<Rightarrow> movable f h x | _ \<Rightarrow> False)"

lemma run_not_moved: "list_all f run \<Longrightarrow> \<not> moved_group f h run"
  by (auto simp: moved_group_def movable_def split: list.splits)

lemma single_moved [simp]: "moved_group f h [x] \<longleftrightarrow> movable f h x"
  by (simp add: moved_group_def)

lemma fold_strip:
  assumes "list_all f run"
  shows "fold (group_item f never_hoistable) (filter (\<lambda>x. \<not> movable f h x) items)
           (filter (\<lambda>g. \<not> moved_group f h g) groups, run) =
         (case fold (group_item f h) items (groups, run) of (groups', run') \<Rightarrow>
            (filter (\<lambda>g. \<not> moved_group f h g) groups', run'))"
  using assms
proof (induction items arbitrary: groups run)
  case (Cons z items)
  show ?case
  proof (cases "movable f h z")
    case True
    have "group_item f h z (groups, run) = (groups @ [[z]], run)" if "run \<noteq> []"
      using that True by (simp add: group_item_def movable_def)
    moreover have "group_item f h z (groups, run) = (groups @ [[z]], run)" if "run = []"
      using that True by (simp add: group_item_def movable_def)
    ultimately show ?thesis using Cons.IH [of run "groups @ [[z]]"] Cons.prems True by (cases "run = []") simp_all
  next
    case False
    obtain g r where i: "group_item f h z (groups, run) = (g, r)" by fastforce
    have r: "list_all f r" using i Cons.prems by (auto simp: group_item_def split: if_splits)
    have "group_item f never_hoistable z (filter (\<lambda>g. \<not> moved_group f h g) groups, run) =
      (filter (\<lambda>g. \<not> moved_group f h g) g, r)"
      using i False Cons.prems run_not_moved [of f run h]
      by (auto simp: group_item_def never_hoistable_def movable_def split: if_splits)
    then show ?thesis using False i Cons.IH [OF r, of g] by simp
  qed
qed simp

lemma group_strip:
  "filter (\<lambda>g. \<not> moved_group f h g) (group_contiguous_fusable items f h) =
   group_contiguous_fusable (filter (\<lambda>x. \<not> movable f h x) items) f never_hoistable"
proof -
  obtain gs run where s: "fold (group_item f h) items ([], []) = (gs, run)" by fastforce
  then have r: "list_all f run" using group_final(2) [of f h items] by (auto simp: group_inv_def)
  show ?thesis using fold_strip [of f "[]" h items "[]"] s run_not_moved [OF r, of h]
    by (auto simp: group_contiguous_fusable_def)
qed

text \<open>No two neighbouring bundles of the plain policy could have been one.\<close>

definition run_open :: "('a \<Rightarrow> bool) \<Rightarrow> 'a list list \<times> 'a list \<Rightarrow> bool" where
  "run_open f st \<longleftrightarrow> snd st = [] \<or> fst st = [] \<or> (\<exists>x. last (fst st) = [x] \<and> \<not> f x)"

definition alternating :: "('a \<Rightarrow> bool) \<Rightarrow> 'a list list \<Rightarrow> bool" where
  "alternating f gs \<longleftrightarrow> (\<forall>i. Suc i < length gs \<longrightarrow> \<not> (list_all f (gs ! i) \<and> list_all f (gs ! Suc i)))"

lemma alternating_snoc:
  "alternating f gs \<Longrightarrow> gs = [] \<or> \<not> list_all f (last gs) \<or> \<not> list_all f g \<Longrightarrow> alternating f (gs @ [g])"
proof -
  assume a: "alternating f gs" and g: "gs = [] \<or> \<not> list_all f (last gs) \<or> \<not> list_all f g"
  have "\<not> (list_all f ((gs @ [g]) ! i) \<and> list_all f ((gs @ [g]) ! Suc i))" if i: "Suc i < length (gs @ [g])" for i
  proof (cases "Suc i < length gs")
    case True
    then show ?thesis using a by (auto simp: alternating_def nth_append)
  next
    case False
    then have "Suc i = length gs" using i by simp
    then have "last gs = gs ! i" "gs \<noteq> []" by (metis diff_Suc_1 last_conv_nth length_0_conv nat.discI, auto)
    then show ?thesis using g \<open>Suc i = length gs\<close> by (auto simp: nth_append)
  qed
  then show ?thesis unfolding alternating_def by blast
qed

definition run_inv :: "('a \<Rightarrow> bool) \<Rightarrow> 'a list list \<times> 'a list \<Rightarrow> bool" where
  "run_inv f st \<longleftrightarrow> alternating f (fst st) \<and> (fst st = [] \<or> \<not> list_all f (last (fst st)))"

lemma run_inv_item: "run_inv f st \<Longrightarrow> run_inv f (group_item f never_hoistable z st)"
proof -
  assume r: "run_inv f st"
  obtain gs run where st: "st = (gs, run)" by (cases st)
  show ?thesis
  proof (cases "f z")
    case True
    then show ?thesis using r st by (simp add: group_item_def run_inv_def)
  next
    case False
    have a: "alternating f (gs @ [run])" using r st by (auto simp: run_inv_def intro: alternating_snoc)
    then have "alternating f ((gs @ [run]) @ [[z]])" using False by (intro alternating_snoc [OF a]) auto
    moreover have "alternating f (gs @ [[z]])" using r st False by (auto simp: run_inv_def intro!: alternating_snoc)
    ultimately show ?thesis using False st by (auto simp: group_item_def never_hoistable_def run_inv_def)
  qed
qed

lemma group_alternating: "alternating f (group_contiguous_fusable items f never_hoistable)"
proof -
  have "run_inv f st \<Longrightarrow> run_inv f (fold (group_item f never_hoistable) items st)" for st
    by (induction items arbitrary: st) (simp_all add: run_inv_item)
  moreover have "run_inv f ([], [])" by (simp add: run_inv_def alternating_def)
  ultimately have "run_inv f (fold (group_item f never_hoistable) items ([], []))" by blast
  then show ?thesis
    by (auto simp: group_contiguous_fusable_def run_inv_def split: prod.split intro: alternating_snoc)
qed

lemma group_plain_order: "concat (group_contiguous_fusable items f never_hoistable) = items"
proof -
  have e: "emitted (group_item f never_hoistable z st) = emitted st @ [z]" for z st
    by (simp add: emitted_item movable_def never_hoistable_def)
  have "emitted (fold (group_item f never_hoistable) items st) = emitted st @ items" for st
    by (induction items arbitrary: st) (simp_all add: e)
  then show ?thesis using group_final(1) [of items f never_hoistable] by (simp add: emitted_def)
qed

lemma make_fused_some: "g \<noteq> [] \<Longrightarrow> make_fused fi g = Some (if length g = 1 then hd g else FusedSchedulerNode (fi g) g)"
  by (cases g) (auto simp: make_fused_def)

lemma map_filter_make_fused:
  "\<forall>g\<in>set gs. g \<noteq> [] \<Longrightarrow> List.map_filter (make_fused fi) gs =
     map (\<lambda>g. if length g = 1 then hd g else FusedSchedulerNode (fi g) g) gs"
  by (induction gs) (auto simp: List.map_filter_def make_fused_some)

lemma group_nonempty: "\<forall>g\<in>set (group_contiguous_fusable items f h). g \<noteq> []"
  using group_shaped by (fastforce simp: shaped_def)

lemma spyre_fuse_map:
  "spyre_fuse_nodes fi True nodes =
     map (\<lambda>g. if length g = 1 then hd g else FusedSchedulerNode (fi g) g)
       (group_contiguous_fusable nodes is_fusable_node is_hoistable_node)"
proof (cases nodes)
  case Nil
  then show ?thesis by (simp add: spyre_fuse_nodes_def group_contiguous_fusable_def)
next
  case (Cons n ns)
  then show ?thesis by (simp add: spyre_fuse_nodes_def map_filter_make_fused [OF group_nonempty])
qed

text \<open>
  C29: Fusion loses, duplicates and invents no node, and its order is the schedule's up to the
  hoisting of vetted no-ops: of two nodes \<open>x\<close> and \<open>y\<close> of the schedule, \<open>y\<close> comes out ahead of an
  earlier \<open>x\<close> exactly when \<open>y\<close> is a vetted no-op, \<open>x\<close> is fusable and everything between them is
  fusable or a vetted no-op, that is when \<open>y\<close> stands inside the run \<open>x\<close> belongs to.  A no-op so
  never passes a boundary, an earlier no-op or a node of another run, and never lands behind a
  node that consumes its allocation.
\<close>

theorem fusion_preserves_order:
  "(let bundles = group_contiguous_fusable nodes is_fusable_node is_hoistable_node
    in spyre_fuse_nodes fi True nodes =
         map (\<lambda>g. if length g = 1 then hd g else FusedSchedulerNode (fi g) g) bundles \<and>
       mset (concat bundles) = mset nodes \<and>
       (\<forall>as x mid y cs. nodes = as @ x # mid @ y # cs \<longrightarrow>
          (if is_hoistable_node y \<and> is_fusable_node x \<and>
              list_all (\<lambda>z. is_fusable_node z \<or> is_hoistable_node z) mid
           then before y x (concat bundles) else before x y (concat bundles))))"
proof -
  have m: "passes is_fusable_node is_hoistable_node x mid y \<longleftrightarrow> is_hoistable_node y \<and> is_fusable_node x \<and>
      list_all (\<lambda>z. is_fusable_node z \<or> is_hoistable_node z) mid" for x mid y
    by (cases y) (simp_all add: passes_def movable_def)
  have "group_inv is_fusable_node is_hoistable_node nodes
      (fold (group_item is_fusable_node is_hoistable_node) nodes ([], []))"
    by (rule group_final(2))
  then show ?thesis
    unfolding Let_def spyre_fuse_map group_final(1) group_inv_def order_inv_def m by blast
qed

text \<open>
  The bundles are the maximal runs of fusable nodes.  A bundle is a non-empty run of fusable
  nodes or a single boundary; without the hoisted no-ops the bundles spell the schedule in its own
  order, and no two neighbours of them are both runs, so no boundary was introduced that the
  schedule does not have.
\<close>

theorem bundles_are_maximal_runs:
  "(let bundles = group_contiguous_fusable nodes is_fusable_node is_hoistable_node;
        kept = filter (\<lambda>g. \<not> moved_group is_fusable_node is_hoistable_node g) bundles
    in list_all (\<lambda>g. g \<noteq> [] \<and> (list_all is_fusable_node g \<or> length g = 1)) bundles \<and>
       concat kept = filter (\<lambda>x. is_fusable_node x \<or> \<not> is_hoistable_node x) nodes \<and>
       (\<forall>i. Suc i < length kept \<longrightarrow>
          \<not> (list_all is_fusable_node (kept ! i) \<and> list_all is_fusable_node (kept ! Suc i))))"
proof -
  have p: "filter (\<lambda>x. \<not> movable is_fusable_node is_hoistable_node x) nodes =
    filter (\<lambda>x. is_fusable_node x \<or> \<not> is_hoistable_node x) nodes"
    by (rule filter_cong) (auto simp: movable_def)
  have s: "list_all (\<lambda>g. g \<noteq> [] \<and> (list_all is_fusable_node g \<or> length g = 1))
      (group_contiguous_fusable nodes is_fusable_node is_hoistable_node)"
  proof -
    have "g \<noteq> [] \<and> (list_all is_fusable_node g \<or> length g = 1)" if h: "shaped is_fusable_node g" for g
      using h unfolding shaped_def by auto
    then show ?thesis using group_shaped unfolding list_all_iff [of "\<lambda>g. g \<noteq> [] \<and> _ g"] by blast
  qed
  show ?thesis unfolding Let_def group_strip group_plain_order p
    using s group_alternating [of is_fusable_node "filter (\<lambda>x. is_fusable_node x \<or> \<not> is_hoistable_node x) nodes"]
    unfolding alternating_def by blast
qed

subsection \<open>The estimate\<close>

text \<open>
  How Inductor's scheduler wraps an IR operation (\<open>_is_vetted_nop\<close>, \<open>_is_fusable_operation\<close>): a no-op
  becomes a \<open>NopKernelSchedulerNode\<close>, another \<open>ComputedBuffer\<close> a \<open>SchedulerNode\<close> on the operation's
  device, anything else an extern node; a \<open>NopKernel\<close> is a no-op.
\<close>

definition wraps :: "(ir_operation \<Rightarrow> sched_node) \<Rightarrow> ir_operation \<Rightarrow> bool" where
  "wraps create op \<longleftrightarrow> (op_class op = NopKernel \<longrightarrow> is_no_op op) \<and>
     (case create op of
        NopKernelSchedulerNode i \<Rightarrow> is_no_op op \<and> ir_node i = Some op
      | SchedulerNode i \<Rightarrow> \<not> is_no_op op \<and> op_class op = ComputedBuffer \<and> node_device i = op_device op
      | ExternKernelSchedulerNode i \<Rightarrow> \<not> is_no_op op \<and> op_class op \<noteq> ComputedBuffer
      | _ \<Rightarrow> False)"

lemma wraps_fusable: "wraps create op \<Longrightarrow> is_fusable_node (create op) = is_fusable_operation op"
  by (auto simp: wraps_def is_fusable_operation_def is_spyre_node_def split: sched_node.splits option.splits)

lemma wraps_hoistable: "wraps create op \<Longrightarrow> is_hoistable_node (create op) = is_hoistable_operation op"
  by (auto simp: wraps_def is_hoistable_operation_def is_vetted_nop_def split: sched_node.splits)

lemma group_item_map:
  assumes "is_f (c z) = f z" "is_h (c z) = h z"
  shows "group_item is_f is_h (c z) (map (map c) (fst st), map c (snd st)) =
    map_prod (map (map c)) (map c) (group_item f h z st)"
  using assms by (cases st) (auto simp: group_item_def)

lemma group_map:
  assumes "\<forall>z\<in>set items. is_f (c z) = f z \<and> is_h (c z) = h z"
  shows "group_contiguous_fusable (map c items) is_f is_h = map (map c) (group_contiguous_fusable items f h)"
proof -
  have "fold (group_item is_f is_h) (map c items) (map (map c) (fst st), map c (snd st)) =
    map_prod (map (map c)) (map c) (fold (group_item f h) items st)" for st
    using assms
  proof (induction items arbitrary: st)
    case (Cons z items)
    then have "group_item is_f is_h (c z) (map (map c) (fst st), map c (snd st)) =
      map_prod (map (map c)) (map c) (group_item f h z st)" by (intro group_item_map) auto
    then show ?case using Cons.IH [of "group_item f h z st"] Cons.prems by (simp add: map_prod_def case_prod_beta)
  qed (simp add: map_prod_def case_prod_beta)
  from this [of "([], [])"] show ?thesis
    by (simp add: group_contiguous_fusable_def case_prod_beta)
qed

text \<open>
  The early estimate is exact on the operations it is given: for every schedule whose nodes wrap
  the operations as Inductor's scheduler does, the nodes \<open>spyre_fuse_nodes\<close> emits are the estimated
  bundles, wrapped and fused one by one, with fusion on or off.
\<close>

theorem estimate_matches_fusion:
  assumes "list_all (wraps create) operations"
  shows "spyre_fuse_nodes fi b (map create operations) =
    map (\<lambda>g. if length g = 1 then create (hd g) else FusedSchedulerNode (fi (map create g)) (map create g))
      (estimate_bundles b operations)"
proof (cases b)
  case False
  then show ?thesis by (cases operations) (auto simp: spyre_fuse_nodes_def estimate_bundles_def)
next
  case True
  have "group_contiguous_fusable (map create operations) is_fusable_node is_hoistable_node =
    map (map create) (group_contiguous_fusable operations is_fusable_operation is_hoistable_operation)"
    using assms by (intro group_map) (auto simp: list_all_iff wraps_fusable wraps_hoistable)
  then show ?thesis
    using True group_nonempty [of operations is_fusable_operation is_hoistable_operation]
    by (auto simp: spyre_fuse_map estimate_bundles_def hd_map)
qed

subsection \<open>A schedule with a hoisted allocation\<close>

definition demo_op :: "string \<Rightarrow> op_class \<Rightarrow> bool \<Rightarrow> ir_operation" where
  "demo_op n c nop = \<lparr>op_name = n, op_class = c, is_no_op = nop, op_device = Some ''spyre'', loop_info = None,
     emit_set_layout = None\<rparr>"

definition demo_create :: "ir_operation \<Rightarrow> sched_node" where
  "demo_create op =
     (let i = \<lparr>node_name = op_name op, node_device = op_device op, buffer_names = [op_name op],
               unmet_dependencies = [], mem_deps = [], ir_node = Some op\<rparr>
      in if is_no_op op then NopKernelSchedulerNode i
         else if op_class op = ComputedBuffer then SchedulerNode i else ExternKernelSchedulerNode i)"

definition demo_ops :: "ir_operation list" where
  "demo_ops = [demo_op ''a'' ComputedBuffer False, demo_op ''empty'' ComputedBuffer True,
     demo_op ''b'' ComputedBuffer False, demo_op ''ext'' OtherOperation False, demo_op ''c'' ComputedBuffer False]"

definition demo_fused_info :: "sched_node list \<Rightarrow> node_info" where
  "demo_fused_info ns = \<lparr>node_name = concat (map get_name ns), node_device = Some ''spyre'',
     buffer_names = concat (map (\<lambda>n. buffer_names (info_of n)) ns), unmet_dependencies = [], mem_deps = [], ir_node = None\<rparr>"

theorem estimate_matches_fusion_witness:
  "list_all (wraps demo_create) demo_ops \<and>
   map get_name (spyre_fuse_nodes demo_fused_info True (map demo_create demo_ops)) = [''empty'', ''ab'', ''ext'', ''c''] \<and>
   map (map op_name) (estimate_bundles True demo_ops) = [[''empty''], [''a'', ''b''], [''ext''], [''c'']]"
proof -
  have w: "list_all (wraps demo_create) demo_ops" by code_simp
  have e: "map (map op_name) (estimate_bundles True demo_ops) = [[''empty''], [''a'', ''b''], [''ext''], [''c'']]"
    by code_simp
  have "map get_name (map (\<lambda>g. if length g = 1 then demo_create (hd g)
       else FusedSchedulerNode (demo_fused_info (map demo_create g)) (map demo_create g)) (estimate_bundles True demo_ops)) =
     [''empty'', ''ab'', ''ext'', ''c'']"
    by code_simp
  then show ?thesis using w e estimate_matches_fusion [OF w, of demo_fused_info True] by simp
qed

definition demo_schedule :: "sched_node list" where
  "demo_schedule = map demo_create demo_ops"

theorem fusion_preserves_order_witness:
  "before (demo_create (demo_op ''empty'' ComputedBuffer True)) (demo_create (demo_op ''a'' ComputedBuffer False))
     (concat (group_contiguous_fusable demo_schedule is_fusable_node is_hoistable_node)) \<and>
   before (demo_create (demo_op ''b'' ComputedBuffer False)) (demo_create (demo_op ''ext'' OtherOperation False))
     (concat (group_contiguous_fusable demo_schedule is_fusable_node is_hoistable_node))"
proof -
  let ?a = "demo_create (demo_op ''a'' ComputedBuffer False)" and ?b = "demo_create (demo_op ''b'' ComputedBuffer False)"
  let ?e = "demo_create (demo_op ''empty'' ComputedBuffer True)" and ?x = "demo_create (demo_op ''ext'' OtherOperation False)"
  let ?c = "demo_create (demo_op ''c'' ComputedBuffer False)"
  have kinds: "is_hoistable_node ?e" "is_fusable_node ?a" "\<not> is_hoistable_node ?x" by code_simp+
  have order: "demo_schedule = as @ x # mid @ y # cs \<Longrightarrow>
      (if is_hoistable_node y \<and> is_fusable_node x \<and> list_all (\<lambda>z. is_fusable_node z \<or> is_hoistable_node z) mid
       then before y x (concat (group_contiguous_fusable demo_schedule is_fusable_node is_hoistable_node))
       else before x y (concat (group_contiguous_fusable demo_schedule is_fusable_node is_hoistable_node)))" for as x mid y cs
    using fusion_preserves_order [of demo_schedule demo_fused_info] unfolding Let_def by blast
  have "demo_schedule = [] @ ?a # [] @ ?e # [?b, ?x, ?c]" "demo_schedule = [?a, ?e] @ ?b # [] @ ?x # [?c]"
    by (simp_all add: demo_schedule_def demo_ops_def)
  from order [OF this(1)] order [OF this(2)] kinds show ?thesis by simp
qed

theorem bundles_are_maximal_runs_witness:
  "\<not> (list_all is_fusable_node (filter (\<lambda>g. \<not> moved_group is_fusable_node is_hoistable_node g)
        (group_contiguous_fusable demo_schedule is_fusable_node is_hoistable_node) ! 0) \<and>
      list_all is_fusable_node (filter (\<lambda>g. \<not> moved_group is_fusable_node is_hoistable_node g)
        (group_contiguous_fusable demo_schedule is_fusable_node is_hoistable_node) ! Suc 0))"
proof -
  have "Suc 0 < length (filter (\<lambda>g. \<not> moved_group is_fusable_node is_hoistable_node g)
        (group_contiguous_fusable demo_schedule is_fusable_node is_hoistable_node))" by code_simp
  then show ?thesis using bundles_are_maximal_runs [of demo_schedule] unfolding Let_def by blast
qed

end
