(* ===== verification/Loop_Groups.thy ===== *)
theory Loop_Groups
  imports Scheduler_Nodes
begin

text \<open>
  Building counted-loop nodes from the loop stamps of coarse tiling
  (\<open>torch_spyre/_inductor/scheduler.py\<close>): regrouping the schedule so that every outermost loop group is
  contiguous, then wrapping runs recursively.

  A node object's identity is its index in the incoming list, a unit's identity its index in the
  list of units.  \<open>visit\<close> takes the number of units as its recursion budget; running out of it
  would be Python's \<open>RecursionError\<close>, a \<open>RuntimeError\<close>, and never happens.  The dictionary
  \<open>name_to_fused_node\<close> of the scheduler is passed and returned.
\<close>

subsection \<open>Loop stamps\<close>

fun leaf_loop_info :: "sched_node \<Rightarrow> CoarseTileInfo option" where
  "leaf_loop_info (SchedulerNode i) = Option.bind (ir_node i) loop_info"
| "leaf_loop_info n = None"

definition loop_infos :: "sched_node \<Rightarrow> CoarseTileInfo list" where
  "loop_infos node = List.map_filter leaf_loop_info (get_nodes node)"

definition node_loop_group_id :: "sched_node \<Rightarrow> int list option" where
  "node_loop_group_id node = (case loop_infos node of [] \<Rightarrow> None | li # _ \<Rightarrow> Some (loop_group_id li))"

fun loop_count_scan :: "CoarseTileInfo list \<Rightarrow> nat \<Rightarrow> int res" where
  "loop_count_scan [] depth = Inl AssertionError"
| "loop_count_scan (li # lis) depth =
     (if length (loop_count li) \<noteq> length (loop_group_id li) then Inl AssertionError
      else if depth < length (loop_count li) then Inr (loop_count li ! depth)
      else loop_count_scan lis depth)"

definition node_loop_count :: "sched_node \<Rightarrow> nat \<Rightarrow> int res" where
  "node_loop_count node depth = loop_count_scan (loop_infos node) depth"

definition outer_key :: "sched_node \<Rightarrow> int option res" where
  "outer_key node =
     (case node_loop_group_id node of
        None \<Rightarrow> Inr None
      | Some gid \<Rightarrow> (case gid of [] \<Rightarrow> Inl IndexError | k # _ \<Rightarrow> Inr (Some k)))"

subsection \<open>Regrouping\<close>

type_synonym sched_unit = "int option \<times> nat list"

definition name_to_node :: "sched_node list \<Rightarrow> string \<Rightarrow> nat option" where
  "name_to_node nodes name =
     last_such (\<lambda>i. name \<in> set (buffer_names (info_of (nodes ! i)))) [0..<length nodes]"

fun add_to_unit :: "int \<Rightarrow> nat \<Rightarrow> sched_unit list \<Rightarrow> sched_unit list" where
  "add_to_unit k i [] = [(Some k, [i])]"
| "add_to_unit k i (u # us) =
     (if fst u = Some k then (fst u, snd u @ [i]) # us else u # add_to_unit k i us)"

definition add_node :: "sched_node list \<Rightarrow> nat \<Rightarrow> sched_unit list \<Rightarrow> sched_unit list res" where
  "add_node nodes i us =
     bindE (outer_key (nodes ! i)) (\<lambda>key. case key of
         None \<Rightarrow> Inr (us @ [(None, [i])])
       | Some k \<Rightarrow> Inr (add_to_unit k i us))"

definition group_units :: "sched_node list \<Rightarrow> sched_unit list res" where
  "group_units nodes = foldE (add_node nodes) [0..<length nodes] []"

definition unit_of_node :: "sched_unit list \<Rightarrow> nat \<Rightarrow> nat" where
  "unit_of_node us i = length (takeWhile (\<lambda>u. i \<notin> set (snd u)) us)"

definition unit_deps :: "sched_node list \<Rightarrow> sched_unit list \<Rightarrow> nat \<Rightarrow> nat list" where
  "unit_deps nodes us key =
     (let members = snd (us ! key)
      in rev (remdups (rev (concat (map (\<lambda>member.
           List.map_filter (\<lambda>dep. case name_to_node nodes dep of
               None \<Rightarrow> None
             | Some producer \<Rightarrow> if producer \<in> set members then None else Some (unit_of_node us producer))
             (unmet_dependencies (info_of (nodes ! member)))) members)))))"

primrec visit :: "nat \<Rightarrow> (nat \<Rightarrow> nat list) \<Rightarrow> nat \<Rightarrow> nat list \<times> nat list \<Rightarrow> (nat list \<times> nat list) res" where
  "visit 0 deps key st = Inl RuntimeError"
| "visit (Suc budget) deps key st =
     (if key \<in> set (fst st) then Inr st
      else bindE (foldE (visit budget deps) (deps key) (key # fst st, snd st))
             (\<lambda>st'. Inr (fst st', snd st' @ [key])))"

definition order_units :: "nat \<Rightarrow> (nat \<Rightarrow> nat list) \<Rightarrow> nat list res" where
  "order_units n deps = bindE (foldE (visit (Suc n) deps) [0..<n] ([], [])) (\<lambda>st. Inr (snd st))"

definition regroup_order :: "sched_node list \<Rightarrow> nat list res" where
  "regroup_order nodes =
     bindE (group_units nodes) (\<lambda>us.
     bindE (order_units (length us) (unit_deps nodes us)) (\<lambda>keys.
       Inr (concat (map (\<lambda>key. snd (us ! key)) keys))))"

definition regroup_by_outer_loop_key :: "sched_node list \<Rightarrow> sched_node list res" where
  "regroup_by_outer_loop_key nodes = bindE (regroup_order nodes) (\<lambda>order. Inr (map ((!) nodes) order))"

subsection \<open>Wrapping\<close>

type_synonym fused_map = "string \<rightharpoonup> sched_node"

definition create_loop :: "(sched_node list \<Rightarrow> node_info) \<Rightarrow> sched_node list \<Rightarrow> int \<Rightarrow> fused_map \<Rightarrow> sched_node \<times> fused_map" where
  "create_loop fused_info snodes trips name_to_fused_node =
     (let grouped = CountedLoopSchedulerNode (fused_info snodes) snodes trips;
          m = fold (\<lambda>snode m. m(get_name snode \<mapsto> grouped)) snodes name_to_fused_node
      in (grouped, m(get_name grouped \<mapsto> grouped)))"

definition in_run :: "nat \<Rightarrow> int \<Rightarrow> sched_node \<Rightarrow> bool" where
  "in_run depth key node =
     (case node_loop_group_id node of None \<Rightarrow> False | Some gid \<Rightarrow> depth < length gid \<and> gid ! depth = key)"

fun take_run :: "nat \<Rightarrow> int \<Rightarrow> int \<Rightarrow> sched_node list \<Rightarrow> (sched_node list \<times> sched_node list) res" where
  "take_run depth key trips [] = Inr ([], [])"
| "take_run depth key trips (n # ns) =
     (if \<not> in_run depth key n then Inr ([], n # ns)
      else bindE (node_loop_count n depth) (\<lambda>next_count.
           bindE (check (next_count = trips) AssertionError) (\<lambda>_.
           bindE (take_run depth key trips ns) (\<lambda>(run, rest). Inr (n # run, rest)))))"

lemma bindE_cong [fundef_cong]:
  "m = m' \<Longrightarrow> (\<And>x. m' = Inr x \<Longrightarrow> f x = f' x) \<Longrightarrow> bindE m f = bindE m' f'"
  by (cases m') auto

lemma take_run_append: "take_run d k c ns = Inr (run, rest) \<Longrightarrow> ns = run @ rest"
  by (induction ns arbitrary: run rest) (auto split: if_splits)

definition levels_left :: "nat \<Rightarrow> sched_node \<Rightarrow> nat" where
  "levels_left depth n = (case node_loop_group_id n of None \<Rightarrow> 0 | Some gid \<Rightarrow> length gid - depth)"

definition nest_measure :: "sched_node list \<Rightarrow> nat \<Rightarrow> nat" where
  "nest_measure nodes depth = (\<Sum>n\<leftarrow>nodes. Suc (levels_left depth n))"

lemma nest_measure_mono: "nest_measure ns (Suc d) \<le> nest_measure ns d"
  by (induction ns) (auto simp: nest_measure_def levels_left_def split: option.splits)

function build_loop_group ::
  "(sched_node list \<Rightarrow> node_info) \<Rightarrow> sched_node list \<Rightarrow> nat \<Rightarrow> fused_map \<Rightarrow> (sched_node list \<times> fused_map) res" where
  "build_loop_group fi [] depth m = Inr ([], m)"
| "build_loop_group fi (node # nodes) depth m =
     (case node_loop_group_id node of
        None \<Rightarrow> bindE (build_loop_group fi nodes depth m) (\<lambda>(result, m'). Inr (node # result, m'))
      | Some gid \<Rightarrow>
          if length gid \<le> depth
          then bindE (build_loop_group fi nodes depth m) (\<lambda>(result, m'). Inr (node # result, m'))
          else bindE (node_loop_count node depth) (\<lambda>trips.
               bindE (take_run depth (gid ! depth) trips nodes) (\<lambda>(run, rest).
               bindE (build_loop_group fi (node # run) (Suc depth) m) (\<lambda>(inner, m1).
                 case create_loop fi inner trips m1 of (grouped, m2) \<Rightarrow>
               bindE (build_loop_group fi rest depth m2) (\<lambda>(result, m3).
                 Inr (grouped # result, m3))))))"
  by pat_completeness auto

termination
proof (relation "measure (\<lambda>(fi, nodes, depth, m). nest_measure nodes depth)")
  fix node :: sched_node and nodes depth gid trips run rest and y :: "sched_node list \<times> sched_node list"
  fix fi m
  assume a: "node_loop_group_id node = Some gid" "\<not> length gid \<le> depth"
    "take_run depth (gid ! depth) trips nodes = Inr y" "(run, rest) = y"
  then have n: "nodes = run @ rest" using take_run_append by metis
  show "((fi, node # run, Suc depth, m), (fi, node # nodes, depth, m)) \<in>
     measure (\<lambda>(fi, nodes, depth, m). nest_measure nodes depth)"
    using a(1,2) nest_measure_mono [of run depth] by (simp add: n nest_measure_def levels_left_def)
qed (auto simp: nest_measure_def dest!: take_run_append)

definition outer_run_check :: "sched_node list \<Rightarrow> unit res" where
  "outer_run_check result =
     bindE (foldE (\<lambda>node seen.
        case node of
          CountedLoopSchedulerNode i ns c \<Rightarrow>
            (case ns of [] \<Rightarrow> Inl IndexError
             | n0 # _ \<Rightarrow>
               (case node_loop_group_id n0 of
                  None \<Rightarrow> Inr seen
                | Some gid \<Rightarrow>
                    let key = take 1 gid; name = get_name node
                    in (case map_of seen key of
                          Some other \<Rightarrow> if other \<noteq> name then Inl RuntimeError else Inr ((key, name) # seen)
                        | None \<Rightarrow> Inr ((key, name) # seen))))
        | _ \<Rightarrow> Inr seen) result []) (\<lambda>_. Inr ())"

definition build_loop_scheduler_nodes ::
  "(sched_node list \<Rightarrow> node_info) \<Rightarrow> sched_node list \<Rightarrow> fused_map \<Rightarrow> (sched_node list \<times> fused_map) res" where
  "build_loop_scheduler_nodes fi nodes m =
     bindE (regroup_by_outer_loop_key nodes) (\<lambda>ordered.
     bindE (build_loop_group fi ordered 0 m) (\<lambda>(result, m').
     bindE (outer_run_check result) (\<lambda>_. Inr (result, m'))))"

section \<open>The depth-first order of the units\<close>

definition dep_rel :: "nat \<Rightarrow> (nat \<Rightarrow> nat list) \<Rightarrow> (nat \<times> nat) set" where
  "dep_rel n deps = {(u, v). u < n \<and> v \<in> set (deps u)}"

definition extends :: "nat \<Rightarrow> nat list \<times> nat list \<Rightarrow> nat list \<times> nat list \<Rightarrow> bool" where
  "extends n st st' \<longleftrightarrow> set (fst st) \<subseteq> set (fst st') \<and> set (fst st') \<subseteq> {..<n} \<and>
     (\<exists>new. snd st' = snd st @ new \<and> distinct new \<and> set new = set (fst st') - set (fst st))"

definition deps_first :: "(nat \<Rightarrow> nat list) \<Rightarrow> nat list \<times> nat list \<Rightarrow> bool" where
  "deps_first deps st \<longleftrightarrow> (\<forall>k\<in>set (snd st). \<forall>d\<in>set (deps k). before d k (snd st))"

definition open_keys :: "nat list \<times> nat list \<Rightarrow> nat set" where
  "open_keys st = set (fst st) - set (snd st)"

lemma extends_refl: "set (fst st) \<subseteq> {..<n} \<Longrightarrow> extends n st st"
  by (auto simp: extends_def)

lemma extends_trans: "extends n a b \<Longrightarrow> extends n b c \<Longrightarrow> extends n a c"
proof -
  assume ab: "extends n a b" and bc: "extends n b c"
  obtain x where x: "snd b = snd a @ x" "distinct x" "set x = set (fst b) - set (fst a)"
    using ab by (auto simp: extends_def)
  obtain y where y: "snd c = snd b @ y" "distinct y" "set y = set (fst c) - set (fst b)"
    using bc by (auto simp: extends_def)
  have "snd c = snd a @ (x @ y)" "distinct (x @ y)" "set (x @ y) = set (fst c) - set (fst a)"
    using x y ab bc by (auto simp: extends_def)
  then show ?thesis using ab bc unfolding extends_def by blast
qed

lemma extends_open: "extends n a b \<Longrightarrow> set (snd a) \<subseteq> set (fst a) \<Longrightarrow>
  open_keys b = open_keys a \<and> set (snd b) \<subseteq> set (fst b)"
  by (auto simp: extends_def open_keys_def)

text \<open>What one call promises; \<open>S\<close> is the state it starts from.\<close>

definition visit_ok :: "nat \<Rightarrow> (nat \<Rightarrow> nat list) \<Rightarrow> nat set \<Rightarrow> nat list \<times> nat list \<Rightarrow> nat list \<times> nat list \<Rightarrow> bool" where
  "visit_ok n deps ks st st' \<longleftrightarrow> extends n st st' \<and> ks \<subseteq> set (fst st') \<and>
     (acyclic (dep_rel n deps) \<and> deps_first deps st \<and> (\<forall>s\<in>open_keys st. \<forall>k\<in>ks. (s, k) \<in> (dep_rel n deps)\<^sup>*)
        \<longrightarrow> deps_first deps st')"

definition ready :: "nat \<Rightarrow> nat list \<times> nat list \<Rightarrow> bool" where
  "ready n st \<longleftrightarrow> set (fst st) \<subseteq> {..<n} \<and> set (snd st) \<subseteq> set (fst st)"

lemma extends_ready: "extends n st st' \<Longrightarrow> ready n st \<Longrightarrow> ready n st'"
  by (auto simp: extends_def ready_def)

lemma foldE_visit:
  assumes step: "\<And>k st. k < n \<Longrightarrow> ready n st \<Longrightarrow> B \<subseteq> set (fst st) \<Longrightarrow>
      \<exists>st'. visit b deps k st = Inr st' \<and> visit_ok n deps {k} st st'"
    and "set ks \<subseteq> {..<n}" "ready n st" "B \<subseteq> set (fst st)"
  shows "\<exists>st'. foldE (visit b deps) ks st = Inr st' \<and> visit_ok n deps (set ks) st st'"
  using assms(2-)
proof (induction ks arbitrary: st)
  case Nil
  then show ?case by (auto simp: visit_ok_def ready_def intro: extends_refl)
next
  case (Cons k ks)
  have "k < n" using Cons.prems(1) by simp
  from step [OF this Cons.prems(2,3)]
  obtain s1 where s1: "visit b deps k st = Inr s1" "visit_ok n deps {k} st s1" by blast
  have e1: "extends n st s1" using s1 by (simp add: visit_ok_def)
  have r1: "ready n s1" "B \<subseteq> set (fst s1)"
    using extends_ready [OF e1] Cons.prems e1 by (auto simp: extends_def)
  obtain s2 where s2: "foldE (visit b deps) ks s1 = Inr s2" "visit_ok n deps (set ks) s1 s2"
    using Cons.IH [OF _ r1] Cons.prems(1) by auto
  have e2: "extends n s1 s2" using s2 by (simp add: visit_ok_def)
  have o: "open_keys s1 = open_keys st" using extends_open [OF e1] Cons.prems(2) by (simp add: ready_def)
  have "set (k # ks) \<subseteq> set (fst s2)" using s1 s2 e2 by (auto simp: visit_ok_def extends_def)
  then have "visit_ok n deps (set (k # ks)) st s2"
    using extends_trans [OF e1 e2] s1(2) s2(2) o unfolding visit_ok_def by simp
  then show ?case using s1 s2 by auto
qed

lemma visit_spec:
  assumes "\<forall>k<n. set (deps k) \<subseteq> {..<n}"
    and "k < n" "ready n st" "card ({..<n} - set (fst st)) < b"
  shows "\<exists>st'. visit b deps k st = Inr st' \<and> visit_ok n deps {k} st st'"
  using assms(2-)
proof (induction b arbitrary: k st)
  case (Suc b)
  show ?case
  proof (cases "k \<in> set (fst st)")
    case True
    then show ?thesis using Suc.prems by (auto simp: visit_ok_def ready_def intro: extends_refl)
  next
    case False
    let ?s = "(k # fst st, snd st)"
    let ?E = "dep_rel n deps"
    have rs: "ready n ?s" using Suc.prems False by (auto simp: ready_def)
    have "card ({..<n} - set (k # fst st)) < card ({..<n} - set (fst st))"
      using Suc.prems(1) False by (intro psubset_card_mono) auto
    then have c: "card ({..<n} - set (k # fst st)) < b" using Suc.prems(3) by simp
    have "\<exists>st'. visit b deps d s = Inr st' \<and> visit_ok n deps {d} s st'"
      if h: "d < n" "ready n s" "set (k # fst st) \<subseteq> set (fst s)" for d s
    proof (rule Suc.IH [OF h(1,2)])
      have "card ({..<n} - set (fst s)) \<le> card ({..<n} - set (k # fst st))" using h(3) by (intro card_mono) auto
      then show "card ({..<n} - set (fst s)) < b" using c by simp
    qed
    from foldE_visit [where B = "set (k # fst st)", OF this _ rs] assms(1) Suc.prems(1)
    obtain s2 where s2: "foldE (visit b deps) (deps k) ?s = Inr s2" "visit_ok n deps (set (deps k)) ?s s2"
      by force
    let ?s3 = "(fst s2, snd s2 @ [k])"
    have v: "visit (Suc b) deps k st = Inr ?s3" using False s2(1) by simp
    have e: "extends n ?s s2" using s2(2) by (simp add: visit_ok_def)
    obtain new where new: "snd s2 = snd st @ new" "distinct new" "set new = set (fst s2) - set (k # fst st)"
      using e by (auto simp: extends_def)
    have "k \<in> set (fst s2)" using e by (auto simp: extends_def)
    then have "snd ?s3 = snd st @ (new @ [k])" "distinct (new @ [k])" "set (new @ [k]) = set (fst ?s3) - set (fst st)"
      using new False by auto
    then have e3: "extends n st ?s3" using e unfolding extends_def by auto
    have "deps_first deps ?s3"
      if h: "acyclic ?E" "deps_first deps st" "\<forall>s\<in>open_keys st. (s, k) \<in> ?E\<^sup>*"
    proof -
      have ok: "open_keys ?s = insert k (open_keys st)" using False Suc.prems by (auto simp: open_keys_def ready_def)
      have kd: "(k, d) \<in> ?E" if "d \<in> set (deps k)" for d using that Suc.prems(1) by (simp add: dep_rel_def)
      have reach: "(s, k) \<in> ?E\<^sup>*" if "s \<in> open_keys ?s" for s using that ok h(3) by auto
      then have "\<forall>s\<in>open_keys ?s. \<forall>d\<in>set (deps k). (s, d) \<in> ?E\<^sup>*" using kd by (meson rtrancl.rtrancl_into_rtrancl)
      moreover have "deps_first deps ?s" using h(2) by (simp add: deps_first_def)
      ultimately have d2: "deps_first deps s2" using s2(2) h(1) by (simp add: visit_ok_def)
      have "d \<in> set (snd s2)" if d: "d \<in> set (deps k)" for d
      proof (rule ccontr)
        assume "d \<notin> set (snd s2)"
        then have "d \<in> open_keys s2" using s2(2) d by (auto simp: visit_ok_def open_keys_def)
        then have "(d, k) \<in> ?E\<^sup>*" using extends_open [OF e] rs reach by (auto simp: ready_def)
        then have "(k, k) \<in> ?E\<^sup>+" using kd [OF d] by (rule rtrancl_into_trancl2 [rotated])
        then show False using h(1) by (auto simp: acyclic_def)
      qed
      then show ?thesis using d2 by (auto simp: deps_first_def before_append)
    qed
    then have "visit_ok n deps {k} st ?s3" using e3 \<open>k \<in> set (fst s2)\<close> by (simp add: visit_ok_def)
    then show ?thesis using v by blast
  qed
qed simp

lemma order_units_spec:
  assumes "\<forall>k<n. set (deps k) \<subseteq> {..<n}"
  obtains keys where "order_units n deps = Inr keys" "distinct keys" "set keys = {..<n}"
    "acyclic (dep_rel n deps) \<longrightarrow> (\<forall>k<n. \<forall>d\<in>set (deps k). before d k keys)"
proof -
  have r: "ready n ([], [])" by (simp add: ready_def)
  have "\<exists>st'. visit (Suc n) deps k st = Inr st' \<and> visit_ok n deps {k} st st'"
    if h: "k < n" "ready n st" "{} \<subseteq> set (fst st)" for k st
  proof (rule visit_spec [OF assms h(1,2)])
    have "card ({..<n} - set (fst st)) \<le> card {..<n}" by (rule card_mono) auto
    then show "card ({..<n} - set (fst st)) < Suc n" by simp
  qed
  from foldE_visit [where B = "{}", OF this _ r, of "[0..<n]"]
  obtain st where st: "foldE (visit (Suc n) deps) [0..<n] ([], []) = Inr st" "visit_ok n deps (set [0..<n]) ([], []) st"
    by (auto simp: atLeast0LessThan)
  have "distinct (snd st) \<and> set (snd st) = set (fst st)" "set (fst st) = {..<n}"
    using st(2) by (auto simp: visit_ok_def extends_def atLeast0LessThan)
  moreover have "\<forall>k<n. \<forall>d\<in>set (deps k). before d k (snd st)" if "acyclic (dep_rel n deps)"
    using st(2) that calculation by (auto simp: visit_ok_def deps_first_def open_keys_def)
  ultimately show ?thesis using that [of "snd st"] st(1) by (auto simp: order_units_def)
qed

section \<open>Units\<close>

definition with_key :: "sched_node list \<Rightarrow> int \<Rightarrow> nat \<Rightarrow> bool" where
  "with_key nodes k i \<longleftrightarrow> outer_key (nodes ! i) = Inr (Some k)"

definition unit_ok :: "sched_node list \<Rightarrow> nat list \<Rightarrow> sched_unit \<Rightarrow> bool" where
  "unit_ok nodes ps u \<longleftrightarrow>
     (case fst u of Some k \<Rightarrow> snd u = filter (with_key nodes k) ps
      | None \<Rightarrow> \<exists>i. snd u = [i] \<and> outer_key (nodes ! i) = Inr None)"

definition units_inv :: "sched_node list \<Rightarrow> nat list \<Rightarrow> sched_unit list \<Rightarrow> bool" where
  "units_inv nodes ps us \<longleftrightarrow> mset (concat (map snd us)) = mset ps \<and> (\<forall>u\<in>set us. unit_ok nodes ps u) \<and>
     distinct (filter (\<lambda>k. k \<noteq> None) (map fst us))"

lemma add_to_unit_keys:
  "map fst (add_to_unit k i us) = (if Some k \<in> fst ` set us then map fst us else map fst us @ [Some k])"
  by (induction us) auto

lemma add_to_unit_mset: "mset (concat (map snd (add_to_unit k i us))) = add_mset i (mset (concat (map snd us)))"
  by (induction us) auto

lemma add_to_unit_mem:
  "u \<in> set (add_to_unit k i us) \<Longrightarrow> distinct (filter (\<lambda>k. k \<noteq> None) (map fst us)) \<Longrightarrow>
   (u \<in> set us \<and> fst u \<noteq> Some k) \<or> (u = (Some k, [i]) \<and> Some k \<notin> fst ` set us) \<or>
   (\<exists>ms. (Some k, ms) \<in> set us \<and> u = (Some k, ms @ [i]))"
proof (induction us)
  case (Cons v us)
  show ?case
  proof (cases "fst v = Some k")
    case True
    then have "Some k \<notin> fst ` set us" using Cons.prems(2) by auto
    then show ?thesis using Cons.prems(1) True by (cases v) (auto simp: image_iff)
  next
    case False
    have "distinct (filter (\<lambda>k. k \<noteq> None) (map fst us))" using Cons.prems(2) by (auto split: if_splits)
    then show ?thesis using Cons.IH Cons.prems(1) False by auto
  qed
qed simp

lemma unit_ok_step:
  "unit_ok nodes ps u \<Longrightarrow> (\<And>k. fst u = Some k \<Longrightarrow> \<not> with_key nodes k i) \<Longrightarrow> unit_ok nodes (ps @ [i]) u"
  by (auto simp: unit_ok_def split: option.splits)

lemma no_unit_no_key:
  assumes "units_inv nodes ps us" "Some k \<notin> fst ` set us"
  shows "filter (with_key nodes k) ps = []"
proof -
  have "\<not> with_key nodes k i" if i: "i \<in> set ps" for i
  proof -
    have "i \<in> set (concat (map snd us))" using assms(1) i by (metis units_inv_def set_mset_mset)
    then obtain u where u: "u \<in> set us" "i \<in> set (snd u)" by auto
    then have "unit_ok nodes ps u" using assms(1) by (simp add: units_inv_def)
    moreover have "fst u \<noteq> Some k" using assms(2) u(1) by (auto simp: image_iff)
    ultimately show ?thesis using u(2) by (auto simp: unit_ok_def with_key_def split: option.splits)
  qed
  then show ?thesis by (simp add: filter_empty_conv)
qed

lemma add_node_inv:
  assumes inv: "units_inv nodes ps us" and r: "add_node nodes i us = Inr us'"
  shows "units_inv nodes (ps @ [i]) us'"
proof -
  obtain key where key: "outer_key (nodes ! i) = Inr key" using r by (auto simp: add_node_def)
  have ok: "unit_ok nodes ps u" if "u \<in> set us" for u using inv that by (simp add: units_inv_def)
  show ?thesis
  proof (cases key)
    case None
    then have "us' = us @ [(None, [i])]" using r key by (simp add: add_node_def)
    moreover have "\<not> with_key nodes k i" for k using key None by (simp add: with_key_def)
    ultimately show ?thesis
      using inv ok key None by (auto simp: units_inv_def intro: unit_ok_step) (simp add: unit_ok_def)
  next
    case (Some k)
    then have us': "us' = add_to_unit k i us" using r key by (simp add: add_node_def)
    have wk: "with_key nodes k' i \<longleftrightarrow> k' = k" for k' using key Some by (auto simp: with_key_def)
    have d: "distinct (filter (\<lambda>k. k \<noteq> None) (map fst us))" using inv by (simp add: units_inv_def)
    have "unit_ok nodes (ps @ [i]) u" if u: "u \<in> set us'" for u
      using add_to_unit_mem [OF u [unfolded us'] d]
    proof (elim disjE exE conjE)
      assume "u \<in> set us" "fst u \<noteq> Some k"
      then show ?thesis using wk by (intro unit_ok_step [OF ok]) auto
    next
      assume "u = (Some k, [i])" "Some k \<notin> fst ` set us"
      then show ?thesis using no_unit_no_key [OF inv] wk by (simp add: unit_ok_def)
    next
      fix ms assume "(Some k, ms) \<in> set us" "u = (Some k, ms @ [i])"
      then show ?thesis using ok [of "(Some k, ms)"] wk by (simp add: unit_ok_def)
    qed
    moreover have "distinct (filter (\<lambda>k. k \<noteq> None) (map fst us'))"
      using d by (auto simp: us' add_to_unit_keys image_iff)
    ultimately show ?thesis using inv by (simp add: units_inv_def us' add_to_unit_mset)
  qed
qed

lemma group_units_inv: "group_units nodes = Inr us \<Longrightarrow> units_inv nodes [0..<length nodes] us"
proof -
  have "foldE (add_node nodes) is us0 = Inr us \<Longrightarrow> units_inv nodes ps us0 \<Longrightarrow> units_inv nodes (ps @ is) us" for "is" ps us0 us
  proof (induction "is" arbitrary: ps us0)
    case (Cons i "is")
    then obtain us1 where "add_node nodes i us0 = Inr us1" "foldE (add_node nodes) is us1 = Inr us" by auto
    then show ?case using Cons.IH [of us1 "ps @ [i]"] add_node_inv [OF Cons.prems(2)] by simp
  qed simp
  moreover have "units_inv nodes [] []" by (simp add: units_inv_def)
  ultimately show "group_units nodes = Inr us \<Longrightarrow> ?thesis" by (force simp: group_units_def)
qed

lemma group_units_total: "\<forall>n\<in>set nodes. \<exists>key. outer_key n = Inr key \<Longrightarrow> \<exists>us. group_units nodes = Inr us"
proof -
  assume a: "\<forall>n\<in>set nodes. \<exists>key. outer_key n = Inr key"
  have "set is \<subseteq> {..<length nodes} \<Longrightarrow> \<exists>us. foldE (add_node nodes) is us0 = Inr us" for "is" us0
  proof (induction "is" arbitrary: us0)
    case (Cons i "is")
    then obtain key where "outer_key (nodes ! i) = Inr key" using a by fastforce
    then have "\<exists>us1. add_node nodes i us0 = Inr us1" by (cases key) (auto simp: add_node_def)
    then show ?case using Cons by auto
  qed simp
  then show ?thesis by (simp add: group_units_def atLeast0LessThan)
qed

text \<open>The units partition the node indices.\<close>

lemma units_distinct: "units_inv nodes ps us \<Longrightarrow> distinct ps \<Longrightarrow> distinct (concat (map snd us))"
  by (metis units_inv_def distinct_map distinct_conv_nth mset_eq_imp_distinct_iff)

lemma unit_of_node_at:
  assumes "distinct (concat (map snd us))" "u < length us" "i \<in> set (snd (us ! u))"
  shows "unit_of_node us i = u"
  using assms
proof (induction us arbitrary: u)
  case (Cons v us)
  show ?case
  proof (cases u)
    case 0
    then show ?thesis using Cons.prems by (simp add: unit_of_node_def)
  next
    case (Suc u')
    then have m: "us ! u' \<in> set us" "i \<in> set (snd (us ! u'))" using Cons.prems by auto
    then have "i \<notin> set (snd v)" using Cons.prems(1) by auto
    then show ?thesis using Cons.IH [of u'] Cons.prems Suc by (simp add: unit_of_node_def)
  qed
qed simp

lemma unit_of_node_mem:
  assumes "i \<in> set (concat (map snd us))"
  shows "unit_of_node us i < length us \<and> i \<in> set (snd (us ! unit_of_node us i))"
proof -
  have "\<exists>u\<in>set us. i \<in> set (snd u)" using assms by auto
  then have "length (takeWhile (\<lambda>u. i \<notin> set (snd u)) us) < length us"
    by (induction us) auto
  then show ?thesis using nth_length_takeWhile [of "\<lambda>u. i \<notin> set (snd u)" us] by (simp add: unit_of_node_def)
qed

lemma unit_deps_mem:
  "v \<in> set (unit_deps nodes us u) \<longleftrightarrow>
     (\<exists>j\<in>set (snd (us ! u)). \<exists>dep\<in>set (unmet_dependencies (info_of (nodes ! j))). \<exists>i.
        name_to_node nodes dep = Some i \<and> i \<notin> set (snd (us ! u)) \<and> v = unit_of_node us i)"
  by (auto simp: unit_deps_def Let_def map_filter_def split: option.splits if_splits) (force split: option.splits if_splits)+

lemma name_to_node_bound: "name_to_node nodes dep = Some i \<Longrightarrow> i < length nodes"
  by (auto simp: name_to_node_def dest: last_such_Some)

section \<open>The regrouped schedule\<close>

lemma before_concat:
  "before u v keys \<Longrightarrow> i \<in> set (f u) \<Longrightarrow> j \<in> set (f v) \<Longrightarrow> before i j (concat (map f keys))"
proof -
  assume "before u v keys" and m: "i \<in> set (f u)" "j \<in> set (f v)"
  then obtain as bs cs where "keys = as @ u # bs @ v # cs" by (auto simp: before_def)
  then show ?thesis using m by (auto simp: before_append)
qed

lemma before_concat_member:
  "u \<in> set keys \<Longrightarrow> before i j (f u) \<Longrightarrow> before i j (concat (map f keys))"
  by (induction keys) (auto simp: before_append)

lemma before_sorted: "sorted xs \<Longrightarrow> distinct xs \<Longrightarrow> i \<in> set xs \<Longrightarrow> j \<in> set xs \<Longrightarrow> i < j \<Longrightarrow> before i j (xs :: nat list)"
  by (induction xs) (auto simp: before_Cons)

lemma unit_members_sorted:
  assumes "unit_ok nodes [0..<n] u"
  shows "sorted (snd u)"
  using assms by (auto simp: unit_ok_def sorted_wrt_filter split: option.splits)

definition regrouped :: "sched_node list \<Rightarrow> sched_unit list \<Rightarrow> nat list \<Rightarrow> bool" where
  "regrouped nodes us keys \<longleftrightarrow>
     group_units nodes = Inr us \<and> order_units (length us) (unit_deps nodes us) = Inr keys"

definition flat_units :: "sched_unit list \<Rightarrow> nat list \<Rightarrow> nat list" where
  "flat_units us keys = concat (map (\<lambda>key. snd (us ! key)) keys)"

lemma regrouped_inv: "regrouped nodes us keys \<Longrightarrow> units_inv nodes [0..<length nodes] us"
  by (simp add: regrouped_def group_units_inv)

lemma regrouped_distinct: "regrouped nodes us keys \<Longrightarrow> distinct (concat (map snd us))"
  by (rule units_distinct [OF regrouped_inv]) auto

lemma regrouped_covers: "regrouped nodes us keys \<Longrightarrow> set (concat (map snd us)) = {..<length nodes}"
proof -
  assume R: "regrouped nodes us keys"
  have "mset (concat (map snd us)) = mset [0..<length nodes]" using regrouped_inv [OF R] by (simp add: units_inv_def)
  then have "set (concat (map snd us)) = set [0..<length nodes]" by (metis set_mset_mset)
  then show ?thesis by (simp add: atLeast0LessThan)
qed

lemma group_units_covers: "group_units nodes = Inr us \<Longrightarrow> set (concat (map snd us)) = {..<length nodes}"
proof -
  assume "group_units nodes = Inr us"
  then have "mset (concat (map snd us)) = mset [0..<length nodes]" using group_units_inv by (simp add: units_inv_def)
  then have "set (concat (map snd us)) = set [0..<length nodes]" by (metis set_mset_mset)
  then show ?thesis by (simp add: atLeast0LessThan)
qed

lemma deps_bound:
  assumes "group_units nodes = Inr us"
  shows "\<forall>k<length us. set (unit_deps nodes us k) \<subseteq> {..<length us}"
proof (intro allI impI subsetI)
  fix k v assume "v \<in> set (unit_deps nodes us k)"
  then obtain dep i where i: "name_to_node nodes dep = Some i" "v = unit_of_node us i"
    unfolding unit_deps_mem by blast
  then have "i \<in> set (concat (map snd us))" using name_to_node_bound group_units_covers [OF assms] by blast
  then show "v \<in> {..<length us}" using unit_of_node_mem i(2) by auto
qed

lemma regroup_total:
  assumes "\<forall>n\<in>set nodes. \<exists>key. outer_key n = Inr key"
  shows "\<exists>us keys. regrouped nodes us keys"
proof -
  obtain us where us: "group_units nodes = Inr us" using group_units_total [OF assms] by blast
  obtain keys where "order_units (length us) (unit_deps nodes us) = Inr keys"
    by (rule order_units_spec [OF deps_bound [OF us]])
  then show ?thesis using us by (auto simp: regrouped_def)
qed

lemma keys_spec:
  assumes "regrouped nodes us keys"
  shows "distinct keys" "set keys = {..<length us}"
    "acyclic (dep_rel (length us) (unit_deps nodes us)) \<Longrightarrow>
       \<forall>k<length us. \<forall>d\<in>set (unit_deps nodes us k). before d k keys"
proof -
  have u: "group_units nodes = Inr us" "order_units (length us) (unit_deps nodes us) = Inr keys"
    using assms by (simp_all add: regrouped_def)
  obtain ks where k: "order_units (length us) (unit_deps nodes us) = Inr ks" "distinct ks" "set ks = {..<length us}"
    "acyclic (dep_rel (length us) (unit_deps nodes us)) \<longrightarrow> (\<forall>k<length us. \<forall>d\<in>set (unit_deps nodes us k). before d k ks)"
    by (rule order_units_spec [OF deps_bound [OF u(1)]])
  have "ks = keys" using u(2) k(1) by simp
  with k show "distinct keys" "set keys = {..<length us}"
    "acyclic (dep_rel (length us) (unit_deps nodes us)) \<Longrightarrow> \<forall>k<length us. \<forall>d\<in>set (unit_deps nodes us k). before d k keys"
    by blast+
qed

lemma regroup_flat: "regrouped nodes us keys \<Longrightarrow> regroup_order nodes = Inr (flat_units us keys)"
  by (simp add: regroup_order_def flat_units_def regrouped_def)

lemma regroup_order_regrouped:
  "regroup_order nodes = Inr ord \<Longrightarrow> \<exists>us keys. regrouped nodes us keys \<and> ord = flat_units us keys"
  by (auto simp: regroup_order_def flat_units_def regrouped_def)

lemma flat_perm:
  assumes "regrouped nodes us keys"
  shows "mset (flat_units us keys) = mset [0..<length nodes]"
proof -
  have "mset keys = mset [0..<length us]"
    using keys_spec(1,2) [OF assms] by (intro set_eq_iff_mset_eq_distinct [THEN iffD1]) (auto simp: atLeast0LessThan)
  then have "mset (map ((!) us) keys) = mset (map ((!) us) [0..<length us])" by (metis mset_map)
  then have "mset (map ((!) us) keys) = mset us" by (simp only: map_nth)
  then have "mset (map snd (map ((!) us) keys)) = mset (map snd us)" by (metis mset_map)
  then have "mset (concat (map snd (map ((!) us) keys))) = mset (concat (map snd us))"
    by (metis mset_concat sum_mset_sum_list mset_map)
  moreover have "concat (map snd (map ((!) us) keys)) = flat_units us keys" by (simp add: flat_units_def comp_def)
  ultimately show ?thesis using regrouped_inv [OF assms] by (simp add: units_inv_def)
qed

lemma unit_at: "regrouped nodes us keys \<Longrightarrow> u < length us \<Longrightarrow> unit_ok nodes [0..<length nodes] (us ! u)"
  using regrouped_inv by (simp add: units_inv_def)

lemma same_unit:
  assumes "regrouped nodes us keys" "u < length us" "v < length us" "i \<in> set (snd (us ! u))" "i \<in> set (snd (us ! v))"
  shows "u = v"
  using unit_of_node_at [OF regrouped_distinct [OF assms(1)]] assms by metis

lemma flat_contiguous:
  assumes R: "regrouped nodes us keys"
  shows "\<exists>as bs. flat_units us keys = as @ filter (with_key nodes k) [0..<length nodes] @ bs \<and>
     (\<forall>i\<in>set as \<union> set bs. \<not> with_key nodes k i)"
proof (cases "Some k \<in> fst ` set us")
  case False
  then have none: "filter (with_key nodes k) [0..<length nodes] = []" by (rule no_unit_no_key [OF regrouped_inv [OF R]])
  have "set (flat_units us keys) = {..<length nodes}"
    using flat_perm [OF R] by (metis set_mset_mset atLeast0LessThan set_upt)
  then have "\<forall>i\<in>set (flat_units us keys). \<not> with_key nodes k i" using none by (auto simp: filter_empty_conv)
  then show ?thesis using none by (intro exI [of _ "flat_units us keys"] exI [of _ "[]"]) simp
next
  case True
  then obtain u where u: "u < length us" "fst (us ! u) = Some k" by (auto simp: in_set_conv_nth)
  have mem: "snd (us ! u) = filter (with_key nodes k) [0..<length nodes]"
    using unit_at [OF R u(1)] u(2) by (simp add: unit_ok_def)
  have other: "\<not> with_key nodes k i" if h: "v < length us" "v \<noteq> u" "i \<in> set (snd (us ! v))" for v i
  proof
    assume "with_key nodes k i"
    moreover have "i < length nodes" using h regrouped_covers [OF R] by (auto intro!: nth_mem)
    ultimately have "i \<in> set (snd (us ! u))" using mem by simp
    then show False using same_unit [OF R u(1) h(1) _ h(3)] h(2) by simp
  qed
  obtain ks1 ks2 where ks: "keys = ks1 @ u # ks2" using u(1) keys_spec(2) [OF R] by (metis lessThan_iff split_list)
  then have "u \<notin> set (ks1 @ ks2)" "set (ks1 @ ks2) \<subseteq> {..<length us}" using keys_spec(1,2) [OF R] by auto
  then have "\<forall>i\<in>set (flat_units us ks1) \<union> set (flat_units us ks2). \<not> with_key nodes k i"
    using other by (fastforce simp: flat_units_def)
  moreover have "flat_units us keys = flat_units us ks1 @ filter (with_key nodes k) [0..<length nodes] @ flat_units us ks2"
    by (simp add: flat_units_def ks mem)
  ultimately show ?thesis by blast
qed

lemma flat_topological:
  assumes R: "regrouped nodes us keys" and ac: "acyclic (dep_rel (length us) (unit_deps nodes us))"
    and j: "j < length nodes" "dep \<in> set (unmet_dependencies (info_of (nodes ! j)))"
    and i: "name_to_node nodes dep = Some i" "i < j"
  shows "before i j (flat_units us keys)"
proof -
  let ?u = "unit_of_node us i" and ?v = "unit_of_node us j"
  have ii: "i \<in> set (concat (map snd us))" and jj: "j \<in> set (concat (map snd us))"
    using i(2) j(1) regrouped_covers [OF R] by auto
  note mi = unit_of_node_mem [OF ii] and mj = unit_of_node_mem [OF jj]
  show ?thesis
  proof (cases "i \<in> set (snd (us ! ?v))")
    case True
    have "distinct (snd (us ! ?v))" using regrouped_distinct [OF R] mj by (auto simp: distinct_concat_iff)
    then have "before i j (snd (us ! ?v))"
      using before_sorted unit_members_sorted [OF unit_at [OF R]] mj True i(2) by blast
    then show ?thesis unfolding flat_units_def using mj keys_spec(2) [OF R] by (intro before_concat_member [of ?v]) auto
  next
    case False
    then have "?u \<in> set (unit_deps nodes us ?v)" unfolding unit_deps_mem using mj j(2) i(1) by blast
    then have "before ?u ?v keys" using keys_spec(3) [OF R ac] mj by blast
    then show ?thesis unfolding flat_units_def using mi mj by (intro before_concat [of ?u ?v]) auto
  qed
qed

end
