(* ===== verification/Loop_Nests.thy ===== *)
theory Loop_Nests
  imports Loop_Groups
begin

text \<open>
  What the loop nodes built by \<open>scheduler.py\<close> mean: the leaves of the result in order, each under the
  loops that enclose it, and the loop stamps they must agree with.
\<close>

subsection \<open>Leaves and their enclosing loops\<close>

fun loop_nest :: "sched_node \<Rightarrow> (sched_node \<times> int list) list" where
  "loop_nest (CountedLoopSchedulerNode i ns c) = map (\<lambda>(n, p). (n, c # p)) (concat (map loop_nest ns))"
| "loop_nest n = [(n, [])]"

definition leaves :: "sched_node \<Rightarrow> sched_node list" where
  "leaves n = map fst (loop_nest n)"

lemma leaves_loop [simp]: "leaves (CountedLoopSchedulerNode i ns c) = concat (map leaves ns)"
  by (simp add: leaves_def [abs_def] map_concat comp_def case_prod_beta)

lemma leaves_other: "\<not> is_loop_node n \<Longrightarrow> loop_nest n = [(n, [])] \<and> leaves n = [n]"
  by (cases n) (auto simp: leaves_def)

definition stamped_counts :: "sched_node \<Rightarrow> int list" where
  "stamped_counts n = (case leaf_loop_info n of None \<Rightarrow> [] | Some li \<Rightarrow> loop_count li)"

definition plain :: "sched_node \<Rightarrow> bool" where
  "plain n \<longleftrightarrow> \<not> is_fused_node n"

lemma plain_leaf: "plain n \<Longrightarrow> loop_nest n = [(n, [])] \<and> leaves n = [n]"
  by (cases n) (auto simp: plain_def leaves_def)

lemma plain_infos: "plain n \<Longrightarrow> loop_infos n = (case leaf_loop_info n of None \<Rightarrow> [] | Some li \<Rightarrow> [li])"
  by (cases n) (auto simp: plain_def loop_infos_def map_filter_def split: option.split)

lemma plain_gid: "plain n \<Longrightarrow> node_loop_group_id n = map_option loop_group_id (leaf_loop_info n)"
  by (simp add: node_loop_group_id_def plain_infos split: option.split)

lemma plain_count:
  "plain n \<Longrightarrow> node_loop_count n d = Inr c \<longleftrightarrow>
     (\<exists>li. leaf_loop_info n = Some li \<and> length (loop_count li) = length (loop_group_id li) \<and>
           d < length (loop_count li) \<and> c = loop_count li ! d)"
  by (auto simp: node_loop_count_def plain_infos split: option.split)

text \<open>Every level deeper than \<open>d\<close> has been checked already.\<close>

definition settled :: "nat \<Rightarrow> sched_node \<Rightarrow> bool" where
  "settled d n \<longleftrightarrow> (case leaf_loop_info n of None \<Rightarrow> True
     | Some li \<Rightarrow> length (loop_group_id li) \<le> d \<longrightarrow> length (loop_count li) = length (loop_group_id li))"

lemma counted_settled: "plain n \<Longrightarrow> node_loop_count n d = Inr c \<Longrightarrow> settled d' n"
  by (auto simp: plain_count settled_def)

lemma counted_drop:
  "plain n \<Longrightarrow> node_loop_count n d = Inr c \<Longrightarrow> drop d (stamped_counts n) = c # drop (Suc d) (stamped_counts n)"
  by (auto simp: plain_count stamped_counts_def Cons_nth_drop_Suc)

lemma unlooped_drop:
  assumes "plain n" "settled d n" "case node_loop_group_id n of None \<Rightarrow> True | Some g \<Rightarrow> length g \<le> d"
  shows "drop d (stamped_counts n) = []"
  using assms by (auto simp: plain_gid settled_def stamped_counts_def split: option.splits)

lemma take_run_spec:
  "take_run d k c ns = Inr (run, rest) \<Longrightarrow>
     rest = dropWhile (in_run d k) ns \<and> (\<forall>n\<in>set run. in_run d k n \<and> node_loop_count n d = Inr c)"
  by (induction ns arbitrary: run rest) (auto split: if_splits)

lemma take_run_total:
  "\<forall>n\<in>set ns. in_run d k n \<longrightarrow> node_loop_count n d = Inr c \<Longrightarrow> \<exists>run rest. take_run d k c ns = Inr (run, rest)"
  by (induction ns) auto

subsection \<open>One step of the recursion\<close>

text \<open>
  The recursion as three cases: nothing left, a node outside every loop of this depth, and a run
  that becomes one loop.
\<close>

definition looped :: "nat \<Rightarrow> sched_node \<Rightarrow> bool" where
  "looped d n \<longleftrightarrow> (case node_loop_group_id n of None \<Rightarrow> False | Some g \<Rightarrow> d < length g)"

definition level_key :: "nat \<Rightarrow> sched_node \<Rightarrow> int option" where
  "level_key d n = (case node_loop_group_id n of None \<Rightarrow> None | Some g \<Rightarrow> if d < length g then Some (g ! d) else None)"

lemma in_run_key: "in_run d k n \<longleftrightarrow> level_key d n = Some k"
  by (auto simp: in_run_def level_key_def split: option.splits)

lemma build_skip:
  "\<not> looped d n \<Longrightarrow> build_loop_group fi (n # ns) d m =
     bindE (build_loop_group fi ns d m) (\<lambda>(result, m'). Inr (n # result, m'))"
  by (auto simp: looped_def split: option.splits)

lemma build_run:
  assumes "build_loop_group fi (n # ns) d m = Inr (res, m')" "looped d n"
  obtains k c run rest inner m1 m2 result where
    "level_key d n = Some k" "node_loop_count n d = Inr c" "take_run d k c ns = Inr (run, rest)"
    "build_loop_group fi (n # run) (Suc d) m = Inr (inner, m1)"
    "build_loop_group fi rest d m2 = Inr (result, m')"
    "res = CountedLoopSchedulerNode (fi inner) inner c # result"
  using assms
  by (auto simp: looped_def level_key_def create_loop_def Let_def split: option.splits prod.splits)

text \<open>Rule induction over a successful run of the recursion.\<close>

lemma build_induct [consumes 1, case_names Nil Skip Run]:
  assumes "build_loop_group fi nodes d m = Inr (res, m')"
    and "\<And>d. P [] d []"
    and "\<And>n ns d res. \<not> looped d n \<Longrightarrow> P ns d res \<Longrightarrow> P (n # ns) d (n # res)"
    and "\<And>n ns d k c run rest inner result m m1.
      level_key d n = Some k \<Longrightarrow> node_loop_count n d = Inr c \<Longrightarrow> take_run d k c ns = Inr (run, rest) \<Longrightarrow>
      build_loop_group fi (n # run) (Suc d) m = Inr (inner, m1) \<Longrightarrow>
      P (n # run) (Suc d) inner \<Longrightarrow> P rest d result \<Longrightarrow>
      P (n # ns) d (CountedLoopSchedulerNode (fi inner) inner c # result)"
  shows "P nodes d res"
  using assms(1)
proof (induction "nest_measure nodes d" arbitrary: nodes d m res m' rule: less_induct)
  case less
  show ?case
  proof (cases nodes)
    case Nil
    then show ?thesis using less.prems assms(2) by simp
  next
    case (Cons n ns)
    show ?thesis
    proof (cases "looped d n")
      case False
      then obtain res1 where r: "build_loop_group fi ns d m = Inr (res1, m')" "res = n # res1"
        using less.prems Cons build_skip [OF False] by auto
      have "nest_measure ns d < nest_measure nodes d" by (simp add: Cons nest_measure_def)
      from less.hyps [OF this r(1)] show ?thesis using False Cons r(2) assms(3) by simp
    next
      case True
      obtain k c run rest inner m1 m2 result where b: "level_key d n = Some k" "node_loop_count n d = Inr c"
        "take_run d k c ns = Inr (run, rest)" "build_loop_group fi (n # run) (Suc d) m = Inr (inner, m1)"
        "build_loop_group fi rest d m2 = Inr (result, m')" "res = CountedLoopSchedulerNode (fi inner) inner c # result"
        by (rule build_run [OF less.prems [unfolded Cons] True])
      have ns: "ns = run @ rest" by (rule take_run_append [OF b(3)])
      have "levels_left (Suc d) n < levels_left d n" using True by (auto simp: looped_def levels_left_def split: option.splits)
      then have 1: "nest_measure (n # run) (Suc d) < nest_measure nodes d"
        using nest_measure_mono [of run d] by (simp add: Cons ns nest_measure_def)
      have 2: "nest_measure rest d < nest_measure nodes d" by (simp add: Cons ns nest_measure_def)
      show ?thesis using assms(4) [OF b(1-4) less.hyps [OF 1 b(4)] less.hyps [OF 2 b(5)]] Cons b(6) by simp
    qed
  qed
qed

lemma run_members:
  assumes "level_key d n = Some k" "node_loop_count n d = Inr c" "take_run d k c ns = Inr (run, rest)"
  shows "ns = run @ rest" "rest = dropWhile (\<lambda>x. level_key d x = Some k) ns"
    "\<forall>x\<in>set (n # run). level_key d x = Some k \<and> node_loop_count x d = Inr c"
  using take_run_append [OF assms(3)] take_run_spec [OF assms(3)] assms(1,2) by (auto simp: in_run_key [abs_def])

subsection \<open>The nest of every leaf\<close>

lemma build_nest:
  assumes "build_loop_group fi nodes d m = Inr (res, m')" "\<forall>n\<in>set nodes. plain n" "\<forall>n\<in>set nodes. settled d n"
  shows "concat (map loop_nest res) = map (\<lambda>n. (n, drop d (stamped_counts n))) nodes"
  using assms
proof (induction rule: build_induct)
  case (Skip n ns d res)
  then have "drop d (stamped_counts n) = []"
    by (intro unlooped_drop) (auto simp: looped_def split: option.splits)
  then show ?case using Skip by (simp add: plain_leaf)
next
  case (Run n ns d k c run rest inner result m m1)
  note r = run_members [OF Run(1-3)]
  have p: "\<forall>x\<in>set (n # run). plain x" using Run.prems(1) r(1) by auto
  have s: "\<forall>x\<in>set (n # run). settled (Suc d) x" using p r(3) counted_settled by blast
  have i: "concat (map loop_nest inner) = map (\<lambda>x. (x, drop (Suc d) (stamped_counts x))) (n # run)"
    using Run.IH(1) p s by blast
  have "loop_nest (CountedLoopSchedulerNode (fi inner) inner c) = map (\<lambda>x. (x, c # drop (Suc d) (stamped_counts x))) (n # run)"
    by (simp add: i)
  also have "\<dots> = map (\<lambda>x. (x, drop d (stamped_counts x))) (n # run)"
    using p r(3) counted_drop by (intro map_cong) auto
  finally show ?case using Run.IH(2) Run.prems r(1) by simp
qed simp

lemma build_leaves:
  assumes "build_loop_group fi nodes d m = Inr (res, m')" "\<forall>n\<in>set nodes. plain n" "\<forall>n\<in>set nodes. settled d n"
  shows "concat (map leaves res) = nodes"
proof -
  have "concat (map leaves res) = map fst (concat (map loop_nest res))"
    by (simp add: leaves_def [abs_def] map_concat comp_def)
  then show ?thesis using build_nest [OF assms] by (simp add: comp_def)
qed

subsection \<open>Members of a loop share their loop group\<close>

definition gid_prefix :: "nat \<Rightarrow> sched_node \<Rightarrow> int list option" where
  "gid_prefix j n = (case node_loop_group_id n of None \<Rightarrow> None | Some g \<Rightarrow> if j \<le> length g then Some (take j g) else None)"

fun same_group :: "nat \<Rightarrow> sched_node \<Rightarrow> bool" where
  "same_group d (CountedLoopSchedulerNode i ns c) =
     (let ls = concat (map leaves ns)
      in ls \<noteq> [] \<and> gid_prefix (Suc d) (hd ls) \<noteq> None \<and>
         list_all (\<lambda>n. gid_prefix (Suc d) n = gid_prefix (Suc d) (hd ls)) ls \<and>
         list_all (same_group (Suc d)) ns)"
| "same_group d n = True"

lemma prefix_step:
  "level_key d n = Some k \<Longrightarrow> gid_prefix d n = Some p \<Longrightarrow> gid_prefix (Suc d) n = Some (p @ [k])"
  by (auto simp: level_key_def gid_prefix_def take_Suc_conv_app_nth split: option.splits if_splits)

lemma prefix_looped: "level_key d n = Some k \<Longrightarrow> \<exists>p. gid_prefix d n = Some p"
  by (auto simp: level_key_def gid_prefix_def split: option.splits if_splits)

lemma build_same_group:
  assumes "build_loop_group fi nodes d m = Inr (res, m')" "\<forall>n\<in>set nodes. plain n" "\<forall>n\<in>set nodes. settled d n"
    "\<forall>n\<in>set nodes. level_key d n \<noteq> None \<longrightarrow> gid_prefix d n = Some p"
  shows "list_all (same_group d) res"
  using assms
proof (induction arbitrary: p rule: build_induct)
  case (Skip n ns d res)
  then have "same_group d n" by (cases n) (auto simp: plain_def)
  moreover have "list_all (same_group d) res" using Skip.IH [of p] Skip.prems by auto
  ultimately show ?case by simp
next
  case (Run n ns d k c run rest inner result m m1)
  note r = run_members [OF Run(1-3)]
  have pl: "\<forall>x\<in>set (n # run). plain x" using Run.prems(1) r(1) by auto
  have s: "\<forall>x\<in>set (n # run). settled (Suc d) x" using pl r(3) counted_settled by blast
  have pre: "\<forall>x\<in>set (n # run). gid_prefix (Suc d) x = Some (p @ [k])"
    using Run.prems(3) r(1,3) by (auto intro!: prefix_step)
  have l: "concat (map leaves inner) = n # run" by (rule build_leaves [OF Run(4) pl s])
  have "list_all (same_group (Suc d)) inner" using Run.IH(1) [OF pl s, of "p @ [k]"] pre by blast
  then have "same_group d (CountedLoopSchedulerNode (fi inner) inner c)"
    using pre by (simp add: l list_all_iff)
  moreover have "list_all (same_group d) result" using Run.IH(2) [of p] Run.prems r(1) by simp
  ultimately show ?case by simp
qed simp

subsection \<open>One loop per outermost group\<close>

fun contig :: "('a \<Rightarrow> 'k option) \<Rightarrow> 'a list \<Rightarrow> bool" where
  "contig f [] = True"
| "contig f (x # xs) = (contig f xs \<and> (f x = None \<or> f x \<notin> f ` set (dropWhile (\<lambda>y. f y = f x) xs)))"

lemma contig_append: "contig f (xs @ ys) \<Longrightarrow> contig f ys"
  by (induction xs) auto

lemma contig_blocks:
  assumes "\<forall>k. \<exists>as mid bs. xs = as @ mid @ bs \<and> (\<forall>y\<in>set mid. f y = Some k) \<and> (\<forall>y\<in>set as \<union> set bs. f y \<noteq> Some k)"
  shows "contig f xs"
  using assms
proof (induction xs)
  case (Cons x xs)
  have "\<exists>as mid bs. xs = as @ mid @ bs \<and> (\<forall>y\<in>set mid. f y = Some k) \<and> (\<forall>y\<in>set as \<union> set bs. f y \<noteq> Some k)" for k
  proof -
    obtain as mid bs where b: "x # xs = as @ mid @ bs" "\<forall>y\<in>set mid. f y = Some k" "\<forall>y\<in>set as \<union> set bs. f y \<noteq> Some k"
      using Cons.prems by blast
    then consider as' where "as = x # as'" "xs = as' @ mid @ bs" | mid' where "as = []" "mid = x # mid'" "xs = [] @ mid' @ bs"
      | "as = []" "mid = []" "bs = x # xs" "xs = [] @ [] @ xs"
      by (cases as; cases mid) auto
    then show ?thesis using b(2,3) by cases (fastforce+)
  qed
  then have "contig f xs" using Cons.IH by blast
  moreover have "Some k \<notin> f ` set (dropWhile (\<lambda>y. f y = Some k) xs)" if k: "f x = Some k" for k
  proof -
    obtain as mid bs where b: "x # xs = as @ mid @ bs" "\<forall>y\<in>set mid. f y = Some k" "\<forall>y\<in>set as \<union> set bs. f y \<noteq> Some k"
      using Cons.prems by blast
    then have "as = []" using k by (cases as) auto
    moreover have "mid \<noteq> []" using b k \<open>as = []\<close> by auto
    ultimately obtain mid' where "mid = x # mid'" "xs = mid' @ bs" using b(1) by (cases mid) auto
    then have "set (dropWhile (\<lambda>y. f y = Some k) xs) \<subseteq> set bs"
      using b(2) by (auto simp: dropWhile_append dest: set_dropWhileD split: if_splits)
    then show ?thesis using b(3) by auto
  qed
  ultimately show ?case by (cases "f x") auto
qed simp

definition top_keys :: "nat \<Rightarrow> sched_node list \<Rightarrow> int option list" where
  "top_keys d res = map (\<lambda>r. level_key d (hd (leaves r))) (filter is_loop_node res)"

lemma build_top_keys:
  assumes "build_loop_group fi nodes d m = Inr (res, m')" "\<forall>n\<in>set nodes. plain n" "\<forall>n\<in>set nodes. settled d n"
    "contig (level_key d) nodes"
  shows "distinct (top_keys d res) \<and> set (top_keys d res) \<subseteq> level_key d ` set nodes"
  using assms
proof (induction rule: build_induct)
  case (Skip n ns d res)
  then have "\<not> is_loop_node n" by (cases n) (auto simp: plain_def)
  then show ?case using Skip by (auto simp: top_keys_def)
next
  case (Run n ns d k c run rest inner result m m1)
  note r = run_members [OF Run(1-3)]
  have pl: "\<forall>x\<in>set (n # run). plain x" using Run.prems(1) r(1) by auto
  have s: "\<forall>x\<in>set (n # run). settled (Suc d) x" using pl r(3) counted_settled by blast
  have l: "concat (map leaves inner) = n # run" by (rule build_leaves [OF Run(4) pl s])
  have "contig (level_key d) rest" using Run.prems(3) contig_append [of "level_key d" "n # run" rest] r(1) by simp
  then have i: "distinct (top_keys d result)" "set (top_keys d result) \<subseteq> level_key d ` set rest"
    using Run.IH(2) Run.prems r(1) by auto
  have "Some k \<notin> level_key d ` set rest" using Run.prems(3) Run(1) r(2) by auto
  then show ?case using i Run(1) r(1) by (auto simp: top_keys_def l)
qed (simp add: top_keys_def)

lemma member_gid:
  "node_loop_group_id m = Some g \<Longrightarrow> \<exists>n\<in>set (leaves m). node_loop_group_id n = Some g"
proof (cases "is_loop_node m")
  case True
  assume g: "node_loop_group_id m = Some g"
  obtain i ns c where m: "m = CountedLoopSchedulerNode i ns c" using True by (cases m) auto
  obtain li lis where li: "List.map_filter leaf_loop_info ns = li # lis" "loop_group_id li = g"
    using g m by (auto simp: node_loop_group_id_def loop_infos_def split: list.splits)
  then have "li \<in> set (List.map_filter leaf_loop_info ns)" by simp
  then obtain n where n: "n \<in> set ns" "leaf_loop_info n = Some li"
    by (auto simp: map_filter_def split: if_splits)
  have "plain n" using n(2) by (cases n) (auto simp: plain_def)
  then have "leaves n = [n]" "node_loop_group_id n = Some g" using n(2) li(2) by (simp_all add: plain_leaf plain_gid)
  then have "n \<in> set (leaves m)" using n(1) m by force
  then show ?thesis using \<open>node_loop_group_id n = Some g\<close> by blast
qed (auto simp: leaves_other)

lemma top_keys_some: "list_all (same_group 0) rs \<Longrightarrow> None \<notin> set (top_keys 0 rs)"
proof
  assume a: "list_all (same_group 0) rs" and "None \<in> set (top_keys 0 rs)"
  then obtain r where r: "r \<in> set rs" "is_loop_node r" "level_key 0 (hd (leaves r)) = None"
    by (auto simp: top_keys_def)
  then have "same_group 0 r" using a by (simp add: list_all_iff)
  then have "gid_prefix 1 (hd (leaves r)) \<noteq> None" using r(2) by (cases r) (simp_all add: Let_def)
  then show False using r(3) by (auto simp: gid_prefix_def level_key_def split: option.splits if_splits)
qed

lemma outer_run_check_ok:
  assumes "list_all (same_group 0) res" "distinct (top_keys 0 res)"
  shows "outer_run_check res = Inr ()"
proof -
  let ?step = "\<lambda>node seen. case node of
          CountedLoopSchedulerNode i ns c \<Rightarrow>
            (case ns of [] \<Rightarrow> Inl IndexError
             | n0 # _ \<Rightarrow>
               (case node_loop_group_id n0 of
                  None \<Rightarrow> Inr seen
                | Some gid \<Rightarrow>
                    let key = take 1 gid; name = get_name node
                    in (case map_of seen key of
                          Some other \<Rightarrow> if other \<noteq> name then Inl RuntimeError else Inr ((key, name) # seen)
                        | None \<Rightarrow> Inr ((key, name) # seen))))
        | _ \<Rightarrow> Inr seen"
  have one: "\<exists>seen'. ?step r seen = Inr seen' \<and>
      fst ` set seen' \<subseteq> fst ` set seen \<union> (if is_loop_node r then {[the (level_key 0 (hd (leaves r)))]} else {})"
    if g: "same_group 0 r" and f: "is_loop_node r \<longrightarrow> [the (level_key 0 (hd (leaves r)))] \<notin> fst ` set seen" for r seen
  proof (cases "is_loop_node r")
    case True
    then obtain i ns c where r: "r = CountedLoopSchedulerNode i ns c" by (cases r) auto
    let ?ls = "concat (map leaves ns)"
    have ls: "?ls \<noteq> []" "gid_prefix 1 (hd ?ls) \<noteq> None" "\<forall>n\<in>set ?ls. gid_prefix 1 n = gid_prefix 1 (hd ?ls)"
      using g r by (auto simp: list_all_iff Let_def)
    obtain n0 ns' where ns: "ns = n0 # ns'" using ls(1) by (cases ns) auto
    show ?thesis
    proof (cases "node_loop_group_id n0")
      case None
      then show ?thesis using r ns by auto
    next
      case (Some gid)
      then obtain n where n: "n \<in> set ?ls" "node_loop_group_id n = Some gid" using member_gid ns by fastforce
      then have "gid_prefix 1 n = gid_prefix 1 (hd ?ls)" "gid_prefix 1 n \<noteq> None" using ls by auto
      then have k: "take 1 gid = [the (level_key 0 (hd (leaves r)))]" using n(2) r
        by (auto simp: gid_prefix_def level_key_def take_Suc_conv_app_nth split: option.splits if_splits)
      then have "map_of seen (take 1 gid) = None" using f True by (simp add: map_of_eq_None_iff)
      then show ?thesis using r ns Some k True by auto
    qed
  qed (cases r; auto)
  have "\<exists>seen'. foldE ?step rs seen = Inr seen'"
    if "list_all (same_group 0) rs" "distinct (top_keys 0 rs)"
      "\<forall>k\<in>set (top_keys 0 rs). [the k] \<notin> fst ` set seen" for rs seen
    using that
  proof (induction rs arbitrary: seen)
    case (Cons r rs)
    obtain seen' where s: "?step r seen = Inr seen'"
      "fst ` set seen' \<subseteq> fst ` set seen \<union> (if is_loop_node r then {[the (level_key 0 (hd (leaves r)))]} else {})"
      using one [of r seen] Cons.prems by (auto simp: top_keys_def)
    have "[the k] \<notin> fst ` set seen'" if k: "k \<in> set (top_keys 0 rs)" for k
    proof -
      have "k \<in> set (top_keys 0 (r # rs))" using k by (auto simp: top_keys_def)
      then have "[the k] \<notin> fst ` set seen" using Cons.prems(3) by blast
      moreover have "the k \<noteq> the (level_key 0 (hd (leaves r)))" if l: "is_loop_node r"
      proof -
        have "level_key 0 (hd (leaves r)) \<in> set (top_keys 0 (r # rs))" using l by (simp add: top_keys_def)
        then obtain a where "level_key 0 (hd (leaves r)) = Some a"
          using top_keys_some [OF Cons.prems(1)] by (metis not_None_eq)
        moreover obtain b where "k = Some b" using top_keys_some [of rs] Cons.prems(1) k by (cases k) auto
        moreover have "level_key 0 (hd (leaves r)) \<notin> set (top_keys 0 rs)"
          using Cons.prems(2) l by (simp add: top_keys_def)
        then have "k \<noteq> level_key 0 (hd (leaves r))" using k by metis
        ultimately show ?thesis by simp
      qed
      ultimately show ?thesis using s(2) by (auto split: if_splits)
    qed
    then have "\<exists>seen''. foldE ?step rs seen' = Inr seen''"
      using Cons.IH [of seen'] Cons.prems by (auto simp: top_keys_def split: if_splits)
    then show ?case using s(1) by simp
  qed simp
  then show ?thesis using assms by (fastforce simp: outer_run_check_def)
qed

subsection \<open>Well-formed stamps build without an error\<close>

definition stamps_agree :: "CoarseTileInfo \<Rightarrow> CoarseTileInfo \<Rightarrow> bool" where
  "stamps_agree a b \<longleftrightarrow>
     list_all (\<lambda>d. take (Suc d) (loop_group_id a) \<noteq> take (Suc d) (loop_group_id b) \<or> loop_count a ! d = loop_count b ! d)
       [0..<min (length (loop_group_id a)) (length (loop_group_id b))]"

definition well_stamped :: "sched_node list \<Rightarrow> bool" where
  "well_stamped nodes \<longleftrightarrow> list_all plain nodes \<and>
     (let stamps = List.map_filter leaf_loop_info nodes
      in list_all (\<lambda>li. loop_group_id li \<noteq> [] \<and> length (loop_count li) = length (loop_group_id li)) stamps \<and>
         list_all (\<lambda>a. list_all (stamps_agree a) stamps) stamps)"

lemma stamp_mem: "n \<in> set nodes \<Longrightarrow> leaf_loop_info n = Some li \<Longrightarrow> li \<in> set (List.map_filter leaf_loop_info nodes)"
  by (force simp: map_filter_def)

lemma well_stampedD:
  assumes "well_stamped nodes" "n \<in> set nodes"
  shows "plain n" "settled d n" "\<exists>key. outer_key n = Inr key"
proof -
  show p: "plain n" using assms by (simp add: well_stamped_def list_all_iff)
  have s: "loop_group_id li \<noteq> [] \<and> length (loop_count li) = length (loop_group_id li)"
    if "leaf_loop_info n = Some li" for li
    using assms(1) stamp_mem [OF assms(2) that] by (simp add: well_stamped_def list_all_iff Let_def)
  then show "settled d n" by (auto simp: settled_def split: option.split)
  show "\<exists>key. outer_key n = Inr key"
    using s by (auto simp: outer_key_def plain_gid [OF p] split: option.split list.split)
qed

lemma well_stamped_count:
  assumes w: "well_stamped nodes" "n \<in> set nodes" "x \<in> set nodes"
    and k: "level_key d n = Some k" "level_key d x = Some k" and p: "gid_prefix d n = gid_prefix d x"
  shows "node_loop_count x d = node_loop_count n d"
proof -
  note pn = well_stampedD(1) [OF w(1,2)] and px = well_stampedD(1) [OF w(1,3)]
  obtain a b where ab: "leaf_loop_info n = Some a" "leaf_loop_info x = Some b"
    and d: "d < length (loop_group_id a)" "d < length (loop_group_id b)"
    and g: "loop_group_id a ! d = loop_group_id b ! d" "take d (loop_group_id a) = take d (loop_group_id b)"
    using k p by (auto simp: level_key_def gid_prefix_def plain_gid [OF pn] plain_gid [OF px] split: option.splits if_splits)
  note m = stamp_mem [OF w(2) ab(1)] stamp_mem [OF w(3) ab(2)]
  have len: "length (loop_count a) = length (loop_group_id a)" "length (loop_count b) = length (loop_group_id b)"
    using w(1) m by (simp_all add: well_stamped_def list_all_iff Let_def)
  have "stamps_agree a b" using w(1) m by (simp add: well_stamped_def list_all_iff Let_def)
  moreover have "take (Suc d) (loop_group_id a) = take (Suc d) (loop_group_id b)"
    using g d by (simp add: take_Suc_conv_app_nth)
  ultimately have "loop_count a ! d = loop_count b ! d" using d by (auto simp: stamps_agree_def list_all_iff)
  then show ?thesis using len d by (simp add: node_loop_count_def plain_infos [OF pn] plain_infos [OF px] ab)
qed

lemma well_stamped_counted:
  "well_stamped nodes \<Longrightarrow> n \<in> set nodes \<Longrightarrow> level_key d n = Some k \<Longrightarrow> \<exists>c. node_loop_count n d = Inr c"
proof -
  assume w: "well_stamped nodes" "n \<in> set nodes" and k: "level_key d n = Some k"
  note p = well_stampedD(1) [OF w]
  obtain li where li: "leaf_loop_info n = Some li" "d < length (loop_group_id li)"
    using k by (auto simp: level_key_def plain_gid [OF p] split: option.splits if_splits)
  have "length (loop_count li) = length (loop_group_id li)"
    using w(1) stamp_mem [OF w(2) li(1)] by (simp add: well_stamped_def list_all_iff Let_def)
  then show ?thesis using li by (simp add: node_loop_count_def plain_infos [OF p])
qed

lemma build_total:
  assumes w: "well_stamped all"
    and "set nodes \<subseteq> set all" "\<forall>n\<in>set nodes. level_key d n \<noteq> None \<longrightarrow> gid_prefix d n = Some p"
  shows "\<exists>res m'. build_loop_group fi nodes d m = Inr (res, m')"
  using assms(2,3)
proof (induction "nest_measure nodes d" arbitrary: nodes d m p rule: less_induct)
  case less
  show ?case
  proof (cases nodes)
    case (Cons n ns)
    show ?thesis
    proof (cases "level_key d n")
      case None
      then have nl: "\<not> looped d n" by (auto simp: looped_def level_key_def split: option.splits)
      have "nest_measure ns d < nest_measure nodes d" by (simp add: Cons nest_measure_def)
      from less.hyps [OF this, of p m] show ?thesis
        using less.prems Cons build_skip [OF nl] by auto
    next
      case (Some k)
      obtain g where g: "node_loop_group_id n = Some g" "d < length g" "g ! d = k"
        using Some by (auto simp: level_key_def split: option.splits if_splits)
      have na: "n \<in> set all" using less.prems Cons by simp
      obtain c where c: "node_loop_count n d = Inr c" using well_stamped_counted [OF w na Some] by blast
      have pn: "gid_prefix d n = Some p" using less.prems(2) Cons Some by simp
      have "node_loop_count x d = Inr c" if h: "x \<in> set ns" "in_run d k x" for x
      proof -
        have x: "level_key d x = Some k" "x \<in> set all" "gid_prefix d x = Some p"
          using h less.prems Cons by (auto simp: in_run_key)
        then show ?thesis using well_stamped_count [OF w na x(2) Some x(1)] pn c by simp
      qed
      then obtain run rest where t: "take_run d k c ns = Inr (run, rest)" using take_run_total by blast
      note r = run_members [OF Some c t]
      have "levels_left (Suc d) n < levels_left d n" using g by (simp add: levels_left_def)
      then have m1: "nest_measure (n # run) (Suc d) < nest_measure nodes d"
        using nest_measure_mono [of run d] by (simp add: Cons r(1) nest_measure_def)
      have m2: "nest_measure rest d < nest_measure nodes d" by (simp add: Cons r(1) nest_measure_def)
      have "\<forall>x\<in>set (n # run). gid_prefix (Suc d) x = Some (p @ [k])"
        using less.prems(2) r(1,3) Cons by (auto intro!: prefix_step)
      then obtain inner mi where i: "build_loop_group fi (n # run) (Suc d) m = Inr (inner, mi)"
        using less.hyps [OF m1, of "p @ [k]" m] less.prems(1) Cons r(1) by auto
      obtain grouped m2' where cr: "create_loop fi inner c mi = (grouped, m2')" by fastforce
      obtain result m3 where "build_loop_group fi rest d m2' = Inr (result, m3)"
        using less.hyps [OF m2, of p m2'] less.prems Cons r(1) by auto
      then show ?thesis using Cons g c t i cr by simp
    qed
  qed simp
qed

subsection \<open>The pass\<close>

lemma outer_key_level: "outer_key n = Inr (Some k) \<longleftrightarrow> level_key 0 n = Some k"
  by (auto simp: outer_key_def level_key_def split: option.splits list.splits)

lemma regrouped_contig:
  assumes "regrouped nodes us keys"
  shows "contig (level_key 0) (map ((!) nodes) (flat_units us keys))"
proof (rule contig_blocks, rule allI)
  fix k
  obtain as bs where b: "flat_units us keys = as @ filter (with_key nodes k) [0..<length nodes] @ bs"
    "\<forall>i\<in>set as \<union> set bs. \<not> with_key nodes k i" using flat_contiguous [OF assms] by blast
  then show "\<exists>as mid bs. map ((!) nodes) (flat_units us keys) = as @ mid @ bs \<and>
      (\<forall>y\<in>set mid. level_key 0 y = Some k) \<and> (\<forall>y\<in>set as \<union> set bs. level_key 0 y \<noteq> Some k)"
    by (intro exI [of _ "map ((!) nodes) as"] exI [of _ "map ((!) nodes) (filter (with_key nodes k) [0..<length nodes])"]
        exI [of _ "map ((!) nodes) bs"]) (auto simp: with_key_def outer_key_level)
qed

lemma regrouped_set: "regrouped nodes us keys \<Longrightarrow> set (map ((!) nodes) (flat_units us keys)) = set nodes"
proof -
  assume R: "regrouped nodes us keys"
  have "set (flat_units us keys) = set [0..<length nodes]" by (rule mset_eq_setD [OF flat_perm [OF R]])
  then have "set (map ((!) nodes) (flat_units us keys)) = set (map ((!) nodes) [0..<length nodes])"
    by (simp only: set_map)
  then show ?thesis by (simp only: map_nth)
qed

text \<open>
  C23: Regrouping is a dependency-respecting permutation.  When no dependency path leaves an outermost
  loop group and re-enters it (the graph of merged units is acyclic), a producer that precedes its
  consumer in the incoming schedule still precedes it afterwards, the members of every outermost group
  come out contiguous and in their original order, and no node is lost.  The depth-first walk never runs
  out of its budget.
\<close>

theorem regroup_respects_dependencies:
  assumes "group_units nodes = Inr us" "acyclic (dep_rel (length us) (unit_deps nodes us))"
  shows "\<exists>order. regroup_order nodes = Inr order \<and> mset order = mset [0..<length nodes] \<and>
    (\<forall>i j dep. j < length nodes \<and> dep \<in> set (unmet_dependencies (info_of (nodes ! j))) \<and>
        name_to_node nodes dep = Some i \<and> i < j \<longrightarrow> before i j order) \<and>
    (\<forall>k. \<exists>as bs. order = as @ filter (\<lambda>i. outer_key (nodes ! i) = Inr (Some k)) [0..<length nodes] @ bs \<and>
        (\<forall>i\<in>set as \<union> set bs. outer_key (nodes ! i) \<noteq> Inr (Some k)))"
proof -
  obtain keys where "order_units (length us) (unit_deps nodes us) = Inr keys"
    by (rule order_units_spec [OF deps_bound [OF assms(1)]])
  then have R: "regrouped nodes us keys" using assms(1) by (simp add: regrouped_def)
  show ?thesis
    using regroup_flat [OF R] flat_perm [OF R] flat_topological [OF R assms(2)] flat_contiguous [OF R]
    unfolding with_key_def by blast
qed

lemma realise_stamps:
  assumes "well_stamped nodes"
  shows "\<exists>order res m'. regroup_order nodes = Inr order \<and> mset order = mset [0..<length nodes] \<and>
    build_loop_scheduler_nodes fi nodes m = Inr (res, m') \<and>
    concat (map loop_nest res) = map (\<lambda>i. (nodes ! i, stamped_counts (nodes ! i))) order \<and>
    list_all (same_group 0) res \<and> distinct (top_keys 0 res)"
proof -
  obtain us keys where R: "regrouped nodes us keys"
    using regroup_total well_stampedD(3) [OF assms] by blast
  let ?o = "flat_units us keys" and ?ns = "map ((!) nodes) (flat_units us keys)"
  note s = regrouped_set [OF R]
  have pl: "\<forall>n\<in>set ?ns. plain n" "\<forall>n\<in>set ?ns. settled 0 n" using s well_stampedD [OF assms] by auto
  have pre: "\<forall>n\<in>set ?ns. level_key 0 n \<noteq> None \<longrightarrow> gid_prefix 0 n = Some []"
    by (auto simp: level_key_def gid_prefix_def split: option.splits)
  obtain res m' where b: "build_loop_group fi ?ns 0 m = Inr (res, m')"
    using build_total [OF assms _ pre] s by blast
  note sg = build_same_group [OF b pl pre] and tk = build_top_keys [OF b pl regrouped_contig [OF R]]
  have "outer_run_check res = Inr ()" by (rule outer_run_check_ok [OF sg]) (use tk in blast)
  then have "build_loop_scheduler_nodes fi nodes m = Inr (res, m')"
    using b regroup_flat [OF R] by (simp add: build_loop_scheduler_nodes_def regroup_by_outer_loop_key_def)
  moreover have "concat (map loop_nest res) = map (\<lambda>i. (nodes ! i, stamped_counts (nodes ! i))) ?o"
    using build_nest [OF b pl] by (simp add: comp_def)
  ultimately show ?thesis using regroup_flat [OF R] flat_perm [OF R] sg tk by blast
qed

text \<open>
  The counted loops realise the loop stamps.  For stamps as coarse tiling writes them (one trip
  count per level, at least one level, and equal counts on equal nesting paths) the pass raises
  nothing, its own contiguity check included.  Its leaves are the regrouped nodes in order, and each
  leaf stands under exactly the loops its stamp lists, outermost first.  All leaves of a loop share
  the nesting path down to that loop, and every outermost group became a single loop.
\<close>

theorem loop_nodes_realise_stamps:
  assumes "well_stamped nodes"
  shows "\<exists>order res m'. regroup_order nodes = Inr order \<and> mset order = mset [0..<length nodes] \<and>
    build_loop_scheduler_nodes fi nodes m = Inr (res, m') \<and>
    concat (map loop_nest res) = map (\<lambda>i. (nodes ! i, stamped_counts (nodes ! i))) order \<and>
    list_all (same_group 0) res \<and> distinct (top_keys 0 res)"
  by (rule realise_stamps [OF assms])

subsection \<open>Examples\<close>

definition demo_node :: "string \<Rightarrow> string list \<Rightarrow> (int list \<times> int list) option \<Rightarrow> sched_node" where
  "demo_node name deps stamp = SchedulerNode \<lparr>node_name = name, node_device = Some ''spyre'',
     buffer_names = [name], unmet_dependencies = deps, mem_deps = [],
     ir_node = Some \<lparr>op_name = name, op_class = ComputedBuffer, is_no_op = False, op_device = Some ''spyre'',
       loop_info = map_option (\<lambda>(g, c). \<lparr>loop_group_id = g, loop_count = c\<rparr>) stamp,
       emit_set_layout = None\<rparr>\<rparr>"

definition demo_nodes :: "sched_node list" where
  "demo_nodes = [demo_node ''a'' [] (Some ([0], [4])), demo_node ''x'' [] None,
     demo_node ''b'' [''a''] (Some ([0, 5], [4, 2])), demo_node ''c'' [''b'', ''x''] (Some ([0], [4]))]"

definition demo_info :: "sched_node list \<Rightarrow> node_info" where
  "demo_info ns = \<lparr>node_name = concat (map get_name ns), node_device = Some ''spyre'', buffer_names = [],
     unmet_dependencies = [], mem_deps = [], ir_node = None\<rparr>"

definition nest_names :: "sched_node list \<Rightarrow> (string \<times> int list) list" where
  "nest_names res = map (\<lambda>(n, p). (get_name n, p)) (concat (map loop_nest res))"

theorem loop_nodes_realise_stamps_witness:
  "well_stamped demo_nodes \<and>
   (\<exists>res m'. build_loop_scheduler_nodes demo_info demo_nodes Map.empty = Inr (res, m') \<and>
      mset (map fst (concat (map loop_nest res))) = mset demo_nodes)"
proof -
  have w: "well_stamped demo_nodes" by code_simp
  from loop_nodes_realise_stamps [OF w, of demo_info Map.empty]
  obtain order res m' where o: "mset order = mset [0..<length demo_nodes]"
    "build_loop_scheduler_nodes demo_info demo_nodes Map.empty = Inr (res, m')"
    "concat (map loop_nest res) = map (\<lambda>i. (demo_nodes ! i, stamped_counts (demo_nodes ! i))) order" by blast
  have "mset (map ((!) demo_nodes) order) = mset (map ((!) demo_nodes) [0..<length demo_nodes])"
    using o(1) by (metis mset_map)
  then have "mset (map fst (concat (map loop_nest res))) = mset demo_nodes" using o(3) by (simp add: comp_def map_nth)
  then show ?thesis using w o(2) by blast
qed

lemma demo_nest:
  "(case build_loop_scheduler_nodes demo_info demo_nodes Map.empty of
      Inl e \<Rightarrow> [] | Inr (res, m') \<Rightarrow> nest_names res) =
   [(''x'', []), (''a'', [4]), (''b'', [4, 2]), (''c'', [4])]"
  by code_simp

definition demo_units :: "sched_unit list" where
  "demo_units = [(Some 0, [0, 2, 3]), (None, [Suc 0])]"

lemma demo_units_eq: "group_units demo_nodes = Inr demo_units"
  by code_simp

lemma demo_unit_deps: "unit_deps demo_nodes demo_units 0 = [Suc 0]" "unit_deps demo_nodes demo_units (Suc 0) = []"
  by code_simp+

lemma demo_acyclic: "acyclic (dep_rel (length demo_units) (unit_deps demo_nodes demo_units))"
proof -
  have "length demo_units = Suc (Suc 0)" by (simp add: demo_units_def)
  then have "dep_rel (length demo_units) (unit_deps demo_nodes demo_units) = {(0, Suc 0)}"
    by (auto simp: dep_rel_def demo_unit_deps less_Suc_eq)
  then show ?thesis by (simp add: acyclic_insert wf_acyclic)
qed

theorem regroup_respects_dependencies_witness:
  "\<exists>order. regroup_order demo_nodes = Inr order \<and> before 0 2 order \<and> before (Suc 0) 3 order"
proof -
  have n: "name_to_node demo_nodes ''a'' = Some 0" "name_to_node demo_nodes ''x'' = Some (Suc 0)" "length demo_nodes = 4"
    "''a'' \<in> set (unmet_dependencies (info_of (demo_nodes ! 2)))" "''x'' \<in> set (unmet_dependencies (info_of (demo_nodes ! 3)))"
    by code_simp+
  obtain order where o: "regroup_order demo_nodes = Inr order"
    "\<And>i j dep. j < length demo_nodes \<Longrightarrow> dep \<in> set (unmet_dependencies (info_of (demo_nodes ! j))) \<Longrightarrow>
        name_to_node demo_nodes dep = Some i \<Longrightarrow> i < j \<Longrightarrow> before i j order"
    using regroup_respects_dependencies [OF demo_units_eq demo_acyclic] by blast
  have "before 0 2 order" "before (Suc 0) 3 order"
    using o(2) [OF _ n(4,1)] o(2) [OF _ n(5,2)] by (simp_all add: n(3))
  then show ?thesis using o(1) by blast
qed

definition reentry_nodes :: "sched_node list" where
  "reentry_nodes = [demo_node ''g1'' [] (Some ([0], [4])), demo_node ''x'' [''g1''] None,
     demo_node ''g2'' [''x''] (Some ([0], [4]))]"

text \<open>
  The acyclicity is needed, and the code does not establish it.  In this schedule, which is in
  topological order, node \<open>x\<close> reads the buffer of the first member of a loop group and feeds its second
  member.  The walk enters the group's unit, marks it as seen and finds \<open>x\<close>, whose only dependency is the
  unit already seen; \<open>x\<close> is emitted ahead of the producer of its input and no error is raised.
\<close>

theorem regroup_reorders_reentrant_group:
  "(case regroup_by_outer_loop_key reentry_nodes of Inl e \<Rightarrow> [] | Inr ns \<Rightarrow> map get_name ns) = [''x'', ''g1'', ''g2''] \<and>
   map get_name reentry_nodes = [''g1'', ''x'', ''g2''] \<and>
   map (\<lambda>n. unmet_dependencies (info_of n)) reentry_nodes = [[], [''g1''], [''x'']] \<and>
   well_stamped reentry_nodes"
proof (intro conjI)
  show "(case regroup_by_outer_loop_key reentry_nodes of Inl e \<Rightarrow> [] | Inr ns \<Rightarrow> map get_name ns) = [''x'', ''g1'', ''g2'']"
    by code_simp
  show "map get_name reentry_nodes = [''g1'', ''x'', ''g2'']" by code_simp
  show "map (\<lambda>n. unmet_dependencies (info_of n)) reentry_nodes = [[], [''g1''], [''x'']]" by code_simp
  show "well_stamped reentry_nodes" by code_simp
qed

end
