(* ===== verification/Kernel_Prep.thy ===== *)
theory Kernel_Prep
  imports Loop_Nests
begin

text \<open>
  Preparing the kernel of every bundle (\<open>prepare_spyre_kernels\<close> and the codegen walk of
  \<open>SuperDSCScheduling\<close> in \<open>scheduler.py\<close>, the relayout groups it demotes in
  \<open>scratchpad/lx_relayout.py\<close>).

  The handlers a node's body runs through are Inductor's and \<open>spyre_kernel.py\<close>'s; they are the
  parameter \<open>emit\<close>, which is given the LX-resident buffers, the nodes the kernel has already
  scheduled and the node, and returns the graph buffers it marks as removed together with the
  operation specs it appends or the exception it raises.  \<open>validate\<close> stands for
  \<open>validate_op_specs\<close>.  Node identity is equality of nodes.
\<close>

subsection \<open>Kernels\<close>

datatype op_entry = OpSpec string | LoopSpec int "op_entry list"

record spyre_kernel =
  op_specs :: "op_entry list"
  scheduled_nodes :: "sched_node list"
  failed_node :: "sched_node option"
  graph_removed :: "string set"

type_synonym kernel_res = "(py_error \<times> spyre_kernel) + spyre_kernel"
type_synonym handlers = "string set \<Rightarrow> sched_node list \<Rightarrow> sched_node \<Rightarrow> string set \<times> (string list) res"

definition new_kernel :: "string set \<Rightarrow> spyre_kernel" where
  "new_kernel rem = \<lparr>op_specs = [], scheduled_nodes = [], failed_node = None, graph_removed = rem\<rparr>"

fun foldK :: "('a \<Rightarrow> spyre_kernel \<Rightarrow> kernel_res) \<Rightarrow> 'a list \<Rightarrow> spyre_kernel \<Rightarrow> kernel_res" where
  "foldK f [] k = Inr k"
| "foldK f (x # xs) k = (case f x k of Inl e \<Rightarrow> Inl e | Inr k' \<Rightarrow> foldK f xs k')"

lemma foldK_cong [fundef_cong]:
  "xs = ys \<Longrightarrow> k = l \<Longrightarrow> (\<And>x s. x \<in> set ys \<Longrightarrow> f x s = g x s) \<Longrightarrow> foldK f xs k = foldK g ys l"
proof (induction xs arbitrary: ys k l)
  case (Cons x xs)
  then have "f x k = g x k" by auto
  moreover have "foldK f xs k' = foldK g xs k'" for k' using Cons by auto
  ultimately show ?case using Cons.prems(1,2) by (auto split: sum.split)
qed simp

fun is_scheduler_node :: "sched_node \<Rightarrow> bool" where
  "is_scheduler_node (SchedulerNode i) = True"
| "is_scheduler_node n = False"

fun schedule_inner :: "sched_node list \<Rightarrow> sched_node list \<times> sched_node list \<Rightarrow> sched_node list \<times> sched_node list" where
  "schedule_inner [] st = st"
| "schedule_inner (inner # ns) (seen, sched) =
     (if inner \<notin> set seen \<and> is_scheduler_node inner
      then schedule_inner ns (inner # seen, sched @ [inner])
      else schedule_inner ns (seen, sched))"

definition schedule_node :: "sched_node \<Rightarrow> sched_node list \<times> sched_node list \<Rightarrow> (sched_node list \<times> sched_node list) res" where
  "schedule_node node st =
     (case st of (seen, sched) \<Rightarrow>
        if node \<in> set seen then Inr st
        else if is_scheduler_node node then Inr (node # seen, sched @ [node])
        else if is_fused_node node then Inr (schedule_inner (get_nodes node) (node # seen, sched))
        else Inl RuntimeError)"

definition generate_node_schedule :: "sched_node list \<Rightarrow> sched_node list res" where
  "generate_node_schedule nodes = bindE (foldE schedule_node nodes ([], [])) (\<lambda>st. Inr (snd st))"

definition live_nodes :: "string set \<Rightarrow> sched_node list \<Rightarrow> sched_node list" where
  "live_nodes removed_ops ns = filter (\<lambda>n. get_name n \<notin> removed_ops) ns"

definition caught :: "py_error \<Rightarrow> bool" where
  "caught e \<longleftrightarrow> e = Unsupported \<or> e = ValueError"

definition codegen_leaf :: "handlers \<Rightarrow> string set \<Rightarrow> sched_node \<Rightarrow> spyre_kernel \<Rightarrow> kernel_res" where
  "codegen_leaf emit lx snode k =
     (let out = emit lx (scheduled_nodes k) snode;
          k1 = k\<lparr>scheduled_nodes := scheduled_nodes k @ [snode], graph_removed := graph_removed k \<union> fst out\<rparr>
      in case snd out of
           Inl e \<Rightarrow> Inl (e, if caught e then k1\<lparr>failed_node := Some snode\<rparr> else k1)
         | Inr specs \<Rightarrow> Inr (k1\<lparr>op_specs := op_specs k1 @ map OpSpec specs\<rparr>))"

lemma size_live_node [termination_simp]: "x \<in> set (live_nodes r ns) \<Longrightarrow> size x < Suc (size_list size ns)"
  by (auto simp: live_nodes_def dest: size_list_estimation' [of _ _ "size _" size])

fun codegen_into :: "handlers \<Rightarrow> string set \<Rightarrow> string set \<Rightarrow> sched_node \<Rightarrow> spyre_kernel \<Rightarrow> kernel_res" where
  "codegen_into emit lx removed_ops (CountedLoopSchedulerNode i ns trips) k =
     (case foldK (codegen_into emit lx removed_ops) (live_nodes removed_ops ns) k of
        Inl e \<Rightarrow> Inl e
      | Inr k' \<Rightarrow>
          let body_start = length (op_specs k);
              body = drop body_start (op_specs k')
          in Inr (k'\<lparr>op_specs := take body_start (op_specs k') @ [LoopSpec trips body]\<rparr>))"
| "codegen_into emit lx removed_ops node k =
     (case generate_node_schedule [node] of
        Inl e \<Rightarrow> Inl (e, k)
      | Inr snodes \<Rightarrow> foldK (codegen_leaf emit lx) snodes k)"

definition codegen_into_kernel ::
  "handlers \<Rightarrow> string set \<Rightarrow> string set \<Rightarrow> sched_node list \<Rightarrow> spyre_kernel \<Rightarrow> kernel_res" where
  "codegen_into_kernel emit lx removed_ops nodes k = foldK (codegen_into emit lx removed_ops) nodes k"

definition wrap_op_specs_in_loop :: "int \<Rightarrow> spyre_kernel \<Rightarrow> spyre_kernel" where
  "wrap_op_specs_in_loop trips k = k\<lparr>op_specs := [LoopSpec trips (op_specs k)]\<rparr>"

definition prepare_kernel ::
  "handlers \<Rightarrow> (op_entry list \<Rightarrow> unit res) \<Rightarrow> string set \<Rightarrow> string set \<Rightarrow> sched_node \<Rightarrow> spyre_kernel \<Rightarrow> kernel_res" where
  "prepare_kernel emit validate lx removed_ops node k =
     (case codegen_into_kernel emit lx removed_ops (live_nodes removed_ops (get_nodes node)) k of
        Inl e \<Rightarrow> Inl e
      | Inr k1 \<Rightarrow>
          let k2 = (case node of CountedLoopSchedulerNode i ns trips \<Rightarrow> wrap_op_specs_in_loop trips k1 | _ \<Rightarrow> k1)
          in case validate (op_specs k2) of Inl e \<Rightarrow> Inl (e, k2) | Inr _ \<Rightarrow> Inr k2)"

subsection \<open>Placements and their demotion\<close>

record LXRelayoutPlan =
  source_name :: string
  destination_name :: string

record placement =
  lx_resident :: "string set"
  relayout_copies :: "((string \<times> string) \<times> (string \<times> LXRelayoutPlan)) list"

definition materialized_lx_relayout_for_destination :: "placement \<Rightarrow> string \<Rightarrow> LXRelayoutPlan option" where
  "materialized_lx_relayout_for_destination pl name =
     map_option (snd \<circ> snd) (find (\<lambda>(edge, copy, plan). copy = name) (relayout_copies pl))"

definition discard_lx_relayout_group :: "placement \<Rightarrow> string \<Rightarrow> placement \<times> string set" where
  "discard_lx_relayout_group pl source =
     (pl\<lparr>relayout_copies := filter (\<lambda>(edge, copy, plan). fst edge \<noteq> source) (relayout_copies pl)\<rparr>,
      set (map (\<lambda>(edge, copy, plan). copy) (filter (\<lambda>(edge, copy, plan). fst edge = source) (relayout_copies pl))))"

definition demote_lx_relayout_group :: "placement \<Rightarrow> string \<Rightarrow> placement" where
  "demote_lx_relayout_group pl source =
     (case discard_lx_relayout_group pl source of (pl', copies) \<Rightarrow>
        pl'\<lparr>lx_resident := lx_resident pl' - insert source copies\<rparr>)"

definition demote :: "string \<Rightarrow> placement \<Rightarrow> placement" where
  "demote name pl =
     demote_lx_relayout_group pl
       (case materialized_lx_relayout_for_destination pl name of None \<Rightarrow> name | Some plan \<Rightarrow> source_name plan)"

definition touched_lx_names :: "placement \<Rightarrow> sched_node \<Rightarrow> string list" where
  "touched_lx_names pl node = filter (\<lambda>name. name \<in> lx_resident pl) (mem_deps (info_of node))"

fun scheduler_leaves :: "sched_node \<Rightarrow> sched_node list" where
  "scheduler_leaves (FusedSchedulerNode i ns) = concat (map scheduler_leaves ns)"
| "scheduler_leaves (CountedLoopSchedulerNode i ns c) = concat (map scheduler_leaves ns)"
| "scheduler_leaves (SchedulerNode i) = [SchedulerNode i]"
| "scheduler_leaves n = []"

definition all_scheduler_nodes :: "sched_node list \<Rightarrow> sched_node list" where
  "all_scheduler_nodes items = concat (map scheduler_leaves items)"

subsection \<open>The attempts\<close>

datatype attempt =
    Prepared "(sched_node \<times> spyre_kernel) list" "string set"
  | Failed py_error "sched_node option" "string set"

fun prepare_bundles ::
  "handlers \<Rightarrow> (op_entry list \<Rightarrow> unit res) \<Rightarrow> string set \<Rightarrow> string set \<Rightarrow> sched_node list \<Rightarrow> string set \<Rightarrow> attempt" where
  "prepare_bundles emit validate lx removed_ops [] removed = Prepared [] removed"
| "prepare_bundles emit validate lx removed_ops (bundle # bundles) removed =
     (case prepare_kernel emit validate lx removed_ops bundle (new_kernel removed) of
        Inl (e, k) \<Rightarrow> Failed e (failed_node k) (graph_removed k)
      | Inr k \<Rightarrow>
          (case prepare_bundles emit validate lx removed_ops bundles (graph_removed k) of
             Prepared ks removed' \<Rightarrow> Prepared ((bundle, k) # ks) removed'
           | Failed e n removed' \<Rightarrow> Failed e n removed'))"

record prep_state =
  prep_placement :: placement
  removed_buffers :: "string set"

datatype prep_outcome =
    Kernels "(sched_node \<times> spyre_kernel) list" prep_state
  | Raised py_error prep_state
  | Exhausted prep_state

fun prepare_attempts ::
  "nat \<Rightarrow> handlers \<Rightarrow> (op_entry list \<Rightarrow> unit res) \<Rightarrow> string set \<Rightarrow> sched_node list \<Rightarrow> string set \<Rightarrow> prep_state \<Rightarrow> prep_outcome" where
  "prepare_attempts 0 emit validate removed_ops bundles entry st = Exhausted st"
| "prepare_attempts (Suc n) emit validate removed_ops bundles entry st =
     (case prepare_bundles emit validate (lx_resident (prep_placement st)) removed_ops bundles (removed_buffers st) of
        Prepared kernels removed' \<Rightarrow> Kernels kernels (st\<lparr>removed_buffers := removed'\<rparr>)
      | Failed e failed removed' \<Rightarrow>
          if \<not> caught e then Raised e (st\<lparr>removed_buffers := removed'\<rparr>)
          else
            let st1 = st\<lparr>removed_buffers := removed' - (removed' - entry)\<rparr>;
                touched = (case failed of None \<Rightarrow> [] | Some f \<Rightarrow> touched_lx_names (prep_placement st) f)
            in if failed = None \<or> touched = [] then Raised e st1
               else prepare_attempts n emit validate removed_ops bundles entry
                      (st1\<lparr>prep_placement := fold demote touched (prep_placement st1)\<rparr>))"

text \<open>\<open>superdsc_backend\<close> stands for the rest of the test on a node: its device's backend is
  \<open>SuperDSCScheduling\<close>, and it is no template, extern or for-each node.\<close>

definition spyre_bundles :: "(sched_node \<Rightarrow> bool) \<Rightarrow> sched_node list \<Rightarrow> sched_node list" where
  "spyre_bundles superdsc_backend nodes =
     filter (\<lambda>node. (is_fused_node node \<or> is_scheduler_node node) \<and> superdsc_backend node) nodes"

definition initial_lx_names :: "placement \<Rightarrow> sched_node list \<Rightarrow> string set" where
  "initial_lx_names pl bundles = set (concat (map (touched_lx_names pl) (all_scheduler_nodes bundles)))"

definition prepare_spyre_kernels ::
  "handlers \<Rightarrow> (op_entry list \<Rightarrow> unit res) \<Rightarrow> (sched_node \<Rightarrow> bool) \<Rightarrow> string set \<Rightarrow> sched_node list \<Rightarrow> prep_state \<Rightarrow>
   (py_error \<times> prep_state) + ((sched_node \<times> spyre_kernel) list \<times> prep_state)" where
  "prepare_spyre_kernels emit validate superdsc_backend removed_ops nodes st =
     (let bundles = spyre_bundles superdsc_backend nodes
      in case prepare_attempts (card (initial_lx_names (prep_placement st) bundles) + 1)
                emit validate removed_ops bundles (removed_buffers st) st of
           Kernels ks st' \<Rightarrow> Inr (ks, st')
         | Raised e st' \<Rightarrow> Inl (e, st')
         | Exhausted st' \<Rightarrow> Inl (RuntimeError, st'))"

section \<open>The emitted loop nest\<close>

fun spec_nest :: "op_entry \<Rightarrow> (string \<times> int list) list" where
  "spec_nest (OpSpec s) = [(s, [])]"
| "spec_nest (LoopSpec c body) = map (\<lambda>(s, p). (s, c # p)) (concat (map spec_nest body))"

text \<open>The operations a node contributes, each under its loops; \<open>removed_ops\<close> are skipped.\<close>

fun live_nest :: "string set \<Rightarrow> sched_node \<Rightarrow> (sched_node \<times> int list) list" where
  "live_nest removed_ops (CountedLoopSchedulerNode i ns c) =
     map (\<lambda>(n, p). (n, c # p)) (concat (map (live_nest removed_ops) (live_nodes removed_ops ns)))"
| "live_nest removed_ops (FusedSchedulerNode i ns) =
     map (\<lambda>n. (n, [])) (snd (schedule_inner ns ([FusedSchedulerNode i ns], [])))"
| "live_nest removed_ops n = [(n, [])]"

definition bundle_nest :: "string set \<Rightarrow> sched_node \<Rightarrow> (sched_node \<times> int list) list" where
  "bundle_nest removed_ops node =
     (let inner = concat (map (live_nest removed_ops) (live_nodes removed_ops (get_nodes node)))
      in case node of CountedLoopSchedulerNode i ns c \<Rightarrow> map (\<lambda>(n, p). (n, c # p)) inner | _ \<Rightarrow> inner)"

fun emitted_specs :: "handlers \<Rightarrow> string set \<Rightarrow> sched_node list \<Rightarrow> (sched_node \<times> int list) list \<Rightarrow> (string \<times> int list) list" where
  "emitted_specs emit lx hist [] = []"
| "emitted_specs emit lx hist ((n, p) # rest) =
     (case snd (emit lx hist n) of Inl e \<Rightarrow> [] | Inr specs \<Rightarrow> map (\<lambda>s. (s, p)) specs) @
     emitted_specs emit lx (hist @ [n]) rest"

lemma emitted_append:
  "emitted_specs emit lx h (xs @ ys) = emitted_specs emit lx h xs @ emitted_specs emit lx (h @ map fst xs) ys"
  by (induction xs arbitrary: h) (auto simp: split: sum.split)

lemma emitted_under:
  "emitted_specs emit lx h (map (\<lambda>(n, p). (n, c # p)) xs) = map (\<lambda>(s, p). (s, c # p)) (emitted_specs emit lx h xs)"
  by (induction xs arbitrary: h) (auto simp: comp_def split: sum.split)

text \<open>What a step adds to a kernel for the nodes \<open>nest\<close>.\<close>

definition adds :: "handlers \<Rightarrow> string set \<Rightarrow> spyre_kernel \<Rightarrow> (sched_node \<times> int list) list \<Rightarrow> spyre_kernel \<Rightarrow> bool" where
  "adds emit lx k nest k' \<longleftrightarrow> scheduled_nodes k' = scheduled_nodes k @ map fst nest \<and>
     (\<exists>new. op_specs k' = op_specs k @ new \<and>
        concat (map spec_nest new) = emitted_specs emit lx (scheduled_nodes k) nest)"

lemma adds_refl: "adds emit lx k [] k"
  by (simp add: adds_def)

lemma adds_trans: "adds emit lx k xs k' \<Longrightarrow> adds emit lx k' ys k'' \<Longrightarrow> adds emit lx k (xs @ ys) k''"
  by (auto simp: adds_def emitted_append)

lemma foldK_adds:
  assumes "\<And>x k k'. x \<in> set xs \<Longrightarrow> f x k = Inr k' \<Longrightarrow> adds emit lx k (nest x) k'"
  shows "foldK f xs k = Inr k' \<Longrightarrow> adds emit lx k (concat (map nest xs)) k'"
  using assms
proof (induction xs arbitrary: k)
  case (Cons x xs)
  then obtain k1 where "f x k = Inr k1" "foldK f xs k1 = Inr k'" by (auto split: sum.splits)
  then show ?case using Cons.IH [of k1] Cons.prems(2) adds_trans by fastforce
qed (simp add: adds_refl)

lemma codegen_leaf_adds: "codegen_leaf emit lx n k = Inr k' \<Longrightarrow> adds emit lx k [(n, [])] k'"
proof -
  assume "codegen_leaf emit lx n k = Inr k'"
  then obtain specs where s: "snd (emit lx (scheduled_nodes k) n) = Inr specs"
    and k': "scheduled_nodes k' = scheduled_nodes k @ [n]" "op_specs k' = op_specs k @ map OpSpec specs"
    by (auto simp: codegen_leaf_def Let_def split: sum.splits)
  have "concat (map spec_nest (map OpSpec specs)) = map (\<lambda>s. (s, [])) specs" by (induction specs) auto
  then show ?thesis using s k' by (auto simp: adds_def)
qed

lemma concat_singletons: "concat (map (\<lambda>x. [f x]) xs) = map f xs"
  by (induction xs) auto

lemma codegen_single_adds:
  assumes "(case generate_node_schedule [node] of Inl e \<Rightarrow> Inl (e, k) | Inr snodes \<Rightarrow> foldK (codegen_leaf emit lx) snodes k) = Inr k'"
    and "generate_node_schedule [node] = Inr (map fst nest)" "map snd nest = map (\<lambda>_. []) nest"
  shows "adds emit lx k nest k'"
proof -
  have "adds emit lx k (concat (map (\<lambda>n. [(n, [])]) (map fst nest))) k'"
    using assms(1,2) codegen_leaf_adds by (intro foldK_adds) auto
  moreover have "concat (map (\<lambda>n. [(n, [])]) (map fst nest)) = nest"
    using assms(3) by (induction nest) auto
  ultimately show ?thesis by simp
qed

lemma codegen_into_adds:
  "codegen_into emit lx rem node k = Inr k' \<Longrightarrow> adds emit lx k (live_nest rem node) k'"
proof (induction emit lx rem node k arbitrary: k' rule: codegen_into.induct [case_names Loop Node Nop Extern Fused])
  case (Loop emit lx rem i ns c k)
  then obtain k1 where k1: "foldK (codegen_into emit lx rem) (live_nodes rem ns) k = Inr k1"
    and k': "k' = k1\<lparr>op_specs := take (length (op_specs k)) (op_specs k1) @ [LoopSpec c (drop (length (op_specs k)) (op_specs k1))]\<rparr>"
    by (auto simp: Let_def split: sum.splits)
  have a: "adds emit lx k (concat (map (live_nest rem) (live_nodes rem ns))) k1"
    using k1 Loop.IH by (intro foldK_adds) auto
  then show ?case unfolding adds_def k'
    by (auto simp: emitted_under comp_def case_prod_beta)
next
  case (Node emit lx rem i k)
  then show ?case
    by (intro codegen_single_adds [where node = "SchedulerNode i"])
      (auto simp: generate_node_schedule_def schedule_node_def)
next
  case (Nop emit lx rem i k)
  then show ?case by (auto simp: generate_node_schedule_def schedule_node_def)
next
  case (Extern emit lx rem i k)
  then show ?case by (auto simp: generate_node_schedule_def schedule_node_def)
next
  case (Fused emit lx rem i ns k)
  then show ?case
    by (intro codegen_single_adds [where node = "FusedSchedulerNode i ns"])
      (auto simp: generate_node_schedule_def schedule_node_def comp_def)
qed

lemma prepare_adds:
  assumes "prepare_kernel emit validate lx rem node (new_kernel r) = Inr k"
  shows "scheduled_nodes k = map fst (bundle_nest rem node) \<and>
     concat (map spec_nest (op_specs k)) = emitted_specs emit lx [] (bundle_nest rem node)"
proof -
  let ?ns = "live_nodes rem (get_nodes node)"
  obtain k1 where k1: "foldK (codegen_into emit lx rem) ?ns (new_kernel r) = Inr k1"
    and k: "k = (case node of CountedLoopSchedulerNode i ns c \<Rightarrow> wrap_op_specs_in_loop c k1 | _ \<Rightarrow> k1)"
    using assms by (auto simp: prepare_kernel_def codegen_into_kernel_def Let_def split: sum.splits)
  have "adds emit lx (new_kernel r) (concat (map (live_nest rem) ?ns)) k1"
    using k1 codegen_into_adds by (intro foldK_adds) auto
  then have "scheduled_nodes k1 = map fst (concat (map (live_nest rem) ?ns))"
    "concat (map spec_nest (op_specs k1)) = emitted_specs emit lx [] (concat (map (live_nest rem) ?ns))"
    by (auto simp: adds_def new_kernel_def)
  then show ?thesis using k
    by (auto simp: bundle_nest_def Let_def wrap_op_specs_in_loop_def emitted_under comp_def case_prod_beta split: sched_node.splits)
qed

section \<open>Failures name an operation of the bundle\<close>

definition blames :: "sched_node set \<Rightarrow> string set \<Rightarrow> kernel_res \<Rightarrow> bool" where
  "blames S r res \<longleftrightarrow> (case res of
      Inl (e, k) \<Rightarrow> (\<forall>f. failed_node k = Some f \<longrightarrow> f \<in> S) \<and> r \<subseteq> graph_removed k
    | Inr k \<Rightarrow> failed_node k = None \<and> r \<subseteq> graph_removed k)"

lemma blames_mono: "blames S r res \<Longrightarrow> S \<subseteq> T \<Longrightarrow> r' \<subseteq> r \<Longrightarrow> blames T r' res"
  by (auto simp: blames_def split: sum.splits)

lemma foldK_blames:
  assumes "\<And>x k. x \<in> set xs \<Longrightarrow> failed_node k = None \<Longrightarrow> blames S (graph_removed k) (f x k)"
    and "failed_node k = None"
  shows "blames S (graph_removed k) (foldK f xs k)"
  using assms
proof (induction xs arbitrary: k)
  case (Cons x xs)
  have b: "blames S (graph_removed k) (f x k)" using Cons.prems by simp
  show ?case
  proof (cases "f x k")
    case (Inl e)
    then show ?thesis using b by simp
  next
    case (Inr k1)
    then have "failed_node k1 = None" "graph_removed k \<subseteq> graph_removed k1" using b by (auto simp: blames_def)
    then have "blames S (graph_removed k1) (foldK f xs k1)" using Cons.IH Cons.prems(1) by simp
    then show ?thesis using Inr \<open>graph_removed k \<subseteq> graph_removed k1\<close> by (auto intro: blames_mono)
  qed
qed (simp add: blames_def)

lemma codegen_leaf_blames: "failed_node k = None \<Longrightarrow> n \<in> S \<Longrightarrow> blames S (graph_removed k) (codegen_leaf emit lx n k)"
  by (auto simp: blames_def codegen_leaf_def Let_def split: sum.splits)

lemma schedule_inner_mem:
  "set (snd (schedule_inner ns (seen, sched))) \<subseteq> set sched \<union> {n \<in> set ns. is_scheduler_node n}"
  by (induction ns arbitrary: seen sched) (auto, fastforce+)

lemma scheduler_node_leaf: "is_scheduler_node n \<Longrightarrow> scheduler_leaves n = [n]"
  by (cases n) auto

lemma codegen_single_blames:
  assumes "failed_node k = None" "\<And>snodes. generate_node_schedule [node] = Inr snodes \<Longrightarrow> set snodes \<subseteq> S"
  shows "blames S (graph_removed k)
    (case generate_node_schedule [node] of Inl e \<Rightarrow> Inl (e, k) | Inr snodes \<Rightarrow> foldK (codegen_leaf emit lx) snodes k)"
proof (cases "generate_node_schedule [node]")
  case (Inl e)
  then show ?thesis using assms(1) by (simp add: blames_def)
next
  case (Inr snodes)
  then have "blames S (graph_removed k) (foldK (codegen_leaf emit lx) snodes k)"
    using assms by (intro foldK_blames) (auto intro: codegen_leaf_blames)
  then show ?thesis using Inr by simp
qed

lemma codegen_into_blames:
  "failed_node k = None \<Longrightarrow> blames (set (scheduler_leaves node)) (graph_removed k) (codegen_into emit lx rem node k)"
proof (induction emit lx rem node k rule: codegen_into.induct [case_names Loop Node Nop Extern Fused])
  case (Loop emit lx rem i ns c k)
  let ?S = "set (scheduler_leaves (CountedLoopSchedulerNode i ns c))"
  have "blames ?S (graph_removed k) (foldK (codegen_into emit lx rem) (live_nodes rem ns) k)"
  proof (rule foldK_blames [OF _ Loop.prems])
    fix x and k :: spyre_kernel assume x: "x \<in> set (live_nodes rem ns)" "failed_node k = None"
    then have "set (scheduler_leaves x) \<subseteq> ?S" by (auto simp: live_nodes_def)
    then show "blames ?S (graph_removed k) (codegen_into emit lx rem x k)"
      using Loop.IH [OF x] by (auto intro: blames_mono)
  qed
  then show ?case by (auto simp: blames_def Let_def split: sum.splits)
next
  case (Fused emit lx rem i ns k)
  have "set snodes \<subseteq> set (scheduler_leaves (FusedSchedulerNode i ns))"
    if "generate_node_schedule [FusedSchedulerNode i ns] = Inr snodes" for snodes
    using that schedule_inner_mem [of ns "[FusedSchedulerNode i ns]" "[]"]
    by (force simp: generate_node_schedule_def schedule_node_def scheduler_node_leaf)
  then show ?case using codegen_single_blames [of k "FusedSchedulerNode i ns"] Fused by simp
next
  case (Node emit lx rem i k)
  show ?case unfolding codegen_into.simps
    by (rule codegen_single_blames [OF Node]) (auto simp: generate_node_schedule_def schedule_node_def)
next
  case (Nop emit lx rem i k)
  show ?case unfolding codegen_into.simps
    by (rule codegen_single_blames [OF Nop]) (auto simp: generate_node_schedule_def schedule_node_def)
next
  case (Extern emit lx rem i k)
  show ?case unfolding codegen_into.simps
    by (rule codegen_single_blames [OF Extern]) (auto simp: generate_node_schedule_def schedule_node_def)
qed

lemma prepare_kernel_blames:
  "blames (set (scheduler_leaves node)) r (prepare_kernel emit validate lx rem node (new_kernel r))"
proof -
  let ?ns = "live_nodes rem (get_nodes node)" and ?S = "set (scheduler_leaves node)"
  have "blames ?S (graph_removed (new_kernel r)) (foldK (codegen_into emit lx rem) ?ns (new_kernel r))"
  proof (rule foldK_blames)
    fix x and k :: spyre_kernel assume "x \<in> set ?ns" "failed_node k = None"
    moreover from this(1) have "x \<in> set (get_nodes node)" by (simp add: live_nodes_def)
    then have "set (scheduler_leaves x) \<subseteq> ?S" by (cases node) auto
    ultimately show "blames ?S (graph_removed k) (codegen_into emit lx rem x k)"
      using codegen_into_blames by (blast intro: blames_mono)
  qed (simp add: new_kernel_def)
  then have "blames ?S r (foldK (codegen_into emit lx rem) ?ns (new_kernel r))" by (simp add: new_kernel_def)
  then show ?thesis
    by (auto simp: blames_def prepare_kernel_def codegen_into_kernel_def wrap_op_specs_in_loop_def Let_def
        split: sum.splits sched_node.splits)
qed

lemma prepare_bundles_blames:
  "case prepare_bundles emit validate lx rem bundles r of
     Prepared ks r' \<Rightarrow> r \<subseteq> r' \<and> map fst ks = bundles
   | Failed e failed r' \<Rightarrow> r \<subseteq> r' \<and> (\<forall>f. failed = Some f \<longrightarrow> f \<in> set (all_scheduler_nodes bundles))"
proof (induction bundles arbitrary: r)
  case (Cons b bundles)
  have pk: "blames (set (scheduler_leaves b)) r (prepare_kernel emit validate lx rem b (new_kernel r))"
    by (rule prepare_kernel_blames)
  show ?case
  proof (cases "prepare_kernel emit validate lx rem b (new_kernel r)")
    case (Inl x)
    then show ?thesis using pk by (cases x) (auto simp: blames_def all_scheduler_nodes_def)
  next
    case (Inr k)
    then have "r \<subseteq> graph_removed k" using pk by (simp add: blames_def)
    then show ?thesis using Cons.IH [of "graph_removed k"] Inr
      by (auto simp: all_scheduler_nodes_def split: attempt.splits)
  qed
qed simp

section \<open>Demotion shrinks the placement\<close>

definition registry_keyed :: "placement \<Rightarrow> bool" where
  "registry_keyed pl \<longleftrightarrow>
     list_all (\<lambda>(edge, copy, plan). edge = (source_name plan, destination_name plan)) (relayout_copies pl)"

lemma demote_shrinks: "lx_resident (demote name pl) \<subseteq> lx_resident pl"
  by (auto simp: demote_def demote_lx_relayout_group_def discard_lx_relayout_group_def)

lemma demote_keyed: "registry_keyed pl \<Longrightarrow> registry_keyed (demote name pl)"
  by (auto simp: registry_keyed_def demote_def demote_lx_relayout_group_def discard_lx_relayout_group_def list_all_iff)

lemma demote_clears:
  assumes "registry_keyed pl"
  shows "name \<notin> lx_resident (demote name pl)"
proof (cases "find (\<lambda>(edge, copy, plan). copy = name) (relayout_copies pl)")
  case None
  then show ?thesis
    by (simp add: demote_def materialized_lx_relayout_for_destination_def demote_lx_relayout_group_def discard_lx_relayout_group_def)
next
  case (Some x)
  obtain edge copy plan where x: "x = (edge, copy, plan)" by (cases x)
  then have m: "(edge, copy, plan) \<in> set (relayout_copies pl)" "copy = name"
    using Some by (auto simp: find_Some_iff dest: nth_mem)
  then have "fst edge = source_name plan" using assms by (auto simp: registry_keyed_def list_all_iff)
  then show ?thesis using m Some x
    by (force simp: demote_def materialized_lx_relayout_for_destination_def demote_lx_relayout_group_def discard_lx_relayout_group_def)
qed

lemma fold_demote:
  assumes "registry_keyed pl"
  shows "lx_resident (fold demote ns pl) \<subseteq> lx_resident pl - set ns \<and> registry_keyed (fold demote ns pl)"
  using assms
proof (induction ns arbitrary: pl)
  case (Cons n ns)
  have "lx_resident (fold demote ns (demote n pl)) \<subseteq> lx_resident (demote n pl) - set ns"
    "registry_keyed (fold demote ns (demote n pl))" using Cons.IH [OF demote_keyed [OF Cons.prems]] by auto
  then show ?case using demote_shrinks [of n pl] demote_clears [OF Cons.prems, of n] by auto
qed simp

definition prep_result ::
  "handlers \<Rightarrow> (op_entry list \<Rightarrow> unit res) \<Rightarrow> string set \<Rightarrow> sched_node list \<Rightarrow> prep_state \<Rightarrow> prep_outcome \<Rightarrow> bool" where
  "prep_result emit validate rem bundles st out \<longleftrightarrow> (case out of
     Kernels ks st' \<Rightarrow>
       lx_resident (prep_placement st') \<subseteq> lx_resident (prep_placement st) \<and>
       prepare_bundles emit validate (lx_resident (prep_placement st')) rem bundles (removed_buffers st)
         = Prepared ks (removed_buffers st')
   | Raised e st' \<Rightarrow>
       lx_resident (prep_placement st') \<subseteq> lx_resident (prep_placement st) \<and>
       (\<exists>failed r. prepare_bundles emit validate (lx_resident (prep_placement st')) rem bundles (removed_buffers st)
           = Failed e failed r \<and>
         (\<not> caught e \<or> (case failed of None \<Rightarrow> True | Some f \<Rightarrow> touched_lx_names (prep_placement st') f = [])))
   | Exhausted st' \<Rightarrow> False)"

lemma card_loses: "x \<in> A \<Longrightarrow> x \<notin> B \<Longrightarrow> B \<subseteq> A \<Longrightarrow> finite A \<Longrightarrow> card B < card A"
  by (rule psubset_card_mono) auto

lemma attempts_result:
  assumes "registry_keyed (prep_placement st)" "removed_buffers st = entry"
    "\<forall>f\<in>set (all_scheduler_nodes bundles). set (touched_lx_names (prep_placement st) f) \<subseteq> I" "finite I"
    "card (lx_resident (prep_placement st) \<inter> I) < n"
  shows "prep_result emit validate rem bundles st (prepare_attempts n emit validate rem bundles entry st)"
  using assms
proof (induction n arbitrary: st)
  case (Suc n)
  let ?pb = "prepare_bundles emit validate (lx_resident (prep_placement st)) rem bundles (removed_buffers st)"
  show ?case
  proof (cases ?pb)
    case (Prepared ks r)
    then show ?thesis by (simp add: prep_result_def)
  next
    case (Failed e failed r)
    have r: "entry \<subseteq> r" and f: "\<And>f. failed = Some f \<Longrightarrow> f \<in> set (all_scheduler_nodes bundles)"
      using prepare_bundles_blames [where r = "removed_buffers st" and bundles = bundles and emit = emit and
          validate = validate and lx = "lx_resident (prep_placement st)" and rem = rem] Failed Suc.prems(2) by auto
    then have undo: "r - (r - entry) = entry" by auto
    let ?touched = "case failed of None \<Rightarrow> [] | Some f \<Rightarrow> touched_lx_names (prep_placement st) f"
    show ?thesis
    proof (cases "caught e \<and> failed \<noteq> None \<and> ?touched \<noteq> []")
      case False
      then show ?thesis using Failed Suc.prems(2) by (auto simp: prep_result_def Let_def split: option.splits)
    next
      case True
      let ?st = "st\<lparr>removed_buffers := entry, prep_placement := fold demote ?touched (prep_placement st)\<rparr>"
      have eq: "prepare_attempts (Suc n) emit validate rem bundles entry st = prepare_attempts n emit validate rem bundles entry ?st"
        using True Failed undo by (auto simp: Let_def)
      have d: "lx_resident (prep_placement ?st) \<subseteq> lx_resident (prep_placement st) - set ?touched"
        "registry_keyed (prep_placement ?st)" using fold_demote [OF Suc.prems(1), of ?touched] by simp_all
      have t: "set ?touched \<subseteq> lx_resident (prep_placement st) \<inter> I" "set ?touched \<noteq> {}"
        using True f Suc.prems(3) by (auto simp: touched_lx_names_def filter_empty_conv)
      obtain x where x: "x \<in> set ?touched" using t(2) by auto
      then have "x \<in> lx_resident (prep_placement st) \<inter> I" "x \<notin> lx_resident (prep_placement ?st) \<inter> I"
        using d(1) t(1) by auto
      moreover have "lx_resident (prep_placement ?st) \<inter> I \<subseteq> lx_resident (prep_placement st) \<inter> I"
        using d(1) by auto
      ultimately have "card (lx_resident (prep_placement ?st) \<inter> I) < card (lx_resident (prep_placement st) \<inter> I)"
        using Suc.prems(4) by (intro card_loses) auto
      then have c: "card (lx_resident (prep_placement ?st) \<inter> I) < n" using Suc.prems(5) by simp
      have tn: "\<forall>f\<in>set (all_scheduler_nodes bundles). set (touched_lx_names (prep_placement ?st) f) \<subseteq> I"
        using Suc.prems(3) d(1) by (fastforce simp: touched_lx_names_def)
      have "prep_result emit validate rem bundles ?st (prepare_attempts n emit validate rem bundles entry ?st)"
        by (rule Suc.IH [OF d(2) _ tn Suc.prems(4) c]) simp
      then show ?thesis unfolding eq using d(1) Suc.prems(2)
        by (auto simp: prep_result_def split: prep_outcome.splits)
    qed
  qed
qed simp

text \<open>
  C27: Kernel preparation reaches its fixed point within its bound.  With one relayout registry entry per
  plan edge, the attempts end after at most one more than there are touched LX buffers: the pass
  never raises its own ``did not reach its monotone demotion fixed point''.  It returns kernels that were
  all prepared against the final placement, from the removed-buffer set at entry, or re-raises a failure
  that the final placement reproduces and that no demotion could cure.  The placement only shrinks.
\<close>

theorem preparation_reaches_fixed_point:
  assumes "registry_keyed (prep_placement st)"
  shows "(\<exists>ks st'. prepare_spyre_kernels emit validate backend rem nodes st = Inr (ks, st') \<and>
            lx_resident (prep_placement st') \<subseteq> lx_resident (prep_placement st) \<and>
            prepare_bundles emit validate (lx_resident (prep_placement st')) rem (spyre_bundles backend nodes) (removed_buffers st)
              = Prepared ks (removed_buffers st')) \<or>
         (\<exists>e st' failed r. prepare_spyre_kernels emit validate backend rem nodes st = Inl (e, st') \<and>
            lx_resident (prep_placement st') \<subseteq> lx_resident (prep_placement st) \<and>
            prepare_bundles emit validate (lx_resident (prep_placement st')) rem (spyre_bundles backend nodes) (removed_buffers st)
              = Failed e failed r \<and>
            (\<not> caught e \<or> (case failed of None \<Rightarrow> True | Some f \<Rightarrow> touched_lx_names (prep_placement st') f = [])))"
proof -
  let ?I = "initial_lx_names (prep_placement st) (spyre_bundles backend nodes)"
  let ?out = "prepare_attempts (card ?I + 1) emit validate rem (spyre_bundles backend nodes) (removed_buffers st) st"
  have fin: "finite ?I" by (simp add: initial_lx_names_def)
  have "\<forall>f\<in>set (all_scheduler_nodes (spyre_bundles backend nodes)). set (touched_lx_names (prep_placement st) f) \<subseteq> ?I"
    by (auto simp: initial_lx_names_def)
  moreover have "card (lx_resident (prep_placement st) \<inter> ?I) < card ?I + 1"
    using card_mono [OF fin, of "lx_resident (prep_placement st) \<inter> ?I"] by simp
  ultimately have r: "prep_result emit validate rem (spyre_bundles backend nodes) st ?out"
    using attempts_result [OF assms(1) refl _ fin] by blast
  have p: "prepare_spyre_kernels emit validate backend rem nodes st =
    (case ?out of Kernels ks st' \<Rightarrow> Inr (ks, st') | Raised e st' \<Rightarrow> Inl (e, st') | Exhausted st' \<Rightarrow> Inl (RuntimeError, st'))"
    by (simp add: prepare_spyre_kernels_def Let_def)
  show ?thesis
  proof (cases ?out)
    case (Kernels ks st')
    then show ?thesis using r p by (simp add: prep_result_def)
  next
    case (Raised e st')
    then show ?thesis using r p by (simp add: prep_result_def)
  next
    case (Exhausted st')
    then show ?thesis using r by (simp add: prep_result_def)
  qed
qed

text \<open>
  A prepared kernel emits the bundle's loop nest.  Its scheduled operations are the live operations
  of the bundle in order, and its operation specs, flattened, are the specs the handlers produced for
  those operations, each under exactly the counted loops that enclose its operation in the
  scheduler's tree.  Operations the scheduler removed contribute nothing.
\<close>

theorem prepared_kernel_emits_loop_nest:
  assumes "prepare_kernel emit validate lx rem node (new_kernel r) = Inr k"
  shows "scheduled_nodes k = map fst (bundle_nest rem node) \<and>
    concat (map spec_nest (op_specs k)) = emitted_specs emit lx [] (bundle_nest rem node)"
  by (rule prepare_adds [OF assms])

section \<open>Layout restores\<close>

fun restore_tag :: "sched_node \<Rightarrow> (string \<times> string) option" where
  "restore_tag (SchedulerNode i) = Option.bind (ir_node i) emit_set_layout"
| "restore_tag n = None"

definition collect_restore :: "sched_node \<Rightarrow> string set \<times> (string \<times> string) list \<Rightarrow> string set \<times> (string \<times> string) list" where
  "collect_restore snode st =
     (case restore_tag snode of
        None \<Rightarrow> st
      | Some tag \<Rightarrow> if fst tag \<in> fst st then st else (insert (fst tag) (fst st), snd st @ [tag]))"

definition collect_layout_restores :: "string set \<Rightarrow> sched_node list \<Rightarrow> string set \<times> (string \<times> string) list" where
  "collect_layout_restores emitted node_schedule = fold collect_restore node_schedule (emitted, [])"

fun restores_of_kernels :: "string set \<Rightarrow> sched_node list list \<Rightarrow> (string \<times> string) list" where
  "restores_of_kernels emitted [] = []"
| "restores_of_kernels emitted (ns # kernels) =
     (case collect_layout_restores emitted ns of (emitted', restores) \<Rightarrow>
        restores @ restores_of_kernels emitted' kernels)"

definition tags :: "sched_node list \<Rightarrow> string set" where
  "tags ns = fst ` set (List.map_filter restore_tag ns)"

lemma tags_simps [simp]:
  "tags [] = {}" "tags (n # ns) = (case restore_tag n of None \<Rightarrow> {} | Some t \<Rightarrow> {fst t}) \<union> tags ns"
  by (auto simp: tags_def map_filter_def split: option.splits)

lemma collect_spec:
  assumes "fold collect_restore ns (E, R) = (E', R')"
  shows "\<exists>new. R' = R @ new \<and> E' = E \<union> tags ns \<and> fst ` set new = tags ns - E \<and> distinct (map fst new)"
  using assms
proof (induction ns arbitrary: E R)
  case (Cons n ns)
  show ?case
  proof (cases "restore_tag n")
    case None
    then show ?thesis using Cons by (simp add: collect_restore_def)
  next
    case (Some t)
    show ?thesis
    proof (cases "fst t \<in> E")
      case True
      then have "fold collect_restore ns (E, R) = (E', R')" "tags (n # ns) - E = tags ns - E" "E \<union> tags (n # ns) = E \<union> tags ns"
        using Cons.prems Some True by (auto simp: collect_restore_def [of n])
      then show ?thesis using Cons.IH by metis
    next
      case False
      then have "fold collect_restore ns (insert (fst t) E, R @ [t]) = (E', R')"
        using Cons.prems Some by (simp add: collect_restore_def [of n])
      then obtain new where n: "R' = (R @ [t]) @ new" "E' = insert (fst t) E \<union> tags ns"
        "fst ` set new = tags ns - insert (fst t) E" "distinct (map fst new)" using Cons.IH by blast
      have "R' = R @ (t # new)" "fst ` set (t # new) = tags (n # ns) - E" "distinct (map fst (t # new))" "E' = E \<union> tags (n # ns)"
        using n False Some by auto
      then show ?thesis by blast
    qed
  qed
qed simp

lemma restores_spec:
  "distinct (map fst (restores_of_kernels E kernels)) \<and>
   fst ` set (restores_of_kernels E kernels) = tags (concat kernels) - E"
proof (induction kernels arbitrary: E)
  case (Cons ns kernels)
  obtain E' R where c: "collect_layout_restores E ns = (E', R)" by fastforce
  then have s: "E' = E \<union> tags ns" "fst ` set R = tags ns - E" "distinct (map fst R)"
    using collect_spec [of ns E "[]" E' R] by (auto simp: collect_layout_restores_def)
  have "tags (ns @ concat kernels) = tags ns \<union> tags (concat kernels)" by (induction ns) auto
  moreover have "fst ` set (restores_of_kernels E (ns # kernels)) = fst ` set R \<union> fst ` set (restores_of_kernels E' kernels)"
    using c by (simp add: image_Un)
  moreover have "map fst (restores_of_kernels E (ns # kernels)) = map fst R @ map fst (restores_of_kernels E' kernels)"
    using c by simp
  ultimately show ?case using Cons.IH [of E'] s by auto
qed simp

text \<open>
  Every tagged layout is restored exactly once over the whole program: whatever the kernels and
  however often a target is tagged, the restores emitted after all kernels name each tagged target once
  and nothing else.
\<close>

theorem layouts_restored_once:
  "distinct (map fst (restores_of_kernels {} kernels)) \<and>
   fst ` set (restores_of_kernels {} kernels) =
     {target. \<exists>ns\<in>set kernels. \<exists>n\<in>set ns. \<exists>layout. restore_tag n = Some (target, layout)}"
proof -
  have "tags (concat kernels) = {target. \<exists>ns\<in>set kernels. \<exists>n\<in>set ns. \<exists>layout. restore_tag n = Some (target, layout)}"
    by (auto simp: tags_def map_filter_def) force+
  then show ?thesis using restores_spec [of "{}" kernels] by simp
qed

subsection \<open>A bundle whose first placement is refused\<close>

text \<open>
  The handlers refuse an operation that touches \<open>copy\<close> while it is in LX; \<open>copy\<close> is the relayout copy
  of \<open>src\<close>, so both leave LX and the second attempt succeeds.
\<close>

definition demo_leaf :: "string \<Rightarrow> string list \<Rightarrow> sched_node" where
  "demo_leaf name touches = SchedulerNode \<lparr>node_name = name, node_device = Some ''spyre'', buffer_names = [name],
     unmet_dependencies = [], mem_deps = touches,
     ir_node = Some \<lparr>op_name = name, op_class = ComputedBuffer, is_no_op = False, op_device = Some ''spyre'',
       loop_info = None, emit_set_layout = None\<rparr>\<rparr>"

definition demo_bundle :: sched_node where
  "demo_bundle = FusedSchedulerNode \<lparr>node_name = ''fused'', node_device = Some ''spyre'', buffer_names = [],
     unmet_dependencies = [], mem_deps = [], ir_node = None\<rparr>
     [demo_leaf ''p'' [''src''],
      CountedLoopSchedulerNode \<lparr>node_name = ''loop'', node_device = Some ''spyre'', buffer_names = [],
        unmet_dependencies = [], mem_deps = [], ir_node = None\<rparr> [demo_leaf ''q'' [''copy'', ''out'']] 4]"

definition demo_emit :: handlers where
  "demo_emit lx hist n =
     ({}, if list_ex (\<lambda>name. name = ''copy'' \<and> name \<in> lx) (mem_deps (info_of n)) then Inl Unsupported else Inr [get_name n])"

definition demo_state :: prep_state where
  "demo_state = \<lparr>prep_placement = \<lparr>lx_resident = {''src'', ''copy'', ''out'', ''other''},
       relayout_copies = [((''src'', ''dst''), ''copy'', \<lparr>source_name = ''src'', destination_name = ''dst''\<rparr>)]\<rparr>,
     removed_buffers = {}\<rparr>"

lemma demo_prepared:
  "(case prepare_spyre_kernels demo_emit (\<lambda>_. Inr ()) (\<lambda>_. True) {} [demo_bundle] demo_state of
      Inl (e, st') \<Rightarrow> (None, {})
    | Inr (ks, st') \<Rightarrow> (Some (map (\<lambda>(b, k). op_specs k) ks), lx_resident (prep_placement st'))) =
   (Some [[OpSpec ''p'', LoopSpec 4 [OpSpec ''q'']]], {''other''})"
  by code_simp

theorem preparation_reaches_fixed_point_witness:
  "registry_keyed (prep_placement demo_state) \<and>
   (\<exists>ks st'. prepare_spyre_kernels demo_emit (\<lambda>_. Inr ()) (\<lambda>_. True) {} [demo_bundle] demo_state = Inr (ks, st') \<and>
      lx_resident (prep_placement st') = {''other''} \<and>
      prepare_bundles demo_emit (\<lambda>_. Inr ()) {''other''} {} [demo_bundle] {} = Prepared ks (removed_buffers st'))"
proof -
  have k: "registry_keyed (prep_placement demo_state)" by code_simp
  have b: "spyre_bundles (\<lambda>_. True) [demo_bundle] = [demo_bundle]" "removed_buffers demo_state = {}"
    by (simp_all add: spyre_bundles_def demo_bundle_def demo_state_def)
  obtain ks st' where r: "prepare_spyre_kernels demo_emit (\<lambda>_. Inr ()) (\<lambda>_. True) {} [demo_bundle] demo_state = Inr (ks, st')"
    "lx_resident (prep_placement st') = {''other''}"
    using demo_prepared by (auto split: sum.splits)
  then show ?thesis
    using preparation_reaches_fixed_point [OF k, of demo_emit "\<lambda>_. Inr ()" "\<lambda>_. True" "{}" "[demo_bundle]"] k
    by (auto simp: b simp del: prepare_bundles.simps)
qed

definition demo_kernel :: spyre_kernel where
  "demo_kernel = \<lparr>op_specs = [OpSpec ''p'', LoopSpec 4 [OpSpec ''q'']],
     scheduled_nodes = [demo_leaf ''p'' [''src''], demo_leaf ''q'' [''copy'', ''out'']], failed_node = None, graph_removed = {}\<rparr>"

theorem prepared_kernel_emits_loop_nest_witness:
  "prepare_kernel demo_emit (\<lambda>_. Inr ()) {} {} demo_bundle (new_kernel {}) = Inr demo_kernel \<and>
   emitted_specs demo_emit {} [] (bundle_nest {} demo_bundle) = [(''p'', []), (''q'', [4])]"
proof -
  have p: "prepare_kernel demo_emit (\<lambda>_. Inr ()) {} {} demo_bundle (new_kernel {}) = Inr demo_kernel" by code_simp
  have "concat (map spec_nest (op_specs demo_kernel)) = [(''p'', []), (''q'', [4])]" by code_simp
  then show ?thesis using prepared_kernel_emits_loop_nest [OF p] p by simp
qed

end
