(* ===== verification/Tiling_Space.thy ===== *)
theory Tiling_Space
  imports Plan_Solver "HOL-Library.Product_Lexorder" "HOL-Library.List_Lexorder"
begin

text \<open>
  The space of coarse tilings of one operation (\<open>TilingSpace\<close>, \<open>canonical_tiling\<close> and
  \<open>_finalize_options\<close> of \<open>torch_spyre/_inductor/wsr/enumerate_tilings.py\<close>): membership, enumeration and the
  moves of a search, over the tile axes of \<open>Plan_Solver\<close>.  A dictionary is an association list with
  distinct keys.
\<close>

record TilingSpace =
  max_dims :: int
  output_counts :: "(int \<times> int list) list"

definition output_dims :: "TilingSpace \<Rightarrow> int list" where
  "output_dims sp = sort (map fst (output_counts sp))"

definition is_empty_space :: "TilingSpace \<Rightarrow> bool" where
  "is_empty_space sp = (output_counts sp = [])"

definition counts :: "TilingSpace \<Rightarrow> int \<Rightarrow> int list" where
  "counts sp dim = (case map_of (output_counts sp) dim of None \<Rightarrow> [] | Some cs \<Rightarrow> cs)"

definition admits :: "TilingSpace \<Rightarrow> TileSpec \<Rightarrow> bool" where
  "admits sp spec =
     (if is_untiled spec then True
      else if list_ex axis_is_reduction spec then False
      else if list_ex (\<lambda>axis. axis_count axis \<notin> set (counts sp (host_dim axis))) spec then False
      else if list_ex (\<lambda>(a, b). host_dim a \<ge> host_dim b) (zip spec (tl spec)) then False
      else int (depth spec) \<le> max_dims sp)"

fun combinations :: "nat \<Rightarrow> 'a list \<Rightarrow> 'a list list" where
  "combinations 0 xs = [[]]"
| "combinations (Suc n) [] = []"
| "combinations (Suc n) (x # xs) = map ((#) x) (combinations n xs) @ combinations (Suc n) xs"

definition output_axis :: "int \<Rightarrow> int \<Rightarrow> TileAxis" where
  "output_axis dim c = \<lparr>host_dim = dim, axis_count = c, axis_is_reduction = False\<rparr>"

definition enumerate_specs :: "TilingSpace \<Rightarrow> TileSpec list" where
  "enumerate_specs sp =
     (let per_dim = map (\<lambda>dim. (dim, counts sp dim)) (output_dims sp)
      in [] # concat (map (\<lambda>depth. concat (map (\<lambda>combo.
           map (\<lambda>cs. map2 output_axis (map fst combo) cs) (product_lists (map snd combo)))
           (combinations depth per_dim)))
           [1..<Suc (nat (min (max_dims sp) (int (length per_dim))))]))"

definition canonical_tiling :: "TileSpec \<Rightarrow> TileSpec" where
  "canonical_tiling spec = sort_key (\<lambda>a. (axis_is_reduction a, host_dim a)) spec"

definition remdups_first :: "'a list \<Rightarrow> 'a list" where
  "remdups_first xs = rev (remdups (rev xs))"

definition remove_level :: "nat \<Rightarrow> TileSpec \<Rightarrow> TileSpec" where
  "remove_level i axes = take i axes @ drop (Suc i) axes"

definition neighbours :: "TilingSpace \<Rightarrow> TileSpec \<Rightarrow> TileSpec list" where
  "neighbours sp spec =
     (let changed = concat (map (\<lambda>i. let axis = spec ! i in
             map (\<lambda>c. spec[i := axis\<lparr>axis_count := c\<rparr>])
               (filter (\<lambda>c. c \<noteq> axis_count axis) (counts sp (host_dim axis)))) [0..<length spec]);
          fewer = map (\<lambda>i. remove_level i spec) [0..<length spec];
          tiled = map host_dim (filter (\<lambda>a. \<not> axis_is_reduction a) spec);
          more = concat (map (\<lambda>dim. map (\<lambda>c. spec @ [output_axis dim c]) (counts sp dim))
             (filter (\<lambda>dim. dim \<notin> set tiled) (output_dims sp)))
      in filter (\<lambda>candidate. candidate \<noteq> spec \<and> admits sp candidate)
           (remdups_first (map canonical_tiling (changed @ fewer @ more))))"

definition canonical_key :: "TileSpec \<Rightarrow> nat \<times> (bool \<times> int \<times> int) list" where
  "canonical_key spec = (depth spec, map (\<lambda>a. (axis_is_reduction a, host_dim a, axis_count a)) spec)"

definition finalize_options :: "TileSpec list \<Rightarrow> int option \<Rightarrow> TileSpec list" where
  "finalize_options options max_options =
     (let rest = sort_key canonical_key (filter (\<lambda>s. \<not> is_untiled s) (remdups_first options));
          result = [] # rest
      in case max_options of
           None \<Rightarrow> result
         | Some n \<Rightarrow> if int (length result) > n
                     then (if 0 \<le> n then take (nat n) result else take (nat (int (length result) + n)) result)
                     else result)"

subsection \<open>Well-formed spaces\<close>

definition space_ok :: "TilingSpace \<Rightarrow> bool" where
  "space_ok sp \<longleftrightarrow> distinct (map fst (output_counts sp)) \<and> list_all (\<lambda>(d, cs). distinct cs) (output_counts sp)"

lemma counts_mem: "c \<in> set (counts sp d) \<Longrightarrow> d \<in> set (output_dims sp)"
  by (cases "map_of (output_counts sp) d") (auto simp: counts_def output_dims_def dest!: map_of_SomeD intro: rev_image_eqI)

lemma output_dims_sorted: "space_ok sp \<Longrightarrow> sorted (output_dims sp) \<and> distinct (output_dims sp)"
  by (simp add: space_ok_def output_dims_def)

text \<open>An admitted spec, declaratively: output levels with legal counts on strictly ascending dims.\<close>

definition legal_level :: "TilingSpace \<Rightarrow> TileAxis \<Rightarrow> bool" where
  "legal_level sp a \<longleftrightarrow> \<not> axis_is_reduction a \<and> axis_count a \<in> set (counts sp (host_dim a))"

lemma strict_zip:
  "\<not> list_ex (\<lambda>(a, b). host_dim a \<ge> host_dim b) (zip spec (tl spec)) \<longleftrightarrow> sorted_wrt (<) (map host_dim spec)"
proof (induction spec)
  case (Cons a spec)
  show ?case
  proof (cases spec)
    case (Cons b rest)
    then show ?thesis using Cons.IH by (auto simp: not_le dest: order.strict_trans)
  qed simp
qed simp

lemma admits_iff:
  "admits sp spec \<longleftrightarrow> spec = [] \<or>
     (list_all (legal_level sp) spec \<and> sorted_wrt (<) (map host_dim spec) \<and> int (length spec) \<le> max_dims sp)"
  using strict_zip [of spec]
  by (auto simp: admits_def is_untiled_def depth_def legal_level_def list_all_iff list_ex_iff)

lemma output_axis_eq: "\<not> axis_is_reduction a \<Longrightarrow> output_axis (host_dim a) (axis_count a) = a"
  by (cases a) (simp add: output_axis_def)

subsection \<open>Enumeration is membership\<close>

lemma combinations_complete:
  assumes "sorted_wrt (<) ds" "set ds \<subseteq> set xs" "sorted_wrt (<) xs"
  shows "map f ds \<in> set (combinations (length ds) (map f (xs :: int list)))"
  using assms
proof (induction xs arbitrary: ds)
  case (Cons x xs)
  show ?case
  proof (cases ds)
    case (Cons d ds')
    have gt: "\<forall>y\<in>set xs. x < y" using Cons.prems(3) by simp
    show ?thesis
    proof (cases "d = x")
      case True
      then have "set ds' \<subseteq> set xs" using Cons.prems(1,2) \<open>ds = d # ds'\<close> by auto
      then show ?thesis using Cons.IH [of ds'] Cons.prems \<open>ds = d # ds'\<close> True by simp
    next
      case False
      then have "x < d" using Cons.prems(2) \<open>ds = d # ds'\<close> gt by auto
      then have "x \<notin> set ds" using Cons.prems(1) \<open>ds = d # ds'\<close> by auto
      then have "set ds \<subseteq> set xs" using Cons.prems(2) by auto
      then show ?thesis using Cons.IH [of ds] Cons.prems \<open>ds = d # ds'\<close> by simp
    qed
  qed simp
qed simp

lemma combinations_sound:
  assumes "combo \<in> set (combinations n (map f xs))" "sorted_wrt (<) (xs :: int list)"
  shows "\<exists>ds. combo = map f ds \<and> length ds = n \<and> sorted_wrt (<) ds \<and> set ds \<subseteq> set xs"
  using assms
proof (induction n "map f xs" arbitrary: combo xs rule: combinations.induct)
  case (1)
  then show ?case by simp
next
  case (2 n)
  then show ?case by simp
next
  case (3 n y ys)
  then obtain x xs' where xs: "xs = x # xs'" "y = f x" "ys = map f xs'" by (cases xs) auto
  have s: "sorted_wrt (<) xs'" "\<forall>z\<in>set xs'. x < z" using 3(5) xs by auto
  consider (head) c where "combo = y # c" "c \<in> set (combinations n ys)" | (later) "combo \<in> set (combinations (Suc n) ys)"
    using 3(4) 3(3) [symmetric] by auto
  then show ?case
  proof cases
    case head
    then obtain ds where "c = map f ds" "length ds = n" "sorted_wrt (<) ds" "set ds \<subseteq> set xs'"
      using 3(1) [OF xs(3) _ s(1)] xs(3) by auto
    then show ?thesis using head xs s(2) by (intro exI [of _ "x # ds"]) auto
  next
    case later
    then obtain ds where "combo = map f ds" "length ds = Suc n" "sorted_wrt (<) ds" "set ds \<subseteq> set xs'"
      using 3(2) [OF xs(3) _ s(1)] xs(3) by auto
    then show ?thesis using xs by auto
  qed
qed

lemma dims_strict: "space_ok sp \<Longrightarrow> sorted_wrt (<) (output_dims sp)"
  using output_dims_sorted [of sp] by (simp add: strict_sorted_iff)

lemma depth_range: "set [1..<Suc (nat (min m (int l)))] = {n. 1 \<le> n \<and> int n \<le> m \<and> n \<le> l}"
  by auto

lemma enumerate_mem:
  "spec \<in> set (enumerate_specs sp) \<longleftrightarrow> spec = [] \<or>
    (\<exists>n. 1 \<le> n \<and> int n \<le> max_dims sp \<and> n \<le> length (output_dims sp) \<and>
       (\<exists>combo\<in>set (combinations n (map (\<lambda>dim. (dim, counts sp dim)) (output_dims sp))).
          \<exists>cs\<in>set (product_lists (map snd combo)). spec = map2 output_axis (map fst combo) cs))"
  unfolding enumerate_specs_def Let_def set_simps set_concat set_map depth_range length_map by auto

lemma enumerate_iff:
  assumes "space_ok sp"
  shows "spec \<in> set (enumerate_specs sp) \<longleftrightarrow> admits sp spec"
proof -
  let ?f = "\<lambda>dim. (dim, counts sp dim)" and ?ds = "output_dims sp"
  have sd: "sorted_wrt (<) ?ds" by (rule dims_strict [OF assms])
  show ?thesis
  proof
    assume "spec \<in> set (enumerate_specs sp)"
    then consider "spec = []" | n combo cs where "n \<ge> 1" "int n \<le> max_dims sp" "combo \<in> set (combinations n (map ?f ?ds))"
      "cs \<in> set (product_lists (map snd combo))" "spec = map2 output_axis (map fst combo) cs"
      unfolding enumerate_mem by blast
    then show "admits sp spec"
    proof cases
      case 1
      then show ?thesis by (simp add: admits_iff)
    next
      case (2 n combo cs)
      obtain ds where ds: "combo = map ?f ds" "length ds = n" "sorted_wrt (<) ds"
        using combinations_sound [OF 2(3) sd] by blast
      have l: "list_all2 (\<lambda>c d. c \<in> set (counts sp d)) cs ds"
        using 2(4) by (simp add: ds(1) product_lists_set list_all2_map2 comp_def)
      have "spec = map2 output_axis ds cs" using 2(5) ds(1) by (simp add: comp_def)
      moreover have "map host_dim (map2 output_axis ds cs) = ds" "length cs = length ds"
        using l by (auto simp: list_all2_conv_all_nth output_axis_def intro!: nth_equalityI)
      moreover have "list_all (legal_level sp) (map2 output_axis ds cs)"
        using l by (auto simp: list_all_iff set_zip list_all2_conv_all_nth legal_level_def output_axis_def)
      ultimately show ?thesis using ds 2(2) by (simp add: admits_iff)
    qed
  next
    assume a: "admits sp spec"
    show "spec \<in> set (enumerate_specs sp)"
    proof (cases "spec = []")
      case False
      let ?d = "map host_dim spec" and ?c = "map axis_count spec"
      have l: "list_all (legal_level sp) spec" "sorted_wrt (<) ?d" "int (length spec) \<le> max_dims sp"
        using a False by (simp_all add: admits_iff)
      have sub: "set ?d \<subseteq> set ?ds" using l(1) counts_mem by (fastforce simp: list_all_iff legal_level_def)
      have c: "map ?f ?d \<in> set (combinations (length spec) (map ?f ?ds))"
        using combinations_complete [OF l(2) sub sd, of ?f] by simp
      have "card (set ?d) \<le> card (set ?ds)" using sub by (intro card_mono) auto
      then have "length spec \<le> length ?ds"
        using l(2) sd by (metis distinct_card length_map strict_sorted_iff)
      moreover have "?c \<in> set (product_lists (map snd (map ?f ?d)))"
        using l(1) by (auto simp: product_lists_set list_all2_conv_all_nth list_all_length legal_level_def)
      moreover have "spec = map2 output_axis (map fst (map ?f ?d)) ?c"
        using l(1) by (auto simp: list_all_length legal_level_def output_axis_eq intro!: nth_equalityI)
      ultimately show ?thesis unfolding enumerate_mem using False c l(3)
        by (intro disjI2 exI [of _ "length spec"] conjI bexI [of _ "map ?f ?d"] bexI [of _ ?c]) (auto simp: Suc_le_eq)
    qed (simp add: enumerate_mem)
  qed
qed

subsection \<open>Canonical order\<close>

lemma canonical_mset: "mset (canonical_tiling spec) = mset spec"
  by (simp add: canonical_tiling_def)

lemma insort_key_agree:
  assumes "\<forall>a\<in>insert x (set xs). \<not> axis_is_reduction a"
  shows "insort_key (\<lambda>a. (axis_is_reduction a, host_dim a)) x xs = insort_key host_dim x xs"
  using assms by (induction xs) auto

lemma canonical_output: "\<forall>a\<in>set spec. \<not> axis_is_reduction a \<Longrightarrow> canonical_tiling spec = sort_key host_dim spec"
proof -
  have "sort_key (\<lambda>a. (axis_is_reduction a, host_dim a)) spec = sort_key host_dim spec"
    if "\<forall>a\<in>set spec. \<not> axis_is_reduction a" for spec
    using that by (induction spec) (auto simp: insort_key_agree)
  then show "\<forall>a\<in>set spec. \<not> axis_is_reduction a \<Longrightarrow> ?thesis" by (simp add: canonical_tiling_def)
qed

definition strict :: "TileSpec \<Rightarrow> bool" where
  "strict spec \<longleftrightarrow> (\<forall>a\<in>set spec. \<not> axis_is_reduction a) \<and> sorted_wrt (<) (map host_dim spec)"

lemma admits_strict: "admits sp spec \<Longrightarrow> strict spec"
  by (auto simp: admits_iff strict_def list_all_iff legal_level_def)

lemma strict_canonical: "strict spec \<Longrightarrow> canonical_tiling spec = spec"
  by (simp add: canonical_output strict_def sort_key_id_if_sorted strict_sorted_iff)

lemma strict_filter: "strict spec \<Longrightarrow> strict (filter P spec)"
  unfolding strict_def sorted_wrt_map by (auto intro: sorted_wrt_filter)

lemma strict_unique: "strict xs \<Longrightarrow> strict ys \<Longrightarrow> set xs = set ys \<Longrightarrow> xs = ys"
proof (induction xs arbitrary: ys)
  case (Cons x xs)
  then obtain y ys' where ys: "ys = y # ys'" by (cases ys) auto
  have xl: "\<forall>a\<in>set xs. host_dim x < host_dim a" using Cons.prems(1) by (simp add: strict_def)
  have yl: "\<forall>a\<in>set ys'. host_dim y < host_dim a" using Cons.prems(2) ys by (simp add: strict_def)
  have "x = y"
  proof (rule ccontr)
    assume "x \<noteq> y"
    then have "x \<in> set ys'" "y \<in> set xs" using Cons.prems(3) ys by auto
    then show False using xl yl by force
  qed
  moreover have "set xs = set ys'" using Cons.prems(3) ys \<open>x = y\<close> xl yl by auto
  ultimately show ?case using Cons.IH [of ys'] Cons.prems ys by (auto simp: strict_def)
qed simp

lemma strict_split:
  "strict s \<Longrightarrow> h \<in> host_dim ` set s \<Longrightarrow>
     \<exists>a. host_dim a = h \<and> s = filter (\<lambda>x. host_dim x < h) s @ [a] @ filter (\<lambda>x. h < host_dim x) s"
proof (induction s)
  case (Cons a s)
  have gt: "\<forall>x\<in>set s. host_dim a < host_dim x" and st: "strict s" using Cons.prems(1) by (auto simp: strict_def)
  show ?case
  proof (cases "host_dim a = h")
    case True
    then have "filter (\<lambda>x. host_dim x < h) s = []" "filter (\<lambda>x. h < host_dim x) s = s"
      using gt by (auto simp: filter_empty_conv filter_id_conv)
    then show ?thesis using True by (intro exI [of _ a]) auto
  next
    case False
    then have m: "h \<in> host_dim ` set s" using Cons.prems(2) by auto
    then have "host_dim a < h" using gt by auto
    then show ?thesis using Cons.IH [OF st m] by auto
  qed
qed simp

subsection \<open>Neighbours\<close>

definition others :: "int \<Rightarrow> TileSpec \<Rightarrow> TileSpec" where
  "others h spec = filter (\<lambda>a. host_dim a \<noteq> h) spec"

lemma remdups_first_set [simp]: "set (remdups_first xs) = set xs"
  by (simp add: remdups_first_def)

lemma remdups_first_distinct [simp]: "distinct (remdups_first xs)"
  by (simp add: remdups_first_def)

lemma others_canonical: "strict s \<Longrightarrow> others h c = others h s \<Longrightarrow> others h (canonical_tiling c) = others h s"
  using strict_canonical [OF strict_filter, of s "\<lambda>a. host_dim a \<noteq> h"]
  by (simp add: others_def canonical_tiling_def filter_sort)

lemma others_update: "i < length s \<Longrightarrow> host_dim v = host_dim (s ! i) \<Longrightarrow> others (host_dim (s ! i)) (s[i := v]) = others (host_dim (s ! i)) s"
  by (subst (3) id_take_nth_drop [of i s]) (simp_all add: others_def upd_conv_take_nth_drop)

lemma others_remove: "i < length s \<Longrightarrow> others (host_dim (s ! i)) (remove_level i s) = others (host_dim (s ! i)) s"
  by (subst (3) id_take_nth_drop [of i s]) (simp_all add: others_def remove_level_def)

lemma neighbours_mem:
  "t \<in> set (neighbours sp s) \<longleftrightarrow> t \<noteq> s \<and> admits sp t \<and>
     ((\<exists>i<length s. \<exists>c\<in>set (counts sp (host_dim (s ! i))). c \<noteq> axis_count (s ! i) \<and>
          t = canonical_tiling (s[i := (s ! i)\<lparr>axis_count := c\<rparr>])) \<or>
      (\<exists>i<length s. t = canonical_tiling (remove_level i s)) \<or>
      (\<exists>dim\<in>set (output_dims sp). \<exists>c\<in>set (counts sp dim).
          dim \<notin> host_dim ` {a \<in> set s. \<not> axis_is_reduction a} \<and> t = canonical_tiling (s @ [output_axis dim c])))"
proof -
  have 1: "x \<in> set (concat (map (\<lambda>i. map (\<lambda>c. s[i := (s ! i)\<lparr>axis_count := c\<rparr>])
      (filter (\<lambda>c. c \<noteq> axis_count (s ! i)) (counts sp (host_dim (s ! i))))) [0..<length s])) \<longleftrightarrow>
    (\<exists>i<length s. \<exists>c\<in>set (counts sp (host_dim (s ! i))). c \<noteq> axis_count (s ! i) \<and> x = s[i := (s ! i)\<lparr>axis_count := c\<rparr>])" for x
    by auto
  have 2: "x \<in> set (map (\<lambda>i. remove_level i s) [0..<length s]) \<longleftrightarrow> (\<exists>i<length s. x = remove_level i s)" for x
    by auto
  have 3: "x \<in> set (concat (map (\<lambda>dim. map (\<lambda>c. s @ [output_axis dim c]) (counts sp dim))
      (filter (\<lambda>dim. dim \<notin> set (map host_dim (filter (\<lambda>a. \<not> axis_is_reduction a) s))) (output_dims sp)))) \<longleftrightarrow>
    (\<exists>dim\<in>set (output_dims sp). \<exists>c\<in>set (counts sp dim).
       dim \<notin> host_dim ` {a \<in> set s. \<not> axis_is_reduction a} \<and> x = s @ [output_axis dim c])" for x
    by auto
  have "t \<in> set (neighbours sp s) \<longleftrightarrow> t \<noteq> s \<and> admits sp t \<and>
    (\<exists>x. (x \<in> set (concat (map (\<lambda>i. map (\<lambda>c. s[i := (s ! i)\<lparr>axis_count := c\<rparr>])
      (filter (\<lambda>c. c \<noteq> axis_count (s ! i)) (counts sp (host_dim (s ! i))))) [0..<length s])) \<or>
      x \<in> set (map (\<lambda>i. remove_level i s) [0..<length s]) \<or>
      x \<in> set (concat (map (\<lambda>dim. map (\<lambda>c. s @ [output_axis dim c]) (counts sp dim))
      (filter (\<lambda>dim. dim \<notin> set (map host_dim (filter (\<lambda>a. \<not> axis_is_reduction a) s))) (output_dims sp))))) \<and>
      t = canonical_tiling x)"
    unfolding neighbours_def Let_def set_filter remdups_first_set set_map [of canonical_tiling] set_append by blast
  then show ?thesis unfolding 1 2 3 by blast
qed

lemma neighbours_sound:
  assumes "strict s" "t \<in> set (neighbours sp s)"
  shows "\<exists>h. others h t = others h s"
proof -
  from assms(2) consider
      i c where "i < length s" "t = canonical_tiling (s[i := (s ! i)\<lparr>axis_count := c\<rparr>])"
    | i where "i < length s" "t = canonical_tiling (remove_level i s)"
    | d c where "t = canonical_tiling (s @ [output_axis d c])"
    unfolding neighbours_mem by blast
  then show ?thesis
  proof cases
    case (1 i c)
    then have "others (host_dim (s ! i)) t = others (host_dim (s ! i)) s"
      using others_canonical [OF assms(1) others_update] by simp
    then show ?thesis by blast
  next
    case (2 i)
    then have "others (host_dim (s ! i)) t = others (host_dim (s ! i)) s"
      using others_canonical [OF assms(1) others_remove] by simp
    then show ?thesis by blast
  next
    case (3 d c)
    have "others d (s @ [output_axis d c]) = others d s" by (simp add: others_def output_axis_def)
    then show ?thesis using others_canonical [OF assms(1)] 3 by blast
  qed
qed

lemma filter_below: "filter (\<lambda>x. host_dim x < h) (others h s) = filter (\<lambda>x. host_dim x < h) s"
  and filter_above: "filter (\<lambda>x. h < host_dim x) (others h s) = filter (\<lambda>x. h < host_dim x) s"
  by (auto simp: others_def intro!: filter_cong)

lemma neighbours_complete:
  assumes s: "admits sp s" and t: "admits sp t" "t \<noteq> s" and o: "others h t = others h s"
  shows "t \<in> set (neighbours sp s)"
proof -
  have ss: "strict s" and st: "strict t" using s t(1) admits_strict by blast+
  define A B where AB0: "A = filter (\<lambda>x. host_dim x < h) s" "B = filter (\<lambda>x. h < host_dim x) s"
  have AB: "filter (\<lambda>x. host_dim x < h) t = A" "filter (\<lambda>x. h < host_dim x) t = B"
    using filter_below [of h s] filter_below [of h t] filter_above [of h s] filter_above [of h t] o AB0 by auto
  have ne: "\<forall>x\<in>set A \<union> set B. host_dim x \<noteq> h" using AB0 by auto
  have off: "others h x = x" if "h \<notin> host_dim ` set x" for x using that by (auto simp: others_def filter_id_conv)
  have legal: "\<not> axis_is_reduction b \<and> axis_count b \<in> set (counts sp (host_dim b))" if "b \<in> set t" for b
    using t(1) that by (auto simp: admits_iff list_all_iff legal_level_def)
  show ?thesis
  proof (cases "h \<in> host_dim ` set t")
    case True
    obtain b where b: "host_dim b = h" "t = A @ [b] @ B" using strict_split [OF st True] AB by auto
    then have lb: "\<not> axis_is_reduction b" "axis_count b \<in> set (counts sp h)" using legal [of b] by auto
    show ?thesis
    proof (cases "h \<in> host_dim ` set s")
      case hs: True
      obtain a where a: "host_dim a = h" "s = A @ [a] @ B" using strict_split [OF ss hs] AB0 by auto
      then have "a \<in> set s" by (metis append_Cons in_set_conv_decomp)
      then have na: "\<not> axis_is_reduction a" using ss by (simp add: strict_def)
      let ?i = "length A"
      have i: "?i < length s" "s ! ?i = a" using arg_cong [OF a(2), of length] arg_cong [OF a(2), of "\<lambda>l. l ! ?i"]
        by (auto simp: nth_append)
      have eq: "b = a\<lparr>axis_count := axis_count b\<rparr>" using lb(1) na a(1) b(1) by (cases a, cases b) simp
      have "t = s[?i := b]" by (simp add: a(2) b(2))
      then have up: "t = s[?i := (s ! ?i)\<lparr>axis_count := axis_count b\<rparr>]" using eq i(2) by simp
      have "axis_count b \<noteq> axis_count a"
      proof
        assume "axis_count b = axis_count a"
        then have "a = b" using eq by simp
        then show False using a(2) b(2) t(2) by metis
      qed
      then show ?thesis unfolding neighbours_mem
        using t i a(1) lb(2) up strict_canonical [OF st] by (intro conjI disjI1 exI [of _ ?i] bexI [of _ "axis_count b"]) auto
    next
      case False
      have "others h t = A @ B" using b ne by (auto simp: others_def filter_id_conv)
      then have s2: "s = A @ B" using off [OF False] o by simp
      have "b = output_axis h (axis_count b)" using lb(1) b(1) output_axis_eq by metis
      moreover have "strict (canonical_tiling (s @ [b]))"
      proof -
        have n: "\<forall>a\<in>set (s @ [b]). \<not> axis_is_reduction a" using ss lb(1) by (auto simp: strict_def)
        have d: "distinct (map host_dim (s @ [b]))" using ss False b(1) by (auto simp: strict_def strict_sorted_iff)
        have "distinct (map host_dim (sort_key host_dim (s @ [b])))"
          using d by (metis distinct_map distinct_sort set_sort)
        then show ?thesis unfolding strict_def canonical_output [OF n] using n by (simp add: strict_sorted_iff del: map_append sort_key_simps)
      qed
      then have "t = canonical_tiling (s @ [b])"
        by (rule strict_unique [OF st]) (auto simp: b(2) s2 canonical_tiling_def)
      ultimately show ?thesis unfolding neighbours_mem
        using t lb(2) counts_mem [OF lb(2)] False by (intro conjI disjI2 bexI [of _ h] bexI [of _ "axis_count b"]) auto
    qed
  next
    case False
    then have hs: "h \<in> host_dim ` set s" using off [OF False] off [of s] o t(2) by auto
    obtain a where a: "host_dim a = h" "s = A @ [a] @ B" using strict_split [OF ss hs] AB0 by auto
    let ?i = "length A"
    have i: "?i < length s" using arg_cong [OF a(2), of length] by simp
    have "t = others h s" using off [OF False] o by simp
    also have "\<dots> = A @ B" by (simp only: a(2)) (use ne in \<open>auto simp: others_def a(1) filter_id_conv\<close>)
    also have "\<dots> = remove_level ?i s" by (simp add: a(2) remove_level_def)
    finally show ?thesis unfolding neighbours_mem using t i strict_canonical [OF st] by metis
  qed
qed

lemma neighbours_iff:
  assumes "admits sp s"
  shows "t \<in> set (neighbours sp s) \<longleftrightarrow> admits sp t \<and> t \<noteq> s \<and> (\<exists>h. others h t = others h s)"
  using neighbours_sound [OF admits_strict [OF assms]] neighbours_complete [OF assms] neighbours_mem [of t sp s] by blast

lemma neighbours_distinct: "distinct (neighbours sp s)"
  by (simp add: neighbours_def Let_def)

lemma admits_butlast: "admits sp s \<Longrightarrow> admits sp (butlast s)"
proof (cases s rule: rev_cases)
  case (snoc xs x)
  then show "admits sp s \<Longrightarrow> ?thesis" by (auto simp: admits_iff sorted_wrt_append)
qed simp

lemma to_untiled: "admits sp s \<Longrightarrow> (\<lambda>a b. b \<in> set (neighbours sp a))\<^sup>*\<^sup>* s [] \<and> (\<lambda>a b. b \<in> set (neighbours sp a))\<^sup>*\<^sup>* [] s"
proof (induction s rule: rev_induct)
  case (snoc x xs)
  have a: "admits sp xs" using admits_butlast [OF snoc.prems] by simp
  have o: "others (host_dim x) xs = others (host_dim x) (xs @ [x])" by (simp add: others_def)
  have n: "xs \<in> set (neighbours sp (xs @ [x]))" "xs @ [x] \<in> set (neighbours sp xs)"
    using neighbours_complete [OF snoc.prems a _ o] neighbours_complete [OF a snoc.prems _ o [symmetric]] by auto
  show ?case using snoc.IH [OF a] n by (meson converse_rtranclp_into_rtranclp rtranclp.rtrancl_into_rtrancl)
qed simp

text \<open>
  The space and the list are one: the enumeration carries a spec exactly when the space admits it
  (over a space whose dims are keys of a dictionary).  What a search generates move by move is therefore
  what the exhaustive solver sees, up to the truncation of the list.
\<close>

theorem enumeration_is_admission:
  assumes "space_ok sp"
  shows "spec \<in> set (enumerate_specs sp) \<longleftrightarrow> admits sp spec"
  by (rule enumerate_iff [OF assms])

text \<open>
  C38: The moves of a search connect the whole space and can be undone.  From an admitted spec every
  neighbour is admitted, different and listed once; a spec is a neighbour exactly when it differs in
  the level of a single dim, so a move has its inverse; and any two admitted specs are joined by moves.
\<close>

theorem neighbours_connect_space:
  assumes "admits sp s" "admits sp t"
  shows "distinct (neighbours sp s) \<and> list_all (\<lambda>c. admits sp c \<and> c \<noteq> s) (neighbours sp s) \<and>
    (t \<in> set (neighbours sp s) \<longleftrightarrow> t \<noteq> s \<and> (\<exists>h. others h t = others h s)) \<and>
    (t \<in> set (neighbours sp s) \<longleftrightarrow> s \<in> set (neighbours sp t)) \<and>
    (\<lambda>a b. b \<in> set (neighbours sp a))\<^sup>*\<^sup>* s t"
proof (intro conjI)
  show "list_all (\<lambda>c. admits sp c \<and> c \<noteq> s) (neighbours sp s)"
    using neighbours_mem [of _ sp s] by (auto simp: list_all_iff)
  show "t \<in> set (neighbours sp s) \<longleftrightarrow> t \<noteq> s \<and> (\<exists>h. others h t = others h s)"
    unfolding neighbours_iff [OF assms(1)] using assms(2) by blast
  show "t \<in> set (neighbours sp s) \<longleftrightarrow> s \<in> set (neighbours sp t)"
    unfolding neighbours_iff [OF assms(1)] neighbours_iff [OF assms(2)] using assms by metis
  show "(\<lambda>a b. b \<in> set (neighbours sp a))\<^sup>*\<^sup>* s t"
    using to_untiled [OF assms(1)] to_untiled [OF assms(2)] by (meson rtranclp_trans)
qed (rule neighbours_distinct)

subsection \<open>The option list\<close>

lemma canonical_key_inj: "canonical_key a = canonical_key b \<Longrightarrow> a = b"
proof -
  have "map (\<lambda>a. (axis_is_reduction a, host_dim a, axis_count a)) xs = map (\<lambda>a. (axis_is_reduction a, host_dim a, axis_count a)) ys \<Longrightarrow> xs = ys"
    for xs ys :: TileSpec
    by (rule map_inj_on) (auto intro!: inj_onI TileAxis.equality)
  then show "canonical_key a = canonical_key b \<Longrightarrow> ?thesis" by (simp add: canonical_key_def)
qed

text \<open>
  Finalising a list of options keeps the untiled option first, lists no option twice, respects the
  bound and drops only the options that come last in the canonical order: shallower nests are kept in
  preference to deeper ones, and nothing is dropped when everything fits.
\<close>

theorem finalize_keeps_canonical_prefix:
  assumes "1 \<le> n"
  shows "(let kept = finalize_options options (Some n)
    in hd kept = [] \<and> kept \<noteq> [] \<and> distinct kept \<and> int (length kept) \<le> n \<and>
       set kept \<subseteq> insert [] (set options) \<and>
       (int (card (insert [] (set options))) \<le> n \<longrightarrow> set kept = insert [] (set options)) \<and>
       (\<forall>k d. k \<in> set kept \<and> d \<in> set options \<and> d \<noteq> [] \<and> d \<notin> set kept \<longrightarrow> canonical_key k \<le> canonical_key d))"
proof -
  let ?rest = "sort_key canonical_key (filter (\<lambda>s. \<not> is_untiled s) (remdups_first options))"
  let ?m = "nat n - 1"
  have set_rest: "set ?rest = set options - {[]}" by (auto simp: is_untiled_def)
  have dist: "distinct ?rest" by simp
  have sorted: "sorted (map canonical_key ?rest)" by simp
  have kept: "finalize_options options (Some n) = [] # take ?m ?rest"
    using assms by (auto simp: finalize_options_def Let_def take_Cons' nat_diff_distrib not_less nat_le_iff)
  have card: "card (insert [] (set options)) = Suc (length ?rest)"
    using distinct_card [OF dist] set_rest by (metis List.finite_set card.insert_remove)
  have drop: "d \<in> set (drop ?m ?rest)" if d: "d \<in> set options" "d \<noteq> []" "d \<notin> set ([] # take ?m ?rest)" for d
    using d set_rest by (metis (no_types, lifting) Diff_iff UnE append_take_drop_id list.set_intros(2) set_append singletonD)
  have lo: "canonical_key k \<le> canonical_key d" if h: "k \<in> set (take ?m ?rest)" "d \<in> set (drop ?m ?rest)" for k d
  proof -
    have "sorted (map canonical_key (take ?m ?rest) @ map canonical_key (drop ?m ?rest))"
      using sorted by (simp flip: map_append del: sort_key_simps)
    then show ?thesis using h by (auto simp: sorted_append)
  qed
  have least: "canonical_key [] \<le> canonical_key d" for d by (cases d) (simp_all add: canonical_key_def depth_def)
  show ?thesis unfolding Let_def kept
    using dist set_rest card drop lo least assms
    by (auto simp: distinct_tl dest: in_set_takeD)
qed

subsection \<open>A small space\<close>

definition demo_space :: TilingSpace where
  "demo_space = \<lparr>max_dims = 2, output_counts = [(2, [2, 4]), (0, [3])]\<rparr>"

definition demo_spec :: TileSpec where
  "demo_spec = [output_axis 0 3, output_axis 2 4]"

theorem enumeration_is_admission_witness:
  "space_ok demo_space \<and> demo_spec \<in> set (enumerate_specs demo_space) \<and> admits demo_space demo_spec"
proof -
  have s: "space_ok demo_space" and a: "admits demo_space demo_spec" by code_simp+
  show ?thesis using enumeration_is_admission [OF s, of demo_spec] s a by blast
qed

theorem neighbours_connect_space_witness:
  "(\<lambda>a b. b \<in> set (neighbours demo_space a))\<^sup>*\<^sup>* [output_axis 2 2] demo_spec \<and>
   map (map (\<lambda>a. (host_dim a, axis_count a))) (neighbours demo_space [output_axis 2 2]) = [[(2, 4)], [], [(0, 3), (2, 2)]]"
proof -
  have a: "admits demo_space [output_axis 2 2]" and b: "admits demo_space demo_spec" by code_simp+
  have n: "map (map (\<lambda>a. (host_dim a, axis_count a))) (neighbours demo_space [output_axis 2 2]) = [[(2, 4)], [], [(0, 3), (2, 2)]]"
    by code_simp
  show ?thesis using neighbours_connect_space [OF a b] n by blast
qed

theorem finalize_keeps_canonical_prefix_witness:
  "(1::int) \<le> 2 \<and> hd (finalize_options [demo_spec, [output_axis 2 4], demo_spec] (Some 2)) = [] \<and>
   int (length (finalize_options [demo_spec, [output_axis 2 4], demo_spec] (Some 2))) \<le> 2"
  using finalize_keeps_canonical_prefix [of 2 "[demo_spec, [output_axis 2 4], demo_spec]"] unfolding Let_def by simp

end
