(* ===== verification/Tile_Options.thy ===== *)
theory Tile_Options
  imports Tiling_Space
begin

text \<open>
  The coarse tilings an operation is offered and how they are lowered
  (\<open>wsr/enumerate_tilings.py\<close>, the split predicates of \<open>wsr/span_overflow_hint_analysis.py\<close>, the
  reduction loop variables of \<open>wsr/loop_tiling_common.py\<close> and the axis resolver of
  \<open>scratchpad/coarse_tiling.py\<close>).

  An operation is what these functions read of it.  Sympy expressions appear through their free
  symbols, loop variables as strings.  Fields hold what is computed elsewhere: \<open>stick_dim\<close> what
  \<open>_stick_host_dim\<close> recovers, \<open>coord_symbols\<close> the symbols of \<open>op_out_coords\<close>, \<open>repeats_read\<close> whether
  \<open>_repeated_read_reason\<close> finds a repeated read along a loop variable, \<open>resize_refused\<close> what
  \<open>_post_tile_resize_error\<close> reports, \<open>target_symbols\<close> what \<open>_host_dim_target_symbols\<close> returns.
  A diagnostic string is modelled by its presence.  A position (\<open>host_dim\<close>) is never negative, as every
  producer of a \<open>TileAxis\<close> makes it.
\<close>

datatype extent = Static int | Symbolic string

fun static_extent :: "extent \<Rightarrow> bool" where
  "static_extent (Static n) = True"
| "static_extent (Symbolic s) = False"

record tiled_layout =
  lay_size :: "int list"
  lay_stride :: "int list"
  stride_map_last :: int
  elems_per_stick :: int

record input_dep =
  dep_static :: bool
  dep_layout :: tiled_layout
  dep_coords :: "(string list) list res"

record tile_op =
  computed_buffer :: bool
  fixed_tiled :: bool
  dim_hints_present :: bool
  loop_info_present :: bool
  device_layout_present :: bool
  stick_dim :: "int option"
  data_ranges :: "extent list option"
  reduction_data :: bool
  reduction_ranges :: "extent list"
  layout_extents :: "extent list"
  static_span_metadata :: bool
  op_layout :: tiled_layout
  coord_symbols :: "string list list"
  iter_space :: "(string \<times> extent) list"
  write_symbols :: "string list option"
  read_ranges :: "string list list"
  input_deps :: "input_dep list"
  target_symbols :: "int \<Rightarrow> string list"
  resize_refused :: "int \<Rightarrow> int \<Rightarrow> bool"
  repeats_read :: "string \<Rightarrow> bool"

definition MAX_SPLITS_PER_DIM :: nat where
  "MAX_SPLITS_PER_DIM = 16"

definition MAX_AUTO_TILE_SPLIT_COUNT :: int where
  "MAX_AUTO_TILE_SPLIT_COUNT = 64"

subsection \<open>Stick alignment of a split\<close>

definition within_stick_host_dim :: "tiled_layout \<Rightarrow> nat option" where
  "within_stick_host_dim l = find (\<lambda>i. lay_stride l ! i = stride_map_last l) [0..<length (lay_stride l)]"

definition post_tile_stick_alignment_error :: "tiled_layout \<Rightarrow> int \<Rightarrow> int \<Rightarrow> bool" where
  "post_tile_stick_alignment_error l selected split_count =
     (if split_count \<le> 1 then False
      else case within_stick_host_dim l of
        None \<Rightarrow> True
      | Some d \<Rightarrow>
          if selected \<noteq> int d then False
          else let full_size = lay_size l ! d
               in if full_size mod split_count \<noteq> 0 then True
                  else (full_size div split_count) mod elems_per_stick l \<noteq> 0)"

definition coords_cut :: "input_dep \<Rightarrow> (string list) list \<Rightarrow> string \<Rightarrow> int \<Rightarrow> bool" where
  "coords_cut dep coords lv split_count =
     list_ex (\<lambda>i. lv \<in> set (coords ! i) \<and> post_tile_stick_alignment_error (dep_layout dep) (int i) split_count)
       [0..<length coords]"

fun input_alignment_scan :: "string list \<Rightarrow> int \<Rightarrow> input_dep list \<Rightarrow> bool res" where
  "input_alignment_scan syms split_count [] = Inr False"
| "input_alignment_scan syms split_count (dep # deps) =
     (if \<not> dep_static dep then input_alignment_scan syms split_count deps
      else bindE (dep_coords dep) (\<lambda>coords.
        if list_ex (\<lambda>lv. coords_cut dep coords lv split_count) syms then Inr True
        else input_alignment_scan syms split_count deps))"

definition input_stick_alignment_error :: "tile_op \<Rightarrow> int \<Rightarrow> int \<Rightarrow> bool res" where
  "input_stick_alignment_error op dim split_count =
     (if split_count \<le> 1 then Inr False
      else if target_symbols op dim = [] then Inr False
      else input_alignment_scan (target_symbols op dim) split_count (input_deps op))"

definition derivation_failure :: "py_error \<Rightarrow> bool" where
  "derivation_failure e \<longleftrightarrow> e \<in> {TypeError, ValueError, RuntimeError, Unsupported, NotImplementedError, KeyError, IndexError}"

fun reduction_cut_scan :: "string \<Rightarrow> int \<Rightarrow> input_dep list \<Rightarrow> bool res" where
  "reduction_cut_scan red_var split_count [] = Inr False"
| "reduction_cut_scan red_var split_count (dep # deps) =
     (if \<not> dep_static dep then reduction_cut_scan red_var split_count deps
      else case dep_coords dep of
        Inl e \<Rightarrow> if derivation_failure e then Inr True else Inl e
      | Inr coords \<Rightarrow> if coords_cut dep coords red_var split_count then Inr True
                      else reduction_cut_scan red_var split_count deps)"

definition reduction_split_cuts_input_stick :: "tile_op \<Rightarrow> string \<Rightarrow> int \<Rightarrow> bool res" where
  "reduction_split_cuts_input_stick op red_var split_count = reduction_cut_scan red_var split_count (input_deps op)"

subsection \<open>Exact divisors\<close>

definition isqrt :: "int \<Rightarrow> int" where
  "isqrt n = int (length (takeWhile (\<lambda>k. k * k \<le> n) [1..n]))"

definition divisors :: "int \<Rightarrow> int list" where
  "divisors full = sort (remdups (concat (map (\<lambda>i. if full mod i = 0 then [i, full div i] else []) [1..isqrt full])))"

definition add_split :: "int list \<Rightarrow> int \<Rightarrow> int list \<Rightarrow> int list" where
  "add_split legal_candidates split selected =
     (if split \<in> set legal_candidates \<and> split \<notin> set selected then selected @ [split] else selected)"

fun add_small :: "int list \<Rightarrow> int list \<Rightarrow> int list \<Rightarrow> int list" where
  "add_small legal_candidates [] selected = selected"
| "add_small legal_candidates (split # rest) selected =
     (let selected' = (if split > 1 then add_split legal_candidates split selected else selected)
      in if length selected' \<ge> min 5 MAX_SPLITS_PER_DIM then selected' else add_small legal_candidates rest selected')"

fun add_large :: "int list \<Rightarrow> int list \<Rightarrow> int list \<Rightarrow> int list" where
  "add_large legal_candidates [] selected = selected"
| "add_large legal_candidates (split # rest) selected =
     (let selected' = add_split legal_candidates split selected
      in if length selected' \<ge> MAX_SPLITS_PER_DIM then selected' else add_large legal_candidates rest selected')"

definition required_index :: "int list \<Rightarrow> int \<Rightarrow> nat" where
  "required_index legal_candidates required_count =
     (case find (\<lambda>i. legal_candidates ! i \<ge> required_count) [0..<length legal_candidates] of
        Some i \<Rightarrow> i | None \<Rightarrow> length legal_candidates - 1)"

definition cap_split_candidates :: "int list \<Rightarrow> int \<Rightarrow> int list" where
  "cap_split_candidates legal_candidates required_count =
     (if length legal_candidates \<le> MAX_SPLITS_PER_DIM then legal_candidates
      else
        let s1 = add_split legal_candidates 1 [];
            s2 = add_small legal_candidates legal_candidates s1;
            ri = required_index legal_candidates required_count;
            s3 = fold (\<lambda>i. add_split legal_candidates (legal_candidates ! i))
                   [ri - 2..<min (length legal_candidates) (ri + 4)] s2;
            s4 = add_large legal_candidates (rev legal_candidates) s3
        in take MAX_SPLITS_PER_DIM (sort s4))"

definition split_is_legal :: "tile_op \<Rightarrow> int \<Rightarrow> int \<Rightarrow> int \<Rightarrow> bool res" where
  "split_is_legal op dim full_size split =
     (if split = 1 then Inr True
      else if reduction_data op \<and> \<not> full_size div split > 1 then Inr False
      else if \<not> split \<le> MAX_AUTO_TILE_SPLIT_COUNT then Inr False
      else if post_tile_stick_alignment_error (op_layout op) dim split then Inr False
      else bindE (input_stick_alignment_error op dim split) (\<lambda>bad.
        if bad then Inr False else Inr (\<not> resize_refused op dim split)))"

definition split_candidates_for_host_dim :: "tile_op \<Rightarrow> nat \<Rightarrow> int \<Rightarrow> int list res" where
  "split_candidates_for_host_dim op dim required_count =
     (let ranges = (case data_ranges op of None \<Rightarrow> [] | Some rs \<Rightarrow> rs)
      in if dim \<ge> length ranges then Inl Unsupported
         else case ranges ! dim of
           Symbolic s \<Rightarrow> Inl Unsupported
         | Static full_size \<Rightarrow>
             if full_size \<le> 1 then Inl Unsupported
             else bindE (filterE (split_is_legal op (int dim) full_size) (divisors full_size)) (\<lambda>legal.
               Inr (cap_split_candidates legal required_count)))"

definition output_split_counts :: "tile_op \<Rightarrow> nat \<Rightarrow> int list res" where
  "output_split_counts op dim =
     (case split_candidates_for_host_dim op dim 1 of
        Inl e \<Rightarrow> if e = Unsupported then Inr [] else Inl e
      | Inr candidates \<Rightarrow> Inr (filter (\<lambda>s. s > 1) candidates))"

subsection \<open>Loop variables\<close>

definition more_reduction_symbols :: "string list \<Rightarrow> string list \<Rightarrow> string list \<Rightarrow> string list" where
  "more_reduction_symbols out_syms best d =
     (if length (filter (\<lambda>s. s \<notin> set out_syms) d) > length (filter (\<lambda>s. s \<notin> set out_syms) best) then d else best)"

definition reduction_loop_vars :: "tile_op \<Rightarrow> string list res" where
  "reduction_loop_vars op =
     (if \<not> reduction_data op then Inl AssertionError
      else case write_symbols op of
        None \<Rightarrow> Inl StopIteration
      | Some out_syms \<Rightarrow>
          (case read_ranges op of
             [] \<Rightarrow> Inr []
           | d # ds \<Rightarrow> Inr (filter (\<lambda>s. s \<notin> set out_syms) (foldl (more_reduction_symbols out_syms) d ds))))"

definition index_of :: "'a \<Rightarrow> 'a list \<Rightarrow> nat" where
  "index_of x xs = length (takeWhile (\<lambda>y. y \<noteq> x) xs)"

definition loop_var_to_reduction_ranges_pos :: "tile_op \<Rightarrow> string \<Rightarrow> nat option res" where
  "loop_var_to_reduction_ranges_pos op lv =
     bindE (reduction_loop_vars op) (\<lambda>red_vars.
       if lv \<notin> set red_vars then Inr None
       else let not_one = filter (\<lambda>i. reduction_ranges op ! i \<noteq> Static 1) [0..<length (reduction_ranges op)]
            in if length not_one < length red_vars then Inr None
               else Inr (Some (not_one ! index_of lv red_vars)))"

definition get_out_var :: "tile_op \<Rightarrow> nat \<Rightarrow> string option" where
  "get_out_var op dim =
     (if dim \<ge> length (coord_symbols op) then None
      else case remdups (coord_symbols op ! dim) of
        [v] \<Rightarrow> if v \<in> fst ` set (iter_space op) then Some v else None
      | _ \<Rightarrow> None)"

definition get_red_var :: "tile_op \<Rightarrow> nat \<Rightarrow> string option res" where
  "get_red_var op dim =
     (if \<not> reduction_data op then Inr None
      else case reduction_loop_vars op of
        Inl e \<Rightarrow> if e = StopIteration then Inr None else Inl e
      | Inr red_vars \<Rightarrow>
          if red_vars = [] then Inr None
          else if dim \<ge> length red_vars then Inr None
          else bindE (loop_var_to_reduction_ranges_pos op (red_vars ! dim)) (\<lambda>pos.
            Inr (if pos = None then None else Some (red_vars ! dim))))"

definition symbolic_extent :: "tile_op \<Rightarrow> bool" where
  "symbolic_extent op \<longleftrightarrow>
     list_ex (\<lambda>e. \<not> static_extent e) (case data_ranges op of None \<Rightarrow> [] | Some rs \<Rightarrow> rs) \<or>
     list_ex (\<lambda>e. \<not> static_extent e) (reduction_ranges op) \<or>
     list_ex (\<lambda>e. \<not> static_extent e) (layout_extents op) \<or>
     (fixed_tiled op \<and> \<not> static_span_metadata op)"

definition resolve_axis :: "tile_op \<Rightarrow> TileAxis \<Rightarrow> string option res" where
  "resolve_axis op axis =
     bindE (if axis_is_reduction axis then get_red_var op (nat (host_dim axis))
            else Inr (get_out_var op (nat (host_dim axis)))) (\<lambda>v.
       Inr (case v of None \<Rightarrow> None | Some loop_var \<Rightarrow> if repeats_read op loop_var then None else Some loop_var))"

fun resolve_axes :: "tile_op \<Rightarrow> TileSpec \<Rightarrow> string list option res" where
  "resolve_axes op [] = Inr (Some [])"
| "resolve_axes op (axis # axes) =
     bindE (resolve_axis op axis) (\<lambda>v. case v of
         None \<Rightarrow> Inr None
       | Some loop_var \<Rightarrow> bindE (resolve_axes op axes) (\<lambda>vs. Inr (map_option ((#) loop_var) vs)))"

definition try_resolve_tile_axis_loop_vars :: "tile_op \<Rightarrow> TileSpec \<Rightarrow> string list option res" where
  "try_resolve_tile_axis_loop_vars op spec =
     (if spec \<noteq> [] \<and> symbolic_extent op then Inr None else resolve_axes op spec)"

record DimHint =
  split_count :: int
  hint_loop_var :: string
  hint_is_reduction :: bool
  hint_id :: int

definition tile_spec_to_dim_hints :: "tile_op \<Rightarrow> TileSpec \<Rightarrow> int list \<Rightarrow> DimHint list res" where
  "tile_spec_to_dim_hints op spec hint_ids =
     (if length hint_ids \<noteq> length spec then Inl ValueError
      else bindE (try_resolve_tile_axis_loop_vars op spec) (\<lambda>r. case r of
          None \<Rightarrow> Inl Unsupported
        | Some loop_vars \<Rightarrow> Inr (map (\<lambda>(axis, loop_var, h). \<lparr>split_count = axis_count axis, hint_loop_var = loop_var,
              hint_is_reduction = axis_is_reduction axis, hint_id = h\<rparr>) (zip spec (zip loop_vars hint_ids)))))"

subsection \<open>The options\<close>

fun reduction_legal :: "tile_op \<Rightarrow> string \<Rightarrow> int \<Rightarrow> int list \<Rightarrow> int list res" where
  "reduction_legal op red_var full [] = Inr []"
| "reduction_legal op red_var full (split # rest) =
     (if split \<le> 1 \<or> full div split \<le> 1 \<or> split > MAX_AUTO_TILE_SPLIT_COUNT then reduction_legal op red_var full rest
      else bindE (reduction_split_cuts_input_stick op red_var split) (\<lambda>cut.
           bindE (reduction_legal op red_var full rest) (\<lambda>legal. Inr (if cut then legal else split # legal))))"

definition reduction_split_counts :: "tile_op \<Rightarrow> nat \<Rightarrow> int list res" where
  "reduction_split_counts op red_pos =
     bindE (get_red_var op red_pos) (\<lambda>v. case v of
         None \<Rightarrow> Inr []
       | Some red_var \<Rightarrow>
           (case map_of (iter_space op) red_var of
              Some (Static full) \<Rightarrow> if full \<le> 1 then Inr [] else reduction_legal op red_var full (divisors full)
            | _ \<Rightarrow> Inr []))"

definition lowering_accepts :: "tile_op \<Rightarrow> TileAxis \<Rightarrow> bool res" where
  "lowering_accepts op axis = bindE (try_resolve_tile_axis_loop_vars op [axis]) (\<lambda>r. Inr (r \<noteq> None))"

definition unit_tile_breaks_a_reader :: "extent list \<Rightarrow> nat \<Rightarrow> int \<Rightarrow> extent list list \<Rightarrow> bool" where
  "unit_tile_breaks_a_reader ranges dim c readers =
     (case ranges ! dim of
        Symbolic s \<Rightarrow> False
      | Static full \<Rightarrow>
          full div c = 1 \<and>
          list_ex (\<lambda>rr. length rr < length ranges \<or> (rr ! dim \<noteq> Static 1 \<and> rr \<noteq> ranges)) readers)"

definition tileable :: "tile_op \<Rightarrow> bool" where
  "tileable op = (computed_buffer op \<and> fixed_tiled op \<and> \<not> dim_hints_present op \<and> \<not> loop_info_present op)"

definition static_extents :: "tile_op \<Rightarrow> bool" where
  "static_extents op = (\<not> symbolic_extent op)"

definition output_stick_host_dim :: "tile_op \<Rightarrow> int option" where
  "output_stick_host_dim op = (if device_layout_present op then stick_dim op else None)"

definition add_output_dim ::
  "tile_op \<Rightarrow> int \<Rightarrow> nat \<Rightarrow> extent list list \<Rightarrow> nat \<Rightarrow> (int \<times> int list) list \<Rightarrow> (int \<times> int list) list res" where
  "add_output_dim op stick max_splits readers dim acc =
     (if int dim = stick then Inr acc
      else bindE (output_split_counts op dim) (\<lambda>legal.
        let ranges = (case data_ranges op of None \<Rightarrow> [] | Some rs \<Rightarrow> rs);
            cs = take max_splits (filter (\<lambda>c. \<not> unit_tile_breaks_a_reader ranges dim c readers) legal)
        in if cs = [] then Inr acc
           else bindE (lowering_accepts op (output_axis (int dim) (cs ! 0))) (\<lambda>ok.
             Inr (if ok then acc @ [(int dim, cs)] else acc))))"

definition build_tiling_space :: "tile_op \<Rightarrow> int \<Rightarrow> nat \<Rightarrow> tile_op list \<Rightarrow> TilingSpace res" where
  "build_tiling_space op max_d max_splits readers =
     (case (if tileable op then output_stick_host_dim op else None) of
        None \<Rightarrow> Inr \<lparr>max_dims = max_d, output_counts = []\<rparr>
      | Some stick \<Rightarrow>
          if \<not> static_extents op then Inr \<lparr>max_dims = max_d, output_counts = []\<rparr>
          else
            let n_out = (case data_ranges op of None \<Rightarrow> 0 | Some rs \<Rightarrow> length rs);
                retiled = map (\<lambda>r. case data_ranges r of None \<Rightarrow> [] | Some rs \<Rightarrow> rs) (filter computed_buffer readers)
            in bindE (foldE (add_output_dim op stick max_splits retiled) [0..<n_out] []) (\<lambda>cs.
                 Inr \<lparr>max_dims = max_d, output_counts = cs\<rparr>))"

definition reduction_axis :: "nat \<Rightarrow> int \<Rightarrow> TileAxis" where
  "reduction_axis pos c = \<lparr>host_dim = int pos, axis_count = c, axis_is_reduction = True\<rparr>"

definition reduction_options :: "tile_op \<Rightarrow> nat \<Rightarrow> bool \<Rightarrow> TileSpec list res" where
  "reduction_options op max_splits enable_reduction_tiling =
     (if tileable op \<and> static_extents op \<and> reduction_data op \<and> enable_reduction_tiling \<and>
         list_all (\<lambda>r. r \<noteq> Static 1) (reduction_ranges op)
      then
        bindE (case reduction_loop_vars op of
                 Inl e \<Rightarrow> if e = StopIteration \<or> e = AssertionError then Inr 0 else Inl e
               | Inr vs \<Rightarrow> Inr (length vs)) (\<lambda>n_red.
        bindE (mapE (\<lambda>red_pos. bindE (reduction_split_counts op red_pos) (\<lambda>cs.
                 Inr (map (\<lambda>c. [reduction_axis red_pos c]) (take max_splits cs)))) [0..<n_red]) (\<lambda>opts.
          Inr (concat opts)))
      else Inr [])"

definition enumerate_tile_options ::
  "tile_op \<Rightarrow> int \<Rightarrow> nat \<Rightarrow> int option \<Rightarrow> bool \<Rightarrow> tile_op list \<Rightarrow> TileSpec list res" where
  "enumerate_tile_options op max_d max_splits max_options enable_reduction_tiling readers =
     bindE (build_tiling_space op max_d max_splits readers) (\<lambda>sp.
     bindE (reduction_options op max_splits enable_reduction_tiling) (\<lambda>red.
       Inr (finalize_options (enumerate_specs sp @ red) max_options)))"

section \<open>Exact divisors\<close>

lemma isqrt_le: "1 \<le> k \<Longrightarrow> k \<le> isqrt n \<Longrightarrow> k * k \<le> n"
proof -
  assume k: "1 \<le> k" "k \<le> isqrt n"
  let ?tw = "takeWhile (\<lambda>k. k * k \<le> n) [1..n]"
  have i: "nat (k - 1) < length ?tw" using k by (auto simp: isqrt_def)
  then have l: "nat (k - 1) < length [1..n]" using length_takeWhile_le [of "\<lambda>k. k * k \<le> n" "[1..n]"] by linarith
  have "?tw ! nat (k - 1) = [1..n] ! nat (k - 1)" using i by (simp add: takeWhile_nth)
  also have "\<dots> = k" using k(1) l by (subst nth_upto) auto
  finally have "k \<in> set ?tw" using i by (metis nth_mem)
  then show ?thesis by (auto dest: set_takeWhileD)
qed

lemma isqrt_gt: "0 \<le> n \<Longrightarrow> isqrt n < k \<Longrightarrow> n < k * k"
proof -
  assume n: "0 \<le> n" and k: "isqrt n < k"
  let ?L = "length (takeWhile (\<lambda>k. k * k \<le> n) [1..n])"
  have kp: "1 \<le> k" using k by (simp add: isqrt_def)
  show ?thesis
  proof (cases "?L < length [1..n]")
    case True
    then have "\<not> [1..n] ! ?L * [1..n] ! ?L \<le> n" using nth_length_takeWhile [OF True] by simp
    moreover have "[1..n] ! ?L = 1 + int ?L" using True by (subst nth_upto) auto
    ultimately have "n < (1 + int ?L) * (1 + int ?L)" by simp
    also have "\<dots> \<le> k * k" using k by (intro mult_mono) (auto simp: isqrt_def)
    finally show ?thesis .
  next
    case False
    then have "int ?L = n" using n length_takeWhile_le [of "\<lambda>k. k * k \<le> n" "[1..n]"] by simp
    then have "n < k" using k by (simp add: isqrt_def)
    also have "k \<le> k * k" using kp by simp
    finally show ?thesis .
  qed
qed

lemma divisors_iff:
  assumes "1 \<le> full"
  shows "d \<in> set (divisors full) \<longleftrightarrow> 0 < d \<and> d dvd full"
proof
  assume "d \<in> set (divisors full)"
  then obtain i where i: "1 \<le> i" "full mod i = 0" "d = i \<or> d = full div i"
    by (auto simp: divisors_def split: if_splits)
  then have "i dvd full" by auto
  then obtain e where e: "full = i * e" by (auto elim: dvdE)
  then have "0 < i * e" using assms by simp
  then have "0 < e" using i(1) by (simp add: zero_less_mult_iff)
  then show "0 < d \<and> d dvd full" using i e by auto
next
  assume d: "0 < d \<and> d dvd full"
  then obtain e where e: "full = d * e" by (auto elim: dvdE)
  then have "0 < d * e" using assms by simp
  then have ep: "0 < e" using d by (simp add: zero_less_mult_iff)
  show "d \<in> set (divisors full)"
  proof (cases "d \<le> isqrt full")
    case True
    then show ?thesis using d by (auto simp: divisors_def intro!: bexI [of _ d])
  next
    case False
    have "e \<le> isqrt full"
    proof (rule ccontr)
      assume "\<not> e \<le> isqrt full"
      then have "isqrt full + 1 \<le> d" "isqrt full + 1 \<le> e" "0 \<le> isqrt full" using False by (auto simp: isqrt_def)
      then have "(isqrt full + 1) * (isqrt full + 1) \<le> d * e" by (intro mult_mono) auto
      then show False using isqrt_gt [of full "isqrt full + 1"] assms e by simp
    qed
    moreover have "full mod e = 0" "full div e = d" using e ep by auto
    ultimately show ?thesis using ep by (auto simp: divisors_def intro!: bexI [of _ e])
  qed
qed

section \<open>Capping keeps legal candidates\<close>

lemma add_split_sub: "set (add_split l s sel) \<subseteq> set l \<union> set sel"
  by (auto simp: add_split_def)

lemma add_small_sub: "set sel \<subseteq> set l \<Longrightarrow> set (add_small l ss sel) \<subseteq> set l"
proof (induction ss arbitrary: sel)
  case (Cons s ss)
  have "set (if 1 < s then add_split l s sel else sel) \<subseteq> set l" using Cons.prems add_split_sub [of l s sel] by auto
  then show ?case using Cons.IH by (simp add: Let_def)
qed simp

lemma add_large_sub: "set sel \<subseteq> set l \<Longrightarrow> set (add_large l ss sel) \<subseteq> set l"
  by (induction ss arbitrary: sel) (auto simp: Let_def add_split_def)

lemma fold_add_sub: "set sel \<subseteq> set l \<Longrightarrow> set (fold (\<lambda>i. add_split l (g i)) is sel) \<subseteq> set l"
  by (induction "is" arbitrary: sel) (auto simp: add_split_def)

lemma cap_sub: "set (cap_split_candidates l r) \<subseteq> set l"
proof -
  have 1: "set (add_split l 1 []) \<subseteq> set l" by (auto simp: add_split_def)
  let ?s3 = "fold (\<lambda>i. add_split l (l ! i)) [required_index l r - 2..<min (length l) (required_index l r + 4)]
    (add_small l l (add_split l 1 []))"
  have "set (add_large l (rev l) ?s3) \<subseteq> set l" by (rule add_large_sub [OF fold_add_sub [OF add_small_sub [OF 1]]])
  then have "set (take MAX_SPLITS_PER_DIM (sort (add_large l (rev l) ?s3))) \<subseteq> set l"
    using set_take_subset [of MAX_SPLITS_PER_DIM "sort (add_large l (rev l) ?s3)"] by auto
  then show ?thesis by (simp add: cap_split_candidates_def Let_def)
qed

lemma add_split_distinct: "distinct sel \<Longrightarrow> distinct (add_split l s sel)"
  by (simp add: add_split_def)

lemma add_small_distinct: "distinct sel \<Longrightarrow> distinct (add_small l ss sel)"
  by (induction ss arbitrary: sel) (auto simp: Let_def add_split_distinct)

lemma add_large_distinct: "distinct sel \<Longrightarrow> distinct (add_large l ss sel)"
  by (induction ss arbitrary: sel) (auto simp: Let_def add_split_distinct)

lemma fold_add_distinct: "distinct sel \<Longrightarrow> distinct (fold (\<lambda>i. add_split l (g i)) is sel)"
  by (induction "is" arbitrary: sel) (auto simp: add_split_distinct)

lemma cap_distinct: "distinct l \<Longrightarrow> distinct (cap_split_candidates l r)"
  by (simp add: cap_split_candidates_def Let_def add_large_distinct fold_add_distinct add_small_distinct add_split_distinct)

section \<open>Legal counts\<close>

definition output_count_ok :: "tile_op \<Rightarrow> nat \<Rightarrow> int \<Rightarrow> bool" where
  "output_count_ok op dim c \<longleftrightarrow>
     (\<exists>rs full. data_ranges op = Some rs \<and> dim < length rs \<and> rs ! dim = Static full \<and>
        1 < c \<and> c \<le> MAX_AUTO_TILE_SPLIT_COUNT \<and> c dvd full \<and> (reduction_data op \<longrightarrow> 1 < full div c) \<and>
        \<not> post_tile_stick_alignment_error (op_layout op) (int dim) c \<and>
        input_stick_alignment_error op (int dim) c = Inr False \<and> \<not> resize_refused op (int dim) c)"

lemma split_is_legalD:
  "split_is_legal op d full c = Inr True \<Longrightarrow> c \<noteq> 1 \<Longrightarrow>
     (reduction_data op \<longrightarrow> 1 < full div c) \<and> c \<le> MAX_AUTO_TILE_SPLIT_COUNT \<and>
     \<not> post_tile_stick_alignment_error (op_layout op) d c \<and>
     input_stick_alignment_error op d c = Inr False \<and> \<not> resize_refused op d c"
  by (auto simp: split_is_legal_def split: if_splits)

lemma split_candidates_ok:
  assumes "split_candidates_for_host_dim op dim r = Inr cs"
  shows "distinct cs \<and> (\<forall>c\<in>set cs. 1 < c \<longrightarrow> output_count_ok op dim c)"
proof -
  let ?rs = "case data_ranges op of None \<Rightarrow> [] | Some rs \<Rightarrow> rs"
  obtain full legal where f: "dim < length ?rs" "?rs ! dim = Static full" "\<not> full \<le> 1"
      "filterE (split_is_legal op (int dim) full) (divisors full) = Inr legal" "cs = cap_split_candidates legal r"
    using assms by (auto simp: split_candidates_for_host_dim_def Let_def split: if_splits extent.splits)
  have rs: "data_ranges op = Some ?rs" using f(1) by (cases "data_ranges op") auto
  have legal: "legal = filter (\<lambda>x. split_is_legal op (int dim) full x = Inr True) (divisors full)"
    by (rule filterE_Inr [OF f(4)])
  have "distinct (divisors full)" by (simp add: divisors_def)
  then have d: "distinct cs" using f(5) legal by (simp add: cap_distinct)
  have "output_count_ok op dim c" if c: "c \<in> set cs" "1 < c" for c
  proof -
    have "c \<in> set legal" using c(1) f(5) cap_sub by auto
    then have "c dvd full" "split_is_legal op (int dim) full c = Inr True"
      using legal divisors_iff [of full c] f(3) by auto
    then show ?thesis unfolding output_count_ok_def
      using split_is_legalD [of op "int dim" full c] c(2) rs f(1,2) by blast
  qed
  then show ?thesis using d by blast
qed

lemma output_split_counts_ok:
  "output_split_counts op dim = Inr cs \<Longrightarrow> distinct cs \<and> (\<forall>c\<in>set cs. output_count_ok op dim c)"
  using split_candidates_ok [of op dim 1]
  by (auto simp: output_split_counts_def split: sum.splits if_splits)

lemma reduction_legal_ok:
  "reduction_legal op v full ss = Inr cs \<Longrightarrow>
     cs = filter (\<lambda>c. 1 < c \<and> 1 < full div c \<and> c \<le> MAX_AUTO_TILE_SPLIT_COUNT \<and>
                      reduction_split_cuts_input_stick op v c = Inr False) ss"
  by (induction ss arbitrary: cs) (auto split: if_splits)

section \<open>Every offered output option lowers\<close>

lemma resolve_output_axis: "resolve_axis op (output_axis d c) = resolve_axis op (output_axis d c')"
  by (simp add: resolve_axis_def output_axis_def)

definition resolves :: "tile_op \<Rightarrow> TileAxis \<Rightarrow> bool" where
  "resolves op a \<longleftrightarrow> (\<exists>v. resolve_axis op a = Inr (Some v))"

lemma resolve_axes_all: "list_all (resolves op) spec \<Longrightarrow> \<exists>vs. resolve_axes op spec = Inr (Some vs) \<and> length vs = length spec"
  by (induction spec) (auto simp: resolves_def)

lemma resolve_axes_some: "resolve_axes op spec = Inr (Some vs) \<Longrightarrow> list_all (resolves op) spec"
  by (induction spec arbitrary: vs) (auto simp: resolves_def split: option.splits)

lemma lowering_accepts_resolves: "lowering_accepts op a = Inr True \<Longrightarrow> resolves op a"
  by (auto simp: lowering_accepts_def try_resolve_tile_axis_loop_vars_def resolves_def split: if_splits option.splits)

definition dim_entry_ok :: "tile_op \<Rightarrow> int \<Rightarrow> int \<times> int list \<Rightarrow> bool" where
  "dim_entry_ok op stick e \<longleftrightarrow> 0 \<le> fst e \<and> fst e \<noteq> stick \<and> distinct (snd e) \<and>
     (\<forall>c\<in>set (snd e). output_count_ok op (nat (fst e)) c \<and> resolves op (output_axis (fst e) c))"

lemma add_output_dim_ok:
  assumes "add_output_dim op stick ms readers dim acc = Inr acc'"
  shows "acc' = acc \<or> (\<exists>cs. acc' = acc @ [(int dim, cs)] \<and> dim_entry_ok op stick (int dim, cs))"
proof (cases "acc' = acc")
  case False
  let ?rs = "case data_ranges op of None \<Rightarrow> [] | Some rs \<Rightarrow> rs"
  have ns: "int dim \<noteq> stick" using assms False by (auto simp: add_output_dim_def)
  obtain legal where l: "output_split_counts op dim = Inr legal"
    using assms ns by (auto simp: add_output_dim_def)
  define cs where "cs = take ms (filter (\<lambda>c. \<not> unit_tile_breaks_a_reader ?rs dim c readers) legal)"
  have a: "cs \<noteq> []" "lowering_accepts op (output_axis (int dim) (cs ! 0)) = Inr True" "acc' = acc @ [(int dim, cs)]"
    using assms ns l False unfolding cs_def by (auto simp: add_output_dim_def Let_def split: if_splits)
  have "resolves op (output_axis (int dim) (cs ! 0))" by (rule lowering_accepts_resolves [OF a(2)])
  then have r: "resolves op (output_axis (int dim) c)" for c
    unfolding resolves_def using resolve_output_axis by metis
  have ok: "distinct legal" "\<forall>c\<in>set legal. output_count_ok op dim c" using output_split_counts_ok [OF l] by blast+
  then have "distinct cs" "\<forall>c\<in>set cs. output_count_ok op dim c" by (auto simp: cs_def dest!: in_set_takeD)
  then show ?thesis using a(3) r ns by (auto simp: dim_entry_ok_def)
qed simp

definition entries_ok :: "tile_op \<Rightarrow> int \<Rightarrow> nat \<Rightarrow> (int \<times> int list) list \<Rightarrow> bool" where
  "entries_ok op stick n acc \<longleftrightarrow> distinct (map fst acc) \<and> (\<forall>e\<in>set acc. dim_entry_ok op stick e \<and> fst e < int n)"

lemma fold_output_dims_ok:
  "foldE (add_output_dim op stick ms readers) [0..<n] [] = Inr acc \<Longrightarrow> entries_ok op stick n acc"
proof (induction n arbitrary: acc)
  case (Suc n)
  then obtain acc0 where "foldE (add_output_dim op stick ms readers) [0..<n] [] = Inr acc0"
    "add_output_dim op stick ms readers n acc0 = Inr acc" by (auto simp: foldE_append)
  then show ?case using Suc.IH add_output_dim_ok [of op stick ms readers n acc0 acc]
    by (fastforce simp: entries_ok_def)
qed (simp add: entries_ok_def)

lemma build_tiling_space_ok:
  assumes "build_tiling_space op max_d ms readers = Inr sp"
  shows "space_ok sp \<and> max_dims sp = max_d \<and>
    (\<forall>d c. c \<in> set (counts sp d) \<longrightarrow> 0 \<le> d \<and> output_stick_host_dim op \<noteq> None \<and> output_stick_host_dim op \<noteq> Some d \<and>
       \<not> symbolic_extent op \<and> output_count_ok op (nat d) c \<and> resolves op (output_axis d c))"
proof (cases "output_counts sp = []")
  case True
  then show ?thesis using assms
    by (auto simp: build_tiling_space_def space_ok_def counts_def Let_def split: option.splits if_splits)
next
  case False
  obtain stick n readers' where b: "output_stick_host_dim op = Some stick" "\<not> symbolic_extent op" "max_dims sp = max_d"
      "foldE (add_output_dim op stick ms readers') [0..<n] [] = Inr (output_counts sp)"
    using assms False
    by (auto simp: build_tiling_space_def static_extents_def Let_def split: option.splits if_splits)
  have e: "entries_ok op stick n (output_counts sp)" by (rule fold_output_dims_ok [OF b(4)])
  have d: "d \<noteq> stick \<and> 0 \<le> d \<and> output_count_ok op (nat d) c \<and> resolves op (output_axis d c)" if h: "c \<in> set (counts sp d)" for d c
  proof -
    obtain cs where cs: "map_of (output_counts sp) d = Some cs" "c \<in> set cs" using h
      by (cases "map_of (output_counts sp) d") (auto simp: counts_def)
    then have "dim_entry_ok op stick (d, cs)" using e map_of_SomeD [OF cs(1)] by (auto simp: entries_ok_def)
    then show ?thesis using cs(2) by (auto simp: dim_entry_ok_def)
  qed
  have "space_ok sp" using e by (auto simp: space_ok_def entries_ok_def dim_entry_ok_def list_all_iff)
  then show ?thesis using d b(1-3) by auto
qed

section \<open>Reduction options\<close>

definition reduction_count_ok :: "tile_op \<Rightarrow> nat \<Rightarrow> int \<Rightarrow> bool" where
  "reduction_count_ok op pos c \<longleftrightarrow>
     (\<exists>v full. get_red_var op pos = Inr (Some v) \<and> map_of (iter_space op) v = Some (Static full) \<and>
        1 < c \<and> c < full \<and> c dvd full \<and> c \<le> MAX_AUTO_TILE_SPLIT_COUNT \<and>
        reduction_split_cuts_input_stick op v c = Inr False)"

lemma reduction_split_counts_ok:
  assumes "reduction_split_counts op pos = Inr cs"
  shows "\<forall>c\<in>set cs. reduction_count_ok op pos c"
proof
  fix c assume c: "c \<in> set cs"
  obtain r where r: "get_red_var op pos = Inr r" using assms by (cases "get_red_var op pos") (auto simp: reduction_split_counts_def)
  obtain v where v: "r = Some v" using assms c r by (cases r) (auto simp: reduction_split_counts_def)
  obtain e where e: "map_of (iter_space op) v = Some e"
    using assms c r v by (cases "map_of (iter_space op) v") (auto simp: reduction_split_counts_def)
  obtain full where full: "e = Static full" using assms c r v e by (cases e) (auto simp: reduction_split_counts_def)
  have f: "\<not> full \<le> 1" using assms c r v e full by (auto simp: reduction_split_counts_def)
  have rl: "reduction_legal op v full (divisors full) = Inr cs" using assms r v e full f by (simp add: reduction_split_counts_def)
  note l = reduction_legal_ok [OF rl]
  have d: "1 < c" "1 < full div c" "c \<le> MAX_AUTO_TILE_SPLIT_COUNT" "reduction_split_cuts_input_stick op v c = Inr False"
    "c dvd full" using c f divisors_iff [of full c] by (auto simp: l)
  have "c \<noteq> full" using d(1,2) by auto
  moreover have "c \<le> full" using d(5) f by (intro zdvd_imp_le) auto
  ultimately have "c < full" by simp
  then show "reduction_count_ok op pos c" using r v e full d unfolding reduction_count_ok_def by blast
qed

lemma reduction_options_ok:
  assumes "reduction_options op ms enable = Inr opts" "spec \<in> set opts"
  shows "\<exists>pos c. spec = [reduction_axis pos c] \<and> reduction_count_ok op pos c \<and> \<not> symbolic_extent op"
proof -
  let ?f = "\<lambda>red_pos. bindE (reduction_split_counts op red_pos) (\<lambda>cs. Inr (map (\<lambda>c. [reduction_axis red_pos c]) (take ms cs)))"
  obtain n lists where l: "mapE ?f [0..<n] = Inr lists" "opts = concat lists" "\<not> symbolic_extent op"
    using assms by (auto simp: reduction_options_def static_extents_def split: if_splits sum.splits)
  then obtain part where part: "part \<in> set lists" "spec \<in> set part" using assms(2) by auto
  then obtain i where i: "i < n" "spec \<in> set (lists ! i)"
    using mapE_length [OF l(1)] by (metis in_set_conv_nth length_upt minus_nat.diff_0)
  have "?f ([0..<n] ! i) = Inr (lists ! i)" using mapE_Inr_nth [OF l(1), of i] i(1) by simp
  then obtain cs where cs: "reduction_split_counts op i = Inr cs" "lists ! i = map (\<lambda>c. [reduction_axis i c]) (take ms cs)"
    using i(1) by auto
  then show ?thesis using i(2) reduction_split_counts_ok [OF cs(1)] l(3) by (auto dest!: in_set_takeD)
qed

definition offered_level :: "tile_op \<Rightarrow> TileAxis \<Rightarrow> bool" where
  "offered_level op a \<longleftrightarrow> 0 \<le> host_dim a \<and>
     (if axis_is_reduction a then reduction_count_ok op (nat (host_dim a)) (axis_count a)
      else output_stick_host_dim op \<noteq> None \<and> output_stick_host_dim op \<noteq> Some (host_dim a) \<and>
           output_count_ok op (nat (host_dim a)) (axis_count a) \<and> resolves op a)"

lemma options_ok:
  assumes "enumerate_tile_options op max_d ms mo enable readers = Inr opts" "spec \<in> set opts" "spec \<noteq> []"
  shows "\<not> symbolic_extent op \<and> list_all (offered_level op) spec \<and>
    (is_clean spec \<and> sorted_wrt (<) (map host_dim spec) \<and> int (length spec) \<le> max_d \<or> length spec = 1)"
proof -
  obtain sp red where b: "build_tiling_space op max_d ms readers = Inr sp" "reduction_options op ms enable = Inr red"
    "opts = finalize_options (enumerate_specs sp @ red) mo"
    using assms(1) by (auto simp: enumerate_tile_options_def)
  note sp = build_tiling_space_ok [OF b(1)]
  have "set opts \<subseteq> insert [] (set (enumerate_specs sp @ red))"
    unfolding b(3) finalize_options_def Let_def by (auto split: option.splits if_splits dest!: in_set_takeD)
  then consider "admits sp spec" | "spec \<in> set red" using assms(2,3) enumerate_iff sp by auto
  then show ?thesis
  proof cases
    case 1
    then have s: "list_all (legal_level sp) spec" "sorted_wrt (<) (map host_dim spec)" "int (length spec) \<le> max_dims sp"
      using assms(3) by (simp_all add: admits_iff)
    have "offered_level op a \<and> \<not> symbolic_extent op \<and> \<not> axis_is_reduction a" if h: "a \<in> set spec" for a
    proof -
      have a: "\<not> axis_is_reduction a" "axis_count a \<in> set (counts sp (host_dim a))"
        using s(1) h by (auto simp: list_all_iff legal_level_def)
      then have "0 \<le> host_dim a \<and> output_stick_host_dim op \<noteq> None \<and> output_stick_host_dim op \<noteq> Some (host_dim a) \<and>
          \<not> symbolic_extent op \<and> output_count_ok op (nat (host_dim a)) (axis_count a) \<and>
          resolves op (output_axis (host_dim a) (axis_count a))" using sp by blast
      then show ?thesis using a(1) output_axis_eq [OF a(1)] by (simp add: offered_level_def)
    qed
    then show ?thesis using s sp assms(3) by (cases spec) (auto simp: list_all_iff is_clean_def list_ex_iff)
  next
    case 2
    then show ?thesis using reduction_options_ok [OF b(2) 2] by (auto simp: offered_level_def reduction_axis_def)
  qed
qed

definition demo_layout :: tiled_layout where
  "demo_layout = \<lparr>lay_size = [8, 128], lay_stride = [128, 1], stride_map_last = 1, elems_per_stick = 64\<rparr>"

definition demo_sum :: tile_op where
  "demo_sum = \<lparr>computed_buffer = True, fixed_tiled = True, dim_hints_present = False, loop_info_present = False,
     device_layout_present = True, stick_dim = Some 1, data_ranges = Some [Static 8, Static 128], reduction_data = True,
     reduction_ranges = [Static 16], layout_extents = [Static 8, Static 128], static_span_metadata = True,
     op_layout = demo_layout, coord_symbols = [[''d0''], [''d1'']],
     iter_space = [(''d0'', Static 8), (''d1'', Static 128), (''d2'', Static 16)],
     write_symbols = Some [''d0'', ''d1''], read_ranges = [[''d1''], [''d0'', ''d1'', ''d2'']],
     input_deps = [\<lparr>dep_static = True,
       dep_layout = \<lparr>lay_size = [8, 16, 128], lay_stride = [2048, 128, 1], stride_map_last = 1, elems_per_stick = 64\<rparr>,
       dep_coords = Inr [[''d0''], [''d2''], [''d1'']]\<rparr>],
     target_symbols = (\<lambda>d. if d = 0 then [''d0''] else [''d1'']), resize_refused = (\<lambda>d c. False),
     repeats_read = (\<lambda>v. False)\<rparr>"

lemma demo_options:
  "enumerate_tile_options demo_sum 2 4 None True [] =
     Inr [[], [output_axis 0 2], [output_axis 0 4], [reduction_axis 0 2], [reduction_axis 0 4], [reduction_axis 0 8]]"
  by code_simp

text \<open>
  C30: Every option the enumerator offers is legal.  An option beyond the untiled one is either a clean
  nest over strictly ascending output dims of at most the allowed depth, none of them the stick dim, or
  one reduction level; every count is larger than 1, divides its extent exactly, is at most 64, leaves
  no unit tile in a reduction and cuts no stick of the output or of an input the level walks; and an
  operation with a symbolic extent is offered nothing.
\<close>

theorem offered_options_legal:
  assumes "enumerate_tile_options op max_d ms mo enable readers = Inr opts" "spec \<in> set opts" "spec \<noteq> []"
  shows "\<not> symbolic_extent op \<and> list_all (offered_level op) spec \<and>
    (is_clean spec \<and> sorted_wrt (<) (map host_dim spec) \<and> int (length spec) \<le> max_d \<or> length spec = 1)"
  by (rule options_ok [OF assms])

theorem offered_options_legal_witness:
  "enumerate_tile_options demo_sum 2 4 None True [] =
     Inr [[], [output_axis 0 2], [output_axis 0 4], [reduction_axis 0 2], [reduction_axis 0 4], [reduction_axis 0 8]] \<and>
   \<not> symbolic_extent demo_sum \<and> list_all (offered_level demo_sum) [output_axis 0 4]"
  using offered_options_legal [OF demo_options, of "[output_axis 0 4]"] demo_options by simp

lemma reduction_resolves:
  "reduction_count_ok op pos c \<Longrightarrow> (\<And>v. get_red_var op pos = Inr (Some v) \<Longrightarrow> \<not> repeats_read op v) \<Longrightarrow>
     resolves op (reduction_axis pos c)"
  by (auto simp: reduction_count_ok_def resolves_def resolve_axis_def reduction_axis_def)

lemma hints_total:
  assumes "list_all (resolves op) spec" "\<not> symbolic_extent op" "length ids = length spec"
  shows "\<exists>hs. tile_spec_to_dim_hints op spec ids = Inr hs \<and> map split_count hs = level_counts spec \<and> map hint_id hs = ids"
proof -
  obtain vs where vs: "resolve_axes op spec = Inr (Some vs)" "length vs = length spec"
    using resolve_axes_all [OF assms(1)] by blast
  let ?hs = "map (\<lambda>(axis, loop_var, h). \<lparr>split_count = axis_count axis, hint_loop_var = loop_var,
      hint_is_reduction = axis_is_reduction axis, hint_id = h\<rparr>) (zip spec (zip vs ids))"
  have "tile_spec_to_dim_hints op spec ids = Inr ?hs"
    using vs assms(2,3) by (simp add: tile_spec_to_dim_hints_def try_resolve_tile_axis_loop_vars_def)
  moreover have "map split_count ?hs = level_counts spec" "map hint_id ?hs = ids"
    using vs(2) assms(3) by (auto simp: level_counts_def intro!: nth_equalityI)
  ultimately show ?thesis by blast
qed

text \<open>
  An offered option lowers.  Whatever the enumerator offers over output dims, the lowering turns into
  one hint per level with the option's counts, and never raises; so does an offered reduction level
  whose loop variable no read repeats along.
\<close>

theorem offered_options_lower:
  assumes "enumerate_tile_options op max_d ms mo enable readers = Inr opts" "spec \<in> set opts"
    "length ids = length spec"
    "is_clean spec \<or> list_all (\<lambda>a. case get_red_var op (nat (host_dim a)) of Inr (Some v) \<Rightarrow> \<not> repeats_read op v | _ \<Rightarrow> True) spec"
  shows "\<exists>hs. tile_spec_to_dim_hints op spec ids = Inr hs \<and> map split_count hs = level_counts spec \<and> map hint_id hs = ids"
proof (cases "spec = []")
  case True
  then show ?thesis using assms(3)
    by (simp add: tile_spec_to_dim_hints_def try_resolve_tile_axis_loop_vars_def level_counts_def)
next
  case False
  note o = options_ok [OF assms(1,2) False]
  have "resolves op a" if h: "a \<in> set spec" for a
  proof (cases "axis_is_reduction a")
    case True
    have a: "offered_level op a" using o h by (simp add: list_all_iff)
    then have r: "reduction_count_ok op (nat (host_dim a)) (axis_count a)" "a = reduction_axis (nat (host_dim a)) (axis_count a)"
      using True by (auto simp: offered_level_def reduction_axis_def intro: TileAxis.equality)
    have "\<not> is_clean spec" using True h by (auto simp: is_clean_def list_ex_iff)
    then have "case get_red_var op (nat (host_dim a)) of Inr (Some v) \<Rightarrow> \<not> repeats_read op v | _ \<Rightarrow> True"
      using assms(4) h by (auto simp: list_all_iff)
    then show ?thesis by (subst r(2)) (rule reduction_resolves [OF r(1)], auto)
  qed (use o h in \<open>auto simp: offered_level_def list_all_iff\<close>)
  then show ?thesis using o by (intro hints_total [OF _ _ assms(3)]) (simp_all add: list_all_iff)
qed

theorem offered_options_lower_witness:
  "\<exists>hs. tile_spec_to_dim_hints demo_sum [reduction_axis 0 8] [7] = Inr hs \<and>
     map split_count hs = level_counts [reduction_axis 0 8] \<and> map hint_id hs = [7]"
  by (rule offered_options_lower [OF demo_options]) (simp_all add: demo_sum_def split: sum.splits option.splits)

text \<open>
  The enumerator can offer an option the lowering refuses.  An operation whose read repeats along its
  reduction variable is offered a split of that reduction, although the enumerator promises that every
  option lowers; turning that option into hints raises \<open>Unsupported\<close>.
\<close>

theorem offered_reduction_may_not_lower:
  "\<exists>op opts spec. enumerate_tile_options op 2 4 None True [] = Inr opts \<and> spec \<in> set opts \<and>
     tile_spec_to_dim_hints op spec [7] = Inl Unsupported"
proof (intro exI conjI)
  let ?op = "demo_sum\<lparr>repeats_read := (\<lambda>v. v = ''d2'')\<rparr>"
  show "enumerate_tile_options ?op 2 4 None True [] =
     Inr [[], [output_axis 0 2], [output_axis 0 4], [reduction_axis 0 2], [reduction_axis 0 4], [reduction_axis 0 8]]"
    by code_simp
  show "[reduction_axis 0 2] \<in> set [[], [output_axis 0 2], [output_axis 0 4], [reduction_axis 0 2], [reduction_axis 0 4], [reduction_axis 0 8]]"
    by simp
  show "tile_spec_to_dim_hints ?op [reduction_axis 0 2] [7] = Inl Unsupported" by code_simp
qed

lemma index_of_nth: "distinct xs \<Longrightarrow> i < length xs \<Longrightarrow> index_of (xs ! i) xs = i"
proof (induction xs arbitrary: i)
  case (Cons x xs)
  then show ?case by (cases i) (auto simp: index_of_def)
qed simp

lemma index_of_less: "x \<in> set xs \<Longrightarrow> index_of x xs < length xs"
  by (induction xs) (auto simp: index_of_def)

lemma nth_index_of: "x \<in> set xs \<Longrightarrow> xs ! index_of x xs = x"
  by (induction xs) (auto simp: index_of_def)

definition wide_dims :: "tile_op \<Rightarrow> nat list" where
  "wide_dims op = filter (\<lambda>i. reduction_ranges op ! i \<noteq> Static 1) [0..<length (reduction_ranges op)]"

lemma filter_upt_nth_ge: "k < length (filter P [0..<n]) \<Longrightarrow> k \<le> filter P [0..<n] ! k"
proof (induction k)
  case (Suc k)
  have "sorted_wrt (<) (filter P [0..<n])" by (simp add: sorted_wrt_filter)
  then have "filter P [0..<n] ! k < filter P [0..<n] ! Suc k"
    by (rule sorted_wrt_nth_less) (use Suc.prems in simp_all)
  with Suc show ?case by simp
qed simp

lemma filter_upt_nth_fix:
  assumes "k < length (filter P [0..<n])"
  shows "filter P [0..<n] ! k = k \<longleftrightarrow> (\<forall>i\<le>k. P i)"
proof
  assume fix_k: "filter P [0..<n] ! k = k"
  have "filter P [0..<n] ! i = i" if "i \<le> k" for i
  proof -
    have "filter P [0..<n] ! i + (k - i) \<le> filter P [0..<n] ! k"
      using that assms
    proof (induction k rule: dec_induct)
      case (step m)
      have "sorted_wrt (<) (filter P [0..<n])" by (simp add: sorted_wrt_filter)
      then have "filter P [0..<n] ! m < filter P [0..<n] ! Suc m"
        by (rule sorted_wrt_nth_less) (use step.prems in simp_all)
      with step show ?case by simp
    qed simp
    with fix_k that have "filter P [0..<n] ! i \<le> i" by simp
    moreover have "i \<le> filter P [0..<n] ! i" using that assms by (intro filter_upt_nth_ge) simp
    ultimately show ?thesis by simp
  qed
  moreover have "filter P [0..<n] ! i \<in> set (filter P [0..<n])" if "i \<le> k" for i using that assms by (intro nth_mem) simp
  ultimately have "i \<in> set (filter P [0..<n])" if "i \<le> k" for i using that by metis
  then show "\<forall>i\<le>k. P i" by simp
next
  assume all: "\<forall>i\<le>k. P i"
  have "length (filter P [0..<n]) \<le> n" using length_filter_le [of P "[0..<n]"] by simp
  then have "[0..<n] = [0..<Suc k] @ [Suc k..<n]" using assms by (metis Suc_leI le_trans upt_add_eq_append le_add_diff_inverse zero_le)
  moreover have "filter P [0..<Suc k] = [0..<Suc k]" using all by (intro filter_True) auto
  ultimately show "filter P [0..<n] ! k = k" by (simp add: nth_append del: upt_Suc)
qed

text \<open>
  C39: Going from a reduction loop variable to its position in the reduction ranges and back is the identity
  exactly while no dim of extent 1 comes first.  If the variable has a position, the variable at that position
  is the same one if and only if none of the dims up to it has extent 1; and if the variable at a position is
  known and none of the dims up to it has extent 1, that is the position of the variable.  In particular the
  two directions are inverse for a reduction without dims of extent 1, the only kind for which a reduction is
  offered.
\<close>

theorem reduction_var_position_roundtrip:
  assumes "reduction_loop_vars op = Inr vs" "distinct vs"
  shows "(loop_var_to_reduction_ranges_pos op v = Inr (Some pos) \<longrightarrow>
            (get_red_var op pos = Inr (Some v) \<longleftrightarrow> (\<forall>i\<le>pos. reduction_ranges op ! i \<noteq> Static 1))) \<and>
         (get_red_var op pos = Inr (Some v) \<longrightarrow> (\<forall>i\<le>pos. reduction_ranges op ! i \<noteq> Static 1) \<longrightarrow>
            loop_var_to_reduction_ranges_pos op v = Inr (Some pos))"
proof (intro conjI impI)
  have data: "reduction_data op" using assms(1) by (simp add: reduction_loop_vars_def split: if_splits)
  have wide: "wide_dims op ! k = k \<longleftrightarrow> (\<forall>i\<le>k. reduction_ranges op ! i \<noteq> Static 1)" if "k < length (wide_dims op)" for k
    using filter_upt_nth_fix [OF that [unfolded wide_dims_def]] by (simp add: wide_dims_def)
  have pos_of: "loop_var_to_reduction_ranges_pos op x = Inr (Some q) \<longleftrightarrow>
      x \<in> set vs \<and> length vs \<le> length (wide_dims op) \<and> q = wide_dims op ! index_of x vs" for x q
    using assms(1) by (auto simp: loop_var_to_reduction_ranges_pos_def wide_dims_def Let_def)
  have var_at: "get_red_var op q = Inr (Some x) \<longleftrightarrow>
      q < length vs \<and> length vs \<le> length (wide_dims op) \<and> x = vs ! q" for x q
    using data assms(1) by (auto simp: get_red_var_def loop_var_to_reduction_ranges_pos_def wide_dims_def Let_def)
  have rank: "q < length vs \<and> x = vs ! q \<longleftrightarrow> q = index_of x vs" if "x \<in> set vs" for x q
    using that index_of_less [OF that] nth_index_of [OF that] assms(2) nth_eq_iff_index_eq by metis
  {
    assume p: "loop_var_to_reduction_ranges_pos op v = Inr (Some pos)"
    then have v: "v \<in> set vs" "length vs \<le> length (wide_dims op)" "pos = wide_dims op ! index_of v vs"
      using pos_of by blast+
    have k: "index_of v vs < length (wide_dims op)" using index_of_less [OF v(1)] v(2) by simp
    have "get_red_var op pos = Inr (Some v) \<longleftrightarrow> pos = index_of v vs" using var_at rank [OF v(1)] v(2) by blast
    also have "\<dots> \<longleftrightarrow> (\<forall>i\<le>pos. reduction_ranges op ! i \<noteq> Static 1)"
    proof
      assume "pos = index_of v vs"
      then show "\<forall>i\<le>pos. reduction_ranges op ! i \<noteq> Static 1" using wide [OF k] v(3) by simp
    next
      assume all: "\<forall>i\<le>pos. reduction_ranges op ! i \<noteq> Static 1"
      have "index_of v vs \<le> pos" using filter_upt_nth_ge k v(3) unfolding wide_dims_def by blast
      then show "pos = index_of v vs" using all wide [OF k] v(3) by simp
    qed
    finally show "get_red_var op pos = Inr (Some v) \<longleftrightarrow> (\<forall>i\<le>pos. reduction_ranges op ! i \<noteq> Static 1)" .
  next
    assume g: "get_red_var op pos = Inr (Some v)" and all: "\<forall>i\<le>pos. reduction_ranges op ! i \<noteq> Static 1"
    then have q: "pos < length vs" "length vs \<le> length (wide_dims op)" "v = vs ! pos" using var_at by blast+
    then have "v \<in> set vs" "index_of v vs = pos" using rank [of v pos] by auto
    then show "loop_var_to_reduction_ranges_pos op v = Inr (Some pos)" using pos_of q wide [of pos] all by simp
  }
qed

theorem reduction_var_position_roundtrip_witness:
  "get_red_var demo_sum 0 = Inr (Some ''d2'') \<and>
   get_red_var (demo_sum\<lparr>reduction_ranges := Static 1 # reduction_ranges demo_sum\<rparr>) 1 \<noteq> Inr (Some ''d2'')"
proof -
  let ?op = "demo_sum\<lparr>reduction_ranges := Static 1 # reduction_ranges demo_sum\<rparr>"
  have d: "reduction_loop_vars demo_sum = Inr [''d2'']" "loop_var_to_reduction_ranges_pos demo_sum ''d2'' = Inr (Some 0)"
      "reduction_ranges demo_sum ! 0 \<noteq> Static 1"
      "reduction_loop_vars ?op = Inr [''d2'']" "loop_var_to_reduction_ranges_pos ?op ''d2'' = Inr (Some 1)"
    by code_simp+
  have "\<not> (\<forall>i\<le>1. reduction_ranges ?op ! i \<noteq> Static 1)" by force
  then show ?thesis
    using reduction_var_position_roundtrip [OF d(1), of "''d2''" 0] reduction_var_position_roundtrip [OF d(4), of "''d2''" 1] d(2,3,5) by simp
qed

text \<open>
  With fewer loop variables than such dims no pairing exists, yet the function answers a position: here
  the only loop variable a read carries belongs to the second dim and is given the first.
\<close>

lemma reduction_position_without_pairing:
  "loop_var_to_reduction_ranges_pos
     (demo_sum\<lparr>reduction_ranges := [Static 4, Static 8], read_ranges := [[''d0'', ''d1'', ''d3'']],
        iter_space := [(''d0'', Static 8), (''d1'', Static 128), (''d2'', Static 4), (''d3'', Static 8)]\<rparr>) ''d3'' = Inr (Some 0)"
  by code_simp

end
