(* ===== verification/Core_Mapping.thy ===== *)
theory Core_Mapping
  imports Prelude "HOL-Library.AList" "HOL-Library.List_Lexorder" "HOL-Library.Char_ord"
begin

text \<open>
  Which core owns which slice (\<open>core_mapping.py\<close> and \<open>TensorWorkDivision\<close> of \<open>op_spec.py\<close>).

  A work division splits iteration dimensions into slices; an owner map gives, per split dimension, a
  formula in the physical core number.  The formulas the code builds are the core number, constants,
  floored quotients and remainders; \<open>owner\<close> is their syntax and \<open>owner_at\<close> what sympy's substitution of a
  core number gives, \<open>None\<close> standing for a value that is not an integer.  A dictionary is an association
  list in insertion order with distinct keys.
\<close>

subsection \<open>Owner formulas\<close>

datatype owner = CoreId | Slot int | FloorDiv owner int | Rem owner int

fun owner_at :: "owner \<Rightarrow> int \<Rightarrow> int option" where
  "owner_at CoreId core = Some core"
| "owner_at (Slot k) core = Some k"
| "owner_at (FloorDiv e k) core = (case owner_at e core of None \<Rightarrow> None | Some v \<Rightarrow> if k = 0 then None else Some (v div k))"
| "owner_at (Rem e k) core = (case owner_at e core of None \<Rightarrow> None | Some v \<Rightarrow> if k = 0 then None else Some (v mod k))"

fun subst_core :: "owner \<Rightarrow> owner \<Rightarrow> owner" where
  "subst_core CoreId e = e"
| "subst_core (Slot k) e = Slot k"
| "subst_core (FloorDiv f k) e = FloorDiv (subst_core f e) k"
| "subst_core (Rem f k) e = Rem (subst_core f e) k"

lemma owner_at_subst: "owner_at e core = Some v \<Longrightarrow> owner_at (subst_core f e) core = owner_at f v"
  by (induction f) (auto split: option.splits)

type_synonym 'k splits = "('k \<times> int) list"
type_synonym 'k owners = "('k \<times> owner) list"

definition owner_slot :: "'k owners \<Rightarrow> int \<Rightarrow> 'k \<times> int \<Rightarrow> ('k \<times> int) res" where
  "owner_slot slots core ds =
     (case map_of slots (fst ds) of
        None \<Rightarrow> Inl ValueError
      | Some formula \<Rightarrow>
          (case owner_at formula core of
             None \<Rightarrow> Inl ValueError
           | Some v \<Rightarrow> if 0 \<le> v \<and> v < snd ds then Inr (fst ds, v) else Inl ValueError))"

definition owner_slots :: "'k owners \<Rightarrow> 'k splits \<Rightarrow> int \<Rightarrow> ('k \<times> int) list list res" where
  "owner_slots slots splits num_cores =
     (if num_cores \<le> 0 then Inl ValueError
      else if list_ex (\<lambda>ds. map_of slots (fst ds) = None) splits then Inl ValueError
      else mapE (\<lambda>core. mapE (owner_slot slots core) splits) [0..num_cores - 1])"

definition core_mappings_equal :: "'k owners \<Rightarrow> 'k owners \<Rightarrow> int \<Rightarrow> bool" where
  "core_mappings_equal left right num_cores =
     (if num_cores \<le> 0 then False
      else if set (map fst left) \<noteq> set (map fst right) then False
      else list_all (\<lambda>(d, lf).
             (case map_of right d of
                None \<Rightarrow> False
              | Some rf \<Rightarrow>
                  list_all (\<lambda>core. owner_at lf core \<noteq> None \<and> owner_at lf core = owner_at rf core) [0..num_cores - 1])) left)"

definition same_owner_maps :: "'k splits \<Rightarrow> 'k owners \<Rightarrow> int \<Rightarrow> 'k splits \<Rightarrow> 'k owners \<Rightarrow> int \<Rightarrow> bool" where
  "same_owner_maps left_splits left_slots left_cores right_splits right_slots right_cores =
     (if left_cores \<le> 0 then False
      else if left_cores \<noteq> right_cores then False
      else
        let left = filter (\<lambda>ds. snd ds > 1) left_splits;
            right = filter (\<lambda>ds. snd ds > 1) right_splits
        in if left = [] \<and> right = [] then True
           else if set left \<noteq> set right then False
           else if list_ex (\<lambda>ds. map_of left_slots (fst ds) = None \<or> map_of right_slots (fst ds) = None) left then False
           else core_mappings_equal (map (\<lambda>ds. (fst ds, the (map_of left_slots (fst ds)))) left)
                  (map (\<lambda>ds. (fst ds, the (map_of right_slots (fst ds)))) right) left_cores)"

subsection \<open>Tensor ownership\<close>

record 'k TensorWorkDivision =
  work_slices :: "'k splits"
  core_id_to_work_slice :: "'k owners"
  division_cores :: "int option"

definition physical_core_count :: "'k TensorWorkDivision \<Rightarrow> int" where
  "physical_core_count d = (case division_cores d of Some n \<Rightarrow> n | None \<Rightarrow> prod_list (map snd (work_slices d)))"

definition same_ownership :: "'k TensorWorkDivision \<Rightarrow> 'k TensorWorkDivision \<Rightarrow> bool" where
  "same_ownership a b = same_owner_maps (work_slices a) (core_id_to_work_slice a) (physical_core_count a)
     (work_slices b) (core_id_to_work_slice b) (physical_core_count b)"

definition core_slice :: "'k TensorWorkDivision \<Rightarrow> int \<Rightarrow> 'k \<times> owner \<Rightarrow> ('k \<times> int) res" where
  "core_slice d core de =
     (case owner_at (snd de) core of
        None \<Rightarrow> Inl ValueError
      | Some slot \<Rightarrow>
          (case map_of (work_slices d) (fst de) of
             None \<Rightarrow> Inl KeyError
           | Some split \<Rightarrow> if 0 \<le> slot \<and> slot < split then Inr (fst de, slot) else Inl ValueError))"

definition to_core_slices :: "'k TensorWorkDivision \<Rightarrow> int \<Rightarrow> (int \<times> ('k \<times> int) list) list res" where
  "to_core_slices d num_cores =
     (if num_cores \<le> 0 then Inl ValueError
      else mapE (\<lambda>core. bindE (mapE (core_slice d core) (core_id_to_work_slice d)) (\<lambda>slots. Inr (core, slots)))
             [0..num_cores - 1])"

subsection \<open>Copy edges\<close>

definition overlap :: "int \<Rightarrow> int \<Rightarrow> int \<Rightarrow> int \<Rightarrow> bool" where
  "overlap a an b bn \<longleftrightarrow> a * bn < (b + 1) * an \<and> b * an < (a + 1) * bn"

definition dict_get :: "('k \<times> 'v) list \<Rightarrow> 'k \<Rightarrow> 'v \<Rightarrow> 'v" where
  "dict_get d k v = (case map_of d k of None \<Rightarrow> v | Some x \<Rightarrow> x)"

definition transfer_edges ::
  "'k splits \<Rightarrow> 'k splits \<Rightarrow> (int \<times> ('k \<times> int) list) list \<Rightarrow> (int \<times> ('k \<times> int) list) list \<Rightarrow> (int \<times> int) set" where
  "transfer_edges source_splits destination_splits source_map destination_map =
     set (concat (map (\<lambda>(s_core, s_slice). List.map_filter (\<lambda>(d_core, d_slice).
       if list_all (\<lambda>dim. overlap (dict_get s_slice dim 0) (dict_get source_splits dim 1)
                                  (dict_get d_slice dim 0) (dict_get destination_splits dim 1))
            (map fst source_splits @ map fst destination_splits)
       then Some (s_core, d_core) else None) destination_map) source_map))"

subsection \<open>From splits to owners\<close>

definition dim_formula :: "int \<Rightarrow> int \<Rightarrow> owner" where
  "dim_formula stride split =
     (if split = 1 then Slot 0
      else if stride = 1 then Rem CoreId split
      else Rem (FloorDiv CoreId stride) split)"

fun assign_dims :: "'k list \<Rightarrow> int list \<Rightarrow> nat list \<Rightarrow> int \<Rightarrow> 'k owners \<Rightarrow> 'k owners" where
  "assign_dims dims splits [] stride result = result"
| "assign_dims dims splits (dim # order) stride result =
     assign_dims dims splits order (stride * splits ! dim)
       (AList.update (dims ! dim) (dim_formula stride (splits ! dim)) result)"

definition slice_order :: "int list \<Rightarrow> nat option \<Rightarrow> nat list" where
  "slice_order splits contiguous_dim =
     (case contiguous_dim of
        None \<Rightarrow> [0..<length splits]
      | Some c \<Rightarrow> if splits ! c > 1 then c # remove1 c [0..<length splits] else [0..<length splits])"

definition core_to_slice_mapping :: "'k list \<Rightarrow> int list \<Rightarrow> int \<Rightarrow> nat option \<Rightarrow> 'k owners res" where
  "core_to_slice_mapping dims splits num_cores contiguous_dim =
     (if length dims \<noteq> length splits then Inl ValueError
      else
        let logical_cores = prod_list splits
        in if num_cores < logical_cores then Inl ValueError
           else if logical_cores = 0 then Inl ZeroDivisionError
           else if num_cores mod logical_cores \<noteq> 0 then Inl ValueError
           else if (case contiguous_dim of None \<Rightarrow> False | Some c \<Rightarrow> c \<ge> length splits) then Inl IndexError
           else Inr (assign_dims dims splits (slice_order splits contiguous_dim) 1 []))"

definition index_in :: "'k list \<Rightarrow> 'k option \<Rightarrow> nat option" where
  "index_in dims d =
     (case d of
        None \<Rightarrow> None
      | Some x \<Rightarrow> if x \<in> set dims then Some (length (takeWhile (\<lambda>y. y \<noteq> x) dims)) else None)"

definition merge_dicts :: "('k \<times> 'v) list \<Rightarrow> ('k \<times> 'v) list \<Rightarrow> ('k \<times> 'v) list" where
  "merge_dicts a b = fold (\<lambda>(k, v). AList.update k v) b a"

definition derive_core_mapping ::
  "'k list \<Rightarrow> int list \<Rightarrow> int \<Rightarrow> 'k option \<Rightarrow> 'k splits \<Rightarrow> 'k owners res" where
  "derive_core_mapping dims splits num_cores contiguous_dim grouped_splits =
     (if length dims \<noteq> length splits then Inl ValueError
      else
        let split_by_dim = map_of (zip dims splits)
        in if prod_list splits \<noteq> num_cores then Inl ValueError
           else if list_ex (\<lambda>ds. split_by_dim (fst ds) = None) grouped_splits then Inl ValueError
           else if list_ex (\<lambda>ds. split_by_dim (fst ds) \<noteq> Some (snd ds)) grouped_splits then Inl ValueError
           else if grouped_splits = [] then core_to_slice_mapping dims splits num_cores (index_in dims contiguous_dim)
           else
             let local_dims = filter (\<lambda>d. d \<notin> set (map fst grouped_splits)) dims;
                 local_splits = map (\<lambda>d. the (split_by_dim d)) local_dims;
                 owner_count = prod_list (map snd grouped_splits)
             in if owner_count \<le> 0 \<or> num_cores mod owner_count \<noteq> 0 then Inl ValueError
                else
                  let group_size = num_cores div owner_count
                  in if prod_list local_splits \<noteq> group_size then Inl ValueError
                     else bindE (core_to_slice_mapping (map fst grouped_splits) (map snd grouped_splits) owner_count None) (\<lambda>owner_mapping.
                          bindE (core_to_slice_mapping local_dims local_splits group_size (index_in local_dims contiguous_dim)) (\<lambda>local_mapping.
                            Inr (merge_dicts
                              (map (\<lambda>(d, e). (d, subst_core e (FloorDiv CoreId group_size))) owner_mapping)
                              (map (\<lambda>(d, e). (d, subst_core e (Rem CoreId group_size))) local_mapping)))))"

definition derive_partition_mapping :: "'k list \<Rightarrow> int list \<Rightarrow> int \<Rightarrow> 'k owners res" where
  "derive_partition_mapping dims splits num_cores =
     (let owner_count = prod_list splits
      in if owner_count \<le> 0 \<or> num_cores \<le> 0 \<or> num_cores mod owner_count \<noteq> 0 then Inl ValueError
         else
           let group_size = num_cores div owner_count
           in bindE (core_to_slice_mapping dims splits owner_count None) (\<lambda>mapping.
                Inr (map (\<lambda>(d, e). (d, subst_core e (FloorDiv CoreId group_size))) mapping)))"

section \<open>Mixed-radix owners\<close>

lemma dim_formula_at: "0 < split \<Longrightarrow> 0 < stride \<Longrightarrow> owner_at (dim_formula stride split) core = Some (core div stride mod split)"
  by (simp add: dim_formula_def)

lemma assign_dims_other:
  "d \<notin> (!) dims ` set order \<Longrightarrow> map_of (assign_dims dims splits order stride result) d = map_of result d"
  by (induction order arbitrary: stride result) (auto simp: AList.update_conv')

lemma assign_dims_keys:
  "fst ` set (assign_dims dims splits order stride result) = fst ` set result \<union> (!) dims ` set order"
  by (induction order arbitrary: stride result) (auto simp: dom_update dom_map_of_conv_image_fst [symmetric] AList.update_conv')

lemma assign_dims_head:
  assumes "distinct (map ((!) dims) (i # order))"
  shows "map_of (assign_dims dims splits (i # order) stride result) (dims ! i) = Some (dim_formula stride (splits ! i))"
proof -
  have "dims ! i \<notin> (!) dims ` set order" using assms by auto
  then show ?thesis by (simp add: assign_dims_other AList.update_conv')
qed

definition slot_at :: "'k owners \<Rightarrow> int \<Rightarrow> 'k \<Rightarrow> int option" where
  "slot_at m core d = (case map_of m d of None \<Rightarrow> None | Some e \<Rightarrow> owner_at e core)"

lemma assign_dims_slot:
  assumes "distinct (map ((!) dims) order)" "\<forall>i\<in>set order. 0 < splits ! i" "0 < stride" "i \<in> set order"
  shows "\<exists>v. slot_at (assign_dims dims splits order stride result) core (dims ! i) = Some v \<and> 0 \<le> v \<and> v < splits ! i"
  using assms
proof (induction order arbitrary: stride result)
  case (Cons j order)
  show ?case
  proof (cases "i = j")
    case True
    then have "0 < splits ! i" using Cons.prems(2) by simp
    then show ?thesis using assign_dims_head [OF Cons.prems(1)] True dim_formula_at [of "splits ! i" stride core] Cons.prems(3)
      by (simp add: slot_at_def)
  next
    case False
    have "0 < stride * splits ! j" using Cons.prems(2,3) by simp
    then show ?thesis using Cons.IH [of "stride * splits ! j"] Cons.prems False by simp
  qed
qed simp

text \<open>Equal slots along an order fix the core number modulo the number of slices along it.\<close>

lemma assign_dims_determines:
  assumes "distinct (map ((!) dims) order)" "\<forall>i\<in>set order. 0 < splits ! i" "0 < stride" "c mod stride = c' mod stride"
    "m = assign_dims dims splits order stride result" "\<forall>i\<in>set order. slot_at m c (dims ! i) = slot_at m c' (dims ! i)"
  shows "c mod (stride * prod_list (map ((!) splits) order)) = c' mod (stride * prod_list (map ((!) splits) order))"
  using assms
proof (induction order arbitrary: stride result)
  case (Cons j order)
  have p: "0 < splits ! j" using Cons.prems(2) by simp
  have "slot_at m c (dims ! j) = slot_at m c' (dims ! j)" using Cons.prems(6) by simp
  then have "c div stride mod splits ! j = c' div stride mod splits ! j"
    using assign_dims_head [OF Cons.prems(1)] dim_formula_at [OF p Cons.prems(3)] Cons.prems(5) by (simp add: slot_at_def)
  then have "c mod (stride * splits ! j) = c' mod (stride * splits ! j)"
    using Cons.prems(3,4) p by (simp add: zmod_zmult2_eq)
  then show ?case using Cons.IH [of "stride * splits ! j"] Cons.prems p by (simp add: mult.assoc)
qed simp

lemma slice_order_perm:
  assumes "case contiguous_dim of None \<Rightarrow> True | Some c \<Rightarrow> c < length splits"
  shows "set (slice_order splits contiguous_dim) = {0..<length splits}" "distinct (slice_order splits contiguous_dim)"
    "prod_list (map ((!) splits) (slice_order splits contiguous_dim)) = prod_list splits"
proof -
  let ?o = "slice_order splits contiguous_dim"
  have "mset ?o = mset [0..<length splits]"
    using assms by (cases contiguous_dim) (auto simp: slice_order_def)
  then show "set ?o = {0..<length splits}" "distinct ?o"
    by (metis set_mset_mset set_upt, metis distinct_upt mset_eq_imp_distinct_iff)
  have "mset (map ((!) splits) ?o) = mset (map ((!) splits) [0..<length splits])"
    using \<open>mset ?o = mset [0..<length splits]\<close> by (simp del: mset_upt)
  then have "prod_mset (mset (map ((!) splits) ?o)) = prod_mset (mset splits)" by (simp only: map_nth)
  then show "prod_list (map ((!) splits) ?o) = prod_list splits" by (simp only: prod_mset_prod_list)
qed

subsection \<open>Owner maps that place every slice once\<close>

definition slots_at :: "'k owners \<Rightarrow> 'k list \<Rightarrow> int \<Rightarrow> int option list" where
  "slots_at m dims core = map (slot_at m core) dims"

definition slot_space :: "int list \<Rightarrow> int option list set" where
  "slot_space splits = {map Some xs |xs. list_all2 (\<lambda>x s. 0 \<le> x \<and> x < s) xs splits}"

lemma slot_space_product: "slot_space splits = map Some ` set (product_lists (map (\<lambda>s. [0..s - 1]) splits))"
  unfolding slot_space_def product_lists_set by (auto simp: list_all2_conv_all_nth)

lemma length_product_lists_upto:
  "list_all (\<lambda>s. 0 < s) splits \<Longrightarrow> int (length (product_lists (map (\<lambda>s. [0..s - 1]) splits))) = prod_list splits"
proof (induction splits)
  case (Cons s splits)
  have "length (concat (map (\<lambda>x. map ((#) x) yss) xs)) = length xs * length yss" for xs :: "int list" and yss
    by (induction xs) auto
  then show ?case using Cons by simp
qed simp

lemma slot_space_card:
  assumes "list_all (\<lambda>s. 0 < s) splits"
  shows "finite (slot_space splits)" "int (card (slot_space splits)) = prod_list splits"
proof -
  let ?P = "product_lists (map (\<lambda>s. [0..s - 1]) splits)"
  have d: "distinct ?P" by (intro distinct_product_lists) auto
  have i: "inj_on (map Some) (set ?P)" by (rule inj_on_subset [OF _ subset_UNIV]) simp
  show "finite (slot_space splits)" by (simp add: slot_space_product)
  have "card (slot_space splits) = length ?P"
    unfolding slot_space_product card_image [OF i] by (rule distinct_card [OF d])
  then show "int (card (slot_space splits)) = prod_list splits" using length_product_lists_upto [OF assms] by simp
qed

lemma bij_by_counting:
  assumes "list_all (\<lambda>s. 0 < s) splits" "prod_list splits = n"
    "\<And>c. 0 \<le> c \<Longrightarrow> c < n \<Longrightarrow> f c \<in> slot_space splits"
    "\<And>c c'. 0 \<le> c \<Longrightarrow> c < n \<Longrightarrow> 0 \<le> c' \<Longrightarrow> c' < n \<Longrightarrow> f c = f c' \<Longrightarrow> c = c'"
  shows "bij_betw f {0..<n} (slot_space splits)"
proof -
  have i: "inj_on f {0..<n}" using assms(4) by (auto intro: inj_onI)
  have "card (f ` {0..<n}) = card (slot_space splits)"
    using card_image [OF i] slot_space_card(2) [OF assms(1)] assms(2) by simp
  moreover have "f ` {0..<n} \<subseteq> slot_space splits" using assms(3) by auto
  ultimately have "f ` {0..<n} = slot_space splits" using slot_space_card(1) [OF assms(1)] by (intro card_subset_eq)
  then show ?thesis using i by (simp add: bij_betw_def)
qed

lemma core_to_slice_shape:
  assumes "core_to_slice_mapping dims splits n cd = Inr m"
  shows "length dims = length splits" "case cd of None \<Rightarrow> True | Some c \<Rightarrow> c < length splits"
    "m = assign_dims dims splits (slice_order splits cd) 1 []" "prod_list splits dvd n" "prod_list splits \<le> n"
  using assms by (auto simp: core_to_slice_mapping_def Let_def split: if_splits option.splits)

lemma slice_order_dims:
  assumes "length dims = length splits" "case cd of None \<Rightarrow> True | Some c \<Rightarrow> c < length splits" "distinct dims"
  shows "distinct (map ((!) dims) (slice_order splits cd))" "(!) dims ` set (slice_order splits cd) = set dims"
proof -
  note o = slice_order_perm(1,2) [OF assms(2)]
  have "inj_on ((!) dims) {0..<length dims}" using assms(3) by (simp add: inj_on_def nth_eq_iff_index_eq)
  then show "distinct (map ((!) dims) (slice_order splits cd))" using o assms(1) by (simp add: distinct_map)
  show "(!) dims ` set (slice_order splits cd) = set dims" using o assms(1) by (auto simp: set_conv_nth)
qed

lemma core_to_slice_sound:
  assumes "core_to_slice_mapping dims splits n cd = Inr m" "distinct dims" "list_all (\<lambda>s. 0 < s) splits"
  shows "slots_at m dims core \<in> slot_space splits"
    "slots_at m dims c = slots_at m dims c' \<Longrightarrow> c mod prod_list splits = c' mod prod_list splits"
    "fst ` set m = set dims"
proof -
  note s = core_to_slice_shape [OF assms(1)]
  note o = slice_order_perm [OF s(2)] and od = slice_order_dims [OF s(1,2) assms(2)]
  have p: "\<forall>i\<in>set (slice_order splits cd). 0 < splits ! i" using o(1) assms(3) by (auto simp: list_all_length)
  show "fst ` set m = set dims" using assign_dims_keys [of dims splits "slice_order splits cd" 1 "[]"] od(2) s(3) by simp
  have "\<exists>v. slot_at m core (dims ! i) = Some v \<and> 0 \<le> v \<and> v < splits ! i" if "i < length splits" for i
    using assign_dims_slot [OF od(1) p, of 1 i "[]" core] o(1) that s(3) by simp
  then obtain f where f: "\<And>i. i < length splits \<Longrightarrow> slot_at m core (dims ! i) = Some (f i) \<and> 0 \<le> f i \<and> f i < splits ! i"
    by metis
  have "slots_at m dims core = map Some (map f [0..<length splits])"
    using f s(1) by (auto simp: slots_at_def intro!: nth_equalityI)
  moreover have "list_all2 (\<lambda>x s. 0 \<le> x \<and> x < s) (map f [0..<length splits]) splits"
    using f by (simp add: list_all2_conv_all_nth)
  ultimately show "slots_at m dims core \<in> slot_space splits" unfolding slot_space_def by blast
  assume "slots_at m dims c = slots_at m dims c'"
  then have "\<forall>i\<in>set (slice_order splits cd). slot_at m c (dims ! i) = slot_at m c' (dims ! i)"
    using o(1) s(1) by (auto simp: slots_at_def map_eq_conv)
  then show "c mod prod_list splits = c' mod prod_list splits"
    using assign_dims_determines [OF od(1) p, of 1 c c' m "[]"] s(3) o(3) by simp
qed

lemma index_in_bound: "case index_in dims d of None \<Rightarrow> True | Some c \<Rightarrow> c < length dims"
proof -
  have "x \<in> set dims \<Longrightarrow> length (takeWhile (\<lambda>y. y \<noteq> x) dims) < length dims" for x by (induction dims) auto
  then show ?thesis by (auto simp: index_in_def split: option.splits)
qed

lemma core_to_slice_total:
  assumes "length dims = length splits" "prod_list splits = n" "0 < n" "case cd of None \<Rightarrow> True | Some c \<Rightarrow> c < length splits"
  shows "\<exists>m. core_to_slice_mapping dims splits n cd = Inr m"
  using assms by (auto simp: core_to_slice_mapping_def Let_def split: option.splits)

lemma map_of_map_snd: "map_of (map (\<lambda>(d, e). (d, f e)) m) k = map_option f (map_of m k)"
  by (induction m) auto

lemma slot_at_subst:
  assumes "owner_at e core = Some v"
  shows "slot_at (map (\<lambda>(d, f). (d, subst_core f e)) m) core d = slot_at m v d"
  using owner_at_subst [OF assms] by (simp add: slot_at_def map_of_map_snd split: option.splits)

lemma merge_dicts_lookup: "map_of (merge_dicts a b) k = (case map_of (rev b) k of None \<Rightarrow> map_of a k | Some v \<Rightarrow> Some v)"
proof (induction b arbitrary: a)
  case (Cons x b)
  then show ?case by (cases x) (auto simp: merge_dicts_def AList.update_conv' map_add_def split: option.splits)
qed (simp add: merge_dicts_def)

lemma slot_space_iff:
  "slots_at m dims core \<in> slot_space splits \<longleftrightarrow> length dims = length splits \<and>
    (\<forall>i<length dims. \<exists>v. slot_at m core (dims ! i) = Some v \<and> 0 \<le> v \<and> v < splits ! i)"
proof
  assume "slots_at m dims core \<in> slot_space splits"
  then obtain xs where x: "slots_at m dims core = map Some xs" "list_all2 (\<lambda>x s. 0 \<le> x \<and> x < s) xs splits"
    by (auto simp: slot_space_def)
  have l: "length dims = length xs" using arg_cong [OF x(1), of length] by (simp add: slots_at_def)
  have "slot_at m core (dims ! i) = Some (xs ! i)" if "i < length dims" for i
    using arg_cong [OF x(1), of "\<lambda>ys. ys ! i"] that l by (simp add: slots_at_def)
  then show "length dims = length splits \<and>
    (\<forall>i<length dims. \<exists>v. slot_at m core (dims ! i) = Some v \<and> 0 \<le> v \<and> v < splits ! i)"
    using x(2) l by (auto simp: list_all2_conv_all_nth)
next
  assume a: "length dims = length splits \<and>
    (\<forall>i<length dims. \<exists>v. slot_at m core (dims ! i) = Some v \<and> 0 \<le> v \<and> v < splits ! i)"
  then obtain f where f: "\<And>i. i < length dims \<Longrightarrow> slot_at m core (dims ! i) = Some (f i) \<and> 0 \<le> f i \<and> f i < splits ! i"
    by metis
  have "slots_at m dims core = map Some (map f [0..<length dims])"
    using f by (auto simp: slots_at_def intro!: nth_equalityI)
  moreover have "list_all2 (\<lambda>x s. 0 \<le> x \<and> x < s) (map f [0..<length dims]) splits"
    using f a by (simp add: list_all2_conv_all_nth)
  ultimately show "slots_at m dims core \<in> slot_space splits" unfolding slot_space_def by blast
qed

lemma slots_at_eq_iff: "slots_at m dims c = slots_at m dims c' \<longleftrightarrow> (\<forall>d\<in>set dims. slot_at m c d = slot_at m c' d)"
  by (simp add: slots_at_def)

lemma map_of_rev_distinct: "distinct (map fst xs) \<Longrightarrow> map_of (rev xs) = map_of xs"
proof (induction xs)
  case (Cons x xs)
  have "map_of xs (fst x) = None" using Cons.prems by (simp add: map_of_eq_None_iff)
  then show ?case using Cons by (auto simp: fun_eq_iff map_add_def split: option.splits)
qed simp

text \<open>The two halves of a grouped mapping: groups of cores own the grouped dimensions, cores inside a group the rest.\<close>

definition grouped_slots :: "'k owners \<Rightarrow> 'k owners \<Rightarrow> int \<Rightarrow> 'k owners" where
  "grouped_slots om lm gs = merge_dicts (map (\<lambda>(d, e). (d, subst_core e (FloorDiv CoreId gs))) om)
     (map (\<lambda>(d, e). (d, subst_core e (Rem CoreId gs))) lm)"

lemma grouped_slot_at:
  assumes "0 < gs" "distinct (map fst lm)" "fst ` set om \<inter> fst ` set lm = {}"
  shows "d \<in> fst ` set om \<Longrightarrow> slot_at (grouped_slots om lm gs) core d = slot_at om (core div gs) d"
    "d \<in> fst ` set lm \<Longrightarrow> slot_at (grouped_slots om lm gs) core d = slot_at lm (core mod gs) d"
proof -
  let ?b = "map (\<lambda>(d, e). (d, subst_core e (Rem CoreId gs))) lm"
  have "map fst ?b = map fst lm" by (induction lm) auto
  then have db: "distinct (map fst ?b)" using assms(2) by (simp only:)
  have r: "map_of (rev ?b) = map_of ?b" using db by (rule map_of_rev_distinct)
  have m: "map_of (grouped_slots om lm gs) d =
      (case map_of ?b d of None \<Rightarrow> map_of (map (\<lambda>(d, e). (d, subst_core e (FloorDiv CoreId gs))) om) d | Some v \<Rightarrow> Some v)"
    by (simp add: grouped_slots_def merge_dicts_lookup r)
  show "slot_at (grouped_slots om lm gs) core d = slot_at om (core div gs) d" if "d \<in> fst ` set om"
  proof -
    have "map_of ?b d = None" using that assms(3) by (auto simp: map_of_map_snd map_of_eq_None_iff)
    then have "slot_at (grouped_slots om lm gs) core d = slot_at (map (\<lambda>(d, e). (d, subst_core e (FloorDiv CoreId gs))) om) core d"
      by (simp add: slot_at_def m)
    also have "\<dots> = slot_at om (core div gs) d" using assms(1) by (intro slot_at_subst) simp
    finally show ?thesis .
  qed
  show "slot_at (grouped_slots om lm gs) core d = slot_at lm (core mod gs) d" if a: "d \<in> fst ` set lm"
  proof -
    obtain e where "map_of lm d = Some e" using a by (cases "map_of lm d") (auto simp: map_of_eq_None_iff)
    then obtain e' where "map_of ?b d = Some e'" by (simp add: map_of_map_snd)
    then have "slot_at (grouped_slots om lm gs) core d = slot_at ?b core d" by (simp add: slot_at_def m)
    also have "\<dots> = slot_at lm (core mod gs) d" using assms(1) by (intro slot_at_subst) simp
    finally show ?thesis .
  qed
qed

lemma assign_dims_distinct: "distinct (map fst result) \<Longrightarrow> distinct (map fst (assign_dims dims splits order stride result))"
  by (induction order arbitrary: stride result) (auto simp: distinct_update)

lemma core_to_slice_distinct: "core_to_slice_mapping dims splits n cd = Inr m \<Longrightarrow> distinct (map fst m)"
  using core_to_slice_shape(3) assign_dims_distinct [of "[]"] by fastforce

lemma core_to_slice_bij:
  assumes "core_to_slice_mapping dims splits n cd = Inr m" "distinct dims" "list_all (\<lambda>s. 0 < s) splits" "prod_list splits = n"
  shows "bij_betw (slots_at m dims) {0..<n} (slot_space splits)"
proof (rule bij_by_counting [OF assms(3,4)])
  fix c c'
  assume "0 \<le> c" "c < n" "0 \<le> c'" "c' < n" "slots_at m dims c = slots_at m dims c'"
  then show "c = c'" using core_to_slice_sound(2) [OF assms(1-3), of c c'] assms(4) by simp
qed (rule core_to_slice_sound(1) [OF assms(1-3)])

lemma prod_list_pos: "list_all (\<lambda>s. 0 < s) (splits :: int list) \<Longrightarrow> 0 < prod_list splits"
  by (induction splits) auto

lemma div_less_bound:
  assumes "0 < k" "x < n * (k :: int)"
  shows "x div k < n"
proof (rule ccontr)
  assume "\<not> x div k < n"
  then have "n * k \<le> x div k * k" using assms(1) by (intro mult_right_mono) auto
  moreover have "x = x div k * k + x mod k" "0 \<le> x mod k" using assms(1) by simp_all
  ultimately show False using assms(2) by linarith
qed

lemma grouped_bij:
  assumes om: "core_to_slice_mapping gd gsp oc None = Inr om" and lm: "core_to_slice_mapping ld lsp gs cd = Inr lm"
    and d: "distinct gd" "distinct ld" "set gd \<inter> set ld = {}"
    and p: "list_all (\<lambda>s. 0 < s) gsp" "list_all (\<lambda>s. 0 < s) lsp" "prod_list gsp = oc" "prod_list lsp = gs"
    and dims: "set gd \<subseteq> set dims" "set ld \<subseteq> set dims" "length dims = length splits" "list_all (\<lambda>s. 0 < s) splits" "prod_list splits = oc * gs"
    and sp: "set (zip dims splits) \<subseteq> set (zip gd gsp) \<union> set (zip ld lsp)"
  shows "bij_betw (slots_at (grouped_slots om lm gs) dims) {0..<oc * gs} (slot_space splits)"
proof -
  let ?m = "grouped_slots om lm gs"
  have pos: "0 < gs" "0 < oc" using p prod_list_pos by metis+
  note so = core_to_slice_sound [OF om d(1) p(1)] and sl = core_to_slice_sound [OF lm d(2) p(2)]
  have dis: "fst ` set om \<inter> fst ` set lm = {}" using so(3) sl(3) d(3) by simp
  note g = grouped_slot_at [OF pos(1) core_to_slice_distinct [OF lm] dis]
  show ?thesis
  proof (rule bij_by_counting [OF dims(4,5)])
    fix c
    have "\<exists>v. slot_at ?m c (dims ! i) = Some v \<and> 0 \<le> v \<and> v < splits ! i" if i: "i < length dims" for i
    proof -
      have "(dims ! i, splits ! i) \<in> set (zip gd gsp) \<union> set (zip ld lsp)"
        using sp dims(3) i by (auto simp: set_zip)
      then consider j where "j < length gd" "gd ! j = dims ! i" "gsp ! j = splits ! i"
        | j where "j < length ld" "ld ! j = dims ! i" "lsp ! j = splits ! i"
        by (auto simp: set_zip)
      then show ?thesis
      proof cases
        case 1
        then have "\<exists>v. slot_at om (c div gs) (dims ! i) = Some v \<and> 0 \<le> v \<and> v < splits ! i"
          using so(1) [of "c div gs"] unfolding slot_space_iff by metis
        moreover have "dims ! i \<in> fst ` set om" using 1 so(3) by (metis nth_mem)
        ultimately show ?thesis using g(1) by simp
      next
        case 2
        then have "\<exists>v. slot_at lm (c mod gs) (dims ! i) = Some v \<and> 0 \<le> v \<and> v < splits ! i"
          using sl(1) [of "c mod gs"] unfolding slot_space_iff by metis
        moreover have "dims ! i \<in> fst ` set lm" using 2 sl(3) by (metis nth_mem)
        ultimately show ?thesis using g(2) by simp
      qed
    qed
    then show "slots_at ?m dims c \<in> slot_space splits" using dims(3) by (simp add: slot_space_iff)
  next
    fix c c'
    assume c: "0 \<le> c" "c < oc * gs" "0 \<le> c'" "c' < oc * gs" "slots_at ?m dims c = slots_at ?m dims c'"
    have "slots_at om gd (c div gs) = slots_at om gd (c' div gs)"
      using c(5) g(1) so(3) dims(1) unfolding slots_at_eq_iff by (metis subsetD)
    then have "c div gs mod oc = c' div gs mod oc" using so(2) p(3) by metis
    moreover have "0 \<le> x div gs" "x div gs < oc" if "0 \<le> x" "x < oc * gs" for x
      using that pos by (simp_all add: pos_imp_zdiv_nonneg_iff div_less_bound)
    ultimately have "c div gs = c' div gs" using c(1-4) by simp
    moreover have "slots_at lm ld (c mod gs) = slots_at lm ld (c' mod gs)"
      using c(5) g(2) sl(3) dims(2) unfolding slots_at_eq_iff by (metis subsetD)
    then have "c mod gs mod gs = c' mod gs mod gs" using sl(2) p(4) by metis
    then have "c mod gs = c' mod gs" by simp
    ultimately show "c = c'" by (metis div_mult_mod_eq)
  qed
qed

lemma derive_core_mapping_bij:
  assumes "derive_core_mapping dims splits num_cores contiguous_dim grouped = Inr m" "distinct dims"
    "list_all (\<lambda>s. 0 < s) splits" "distinct (map fst grouped)"
  shows "bij_betw (slots_at m dims) {0..<num_cores} (slot_space splits)"
proof (cases "grouped = []")
  case True
  then have "core_to_slice_mapping dims splits num_cores (index_in dims contiguous_dim) = Inr m" "prod_list splits = num_cores"
    using assms(1) by (auto simp: derive_core_mapping_def Let_def split: if_splits)
  then show ?thesis using assms(2,3) by (intro core_to_slice_bij)
next
  case False
  let ?sd = "map_of (zip dims splits)" and ?g = "map fst grouped"
  define ld where "ld = filter (\<lambda>d. d \<notin> set ?g) dims"
  define lsp where "lsp = map (\<lambda>d. the (?sd d)) ld"
  define oc where "oc = prod_list (map snd grouped)"
  define gs where "gs = num_cores div oc"
  obtain om lm where r: "length dims = length splits" "prod_list splits = num_cores"
    "\<forall>ds\<in>set grouped. ?sd (fst ds) = Some (snd ds)" "0 < oc" "num_cores mod oc = 0" "prod_list lsp = gs"
    "core_to_slice_mapping ?g (map snd grouped) oc None = Inr om"
    "core_to_slice_mapping ld lsp gs (index_in ld contiguous_dim) = Inr lm" "m = grouped_slots om lm gs"
    using assms(1) False unfolding derive_core_mapping_def Let_def
    ld_def [symmetric] lsp_def [symmetric] oc_def [symmetric] gs_def [symmetric] grouped_slots_def [symmetric]
    by (clarsimp simp: list_ex_iff split: if_splits)
  have sd: "?sd d = Some s \<longleftrightarrow> (d, s) \<in> set (zip dims splits)" for d s
    using assms(2) r(1) by simp
  have pos: "0 < s" if "(d, s) \<in> set (zip dims splits)" for d s
    using that assms(3) by (auto simp: list_all_iff dest: set_zip_rightD)
  have gz: "zip ?g (map snd grouped) = grouped" by (rule zip_map_fst_snd)
  have gsub: "set grouped \<subseteq> set (zip dims splits)" using r(3) sd by fastforce
  have ldz: "(d, s) \<in> set (zip ld lsp)" if "(d, s) \<in> set (zip dims splits)" "d \<notin> set ?g" for d s
  proof -
    have "d \<in> set ld" using that by (auto simp: ld_def dest: set_zip_leftD)
    moreover have "?sd d = Some s" using that(1) sd by blast
    ultimately show ?thesis unfolding lsp_def by (force simp: set_zip set_conv_nth)
  qed
  have "bij_betw (slots_at (grouped_slots om lm gs) dims) {0..<oc * gs} (slot_space splits)"
  proof (rule grouped_bij [OF r(7,8) assms(4)])
    show "distinct ld" "set ?g \<inter> set ld = {}" "set ld \<subseteq> set dims" using assms(2) by (auto simp: ld_def)
    show "list_all (\<lambda>s. 0 < s) (map snd grouped)" using gsub pos by (auto simp: list_all_iff)
    have "\<exists>s. (d, s) \<in> set (zip dims splits)" if "d \<in> set ld" for d
      using that r(1) unfolding ld_def by (metis filter_is_subset in_set_impl_in_set_zip1 subsetD)
    then have "0 < the (?sd d)" if "d \<in> set ld" for d using that sd pos by (metis option.sel)
    then show "list_all (\<lambda>s. 0 < s) lsp" by (simp add: lsp_def list_all_iff)
    show "prod_list (map snd grouped) = oc" by (simp add: oc_def)
    show "set ?g \<subseteq> set dims" using gsub set_zip_leftD by fastforce
    show "prod_list splits = oc * gs" using r(2,5) by (simp add: gs_def mult.commute mod_0_imp_dvd)
    have "(d, s) \<in> set grouped" if z: "(d, s) \<in> set (zip dims splits)" "d \<in> set ?g" for d s
    proof -
      obtain s' where s': "(d, s') \<in> set grouped" using z(2) by auto
      then have "?sd d = Some s'" using r(3) by fastforce
      moreover have "?sd d = Some s" using z(1) sd by blast
      ultimately show ?thesis using s' by simp
    qed
    then show "set (zip dims splits) \<subseteq> set (zip ?g (map snd grouped)) \<union> set (zip ld lsp)"
      using ldz unfolding gz by (auto simp del: set_map)
  qed (use r assms(3) in auto)
  moreover have "oc * gs = num_cores" using r(5) by (simp add: gs_def mult.commute mod_0_imp_dvd)
  ultimately show ?thesis using r(9) by simp
qed

text \<open>
  C5: Every slice combination of a divided operation belongs to exactly one core.  Whatever the
  contiguous dimension and the grouped dimensions, the mapping derived for positive splits of distinct
  dimensions is a bijection from the cores onto the slice combinations.
\<close>

theorem core_mapping_bijective:
  assumes "derive_core_mapping dims splits num_cores contiguous_dim grouped = Inr m" "distinct dims"
    "list_all (\<lambda>s. 0 < s) splits" "distinct (map fst grouped)"
  shows "bij_betw (slots_at m dims) {0..<num_cores} (slot_space splits)"
  by (rule derive_core_mapping_bij [OF assms])

theorem core_mapping_bijective_witness:
  "\<exists>m. derive_core_mapping [''m'', ''n'', ''k''] [2, 4, 4] 32 (Some ''k'') [(''n'', 4)] = Inr m \<and>
     bij_betw (slots_at m [''m'', ''n'', ''k'']) {0..<32} (slot_space [2, 4, 4])"
proof -
  obtain m where m: "derive_core_mapping [''m'', ''n'', ''k''] [2, 4, 4] 32 (Some ''k'') [(''n'', 4)] = Inr m"
    by (simp add: derive_core_mapping_def core_to_slice_mapping_def Let_def index_in_def)
  then show ?thesis using core_mapping_bijective [OF m] by simp
qed

lemma derive_partition_shape:
  assumes "derive_partition_mapping dims splits num_cores = Inr m"
  obtains p where "core_to_slice_mapping dims splits (prod_list splits) None = Inr p" "0 < prod_list splits" "0 < num_cores"
    "prod_list splits * (num_cores div prod_list splits) = num_cores"
    "m = map (\<lambda>(d, e). (d, subst_core e (FloorDiv CoreId (num_cores div prod_list splits)))) p"
proof -
  let ?n = "prod_list splits"
  have c: "\<not> (?n \<le> 0 \<or> num_cores \<le> 0 \<or> num_cores mod ?n \<noteq> 0)"
    using assms by (cases "?n \<le> 0 \<or> num_cores \<le> 0 \<or> num_cores mod ?n \<noteq> 0") (simp_all add: derive_partition_mapping_def Let_def)
  then obtain p where p: "core_to_slice_mapping dims splits ?n None = Inr p"
    "m = map (\<lambda>(d, e). (d, subst_core e (FloorDiv CoreId (num_cores div ?n)))) p"
    using assms unfolding derive_partition_mapping_def Let_def by auto
  have "?n * (num_cores div ?n) = num_cores" using c by (metis mult_div_mod_eq add_0_right)
  then show thesis using that [OF p(1) _ _ _ p(2)] c by simp
qed

lemma interval_div_eq:
  assumes "0 < (k :: int)"
  shows "x div k = g \<longleftrightarrow> g * k \<le> x \<and> x < (g + 1) * k"
proof
  have e: "x = x div k * k + x mod k" "0 \<le> x mod k" "x mod k < k" using assms by simp_all
  show "x div k = g \<Longrightarrow> g * k \<le> x \<and> x < (g + 1) * k" using e by (auto simp: distrib_right)
  assume a: "g * k \<le> x \<and> x < (g + 1) * k"
  then have "x div k < g + 1" using assms by (intro div_less_bound) auto
  moreover have "g \<le> x div k" using zdiv_mono1 [of "g * k" x k] a assms by simp
  ultimately show "x div k = g" by simp
qed

text \<open>
  A partition with fewer owners than cores is replicated evenly.  The owners of any slice
  combination are one contiguous run of \<open>num_cores div owner_count\<close> cores, and the runs of different
  combinations are the consecutive runs of the core range.
\<close>

theorem partition_owners_contiguous:
  assumes "derive_partition_mapping dims splits num_cores = Inr m" "distinct dims" "list_all (\<lambda>s. 0 < s) splits"
  shows "\<exists>group. bij_betw group (slot_space splits) {0..<prod_list splits} \<and>
    (\<forall>slots. slots \<in> slot_space splits \<longrightarrow>
      {core. 0 \<le> core \<and> core < num_cores \<and> slots_at m dims core = slots} =
      {group slots * (num_cores div prod_list splits)..<(group slots + 1) * (num_cores div prod_list splits)})"
proof -
  obtain p where p: "core_to_slice_mapping dims splits (prod_list splits) None = Inr p" "0 < prod_list splits" "0 < num_cores"
    "prod_list splits * (num_cores div prod_list splits) = num_cores"
    "m = map (\<lambda>(d, e). (d, subst_core e (FloorDiv CoreId (num_cores div prod_list splits)))) p"
    by (rule derive_partition_shape [OF assms(1)])
  let ?n = "prod_list splits" and ?g = "num_cores div prod_list splits"
  have g: "0 < ?g" using p(2-4) by (metis zero_less_mult_pos)
  have b: "bij_betw (slots_at p dims) {0..<?n} (slot_space splits)" by (rule core_to_slice_bij [OF p(1) assms(2,3) refl])
  define group where "group = inv_into {0..<?n} (slots_at p dims)"
  have bg: "bij_betw group (slot_space splits) {0..<?n}" unfolding group_def by (rule bij_betw_inv_into [OF b])
  have s: "slots_at m dims core = slots_at p dims (core div ?g)" for core
    unfolding p(5) slots_at_def using g by (auto intro!: slot_at_subst)
  have "{core. 0 \<le> core \<and> core < num_cores \<and> slots_at m dims core = slots} = {group slots * ?g..<(group slots + 1) * ?g}"
    if a: "slots \<in> slot_space splits" for slots
  proof -
    have r: "0 \<le> group slots" "group slots < ?n" "slots_at p dims (group slots) = slots"
      using bg a b bij_betw_inv_into_right [OF b a] by (auto simp: bij_betw_def group_def)
    have "slots_at m dims core = slots \<longleftrightarrow> core div ?g = group slots" if "0 \<le> core" "core < num_cores" for core
    proof -
      have "0 \<le> core div ?g" "core div ?g < ?n" using that g p(4) by (auto intro!: div_less_bound simp: pos_imp_zdiv_nonneg_iff)
      then show ?thesis using r b unfolding s by (auto simp: bij_betw_def inj_on_def)
    qed
    moreover have "0 \<le> core \<and> core < num_cores" if "core div ?g = group slots" for core
    proof -
      have "group slots * ?g \<le> core" "core < (group slots + 1) * ?g" using that interval_div_eq [OF g] by blast+
      moreover have "(group slots + 1) * ?g \<le> ?n * ?g" using r(2) g by (intro mult_right_mono) auto
      moreover have "0 \<le> group slots * ?g" using r(1) g by simp
      ultimately show ?thesis using p(4) by linarith
    qed
    ultimately have "(0 \<le> core \<and> core < num_cores \<and> slots_at m dims core = slots) \<longleftrightarrow> core div ?g = group slots" for core
      by blast
    then show ?thesis unfolding interval_div_eq [OF g] atLeastLessThan_def lessThan_def atLeast_def by (simp add: Collect_conj_eq)
  qed
  then show ?thesis using bg by blast
qed

theorem partition_owners_contiguous_witness:
  "\<exists>m group. derive_partition_mapping [''m'', ''n''] [2, 4] 32 = Inr m \<and> bij_betw group (slot_space [2, 4]) {0..<8} \<and>
    {core. 0 \<le> core \<and> core < 32 \<and> slots_at m [''m'', ''n''] core = [Some 1, Some 3]} =
      {group [Some 1, Some 3] * 4..<(group [Some 1, Some 3] + 1) * 4}"
proof -
  obtain m where m: "derive_partition_mapping [''m'', ''n''] [2, 4] 32 = Inr m"
    by (simp add: derive_partition_mapping_def core_to_slice_mapping_def Let_def)
  have "[Some 1, Some 3] = map Some [1, 3 :: int]" by simp
  then have "[Some 1, Some 3] \<in> slot_space [2, 4]" unfolding slot_space_def by (auto intro!: exI [of _ "[1, 3]"])
  then show ?thesis using partition_owners_contiguous [OF m] m by auto
qed

section \<open>Copy edges are exactly the slices that meet\<close>

text \<open>The points of a domain with the given extents that a slice owns.\<close>

definition in_slice :: "('k \<Rightarrow> int) \<Rightarrow> 'k splits \<Rightarrow> ('k \<times> int) list \<Rightarrow> ('k \<Rightarrow> int) \<Rightarrow> bool" where
  "in_slice ext splits sl p \<longleftrightarrow> (\<forall>d. dict_get sl d 0 * (ext d div dict_get splits d 1) \<le> p d \<and>
     p d < (dict_get sl d 0 + 1) * (ext d div dict_get splits d 1))"

definition split_fits :: "('k \<Rightarrow> int) \<Rightarrow> 'k splits \<Rightarrow> bool" where
  "split_fits ext splits \<longleftrightarrow> (\<forall>d. 0 < ext d \<and> 0 < dict_get splits d 1 \<and> dict_get splits d 1 dvd ext d)"

definition slots_fit :: "'k splits \<Rightarrow> (int \<times> ('k \<times> int) list) list \<Rightarrow> bool" where
  "slots_fit splits m \<longleftrightarrow> (\<forall>(core, sl)\<in>set m. \<forall>d. 0 \<le> dict_get sl d 0 \<and> dict_get sl d 0 < dict_get splits d 1)"

lemma pairs_map_filter:
  "set (concat (map (\<lambda>(a, x). List.map_filter (\<lambda>(b, y). if q x y then Some (a, b) else None) ys) xs)) =
    {(a, b). \<exists>x y. (a, x) \<in> set xs \<and> (b, y) \<in> set ys \<and> q x y}"
proof -
  have i: "(a', b) \<in> set (List.map_filter (\<lambda>(b, y). if q x y then Some (a, b) else None) ys) \<longleftrightarrow> a' = a \<and> (\<exists>y. (b, y) \<in> set ys \<and> q x y)" for a x a' b
    unfolding set_map_filter_iff by (force split: if_splits)
  show ?thesis by (induction xs) (auto simp: i)
qed

lemma dict_get_notin: "k \<notin> fst ` set d \<Longrightarrow> dict_get d k v = v"
  by (simp add: dict_get_def map_of_eq_None_iff [THEN iffD2])

lemma overlap_iff_meet:
  assumes "0 < e" "0 < an" "0 < bn" "an dvd e" "bn dvd e"
  shows "overlap a an b bn \<longleftrightarrow> a * (e div an) < (b + 1) * (e div bn) \<and> b * (e div bn) < (a + 1) * (e div an)"
proof -
  let ?wa = "e div an" and ?wb = "e div bn"
  have w: "an * ?wa = e" "bn * ?wb = e" using assms by simp_all
  then have "0 < ?wa" "0 < ?wb" using assms(1-3) by (metis zero_less_mult_pos)+
  then have pos: "0 < ?wa * ?wb" by simp
  have ex: "(x * bn) * (?wa * ?wb) = (x * ?wa) * e" for x
  proof -
    have "(x * bn) * (?wa * ?wb) = (x * ?wa) * (bn * ?wb)" by (simp only: ac_simps)
    then show ?thesis by (simp only: w)
  qed
  have ey: "(y * an) * (?wa * ?wb) = (y * ?wb) * e" for y
  proof -
    have "(y * an) * (?wa * ?wb) = (y * ?wb) * (an * ?wa)" by (simp only: ac_simps)
    then show ?thesis by (simp only: w)
  qed
  have k: "x * bn < y * an \<longleftrightarrow> x * ?wa < y * ?wb" "y * an < x * bn \<longleftrightarrow> y * ?wb < x * ?wa" for x y
    using mult_less_cancel_right_pos [OF pos, of "x * bn" "y * an"] mult_less_cancel_right_pos [OF pos, of "y * an" "x * bn"]
      mult_less_cancel_right_pos [OF assms(1)] unfolding ex ey by blast+
  show ?thesis unfolding overlap_def k ..
qed

lemma intervals_meet: "(a :: int) < b \<Longrightarrow> c < d \<Longrightarrow> (a < d \<and> c < b) \<longleftrightarrow> (\<exists>p. a \<le> p \<and> p < b \<and> c \<le> p \<and> p < d)"
  by (auto intro: exI [of _ "max a c"])

lemma edge_iff:
  "(sc, dc) \<in> transfer_edges ss ds sm dm \<longleftrightarrow> (\<exists>sl dl. (sc, sl) \<in> set sm \<and> (dc, dl) \<in> set dm \<and>
     (\<forall>d\<in>set (map fst ss @ map fst ds). overlap (dict_get sl d 0) (dict_get ss d 1) (dict_get dl d 0) (dict_get ds d 1)))"
proof -
  let ?P = "\<lambda>sl dl. list_all (\<lambda>d. overlap (dict_get sl d 0) (dict_get ss d 1) (dict_get dl d 0) (dict_get ds d 1)) (map fst ss @ map fst ds)"
  have "transfer_edges ss ds sm dm = {(s, d). \<exists>sl dl. (s, sl) \<in> set sm \<and> (d, dl) \<in> set dm \<and> ?P sl dl}"
    unfolding transfer_edges_def by (rule pairs_map_filter)
  then show ?thesis unfolding list_all_iff by simp
qed

text \<open>
  A copy edge joins two cores exactly when their slices share a point.  For source and destination
  splits that divide the extents of one coordinate domain and slots inside their splits, the computed
  edges are the pairs of cores whose owned regions intersect.
\<close>

theorem transfer_edges_are_intersections:
  assumes "split_fits ext source_splits" "split_fits ext destination_splits"
    "slots_fit source_splits source_map" "slots_fit destination_splits destination_map"
  shows "transfer_edges source_splits destination_splits source_map destination_map =
    {(s, d). \<exists>sl dl p. (s, sl) \<in> set source_map \<and> (d, dl) \<in> set destination_map \<and>
       in_slice ext source_splits sl p \<and> in_slice ext destination_splits dl p}"
proof -
  let ?ss = "source_splits" and ?ds = "destination_splits"
  have "(\<forall>k\<in>set (map fst ?ss @ map fst ?ds). overlap (dict_get sl k 0) (dict_get ?ss k 1) (dict_get dl k 0) (dict_get ?ds k 1)) \<longleftrightarrow>
      (\<exists>p. in_slice ext ?ss sl p \<and> in_slice ext ?ds dl p)" (is "?L \<longleftrightarrow> ?R")
    if m: "(s, sl) \<in> set source_map" "(d, dl) \<in> set destination_map" for s sl d dl
  proof -
    have f: "0 < ext k" "0 < dict_get ?ss k 1" "0 < dict_get ?ds k 1" "dict_get ?ss k 1 dvd ext k" "dict_get ?ds k 1 dvd ext k" for k
      using assms(1,2) by (simp_all add: split_fits_def)
    have z: "dict_get sl k 0 = 0" "dict_get dl k 0 = 0" if "k \<notin> set (map fst ?ss @ map fst ?ds)" for k
    proof -
      have "dict_get ?ss k 1 = 1" "dict_get ?ds k 1 = 1" using that by (simp_all add: dict_get_notin)
      moreover have "0 \<le> dict_get sl k 0 \<and> dict_get sl k 0 < dict_get ?ss k 1" "0 \<le> dict_get dl k 0 \<and> dict_get dl k 0 < dict_get ?ds k 1"
        using assms(3,4) m by (auto simp: slots_fit_def)
      ultimately show "dict_get sl k 0 = 0" "dict_get dl k 0 = 0" by simp_all
    qed
    have one: "overlap 0 1 0 1" by (simp add: overlap_def)
    have all: "?L \<longleftrightarrow> (\<forall>k. overlap (dict_get sl k 0) (dict_get ?ss k 1) (dict_get dl k 0) (dict_get ?ds k 1))"
    proof (intro iffI allI)
      fix k
      assume L: ?L
      show "overlap (dict_get sl k 0) (dict_get ?ss k 1) (dict_get dl k 0) (dict_get ?ds k 1)"
      proof (cases "k \<in> set (map fst ?ss @ map fst ?ds)")
        case False
        then have "dict_get ?ss k 1 = 1" "dict_get ?ds k 1 = 1" by (simp_all add: dict_get_notin)
        then show ?thesis using z [OF False] one by simp
      qed (use L in blast)
    qed blast
    have w: "0 < ext k div dict_get ?ss k 1" "0 < ext k div dict_get ?ds k 1" for k
      using f [of k] by (metis dvd_mult_div_cancel zero_less_mult_pos)+
    have "overlap (dict_get sl k 0) (dict_get ?ss k 1) (dict_get dl k 0) (dict_get ?ds k 1) \<longleftrightarrow>
        (\<exists>q. dict_get sl k 0 * (ext k div dict_get ?ss k 1) \<le> q \<and> q < (dict_get sl k 0 + 1) * (ext k div dict_get ?ss k 1) \<and>
          dict_get dl k 0 * (ext k div dict_get ?ds k 1) \<le> q \<and> q < (dict_get dl k 0 + 1) * (ext k div dict_get ?ds k 1))" for k
      unfolding overlap_iff_meet [OF f] using w [of k] by (intro intervals_meet) (simp_all add: distrib_right)
    then show ?thesis unfolding all in_slice_def by (meson choice_iff')
  qed
  note step = this
  have "(s, d) \<in> transfer_edges ?ss ?ds source_map destination_map \<longleftrightarrow>
      (\<exists>sl dl p. (s, sl) \<in> set source_map \<and> (d, dl) \<in> set destination_map \<and> in_slice ext ?ss sl p \<and> in_slice ext ?ds dl p)" for s d
    unfolding edge_iff using step by (metis (no_types, lifting))
  then show ?thesis by (intro set_eqI) (simp only: split_paired_all mem_Collect_eq case_prod_conv)
qed

theorem transfer_edges_are_intersections_witness:
  "(1, 0) \<in> transfer_edges [(''m'', 4)] [(''m'', 2)] [(0, [(''m'', 0)]), (1, [(''m'', 1)])] [(0, [(''m'', 0)])] \<and>
   (\<exists>p. in_slice (\<lambda>d. 8) [(''m'', 4)] [(''m'', 1)] p \<and> in_slice (\<lambda>d. 8) [(''m'', 2)] [(''m'', 0)] p)"
proof -
  let ?sm = "[(0, [(''m'', 0)]), (1, [(''m'', 1)])] :: (int \<times> (string \<times> int) list) list"
  let ?dm = "[(0, [(''m'', 0)])] :: (int \<times> (string \<times> int) list) list"
  have e: "(1, 0) \<in> transfer_edges [(''m'', 4)] [(''m'', 2)] ?sm ?dm"
    by (simp add: transfer_edges_def List.map_filter_def overlap_def dict_get_def)
  have "split_fits (\<lambda>d. 8) [(''m'', 4)]" "split_fits (\<lambda>d. 8) [(''m'', 2)]" "slots_fit [(''m'', 4)] ?sm" "slots_fit [(''m'', 2)] ?dm"
    by (auto simp: split_fits_def slots_fit_def dict_get_def)
  from transfer_edges_are_intersections [OF this] show ?thesis using e by auto
qed

end
