(* ===== verification/Operation_Mapping.thy ===== *)
theory Operation_Mapping
  imports Core_Mapping
begin

text \<open>
  Core owners of an operation and of its LX tensors (the second half of \<open>core_mapping.py\<close>): one operation
  mapping that agrees with every committed tensor, owners re-expressed in aligned dimensions, the search
  for the one canonical spelling of an ownership, and the LX bytes of one core's slice.
\<close>

subsection \<open>Orders of dimensions\<close>

text \<open>\<open>itertools.permutations\<close>: all orders, lexicographic in the positions.\<close>

function permutations :: "'a list \<Rightarrow> 'a list list" where
  "permutations xs =
     (if xs = [] then [[]]
      else concat (map (\<lambda>i. map ((#) (xs ! i)) (permutations (take i xs @ drop (Suc i) xs))) [0..<length xs]))"
  by pat_completeness auto
termination by (relation "measure length") auto

declare permutations.simps [simp del]

definition MAX_OWNER_PERMUTATION_DIMS :: nat where
  "MAX_OWNER_PERMUTATION_DIMS = 5"

subsection \<open>One mapping for all LX tensors\<close>

definition constrain_dim ::
  "int \<Rightarrow> (string \<Rightarrow> int option) \<Rightarrow> string TensorWorkDivision \<Rightarrow> string \<times> int \<Rightarrow> string owners \<Rightarrow> string owners res" where
  "constrain_dim num_cores split_by_dim division ds constrained =
     (if snd ds \<le> 1 then Inr constrained
      else case split_by_dim (fst ds) of
        None \<Rightarrow> Inl ValueError
      | Some s \<Rightarrow>
          if s \<noteq> snd ds then Inl ValueError
          else case map_of (core_id_to_work_slice division) (fst ds) of
            None \<Rightarrow> Inl KeyError
          | Some expression \<Rightarrow>
              let previous = dict_get constrained (fst ds) expression;
                  constrained' = (if map_of constrained (fst ds) = None then constrained @ [(fst ds, expression)] else constrained)
              in if core_mappings_equal [(fst ds, previous)] [(fst ds, expression)] num_cores then Inr constrained'
                 else Inl ValueError)"

definition constrain_division ::
  "int \<Rightarrow> (string \<Rightarrow> int option) \<Rightarrow> string TensorWorkDivision option \<Rightarrow> string owners \<Rightarrow> string owners res" where
  "constrain_division num_cores split_by_dim division constrained =
     (case division of
        None \<Rightarrow> Inr constrained
      | Some d \<Rightarrow>
          if physical_core_count d \<noteq> num_cores then Inl ValueError
          else foldE (constrain_dim num_cores split_by_dim d) (work_slices d) constrained)"

definition agrees_with :: "string owners \<Rightarrow> string owners \<Rightarrow> int \<Rightarrow> bool res" where
  "agrees_with mapping constrained num_cores =
     (if list_ex (\<lambda>de. map_of mapping (fst de) = None) constrained then Inl KeyError
      else Inr (list_all (\<lambda>de. core_mappings_equal [(fst de, the (map_of mapping (fst de)))] [de] num_cores) constrained))"

fun first_agreeing ::
  "string list \<Rightarrow> int list \<Rightarrow> int \<Rightarrow> string option \<Rightarrow> string owners \<Rightarrow> string list list \<Rightarrow> string owners res" where
  "first_agreeing dims splits num_cores contiguous_dim constrained [] = Inl ValueError"
| "first_agreeing dims splits num_cores contiguous_dim constrained (order # orders) =
     bindE (derive_core_mapping dims splits num_cores contiguous_dim
              (map (\<lambda>d. (d, the (map_of (zip dims splits) d))) order)) (\<lambda>candidate.
     bindE (agrees_with candidate constrained num_cores) (\<lambda>ok.
       if ok then Inr candidate else first_agreeing dims splits num_cores contiguous_dim constrained orders))"

definition derive_operation_mapping ::
  "string splits \<Rightarrow> string TensorWorkDivision option list \<Rightarrow> string option \<Rightarrow> string owners res" where
  "derive_operation_mapping iteration_space tensor_divisions contiguous_dim =
     (let dims = map fst iteration_space;
          splits = map snd iteration_space;
          num_cores = prod_list splits
      in bindE (foldE (constrain_division num_cores (map_of iteration_space)) tensor_divisions []) (\<lambda>constrained.
         if constrained = [] then derive_core_mapping dims splits num_cores contiguous_dim []
         else
           bindE (derive_core_mapping dims splits num_cores contiguous_dim []) (\<lambda>default.
           bindE (agrees_with default constrained num_cores) (\<lambda>ok.
             if ok then Inr default
             else if length constrained > MAX_OWNER_PERMUTATION_DIMS then Inl ValueError
             else first_agreeing dims splits num_cores contiguous_dim constrained (permutations (sort (map fst constrained)))))))"

subsection \<open>Owners in aligned dimensions\<close>

text \<open>Segments are listed innermost first; the outermost takes its share of the split first.\<close>

fun take_factors :: "int \<Rightarrow> int list \<Rightarrow> int list \<times> int" where
  "take_factors remaining [] = ([], remaining)"
| "take_factors remaining (basis # bases) =
     (let factor = gcd remaining basis;
          rest = take_factors (remaining div factor) bases
      in (factor # fst rest, snd rest))"

definition distribute_aligned_split :: "int \<Rightarrow> int list \<Rightarrow> int list \<times> int" where
  "distribute_aligned_split split bases = (let fs = take_factors split (rev bases) in (rev (fst fs), snd fs))"

fun no_split_inside :: "bool \<Rightarrow> (int \<times> int) list \<Rightarrow> bool" where
  "no_split_inside split_inside [] = True"
| "no_split_inside split_inside ((factor, basis) # rest) =
     (if split_inside \<and> factor > 1 then False else no_split_inside (split_inside \<or> factor < basis) rest)"

definition aligned_split_keeps_blocks :: "int \<Rightarrow> int list \<Rightarrow> bool" where
  "aligned_split_keeps_blocks split bases =
     (let fs = distribute_aligned_split split bases
      in if snd fs \<noteq> 1 then False else no_split_inside False (zip (rev (fst fs)) (rev bases)))"

definition place_factor ::
  "int \<Rightarrow> owner \<Rightarrow> string \<times> int \<Rightarrow> int \<times> string splits \<times> string owners \<Rightarrow> (int \<times> string splits \<times> string owners) res" where
  "place_factor num_cores slot df st =
     (case st of (slot_stride, new_splits, new_core_map) \<Rightarrow>
        if snd df = 1 then Inr st
        else
          let new_slot = Rem (FloorDiv slot slot_stride) (snd df);
              conflict = (case map_of new_splits (fst df) of
                 None \<Rightarrow> False
               | Some previous_split \<Rightarrow>
                   previous_split \<noteq> snd df \<or>
                   (case map_of new_core_map (fst df) of
                      None \<Rightarrow> True
                    | Some previous_slot \<Rightarrow> \<not> core_mappings_equal [(fst df, previous_slot)] [(fst df, new_slot)] num_cores))
          in if conflict then Inl ValueError
             else Inr (slot_stride * snd df, AList.update (fst df) (snd df) new_splits, AList.update (fst df) new_slot new_core_map))"

definition remap_dim ::
  "string TensorWorkDivision \<Rightarrow> (string \<Rightarrow> (string \<times> int) list option) \<Rightarrow> string \<times> int \<Rightarrow> string splits \<times> string owners \<Rightarrow>
   (string splits \<times> string owners) res" where
  "remap_dim division dimension_remap ds st =
     (case dimension_remap (fst ds) of
        None \<Rightarrow> Inl ValueError
      | Some new_dims \<Rightarrow>
          let factored = (if length new_dims = 1 then ([snd ds], 1) else distribute_aligned_split (snd ds) (map snd new_dims))
          in if snd factored \<noteq> 1 then Inl ValueError
             else case map_of (core_id_to_work_slice division) (fst ds) of
               None \<Rightarrow> Inl KeyError
             | Some slot \<Rightarrow>
                 bindE (foldE (place_factor (physical_core_count division) slot) (zip (map fst new_dims) (fst factored))
                          (1, fst st, snd st)) (\<lambda>(stride, st'). Inr st'))"

definition remap_work_division ::
  "string TensorWorkDivision \<Rightarrow> (string \<Rightarrow> (string \<times> int) list option) \<Rightarrow> string TensorWorkDivision res" where
  "remap_work_division division dimension_remap =
     bindE (foldE (remap_dim division dimension_remap) (work_slices division) ([], [])) (\<lambda>(new_splits, new_core_map).
       Inr \<lparr>work_slices = new_splits, core_id_to_work_slice = new_core_map, division_cores = Some (physical_core_count division)\<rparr>)"

definition finalize_division ::
  "string splits \<Rightarrow> string TensorWorkDivision option \<Rightarrow> string TensorWorkDivision option res" where
  "finalize_division iteration_space division =
     (case division of
        None \<Rightarrow> Inr None
      | Some d \<Rightarrow>
          let slices = filter (\<lambda>ds. snd ds > 1) (work_slices d)
          in if list_ex (\<lambda>ds. map_of iteration_space (fst ds) = None) slices then Inl ValueError
             else if list_ex (\<lambda>ds. map_of (core_id_to_work_slice d) (fst ds) = None) slices then Inl ValueError
             else
               let verified = \<lparr>work_slices = slices,
                     core_id_to_work_slice = map (\<lambda>ds. (fst ds, the (map_of (core_id_to_work_slice d) (fst ds)))) slices,
                     division_cores = Some (physical_core_count d)\<rparr>
               in bindE (to_core_slices verified (physical_core_count verified)) (\<lambda>_. Inr (Some verified)))"

definition finalize_tensor_work_divisions ::
  "string splits \<Rightarrow> string TensorWorkDivision option list \<Rightarrow> string TensorWorkDivision option list res" where
  "finalize_tensor_work_divisions iteration_space divisions = mapE (finalize_division iteration_space) divisions"

subsection \<open>The one canonical spelling\<close>

fun accept_orders ::
  "string list \<Rightarrow> string splits \<Rightarrow> (string \<Rightarrow> int) \<Rightarrow> int \<Rightarrow> (string TensorWorkDivision \<Rightarrow> bool) \<Rightarrow>
   string TensorWorkDivision list \<Rightarrow> string list list \<Rightarrow> string TensorWorkDivision list option" where
  "accept_orders dims candidate_splits split_of num_cores matches accepted [] = Some accepted"
| "accept_orders dims candidate_splits split_of num_cores matches accepted (order # orders) =
     (case derive_partition_mapping order (map split_of order) num_cores of
        Inl e \<Rightarrow> if e = ValueError then accept_orders dims candidate_splits split_of num_cores matches accepted orders else None
      | Inr mapping \<Rightarrow>
          let candidate = \<lparr>work_slices = candidate_splits,
                core_id_to_work_slice = map (\<lambda>ds. (fst ds, dict_get mapping (fst ds) (Slot 0))) candidate_splits,
                division_cores = Some num_cores\<rparr>
          in if matches candidate \<and> \<not> list_ex (\<lambda>previous. same_ownership previous candidate) accepted
             then if length accepted + 1 > 1 then None
                  else accept_orders dims candidate_splits split_of num_cores matches (accepted @ [candidate]) orders
             else accept_orders dims candidate_splits split_of num_cores matches accepted orders)"

definition select_unique_partition_division ::
  "string list \<Rightarrow> string splits \<Rightarrow> int \<Rightarrow> (string TensorWorkDivision \<Rightarrow> bool) \<Rightarrow> string TensorWorkDivision option" where
  "select_unique_partition_division dims slices num_cores matches =
     (let split_by_dim = List.map_filter (\<lambda>d. case map_of slices d of None \<Rightarrow> None | Some s \<Rightarrow> if s > 1 then Some (d, s) else None) dims
      in if set (map fst split_by_dim) \<noteq> set (map fst (filter (\<lambda>ds. snd ds > 1) slices)) then None
         else if split_by_dim = [] then None
         else if length split_by_dim > MAX_OWNER_PERMUTATION_DIMS then None
         else case accept_orders dims slices (\<lambda>d. dict_get split_by_dim d 1) num_cores matches []
                (permutations (map fst split_by_dim)) of
                Some (c # cs) \<Rightarrow> Some c
              | _ \<Rightarrow> None)"

subsection \<open>LX bytes of one slice\<close>

definition slice_extent :: "(nat \<times> int) list \<Rightarrow> nat \<times> int \<Rightarrow> int res" where
  "slice_extent split_by_device_dim x =
     (let split = dict_get split_by_device_dim (fst x) 1
      in if snd x mod split \<noteq> 0 then Inl ValueError else Inr (snd x div split))"

text \<open>\<open>size_in_bytes\<close> is \<open>get_device_size_in_bytes\<close> of the bindings.\<close>

definition partition_lx_size_bytes ::
  "(int list \<Rightarrow> int) \<Rightarrow> int list \<Rightarrow> int \<Rightarrow> (nat \<times> int) list \<Rightarrow> int res" where
  "partition_lx_size_bytes size_in_bytes device_size elems_per_stick split_by_device_dim =
     (if device_size = [] \<or> list_ex (\<lambda>e. e \<le> 0) device_size then Inl ValueError
      else if elems_per_stick \<le> 0 then Inl ValueError
      else if list_ex (\<lambda>ds. fst ds \<ge> length device_size \<or> snd ds \<le> 0) split_by_device_dim then Inl ValueError
      else if last device_size \<noteq> elems_per_stick then Inl ValueError
      else if dict_get split_by_device_dim (length device_size - 1) 1 \<noteq> 1 then Inl ValueError
      else bindE (mapE (slice_extent split_by_device_dim) (List.enumerate 0 device_size)) (\<lambda>per_core_size.
             Inr (size_in_bytes per_core_size)))"

section \<open>Aligned splits\<close>

text \<open>
  A dimension cut into segments: a row is the mixed-radix number of its segment positions, innermost
  first.  After the split is distributed, the core with slot \<open>slot\<close> owns the rows whose position in every
  segment falls into that segment's share.
\<close>

fun digits :: "int list \<Rightarrow> int \<Rightarrow> int list" where
  "digits [] r = []"
| "digits (b # bs) r = r mod b # digits bs (r div b)"

definition owns_row :: "int list \<Rightarrow> int list \<Rightarrow> int \<Rightarrow> int \<Rightarrow> bool" where
  "owns_row factors bases slot r \<longleftrightarrow>
     map2 (\<lambda>d (b, f). d div (b div f)) (digits bases r) (zip bases factors) = digits factors slot"

lemma digits_length [simp]: "length (digits bs r) = length bs"
  by (induction bs arbitrary: r) auto

lemma digits_snoc:
  assumes "list_all (\<lambda>b. 0 < b) bs"
  shows "digits (bs @ [b]) r = digits bs (r mod prod_list bs) @ [r div prod_list bs mod b]"
  using assms
proof (induction bs arbitrary: r)
  case (Cons a bs)
  have p: "0 < prod_list bs" "0 < a" using Cons.prems prod_list_pos by auto
  have "r mod (a * prod_list bs) mod a = r mod a" by (simp add: mod_mod_cancel)
  moreover have "r mod (a * prod_list bs) div a = r div a mod prod_list bs"
    using p by (simp add: zmod_zmult2_eq)
  ultimately show ?case using Cons p by (simp add: zdiv_zmult2_eq)
qed simp

lemma owns_row_snoc:
  assumes "list_all (\<lambda>b. 0 < b) bs" "list_all (\<lambda>f. 0 < f) fs" "length fs = length bs"
  shows "owns_row (fs @ [f]) (bs @ [b]) slot r \<longleftrightarrow>
    owns_row fs bs (slot mod prod_list fs) (r mod prod_list bs) \<and>
    r div prod_list bs mod b div (b div f) = slot div prod_list fs mod f"
  using assms by (simp add: owns_row_def digits_snoc)

lemma div_mod_unique:
  assumes "0 < (p :: int)"
  shows "x div p = y div p \<and> x mod p = y mod p \<longleftrightarrow> x = y"
  by (metis div_mult_mod_eq)

lemma take_factors_ok:
  assumes "0 < remaining" "list_all (\<lambda>b. 0 < b) bases" "take_factors remaining bases = (fs, rest)"
  shows "length fs = length bases \<and> 0 < rest \<and> prod_list fs * rest = remaining \<and> list_all2 (\<lambda>f b. 0 < f \<and> f dvd b) fs bases"
  using assms
proof (induction bases arbitrary: remaining fs rest)
  case (Cons b bases)
  let ?f = "gcd remaining b"
  obtain gs where g: "take_factors (remaining div ?f) bases = (gs, rest)" "fs = ?f # gs"
    using Cons.prems(3) by (cases "take_factors (remaining div ?f) bases") (auto simp: Let_def)
  have f: "0 < ?f" "?f dvd remaining" using Cons.prems(1) by (simp_all add: gcd_pos_int)
  then have q: "0 < remaining div ?f" using Cons.prems(1) by (metis dvd_mult_div_cancel zero_less_mult_pos)
  note ih = Cons.IH [OF q _ g(1)]
  then have i: "length gs = length bases" "0 < rest" "prod_list gs * rest = remaining div ?f" "list_all2 (\<lambda>f b. 0 < f \<and> f dvd b) gs bases"
    using Cons.prems(2) by auto
  have "prod_list fs * rest = ?f * (remaining div ?f)" unfolding i(3) [symmetric] g(2) by simp
  then have "prod_list fs * rest = remaining" using f(2) by simp
  then show ?case using i(1,2,4) g(2) f(1) by simp
qed auto

lemma distribute_ok:
  assumes "0 < split" "list_all (\<lambda>b. 0 < b) bases" "distribute_aligned_split split bases = (fs, rest)"
  shows "length fs = length bases" "0 < rest" "prod_list fs * rest = split" "list_all2 (\<lambda>f b. 0 < f \<and> f dvd b) fs bases"
proof -
  have t: "take_factors split (rev bases) = (rev fs, rest)"
    using assms(3) by (cases "take_factors split (rev bases)") (auto simp: distribute_aligned_split_def Let_def)
  have "list_all (\<lambda>b. 0 < b) (rev bases)" using assms(2) by (simp add: list_all_iff)
  note r = take_factors_ok [OF assms(1) this t]
  show "length fs = length bases" "0 < rest" using r by simp_all
  have "prod_list (rev fs) = prod_list fs" by (metis mset_rev prod_mset_prod_list)
  then show "prod_list fs * rest = split" using r by simp
  show "list_all2 (\<lambda>f b. 0 < f \<and> f dvd b) fs bases" using r by (simp add: list_all2_rev)
qed

lemma no_split_inside_True: "no_split_inside True zs \<longleftrightarrow> (\<forall>(f, b)\<in>set zs. f \<le> 1)"
  by (induction zs) (auto split: if_splits)

text \<open>What the slots own, as blocks of consecutive rows.\<close>

definition in_blocks :: "int list \<Rightarrow> int list \<Rightarrow> bool" where
  "in_blocks fs bs \<longleftrightarrow> (\<forall>slot r. 0 \<le> slot \<and> slot < prod_list fs \<and> 0 \<le> r \<and> r < prod_list bs \<longrightarrow>
     (owns_row fs bs slot r \<longleftrightarrow> r div (prod_list bs div prod_list fs) = slot))"

definition factors_of :: "int list \<Rightarrow> int list \<Rightarrow> bool" where
  "factors_of fs bs \<longleftrightarrow> list_all2 (\<lambda>f b. 0 < f \<and> 0 < b \<and> f dvd b) fs bs"

lemma factors_of_props:
  assumes "factors_of fs bs"
  shows "length fs = length bs" "list_all (\<lambda>b. 0 < b) bs" "list_all (\<lambda>f. 0 < f) fs" "prod_list fs dvd prod_list bs"
    "0 < prod_list fs" "0 < prod_list bs" "0 < prod_list bs div prod_list fs"
proof -
  show l: "length fs = length bs" using assms by (simp add: factors_of_def list_all2_lengthD)
  show b: "list_all (\<lambda>b. 0 < b) bs" and f: "list_all (\<lambda>f. 0 < f) fs"
    using assms by (auto simp: factors_of_def list_all2_conv_all_nth list_all_length)
  show d: "prod_list fs dvd prod_list bs"
    using assms unfolding factors_of_def by (induction fs bs rule: list_all2_induct) (auto intro: mult_dvd_mono)
  show p: "0 < prod_list fs" "0 < prod_list bs" using b f by (simp_all add: prod_list_pos)
  show "0 < prod_list bs div prod_list fs" using d p by (metis dvd_mult_div_cancel zero_less_mult_pos)
qed

lemma all_ones_prod: "list_all (\<lambda>f. f = 1) (fs :: int list) \<Longrightarrow> prod_list fs = 1"
  by (induction fs) auto

lemma owns_ones: "factors_of fs bs \<Longrightarrow> list_all (\<lambda>f. f = 1) fs \<Longrightarrow> owns_row fs bs slot r"
proof (induction fs arbitrary: bs slot r)
  case (Cons f fs)
  then obtain b bs' where b: "bs = b # bs'" "0 < b" "factors_of fs bs'" by (auto simp: factors_of_def list_all2_Cons1)
  then have "owns_row fs bs' s q" for s q using Cons by simp
  then show ?case using Cons.prems(2) b(1,2) by (simp add: owns_row_def div_eq_0_iff)
qed (simp add: factors_of_def owns_row_def)

lemma blocks_whole:
  assumes "factors_of fs bs" "0 < b"
  shows "in_blocks (fs @ [b]) (bs @ [b]) \<longleftrightarrow> in_blocks fs bs"
proof -
  note p = factors_of_props [OF assms(1)]
  let ?P = "prod_list fs" and ?N = "prod_list bs"
  let ?w = "?N div ?P"
  have N: "?w * ?P = ?N" using p(4) by simp
  have w: "(?N * b) div (?P * b) = ?w" using assms(2) by simp
  have pl: "prod_list (bs @ [b]) = ?N * b" "prod_list (fs @ [b]) = ?P * b" by simp_all
  have o: "owns_row (fs @ [b]) (bs @ [b]) slot r \<longleftrightarrow> owns_row fs bs (slot mod ?P) (r mod ?N) \<and> r div ?N = slot div ?P"
    if "0 \<le> slot" "slot < ?P * b" "0 \<le> r" "r < ?N * b" for slot r
  proof -
    have "r div ?N < b" "slot div ?P < b" using that p by (auto intro!: div_less_bound simp: mult.commute)
    moreover have "0 \<le> r div ?N" "0 \<le> slot div ?P" using that p by (simp_all add: pos_imp_zdiv_nonneg_iff)
    ultimately show ?thesis unfolding owns_row_snoc [OF p(2,3,1)] using assms(2) by simp
  qed
  have m: "r div ?w = slot \<longleftrightarrow> r mod ?N div ?w = slot mod ?P \<and> r div ?N = slot div ?P" for r slot
  proof -
    have "r div ?w div ?P = r div ?N" using p(7) N by (metis less_imp_le zdiv_zmult2_eq p(5))
    moreover have "r div ?w mod ?P = r mod ?N div ?w"
    proof -
      have "r mod (?w * ?P) = ?w * (r div ?w mod ?P) + r mod ?w" using p(5) by (intro zmod_zmult2_eq) simp
      then show ?thesis using p(7) N by simp
    qed
    ultimately show ?thesis using div_mod_unique [OF p(5), of "r div ?w" slot] by metis
  qed
  show ?thesis
  proof
    assume L: "in_blocks (fs @ [b]) (bs @ [b])"
    have "owns_row fs bs slot r \<longleftrightarrow> r div ?w = slot" if s: "0 \<le> slot" "slot < ?P" "0 \<le> r" "r < ?N" for slot r
    proof -
      have g: "slot < ?P * b" "r < ?N * b"
        using s assms(2) p(5,6) by (smt (verit) mult_le_cancel_left1)+
      have "owns_row (fs @ [b]) (bs @ [b]) slot r \<longleftrightarrow> r div ?w = slot"
        using L s g unfolding in_blocks_def pl w by blast
      then show ?thesis using o [OF s(1) g(1) s(3) g(2)] s by simp
    qed
    then show "in_blocks fs bs" unfolding in_blocks_def by blast
  next
    assume R: "in_blocks fs bs"
    have "owns_row (fs @ [b]) (bs @ [b]) slot r \<longleftrightarrow> r div ?w = slot"
      if s: "0 \<le> slot" "slot < ?P * b" "0 \<le> r" "r < ?N * b" for slot r
    proof -
      have "owns_row fs bs (slot mod ?P) (r mod ?N) \<longleftrightarrow> r mod ?N div ?w = slot mod ?P"
        using R p(5,6) unfolding in_blocks_def by simp
      then show ?thesis using o [OF s] m [of r slot] by blast
    qed
    then show "in_blocks (fs @ [b]) (bs @ [b])" unfolding in_blocks_def pl w by blast
  qed
qed

lemma owns_zero: "factors_of fs bs \<Longrightarrow> owns_row fs bs 0 0"
proof (induction fs arbitrary: bs)
  case (Cons f fs)
  then obtain b bs' where b: "bs = b # bs'" "factors_of fs bs'" by (auto simp: factors_of_def list_all2_Cons1)
  then show ?case using Cons.IH by (simp add: owns_row_def)
qed (simp add: factors_of_def owns_row_def)

lemma last_row_not_owned:
  assumes "factors_of fs bs" "\<not> list_all (\<lambda>f. f = 1) fs"
  shows "\<not> owns_row fs bs 0 (prod_list bs - 1)"
  using assms
proof (induction fs arbitrary: bs)
  case (Cons f fs)
  then obtain b bs' where b: "bs = b # bs'" "0 < b" "0 < f" "f dvd b" "factors_of fs bs'" by (auto simp: factors_of_def list_all2_Cons1)
  let ?N = "prod_list bs'"
  have N: "0 < ?N" using factors_of_props(6) [OF b(5)] .
  have e: "b * ?N - 1 = (b - 1) + b * (?N - 1)" by (simp add: algebra_simps)
  have r: "(b * ?N - 1) mod b = b - 1" "(b * ?N - 1) div b = ?N - 1"
    unfolding e mod_mult_self2 using b(2) by (simp_all only: mod_pos_pos_trivial div_mult_self2) (simp_all add: div_pos_pos_trivial)
  have "(b - 1) div (b div f) = 0" "\<not> list_all (\<lambda>f. f = 1) fs \<longrightarrow> \<not> owns_row fs bs' 0 (?N - 1)" if "f = 1"
    using that b(2) Cons.IH [OF b(5)] by simp_all
  moreover have "(b - 1) div (b div f) \<noteq> 0" if "f \<noteq> 1"
  proof -
    have k: "0 < b div f" "f * (b div f) = b" using b(2-4) by (simp_all add: pos_imp_zdiv_pos_iff zdvd_imp_le)
    have "2 * (b div f) \<le> f * (b div f)" using that b(3) k(1) by (intro mult_right_mono) auto
    then have "b div f \<le> b - 1" using k by linarith
    then show ?thesis using k(1) zdiv_eq_0_iff [of "b - 1" "b div f"] by auto
  qed
  ultimately show ?case using Cons.prems(2) b(1) r by (cases "f = 1") (simp_all add: owns_row_def)
qed simp

lemma blocks_partial:
  assumes "factors_of fs bs" "0 < f" "f < b" "f dvd b"
  shows "in_blocks (fs @ [f]) (bs @ [b]) \<longleftrightarrow> list_all (\<lambda>f. f = 1) fs"
proof -
  note p = factors_of_props [OF assms(1)]
  let ?P = "prod_list fs" and ?N = "prod_list bs" and ?k = "b div f"
  have k: "f * ?k = b" using assms(4) by simp
  have k2: "2 \<le> ?k"
  proof (rule ccontr)
    assume "\<not> 2 \<le> ?k"
    then have "f * ?k \<le> f * 1" using assms(2) by (intro mult_left_mono) auto
    then show False using k assms(3) by simp
  qed
  let ?w = "?N div ?P"
  have N: "?P * ?w = ?N" using p(4) by simp
  have W: "(?N * b) div (?P * f) = ?w * ?k"
  proof -
    have "?N * b = (?P * f) * (?w * ?k)" using N k by (metis mult.assoc mult.left_commute)
    then show ?thesis using p(5) assms(2) by simp
  qed
  have pl: "prod_list (bs @ [b]) = ?N * b" "prod_list (fs @ [f]) = ?P * f" by simp_all
  show ?thesis
  proof
    assume one: "list_all (\<lambda>f. f = 1) fs"
    have P: "?P = 1" by (rule all_ones_prod [OF one])
    have "owns_row (fs @ [f]) (bs @ [b]) slot r \<longleftrightarrow> r div (?w * ?k) = slot"
      if s: "0 \<le> slot" "slot < ?P * f" "0 \<le> r" "r < ?N * b" for slot r
    proof -
      have "r div ?N < b" "0 \<le> r div ?N" using s p(6) by (auto intro!: div_less_bound simp: mult.commute pos_imp_zdiv_nonneg_iff)
      then have "owns_row (fs @ [f]) (bs @ [b]) slot r \<longleftrightarrow> r div ?N div ?k = slot"
        unfolding owns_row_snoc [OF p(2,3,1)] using owns_ones [OF assms(1) one] s P by simp
      then show ?thesis using N P k2 by (simp add: zdiv_zmult2_eq)
    qed
    then show "in_blocks (fs @ [f]) (bs @ [b])" unfolding in_blocks_def pl W by blast
  next
    assume B: "in_blocks (fs @ [f]) (bs @ [b])"
    show "list_all (\<lambda>f. f = 1) fs"
    proof (rule ccontr)
      assume n: "\<not> list_all (\<lambda>f. f = 1) fs"
      have bl: "owns_row (fs @ [f]) (bs @ [b]) 0 r \<longleftrightarrow> r div (?w * ?k) = 0" if "0 \<le> r" "r < ?N * b" for r
        using B that assms(2) p(5) unfolding in_blocks_def pl W by simp
      have N1: "?N * 1 < ?N * b" using assms(2,3) p(6) by (intro mult_strict_left_mono) auto
      have "owns_row (fs @ [f]) (bs @ [b]) 0 ?N"
        unfolding owns_row_snoc [OF p(2,3,1)] using owns_zero [OF assms(1)] p(6) k2 assms(2,3) by simp
      then have "?N div (?w * ?k) = 0" using bl [of ?N] N1 p(6) by simp
      moreover have "0 < ?w * ?k" using p(7) k2 by simp
      ultimately have "?N < ?w * ?k" using zdiv_eq_0_iff [of ?N "?w * ?k"] p(6) by auto
      then have "(?N - 1) div (?w * ?k) = 0" using p(6) by (simp add: div_pos_pos_trivial)
      then have "owns_row (fs @ [f]) (bs @ [b]) 0 (?N - 1)" using bl [of "?N - 1"] N1 p(6) by simp
      moreover have "(?N - 1) mod ?N = ?N - 1" using p(6) by (intro mod_pos_pos_trivial) auto
      ultimately have "owns_row fs bs 0 (?N - 1)" unfolding owns_row_snoc [OF p(2,3,1)] by (simp only: mod_0)
      then show False using last_row_not_owned [OF assms(1) n] by simp
    qed
  qed
qed

lemma blocks_iff_no_split_inside:
  assumes "factors_of fs bs"
  shows "in_blocks fs bs \<longleftrightarrow> no_split_inside False (zip (rev fs) (rev bs))"
  using assms
proof (induction fs arbitrary: bs rule: rev_induct)
  case Nil
  then show ?case by (simp add: factors_of_def in_blocks_def owns_row_def)
next
  case (snoc f fs)
  then obtain b bs' where b: "bs = bs' @ [b]" "factors_of fs bs'" "0 < f" "0 < b" "f dvd b"
    by (cases bs rule: rev_cases) (auto simp: factors_of_def list_all2_conv_all_nth nth_append dest: spec [of _ "length fs"] split: if_splits)
  have fb: "f \<le> b" using b(3-5) by (simp add: zdvd_imp_le)
  have one: "(\<forall>(f, b)\<in>set (zip (rev fs) (rev bs')). f \<le> 1) \<longleftrightarrow> list_all (\<lambda>f. f = 1) fs"
  proof -
    have l: "length (rev fs) = length (rev bs')" using factors_of_props(1) [OF b(2)] by simp
    have "(\<forall>(f, b)\<in>set (zip (rev fs) (rev bs')). f \<le> 1) \<longleftrightarrow> (\<forall>f\<in>set (map fst (zip (rev fs) (rev bs'))). f \<le> 1)" by auto
    also have "\<dots> \<longleftrightarrow> (\<forall>f\<in>set fs. f \<le> 1)" using l by (simp only: map_fst_zip set_rev)
    also have "\<dots> \<longleftrightarrow> list_all (\<lambda>f. f = 1) fs" using factors_of_props(3) [OF b(2)] unfolding list_all_iff by force
    finally show ?thesis .
  qed
  show ?case
  proof (cases "f = b")
    case True
    then show ?thesis using blocks_whole [OF b(2,4)] snoc.IH [OF b(2)] b(1) by simp
  next
    case False
    then have "f < b" using fb by simp
    then show ?thesis using blocks_partial [OF b(2,3) _ b(5)] b(1) one by (simp add: no_split_inside_True)
  qed
qed

lemma distribute_factors_of:
  assumes "0 < split" "list_all (\<lambda>b. 0 < b) bases" "distribute_aligned_split split bases = (fs, rest)"
  shows "factors_of fs bases"
  using distribute_ok(1,4) [OF assms] assms(2) by (auto simp: factors_of_def list_all2_conv_all_nth list_all_length)

text \<open>
  The alignment test decides exactly whether a split stays a split into blocks.  For a positive split
  and segments of positive extent, \<open>aligned_split_keeps_blocks\<close> holds if and only if the split is used up
  by the segments and, for every slot, the rows owned after alignment are that slot's block of
  consecutive rows.
\<close>

theorem aligned_split_decides_blocks:
  assumes "0 < split" "list_all (\<lambda>b. 0 < b) bases"
  shows "aligned_split_keeps_blocks split bases \<longleftrightarrow>
    snd (distribute_aligned_split split bases) = 1 \<and>
    (\<forall>slot r. 0 \<le> slot \<and> slot < split \<and> 0 \<le> r \<and> r < prod_list bases \<longrightarrow>
      (owns_row (fst (distribute_aligned_split split bases)) bases slot r = (r div (prod_list bases div split) = slot)))"
proof -
  obtain fs rest where d: "distribute_aligned_split split bases = (fs, rest)" by (cases "distribute_aligned_split split bases")
  note f = distribute_factors_of [OF assms d]
  show ?thesis
  proof (cases "rest = 1")
    case True
    then have "prod_list fs = split" using distribute_ok(3) [OF assms d] by simp
    then show ?thesis using blocks_iff_no_split_inside [OF f] True d
      by (auto simp: aligned_split_keeps_blocks_def in_blocks_def Let_def)
  qed (simp add: aligned_split_keeps_blocks_def d Let_def)
qed

theorem aligned_split_decides_blocks_witness:
  "\<not> aligned_split_keeps_blocks 2 [2, 3] \<and> aligned_split_keeps_blocks 6 [2, 3] \<and>
   (owns_row (fst (distribute_aligned_split 6 [2, 3])) [2, 3] 4 4 = (4 div (prod_list [2, 3 :: int] div 6) = (4 :: int)))"
proof -
  have d: "distribute_aligned_split 6 [2, 3] = ([2, 3], 1)" "distribute_aligned_split 2 [2, 3] = ([2, 1], 1)" by code_simp+
  have k: "aligned_split_keeps_blocks 6 [2, 3]" "\<not> aligned_split_keeps_blocks 2 [2, 3]" by code_simp+
  have "owns_row (fst (distribute_aligned_split 6 [2, 3])) [2, 3] 4 4 = (4 div (prod_list [2, 3 :: int] div 6) = (4 :: int))"
  proof -
    have "\<forall>slot r. 0 \<le> slot \<and> slot < 6 \<and> 0 \<le> r \<and> r < prod_list [2, 3 :: int] \<longrightarrow>
      (owns_row (fst (distribute_aligned_split 6 [2, 3])) [2, 3] slot r = (r div (prod_list [2, 3 :: int] div 6) = slot))"
      using aligned_split_decides_blocks [of 6 "[2, 3]"] k(1) by simp
    then show ?thesis by (elim allE [of _ 4]) simp
  qed
  then show ?thesis using k by simp
qed

subsection \<open>Remapped owners\<close>

lemma place_factor_ok:
  assumes "place_factor n slot (d, f) (stride, sp, cm) = Inr (stride', sp', cm')"
  shows "stride' = stride * f"
    "map_of sp' = (if f = 1 then map_of sp else (map_of sp)(d \<mapsto> f))"
    "map_of cm' = (if f = 1 then map_of cm else (map_of cm)(d \<mapsto> Rem (FloorDiv slot stride) f))"
proof -
  have i: "(if c then Inl e else Inr x) = Inr y \<longleftrightarrow> \<not> c \<and> x = y" for c and e :: py_error and x y :: "int \<times> string splits \<times> string owners"
    by simp
  have "f \<noteq> 1 \<Longrightarrow> (stride * f, AList.update d f sp, AList.update d (Rem (FloorDiv slot stride) f) cm) = (stride', sp', cm')"
    "f = 1 \<Longrightarrow> (stride, sp, cm) = (stride', sp', cm')"
    using assms unfolding place_factor_def Let_def by (simp_all only: prod.case fst_conv snd_conv if_True if_False i sum.inject simp_thms)
  then show "stride' = stride * f"
    "map_of sp' = (if f = 1 then map_of sp else (map_of sp)(d \<mapsto> f))"
    "map_of cm' = (if f = 1 then map_of cm else (map_of cm)(d \<mapsto> Rem (FloorDiv slot stride) f))"
    by (cases "f = 1"; auto simp: AList.update_conv')+
qed

text \<open>The factor and the formula of the segment at position \<open>j\<close>.\<close>

definition placed :: "owner \<Rightarrow> int \<Rightarrow> int list \<Rightarrow> nat \<Rightarrow> int option \<times> owner option" where
  "placed slot stride fs j = (if fs ! j = 1 then (None, None)
     else (Some (fs ! j), Some (Rem (FloorDiv slot (stride * prod_list (take j fs))) (fs ! j))))"

lemma place_factors_ok:
  assumes "foldE (place_factor n slot) (zip ds fs) (stride, sp, cm) = Inr (stride', sp', cm')" "length ds = length fs" "distinct ds"
    "\<forall>d\<in>set ds. map_of sp d = None \<and> map_of cm d = None"
  shows "(\<forall>j<length ds. (map_of sp' (ds ! j), map_of cm' (ds ! j)) = placed slot stride fs j) \<and>
    (\<forall>d. d \<notin> set ds \<longrightarrow> map_of sp' d = map_of sp d \<and> map_of cm' d = map_of cm d)"
  using assms
proof (induction ds arbitrary: fs stride sp cm)
  case (Cons d ds)
  then obtain f fs' where f: "fs = f # fs'" by (cases fs) auto
  obtain s1 sp1 cm1 where p: "place_factor n slot (d, f) (stride, sp, cm) = Inr (s1, sp1, cm1)"
    "foldE (place_factor n slot) (zip ds fs') (s1, sp1, cm1) = Inr (stride', sp', cm')"
    using Cons.prems(1) f by auto
  note q = place_factor_ok [OF p(1)]
  have d: "d \<notin> set ds" using Cons.prems(3) by simp
  have "\<forall>d'\<in>set ds. map_of sp1 d' = None \<and> map_of cm1 d' = None" using Cons.prems(4) d unfolding q by auto
  then have ih: "\<forall>j<length ds. (map_of sp' (ds ! j), map_of cm' (ds ! j)) = placed slot s1 fs' j"
    "\<forall>d'. d' \<notin> set ds \<longrightarrow> map_of sp' d' = map_of sp1 d' \<and> map_of cm' d' = map_of cm1 d'"
    using Cons.IH [OF p(2)] Cons.prems(2,3) f by auto
  have "(map_of sp' ((d # ds) ! j), map_of cm' ((d # ds) ! j)) = placed slot stride fs j" if "j < length (d # ds)" for j
  proof (cases j)
    case 0
    have "map_of sp d = None" "map_of cm d = None" using Cons.prems(4) by simp_all
    then show ?thesis using ih(2) d 0 f unfolding q placed_def by auto
  next
    case (Suc i)
    then show ?thesis using ih(1) that f unfolding q placed_def by (simp add: mult.assoc)
  qed
  moreover have "map_of sp' d' = map_of sp d' \<and> map_of cm' d' = map_of cm d'" if "d' \<notin> set (d # ds)" for d'
    using that ih(2) unfolding q by auto
  ultimately show ?case by blast
qed simp

lemma digits_nth: "list_all (\<lambda>b. 0 < b) bs \<Longrightarrow> j < length bs \<Longrightarrow> digits bs r ! j = r div prod_list (take j bs) mod bs ! j"
proof (induction bs arbitrary: r j)
  case (Cons b bs)
  then show ?case
  proof (cases j)
    case (Suc i)
    have "list_all (\<lambda>b. 0 < b) (take i bs)" using Cons.prems(1) by (auto simp: list_all_iff dest: in_set_takeD)
    then have "0 < prod_list (take i bs)" by (rule prod_list_pos)
    then show ?thesis using Cons Suc by (simp add: zdiv_zmult2_eq)
  qed simp
qed simp

text \<open>The segments of an old dimension, and the factors its split is distributed into.\<close>

definition remap_factors :: "int \<Rightarrow> (string \<times> int) list \<Rightarrow> int list \<times> int" where
  "remap_factors split new_dims = (if length new_dims = 1 then ([split], 1) else distribute_aligned_split split (map snd new_dims))"

lemma remap_dim_ok:
  assumes "remap_dim division remap (d, s) (sp, cm) = Inr (sp', cm')"
  obtains nds slot st' where "remap d = Some nds" "snd (remap_factors s nds) = 1" "map_of (core_id_to_work_slice division) d = Some slot"
    "foldE (place_factor (physical_core_count division) slot) (zip (map fst nds) (fst (remap_factors s nds))) (1, sp, cm) = Inr (st', sp', cm')"
  using assms unfolding remap_dim_def remap_factors_def Let_def
  by (auto split: option.splits if_splits prod.splits)

lemma remap_factors_blocks:
  assumes "aligned_split_keeps_blocks s (map snd nds)" "0 < s" "list_all (\<lambda>b. 0 < b) (map snd nds)"
  shows "remap_factors s nds = distribute_aligned_split s (map snd nds)"
proof (cases "length nds = 1")
  case True
  then obtain d b where n: "nds = [(d, b)]" by (cases nds) auto
  have r: "s div gcd s b = 1" using assms(1) n by (simp add: aligned_split_keeps_blocks_def distribute_aligned_split_def Let_def split: if_splits)
  have "gcd s b * (s div gcd s b) = s" by simp
  then have "gcd s b = s" using r by simp
  then show ?thesis using n r by (simp add: remap_factors_def distribute_aligned_split_def Let_def)
qed (simp add: remap_factors_def)

text \<open>The dimensions an old dimension is cut into are its own.\<close>

definition remap_ok :: "string TensorWorkDivision \<Rightarrow> (string \<Rightarrow> (string \<times> int) list option) \<Rightarrow> bool" where
  "remap_ok division remap \<longleftrightarrow>
     list_all (\<lambda>ds. 0 < snd ds \<and> (case remap (fst ds) of None \<Rightarrow> False | Some nds \<Rightarrow>
       list_all (\<lambda>b. 0 < b) (map snd nds) \<and> aligned_split_keeps_blocks (snd ds) (map snd nds))) (work_slices division) \<and>
     distinct (concat (map (\<lambda>ds. map fst (the (remap (fst ds)))) (work_slices division)))"

definition aligned_owner :: "string TensorWorkDivision \<Rightarrow> (string \<times> int) list \<Rightarrow> int \<Rightarrow> int \<Rightarrow> bool" where
  "aligned_owner new nds core r \<longleftrightarrow>
     list_all (\<lambda>j. digits (map snd nds) r ! j div (snd (nds ! j) div dict_get (work_slices new) (fst (nds ! j)) 1) =
       (case slot_at (core_id_to_work_slice new) core (fst (nds ! j)) of None \<Rightarrow> 0 | Some x \<Rightarrow> x)) [0..<length nds]"

lemma remap_fold_ok:
  assumes "foldE (remap_dim division remap) ws (sp, cm) = Inr (sp', cm')"
    "distinct (concat (map (\<lambda>ds. map fst (the (remap (fst ds)))) ws))"
    "\<forall>ds\<in>set ws. 0 < snd ds \<and> (\<forall>nds. remap (fst ds) = Some nds \<longrightarrow>
       list_all (\<lambda>b. 0 < b) (map snd nds) \<and> aligned_split_keeps_blocks (snd ds) (map snd nds))"
    "\<forall>d\<in>set (concat (map (\<lambda>ds. map fst (the (remap (fst ds)))) ws)). map_of sp d = None \<and> map_of cm d = None"
  shows "(\<forall>(d, s)\<in>set ws. \<exists>nds slot. remap d = Some nds \<and> map_of (core_id_to_work_slice division) d = Some slot \<and>
      (\<forall>j<length nds. (map_of sp' (fst (nds ! j)), map_of cm' (fst (nds ! j))) =
        placed slot 1 (fst (distribute_aligned_split s (map snd nds))) j)) \<and>
    (\<forall>d. d \<notin> set (concat (map (\<lambda>ds. map fst (the (remap (fst ds)))) ws)) \<longrightarrow> map_of sp' d = map_of sp d \<and> map_of cm' d = map_of cm d)"
  using assms
proof (induction ws arbitrary: sp cm)
  case (Cons x ws)
  obtain d s where x: "x = (d, s)" by (cases x)
  obtain sp1 cm1 where r: "remap_dim division remap (d, s) (sp, cm) = Inr (sp1, cm1)"
    "foldE (remap_dim division remap) ws (sp1, cm1) = Inr (sp', cm')"
    using Cons.prems(1) x by auto
  obtain nds slot st' where n: "remap d = Some nds" "map_of (core_id_to_work_slice division) d = Some slot"
    "foldE (place_factor (physical_core_count division) slot) (zip (map fst nds) (fst (remap_factors s nds))) (1, sp, cm) = Inr (st', sp1, cm1)"
    by (rule remap_dim_ok [OF r(1)])
  have h: "0 < s" "list_all (\<lambda>b. 0 < b) (map snd nds)" "aligned_split_keeps_blocks s (map snd nds)"
    using Cons.prems(3) x n(1) by auto
  let ?fs = "fst (distribute_aligned_split s (map snd nds))"
  have fs: "fst (remap_factors s nds) = ?fs" using remap_factors_blocks [OF h(3,1,2)] by simp
  have l: "length ?fs = length nds"
    using distribute_ok(1) [OF h(1,2)] by (cases "distribute_aligned_split s (map snd nds)") simp
  have dn: "distinct (map fst nds)" "\<forall>d'\<in>set (map fst nds). map_of sp d' = None \<and> map_of cm d' = None"
    "set (map fst nds) \<inter> set (concat (map (\<lambda>ds. map fst (the (remap (fst ds)))) ws)) = {}"
    using Cons.prems(2,4) x n(1) by auto
  have di: "distinct (concat (map (\<lambda>ds. map fst (the (remap (fst ds)))) ws))" using Cons.prems(2) by simp
  have c3: "\<forall>ds\<in>set ws. 0 < snd ds \<and> (\<forall>nds. remap (fst ds) = Some nds \<longrightarrow>
       list_all (\<lambda>b. 0 < b) (map snd nds) \<and> aligned_split_keeps_blocks (snd ds) (map snd nds))"
    using Cons.prems(3) by (simp only: list.set ball_simps) blast
  have p: "\<forall>j<length nds. (map_of sp1 (fst (nds ! j)), map_of cm1 (fst (nds ! j))) = placed slot 1 ?fs j"
    "\<forall>d'. d' \<notin> set (map fst nds) \<longrightarrow> map_of sp1 d' = map_of sp d' \<and> map_of cm1 d' = map_of cm d'"
    using place_factors_ok [OF n(3) [unfolded fs] _ dn(1,2)] l by simp_all
  have "\<forall>d'\<in>set (concat (map (\<lambda>ds. map fst (the (remap (fst ds)))) ws)). map_of sp1 d' = None \<and> map_of cm1 d' = None"
  proof
    fix d'
    assume k: "d' \<in> set (concat (map (\<lambda>ds. map fst (the (remap (fst ds)))) ws))"
    then have "d' \<notin> set (map fst nds)" using dn(3) by blast
    then have "map_of sp1 d' = map_of sp d' \<and> map_of cm1 d' = map_of cm d'" using p(2) by blast
    moreover have "map_of sp d' = None \<and> map_of cm d' = None" using Cons.prems(4) k by auto
    ultimately show "map_of sp1 d' = None \<and> map_of cm1 d' = None" by simp
  qed
  then have ih: "\<forall>(d, s)\<in>set ws. \<exists>nds slot. remap d = Some nds \<and> map_of (core_id_to_work_slice division) d = Some slot \<and>
      (\<forall>j<length nds. (map_of sp' (fst (nds ! j)), map_of cm' (fst (nds ! j))) =
        placed slot 1 (fst (distribute_aligned_split s (map snd nds))) j)"
    "\<forall>d. d \<notin> set (concat (map (\<lambda>ds. map fst (the (remap (fst ds)))) ws)) \<longrightarrow> map_of sp' d = map_of sp1 d \<and> map_of cm' d = map_of cm1 d"
    using Cons.IH [OF r(2) di c3] by blast+
  have "(map_of sp' (fst (nds ! j)), map_of cm' (fst (nds ! j))) = placed slot 1 ?fs j" if "j < length nds" for j
  proof -
    have "fst (nds ! j) \<in> set (map fst nds)" using that by simp
    then have "fst (nds ! j) \<notin> set (concat (map (\<lambda>ds. map fst (the (remap (fst ds)))) ws))" using dn(3) by blast
    then show ?thesis using ih(2) p(1) that by simp
  qed
  then have a: "\<exists>nds slot. remap d = Some nds \<and> map_of (core_id_to_work_slice division) d = Some slot \<and>
      (\<forall>j<length nds. (map_of sp' (fst (nds ! j)), map_of cm' (fst (nds ! j))) =
        placed slot 1 (fst (distribute_aligned_split s (map snd nds))) j)" using n(1,2) by blast
  have "map_of sp' d' = map_of sp d' \<and> map_of cm' d' = map_of cm d'"
    if "d' \<notin> set (concat (map (\<lambda>ds. map fst (the (remap (fst ds)))) (x # ws)))" for d'
    using that ih(2) p(2) x n(1) by simp
  moreover have "\<forall>(d, s)\<in>set (x # ws). \<exists>nds slot. remap d = Some nds \<and> map_of (core_id_to_work_slice division) d = Some slot \<and>
      (\<forall>j<length nds. (map_of sp' (fst (nds ! j)), map_of cm' (fst (nds ! j))) =
        placed slot 1 (fst (distribute_aligned_split s (map snd nds))) j)"
    unfolding x list.set ball_simps prod.case using a ih(1) by (rule conjI)
  ultimately show ?case by blast
qed simp

lemma list_all2_from_placed:
  assumes "factors_of fs bs" "length nds = length fs" "bs = map snd nds" "owner_at slot core = Some v"
    "\<forall>j<length nds. (map_of (work_slices new) (fst (nds ! j)), map_of (core_id_to_work_slice new) (fst (nds ! j))) = placed slot 1 fs j"
  shows "aligned_owner new nds core r \<longleftrightarrow> owns_row fs bs v r"
proof -
  note p = factors_of_props [OF assms(1)]
  have j: "dict_get (work_slices new) (fst (nds ! j)) 1 = fs ! j"
    "(case slot_at (core_id_to_work_slice new) core (fst (nds ! j)) of None \<Rightarrow> 0 | Some x \<Rightarrow> x) = digits fs v ! j" if "j < length nds" for j
  proof -
    have m: "map_of (work_slices new) (fst (nds ! j)) = fst (placed slot 1 fs j)" "map_of (core_id_to_work_slice new) (fst (nds ! j)) = snd (placed slot 1 fs j)"
      using assms(5) that by (metis fst_conv snd_conv)+
    have tp: "0 < prod_list (take j fs)" using p(3) by (intro prod_list_pos) (auto simp: list_all_iff dest: in_set_takeD)
    have fp: "0 < fs ! j" using p(3) that assms(2) by (simp add: list_all_length)
    show "dict_get (work_slices new) (fst (nds ! j)) 1 = fs ! j" by (simp add: dict_get_def m placed_def)
    show "(case slot_at (core_id_to_work_slice new) core (fst (nds ! j)) of None \<Rightarrow> 0 | Some x \<Rightarrow> x) = digits fs v ! j"
      using digits_nth [OF p(3), of j v] that assms(2,4) tp fp by (simp add: slot_at_def m placed_def)
  qed
  have "owns_row fs bs v r \<longleftrightarrow> (\<forall>j<length nds. digits bs r ! j div (bs ! j div fs ! j) = digits fs v ! j)"
    using p(1) assms(2) by (simp add: owns_row_def list_eq_iff_nth_eq)
  moreover have "aligned_owner new nds core r \<longleftrightarrow> (\<forall>j<length nds. digits bs r ! j div (bs ! j div fs ! j) = digits fs v ! j)"
    unfolding aligned_owner_def list_all_iff set_upt Ball_def atLeastLessThan_iff using j assms(3) by simp
  ultimately show ?thesis by simp
qed

text \<open>
  C10: Re-expressing ownership in aligned dimensions moves no data.  When every split keeps its blocks
  and the segments of different dimensions are different, a core owns a row of an old dimension in the
  remapped division exactly when the row lies in the block its old slot stands for.
\<close>

theorem remap_keeps_ownership:
  assumes "remap_work_division division remap = Inr new" "remap_ok division remap"
    "(d, s) \<in> set (work_slices division)" "remap d = Some nds"
    "slot_at (core_id_to_work_slice division) core d = Some v" "0 \<le> v" "v < s" "0 \<le> r" "r < prod_list (map snd nds)"
  shows "aligned_owner new nds core r \<longleftrightarrow> r div (prod_list (map snd nds) div s) = v"
proof -
  obtain sp cm where f: "foldE (remap_dim division remap) (work_slices division) ([], []) = Inr (sp, cm)"
    "new = \<lparr>work_slices = sp, core_id_to_work_slice = cm, division_cores = Some (physical_core_count division)\<rparr>"
    using assms(1) by (auto simp: remap_work_division_def)
  have ok: "\<forall>ds\<in>set (work_slices division). 0 < snd ds \<and> (\<forall>nds. remap (fst ds) = Some nds \<longrightarrow>
       list_all (\<lambda>b. 0 < b) (map snd nds) \<and> aligned_split_keeps_blocks (snd ds) (map snd nds))"
    "distinct (concat (map (\<lambda>ds. map fst (the (remap (fst ds)))) (work_slices division)))"
    using assms(2) unfolding remap_ok_def list_all_iff by (fastforce split: option.splits)+
  obtain slot where s: "map_of (core_id_to_work_slice division) d = Some slot"
    "\<forall>j<length nds. (map_of sp (fst (nds ! j)), map_of cm (fst (nds ! j))) = placed slot 1 (fst (distribute_aligned_split s (map snd nds))) j"
    using remap_fold_ok [OF f(1) ok(2,1)] assms(3,4) by fastforce
  have h: "0 < s" "list_all (\<lambda>b. 0 < b) (map snd nds)" "aligned_split_keeps_blocks s (map snd nds)"
    using ok(1) assms(3,4) by auto
  obtain fs rest where d: "distribute_aligned_split s (map snd nds) = (fs, rest)" by (cases "distribute_aligned_split s (map snd nds)")
  note fo = distribute_factors_of [OF h(1,2) d]
  have r1: "rest = 1" using h(3) d by (simp add: aligned_split_keeps_blocks_def Let_def split: if_splits)
  have "aligned_owner new nds core r \<longleftrightarrow> owns_row fs (map snd nds) v r"
  proof (rule list_all2_from_placed [OF fo _ refl])
    show "length nds = length fs" using factors_of_props(1) [OF fo] by simp
    show "owner_at slot core = Some v" using assms(5) s(1) by (simp add: slot_at_def)
    show "\<forall>j<length nds. (map_of (work_slices new) (fst (nds ! j)), map_of (core_id_to_work_slice new) (fst (nds ! j))) = placed slot 1 fs j"
      using s(2) unfolding f(2) d TensorWorkDivision.simps fst_conv .
  qed
  moreover have "in_blocks fs (map snd nds)"
    using h(3) d r1 unfolding blocks_iff_no_split_inside [OF fo] by (simp add: aligned_split_keeps_blocks_def Let_def)
  moreover have "prod_list fs = s" using distribute_ok(3) [OF h(1,2) d] r1 by simp
  ultimately show ?thesis using assms(6-9) unfolding in_blocks_def by simp
qed

definition demo_owned :: "string TensorWorkDivision" where
  "demo_owned = \<lparr>work_slices = [(''row'', 6)], core_id_to_work_slice = [(''row'', Rem CoreId 6)], division_cores = Some 6\<rparr>"

definition demo_remap :: "string \<Rightarrow> (string \<times> int) list option" where
  "demo_remap d = (if d = ''row'' then Some [(''r0'', 4), (''r1'', 3)] else None)"

theorem remap_keeps_ownership_witness:
  "\<exists>new. remap_work_division demo_owned demo_remap = Inr new \<and> aligned_owner new [(''r0'', 4), (''r1'', 3)] 3 6"
proof -
  have ok: "remap_ok demo_owned demo_remap" by code_simp
  have "\<not> isl (remap_work_division demo_owned demo_remap)" by code_simp
  then obtain new where n: "remap_work_division demo_owned demo_remap = Inr new"
    by (cases "remap_work_division demo_owned demo_remap") auto
  have "aligned_owner new [(''r0'', 4), (''r1'', 3)] 3 6 \<longleftrightarrow> 6 div (prod_list (map snd [(''r0'', 4), (''r1'', 3)]) div 6) = (3 :: int)"
    by (rule remap_keeps_ownership [OF n ok, of "''row''" 6]) (simp_all add: demo_owned_def demo_remap_def slot_at_def)
  then show ?thesis using n by simp
qed

section \<open>One mapping for every tensor\<close>

lemma core_mappings_equal_single:
  "core_mappings_equal [(d, e)] [(d, e')] n \<Longrightarrow> 0 \<le> core \<Longrightarrow> core < n \<Longrightarrow> owner_at e core = owner_at e' core \<and> owner_at e core \<noteq> None"
proof -
  assume a: "core_mappings_equal [(d, e)] [(d, e')] n" "0 \<le> core" "core < n"
  then have "core \<in> set [0..n - 1]" by simp
  then show "owner_at e core = owner_at e' core \<and> owner_at e core \<noteq> None"
    using a(1,2,3) unfolding core_mappings_equal_def list_all_iff by (simp del: set_upto) metis
qed

text \<open>What the collected constraints keep of the tensors seen so far.\<close>

definition honours :: "int \<Rightarrow> string owners \<Rightarrow> string TensorWorkDivision \<Rightarrow> string \<times> int \<Rightarrow> bool" where
  "honours n constrained division ds \<longleftrightarrow> snd ds \<le> 1 \<or>
     (\<exists>e e'. map_of constrained (fst ds) = Some e \<and> map_of (core_id_to_work_slice division) (fst ds) = Some e' \<and>
       (\<forall>core. 0 \<le> core \<and> core < n \<longrightarrow> owner_at e core = owner_at e' core))"

text \<open>Constraints are only added, never changed.\<close>

definition owners_extend :: "string owners \<Rightarrow> string owners \<Rightarrow> bool" where
  "owners_extend c c' \<longleftrightarrow> (\<forall>d e. map_of c d = Some e \<longrightarrow> map_of c' d = Some e) \<and> (distinct (map fst c) \<longrightarrow> distinct (map fst c'))"

lemma owners_extend_refl [simp]: "owners_extend c c"
  by (simp add: owners_extend_def)

lemma owners_extend_trans: "owners_extend c c1 \<Longrightarrow> owners_extend c1 c2 \<Longrightarrow> owners_extend c c2"
  unfolding owners_extend_def by blast

lemma honours_mono: "honours n c division ds \<Longrightarrow> owners_extend c c' \<Longrightarrow> honours n c' division ds"
  unfolding honours_def owners_extend_def by blast

lemma constrain_dim_ok:
  assumes "constrain_dim n sbd division ds c = Inr c'"
  shows "honours n c' division ds \<and> owners_extend c c'"
proof (cases "snd ds \<le> 1")
  case True
  then show ?thesis using assms by (simp add: constrain_dim_def honours_def)
next
  case False
  then obtain s where s: "sbd (fst ds) = Some s" using assms by (cases "sbd (fst ds)") (auto simp: constrain_dim_def)
  then have sd: "s = snd ds" using assms False by (auto simp: constrain_dim_def split: if_splits)
  obtain x where x: "map_of (core_id_to_work_slice division) (fst ds) = Some x"
    using assms False s sd by (cases "map_of (core_id_to_work_slice division) (fst ds)") (auto simp: constrain_dim_def)
  let ?p = "dict_get c (fst ds) x"
  have r: "core_mappings_equal [(fst ds, ?p)] [(fst ds, x)] n"
    "c' = (if map_of c (fst ds) = None then c @ [(fst ds, x)] else c)"
    using assms False s sd x by (auto simp: constrain_dim_def Let_def split: if_splits)
  have q: "map_of c' (fst ds) = Some ?p" unfolding r(2) by (cases "map_of c (fst ds)") (simp_all add: dict_get_def map_add_def)
  then have "honours n c' division ds" unfolding honours_def using core_mappings_equal_single [OF r(1)] x by blast
  moreover have "owners_extend c c'" unfolding r(2) owners_extend_def by (auto simp: map_add_def map_of_eq_None_iff)
  ultimately show ?thesis ..
qed

lemma constrain_dims_ok:
  assumes "foldE (constrain_dim n sbd division) ws c = Inr c'"
  shows "list_all (honours n c' division) ws \<and> owners_extend c c'"
  using assms
proof (induction ws arbitrary: c)
  case (Cons x ws)
  obtain c1 where c: "constrain_dim n sbd division x c = Inr c1" "foldE (constrain_dim n sbd division) ws c1 = Inr c'"
    using Cons.prems by auto
  note d = constrain_dim_ok [OF c(1)] and ih = Cons.IH [OF c(2)]
  have "honours n c' division x" using honours_mono d ih by blast
  then show ?case using owners_extend_trans d ih by auto
qed simp

lemma constrain_division_ok:
  assumes "constrain_division n sbd x c = Inr c'"
  shows "(case x of None \<Rightarrow> True | Some dv \<Rightarrow> list_all (honours n c' dv) (work_slices dv)) \<and> owners_extend c c'"
proof (cases x)
  case None
  then show ?thesis using assms by (simp add: constrain_division_def)
next
  case (Some dv)
  then have "foldE (constrain_dim n sbd dv) (work_slices dv) c = Inr c'"
    using assms by (auto simp: constrain_division_def split: if_splits)
  from constrain_dims_ok [OF this] show ?thesis using Some by simp
qed

lemma constrain_divisions_ok:
  assumes "foldE (constrain_division n sbd) divisions c = Inr c'"
  shows "list_all (\<lambda>x. case x of None \<Rightarrow> True | Some dv \<Rightarrow> list_all (honours n c' dv) (work_slices dv)) divisions \<and> owners_extend c c'"
  using assms
proof (induction divisions arbitrary: c)
  case (Cons x divisions)
  obtain c1 where c: "constrain_division n sbd x c = Inr c1" "foldE (constrain_division n sbd) divisions c1 = Inr c'"
    using Cons.prems by auto
  note d = constrain_division_ok [OF c(1)] and ih = Cons.IH [OF c(2)]
  have "case x of None \<Rightarrow> True | Some dv \<Rightarrow> list_all (honours n c' dv) (work_slices dv)"
  proof (cases x)
    case (Some dv)
    have "honours n c' dv ds" if "honours n c1 dv ds" for ds using that ih honours_mono by blast
    then show ?thesis using d Some by (auto simp: list_all_iff)
  qed simp
  then show ?case using owners_extend_trans d ih by auto
qed simp

lemma agrees_with_ok:
  assumes "agrees_with m c n = Inr True" "distinct (map fst c)" "map_of c d = Some e" "0 \<le> core" "core < n"
  shows "slot_at m core d = owner_at e core"
proof -
  have de: "(d, e) \<in> set c" using assms(3) by (rule map_of_SomeD)
  then have "map_of m d \<noteq> None" "core_mappings_equal [(d, the (map_of m d))] [(d, e)] n"
    using assms(1) by (fastforce simp: agrees_with_def list_ex_iff list_all_iff split: if_splits)+
  then obtain y where "map_of m d = Some y" "core_mappings_equal [(d, y)] [(d, e)] n" by auto
  then show ?thesis using core_mappings_equal_single [OF _ assms(4,5), of d y e] by (simp add: slot_at_def)
qed

lemma permutations_mset: "zs \<in> set (permutations xs) \<Longrightarrow> mset zs = mset xs"
proof (induction xs arbitrary: zs rule: permutations.induct)
  case (1 xs)
  show ?case
  proof (cases "xs = []")
    case True
    then show ?thesis using 1(2) by (simp add: permutations.simps [of "[]"])
  next
    case False
    then obtain i ys where i: "i < length xs" "zs = xs ! i # ys" "ys \<in> set (permutations (take i xs @ drop (Suc i) xs))"
      using 1(2) by (auto simp: permutations.simps [of xs])
    then have "mset ys = mset (take i xs @ drop (Suc i) xs)" using 1(1) [OF False, of i ys] by simp
    then have "mset zs = mset (take i xs @ xs ! i # drop (Suc i) xs)" using i(2) by simp
    then show ?thesis using i(1) by (simp add: id_take_nth_drop [symmetric])
  qed
qed

lemma first_agreeing_ok:
  assumes "first_agreeing dims splits n cd c orders = Inr m" "distinct dims" "list_all (\<lambda>s. 0 < s) splits" "\<forall>ord\<in>set orders. distinct ord"
  shows "agrees_with m c n = Inr True \<and> bij_betw (slots_at m dims) {0..<n} (slot_space splits)"
  using assms
proof (induction orders)
  case (Cons order orders)
  obtain candidate ok where d: "derive_core_mapping dims splits n cd (map (\<lambda>d. (d, the (map_of (zip dims splits) d))) order) = Inr candidate"
    "agrees_with candidate c n = Inr ok" "(if ok then Inr candidate else first_agreeing dims splits n cd c orders) = Inr m"
    using Cons.prems(1) by auto
  show ?case
  proof (cases ok)
    case True
    have "distinct (map fst (map (\<lambda>d. (d, the (map_of (zip dims splits) d))) order))" using Cons.prems(4) by (simp add: comp_def)
    then show ?thesis using derive_core_mapping_bij [OF d(1) Cons.prems(2,3)] d True by simp
  next
    case False
    then show ?thesis using Cons d(3) by simp
  qed
qed simp

text \<open>
  C13: The operation mapping satisfies every LX tensor.  A mapping derived for an iteration space with
  distinct dimensions and positive splits gives every slice combination to exactly one core, and on every
  core it assigns each split dimension of each committed tensor the slot that tensor's own owner formula
  gives.
\<close>

theorem operation_mapping_satisfies_tensors:
  assumes "derive_operation_mapping iteration_space divisions contiguous_dim = Inr m"
    "distinct (map fst iteration_space)" "list_all (\<lambda>s. 0 < s) (map snd iteration_space)"
  shows "bij_betw (slots_at m (map fst iteration_space)) {0..<prod_list (map snd iteration_space)} (slot_space (map snd iteration_space)) \<and>
    (\<forall>division d s core. Some division \<in> set divisions \<and> (d, s) \<in> set (work_slices division) \<and> 1 < s \<and>
       0 \<le> core \<and> core < prod_list (map snd iteration_space) \<longrightarrow>
       slot_at m core d = slot_at (core_id_to_work_slice division) core d)"
proof -
  let ?dims = "map fst iteration_space" and ?splits = "map snd iteration_space"
  let ?n = "prod_list ?splits"
  obtain c where c: "foldE (constrain_division ?n (map_of iteration_space)) divisions [] = Inr c"
    using assms(1) by (auto simp: derive_operation_mapping_def Let_def)
  note h = constrain_divisions_ok [OF c]
  have "agrees_with m c ?n = Inr True \<and> bij_betw (slots_at m ?dims) {0..<?n} (slot_space ?splits)"
  proof (cases "c = []")
    case True
    then have "derive_core_mapping ?dims ?splits ?n contiguous_dim [] = Inr m"
      using assms(1) c by (auto simp: derive_operation_mapping_def Let_def)
    then show ?thesis using derive_core_mapping_bij assms(2,3) True by (fastforce simp: agrees_with_def)
  next
    case False
    then obtain default ok where d: "derive_core_mapping ?dims ?splits ?n contiguous_dim [] = Inr default" "agrees_with default c ?n = Inr ok"
      "(if ok then Inr default else if length c > MAX_OWNER_PERMUTATION_DIMS then Inl ValueError
        else first_agreeing ?dims ?splits ?n contiguous_dim c (permutations (sort (map fst c)))) = Inr m"
      using assms(1) c by (auto simp: derive_operation_mapping_def Let_def)
    show ?thesis
    proof (cases ok)
      case True
      then show ?thesis using d derive_core_mapping_bij [OF d(1) assms(2,3)] by simp
    next
      case False
      have "distinct (map fst c)" using h by (simp add: owners_extend_def)
      then have "\<forall>ord\<in>set (permutations (sort (map fst c))). distinct ord"
        using permutations_mset mset_eq_imp_distinct_iff by (metis mset_sort)
      then show ?thesis using first_agreeing_ok [OF _ assms(2,3)] d(3) False by (simp split: if_splits)
    qed
  qed
  moreover have "slot_at m core d = slot_at (core_id_to_work_slice division) core d"
    if a: "agrees_with m c ?n = Inr True" "Some division \<in> set divisions" "(d, s) \<in> set (work_slices division)" "1 < s" "0 \<le> core" "core < ?n"
    for division d s core
  proof -
    have "honours ?n c division (d, s)" using h a(2,3) by (fastforce simp: list_all_iff)
    then obtain e e' where e: "map_of c d = Some e" "map_of (core_id_to_work_slice division) d = Some e'" "owner_at e core = owner_at e' core"
      using a(4-6) by (auto simp: honours_def)
    have "distinct (map fst c)" using h by (simp add: owners_extend_def)
    then show ?thesis using agrees_with_ok [OF a(1) _ e(1) a(5,6)] e(2,3) by (simp add: slot_at_def)
  qed
  ultimately show ?thesis by blast
qed

definition demo_tensor :: "string TensorWorkDivision" where
  "demo_tensor = \<lparr>work_slices = [(''m'', 4)], core_id_to_work_slice = [(''m'', FloorDiv CoreId 2)], division_cores = Some 8\<rparr>"

theorem operation_mapping_satisfies_tensors_witness:
  "\<exists>m. derive_operation_mapping [(''m'', 4), (''n'', 2)] [None, Some demo_tensor] None = Inr m \<and>
     slot_at m 5 ''m'' = slot_at (core_id_to_work_slice demo_tensor) 5 ''m''"
proof -
  let ?it = "[(''m'', 4), (''n'', 2)] :: string splits"
  have "\<not> isl (derive_operation_mapping ?it [None, Some demo_tensor] None)" by code_simp
  then obtain m where m: "derive_operation_mapping ?it [None, Some demo_tensor] None = Inr m"
    by (cases "derive_operation_mapping ?it [None, Some demo_tensor] None") auto
  have "(''m'', 4) \<in> set (work_slices demo_tensor)" by (simp add: demo_tensor_def)
  moreover have all: "\<forall>division d s core. Some division \<in> set [None, Some demo_tensor] \<and> (d, s) \<in> set (work_slices division) \<and> 1 < s \<and>
       0 \<le> core \<and> core < prod_list (map snd ?it) \<longrightarrow> slot_at m core d = slot_at (core_id_to_work_slice division) core d"
    by (rule operation_mapping_satisfies_tensors [OF m, THEN conjunct2]) simp_all
  ultimately have "slot_at m 5 ''m'' = slot_at (core_id_to_work_slice demo_tensor) 5 ''m''"
    using all [rule_format, of demo_tensor "''m''" 4 5] by simp
  then show ?thesis using m by blast
qed

section \<open>The canonical spelling is unique\<close>

text \<open>The candidate a dimension order stands for.\<close>

definition candidate_of :: "string splits \<Rightarrow> (string \<Rightarrow> int) \<Rightarrow> int \<Rightarrow> string list \<Rightarrow> string TensorWorkDivision res" where
  "candidate_of slices split_of num_cores order =
     bindE (derive_partition_mapping order (map split_of order) num_cores) (\<lambda>mapping.
       Inr \<lparr>work_slices = slices, core_id_to_work_slice = map (\<lambda>ds. (fst ds, dict_get mapping (fst ds) (Slot 0))) slices,
            division_cores = Some num_cores\<rparr>)"

lemma accept_orders_ok:
  assumes "accept_orders dims slices split_of n matches acc orders = Some res" "length acc \<le> 1" "list_all matches acc"
  shows "length res \<le> 1 \<and> list_all matches res \<and> set acc \<subseteq> set res \<and>
    (\<forall>order\<in>set orders. \<forall>c. candidate_of slices split_of n order = Inr c \<and> matches c \<longrightarrow>
      (\<exists>a\<in>set res. same_ownership a c \<or> a = c)) \<and>
    (\<forall>a\<in>set res. a \<in> set acc \<or> (\<exists>order\<in>set orders. candidate_of slices split_of n order = Inr a))"
  using assms
proof (induction orders arbitrary: acc)
  case (Cons order orders)
  show ?case
  proof (cases "derive_partition_mapping order (map split_of order) n")
    case (Inl e)
    then have "accept_orders dims slices split_of n matches acc orders = Some res"
      using Cons.prems(1) by (simp split: if_splits)
    from Cons.IH [OF this Cons.prems(2,3)] show ?thesis using Inl by (auto simp: candidate_of_def)
  next
    case (Inr mapping)
    define c where "c = \<lparr>work_slices = slices, core_id_to_work_slice = map (\<lambda>ds. (fst ds, dict_get mapping (fst ds) (Slot 0))) slices,
            division_cores = Some n\<rparr>"
    have cc: "candidate_of slices split_of n order = Inr c" by (simp add: candidate_of_def Inr c_def)
    show ?thesis
    proof (cases "matches c \<and> \<not> list_ex (\<lambda>previous. same_ownership previous c) acc")
      case True
      then have acc: "acc = []" "accept_orders dims slices split_of n matches [c] orders = Some res"
        using Cons.prems(1,2) Inr by (auto simp: c_def [symmetric] Let_def split: if_splits)
      have "length [c] \<le> 1" "list_all matches [c]" using True by simp_all
      from Cons.IH [OF acc(2) this] show ?thesis using acc(1) cc by auto
    next
      case False
      then have r: "accept_orders dims slices split_of n matches acc orders = Some res"
        using Cons.prems(1) Inr by (auto simp: c_def [symmetric] Let_def split: if_splits)
      have "\<exists>a\<in>set acc. same_ownership a c" if "matches c" using False that by (auto simp: list_ex_iff)
      then show ?thesis using Cons.IH [OF r Cons.prems(2,3)] cc by auto
    qed
  qed
qed auto

lemma permutations_complete: "mset zs = mset xs \<Longrightarrow> zs \<in> set (permutations xs)"
proof (induction zs arbitrary: xs)
  case Nil
  then show ?case by (simp add: permutations.simps [of "[]"])
next
  case (Cons z zs)
  then have "z \<in> set xs" by (metis list.set_intros(1) set_mset_mset)
  then obtain i where i: "i < length xs" "xs ! i = z" by (auto simp: in_set_conv_nth)
  have "mset (take i xs @ xs ! i # drop (Suc i) xs) = mset (z # zs)" using i(1) Cons.prems by (simp add: id_take_nth_drop [symmetric])
  then have "zs \<in> set (permutations (take i xs @ drop (Suc i) xs))" using i(2) by (intro Cons.IH) simp
  moreover have "xs \<noteq> []" using i(1) by auto
  ultimately show ?case using i by (subst permutations.simps) auto
qed

lemma select_unique_shape:
  assumes "select_unique_partition_division dims slices n matches = Some c"
  defines "sbd \<equiv> List.map_filter (\<lambda>d. case map_of slices d of None \<Rightarrow> None | Some s \<Rightarrow> if s > 1 then Some (d, s) else None) dims"
  shows "\<exists>res. accept_orders dims slices (\<lambda>d. dict_get sbd d 1) n matches [] (permutations (map fst sbd)) = Some (c # res)"
  using assms(1) unfolding select_unique_partition_division_def sbd_def [symmetric] Let_def
  by (auto split: if_splits option.splits list.splits)

text \<open>
  A selected spelling of an ownership is certified and unique.  The returned division passes the
  caller's test and is the canonical mapping of some order of the split dimensions; and any order of them
  whose canonical mapping passes the test gives every core the same slices.
\<close>

theorem selected_division_unique:
  assumes "select_unique_partition_division dims slices num_cores matches = Some c"
    "sbd = List.map_filter (\<lambda>d. case map_of slices d of None \<Rightarrow> None | Some s \<Rightarrow> if s > 1 then Some (d, s) else None) dims"
  shows "matches c \<and>
    (\<exists>order. mset order = mset (map fst sbd) \<and> candidate_of slices (\<lambda>d. dict_get sbd d 1) num_cores order = Inr c) \<and>
    (\<forall>order c'. mset order = mset (map fst sbd) \<and> candidate_of slices (\<lambda>d. dict_get sbd d 1) num_cores order = Inr c' \<and> matches c' \<longrightarrow>
      c' = c \<or> same_ownership c c')"
proof -
  obtain res where r: "accept_orders dims slices (\<lambda>d. dict_get sbd d 1) num_cores matches [] (permutations (map fst sbd)) = Some (c # res)"
    using select_unique_shape [OF assms(1)] assms(2) by auto
  note a = accept_orders_ok [OF r]
  have "res = []" "matches c" using a by simp_all
  moreover have "\<exists>order\<in>set (permutations (map fst sbd)). candidate_of slices (\<lambda>d. dict_get sbd d 1) num_cores order = Inr c"
    using a by simp
  then have "\<exists>order. mset order = mset (map fst sbd) \<and> candidate_of slices (\<lambda>d. dict_get sbd d 1) num_cores order = Inr c"
    using permutations_mset by blast
  moreover have "c' = c \<or> same_ownership c c'"
    if "mset order = mset (map fst sbd)" "candidate_of slices (\<lambda>d. dict_get sbd d 1) num_cores order = Inr c'" "matches c'" for order c'
    using a permutations_complete [OF that(1)] that(2,3) \<open>res = []\<close> by fastforce
  ultimately show ?thesis by blast
qed

theorem selected_division_unique_witness:
  "\<exists>c. select_unique_partition_division [''m'', ''n''] [(''m'', 4), (''n'', 2)] 8
       (\<lambda>d. map (\<lambda>core. slot_at (core_id_to_work_slice d) core ''m'') [0, 1, 2] = [Some 0, Some 0, Some 1]) = Some c \<and>
     map (\<lambda>core. slot_at (core_id_to_work_slice c) core ''m'') [0, 1, 2] = [Some 0, Some 0, Some 1]"
proof -
  let ?t = "\<lambda>d. map (\<lambda>core. slot_at (core_id_to_work_slice d) core ''m'') [0, 1, 2] = [Some 0, Some 0, Some 1]"
  let ?s = "select_unique_partition_division [''m'', ''n''] [(''m'', 4), (''n'', 2)] 8 ?t"
  have "\<not> Option.is_none ?s" by code_simp
  then obtain c where c: "?s = Some c" by (cases ?s) simp_all
  have "?t c" by (rule selected_division_unique [OF c refl, THEN conjunct1])
  then show ?thesis by (intro exI [of _ c] conjI c)
qed

section \<open>Finalised divisions are well formed\<close>

lemma to_core_slices_ok:
  assumes "to_core_slices v n = Inr rows" "(dim, formula) \<in> set (core_id_to_work_slice v)" "0 \<le> core" "core < n"
  shows "\<exists>slot split. owner_at formula core = Some slot \<and> map_of (work_slices v) dim = Some split \<and> 0 \<le> slot \<and> slot < split"
proof -
  have m: "mapE (\<lambda>core. bindE (mapE (core_slice v core) (core_id_to_work_slice v)) (\<lambda>slots. Inr (core, slots))) [0..n - 1] = Inr rows"
    using assms(1) by (simp add: to_core_slices_def split: if_splits)
  have "core \<in> set [0..n - 1]" using assms(3,4) by simp
  then obtain y where "bindE (mapE (core_slice v core) (core_id_to_work_slice v)) (\<lambda>slots. Inr (core, slots)) = Inr y"
    using mapE_Inr_mem [OF m] by blast
  then obtain slots where "mapE (core_slice v core) (core_id_to_work_slice v) = Inr slots" by auto
  then obtain z where "core_slice v core (dim, formula) = Inr z" using mapE_Inr_mem [OF _ assms(2)] by blast
  then show ?thesis by (auto simp: core_slice_def split: option.splits if_splits)
qed

lemma finalize_division_ok:
  assumes "finalize_division it x = Inr y"
  shows "(y = None) = (x = None)" "y = Some v \<Longrightarrow> 0 < physical_core_count v \<and> map fst (core_id_to_work_slice v) = map fst (work_slices v) \<and>
      (\<forall>dim split. (dim, split) \<in> set (work_slices v) \<longrightarrow> 1 < split \<and> map_of it dim \<noteq> None) \<and>
      (\<exists>rows. to_core_slices v (physical_core_count v) = Inr rows)"
proof -
  show "(y = None) = (x = None)" using assms by (auto simp: finalize_division_def Let_def split: option.splits if_splits)
  assume yv: "y = Some v"
  then obtain d where x: "x = Some d" using assms by (cases x) (auto simp: finalize_division_def)
  let ?s = "filter (\<lambda>ds. snd ds > 1) (work_slices d)"
  have h: "\<not> list_ex (\<lambda>ds. map_of it (fst ds) = None) ?s" "\<not> list_ex (\<lambda>ds. map_of (core_id_to_work_slice d) (fst ds) = None) ?s"
    using assms x by (auto simp: finalize_division_def Let_def split: if_splits)
  have v: "v = \<lparr>work_slices = ?s, core_id_to_work_slice = map (\<lambda>ds. (fst ds, the (map_of (core_id_to_work_slice d) (fst ds)))) ?s,
                     division_cores = Some (physical_core_count d)\<rparr>" and t: "\<exists>rows. to_core_slices v (physical_core_count v) = Inr rows"
    using assms x yv h by (auto simp: finalize_division_def Let_def)
  have "0 < physical_core_count v" using t by (auto simp: to_core_slices_def split: if_splits)
  moreover have "map fst (core_id_to_work_slice v) = map fst (work_slices v)" unfolding v by simp
  moreover have "1 < split \<and> map_of it dim \<noteq> None" if "(dim, split) \<in> set (work_slices v)" for dim split
    using that h(1) unfolding v by (force simp: list_ex_iff)
  ultimately show "0 < physical_core_count v \<and> map fst (core_id_to_work_slice v) = map fst (work_slices v) \<and>
      (\<forall>dim split. (dim, split) \<in> set (work_slices v) \<longrightarrow> 1 < split \<and> map_of it dim \<noteq> None) \<and>
      (\<exists>rows. to_core_slices v (physical_core_count v) = Inr rows)" using t by blast
qed

text \<open>
  C36: A finalised tensor division is well formed.  Every dimension left is split, belongs to the aligned
  iteration space and has an owner formula, and on every physical core each formula gives a slot inside
  its split.  Divisions that are absent stay absent.
\<close>

theorem finalized_divisions_well_formed:
  assumes "finalize_tensor_work_divisions iteration_space divisions = Inr out"
  shows "list_all2 (\<lambda>d v. (v = None) = (d = None)) divisions out \<and>
    (\<forall>v. Some v \<in> set out \<longrightarrow> 0 < physical_core_count v \<and> map fst (core_id_to_work_slice v) = map fst (work_slices v) \<and>
      (\<forall>dim split. (dim, split) \<in> set (work_slices v) \<longrightarrow> 1 < split \<and> map_of iteration_space dim \<noteq> None) \<and>
      (\<forall>dim formula core. (dim, formula) \<in> set (core_id_to_work_slice v) \<and> 0 \<le> core \<and> core < physical_core_count v \<longrightarrow>
        (\<exists>slot split. owner_at formula core = Some slot \<and> map_of (work_slices v) dim = Some split \<and> 0 \<le> slot \<and> slot < split)))"
proof -
  have l: "list_all2 (\<lambda>x y. finalize_division iteration_space x = Inr y) divisions out"
    using assms by (simp add: finalize_tensor_work_divisions_def mapE_Inr_iff list_all2_conv_all_nth)
  have "list_all2 (\<lambda>d v. (v = None) = (d = None)) divisions out"
    using l finalize_division_ok(1) by (rule list_all2_mono)
  moreover have "0 < physical_core_count v \<and> map fst (core_id_to_work_slice v) = map fst (work_slices v) \<and>
      (\<forall>dim split. (dim, split) \<in> set (work_slices v) \<longrightarrow> 1 < split \<and> map_of iteration_space dim \<noteq> None) \<and>
      (\<forall>dim formula core. (dim, formula) \<in> set (core_id_to_work_slice v) \<and> 0 \<le> core \<and> core < physical_core_count v \<longrightarrow>
        (\<exists>slot split. owner_at formula core = Some slot \<and> map_of (work_slices v) dim = Some split \<and> 0 \<le> slot \<and> slot < split))"
    if v: "Some v \<in> set out" for v
  proof -
    obtain x where "finalize_division iteration_space x = Inr (Some v)"
      using v l by (auto simp: in_set_conv_nth list_all2_conv_all_nth)
    note f = finalize_division_ok(2) [OF this refl]
    then obtain rows where r: "to_core_slices v (physical_core_count v) = Inr rows" by (elim conjE exE)
    have "\<exists>slot split. owner_at formula core = Some slot \<and> map_of (work_slices v) dim = Some split \<and> 0 \<le> slot \<and> slot < split"
      if "(dim, formula) \<in> set (core_id_to_work_slice v) \<and> 0 \<le> core \<and> core < physical_core_count v" for dim formula core
      by (rule to_core_slices_ok [OF r]) (use that in simp_all)
    then show ?thesis using f by simp
  qed
  ultimately show ?thesis by blast
qed

theorem finalized_divisions_well_formed_witness:
  "\<exists>v. finalize_tensor_work_divisions [(''m'', 4), (''n'', 2)] [None, Some demo_tensor] = Inr [None, Some v] \<and>
     0 < physical_core_count v \<and> map fst (core_id_to_work_slice v) = map fst (work_slices v)"
proof -
  let ?f = "finalize_tensor_work_divisions [(''m'', 4), (''n'', 2)] [None, Some demo_tensor]"
  have "(case ?f of Inr [None, Some v] \<Rightarrow> True | _ \<Rightarrow> False)" by code_simp
  then obtain v where v: "?f = Inr [None, Some v]" by (auto split: sum.splits list.splits option.splits)
  then show ?thesis using finalized_divisions_well_formed [OF v] by auto
qed

end
