(* ===== verification/Subrange_Transfer.thy ===== *)
theory Subrange_Transfer
  imports Core_Mapping
begin

text \<open>
  Certified copies of a rectangular child of a tensor between cores' local memories
  (\<open>certify_dense_subrange_transfer\<close> and \<open>local_subrange_byte_offset\<close> of \<open>core_mapping.py\<close>).

  The parent is a dense array, divided into equal slices over the source cores; the child rectangle is
  divided over the destination cores, possibly replicated.  The certificate lists, per destination
  core, the intersections with the source slices and their byte offsets in the two local memories.
  Coordinates are lists of integers, one per axis.
\<close>

subsection \<open>Partitions\<close>

definition valid_axis :: "nat \<Rightarrow> int \<Rightarrow> bool" where
  "valid_axis rank axis \<longleftrightarrow> 0 \<le> axis \<and> axis < int rank"

definition full_splits_of :: "int list \<Rightarrow> (int \<times> int) list \<Rightarrow> int list" where
  "full_splits_of shape splits = map (\<lambda>axis. dict_get splits (int axis) 1) [0..<length shape]"

definition owner_row :: "int list \<Rightarrow> (int \<times> int) list \<Rightarrow> int list res" where
  "owner_row full_splits row =
     (let rank = length full_splits;
          slots = map (\<lambda>axis. dict_get row (int axis) 0) [0..<rank]
      in if list_ex (\<lambda>as. \<not> valid_axis rank (fst as)) row then Inl ValueError
         else if list_ex (\<lambda>axis. (full_splits ! axis > 1 \<and> map_of row (int axis) = None) \<or>
                   \<not> (0 \<le> slots ! axis \<and> slots ! axis < full_splits ! axis)) [0..<rank] then Inl ValueError
         else Inr slots)"

definition all_slots :: "int list \<Rightarrow> int list list" where
  "all_slots splits = product_lists (map (\<lambda>s. [0..s - 1]) splits)"

definition dense_subrange_partition ::
  "int list \<Rightarrow> (int \<times> int) list \<Rightarrow> (int \<times> (int \<times> int) list) list \<Rightarrow> bool \<Rightarrow> (int list \<times> int list list \<times> int list) res" where
  "dense_subrange_partition shape splits owners allow_replicas =
     (if list_ex (\<lambda>as. \<not> valid_axis (length shape) (fst as)) splits then Inl ValueError
      else
        let full_splits = full_splits_of shape splits;
            partitions = prod_list full_splits;
            n = int (length owners)
        in if list_ex (\<lambda>(size, split). split \<le> 0 \<or> size mod split \<noteq> 0) (zip shape full_splits) \<or> last full_splits \<noteq> 1 then Inl ValueError
           else if owners = [] then Inl ValueError
           else if set (map fst owners) \<noteq> set [0..n - 1] then Inl ValueError
           else if n mod partitions \<noteq> 0 \<or> (\<not> allow_replicas \<and> n \<noteq> partitions) then Inl ValueError
           else bindE (mapE (\<lambda>core. owner_row full_splits (the (map_of owners core))) [0..n - 1]) (\<lambda>rows.
             if set rows \<noteq> set (all_slots full_splits) then Inl ValueError
             else if list_ex (\<lambda>r. count_list rows r \<noteq> count_list rows (hd rows)) rows \<or>
                     (\<not> allow_replicas \<and> list_ex (\<lambda>r. count_list rows r \<noteq> 1) rows) then Inl ValueError
             else Inr (full_splits, rows, map2 (div) shape full_splits)))"

subsection \<open>Fragments\<close>

record fragment =
  source_core :: nat
  destination_core :: nat
  parent_origin :: "int list"
  frag_extent :: "int list"
  source_offset_bytes :: int
  destination_offset_bytes :: int
  source_strides_bytes :: "int list"
  destination_strides_bytes :: "int list"

record DenseSubrangeTransfer =
  parent_shape :: "int list"
  child_origin :: "int list"
  child_extent :: "int list"
  element_bytes :: int
  source_splits :: "int list"
  destination_splits :: "int list"
  source_owners :: "int list list"
  destination_owners :: "int list list"
  source_local_shape :: "int list"
  destination_local_shape :: "int list"
  source_reservation_bytes :: int
  destination_reservation_bytes :: int
  fragments :: "fragment list"

definition dot :: "int list \<Rightarrow> int list \<Rightarrow> int" where
  "dot xs ys = sum_list (map2 (*) xs ys)"

definition dense_strides :: "int list \<Rightarrow> int \<Rightarrow> int list" where
  "dense_strides shape bytes = map (\<lambda>axis. prod_list (drop (Suc axis) shape) * bytes) [0..<length shape]"

definition intervals_overlap :: "int \<Rightarrow> int \<Rightarrow> int \<Rightarrow> int \<Rightarrow> bool" where
  "intervals_overlap a_start a_end b_start b_end \<longleftrightarrow> a_start < b_end \<and> b_start < a_end"

definition MAX_SHUFFLE_FANIN :: nat where
  "MAX_SHUFFLE_FANIN = 8"

definition in_span :: "int \<Rightarrow> int list \<Rightarrow> int list \<Rightarrow> int \<Rightarrow> int \<Rightarrow> bool" where
  "in_span offset widths strides bytes span \<longleftrightarrow>
     \<not> (offset < 0 \<or> offset mod 128 \<noteq> 0 \<or> offset + dot (map (\<lambda>w. w - 1) widths) strides + bytes > span)"

definition incoming_fragment ::
  "int \<Rightarrow> int list \<Rightarrow> int list \<Rightarrow> nat \<Rightarrow> int list \<Rightarrow> nat \<times> int list \<Rightarrow> fragment option res" where
  "incoming_fragment bytes src_shape dst_shape destination dst_start source =
     (let src_start = map2 (*) (snd source) src_shape;
          src_end = map2 (+) src_start src_shape;
          dst_end = map2 (+) dst_start dst_shape
      in if \<not> list_all (\<lambda>((a, ae), (b, be)). intervals_overlap a ae b be) (zip (zip src_start src_end) (zip dst_start dst_end)) then Inr None
         else
           let start = map2 max src_start dst_start;
               widths = map2 (-) (map2 min src_end dst_end) start;
               src_strides = dense_strides src_shape bytes;
               dst_strides = dense_strides dst_shape bytes;
               src_offset = dot (map2 (-) start src_start) src_strides;
               dst_offset = dot (map2 (-) start dst_start) dst_strides
           in if \<not> in_span src_offset widths src_strides bytes (prod_list src_shape * bytes) then Inl ValueError
              else if \<not> in_span dst_offset widths dst_strides bytes (prod_list dst_shape * bytes) then Inl ValueError
              else Inr (Some \<lparr>source_core = fst source, destination_core = destination, parent_origin = start, frag_extent = widths,
                     source_offset_bytes = src_offset, destination_offset_bytes = dst_offset,
                     source_strides_bytes = src_strides, destination_strides_bytes = dst_strides\<rparr>))"

definition destination_fragments ::
  "int \<Rightarrow> int list \<Rightarrow> int list \<Rightarrow> int list \<Rightarrow> int list list \<Rightarrow> nat \<times> int list \<Rightarrow> fragment list res" where
  "destination_fragments bytes origin src_shape dst_shape src_owners destination =
     (let dst_start = map2 (+) origin (map2 (*) (snd destination) dst_shape)
      in bindE (mapE (incoming_fragment bytes src_shape dst_shape (fst destination) dst_start) (List.enumerate 0 src_owners)) (\<lambda>found.
           let incoming = List.map_filter (\<lambda>x. x) found
           in if incoming = [] \<or> length incoming > MAX_SHUFFLE_FANIN then Inl ValueError
              else if sum_list (map (\<lambda>f. prod_list (frag_extent f)) incoming) \<noteq> prod_list dst_shape then Inl ValueError
              else Inr incoming))"

definition certify_dense_subrange_transfer ::
  "int list \<Rightarrow> int list \<Rightarrow> int list \<Rightarrow> (int \<times> int) list \<Rightarrow> (int \<times> int) list \<Rightarrow>
   (int \<times> (int \<times> int) list) list \<Rightarrow> (int \<times> (int \<times> int) list) list \<Rightarrow> int \<Rightarrow> DenseSubrangeTransfer res" where
  "certify_dense_subrange_transfer shape origin extent src_splits dst_splits source_map destination_map bytes =
     (let rank = length shape
      in if rank < 2 \<or> length origin \<noteq> rank \<or> length extent \<noteq> rank \<or> bytes \<notin> {1, 2, 4} \<or>
            list_ex (\<lambda>(size, start, width). size \<le> 0 \<or> start < 0 \<or> width \<le> 0 \<or> start + width > size) (zip shape (zip origin extent))
         then Inl ValueError
         else if last shape * bytes \<noteq> 128 \<or> last origin \<noteq> 0 \<or> last extent \<noteq> last shape then Inl ValueError
         else bindE (dense_subrange_partition shape src_splits source_map False) (\<lambda>(src_full, src_owners, src_shape).
              bindE (dense_subrange_partition extent dst_splits destination_map True) (\<lambda>(dst_full, dst_owners, dst_shape).
              bindE (mapE (destination_fragments bytes origin src_shape dst_shape src_owners) (List.enumerate 0 dst_owners)) (\<lambda>frags.
                Inr \<lparr>parent_shape = shape, child_origin = origin, child_extent = extent, element_bytes = bytes,
                     source_splits = src_full, destination_splits = dst_full, source_owners = src_owners, destination_owners = dst_owners,
                     source_local_shape = src_shape, destination_local_shape = dst_shape,
                     source_reservation_bytes = prod_list src_shape * bytes, destination_reservation_bytes = prod_list dst_shape * bytes,
                     fragments = concat frags\<rparr>))))"

subsection \<open>Local reads\<close>

definition compact_local :: "int list \<Rightarrow> nat \<times> fragment \<Rightarrow> bool" where
  "compact_local local_shape cf \<longleftrightarrow>
     source_core (snd cf) = fst cf \<and> destination_core (snd cf) = fst cf \<and> destination_offset_bytes (snd cf) = 0 \<and>
     frag_extent (snd cf) = local_shape \<and>
     list_all (\<lambda>(size, s, d). \<not> (size > 1 \<and> s \<noteq> d))
       (zip (frag_extent (snd cf)) (zip (source_strides_bytes (snd cf)) (destination_strides_bytes (snd cf))))"

definition local_subrange_byte_offset :: "DenseSubrangeTransfer \<Rightarrow> int res" where
  "local_subrange_byte_offset certificate =
     (let count = length (source_owners certificate)
      in if length (destination_owners certificate) \<noteq> count \<or> length (fragments certificate) \<noteq> count then Inl ValueError
         else if \<not> list_all (compact_local (destination_local_shape certificate)) (List.enumerate 0 (fragments certificate)) then Inl ValueError
         else case remdups (map source_offset_bytes (fragments certificate)) of
                [offset] \<Rightarrow> Inr offset
              | _ \<Rightarrow> Inl ValueError)"

definition destination_identity :: "DenseSubrangeTransfer \<Rightarrow> int list \<times> int list \<times> int list \<times> int \<times> int list \<times> int list list" where
  "destination_identity c =
     (parent_shape c, child_origin c, child_extent c, element_bytes c, destination_splits c, destination_owners c)"

subsection \<open>Addresses and coverage\<close>

text \<open>
  The address of the element at a local index, the addresses a fragment gives a point of the parent on
  the two sides, and the points a fragment covers.
\<close>

definition local_address :: "int list \<Rightarrow> int \<Rightarrow> int list \<Rightarrow> int" where
  "local_address shape bytes x = dot x (dense_strides shape bytes)"

definition slice_start :: "int list \<Rightarrow> int list \<Rightarrow> int list" where
  "slice_start slots shape = map2 (*) slots shape"

definition in_box :: "int list \<Rightarrow> int list \<Rightarrow> bool" where
  "in_box shape x \<longleftrightarrow> list_all2 (\<lambda>s v. 0 \<le> v \<and> v < s) shape x"

definition frag_covers :: "fragment \<Rightarrow> int list \<Rightarrow> bool" where
  "frag_covers f p \<longleftrightarrow> in_box (frag_extent f) (map2 (-) p (parent_origin f))"

definition fragment_source :: "fragment \<Rightarrow> int list \<Rightarrow> int" where
  "fragment_source f p = source_offset_bytes f + dot (map2 (-) p (parent_origin f)) (source_strides_bytes f)"

definition fragment_destination :: "fragment \<Rightarrow> int list \<Rightarrow> int" where
  "fragment_destination f p = destination_offset_bytes f + dot (map2 (-) p (parent_origin f)) (destination_strides_bytes f)"

lemma dot_simps [simp]: "dot [] ys = 0" "dot xs [] = 0" "dot (x # xs) (y # ys) = x * y + dot xs ys"
  by (simp_all add: dot_def)

lemma dot_diff_chain:
  assumes "length a = length b" "length b = length c" "length c = length s"
  shows "dot (map2 (-) b c) s + dot (map2 (-) a b) s = dot (map2 (-) a c) s"
  using assms by (induction a b c s rule: list_induct4) (simp_all add: algebra_simps)

lemma in_box_iff: "in_box shape x \<longleftrightarrow> length x = length shape \<and> (\<forall>i<length shape. 0 \<le> x ! i \<and> x ! i < shape ! i)"
  by (auto simp: in_box_def list_all2_conv_all_nth)

lemma mem_all_slots: "r \<in> set (all_slots full) \<longleftrightarrow> in_box full r"
  by (auto simp: all_slots_def product_lists_set in_box_def list_all2_conv_all_nth)

lemma length_dense_strides [simp]: "length (dense_strides shape bytes) = length shape"
  by (simp add: dense_strides_def)

lemma length_full_splits_of [simp]: "length (full_splits_of shape splits) = length shape"
  by (simp add: full_splits_of_def)

lemma count_list_distinct: "(\<And>x. x \<in> set xs \<Longrightarrow> count_list xs x = 1) \<Longrightarrow> distinct xs"
proof (induction xs)
  case (Cons a xs)
  have "a \<notin> set xs" using Cons.prems [of a] by (auto simp: count_list_0_iff)
  moreover have "count_list xs x = 1" if x: "x \<in> set xs" for x
    using Cons.prems [of x] x calculation by (auto split: if_splits)
  ultimately show ?case using Cons.IH by simp
qed simp

lemma partition_facts:
  assumes "dense_subrange_partition shape splits owners replicas = Inr (full, rows, loc)"
  shows "full = full_splits_of shape splits" "loc = map2 (div) shape full"
    "\<And>i. i < length shape \<Longrightarrow> 0 < full ! i \<and> shape ! i = loc ! i * full ! i"
    "set rows = set (all_slots full)" "\<not> replicas \<Longrightarrow> distinct rows" "length rows = length owners"
proof -
  let ?full = "full_splits_of shape splits"
  note d = assms [unfolded dense_subrange_partition_def Let_def if_Inl_eq_Inr bindE_Inr_iff sum.inject prod.inject]
  from d obtain rs where rs: "mapE (\<lambda>core. owner_row ?full (the (map_of owners core))) [0..int (length owners) - 1] = Inr rs"
    and bad2: "\<not> (list_ex (\<lambda>(size, split). split \<le> 0 \<or> size mod split \<noteq> 0) (zip shape ?full) \<or> last ?full \<noteq> 1)"
    and fin: "\<not> set rs \<noteq> set (all_slots ?full)" 
      "\<not> (list_ex (\<lambda>r. count_list rs r \<noteq> count_list rs (hd rs)) rs \<or> \<not> replicas \<and> list_ex (\<lambda>r. count_list rs r \<noteq> 1) rs)"
      "?full = full" "rs = rows" "map2 (div) shape ?full = loc"
    by (elim conjE exE) (rule that)
  show "full = full_splits_of shape splits" "loc = map2 (div) shape full" "set rows = set (all_slots full)"
    using fin by auto
  show "distinct rows" if "\<not> replicas"
    using fin(2,4) that by (intro count_list_distinct) (auto simp: list_ex_iff)
  show "length rows = length owners" using mapE_length [OF rs] fin(4) by simp
  fix i assume i: "i < length shape"
  have "list_all (\<lambda>(size, split). 0 < split \<and> size mod split = 0) (zip shape full)"
    using bad2 fin(3) by (auto simp: list_all_iff list_ex_iff)
  then have g: "0 < full ! i" "shape ! i mod full ! i = 0"
    using i fin(3) by (auto simp: list_all_length)
  then show "0 < full ! i \<and> shape ! i = loc ! i * full ! i"
    using i fin(3,5) by (auto simp: dvd_div_mult_self mod_0_imp_dvd)
qed

lemma incoming_facts:
  assumes "incoming_fragment bytes src_shape dst_shape c dst_start source = Inr (Some f)"
    and l: "length (snd source) = length src_shape" "length dst_start = length src_shape" "length dst_shape = length src_shape"
  shows "source_core f = fst source" "destination_core f = c"
    "source_strides_bytes f = dense_strides src_shape bytes" "destination_strides_bytes f = dense_strides dst_shape bytes"
    "parent_origin f = map2 max (slice_start (snd source) src_shape) dst_start"
    "frag_extent f = map2 (-) (map2 min (map2 (+) (slice_start (snd source) src_shape) src_shape) (map2 (+) dst_start dst_shape)) (parent_origin f)"
    "source_offset_bytes f = dot (map2 (-) (parent_origin f) (slice_start (snd source) src_shape)) (dense_strides src_shape bytes)"
    "destination_offset_bytes f = dot (map2 (-) (parent_origin f) dst_start) (dense_strides dst_shape bytes)"
  using assms(1) unfolding incoming_fragment_def Let_def slice_start_def
  by (auto split: if_split_asm)

lemma frag_covers_iff:
  assumes f: "incoming_fragment bytes src_shape dst_shape c dst_start source = Inr (Some f)"
    and l: "length (snd source) = length src_shape" "length dst_start = length src_shape" "length dst_shape = length src_shape" "length p = length src_shape"
  shows "frag_covers f p \<longleftrightarrow> in_box src_shape (map2 (-) p (slice_start (snd source) src_shape)) \<and> in_box dst_shape (map2 (-) p dst_start)"
  unfolding frag_covers_def in_box_iff incoming_facts(5,6) [OF f l(1-3)] using l
  by (auto simp: slice_start_def)

lemma incoming_addresses:
  assumes f: "incoming_fragment bytes src_shape dst_shape c dst_start source = Inr (Some f)"
    and l: "length (snd source) = length src_shape" "length dst_start = length src_shape" "length dst_shape = length src_shape" "length p = length src_shape"
  shows "fragment_source f p = local_address src_shape bytes (map2 (-) p (slice_start (snd source) src_shape))"
    "fragment_destination f p = local_address dst_shape bytes (map2 (-) p dst_start)"
proof -
  note fs = incoming_facts [OF f l(1-3)]
  have lo: "length (parent_origin f) = length src_shape" using l by (simp add: fs(5) slice_start_def)
  show "fragment_source f p = local_address src_shape bytes (map2 (-) p (slice_start (snd source) src_shape))"
    unfolding fragment_source_def local_address_def fs(3,7) by (rule dot_diff_chain) (use l lo in \<open>simp_all add: slice_start_def\<close>)
  show "fragment_destination f p = local_address dst_shape bytes (map2 (-) p dst_start)"
    unfolding fragment_destination_def local_address_def fs(4,8) by (rule dot_diff_chain) (use l lo in \<open>simp_all\<close>)
qed

lemma incoming_some_when_meeting:
  assumes r: "incoming_fragment bytes src_shape dst_shape c dst_start source = Inr r"
    and l: "length (snd source) = length src_shape" "length dst_start = length src_shape" "length dst_shape = length src_shape" "length p = length src_shape"
    and p: "in_box src_shape (map2 (-) p (slice_start (snd source) src_shape))" "in_box dst_shape (map2 (-) p dst_start)"
  shows "\<exists>f. r = Some f"
proof -
  let ?ss = "map2 (*) (snd source) src_shape"
  have "a < b' \<and> b < a'"
    if ab: "((a, a'), (b, b')) \<in> set (zip (zip ?ss (map2 (+) ?ss src_shape)) (zip dst_start (map2 (+) dst_start dst_shape)))" for a a' b b'
  proof -
    from ab obtain i where "i < length src_shape" "a = ?ss ! i" "a' = ?ss ! i + src_shape ! i" "b = dst_start ! i" "b' = dst_start ! i + dst_shape ! i"
      using l by (auto simp: in_set_zip)
    then show ?thesis using p l by (force simp: in_box_iff slice_start_def)
  qed
  then have "list_all (\<lambda>((a, ae), (b, be)). intervals_overlap a ae b be) (zip (zip ?ss (map2 (+) ?ss src_shape)) (zip dst_start (map2 (+) dst_start dst_shape)))"
    by (auto simp: list_all_iff intervals_overlap_def)
  then show ?thesis using r unfolding incoming_fragment_def Let_def by (auto split: if_split_asm)
qed

lemma certify_facts:
  assumes "certify_dense_subrange_transfer shape origin extent src_splits dst_splits source_map destination_map bytes = Inr cert"
  shows "length origin = length shape" "length extent = length shape"
    "\<And>i. i < length shape \<Longrightarrow> 0 \<le> origin ! i \<and> origin ! i + extent ! i \<le> shape ! i"
    "dense_subrange_partition shape src_splits source_map False = Inr (source_splits cert, source_owners cert, source_local_shape cert)"
    "dense_subrange_partition extent dst_splits destination_map True = Inr (destination_splits cert, destination_owners cert, destination_local_shape cert)"
    "\<exists>frags. mapE (destination_fragments bytes origin (source_local_shape cert) (destination_local_shape cert) (source_owners cert))
        (List.enumerate 0 (destination_owners cert)) = Inr frags \<and> fragments cert = concat frags"
    "element_bytes cert = bytes"
proof -
  note d = assms [unfolded certify_dense_subrange_transfer_def Let_def if_Inl_eq_Inr bindE_Inr_iff sum.inject]
  from d obtain sp dp where g: "\<not> (length shape < 2 \<or> length origin \<noteq> length shape \<or> length extent \<noteq> length shape \<or> bytes \<notin> {1, 2, 4} \<or>
      list_ex (\<lambda>(size, start, width). size \<le> 0 \<or> start < 0 \<or> width \<le> 0 \<or> start + width > size) (zip shape (zip origin extent)))"
    and sp: "dense_subrange_partition shape src_splits source_map False = Inr sp"
    and dp: "(case sp of (src_full, src_owners, src_shape) \<Rightarrow>
       bindE (dense_subrange_partition extent dst_splits destination_map True) (\<lambda>(dst_full, dst_owners, dst_shape).
              bindE (mapE (destination_fragments bytes origin src_shape dst_shape src_owners) (List.enumerate 0 dst_owners)) (\<lambda>frags.
                Inr \<lparr>parent_shape = shape, child_origin = origin, child_extent = extent, element_bytes = bytes,
                     source_splits = src_full, destination_splits = dst_full, source_owners = src_owners, destination_owners = dst_owners,
                     source_local_shape = src_shape, destination_local_shape = dst_shape,
                     source_reservation_bytes = prod_list src_shape * bytes, destination_reservation_bytes = prod_list dst_shape * bytes,
                     fragments = concat frags\<rparr>))) = Inr cert"
    by (elim conjE exE) (rule that)
  show len: "length origin = length shape" "length extent = length shape" using g by auto
  show "0 \<le> origin ! i \<and> origin ! i + extent ! i \<le> shape ! i" if i: "i < length shape" for i
    using g i len by (force simp: list_ex_iff set_zip)
  obtain sf so ss where spe: "sp = (sf, so, ss)" by (cases sp)
  note dp' = dp [unfolded spe prod.case bindE_Inr_iff]
  from dp' obtain df dw ds frags where dq: "dense_subrange_partition extent dst_splits destination_map True = Inr (df, dw, ds)"
    and fr: "mapE (destination_fragments bytes origin ss ds so) (List.enumerate 0 dw) = Inr frags"
    and ce: "cert = \<lparr>parent_shape = shape, child_origin = origin, child_extent = extent, element_bytes = bytes,
                     source_splits = sf, destination_splits = df, source_owners = so, destination_owners = dw,
                     source_local_shape = ss, destination_local_shape = ds,
                     source_reservation_bytes = prod_list ss * bytes, destination_reservation_bytes = prod_list ds * bytes,
                     fragments = concat frags\<rparr>"
    by (fastforce split: prod.splits)
  show "dense_subrange_partition shape src_splits source_map False = Inr (source_splits cert, source_owners cert, source_local_shape cert)"
    using sp spe by (simp add: ce)
  show "dense_subrange_partition extent dst_splits destination_map True = Inr (destination_splits cert, destination_owners cert, destination_local_shape cert)"
    using dq by (simp add: ce)
  show "\<exists>frags. mapE (destination_fragments bytes origin (source_local_shape cert) (destination_local_shape cert) (source_owners cert))
        (List.enumerate 0 (destination_owners cert)) = Inr frags \<and> fragments cert = concat frags"
    using fr by (simp add: ce)
  show "element_bytes cert = bytes" by (simp add: ce)
qed

lemma destination_fragments_mem:
  assumes "destination_fragments bytes origin src_shape dst_shape owners destination = Inr fs"
  shows "f \<in> set fs \<longleftrightarrow> (\<exists>k<length owners. incoming_fragment bytes src_shape dst_shape (fst destination)
           (map2 (+) origin (slice_start (snd destination) dst_shape)) (k, owners ! k) = Inr (Some f))"
proof -
  let ?g = "incoming_fragment bytes src_shape dst_shape (fst destination) (map2 (+) origin (slice_start (snd destination) dst_shape))"
  from assms obtain found where m: "mapE ?g (List.enumerate 0 owners) = Inr found" and fs: "fs = List.map_filter (\<lambda>x. x) found"
    unfolding destination_fragments_def Let_def slice_start_def by (auto simp only: bindE_Inr_iff if_Inl_eq_Inr)
  have "f \<in> set fs \<longleftrightarrow> Some f \<in> set found" by (auto simp: fs set_map_filter_iff)
  then have "f \<in> set fs \<longleftrightarrow> (\<exists>k<length found. found ! k = Some f)" by (simp add: in_set_conv_nth)
  then show ?thesis using m by (auto simp: mapE_Inr_iff nth_enumerate_eq)
qed

lemma destination_core_of_incoming:
  "incoming_fragment bytes src_shape dst_shape c dst_start source = Inr (Some f) \<Longrightarrow> destination_core f = c \<and> source_core f = fst source"
  unfolding incoming_fragment_def Let_def by (auto split: if_split_asm)

lemma certified_fragment_mem:
  assumes cert: "certify_dense_subrange_transfer shape origin extent src_splits dst_splits source_map destination_map bytes = Inr cert"
    and c: "c < length (destination_owners cert)"
  shows "f \<in> set (fragments cert) \<and> destination_core f = c \<longleftrightarrow>
     (\<exists>k<length (source_owners cert). incoming_fragment bytes (source_local_shape cert) (destination_local_shape cert) c
           (map2 (+) origin (slice_start (destination_owners cert ! c) (destination_local_shape cert))) (k, source_owners cert ! k) = Inr (Some f))"
proof -
  let ?d = "destination_fragments bytes origin (source_local_shape cert) (destination_local_shape cert) (source_owners cert)"
  obtain frags where m: "mapE ?d (List.enumerate 0 (destination_owners cert)) = Inr frags" and fe: "fragments cert = concat frags"
    using certify_facts(6) [OF cert] by blast
  have len: "length frags = length (destination_owners cert)" using mapE_length [OF m] by simp
  have at: "?d (j, destination_owners cert ! j) = Inr (frags ! j)" if "j < length (destination_owners cert)" for j
    using mapE_Inr_nth [OF m, of j] that by (simp add: nth_enumerate_eq)
  have core: "destination_core f = j" if "f \<in> set (frags ! j)" "j < length frags" for j
    using that destination_fragments_mem [OF at [of j]] destination_core_of_incoming len by fastforce
  have "f \<in> set (fragments cert) \<and> destination_core f = c \<longleftrightarrow> f \<in> set (frags ! c)"
  proof
    assume a: "f \<in> set (fragments cert) \<and> destination_core f = c"
    then obtain j where "j < length frags" "f \<in> set (frags ! j)" by (auto simp: fe in_set_conv_nth [of _ frags])
    then show "f \<in> set (frags ! c)" using core [of j] a by simp
  next
    assume a: "f \<in> set (frags ! c)"
    moreover have "frags ! c \<in> set frags" using c len by simp
    ultimately show "f \<in> set (fragments cert) \<and> destination_core f = c" using core [OF a] c len unfolding fe by auto
  qed
  then show ?thesis using destination_fragments_mem [OF at [OF c], of f] by simp
qed

lemma map2_minus_plus: "length a = length y \<Longrightarrow> map2 (-) (map2 (+) a y) a = (y :: int list)"
  by (induction a y rule: list_induct2) auto

lemma in_box_div:
  assumes "length p = length loc" "\<And>i. i < length loc \<Longrightarrow> 0 < loc ! i" "length r = length loc"
  shows "in_box loc (map2 (-) p (slice_start r loc)) \<longleftrightarrow> r = map2 (div) p loc"
proof -
  have "0 \<le> p ! i - r ! i * loc ! i \<and> p ! i - r ! i * loc ! i < loc ! i \<longleftrightarrow> r ! i = p ! i div loc ! i" if "i < length loc" for i
    using interval_div_eq [OF assms(2) [OF that], of "p ! i" "r ! i"] by (auto simp: algebra_simps)
  then show ?thesis using assms(1,3) by (auto simp: in_box_iff slice_start_def list_eq_iff_nth_eq)
qed

lemma partition_owner_of:
  assumes part: "dense_subrange_partition shape splits owners replicas = Inr (full, rows, loc)"
    and p: "in_box shape p"
  shows "length loc = length shape" "\<And>i. i < length loc \<Longrightarrow> 0 < loc ! i" "map2 (div) p loc \<in> set rows"
    "\<And>r. r \<in> set rows \<Longrightarrow> length r = length loc"
proof -
  note f = partition_facts [OF part]
  show len: "length loc = length shape" by (simp add: f(1,2))
  have fl: "length full = length shape" by (simp add: f(1))
  show pos: "0 < loc ! i" if "i < length loc" for i
  proof -
    have "0 < shape ! i" using p that len by (auto simp: in_box_iff intro: le_less_trans)
    then show ?thesis using f(3) [of i] that len zero_less_mult_pos2 by (metis)
  qed
  show "map2 (div) p loc \<in> set rows" unfolding f(4) mem_all_slots in_box_iff
  proof (intro conjI allI impI)
    fix i assume "i < length full"
    then have i: "i < length shape" using fl by simp
    then have "p ! i < full ! i * loc ! i" "0 \<le> p ! i" "0 < loc ! i"
      using f(3) [of i] p pos [of i] len by (auto simp: in_box_iff mult.commute)
    then show "0 \<le> map2 (div) p loc ! i" "map2 (div) p loc ! i < full ! i"
      using i p len by (auto simp: in_box_iff pos_imp_zdiv_nonneg_iff intro!: div_less_bound)
  qed (use p fl len in \<open>simp add: in_box_iff\<close>)
  show "length r = length loc" if "r \<in> set rows" for r
    using that unfolding f(4) mem_all_slots in_box_iff by (simp add: fl len)
qed

text \<open>
  C15: A certificate moves exactly the child.  Take a destination core and a local index of its compact
  slice: the element there is a point of the parent.  Exactly one fragment of that core covers the point;
  the point lies in the slice of the fragment's source core, and the fragment's byte offsets and strides
  give the point's address in the source core's local memory and in the destination's.
\<close>

theorem certified_transfer_moves_child:
  assumes cert: "certify_dense_subrange_transfer shape origin extent src_splits dst_splits source_map destination_map bytes = Inr cert"
    and c: "c < length (destination_owners cert)"
    and y: "in_box (destination_local_shape cert) y"
    and p: "p = map2 (+) (map2 (+) origin (slice_start (destination_owners cert ! c) (destination_local_shape cert))) y"
  shows "\<exists>f. {g \<in> set (fragments cert). destination_core g = c \<and> frag_covers g p} = {f} \<and>
     source_core f < length (source_owners cert) \<and>
     in_box (source_local_shape cert) (map2 (-) p (slice_start (source_owners cert ! source_core f) (source_local_shape cert))) \<and>
     fragment_source f p = local_address (source_local_shape cert) bytes
         (map2 (-) p (slice_start (source_owners cert ! source_core f) (source_local_shape cert))) \<and>
     fragment_destination f p = local_address (destination_local_shape cert) bytes y"
proof -
  let ?S = "source_local_shape cert" and ?D = "destination_local_shape cert" and ?O = "source_owners cert"
  let ?start = "map2 (+) origin (slice_start (destination_owners cert ! c) ?D)"
  note cf = certify_facts [OF cert]
  have rowD: "destination_owners cert ! c \<in> set (all_slots (destination_splits cert))"
    using nth_mem [OF c] unfolding partition_facts(4) [OF cf(5)] .
  have lD: "length ?D = length shape" "length (destination_splits cert) = length shape"
    using partition_facts(1,2) [OF cf(5)] cf(2) by simp_all
  have rd: "length (destination_owners cert ! c) = length shape" using rowD lD by (simp add: mem_all_slots in_box_iff)
  have ly: "length y = length shape" using y lD by (simp add: in_box_iff)
  have lp: "length p = length shape" using p cf(1) rd lD ly by (simp add: slice_start_def)
  have ls: "length ?start = length shape" using cf(1) rd lD by (simp add: slice_start_def)
  have py: "map2 (-) p ?start = y" unfolding p using map2_minus_plus [of ?start y] ls ly by simp
  have inD: "in_box ?D (map2 (-) p ?start)" using y py by simp
  have box: "in_box shape p"
    unfolding in_box_iff
  proof (intro conjI allI impI lp)
    fix i assume i: "i < length shape"
    let ?r = "destination_owners cert ! c ! i"
    have r: "0 \<le> ?r" "?r < destination_splits cert ! i" using rowD lD i by (auto simp: mem_all_slots in_box_iff)
    have v: "0 \<le> y ! i" "y ! i < ?D ! i" using y lD i by (auto simp: in_box_iff)
    have e: "extent ! i = ?D ! i * destination_splits cert ! i" using partition_facts(3) [OF cf(5), of i] i cf(2) by simp
    have "?r * ?D ! i + y ! i < (?r + 1) * ?D ! i" using v by (simp add: algebra_simps)
    also have "\<dots> \<le> destination_splits cert ! i * ?D ! i" using r v by (intro mult_right_mono) auto
    finally have "?r * ?D ! i + y ! i < extent ! i" by (simp add: e mult.commute)
    moreover have "0 \<le> ?r * ?D ! i" using r v by (intro mult_nonneg_nonneg) auto
    moreover have "p ! i = origin ! i + ?r * ?D ! i + y ! i" using i p cf(1) rd lD ly by (simp add: slice_start_def)
    ultimately show "0 \<le> p ! i" "p ! i < shape ! i" using cf(3) [OF i] v by auto
  qed
  note po = partition_owner_of [OF cf(4) box]
  have lO: "length (?O ! k) = length ?S" if "k < length ?O" for k using po(4) that by simp
  have lens: "length ?start = length ?S" "length ?D = length ?S" "length p = length ?S" using ls lD lp po(1) by simp_all
  obtain k where k: "k < length ?O" "?O ! k = map2 (div) p ?S" using po(3) by (auto simp: in_set_conv_nth)
  have owner: "in_box ?S (map2 (-) p (slice_start (?O ! j) ?S)) \<longleftrightarrow> j = k" if "j < length ?O" for j
    using in_box_div [OF lens(3) po(2) lO [OF that]] nth_eq_iff_index_eq [OF partition_facts(5) [OF cf(4)] that k(1)] k(2) by simp
  note mem = certified_fragment_mem [OF cert c]
  let ?in = "\<lambda>j. incoming_fragment bytes ?S ?D c ?start (j, ?O ! j)"
  have cov: "frag_covers g p \<longleftrightarrow> j = k" if "?in j = Inr (Some g)" "j < length ?O" for j g
    using frag_covers_iff [OF that(1), of p] lO [OF that(2)] lens inD owner [OF that(2)] by simp
  have "\<exists>f. ?in k = Inr (Some f)"
  proof -
    obtain frags where m: "mapE (destination_fragments bytes origin ?S ?D ?O) (List.enumerate 0 (destination_owners cert)) = Inr frags"
      using cf(6) by blast
    from mapE_Inr_nth [OF m, of c] c have "destination_fragments bytes origin ?S ?D ?O (c, destination_owners cert ! c) = Inr (frags ! c)"
      by (simp add: nth_enumerate_eq)
    then obtain found where "mapE (incoming_fragment bytes ?S ?D c ?start) (List.enumerate 0 ?O) = Inr found"
      unfolding destination_fragments_def Let_def slice_start_def by (auto simp only: bindE_Inr_iff fst_conv snd_conv)
    from mapE_Inr_nth [OF this, of k] k(1) have "?in k = Inr (found ! k)" by (simp add: nth_enumerate_eq)
    then show ?thesis using incoming_some_when_meeting [of bytes ?S ?D c ?start "(k, ?O ! k)" "found ! k" p]
        lO [OF k(1)] lens inD owner [OF k(1)] by auto
  qed
  then obtain f where f: "?in k = Inr (Some f)" by blast
  have fc: "source_core f = k" using destination_core_of_incoming [OF f] by simp
  have "{g \<in> set (fragments cert). destination_core g = c \<and> frag_covers g p} = {f}"
  proof (intro equalityI subsetI)
    fix g assume "g \<in> {g \<in> set (fragments cert). destination_core g = c \<and> frag_covers g p}"
    then obtain j where "j < length ?O" "?in j = Inr (Some g)" "frag_covers g p" using mem [of g] by auto
    then show "g \<in> {f}" using cov [of j g] f by auto
  qed (use mem [of f] f k(1) cov [OF f k(1)] in auto)
  then show ?thesis
    using fc k(1) owner [OF k(1)] incoming_addresses [OF f, of p] lO [OF k(1)] lens py by (intro exI [of _ f]) simp
qed

lemma dot_strides_cong:
  assumes "length s = length y" "length y = length d" "length d = length w"
    and "list_all (\<lambda>(size, s, d). \<not> (size > 1 \<and> s \<noteq> d)) (zip w (zip s d))" "in_box w y"
  shows "dot y s = dot y d"
  using assms
proof (induction s y d w rule: list_induct4)
  case (Cons s ss y ys d ds w ws)
  have "dot ys ss = dot ys ds" using Cons by (simp add: in_box_def)
  moreover have "y * s = y * d" using Cons.prems by (cases "w > 1") (auto simp: in_box_def)
  ultimately show ?case by simp
qed simp_all

lemma full_extent_start:
  assumes "length ss = length se" "length se = length ds" "length ds = length w"
    and "map2 (-) (map2 min se (map2 (+) ds w)) (map2 max ss ds) = (w :: int list)"
  shows "map2 max ss ds = ds"
  using assms by (induction ss se ds w rule: list_induct4) auto

definition demo_transfer :: "DenseSubrangeTransfer res" where
  "demo_transfer = certify_dense_subrange_transfer [4, 64] [1, 0] [2, 64] [(0, 2)] [(0, 2)] [(0, [(0, 0)]), (1, [(0, 1)])] [(0, [(0, 0)]), (1, [(0, 1)])] 2"

theorem certified_transfer_moves_child_witness:
  "\<exists>cert f. demo_transfer = Inr cert \<and> {g \<in> set (fragments cert). destination_core g = 1 \<and> frag_covers g [2, 5]} = {f} \<and>
     source_core f = 1 \<and> fragment_source f [2, 5] = 10 \<and> fragment_destination f [2, 5] = 10"
proof -
  have n: "\<not> isl demo_transfer" by code_simp
  have facts: "destination_owners (projr demo_transfer) = [[0, 0], [1, 0]]" "destination_local_shape (projr demo_transfer) = [1, 64]"
    "source_owners (projr demo_transfer) = [[0, 0], [1, 0]]" "source_local_shape (projr demo_transfer) = [2, 64]"
    by code_simp+
  obtain cert where e: "demo_transfer = Inr cert" using sum.collapse(2) [OF n] by metis
  note ff = facts [unfolded e sum.sel]
  have "\<exists>f. {g \<in> set (fragments cert). destination_core g = 1 \<and> frag_covers g [2, 5]} = {f} \<and>
     source_core f < length (source_owners cert) \<and>
     in_box (source_local_shape cert) (map2 (-) [2, 5] (slice_start (source_owners cert ! source_core f) (source_local_shape cert))) \<and>
     fragment_source f [2, 5] = local_address (source_local_shape cert) 2
         (map2 (-) [2, 5] (slice_start (source_owners cert ! source_core f) (source_local_shape cert))) \<and>
     fragment_destination f [2, 5] = local_address (destination_local_shape cert) 2 [0, 5]"
    by (rule certified_transfer_moves_child [OF e [unfolded demo_transfer_def]])
       (simp_all add: ff slice_start_def in_box_def)
  then obtain f where f: "{g \<in> set (fragments cert). destination_core g = 1 \<and> frag_covers g [2, 5]} = {f}" "source_core f < 2"
     "in_box [2, 64] (map2 (-) [2, 5] (slice_start ([[0, 0], [1, 0]] ! source_core f) [2, 64]))"
     "fragment_source f [2, 5] = local_address [2, 64] 2 (map2 (-) [2, 5] (slice_start ([[0, 0], [1, 0]] ! source_core f) [2, 64]))"
     "fragment_destination f [2, 5] = local_address [1, 64] 2 [0, 5]"
    unfolding ff by auto
  have one: "source_core f = 1" using f(2,3) by (cases "source_core f = 0") (simp_all add: slice_start_def in_box_def)
  have "local_address [1, 64] 2 [0, 5] = 10" "local_address [2, 64] 2 [0, 5] = 10" by code_simp+
  then show ?thesis using e f one by (intro exI [of _ cert] exI [of _ f]) (simp add: slice_start_def)
qed

text \<open>
  When a certificate is accepted as a local read, one byte offset serves every core: the element a
  core needs at any index of its compact slice is in the core's own slice of the parent, at that offset
  from the address the compact layout gives the index.
\<close>

theorem local_subrange_offset_correct:
  assumes cert: "certify_dense_subrange_transfer shape origin extent src_splits dst_splits source_map destination_map bytes = Inr cert"
    and off: "local_subrange_byte_offset cert = Inr offset"
    and c: "c < length (destination_owners cert)"
    and y: "in_box (destination_local_shape cert) y"
    and p: "p = map2 (+) (map2 (+) origin (slice_start (destination_owners cert ! c) (destination_local_shape cert))) y"
  shows "in_box (source_local_shape cert) (map2 (-) p (slice_start (source_owners cert ! c) (source_local_shape cert))) \<and>
     local_address (source_local_shape cert) bytes (map2 (-) p (slice_start (source_owners cert ! c) (source_local_shape cert))) =
       offset + local_address (destination_local_shape cert) bytes y"
proof -
  let ?S = "source_local_shape cert" and ?D = "destination_local_shape cert" and ?O = "source_owners cert"
  let ?start = "map2 (+) origin (slice_start (destination_owners cert ! c) ?D)"
  note o = off [unfolded local_subrange_byte_offset_def Let_def if_Inl_eq_Inr]
  have cnt: "length (fragments cert) = length ?O" "length (destination_owners cert) = length ?O" using o by auto
  let ?f = "fragments cert ! c"
  have cc: "c < length ?O" "c < length (fragments cert)" using c cnt by simp_all
  have comp: "compact_local ?D (c, ?f)"
    using o cc by (auto simp: list_all_length nth_enumerate_eq)
  have "remdups (map source_offset_bytes (fragments cert)) = [offset]"
    using o by (auto split: list.split_asm)
  then have "set (map source_offset_bytes (fragments cert)) = {offset}"
    using set_remdups [of "map source_offset_bytes (fragments cert)"] by simp
  then have fo: "source_offset_bytes ?f = offset" using cc(2) by auto
  have fm: "?f \<in> set (fragments cert) \<and> destination_core ?f = c" using comp cc by (simp add: compact_local_def)
  then obtain k where k: "k < length ?O" "incoming_fragment bytes ?S ?D c ?start (k, ?O ! k) = Inr (Some ?f)"
    using certified_fragment_mem [OF cert c, of ?f] by blast
  have kc: "k = c" using destination_core_of_incoming [OF k(2)] comp by (simp add: compact_local_def)
  note f = k(2) [unfolded kc]
  note cf = certify_facts [OF cert]
  have rowS: "?O ! c \<in> set (all_slots (source_splits cert))"
    using nth_mem [OF cc(1)] unfolding partition_facts(4) [OF cf(4)] .
  have rowD: "destination_owners cert ! c \<in> set (all_slots (destination_splits cert))"
    using nth_mem [OF c] unfolding partition_facts(4) [OF cf(5)] .
  have lS: "length ?S = length shape" "length (source_splits cert) = length shape"
    using partition_facts(1,2) [OF cf(4)] by simp_all
  have lD: "length ?D = length shape" "length (destination_splits cert) = length shape"
    using partition_facts(1,2) [OF cf(5)] cf(2) by simp_all
  have rl: "length (?O ! c) = length shape" "length (destination_owners cert ! c) = length shape" "length y = length shape"
    using rowS rowD lS lD y by (simp_all add: mem_all_slots in_box_iff)
  have ls: "length ?start = length shape" "length p = length shape" using p cf(1) rl lD by (simp_all add: slice_start_def)
  have py: "map2 (-) p ?start = y" unfolding p using map2_minus_plus [of ?start y] ls rl by simp
  note inf = incoming_facts [OF f, unfolded snd_conv]
  have lens: "length (?O ! c) = length ?S" "length ?start = length ?S" "length ?D = length ?S" "length p = length ?S"
    using rl ls lS lD by simp_all
  have ext: "frag_extent ?f = ?D" using comp by (simp add: compact_local_def)
  have org: "parent_origin ?f = ?start"
    using full_extent_start [of "slice_start (?O ! c) ?S" "map2 (+) (slice_start (?O ! c) ?S) ?S" ?start ?D]
      inf(5,6) [OF lens(1-3)] ext lens by (simp add: slice_start_def)
  have "frag_covers ?f p" unfolding frag_covers_def ext org py by (rule y)
  then have inS: "in_box ?S (map2 (-) p (slice_start (?O ! c) ?S))"
    using frag_covers_iff [OF f, unfolded snd_conv, OF lens] by simp
  have "dot y (dense_strides ?S bytes) = dot y (dense_strides ?D bytes)"
    using comp inf(3,4) [OF lens(1-3)] ext lens rl lS y
    by (intro dot_strides_cong [of _ _ _ ?D]) (simp_all add: compact_local_def)
  then show ?thesis
    using inS incoming_addresses(1) [OF f, unfolded snd_conv, OF lens] inf(3) [OF lens(1-3)] fo py
    by (simp add: fragment_source_def org local_address_def)
qed

definition demo_local_read :: "DenseSubrangeTransfer res" where
  "demo_local_read = certify_dense_subrange_transfer [2, 4, 64] [0, 1, 0] [2, 2, 64] [(0, 2)] [(0, 2)] [(0, [(0, 0)]), (1, [(0, 1)])] [(0, [(0, 0)]), (1, [(0, 1)])] 2"

theorem local_subrange_offset_correct_witness:
  "\<exists>cert. demo_local_read = Inr cert \<and> local_subrange_byte_offset cert = Inr 128 \<and>
     local_address (source_local_shape cert) 2 [0, 2, 3] = 128 + local_address (destination_local_shape cert) 2 [0, 1, 3]"
proof -
  have n: "\<not> isl demo_local_read" "local_subrange_byte_offset (projr demo_local_read) = Inr 128" by code_simp+
  have facts: "destination_owners (projr demo_local_read) = [[0, 0, 0], [1, 0, 0]]" "destination_local_shape (projr demo_local_read) = [1, 2, 64]"
    "source_owners (projr demo_local_read) = [[0, 0, 0], [1, 0, 0]]" "source_local_shape (projr demo_local_read) = [1, 4, 64]"
    by code_simp+
  obtain cert where e: "demo_local_read = Inr cert" using sum.collapse(2) [OF n(1)] by metis
  note ff = facts [unfolded e sum.sel] and off = n(2) [unfolded e sum.sel]
  show ?thesis
    using local_subrange_offset_correct [OF e [unfolded demo_local_read_def] off, of 1 "[0, 1, 3]" "[1, 2, 3]"] e off
    by (intro exI [of _ cert]) (simp add: ff slice_start_def in_box_def)
qed

end
