(* ===== verification/Work_Division.thy ===== *)
theory Work_Division
  imports Core_Mapping
begin

text \<open>
  Dividing an operation's iteration space over the cores (\<open>work_division.py\<close>): the legal factors of an
  axis, the greedy distributor, the conversion of stick axes, the legality test and its enumeration, and
  the check of a user's hint.

  An iteration space is the insertion-ordered dictionary from iteration variables to their concretised
  ranges; a symbolic range has an entry of maximum size and granularity in the symbol metadata.  A split
  dictionary maps variables to slice counts; domains map variables to their hard legal factors.  A
  missing (\<open>None\<close>) optional dictionary behaves like an empty one and is modelled so.
\<close>

type_synonym itspace = "(string \<times> int) list"
type_synonym symbol_meta = "(string \<times> int \<times> int) list"
type_synonym domains = "(string \<times> int list) list"

subsection \<open>Legal factors\<close>

definition effective_size :: "itspace \<Rightarrow> symbol_meta \<Rightarrow> string \<Rightarrow> int" where
  "effective_size it_space meta v = (case map_of meta v of Some mg \<Rightarrow> fst mg | None \<Rightarrow> dict_get it_space v 1)"

definition valid_divisor_basis :: "itspace \<Rightarrow> symbol_meta \<Rightarrow> string \<Rightarrow> int" where
  "valid_divisor_basis it_space meta v = (case map_of meta v of Some mg \<Rightarrow> snd mg | None \<Rightarrow> dict_get it_space v 1)"

definition sympy_divisors :: "int \<Rightarrow> int list" where
  "sympy_divisors n = filter (\<lambda>d. n mod d = 0) [1..\<bar>n\<bar>]"

definition legal_split_factors :: "string \<Rightarrow> int \<Rightarrow> domains \<Rightarrow> string splits \<Rightarrow> int list" where
  "legal_split_factors v basis allowed min_splits =
     (let factors = sympy_divisors basis;
          kept = (case map_of allowed v of None \<Rightarrow> factors | Some al \<Rightarrow> filter (\<lambda>s. s \<in> set al) factors)
      in filter (\<lambda>s. s \<ge> dict_get min_splits v 1) kept)"

definition largest_legal_split :: "string \<Rightarrow> int \<Rightarrow> int \<Rightarrow> domains \<Rightarrow> int res" where
  "largest_legal_split v basis max_cores allowed =
     (case find (\<lambda>split. split \<le> max_cores) (rev (legal_split_factors v basis allowed [])) of
        Some split \<Rightarrow> Inr split
      | None \<Rightarrow> if map_of allowed v \<noteq> None then Inl Unsupported else Inr 1)"

definition largest_legal_split_from :: "string \<Rightarrow> int \<Rightarrow> int \<Rightarrow> int \<Rightarrow> int \<Rightarrow> domains \<Rightarrow> string splits \<Rightarrow> int" where
  "largest_legal_split_from v basis current_split cores_used max_cores allowed min_splits =
     (case find (\<lambda>split. split \<ge> current_split \<and> cores_used div current_split * split \<le> max_cores)
             (rev (legal_split_factors v basis allowed min_splits)) of
        None \<Rightarrow> current_split
      | Some split \<Rightarrow> split)"

subsection \<open>The distributor\<close>

definition getE :: "('k \<times> 'v) list \<Rightarrow> 'k \<Rightarrow> 'v res" where
  "getE d k = (case map_of d k of None \<Rightarrow> Inl KeyError | Some v \<Rightarrow> Inr v)"

text \<open>The parameters that stay fixed while cores are distributed.\<close>

record split_request =
  req_space :: itspace
  req_meta :: symbol_meta
  req_cores :: int
  req_min :: "string splits"
  req_allowed :: domains

definition reachable_split :: "split_request \<Rightarrow> string \<Rightarrow> int \<Rightarrow> int \<Rightarrow> int" where
  "reachable_split r v current cores_used =
     largest_legal_split_from v (valid_divisor_basis (req_space r) (req_meta r) v) current cores_used
       (req_cores r) (req_allowed r) (req_min r)"

fun most_splittable_dim ::
  "split_request \<Rightarrow> string splits \<Rightarrow> int \<Rightarrow> string list \<Rightarrow> (string \<times> int) option \<Rightarrow> (string \<times> int) option res" where
  "most_splittable_dim r splits cores_used [] best = Inr best"
| "most_splittable_dim r splits cores_used (d # dims) best =
     bindE (getE splits d) (\<lambda>current.
       let split = reachable_split r d current cores_used;
           best_split = (case best of None \<Rightarrow> 0 | Some b \<Rightarrow> snd b)
       in most_splittable_dim r splits cores_used dims
            (if split > current \<and> split > best_split then Some (d, split) else best))"

definition mandatory_splits :: "split_request \<Rightarrow> string splits res" where
  "mandatory_splits r =
     bindE (mapE (\<lambda>va. if snd va = [] then Inl ValueError else Inr (fst va, Min (set (snd va))))
              (filter (\<lambda>va. 1 \<notin> set (snd va) \<and> map_of (req_min r) (fst va) = None) (req_allowed r)))
       (\<lambda>new. Inr (req_min r @ new))"

fun reserve_splits :: "split_request \<Rightarrow> string splits \<Rightarrow> string splits \<times> int \<Rightarrow> (string splits \<times> int) res" where
  "reserve_splits r [] s = Inr s"
| "reserve_splits r ((var, min_split) # rest) (splits, cores_used) =
     (if cores_used * min_split > req_cores r then Inl Unsupported
      else if (case map_of (req_allowed r) var of None \<Rightarrow> False | Some al \<Rightarrow> min_split \<notin> set al) then Inl Unsupported
      else reserve_splits r rest (AList.update var min_split splits, cores_used * min_split))"

fun grow_outputs :: "split_request \<Rightarrow> string list \<Rightarrow> string splits \<times> int \<Rightarrow> (string splits \<times> int) res" where
  "grow_outputs r [] s = Inr s"
| "grow_outputs r (v # vs) (splits, cores_used) =
     (if cores_used \<ge> req_cores r then Inr (splits, cores_used)
      else bindE (getE splits v) (\<lambda>current.
        let best_split = reachable_split r v current cores_used
        in if best_split > current
           then grow_outputs r vs (AList.update v best_split splits, cores_used div current * best_split)
           else grow_outputs r vs (splits, cores_used)))"

definition grow_reduction ::
  "split_request \<Rightarrow> string list \<Rightarrow> string list \<Rightarrow> string splits \<times> int \<Rightarrow> string splits res" where
  "grow_reduction r reduction_dims split_reduction_dims s =
     (case s of (splits, cores_used) \<Rightarrow>
        if reduction_dims \<noteq> [] \<and> cores_used < req_cores r
        then bindE (most_splittable_dim r splits cores_used
                      (if split_reduction_dims \<noteq> [] then split_reduction_dims else reduction_dims) None)
               (\<lambda>best. Inr (case best of None \<Rightarrow> splits | Some (d, split) \<Rightarrow> AList.update d split splits))
        else Inr splits)"

definition multi_dim_iteration_space_split ::
  "split_request \<Rightarrow> string list \<Rightarrow> string list \<Rightarrow> string splits res" where
  "multi_dim_iteration_space_split r output_dims reduction_dims =
     bindE (mandatory_splits r) (\<lambda>mandatory.
     bindE (reserve_splits r mandatory (map (\<lambda>vs. (fst vs, 1)) (req_space r), 1)) (\<lambda>reserved.
     bindE (filterE (\<lambda>v. bindE (getE (fst reserved) v) (\<lambda>s. Inr (s > 1))) reduction_dims) (\<lambda>split_reduction_dims.
       if length split_reduction_dims > 1 then Inl Unsupported
       else bindE (grow_outputs r output_dims reserved) (grow_reduction r reduction_dims split_reduction_dims))))"

subsection \<open>What the distributor keeps\<close>

lemma mem_sympy_divisors: "0 < n \<Longrightarrow> d \<in> set (sympy_divisors n) \<longleftrightarrow> 0 < d \<and> d dvd n"
  by (auto simp: sympy_divisors_def dvd_eq_mod_eq_0 intro: zdvd_imp_le)

lemma sympy_divisors_pos: "d \<in> set (sympy_divisors n) \<Longrightarrow> 1 \<le> d \<and> d dvd n"
  by (auto simp: sympy_divisors_def dvd_eq_mod_eq_0)

lemma sorted_sympy_divisors: "sorted (sympy_divisors n)"
  by (simp add: sympy_divisors_def sorted_wrt_filter)

definition in_domain :: "domains \<Rightarrow> string \<Rightarrow> int \<Rightarrow> bool" where
  "in_domain allowed v s \<longleftrightarrow> (case map_of allowed v of None \<Rightarrow> True | Some al \<Rightarrow> s \<in> set al)"

lemma mem_legal_split_factors:
  "s \<in> set (legal_split_factors v basis allowed floors) \<longleftrightarrow>
     s \<in> set (sympy_divisors basis) \<and> in_domain allowed v s \<and> dict_get floors v 1 \<le> s"
  by (auto simp: legal_split_factors_def in_domain_def Let_def split: option.splits)

lemma sorted_legal_split_factors: "sorted (legal_split_factors v basis allowed floors)"
  by (auto simp: legal_split_factors_def Let_def sorted_sympy_divisors sorted_wrt_filter split: option.splits)

lemma find_rev_sorted:
  assumes "sorted xs"
  shows "find P (rev xs) = Some x \<Longrightarrow> x \<in> set xs \<and> P x \<and> (\<forall>y\<in>set xs. P y \<longrightarrow> y \<le> x)"
    and "find P (rev xs) = None \<Longrightarrow> \<forall>y\<in>set xs. \<not> P y"
proof -
  show "x \<in> set xs \<and> P x \<and> (\<forall>y\<in>set xs. P y \<longrightarrow> y \<le> x)" if f: "find P (rev xs) = Some x"
    using assms f by (induction xs rule: rev_induct) (auto simp: sorted_append split: if_splits)
  show "\<forall>y\<in>set xs. \<not> P y" if "find P (rev xs) = None" using that by (auto simp: find_None_iff)
qed

definition req_factors :: "split_request \<Rightarrow> string \<Rightarrow> int list" where
  "req_factors r v = legal_split_factors v (valid_divisor_basis (req_space r) (req_meta r) v) (req_allowed r) (req_min r)"

lemma reachable_split_cases:
  shows "reachable_split r v cur used = cur \<or>
     reachable_split r v cur used \<in> set (req_factors r v) \<and> cur \<le> reachable_split r v cur used \<and>
     used div cur * reachable_split r v cur used \<le> req_cores r"
    and "s \<in> set (req_factors r v) \<Longrightarrow> cur \<le> s \<Longrightarrow> used div cur * s \<le> req_cores r \<Longrightarrow> s \<le> reachable_split r v cur used"
proof -
  let ?P = "\<lambda>split. split \<ge> cur \<and> used div cur * split \<le> req_cores r"
  have so: "sorted (req_factors r v)" by (simp add: req_factors_def sorted_legal_split_factors)
  have e: "reachable_split r v cur used = (case find ?P (rev (req_factors r v)) of None \<Rightarrow> cur | Some s \<Rightarrow> s)"
    by (simp add: reachable_split_def largest_legal_split_from_def req_factors_def)
  show "reachable_split r v cur used = cur \<or>
     reachable_split r v cur used \<in> set (req_factors r v) \<and> cur \<le> reachable_split r v cur used \<and>
     used div cur * reachable_split r v cur used \<le> req_cores r"
    using find_rev_sorted(1) [OF so, of ?P] by (cases "find ?P (rev (req_factors r v))") (auto simp: e)
  show "s \<le> reachable_split r v cur used" if "s \<in> set (req_factors r v)" "cur \<le> s" "used div cur * s \<le> req_cores r"
    using find_rev_sorted [OF so, of ?P] that by (cases "find ?P (rev (req_factors r v))") (auto simp: e)
qed

lemma getE_Inr [simp]: "getE d k = Inr v \<longleftrightarrow> map_of d k = Some v"
  by (simp add: getE_def split: option.splits)

lemma prod_list_update:
  assumes "distinct (map fst splits)" "map_of splits v = Some cur" "0 < cur"
  shows "prod_list (map snd (AList.update v m splits)) = prod_list (map snd splits) div cur * (m :: int)"
    and "cur dvd prod_list (map snd splits)"
proof -
  have "cur dvd prod_list (map snd splits) \<and> prod_list (map snd (AList.update v m splits)) = prod_list (map snd splits) div cur * m"
    using assms
  proof (induction splits)
    case (Cons p splits)
    obtain w s where p: "p = (w, s)" by (cases p)
    show ?case
    proof (cases "w = v")
      case True
      then show ?thesis using Cons.prems p by simp
    next
      case False
      then have IH: "cur dvd prod_list (map snd splits)" "prod_list (map snd (AList.update v m splits)) = prod_list (map snd splits) div cur * m"
        using Cons p by auto
      then show ?thesis using False p by (simp add: div_mult_swap mult.assoc dvd_mult)
    qed
  qed simp
  then show "cur dvd prod_list (map snd splits)" "prod_list (map snd (AList.update v m splits)) = prod_list (map snd splits) div cur * m"
    by auto
qed

lemma prod_list_update_fresh: "map_of splits v = None \<Longrightarrow> prod_list (map snd (AList.update v m splits)) = prod_list (map snd splits) * (m :: int)"
  by (induction splits) auto

definition dist_ok :: "split_request \<Rightarrow> string splits \<Rightarrow> string splits \<times> int \<Rightarrow> bool" where
  "dist_ok r mandatory s \<longleftrightarrow>
     distinct (map fst (fst s)) \<and> fst ` set (fst s) = fst ` set (req_space r) \<union> fst ` set mandatory \<and>
     snd s = prod_list (map snd (fst s)) \<and> snd s \<le> req_cores r \<and>
     (\<forall>v n. map_of (fst s) v = Some n \<longrightarrow>
        1 \<le> n \<and> dict_get mandatory v 1 \<le> n \<and> in_domain (req_allowed r) v n \<and>
        (n = dict_get mandatory v 1 \<or> n \<in> set (req_factors r v)))"

definition request_wf :: "split_request \<Rightarrow> bool" where
  "request_wf r \<longleftrightarrow> 1 \<le> req_cores r \<and> distinct (map fst (req_space r)) \<and> distinct (map fst (req_min r)) \<and>
     distinct (map fst (req_allowed r)) \<and> list_all (\<lambda>vs. 1 \<le> snd vs) (req_min r) \<and>
     list_all (\<lambda>va. list_all (\<lambda>s. 1 \<le> s) (snd va)) (req_allowed r)"

lemma in_domain_update_keys: "fst ` set (AList.update v m splits) = insert v (fst ` set splits)"
  by (simp add: dom_update [symmetric] dom_map_of_conv_image_fst [symmetric] update_conv')

lemma map_of_update_iff: "map_of (AList.update v m splits) w = (if w = v then Some m else map_of splits w)"
  by (simp add: update_conv')

lemma mandatory_splits_Inr:
  assumes wf: "request_wf r" and m: "mandatory_splits r = Inr m"
  shows "distinct (map fst m)" "list_all (\<lambda>vs. 1 \<le> snd vs) m"
    "\<And>v n. map_of (req_min r) v = Some n \<Longrightarrow> map_of m v = Some n"
    "\<And>v al. map_of (req_allowed r) v = Some al \<Longrightarrow> 1 \<notin> set al \<Longrightarrow> map_of m v \<noteq> None"
    "\<And>v n. map_of m v = Some n \<Longrightarrow> map_of (req_min r) v = None \<Longrightarrow> map_of (req_allowed r) v \<noteq> None \<and> in_domain (req_allowed r) v n"
proof -
  let ?F = "filter (\<lambda>va. 1 \<notin> set (snd va) \<and> map_of (req_min r) (fst va) = None) (req_allowed r)"
  let ?new = "map (\<lambda>va. (fst va, Min (set (snd va)))) ?F"
  have ne: "\<forall>va\<in>set ?F. snd va \<noteq> []"
    using m mapE_Inr_mem by (fastforce simp: mandatory_splits_def)
  have "mapE (\<lambda>va. if snd va = [] then Inl ValueError else Inr (fst va, Min (set (snd va)))) xs = Inr (map (\<lambda>va. (fst va, Min (set (snd va)))) xs)"
    if "\<forall>va\<in>set xs. snd va \<noteq> []" for xs :: domains using that by (induction xs) auto
  from this [OF ne] have me: "m = req_min r @ ?new" using m unfolding mandatory_splits_def by simp
  have dn: "distinct (map fst ?new)" using wf distinct_map_filter [of fst "req_allowed r"] by (simp add: request_wf_def comp_def)
  have "fst ` set (req_min r) \<inter> fst ` set ?new = {}" by (force simp: map_of_eq_None_iff)
  then show "distinct (map fst m)" using wf dn unfolding me map_append distinct_append set_map request_wf_def by blast
  have Mge: "1 \<le> Min (set (snd va))" if "va \<in> set ?F" for va
  proof -
    have "Min (set (snd va)) \<in> set (snd va)" using bspec [OF ne that] by (intro Min_in) auto
    moreover have "list_all (\<lambda>s. 1 \<le> s) (snd va)" using that wf by (auto simp: request_wf_def list_all_iff)
    ultimately show ?thesis by (auto simp: list_all_iff)
  qed
  show "list_all (\<lambda>vs. 1 \<le> snd vs) m" using wf Mge by (auto simp: me request_wf_def list_all_iff)
  show "map_of m v = Some n" if "map_of (req_min r) v = Some n" for v n using that by (simp add: me map_add_dom_app_simps)
  show "map_of m v \<noteq> None" if "map_of (req_allowed r) v = Some al" "1 \<notin> set al" for v al
  proof (cases "map_of (req_min r) v")
    case None
    then have "(v, al) \<in> set ?F" using map_of_SomeD [OF that(1)] that(2) by simp
    then have "v \<in> fst ` set m" unfolding me by force
    then show ?thesis by (simp add: map_of_eq_None_iff)
  qed (simp add: me)
  show "map_of (req_allowed r) v \<noteq> None \<and> in_domain (req_allowed r) v n"
    if v: "map_of m v = Some n" "map_of (req_min r) v = None" for v n
  proof -
    have "map_of ?new v = Some n" using v by (simp add: me map_add_def)
    from map_of_SomeD [OF this] obtain al where al: "(v, al) \<in> set ?F" "n = Min (set al)" by auto
    then have "map_of (req_allowed r) v = Some al" using wf by (auto simp: request_wf_def)
    moreover have "n \<in> set al" unfolding al(2) using al(1) ne by (intro Min_in) auto
    ultimately show ?thesis by (simp add: in_domain_def)
  qed
qed

lemma reserve_splits_Inr:
  assumes "reserve_splits r ms (splits, used) = Inr s'"
    and "distinct (map fst ms)" "distinct (map fst splits)" "used = prod_list (map snd splits)" "used \<le> req_cores r"
    and "\<And>v. v \<in> fst ` set ms \<Longrightarrow> dict_get splits v 1 = 1"
  shows "distinct (map fst (fst s')) \<and> snd s' = prod_list (map snd (fst s')) \<and> snd s' \<le> req_cores r \<and>
     map_of (fst s') = map_of splits ++ map_of ms \<and> (\<forall>vs\<in>set ms. in_domain (req_allowed r) (fst vs) (snd vs))"
  using assms
proof (induction r ms "(splits, used)" arbitrary: splits used rule: reserve_splits.induct)
  case (2 r var n rest splits used)
  have dom: "in_domain (req_allowed r) var n" and le: "used * n \<le> req_cores r"
    and rec: "reserve_splits r rest (AList.update var n splits, used * n) = Inr s'"
    using "2.prems"(1) by (auto simp: in_domain_def split: if_split_asm option.split_asm)
  have pr: "used * n = prod_list (map snd (AList.update var n splits))"
  proof (cases "map_of splits var")
    case None
    then show ?thesis using "2.prems"(4) by (simp add: prod_list_update_fresh)
  next
    case (Some c)
    then have "c = 1" using "2.prems"(6) [of var] by (simp add: dict_get_def)
    then show ?thesis using Some "2.prems"(3,4) prod_list_update(1) [of splits var 1 n] by simp
  qed
  have other: "dict_get (AList.update var n splits) v 1 = 1" if "v \<in> fst ` set rest" for v
    using that "2.prems"(2) "2.prems"(6) [of v] by (auto simp: dict_get_def map_of_update_iff)
  have "distinct (map fst (fst s')) \<and> snd s' = prod_list (map snd (fst s')) \<and> snd s' \<le> req_cores r \<and>
     map_of (fst s') = map_of (AList.update var n splits) ++ map_of rest \<and> (\<forall>vs\<in>set rest. in_domain (req_allowed r) (fst vs) (snd vs))"
    using "2.hyps" [OF _ _ rec _ _ pr le other] "2.prems"(1,2,3) le
    by (auto simp: distinct_update split: if_split_asm option.split_asm)
  moreover have "map_of (AList.update var n splits) ++ map_of rest = map_of splits ++ map_of ((var, n) # rest)"
  proof
    fix x
    have "map_of rest var = None" using "2.prems"(2) by (simp add: map_of_eq_None_iff)
    then show "(map_of (AList.update var n splits) ++ map_of rest) x = (map_of splits ++ map_of ((var, n) # rest)) x"
      by (cases "map_of rest x") (auto simp: map_of_update_iff map_add_def)
  qed
  ultimately show ?case using dom by simp
qed auto

lemma prod_list_ones [simp]: "prod_list (map (\<lambda>vs. 1 :: int) xs) = 1"
  by (induction xs) simp_all

lemma map_of_ones: "map_of (map (\<lambda>vs. (fst vs, 1 :: int)) xs) v = (if v \<in> fst ` set xs then Some 1 else None)"
  by (induction xs) auto

lemma in_domain_floor:
  assumes wf: "request_wf r" and m: "mandatory_splits r = Inr m" and n: "map_of m v = None"
  shows "in_domain (req_allowed r) v 1"
  using mandatory_splits_Inr(4) [OF wf m, of v] n by (auto simp: in_domain_def split: option.splits)

lemma reserved_facts:
  assumes wf: "request_wf r" and m: "mandatory_splits r = Inr m"
    and s: "reserve_splits r m (map (\<lambda>vs. (fst vs, 1)) (req_space r), 1) = Inr s"
  shows "distinct (map fst (fst s)) \<and> snd s = prod_list (map snd (fst s)) \<and> snd s \<le> req_cores r \<and>
     map_of (fst s) = map_of (map (\<lambda>vs. (fst vs, 1)) (req_space r)) ++ map_of m \<and> (\<forall>vs\<in>set m. in_domain (req_allowed r) (fst vs) (snd vs))"
  using wf by (intro reserve_splits_Inr [OF s mandatory_splits_Inr(1) [OF wf m]])
    (auto simp: request_wf_def comp_def dict_get_def map_of_ones)

lemma dist_ok_reserved:
  assumes wf: "request_wf r" and m: "mandatory_splits r = Inr m"
    and s: "reserve_splits r m (map (\<lambda>vs. (fst vs, 1)) (req_space r), 1) = Inr s"
  shows "dist_ok r m s"
proof -
  let ?ones = "map (\<lambda>vs. (fst vs, 1 :: int)) (req_space r)"
  note mi = mandatory_splits_Inr [OF wf m]
  note R = reserved_facts [OF wf m s]
  have dom: "fst ` set (fst s) = fst ` set (req_space r) \<union> fst ` set m"
    using R dom_map_of_conv_image_fst [of "fst s"] by (simp add: dom_map_of_conv_image_fst image_image Un_commute)
  have "1 \<le> n \<and> dict_get m v 1 \<le> n \<and> in_domain (req_allowed r) v n \<and> n = dict_get m v 1" if v: "map_of (fst s) v = Some n" for v n
  proof (cases "map_of m v")
    case None
    then have "n = 1" using v R by (auto simp: map_add_def map_of_ones split: if_splits)
    then show ?thesis using None in_domain_floor [OF wf m None] by (simp add: dict_get_def)
  next
    case (Some k)
    then have "k = n" using v R by (simp add: map_add_def)
    moreover have "(v, k) \<in> set m" by (rule map_of_SomeD [OF Some])
    ultimately show ?thesis using R mi(2) Some by (auto simp: list_all_iff dict_get_def)
  qed
  then show ?thesis using R dom unfolding dist_ok_def by blast
qed

lemma dist_ok_pos:
  assumes "dist_ok r m s"
  shows "1 \<le> snd s"
proof -
  have "list_all (\<lambda>n. 0 < n) (map snd (fst s))"
    using assms unfolding dist_ok_def by (fastforce simp: list_all_iff)
  then show ?thesis using prod_list_pos [of "map snd (fst s)"] assms by (simp add: dist_ok_def)
qed

lemma dist_ok_cur:
  assumes ok: "dist_ok r m (splits, used)" and cur: "map_of splits v = Some cur"
  shows "1 \<le> cur" "cur dvd used" "cur \<le> n \<Longrightarrow> used \<le> used div cur * n" "cur < n \<Longrightarrow> used < used div cur * n"
proof -
  have u: "used = prod_list (map snd splits)" "distinct (map fst splits)" using ok by (simp_all add: dist_ok_def)
  show c: "1 \<le> cur" using ok cur by (auto simp: dist_ok_def)
  show dv: "cur dvd used" unfolding u(1) by (rule prod_list_update(2) [OF u(2) cur]) (use c in simp)
  have e: "used = used div cur * cur" using dv by simp
  have p: "0 < used div cur" using zero_less_mult_pos2 [of "used div cur" cur] e dist_ok_pos [OF ok] c by simp
  show "used \<le> used div cur * n" if "cur \<le> n" using mult_left_mono [OF that, of "used div cur"] e p by simp
  show "used < used div cur * n" if "cur < n" using mult_strict_left_mono [OF that p] e by simp
qed

lemma dist_ok_grow:
  assumes ok: "dist_ok r m (splits, used)" and cur: "map_of splits v = Some cur"
    and b: "b = reachable_split r v cur used" "b > cur"
  shows "dist_ok r m (AList.update v b splits, used div cur * b)"
proof -
  have c: "1 \<le> cur" "dict_get m v 1 \<le> cur" using ok cur by (auto simp: dist_ok_def)
  have f: "b \<in> set (req_factors r v)" "used div cur * b \<le> req_cores r" using reachable_split_cases(1) [of r v cur used] b by auto
  have d: "in_domain (req_allowed r) v b" using f(1) by (simp add: req_factors_def mem_legal_split_factors)
  have p: "prod_list (map snd (AList.update v b splits)) = used div cur * b"
    using prod_list_update(1) [of splits v cur b] ok cur c by (simp add: dist_ok_def)
  have "v \<in> fst ` set splits" using map_of_SomeD [OF cur] by force
  then have key: "v \<in> fst ` set (req_space r) \<union> fst ` set m" using ok by (simp add: dist_ok_def)
  show ?thesis using ok f d c b(2) p
    by (simp add: dist_ok_def distinct_update map_of_update_iff in_domain_update_keys insert_absorb [OF key])
qed

lemma grow_outputs_Inr:
  assumes "grow_outputs r vs (splits, used) = Inr s'" "dist_ok r m (splits, used)"
  shows "dist_ok r m s' \<and> used \<le> snd s' \<and> (\<forall>v. v \<notin> set vs \<longrightarrow> map_of (fst s') v = map_of splits v)"
  using assms
proof (induction r vs "(splits, used)" arbitrary: splits used rule: grow_outputs.induct)
  case (2 r v vs splits used)
  show ?case
  proof (cases "used \<ge> req_cores r")
    case False
    then obtain cur where cur: "map_of splits v = Some cur" using "2.prems"(1) by auto
    let ?b = "reachable_split r v cur used"
    show ?thesis
    proof (cases "?b > cur")
      case True
      note ok = dist_ok_grow [OF "2.prems"(2) cur refl True]
      have rec: "grow_outputs r vs (AList.update v ?b splits, used div cur * ?b) = Inr s'"
        using "2.prems"(1) False cur True by (simp add: Let_def)
      have "used \<le> used div cur * ?b" using dist_ok_cur(3) [OF "2.prems"(2) cur] True by simp
      then show ?thesis
        using "2.hyps"(1) [OF False refl True rec ok] by (simp add: map_of_update_iff)
    next
      case nb: False
      then have "grow_outputs r vs (splits, used) = Inr s'" using "2.prems"(1) False cur by (simp add: Let_def)
      then show ?thesis using "2.hyps"(2) [OF False refl nb _ "2.prems"(2)] by simp
    qed
  qed (use 2 in auto)
qed auto

lemma most_splittable_Inr:
  assumes "most_splittable_dim r splits used dims best = Inr (Some (d, s))"
  shows "best = Some (d, s) \<or> (d \<in> set dims \<and> (\<exists>cur. map_of splits d = Some cur \<and> s = reachable_split r d cur used \<and> cur < s))"
  using assms
proof (induction r splits used dims best rule: most_splittable_dim.induct)
  case (2 r splits used e dims best)
  then obtain cur where cur: "map_of splits e = Some cur" by auto
  let ?c = "reachable_split r e cur used > cur \<and> reachable_split r e cur used > (case best of None \<Rightarrow> 0 | Some b \<Rightarrow> snd b)"
  have "most_splittable_dim r splits used dims (if ?c then Some (e, reachable_split r e cur used) else best) = Inr (Some (d, s))"
    using "2.prems" cur by (simp add: Let_def)
  from "2.IH" [OF refl refl this] show ?case using cur by (auto split: if_split_asm)
qed simp

definition split_dims :: "string splits \<Rightarrow> string list \<Rightarrow> string set" where
  "split_dims splits dims = {v \<in> set dims. dict_get splits v 1 > 1}"

lemma grow_reduction_Inr:
  assumes g: "grow_reduction r red split_red (splits, used) = Inr final" and ok: "dist_ok r m (splits, used)"
    and sub: "split_dims splits red = set split_red" "length split_red \<le> 1"
  shows "dist_ok r m (final, prod_list (map snd final)) \<and> used \<le> prod_list (map snd final) \<and> card (split_dims final red) \<le> 1 \<and>
     (\<forall>v. v \<notin> set red \<longrightarrow> map_of final v = map_of splits v)"
proof -
  have card1: "card (set split_red) \<le> 1" using sub(2) card_length le_trans by blast
  show ?thesis
  proof (cases "final = splits")
    case True
    then show ?thesis using ok sub(1) card1 by (simp add: dist_ok_def)
  next
    case False
    let ?el = "if split_red \<noteq> [] then split_red else red"
    have "red \<noteq> [] \<and> used < req_cores r"
      using g False by (auto simp: grow_reduction_def split: if_split_asm)
    then obtain best where b: "most_splittable_dim r splits used ?el None = Inr best"
      and fin: "final = (case best of None \<Rightarrow> splits | Some (d, s) \<Rightarrow> AList.update d s splits)"
      using g by (auto simp: grow_reduction_def)
    then obtain d s where best: "best = Some (d, s)" "final = AList.update d s splits" using False by (auto split: option.splits)
    with most_splittable_Inr [of r splits used ?el None d s] b obtain cur
      where d: "d \<in> set ?el" and cur: "map_of splits d = Some cur" "s = reachable_split r d cur used" "cur < s" by auto
    note ok' = dist_ok_grow [OF ok cur]
    then have prod: "prod_list (map snd final) = used div cur * s" by (simp add: dist_ok_def best)
    have le: "used \<le> prod_list (map snd final)" using dist_ok_cur(3) [OF ok cur(1), of s] cur(3) by (simp add: prod)
    have "split_dims final red \<subseteq> insert d (set split_red)"
      using sub(1) by (auto simp: split_dims_def best dict_get_def map_of_update_iff split: if_splits)
    moreover have "insert d (set split_red) = set split_red \<or> set split_red = {}" using d by auto
    ultimately have "split_dims final red \<subseteq> set split_red \<or> split_dims final red \<subseteq> {d}" by auto
    then have "card (split_dims final red) \<le> 1"
      using card1 card_mono [of "set split_red" "split_dims final red"] card_mono [of "{d}" "split_dims final red"] by auto
    moreover have "d \<in> set red" using d sub(1) by (auto simp: split_dims_def split: if_splits)
    ultimately show ?thesis using ok' le prod by (auto simp: best map_of_update_iff)
  qed
qed

text \<open>An axis is exhausted when no larger legal factor of it fits the cores.\<close>

definition exhausted :: "split_request \<Rightarrow> string splits \<Rightarrow> int \<Rightarrow> string \<Rightarrow> bool" where
  "exhausted r splits used v \<longleftrightarrow>
     (\<forall>cur n. map_of splits v = Some cur \<longrightarrow> n \<in> set (req_factors r v) \<longrightarrow> cur < n \<longrightarrow> req_cores r < used div cur * n)"

lemma exhausted_full: "dist_ok r m (splits, used) \<Longrightarrow> req_cores r \<le> used \<Longrightarrow> exhausted r splits used v"
  using dist_ok_cur(4) by (fastforce simp: exhausted_def)

lemma exhausted_other:
  assumes "exhausted r splits used v" "map_of splits' v = map_of splits v"
    and "used \<le> used'" "dist_ok r m (splits, used)"
  shows "exhausted r splits' used' v"
  unfolding exhausted_def
proof (intro allI impI)
  fix cur n assume a: "map_of splits' v = Some cur" "n \<in> set (req_factors r v)" "cur < n"
  then have c: "1 \<le> cur" using dist_ok_cur(1) [OF assms(4)] assms(2) by simp
  then have "used div cur * n \<le> used' div cur * n" using a assms(3) by (intro mult_right_mono zdiv_mono1) auto
  moreover have "req_cores r < used div cur * n" using assms(1) a unfolding exhausted_def assms(2) by blast
  ultimately show "req_cores r < used' div cur * n" by simp
qed

lemma exhausted_step:
  assumes ok: "dist_ok r m (splits, used)" and cur: "map_of splits v = Some cur"
    and b: "b = reachable_split r v cur used" "b > cur"
  shows "exhausted r (AList.update v b splits) (used div cur * b) v"
  unfolding exhausted_def
proof (intro allI impI)
  fix c n assume a: "map_of (AList.update v b splits) v = Some c" "n \<in> set (req_factors r v)" "c < n"
  then have c: "c = b" by (simp add: map_of_update_iff)
  have "1 \<le> cur" by (rule dist_ok_cur(1) [OF ok cur])
  then have "used div cur * b div b = used div cur" using b(2) by simp
  moreover have "\<not> used div cur * n \<le> req_cores r"
    using reachable_split_cases(2) [OF a(2), of cur used] a(3) b c by auto
  ultimately show "req_cores r < used div cur * b div c * n" by (simp add: c)
qed

lemma grow_outputs_exhausts:
  assumes "grow_outputs r vs (splits, used) = Inr s'" "dist_ok r m (splits, used)" "v \<in> set vs \<or> exhausted r splits used v"
  shows "exhausted r (fst s') (snd s') v"
  using assms
proof (induction r vs "(splits, used)" arbitrary: splits used rule: grow_outputs.induct)
  case (2 r w vs splits used)
  show ?case
  proof (cases "used \<ge> req_cores r")
    case True
    then show ?thesis using "2.prems"(1) exhausted_full [OF "2.prems"(2) True] by auto
  next
    case False
    then obtain cur where cur: "map_of splits w = Some cur" using "2.prems"(1) by auto
    let ?b = "reachable_split r w cur used"
    show ?thesis
    proof (cases "?b > cur")
      case True
      have rec: "grow_outputs r vs (AList.update w ?b splits, used div cur * ?b) = Inr s'"
        using "2.prems"(1) False cur True by (simp add: Let_def)
      have "v \<in> set vs \<or> exhausted r (AList.update w ?b splits) (used div cur * ?b) v"
        using "2.prems"(3) exhausted_step [OF "2.prems"(2) cur refl True]
          exhausted_other [of r splits used v "AList.update w ?b splits" "used div cur * ?b", OF _ _ _ "2.prems"(2)]
          dist_ok_cur(3) [OF "2.prems"(2) cur, of ?b] True
        by (cases "v = w") (auto simp: map_of_update_iff)
      then show ?thesis using "2.hyps"(1) [OF False refl True rec dist_ok_grow [OF "2.prems"(2) cur refl True]] by blast
    next
      case nb: False
      then have rec: "grow_outputs r vs (splits, used) = Inr s'" using "2.prems"(1) False cur by (simp add: Let_def)
      have "exhausted r splits used w"
        unfolding exhausted_def using cur nb reachable_split_cases(2) [of _ r w cur used] by fastforce
      then show ?thesis using "2.hyps"(2) [OF False refl nb rec "2.prems"(2)] "2.prems"(3) by auto
    qed
  qed
qed auto

lemma split_reduction_dims_eq:
  assumes "filterE (\<lambda>v. bindE (getE splits v) (\<lambda>s. Inr (s > 1))) dims = Inr ds"
  shows "set ds = split_dims splits dims" "ds = filter (\<lambda>v. dict_get splits v 1 > 1) dims"
proof -
  have "(bindE (getE splits v) (\<lambda>s. Inr (s > 1)) = Inr True) = (dict_get splits v 1 > 1)" for v
    by (simp add: getE_def dict_get_def split: option.splits)
  then show "ds = filter (\<lambda>v. dict_get splits v 1 > 1) dims" using filterE_Inr [OF assms] by simp
  then show "set ds = split_dims splits dims" by (auto simp: split_dims_def)
qed

lemma distributor_stages:
  assumes wf: "request_wf r" and dj: "set outs \<inter> set reds = {}"
    and res: "multi_dim_iteration_space_split r outs reds = Inr splits"
  obtains m where "mandatory_splits r = Inr m" "dist_ok r m (splits, prod_list (map snd splits))"
    "card (split_dims splits reds) \<le> 1" "\<And>v. v \<in> set outs \<Longrightarrow> exhausted r splits (prod_list (map snd splits)) v"
proof -
  note d = res [unfolded multi_dim_iteration_space_split_def bindE_Inr_iff if_Inl_eq_Inr]
  then obtain m s ds g where m: "mandatory_splits r = Inr m"
    and s: "reserve_splits r m (map (\<lambda>vs. (fst vs, 1)) (req_space r), 1) = Inr s"
    and ds: "filterE (\<lambda>v. bindE (getE (fst s) v) (\<lambda>n. Inr (n > 1))) reds = Inr ds" "\<not> length ds > 1"
    and g: "grow_outputs r outs s = Inr g" and fin: "grow_reduction r reds ds g = Inr splits"
    by blast
  obtain sp u where se: "s = (sp, u)" by (cases s)
  obtain gp gu where ge: "g = (gp, gu)" by (cases g)
  have ok: "dist_ok r m (sp, u)" using dist_ok_reserved [OF wf m s] by (simp add: se)
  note gi = grow_outputs_Inr [OF g [unfolded se] ok]
  have same: "split_dims gp reds = set ds"
    using gi dj split_reduction_dims_eq(1) [OF ds(1)] by (auto simp: split_dims_def dict_get_def se ge)
  have gok: "dist_ok r m (gp, gu)" using gi by (simp add: ge)
  note ri = grow_reduction_Inr [OF fin [unfolded ge] gok same] 
  have ri': "dist_ok r m (splits, prod_list (map snd splits))" "gu \<le> prod_list (map snd splits)" "card (split_dims splits reds) \<le> 1"
    "\<And>v. v \<notin> set reds \<Longrightarrow> map_of splits v = map_of gp v" using ri ds(2) by auto
  have "exhausted r splits (prod_list (map snd splits)) v" if v: "v \<in> set outs" for v
  proof -
    have "exhausted r gp gu v" using grow_outputs_exhausts [OF g [unfolded se] ok, of v] v by (simp add: ge)
    then show ?thesis by (rule exhausted_other [OF _ _ ri'(2) gok]) (use ri'(4) [of v] v dj in auto)
  qed
  then show thesis using that [OF m ri'(1,3)] by blast
qed

lemma distributed_splits:
  assumes wf: "request_wf r" and dj: "set outs \<inter> set reds = {}"
    and res: "multi_dim_iteration_space_split r outs reds = Inr splits"
  shows "distinct (map fst splits) \<and> fst ` set splits = fst ` set (req_space r) \<union> fst ` set (projr (mandatory_splits r)) \<and>
     prod_list (map snd splits) \<le> req_cores r \<and>
     (\<forall>v. 1 \<le> dict_get splits v 1 \<and> dict_get (req_min r) v 1 \<le> dict_get splits v 1 \<and>
        in_domain (req_allowed r) v (dict_get splits v 1) \<and>
        (dict_get splits v 1 = dict_get (projr (mandatory_splits r)) v 1 \<or>
         dict_get splits v 1 dvd valid_divisor_basis (req_space r) (req_meta r) v)) \<and>
     card {v \<in> set reds. dict_get splits v 1 > 1} \<le> 1"
proof -
  obtain m where m: "mandatory_splits r = Inr m" and ok: "dist_ok r m (splits, prod_list (map snd splits))"
    and c: "card (split_dims splits reds) \<le> 1"
    using distributor_stages [OF wf dj res] by blast
  note mi = mandatory_splits_Inr [OF wf m]
  have min_le: "dict_get (req_min r) v 1 \<le> dict_get m v 1" for v
  proof (cases "map_of (req_min r) v")
    case None
    then show ?thesis using mi(2) map_of_SomeD [of m v] by (cases "map_of m v") (auto simp: dict_get_def list_all_iff)
  next
    case (Some n)
    then show ?thesis using mi(3) by (simp add: dict_get_def)
  qed
  have "1 \<le> dict_get splits v 1 \<and> dict_get (req_min r) v 1 \<le> dict_get splits v 1 \<and>
        in_domain (req_allowed r) v (dict_get splits v 1) \<and>
        (dict_get splits v 1 = dict_get m v 1 \<or> dict_get splits v 1 dvd valid_divisor_basis (req_space r) (req_meta r) v)" for v
  proof (cases "map_of splits v")
    case None
    then have n: "map_of m v = None" using ok by (auto simp: dist_ok_def map_of_eq_None_iff)
    then show ?thesis using None in_domain_floor [OF wf m n] min_le [of v] by (simp add: dict_get_def)
  next
    case (Some n)
    then have "1 \<le> n \<and> dict_get m v 1 \<le> n \<and> in_domain (req_allowed r) v n \<and> (n = dict_get m v 1 \<or> n \<in> set (req_factors r v))"
      using ok by (simp add: dist_ok_def)
    then show ?thesis using Some min_le [of v]
      by (auto simp: dict_get_def req_factors_def mem_legal_split_factors dest: sympy_divisors_pos)
  qed
  then show ?thesis using ok c m by (simp add: dist_ok_def split_dims_def)
qed

text \<open>
  C12: The distributor's result is a legal division of the iteration space.  Every axis has one factor;
  the product of the factors fits the cores; a committed floor is met and a hard domain respected on
  every axis; a factor is the axis's mandatory one (one where there is none) or a divisor of its size
  (of its granularity when symbolic); and at most one reduction axis is split.
\<close>

theorem distribution_is_legal:
  assumes wf: "request_wf r" and dj: "set outs \<inter> set reds = {}"
    and res: "multi_dim_iteration_space_split r outs reds = Inr splits"
  shows "distinct (map fst splits) \<and> fst ` set (req_space r) \<subseteq> fst ` set splits \<and>
     prod_list (map snd splits) \<le> req_cores r \<and>
     (\<forall>v. 1 \<le> dict_get splits v 1 \<and> dict_get (req_min r) v 1 \<le> dict_get splits v 1 \<and>
        in_domain (req_allowed r) v (dict_get splits v 1) \<and>
        (dict_get splits v 1 = dict_get (projr (mandatory_splits r)) v 1 \<or>
         dict_get splits v 1 dvd valid_divisor_basis (req_space r) (req_meta r) v)) \<and>
     card {v \<in> set reds. dict_get splits v 1 > 1} \<le> 1"
  using distributed_splits [OF wf dj res] by blast

definition demo_request :: split_request where
  "demo_request = \<lparr>req_space = [(''i'', 8), (''j'', 6), (''k'', 4)], req_meta = [], req_cores = 32,
     req_min = [(''k'', 2)], req_allowed = [(''j'', [1, 2, 3])]\<rparr>"

lemma demo_split: "multi_dim_iteration_space_split demo_request [''i'', ''j''] [''k''] = Inr [(''i'', 8), (''j'', 2), (''k'', 2)]"
  "request_wf demo_request"
  by code_simp+

theorem distribution_is_legal_witness:
  "multi_dim_iteration_space_split demo_request [''i'', ''j''] [''k''] = Inr [(''i'', 8), (''j'', 2), (''k'', 2)] \<and>
     prod_list (map snd [(''i'', 8), (''j'', 2), (''k'', 2)]) \<le> req_cores demo_request \<and>
     in_domain (req_allowed demo_request) ''j'' 2"
proof -
  have d: "set [''i'', ''j''] \<inter> set [''k''] = {}" by simp
  have L: "prod_list (map snd [(''i'', 8), (''j'', 2), (''k'', 2)]) \<le> req_cores demo_request \<and>
     (\<forall>v. in_domain (req_allowed demo_request) v (dict_get [(''i'', 8), (''j'', 2), (''k'', 2)] v 1))"
    using distribution_is_legal [OF demo_split(2) d demo_split(1)] by blast
  have "dict_get [(''i'', 8), (''j'', 2), (''k'', 2)] ''j'' 1 = (2 :: int)" by (simp add: dict_get_def)
  with L have "in_domain (req_allowed demo_request) ''j'' 2" by metis
  then show ?thesis using L demo_split(1) by blast
qed

text \<open>
  The greedy pass leaves no output axis that could still grow: replacing an output axis's factor by
  any larger legal one would need more cores than there are.
\<close>

theorem distribution_is_maximal:
  assumes wf: "request_wf r" and dj: "set outs \<inter> set reds = {}"
    and res: "multi_dim_iteration_space_split r outs reds = Inr splits"
    and v: "v \<in> set outs" "map_of splits v = Some cur"
    and n: "n \<in> set (legal_split_factors v (valid_divisor_basis (req_space r) (req_meta r) v) (req_allowed r) (req_min r))" "cur < n"
  shows "req_cores r < prod_list (map snd splits) div cur * n"
proof -
  obtain m where "exhausted r splits (prod_list (map snd splits)) v"
    using distributor_stages [OF wf dj res] v(1) by blast
  then show ?thesis using v n by (auto simp: exhausted_def req_factors_def)
qed

theorem distribution_is_maximal_witness:
  "multi_dim_iteration_space_split demo_request [''i'', ''j''] [''k''] = Inr [(''i'', 8), (''j'', 2), (''k'', 2)] \<and>
     req_cores demo_request < prod_list (map snd [(''i'', 8), (''j'', 2), (''k'', 2)]) div 2 * 3"
proof -
  have d: "set [''i'', ''j''] \<inter> set [''k''] = {}" by simp
  have "(3 :: int) \<in> set (legal_split_factors ''j'' (valid_divisor_basis (req_space demo_request) (req_meta demo_request) ''j'')
      (req_allowed demo_request) (req_min demo_request))" by code_simp
  from distribution_is_maximal [OF demo_split(2) d demo_split(1) _ _ this, of 2] show ?thesis using demo_split(1) by simp
qed

subsection \<open>When the distributor fails\<close>

lemma reserve_splits_total:
  assumes "list_all (\<lambda>vs. 1 \<le> snd vs) ms" "1 \<le> used" "used \<le> req_cores r"
  shows "(\<exists>s'. reserve_splits r ms (splits, used) = Inr s') \<longleftrightarrow>
     used * prod_list (map snd ms) \<le> req_cores r \<and> (\<forall>vs\<in>set ms. in_domain (req_allowed r) (fst vs) (snd vs))"
  using assms
proof (induction ms arbitrary: splits used)
  case (Cons p ms)
  obtain v n where p: "p = (v, n)" by (cases p)
  have "list_all (\<lambda>n. 0 < n) (map snd ms)" using Cons.prems(1) by (fastforce simp: list_all_iff)
  then have n1: "1 \<le> n" "1 \<le> prod_list (map snd ms)" using Cons.prems(1) p prod_list_pos [of "map snd ms"] by simp_all
  have u: "1 \<le> used * n" using mult_mono [of 1 used 1 n] n1 Cons.prems(2) by simp
  show ?case
  proof (cases "used * n \<le> req_cores r \<and> in_domain (req_allowed r) v n")
    case True
    then have "reserve_splits r (p # ms) (splits, used) = reserve_splits r ms (AList.update v n splits, used * n)"
      by (auto simp: p in_domain_def split: option.splits)
    then show ?thesis using Cons.IH [of "used * n" "AList.update v n splits"] Cons.prems(1) u True p by (auto simp: mult.assoc)
  next
    case False
    moreover have "used * n \<le> used * n * prod_list (map snd ms)" using u n1 mult_left_mono [of 1 "prod_list (map snd ms)" "used * n"] by simp
    ultimately show ?thesis by (auto simp: p in_domain_def mult.assoc split: option.splits)
  qed
qed simp

lemma grow_outputs_total:
  assumes "set vs \<subseteq> fst ` set splits"
  shows "\<exists>s'. grow_outputs r vs (splits, used) = Inr s' \<and> fst ` set splits \<subseteq> fst ` set (fst s')"
  using assms
proof (induction r vs "(splits, used)" arbitrary: splits used rule: grow_outputs.induct)
  case (2 r v vs splits used)
  show ?case
  proof (cases "used \<ge> req_cores r")
    case False
    obtain cur where cur: "map_of splits v = Some cur" using "2.prems" by (cases "map_of splits v") (auto simp: map_of_eq_None_iff)
    let ?b = "reachable_split r v cur used"
    show ?thesis
    proof (cases "?b > cur")
      case True
      from "2.hyps"(1) [OF False refl True] "2.prems" show ?thesis using False cur True
        by (auto simp: Let_def in_domain_update_keys)
    next
      case nb: False
      from "2.hyps"(2) [OF False refl nb] "2.prems" show ?thesis using False cur nb by (auto simp: Let_def)
    qed
  qed auto
qed auto

lemma most_splittable_total: "set dims \<subseteq> fst ` set splits \<Longrightarrow> \<exists>b. most_splittable_dim r splits used dims best = Inr b"
proof (induction dims arbitrary: best)
  case (Cons d dims)
  then obtain cur where "map_of splits d = Some cur" by (cases "map_of splits d") (auto simp: map_of_eq_None_iff)
  then show ?case using Cons by (simp add: Let_def)
qed simp

lemma filterE_total: "(\<And>x. x \<in> set xs \<Longrightarrow> \<exists>b. p x = Inr b) \<Longrightarrow> \<exists>ys. filterE p xs = Inr ys"
  by (induction xs) fastforce+

text \<open>
  C31: The distributor raises exactly when the mandatory factors are unsatisfiable: the committed floors
  and the smallest factors of domains that exclude one exceed the cores together, one of them lies
  outside its domain, or they split two reduction axes.  Otherwise it returns a division.
\<close>

theorem distribution_returns_iff:
  assumes wf: "request_wf r" and dims: "set outs \<union> set reds \<subseteq> fst ` set (req_space r)" "distinct reds"
  shows "(\<exists>splits. multi_dim_iteration_space_split r outs reds = Inr splits) \<longleftrightarrow>
     (\<exists>m. mandatory_splits r = Inr m \<and> prod_list (map snd m) \<le> req_cores r \<and>
        list_all (\<lambda>vs. in_domain (req_allowed r) (fst vs) (snd vs)) m \<and> card {v \<in> set reds. dict_get m v 1 > 1} \<le> 1)"
proof (cases "mandatory_splits r")
  case (Inl e)
  then show ?thesis by (simp add: multi_dim_iteration_space_split_def)
next
  case (Inr m)
  note mi = mandatory_splits_Inr [OF wf Inr]
  let ?ones = "map (\<lambda>vs. (fst vs, 1 :: int)) (req_space r)"
  have reserve: "(\<exists>s. reserve_splits r m (?ones, 1) = Inr s) \<longleftrightarrow>
      prod_list (map snd m) \<le> req_cores r \<and> list_all (\<lambda>vs. in_domain (req_allowed r) (fst vs) (snd vs)) m"
    using reserve_splits_total [OF mi(2), of 1 r ?ones] wf by (simp add: request_wf_def list_all_iff)
  show ?thesis
  proof (cases "reserve_splits r m (?ones, 1)")
    case (Inl e)
    then have "\<not> (\<exists>s. reserve_splits r m (?ones, 1) = Inr s)" by simp
    then show ?thesis using Inl Inr reserve by (auto simp: multi_dim_iteration_space_split_def)
  next
    case s: (Inr s)
    have ok: "dist_ok r m s" by (rule dist_ok_reserved [OF wf Inr s])
    then have keys: "set outs \<union> set reds \<subseteq> fst ` set (fst s)" using dims by (auto simp: dist_ok_def)
    have R: "map_of (fst s) = map_of ?ones ++ map_of m"
      using reserved_facts [OF wf Inr s] by blast
    have get: "dict_get (fst s) v 1 = dict_get m v 1" for v
      by (simp add: dict_get_def R map_add_def map_of_ones split: option.splits)
    have "\<exists>b. bindE (getE (fst s) v) (\<lambda>n. Inr (n > 1)) = Inr b" if "v \<in> set reds" for v
      using keys that by (cases "map_of (fst s) v") (auto simp: getE_def map_of_eq_None_iff)
    from filterE_total [of reds, OF this]
    obtain ds where ds: "filterE (\<lambda>v. bindE (getE (fst s) v) (\<lambda>n. Inr (n > 1))) reds = Inr ds" ..
    have len: "length ds = card {v \<in> set reds. dict_get m v 1 > 1}"
      using split_reduction_dims_eq [OF ds] dims(2) distinct_card [of ds] by (simp add: split_dims_def get)
    obtain g where g: "grow_outputs r outs s = Inr g" "fst ` set (fst s) \<subseteq> fst ` set (fst g)"
      using grow_outputs_total [of outs "fst s" r "snd s"] keys by auto
    have sub: "set ds \<subseteq> fst ` set (fst g)" "set reds \<subseteq> fst ` set (fst g)"
      using g(2) keys split_reduction_dims_eq(1) [OF ds] by (auto simp: split_dims_def)
    have "set (if ds \<noteq> [] then ds else reds) \<subseteq> fst ` set (fst g)" using sub by simp
    from most_splittable_total [OF this]
    obtain b where b: "most_splittable_dim r (fst g) (snd g) (if ds \<noteq> [] then ds else reds) None = Inr b" ..
    then have "\<exists>f. grow_reduction r reds ds g = Inr f" by (cases g) (simp add: grow_reduction_def)
    then have "(\<exists>splits. multi_dim_iteration_space_split r outs reds = Inr splits) \<longleftrightarrow> \<not> length ds > 1"
      using Inr s ds g(1) by (simp add: multi_dim_iteration_space_split_def)
    then show ?thesis using Inr reserve s len by auto
  qed
qed

theorem distribution_returns_iff_witness:
  "(\<exists>splits. multi_dim_iteration_space_split (demo_request\<lparr>req_cores := 1\<rparr>) [''i'', ''j''] [''k''] = Inr splits) \<longleftrightarrow>
     (\<exists>m. mandatory_splits (demo_request\<lparr>req_cores := 1\<rparr>) = Inr m \<and> prod_list (map snd m) \<le> req_cores (demo_request\<lparr>req_cores := 1\<rparr>) \<and>
        list_all (\<lambda>vs. in_domain (req_allowed (demo_request\<lparr>req_cores := 1\<rparr>)) (fst vs) (snd vs)) m \<and> card {v \<in> set [''k'']. dict_get m v 1 > 1} \<le> 1)"
proof -
  have wf: "request_wf (demo_request\<lparr>req_cores := 1\<rparr>)" by code_simp
  show ?thesis by (rule distribution_returns_iff [OF wf]) (simp_all add: demo_request_def)
qed

end
