(* ===== verification/Division_Legality.thy ===== *)
theory Division_Legality
  imports Work_Division
begin

text \<open>
  Which divisions an operation may take (\<open>work_division.py\<close>): tensor accesses and their per-core memory
  spans, stick axes counted in sticks, the context's legality test and the enumeration of legal divisions.

  A device coordinate is an expression over iteration variables.  It is modelled by its free variables, in
  the order they are iterated, and its value under an assignment of the variables; substituting zero for
  the other variables is evaluation at an assignment that is zero on them.
\<close>

subsection \<open>Tensor accesses\<close>

record coord =
  free_symbols :: "string list"
  coord_at :: "(string \<Rightarrow> int) \<Rightarrow> int"
  has_indirect :: bool

record TensorDep =
  device_coords :: "coord list"
  td_device_size :: "int list"
  td_itemsize :: int
  td_elems_per_stick :: int
  is_qfp8wt :: bool

definition MAX_SPAN_BYTES :: int where
  "MAX_SPAN_BYTES = 256 * 1024 * 1024"

definition is_indirectly_accessed :: "TensorDep \<Rightarrow> bool" where
  "is_indirectly_accessed td \<longleftrightarrow> list_ex has_indirect (butlast (device_coords td))"

definition per_core_range :: "itspace \<Rightarrow> symbol_meta \<Rightarrow> string splits \<Rightarrow> string \<Rightarrow> int" where
  "per_core_range it_space meta splits v = effective_size it_space meta v div dict_get splits v 1"

definition coord_extent :: "itspace \<Rightarrow> symbol_meta \<Rightarrow> string splits \<Rightarrow> coord \<Rightarrow> int" where
  "coord_extent it_space meta splits c =
     sum_list (map (\<lambda>v. coord_at c ((\<lambda>_. 0)(v := per_core_range it_space meta splits v - 1))) (free_symbols c))
     - sum_list (map (\<lambda>v. coord_at c ((\<lambda>_. 0)(v := 0))) (free_symbols c)) + 1"

fun span_from :: "itspace \<Rightarrow> symbol_meta \<Rightarrow> string splits \<Rightarrow> TensorDep \<Rightarrow> nat \<Rightarrow> coord list \<Rightarrow> int" where
  "span_from it_space meta splits td d [] = td_itemsize td"
| "span_from it_space meta splits td d (c # cs) =
     (if free_symbols c = [] then span_from it_space meta splits td (Suc d) cs
      else let per_core_size = coord_extent it_space meta splits c
           in if per_core_size > 1 then per_core_size * prod_list (drop (Suc d) (td_device_size td)) * td_itemsize td
              else span_from it_space meta splits td (Suc d) cs)"

definition get_per_core_span :: "TensorDep \<Rightarrow> string splits \<Rightarrow> itspace \<Rightarrow> symbol_meta \<Rightarrow> int" where
  "get_per_core_span td splits it_space meta = span_from it_space meta splits td 0 (butlast (device_coords td))"

definition raise_if_per_core_overflow :: "TensorDep list \<Rightarrow> itspace \<Rightarrow> string splits \<Rightarrow> symbol_meta \<Rightarrow> unit res" where
  "raise_if_per_core_overflow tds it_space splits meta =
     forE (\<lambda>td. if is_indirectly_accessed td then Inr ()
                else if get_per_core_span td splits it_space meta > MAX_SPAN_BYTES then Inl Unsupported else Inr ()) tds"

subsection \<open>Stick axes\<close>

definition note_stick :: "string \<Rightarrow> int \<Rightarrow> (string \<times> int) list \<Rightarrow> (string \<times> int) list" where
  "note_stick v elems max_elems =
     (case map_of max_elems v of
        None \<Rightarrow> AList.update v elems max_elems
      | Some old \<Rightarrow> if elems > old then AList.update v elems max_elems else max_elems)"

definition single_var :: "itspace \<Rightarrow> coord \<Rightarrow> string option" where
  "single_var it_space c =
     (case free_symbols c of [v] \<Rightarrow> if map_of it_space v = None then None else Some v | _ \<Rightarrow> None)"

definition qfp8wt_stick_coords :: "TensorDep \<Rightarrow> coord list" where
  "qfp8wt_stick_coords td = drop (length (device_coords td) - 2) (device_coords td)"

definition collect_stick :: "itspace \<Rightarrow> symbol_meta \<Rightarrow> TensorDep \<Rightarrow> (string \<times> int) list \<Rightarrow> (string \<times> int) list res" where
  "collect_stick it_space meta td max_elems =
     (if is_qfp8wt td
      then Inr (fold (\<lambda>v. note_stick v (td_elems_per_stick td)) (List.map_filter (single_var it_space) (qfp8wt_stick_coords td)) max_elems)
      else if device_coords td = [] then Inl IndexError
      else case single_var it_space (last (device_coords td)) of
             None \<Rightarrow> Inr max_elems
           | Some v \<Rightarrow> if map_of meta v \<noteq> None then Inl Unsupported
                       else Inr (note_stick v (td_elems_per_stick td) max_elems))"

definition count_sticks :: "string \<times> int \<Rightarrow> itspace \<Rightarrow> itspace" where
  "count_sticks ve space = AList.update (fst ve) ((dict_get space (fst ve) 1 + snd ve - 1) div snd ve) space"

definition adjust_it_space_for_sticks ::
  "itspace \<Rightarrow> TensorDep list \<Rightarrow> symbol_meta \<Rightarrow> (itspace \<times> (string \<times> int) list) res" where
  "adjust_it_space_for_sticks it_space tds meta =
     bindE (foldE (collect_stick it_space meta) tds []) (\<lambda>max_elems. Inr (fold count_sticks max_elems it_space, max_elems))"

subsection \<open>The legality context\<close>

record WorkDivisionContext =
  ctx_max_cores :: "int option"
  ctx_it_space :: itspace
  it_space_adjusted :: itspace
  ctx_stick_vars :: "(string \<times> int) list"
  ctx_symbol_meta :: symbol_meta
  ctx_tensor_deps :: "TensorDep list"
  ctx_reduction_vars :: "string list"
  ctx_blocked :: "string list"
  ctx_allowed :: domains
  ctx_span_min :: "string splits"

definition ctx_axes :: "WorkDivisionContext \<Rightarrow> string list" where
  "ctx_axes ctx = map fst (it_space_adjusted ctx)"

definition axis_basis :: "symbol_meta \<Rightarrow> (string \<times> int) list \<Rightarrow> itspace \<Rightarrow> itspace \<Rightarrow> string \<Rightarrow> int" where
  "axis_basis meta stick_vars adjusted it_space v =
     (case map_of meta v of
        Some mg \<Rightarrow> snd mg
      | None \<Rightarrow> if map_of stick_vars v \<noteq> None then dict_get adjusted v 1 else dict_get it_space v 1)"

definition factor_domain :: "WorkDivisionContext \<Rightarrow> string \<Rightarrow> int list" where
  "factor_domain ctx v =
     legal_split_factors v (axis_basis (ctx_symbol_meta ctx) (ctx_stick_vars ctx) (it_space_adjusted ctx) (ctx_it_space ctx) v)
       (ctx_allowed ctx) (ctx_span_min ctx)"

definition factors_in_domain :: "WorkDivisionContext \<Rightarrow> string splits \<Rightarrow> bool" where
  "factors_in_domain ctx splits \<longleftrightarrow>
     list_all (\<lambda>vs. map_of (it_space_adjusted ctx) (fst vs) \<noteq> None \<and> snd vs \<in> set (factor_domain ctx (fst vs))) splits"

definition within_core_budget :: "WorkDivisionContext \<Rightarrow> string splits \<Rightarrow> bool" where
  "within_core_budget ctx splits \<longleftrightarrow>
     (case ctx_max_cores ctx of None \<Rightarrow> True | Some n \<Rightarrow> prod_list (map snd splits) \<le> n)"

definition one_reduction_split_at_most :: "WorkDivisionContext \<Rightarrow> string splits \<Rightarrow> bool" where
  "one_reduction_split_at_most ctx splits \<longleftrightarrow>
     length (filter (\<lambda>v. dict_get splits v 1 > 1) (ctx_reduction_vars ctx)) \<le> 1"

definition spans_within_cap :: "WorkDivisionContext \<Rightarrow> string splits \<Rightarrow> bool" where
  "spans_within_cap ctx splits \<longleftrightarrow>
     list_all (\<lambda>td. get_per_core_span td splits (ctx_it_space ctx) (ctx_symbol_meta ctx) \<le> MAX_SPAN_BYTES) (ctx_tensor_deps ctx)"

definition in_split_domains :: "WorkDivisionContext \<Rightarrow> string splits \<Rightarrow> bool" where
  "in_split_domains ctx splits \<longleftrightarrow>
     (if list_ex (\<lambda>v. dict_get splits v 1 > 1) (ctx_blocked ctx) then False
      else list_all (\<lambda>va. dict_get splits (fst va) 1 \<in> set (snd va)) (ctx_allowed ctx))"

definition meets_span_floors :: "WorkDivisionContext \<Rightarrow> string splits \<Rightarrow> bool" where
  "meets_span_floors ctx splits \<longleftrightarrow> list_all (\<lambda>vm. dict_get splits (fst vm) 1 \<ge> snd vm) (ctx_span_min ctx)"

definition is_legal :: "WorkDivisionContext \<Rightarrow> string splits \<Rightarrow> bool" where
  "is_legal ctx splits \<longleftrightarrow>
     factors_in_domain ctx splits \<and> within_core_budget ctx splits \<and> one_reduction_split_at_most ctx splits \<and>
     spans_within_cap ctx splits \<and> in_split_domains ctx splits \<and> meets_span_floors ctx splits"

definition obeys_op_constraints :: "WorkDivisionContext \<Rightarrow> string splits \<Rightarrow> bool" where
  "obeys_op_constraints ctx splits \<longleftrightarrow> one_reduction_split_at_most ctx splits \<and> in_split_domains ctx splits"

definition enumerate_work_division_candidates :: "WorkDivisionContext option \<Rightarrow> string splits list" where
  "enumerate_work_division_candidates ctx =
     (case ctx of
        None \<Rightarrow> []
      | Some c \<Rightarrow> filter (is_legal c) (map (zip (ctx_axes c)) (product_lists (map (factor_domain c) (ctx_axes c)))))"

definition work_division_splits_are_legal :: "bool \<Rightarrow> WorkDivisionContext \<Rightarrow> string splits \<Rightarrow> bool" where
  "work_division_splits_are_legal has_fixed_tiled_layout ctx splits \<longleftrightarrow>
     (if \<not> has_fixed_tiled_layout then True else obeys_op_constraints ctx splits \<and> meets_span_floors ctx splits)"

subsection \<open>The enumeration lists the legal divisions\<close>

lemma distinct_sympy_divisors: "distinct (sympy_divisors n)"
  by (simp add: sympy_divisors_def)

lemma distinct_factor_domain: "distinct (factor_domain ctx v)"
  by (auto simp: factor_domain_def legal_split_factors_def Let_def distinct_sympy_divisors split: option.splits)

lemma zip_inj_on: "\<forall>xs\<in>A. length xs = length ks \<Longrightarrow> inj_on (zip ks) A"
  by (intro inj_onI) (metis map_snd_zip)

lemma zip_fst_snd: "map fst splits = ks \<Longrightarrow> zip ks (map snd splits) = splits"
  by (induction splits arbitrary: ks) auto

lemma mem_candidates:
  assumes d: "distinct (ctx_axes ctx)" and l: "is_legal ctx splits" and k: "map fst splits = ctx_axes ctx"
  shows "map snd splits \<in> set (product_lists (map (factor_domain ctx) (ctx_axes ctx)))"
proof -
  have len: "length splits = length (ctx_axes ctx)" using k length_map [of fst splits] by simp
  have "snd (splits ! i) \<in> set (factor_domain ctx (ctx_axes ctx ! i))" if "i < length splits" for i
  proof -
    have "fst (splits ! i) = ctx_axes ctx ! i" using k that by (metis nth_map)
    then show ?thesis using l that by (auto simp: is_legal_def factors_in_domain_def list_all_length)
  qed
  then show ?thesis using len by (simp add: product_lists_set list_all2_conv_all_nth)
qed

text \<open>
  C24: The enumeration is the legality test.  For an operation whose axes are distinct, the listed
  divisions are exactly the complete assignments of factors to the axes that the context admits, each
  listed once; so proposing divisions one at a time and filtering them by the test misses none.
\<close>

theorem enumeration_is_legality:
  assumes d: "distinct (ctx_axes ctx)"
  shows "set (enumerate_work_division_candidates (Some ctx)) = {splits. map fst splits = ctx_axes ctx \<and> is_legal ctx splits} \<and>
     distinct (enumerate_work_division_candidates (Some ctx))"
proof -
  let ?P = "product_lists (map (factor_domain ctx) (ctx_axes ctx))"
  have len: "\<forall>xs\<in>set ?P. length xs = length (ctx_axes ctx)" by (simp add: in_set_product_lists_length)
  have "distinct (map (zip (ctx_axes ctx)) ?P)"
    using zip_inj_on [OF len] distinct_product_lists [of "map (factor_domain ctx) (ctx_axes ctx)"] distinct_factor_domain
    by (simp add: distinct_map)
  moreover have "splits \<in> zip (ctx_axes ctx) ` set ?P" if s: "map fst splits = ctx_axes ctx" "is_legal ctx splits" for splits
    using mem_candidates [OF d s(2,1)] zip_fst_snd [OF s(1)] by (intro image_eqI) auto
  moreover have "map fst (zip (ctx_axes ctx) xs) = ctx_axes ctx" if "xs \<in> set ?P" for xs using len that by simp
  ultimately show ?thesis by (auto simp: enumerate_work_division_candidates_def)
qed

definition row_coord :: "string \<Rightarrow> coord" where
  "row_coord v = \<lparr>free_symbols = [v], coord_at = (\<lambda>a. a v), has_indirect = False\<rparr>"

definition stick_coord :: "string \<Rightarrow> int \<Rightarrow> coord" where
  "stick_coord v n = \<lparr>free_symbols = [v], coord_at = (\<lambda>a. a v mod n), has_indirect = False\<rparr>"

definition block_coord :: "string \<Rightarrow> int \<Rightarrow> coord" where
  "block_coord v n = \<lparr>free_symbols = [v], coord_at = (\<lambda>a. a v div n), has_indirect = False\<rparr>"

definition demo_td :: TensorDep where
  "demo_td = \<lparr>device_coords = [block_coord ''j'' 64, row_coord ''i'', stick_coord ''j'' 64], td_device_size = [2, 3, 64], td_itemsize = 2,
     td_elems_per_stick = 64, is_qfp8wt = False\<rparr>"

definition demo_ctx :: WorkDivisionContext where
  "demo_ctx = \<lparr>ctx_max_cores = Some 4, ctx_it_space = [(''i'', 3), (''j'', 128)], it_space_adjusted = [(''i'', 3), (''j'', 2)],
     ctx_stick_vars = [(''j'', 64)], ctx_symbol_meta = [], ctx_tensor_deps = [demo_td], ctx_reduction_vars = [],
     ctx_blocked = [], ctx_allowed = [], ctx_span_min = []\<rparr>"

theorem enumeration_is_legality_witness:
  "{splits. map fst splits = [''i'', ''j''] \<and> is_legal demo_ctx splits} =
     {[(''i'', 1), (''j'', 1)], [(''i'', 1), (''j'', 2)], [(''i'', 3), (''j'', 1)]}"
proof -
  have d: "distinct (ctx_axes demo_ctx)" "ctx_axes demo_ctx = [''i'', ''j'']" by code_simp+
  have "enumerate_work_division_candidates (Some demo_ctx) = [[(''i'', 1), (''j'', 1)], [(''i'', 1), (''j'', 2)], [(''i'', 3), (''j'', 1)]]"
    by code_simp
  then show ?thesis using enumeration_is_legality [OF d(1)] d(2) by simp
qed

subsection \<open>Stick axes are counted in sticks\<close>

definition td_stick_vars :: "itspace \<Rightarrow> TensorDep \<Rightarrow> string list" where
  "td_stick_vars it_space td =
     (if is_qfp8wt td then List.map_filter (single_var it_space) (qfp8wt_stick_coords td)
      else case single_var it_space (last (device_coords td)) of None \<Rightarrow> [] | Some v \<Rightarrow> [v])"

definition stick_sizes :: "itspace \<Rightarrow> TensorDep list \<Rightarrow> string \<Rightarrow> int set" where
  "stick_sizes it_space tds v = td_elems_per_stick ` {td \<in> set tds. v \<in> set (td_stick_vars it_space td)}"

definition max_noted :: "(string \<times> int) list \<Rightarrow> (string \<Rightarrow> int set) \<Rightarrow> bool" where
  "max_noted m S \<longleftrightarrow> distinct (map fst m) \<and>
     (\<forall>v. finite (S v) \<and> (case map_of m v of None \<Rightarrow> S v = {} | Some e \<Rightarrow> e \<in> S v \<and> (\<forall>x\<in>S v. x \<le> e)))"

lemma max_noted_note:
  assumes "max_noted m S"
  shows "max_noted (note_stick v e m) (S(v := insert e (S v)))"
proof -
  let ?top = "\<lambda>o' A. case o' of None \<Rightarrow> A = {} | Some x \<Rightarrow> x \<in> A \<and> (\<forall>y\<in>A. y \<le> (x :: int))"
  have m: "map_of (note_stick v e m) w = (if w = v then Some (case map_of m v of None \<Rightarrow> e | Some old \<Rightarrow> max e old) else map_of m w)" for w
    by (auto simp: note_stick_def map_of_update_iff max_def split: option.splits)
  have d: "distinct (map fst (note_stick v e m))"
    using assms by (auto simp: note_stick_def max_noted_def distinct_update split: option.splits)
  have S: "finite (S w) \<and> ?top (map_of m w) (S w)" for w using assms by (simp add: max_noted_def)
  have "?top (map_of (note_stick v e m) w) ((S(v := insert e (S v))) w)" for w
  proof (cases "w = v")
    case True
    then show ?thesis using S [of v] by (cases "map_of m v") (auto simp: m max_def)
  next
    case False
    then show ?thesis using S [of w] by (cases "map_of m w") (simp_all add: m)
  qed
  then show ?thesis using d S by (auto simp: max_noted_def)
qed

lemma max_noted_fold:
  "max_noted m S \<Longrightarrow> max_noted (fold (\<lambda>v. note_stick v e) vs m) (\<lambda>v. if v \<in> set vs then insert e (S v) else S v)"
proof (induction vs arbitrary: m S)
  case (Cons w vs)
  have "(\<lambda>v. if v \<in> set vs then insert e ((S(w := insert e (S w))) v) else (S(w := insert e (S w))) v) =
      (\<lambda>v. if v \<in> set (w # vs) then insert e (S v) else S v)" by (auto simp: fun_eq_iff)
  then show ?case using Cons.IH [OF max_noted_note [OF Cons.prems, of w e]] by simp
qed simp

lemma collect_stick_Inr:
  assumes "collect_stick it_space meta td m = Inr m'"
  shows "m' = fold (\<lambda>v. note_stick v (td_elems_per_stick td)) (td_stick_vars it_space td) m"
  using assms by (auto simp: collect_stick_def td_stick_vars_def split: if_split_asm option.split_asm)

lemma collect_sticks_Inr:
  assumes "foldE (collect_stick it_space meta) tds m = Inr m'" "max_noted m S"
  shows "max_noted m' (\<lambda>v. S v \<union> stick_sizes it_space tds v)"
  using assms
proof (induction tds arbitrary: m S)
  case (Cons td tds)
  then obtain m1 where m1: "collect_stick it_space meta td m = Inr m1" "foldE (collect_stick it_space meta) tds m1 = Inr m'" by auto
  let ?S = "\<lambda>v. if v \<in> set (td_stick_vars it_space td) then insert (td_elems_per_stick td) (S v) else S v"
  have "max_noted m1 ?S" unfolding collect_stick_Inr [OF m1(1)] by (rule max_noted_fold [OF Cons.prems(2)])
  from Cons.IH [OF m1(2) this]
  have "max_noted m' (\<lambda>v. ?S v \<union> stick_sizes it_space tds v)" .
  moreover have "(\<lambda>v. ?S v \<union> stick_sizes it_space tds v) = (\<lambda>v. S v \<union> stick_sizes it_space (td # tds) v)"
    by (auto simp: fun_eq_iff stick_sizes_def)
  ultimately show ?case by simp
qed (simp add: stick_sizes_def)

lemma count_sticks_keys: "fst ve \<in> fst ` set space \<Longrightarrow> map fst (count_sticks ve space) = map fst space"
  by (simp add: count_sticks_def update_keys)

lemma fold_count_sticks:
  assumes "distinct (map fst m)" "fst ` set m \<subseteq> fst ` set space"
  shows "map fst (fold count_sticks m space) = map fst space \<and>
     (\<forall>v. dict_get (fold count_sticks m space) v 1 =
        (case map_of m v of None \<Rightarrow> dict_get space v 1 | Some e \<Rightarrow> (dict_get space v 1 + e - 1) div e))"
  using assms
proof (induction m arbitrary: space)
  case (Cons p m)
  obtain u e where p: "p = (u, e)" by (cases p)
  have k: "map fst (count_sticks p space) = map fst space" using Cons.prems(2) by (intro count_sticks_keys) simp
  then have ks: "fst ` set (count_sticks p space) = fst ` set space" by (metis set_map)
  have IH: "map fst (fold count_sticks m (count_sticks p space)) = map fst (count_sticks p space) \<and>
     (\<forall>v. dict_get (fold count_sticks m (count_sticks p space)) v 1 =
        (case map_of m v of None \<Rightarrow> dict_get (count_sticks p space) v 1 | Some e \<Rightarrow> (dict_get (count_sticks p space) v 1 + e - 1) div e))"
    by (rule Cons.IH) (use Cons.prems ks in auto)
  have u: "map_of m u = None" using Cons.prems(1) p by (simp add: map_of_eq_None_iff)
  have "dict_get (count_sticks p space) v 1 = (if v = u then (dict_get space u 1 + e - 1) div e else dict_get space v 1)" for v
    by (simp add: count_sticks_def p dict_get_def map_of_update_iff)
  then have "dict_get (fold count_sticks (p # m) space) v 1 =
      (case map_of (p # m) v of None \<Rightarrow> dict_get space v 1 | Some e \<Rightarrow> (dict_get space v 1 + e - 1) div e)" for v
    using IH u by (cases "map_of m v") (auto simp: p)
  then show ?case using IH k by simp
qed simp

lemma single_var_mem: "single_var it_space c = Some v \<Longrightarrow> v \<in> fst ` set it_space"
  by (auto simp: single_var_def map_of_eq_None_iff split: list.splits if_splits)

lemma td_stick_vars_sub: "set (td_stick_vars it_space td) \<subseteq> fst ` set it_space"
  by (auto simp: td_stick_vars_def set_map_filter_iff dest!: single_var_mem dest: single_var_mem [OF HOL.sym] split: option.splits)

lemma adjusted_space:
  assumes adj: "adjust_it_space_for_sticks it_space tds meta = Inr (adjusted, sticks)"
  shows "map fst adjusted = map fst it_space \<and>
     (\<forall>v. if stick_sizes it_space tds v = {} then map_of sticks v = None \<and> dict_get adjusted v 1 = dict_get it_space v 1
          else map_of sticks v = Some (Max (stick_sizes it_space tds v)) \<and>
               dict_get adjusted v 1 = (dict_get it_space v 1 + Max (stick_sizes it_space tds v) - 1) div Max (stick_sizes it_space tds v))"
proof -
  from adj have m: "foldE (collect_stick it_space meta) tds [] = Inr sticks" and a: "adjusted = fold count_sticks sticks it_space"
    by (auto simp: adjust_it_space_for_sticks_def)
  have mx: "max_noted sticks (\<lambda>v. stick_sizes it_space tds v)"
    using collect_sticks_Inr [OF m, of "\<lambda>_. {}"] by (simp add: max_noted_def)
  have top: "map_of sticks v = (if stick_sizes it_space tds v = {} then None else Some (Max (stick_sizes it_space tds v)))" for v
  proof (cases "map_of sticks v")
    case (Some e)
    then have e: "finite (stick_sizes it_space tds v)" "e \<in> stick_sizes it_space tds v" "\<forall>x\<in>stick_sizes it_space tds v. x \<le> e"
      using spec [OF conjunct2 [OF mx [unfolded max_noted_def]], of v] by auto
    then show ?thesis using Some Max_eqI [of "stick_sizes it_space tds v" e] by auto
  qed (use spec [OF conjunct2 [OF mx [unfolded max_noted_def]], of v] in simp)
  have "fst ` set sticks \<subseteq> fst ` set it_space"
  proof
    fix v assume "v \<in> fst ` set sticks"
    then have "map_of sticks v \<noteq> None" by (simp add: map_of_eq_None_iff)
    then have "stick_sizes it_space tds v \<noteq> {}" using top [of v] by (auto split: if_split_asm)
    then show "v \<in> fst ` set it_space" using td_stick_vars_sub by (fastforce simp: stick_sizes_def)
  qed
  moreover have "distinct (map fst sticks)" using mx by (simp add: max_noted_def)
  ultimately have "map fst adjusted = map fst it_space \<and>
     (\<forall>v. dict_get adjusted v 1 = (case map_of sticks v of None \<Rightarrow> dict_get it_space v 1 | Some e \<Rightarrow> (dict_get it_space v 1 + e - 1) div e))"
    unfolding a by (intro fold_count_sticks)
  then show ?thesis using top by simp
qed

text \<open>
  Stick axes are counted in whole sticks.  The adjusted space has the same axes; an axis that indexes
  the stick of some tensor is the number of sticks its elements need, for the largest stick among those
  tensors, and every other axis keeps its size.
\<close>

theorem stick_axes_counted:
  assumes adj: "adjust_it_space_for_sticks it_space tds meta = Inr (adjusted, sticks)"
  shows "map fst adjusted = map fst it_space \<and>
     (\<forall>v. if stick_sizes it_space tds v = {} then map_of sticks v = None \<and> dict_get adjusted v 1 = dict_get it_space v 1
          else map_of sticks v = Some (Max (stick_sizes it_space tds v)) \<and>
               dict_get adjusted v 1 = (dict_get it_space v 1 + Max (stick_sizes it_space tds v) - 1) div Max (stick_sizes it_space tds v))"
  using adj by (rule adjusted_space)

theorem stick_axes_counted_witness:
  "adjust_it_space_for_sticks [(''i'', 3), (''j'', 100)] [demo_td] [] = Inr ([(''i'', 3), (''j'', 2)], [(''j'', 64)]) \<and>
     map fst [(''i'', 3 :: int), (''j'', 2)] = map fst [(''i'', 3 :: int), (''j'', 100)]"
proof -
  have a: "adjust_it_space_for_sticks [(''i'', 3), (''j'', 100)] [demo_td] [] = Inr ([(''i'', 3), (''j'', 2)], [(''j'', 64)])"
    by code_simp
  show ?thesis using stick_axes_counted [OF a] a by blast
qed

subsection \<open>Finer splits never widen a span\<close>

lemma span_from_cong:
  assumes "\<And>v. dict_get a v 1 = dict_get b v 1"
  shows "span_from it_space meta a td d cs = span_from it_space meta b td d cs"
  by (induction cs arbitrary: d) (simp_all add: coord_extent_def per_core_range_def assms)

lemma get_per_core_span_cong:
  "(\<And>v. dict_get a v 1 = dict_get b v 1) \<Longrightarrow> get_per_core_span td a it_space meta = get_per_core_span td b it_space meta"
  unfolding get_per_core_span_def by (rule span_from_cong)

text \<open>
  A coordinate is monotone when its value along each variable does not decrease, as for sums of scaled
  floored quotients; a splitting refines another on an access when it splits every variable of its
  coordinates at least as often, and no variable more often than its size.
\<close>

definition coord_monotone :: "coord \<Rightarrow> bool" where
  "coord_monotone c \<longleftrightarrow> (\<forall>v\<in>set (free_symbols c). \<forall>x y. 0 \<le> x \<longrightarrow> x \<le> y \<longrightarrow>
     coord_at c ((\<lambda>_. 0)(v := x)) \<le> coord_at c ((\<lambda>_. 0)(v := y)))"

definition refines :: "itspace \<Rightarrow> symbol_meta \<Rightarrow> coord list \<Rightarrow> string splits \<Rightarrow> string splits \<Rightarrow> bool" where
  "refines it_space meta cs a b \<longleftrightarrow> (\<forall>c\<in>set cs. \<forall>v\<in>set (free_symbols c).
     1 \<le> dict_get a v 1 \<and> dict_get a v 1 \<le> dict_get b v 1 \<and> dict_get b v 1 \<le> effective_size it_space meta v)"

lemma coord_extent_antitone:
  assumes "coord_monotone c" "refines it_space meta [c] a b"
  shows "coord_extent it_space meta b c \<le> coord_extent it_space meta a c"
proof -
  have "coord_at c ((\<lambda>_. 0)(v := per_core_range it_space meta b v - 1)) \<le> coord_at c ((\<lambda>_. 0)(v := per_core_range it_space meta a v - 1))"
    if v: "v \<in> set (free_symbols c)" for v
  proof -
    have r: "1 \<le> dict_get a v 1" "dict_get a v 1 \<le> dict_get b v 1" "dict_get b v 1 \<le> effective_size it_space meta v"
      using assms(2) v by (auto simp: refines_def)
    have "1 \<le> per_core_range it_space meta b v"
      using r zdiv_mono1 [of "dict_get b v 1" "effective_size it_space meta v" "dict_get b v 1"] by (simp add: per_core_range_def)
    moreover have "per_core_range it_space meta b v \<le> per_core_range it_space meta a v"
      using r unfolding per_core_range_def by (intro zdiv_mono2) auto
    ultimately show ?thesis using assms(1) v by (simp add: coord_monotone_def)
  qed
  then show ?thesis unfolding coord_extent_def by (intro add_mono diff_mono sum_list_mono) auto
qed

lemma span_from_bound:
  assumes "d + length cs \<le> length (td_device_size td)" "list_all (\<lambda>n. 0 < n) (td_device_size td)" "0 < td_itemsize td"
    and "\<And>i. i < length cs \<Longrightarrow> coord_extent it_space meta b (cs ! i) \<le> td_device_size td ! (d + i)"
  shows "span_from it_space meta b td d cs \<le> prod_list (drop d (td_device_size td)) * td_itemsize td"
  using assms(1,4)
proof (induction cs arbitrary: d)
  case Nil
  have "list_all (\<lambda>n. 0 < n) (drop d (td_device_size td))" using assms(2) by (auto simp: list_all_iff dest: in_set_dropD)
  then have "1 \<le> prod_list (drop d (td_device_size td))" using prod_list_pos by force
  then show ?case using mult_right_mono [of 1 _ "td_itemsize td"] assms(3) by fastforce
next
  case (Cons c cs)
  let ?rest = "prod_list (drop (Suc d) (td_device_size td))" and ?s = "td_device_size td ! d"
  have d: "d < length (td_device_size td)" using Cons.prems(1) by simp
  then have pd: "prod_list (drop d (td_device_size td)) = ?s * ?rest" by (simp add: Cons_nth_drop_Suc [symmetric])
  have pos: "0 < ?s" "0 < ?rest" using d assms(2) prod_list_pos [of "drop (Suc d) (td_device_size td)"]
    by (auto simp: list_all_iff dest: in_set_dropD)
  have IH: "span_from it_space meta b td (Suc d) cs \<le> ?rest * td_itemsize td"
    using Cons.prems(1) Cons.prems(2) [of "Suc _"] by (intro Cons.IH) auto
  have step: "?rest * td_itemsize td \<le> ?s * ?rest * td_itemsize td" using pos assms(3) by (simp add: mult_le_cancel_right1)
  have "coord_extent it_space meta b c \<le> ?s" using Cons.prems(2) [of 0] by simp
  then have "coord_extent it_space meta b c * ?rest * td_itemsize td \<le> ?s * ?rest * td_itemsize td"
    using pos assms(3) by (intro mult_right_mono) auto
  then show ?case using IH step by (auto simp: pd Let_def)
qed

lemma span_from_antitone:
  assumes "list_all (\<lambda>n. 0 < n) (td_device_size td)" "0 < td_itemsize td"
    and "d + length cs \<le> length (td_device_size td)" "list_all coord_monotone cs" "refines it_space meta cs a b"
    and "\<And>i. i < length cs \<Longrightarrow> coord_extent it_space meta b (cs ! i) \<le> td_device_size td ! (d + i)"
  shows "span_from it_space meta b td d cs \<le> span_from it_space meta a td d cs"
  using assms(3-)
proof (induction cs arbitrary: d)
  case (Cons c cs)
  let ?rest = "prod_list (drop (Suc d) (td_device_size td))"
  have ext: "coord_extent it_space meta b c \<le> coord_extent it_space meta a c"
    using Cons.prems(2,3) by (intro coord_extent_antitone) (auto simp: refines_def)
  have inner: "coord_extent it_space meta b (cs ! i) \<le> td_device_size td ! (Suc d + i)" if "i < length cs" for i
    using Cons.prems(4) [of "Suc i"] that by simp
  have len: "Suc d + length cs \<le> length (td_device_size td)" using Cons.prems(1) by simp
  have IH: "span_from it_space meta b td (Suc d) cs \<le> span_from it_space meta a td (Suc d) cs"
    using Cons.prems(2,3) by (intro Cons.IH len inner) (auto simp: refines_def)
  have bound: "span_from it_space meta b td (Suc d) cs \<le> ?rest * td_itemsize td"
    by (rule span_from_bound [OF len assms(1,2) inner])
  have pos: "0 < ?rest" using assms(1) prod_list_pos [of "drop (Suc d) (td_device_size td)"] by (auto simp: list_all_iff dest: in_set_dropD)
  have mono: "coord_extent it_space meta b c * ?rest * td_itemsize td \<le> coord_extent it_space meta a c * ?rest * td_itemsize td"
    using ext pos assms(2) by (intro mult_right_mono) auto
  have "1 * (?rest * td_itemsize td) \<le> coord_extent it_space meta a c * (?rest * td_itemsize td)" if "1 < coord_extent it_space meta a c"
    using that pos assms(2) by (intro mult_right_mono) auto
  then show ?case using IH bound mono ext by (auto simp: Let_def mult.assoc)
qed simp

text \<open>
  Dividing an operation more finely never widens a tensor's per-core span, when the access stays
  inside the tensor and its coordinates are monotone.  So splits that keep a tensor under the hardware's
  span limit keep it there under any refinement the later distribution chooses.
\<close>

theorem finer_splits_keep_span:
  assumes shape: "list_all (\<lambda>n. 0 < n) (td_device_size td)" "0 < td_itemsize td"
      "length (device_coords td) = length (td_device_size td)"
    and mono: "list_all coord_monotone (butlast (device_coords td))"
    and finer: "refines it_space meta (butlast (device_coords td)) a b"
    and inside: "\<And>i. i < length (device_coords td) - 1 \<Longrightarrow> coord_extent it_space meta b (device_coords td ! i) \<le> td_device_size td ! i"
    and a: "get_per_core_span td a it_space meta \<le> MAX_SPAN_BYTES"
  shows "get_per_core_span td b it_space meta \<le> MAX_SPAN_BYTES"
proof -
  have "get_per_core_span td b it_space meta \<le> get_per_core_span td a it_space meta"
    unfolding get_per_core_span_def
    by (rule span_from_antitone [OF shape(1,2) _ mono finer]) (use shape(3) inside in \<open>auto simp: nth_butlast\<close>)
  then show ?thesis using a by simp
qed

theorem finer_splits_keep_span_witness:
  "get_per_core_span demo_td [(''i'', 3)] [(''i'', 3), (''j'', 128)] [] \<le> MAX_SPAN_BYTES"
proof (rule finer_splits_keep_span [of _ _ _ "[(''i'', 1)]"])
  show "list_all (\<lambda>n. 0 < n) (td_device_size demo_td)" "0 < td_itemsize demo_td"
    "length (device_coords demo_td) = length (td_device_size demo_td)"
    "get_per_core_span demo_td [(''i'', 1)] [(''i'', 3), (''j'', 128)] [] \<le> MAX_SPAN_BYTES" by code_simp+
  have b: "butlast (device_coords demo_td) = [block_coord ''j'' 64, row_coord ''i'']" by (simp add: demo_td_def)
  show "list_all coord_monotone (butlast (device_coords demo_td))"
    by (simp add: b coord_monotone_def block_coord_def row_coord_def zdiv_mono1)
  show "refines [(''i'', 3), (''j'', 128)] [] (butlast (device_coords demo_td)) [(''i'', 1)] [(''i'', 3)]"
    by (simp add: b refines_def block_coord_def row_coord_def dict_get_def effective_size_def)
  fix i assume "i < length (device_coords demo_td) - 1"
  then have "i = 0 \<or> i = 1" by (auto simp: demo_td_def)
  moreover have "coord_extent [(''i'', 3), (''j'', 128)] [] [(''i'', 3)] (device_coords demo_td ! 0) \<le> td_device_size demo_td ! 0"
    "coord_extent [(''i'', 3), (''j'', 128)] [] [(''i'', 3)] (device_coords demo_td ! 1) \<le> td_device_size demo_td ! 1" by code_simp+
  ultimately show "coord_extent [(''i'', 3), (''j'', 128)] [] [(''i'', 3)] (device_coords demo_td ! i) \<le> td_device_size demo_td ! i" by auto
qed

end
