(* ===== verification/Division_Passes.thy ===== *)
theory Division_Passes
  imports Division_Legality
begin

text \<open>
  The two passes that commit an operation's work division (\<open>work_division.py\<close>, with the merge of
  \<open>work_division_constraints.py\<close> and the ownership record of \<open>pass_utils.py\<close>): span reduction finds the
  splits the hardware's memory span demands, work distribution spends the remaining cores or applies the
  user's hint.

  The op-specific constraint rules are arguments: each is a function of the splits committed so far.  So
  are the facts the passes read off an operation (its iteration space, accesses, hint, scatter entries).
\<close>

subsection \<open>Merging the constraint rules\<close>

record ConstraintResult =
  res_blocked :: "string list"
  res_allowed :: domains

type_synonym rule_fn = "string splits \<Rightarrow> ConstraintResult res"

definition merge_domain :: "string splits \<Rightarrow> string \<times> int list \<Rightarrow> domains \<Rightarrow> domains res" where
  "merge_domain committed sa allowed_splits =
     (if snd sa = [] then Inl Unsupported
      else
        let allowed = (case map_of allowed_splits (fst sa) of None \<Rightarrow> snd sa | Some old \<Rightarrow> filter (\<lambda>s. s \<in> set old) (snd sa))
        in if allowed = [] then Inl Unsupported
           else if (case map_of committed (fst sa) of None \<Rightarrow> False | Some c \<Rightarrow> c \<notin> set allowed) then Inl Unsupported
           else Inr (AList.update (fst sa) allowed allowed_splits))"

definition merge_rule :: "string splits \<Rightarrow> rule_fn \<Rightarrow> ConstraintResult \<Rightarrow> ConstraintResult res" where
  "merge_rule committed rule_of acc =
     bindE (rule_of committed) (\<lambda>result.
       if list_ex (\<lambda>s. dict_get committed s 1 > 1) (res_blocked result) then Inl Unsupported
       else bindE (foldE (merge_domain committed) (res_allowed result) (res_allowed acc)) (\<lambda>allowed.
              Inr \<lparr>res_blocked = res_blocked acc @ res_blocked result, res_allowed = allowed\<rparr>))"

definition collect_work_division_constraints :: "rule_fn list \<Rightarrow> string splits \<Rightarrow> ConstraintResult res" where
  "collect_work_division_constraints rules committed =
     foldE (merge_rule committed) rules \<lparr>res_blocked = [], res_allowed = []\<rparr>"

subsection \<open>Splits the span limit demands\<close>

text \<open>What stays fixed during the search; the accumulated splits are the state.\<close>

record span_request =
  sr_space :: itspace
  sr_adjusted :: itspace
  sr_sticks :: "(string \<times> int) list"
  sr_cores :: int
  sr_meta :: symbol_meta
  sr_allowed :: domains
  sr_blocked :: "string list"

definition span_split_vars :: "span_request \<Rightarrow> coord \<Rightarrow> string list" where
  "span_split_vars q c = filter (\<lambda>v. effective_size (sr_space q) (sr_meta q) v > 1) (free_symbols c)"

definition valid_splits :: "span_request \<Rightarrow> string splits \<Rightarrow> string \<Rightarrow> int list" where
  "valid_splits q accumulated v =
     (if v \<in> set (sr_blocked q) then [1]
      else filter (\<lambda>s. s \<ge> dict_get accumulated v 1)
             (legal_split_factors v (axis_basis (sr_meta q) (sr_sticks q) (sr_adjusted q) (sr_space q) v) (sr_allowed q) []))"

definition commit_combo :: "string list \<Rightarrow> int list \<Rightarrow> string splits \<Rightarrow> string splits" where
  "commit_combo vars combo accumulated = fold (\<lambda>(v, s). AList.update v s) (zip vars combo) accumulated"

type_synonym span_best = "(int \<times> int list) option \<times> (int \<times> int list) option"

definition consider_combo :: "span_request \<Rightarrow> TensorDep \<Rightarrow> string list \<Rightarrow> string splits \<Rightarrow> int list \<Rightarrow> span_best \<Rightarrow> span_best" where
  "consider_combo q td vars accumulated combo best =
     (let trial = commit_combo vars combo accumulated
      in if prod_list (map snd trial) > sr_cores q then best
         else
           let span = get_per_core_span td trial (sr_space q) (sr_meta q)
           in if span \<le> MAX_SPAN_BYTES
              then (case fst best of
                      None \<Rightarrow> (Some (span, combo), snd best)
                    | Some (bs, bc) \<Rightarrow>
                        if prod_list combo < prod_list bc \<or> (prod_list combo = prod_list bc \<and> - span < - bs)
                        then (Some (span, combo), snd best) else best)
              else (case snd best of
                      None \<Rightarrow> (fst best, Some (span, combo))
                    | Some (bs, bc) \<Rightarrow> if span < bs then (fst best, Some (span, combo)) else best))"

definition best_combo :: "span_request \<Rightarrow> TensorDep \<Rightarrow> string list \<Rightarrow> string splits \<Rightarrow> (int \<times> int list) option" where
  "best_combo q td vars accumulated =
     (case fold (consider_combo q td vars accumulated) (product_lists (map (valid_splits q accumulated) vars)) (None, None) of
        (Some b, _) \<Rightarrow> Some b
      | (None, over) \<Rightarrow> over)"

definition coord_still_wide :: "span_request \<Rightarrow> coord \<Rightarrow> string splits \<Rightarrow> bool" where
  "coord_still_wide q c accumulated \<longleftrightarrow>
     max (coord_at c (\<lambda>v. if v \<in> set (free_symbols c) then per_core_range (sr_space q) (sr_meta q) accumulated v - 1 else 0)) 0 + 1 > 1"

fun split_coords :: "span_request \<Rightarrow> TensorDep \<Rightarrow> coord list \<Rightarrow> string splits \<Rightarrow> string splits res" where
  "split_coords q td [] accumulated = Inr accumulated"
| "split_coords q td (c # cs) accumulated =
     (let vars = span_split_vars q c
      in if vars = [] then split_coords q td cs accumulated
         else if list_ex (\<lambda>v. valid_splits q accumulated v = []) vars then Inl Unsupported
         else (case best_combo q td vars accumulated of
                 None \<Rightarrow> Inr accumulated
               | Some (best_span, combo) \<Rightarrow>
                   let committed = commit_combo vars combo accumulated
                   in if best_span \<le> MAX_SPAN_BYTES then Inr committed
                      else if coord_still_wide q c committed then Inr committed
                      else split_coords q td cs committed))"

definition must_split_vars :: "span_request \<Rightarrow> TensorDep list \<Rightarrow> string splits res" where
  "must_split_vars q tds =
     foldE (\<lambda>td accumulated.
        if get_per_core_span td accumulated (sr_space q) (sr_meta q) \<le> MAX_SPAN_BYTES then Inr accumulated
        else split_coords q td (butlast (device_coords td)) accumulated) tds []"

subsection \<open>Priorities\<close>

definition coord_vars :: "TensorDep \<Rightarrow> string set" where
  "coord_vars td = \<Union> (set (map (set \<circ> free_symbols) (butlast (device_coords td))))"

definition prioritize_dimensions :: "TensorDep \<Rightarrow> itspace \<Rightarrow> symbol_meta \<Rightarrow> string list \<times> string list" where
  "prioritize_dimensions output adjusted meta =
     (let key = (\<lambda>v. - effective_size adjusted meta v);
          vars = map fst adjusted
      in (sort_key key (filter (\<lambda>v. v \<in> coord_vars output) vars), sort_key key (filter (\<lambda>v. v \<notin> coord_vars output) vars)))"

definition prioritize_indirect_scatter_dimensions ::
  "string list \<Rightarrow> TensorDep \<Rightarrow> itspace \<Rightarrow> symbol_meta \<Rightarrow> string list \<times> string list" where
  "prioritize_indirect_scatter_dimensions entry_dims output adjusted meta =
     (case prioritize_dimensions output adjusted meta of (output_dims, reduction_dims) \<Rightarrow>
        (filter (\<lambda>d. d \<in> set entry_dims) reduction_dims @ output_dims, filter (\<lambda>d. d \<notin> set entry_dims) reduction_dims))"

subsection \<open>The operation\<close>

datatype hint_value = HInt int | HOther

record wd_op =
  op_it_space :: itspace
  op_meta :: symbol_meta
  op_inputs :: "TensorDep list"
  op_output :: TensorDep
  op_rules :: "rule_fn list"
  op_entry_syms :: "string list"
  op_hint :: "(string \<times> hint_value) list"
  op_loop_info :: "(string \<times> string list) list"
  op_k_fast_matmul :: bool
  op_ownership :: "string TensorWorkDivision option"
  op_span_min :: "string splits"

definition all_tds :: "wd_op \<Rightarrow> TensorDep list" where
  "all_tds op = op_inputs op @ [op_output op]"

definition make_iteration_space_ownership :: "wd_op \<Rightarrow> string splits \<Rightarrow> string TensorWorkDivision res" where
  "make_iteration_space_ownership op splits =
     (let slices = map (\<lambda>vs. (fst vs, dict_get splits (fst vs) 1)) (op_it_space op);
          dim_splits = map snd slices;
          contiguous = (if op_k_fast_matmul op then Some (length dim_splits - 1) else None)
      in bindE (core_to_slice_mapping (map fst (op_it_space op)) dim_splits (prod_list dim_splits) contiguous) (\<lambda>owners.
           Inr \<lparr>work_slices = slices, core_id_to_work_slice = owners, division_cores = Some (prod_list dim_splits)\<rparr>))"

definition apply_splits :: "wd_op \<Rightarrow> string splits \<Rightarrow> wd_op res" where
  "apply_splits op splits = bindE (make_iteration_space_ownership op splits) (\<lambda>d. Inr (op\<lparr>op_ownership := Some d\<rparr>))"

subsection \<open>User hints\<close>

definition resolve_step :: "(string \<times> string list) list \<Rightarrow> itspace \<Rightarrow> string \<times> hint_value \<Rightarrow> (string \<times> hint_value) list \<Rightarrow> (string \<times> hint_value) list" where
  "resolve_step loop_info it_space ns splits =
     (case find (\<lambda>sym. map_of splits sym = None \<and> fst ns \<in> set (dict_get loop_info sym [])) (map fst it_space) of
        None \<Rightarrow> splits
      | Some var \<Rightarrow> AList.update var (snd ns) splits)"

definition resolve_work_div_hint :: "wd_op \<Rightarrow> itspace \<Rightarrow> (string \<times> hint_value) list option" where
  "resolve_work_div_hint op it_space =
     (if op_hint op = [] then None
      else let splits = fold (resolve_step (op_loop_info op) it_space) (op_hint op) []
           in if splits = [] then None else Some splits)"

record hint_request =
  hr_adjusted :: itspace
  hr_cores :: int
  hr_blocked :: "string list"
  hr_allowed :: domains
  hr_min :: "string splits"

definition hint_step :: "hint_request \<Rightarrow> string \<times> hint_value \<Rightarrow> string splits \<times> int \<Rightarrow> (string splits \<times> int) res" where
  "hint_step h sv st =
     (case snd sv of
        HOther \<Rightarrow> Inl Unsupported
      | HInt split \<Rightarrow>
          (if split < 1 then Inl Unsupported
           else if map_of (hr_adjusted h) (fst sv) = None then Inl Unsupported
           else if split > 1 \<and> fst sv \<in> set (hr_blocked h) then Inl Unsupported
           else if (case map_of (hr_allowed h) (fst sv) of None \<Rightarrow> False | Some al \<Rightarrow> split \<notin> set al) then Inl Unsupported
           else if split < dict_get (hr_min h) (fst sv) 1 then Inl Unsupported
           else if snd st * split > hr_cores h then Inr st
           else if dict_get (hr_adjusted h) (fst sv) 1 mod split \<noteq> 0 then Inl Unsupported
           else Inr (AList.update (fst sv) split (fst st), snd st * split)))"

definition apply_user_hint :: "hint_request \<Rightarrow> TensorDep \<Rightarrow> (string \<times> hint_value) list \<Rightarrow> string splits res" where
  "apply_user_hint h output user_splits =
     bindE (foldE (hint_step h) user_splits ([], 1)) (\<lambda>(splits, cores_used).
       if length (filter (\<lambda>vs. snd vs > 1 \<and> fst vs \<notin> coord_vars output) splits) > 1 then Inl Unsupported
       else if list_ex (\<lambda>va. dict_get splits (fst va) 1 \<notin> set (snd va)) (hr_allowed h) \<or>
               list_ex (\<lambda>vm. dict_get splits (fst vm) 1 < snd vm) (hr_min h) then Inl Unsupported
       else Inr splits)"

subsection \<open>The passes\<close>

definition default_split ::
  "wd_op \<Rightarrow> itspace \<Rightarrow> string splits \<Rightarrow> int \<Rightarrow> string list \<Rightarrow> domains \<Rightarrow> string splits res" where
  "default_split op adjusted committed max_cores blocked allowed =
     (case prioritize_indirect_scatter_dimensions (op_entry_syms op) (op_output op) adjusted (op_meta op) of (output_dims, reduction_dims) \<Rightarrow>
        let committed_reduction = filter (\<lambda>v. v \<notin> coord_vars (op_output op)) (map fst committed);
            reductions = (if committed_reduction \<noteq> [] then filter (\<lambda>v. v \<in> set committed_reduction) reduction_dims else reduction_dims)
        in multi_dim_iteration_space_split
             \<lparr>req_space = adjusted, req_meta = op_meta op, req_cores = max_cores, req_min = committed, req_allowed = allowed\<rparr>
             (filter (\<lambda>v. v \<notin> set blocked) output_dims) (filter (\<lambda>v. v \<notin> set blocked) reductions))"

definition span_reduction_pass :: "wd_op \<Rightarrow> int \<Rightarrow> wd_op res" where
  "span_reduction_pass op max_cores =
     bindE (adjust_it_space_for_sticks (op_it_space op) (all_tds op) (op_meta op)) (\<lambda>(adjusted, sticks).
     bindE (collect_work_division_constraints (op_rules op) []) (\<lambda>constraints.
     bindE (must_split_vars \<lparr>sr_space = op_it_space op, sr_adjusted = adjusted, sr_sticks = sticks, sr_cores = max_cores,
              sr_meta = op_meta op, sr_allowed = res_allowed constraints, sr_blocked = res_blocked constraints\<rparr> (all_tds op)) (\<lambda>min_splits.
     bindE (collect_work_division_constraints (op_rules op) min_splits) (\<lambda>_.
       if length (filter (\<lambda>vs. snd vs > 1 \<and> fst vs \<notin> coord_vars (op_output op)) min_splits) > 1 then Inl Unsupported
       else apply_splits (op\<lparr>op_span_min := min_splits\<rparr>) min_splits))))"

definition committed_splits :: "wd_op \<Rightarrow> string splits" where
  "committed_splits op = (case op_ownership op of None \<Rightarrow> [] | Some d \<Rightarrow> filter (\<lambda>vs. snd vs > 1) (work_slices d))"

definition check_overflow :: "string splits \<Rightarrow> wd_op \<Rightarrow> wd_op res" where
  "check_overflow splits op =
     bindE (raise_if_per_core_overflow (all_tds op) (op_it_space op) splits (op_meta op)) (\<lambda>_. Inr op)"

definition work_distribution_pass :: "bool \<Rightarrow> wd_op \<Rightarrow> int \<Rightarrow> wd_op res" where
  "work_distribution_pass ignore_hints op max_cores =
     bindE (adjust_it_space_for_sticks (op_it_space op) (all_tds op) (op_meta op)) (\<lambda>(adjusted, sticks).
     bindE (collect_work_division_constraints (op_rules op) (committed_splits op)) (\<lambda>constraints.
       case (if ignore_hints then None else resolve_work_div_hint op adjusted) of
         Some user_splits \<Rightarrow>
           bindE (apply_user_hint \<lparr>hr_adjusted = adjusted, hr_cores = max_cores, hr_blocked = res_blocked constraints,
                    hr_allowed = res_allowed constraints, hr_min = op_span_min op\<rparr> (op_output op) user_splits) (\<lambda>splits.
           bindE (apply_splits op splits) (check_overflow splits))
       | None \<Rightarrow>
           bindE (default_split op adjusted (committed_splits op) max_cores (res_blocked constraints) (res_allowed constraints)) (\<lambda>splits.
           bindE (apply_splits op splits) (check_overflow splits))))"

section \<open>Merged constraints\<close>

definition rule_domains :: "rule_fn list \<Rightarrow> string splits \<Rightarrow> (string \<times> int list) list" where
  "rule_domains rules committed = concat (map (\<lambda>f. res_allowed (projr (f committed))) rules)"

definition rule_blocked :: "rule_fn list \<Rightarrow> string splits \<Rightarrow> string list" where
  "rule_blocked rules committed = concat (map (\<lambda>f. res_blocked (projr (f committed))) rules)"

definition merged_domain :: "string splits \<Rightarrow> (string \<times> int list) list \<Rightarrow> domains \<Rightarrow> string \<Rightarrow> bool" where
  "merged_domain committed xs allowed v \<longleftrightarrow>
     (case map_of allowed v of
        None \<Rightarrow> v \<notin> fst ` set xs
      | Some al \<Rightarrow> v \<in> fst ` set xs \<and> al \<noteq> [] \<and> set al = (\<Inter>d\<in>{d. (v, d) \<in> set xs}. set d) \<and>
                   (\<forall>c. map_of committed v = Some c \<longrightarrow> c \<in> set al))"

lemma merged_in_domain:
  assumes "merged_domain committed xs allowed v" "map_of committed v = Some k"
  shows "in_domain allowed v k"
proof (cases "map_of allowed v")
  case (Some al)
  then have "k \<in> set al" using assms unfolding merged_domain_def by (simp only: option.case) blast
  then show ?thesis by (simp add: in_domain_def Some)
qed (simp add: in_domain_def)

lemma merge_domain_Inr:
  assumes m: "merge_domain committed (u, d) allowed = Inr allowed'" and inv: "\<And>v. merged_domain committed xs allowed v"
    and dist: "distinct (map fst allowed)"
  shows "merged_domain committed (xs @ [(u, d)]) allowed' v" "distinct (map fst allowed')"
proof -
  let ?al = "case map_of allowed u of None \<Rightarrow> d | Some old \<Rightarrow> filter (\<lambda>s. s \<in> set old) d"
  have a: "?al \<noteq> []" "\<forall>c. map_of committed u = Some c \<longrightarrow> c \<in> set ?al" "allowed' = AList.update u ?al allowed"
    using m by (auto simp: merge_domain_def Let_def split: if_split_asm option.split_asm)
  show "distinct (map fst allowed')" by (simp add: a(3) distinct_update dist)
  have inter: "set ?al = (\<Inter>e\<in>{e. (u, e) \<in> set (xs @ [(u, d)])}. set e)"
  proof (cases "map_of allowed u")
    case None
    then have "{e. (u, e) \<in> set (xs @ [(u, d)])} = {d}" using inv [of u] by (force simp: merged_domain_def)
    then show ?thesis by (simp add: None)
  next
    case (Some old)
    then have "set old = (\<Inter>e\<in>{e. (u, e) \<in> set xs}. set e)" using inv [of u] by (simp add: merged_domain_def)
    moreover have "{e. (u, e) \<in> set (xs @ [(u, d)])} = insert d {e. (u, e) \<in> set xs}" by auto
    ultimately show ?thesis by (auto simp: Some)
  qed
  show "merged_domain committed (xs @ [(u, d)]) allowed' v"
  proof (cases "v = u")
    case True
    have al: "map_of allowed' v = Some ?al" by (simp add: a(3) map_of_update_iff True)
    have k: "u \<in> fst ` set (xs @ [(u, d)])" by simp
    show ?thesis unfolding merged_domain_def al option.case unfolding True using a(1,2) inter k by blast
  next
    case False
    then have "map_of allowed' v = map_of allowed v" by (simp add: a(3) map_of_update_iff)
    moreover have "{e. (v, e) \<in> set (xs @ [(u, d)])} = {e. (v, e) \<in> set xs}" "v \<in> fst ` set (xs @ [(u, d)]) \<longleftrightarrow> v \<in> fst ` set xs"
      using False by auto
    ultimately show ?thesis using inv [of v] unfolding merged_domain_def by presburger
  qed
qed

lemma merge_domains_Inr:
  assumes "foldE (merge_domain committed) ds allowed = Inr allowed'" "\<And>v. merged_domain committed xs allowed v" "distinct (map fst allowed)"
  shows "merged_domain committed (xs @ ds) allowed' v \<and> distinct (map fst allowed')"
  using assms
proof (induction ds arbitrary: allowed xs)
  case (Cons p ds)
  obtain u d where p: "p = (u, d)" by (cases p)
  obtain a1 where a1: "merge_domain committed (u, d) allowed = Inr a1" "foldE (merge_domain committed) ds a1 = Inr allowed'"
    using Cons.prems(1) p by auto
  note step = merge_domain_Inr [OF a1(1) Cons.prems(2,3)]
  show ?case using Cons.IH [OF a1(2) step(1) step(2)] by (simp add: p)
qed simp

lemma collect_Inr:
  assumes "foldE (merge_rule committed) rules acc = Inr res" "\<And>v. merged_domain committed xs (res_allowed acc) v" "distinct (map fst (res_allowed acc))"
  shows "merged_domain committed (xs @ rule_domains rules committed) (res_allowed res) v \<and> distinct (map fst (res_allowed res)) \<and>
     set (res_blocked res) = set (res_blocked acc) \<union> set (rule_blocked rules committed) \<and>
     (\<forall>u\<in>set (rule_blocked rules committed). dict_get committed u 1 \<le> 1)"
  using assms
proof (induction rules arbitrary: acc xs)
  case (Cons f rules)
  then obtain a1 where a1: "merge_rule committed f acc = Inr a1" "foldE (merge_rule committed) rules a1 = Inr res" by auto
  then obtain r al where r: "f committed = Inr r" "\<not> list_ex (\<lambda>s. dict_get committed s 1 > 1) (res_blocked r)"
    "foldE (merge_domain committed) (res_allowed r) (res_allowed acc) = Inr al"
    "a1 = \<lparr>res_blocked = res_blocked acc @ res_blocked r, res_allowed = al\<rparr>"
    unfolding merge_rule_def by (auto simp only: bindE_Inr_iff if_Inl_eq_Inr sum.inject)
  have m: "merged_domain committed (xs @ res_allowed r) (res_allowed a1) v \<and> distinct (map fst (res_allowed a1))" for v
    using merge_domains_Inr [OF r(3) Cons.prems(2,3)] by (simp add: r(4))
  have d: "rule_domains (f # rules) committed = res_allowed r @ rule_domains rules committed"
    "rule_blocked (f # rules) committed = res_blocked r @ rule_blocked rules committed"
    by (simp_all add: rule_domains_def rule_blocked_def r(1))
  have "merged_domain committed ((xs @ res_allowed r) @ rule_domains rules committed) (res_allowed res) v \<and> distinct (map fst (res_allowed res)) \<and>
     set (res_blocked res) = set (res_blocked a1) \<union> set (rule_blocked rules committed) \<and>
     (\<forall>u\<in>set (rule_blocked rules committed). dict_get committed u 1 \<le> 1)"
    by (rule Cons.IH [OF a1(2)]) (use m in auto)
  then show ?case using r(2) by (auto simp: d r(4) list_ex_iff not_less)
qed (simp add: rule_domains_def rule_blocked_def)

lemma collected_constraints:
  assumes "collect_work_division_constraints rules committed = Inr res"
  shows "merged_domain committed (rule_domains rules committed) (res_allowed res) v" "distinct (map fst (res_allowed res))"
    "set (res_blocked res) = set (rule_blocked rules committed)" "\<And>u. u \<in> set (res_blocked res) \<Longrightarrow> dict_get committed u 1 \<le> 1"
  using collect_Inr [OF assms [unfolded collect_work_division_constraints_def], of "[]" v] by (auto simp: merged_domain_def)

text \<open>
  The merged constraints are the conjunction of the rules' verdicts.  An axis is blocked exactly when
  some rule blocks it; its legal factors are the intersection of the domains the rules give it, never
  empty, and unrestricted exactly when no rule gives one; and the splits committed before fit: a blocked
  axis is unsplit and a committed factor lies in its axis's domain.
\<close>

theorem merged_constraints_conjoin_rules:
  assumes "collect_work_division_constraints rules committed = Inr res"
  shows "set (res_blocked res) = (\<Union>f\<in>set rules. set (res_blocked (projr (f committed)))) \<and>
     (\<forall>v. (map_of (res_allowed res) v = None) = (\<forall>f\<in>set rules. v \<notin> fst ` set (res_allowed (projr (f committed))))) \<and>
     (\<forall>v al. map_of (res_allowed res) v = Some al \<longrightarrow>
        al \<noteq> [] \<and> set al = (\<Inter>d\<in>{d. \<exists>f\<in>set rules. (v, d) \<in> set (res_allowed (projr (f committed)))}. set d)) \<and>
     (\<forall>v\<in>set (res_blocked res). dict_get committed v 1 \<le> 1) \<and>
     (\<forall>v c. map_of committed v = Some c \<longrightarrow> in_domain (res_allowed res) v c)"
proof -
  note c = collected_constraints [OF assms]
  have mem: "(v, d) \<in> set (rule_domains rules committed) \<longleftrightarrow> (\<exists>f\<in>set rules. (v, d) \<in> set (res_allowed (projr (f committed))))" for v d
    by (auto simp: rule_domains_def)
  have keys: "v \<in> fst ` set (rule_domains rules committed) \<longleftrightarrow> (\<exists>f\<in>set rules. v \<in> fst ` set (res_allowed (projr (f committed))))" for v
    by (auto simp: rule_domains_def image_iff)
  have free: "(map_of (res_allowed res) v = None) = (\<forall>f\<in>set rules. v \<notin> fst ` set (res_allowed (projr (f committed))))" for v
    using c(1) [of v] keys [of v] by (cases "map_of (res_allowed res) v") (simp_all add: merged_domain_def)
  have inter: "al \<noteq> [] \<and> set al = (\<Inter>d\<in>{d. \<exists>f\<in>set rules. (v, d) \<in> set (res_allowed (projr (f committed)))}. set d)"
    if "map_of (res_allowed res) v = Some al" for v al
    using c(1) [of v] that by (simp add: merged_domain_def mem)
  have fits: "in_domain (res_allowed res) v k" if "map_of committed v = Some k" for v k
    by (rule merged_in_domain [OF c(1) that])
  have blocked: "set (res_blocked res) = (\<Union>f\<in>set rules. set (res_blocked (projr (f committed))))"
    by (simp add: c(3) rule_blocked_def)
  show ?thesis
    by (intro conjI allI impI ballI) (fact blocked free c(4) fits | simp add: inter)+
qed

definition demo_rules :: "rule_fn list" where
  "demo_rules = [\<lambda>_. Inr \<lparr>res_blocked = [''k''], res_allowed = []\<rparr>, \<lambda>_. Inr \<lparr>res_blocked = [], res_allowed = [(''j'', [1, 2, 4])]\<rparr>,
     \<lambda>_. Inr \<lparr>res_blocked = [], res_allowed = [(''j'', [2, 4, 8])]\<rparr>]"

theorem merged_constraints_conjoin_rules_witness:
  "collect_work_division_constraints demo_rules [(''j'', 4)] = Inr \<lparr>res_blocked = [''k''], res_allowed = [(''j'', [2, 4])]\<rparr> \<and>
     set [''k''] = (\<Union>f\<in>set demo_rules. set (res_blocked (projr (f [(''j'', 4)]))))"
proof -
  have a: "collect_work_division_constraints demo_rules [(''j'', 4)] = Inr \<lparr>res_blocked = [''k''], res_allowed = [(''j'', [2, 4])]\<rparr>"
    by code_simp
  show ?thesis using conjunct1 [OF merged_constraints_conjoin_rules [OF a]] a by simp
qed

section \<open>The span search\<close>

definition combo_fits :: "span_request \<Rightarrow> string list \<Rightarrow> string splits \<Rightarrow> int list \<Rightarrow> bool" where
  "combo_fits q vars acc c \<longleftrightarrow> prod_list (map snd (commit_combo vars c acc)) \<le> sr_cores q"

definition combo_span :: "span_request \<Rightarrow> TensorDep \<Rightarrow> string list \<Rightarrow> string splits \<Rightarrow> int list \<Rightarrow> int" where
  "combo_span q td vars acc c = get_per_core_span td (commit_combo vars c acc) (sr_space q) (sr_meta q)"

definition best_within_of :: "span_request \<Rightarrow> TensorDep \<Rightarrow> string list \<Rightarrow> string splits \<Rightarrow> int list set \<Rightarrow> (int \<times> int list) option \<Rightarrow> bool" where
  "best_within_of q td vars acc C b \<longleftrightarrow>
     (case b of
        None \<Rightarrow> \<forall>c\<in>C. combo_fits q vars acc c \<longrightarrow> combo_span q td vars acc c > MAX_SPAN_BYTES
      | Some (s, c) \<Rightarrow> c \<in> C \<and> combo_fits q vars acc c \<and> s = combo_span q td vars acc c \<and> s \<le> MAX_SPAN_BYTES \<and>
          (\<forall>c'\<in>C. combo_fits q vars acc c' \<longrightarrow> combo_span q td vars acc c' \<le> MAX_SPAN_BYTES \<longrightarrow> prod_list c \<le> prod_list c'))"

definition best_over_of :: "span_request \<Rightarrow> TensorDep \<Rightarrow> string list \<Rightarrow> string splits \<Rightarrow> int list set \<Rightarrow> (int \<times> int list) option \<Rightarrow> bool" where
  "best_over_of q td vars acc C b \<longleftrightarrow>
     (case b of
        None \<Rightarrow> \<forall>c\<in>C. combo_fits q vars acc c \<longrightarrow> combo_span q td vars acc c \<le> MAX_SPAN_BYTES
      | Some (s, c) \<Rightarrow> c \<in> C \<and> combo_fits q vars acc c \<and> s = combo_span q td vars acc c \<and> s > MAX_SPAN_BYTES \<and>
          (\<forall>c'\<in>C. combo_fits q vars acc c' \<longrightarrow> combo_span q td vars acc c' > MAX_SPAN_BYTES \<longrightarrow> s \<le> combo_span q td vars acc c'))"

lemma best_within_insert:
  assumes "best_within_of q td vars acc C (Some (s, b))"
    and "combo_fits q vars acc c \<Longrightarrow> combo_span q td vars acc c \<le> MAX_SPAN_BYTES \<Longrightarrow> prod_list b \<le> prod_list c"
  shows "best_within_of q td vars acc (insert c C) (Some (s, b))"
  using assms by (auto simp: best_within_of_def)

lemma best_over_insert:
  assumes "best_over_of q td vars acc C (Some (s, b))"
    and "combo_fits q vars acc c \<Longrightarrow> combo_span q td vars acc c > MAX_SPAN_BYTES \<Longrightarrow> s \<le> combo_span q td vars acc c"
  shows "best_over_of q td vars acc (insert c C) (Some (s, b))"
  using assms by (auto simp: best_over_of_def)

lemma consider_combo_eq:
  "consider_combo q td vars acc c best =
     (if \<not> combo_fits q vars acc c then best
      else if combo_span q td vars acc c \<le> MAX_SPAN_BYTES
           then (case fst best of None \<Rightarrow> (Some (combo_span q td vars acc c, c), snd best)
                 | Some (bs, bc) \<Rightarrow> if prod_list c < prod_list bc \<or> (prod_list c = prod_list bc \<and> bs < combo_span q td vars acc c)
                     then (Some (combo_span q td vars acc c, c), snd best) else best)
           else (case snd best of None \<Rightarrow> (fst best, Some (combo_span q td vars acc c, c))
                 | Some (bs, bc) \<Rightarrow> if combo_span q td vars acc c < bs then (fst best, Some (combo_span q td vars acc c, c)) else best))"
  by (simp add: consider_combo_def Let_def combo_fits_def combo_span_def not_le split: option.split prod.split)

lemma consider_within:
  assumes inv: "best_within_of q td vars acc C (fst best)"
  shows "best_within_of q td vars acc (insert c C) (fst (consider_combo q td vars acc c best))"
proof (cases "combo_fits q vars acc c \<and> combo_span q td vars acc c \<le> MAX_SPAN_BYTES")
  case False
  then have "fst (consider_combo q td vars acc c best) = fst best" unfolding consider_combo_eq by (auto split: option.split)
  then show ?thesis using inv False by (cases "fst best") (auto simp: best_within_of_def)
next
  case True
  then show ?thesis
  proof (cases "fst best")
    case None
    then show ?thesis using True inv unfolding consider_combo_eq by (auto simp: best_within_of_def)
  next
    case (Some b)
    then obtain bs bc where b: "fst best = Some (bs, bc)" by (cases b) auto
    have e: "fst (consider_combo q td vars acc c best) =
        (if prod_list c < prod_list bc \<or> (prod_list c = prod_list bc \<and> bs < combo_span q td vars acc c) then Some (combo_span q td vars acc c, c) else fst best)"
      unfolding consider_combo_eq using True b by simp
    show ?thesis
    proof (cases "prod_list c < prod_list bc \<or> (prod_list c = prod_list bc \<and> bs < combo_span q td vars acc c)")
      case better: True
      then have le: "prod_list c \<le> prod_list bc" by auto
      have "\<forall>c'\<in>C. combo_fits q vars acc c' \<longrightarrow> combo_span q td vars acc c' \<le> MAX_SPAN_BYTES \<longrightarrow> prod_list bc \<le> prod_list c'"
        using inv by (simp add: b best_within_of_def)
      then show ?thesis using better True le unfolding e by (auto simp: best_within_of_def)
    next
      case False
      then show ?thesis unfolding e b if_not_P [OF False] using inv b by (intro best_within_insert) auto
    qed
  qed
qed

lemma consider_over:
  assumes inv: "best_over_of q td vars acc C (snd best)"
  shows "best_over_of q td vars acc (insert c C) (snd (consider_combo q td vars acc c best))"
proof (cases "combo_fits q vars acc c \<and> combo_span q td vars acc c > MAX_SPAN_BYTES")
  case False
  then have "snd (consider_combo q td vars acc c best) = snd best" unfolding consider_combo_eq by (auto split: option.split)
  then show ?thesis using inv False by (cases "snd best") (auto simp: best_over_of_def)
next
  case True
  then show ?thesis
  proof (cases "snd best")
    case None
    then show ?thesis using True inv unfolding consider_combo_eq by (auto simp: best_over_of_def)
  next
    case (Some b)
    then obtain bs bc where b: "snd best = Some (bs, bc)" by (cases b) auto
    have e: "snd (consider_combo q td vars acc c best) = (if combo_span q td vars acc c < bs then Some (combo_span q td vars acc c, c) else snd best)"
      unfolding consider_combo_eq using True b by simp
    show ?thesis
    proof (cases "combo_span q td vars acc c < bs")
      case better: True
      have "\<forall>c'\<in>C. combo_fits q vars acc c' \<longrightarrow> combo_span q td vars acc c' > MAX_SPAN_BYTES \<longrightarrow> bs \<le> combo_span q td vars acc c'"
        using inv by (auto simp: b best_over_of_def)
      then show ?thesis using better True unfolding e by (force simp: best_over_of_def)
    next
      case False
      then show ?thesis unfolding e b if_not_P [OF False] using inv b by (intro best_over_insert) auto
    qed
  qed
qed

lemma fold_consider:
  assumes "best_within_of q td vars acc C (fst best)" "best_over_of q td vars acc C (snd best)"
  shows "best_within_of q td vars acc (set cs \<union> C) (fst (fold (consider_combo q td vars acc) cs best)) \<and>
         best_over_of q td vars acc (set cs \<union> C) (snd (fold (consider_combo q td vars acc) cs best))"
  using assms
proof (induction cs arbitrary: best C)
  case (Cons c cs)
  from Cons.IH [OF consider_within [OF Cons.prems(1), of c] consider_over [OF Cons.prems(2), of c]] show ?case by simp
qed simp

lemma best_combo_found:
  assumes "best_combo q td vars acc = Some (s, c)"
  shows "c \<in> set (product_lists (map (valid_splits q acc) vars))" "combo_fits q vars acc c" "s = combo_span q td vars acc c"
    "s \<le> MAX_SPAN_BYTES \<Longrightarrow> c' \<in> set (product_lists (map (valid_splits q acc) vars)) \<Longrightarrow> combo_fits q vars acc c' \<Longrightarrow>
       combo_span q td vars acc c' \<le> MAX_SPAN_BYTES \<Longrightarrow> prod_list c \<le> prod_list c'"
    "\<not> s \<le> MAX_SPAN_BYTES \<Longrightarrow> c' \<in> set (product_lists (map (valid_splits q acc) vars)) \<Longrightarrow> combo_fits q vars acc c' \<Longrightarrow>
       s \<le> combo_span q td vars acc c'"
proof -
  let ?C = "set (product_lists (map (valid_splits q acc) vars))"
  let ?r = "fold (consider_combo q td vars acc) (product_lists (map (valid_splits q acc) vars)) (None, None)"
  have inv: "best_within_of q td vars acc ?C (fst ?r)" "best_over_of q td vars acc ?C (snd ?r)"
    using fold_consider [of q td vars acc "{}" "(None, None)"] by (simp_all add: best_within_of_def best_over_of_def)
  consider "fst ?r = Some (s, c)" | "fst ?r = None" "snd ?r = Some (s, c)"
    using assms by (cases ?r) (auto simp: best_combo_def split: option.split_asm)
  then have "c \<in> ?C \<and> combo_fits q vars acc c \<and> s = combo_span q td vars acc c \<and>
     (\<forall>c'\<in>?C. combo_fits q vars acc c' \<longrightarrow>
        (s \<le> MAX_SPAN_BYTES \<longrightarrow> combo_span q td vars acc c' \<le> MAX_SPAN_BYTES \<longrightarrow> prod_list c \<le> prod_list c') \<and>
        (\<not> s \<le> MAX_SPAN_BYTES \<longrightarrow> s \<le> combo_span q td vars acc c'))"
  proof cases
    case 1
    then show ?thesis using inv(1) by (simp add: best_within_of_def)
  next
    case 2
    then show ?thesis using inv by (auto simp: best_within_of_def best_over_of_def)
  qed
  then show "c \<in> ?C" "combo_fits q vars acc c" "s = combo_span q td vars acc c"
    "s \<le> MAX_SPAN_BYTES \<Longrightarrow> c' \<in> ?C \<Longrightarrow> combo_fits q vars acc c' \<Longrightarrow> combo_span q td vars acc c' \<le> MAX_SPAN_BYTES \<Longrightarrow> prod_list c \<le> prod_list c'"
    "\<not> s \<le> MAX_SPAN_BYTES \<Longrightarrow> c' \<in> ?C \<Longrightarrow> combo_fits q vars acc c' \<Longrightarrow> s \<le> combo_span q td vars acc c'"
    by blast+
qed

text \<open>
  C35: The search over joint splits is optimal.  When it finds a combination, that combination consists of
  valid factors and fits the cores; if its span is within the limit, no valid fitting combination within
  the limit has a smaller product of factors, and otherwise none is within the limit and none has a
  smaller span.  It finds nothing only when no valid combination fits the cores.
\<close>

theorem span_search_optimal:
  "case best_combo q td vars acc of
     None \<Rightarrow> \<forall>c\<in>set (product_lists (map (valid_splits q acc) vars)). \<not> combo_fits q vars acc c
   | Some (s, c) \<Rightarrow> c \<in> set (product_lists (map (valid_splits q acc) vars)) \<and> combo_fits q vars acc c \<and> s = combo_span q td vars acc c \<and>
       (\<forall>c'\<in>set (product_lists (map (valid_splits q acc) vars)). combo_fits q vars acc c' \<longrightarrow>
          (if s \<le> MAX_SPAN_BYTES then combo_span q td vars acc c' \<le> MAX_SPAN_BYTES \<longrightarrow> prod_list c \<le> prod_list c'
           else s \<le> combo_span q td vars acc c'))"
proof (cases "best_combo q td vars acc")
  case None
  let ?r = "fold (consider_combo q td vars acc) (product_lists (map (valid_splits q acc) vars)) (None, None)"
  have "?r = (None, None)" using None by (cases ?r) (auto simp: best_combo_def split: option.split_asm)
  then show ?thesis using fold_consider [of q td vars acc "{}" "(None, None)" "product_lists (map (valid_splits q acc) vars)"] None
    by (fastforce simp: best_within_of_def best_over_of_def)
next
  case (Some sc)
  then obtain s c where e: "best_combo q td vars acc = Some (s, c)" by (cases sc) auto
  show ?thesis unfolding e option.case prod.case using best_combo_found [OF e] by auto
qed

definition wide_td :: TensorDep where
  "wide_td = \<lparr>device_coords = [row_coord ''i'', row_coord ''j''], td_device_size = [4, 64], td_itemsize = 2097152,
     td_elems_per_stick = 64, is_qfp8wt = False\<rparr>"

definition demo_span_request :: span_request where
  "demo_span_request = \<lparr>sr_space = [(''i'', 4), (''j'', 64)], sr_adjusted = [(''i'', 4), (''j'', 1)], sr_sticks = [(''j'', 64)],
     sr_cores = 32, sr_meta = [], sr_allowed = [], sr_blocked = []\<rparr>"

theorem span_search_optimal_witness:
  "best_combo demo_span_request wide_td [''i''] [] = Some (268435456, [2]) \<and> combo_fits demo_span_request [''i''] [] [2]"
proof -
  have e: "best_combo demo_span_request wide_td [''i''] [] = Some (268435456, [2])" by code_simp
  show ?thesis using span_search_optimal [where q = demo_span_request and td = wide_td and vars = "[''i'']" and acc = "[]"] e by simp
qed

subsection \<open>The demanded splits\<close>

lemma fold_update_lookup:
  "map_of (fold (\<lambda>(v, s). AList.update v s) zs acc) v = map_of acc v \<or>
   (\<exists>s. map_of (fold (\<lambda>(v, s). AList.update v s) zs acc) v = Some s \<and> (v, s) \<in> set zs)"
proof (induction zs arbitrary: acc)
  case (Cons p zs)
  obtain u n where p: "p = (u, n)" by (cases p)
  show ?case using Cons.IH [of "AList.update u n acc"] by (auto simp: p map_of_update_iff split: if_splits)
qed simp

lemma commit_combo_lookup:
  "map_of (commit_combo vars c acc) v = map_of acc v \<or> (\<exists>s. map_of (commit_combo vars c acc) v = Some s \<and> (v, s) \<in> set (zip vars c))"
  unfolding commit_combo_def by (rule fold_update_lookup)

lemma commit_combo_distinct: "distinct (map fst acc) \<Longrightarrow> distinct (map fst (commit_combo vars c acc))"
proof -
  have "distinct (map fst acc) \<Longrightarrow> distinct (map fst (fold (\<lambda>(v, s). AList.update v s) zs acc))" for zs :: "(string \<times> int) list"
    by (induction zs arbitrary: acc) (auto simp: distinct_update)
  then show "distinct (map fst acc) \<Longrightarrow> distinct (map fst (commit_combo vars c acc))" by (simp add: commit_combo_def)
qed

lemma zip_product_lists: "c \<in> set (product_lists (map f vars)) \<Longrightarrow> (v, s) \<in> set (zip vars c) \<Longrightarrow> s \<in> set (f v)"
  by (auto simp: product_lists_set list_all2_conv_all_nth in_set_zip)

definition span_factors :: "span_request \<Rightarrow> string \<Rightarrow> int list" where
  "span_factors q v =
     (if v \<in> set (sr_blocked q) then [1]
      else legal_split_factors v (axis_basis (sr_meta q) (sr_sticks q) (sr_adjusted q) (sr_space q) v) (sr_allowed q) [])"

definition span_ok :: "span_request \<Rightarrow> string splits \<Rightarrow> bool" where
  "span_ok q acc \<longleftrightarrow> distinct (map fst acc) \<and> (acc = [] \<or> prod_list (map snd acc) \<le> sr_cores q) \<and>
     (\<forall>v s. map_of acc v = Some s \<longrightarrow> s \<in> set (span_factors q v))"

definition grows :: "string splits \<Rightarrow> string splits \<Rightarrow> bool" where
  "grows a b \<longleftrightarrow> (\<forall>v. dict_get a v 1 \<le> dict_get b v 1)"

lemma valid_splits_factors:
  assumes "s \<in> set (valid_splits q acc v)" "span_ok q acc"
  shows "s \<in> set (span_factors q v)" "dict_get acc v 1 \<le> s"
proof -
  show "s \<in> set (span_factors q v)" using assms(1) by (auto simp: valid_splits_def span_factors_def split: if_split_asm)
  show "dict_get acc v 1 \<le> s"
    using assms by (cases "map_of acc v") (auto simp: valid_splits_def span_ok_def span_factors_def dict_get_def split: if_split_asm)
qed

lemma span_ok_commit:
  assumes ok: "span_ok q acc" and b: "best_combo q td vars acc = Some (s, c)"
  shows "span_ok q (commit_combo vars c acc) \<and> grows acc (commit_combo vars c acc)"
proof -
  note f = best_combo_found [OF b]
  let ?new = "commit_combo vars c acc"
  have entry: "n \<in> set (span_factors q v) \<and> dict_get acc v 1 \<le> n" if v: "map_of ?new v = Some n" for v n
  proof (cases "map_of ?new v = map_of acc v")
    case True
    then show ?thesis using v ok by (simp add: span_ok_def dict_get_def)
  next
    case False
    then have "(v, n) \<in> set (zip vars c)" using commit_combo_lookup [of vars c acc v] v by auto
    from zip_product_lists [OF f(1) this] show ?thesis using valid_splits_factors [OF _ ok] by blast
  qed
  have "dict_get acc v 1 \<le> dict_get ?new v 1" for v
  proof (cases "map_of ?new v")
    case None
    then have "map_of acc v = None" using commit_combo_lookup [of vars c acc v] by auto
    then show ?thesis using None by (simp add: dict_get_def)
  next
    case (Some n)
    then show ?thesis using entry by (simp add: dict_get_def [of ?new])
  qed
  moreover have "distinct (map fst ?new)" using ok by (intro commit_combo_distinct) (simp add: span_ok_def)
  ultimately show ?thesis using entry f(2) by (simp add: span_ok_def grows_def combo_fits_def)
qed

lemma grows_trans: "grows a b \<Longrightarrow> grows b c \<Longrightarrow> grows a c"
  by (fastforce simp: grows_def intro: order_trans)

lemma split_coords_ok:
  assumes "split_coords q td cs acc = Inr acc'" "span_ok q acc"
  shows "span_ok q acc' \<and> grows acc acc'"
  using assms
proof (induction q td cs acc rule: split_coords.induct)
  case (2 q td c cs acc)
  let ?vars = "span_split_vars q c"
  show ?case
  proof (cases "?vars = []")
    case True
    then show ?thesis using 2 by simp
  next
    case nv: False
    then have ne: "\<not> list_ex (\<lambda>v. valid_splits q acc v = []) ?vars" using "2.prems"(1) by (auto simp: Let_def split: if_split_asm)
    show ?thesis
    proof (cases "best_combo q td ?vars acc")
      case None
      then show ?thesis using "2.prems" nv ne by (simp add: Let_def grows_def)
    next
      case (Some sc)
      then obtain s k where e: "best_combo q td ?vars acc = Some (s, k)" by (cases sc) auto
      note ok = span_ok_commit [OF "2.prems"(2) e]
      let ?new = "commit_combo ?vars k acc"
      show ?thesis
      proof (cases "s \<le> MAX_SPAN_BYTES \<or> coord_still_wide q c ?new")
        case True
        then have "acc' = ?new" using "2.prems"(1) nv ne e by (auto simp: Let_def split: if_split_asm)
        then show ?thesis using ok by simp
      next
        case False
        then have "split_coords q td cs ?new = Inr acc'" using "2.prems"(1) nv ne e by (simp add: Let_def)
        from "2.IH"(2) [OF refl nv ne e refl refl _ _ this] False ok show ?thesis using grows_trans by blast
      qed
    qed
  qed
qed (simp add: grows_def)

lemma must_split_ok:
  assumes "must_split_vars q tds = Inr acc"
  shows "span_ok q acc"
proof -
  have "span_ok q a \<Longrightarrow> foldE (\<lambda>td a. if get_per_core_span td a (sr_space q) (sr_meta q) \<le> MAX_SPAN_BYTES then Inr a
        else split_coords q td (butlast (device_coords td)) a) tds a = Inr acc \<Longrightarrow> span_ok q acc" for a
  proof (induction tds arbitrary: a)
    case (Cons td tds)
    show ?case
    proof (cases "get_per_core_span td a (sr_space q) (sr_meta q) \<le> MAX_SPAN_BYTES")
      case False
      then obtain x where x: "split_coords q td (butlast (device_coords td)) a = Inr x"
        and rest: "foldE (\<lambda>td a. if get_per_core_span td a (sr_space q) (sr_meta q) \<le> MAX_SPAN_BYTES then Inr a
           else split_coords q td (butlast (device_coords td)) a) tds x = Inr acc" using Cons.prems(2) by auto
      show ?thesis by (rule Cons.IH [OF _ rest]) (use split_coords_ok [OF x Cons.prems(1)] in simp)
    qed (use Cons in simp)
  qed simp
  from this [of "[]"] show ?thesis using assms by (simp add: must_split_vars_def span_ok_def)
qed

section \<open>Committed ownership\<close>

definition division_ok :: "itspace \<Rightarrow> int \<Rightarrow> string TensorWorkDivision \<Rightarrow> bool" where
  "division_ok axes cores d \<longleftrightarrow>
     map fst (work_slices d) = map fst axes \<and> list_all (\<lambda>vs. 1 \<le> snd vs) (work_slices d) \<and>
     physical_core_count d = prod_list (map snd (work_slices d)) \<and> physical_core_count d \<le> cores \<and>
     bij_betw (slots_at (core_id_to_work_slice d) (map fst axes)) {0..<physical_core_count d} (slot_space (map snd (work_slices d)))"

lemma dict_get_ge1: "list_all (\<lambda>vs. 1 \<le> snd vs) splits \<Longrightarrow> (1 :: int) \<le> dict_get splits v 1"
  using map_of_SomeD [of splits v] by (cases "map_of splits v") (force simp: dict_get_def list_all_iff)+

lemma prod_lookup_le:
  fixes splits :: "string splits"
  assumes ks: "distinct ks" and d: "distinct (map fst splits)" and pos: "list_all (\<lambda>vs. 1 \<le> snd vs) splits"
  shows "prod_list (map (\<lambda>v. dict_get splits v 1) ks) \<le> prod_list (map snd splits)"
proof -
  let ?g = "\<lambda>v. dict_get splits v (1 :: int)" and ?K = "set (map fst splits)"
  note ge = dict_get_ge1 [OF pos]
  have e: "map snd splits = map ?g (map fst splits)"
    using d by (auto simp: dict_get_def)
  have all: "prod_list (map snd splits) = (\<Prod>v\<in>?K. ?g v)" unfolding e prod.distinct_set_conv_list [OF d] ..
  have out: "?g v = 1" if "v \<notin> ?K" for v using that by (simp add: dict_get_def map_of_eq_None_iff [THEN iffD2])
  have "prod_list (map ?g ks) = (\<Prod>v\<in>set ks. ?g v)" using prod.distinct_set_conv_list [OF ks, of ?g] by simp
  also have "\<dots> = (\<Prod>v\<in>set ks \<inter> ?K. ?g v)" by (rule prod.mono_neutral_right) (auto simp: out)
  also have "\<dots> \<le> (\<Prod>v\<in>?K. ?g v)" using ge by (intro prod_mono2) (auto intro: order_trans [of 0 1])
  finally show ?thesis by (simp add: all)
qed

lemma ownership_facts:
  assumes own: "make_iteration_space_ownership op splits = Inr d" and ax: "distinct (map fst (op_it_space op))"
    and sp: "distinct (map fst splits)" "list_all (\<lambda>vs. 1 \<le> snd vs) splits" "prod_list (map snd splits) \<le> cores"
  shows "division_ok (op_it_space op) cores d" "\<And>v. v \<in> fst ` set (op_it_space op) \<Longrightarrow> map_of (work_slices d) v = Some (dict_get splits v 1)"
proof -
  let ?g = "\<lambda>v. dict_get splits v (1 :: int)"
  let ?sl = "map (\<lambda>vs. (fst vs, ?g (fst vs))) (op_it_space op)"
  from own obtain own' where m: "core_to_slice_mapping (map fst (op_it_space op)) (map snd ?sl) (prod_list (map snd ?sl))
      (if op_k_fast_matmul op then Some (length (map snd ?sl) - 1) else None) = Inr own'"
    and d: "d = \<lparr>work_slices = ?sl, core_id_to_work_slice = own', division_cores = Some (prod_list (map snd ?sl))\<rparr>"
    by (auto simp: make_iteration_space_ownership_def Let_def)
  note ge = dict_get_ge1 [OF sp(2)]
  have snds: "map snd ?sl = map ?g (map fst (op_it_space op))" by simp
  have pos: "list_all (\<lambda>s. 0 < s) (map snd ?sl)" using ge by (auto simp: list_all_iff intro: less_le_trans [OF zero_less_one])
  have "prod_list (map snd ?sl) \<le> cores" unfolding snds using prod_lookup_le [OF ax sp(1,2)] sp(3) by linarith
  then show "division_ok (op_it_space op) cores d"
    using core_to_slice_bij [OF m ax pos refl] ge by (simp add: division_ok_def d physical_core_count_def list_all_iff comp_def)
  fix v assume v: "v \<in> fst ` set (op_it_space op)"
  have "map_of (map (\<lambda>vs. (fst vs, ?g (fst vs))) xs) v = (if v \<in> fst ` set xs then Some (?g v) else None)" for xs :: itspace
    by (induction xs) auto
  then show "map_of (work_slices d) v = Some (?g v)" using v by (simp add: d)
qed

lemma card_split_reductions:
  fixes splits :: "string splits"
  shows "card {v. dict_get splits v 1 > 1 \<and> v \<notin> coord_vars output} \<le> length (filter (\<lambda>vs. snd vs > 1 \<and> fst vs \<notin> coord_vars output) splits)"
proof -
  let ?R = "filter (\<lambda>vs. snd vs > 1 \<and> fst vs \<notin> coord_vars output) splits"
  have "{v. dict_get splits v 1 > 1 \<and> v \<notin> coord_vars output} \<subseteq> fst ` set ?R"
    by (force simp: dict_get_def split: option.split_asm dest: map_of_SomeD)
  then have "card {v. dict_get splits v 1 > 1 \<and> v \<notin> coord_vars output} \<le> card (fst ` set ?R)" by (rule card_mono [rotated]) simp
  also have "\<dots> \<le> length ?R" using card_image_le [of "set ?R" fst] card_length [of ?R] by simp
  finally show ?thesis .
qed

lemma span_pass_Inr:
  assumes pass: "span_reduction_pass op cores = Inr op'" and ax: "distinct (map fst (op_it_space op))" and c: "1 \<le> cores"
  shows "\<exists>d. op' = op\<lparr>op_span_min := op_span_min op', op_ownership := Some d\<rparr> \<and> division_ok (op_it_space op) cores d \<and>
     (\<forall>v\<in>fst ` set (op_it_space op). map_of (work_slices d) v = Some (dict_get (op_span_min op') v 1)) \<and>
     distinct (map fst (op_span_min op')) \<and>
     card {v. dict_get (op_span_min op') v 1 > 1 \<and> v \<notin> coord_vars (op_output op)} \<le> 1"
proof -
  from pass obtain adjusted sticks cr ms d where
      "adjust_it_space_for_sticks (op_it_space op) (all_tds op) (op_meta op) = Inr (adjusted, sticks)"
    and "collect_work_division_constraints (op_rules op) [] = Inr cr"
    and ms: "must_split_vars \<lparr>sr_space = op_it_space op, sr_adjusted = adjusted, sr_sticks = sticks, sr_cores = cores,
              sr_meta = op_meta op, sr_allowed = res_allowed cr, sr_blocked = res_blocked cr\<rparr> (all_tds op) = Inr ms"
    and red: "\<not> length (filter (\<lambda>vs. snd vs > 1 \<and> fst vs \<notin> coord_vars (op_output op)) ms) > 1"
    and d: "make_iteration_space_ownership (op\<lparr>op_span_min := ms\<rparr>) ms = Inr d"
    and op': "op' = op\<lparr>op_span_min := ms, op_ownership := Some d\<rparr>"
    unfolding span_reduction_pass_def apply_splits_def by (auto simp: if_Inl_eq_Inr simp del: not_less)
  note ok = must_split_ok [OF ms, unfolded span_ok_def, simplified]
  have ge: "list_all (\<lambda>vs. 1 \<le> snd vs) ms"
  proof -
    have "1 \<le> n" if "(v, n) \<in> set ms" for v n
      using ok that sympy_divisors_pos by (fastforce simp: span_factors_def mem_legal_split_factors split: if_split_asm)
    then show ?thesis by (auto simp: list_all_iff)
  qed
  have "prod_list (map snd ms) \<le> cores" using ok c by auto
  then have own: "division_ok (op_it_space op) cores d"
    "\<And>v. v \<in> fst ` set (op_it_space op) \<Longrightarrow> map_of (work_slices d) v = Some (dict_get ms v 1)"
    using ownership_facts [OF d _ _ ge] ax ok by auto
  have "card {v. dict_get ms v 1 > 1 \<and> v \<notin> coord_vars (op_output op)} \<le> 1"
    using card_split_reductions [of ms "op_output op"] red by simp
  then show ?thesis using own ok op' by (intro exI [of _ d]) simp
qed

section \<open>User hints\<close>

definition hint_ok :: "hint_request \<Rightarrow> string splits \<times> int \<Rightarrow> bool" where
  "hint_ok h st \<longleftrightarrow> distinct (map fst (fst st)) \<and> fst ` set (fst st) \<subseteq> fst ` set (hr_adjusted h) \<and>
     snd st = prod_list (map snd (fst st)) \<and> snd st \<le> hr_cores h \<and>
     list_all (\<lambda>vs. 1 \<le> snd vs \<and> snd vs dvd dict_get (hr_adjusted h) (fst vs) 1 \<and> (fst vs \<in> set (hr_blocked h) \<longrightarrow> snd vs = 1)) (fst st)"

lemma update_fresh: "map_of splits v = None \<Longrightarrow> AList.update v s splits = splits @ [(v, s)]"
  by (induction splits) auto

lemma hint_step_ok:
  assumes st: "hint_step h sv st = Inr st'" and ok: "hint_ok h st" and fresh: "fst sv \<notin> fst ` set (fst st)"
  shows "hint_ok h st' \<and> fst ` set (fst st') \<subseteq> insert (fst sv) (fst ` set (fst st))"
proof (cases "snd sv")
  case (HInt split)
  have g: "1 \<le> split" "map_of (hr_adjusted h) (fst sv) \<noteq> None" "\<not> (split > 1 \<and> fst sv \<in> set (hr_blocked h))"
    using st HInt by (auto simp: hint_step_def split: if_split_asm)
  show ?thesis
  proof (cases "snd st * split > hr_cores h")
    case True
    then have "st' = st" using st HInt by (auto simp: hint_step_def split: if_split_asm)
    then show ?thesis using ok by auto
  next
    case False
    then have e: "st' = (AList.update (fst sv) split (fst st), snd st * split)" and dv: "split dvd dict_get (hr_adjusted h) (fst sv) 1"
      using st HInt by (auto simp: hint_step_def dvd_eq_mod_eq_0 split: if_split_asm)
    have n: "map_of (fst st) (fst sv) = None" using fresh by (simp add: map_of_eq_None_iff)
    have key: "fst sv \<in> fst ` set (hr_adjusted h)" using g(2) by (simp add: map_of_eq_None_iff)
    show ?thesis using ok g dv False fresh key
      by (auto simp: e hint_ok_def update_fresh [OF n] mult.commute)
  qed
qed (use st in \<open>simp add: hint_step_def\<close>)

lemma hint_steps_ok:
  assumes "foldE (hint_step h) us st = Inr st'" "hint_ok h st" "distinct (map fst us)" "fst ` set us \<inter> fst ` set (fst st) = {}"
  shows "hint_ok h st'"
  using assms
proof (induction us arbitrary: st)
  case (Cons u us)
  then obtain s1 where s1: "hint_step h u st = Inr s1" "foldE (hint_step h) us s1 = Inr st'" by auto
  have "fst u \<notin> fst ` set (fst st)" using Cons.prems(4) by auto
  note ok = hint_step_ok [OF s1(1) Cons.prems(2) this]
  have "x \<notin> fst ` set (fst s1)" if x: "x \<in> fst ` set us" for x
  proof
    assume "x \<in> fst ` set (fst s1)"
    then have "x = fst u \<or> x \<in> fst ` set (fst st)" using subsetD [OF conjunct2 [OF ok]] by simp
    moreover have "x \<noteq> fst u" using Cons.prems(3) x by (cases "x = fst u") simp_all
    moreover have "x \<in> fst ` set (u # us)" using x by simp
    ultimately show False using Cons.prems(4) by blast
  qed
  then have "fst ` set us \<inter> fst ` set (fst s1) = {}" by blast
  then show ?case using Cons.IH [OF s1(2)] ok Cons.prems(3) by simp
qed simp

lemma apply_hint_Inr:
  assumes h: "apply_user_hint h output us = Inr splits" and d: "distinct (map fst us)" and c: "1 \<le> hr_cores h"
  shows "hint_ok h (splits, prod_list (map snd splits))" "\<And>v al. (v, al) \<in> set (hr_allowed h) \<Longrightarrow> dict_get splits v 1 \<in> set al"
    "\<And>v n. (v, n) \<in> set (hr_min h) \<Longrightarrow> n \<le> dict_get splits v 1"
    "card {v. dict_get splits v 1 > 1 \<and> v \<notin> coord_vars output} \<le> 1"
proof -
  from h obtain used where f: "foldE (hint_step h) us ([], 1) = Inr (splits, used)"
    and red: "\<not> length (filter (\<lambda>vs. snd vs > 1 \<and> fst vs \<notin> coord_vars output) splits) > 1"
    and dom: "\<not> list_ex (\<lambda>va. dict_get splits (fst va) 1 \<notin> set (snd va)) (hr_allowed h)"
      "\<not> list_ex (\<lambda>vm. dict_get splits (fst vm) 1 < snd vm) (hr_min h)"
    unfolding apply_user_hint_def by (auto simp: if_Inl_eq_Inr simp del: not_less)
  have "hint_ok h (splits, used)" by (rule hint_steps_ok [OF f _ d]) (use c in \<open>simp_all add: hint_ok_def\<close>)
  then show "hint_ok h (splits, prod_list (map snd splits))" by (simp add: hint_ok_def)
  show "dict_get splits v 1 \<in> set al" if "(v, al) \<in> set (hr_allowed h)" for v al using dom(1) that by (auto simp: list_ex_iff)
  show "n \<le> dict_get splits v 1" if "(v, n) \<in> set (hr_min h)" for v n using dom(2) that by (fastforce simp: list_ex_iff not_less)
  show "card {v. dict_get splits v 1 > 1 \<and> v \<notin> coord_vars output} \<le> 1" using card_split_reductions [of splits "output"] red by simp
qed

section \<open>The passes together\<close>

definition rules_wf :: "rule_fn list \<Rightarrow> string set \<Rightarrow> bool" where
  "rules_wf rules axes \<longleftrightarrow> (\<forall>f\<in>set rules. \<forall>c r. f c = Inr r \<longrightarrow> (\<forall>(v, d)\<in>set (res_allowed r). v \<in> axes \<and> (\<forall>s\<in>set d. 1 \<le> s)))"

lemma collected_rules_return: "foldE (merge_rule committed) rules acc = Inr res \<Longrightarrow> \<forall>f\<in>set rules. \<exists>r. f committed = Inr r"
proof (induction rules arbitrary: acc)
  case (Cons f rules)
  then obtain a1 where a1: "merge_rule committed f acc = Inr a1" "foldE (merge_rule committed) rules a1 = Inr res" by auto
  then have "\<exists>r. f committed = Inr r" unfolding merge_rule_def by auto
  then show ?case using Cons.IH [OF a1(2)] by simp
qed simp

lemma collected_domains_wf:
  assumes c: "collect_work_division_constraints rules committed = Inr res" and wf: "rules_wf rules axes"
  shows "list_all (\<lambda>va. list_all (\<lambda>s. 1 \<le> s) (snd va)) (res_allowed res)" "fst ` set (res_allowed res) \<subseteq> axes"
proof -
  note cc = collected_constraints [OF c]
  have R: "\<forall>f\<in>set rules. \<exists>r. f committed = Inr r" using c unfolding collect_work_division_constraints_def by (rule collected_rules_return)
  have "v \<in> axes \<and> (\<forall>s\<in>set al. 1 \<le> s)" if m: "(v, al) \<in> set (res_allowed res)" for v al
  proof -
    have "map_of (res_allowed res) v = Some al" using m cc(2) by simp
    then have k: "v \<in> fst ` set (rule_domains rules committed)" and al: "set al = (\<Inter>d\<in>{d. (v, d) \<in> set (rule_domains rules committed)}. set d)"
      using cc(1) [of v] by (simp_all add: merged_domain_def)
    from k obtain d where d: "(v, d) \<in> set (rule_domains rules committed)" by auto
    then obtain f where f: "f \<in> set rules" "(v, d) \<in> set (res_allowed (projr (f committed)))" by (auto simp: rule_domains_def)
    then obtain r where r: "f committed = Inr r" using R by blast
    then have "v \<in> axes \<and> (\<forall>s\<in>set d. 1 \<le> s)" using wf f unfolding rules_wf_def by fastforce
    moreover have "set al \<subseteq> set d" unfolding al using d by blast
    ultimately show ?thesis by blast
  qed
  then show "list_all (\<lambda>va. list_all (\<lambda>s. 1 \<le> s) (snd va)) (res_allowed res)" "fst ` set (res_allowed res) \<subseteq> axes"
    by (auto simp: list_all_iff)
qed

lemma commit_tail:
  assumes t: "bindE (apply_splits op splits) (check_overflow splits) = Inr op'" and ax: "distinct (map fst (op_it_space op))"
    and sp: "distinct (map fst splits)" "list_all (\<lambda>vs. 1 \<le> snd vs) splits" "prod_list (map snd splits) \<le> cores"
    and keys: "fst ` set splits \<subseteq> fst ` set (op_it_space op)"
  shows "\<exists>d. op_ownership op' = Some d \<and> division_ok (op_it_space op) cores d \<and> (\<forall>v. dict_get (work_slices d) v 1 = dict_get splits v 1) \<and>
     (\<forall>td\<in>set (all_tds op). \<not> is_indirectly_accessed td \<longrightarrow> get_per_core_span td (work_slices d) (op_it_space op) (op_meta op) \<le> MAX_SPAN_BYTES)"
proof -
  from t obtain d where d: "make_iteration_space_ownership op splits = Inr d"
    and o: "raise_if_per_core_overflow (all_tds op) (op_it_space op) splits (op_meta op) = Inr ()" "op' = op\<lparr>op_ownership := Some d\<rparr>"
    by (auto simp: apply_splits_def check_overflow_def all_tds_def)
  note own = ownership_facts [OF d ax sp]
  have same: "dict_get (work_slices d) v 1 = dict_get splits v 1" for v
  proof (cases "v \<in> fst ` set (op_it_space op)")
    case False
    moreover have "fst ` set (work_slices d) = fst ` set (op_it_space op)" using own(1) by (metis division_ok_def set_map)
    ultimately have "map_of (work_slices d) v = None" "map_of splits v = None" using keys by (auto simp: map_of_eq_None_iff)
    then show ?thesis by (simp add: dict_get_def)
  qed (simp add: own(2) dict_get_def [of "work_slices d"])
  have "get_per_core_span td (work_slices d) (op_it_space op) (op_meta op) \<le> MAX_SPAN_BYTES"
    if td: "td \<in> set (all_tds op)" "\<not> is_indirectly_accessed td" for td
    using bspec [OF o(1) [unfolded raise_if_per_core_overflow_def forE_Inr_iff] td(1)] td(2) get_per_core_span_cong [OF same, of td]
    by (simp split: if_split_asm)
  then show ?thesis using own(1) same o(2) by (intro exI [of _ d]) simp
qed

lemma default_split_Inr:
  assumes s: "default_split op adjusted committed cores blocked allowed = Inr splits"
    and wf: "request_wf \<lparr>req_space = adjusted, req_meta = op_meta op, req_cores = cores, req_min = committed, req_allowed = allowed\<rparr>"
  shows "distinct (map fst splits) \<and> prod_list (map snd splits) \<le> cores \<and> list_all (\<lambda>vs. 1 \<le> snd vs) splits \<and>
     fst ` set splits \<subseteq> fst ` set adjusted \<union> fst ` set committed \<union> fst ` set allowed \<and>
     (\<forall>v. dict_get committed v 1 \<le> dict_get splits v 1 \<and> in_domain allowed v (dict_get splits v 1))"
proof -
  let ?r = "\<lparr>req_space = adjusted, req_meta = op_meta op, req_cores = cores, req_min = committed, req_allowed = allowed\<rparr>"
  obtain os rs where p: "prioritize_indirect_scatter_dimensions (op_entry_syms op) (op_output op) adjusted (op_meta op) = (os, rs)"
    by (cases "prioritize_indirect_scatter_dimensions (op_entry_syms op) (op_output op) adjusted (op_meta op)")
  let ?cr = "filter (\<lambda>v. v \<notin> coord_vars (op_output op)) (map fst committed)"
  let ?reds = "if ?cr \<noteq> [] then filter (\<lambda>v. v \<in> set ?cr) rs else rs"
  have dj: "set os \<inter> set rs = {}"
    using p by (auto simp: prioritize_indirect_scatter_dimensions_def prioritize_dimensions_def Let_def)
  have m: "multi_dim_iteration_space_split ?r (filter (\<lambda>v. v \<notin> set blocked) os) (filter (\<lambda>v. v \<notin> set blocked) ?reds) = Inr splits"
    using s p by (simp add: default_split_def Let_def)
  have "set (filter (\<lambda>v. v \<notin> set blocked) os) \<inter> set (filter (\<lambda>v. v \<notin> set blocked) ?reds) = {}" using dj by auto
  note D = distributed_splits [OF wf this m]
  obtain m' where m': "mandatory_splits ?r = Inr m'" using m by (auto simp: multi_dim_iteration_space_split_def)
  have mk: "fst ` set m' \<subseteq> fst ` set committed \<union> fst ` set allowed"
  proof
    fix v assume "v \<in> fst ` set m'"
    then obtain n where "map_of m' v = Some n" by (cases "map_of m' v") (auto simp: map_of_eq_None_iff)
    then show "v \<in> fst ` set committed \<union> fst ` set allowed"
      using mandatory_splits_Inr(5) [OF wf m', of v n] by (cases "map_of committed v") (auto simp: map_of_eq_None_iff intro: rev_image_eqI dest: map_of_SomeD)
  qed
  have ge: "1 \<le> n" if "(v, n) \<in> set splits" for v n
  proof -
    have "dict_get splits v 1 = n" using D that by (auto simp: dict_get_def)
    then show ?thesis using D by metis
  qed
  then have "list_all (\<lambda>vs. 1 \<le> snd vs) splits" by (auto simp: list_all_iff)
  moreover have "fst ` set splits \<subseteq> fst ` set adjusted \<union> fst ` set committed \<union> fst ` set allowed" using D mk by (auto simp: m')
  ultimately show ?thesis using D by simp
qed

lemma resolve_distinct: "resolve_work_div_hint op it_space = Some us \<Longrightarrow> distinct (map fst us)"
proof -
  have "distinct (map fst s) \<Longrightarrow> distinct (map fst (fold (resolve_step li it_space) hs s))" for hs s li
    by (induction hs arbitrary: s) (auto simp: resolve_step_def distinct_update split: option.splits)
  then show "resolve_work_div_hint op it_space = Some us \<Longrightarrow> distinct (map fst us)"
    by (auto simp: resolve_work_div_hint_def Let_def split: if_split_asm)
qed

lemma committed_after_span:
  assumes d: "op_ownership op = Some d" "division_ok (op_it_space op) cores d" and ax: "distinct (map fst (op_it_space op))"
  shows "distinct (map fst (committed_splits op))" "list_all (\<lambda>vs. 1 \<le> snd vs) (committed_splits op)"
    "fst ` set (committed_splits op) \<subseteq> fst ` set (op_it_space op)"
    "\<And>v. dict_get (committed_splits op) v 1 = dict_get (work_slices d) v 1"
proof -
  have k: "map fst (work_slices d) = map fst (op_it_space op)" and ge: "list_all (\<lambda>vs. 1 \<le> snd vs) (work_slices d)"
    using d(2) by (simp_all add: division_ok_def)
  have e: "committed_splits op = filter (\<lambda>vs. snd vs > 1) (work_slices d)" by (simp add: committed_splits_def d(1))
  show "distinct (map fst (committed_splits op))" unfolding e using ax k by (metis distinct_map_filter)
  show "list_all (\<lambda>vs. 1 \<le> snd vs) (committed_splits op)" by (auto simp: e list_all_iff)
  have "fst ` set (work_slices d) = fst ` set (op_it_space op)" using k by (metis set_map)
  then show "fst ` set (committed_splits op) \<subseteq> fst ` set (op_it_space op)" by (auto simp: e)
  have "list_all (\<lambda>vs. 1 \<le> snd vs) xs \<Longrightarrow> distinct (map fst xs) \<Longrightarrow> dict_get (filter (\<lambda>vs. snd vs > 1) xs) v 1 = dict_get xs v 1" for xs :: "string splits" and v
  proof (induction xs)
    case (Cons p xs)
    have "map_of (filter (\<lambda>vs. snd vs > 1) xs) v = None" if "v = fst p" "\<not> snd p > 1"
      using Cons.prems(2) that by (auto simp: map_of_eq_None_iff)
    then show ?case using Cons by (cases p) (auto simp: dict_get_def)
  qed (simp add: dict_get_def)
  then show "dict_get (committed_splits op) v 1 = dict_get (work_slices d) v 1" for v unfolding e using ge ax k by simp
qed

definition sound_splits :: "string set \<Rightarrow> int \<Rightarrow> string splits \<Rightarrow> domains \<Rightarrow> string splits \<Rightarrow> bool" where
  "sound_splits A cores mins allowed splits \<longleftrightarrow> distinct (map fst splits) \<and> list_all (\<lambda>vs. 1 \<le> snd vs) splits \<and>
     prod_list (map snd splits) \<le> cores \<and> fst ` set splits \<subseteq> A \<and>
     (\<forall>v\<in>A. dict_get mins v 1 \<le> dict_get splits v 1 \<and> in_domain allowed v (dict_get splits v 1))"

text \<open>
  A planner turns a request into splits that are sound for the request's axes, cores, floors and domains.
  Committing what a planner returns gives a sound ownership, whichever planner it was: the distributor and
  the user's hint are the two the pass chooses between.
\<close>

locale split_planner =
  fixes plan :: "'r \<Rightarrow> string splits res" and ready :: "'r \<Rightarrow> bool" and plan_axes :: "'r \<Rightarrow> string set"
    and plan_cores :: "'r \<Rightarrow> int" and plan_min :: "'r \<Rightarrow> string splits" and plan_allowed :: "'r \<Rightarrow> domains"
  assumes plan_sound: "ready r \<Longrightarrow> plan r = Inr splits \<Longrightarrow> sound_splits (plan_axes r) (plan_cores r) (plan_min r) (plan_allowed r) splits"
begin

lemma planned_commit:
  assumes r: "ready r" "plan r = Inr splits" "plan_axes r = fst ` set (op_it_space op)"
    and t: "bindE (apply_splits op splits) (check_overflow splits) = Inr op'" and ax: "distinct (map fst (op_it_space op))"
  shows "\<exists>d. op_ownership op' = Some d \<and> division_ok (op_it_space op) (plan_cores r) d \<and>
     (\<forall>v\<in>plan_axes r. dict_get (plan_min r) v 1 \<le> dict_get (work_slices d) v 1 \<and> in_domain (plan_allowed r) v (dict_get (work_slices d) v 1)) \<and>
     (\<forall>td\<in>set (all_tds op). \<not> is_indirectly_accessed td \<longrightarrow> get_per_core_span td (work_slices d) (op_it_space op) (op_meta op) \<le> MAX_SPAN_BYTES)"
proof -
  note sp = plan_sound [OF r(1,2), unfolded sound_splits_def r(3)]
  have tail: "distinct (map fst splits)" "list_all (\<lambda>vs. 1 \<le> snd vs) splits" "prod_list (map snd splits) \<le> plan_cores r"
    "fst ` set splits \<subseteq> fst ` set (op_it_space op)" using sp by simp_all
  from commit_tail [OF t ax tail] obtain d where d: "op_ownership op' = Some d" "division_ok (op_it_space op) (plan_cores r) d"
    "\<forall>v. dict_get (work_slices d) v 1 = dict_get splits v 1"
    "\<forall>td\<in>set (all_tds op). \<not> is_indirectly_accessed td \<longrightarrow> get_per_core_span td (work_slices d) (op_it_space op) (op_meta op) \<le> MAX_SPAN_BYTES"
    by blast
  have "\<forall>v\<in>plan_axes r. dict_get (plan_min r) v 1 \<le> dict_get (work_slices d) v 1 \<and> in_domain (plan_allowed r) v (dict_get (work_slices d) v 1)"
    unfolding r(3) using sp d(3) by simp
  then show ?thesis using d(1,2,4) by (intro exI [of _ d] conjI)
qed

end

lemma default_split_sound:
  assumes s: "default_split op adjusted committed cores blocked allowed = Inr splits"
    and wf: "request_wf \<lparr>req_space = adjusted, req_meta = op_meta op, req_cores = cores, req_min = committed, req_allowed = allowed\<rparr>"
    and keys: "fst ` set committed \<subseteq> fst ` set adjusted" "fst ` set allowed \<subseteq> fst ` set adjusted"
  shows "sound_splits (fst ` set adjusted) cores committed allowed splits"
proof -
  note D = default_split_Inr [OF s wf]
  have "fst ` set adjusted \<union> fst ` set committed \<union> fst ` set allowed \<subseteq> fst ` set adjusted" using keys by (intro Un_least) simp_all
  then have "fst ` set splits \<subseteq> fst ` set adjusted" using D by (meson subset_trans)
  then show ?thesis using D by (simp add: sound_splits_def)
qed

interpretation distributed: split_planner
  "\<lambda>(op, adjusted, committed, cores, blocked, allowed). default_split op adjusted committed cores blocked allowed"
  "\<lambda>(op, adjusted, committed, cores, blocked, allowed).
     request_wf \<lparr>req_space = adjusted, req_meta = op_meta op, req_cores = cores, req_min = committed, req_allowed = allowed\<rparr> \<and>
     fst ` set committed \<subseteq> fst ` set adjusted \<and> fst ` set allowed \<subseteq> fst ` set adjusted"
  "\<lambda>(op, adjusted, committed, cores, blocked, allowed). fst ` set adjusted" "\<lambda>(op, adjusted, committed, cores, blocked, allowed). cores"
  "\<lambda>(op, adjusted, committed, cores, blocked, allowed). committed" "\<lambda>(op, adjusted, committed, cores, blocked, allowed). allowed"
  by unfold_locales (auto intro: default_split_sound)

lemma user_hint_sound:
  assumes s: "apply_user_hint h out us = Inr splits" and du: "distinct (map fst us)" and c: "1 \<le> hr_cores h"
  shows "sound_splits (fst ` set (hr_adjusted h)) (hr_cores h) (hr_min h) (hr_allowed h) splits"
proof -
  note H = apply_hint_Inr [OF s du c]
  have ge: "list_all (\<lambda>vs. 1 \<le> snd vs) splits" using H(1) by (auto simp: hint_ok_def list_all_iff)
  have floor: "dict_get (hr_min h) v 1 \<le> dict_get splits v 1" for v
  proof (cases "map_of (hr_min h) v")
    case None
    then show ?thesis using dict_get_ge1 [OF ge] by (simp add: dict_get_def [of "hr_min h"])
  next
    case (Some n)
    then show ?thesis using H(3) [OF map_of_SomeD [OF Some]] by (simp add: dict_get_def [of "hr_min h"])
  qed
  have "in_domain (hr_allowed h) v (dict_get splits v 1)" for v
    using H(2) [OF map_of_SomeD] by (auto simp: in_domain_def split: option.split)
  then show ?thesis using H(1) ge floor by (simp add: sound_splits_def hint_ok_def)
qed

interpretation hinted: split_planner
  "\<lambda>(h, out, us). apply_user_hint h out us" "\<lambda>(h, out, us). distinct (map fst us) \<and> 1 \<le> hr_cores h"
  "\<lambda>(h, out, us). fst ` set (hr_adjusted h)" "\<lambda>(h, out, us). hr_cores h" "\<lambda>(h, out, us). hr_min h" "\<lambda>(h, out, us). hr_allowed h"
  by unfold_locales (auto intro: user_hint_sound)

text \<open>
  C3: Running span reduction and then work distribution commits a sound division.  The ownership lists
  every axis once with a factor of at least one; the factors use at most the cores there are, and the
  owner map sends the cores used one-to-one onto the slice combinations; every factor lies in its axis's
  merged domain and meets the floor span reduction committed; and no directly accessed tensor exceeds the
  hardware's per-core span.  This holds whether the division came from the user's hint or from the
  distributor.
\<close>

theorem passes_commit_sound_division:
  assumes cores: "1 \<le> cores" and ax: "distinct (map fst (op_it_space op))" and rules: "rules_wf (op_rules op) (fst ` set (op_it_space op))"
    and p1: "span_reduction_pass op cores = Inr op1" and p2: "work_distribution_pass ignore_hints op1 cores = Inr op2"
  shows "\<exists>d. op_ownership op2 = Some d \<and> division_ok (op_it_space op) cores d \<and>
     (\<forall>v\<in>fst ` set (op_it_space op). dict_get (op_span_min op1) v 1 \<le> dict_get (work_slices d) v 1 \<and>
        in_domain (res_allowed (projr (collect_work_division_constraints (op_rules op) (committed_splits op1)))) v (dict_get (work_slices d) v 1)) \<and>
     (\<forall>td\<in>set (all_tds op). \<not> is_indirectly_accessed td \<longrightarrow>
        get_per_core_span td (work_slices d) (op_it_space op) (op_meta op) \<le> MAX_SPAN_BYTES)"
proof -
  obtain d1 where d1: "op1 = op\<lparr>op_span_min := op_span_min op1, op_ownership := Some d1\<rparr>" "division_ok (op_it_space op) cores d1"
      "\<forall>v\<in>fst ` set (op_it_space op). map_of (work_slices d1) v = Some (dict_get (op_span_min op1) v 1)" "distinct (map fst (op_span_min op1))"
    using span_pass_Inr [OF p1 ax cores] by blast
  have same: "op_it_space op1 = op_it_space op" "op_rules op1 = op_rules op" "all_tds op1 = all_tds op" "op_meta op1 = op_meta op" "op_output op1 = op_output op"
      "op_ownership op1 = Some d1"
    by (subst d1(1), simp add: all_tds_def)+
  note cs = committed_after_span [OF same(6) d1(2) [folded same(1)] ax [folded same(1)]]
  from p2 obtain adjusted sticks cr where adj: "adjust_it_space_for_sticks (op_it_space op) (all_tds op) (op_meta op) = Inr (adjusted, sticks)"
    and cr: "collect_work_division_constraints (op_rules op) (committed_splits op1) = Inr cr"
    unfolding work_distribution_pass_def same by auto
  note p2' = p2 [unfolded work_distribution_pass_def same adj cr bindE.simps prod.case]
  have ak: "map fst adjusted = map fst (op_it_space op)" using adjusted_space [OF adj] by blast
  have keys: "fst ` set adjusted = fst ` set (op_it_space op)" using ak by (metis set_map)
  note dom = collected_domains_wf [OF cr rules] and cc = collected_constraints [OF cr]
  let ?goal = "\<lambda>d. op_ownership op2 = Some d \<and> division_ok (op_it_space op) cores d \<and>
     (\<forall>v\<in>fst ` set (op_it_space op). dict_get (op_span_min op1) v 1 \<le> dict_get (work_slices d) v 1 \<and> in_domain (res_allowed cr) v (dict_get (work_slices d) v 1)) \<and>
     (\<forall>td\<in>set (all_tds op). \<not> is_indirectly_accessed td \<longrightarrow> get_per_core_span td (work_slices d) (op_it_space op) (op_meta op) \<le> MAX_SPAN_BYTES)"
  have "\<exists>d. ?goal d"
  proof (cases "if ignore_hints then None else resolve_work_div_hint op1 adjusted")
    case None
    let ?r = "(op1, adjusted, committed_splits op1, cores, res_blocked cr, res_allowed cr)"
    from p2' obtain splits where s: "default_split op1 adjusted (committed_splits op1) cores (res_blocked cr) (res_allowed cr) = Inr splits"
      and t: "bindE (apply_splits op1 splits) (check_overflow splits) = Inr op2"
      unfolding None option.case bindE_Inr_iff by blast
    have wf: "request_wf \<lparr>req_space = adjusted, req_meta = op_meta op1, req_cores = cores, req_min = committed_splits op1, req_allowed = res_allowed cr\<rparr>"
      using cores ax ak cs(1,2) cc(2) dom(1) by (simp add: request_wf_def)
    have fl: "dict_get (op_span_min op1) v 1 = dict_get (committed_splits op1) v 1" if "v \<in> fst ` set (op_it_space op)" for v
      using bspec [OF d1(3) that] cs(4) [of v] by (simp add: dict_get_def [of "work_slices d1"])
    show ?thesis
      using distributed.planned_commit [of ?r splits op1 op2, unfolded prod.case, OF _ s _ t] wf cs(3) dom(2) ax keys fl by (simp add: same)
  next
    case (Some us)
    let ?h = "\<lparr>hr_adjusted = adjusted, hr_cores = cores, hr_blocked = res_blocked cr, hr_allowed = res_allowed cr, hr_min = op_span_min op1\<rparr>"
    from p2' obtain splits where s: "apply_user_hint ?h (op_output op) us = Inr splits"
      and t: "bindE (apply_splits op1 splits) (check_overflow splits) = Inr op2"
      unfolding Some option.case bindE_Inr_iff by blast
    have du: "distinct (map fst us)" using Some resolve_distinct by (auto split: if_split_asm)
    show ?thesis
      using hinted.planned_commit [of "(?h, op_output op, us)" splits op1 op2, unfolded prod.case, OF _ s _ t] du cores keys ax by (simp add: same)
  qed
  then show ?thesis using cr by simp
qed

definition demo_wd_op :: wd_op where
  "demo_wd_op = \<lparr>op_it_space = [(''i'', 4), (''j'', 64)], op_meta = [], op_inputs = [], op_output = wide_td,
     op_rules = [\<lambda>_. Inr \<lparr>res_blocked = [], res_allowed = [(''i'', [1, 2, 4])]\<rparr>], op_entry_syms = [], op_hint = [], op_loop_info = [],
     op_k_fast_matmul = False, op_ownership = None, op_span_min = []\<rparr>"

definition demo_wd_op1 :: wd_op where
  "demo_wd_op1 = projr (span_reduction_pass demo_wd_op 32)"

theorem passes_commit_sound_division_witness:
  "\<exists>d. op_ownership (projr (work_distribution_pass False demo_wd_op1 32)) = Some d \<and> division_ok (op_it_space demo_wd_op) 32 d \<and>
     dict_get (op_span_min demo_wd_op1) ''i'' 1 = 2 \<and> dict_get (op_span_min demo_wd_op1) ''i'' 1 \<le> dict_get (work_slices d) ''i'' 1"
proof -
  have n: "\<not> isl (span_reduction_pass demo_wd_op 32)" "\<not> isl (work_distribution_pass False demo_wd_op1 32)"
    "dict_get (op_span_min demo_wd_op1) ''i'' 1 = 2" by code_simp+
  have p1: "span_reduction_pass demo_wd_op 32 = Inr demo_wd_op1" using sum.collapse(2) [OF n(1)] by (simp add: demo_wd_op1_def)
  have p2: "work_distribution_pass False demo_wd_op1 32 = Inr (projr (work_distribution_pass False demo_wd_op1 32))"
    using sum.collapse(2) [OF n(2)] by simp
  have r: "rules_wf (op_rules demo_wd_op) (fst ` set (op_it_space demo_wd_op))" by (auto simp: rules_wf_def demo_wd_op_def)
  have ax: "distinct (map fst (op_it_space demo_wd_op))" "''i'' \<in> fst ` set (op_it_space demo_wd_op)" by (simp_all add: demo_wd_op_def)
  obtain d where d: "op_ownership (projr (work_distribution_pass False demo_wd_op1 32)) = Some d" "division_ok (op_it_space demo_wd_op) 32 d"
    and f: "\<forall>v\<in>fst ` set (op_it_space demo_wd_op). dict_get (op_span_min demo_wd_op1) v 1 \<le> dict_get (work_slices d) v 1"
    using passes_commit_sound_division [OF _ ax(1) r p1 p2] by auto
  show ?thesis using d bspec [OF f ax(2)] n(3) by blast
qed

section \<open>A second reduction split that is not seen\<close>

definition reducing_op :: wd_op where
  "reducing_op = demo_wd_op\<lparr>op_it_space := [(''i'', 4), (''k1'', 8), (''k2'', 8)],
     op_output := \<lparr>device_coords = [row_coord ''i'', stick_coord ''i'' 64], td_device_size = [4, 64], td_itemsize = 2, td_elems_per_stick = 64, is_qfp8wt = False\<rparr>\<rparr>"

text \<open>
  The default division restricts the reduction axes to the committed ones before the distributor
  checks that at most one reduction axis is split.  So a reduction axis whose hard domain excludes one is
  split next to a committed one and no error is raised, although the distributor, given all reduction
  axes, rejects the same request.
\<close>

theorem second_reduction_split_not_seen:
  "default_split reducing_op [(''i'', 4), (''k1'', 8), (''k2'', 8)] [(''k1'', 2)] 32 [] [(''k2'', [2, 4])] = Inr [(''i'', 4), (''k1'', 4), (''k2'', 2)] \<and>
   ''k1'' \<notin> coord_vars (op_output reducing_op) \<and> ''k2'' \<notin> coord_vars (op_output reducing_op) \<and>
   multi_dim_iteration_space_split
     \<lparr>req_space = [(''i'', 4), (''k1'', 8), (''k2'', 8)], req_meta = [], req_cores = 32, req_min = [(''k1'', 2)], req_allowed = [(''k2'', [2, 4])]\<rparr>
     [''i''] [''k1'', ''k2''] = Inl Unsupported"
  by code_simp

end
