(* ===== verification/Tile_Strides.thy ===== *)
theory Tile_Strides
  imports Prelude "HOL-Library.Product_Lexorder"
begin

text \<open>
  Strides and indices of a tile (\<open>wsr/tile.py\<close>).

  Sizes, strides and coefficients are static integers.  An index is the sum of its ordered terms: an integer
  constant, an iteration variable, a product of numbers, variables and \<open>ModularIndexing\<close> calls, a
  \<open>ModularIndexing\<close> call, or some other function of the variables listed with it; every symbol is an iteration
  variable.  A rewritten index is a constant with a list of coefficients and variables.
\<close>

subsection \<open>Strides\<close>

definition regular_dims :: "int list \<Rightarrow> int list \<Rightarrow> nat list" where
  "regular_dims sizes strides = filter (\<lambda>d. sizes ! d \<noteq> 1 \<and> strides ! d \<noteq> 0) [0..<min (length sizes) (length strides)]"

fun tiles_divide :: "int list \<Rightarrow> int list \<Rightarrow> bool res" where
  "tiles_divide (x # xs) (y # ys) =
     (if y = 0 then Inl ZeroDivisionError else if x mod y \<noteq> 0 then Inr False else tiles_divide xs ys)"
| "tiles_divide xs ys = Inr True"

definition tile_step :: "int list \<Rightarrow> int list \<Rightarrow> int list \<Rightarrow> nat \<Rightarrow> int list \<times> int \<Rightarrow> (int list \<times> int) res" where
  "tile_step sizes strides tile_size d st =
     (case st of (tile_stride, running_tile_count) \<Rightarrow>
        if running_tile_count = 0 then Inl ZeroDivisionError
        else if strides ! d mod running_tile_count \<noteq> 0 then Inl Unsupported
        else if d \<ge> length tile_size then Inl IndexError
        else Inr (if tile_size ! d > 1 then tile_stride[d := strides ! d div running_tile_count] else tile_stride,
                  running_tile_count * (sizes ! d div tile_size ! d)))"

definition compute_tile_stride :: "int list \<Rightarrow> int list \<Rightarrow> int list \<Rightarrow> int list res" where
  "compute_tile_stride sizes strides tile_size =
     bindE (tiles_divide sizes tile_size) (\<lambda>ok.
       if \<not> ok then Inl Unsupported
       else bindE (foldE (tile_step sizes strides tile_size) (sort_key (\<lambda>d. strides ! d) (regular_dims sizes strides))
                     (replicate (length tile_size) 0, 1)) (\<lambda>st. Inr (fst st)))"

subsection \<open>Indices\<close>

fun compute_tile_offset :: "int \<Rightarrow> (int \<times> int) list \<Rightarrow> int res" where
  "compute_tile_offset offset [] = (if offset \<noteq> 0 then Inl Unsupported else Inr 0)"
| "compute_tile_offset offset ((s, t) # ps) =
     (if s = 0 then Inl ZeroDivisionError
      else bindE (compute_tile_offset (offset mod s) ps) (\<lambda>rest. Inr (offset div s * t + rest)))"

text \<open>The arguments of a product term: a number, a symbol or a modular index.  Products with another function of
  a symbol are outside the model.\<close>

datatype iarg = ANum int | AVar string | AModular string "string list"

datatype iterm = TConst int | TVar string | TMul "iarg list" | TModular string "string list" | TOther string "string list"

fun arg_symbols :: "iarg \<Rightarrow> string list" where
  "arg_symbols (ANum n) = []"
| "arg_symbols (AVar v) = [v]"
| "arg_symbols (AModular v vs) = v # vs"

fun term_symbols :: "iterm \<Rightarrow> string list" where
  "term_symbols (TConst n) = []"
| "term_symbols (TVar v) = [v]"
| "term_symbols (TMul args) = remdups (concat (map arg_symbols args))"
| "term_symbols (TModular v vs) = remdups (v # vs)"
| "term_symbols (TOther v vs) = remdups (v # vs)"

fun number_of_term :: "iterm \<Rightarrow> int" where
  "number_of_term (TConst n) = n"
| "number_of_term (TMul args) = prod_list (map (\<lambda>a. case a of ANum n \<Rightarrow> n | _ \<Rightarrow> 1) args)"
| "number_of_term t = 0"

fun split_product :: "string \<Rightarrow> iarg list \<Rightarrow> bool \<Rightarrow> int \<Rightarrow> int res" where
  "split_product var [] var_found coef = Inr coef"
| "split_product var (ANum n # args) var_found coef = split_product var args var_found (coef * n)"
| "split_product var (AVar v # args) var_found coef =
     (if var_found then Inl Unsupported else split_product var args True coef)"
| "split_product var (AModular v vs # args) var_found coef = Inl Unsupported"

definition decompose_var :: "iterm \<Rightarrow> string \<Rightarrow> (int \<times> string) res" where
  "decompose_var t var =
     (case t of
        TModular v vs \<Rightarrow> Inl Unsupported
      | TVar v \<Rightarrow> Inr (1, var)
      | TMul args \<Rightarrow> bindE (split_product var args False 1) (\<lambda>coef. if \<not> coef > 0 then Inl Unsupported else Inr (coef, var))
      | _ \<Rightarrow> Inl Unsupported)"

fun decompose_terms :: "iterm list \<Rightarrow> string list \<Rightarrow> int \<Rightarrow> (int \<times> string) list \<Rightarrow> ((int \<times> string) list \<times> int) res" where
  "decompose_terms [] vars_found offset atoms = (if \<not> offset \<ge> 0 then Inl Unsupported else Inr (atoms, offset))"
| "decompose_terms (t # ts) vars_found offset atoms =
     (case term_symbols t of
        [] \<Rightarrow> decompose_terms ts vars_found (offset + number_of_term t) atoms
      | [var] \<Rightarrow>
          if var \<in> set vars_found then Inl Unsupported
          else bindE (decompose_var t var) (\<lambda>atom. decompose_terms ts (var # vars_found) offset (atoms @ [atom]))
      | _ \<Rightarrow> Inl Unsupported)"

definition decompose_index_for_tiling :: "iterm list \<Rightarrow> ((int \<times> string) list \<times> int) res" where
  "decompose_index_for_tiling index = decompose_terms index [] 0 []"

type_synonym tile_expr = "int \<times> (int \<times> string) list"

definition paired_strides :: "int list \<Rightarrow> int list \<Rightarrow> int list \<Rightarrow> (int \<times> int) list" where
  "paired_strides sizes strides tile_stride = rev (sort (map (\<lambda>d. (strides ! d, tile_stride ! d)) (regular_dims sizes strides)))"

definition compute_tile_index :: "iterm list \<Rightarrow> int list \<Rightarrow> int list \<Rightarrow> int list \<Rightarrow> tile_expr res" where
  "compute_tile_index index sizes strides tile_stride =
     bindE (decompose_index_for_tiling index) (\<lambda>(atoms, offset).
       if list_ex (\<lambda>d. d \<ge> length tile_stride) (regular_dims sizes strides) then Inl IndexError
       else
         let pairs = paired_strides sizes strides tile_stride
         in bindE (compute_tile_offset offset pairs) (\<lambda>base.
            bindE (mapE (\<lambda>(c, v). bindE (compute_tile_offset c pairs) (\<lambda>k. Inr (k, v))) atoms) (\<lambda>terms.
              Inr (base, terms))))"

section \<open>Strided addresses\<close>

text \<open>
  A point gives a coordinate per dimension; its address is the sum of coordinates times strides.  Strides
  \<open>e\<close> of a list of dimensions nest over the extents \<open>n\<close> when each exceeds what the earlier dimensions can reach.
\<close>

definition address_in :: "nat list \<Rightarrow> (nat \<Rightarrow> int) \<Rightarrow> (nat \<Rightarrow> int) \<Rightarrow> int" where
  "address_in ds e p = sum_list (map (\<lambda>d. p d * e d) ds)"

definition nests :: "(nat \<Rightarrow> int) \<Rightarrow> (nat \<Rightarrow> int) \<Rightarrow> nat list \<Rightarrow> bool" where
  "nests e n ds \<longleftrightarrow> sorted_wrt (\<lambda>d d'. e d * n d \<le> e d') ds \<and> (\<forall>d\<in>set ds. 0 < e d)"

definition in_extents :: "(nat \<Rightarrow> int) \<Rightarrow> nat list \<Rightarrow> (nat \<Rightarrow> int) \<Rightarrow> bool" where
  "in_extents n ds p \<longleftrightarrow> (\<forall>d\<in>set ds. 0 \<le> p d \<and> p d < n d)"

lemma address_in_simps [simp]:
  "address_in [] e p = 0" "address_in (d # ds) e p = p d * e d + address_in ds e p"
  "address_in (ds @ ds') e p = address_in ds e p + address_in ds' e p"
  by (simp_all add: address_in_def)

lemma nests_snoc: "nests e n (ds @ [d]) \<longleftrightarrow> nests e n ds \<and> (\<forall>d'\<in>set ds. e d' * n d' \<le> e d) \<and> 0 < e d"
  by (auto simp: nests_def sorted_wrt_append)

lemma address_bounds:
  assumes "nests e n ds" "in_extents n ds p" "0 < M" "\<forall>d\<in>set ds. e d * n d \<le> M"
  shows "0 \<le> address_in ds e p \<and> address_in ds e p < M"
  using assms
proof (induction ds arbitrary: M rule: rev_induct)
  case (snoc d ds)
  have e: "0 < e d" and n: "nests e n ds" "\<forall>d'\<in>set ds. e d' * n d' \<le> e d" using snoc.prems(1) by (auto simp: nests_snoc)
  have p: "in_extents n ds p" "0 \<le> p d" "p d < n d" using snoc.prems(2) by (auto simp: in_extents_def)
  have A: "0 \<le> address_in ds e p" "address_in ds e p < e d" using snoc.IH [OF n(1) p(1) e n(2)] by auto
  have "(p d + 1) * e d \<le> n d * e d" using p e by (intro mult_right_mono) auto
  then have "p d * e d + e d \<le> M" using snoc.prems(4) by (simp add: algebra_simps)
  moreover have "0 \<le> p d * e d" using p e by simp
  ultimately show ?case using A by simp
qed simp

lemma address_top:
  assumes "nests e n (ds @ [d])" "in_extents n (ds @ [d]) p"
  shows "address_in (ds @ [d]) e p div e d = p d" "address_in (ds @ [d]) e p mod e d = address_in ds e p"
proof -
  have A: "0 \<le> address_in ds e p" "address_in ds e p < e d" and e: "0 < e d"
    using assms address_bounds [of e n ds p "e d"] by (auto simp: nests_snoc in_extents_def)
  have "address_in (ds @ [d]) e p = address_in ds e p + p d * e d" by simp
  then show "address_in (ds @ [d]) e p div e d = p d" "address_in (ds @ [d]) e p mod e d = address_in ds e p"
    using A e by (simp_all add: div_pos_pos_trivial mod_pos_pos_trivial)
qed

lemma address_inj:
  assumes "nests e n ds" "in_extents n ds p" "in_extents n ds q" "address_in ds e p = address_in ds e q"
  shows "\<forall>d\<in>set ds. p d = q d"
  using assms
proof (induction ds rule: rev_induct)
  case (snoc d ds)
  note P = address_top [OF snoc.prems(1,2)] and Q = address_top [OF snoc.prems(1,3)]
  have top: "p d = q d" using P(1) Q(1) snoc.prems(4) by metis
  have a: "address_in ds e p = address_in ds e q" using P(2) Q(2) snoc.prems(4) by metis
  have "nests e n ds" "in_extents n ds p" "in_extents n ds q" using snoc.prems(1-3) by (simp_all add: nests_snoc in_extents_def)
  from snoc.IH [OF this a] show ?case using top by simp
qed simp

lemma tile_offset_step:
  "0 < s \<Longrightarrow> compute_tile_offset (a mod s) ps = Inr r \<Longrightarrow> compute_tile_offset a ((s, t) # ps) = Inr (a div s * t + r)"
  by simp

lemma offset_translates:
  assumes "nests e n ds" "in_extents n ds p"
  shows "compute_tile_offset (address_in ds e p) (map (\<lambda>d. (e d, t d)) (rev ds)) = Inr (address_in ds t p)"
  using assms
proof (induction ds rule: rev_induct)
  case (snoc d ds)
  have e: "0 < e d" and n: "nests e n ds" "in_extents n ds p" using snoc.prems by (auto simp: nests_snoc in_extents_def)
  note top = address_top [OF snoc.prems]
  have "compute_tile_offset (address_in (ds @ [d]) e p mod e d) (map (\<lambda>d. (e d, t d)) (rev ds)) = Inr (address_in ds t p)"
    unfolding top(2) by (rule snoc.IH [OF n])
  from tile_offset_step [OF e this, of "t d"] show ?case unfolding top(1) by (simp add: add.commute del: compute_tile_offset.simps)
qed simp

subsection \<open>Strides of a tile\<close>

definition nested_strides :: "int list \<Rightarrow> int list \<Rightarrow> bool" where
  "nested_strides sizes strides \<longleftrightarrow>
     list_all (\<lambda>d. list_all (\<lambda>d'. d = d' \<or> strides ! d * sizes ! d \<le> strides ! d' \<or> strides ! d' * sizes ! d' \<le> strides ! d)
       (regular_dims sizes strides)) (regular_dims sizes strides) \<and>
     length strides = length sizes \<and> list_all (\<lambda>n. 0 < n) sizes \<and> list_all (\<lambda>s. 0 \<le> s) strides"

definition stride_order :: "int list \<Rightarrow> int list \<Rightarrow> nat list" where
  "stride_order sizes strides = sort_key (\<lambda>d. strides ! d) (regular_dims sizes strides)"

lemma stride_order_set [simp]: "set (stride_order sizes strides) = set (regular_dims sizes strides)"
  by (simp add: stride_order_def)

lemma regular_dim:
  assumes "nested_strides sizes strides" "d \<in> set (regular_dims sizes strides)"
  shows "d < length sizes" "1 < sizes ! d" "0 < strides ! d"
proof -
  have d: "d < length sizes" "d < length strides" "sizes ! d \<noteq> 1" "strides ! d \<noteq> 0" using assms(2) by (auto simp: regular_dims_def)
  then have "0 < sizes ! d" "0 \<le> strides ! d" using assms(1) by (auto simp: nested_strides_def list_all_length)
  then show "d < length sizes" "1 < sizes ! d" "0 < strides ! d" using d by auto
qed

lemma sorted_wrt_refine:
  assumes "sorted_wrt P xs" "distinct xs" "\<And>a b. a \<in> set xs \<Longrightarrow> b \<in> set xs \<Longrightarrow> a \<noteq> b \<Longrightarrow> P a b \<Longrightarrow> Q a b"
  shows "sorted_wrt Q xs"
  using assms by (induction xs) auto

lemma tensor_nests:
  assumes "nested_strides sizes strides"
  shows "nests (\<lambda>d. strides ! d) (\<lambda>d. sizes ! d) (stride_order sizes strides)"
proof -
  let ?ds = "stride_order sizes strides"
  have "sorted_wrt (\<lambda>a b. strides ! a \<le> strides ! b) ?ds"
    using sorted_sort_key [of "\<lambda>d. strides ! d" "regular_dims sizes strides"] by (simp add: stride_order_def sorted_wrt_map)
  moreover have "distinct ?ds" by (simp add: stride_order_def regular_dims_def)
  moreover have "strides ! a * sizes ! a \<le> strides ! b"
    if m: "a \<in> set ?ds" "b \<in> set ?ds" "a \<noteq> b" "strides ! a \<le> strides ! b" for a b
  proof (rule ccontr)
    assume "\<not> strides ! a * sizes ! a \<le> strides ! b"
    then have "strides ! b * sizes ! b \<le> strides ! a" using assms m by (auto simp: nested_strides_def list_all_iff)
    moreover have "strides ! b * 2 \<le> strides ! b * sizes ! b" using regular_dim [OF assms] m by (intro mult_left_mono) force+
    ultimately show False using m regular_dim(3) [OF assms, of b] by simp
  qed
  ultimately have "sorted_wrt (\<lambda>a b. strides ! a * sizes ! a \<le> strides ! b) ?ds" by (rule sorted_wrt_refine)
  then show ?thesis using regular_dim(3) [OF assms] by (simp add: nests_def)
qed

lemma tiles_divide_True:
  "tiles_divide xs ys = Inr True \<Longrightarrow> d < length xs \<Longrightarrow> d < length ys \<Longrightarrow> ys ! d \<noteq> 0 \<and> ys ! d dvd xs ! d"
  by (induction xs ys arbitrary: d rule: tiles_divide.induct) (auto simp: nth_Cons mod_eq_0_iff_dvd split: nat.split if_split_asm)

definition tile_count :: "int list \<Rightarrow> int list \<Rightarrow> nat list \<Rightarrow> int" where
  "tile_count sizes tile_size ds = prod_list (map (\<lambda>d. sizes ! d div tile_size ! d) ds)"

lemma tile_steps_nest:
  assumes "foldE (tile_step sizes strides tile_size) ds (ts, 1) = Inr (ts', r)" "distinct ds"
    and "nests (\<lambda>d. strides ! d) (\<lambda>d. sizes ! d) ds"
    and "\<forall>d\<in>set ds. d < length ts \<and> 0 < tile_size ! d \<and> tile_size ! d dvd sizes ! d \<and> 0 < sizes ! d"
  shows "r = tile_count sizes tile_size ds \<and> 0 < r \<and> (\<forall>d. d \<notin> set ds \<longrightarrow> ts' ! d = ts ! d) \<and> length ts' = length ts \<and>
    (\<exists>e. nests e (\<lambda>d. tile_size ! d) ds \<and> (\<forall>d\<in>set ds. tile_size ! d > 1 \<longrightarrow> ts' ! d = e d) \<and>
       (\<forall>d\<in>set ds. tile_size ! d = 1 \<longrightarrow> ts' ! d = ts ! d) \<and>
       (\<forall>M. (\<forall>d\<in>set ds. strides ! d * sizes ! d \<le> M) \<longrightarrow> (\<forall>d\<in>set ds. e d * tile_size ! d * r \<le> M)))"
  using assms
proof (induction ds arbitrary: ts' r rule: rev_induct)
  case Nil
  then show ?case by (auto simp: tile_count_def nests_def)
next
  case (snoc d ds)
  from snoc.prems(1) obtain ts1 r1 where s1: "foldE (tile_step sizes strides tile_size) ds (ts, 1) = Inr (ts1, r1)"
    and s2: "tile_step sizes strides tile_size d (ts1, r1) = Inr (ts', r)" by (auto simp: foldE_append)
  have N: "nests (\<lambda>d. strides ! d) (\<lambda>d. sizes ! d) ds" "\<forall>d'\<in>set ds. strides ! d' * sizes ! d' \<le> strides ! d" "0 < strides ! d"
    using snoc.prems(3) by (auto simp: nests_snoc)
  have D: "d < length ts" "0 < tile_size ! d" "tile_size ! d dvd sizes ! d" "0 < sizes ! d" "d \<notin> set ds" "distinct ds"
    using snoc.prems(2,4) by auto
  note IH = snoc.IH [OF s1 D(6) N(1)]
  obtain e where r1: "r1 = tile_count sizes tile_size ds" "0 < r1" "\<forall>d. d \<notin> set ds \<longrightarrow> ts1 ! d = ts ! d" "length ts1 = length ts"
    and e: "nests e (\<lambda>d. tile_size ! d) ds" "\<forall>d\<in>set ds. tile_size ! d > 1 \<longrightarrow> ts1 ! d = e d" "\<forall>d\<in>set ds. tile_size ! d = 1 \<longrightarrow> ts1 ! d = ts ! d"
    and b: "\<And>M. \<forall>d\<in>set ds. strides ! d * sizes ! d \<le> M \<Longrightarrow> \<forall>d\<in>set ds. e d * tile_size ! d * r1 \<le> M"
    using IH snoc.prems(4) by auto
  have dv: "r1 dvd strides ! d" and ts': "ts' = (if tile_size ! d > 1 then ts1[d := strides ! d div r1] else ts1)"
    and r: "r = r1 * (sizes ! d div tile_size ! d)"
    using s2 by (auto simp: tile_step_def mod_eq_0_iff_dvd split: if_split_asm)
  have q: "0 < sizes ! d div tile_size ! d" using D by (simp add: pos_imp_zdiv_pos_iff zdvd_imp_le)
  have rpos: "0 < r" using q r r1(2) by simp
  define e' where "e' = e(d := strides ! d div r1)"
  have ed: "0 < e' d" "e' d * r1 = strides ! d" using dv N(3) r1(2) by (simp_all add: e'_def pos_imp_zdiv_pos_iff zdvd_imp_le)
  have old: "e' d' = e d'" if "d' \<in> set ds" for d' using that D(5) by (auto simp: e'_def)
  have below: "e d' * tile_size ! d' \<le> e' d" if "d' \<in> set ds" for d'
  proof -
    have "e d' * tile_size ! d' * r1 \<le> e' d * r1" using b [OF N(2)] that ed(2) by simp
    then show ?thesis using r1(2) by simp
  qed
  have "nests e' (\<lambda>d. tile_size ! d) ds"
    using e(1) old unfolding nests_def by (auto elim!: sorted_wrt_mono_rel [rotated])
  then have "nests e' (\<lambda>d. tile_size ! d) (ds @ [d])" using ed(1) below old by (simp add: nests_snoc)
  moreover have "\<forall>d'\<in>set (ds @ [d]). e' d' * tile_size ! d' * r \<le> M" if M: "\<forall>d'\<in>set (ds @ [d]). strides ! d' * sizes ! d' \<le> M" for M
  proof -
    have top: "e' d * tile_size ! d * r = strides ! d * sizes ! d" using D(3) ed(2) r by (auto simp: algebra_simps)
    have "e' d' * tile_size ! d' * r \<le> e' d * tile_size ! d * r" if "d' \<in> set ds" for d'
    proof -
      have "e' d * 1 \<le> e' d * tile_size ! d" using ed(1) D(2) by (intro mult_left_mono) auto
      then have "e' d' * tile_size ! d' \<le> e' d * tile_size ! d" using below [OF that] unfolding old [OF that] by linarith
      then show ?thesis using rpos by (intro mult_right_mono) auto
    qed
    then show ?thesis using M top by fastforce
  qed
  moreover have "\<forall>d'\<in>set (ds @ [d]). (tile_size ! d' > 1 \<longrightarrow> ts' ! d' = e' d') \<and> (tile_size ! d' = 1 \<longrightarrow> ts' ! d' = ts ! d')"
    using e(2,3) ts' D(1,5) r1(3,4) old by (auto simp: e'_def nth_list_update)
  moreover have "\<forall>d'. d' \<notin> set (ds @ [d]) \<longrightarrow> ts' ! d' = ts ! d'" using ts' r1(3) by auto
  ultimately show ?case using r rpos r1 ts' by (auto simp: tile_count_def)
qed

lemma address_regular:
  assumes "\<forall>d<n. d \<notin> set ds \<longrightarrow> p d * e d = 0" "distinct ds" "set ds \<subseteq> {..<n}"
  shows "address_in [0..<n] e p = address_in ds e p"
proof -
  have "address_in [0..<n] e p = (\<Sum>d\<in>{..<n}. p d * e d)" by (simp add: address_in_def interv_sum_list_conv_sum_set_nat atLeast0LessThan)
  also have "\<dots> = (\<Sum>d\<in>set ds. p d * e d)" using assms by (intro sum.mono_neutral_right) auto
  also have "\<dots> = address_in ds e p" using assms(2) by (simp add: address_in_def sum_list_distinct_conv_sum_set)
  finally show ?thesis .
qed

lemma tile_stride_facts:
  assumes c: "compute_tile_stride sizes strides tile_size = Inr ts" and n: "nested_strides sizes strides"
    and l: "length tile_size = length sizes" "list_all (\<lambda>n. 0 < n) tile_size"
  obtains e where "nests e (\<lambda>d. tile_size ! d) (stride_order sizes strides)" "length ts = length sizes"
    "\<And>p. in_extents (\<lambda>d. tile_size ! d) [0..<length sizes] p \<Longrightarrow>
       address_in [0..<length sizes] (\<lambda>d. ts ! d) p = address_in (stride_order sizes strides) e p"
    "\<And>M d. \<forall>d\<in>set (regular_dims sizes strides). strides ! d * sizes ! d \<le> M \<Longrightarrow> d \<in> set (regular_dims sizes strides) \<Longrightarrow>
       e d * tile_size ! d * tile_count sizes tile_size (stride_order sizes strides) \<le> M"
    "0 < tile_count sizes tile_size (stride_order sizes strides)" "\<And>d. d < length sizes \<Longrightarrow> d \<notin> set (regular_dims sizes strides) \<Longrightarrow> ts ! d = 0"
    "\<And>d. d \<in> set (regular_dims sizes strides) \<Longrightarrow> ts ! d = (if tile_size ! d > 1 then e d else 0)"
proof -
  let ?ds = "stride_order sizes strides"
  have dist: "distinct ?ds" by (simp add: stride_order_def regular_dims_def)
  from c obtain r where dv: "tiles_divide sizes tile_size = Inr True"
    and f: "foldE (tile_step sizes strides tile_size) ?ds (replicate (length tile_size) 0, 1) = Inr (ts, r)"
    by (auto simp: compute_tile_stride_def stride_order_def split: if_split_asm)
  have reg: "\<forall>d\<in>set ?ds. d < length sizes \<and> 0 < tile_size ! d \<and> tile_size ! d dvd sizes ! d \<and> 0 < sizes ! d"
    using regular_dim [OF n] tiles_divide_True [OF dv] l by (fastforce simp: list_all_length)
  then have reg': "\<forall>d\<in>set ?ds. d < length (replicate (length tile_size) (0::int)) \<and> 0 < tile_size ! d \<and> tile_size ! d dvd sizes ! d \<and> 0 < sizes ! d"
    using l(1) by simp
  note T = tile_steps_nest [OF f dist tensor_nests [OF n] reg']
  then obtain e where e: "nests e (\<lambda>d. tile_size ! d) ?ds" "\<forall>d\<in>set ?ds. tile_size ! d > 1 \<longrightarrow> ts ! d = e d"
    "\<forall>d\<in>set ?ds. tile_size ! d = 1 \<longrightarrow> ts ! d = replicate (length tile_size) 0 ! d"
    and b: "\<forall>M. (\<forall>d\<in>set ?ds. strides ! d * sizes ! d \<le> M) \<longrightarrow> (\<forall>d\<in>set ?ds. e d * tile_size ! d * r \<le> M)"
    and r: "r = tile_count sizes tile_size ?ds" "0 < r" "length ts = length sizes"
      "\<forall>d. d \<notin> set ?ds \<longrightarrow> ts ! d = replicate (length tile_size) 0 ! d" using l(1) by auto
  have zero: "ts ! d = 0" if "d < length sizes" "d \<notin> set (regular_dims sizes strides)" for d using r(4) that l(1) by simp
  have addr: "address_in [0..<length sizes] (\<lambda>d. ts ! d) p = address_in ?ds e p" if p: "in_extents (\<lambda>d. tile_size ! d) [0..<length sizes] p" for p
  proof -
    have t: "p d * ts ! d = p d * e d" if "d \<in> set ?ds" for d
    proof (cases "tile_size ! d > 1")
      case False
      then have "p d = 0" using p reg that by (force simp: in_extents_def)
      then show ?thesis by simp
    qed (use e(2) that in simp)
    have "address_in [0..<length sizes] (\<lambda>d. ts ! d) p = address_in ?ds (\<lambda>d. ts ! d) p"
      using zero dist reg by (intro address_regular) auto
    also have "\<dots> = address_in ?ds e p" unfolding address_in_def by (intro arg_cong [of _ _ sum_list] map_cong refl t)
    finally show ?thesis .
  qed
  have "ts ! d = (if tile_size ! d > 1 then e d else 0)" if "d \<in> set (regular_dims sizes strides)" for d
    using e(2,3) reg that l(1) by (cases "tile_size ! d > 1") force+
  then show thesis by (intro that [OF e(1) r(3) addr]) (use b r(1,2) zero in auto)
qed

lemma nests_total:
  assumes "nests e n ds" "d \<in> set ds" "d' \<in> set ds" "d \<noteq> d'"
  shows "e d * n d \<le> e d' \<or> e d' * n d' \<le> e d"
  using assms by (induction ds) (auto simp: nests_def)

lemma tile_nested_strides:
  assumes c: "compute_tile_stride sizes strides tile_size = Inr ts" and n: "nested_strides sizes strides"
    and l: "length tile_size = length sizes" "list_all (\<lambda>n. 0 < n) tile_size"
  shows "nested_strides tile_size ts" "\<And>d. d \<in> set (regular_dims sizes strides) \<Longrightarrow> tile_size ! d > 1 \<Longrightarrow> 0 < ts ! d" "length ts = length sizes"
proof -
  let ?ds = "stride_order sizes strides" and ?R = "regular_dims sizes strides"
  obtain e where e: "nests e (\<lambda>d. tile_size ! d) ?ds" and len: "length ts = length sizes"
    and z: "\<And>d. d < length sizes \<Longrightarrow> d \<notin> set ?R \<Longrightarrow> ts ! d = 0"
    and t: "\<And>d. d \<in> set ?R \<Longrightarrow> ts ! d = (if tile_size ! d > 1 then e d else 0)" by (rule tile_stride_facts [OF c n l]) blast
  have pos: "0 < e d" if "d \<in> set ?R" for d using e that by (simp add: nests_def)
  then show "0 < ts ! d" if "d \<in> set ?R" "tile_size ! d > 1" for d using t that by simp
  show "length ts = length sizes" by (rule len)
  have nn: "0 \<le> ts ! d" if "d < length sizes" for d
  proof (cases "d \<in> set ?R")
    case True
    then show ?thesis using t [OF True] pos [OF True] by simp
  qed (use z that in simp)
  have reg: "d \<in> set ?R \<and> ts ! d = e d" if "d \<in> set (regular_dims tile_size ts)" for d
  proof -
    have d: "d < length sizes" "ts ! d \<noteq> 0" using that l(1) by (auto simp: regular_dims_def)
    then have "d \<in> set ?R" using z by blast
    then show ?thesis using t [of d] d(2) by (simp split: if_split_asm)
  qed
  have "ts ! d * tile_size ! d \<le> ts ! d' \<or> ts ! d' * tile_size ! d' \<le> ts ! d"
    if "d \<in> set (regular_dims tile_size ts)" "d' \<in> set (regular_dims tile_size ts)" "d \<noteq> d'" for d d'
    using nests_total [OF e _ _ that(3)] reg [OF that(1)] reg [OF that(2)] by simp
  moreover have "list_all (\<lambda>s. 0 \<le> s) ts" using nn len by (simp add: list_all_length)
  ultimately show "nested_strides tile_size ts" using l len unfolding nested_strides_def list_all_iff by metis
qed

text \<open>
  C37: The elements of a tile do not collide and the tile takes its share of the tensor.  For a tensor whose
  regular dimensions nest, in-tile points at the same tile address agree on every regular dimension; and the
  tile address times the number of tiles stays below any bound on the tensor's own strides times sizes.
\<close>

theorem tile_elements_stay_apart:
  assumes c: "compute_tile_stride sizes strides tile_size = Inr ts" and n: "nested_strides sizes strides"
    and l: "length tile_size = length sizes" "list_all (\<lambda>n. 0 < n) tile_size"
    and p: "in_extents (\<lambda>d. tile_size ! d) [0..<length sizes] p" and q: "in_extents (\<lambda>d. tile_size ! d) [0..<length sizes] q"
  shows "(address_in [0..<length sizes] (\<lambda>d. ts ! d) p = address_in [0..<length sizes] (\<lambda>d. ts ! d) q \<longrightarrow>
        (\<forall>d\<in>set (regular_dims sizes strides). p d = q d)) \<and>
     (\<forall>M>0. (\<forall>d\<in>set (regular_dims sizes strides). strides ! d * sizes ! d \<le> M) \<longrightarrow>
        address_in [0..<length sizes] (\<lambda>d. ts ! d) p * tile_count sizes tile_size (regular_dims sizes strides) < M)"
proof -
  let ?ds = "stride_order sizes strides"
  obtain e where e: "nests e (\<lambda>d. tile_size ! d) ?ds"
    and a: "\<And>p. in_extents (\<lambda>d. tile_size ! d) [0..<length sizes] p \<Longrightarrow> address_in [0..<length sizes] (\<lambda>d. ts ! d) p = address_in ?ds e p"
    and b: "\<And>M d. \<forall>d\<in>set (regular_dims sizes strides). strides ! d * sizes ! d \<le> M \<Longrightarrow> d \<in> set (regular_dims sizes strides) \<Longrightarrow>
       e d * tile_size ! d * tile_count sizes tile_size ?ds \<le> M" and r: "0 < tile_count sizes tile_size ?ds"
    by (rule tile_stride_facts [OF c n l]) blast
  have reg: "in_extents (\<lambda>d. tile_size ! d) ?ds x" if "in_extents (\<lambda>d. tile_size ! d) [0..<length sizes] x" for x
    using that regular_dim(1) [OF n] by (simp add: in_extents_def)
  have cnt: "tile_count sizes tile_size (regular_dims sizes strides) = tile_count sizes tile_size ?ds"
    unfolding tile_count_def stride_order_def prod_mset_prod_list [symmetric] mset_map mset_sort by (rule refl)
  have "\<forall>d\<in>set ?ds. p d = q d" if "address_in ?ds e p = address_in ?ds e q" by (rule address_inj [OF e reg [OF p] reg [OF q] that])
  moreover have "address_in ?ds e p * tile_count sizes tile_size ?ds < M"
    if M: "0 < M" "\<forall>d\<in>set (regular_dims sizes strides). strides ! d * sizes ! d \<le> M" for M
  proof -
    let ?R = "tile_count sizes tile_size ?ds"
    have "nests (\<lambda>d. e d * ?R) (\<lambda>d. tile_size ! d) ?ds"
      using e r unfolding nests_def by (auto simp: mult_right_mono mult.commute mult.left_commute elim!: sorted_wrt_mono_rel [rotated])
    moreover have "\<forall>d\<in>set ?ds. e d * ?R * tile_size ! d \<le> M" using b [OF M(2)] by (simp add: mult.assoc mult.commute [of "tile_count _ _ _"])
    ultimately have "address_in ?ds (\<lambda>d. e d * ?R) p < M" using address_bounds reg [OF p] M(1) by blast
    then show ?thesis by (simp add: address_in_def sum_list_mult_const [symmetric] mult.assoc)
  qed
  ultimately show ?thesis unfolding a [OF p] a [OF q] cnt by simp
qed

theorem tile_elements_stay_apart_witness:
  "\<exists>ts. compute_tile_stride [4, 10, 1] [16, 1, 7] [4, 5, 1] = Inr ts \<and>
     address_in [0..<3] (\<lambda>d. ts ! d) ((\<lambda>d. 0)(0 := 3, 1 := 4)) * 2 < 64"
proof -
  let ?c = "compute_tile_stride [4, 10, 1] [16, 1, 7] [4, 5, 1]" and ?p = "(\<lambda>d. 0 :: int)(0 := 3, 1 := 4)"
  have v: "?c = Inr [8, 1, 0]" by code_simp
  have n: "nested_strides [4, 10, 1] [16, 1, 7]" "regular_dims [4, 10, 1] [16, 1, 7] = [0, 1]"
    "tile_count [4, 10, 1] [4, 5, 1] [0, 1] = 2" by code_simp+
  have p: "in_extents (\<lambda>d. [4, 5, 1] ! d) [0..<length [4, 10, 1 :: int]] ?p" by (auto simp: in_extents_def nth_Cons numeral_eq_Suc split: nat.split)
  have "address_in [0..<3] (\<lambda>d. [8, 1, 0] ! d) ?p * 2 < 64"
    using tile_elements_stay_apart [OF v n(1) _ _ p p] n by (simp add: numeral_eq_Suc)
  then show ?thesis using v by blast
qed

subsection \<open>Indices of a tile\<close>

text \<open>The value of an index at an assignment; \<open>opaque\<close> evaluates what the rewriting refuses.\<close>

fun arg_at :: "(string list \<Rightarrow> int) \<Rightarrow> (string \<Rightarrow> int) \<Rightarrow> iarg \<Rightarrow> int" where
  "arg_at opaque x (ANum n) = n"
| "arg_at opaque x (AVar v) = x v"
| "arg_at opaque x (AModular v vs) = opaque (v # vs)"

fun term_at :: "(string list \<Rightarrow> int) \<Rightarrow> (string \<Rightarrow> int) \<Rightarrow> iterm \<Rightarrow> int" where
  "term_at opaque x (TConst n) = n"
| "term_at opaque x (TVar v) = x v"
| "term_at opaque x (TMul args) = prod_list (map (arg_at opaque x) args)"
| "term_at opaque x (TModular v vs) = opaque (v # vs)"
| "term_at opaque x (TOther v vs) = opaque (v # vs)"

definition index_at :: "(string list \<Rightarrow> int) \<Rightarrow> (string \<Rightarrow> int) \<Rightarrow> iterm list \<Rightarrow> int" where
  "index_at opaque x index = sum_list (map (term_at opaque x) index)"

definition expr_at :: "(string \<Rightarrow> int) \<Rightarrow> tile_expr \<Rightarrow> int" where
  "expr_at x e = fst e + sum_list (map (\<lambda>cv. fst cv * x (snd cv)) (snd e))"

lemma split_product_rest: "split_product var args True c = Inr r \<Longrightarrow> concat (map arg_symbols args) = []"
proof (induction args arbitrary: c)
  case (Cons a args)
  then show ?case by (cases a) auto
qed simp

lemma split_product_value:
  assumes "split_product var args found c = Inr r" "set (concat (map arg_symbols args)) \<subseteq> {var}"
  shows "c * prod_list (map (arg_at opaque x) args) = r * (if concat (map arg_symbols args) = [] then 1 else x var)"
  using assms
proof (induction args arbitrary: found c)
  case (Cons a args)
  have sub: "set (concat (map arg_symbols args)) \<subseteq> {var}" using Cons.prems(2) by auto
  show ?case
  proof (cases a)
    case (ANum n)
    then have "split_product var args found (c * n) = Inr r" using Cons.prems(1) by simp
    from Cons.IH [OF this sub] show ?thesis by (simp only: ANum list.map arg_at.simps prod_list.Cons arg_symbols.simps concat.simps append_Nil mult.assoc)
  next
    case (AVar v)
    then have s: "split_product var args True c = Inr r" and v: "v = var" using Cons.prems by (auto split: if_split_asm)
    have "c * prod_list (map (arg_at opaque x) args) = r" using Cons.IH [OF s sub] unfolding split_product_rest [OF s] by simp
    then show ?thesis using v by (simp add: AVar mult.left_commute mult.commute)
  qed (use Cons.prems in simp)
qed simp

lemma number_of_term_value: "term_symbols t = [] \<Longrightarrow> number_of_term t = term_at opaque x t"
proof (induction t)
  case (TMul args)
  then have "\<forall>a\<in>set args. arg_symbols a = []" by auto
  then have "map (\<lambda>a. case a of ANum n \<Rightarrow> n | _ \<Rightarrow> 1) args = map (arg_at opaque x) args"
    by (intro map_cong refl) (auto split: iarg.split)
  then show ?case by (simp only: number_of_term.simps term_at.simps)
qed (auto simp del: remdups.simps)

lemma decompose_var_value:
  assumes "term_symbols t = [var]" "decompose_var t var = Inr (c, v)"
  shows "v = var \<and> term_at opaque x t = c * x var"
proof (cases t)
  case (TMul args)
  have sy: "set (concat (map arg_symbols args)) = {var}" using assms(1) unfolding TMul term_symbols.simps by (metis list.simps(15) list.set(1) set_remdups)
  then have ne: "concat (map arg_symbols args) \<noteq> []" by force
  have r: "split_product var args False 1 = Inr c" "v = var" using assms(2) by (auto simp: decompose_var_def TMul split: if_split_asm)
  have "1 * prod_list (map (arg_at opaque x) args) = c * x var"
    using split_product_value [OF r(1), of opaque x] sy ne by (simp only: if_False subset_refl simp_thms)
  then show ?thesis using r(2) by (simp add: TMul)
qed (use assms in \<open>auto simp: decompose_var_def\<close>)

lemma decompose_terms_value:
  "decompose_terms ts found off atoms = Inr (A, O') \<Longrightarrow>
     index_at opaque x ts + expr_at x (off, atoms) = expr_at x (O', A)"
proof (induction ts found off atoms rule: decompose_terms.induct)
  case (2 t ts found off atoms)
  show ?case
  proof (cases "term_symbols t")
    case Nil
    then show ?thesis using 2(1) [OF Nil] 2(3) number_of_term_value [OF Nil, of opaque x] by (simp add: index_at_def expr_at_def)
  next
    case (Cons var rest)
    then have t: "term_symbols t = [var]" using 2(3) by (cases rest) auto
    then obtain c where c: "decompose_var t var = Inr (c, var)" "decompose_terms ts (var # found) off (atoms @ [(c, var)]) = Inr (A, O')"
      and nf: "var \<notin> set found"
      using 2(3) decompose_var_value [OF t] by (auto split: if_split_asm)
    show ?thesis using 2(2) [OF t refl nf c(2)] decompose_var_value [OF t c(1), of opaque x]
      by (simp add: index_at_def expr_at_def)
  qed
qed (simp add: index_at_def split: if_split_asm)

lemma paired_strides_order:
  assumes "nested_strides sizes strides"
  shows "paired_strides sizes strides ts = map (\<lambda>d. (strides ! d, ts ! d)) (rev (stride_order sizes strides))"
proof -
  let ?f = "\<lambda>d. (strides ! d, ts ! d)" and ?ds = "stride_order sizes strides"
  have "sorted_wrt (\<lambda>d d'. strides ! d < strides ! d') ?ds"
  proof (rule sorted_wrt_mono_rel [OF _ conjunct1 [OF tensor_nests [OF assms, unfolded nests_def]]])
    fix d d' assume m: "d \<in> set ?ds" "d' \<in> set ?ds" "strides ! d * sizes ! d \<le> strides ! d'"
    have "strides ! d * 2 \<le> strides ! d * sizes ! d" using regular_dim [OF assms, of d] m(1) by (intro mult_left_mono) auto
    moreover have "0 < strides ! d" using regular_dim(3) [OF assms, of d] m(1) by simp
    ultimately show "strides ! d < strides ! d'" using m(3) by linarith
  qed
  then have "sorted (map ?f ?ds)" unfolding sorted_map by (rule sorted_wrt_mono_rel [rotated]) (simp add: less_eq_prod_simp)
  moreover have "mset (map ?f ?ds) = mset (map ?f (regular_dims sizes strides))" by (simp add: stride_order_def)
  ultimately have "sort (map ?f (regular_dims sizes strides)) = map ?f ?ds" by (intro properties_for_sort) auto
  then show ?thesis by (simp add: paired_strides_def rev_map)
qed

text \<open>The point reached from \<open>base\<close> by taking each variable's step as often as the variable says.\<close>

definition reached :: "(nat \<Rightarrow> int) \<Rightarrow> (string \<Rightarrow> nat \<Rightarrow> int) \<Rightarrow> (int \<times> string) list \<Rightarrow> (string \<Rightarrow> int) \<Rightarrow> nat \<Rightarrow> int" where
  "reached base step atoms x d = base d + sum_list (map (\<lambda>cv. x (snd cv) * step (snd cv) d) atoms)"

lemma address_reached:
  "address_in ds e (reached base step atoms x) = address_in ds e base + sum_list (map (\<lambda>cv. x (snd cv) * address_in ds e (step (snd cv))) atoms)"
  by (induction ds) (simp_all add: reached_def algebra_simps sum_list_addf sum_list_const_mult sum_list_mult_const flip: sum_list_const_mult)

lemma tensor_address:
  assumes n: "nested_strides sizes strides" and p: "in_extents (\<lambda>d. sizes ! d) [0..<length sizes] p"
  shows "address_in [0..<length sizes] (\<lambda>d. strides ! d) p = address_in (stride_order sizes strides) (\<lambda>d. strides ! d) p"
proof (rule address_regular)
  show "\<forall>d<length sizes. d \<notin> set (stride_order sizes strides) \<longrightarrow> p d * strides ! d = 0"
  proof (intro allI impI)
    fix d assume d: "d < length sizes" "d \<notin> set (stride_order sizes strides)"
    then have "sizes ! d = 1 \<or> strides ! d = 0" using n by (auto simp: regular_dims_def nested_strides_def)
    then show "p d * strides ! d = 0" using p d(1) by (force simp: in_extents_def)
  qed
  show "distinct (stride_order sizes strides)" by (simp add: stride_order_def regular_dims_def)
  show "set (stride_order sizes strides) \<subseteq> {..<length sizes}" using regular_dim(1) [OF n] by auto
qed

text \<open>
  C17: The rewritten index addresses the same element of the tile.  Suppose an index decomposes, its offset is
  the tensor address of an element and each variable's coefficient the address of a step inside the tensor.
  Then the rewriting returns, and at every assignment of the variables the index is the tensor address, and the
  rewritten index the tile address, of one and the same point: the offset's element moved by the steps.
\<close>

theorem tile_index_same_point:
  assumes c: "compute_tile_stride sizes strides tile_size = Inr ts" and n: "nested_strides sizes strides"
    and l: "length tile_size = length sizes" "list_all (\<lambda>n. 0 < n) tile_size"
    and d: "decompose_index_for_tiling index = Inr (atoms, offset)"
    and base: "in_extents (\<lambda>d. sizes ! d) [0..<length sizes] base" "offset = address_in [0..<length sizes] (\<lambda>d. strides ! d) base"
    and steps: "\<forall>(k, v)\<in>set atoms. in_extents (\<lambda>d. sizes ! d) [0..<length sizes] (step v) \<and> k = address_in [0..<length sizes] (\<lambda>d. strides ! d) (step v)"
  shows "\<exists>e. compute_tile_index index sizes strides ts = Inr e \<and>
     (\<forall>x. index_at opaque x index = address_in [0..<length sizes] (\<lambda>d. strides ! d) (reached base step atoms x) \<and>
          expr_at x e = address_in [0..<length sizes] (\<lambda>d. ts ! d) (reached base step atoms x))"
proof -
  let ?all = "[0..<length sizes]" and ?ds = "stride_order sizes strides" and ?s = "\<lambda>d. strides ! d" and ?t = "\<lambda>d. ts ! d"
  have len: "length ts = length sizes" and zero: "\<And>d. d < length sizes \<Longrightarrow> d \<notin> set (regular_dims sizes strides) \<Longrightarrow> ts ! d = 0"
    by (rule tile_stride_facts [OF c n l], blast)+
  have tile: "address_in ?all ?t p = address_in ?ds ?t p" for p
  proof (rule address_regular)
    show "\<forall>d<length sizes. d \<notin> set ?ds \<longrightarrow> p d * ts ! d = 0" using zero by simp
    show "distinct ?ds" by (simp add: stride_order_def regular_dims_def)
    show "set ?ds \<subseteq> {..<length sizes}" using regular_dim(1) [OF n] by auto
  qed
  have tr: "compute_tile_offset (address_in ?all ?s p) (paired_strides sizes strides ts) = Inr (address_in ?all ?t p)"
    if p: "in_extents (\<lambda>d. sizes ! d) ?all p" for p
    unfolding tensor_address [OF n p] paired_strides_order [OF n] tile
    by (rule offset_translates [OF tensor_nests [OF n]]) (use p regular_dim(1) [OF n] in \<open>auto simp: in_extents_def\<close>)
  have sk: "fst cv = address_in ?all ?s (step (snd cv))" "in_extents (\<lambda>d. sizes ! d) ?all (step (snd cv))" if "cv \<in> set atoms" for cv
    using steps that by (cases cv, auto)+
  let ?e = "(address_in ?all ?t base, map (\<lambda>cv. (address_in ?all ?t (step (snd cv)), snd cv)) atoms)"
  have "mapE (\<lambda>(k, v). bindE (compute_tile_offset k (paired_strides sizes strides ts)) (\<lambda>k. Inr (k, v))) atoms = Inr (snd ?e)"
    unfolding snd_conv
  proof (rule mapE_all)
    fix cv assume "cv \<in> set atoms"
    then have "compute_tile_offset (fst cv) (paired_strides sizes strides ts) = Inr (address_in ?all ?t (step (snd cv)))"
      unfolding sk(1) [OF \<open>cv \<in> set atoms\<close>] by (intro tr sk(2))
    then show "(case cv of (k, v) \<Rightarrow> bindE (compute_tile_offset k (paired_strides sizes strides ts)) (\<lambda>k. Inr (k, v))) =
        Inr (address_in ?all ?t (step (snd cv)), snd cv)" by (cases cv) simp
  qed
  moreover have "\<not> list_ex (\<lambda>d. d \<ge> length ts) (regular_dims sizes strides)"
    using regular_dim(1) [OF n] len by (force simp: list_ex_iff)
  ultimately have "compute_tile_index index sizes strides ts = Inr ?e"
    unfolding compute_tile_index_def d base(2) Let_def bindE.simps prod.case tr [OF base(1)] by simp
  moreover have "index_at opaque x index = address_in ?all ?s (reached base step atoms x)" for x
  proof -
    have "index_at opaque x index = expr_at x (offset, atoms)"
      using decompose_terms_value [OF d [unfolded decompose_index_for_tiling_def], of opaque x] by (simp add: expr_at_def)
    also have "\<dots> = address_in ?all ?s base + sum_list (map (\<lambda>cv. x (snd cv) * address_in ?all ?s (step (snd cv))) atoms)"
      unfolding expr_at_def fst_conv snd_conv base(2) using sk
      by (intro arg_cong2 [of _ _ _ _ "(+)"] arg_cong [of _ _ sum_list] map_cong refl) (simp only: mult.commute)
    finally show ?thesis by (simp only: address_reached)
  qed
  moreover have "expr_at x ?e = address_in ?all ?t (reached base step atoms x)" for x
    unfolding expr_at_def fst_conv snd_conv address_reached map_map o_def by (simp only: mult.commute)
  ultimately show ?thesis by (intro exI [of _ ?e] conjI allI)
qed

theorem tile_index_same_point_witness:
  "\<exists>e. compute_tile_index [TConst 1, TMul [ANum 16, AVar ''i''], TMul [ANum 2, AVar ''j'']] [4, 10] [16, 1] [8, 1] = Inr e \<and>
     (\<forall>x. expr_at x e = 1 + 8 * x ''i'' + 2 * x ''j'')"
proof -
  let ?i = "[TConst 1, TMul [ANum 16, AVar ''i''], TMul [ANum 2, AVar ''j'']]"
  let ?b = "\<lambda>d :: nat. if d = 1 then 1 else (0 :: int)"
  let ?st = "\<lambda>v d :: nat. if v = ''i'' then (if d = 0 then 1 else 0) else if d = 1 then 2 else (0 :: int)"
  have v: "compute_tile_stride [4, 10] [16, 1] [4, 5] = Inr [8, 1]" "nested_strides [4, 10] [16, 1]"
    "decompose_index_for_tiling ?i = Inr ([(16, ''i''), (2, ''j'')], 1)" by code_simp+
  have u: "[0..<length [4, 10 :: int]] = [0, 1]" by (simp add: upt_rec)
  have b: "in_extents (\<lambda>d. [4, 10] ! d) [0..<length [4, 10 :: int]] ?b" "1 = address_in [0..<length [4, 10 :: int]] (\<lambda>d. [16, 1] ! d) ?b"
    unfolding u by (simp_all add: in_extents_def)
  have s: "\<forall>(k, v)\<in>set [(16, ''i''), (2, ''j'')]. in_extents (\<lambda>d. [4, 10] ! d) [0..<length [4, 10 :: int]] (?st v) \<and>
      k = address_in [0..<length [4, 10 :: int]] (\<lambda>d. [16, 1] ! d) (?st v)"
    unfolding u by (simp add: in_extents_def)
  have w: "length [4, 5 :: int] = length [4, 10 :: int]" "list_all (\<lambda>n. 0 < n) [4, 5 :: int]" by simp_all
  obtain e where e: "compute_tile_index ?i [4, 10] [16, 1] [8, 1] = Inr e"
    "\<And>x. expr_at x e = address_in [0..<length [4, 10 :: int]] (\<lambda>d. [8, 1] ! d) (reached ?b ?st [(16, ''i''), (2, ''j'')] x)"
    using tile_index_same_point [OF v(1,2) w v(3) b s, of "\<lambda>_. 0"] by blast
  have "expr_at x e = 1 + 8 * x ''i'' + 2 * x ''j''" for x unfolding e(2) u by (simp add: reached_def)
  then show ?thesis using e(1) by blast
qed

end
