(* ===== verification/Device_Resize.thy ===== *)
theory Device_Resize
  imports Tile_Strides
begin

text \<open>
  Resizing a device layout for a tile (\<open>_resize_device_layout\<close> of \<open>ir.py\<close>, and
  \<open>_post_tile_layout_for_splits\<close> of \<open>wsr/span_overflow_hint_analysis.py\<close>).

  A device layout has an extent and a host stride per device dimension, the last of them the inner stick; the
  two lists have the same length, and host sizes and strides too.  \<open>elems_per_stick()\<close>, a method of the
  binding's class, is a field; \<open>contiguous_strides\<close>, the strides Inductor gives a size, is an argument used only
  when no strides are passed.  The dictionary \<open>matched_host\<close> is an association list.
\<close>

record SpyreTensorLayout =
  device_size :: "int list"
  stride_map :: "int list"
  stl_eps :: int
  device_dtype :: string
  element_arrangement :: string

definition sticks :: "int \<Rightarrow> int \<Rightarrow> int" where
  "sticks eps n = - ((- n) div eps)"

subsection \<open>Matching device dimensions to host dimensions\<close>

datatype dim_match = Matched nat | Unmatched | Skipped

definition trusted_stick :: "SpyreTensorLayout \<Rightarrow> int list \<Rightarrow> int option \<Rightarrow> nat option" where
  "trusted_stick stl old_host_size stick_host_dim =
     (case stick_host_dim of
        None \<Rightarrow> None
      | Some d \<Rightarrow>
          if \<not> (0 \<le> d \<and> d < int (length old_host_size)) then None
          else if sticks (stl_eps stl) (old_host_size ! nat d) \<notin> set (butlast (device_size stl)) then None
          else Some (nat d))"

definition size_candidates :: "int list \<Rightarrow> nat option \<Rightarrow> int \<Rightarrow> nat list" where
  "size_candidates old_host_size stick n =
     filter (\<lambda>p. old_host_size ! p = n \<and> stick \<noteq> Some p) [0..<length old_host_size]"

definition match_dim :: "int list \<Rightarrow> int list \<Rightarrow> nat option \<Rightarrow> int \<Rightarrow> int \<Rightarrow> dim_match" where
  "match_dim old_host_size old_hs stick dsz sm =
     (if dsz = 1 \<and> sm \<noteq> -1 then Unmatched
      else if dsz = 1 then (case size_candidates old_host_size stick 1 of [p] \<Rightarrow> Matched p | _ \<Rightarrow> Skipped)
      else (case size_candidates old_host_size stick dsz of
              [] \<Rightarrow> Unmatched
            | [p] \<Rightarrow> Matched p
            | ps \<Rightarrow> (case filter (\<lambda>p. old_hs ! p = sm) ps of [p] \<Rightarrow> Matched p | _ \<Rightarrow> Unmatched)))"

definition match_dims :: "SpyreTensorLayout \<Rightarrow> int list \<Rightarrow> int list \<Rightarrow> nat option \<Rightarrow> (nat \<times> nat) list \<times> nat list" where
  "match_dims stl old_host_size old_hs stick =
     (let js = [0..<length (stride_map stl) - 1];
          m = (\<lambda>j. match_dim old_host_size old_hs stick (device_size stl ! j) (stride_map stl ! j))
      in (List.map_filter (\<lambda>j. case m j of Matched p \<Rightarrow> Some (j, p) | _ \<Rightarrow> None) js, filter (\<lambda>j. m j = Unmatched) js))"

definition unmatched_hosts :: "int list \<Rightarrow> (nat \<times> nat) list \<Rightarrow> nat list" where
  "unmatched_hosts old_host_size matched = filter (\<lambda>p. p \<notin> snd ` set matched) [0..<length old_host_size]"

definition pstar_candidates :: "int list \<Rightarrow> nat list \<Rightarrow> nat list" where
  "pstar_candidates old_host_size unmatched_all =
     (let cands = filter (\<lambda>p. old_host_size ! p > 1) unmatched_all in if cands = [] then unmatched_all else cands)"

definition find_pstar :: "int list \<Rightarrow> (nat \<times> nat) list \<Rightarrow> nat option" where
  "find_pstar old_host_size matched =
     (case pstar_candidates old_host_size (unmatched_hosts old_host_size matched) of [p] \<Rightarrow> Some p | _ \<Rightarrow> None)"

definition collides :: "SpyreTensorLayout \<Rightarrow> int list \<Rightarrow> int \<Rightarrow> nat \<times> nat \<Rightarrow> bool" where
  "collides stl old_hs expected_tc jp \<longleftrightarrow>
     device_size stl ! fst jp > 1 \<and> stride_map stl ! fst jp \<noteq> old_hs ! snd jp \<and> device_size stl ! fst jp = expected_tc"

definition reclassify ::
  "SpyreTensorLayout \<Rightarrow> int list \<Rightarrow> int list \<Rightarrow> (nat \<times> nat) list \<times> nat list \<Rightarrow> (nat \<times> nat) list \<times> nat list" where
  "reclassify stl old_host_size old_hs m =
     (case find_pstar old_host_size (fst m) of
        None \<Rightarrow> m
      | Some p \<Rightarrow>
          let bad = collides stl old_hs (sticks (stl_eps stl) (old_host_size ! p))
          in (filter (\<lambda>jp. \<not> bad jp) (fst m), snd m @ map fst (filter bad (fst m))))"

definition final_pstar :: "int list \<Rightarrow> nat option \<Rightarrow> (nat \<times> nat) list \<times> nat list \<Rightarrow> nat option res" where
  "final_pstar old_host_size stick m =
     (let unmatched_all = unmatched_hosts old_host_size (fst m)
      in case stick of
           Some s \<Rightarrow> if s \<notin> set unmatched_all then Inl RuntimeError else Inr (Some s)
         | None \<Rightarrow>
             if unmatched_all = [] then (if snd m \<noteq> [] then Inl RuntimeError else Inr None)
             else (case pstar_candidates old_host_size unmatched_all of [p] \<Rightarrow> Inr (Some p) | _ \<Rightarrow> Inl RuntimeError))"

subsection \<open>Updating the entries\<close>

type_synonym dev_dims = "int list \<times> int list"

definition resize_matched :: "SpyreTensorLayout \<Rightarrow> int list \<Rightarrow> int list \<Rightarrow> int list \<Rightarrow> nat \<times> nat \<Rightarrow> dev_dims \<Rightarrow> dev_dims" where
  "resize_matched stl new_host_size old_hs new_hs jp ds =
     (case jp of (j, p) \<Rightarrow>
        ((fst ds)[j := new_host_size ! p],
         if new_host_size ! p = 1 then (snd ds)[j := -1]
         else if stride_map stl ! j = old_hs ! p then (snd ds)[j := new_hs ! p]
         else snd ds))"

definition resize_tile_count ::
  "SpyreTensorLayout \<Rightarrow> int list \<Rightarrow> int list \<Rightarrow> int list \<Rightarrow> int list \<Rightarrow> nat list \<Rightarrow> nat \<Rightarrow> nat \<Rightarrow> dev_dims \<Rightarrow> dev_dims res" where
  "resize_tile_count stl old_host_size new_host_size old_hs new_hs matched_p pstar j ds =
     (let eps = stl_eps stl;
          expected_tc = sticks eps (old_host_size ! pstar);
          tc_stride = min eps (old_host_size ! pstar) * old_hs ! pstar;
          ambiguous = list_ex (\<lambda>p. p \<noteq> pstar \<and> p \<notin> set matched_p \<and> old_host_size ! p = device_size stl ! j) [0..<length old_host_size]
      in if device_size stl ! j \<noteq> expected_tc \<or> (ambiguous \<and> stride_map stl ! j \<noteq> tc_stride) then Inl RuntimeError
         else Inr ((fst ds)[j := sticks eps (new_host_size ! pstar)],
                   if new_host_size ! pstar = 1 then (snd ds)[j := -1]
                   else if stride_map stl ! j = tc_stride then (snd ds)[j := min eps (new_host_size ! pstar) * new_hs ! pstar]
                   else snd ds))"

definition resize_inner :: "SpyreTensorLayout \<Rightarrow> int list \<Rightarrow> int list \<Rightarrow> int list \<Rightarrow> nat \<Rightarrow> dev_dims \<Rightarrow> dev_dims res" where
  "resize_inner stl new_host_size old_hs new_hs pstar ds =
     (if stride_map stl = [] then Inl IndexError
      else
        let j = length (stride_map stl) - 1
        in Inr (fst ds,
                if new_host_size ! pstar = 1 then (snd ds)[j := -1]
                else if stride_map stl ! j = old_hs ! pstar then (snd ds)[j := new_hs ! pstar]
                else snd ds))"

definition resize_device_layout ::
  "(int list \<Rightarrow> int list) \<Rightarrow> SpyreTensorLayout \<Rightarrow> int list \<Rightarrow> int list \<Rightarrow> int option \<Rightarrow> int list option \<Rightarrow> int list option \<Rightarrow>
     SpyreTensorLayout res" where
  "resize_device_layout contiguous_strides stl old_host_size new_host_size stick_host_dim old_host_stride new_host_stride =
     (if length old_host_size \<noteq> length new_host_size \<or> list_ex (\<lambda>(old, new). new > old) (zip old_host_size new_host_size) then Inl ValueError
      else if (old_host_stride = None) \<noteq> (new_host_stride = None) then Inl AssertionError
      else
        let stick = trusted_stick stl old_host_size stick_host_dim;
            old_hs = (case old_host_stride of None \<Rightarrow> contiguous_strides old_host_size | Some s \<Rightarrow> s);
            new_hs = (case new_host_stride of None \<Rightarrow> contiguous_strides new_host_size | Some s \<Rightarrow> s);
            m = reclassify stl old_host_size old_hs (match_dims stl old_host_size old_hs stick)
        in bindE (final_pstar old_host_size stick m) (\<lambda>ps.
           let walked = fold (resize_matched stl new_host_size old_hs new_hs) (fst m) (device_size stl, stride_map stl)
           in bindE (case ps of
                       None \<Rightarrow> Inr walked
                     | Some pstar \<Rightarrow>
                         bindE (foldE (resize_tile_count stl old_host_size new_host_size old_hs new_hs (map snd (fst m)) pstar) (snd m) walked)
                           (resize_inner stl new_host_size old_hs new_hs pstar)) (\<lambda>ds.
             Inr (stl\<lparr>device_size := fst ds, stride_map := snd ds\<rparr>))))"

section \<open>What a layout describes\<close>

text \<open>
  A layout describes a host buffer with stick dimension \<open>pstar\<close> when every device dimension but the inner stick
  has a role: it walks one host dimension, counts the sticks of \<open>pstar\<close>, or is a placeholder of extent one.
\<close>

datatype role = Walks nat | TileCount | Placeholder

definition role_ok :: "int \<Rightarrow> nat \<Rightarrow> int list \<Rightarrow> int list \<Rightarrow> role \<Rightarrow> int \<Rightarrow> int \<Rightarrow> bool" where
  "role_ok eps pstar sizes strides r ds sm \<longleftrightarrow>
     (case r of
        Walks p \<Rightarrow> p < length sizes \<and> p \<noteq> pstar \<and> ds = sizes ! p \<and> sm = (if sizes ! p = 1 then -1 else strides ! p)
      | TileCount \<Rightarrow> ds = sticks eps (sizes ! pstar) \<and> sm = (if sizes ! pstar = 1 then -1 else min eps (sizes ! pstar) * strides ! pstar)
      | Placeholder \<Rightarrow> ds = 1 \<and> sm = -1)"

definition describes :: "SpyreTensorLayout \<Rightarrow> role list \<Rightarrow> nat \<Rightarrow> int list \<Rightarrow> int list \<Rightarrow> bool" where
  "describes stl roles pstar sizes strides \<longleftrightarrow>
     length (device_size stl) = Suc (length roles) \<and> length (stride_map stl) = Suc (length roles) \<and> pstar < length sizes \<and>
     list_all (\<lambda>j. role_ok (stl_eps stl) pstar sizes strides (roles ! j) (device_size stl ! j) (stride_map stl ! j)) [0..<length roles] \<and>
     device_size stl ! length roles = stl_eps stl \<and>
     stride_map stl ! length roles = (if sizes ! pstar = 1 then -1 else strides ! pstar) \<and>
     list_all (\<lambda>p. p \<noteq> pstar \<and> sizes ! p > 1 \<longrightarrow> Walks p \<in> set roles) [0..<length sizes] \<and>
     TileCount \<in> set roles \<and> distinct (filter (\<lambda>r. r \<noteq> Placeholder) roles)"

definition host_ok :: "int list \<Rightarrow> int list \<Rightarrow> bool" where
  "host_ok sizes strides \<longleftrightarrow>
     nested_strides sizes strides \<and> list_all (\<lambda>p. sizes ! p > 1 \<longrightarrow> strides ! p > 0) [0..<length sizes]"

lemma host_regular:
  assumes "host_ok sizes strides" "p < length sizes" "sizes ! p > 1"
  shows "p \<in> set (regular_dims sizes strides)" "0 < strides ! p"
proof -
  show "0 < strides ! p" using assms by (auto simp: host_ok_def list_all_iff)
  then show "p \<in> set (regular_dims sizes strides)" using assms by (auto simp: host_ok_def nested_strides_def regular_dims_def)
qed

lemma host_nested:
  assumes "host_ok sizes strides" "p < length sizes" "sizes ! p > 1" "q < length sizes" "sizes ! q > 1" "p \<noteq> q"
  shows "strides ! p * sizes ! p \<le> strides ! q \<or> strides ! q * sizes ! q \<le> strides ! p"
  using assms(1,6) host_regular(1) [OF assms(1-3)] host_regular(1) [OF assms(1,4,5)] by (auto simp: host_ok_def nested_strides_def list_all_iff)

lemma stride_less: "0 < s \<Longrightarrow> 1 < n \<Longrightarrow> s * n \<le> t \<Longrightarrow> s < (t :: int)"
  by (meson less_le_trans mult_less_cancel_left1 less_asym)

lemma host_strides_distinct:
  assumes "host_ok sizes strides" "p < length sizes" "sizes ! p > 1" "q < length sizes" "sizes ! q > 1" "p \<noteq> q"
  shows "strides ! p \<noteq> strides ! q"
  using host_nested [OF assms] stride_less host_regular(2) [OF assms(1-3)] host_regular(2) [OF assms(1,4,5)] assms(3,5) by (metis less_irrefl)

lemma sticks_one: "1 \<le> n \<Longrightarrow> n \<le> eps \<Longrightarrow> sticks eps n = 1"
proof -
  assume a: "1 \<le> n" "n \<le> eps"
  have "(- n) div eps = -1" using a by (intro int_div_pos_eq [of _ _ _ "eps - n"]) auto
  then show ?thesis by (simp add: sticks_def)
qed

lemma sticks_gt_one: "0 < eps \<Longrightarrow> eps < n \<Longrightarrow> 1 < sticks eps n"
proof -
  assume a: "0 < eps" "eps < n"
  have "(- n) div eps < - 1"
  proof (rule ccontr)
    assume "\<not> (- n) div eps < -1"
    then have "-1 * eps \<le> (- n) div eps * eps" using a by (intro mult_right_mono) auto
    also have "\<dots> \<le> - n" using a by (metis div_mult_mod_eq add.commute le_add_same_cancel2 pos_mod_sign)
    finally show False using a by simp
  qed
  then show ?thesis by (simp add: sticks_def)
qed

lemma sticks_less: "2 \<le> eps \<Longrightarrow> 1 < n \<Longrightarrow> sticks eps n < n"
proof -
  assume a: "2 \<le> eps" "1 < n"
  have "- n < (- n) div eps"
  proof (rule ccontr)
    assume "\<not> - n < (- n) div eps"
    then have "(- n) div eps * eps \<le> - n * eps" using a by (intro mult_right_mono) auto
    moreover have "- n < (- n) div eps * eps + eps" using a pos_mod_bound [of eps "- n"] div_mult_mod_eq [of "- n" eps] by linarith
    moreover have "(n - 1) * 2 \<le> (n - 1) * eps" using a by (intro mult_left_mono) auto
    ultimately show False using a by (simp add: algebra_simps)
  qed
  then show ?thesis by (simp add: sticks_def)
qed

lemma size_candidates_iff: "p \<in> set (size_candidates sizes stick n) \<longleftrightarrow> p < length sizes \<and> sizes ! p = n \<and> stick \<noteq> Some p"
  by (auto simp: size_candidates_def)

lemma size_candidates_distinct: "distinct (size_candidates sizes stick n)"
  by (simp add: size_candidates_def)

subsection \<open>The matching finds the roles\<close>

lemma match_dim_many:
  assumes "dsz \<noteq> 1" "size_candidates sizes stick dsz = C"
  shows "match_dim sizes strides stick dsz sm =
     (if C = [] then Unmatched else if tl C = [] then Matched (hd C)
      else case filter (\<lambda>p. strides ! p = sm) C of [p] \<Rightarrow> Matched p | _ \<Rightarrow> Unmatched)"
  unfolding match_dim_def assms(2) using assms(1) by (cases C; cases "tl C") (simp_all del: filter.simps)

lemma match_walks:
  assumes h: "host_ok sizes strides" and p: "p < length sizes" "sizes ! p > 1" "stick \<noteq> Some p"
  shows "match_dim sizes strides stick (sizes ! p) (strides ! p) = Matched p"
proof -
  let ?C = "size_candidates sizes stick (sizes ! p)"
  have m: "p \<in> set ?C" using p by (simp add: size_candidates_iff)
  have "filter (\<lambda>q. strides ! q = strides ! p) ?C = [p]"
  proof (rule filter_only [OF size_candidates_distinct m])
    fix q assume "q \<in> set ?C"
    then have "q < length sizes" "sizes ! q > 1" using p(2) by (auto simp: size_candidates_iff)
    then show "strides ! q = strides ! p \<longleftrightarrow> q = p" using host_strides_distinct [OF h p(1,2), of q] by metis
  qed
  moreover have "hd ?C = p" if "tl ?C = []" using m that by (cases ?C) auto
  moreover have "?C \<noteq> []" using m by auto
  ultimately show ?thesis using p(2) by (subst match_dim_many [OF _ refl]) simp_all
qed

lemma match_tile_count:
  assumes h: "host_ok sizes strides" and p: "pstar < length sizes" "sizes ! pstar > 1" and e: "2 \<le> eps"
    and r: "match_dim sizes strides stick (sticks eps (sizes ! pstar)) (min eps (sizes ! pstar) * strides ! pstar) = r"
  shows "r = Unmatched \<or> (\<exists>q. r = Matched q \<and> q < length sizes \<and> q \<noteq> pstar \<and> sticks eps (sizes ! pstar) > 1 \<and>
     min eps (sizes ! pstar) * strides ! pstar \<noteq> strides ! q)"
proof (cases "sizes ! pstar \<le> eps")
  case True
  have "0 < min eps (sizes ! pstar) * strides ! pstar" using host_regular(2) [OF h p] e p(2) by (intro mult_pos_pos) auto
  moreover have "sticks eps (sizes ! pstar) = 1" using sticks_one True p(2) by simp
  ultimately show ?thesis using r by (auto simp: match_dim_def)
next
  case False
  let ?tc = "sticks eps (sizes ! pstar)" and ?s = "min eps (sizes ! pstar) * strides ! pstar"
  let ?C = "size_candidates sizes stick ?tc"
  have s: "?s = eps * strides ! pstar" "0 < strides ! pstar" using False host_regular(2) [OF h p] by auto
  have tc: "1 < ?tc" using sticks_gt_one False e by simp
  have C: "q < length sizes \<and> q \<noteq> pstar \<and> ?s \<noteq> strides ! q" if "q \<in> set ?C" for q
  proof -
    have q: "q < length sizes" "sizes ! q = ?tc" "1 < sizes ! q" using that tc by (simp_all add: size_candidates_iff)
    have ne: "q \<noteq> pstar" using q(2) sticks_less [OF e p(2)] by auto
    have "strides ! pstar * 2 \<le> strides ! pstar * eps" "strides ! pstar * eps < strides ! pstar * sizes ! pstar"
      using s(2) e False by (auto intro!: mult_left_mono mult_strict_left_mono)
    moreover have "strides ! q < strides ! pstar \<or> strides ! pstar * sizes ! pstar \<le> strides ! q"
      using host_nested [OF h q(1,3) p ne] stride_less [OF host_regular(2) [OF h q(1,3)] q(3)] by blast
    ultimately have "strides ! pstar * eps \<noteq> strides ! q" using s(2) by linarith
    then show ?thesis using q(1) ne unfolding s(1) by (simp add: mult.commute)
  qed
  then have "filter (\<lambda>q. strides ! q = ?s) ?C = []" unfolding filter_empty_conv by metis
  then have "r = Unmatched \<or> (r = Matched (hd ?C) \<and> ?C \<noteq> [])" using r tc by (subst (asm) match_dim_many [OF _ refl]) (simp_all split: if_split_asm)
  then have "r = Unmatched \<or> (\<exists>q. r = Matched q \<and> q \<in> set ?C)" by auto
  then show ?thesis using C tc by blast
qed

lemma match_unit:
  assumes "match_dim sizes strides stick 1 (-1) = r"
  shows "r = Skipped \<or> (\<exists>q. r = Matched q \<and> q < length sizes \<and> sizes ! q = 1 \<and> stick \<noteq> Some q)"
proof (cases "size_candidates sizes stick 1")
  case (Cons q qs)
  then have "q \<in> set (size_candidates sizes stick 1)" by simp
  then have "q < length sizes \<and> sizes ! q = 1 \<and> stick \<noteq> Some q" unfolding size_candidates_iff .
  then show ?thesis using assms Cons by (cases qs) (auto simp: match_dim_def)
qed (use assms in \<open>auto simp: match_dim_def\<close>)

text \<open>The state after the matching and the collision pass, when the layout describes the host buffer.\<close>

definition found_roles :: "SpyreTensorLayout \<Rightarrow> role list \<Rightarrow> nat \<Rightarrow> int list \<Rightarrow> (nat \<times> nat) list \<times> nat list \<Rightarrow> bool" where
  "found_roles stl roles pstar sizes m \<longleftrightarrow> distinct (map fst (fst m)) \<and>
     (\<forall>(j, q)\<in>set (fst m). j < length roles \<and> q < length sizes \<and>
        (roles ! j = Walks q \<and> 1 < sizes ! q \<or> device_size stl ! j = 1 \<and> stride_map stl ! j = -1 \<and> sizes ! q = 1)) \<and>
     (\<forall>j<length roles. \<forall>p. roles ! j = Walks p \<and> 1 < sizes ! p \<longrightarrow> (j, p) \<in> set (fst m)) \<and>
     set (snd m) = {j. j < length roles \<and> roles ! j = TileCount \<and> 1 < sizes ! pstar}"

lemma describes_role:
  assumes "describes stl roles pstar sizes strides" "j < length roles"
  shows "role_ok (stl_eps stl) pstar sizes strides (roles ! j) (device_size stl ! j) (stride_map stl ! j)"
  using assms by (simp add: describes_def list_all_iff)

lemma match_role:
  assumes d: "describes stl roles pstar sizes strides" and h: "host_ok sizes strides" and e: "2 \<le> stl_eps stl"
    and st: "stick = None \<or> stick = Some pstar" and j: "j < length roles"
    and r: "match_dim sizes strides stick (device_size stl ! j) (stride_map stl ! j) = r"
  shows "(\<exists>p. roles ! j = Walks p \<and> 1 < sizes ! p \<and> p < length sizes \<and> p \<noteq> pstar \<and> r = Matched p) \<or>
    (device_size stl ! j = 1 \<and> stride_map stl ! j = -1 \<and> \<not> (roles ! j = TileCount \<and> 1 < sizes ! pstar) \<and> (\<forall>p. roles ! j = Walks p \<longrightarrow> sizes ! p = 1) \<and>
       (r = Skipped \<or> (\<exists>q. r = Matched q \<and> q < length sizes \<and> sizes ! q = 1))) \<or>
    (roles ! j = TileCount \<and> 1 < sizes ! pstar \<and> (r = Unmatched \<or> (\<exists>q. r = Matched q \<and> q < length sizes \<and> q \<noteq> pstar \<and>
       collides stl strides (sticks (stl_eps stl) (sizes ! pstar)) (j, q))))"
proof -
  have pos: "0 < sizes ! p" if "p < length sizes" for p using h that by (auto simp: host_ok_def nested_strides_def list_all_length)
  note ro = describes_role [OF d j, unfolded role_ok_def]
  have ps: "pstar < length sizes" using d by (simp add: describes_def)
  show ?thesis
  proof (cases "roles ! j")
    case (Walks p)
    then have w: "p < length sizes" "p \<noteq> pstar" "device_size stl ! j = sizes ! p" "stride_map stl ! j = (if sizes ! p = 1 then -1 else strides ! p)"
      using ro by auto
    show ?thesis
    proof (cases "sizes ! p = 1")
      case True
      then show ?thesis using match_unit [of sizes strides stick r] r w Walks by auto
    next
      case False
      then have "1 < sizes ! p" using pos [OF w(1)] by simp
      then show ?thesis using match_walks [OF h w(1) _, of stick] st w r Walks False by auto
    qed
  next
    case TileCount
    show ?thesis
    proof (cases "sizes ! pstar = 1")
      case True
      then have "device_size stl ! j = 1" "stride_map stl ! j = -1" using ro TileCount sticks_one [of 1 "stl_eps stl"] e by auto
      then show ?thesis using match_unit [of sizes strides stick r] r TileCount True by auto
    next
      case False
      then have g: "1 < sizes ! pstar" using pos [OF ps] by simp
      have v: "device_size stl ! j = sticks (stl_eps stl) (sizes ! pstar)" "stride_map stl ! j = min (stl_eps stl) (sizes ! pstar) * strides ! pstar"
        using ro TileCount False by auto
      from match_tile_count [OF h ps g e r [unfolded v]] have "r = Unmatched \<or> (\<exists>q. r = Matched q \<and> q < length sizes \<and> q \<noteq> pstar \<and>
          collides stl strides (sticks (stl_eps stl) (sizes ! pstar)) (j, q))" by (auto simp: collides_def v)
      then show ?thesis using TileCount g by blast
    qed
  next
    case Placeholder
    then show ?thesis using match_unit [of sizes strides stick r] r ro by auto
  qed
qed

lemma map_filter_fst:
  "map fst (List.map_filter (\<lambda>j. case m j of Matched p \<Rightarrow> Some (j, p) | _ \<Rightarrow> None) js) = filter (\<lambda>j. \<exists>p. m j = Matched p) js"
  by (induction js) (auto simp: List.map_filter_simps split: dim_match.split)

lemma match_dims_facts:
  assumes "length (stride_map stl) = Suc n" "match_dims stl sizes strides stick = (M, U)"
  shows "(j, q) \<in> set M \<longleftrightarrow> j < n \<and> match_dim sizes strides stick (device_size stl ! j) (stride_map stl ! j) = Matched q"
    "j \<in> set U \<longleftrightarrow> j < n \<and> match_dim sizes strides stick (device_size stl ! j) (stride_map stl ! j) = Unmatched"
    "distinct (map fst M)"
proof -
  let ?m = "\<lambda>j. match_dim sizes strides stick (device_size stl ! j) (stride_map stl ! j)"
  let ?f = "\<lambda>j. case ?m j of Matched p \<Rightarrow> Some (j, p) | _ \<Rightarrow> None"
  have M: "M = List.map_filter ?f [0..<n]" and U: "U = filter (\<lambda>j. ?m j = Unmatched) [0..<n]"
    using arg_cong [OF assms(2), of fst] arg_cong [OF assms(2), of snd] assms(1) unfolding match_dims_def Let_def fst_conv snd_conv by simp_all
  have "(j, q) \<in> set M \<longleftrightarrow> (\<exists>i<n. ?f i = Some (j, q))" unfolding M set_map_filter_iff by force
  moreover have "?f i = Some (j, q) \<longleftrightarrow> i = j \<and> ?m j = Matched q" for i by (cases "?m i") auto
  ultimately show "(j, q) \<in> set M \<longleftrightarrow> j < n \<and> ?m j = Matched q" by auto
  show "distinct (map fst M)" unfolding M map_filter_fst by simp
  show "j \<in> set U \<longleftrightarrow> j < n \<and> ?m j = Unmatched" unfolding U by auto
qed

lemma pstar_unique:
  assumes w: "\<forall>p<length sizes. p \<noteq> pstar \<and> 1 < sizes ! p \<longrightarrow> p \<in> snd ` set M" and n: "pstar \<notin> snd ` set M"
    and p: "pstar < length sizes" "1 < sizes ! pstar"
  shows "pstar_candidates sizes (unmatched_hosts sizes M) = [pstar]" "unmatched_hosts sizes M \<noteq> []" "pstar \<in> set (unmatched_hosts sizes M)"
proof -
  show m: "pstar \<in> set (unmatched_hosts sizes M)" using n p by (simp add: unmatched_hosts_def)
  then show "unmatched_hosts sizes M \<noteq> []" by auto
  have "filter (\<lambda>p. sizes ! p > 1) (unmatched_hosts sizes M) = [pstar]"
    by (rule filter_only [OF _ m]) (use w p in \<open>auto simp: unmatched_hosts_def\<close>)
  then show "pstar_candidates sizes (unmatched_hosts sizes M) = [pstar]" by (simp add: pstar_candidates_def)
qed

lemma reclassify_found:
  assumes d: "describes stl roles pstar sizes strides" and h: "host_ok sizes strides" and e: "2 \<le> stl_eps stl"
    and st: "stick = None \<or> stick = Some pstar"
  shows "found_roles stl roles pstar sizes (reclassify stl sizes strides (match_dims stl sizes strides stick))"
proof -
  obtain M U where MU: "match_dims stl sizes strides stick = (M, U)" by force
  have n: "length (stride_map stl) = Suc (length roles)" using d by (simp add: describes_def)
  note F = match_dims_facts [OF n MU]
  let ?tc = "sticks (stl_eps stl) (sizes ! pstar)"
  note R = match_role [OF d h e st _ refl]
  have keep: "\<not> collides stl strides tc (j, q)" if "roles ! j = Walks q \<and> 1 < sizes ! q \<or> device_size stl ! j = 1" "j < length roles" for j q tc
    using that describes_role [OF d that(2)] by (auto simp: collides_def role_ok_def)
  have M: "j < length roles \<and> q < length sizes \<and> (roles ! j = Walks q \<and> 1 < sizes ! q \<or> device_size stl ! j = 1 \<and> stride_map stl ! j = -1 \<and> sizes ! q = 1 \<or>
      roles ! j = TileCount \<and> 1 < sizes ! pstar \<and> q \<noteq> pstar \<and> collides stl strides ?tc (j, q))" if "(j, q) \<in> set M" for j q
    using R [of j] that F(1) by auto
  have W: "(j, p) \<in> set M" if "j < length roles" "roles ! j = Walks p" "1 < sizes ! p" for j p using R [of j] that F(1) by auto
  have U: "j \<in> set U \<or> (\<exists>q. (j, q) \<in> set M \<and> collides stl strides ?tc (j, q))" if "j < length roles" "roles ! j = TileCount" "1 < sizes ! pstar" for j
    using R [of j] that F(1,2) by (auto simp: collides_def)
  have U': "j < length roles \<and> roles ! j = TileCount \<and> 1 < sizes ! pstar" if "j \<in> set U" for j using R [of j] that F(2) by auto
  show ?thesis
  proof (cases "1 < sizes ! pstar")
    case True
    have ps: "pstar < length sizes" using d by (simp add: describes_def)
    have "p \<in> snd ` set M" if "p < length sizes" "p \<noteq> pstar" "1 < sizes ! p" for p
    proof -
      have "Walks p \<in> set roles" using d that by (simp add: describes_def list_all_iff)
      then obtain j where "j < length roles" "roles ! j = Walks p" by (metis in_set_conv_nth)
      then show ?thesis using W that(3) by force
    qed
    moreover have "pstar \<notin> snd ` set M"
    proof
      assume "pstar \<in> snd ` set M"
      then obtain j where "(j, pstar) \<in> set M" by force
      from M [OF this] True have "j < length roles" "roles ! j = Walks pstar" by auto
      with describes_role [OF d this(1)] show False by (simp add: role_ok_def)
    qed
    ultimately have "find_pstar sizes M = Some pstar" using pstar_unique(1) [of sizes pstar M] ps True by (simp add: find_pstar_def)
    then have rc: "reclassify stl sizes strides (M, U) = (filter (\<lambda>jp. \<not> collides stl strides ?tc jp) M, U @ map fst (filter (collides stl strides ?tc) M))"
      by (simp add: reclassify_def Let_def)
    have "j < length roles \<and> roles ! j = TileCount" if "(j, q) \<in> set M" "collides stl strides ?tc (j, q)" for j q
      using M [OF that(1)] keep [of j q ?tc] that(2) by blast
    then have "set (snd (reclassify stl sizes strides (M, U))) = {j. j < length roles \<and> roles ! j = TileCount \<and> 1 < sizes ! pstar}"
      unfolding rc using U U' True by force
    moreover have "distinct (map fst (fst (reclassify stl sizes strides (M, U))))" unfolding rc using F(3) by (simp add: distinct_map_filter)
    ultimately show ?thesis unfolding found_roles_def MU rc using M W keep by fastforce
  next
    case False
    have none: "\<not> collides stl strides tc jp" if "jp \<in> set M" for tc jp using M [of "fst jp" "snd jp"] keep [of "fst jp" "snd jp" tc] that False by auto
    have "filter (\<lambda>jp. \<not> collides stl strides tc jp) M = M" "filter (collides stl strides tc) M = []" for tc
      using none by (auto simp: filter_id_conv filter_empty_conv)
    then have "reclassify stl sizes strides (M, U) = (M, U)" by (simp add: reclassify_def Let_def split: option.split)
    moreover have "U = []" using U' False by (cases U) force+
    ultimately show ?thesis unfolding found_roles_def MU using M W F(3) False by fastforce
  qed
qed

subsection \<open>The updated entries\<close>

lemma walked_entries:
  assumes "distinct (map fst M)" "\<forall>jp\<in>set M. fst jp < length (fst ds) \<and> fst jp < length (snd ds)"
    and "fold (resize_matched stl new old_hs new_hs) M ds = ds'"
  shows "length (fst ds') = length (fst ds) \<and> length (snd ds') = length (snd ds) \<and>
    (\<forall>j q. (j, q) \<in> set M \<longrightarrow> fst ds' ! j = new ! q \<and>
       snd ds' ! j = (if new ! q = 1 then -1 else if stride_map stl ! j = old_hs ! q then new_hs ! q else snd ds ! j)) \<and>
    (\<forall>j. j \<notin> fst ` set M \<longrightarrow> fst ds' ! j = fst ds ! j \<and> snd ds' ! j = snd ds ! j)"
  using assms
proof (induction M arbitrary: ds)
  case (Cons jp M)
  obtain i p where jp: "jp = (i, p)" by force
  define d1 where "d1 = resize_matched stl new old_hs new_hs jp ds"
  have len: "length (fst d1) = length (fst ds)" "length (snd d1) = length (snd ds)" by (simp_all add: d1_def resize_matched_def jp)
  have i: "i < length (fst ds)" "i < length (snd ds)" "i \<notin> fst ` set M" using Cons.prems(1,2) jp by auto
  have top: "fst d1 ! i = new ! p" "snd d1 ! i = (if new ! p = 1 then -1 else if stride_map stl ! i = old_hs ! p then new_hs ! p else snd ds ! i)"
    using i by (simp_all add: d1_def resize_matched_def jp)
  have other: "fst d1 ! j = fst ds ! j" "snd d1 ! j = snd ds ! j" if "j \<noteq> i" for j using that by (simp_all add: d1_def resize_matched_def jp)
  have IH: "length (fst ds') = length (fst d1) \<and> length (snd ds') = length (snd d1) \<and>
    (\<forall>j q. (j, q) \<in> set M \<longrightarrow> fst ds' ! j = new ! q \<and>
       snd ds' ! j = (if new ! q = 1 then -1 else if stride_map stl ! j = old_hs ! q then new_hs ! q else snd d1 ! j)) \<and>
    (\<forall>j. j \<notin> fst ` set M \<longrightarrow> fst ds' ! j = fst d1 ! j \<and> snd ds' ! j = snd d1 ! j)"
    by (rule Cons.IH) (use Cons.prems len in \<open>auto simp: d1_def\<close>)
  have "fst ds' ! j = new ! q \<and> snd ds' ! j = (if new ! q = 1 then -1 else if stride_map stl ! j = old_hs ! q then new_hs ! q else snd ds ! j)"
    if m: "(j, q) \<in> set (jp # M)" for j q
  proof (cases "(j, q) = jp")
    case True
    then show ?thesis using IH i(3) top jp by simp
  next
    case False
    then have "(j, q) \<in> set M" "j \<noteq> i" using m i(3) by force+
    then show ?thesis using IH other by simp
  qed
  then show ?case using IH len other jp by simp
qed simp

lemma tile_count_entries:
  assumes "\<forall>j\<in>set U. device_size stl ! j = sticks (stl_eps stl) (old ! pstar) \<and> stride_map stl ! j = min (stl_eps stl) (old ! pstar) * old_hs ! pstar \<and>
     j < length (fst ds) \<and> j < length (snd ds)"
  shows "\<exists>ds'. foldE (resize_tile_count stl old new old_hs new_hs mp pstar) U ds = Inr ds' \<and> length (fst ds') = length (fst ds) \<and> length (snd ds') = length (snd ds) \<and>
     (\<forall>j. fst ds' ! j = (if j \<in> set U then sticks (stl_eps stl) (new ! pstar) else fst ds ! j) \<and>
          snd ds' ! j = (if j \<in> set U then if new ! pstar = 1 then -1 else min (stl_eps stl) (new ! pstar) * new_hs ! pstar else snd ds ! j))"
  using assms
proof (induction U arbitrary: ds)
  case (Cons i U)
  obtain d1 where d1: "resize_tile_count stl old new old_hs new_hs mp pstar i ds = Inr d1"
    "fst d1 = (fst ds)[i := sticks (stl_eps stl) (new ! pstar)]"
    "snd d1 = (snd ds)[i := (if new ! pstar = 1 then -1 else min (stl_eps stl) (new ! pstar) * new_hs ! pstar)]"
    using Cons.prems by (auto simp: resize_tile_count_def Let_def)
  have "\<forall>j\<in>set U. device_size stl ! j = sticks (stl_eps stl) (old ! pstar) \<and> stride_map stl ! j = min (stl_eps stl) (old ! pstar) * old_hs ! pstar \<and>
     j < length (fst d1) \<and> j < length (snd d1)" using Cons.prems d1(2,3) by simp
  from Cons.IH [OF this] obtain ds' where "foldE (resize_tile_count stl old new old_hs new_hs mp pstar) U d1 = Inr ds'"
    "length (fst ds') = length (fst d1)" "length (snd ds') = length (snd d1)"
    "\<forall>j. fst ds' ! j = (if j \<in> set U then sticks (stl_eps stl) (new ! pstar) else fst d1 ! j) \<and>
          snd ds' ! j = (if j \<in> set U then if new ! pstar = 1 then -1 else min (stl_eps stl) (new ! pstar) * new_hs ! pstar else snd d1 ! j)" by blast
  then show ?case using d1 Cons.prems by (intro exI [of _ ds']) auto
qed auto

text \<open>Every device dimension gets the entries its role has in the tile.\<close>

definition tile_entries :: "SpyreTensorLayout \<Rightarrow> role list \<Rightarrow> nat \<Rightarrow> int list \<Rightarrow> int list \<Rightarrow> dev_dims \<Rightarrow> bool" where
  "tile_entries stl roles pstar new new_hs ds \<longleftrightarrow>
     length (fst ds) = Suc (length roles) \<and> length (snd ds) = Suc (length roles) \<and>
     (\<forall>j<length roles. role_ok (stl_eps stl) pstar new new_hs (roles ! j) (fst ds ! j) (snd ds ! j)) \<and>
     fst ds ! length roles = stl_eps stl"

lemma walked_roles:
  assumes d: "describes stl roles pstar sizes strides" and h: "host_ok sizes strides" and f: "found_roles stl roles pstar sizes m"
    and new: "length new = length sizes" "\<forall>p<length sizes. 1 \<le> new ! p \<and> new ! p \<le> sizes ! p" and e: "2 \<le> stl_eps stl"
    and w: "fold (resize_matched stl new strides new_hs) (fst m) (device_size stl, stride_map stl) = ds" and j: "j < length roles" "j \<notin> set (snd m)"
  shows "role_ok (stl_eps stl) pstar new new_hs (roles ! j) (fst ds ! j) (snd ds ! j)"
proof -
  have len: "length (device_size stl) = Suc (length roles)" "length (stride_map stl) = Suc (length roles)" "pstar < length sizes"
    using d by (auto simp: describes_def)
  have fm: "distinct (map fst (fst m))" "\<forall>jp\<in>set (fst m). fst jp < length (fst (device_size stl, stride_map stl)) \<and> fst jp < length (snd (device_size stl, stride_map stl))"
    using f len by (auto simp: found_roles_def)
  have W3: "fst ds ! j = new ! q \<and> snd ds ! j = (if new ! q = 1 then -1 else if stride_map stl ! j = strides ! q then new_hs ! q else stride_map stl ! j)"
    if "(j, q) \<in> set (fst m)" for q using walked_entries [OF fm w] that by simp
  have W4: "fst ds ! j = device_size stl ! j \<and> snd ds ! j = stride_map stl ! j" if "j \<notin> fst ` set (fst m)" using walked_entries [OF fm w] that by simp
  note ro = describes_role [OF d j(1), unfolded role_ok_def]
  have one: "new ! p = 1" if "sizes ! p = 1" "p < length sizes" for p using new(2) that by force
  have pos: "0 < sizes ! p" if "p < length sizes" for p using h that by (auto simp: host_ok_def nested_strides_def list_all_length)
  show ?thesis
  proof (cases "\<exists>p. roles ! j = Walks p \<and> 1 < sizes ! p")
    case True
    then obtain p where p: "roles ! j = Walks p" "1 < sizes ! p" by blast
    then have "(j, p) \<in> set (fst m)" using f j(1) by (auto simp: found_roles_def)
    from W3 [OF this] show ?thesis using ro p new(1) by (auto simp: role_ok_def)
  next
    case False
    have unit: "device_size stl ! j = 1 \<and> stride_map stl ! j = -1"
    proof (cases "roles ! j")
      case (Walks p)
      then show ?thesis using ro False pos [of p] by auto
    next
      case TileCount
      then have "\<not> 1 < sizes ! pstar" using f j by (auto simp: found_roles_def)
      then have "sizes ! pstar = 1" using pos [OF len(3)] by simp
      then show ?thesis using ro TileCount sticks_one [of 1 "stl_eps stl"] e by simp
    qed (use ro in simp)
    have "fst ds ! j = 1 \<and> snd ds ! j = -1"
    proof (cases "j \<in> fst ` set (fst m)")
      case True
      then obtain q where q: "(j, q) \<in> set (fst m)" by force
      then have "sizes ! q = 1" "q < length sizes" using f False by (auto simp: found_roles_def)
      then show ?thesis using W3 [OF q] one by simp
    qed (use W4 unit in simp)
    moreover have "new ! p = 1" if "roles ! j = Walks p" for p using that False ro pos [of p] one [of p] by auto
    moreover have "new ! pstar = 1" if "roles ! j = TileCount" using that f j pos [OF len(3)] one [OF _ len(3)] by (auto simp: found_roles_def)
    ultimately show ?thesis using ro sticks_one [of 1 "stl_eps stl"] e new(1) by (auto simp: role_ok_def split: role.split)
  qed
qed

lemma found_pstar:
  assumes d: "describes stl roles pstar sizes strides" and h: "host_ok sizes strides" and f: "found_roles stl roles pstar sizes m"
    and st: "stick = None \<or> stick = Some pstar"
  shows "1 < sizes ! pstar \<Longrightarrow> final_pstar sizes stick m = Inr (Some pstar)"
    "final_pstar sizes stick m = Inr (Some p) \<Longrightarrow> \<not> 1 < sizes ! pstar \<Longrightarrow> p < length sizes \<and> sizes ! p = 1"
proof -
  have ps: "pstar < length sizes" using d by (simp add: describes_def)
  have pos: "0 < sizes ! p" if "p < length sizes" for p using h that by (auto simp: host_ok_def nested_strides_def list_all_length)
  have W: "p \<in> snd ` set (fst m)" if "p < length sizes" "p \<noteq> pstar" "1 < sizes ! p" for p
  proof -
    have "Walks p \<in> set roles" using d that by (simp add: describes_def list_all_iff)
    then obtain j where "j < length roles" "roles ! j = Walks p" by (metis in_set_conv_nth)
    then have "(j, p) \<in> set (fst m)" using f that(3) by (simp add: found_roles_def)
    then show ?thesis by force
  qed
  show "final_pstar sizes stick m = Inr (Some pstar)" if g: "1 < sizes ! pstar"
  proof -
    have "pstar \<notin> snd ` set (fst m)"
    proof
      assume "pstar \<in> snd ` set (fst m)"
      then obtain j where "(j, pstar) \<in> set (fst m)" by force
      then have "j < length roles" "roles ! j = Walks pstar" using f g by (auto simp: found_roles_def)
      with describes_role [OF d this(1)] show False by (simp add: role_ok_def)
    qed
    then show ?thesis using pstar_unique [of sizes pstar "fst m"] W ps g st by (auto simp: final_pstar_def Let_def)
  qed
  show "p < length sizes \<and> sizes ! p = 1" if r: "final_pstar sizes stick m = Inr (Some p)" and n: "\<not> 1 < sizes ! pstar"
  proof -
    have sub: "set (pstar_candidates sizes (unmatched_hosts sizes (fst m))) \<subseteq> set (unmatched_hosts sizes (fst m))"
      by (auto simp: pstar_candidates_def Let_def)
    have "stick = Some p \<and> p = pstar \<or> pstar_candidates sizes (unmatched_hosts sizes (fst m)) = [p]"
      using r st by (auto simp: final_pstar_def Let_def split: option.split_asm if_split_asm list.split_asm)
    then have "p = pstar \<or> p \<in> set (unmatched_hosts sizes (fst m))" using sub by auto
    then have "p < length sizes \<and> \<not> 1 < sizes ! p" using W [of p] ps n by (auto simp: unmatched_hosts_def)
    then show ?thesis using pos [of p] by simp
  qed
qed

lemma resize_entries:
  assumes d: "describes stl roles pstar sizes strides" and h: "host_ok sizes strides" and f: "found_roles stl roles pstar sizes m"
    and new: "length new = length sizes" "\<forall>p<length sizes. 1 \<le> new ! p \<and> new ! p \<le> sizes ! p" and e: "2 \<le> stl_eps stl"
    and ps: "1 < sizes ! pstar \<Longrightarrow> ps = Some pstar" "\<And>p. \<not> 1 < sizes ! pstar \<Longrightarrow> ps = Some p \<Longrightarrow> p < length sizes \<and> sizes ! p = 1"
  shows "\<exists>ds. (case ps of None \<Rightarrow> Inr (fold (resize_matched stl new strides new_hs) (fst m) (device_size stl, stride_map stl))
     | Some p \<Rightarrow> bindE (foldE (resize_tile_count stl sizes new strides new_hs (map snd (fst m)) p) (snd m)
           (fold (resize_matched stl new strides new_hs) (fst m) (device_size stl, stride_map stl))) (resize_inner stl new strides new_hs p)) = Inr ds \<and>
     tile_entries stl roles pstar new new_hs ds \<and> snd ds ! length roles = (if new ! pstar = 1 then -1 else new_hs ! pstar)"
proof -
  define wd where "wd = fold (resize_matched stl new strides new_hs) (fst m) (device_size stl, stride_map stl)"
  have D: "length (device_size stl) = Suc (length roles)" "length (stride_map stl) = Suc (length roles)" "pstar < length sizes"
    "device_size stl ! length roles = stl_eps stl" "stride_map stl ! length roles = (if sizes ! pstar = 1 then -1 else strides ! pstar)"
    using d by (auto simp: describes_def)
  have fm: "distinct (map fst (fst m))" "\<forall>jp\<in>set (fst m). fst jp < length (fst (device_size stl, stride_map stl)) \<and> fst jp < length (snd (device_size stl, stride_map stl))"
    "length roles \<notin> fst ` set (fst m)" using f D by (auto simp: found_roles_def)
  have L: "length (fst wd) = Suc (length roles)" "length (snd wd) = Suc (length roles)" "fst wd ! length roles = stl_eps stl"
    "snd wd ! length roles = stride_map stl ! length roles"
    using walked_entries [OF fm(1,2) wd_def [symmetric]] D fm(3) by auto
  have W: "role_ok (stl_eps stl) pstar new new_hs (roles ! j) (fst wd ! j) (snd wd ! j)" if "j < length roles" "j \<notin> set (snd m)" for j
    using walked_roles [OF d h f new e wd_def [symmetric] that] .
  show ?thesis
  proof (cases "1 < sizes ! pstar")
    case True
    have U: "set (snd m) = {j. j < length roles \<and> roles ! j = TileCount}" using f True by (simp add: found_roles_def)
    have "\<forall>j\<in>set (snd m). device_size stl ! j = sticks (stl_eps stl) (sizes ! pstar) \<and> stride_map stl ! j = min (stl_eps stl) (sizes ! pstar) * strides ! pstar \<and>
       j < length (fst wd) \<and> j < length (snd wd)"
    proof
      fix j assume "j \<in> set (snd m)"
      then have j: "j < length roles" "roles ! j = TileCount" using U by auto
      then show "device_size stl ! j = sticks (stl_eps stl) (sizes ! pstar) \<and> stride_map stl ! j = min (stl_eps stl) (sizes ! pstar) * strides ! pstar \<and>
          j < length (fst wd) \<and> j < length (snd wd)" using describes_role [OF d j(1)] True L by (simp add: role_ok_def)
    qed
    from tile_count_entries [OF this, of new new_hs "map snd (fst m)"] obtain ds where
      ds: "foldE (resize_tile_count stl sizes new strides new_hs (map snd (fst m)) pstar) (snd m) wd = Inr ds" "length (fst ds) = length (fst wd)" "length (snd ds) = length (snd wd)"
      "\<And>j. fst ds ! j = (if j \<in> set (snd m) then sticks (stl_eps stl) (new ! pstar) else fst wd ! j)"
      "\<And>j. snd ds ! j = (if j \<in> set (snd m) then if new ! pstar = 1 then -1 else min (stl_eps stl) (new ! pstar) * new_hs ! pstar else snd wd ! j)" by auto
    define out where "out = (snd ds)[length roles := (if new ! pstar = 1 then -1 else new_hs ! pstar)]"
    have "resize_inner stl new strides new_hs pstar ds = Inr (fst ds, out)" using D True by (auto simp: resize_inner_def Let_def out_def)
    moreover have "role_ok (stl_eps stl) pstar new new_hs (roles ! j) (fst ds ! j) (snd ds ! j)" if "j < length roles" for j
      using W [OF that] that U by (auto simp: ds(4,5) role_ok_def)
    ultimately show ?thesis using ps(1) [OF True] ds(1-3) L U ds(4) [of "length roles"] unfolding wd_def [symmetric]
      by (auto simp: tile_entries_def out_def)
  next
    case False
    have "sizes ! pstar = 1" using False D(3) h by (auto simp: host_ok_def nested_strides_def list_all_length)
    then have one: "new ! pstar = 1" "snd wd ! length roles = -1" using new(2) D(3,5) L(4) by force+
    have U: "snd m = []" using f False by (simp add: found_roles_def)
    have t: "tile_entries stl roles pstar new new_hs wd" using L W U by (simp add: tile_entries_def)
    show ?thesis
    proof (cases ps)
      case None
      then show ?thesis using t one unfolding wd_def [symmetric] by simp
    next
      case (Some p)
      have "new ! p = 1" using ps(2) [OF False Some] new(2) by force
      then have "resize_inner stl new strides new_hs p wd = Inr (fst wd, (snd wd)[length roles := -1])" using D by (auto simp: resize_inner_def Let_def)
      moreover have "(snd wd)[length roles := -1] = snd wd" using one(2) by (metis list_update_id)
      ultimately show ?thesis using Some t one U unfolding wd_def [symmetric] by simp
    qed
  qed
qed

lemma resize_sound:
  assumes d: "describes stl roles pstar sizes strides" and h: "host_ok sizes strides" and e: "2 \<le> stl_eps stl"
    and new: "length new = length sizes" "\<forall>p<length sizes. 1 \<le> new ! p \<and> new ! p \<le> sizes ! p"
    and hint: "hint = None \<or> hint = Some (int pstar)"
    and r: "resize_device_layout contiguous stl sizes new hint (Some strides) (Some new_strides) = r"
  shows "(1 < sizes ! pstar \<longrightarrow> \<not> isl r) \<and>
     (\<forall>stl'. r = Inr stl' \<longrightarrow> describes stl' roles pstar new new_strides \<and> stl_eps stl' = stl_eps stl \<and>
        device_dtype stl' = device_dtype stl \<and> element_arrangement stl' = element_arrangement stl)"
proof -
  define stick where "stick = trusted_stick stl sizes hint"
  have st: "stick = None \<or> stick = Some pstar" using hint by (auto simp: stick_def trusted_stick_def)
  define m where "m = reclassify stl sizes strides (match_dims stl sizes strides stick)"
  have f: "found_roles stl roles pstar sizes m" unfolding m_def by (rule reclassify_found [OF d h e st])
  note P = found_pstar [OF d h f st]
  have shrink: "\<not> list_ex (\<lambda>(old, new). new > old) (zip sizes new)" using new by (auto simp: list_ex_iff set_zip not_less)
  define body where "body ps = (case ps of None \<Rightarrow> Inr (fold (resize_matched stl new strides new_strides) (fst m) (device_size stl, stride_map stl))
     | Some p \<Rightarrow> bindE (foldE (resize_tile_count stl sizes new strides new_strides (map snd (fst m)) p) (snd m)
           (fold (resize_matched stl new strides new_strides) (fst m) (device_size stl, stride_map stl))) (resize_inner stl new strides new_strides p))" for ps
  have r': "r = bindE (final_pstar sizes stick m) (\<lambda>ps. bindE (body ps) (\<lambda>ds. Inr (stl\<lparr>device_size := fst ds, stride_map := snd ds\<rparr>)))"
    unfolding r [symmetric] resize_device_layout_def body_def Let_def option.case stick_def m_def using new(1) shrink by simp
  show ?thesis
  proof (cases "final_pstar sizes stick m")
    case (Inl x)
    then show ?thesis using P(1) r' by auto
  next
    case (Inr ps)
    have "\<exists>ds. body ps = Inr ds \<and> tile_entries stl roles pstar new new_strides ds \<and> snd ds ! length roles = (if new ! pstar = 1 then -1 else new_strides ! pstar)"
      unfolding body_def by (rule resize_entries [OF d h f new e]) (use P Inr in auto)
    then obtain ds where ds: "body ps = Inr ds" "tile_entries stl roles pstar new new_strides ds" "snd ds ! length roles = (if new ! pstar = 1 then -1 else new_strides ! pstar)" by blast
    have "list_all (\<lambda>p. p \<noteq> pstar \<and> new ! p > 1 \<longrightarrow> Walks p \<in> set roles) [0..<length new]"
      using d new by (fastforce simp: describes_def list_all_iff)
    then have "describes (stl\<lparr>device_size := fst ds, stride_map := snd ds\<rparr>) roles pstar new new_strides"
      using ds(2,3) d new(1) by (simp add: describes_def tile_entries_def list_all_iff)
    then show ?thesis using r' Inr ds(1) by auto
  qed
qed

text \<open>
  C16: Resizing keeps a device layout true to its host buffer.  If the layout describes a host buffer whose
  strides nest, and no dimension grows, then the resized layout describes the smaller buffer with its new
  strides, every device dimension in the role it had; whether or not the caller names the stick dimension, and
  whatever sizes coincide.  When the stick dimension has more than one element the resizing does return.
\<close>

theorem resized_layout_describes_tile:
  assumes d: "describes stl roles pstar sizes strides" and h: "host_ok sizes strides" and e: "2 \<le> stl_eps stl"
    and new: "length new = length sizes" "\<forall>p<length sizes. 1 \<le> new ! p \<and> new ! p \<le> sizes ! p"
    and hint: "hint = None \<or> hint = Some (int pstar)"
    and r: "resize_device_layout contiguous stl sizes new hint (Some strides) (Some new_strides) = r"
  shows "(1 < sizes ! pstar \<longrightarrow> \<not> isl r) \<and>
     (\<forall>stl'. r = Inr stl' \<longrightarrow> describes stl' roles pstar new new_strides \<and> stl_eps stl' = stl_eps stl \<and>
        device_dtype stl' = device_dtype stl \<and> element_arrangement stl' = element_arrangement stl)"
  by (rule resize_sound [OF d h e new hint r])

definition demo_stl :: SpyreTensorLayout where
  "demo_stl = \<lparr>device_size = [2, 2, 64], stride_map = [64, 128, 1], stl_eps = 64, device_dtype = ''DL16'', element_arrangement = ''STANDARD''\<rparr>"

theorem resized_layout_describes_tile_witness:
  "\<exists>stl'. resize_device_layout (\<lambda>_. []) demo_stl [2, 128] [1, 128] None (Some [128, 1]) (Some [0, 1]) = Inr stl' \<and>
     describes stl' [TileCount, Walks 0] 1 [1, 128] [0, 1]"
proof -
  let ?r = "resize_device_layout (\<lambda>_. []) demo_stl [2, 128] [1, 128] None (Some [128, 1]) (Some [0, 1])"
  have d: "describes demo_stl [TileCount, Walks 0] 1 [2, 128] [128, 1]" "host_ok [2, 128] [128, 1]" "2 \<le> stl_eps demo_stl" by code_simp+
  have n: "\<forall>p<length [2, 128 :: int]. 1 \<le> [1, 128 :: int] ! p \<and> [1, 128 :: int] ! p \<le> [2, 128] ! p" by (auto simp: less_Suc_eq)
  have "\<not> isl ?r" and i: "\<And>stl'. ?r = Inr stl' \<Longrightarrow> describes stl' [TileCount, Walks 0] 1 [1, 128] [0, 1]"
    using resized_layout_describes_tile [OF d _ n, of None "\<lambda>_. []" "[0, 1]" ?r] by auto
  from sum.collapse(2) [OF this(1)] i show ?thesis by metis
qed

end
