(* ===== verification/Tile_Prediction.thy ===== *)
theory Tile_Prediction
  imports Tile_Options Device_Resize "HOL-Library.AList"
begin

text \<open>
  The frame a tiling would leave an operation in, predicted without applying it (\<open>wsr/tile_prediction.py\<close>,
  \<open>_post_tile_layout_for_splits\<close> and \<open>_post_tile_resize_error\<close> of \<open>wsr/span_overflow_hint_analysis.py\<close>,
  \<open>_rescale_index\<close> of \<open>wsr/loop_tiling_common.py\<close>).

  Host sizes, strides and the terms of a write index are static integers, as the resolver demands of an
  operation it lets be tiled; an extent of the ranges may be symbolic, and \<open>quot\<close> renders what sympy makes of
  a symbolic extent divided by a count.  \<open>stick_of\<close> is what \<open>_stick_host_dim\<close> recovers for a device layout,
  \<open>contiguous\<close> the strides Inductor gives a size.
\<close>

record FixedTiledLayout =
  ftl_size :: "int list"
  ftl_stride :: "int list"
  ftl_device :: SpyreTensorLayout

record PredictedFrame =
  pf_tiling :: TileSpec
  pf_ranges :: "extent list"
  pf_reduction_ranges :: "extent list"
  pf_layout :: FixedTiledLayout
  pf_write_index :: tile_expr
  pf_iter_space :: "(string \<times> extent) list"

text \<open>What the prediction takes from elsewhere: the quotient of a symbolic extent, the contiguous strides of a
  size, and \<open>_stick_host_dim\<close>, the stick dimension recovered from a device layout.\<close>

record layout_env =
  le_quotient :: "string \<Rightarrow> int \<Rightarrow> string"
  le_contiguous :: "int list \<Rightarrow> int list"
  le_stick_of :: "SpyreTensorLayout \<Rightarrow> int option"

subsection \<open>Dividing extents\<close>

definition try_exact_div :: "(string \<Rightarrow> int \<Rightarrow> string) \<Rightarrow> extent \<Rightarrow> int \<Rightarrow> extent option res" where
  "try_exact_div quot value c =
     (case value of
        Static v \<Rightarrow> if c = 0 then Inl ZeroDivisionError else if v mod c \<noteq> 0 then Inr None else Inr (Some (Static (v div c)))
      | Symbolic s \<Rightarrow> Inr (Some (Symbolic (quot s c))))"

fun try_div_extents :: "(string \<Rightarrow> int \<Rightarrow> string) \<Rightarrow> extent list \<Rightarrow> (nat \<times> int) list \<Rightarrow> extent list option res" where
  "try_div_extents quot divided [] = Inr (Some divided)"
| "try_div_extents quot divided ((pos, c) # cs) =
     (if pos \<ge> length divided then Inl IndexError
      else bindE (try_exact_div quot (divided ! pos) c) (\<lambda>r. case r of
          None \<Rightarrow> Inr None
        | Some e \<Rightarrow> try_div_extents quot (divided[pos := e]) cs))"

definition add_count :: "'k \<Rightarrow> int \<Rightarrow> ('k \<times> int) list \<Rightarrow> ('k \<times> int) list" where
  "add_count pos c cts = AList.update pos ((case map_of cts pos of None \<Rightarrow> 1 | Some n \<Rightarrow> n) * c) cts"

fun count_axes :: "tile_op \<Rightarrow> (TileAxis \<times> string) list \<Rightarrow> (nat \<times> int) list \<times> (nat \<times> int) list \<Rightarrow> ((nat \<times> int) list \<times> (nat \<times> int) list) res" where
  "count_axes op [] cts = Inr cts"
| "count_axes op ((axis, loop_var) # rest) (out_counts, red_counts) =
     (if axis_is_reduction axis
      then bindE (loop_var_to_reduction_ranges_pos op loop_var) (\<lambda>pos. case pos of
          None \<Rightarrow> Inl AssertionError
        | Some p \<Rightarrow> count_axes op rest (out_counts, add_count p (axis_count axis) red_counts))
      else count_axes op rest (add_count (nat (host_dim axis)) (axis_count axis) out_counts, red_counts))"

definition output_and_reduction_counts :: "tile_op \<Rightarrow> TileSpec \<Rightarrow> ((nat \<times> int) list \<times> (nat \<times> int) list) res" where
  "output_and_reduction_counts op spec =
     bindE (try_resolve_tile_axis_loop_vars op spec) (\<lambda>r. case r of
         None \<Rightarrow> Inl AssertionError
       | Some loop_vars \<Rightarrow> count_axes op (zip spec loop_vars) ([], []))"

fun div_iter_space :: "(string \<Rightarrow> int \<Rightarrow> string) \<Rightarrow> (string \<times> extent) list \<Rightarrow> (string \<times> int) list \<Rightarrow> (string \<times> extent) list option res" where
  "div_iter_space quot space [] = Inr (Some space)"
| "div_iter_space quot space ((s, c) # cs) =
     (case map_of space s of
        None \<Rightarrow> Inl KeyError
      | Some e \<Rightarrow> bindE (try_exact_div quot e c) (\<lambda>r. case r of
            None \<Rightarrow> Inr None
          | Some q \<Rightarrow> div_iter_space quot (AList.update s q space) cs))"

definition predict_iter_space :: "(string \<Rightarrow> int \<Rightarrow> string) \<Rightarrow> tile_op \<Rightarrow> TileSpec \<Rightarrow> (string \<times> extent) list option res" where
  "predict_iter_space quot op spec =
     bindE (try_resolve_tile_axis_loop_vars op spec) (\<lambda>r. case r of
         None \<Rightarrow> Inr None
       | Some loop_vars \<Rightarrow>
           div_iter_space quot (iter_space op) (fold (\<lambda>(axis, s). add_count s (axis_count axis)) (zip spec loop_vars) []))"

subsection \<open>The layout\<close>

definition shrink_layout :: "layout_env \<Rightarrow> nat \<Rightarrow> int \<Rightarrow> FixedTiledLayout \<Rightarrow> FixedTiledLayout option res" where
  "shrink_layout env dim c l =
     (if dim \<ge> length (ftl_size l) then Inl IndexError
      else if c = 0 then Inl ZeroDivisionError
      else if ftl_size l ! dim mod c \<noteq> 0 then Inr None
      else
        let new_size = (ftl_size l)[dim := ftl_size l ! dim div c]
        in case compute_tile_stride (ftl_size l) (ftl_stride l) new_size of
             Inl e \<Rightarrow> if e = Unsupported then Inr None else Inl e
           | Inr new_stride \<Rightarrow>
               (case resize_device_layout (le_contiguous env) (ftl_device l) (ftl_size l) new_size (le_stick_of env (ftl_device l))
                       (Some (ftl_stride l)) (Some new_stride) of
                  Inl e \<Rightarrow> if e \<in> {RuntimeError, Unsupported} then Inr None else Inl e
                | Inr dev \<Rightarrow> Inr (Some \<lparr>ftl_size = new_size, ftl_stride = new_stride, ftl_device = dev\<rparr>)))"

fun predict_output_layout :: "layout_env \<Rightarrow> TileSpec \<Rightarrow> FixedTiledLayout \<Rightarrow> FixedTiledLayout option res" where
  "predict_output_layout env [] l = Inr (Some l)"
| "predict_output_layout env (axis # axes) l =
     (if axis_is_reduction axis then predict_output_layout env axes l
      else bindE (shrink_layout env (nat (host_dim axis)) (axis_count axis) l) (\<lambda>r. case r of
          None \<Rightarrow> Inr None
        | Some l' \<Rightarrow> predict_output_layout env axes l'))"

fun split_sizes :: "(int \<times> int) list \<Rightarrow> int list \<Rightarrow> int list res" where
  "split_sizes [] new_size = Inr new_size"
| "split_sizes ((dim, c) # rest) new_size =
     (if c \<le> 0 then Inl Unsupported
      else if dim \<ge> int (length new_size) then Inl Unsupported
      else if new_size ! nat dim mod c \<noteq> 0 then Inl Unsupported
      else split_sizes rest (new_size[nat dim := new_size ! nat dim div c]))"

definition post_tile_layout_for_splits :: "(int list \<Rightarrow> int list) \<Rightarrow> FixedTiledLayout \<Rightarrow> (int \<times> int) list \<Rightarrow> int option \<Rightarrow> FixedTiledLayout res" where
  "post_tile_layout_for_splits contiguous original split_by_host_dim stick_host_dim =
     bindE (split_sizes split_by_host_dim (ftl_size original)) (\<lambda>new_size.
     bindE (compute_tile_stride (ftl_size original) (ftl_stride original) new_size) (\<lambda>new_stride.
       case resize_device_layout contiguous (ftl_device original) (ftl_size original) new_size stick_host_dim
              (Some (ftl_stride original)) (Some new_stride) of
         Inl e \<Rightarrow> Inl (if e = RuntimeError then Unsupported else e)
       | Inr dev \<Rightarrow> Inr \<lparr>ftl_size = new_size, ftl_stride = new_stride, ftl_device = dev\<rparr>))"

definition post_tile_resize_error ::
  "(int list \<Rightarrow> int list) \<Rightarrow> bool \<Rightarrow> FixedTiledLayout \<Rightarrow> nat \<Rightarrow> nat list \<Rightarrow> nat \<Rightarrow> int \<Rightarrow> int option \<Rightarrow> bool res" where
  "post_tile_resize_error contiguous is_fixed_tiled layout n_ranges hinted dim n_splits stick_host_dim =
     (if n_splits \<le> 1 \<or> \<not> is_fixed_tiled \<or> length (ftl_size layout) \<noteq> n_ranges \<or> dim \<in> set hinted then Inr False
      else if dim \<ge> length (ftl_size layout) then Inl IndexError
      else
        let tile_size = (ftl_size layout)[dim := ftl_size layout ! dim div n_splits]
        in case bindE (compute_tile_stride (ftl_size layout) (ftl_stride layout) tile_size) (\<lambda>tile_stride.
                  resize_device_layout contiguous (ftl_device layout) (ftl_size layout) tile_size stick_host_dim
                    (Some (ftl_stride layout)) (Some tile_stride)) of
             Inl e \<Rightarrow> if e \<in> {RuntimeError, Unsupported} then Inr True else Inl e
           | Inr dev \<Rightarrow> Inr False)"

subsection \<open>The write index\<close>

fun take_matching :: "int \<Rightarrow> (int \<times> int) list \<Rightarrow> (int \<times> (int \<times> int) list) option" where
  "take_matching c [] = None"
| "take_matching c ((full, tile) # rest) =
     (if full \<noteq> 0 \<and> c = full then Some (tile, rest) else map_option (\<lambda>(t, r). (t, (full, tile) # r)) (take_matching c rest))"

fun rescale_terms :: "bool \<Rightarrow> (int \<times> string) list \<Rightarrow> (int \<times> int) list \<Rightarrow> (int \<times> string) list res" where
  "rescale_terms reject_ambiguous [] remaining = Inr []"
| "rescale_terms reject_ambiguous ((c, v) # terms) remaining =
     (case take_matching c remaining of
        None \<Rightarrow> Inl RuntimeError
      | Some (tile, rest) \<Rightarrow>
          if reject_ambiguous \<and> list_ex (\<lambda>(full, t). full \<noteq> 0 \<and> full = c \<and> t \<noteq> tile) remaining then Inl RuntimeError
          else bindE (rescale_terms reject_ambiguous terms rest) (\<lambda>out. Inr ((tile, v) # out)))"

definition rescale_index :: "tile_expr \<Rightarrow> int list \<Rightarrow> int list \<Rightarrow> bool \<Rightarrow> bool \<Rightarrow> tile_expr res" where
  "rescale_index index full_strides tile_strides strip_constant reject_ambiguous =
     bindE (rescale_terms reject_ambiguous (snd index) (sort_key (\<lambda>ft. - fst ft) (zip full_strides tile_strides))) (\<lambda>terms.
       Inr (if strip_constant then 0 else fst index, terms))"

subsection \<open>The frame\<close>

definition output_layout_rejection :: "tile_op \<Rightarrow> TileSpec \<Rightarrow> bool" where
  "output_layout_rejection op spec \<longleftrightarrow> \<not> list_all axis_is_reduction spec \<and> \<not> fixed_tiled op"

definition rejection_reason :: "tile_op \<Rightarrow> TileSpec \<Rightarrow> bool res" where
  "rejection_reason op spec =
     (if is_untiled spec then Inr False
      else bindE (try_resolve_tile_axis_loop_vars op spec) (\<lambda>r. Inr (r = None \<or> output_layout_rejection op spec)))"

definition finish_frame ::
  "FixedTiledLayout \<Rightarrow> tile_expr option \<Rightarrow> TileSpec \<Rightarrow> bool \<Rightarrow> extent list option \<Rightarrow> extent list option \<Rightarrow> FixedTiledLayout option \<Rightarrow>
     (string \<times> extent) list option \<Rightarrow> PredictedFrame option res" where
  "finish_frame layout write spec tiles_output ranges red_ranges new_layout space =
     (case (ranges, red_ranges, new_layout, space) of
        (Some rs, Some rr, Some l, Some sp) \<Rightarrow>
          (case write of
             None \<Rightarrow> Inl StopIteration
           | Some w \<Rightarrow>
               bindE (if tiles_output then rescale_index w (ftl_stride layout) (ftl_stride l) False False else Inr w) (\<lambda>w'.
                 Inr (Some \<lparr>pf_tiling = spec, pf_ranges = rs, pf_reduction_ranges = rr, pf_layout = l, pf_write_index = w', pf_iter_space = sp\<rparr>)))
      | _ \<Rightarrow> Inr None)"

definition predict_frame :: "layout_env \<Rightarrow> tile_op \<Rightarrow> FixedTiledLayout \<Rightarrow> tile_expr option \<Rightarrow> TileSpec \<Rightarrow> PredictedFrame option res" where
  "predict_frame env op layout write spec =
     bindE (rejection_reason op spec) (\<lambda>rejected.
       if rejected then Inr None
       else
         bindE (output_and_reduction_counts op spec) (\<lambda>axis_counts.
         bindE (try_div_extents (le_quotient env) (case data_ranges op of None \<Rightarrow> [] | Some rs \<Rightarrow> rs) (fst axis_counts)) (\<lambda>ranges.
         bindE (try_div_extents (le_quotient env) (Tile_Options.reduction_ranges op) (snd axis_counts)) (\<lambda>red_ranges.
         bindE (if fst axis_counts \<noteq> [] then predict_output_layout env spec layout else Inr (Some layout)) (\<lambda>new_layout.
         bindE (predict_iter_space (le_quotient env) op spec) (\<lambda>space.
           finish_frame layout write spec (fst axis_counts \<noteq> []) ranges red_ranges new_layout space))))))"

section \<open>A predicted layout describes the tile\<close>

definition described_layout :: "role list \<Rightarrow> nat \<Rightarrow> FixedTiledLayout \<Rightarrow> bool" where
  "described_layout roles pstar l \<longleftrightarrow>
     describes (ftl_device l) roles pstar (ftl_size l) (ftl_stride l) \<and> host_ok (ftl_size l) (ftl_stride l) \<and> 2 \<le> stl_eps (ftl_device l)"

lemma host_sizes_pos: "host_ok sizes strides \<Longrightarrow> d < length sizes \<Longrightarrow> 0 < sizes ! d"
  by (auto simp: host_ok_def nested_strides_def list_all_length)

lemma tile_layout_ok:
  assumes l: "described_layout roles pstar l" and len: "length new = length (ftl_size l)" "list_all (\<lambda>n. 0 < n) new"
    and c: "compute_tile_stride (ftl_size l) (ftl_stride l) new = Inr ts"
    and r: "resize_device_layout contiguous (ftl_device l) (ftl_size l) new hint (Some (ftl_stride l)) (Some ts) = Inr dev"
    and h: "hint = None \<or> hint = Some (int pstar)"
  shows "described_layout roles pstar \<lparr>ftl_size = new, ftl_stride = ts, ftl_device = dev\<rparr>"
proof -
  let ?s = "ftl_size l" and ?t = "ftl_stride l"
  have l': "describes (ftl_device l) roles pstar ?s ?t" "host_ok ?s ?t" "2 \<le> stl_eps (ftl_device l)" using l by (auto simp: described_layout_def)
  then have n: "nested_strides ?s ?t" by (simp add: host_ok_def)
  have dv: "tiles_divide ?s new = Inr True" using c by (auto simp: compute_tile_stride_def split: if_split_asm)
  have small: "\<forall>p<length ?s. 1 \<le> new ! p \<and> new ! p \<le> ?s ! p"
  proof (intro allI impI)
    fix p assume p: "p < length ?s"
    have "0 < new ! p" "new ! p dvd ?s ! p" using tiles_divide_True [OF dv p] len p by (auto simp: list_all_length)
    then show "1 \<le> new ! p \<and> new ! p \<le> ?s ! p" using host_sizes_pos [OF l'(2) p] zdvd_imp_le by auto
  qed
  have d: "describes dev roles pstar new ts \<and> stl_eps dev = stl_eps (ftl_device l)"
    using resize_sound [OF l' len(1) small h r] by simp
  have "0 < ts ! p" if p: "p < length new" "1 < new ! p" for p
  proof -
    have "1 < ?s ! p" "p < length ?s" using small p len(1) by auto
    then show ?thesis using tile_nested_strides(2) [OF c n len host_regular(1) [OF l'(2)]] p(2) by simp
  qed
  then have "host_ok new ts" using tile_nested_strides(1) [OF c n len] by (simp add: host_ok_def list_all_iff)
  then show ?thesis using d l'(3) by (simp add: described_layout_def)
qed

definition stick_hints_ok :: "layout_env \<Rightarrow> nat \<Rightarrow> bool" where
  "stick_hints_ok env pstar \<longleftrightarrow> (\<forall>dev. le_stick_of env dev = None \<or> le_stick_of env dev = Some (int pstar))"

lemma shrink_layout_ok:
  assumes l: "described_layout roles pstar l" and s: "shrink_layout env dim c l = Inr (Some l')" and c: "0 < c" and h: "stick_hints_ok env pstar"
  shows "described_layout roles pstar l'" "ftl_size l' = (ftl_size l)[dim := ftl_size l ! dim div c]" "dim < length (ftl_size l)" "c dvd ftl_size l ! dim"
proof -
  let ?new = "(ftl_size l)[dim := ftl_size l ! dim div c]"
  obtain ts dev where d: "dim < length (ftl_size l)" "c dvd ftl_size l ! dim"
    and t: "compute_tile_stride (ftl_size l) (ftl_stride l) ?new = Inr ts"
    and r: "resize_device_layout (le_contiguous env) (ftl_device l) (ftl_size l) ?new (le_stick_of env (ftl_device l)) (Some (ftl_stride l)) (Some ts) = Inr dev"
    and l': "l' = \<lparr>ftl_size = ?new, ftl_stride = ts, ftl_device = dev\<rparr>"
    using s by (auto simp: shrink_layout_def Let_def mod_eq_0_iff_dvd split: if_split_asm sum.split_asm)
  have ho: "host_ok (ftl_size l) (ftl_stride l)" using l by (simp add: described_layout_def)
  have "0 < ftl_size l ! dim div c" using host_sizes_pos [OF ho d(1)] c d(2) by (simp add: pos_imp_zdiv_pos_iff zdvd_imp_le)
  then have "list_all (\<lambda>n. 0 < n) ?new" using host_sizes_pos [OF ho] d(1) by (simp add: list_all_length nth_list_update)
  then show "described_layout roles pstar l'" unfolding l' using tile_layout_ok [OF l _ _ t r] h by (simp add: stick_hints_ok_def)
  show "ftl_size l' = ?new" "dim < length (ftl_size l)" "c dvd ftl_size l ! dim" using l' d by auto
qed

text \<open>
  The three ways to lay out one split agree.  For a count above one that divides its dimension, given the
  stick dimension the predictor recovers, the automatic planner's layout is the predicted one, and the
  enumerator's check finds no error exactly when there is such a layout.
\<close>

theorem one_split_routes_agree:
  assumes c: "1 < c" "dim < length (ftl_size l)" "c dvd ftl_size l ! dim" and h: "dim \<notin> set hinted"
    and s: "stick = le_stick_of env (ftl_device l)"
  shows "(post_tile_layout_for_splits (le_contiguous env) l [(int dim, c)] stick = Inr l' \<longleftrightarrow> shrink_layout env dim c l = Inr (Some l')) \<and>
     (post_tile_resize_error (le_contiguous env) True l (length (ftl_size l)) hinted dim c stick = Inr False \<longleftrightarrow>
        (\<exists>l'. shrink_layout env dim c l = Inr (Some l')))"
proof -
  let ?new = "(ftl_size l)[dim := ftl_size l ! dim div c]"
  let ?ts = "compute_tile_stride (ftl_size l) (ftl_stride l) ?new"
  let ?dev = "\<lambda>ts. resize_device_layout (le_contiguous env) (ftl_device l) (ftl_size l) ?new stick (Some (ftl_stride l)) (Some ts)"
  have shrink: "shrink_layout env dim c l = Inr (Some l') \<longleftrightarrow>
      (\<exists>ts dev. ?ts = Inr ts \<and> ?dev ts = Inr dev \<and> l' = \<lparr>ftl_size = ?new, ftl_stride = ts, ftl_device = dev\<rparr>)" for l'
    unfolding shrink_layout_def Let_def s using c by (cases ?ts) (auto simp: mod_eq_0_iff_dvd s split: sum.split)
  have "split_sizes [(int dim, c)] (ftl_size l) = Inr ?new" using c by (simp add: mod_eq_0_iff_dvd)
  then have "post_tile_layout_for_splits (le_contiguous env) l [(int dim, c)] stick = Inr l' \<longleftrightarrow>
      (\<exists>ts dev. ?ts = Inr ts \<and> ?dev ts = Inr dev \<and> l' = \<lparr>ftl_size = ?new, ftl_stride = ts, ftl_device = dev\<rparr>)"
    unfolding post_tile_layout_for_splits_def by (auto split: sum.split_asm)
  moreover have "post_tile_resize_error (le_contiguous env) True l (length (ftl_size l)) hinted dim c stick = Inr False \<longleftrightarrow>
      (\<exists>ts dev. ?ts = Inr ts \<and> ?dev ts = Inr dev)"
    unfolding post_tile_resize_error_def Let_def using c h by (cases ?ts) (auto split: sum.split)
  ultimately show ?thesis unfolding shrink by blast
qed

definition axes_ok :: "TileSpec \<Rightarrow> bool" where
  "axes_ok spec \<longleftrightarrow> list_all (\<lambda>a. 0 \<le> host_dim a \<and> 0 < axis_count a) spec"

lemma count_for_Cons: "count_for (a # spec) key = (if (host_dim a, axis_is_reduction a) = key then axis_count a else 1) * count_for spec key"
  by (simp add: count_for_def)

lemma predict_output_layout_ok:
  assumes "described_layout roles pstar l" "predict_output_layout env spec l = Inr (Some l')" "axes_ok spec" "stick_hints_ok env pstar"
  shows "described_layout roles pstar l' \<and> length (ftl_size l') = length (ftl_size l) \<and>
     (\<forall>d<length (ftl_size l). ftl_size l' ! d * count_for spec (int d, False) = ftl_size l ! d)"
  using assms
proof (induction spec arbitrary: l)
  case Nil
  then show ?case by (simp add: count_for_def)
next
  case (Cons a spec)
  have ok: "0 \<le> host_dim a" "0 < axis_count a" "axes_ok spec" using Cons.prems(3) by (auto simp: axes_ok_def)
  show ?case
  proof (cases "axis_is_reduction a")
    case True
    then show ?thesis using Cons.IH [OF Cons.prems(1) _ ok(3) Cons.prems(4)] Cons.prems(2) by (simp add: count_for_Cons)
  next
    case False
    then obtain l1 where s: "shrink_layout env (nat (host_dim a)) (axis_count a) l = Inr (Some l1)" and r: "predict_output_layout env spec l1 = Inr (Some l')"
      using Cons.prems(2) by (auto split: option.split_asm)
    note S = shrink_layout_ok [OF Cons.prems(1) s ok(2) Cons.prems(4)]
    have IH: "described_layout roles pstar l' \<and> length (ftl_size l') = length (ftl_size l1) \<and>
       (\<forall>d<length (ftl_size l1). ftl_size l' ! d * count_for spec (int d, False) = ftl_size l1 ! d)"
      by (rule Cons.IH [OF S(1) r ok(3) Cons.prems(4)])
    have "ftl_size l' ! d * count_for (a # spec) (int d, False) = ftl_size l ! d" if d: "d < length (ftl_size l)" for d
    proof (cases "nat (host_dim a) = d")
      case True
      have "ftl_size l' ! d * (axis_count a * count_for spec (int d, False)) = axis_count a * (ftl_size l' ! d * count_for spec (int d, False))" by simp
      also have "\<dots> = ftl_size l ! d" using IH S(2-4) d True by simp
      finally show ?thesis using True False ok(1) by (auto simp: count_for_Cons)
    next
      case ne: False
      then have "host_dim a \<noteq> int d" by auto
      then show ?thesis using IH S(2) d ne by (simp add: count_for_Cons)
    qed
    then show ?thesis using IH S(2) by simp
  qed
qed

subsection \<open>The iteration space of the tile\<close>

definition var_count :: "(TileAxis \<times> string) list \<Rightarrow> string \<Rightarrow> int" where
  "var_count avs s = prod_list (map (axis_count \<circ> fst) (filter (\<lambda>av. snd av = s) avs))"

lemma add_count_lookup:
  "(case map_of (add_count k c m) k' of None \<Rightarrow> 1 | Some n \<Rightarrow> n) = (case map_of m k' of None \<Rightarrow> 1 | Some n \<Rightarrow> n) * (if k = k' then c else 1)"
  by (simp add: add_count_def update_conv')

lemma add_count_distinct: "distinct (map fst m) \<Longrightarrow> distinct (map fst (add_count k c m))"
  by (simp add: add_count_def distinct_update)

lemma add_counts_distinct: "distinct (map fst m) \<Longrightarrow> distinct (map fst (fold (\<lambda>(axis, s). add_count s (axis_count axis)) avs m))"
  by (induction avs arbitrary: m) (auto simp: add_count_distinct)

lemma add_counts_lookup:
  "(case map_of (fold (\<lambda>(axis, s). add_count s (axis_count axis)) avs m) s of None \<Rightarrow> 1 | Some n \<Rightarrow> n) =
     (case map_of m s of None \<Rightarrow> 1 | Some n \<Rightarrow> n) * var_count avs s"
proof (induction avs arbitrary: m)
  case (Cons av avs)
  obtain a v where av: "av = (a, v)" by force
  show ?case using Cons.IH [of "add_count v (axis_count a) m"] unfolding add_count_lookup by (simp add: av var_count_def mult.assoc)
qed (simp add: var_count_def)

lemma div_iter_space_ok:
  assumes "div_iter_space quot space cs = Inr (Some space')" "distinct (map fst cs)" "map_of space s = Some (Static n)"
  shows "\<exists>n'. map_of space' s = Some (Static n') \<and> n' * (case map_of cs s of None \<Rightarrow> 1 | Some c \<Rightarrow> c) = n"
  using assms
proof (induction cs arbitrary: space n)
  case (Cons kc cs)
  obtain k c where kc: "kc = (k, c)" by force
  obtain e q where e: "map_of space k = Some e" "try_exact_div quot e c = Inr (Some q)" "div_iter_space quot (AList.update k q space) cs = Inr (Some space')"
    using Cons.prems(1) kc by (auto split: option.split_asm)
  have d: "distinct (map fst cs)" "map_of cs k = None" using Cons.prems(2) kc by (auto simp: map_of_eq_None_iff)
  show ?case
  proof (cases "k = s")
    case True
    then have q: "q = Static (n div c)" "c dvd n" using e(1,2) Cons.prems(3) by (auto simp: try_exact_div_def mod_eq_0_iff_dvd split: if_split_asm)
    have "map_of (AList.update k q space) s = Some (Static (n div c))" by (simp add: True q(1) update_conv')
    from Cons.IH [OF e(3) d(1) this] show ?thesis using True q(2) d(2) kc by auto
  next
    case False
    then have "map_of (AList.update k q space) s = Some (Static n)" using Cons.prems(3) by (simp add: update_conv')
    from Cons.IH [OF e(3) d(1) this] show ?thesis using False kc by simp
  qed
qed simp

lemma predict_iter_space_ok:
  assumes "predict_iter_space quot op spec = Inr (Some space)" "try_resolve_tile_axis_loop_vars op spec = Inr (Some vars)"
    "map_of (iter_space op) s = Some (Static n)"
  shows "\<exists>n'. map_of space s = Some (Static n') \<and> n' * var_count (zip spec vars) s = n"
proof -
  let ?cs = "fold (\<lambda>(axis, s). add_count s (axis_count axis)) (zip spec vars) []"
  have "div_iter_space quot (iter_space op) ?cs = Inr (Some space)" using assms(1,2) by (simp add: predict_iter_space_def)
  from div_iter_space_ok [OF this add_counts_distinct assms(3)] show ?thesis
    using add_counts_lookup [of "zip spec vars" "[]" s] by simp
qed

lemma count_axes_output:
  assumes "count_axes op avs (oc, rc) = Inr (oc', rc')"
  shows "oc \<noteq> [] \<or> \<not> list_all (\<lambda>av. axis_is_reduction (fst av)) avs \<Longrightarrow> oc' \<noteq> []"
  using assms
proof (induction avs arbitrary: oc rc)
  case (Cons av avs)
  obtain a v where av: "av = (a, v)" by force
  have ne: "add_count k c oc \<noteq> []" for k c by (simp add: add_count_def update_nonempty)
  show ?case
  proof (cases "axis_is_reduction a")
    case True
    then obtain p where "count_axes op avs (oc, add_count p (axis_count a) rc) = Inr (oc', rc')" using Cons.prems(2) av by (auto split: option.split_asm)
    from Cons.IH [OF _ this] show ?thesis using Cons.prems(1) av True by simp
  next
    case False
    then have "count_axes op avs (add_count (nat (host_dim a)) (axis_count a) oc, rc) = Inr (oc', rc')" using Cons.prems(2) av by simp
    from Cons.IH [OF _ this] show ?thesis using ne by simp
  qed
qed simp

lemma all_reduction_counts: "list_all axis_is_reduction spec \<Longrightarrow> count_for spec (d, False) = 1"
  by (induction spec) (simp_all add: count_for_def)

lemma resolve_axes_length: "resolve_axes op spec = Inr (Some vs) \<Longrightarrow> length vs = length spec"
  by (induction spec arbitrary: vs) (auto split: option.split_asm)

lemma finish_frame_Some:
  assumes "finish_frame layout write spec tiles_output ranges red_ranges new_layout space = Inr (Some fr)"
  shows "new_layout = Some (pf_layout fr) \<and> space = Some (pf_iter_space fr)"
  using assms unfolding finish_frame_def by (cases ranges; cases red_ranges; cases new_layout; cases space; cases "write") auto

lemma predict_frame_Some:
  assumes "predict_frame env op layout write spec = Inr (Some fr)"
  obtains oc rc where "output_and_reduction_counts op spec = Inr (oc, rc)"
    "(if oc \<noteq> [] then predict_output_layout env spec layout else Inr (Some layout)) = Inr (Some (pf_layout fr))"
    "predict_iter_space (le_quotient env) op spec = Inr (Some (pf_iter_space fr))"
proof -
  from assms have f: "bindE (output_and_reduction_counts op spec) (\<lambda>axis_counts.
         bindE (try_div_extents (le_quotient env) (case data_ranges op of None \<Rightarrow> [] | Some rs \<Rightarrow> rs) (fst axis_counts)) (\<lambda>ranges.
         bindE (try_div_extents (le_quotient env) (Tile_Options.reduction_ranges op) (snd axis_counts)) (\<lambda>red_ranges.
         bindE (if fst axis_counts \<noteq> [] then predict_output_layout env spec layout else Inr (Some layout)) (\<lambda>new_layout.
         bindE (predict_iter_space (le_quotient env) op spec) (\<lambda>space.
           finish_frame layout write spec (fst axis_counts \<noteq> []) ranges red_ranges new_layout space))))) = Inr (Some fr)"
    unfolding predict_frame_def by (rule bindE_InrE) (auto simp del: bindE_Inr_iff split: if_split_asm)
  from f show thesis
    by (elim bindE_InrE) (use that finish_frame_Some in \<open>metis prod.collapse\<close>)
qed

text \<open>
  C25: A predicted frame is the frame of the tile.  If the operation's layout describes its output buffer, a
  predicted layout describes the tile: the sizes are the whole sizes divided by the tile counts of their
  dimension, the strides still nest, and every device dimension keeps its role.  The predicted extent of a loop
  variable, times the counts of the levels that resolve to it, is its whole extent.
\<close>

theorem predicted_frame_is_tile:
  assumes f: "predict_frame env op layout write spec = Inr (Some fr)" and l: "described_layout roles pstar layout"
    and a: "axes_ok spec" and h: "stick_hints_ok env pstar"
  shows "described_layout roles pstar (pf_layout fr) \<and> length (ftl_size (pf_layout fr)) = length (ftl_size layout) \<and>
     (\<forall>d<length (ftl_size layout). ftl_size (pf_layout fr) ! d * count_for spec (int d, False) = ftl_size layout ! d) \<and>
     (\<exists>vars. try_resolve_tile_axis_loop_vars op spec = Inr (Some vars) \<and> length vars = length spec \<and>
        (\<forall>s n. map_of (iter_space op) s = Some (Static n) \<longrightarrow>
           (\<exists>n'. map_of (pf_iter_space fr) s = Some (Static n') \<and> n' * var_count (zip spec vars) s = n)))"
proof -
  obtain oc rc where oc: "output_and_reduction_counts op spec = Inr (oc, rc)"
    and l1: "(if oc \<noteq> [] then predict_output_layout env spec layout else Inr (Some layout)) = Inr (Some (pf_layout fr))"
    and sp: "predict_iter_space (le_quotient env) op spec = Inr (Some (pf_iter_space fr))" by (rule predict_frame_Some [OF f])
  obtain vars where v: "try_resolve_tile_axis_loop_vars op spec = Inr (Some vars)" and c: "count_axes op (zip spec vars) ([], []) = Inr (oc, rc)"
    using oc by (auto simp: output_and_reduction_counts_def split: option.split_asm)
  have len: "length vars = length spec" using v resolve_axes_length by (auto simp: try_resolve_tile_axis_loop_vars_def split: if_split_asm)
  have "list_all axis_is_reduction spec" if "oc = []"
  proof -
    have "list_all (\<lambda>av. axis_is_reduction (fst av)) (zip spec vars)" using count_axes_output [OF c] that by auto
    then have "list_all axis_is_reduction (map fst (zip spec vars))" by (simp add: list_all_iff)
    then show ?thesis using len by simp
  qed
  then have "described_layout roles pstar (pf_layout fr) \<and> length (ftl_size (pf_layout fr)) = length (ftl_size layout) \<and>
     (\<forall>d<length (ftl_size layout). ftl_size (pf_layout fr) ! d * count_for spec (int d, False) = ftl_size layout ! d)"
    using l1 l predict_output_layout_ok [OF l _ a h] all_reduction_counts by (cases "oc = []") auto
  moreover have "\<exists>n'. map_of (pf_iter_space fr) s = Some (Static n') \<and> n' * var_count (zip spec vars) s = n" if "map_of (iter_space op) s = Some (Static n)" for s n
    by (rule predict_iter_space_ok [OF sp v that])
  ultimately show ?thesis using v len by blast
qed

definition demo_tiled :: FixedTiledLayout where
  "demo_tiled = \<lparr>ftl_size = [8, 128], ftl_stride = [128, 1], ftl_device =
     \<lparr>device_size = [2, 8, 64], stride_map = [64, 128, 1], stl_eps = 64, device_dtype = ''DL16'', element_arrangement = ''STANDARD''\<rparr>\<rparr>"

definition demo_env :: layout_env where
  "demo_env = \<lparr>le_quotient = (\<lambda>s c. s), le_contiguous = (\<lambda>s. s), le_stick_of = (\<lambda>dev. Some 1)\<rparr>"

theorem one_split_routes_agree_witness:
  "\<exists>l'. post_tile_layout_for_splits (le_contiguous demo_env) demo_tiled [(0, 4)] (Some 1) = Inr l' \<and> shrink_layout demo_env 0 4 demo_tiled = Inr (Some l')"
proof -
  let ?p = "post_tile_layout_for_splits (le_contiguous demo_env) demo_tiled [(0, 4)] (Some 1)"
  have n: "\<not> isl ?p" "0 < length (ftl_size demo_tiled)" "4 dvd ftl_size demo_tiled ! 0" by code_simp+
  have s: "Some 1 = le_stick_of demo_env (ftl_device demo_tiled)" by (simp add: demo_env_def)
  obtain l' where "?p = Inr l'" using sum.collapse(2) [OF n(1)] by metis
  then show ?thesis using one_split_routes_agree [of 4 0 demo_tiled "[]", OF _ n(2,3) _ s, of l'] by auto
qed

theorem predicted_frame_is_tile_witness:
  "\<exists>fr. predict_frame demo_env demo_sum demo_tiled (Some (0, [(128, ''d0''), (1, ''d1'')])) [output_axis 0 2, reduction_axis 0 4] = Inr (Some fr) \<and>
     described_layout [TileCount, Walks 0] 1 (pf_layout fr) \<and> ftl_size (pf_layout fr) ! 0 * 2 = 8"
proof -
  let ?spec = "[output_axis 0 2, reduction_axis 0 4]"
  let ?p = "predict_frame demo_env demo_sum demo_tiled (Some (0, [(128, ''d0''), (1, ''d1'')])) ?spec"
  have n: "\<not> isl ?p" "\<not> Option.is_none (projr ?p)" by code_simp+
  obtain fr where p: "?p = Inr (Some fr)"
    using sum.collapse(2) [OF n(1)] n(2) by (cases "projr ?p") (simp_all only: Option.is_none_def simp_thms, metis)
  have l: "described_layout [TileCount, Walks 0] 1 demo_tiled" "axes_ok ?spec" by code_simp+
  have h: "stick_hints_ok demo_env 1" by (simp add: stick_hints_ok_def demo_env_def)
  have c: "count_for ?spec (int 0, False) = 2" "0 < length (ftl_size demo_tiled)" "ftl_size demo_tiled ! 0 = 8" by code_simp+
  note P = predicted_frame_is_tile [OF p l h]
  then have "ftl_size (pf_layout fr) ! 0 * count_for ?spec (int 0, False) = ftl_size demo_tiled ! 0" using c(2) by blast
  then show ?thesis using p P unfolding c by blast
qed

subsection \<open>The write index of the tile\<close>

lemma take_matching_unique:
  assumes "filter (\<lambda>ft. fst ft = c) R = [(c, t)]" "c \<noteq> 0"
  shows "\<exists>R'. take_matching c R = Some (t, R') \<and> (\<forall>c'. c' \<noteq> c \<longrightarrow> filter (\<lambda>ft. fst ft = c') R' = filter (\<lambda>ft. fst ft = c') R)"
  using assms
proof (induction R)
  case (Cons ft R)
  obtain full tile where ft: "ft = (full, tile)" by force
  show ?case
  proof (cases "full = c")
    case True
    then show ?thesis using Cons.prems ft by auto
  next
    case False
    then obtain R' where "take_matching c R = Some (t, R')" "\<forall>c'. c' \<noteq> c \<longrightarrow> filter (\<lambda>ft. fst ft = c') R' = filter (\<lambda>ft. fst ft = c') R"
      using Cons ft by auto
    then show ?thesis using False ft by auto
  qed
qed simp

lemma rescale_terms_unique:
  assumes "\<forall>cv\<in>set terms. fst cv \<noteq> 0 \<and> filter (\<lambda>ft. fst ft = fst cv) R = [(fst cv, t (fst cv))]" "distinct (map fst terms)"
  shows "rescale_terms False terms R = Inr (map (\<lambda>cv. (t (fst cv), snd cv)) terms)"
  using assms
proof (induction terms arbitrary: R)
  case (Cons cv terms)
  obtain c v where cv: "cv = (c, v)" by force
  obtain R' where R': "take_matching c R = Some (t c, R')" "\<forall>c'. c' \<noteq> c \<longrightarrow> filter (\<lambda>ft. fst ft = c') R' = filter (\<lambda>ft. fst ft = c') R"
    using take_matching_unique [of c R "t c"] Cons.prems(1) cv by auto
  have "rescale_terms False terms R' = Inr (map (\<lambda>cv. (t (fst cv), snd cv)) terms)"
  proof (rule Cons.IH)
    show "distinct (map fst terms)" using Cons.prems(2) by simp
    show "\<forall>cv\<in>set terms. fst cv \<noteq> 0 \<and> filter (\<lambda>ft. fst ft = fst cv) R' = [(fst cv, t (fst cv))]"
    proof
      fix x assume x: "x \<in> set terms"
      then have "fst x \<noteq> c" using Cons.prems(2) cv by (metis distinct.simps(2) fst_conv list.simps(9) list.set_map imageI)
      then show "fst x \<noteq> 0 \<and> filter (\<lambda>ft. fst ft = fst x) R' = [(fst x, t (fst x))]" using R'(2) Cons.prems(1) x by simp
    qed
  qed
  then show ?case using R'(1) cv by simp
qed simp

text \<open>
  A rescaled write index addresses the tile.  If the terms of an index step distinct dimensions of more
  than one element by their strides, and no dimension shares such a stride, the rescaling returns and replaces
  each stride by the tile stride of the same dimension.
\<close>

theorem rescaled_index_steps_tile:
  assumes len: "length tile_strides = length strides" and d: "\<forall>v\<in>set vs. dim v < length strides \<and> strides ! dim v \<noteq> 0" "distinct (map dim vs)"
    and u: "\<forall>v\<in>set vs. \<forall>q<length strides. strides ! q = strides ! dim v \<longrightarrow> q = dim v"
  shows "rescale_index (offset, map (\<lambda>v. (strides ! dim v, v)) vs) strides tile_strides False False =
     Inr (offset, map (\<lambda>v. (tile_strides ! dim v, v)) vs)"
proof -
  let ?R = "sort_key (\<lambda>ft. - fst ft) (zip strides tile_strides)"
  define t where "t c = tile_strides ! (THE q. q < length strides \<and> strides ! q = c)" for c
  have t: "t (strides ! dim v) = tile_strides ! dim v" if "v \<in> set vs" for v
  proof -
    have "(THE q. q < length strides \<and> strides ! q = strides ! dim v) = dim v" using d(1) u that by (intro the_equality) auto
    then show ?thesis by (simp add: t_def)
  qed
  have z: "zip strides tile_strides = map (\<lambda>q. (strides ! q, tile_strides ! q)) [0..<length strides]"
    using len by (intro nth_equalityI) auto
  have one: "filter (\<lambda>ft. fst ft = strides ! dim v) ?R = [(strides ! dim v, t (strides ! dim v))]" if v: "v \<in> set vs" for v
  proof -
    have "filter (\<lambda>q. strides ! q = strides ! dim v) [0..<length strides] = [dim v]"
      by (rule filter_only) (use d(1) u v in auto)
    then have "filter (\<lambda>ft. fst ft = strides ! dim v) (zip strides tile_strides) = [(strides ! dim v, tile_strides ! dim v)]"
      unfolding z filter_map by (simp add: o_def)
    then show ?thesis unfolding filter_sort t [OF v] by simp
  qed
  have "distinct (map fst (map (\<lambda>v. (strides ! dim v, v)) vs))"
    using d u by (auto simp: distinct_map inj_on_def o_def)
  then have "rescale_terms False (map (\<lambda>v. (strides ! dim v, v)) vs) ?R = Inr (map (\<lambda>cv. (t (fst cv), snd cv)) (map (\<lambda>v. (strides ! dim v, v)) vs))"
    by (intro rescale_terms_unique) (use d(1) one in auto)
  then show ?thesis unfolding rescale_index_def by (simp add: t cong: map_cong)
qed

theorem rescaled_index_steps_tile_witness:
  "rescale_index (0, [(128, ''d0''), (1, ''d1'')]) [128, 1] [64, 1] False False = Inr (0, [(64, ''d0''), (1, ''d1'')])"
  using rescaled_index_steps_tile [of "[64, 1]" "[128, 1]" "[''d0'', ''d1'']" "\<lambda>v. if v = ''d0'' then 0 else 1" 0]
  by (auto simp: less_Suc_eq)

text \<open>
  A dimension of one element can take the place of a larger one.  In a buffer of sizes 1, 4, 8 written with
  strides 8, 8, 1, tiled into 1, 2, 8, the term that steps the second dimension is matched with the first, whose
  tile stride is zero: the rescaled index no longer depends on the second dimension's variable.
\<close>

theorem rescale_confuses_unit_dimension:
  "compute_tile_stride [1, 4, 8] [8, 8, 1] [1, 2, 8] = Inr [0, 8, 1] \<and>
   rescale_index (0, [(8, ''d0''), (1, ''d1'')]) [8, 8, 1] [0, 8, 1] False False = Inr (0, [(0, ''d0''), (1, ''d1'')])"
  by (intro conjI) code_simp+

end
