(* ===== verification/Split_Space.thy ===== *)
theory Split_Space
  imports Division_Passes Tile_Prediction
begin

text \<open>
  One operation's core divisions and tilings as a space to move in (\<open>OpSplitSpace\<close>, \<open>build_op_split_space\<close>,
  \<open>work_division_context_for_op\<close> and \<open>_core_division\<close> of \<open>work_division.py\<close>).

  An operation is what these functions read of it: the facts of \<open>Tile_Options\<close> and its layout, its accesses, the
  symbol metadata and constraint rules of a frame, the span floors, and the index of its first write.
  \<open>so_hint\<close> is the compile-time value of a symbolic extent.  The cache of per-tile contexts stores results of a
  function of the tiling and is left out.
\<close>

record split_op =
  so_op :: tile_op
  so_layout :: FixedTiledLayout
  so_env :: layout_env
  so_hint :: "string \<Rightarrow> int"
  so_inputs :: "TensorDep list"
  so_output :: TensorDep
  so_meta :: "(string \<times> extent) list \<Rightarrow> symbol_meta"
  so_rules :: "itspace \<Rightarrow> itspace \<Rightarrow> rule_fn list"
  so_span_min :: "string splits"
  so_write :: "tile_expr option"
  so_enumerable :: bool

definition concretize :: "(string \<Rightarrow> int) \<Rightarrow> extent \<Rightarrow> int" where
  "concretize hint e = (case e of Static n \<Rightarrow> n | Symbolic s \<Rightarrow> hint s)"

definition frame_space :: "split_op \<Rightarrow> TileSpec \<Rightarrow> (string \<times> extent) list option res" where
  "frame_space op spec =
     (if is_untiled spec then Inr (Some (iter_space (so_op op)))
      else bindE (predict_frame (so_env op) (so_op op) (so_layout op) (so_write op) spec) (\<lambda>fr. Inr (map_option pf_iter_space fr)))"

definition context_in :: "split_op \<Rightarrow> int option \<Rightarrow> (string \<times> extent) list \<Rightarrow> WorkDivisionContext res" where
  "context_in op max_cores space =
     (let it_space = map (\<lambda>se. (fst se, concretize (so_hint op) (snd se))) space;
          meta = so_meta op space;
          tds = so_inputs op @ [so_output op]
      in bindE (adjust_it_space_for_sticks it_space tds meta) (\<lambda>adj.
         bindE (collect_work_division_constraints (so_rules op it_space (fst adj)) []) (\<lambda>cr.
           Inr \<lparr>ctx_max_cores = max_cores, ctx_it_space = it_space, it_space_adjusted = fst adj, ctx_stick_vars = snd adj,
             ctx_symbol_meta = meta, ctx_tensor_deps = tds,
             ctx_reduction_vars = filter (\<lambda>v. v \<notin> coord_vars (so_output op)) (map fst (fst adj)),
             ctx_blocked = res_blocked cr, ctx_allowed = res_allowed cr, ctx_span_min = so_span_min op\<rparr>)))"

definition work_division_context_for_op :: "split_op \<Rightarrow> int option \<Rightarrow> TileSpec \<Rightarrow> WorkDivisionContext option res" where
  "work_division_context_for_op op max_cores spec =
     bindE (frame_space op spec) (\<lambda>frame. case frame of
         None \<Rightarrow> Inr None
       | Some space \<Rightarrow> bindE (context_in op max_cores space) (\<lambda>c. Inr (Some c)))"

subsection \<open>Divisions\<close>

definition index_coeff :: "tile_expr \<Rightarrow> string \<Rightarrow> int" where
  "index_coeff index s = sum_list (map fst (filter (\<lambda>cv. snd cv = s) (snd index)))"

definition reduction_syms_of :: "split_op \<Rightarrow> string splits \<Rightarrow> string list" where
  "reduction_syms_of op sps =
     (case so_write op of
        None \<Rightarrow> []
      | Some index \<Rightarrow> filter (\<lambda>s. index_coeff index s = 0) (map fst sps))"

definition core_division :: "split_op \<Rightarrow> string splits \<Rightarrow> TileSpec \<Rightarrow> string splits \<Rightarrow> CoreDivision" where
  "core_division op sps spec tsplits =
     (let sparse = filter (\<lambda>sv. snd sv > 1) sps
      in \<lparr>splits = sparse, reduction_syms = reduction_syms_of op sparse, tiling = spec, tile_splits = tsplits\<rparr>)"

subsection \<open>The space\<close>

record OpSplitSpace =
  ss_op :: split_op
  ss_context :: WorkDivisionContext
  output_axes :: "string list"
  factor_domains :: "(string \<times> int list) list"
  ss_tiling :: "TilingSpace option"

definition ss_axes :: "OpSplitSpace \<Rightarrow> string list" where
  "ss_axes sp = ctx_axes (ss_context sp)"

definition complete_splits :: "OpSplitSpace \<Rightarrow> CoreDivision \<Rightarrow> string splits" where
  "complete_splits sp division = map (\<lambda>axis. (axis, dict_get (CoreDivision.splits division) axis 1)) (ss_axes sp)"

definition division_of :: "OpSplitSpace \<Rightarrow> string splits \<Rightarrow> TileSpec \<Rightarrow> CoreDivision" where
  "division_of sp sps spec =
     (let sparse = filter (\<lambda>sv. snd sv > 1) sps
      in \<lparr>splits = sparse, reduction_syms = filter (\<lambda>axis. axis \<notin> set (output_axes sp)) (map fst sparse), tiling = spec, tile_splits = []\<rparr>)"

definition frame_context :: "OpSplitSpace \<Rightarrow> TileSpec \<Rightarrow> WorkDivisionContext option res" where
  "frame_context sp spec =
     (if is_untiled spec then Inr (Some (ss_context sp))
      else case work_division_context_for_op (ss_op sp) (ctx_max_cores (ss_context sp)) spec of
        Inl e \<Rightarrow> if e = Unsupported then Inr None else Inl e
      | Inr c \<Rightarrow> Inr c)"

definition frame_factor_domain :: "OpSplitSpace \<Rightarrow> string \<Rightarrow> TileSpec \<Rightarrow> int list res" where
  "frame_factor_domain sp axis spec =
     bindE (frame_context sp spec) (\<lambda>c. Inr (case c of None \<Rightarrow> [] | Some ctx \<Rightarrow> factor_domain ctx axis))"

definition admits_tiling :: "OpSplitSpace \<Rightarrow> TileSpec \<Rightarrow> bool res" where
  "admits_tiling sp spec =
     (case ss_tiling sp of
        None \<Rightarrow> Inr (is_untiled spec)
      | Some ts \<Rightarrow> if \<not> admits ts spec then Inr False else bindE (frame_context sp spec) (\<lambda>c. Inr (c \<noteq> None)))"

definition admits_splits :: "OpSplitSpace \<Rightarrow> string splits \<Rightarrow> TileSpec \<Rightarrow> bool res" where
  "admits_splits sp sps spec =
     bindE (admits_tiling sp spec) (\<lambda>ok.
     bindE (if ok then frame_context sp spec else Inr None) (\<lambda>c.
       Inr (case c of None \<Rightarrow> False | Some ctx \<Rightarrow> is_legal ctx sps)))"

definition tiling_options :: "OpSplitSpace \<Rightarrow> TileSpec \<Rightarrow> TileSpec list" where
  "tiling_options sp spec = (case ss_tiling sp of None \<Rightarrow> [] | Some ts \<Rightarrow> neighbours ts spec)"

definition axis_moves :: "OpSplitSpace \<Rightarrow> string splits \<Rightarrow> TileSpec \<Rightarrow> string \<Rightarrow> string splits list res" where
  "axis_moves sp current spec axis =
     bindE (frame_factor_domain sp axis spec) (\<lambda>fs.
       filterE (\<lambda>candidate. admits_splits sp candidate spec)
         (map (\<lambda>f. AList.update axis f current) (filter (\<lambda>f. f \<noteq> dict_get current axis 1) fs)))"

definition division_neighbours :: "OpSplitSpace \<Rightarrow> CoreDivision \<Rightarrow> CoreDivision list res" where
  "division_neighbours sp division =
     (let current = complete_splits sp division;
          spec = tiling division
      in bindE (mapE (axis_moves sp current spec) (ss_axes sp)) (\<lambda>moved.
         bindE (filterE (admits_splits sp current) (tiling_options sp spec)) (\<lambda>retiled.
           Inr (map (\<lambda>c. division_of sp c spec) (concat moved) @ map (division_of sp current) retiled))))"

subsection \<open>Building it\<close>

definition axis_by_host_dim :: "tile_op \<Rightarrow> string list \<Rightarrow> (int \<times> string) list res" where
  "axis_by_host_dim op axes =
     bindE (mapE (\<lambda>d. bindE (try_resolve_tile_axis_loop_vars op [output_axis (int d) 1]) (\<lambda>r. Inr (d, r))) [0..<length (coord_symbols op)]) (\<lambda>rs.
       Inr (List.map_filter (\<lambda>(d, r). case r of Some (v # _) \<Rightarrow> if v \<in> set axes then Some (int d, v) else None | _ \<Rightarrow> None) rs))"

definition build_op_split_space :: "split_op \<Rightarrow> int \<Rightarrow> TilingSpace option \<Rightarrow> OpSplitSpace option res" where
  "build_op_split_space op max_cores ts =
     (if \<not> so_enumerable op then Inr None
      else case work_division_context_for_op op (Some max_cores) [] of
        Inl e \<Rightarrow> if e = Unsupported then Inr None else Inl e
      | Inr c \<Rightarrow>
          (case (so_write op, c) of
             (Some index, Some context) \<Rightarrow>
               let axes = ctx_axes context
               in bindE (case ts of
                           None \<Rightarrow> Inr None
                         | Some t \<Rightarrow> bindE (axis_by_host_dim (so_op op) axes) (\<lambda>by_dim.
                             Inr (Some (t\<lparr>output_counts := filter (\<lambda>dc. map_of by_dim (fst dc) \<noteq> None) (output_counts t)\<rparr>)))) (\<lambda>ts'.
                    Inr (Some \<lparr>ss_op = op, ss_context = context, output_axes = filter (\<lambda>a. index_coeff index a \<noteq> 0) axes,
                      factor_domains = map (\<lambda>a. (a, factor_domain context a)) axes, ss_tiling = ts'\<rparr>))
           | _ \<Rightarrow> Inr None))"

section \<open>Divisions and moves\<close>

lemma filterE_mem: "filterE p xs = Inr ys \<Longrightarrow> x \<in> set ys \<longleftrightarrow> x \<in> set xs \<and> p x = Inr True"
  using filterE_Inr [of p xs ys] by auto

text \<open>
  The space classifies a division as the operation does.  For a built space and splits of its axes, the
  division it makes, from the output axes stored once, is the one \<open>_core_division\<close> derives from the write index.
\<close>

theorem space_division_is_core_division:
  assumes b: "build_op_split_space op n ts = Inr (Some sp)" and s: "fst ` set sps \<subseteq> set (ss_axes sp)"
  shows "division_of sp sps spec = core_division op sps spec []"
proof -
  obtain index where i: "so_write op = Some index" "output_axes sp = filter (\<lambda>a. index_coeff index a \<noteq> 0) (ss_axes sp)"
    using b by (auto simp: build_op_split_space_def ss_axes_def Let_def split: if_split_asm sum.split_asm option.split_asm)
  have "filter (\<lambda>axis. axis \<notin> set (output_axes sp)) (map fst sparse) = filter (\<lambda>a. index_coeff index a = 0) (map fst sparse)"
    if "set sparse \<subseteq> set sps" for sparse :: "string splits" using that s i(2) by (intro filter_cong) auto
  then show ?thesis unfolding division_of_def core_division_def reduction_syms_of_def i(1) Let_def by simp
qed

definition demo_split_op :: split_op where
  "demo_split_op = \<lparr>so_op = demo_sum, so_layout = demo_tiled, so_env = demo_env, so_hint = (\<lambda>s. 1), so_inputs = [],
     so_output = \<lparr>device_coords = [block_coord ''d1'' 64, row_coord ''d0'', stick_coord ''d1'' 64], td_device_size = [2, 8, 64],
       td_itemsize = 2, td_elems_per_stick = 64, is_qfp8wt = False\<rparr>,
     so_meta = (\<lambda>sp. []), so_rules = (\<lambda>a b. []), so_span_min = [], so_write = Some (0, [(128, ''d0''), (1, ''d1'')]), so_enumerable = True\<rparr>"

definition demo_tilings :: TilingSpace where
  "demo_tilings = \<lparr>max_dims = 1, output_counts = [(0, [2, 4])]\<rparr>"

lemma demo_built:
  obtains sp where "build_op_split_space demo_split_op 2 (Some demo_tilings) = Inr (Some sp)" "ss_axes sp = [''d0'', ''d1'', ''d2'']"
proof -
  let ?p = "build_op_split_space demo_split_op 2 (Some demo_tilings)"
  have n: "\<not> isl ?p" "\<not> Option.is_none (projr ?p)" "map_option ss_axes (projr ?p) = Some [''d0'', ''d1'', ''d2'']" by code_simp+
  obtain sp where "?p = Inr (Some sp)" using sum.collapse(2) [OF n(1)] n(2) by (cases "projr ?p") (simp_all only: Option.is_none_def simp_thms, metis)
  then show thesis using that n(3) by simp
qed

theorem space_division_is_core_division_witness:
  "\<exists>sp. build_op_split_space demo_split_op 2 (Some demo_tilings) = Inr (Some sp) \<and>
     division_of sp [(''d0'', 2), (''d2'', 2)] [] = core_division demo_split_op [(''d0'', 2), (''d2'', 2)] [] []"
proof -
  obtain sp where b: "build_op_split_space demo_split_op 2 (Some demo_tilings) = Inr (Some sp)" and a: "ss_axes sp = [''d0'', ''d1'', ''d2'']" by (rule demo_built)
  have "fst ` set [(''d0'', 2 :: int), (''d2'', 2)] \<subseteq> set (ss_axes sp)" unfolding a by simp
  then show ?thesis using space_division_is_core_division [OF b] b by blast
qed

lemma admitted_context:
  assumes "admits_splits sp c spec = Inr True"
  obtains ctx where "frame_context sp spec = Inr (Some ctx)" "is_legal ctx c"
  using assms by (auto simp: admits_splits_def split: if_split_asm option.split_asm)

lemma axis_moves_mem:
  assumes "axis_moves sp current spec axis = Inr cs" "map_of current axis \<noteq> None"
  shows "c \<in> set cs \<longleftrightarrow> admits_splits sp c spec = Inr True \<and> (\<exists>f. f \<noteq> dict_get current axis 1 \<and> c = AList.update axis f current)"
proof -
  obtain fs where fs: "frame_factor_domain sp axis spec = Inr fs"
    and cs: "filterE (\<lambda>candidate. admits_splits sp candidate spec) (map (\<lambda>f. AList.update axis f current) (filter (\<lambda>f. f \<noteq> dict_get current axis 1) fs)) = Inr cs"
    using assms(1) unfolding axis_moves_def by (rule bindE_InrE)
  have "f \<in> set fs" if a: "admits_splits sp (AList.update axis f current) spec = Inr True" for f
  proof -
    obtain ctx where ctx: "frame_context sp spec = Inr (Some ctx)" "is_legal ctx (AList.update axis f current)" by (rule admitted_context [OF a])
    have "(axis, f) \<in> set (AList.update axis f current)" by (simp add: map_of_SomeD update_conv')
    then have "f \<in> set (factor_domain ctx axis)" using ctx(2) by (auto simp: is_legal_def factors_in_domain_def list_all_iff)
    then show ?thesis using fs ctx(1) by (simp add: frame_factor_domain_def)
  qed
  then show ?thesis unfolding filterE_mem [OF cs] by auto
qed

text \<open>
  C26: The moves from a division are exactly its admitted neighbours.  The listed divisions are those the space
  admits that change the factor of one axis under the same tiling, or keep the factors and take a tiling one
  level away; every one is listed and nothing else.
\<close>

theorem moves_are_admitted_neighbours:
  assumes "division_neighbours sp d = Inr out"
  shows "set out = {division_of sp c t | c t. admits_splits sp c t = Inr True \<and>
     (t = tiling d \<and> (\<exists>axis\<in>set (ss_axes sp). \<exists>f. f \<noteq> dict_get (complete_splits sp d) axis 1 \<and> c = AList.update axis f (complete_splits sp d)) \<or>
      c = complete_splits sp d \<and> t \<in> set (tiling_options sp (tiling d)))}"
proof -
  let ?cur = "complete_splits sp d" and ?t = "tiling d"
  obtain moved where m: "mapE (axis_moves sp ?cur ?t) (ss_axes sp) = Inr moved"
    and r: "bindE (filterE (admits_splits sp ?cur) (tiling_options sp ?t)) (\<lambda>retiled.
           Inr (map (\<lambda>c. division_of sp c ?t) (concat moved) @ map (division_of sp ?cur) retiled)) = Inr out"
    using assms unfolding division_neighbours_def Let_def by (rule bindE_InrE)
  from r obtain retiled where rt: "filterE (admits_splits sp ?cur) (tiling_options sp ?t) = Inr retiled"
    and out: "Inr (map (\<lambda>c. division_of sp c ?t) (concat moved) @ map (division_of sp ?cur) retiled) = (Inr out :: CoreDivision list res)" by (rule bindE_InrE)
  have key: "map_of ?cur axis \<noteq> None" if "axis \<in> set (ss_axes sp)" for axis
    using that by (auto simp: complete_splits_def map_of_eq_None_iff image_iff)
  have M: "c \<in> set (concat moved) \<longleftrightarrow> admits_splits sp c ?t = Inr True \<and>
      (\<exists>axis\<in>set (ss_axes sp). \<exists>f. f \<noteq> dict_get ?cur axis 1 \<and> c = AList.update axis f ?cur)" for c
  proof -
    have "c \<in> set (concat moved) \<longleftrightarrow> (\<exists>i<length (ss_axes sp). c \<in> set (moved ! i))"
      unfolding set_concat set_conv_nth [of moved] using mapE_length [OF m] by auto
    also have "\<dots> \<longleftrightarrow> (\<exists>i<length (ss_axes sp). admits_splits sp c ?t = Inr True \<and> (\<exists>f. f \<noteq> dict_get ?cur (ss_axes sp ! i) 1 \<and> c = AList.update (ss_axes sp ! i) f ?cur))"
      using axis_moves_mem [OF mapE_Inr_nth [OF m] key] by (metis nth_mem)
    finally show ?thesis by (metis in_set_conv_nth)
  qed
  have R: "t \<in> set retiled \<longleftrightarrow> t \<in> set (tiling_options sp ?t) \<and> admits_splits sp ?cur t = Inr True" for t by (rule filterE_mem [OF rt])
  have "set out = (\<lambda>c. division_of sp c ?t) ` set (concat moved) \<union> division_of sp ?cur ` set retiled"
    unfolding out [THEN sum.inject(2) [THEN iffD1], symmetric] by (simp del: set_concat)
  then show ?thesis by (intro set_eqI) (simp only: Un_iff image_iff mem_Collect_eq Bex_def M R, blast)
qed

definition demo_start :: CoreDivision where
  "demo_start = \<lparr>splits = [(''d0'', 2)], reduction_syms = [], tiling = [output_axis 0 2], tile_splits = []\<rparr>"

definition demo_moves :: "CoreDivision list res" where
  "demo_moves = bindE (build_op_split_space demo_split_op 2 (Some demo_tilings)) (\<lambda>sp. division_neighbours (the sp) demo_start)"

theorem moves_are_admitted_neighbours_witness:
  "\<exists>sp out. build_op_split_space demo_split_op 2 (Some demo_tilings) = Inr (Some sp) \<and> division_neighbours sp demo_start = Inr out \<and>
     division_of sp (complete_splits sp demo_start) [] \<in> set out"
proof -
  obtain sp where b: "build_op_split_space demo_split_op 2 (Some demo_tilings) = Inr (Some sp)" by (rule demo_built)
  have n: "\<not> isl demo_moves" by code_simp
  obtain out where o: "division_neighbours sp demo_start = Inr out" using sum.collapse(2) [OF n] b by (simp add: demo_moves_def) metis
  have "map_sum id (\<lambda>p. (admits_splits (the p) (complete_splits (the p) demo_start) [], [] \<in> set (tiling_options (the p) (tiling demo_start))))
      (build_op_split_space demo_split_op 2 (Some demo_tilings)) = Inr (Inr True, True)" by code_simp
  then have "admits_splits sp (complete_splits sp demo_start) [] = Inr True" "[] \<in> set (tiling_options sp (tiling demo_start))" using b by auto
  then have "division_of sp (complete_splits sp demo_start) [] \<in> set out" using moves_are_admitted_neighbours [OF o] by blast
  then show ?thesis using b o by blast
qed

section \<open>Nested domains\<close>

lemma div_iter_space_keys: "div_iter_space quot space cs = Inr (Some space') \<Longrightarrow> map fst space' = map fst space"
proof (induction cs arbitrary: space)
  case (Cons kc cs)
  obtain k c where kc: "kc = (k, c)" by force
  obtain e q where e: "map_of space k = Some e" "div_iter_space quot (AList.update k q space) cs = Inr (Some space')"
    using Cons.prems kc by (auto split: option.split_asm)
  have "k \<in> set (map fst space)" using e(1) by (force dest: map_of_SomeD)
  then have "map fst (AList.update k q space) = map fst space" by (simp add: update_keys)
  then show ?case using Cons.IH [OF e(2)] by simp
qed simp

lemma predict_iter_space_keys: "predict_iter_space quot op spec = Inr (Some space) \<Longrightarrow> map fst space = map fst (iter_space op)"
  by (auto simp: predict_iter_space_def dest: div_iter_space_keys split: option.split_asm)

lemma stick_sizes_keys: "map fst it_space = map fst it_space' \<Longrightarrow> stick_sizes it_space tds v = stick_sizes it_space' tds v"
proof -
  assume k: "map fst it_space = map fst it_space'"
  then have "fst ` set it_space = fst ` set it_space'" by (metis set_map)
  then have "single_var it_space c = single_var it_space' c" for c by (auto simp: single_var_def map_of_eq_None_iff split: list.split)
  then have "single_var it_space = single_var it_space'" by auto
  then show ?thesis by (simp add: stick_sizes_def td_stick_vars_def)
qed

lemma sympy_divisors_divisor:
  assumes "b' dvd b" "0 < b"
  shows "d \<in> set (sympy_divisors b') \<longleftrightarrow> d \<in> set (sympy_divisors b) \<and> d dvd b'"
proof -
  have "b' \<noteq> 0" using assms by auto
  then have "d \<in> set (sympy_divisors \<bar>b'\<bar>) \<longleftrightarrow> 0 < d \<and> d dvd \<bar>b'\<bar>" by (intro mem_sympy_divisors) simp
  moreover have "sympy_divisors \<bar>b'\<bar> = sympy_divisors b'"
    by (simp add: sympy_divisors_def flip: dvd_eq_mod_eq_0)
  ultimately show ?thesis using mem_sympy_divisors [OF assms(2), of d] assms(1) by (auto intro: dvd_trans)
qed

lemma legal_split_factors_divisor:
  assumes "map_of al' v = map_of al v" "b' dvd b" "0 < b"
  shows "set (legal_split_factors v b' al' fl) = {f \<in> set (legal_split_factors v b al fl). f dvd b'}"
proof -
  have "in_domain al' v f = in_domain al v f" for f by (simp add: in_domain_def assms(1))
  then show ?thesis
    unfolding set_eq_iff mem_Collect_eq mem_legal_split_factors sympy_divisors_divisor [OF assms(2,3)] by blast
qed

lemma context_in_fields:
  assumes "context_in op n space = Inr ctx"
  obtains adj where "adjust_it_space_for_sticks (ctx_it_space ctx) (so_inputs op @ [so_output op]) (so_meta op space) = Inr adj"
    "ctx_it_space ctx = map (\<lambda>se. (fst se, concretize (so_hint op) (snd se))) space" "it_space_adjusted ctx = fst adj" "ctx_stick_vars ctx = snd adj"
    "ctx_tensor_deps ctx = so_inputs op @ [so_output op]" "ctx_span_min ctx = so_span_min op"
  using assms unfolding context_in_def Let_def by (elim bindE_InrE) auto

lemma context_in_axis:
  assumes c: "context_in op n space = Inr ctx" and m: "map_of (ctx_symbol_meta ctx) v = None" and e: "map_of space v = Some (Static e)"
  shows "factor_domain ctx v = legal_split_factors v
     (let S = stick_sizes (ctx_it_space ctx) (ctx_tensor_deps ctx) v in if S = {} then e else (e + Max S - 1) div Max S) (ctx_allowed ctx) (ctx_span_min ctx)"
    "map fst (ctx_it_space ctx) = map fst space" "ctx_tensor_deps ctx = so_inputs op @ [so_output op]" "ctx_span_min ctx = so_span_min op"
proof -
  obtain adj where a: "adjust_it_space_for_sticks (ctx_it_space ctx) (so_inputs op @ [so_output op]) (so_meta op space) = Inr adj"
    and f: "ctx_it_space ctx = map (\<lambda>se. (fst se, concretize (so_hint op) (snd se))) space" "it_space_adjusted ctx = fst adj" "ctx_stick_vars ctx = snd adj"
      "ctx_tensor_deps ctx = so_inputs op @ [so_output op]" "ctx_span_min ctx = so_span_min op" by (rule context_in_fields [OF c])
  have adj: "adj = (it_space_adjusted ctx, ctx_stick_vars ctx)" using f(2,3) by simp
  note A = spec [OF conjunct2 [OF adjusted_space [OF a [unfolded adj]]], of v]
  have "map_of (map (\<lambda>se. (fst se, concretize (so_hint op) (snd se))) space) v = Some e" using e by (induction space) (auto simp: concretize_def)
  then have x: "dict_get (ctx_it_space ctx) v 1 = e" unfolding f(1) by (simp add: dict_get_def)
  let ?S = "stick_sizes (ctx_it_space ctx) (so_inputs op @ [so_output op]) v"
  have "axis_basis (ctx_symbol_meta ctx) (ctx_stick_vars ctx) (it_space_adjusted ctx) (ctx_it_space ctx) v = (if ?S = {} then e else (e + Max ?S - 1) div Max ?S)"
  proof (cases "?S = {}")
    case True
    then show ?thesis using A x m by (simp only: axis_basis_def if_True option.case simp_thms if_False)
  next
    case False
    then show ?thesis using A x m by (simp add: axis_basis_def)
  qed
  then show "factor_domain ctx v = legal_split_factors v
     (let S = stick_sizes (ctx_it_space ctx) (ctx_tensor_deps ctx) v in if S = {} then e else (e + Max S - 1) div Max S) (ctx_allowed ctx) (ctx_span_min ctx)"
    unfolding factor_domain_def f(4) Let_def by simp
  show "map fst (ctx_it_space ctx) = map fst space" unfolding f(1) by simp
  show "ctx_tensor_deps ctx = so_inputs op @ [so_output op]" "ctx_span_min ctx = so_span_min op" by (fact f(4), fact f(5))
qed

text \<open>
  C34: What a tiling leaves of an axis's factors.  For an operation with a per-tile context, take an axis of
  static positive extent that is not planned symbolically and has the same hard domain in both frames, whose
  per-tile extent is a whole number of sticks if it indexes a stick.  Then the per-tile extent is the extent
  divided by the counts of the tiles over that axis, and the factors legal under the tiling are exactly those
  of the untiled operation that divide the per-tile extent, counted in sticks if the axis indexes one: a
  search over the untiled domains misses none of them, and none that would cut a tile unevenly is let through.
\<close>

theorem tiled_factors_nest:
  assumes t: "work_division_context_for_op op n spec = Inr (Some ctx')" "spec \<noteq> []" and u: "work_division_context_for_op op n [] = Inr (Some ctx)"
    and f: "predict_frame (so_env op) (so_op op) (so_layout op) (so_write op) spec = Inr (Some fr)"
    and e: "map_of (iter_space (so_op op)) v = Some (Static e)" "0 < e" "map_of (pf_iter_space fr) v = Some (Static e')"
    and m: "map_of (ctx_symbol_meta ctx) v = None" "map_of (ctx_symbol_meta ctx') v = None" "map_of (ctx_allowed ctx') v = map_of (ctx_allowed ctx) v"
    and al: "\<forall>k\<in>stick_sizes (ctx_it_space ctx) (ctx_tensor_deps ctx) v. 0 < k \<and> k dvd e'"
  shows "(\<exists>vars. try_resolve_tile_axis_loop_vars (so_op op) spec = Inr (Some vars) \<and> e' * var_count (zip spec vars) v = e) \<and>
    set (factor_domain ctx' v) = {f \<in> set (factor_domain ctx v).
      f dvd (let S = stick_sizes (ctx_it_space ctx) (ctx_tensor_deps ctx) v in if S = {} then e' else e' div Max S)}"
proof -
  have c': "context_in op n (pf_iter_space fr) = Inr ctx'" using t f by (simp add: work_division_context_for_op_def frame_space_def is_untiled_def)
  have c: "context_in op n (iter_space (so_op op)) = Inr ctx" using u by (simp add: work_division_context_for_op_def frame_space_def is_untiled_def)
  obtain sp where sp: "predict_iter_space (le_quotient (so_env op)) (so_op op) spec = Inr (Some (pf_iter_space fr))" by (rule predict_frame_Some [OF f])
  obtain vars where v: "try_resolve_tile_axis_loop_vars (so_op op) spec = Inr (Some vars)" using sp by (auto simp: predict_iter_space_def split: option.split_asm)
  have k: "e' * var_count (zip spec vars) v = e" using predict_iter_space_ok [OF sp v e(1)] e(3) by auto
  note D' = context_in_axis [OF c' m(2) e(3)] and D = context_in_axis [OF c m(1) e(1)]
  let ?S = "stick_sizes (ctx_it_space ctx) (ctx_tensor_deps ctx) v"
  have S: "stick_sizes (ctx_it_space ctx') (ctx_tensor_deps ctx') v = ?S"
    unfolding D(3) D'(3) by (rule stick_sizes_keys) (simp add: D(2) D'(2) predict_iter_space_keys [OF sp])
  let ?b = "\<lambda>x. if ?S = {} then x else (x + Max ?S - 1) div Max ?S"
  have "?b e' dvd ?b e \<and> 0 < ?b e \<and> ?b e' = (if ?S = {} then e' else e' div Max ?S)"
  proof (cases "?S = {}")
    case False
    have fin: "finite ?S" by (simp add: stick_sizes_def)
    then have M: "0 < Max ?S" "Max ?S dvd e'" using al False Max_in by blast+
    then obtain q where q: "e' = Max ?S * q" by blast
    have up: "(Max ?S * x + Max ?S - 1) div Max ?S = x" for x using M(1) by (intro int_div_pos_eq [of _ _ _ "Max ?S - 1"]) auto
    have "e = Max ?S * (q * var_count (zip spec vars) v)" using k q by simp
    then have "?b e = q * var_count (zip spec vars) v" "?b e' = q" using False up q by auto
    moreover have "0 < q * var_count (zip spec vars) v" using \<open>e = _\<close> e(2) M(1) by (metis zero_less_mult_pos)
    ultimately show ?thesis using False q M(1) by simp
  qed (use k e(2) in auto)
  note b = this
  have "set (legal_split_factors v (?b e') (ctx_allowed ctx') (so_span_min op)) =
      {f \<in> set (legal_split_factors v (?b e) (ctx_allowed ctx) (so_span_min op)). f dvd ?b e'}"
    using b by (intro legal_split_factors_divisor m(3)) blast+
  then have "set (factor_domain ctx' v) = {f \<in> set (factor_domain ctx v). f dvd ?b e'}"
    unfolding D(1) D'(1) S D(4) D'(4) Let_def .
  then have "set (factor_domain ctx' v) = {f \<in> set (factor_domain ctx v). f dvd (if ?S = {} then e' else e' div Max ?S)}"
    unfolding conjunct2 [OF conjunct2 [OF b]] .
  then show ?thesis using v k unfolding Let_def by blast
qed

lemma res_option_value:
  assumes "\<not> isl r" "\<not> Option.is_none (projr r)"
  obtains x where "r = Inr (Some x)"
  using assms by (cases r) (auto simp: Option.is_none_def)

theorem tiled_factors_nest_witness:
  "\<exists>ctx ctx'. work_division_context_for_op demo_split_op (Some 2) [output_axis 0 2] = Inr (Some ctx') \<and>
     work_division_context_for_op demo_split_op (Some 2) [] = Inr (Some ctx) \<and>
     set (factor_domain ctx' ''d0'') = {f \<in> set (factor_domain ctx ''d0''). f dvd 4}"
proof -
  let ?t = "work_division_context_for_op demo_split_op (Some 2) [output_axis 0 2]" and ?u = "work_division_context_for_op demo_split_op (Some 2) []"
  let ?f = "predict_frame demo_env demo_sum demo_tiled (Some (0, [(128, ''d0''), (1, ''d1'')])) [output_axis 0 2]"
  have n: "\<not> isl ?t" "\<not> Option.is_none (projr ?t)" "\<not> isl ?u" "\<not> Option.is_none (projr ?u)" "\<not> isl ?f" "\<not> Option.is_none (projr ?f)" by code_simp+
  obtain ctx' where t: "?t = Inr (Some ctx')" by (rule res_option_value [OF n(1,2)])
  obtain ctx where u: "?u = Inr (Some ctx)" by (rule res_option_value [OF n(3,4)])
  obtain fr where f: "?f = Inr (Some fr)" by (rule res_option_value [OF n(5,6)])
  have F: "predict_frame (so_env demo_split_op) (so_op demo_split_op) (so_layout demo_split_op) (so_write demo_split_op) [output_axis 0 2] = Inr (Some fr)"
    using f by (simp add: demo_split_op_def)
  have e: "map_of (iter_space (so_op demo_split_op)) ''d0'' = Some (Static 8)" by code_simp
  have "map_option (\<lambda>fr. map_of (pf_iter_space fr) ''d0'') (projr ?f) = Some (Some (Static 4))" by code_simp
  then have e': "map_of (pf_iter_space fr) ''d0'' = Some (Static 4)" using f by simp
  have "map_option (\<lambda>c. (ctx_symbol_meta c, ctx_allowed c)) (projr ?t) = Some ([], [])" "map_option (\<lambda>c. (ctx_symbol_meta c, ctx_allowed c, map_of (ctx_stick_vars c) ''d0'')) (projr ?u) = Some ([], [], None)"
    "map_option (\<lambda>c. stick_sizes (ctx_it_space c) (ctx_tensor_deps c) ''d0'' = {}) (projr ?u) = Some True" by code_simp+
  then have m: "ctx_symbol_meta ctx' = []" "ctx_allowed ctx' = []" "ctx_symbol_meta ctx = []" "ctx_allowed ctx = []"
    "stick_sizes (ctx_it_space ctx) (ctx_tensor_deps ctx) ''d0'' = {}" using t u by auto
  have "set (factor_domain ctx' ''d0'') = {f \<in> set (factor_domain ctx ''d0''). f dvd
      (let S = stick_sizes (ctx_it_space ctx) (ctx_tensor_deps ctx) ''d0'' in if S = {} then 4 else 4 div Max S)}"
    by (rule conjunct2 [OF tiled_factors_nest [OF t _ u F e _ e']]) (simp_all add: m)
  then have "set (factor_domain ctx' ''d0'') = {f \<in> set (factor_domain ctx ''d0''). f dvd 4}" by (simp add: m)
  then show ?thesis using t u by blast
qed

end
