(* ===== verification/Slice_Ownership.thy ===== *)
theory Slice_Ownership
  imports Core_Mapping
begin

text \<open>
  Proofs that a loop owns the slices of a device coordinate (\<open>slice_ownership.py\<close>).

  A coordinate is the expanded sum the code inspects: an integer origin and terms, each an integer
  coefficient times a loop variable, a floored quotient of an affine numerator by an integer (in lowest
  terms, as sympy keeps it), or something else.  An iteration space gives each loop its extent, or
  \<open>None\<close> for one that is not an integer.  A declined proof is \<open>None\<close>.
\<close>

subsection \<open>Coordinates\<close>

record affine =
  aff_origin :: int
  aff_coeffs :: "(string \<times> int) list"

datatype digit = Loop string | Quot affine int | Other "string list"

record coordinate =
  c_origin :: int
  c_terms :: "(int \<times> digit) list"

type_synonym loop_space = "(string \<times> int option) list"

definition affine_at :: "affine \<Rightarrow> (string \<Rightarrow> int) \<Rightarrow> int" where
  "affine_at a x = aff_origin a + sum_list (map (\<lambda>sc. snd sc * x (fst sc)) (aff_coeffs a))"

definition as_affine :: "coordinate \<Rightarrow> affine option" where
  "as_affine c =
     (if list_all (\<lambda>t. case snd t of Loop s \<Rightarrow> True | _ \<Rightarrow> False) (c_terms c)
      then Some \<lparr>aff_origin = c_origin c, aff_coeffs = map (\<lambda>t. case snd t of Loop s \<Rightarrow> (s, fst t) | _ \<Rightarrow> ([], 0)) (c_terms c)\<rparr>
      else None)"

definition loop_extent :: "loop_space \<Rightarrow> string \<Rightarrow> int option" where
  "loop_extent space s = (case map_of space s of Some (Some e) \<Rightarrow> if e > 0 then Some e else None | _ \<Rightarrow> None)"

subsection \<open>Containment in one loop\<close>

definition owns_slices :: "affine \<Rightarrow> int \<Rightarrow> int \<Rightarrow> (string \<Rightarrow> int) \<Rightarrow> string \<times> int \<Rightarrow> bool" where
  "owns_slices a width split extents ls \<longleftrightarrow>
     extents (fst ls) mod split = 0 \<and>
     (let other_span = sum_list (map (\<lambda>sc. snd sc * (extents (fst sc) - 1)) (filter (\<lambda>sc. fst sc \<noteq> fst ls) (aff_coeffs a)));
          loop_width = extents (fst ls) div split
      in list_all (\<lambda>slot.
           let low = aff_origin a + snd ls * slot * loop_width;
               high = low + snd ls * (loop_width - 1) + other_span
           in slot * width \<le> low \<and> low \<le> high \<and> high < (slot + 1) * width) [0..split - 1])"

definition project_affine :: "affine \<Rightarrow> int \<Rightarrow> int \<Rightarrow> loop_space \<Rightarrow> (string \<times> int) option res" where
  "project_affine a device_extent split space =
     (let symbols = map fst (aff_coeffs a)
      in if length symbols < 2 \<or> list_ex (\<lambda>s. map_of space s = None) symbols then Inr None
         else if list_ex (\<lambda>sc. snd sc \<le> 0) (aff_coeffs a) then Inr None
         else if list_ex (\<lambda>s. loop_extent space s = None) symbols then Inr None
         else if split = 0 then Inl ZeroDivisionError
         else
           let width = device_extent div split;
               extents = (\<lambda>s. the (loop_extent space s))
           in case filter (owns_slices a width split extents) (aff_coeffs a) of
                [ls] \<Rightarrow> Inr (Some ls)
              | _ \<Rightarrow> Inr None)"

definition project_affine_slice_axis :: "coordinate \<Rightarrow> int \<Rightarrow> int \<Rightarrow> loop_space \<Rightarrow> (string \<times> coordinate) option res" where
  "project_affine_slice_axis c device_extent split space =
     (case as_affine c of
        None \<Rightarrow> Inr None
      | Some a \<Rightarrow> bindE (project_affine a device_extent split space) (\<lambda>p.
          Inr (case p of None \<Rightarrow> None | Some (l, step) \<Rightarrow> Some (l, \<lparr>c_origin = c_origin c, c_terms = [(step, Loop l)]\<rparr>))))"

definition is_quot :: "int \<times> digit \<Rightarrow> bool" where
  "is_quot t \<longleftrightarrow> (case snd t of Quot n d \<Rightarrow> True | _ \<Rightarrow> False)"

definition coeff :: "affine \<Rightarrow> string \<Rightarrow> int" where
  "coeff a s = sum_list (map snd (filter (\<lambda>sc. fst sc = s) (aff_coeffs a)))"

definition clear_denominator :: "affine \<Rightarrow> affine \<Rightarrow> int \<Rightarrow> affine" where
  "clear_denominator a n d =
     \<lparr>aff_origin = d * aff_origin a + aff_origin n,
      aff_coeffs = filter (\<lambda>sc. snd sc \<noteq> 0)
        (map (\<lambda>s. (s, d * coeff a s + coeff n s)) (remdups (map fst (aff_coeffs a) @ map fst (aff_coeffs n))))\<rparr>"

definition keep_loop :: "string \<Rightarrow> affine \<Rightarrow> affine" where
  "keep_loop l a = a\<lparr>aff_coeffs := filter (\<lambda>sc. fst sc = l) (aff_coeffs a)\<rparr>"

definition project_floor_affine_slice_axis :: "coordinate \<Rightarrow> int \<Rightarrow> int \<Rightarrow> loop_space \<Rightarrow> (string \<times> coordinate) option res" where
  "project_floor_affine_slice_axis c device_extent split space =
     (case filter is_quot (c_terms c) of
        [(k, Quot n d)] \<Rightarrow>
          (if k \<noteq> 1 then Inr None
           else case as_affine (c\<lparr>c_terms := filter (\<lambda>t. \<not> is_quot t) (c_terms c)\<rparr>) of
             None \<Rightarrow> Inr None
           | Some a \<Rightarrow>
               if d \<le> 0 then Inr None
               else bindE (project_affine (clear_denominator a n d) (device_extent * d) split space) (\<lambda>p.
                 Inr (case p of
                        None \<Rightarrow> None
                      | Some (l, step) \<Rightarrow>
                          Some (l, \<lparr>c_origin = c_origin c, c_terms = filter (\<lambda>t. snd t = Loop l) (c_terms c) @ [(1, Quot (keep_loop l n) d)]\<rparr>))))
      | _ \<Rightarrow> Inr None)"

definition project_slice_axis :: "coordinate \<Rightarrow> int \<Rightarrow> int \<Rightarrow> loop_space \<Rightarrow> bool \<Rightarrow> (string \<times> coordinate) option res" where
  "project_slice_axis c device_extent split space floor_only =
     bindE (if floor_only then Inr None else project_affine_slice_axis c device_extent split space) (\<lambda>p.
       case p of Some r \<Rightarrow> Inr (Some r) | None \<Rightarrow> project_floor_affine_slice_axis c device_extent split space)"

subsection \<open>Mixed-radix factors\<close>

definition digit_loop :: "digit \<Rightarrow> (string \<times> int) option" where
  "digit_loop g =
     (case g of
        Loop s \<Rightarrow> Some (s, 1)
      | Quot n d \<Rightarrow> (case aff_coeffs n of [(s, k)] \<Rightarrow> if k = 1 \<and> aff_origin n = 0 \<and> d > 0 then Some (s, d) else None | _ \<Rightarrow> None)
      | Other ss \<Rightarrow> None)"

fun collect_digits :: "loop_space \<Rightarrow> (int \<times> digit) list \<Rightarrow> string list \<Rightarrow> (int \<times> digit \<times> int) list option" where
  "collect_digits space [] seen = Some []"
| "collect_digits space ((k, g) # ts) seen =
     (if k \<le> 0 then None
      else case digit_loop g of
        None \<Rightarrow> None
      | Some (l, divisor) \<Rightarrow>
          if l \<in> set seen \<or> map_of space l = None then None
          else (case loop_extent space l of
                  None \<Rightarrow> None
                | Some e \<Rightarrow>
                    if e mod divisor \<noteq> 0 then None
                    else if e div divisor \<le> 1 then None
                    else (case collect_digits space ts (l # seen) of
                            None \<Rightarrow> None
                          | Some ds \<Rightarrow> Some ((k, g, e div divisor) # ds))))"

fun factor_digits :: "owner \<Rightarrow> (int \<times> digit \<times> int) list \<Rightarrow> int \<Rightarrow> int \<Rightarrow> (int \<times> digit \<times> int \<times> owner) list option res" where
  "factor_digits slot [] stride remaining = Inr (if stride = 1 \<and> remaining = 1 then Some [] else None)"
| "factor_digits slot ((k, g, radix) # ds) stride remaining =
     (if stride mod radix \<noteq> 0 \<or> k \<noteq> stride div radix then Inr None
      else let f = min radix remaining
           in if f = 0 then Inl ZeroDivisionError
              else if radix mod f \<noteq> 0 \<or> remaining mod f \<noteq> 0 then Inr None
              else bindE (factor_digits slot ds (stride div radix) (remaining div f)) (\<lambda>rest.
                Inr (map_option (\<lambda>rs. (radix, g, f, Rem (FloorDiv slot (remaining div f)) f) # rs) rest)))"

definition factor_slice_axis ::
  "coordinate \<Rightarrow> int \<Rightarrow> int \<Rightarrow> owner \<Rightarrow> loop_space \<Rightarrow> (int \<times> digit \<times> int \<times> owner) list option res" where
  "factor_slice_axis c device_extent split slot space =
     (if c_origin c \<noteq> 0 then Inr None
      else case collect_digits space (c_terms c) [] of
        None \<Rightarrow> Inr None
      | Some digits \<Rightarrow>
          if \<not> (2 \<le> length digits \<and> length digits \<le> 4) then Inr None
          else factor_digits slot (sort_key (\<lambda>d. - fst d) digits) device_extent split)"

section \<open>The projected loop owns the slices\<close>

fun digit_at :: "digit \<Rightarrow> (string \<Rightarrow> int) \<Rightarrow> int" where
  "digit_at (Loop s) x = x s"
| "digit_at (Quot n d) x = affine_at n x div d"
| "digit_at (Other ss) x = 0"

definition coordinate_at :: "coordinate \<Rightarrow> (string \<Rightarrow> int) \<Rightarrow> int" where
  "coordinate_at c x = c_origin c + sum_list (map (\<lambda>t. fst t * digit_at (snd t) x) (c_terms c))"

definition in_loops :: "loop_space \<Rightarrow> (string \<Rightarrow> int) \<Rightarrow> bool" where
  "in_loops space x \<longleftrightarrow> (\<forall>s e. loop_extent space s = Some e \<longrightarrow> 0 \<le> x s \<and> x s < e)"

lemma sum_list_pick:
  fixes f :: "'k \<times> int \<Rightarrow> int"
  assumes "distinct (map fst cs)" "(l, k) \<in> set cs"
  shows "sum_list (map f cs) = f (l, k) + sum_list (map f (filter (\<lambda>sc. fst sc \<noteq> l) cs))"
  using assms
proof (induction cs)
  case (Cons p cs)
  show ?case
  proof (cases "p = (l, k)")
    case True
    then have "filter (\<lambda>sc. fst sc \<noteq> l) cs = cs" using Cons.prems(1) by (intro filter_True) (force)
    then show ?thesis using True by simp
  next
    case False
    then have m: "(l, k) \<in> set cs" using Cons.prems(2) by simp
    then have "l \<in> fst ` set cs" by force
    then have "fst p \<noteq> l" using Cons.prems(1) by auto
    then show ?thesis using Cons.IH [OF _ m] Cons.prems(1) by simp
  qed
qed simp

lemma project_affine_Some:
  assumes "project_affine a E split space = Inr (Some (l, step))"
  shows "(l, step) \<in> set (aff_coeffs a)" "split \<noteq> 0"
    "\<And>s c. (s, c) \<in> set (aff_coeffs a) \<Longrightarrow> 0 < c \<and> (\<exists>e. loop_extent space s = Some e)"
    "owns_slices a (E div split) split (\<lambda>s. the (loop_extent space s)) (l, step)"
proof -
  note d = assms [unfolded project_affine_def Let_def]
  let ?f = "filter (owns_slices a (E div split) split (\<lambda>s. the (loop_extent space s))) (aff_coeffs a)"
  have g: "\<not> list_ex (\<lambda>sc. snd sc \<le> 0) (aff_coeffs a)" "\<not> list_ex (\<lambda>s. loop_extent space s = None) (map fst (aff_coeffs a))" "split \<noteq> 0"
    and r: "(case ?f of [ls] \<Rightarrow> Inr (Some ls) | _ \<Rightarrow> Inr None) = (Inr (Some (l, step)) :: (string \<times> int) option res)"
    using d by (auto split: if_split_asm)
  have "?f = [(l, step)]" using r by (auto split: list.split_asm)
  then have "(l, step) \<in> set ?f" by simp
  then show "(l, step) \<in> set (aff_coeffs a)" "owns_slices a (E div split) split (\<lambda>s. the (loop_extent space s)) (l, step)" by auto
  show "split \<noteq> 0" by (rule g(3))
  show "0 < c \<and> (\<exists>e. loop_extent space s = Some e)" if "(s, c) \<in> set (aff_coeffs a)" for s c
    using g(1,2) that by (force simp: list_ex_iff not_le)
qed

lemma loop_extent_pos: "loop_extent space s = Some e \<Longrightarrow> 0 < e"
  by (auto simp: loop_extent_def split: option.splits if_splits)

lemma project_affine_contains:
  assumes p: "project_affine a E split space = Inr (Some (l, step))" and sp: "0 < split"
    and d: "distinct (map fst (aff_coeffs a))" and x: "in_loops space x" and e: "loop_extent space l = Some e"
  shows "split dvd e" "x l div (e div split) * (E div split) \<le> affine_at a x" "affine_at a x < (x l div (e div split) + 1) * (E div split)"
proof -
  note f = project_affine_Some [OF p]
  let ?rest = "filter (\<lambda>sc. fst sc \<noteq> l) (aff_coeffs a)" and ?w = "e div split" and ?W = "E div split"
  note own = f(4) [unfolded owns_slices_def Let_def fst_conv snd_conv e option.sel]
  show dv: "split dvd e" using own by (simp add: mod_0_imp_dvd)
  have xl: "0 \<le> x l" "x l < e" using x e by (auto simp: in_loops_def)
  have w: "0 < ?w" using dv sp loop_extent_pos [OF e] by (simp add: pos_imp_zdiv_pos_iff zdvd_imp_le)
  let ?slot = "x l div ?w"
  have "e = split * ?w" using dv by simp
  then have slot: "0 \<le> ?slot" "?slot < split" using xl w by (auto simp: pos_imp_zdiv_nonneg_iff intro: div_less_bound)
  then have mem: "?slot \<in> set [0..split - 1]" by simp
  have bound: "0 \<le> c * x s \<and> c * x s \<le> c * (the (loop_extent space s) - 1)" if "(s, c) \<in> set ?rest" for s c
  proof -
    have "0 < c" "\<exists>e. loop_extent space s = Some e" using f(3) that by auto
    then show ?thesis using x by (auto simp: in_loops_def intro!: mult_left_mono)
  qed
  let ?sum = "sum_list (map (\<lambda>sc. snd sc * x (fst sc)) ?rest)"
  have lo: "0 \<le> ?sum" using bound by (intro sum_list_nonneg) auto
  have hi: "?sum \<le> sum_list (map (\<lambda>sc. snd sc * (the (loop_extent space (fst sc)) - 1)) ?rest)"
    using bound by (intro sum_list_mono) auto
  have val: "affine_at a x = aff_origin a + step * x l + ?sum"
    using sum_list_pick [OF d f(1), of "\<lambda>sc. snd sc * x (fst sc)"] by (simp add: affine_at_def)
  have xe: "x l = ?slot * ?w + x l mod ?w" "0 \<le> x l mod ?w" "x l mod ?w \<le> ?w - 1"
    using w by (simp_all only: div_mult_mod_eq pos_mod_sign zle_diff1_eq pos_mod_bound)
  have st: "0 < step" using f(1,3) by blast
  have m1: "step * (?slot * ?w) \<le> step * x l" "step * x l \<le> step * (?slot * ?w) + step * (?w - 1)"
    using xe st by (auto simp flip: distrib_left intro!: mult_left_mono)
  have c: "?slot * ?W \<le> aff_origin a + step * ?slot * ?w" "aff_origin a + step * ?slot * ?w + step * (?w - 1) +
      sum_list (map (\<lambda>sc. snd sc * (the (loop_extent space (fst sc)) - 1)) ?rest) < (?slot + 1) * ?W"
    using conjunct2 [OF own] mem by (auto simp only: list_all_iff)
  show "?slot * ?W \<le> affine_at a x" using c(1) lo m1(1) val by (simp add: mult.assoc)
  show "affine_at a x < (?slot + 1) * ?W" using c(2) hi m1(2) val by (simp add: mult.assoc)
qed

lemma as_affine_at:
  assumes "as_affine c = Some a"
  shows "coordinate_at c x = affine_at a x" "aff_origin a = c_origin c" "list_all (\<lambda>t. \<not> is_quot t) (c_terms c)"
proof -
  have L: "list_all (\<lambda>t. case snd t of Loop s \<Rightarrow> True | _ \<Rightarrow> False) (c_terms c)"
    and a: "a = \<lparr>aff_origin = c_origin c, aff_coeffs = map (\<lambda>t. case snd t of Loop s \<Rightarrow> (s, fst t) | _ \<Rightarrow> ([], 0)) (c_terms c)\<rparr>"
    using assms by (auto simp: as_affine_def split: if_split_asm)
  show "aff_origin a = c_origin c" by (simp add: a)
  have e: "map (\<lambda>t. fst t * digit_at (snd t) x) (c_terms c) =
      map (\<lambda>sc. snd sc * x (fst sc)) (map (\<lambda>t. case snd t of Loop s \<Rightarrow> (s, fst t) | _ \<Rightarrow> ([], 0)) (c_terms c))"
    using L by (auto simp: list_all_iff split: digit.splits)
  show "coordinate_at c x = affine_at a x" unfolding coordinate_at_def affine_at_def a affine.select_convs e ..
  show "list_all (\<lambda>t. \<not> is_quot t) (c_terms c)" using L by (auto simp: list_all_iff is_quot_def split: digit.splits)
qed

lemma coeff_sum:
  assumes "finite S" "fst ` set (aff_coeffs a) \<subseteq> S"
  shows "sum_list (map (\<lambda>sc. snd sc * x (fst sc)) (aff_coeffs a)) = (\<Sum>s\<in>S. coeff a s * x s)"
proof -
  have "fst ` set cs \<subseteq> S \<Longrightarrow> sum_list (map (\<lambda>sc. snd sc * x (fst sc)) cs) = (\<Sum>s\<in>S. sum_list (map snd (filter (\<lambda>sc. fst sc = s) cs)) * x s)" for cs :: "(string \<times> int) list"
  proof (induction cs)
    case (Cons p cs)
    have "(\<Sum>s\<in>S. sum_list (map snd (filter (\<lambda>sc. fst sc = s) (p # cs))) * x s) =
        (\<Sum>s\<in>S. (if s = fst p then snd p * x s else 0) + sum_list (map snd (filter (\<lambda>sc. fst sc = s) cs)) * x s)"
      by (intro sum.cong) (auto simp: distrib_right)
    also have "\<dots> = snd p * x (fst p) + (\<Sum>s\<in>S. sum_list (map snd (filter (\<lambda>sc. fst sc = s) cs)) * x s)"
      using assms(1) Cons.prems by (simp add: sum.distrib)
    finally show ?case using Cons by simp
  qed simp
  from this [OF assms(2)] show ?thesis by (simp add: coeff_def)
qed

lemma clear_denominator_at: "affine_at (clear_denominator a n d) x = d * affine_at a x + affine_at n x"
proof -
  let ?ks = "remdups (map fst (aff_coeffs a) @ map fst (aff_coeffs n))"
  let ?g = "\<lambda>s. (d * coeff a s + coeff n s) * x s"
  have drop0: "sum_list (map (\<lambda>sc. snd sc * x (fst sc)) (filter (\<lambda>sc. snd sc \<noteq> 0) cs)) = sum_list (map (\<lambda>sc. snd sc * x (fst sc)) cs)" for cs :: "(string \<times> int) list"
    by (induction cs) auto
  have "sum_list (map (\<lambda>sc. snd sc * x (fst sc)) (aff_coeffs (clear_denominator a n d))) = sum_list (map ?g ?ks)"
    by (simp add: clear_denominator_def drop0 comp_def)
  also have "\<dots> = (\<Sum>s\<in>set ?ks. ?g s)" by (rule sum.distinct_set_conv_list [symmetric]) simp
  also have "\<dots> = d * (\<Sum>s\<in>set ?ks. coeff a s * x s) + (\<Sum>s\<in>set ?ks. coeff n s * x s)"
    by (simp add: sum.distrib sum_distrib_left algebra_simps)
  also have "\<dots> = d * sum_list (map (\<lambda>sc. snd sc * x (fst sc)) (aff_coeffs a)) + sum_list (map (\<lambda>sc. snd sc * x (fst sc)) (aff_coeffs n))"
    using coeff_sum [of "set ?ks" a x] coeff_sum [of "set ?ks" n x] by simp
  finally show ?thesis by (simp add: affine_at_def clear_denominator_def algebra_simps)
qed

lemma clear_denominator_distinct: "distinct (map fst (aff_coeffs (clear_denominator a n d)))"
proof -
  have "map fst (filter (\<lambda>sc. snd sc \<noteq> 0) (map (\<lambda>s. (s, h s)) ks)) = filter (\<lambda>s. h s \<noteq> 0) ks" for h :: "string \<Rightarrow> int" and ks
    by (induction ks) auto
  then show ?thesis by (simp add: clear_denominator_def)
qed

definition at_origin :: "string \<Rightarrow> (string \<Rightarrow> int) \<Rightarrow> string \<Rightarrow> int" where
  "at_origin l x s = (if s = l then x s else 0)"

definition owned_by :: "coordinate \<Rightarrow> int \<Rightarrow> int \<Rightarrow> loop_space \<Rightarrow> string \<Rightarrow> coordinate \<Rightarrow> (string \<Rightarrow> int) \<Rightarrow> bool" where
  "owned_by c E split space l line x \<longleftrightarrow>
     (\<exists>e. loop_extent space l = Some e \<and> split dvd e \<and> coordinate_at c x div (E div split) = x l div (e div split)) \<and>
     coordinate_at line x = coordinate_at c (at_origin l x)"

lemma div_of_interval: "q * k \<le> v \<Longrightarrow> v < (q + 1) * k \<Longrightarrow> v div k = (q :: int)"
proof -
  assume a: "q * k \<le> v" "v < (q + 1) * k"
  then have "0 < k" by (simp add: algebra_simps)
  then show "v div k = q" using a interval_div_eq by blast
qed

lemma as_affine_distinct:
  assumes "as_affine c = Some a" "distinct (map snd (c_terms c))"
  shows "distinct (map fst (aff_coeffs a))"
proof -
  have L0: "\<forall>t\<in>set (c_terms c). case snd t of Loop s \<Rightarrow> True | _ \<Rightarrow> False"
    and a: "aff_coeffs a = map (\<lambda>t. case snd t of Loop s \<Rightarrow> (s, fst t) | _ \<Rightarrow> ([], 0)) (c_terms c)"
    using assms(1) by (auto simp: as_affine_def list_all_iff split: if_split_asm)
  have L: "\<exists>s. snd t = Loop s" if "t \<in> set (c_terms c)" for t using bspec [OF L0 that] by (cases "snd t") auto
  have "map snd (c_terms c) = map Loop (map fst (aff_coeffs a))" using L by (force simp: a)
  then have "distinct (map Loop (map fst (aff_coeffs a)))" using assms(2) by metis
  then show ?thesis by (simp only: distinct_map [of Loop "map fst (aff_coeffs a)"])
qed

lemma sum_at_origin:
  "sum_list (map (\<lambda>sc. snd sc * at_origin l x (fst sc)) cs) = sum_list (map (\<lambda>sc. snd sc * x (fst sc)) (filter (\<lambda>sc. fst sc = l) cs))"
  for cs :: "(string \<times> int) list"
  by (induction cs) (auto simp: at_origin_def)

lemma affine_projection_owned:
  assumes p: "project_affine_slice_axis c E split space = Inr (Some (l, line))" and sp: "0 < split"
    and d: "distinct (map snd (c_terms c))" and x: "in_loops space x"
  shows "owned_by c E split space l line x"
proof -
  from p obtain a step where a: "as_affine c = Some a" and pa: "project_affine a E split space = Inr (Some (l, step))"
    and line: "line = \<lparr>c_origin = c_origin c, c_terms = [(step, Loop l)]\<rparr>"
    by (auto simp: project_affine_slice_axis_def split: option.split_asm)
  note f = project_affine_Some [OF pa] and da = as_affine_distinct [OF a d]
  obtain e where e: "loop_extent space l = Some e" using f(1,3) by blast
  note in_box = project_affine_contains [OF pa sp da x e]
  have "filter (\<lambda>sc. fst sc = l) (aff_coeffs a) = [(l, step)]"
    using da f(1)
  proof (induction "aff_coeffs a" arbitrary: a)
    case (Cons q cs)
    show ?case
    proof (cases "q = (l, step)")
      case True
      then have "l \<notin> fst ` set cs" using Cons.prems(1) Cons.hyps(2) [symmetric] by simp
      then have "filter (\<lambda>sc. fst sc = l) cs = []" by (auto simp: filter_empty_conv)
      then show ?thesis using True Cons.hyps(2) [symmetric] by simp
    next
      case False
      then have m: "(l, step) \<in> set cs" using Cons.prems(2) Cons.hyps(2) [symmetric] by simp
      then have "l \<in> fst ` set cs" by force
      then have "fst q \<noteq> l" using Cons.prems(1) Cons.hyps(2) [symmetric] by auto
      then show ?thesis using Cons.hyps(1) [of "a\<lparr>aff_coeffs := cs\<rparr>"] Cons.prems(1) Cons.hyps(2) [symmetric] m by simp
    qed
  qed simp
  then have "coordinate_at line x = coordinate_at c (at_origin l x)"
    using sum_at_origin [of l x "aff_coeffs a"] as_affine_at(2) [OF a]
    by (simp add: as_affine_at(1) [OF a] affine_at_def) (simp add: coordinate_at_def line)
  moreover have "coordinate_at c x div (E div split) = x l div (e div split)"
    unfolding as_affine_at(1) [OF a] by (rule div_of_interval [OF in_box(2,3)])
  ultimately show ?thesis using e in_box(1) by (auto simp: owned_by_def)
qed

lemma floor_projection_owned:
  assumes p: "project_floor_affine_slice_axis c E split space = Inr (Some (l, line))" and sp: "0 < split" "split dvd E"
    and x: "in_loops space x"
  shows "owned_by c E split space l line x"
proof -
  from p obtain n d a step where q: "filter is_quot (c_terms c) = [(1, Quot n d)]"
    and a: "as_affine (c\<lparr>c_terms := filter (\<lambda>t. \<not> is_quot t) (c_terms c)\<rparr>) = Some a" and d: "0 < d"
    and pa: "project_affine (clear_denominator a n d) (E * d) split space = Inr (Some (l, step))"
    and line: "line = \<lparr>c_origin = c_origin c, c_terms = filter (\<lambda>t. snd t = Loop l) (c_terms c) @ [(1, Quot (keep_loop l n) d)]\<rparr>"
    by (auto simp: project_floor_affine_slice_axis_def not_le split: list.split_asm digit.split_asm option.split_asm if_split_asm)
  let ?N = "clear_denominator a n d" and ?r = "c\<lparr>c_terms := filter (\<lambda>t. \<not> is_quot t) (c_terms c)\<rparr>"
  have part: "sum_list (map f ts) = sum_list (map f (filter (\<lambda>t. \<not> is_quot t) ts)) + sum_list (map f (filter is_quot ts))" for f :: "int \<times> digit \<Rightarrow> int" and ts
    by (induction ts) auto
  have val: "coordinate_at c y = affine_at a y + affine_at n y div d" for y
    using part [of "\<lambda>t. fst t * digit_at (snd t) y" "c_terms c"] q as_affine_at(1) [OF a, of y]
    by (simp add: coordinate_at_def)
  then have N: "coordinate_at c y = affine_at ?N y div d" for y using d by (simp add: clear_denominator_at)
  obtain e where e: "loop_extent space l = Some e" using project_affine_Some(1,3) [OF pa] by blast
  note in_box = project_affine_contains [OF pa sp(1) clear_denominator_distinct x e]
  have W: "E * d div split = (E div split) * d" using sp by (simp add: div_mult_swap [symmetric] dvd_div_mult)
  let ?q = "x l div (e div split)"
  have "?q * (E div split) \<le> affine_at ?N x div d"
    using zdiv_mono1 [OF in_box(2), of d] d W by (simp add: mult.assoc [symmetric])
  moreover have "affine_at ?N x div d < (?q + 1) * (E div split)"
    using in_box(3) d W by (intro div_less_bound) (simp_all add: mult.assoc)
  ultimately have "coordinate_at c x div (E div split) = ?q" unfolding N by (rule div_of_interval)
  moreover have "coordinate_at line x = coordinate_at c (at_origin l x)"
  proof -
    have lin: "sum_list (map (\<lambda>t. fst t * digit_at (snd t) (at_origin l x)) (filter (\<lambda>t. \<not> is_quot t) ts)) =
        sum_list (map (\<lambda>t. fst t * digit_at (snd t) x) (filter (\<lambda>t. snd t = Loop l) ts))" for ts
    proof (induction ts)
      case (Cons t ts)
      show ?case using Cons by (cases "snd t") (auto simp: is_quot_def at_origin_def)
    qed simp
    have "affine_at (keep_loop l n) x = affine_at n (at_origin l x)"
      using sum_at_origin [of l x "aff_coeffs n"] by (simp add: affine_at_def keep_loop_def)
    then show ?thesis
      using part [of "\<lambda>t. fst t * digit_at (snd t) (at_origin l x)" "c_terms c"] q lin [of "c_terms c"]
      by (simp add: coordinate_at_def line)
  qed
  ultimately show ?thesis using e in_box(1) by (auto simp: owned_by_def)
qed

text \<open>
  C19: A projected loop owns the slices of the coordinate.  At every point of the iteration space the
  coordinate falls into the slice numbered by the loop's own slice, whatever the other loops do, so
  splitting the loop splits the device axis the same way; and the returned line is the original coordinate
  with the other loops at their origin.
\<close>

theorem projected_loop_owns_slices:
  assumes p: "project_slice_axis c E split space floor_only = Inr (Some (l, line))" and sp: "0 < split" "split dvd E"
    and d: "distinct (map snd (c_terms c))" and x: "in_loops space x"
  shows "(\<exists>e. loop_extent space l = Some e \<and> split dvd e \<and> coordinate_at c x div (E div split) = x l div (e div split)) \<and>
     coordinate_at line x = coordinate_at c (at_origin l x)"
proof -
  from p consider "project_affine_slice_axis c E split space = Inr (Some (l, line))" | "project_floor_affine_slice_axis c E split space = Inr (Some (l, line))"
    by (auto simp: project_slice_axis_def split: if_split_asm option.split_asm)
  then show ?thesis
    by cases (use affine_projection_owned [OF _ sp(1) d x] floor_projection_owned [OF _ sp x] in \<open>auto simp: owned_by_def\<close>)
qed

definition repack_coordinate :: coordinate where
  "repack_coordinate = \<lparr>c_origin = 0, c_terms = [(2, Loop ''head''), (1, Quot \<lparr>aff_origin = 0, aff_coeffs = [(''width'', 1)]\<rparr> 64)]\<rparr>"

theorem projected_loop_owns_slices_witness:
  "\<exists>l line. project_slice_axis repack_coordinate 16 4 [(''head'', Some 8), (''width'', Some 128)] False = Inr (Some (l, line)) \<and>
     coordinate_at line (\<lambda>s. if s = ''head'' then 5 else 100) = coordinate_at repack_coordinate (at_origin l (\<lambda>s. if s = ''head'' then 5 else 100))"
proof -
  let ?p = "project_slice_axis repack_coordinate 16 4 [(''head'', Some 8), (''width'', Some 128)] False"
  have n: "\<not> isl ?p" "\<not> Option.is_none (projr ?p)" by code_simp+
  obtain l line where p: "Inr (Some (l, line)) = ?p"
    using sum.collapse(2) [OF n(1)] n(2) by (cases "projr ?p") (auto simp: Option.is_none_def)
  note p = p [symmetric]
  have x: "in_loops [(''head'', Some 8), (''width'', Some 128)] (\<lambda>s. if s = ''head'' then 5 else 100)"
    by (auto simp: in_loops_def loop_extent_def split: if_split_asm)
  have "coordinate_at line (\<lambda>s. if s = ''head'' then 5 else 100) = coordinate_at repack_coordinate (at_origin l (\<lambda>s. if s = ''head'' then 5 else 100))"
    using projected_loop_owns_slices [OF p _ _ _ x] by (simp add: repack_coordinate_def)
  then show ?thesis using p by blast
qed

section \<open>Mixed-radix ownership\<close>

definition digits_in :: "(int \<times> digit \<times> int) list \<Rightarrow> (string \<Rightarrow> int) \<Rightarrow> bool" where
  "digits_in ds x \<longleftrightarrow> list_all (\<lambda>(k, g, radix). 0 \<le> digit_at g x \<and> digit_at g x < radix) ds"

definition digits_value :: "(int \<times> digit \<times> int) list \<Rightarrow> (string \<Rightarrow> int) \<Rightarrow> int" where
  "digits_value ds x = sum_list (map (\<lambda>(k, g, radix). k * digit_at g x) ds)"

lemma mixed_radix_full:
  fixes g v s r q t :: int
  assumes "s mod (r * q) = (t * q * g + v) div t" "0 \<le> g" "g < r" "0 \<le> v" "v < t * q" "0 < t" "0 < q"
  shows "s div q mod r = g" "s mod q = v div t"
proof -
  have "(t * q * g + v) div t = q * g + v div t" using assms(6) by (simp add: mult.assoc)
  then have m: "s mod (r * q) = q * g + v div t" using assms(1) by simp
  have vt: "0 \<le> v div t" "v div t < q" using assms(4-6) by (auto simp: pos_imp_zdiv_nonneg_iff mult.commute intro: div_less_bound)
  have "s mod q = s mod (r * q) mod q" by (simp add: mod_mult2_eq' mod_mod_cancel)
  also have "\<dots> = v div t" unfolding m using vt by simp
  finally show "s mod q = v div t" .
  have "s div q mod r = s mod (q * r) div q" using assms(7) zmod_zmult2_eq [of r s q] assms(2,3) by simp
  also have "\<dots> = g" using m vt assms(7) by (simp add: mult.commute)
  finally show "s div q mod r = g" .
qed

lemma factor_digits_owners:
  assumes "factor_digits slot ds S R = Inr (Some rows)" "digits_in ds x" "0 < S" "0 < R"
    and "list_all (\<lambda>(k, g, radix). 1 < radix) ds"
  shows "R dvd S \<and> 0 \<le> digits_value ds x \<and> digits_value ds x < S \<and>
     (\<forall>core s. owner_at slot core = Some s \<longrightarrow> s mod R = digits_value ds x div (S div R) \<longrightarrow>
        list_all (\<lambda>(radix, g, f, ow). 0 < f \<and> f dvd radix \<and> owner_at ow core = Some (digit_at g x div (radix div f))) rows)"
  using assms
proof (induction ds arbitrary: S R rows)
  case Nil
  then show ?case by (auto simp: digits_value_def split: if_split_asm)
next
  case (Cons d ds)
  obtain k g radix where d: "d = (k, g, radix)" by (cases d)
  let ?f = "min radix R" and ?S = "S div radix"
  have radix: "1 < radix" using Cons.prems(5) d by simp
  have f: "0 < ?f" using radix Cons.prems(4) by simp
  obtain rest where rest: "factor_digits slot ds ?S (R div ?f) = Inr (Some rest)"
    and rows: "rows = (radix, g, ?f, Rem (FloorDiv slot (R div ?f)) ?f) # rest"
    and S: "radix dvd S" "k = ?S" and fd: "?f dvd radix" "?f dvd R"
    using Cons.prems(1) f by (auto simp: d Let_def mod_0_imp_dvd split: if_split_asm)
  have S': "0 < ?S" "S = radix * ?S" using S Cons.prems(3) radix by (auto simp: pos_imp_zdiv_pos_iff zdvd_imp_le)
  have R': "0 < R div ?f" "R = ?f * (R div ?f)" using fd f Cons.prems(4) by (auto simp: pos_imp_zdiv_pos_iff zdvd_imp_le)
  have dg: "0 \<le> digit_at g x" "digit_at g x < radix" "digits_in ds x" using Cons.prems(2) d by (simp_all add: digits_in_def)
  have IH: "R div ?f dvd ?S \<and> 0 \<le> digits_value ds x \<and> digits_value ds x < ?S \<and>
     (\<forall>core s. owner_at slot core = Some s \<longrightarrow> s mod (R div ?f) = digits_value ds x div (?S div (R div ?f)) \<longrightarrow>
        list_all (\<lambda>(radix, g, f, ow). 0 < f \<and> f dvd radix \<and> owner_at ow core = Some (digit_at g x div (radix div f))) rest)"
    by (rule Cons.IH [OF rest dg(3) S'(1) R'(1)]) (use Cons.prems(5) in simp)
  have val: "digits_value (d # ds) x = ?S * digit_at g x + digits_value ds x" by (simp add: digits_value_def d S(2))
  have RS: "R dvd S" using mult_dvd_mono [OF fd(1), of "R div ?f" ?S] IH R'(2) S'(2) by simp
  have lt: "digits_value (d # ds) x < S"
  proof -
    have "?S * digit_at g x + digits_value ds x < ?S * (digit_at g x + 1)" using IH by (simp add: algebra_simps)
    also have "\<dots> \<le> ?S * radix" using dg S' by (intro mult_left_mono) auto
    finally show ?thesis using S'(2) val by (simp add: mult.commute)
  qed
  have own: "owner_at (Rem (FloorDiv slot (R div ?f)) ?f) core = Some (s div (R div ?f) mod ?f)" if "owner_at slot core = Some s" for core s
  proof -
    have "?f \<noteq> 0" "R div ?f \<noteq> 0" using f R'(1) by linarith+
    then show ?thesis by (simp only: owner_at.simps that option.case if_False)
  qed
  have key: "s div (R div ?f) mod ?f = digit_at g x div (radix div ?f) \<and> s mod (R div ?f) = digits_value ds x div (?S div (R div ?f))"
    if s: "s mod R = digits_value (d # ds) x div (S div R)" for s
  proof (cases "radix \<le> R")
    case True
    then have fr: "?f = radix" by simp
    let ?q = "R div radix"
    let ?t = "?S div ?q"
    have q: "0 < ?q" "R = radix * ?q" "?q dvd ?S" using R' IH fr by simp_all
    have t: "?S = ?t * ?q" "0 < ?t" using q(1,3) S'(1) by (auto simp: pos_imp_zdiv_pos_iff zdvd_imp_le)
    have "S div R = ?t" using S'(2) q radix by (metis div_mult_mult1 less_numeral_extra(3) mult_eq_0_iff order_less_trans zero_less_one)
    then have m: "s mod (radix * ?q) = (?t * ?q * digit_at g x + digits_value ds x) div ?t"
      using s q(2) t(1) val by simp
    have "radix div radix = 1" using radix by simp
    then show ?thesis using mixed_radix_full [OF m dg(1,2)] IH t q(1) by (simp add: fr)
  next
    case False
    then have fr: "?f = R" "R div ?f = 1" using Cons.prems(4) by simp_all
    have r: "radix = R * (radix div R)" "0 < radix div R" using fd(1) fr(1) radix Cons.prems(4) by (auto simp: pos_imp_zdiv_pos_iff zdvd_imp_le)
    have "S div R = (radix div R) * ?S" using S'(2) fd(1) fr(1) by (metis div_mult_swap mult.commute)
    then have "s mod R = (?S * digit_at g x + digits_value ds x) div (?S * (radix div R))" using s val by (simp add: mult.commute)
    also have "\<dots> = (?S * digit_at g x + digits_value ds x) div ?S div (radix div R)" using r(2) by (simp add: zdiv_zmult2_eq)
    also have "(?S * digit_at g x + digits_value ds x) div ?S = digit_at g x" using IH S'(1) by simp
    finally have "s mod R = digit_at g x div (radix div R)" .
    moreover have "digits_value ds x div ?S = 0" using IH by simp
    ultimately show ?thesis using fr by simp
  qed
  show ?case using RS lt val IH key own f fd(1) dg S'(1) by (auto simp: rows)
qed

lemma collect_digits_Some:
  assumes "collect_digits space ts seen = Some ds" "in_loops space x"
  shows "digits_in ds x" "list_all (\<lambda>(k, g, radix). 1 < radix) ds" "digits_value ds x = sum_list (map (\<lambda>t. fst t * digit_at (snd t) x) ts)"
proof -
  have "digits_in ds x \<and> list_all (\<lambda>(k, g, radix). 1 < radix) ds \<and> digits_value ds x = sum_list (map (\<lambda>t. fst t * digit_at (snd t) x) ts)"
    using assms(1)
  proof (induction ts arbitrary: seen ds)
    case Nil
    then show ?case by (simp add: digits_in_def digits_value_def)
  next
    case (Cons t ts)
    obtain k g where t: "t = (k, g)" by (cases t)
    from Cons.prems obtain l dv e ds' where g: "digit_loop g = Some (l, dv)" and e: "loop_extent space l = Some e" "e mod dv = 0" "1 < e div dv"
      and ds': "collect_digits space ts (l # seen) = Some ds'" "ds = (k, g, e div dv) # ds'"
      by (auto simp: t split: if_split_asm option.split_asm)
    have dv: "0 < dv" "digit_at g x = x l div dv"
      using g by (auto simp: digit_loop_def affine_at_def split: digit.split_asm list.split_asm if_split_asm)
    have xl: "0 \<le> x l" "x l < e" using assms(2) e(1) by (auto simp: in_loops_def)
    have "e = e div dv * dv" using e(2) by (simp add: mod_0_imp_dvd)
    then have "x l div dv < e div dv" using xl(2) by (intro div_less_bound [OF dv(1)]) simp
    then have dg: "0 \<le> digit_at g x \<and> digit_at g x < e div dv" using xl dv by (simp add: pos_imp_zdiv_nonneg_iff)
    show ?case using Cons.IH [OF ds'(1)] dg e(3) by (simp add: ds'(2) t digits_in_def digits_value_def)
  qed
  then show "digits_in ds x" "list_all (\<lambda>(k, g, radix). 1 < radix) ds" "digits_value ds x = sum_list (map (\<lambda>t. fst t * digit_at (snd t) x) ts)"
    by auto
qed

text \<open>
  C20: A factored axis splits its digits the way the slices are owned.  At every point of the iteration
  space the coordinate lies on the device axis, and on any core whose slot is the coordinate's slice each
  row's owner formula evaluates to the slice of that row's digit.  So owning a slice of the axis is owning
  one slice of every digit.
\<close>

theorem factored_axis_owns_digits:
  assumes f: "factor_slice_axis c E split slot space = Inr (Some rows)" and pos: "0 < E" "0 < split" and x: "in_loops space x"
    and core: "owner_at slot core = Some (coordinate_at c x div (E div split))"
  shows "0 \<le> coordinate_at c x \<and> coordinate_at c x < E \<and> split dvd E \<and>
     list_all (\<lambda>(radix, g, n, ow). 0 < n \<and> n dvd radix \<and> owner_at ow core = Some (digit_at g x div (radix div n))) rows"
proof -
  from f obtain ds where c0: "c_origin c = 0" and ds: "collect_digits space (c_terms c) [] = Some ds"
    and fd: "factor_digits slot (sort_key (\<lambda>d. - fst d) ds) E split = Inr (Some rows)"
    by (auto simp: factor_slice_axis_def split: if_split_asm option.split_asm)
  let ?ds = "sort_key (\<lambda>d. - fst d) ds"
  note C = collect_digits_Some [OF ds x]
  have sorted: "digits_in ?ds x" "list_all (\<lambda>(k, g, radix). 1 < radix) ?ds" using C(1,2) by (simp_all add: digits_in_def list_all_iff)
  have "mset (map (\<lambda>(k, g, radix). k * digit_at g x) ?ds) = mset (map (\<lambda>(k, g, radix). k * digit_at g x) ds)" by simp
  then have "digits_value ?ds x = digits_value ds x" unfolding digits_value_def by (metis sum_mset_sum_list)
  then have val: "digits_value ?ds x = coordinate_at c x" using C(3) c0 by (simp add: coordinate_at_def)
  note F = factor_digits_owners [OF fd sorted(1) pos sorted(2), unfolded val]
  let ?s = "coordinate_at c x div (E div split)"
  have b: "split dvd E" "0 \<le> coordinate_at c x" "coordinate_at c x < E" using F by auto
  then have w: "0 < E div split" "E = split * (E div split)" using pos by (auto simp: pos_imp_zdiv_pos_iff zdvd_imp_le)
  have "0 \<le> ?s" using b w by (simp add: pos_imp_zdiv_nonneg_iff)
  moreover have "?s < split" using b w by (intro div_less_bound) simp_all
  ultimately have "?s mod split = ?s" by simp
  then show ?thesis using F core b by blast
qed

definition rope_coordinate :: coordinate where
  "rope_coordinate = \<lparr>c_origin = 0, c_terms = [(2, Loop ''head''), (1, Loop ''pair'')]\<rparr>"

theorem factored_axis_owns_digits_witness:
  "\<exists>rows. factor_slice_axis rope_coordinate 16 16 CoreId [(''head'', Some 8), (''pair'', Some 2)] = Inr (Some rows) \<and>
     list_all (\<lambda>(radix, g, n, ow). 0 < n \<and> n dvd radix \<and>
       owner_at ow 11 = Some (digit_at g (\<lambda>s. if s = ''head'' then 5 else 1) div (radix div n))) rows"
proof -
  let ?p = "factor_slice_axis rope_coordinate 16 16 CoreId [(''head'', Some 8), (''pair'', Some 2)]"
  have n: "\<not> isl ?p" "\<not> Option.is_none (projr ?p)" by code_simp+
  obtain rows where p: "Inr (Some rows) = ?p" using sum.collapse(2) [OF n(1)] n(2) by (cases "projr ?p") (auto simp: Option.is_none_def)
  let ?x = "\<lambda>s. if s = ''head'' then 5 else (1 :: int)"
  have x: "in_loops [(''head'', Some 8), (''pair'', Some 2)] ?x" by (auto simp: in_loops_def loop_extent_def split: if_split_asm)
  have "coordinate_at rope_coordinate ?x = 11" by (simp add: coordinate_at_def rope_coordinate_def)
  then show ?thesis using factored_axis_owns_digits [OF p [symmetric] _ _ x, of 11] p by (intro exI [of _ rows]) simp
qed

end
