(* ===== verification/Perm_Packer.thy ===== *)
theory Perm_Packer
  imports Plan_Solver Complex_Main
begin

text \<open>
  The permutation packer \<open>NativePermutationLayoutSolver\<close>
  (\<open>torch_spyre/csrc/perm_layout_native.cpp\<close>), the layout engine of the simulated-annealing
  solver: a permutation of the buffers is an allocation order, and every buffer rests on the
  earlier, time-overlapping ones, in the slot of an in-place partner where the rest leaves it
  free, or is evicted when it would cross the capacity or rest on an evicted buffer.

  \<open>StaticData\<close> and the dynamic state are records, the vectors are lists indexed by buffer, by
  position or by elementary interval of the timeline, and a thrown \<open>std::invalid_argument\<close> is
  Python's \<open>ValueError\<close>.  Here the addresses are computed over the integers; \<open>Packer_Machine\<close>
  computes them in \<open>int64_t\<close>, with every addition checked, and shows that the two agree
  whenever no addition overflows, with a bound under which none does.  Qualities are sums of
  multiples of one half, exact in a double below \<open>2 ^ 52\<close>, and are \<open>real\<close> here.

  The specification is \<open>placement\<close>: the layout placed from scratch, each buffer scanning
  all earlier ones, as the test suite's \<open>ReferencePermutationBasedLayoutSolver\<close> states it.
  The packer takes shortcuts (per-interval aggregates, the saturation early stop, operations
  that skip the rebuild), and the refinement shows that none of them changes a layout.
\<close>

subsection \<open>State\<close>

record static_data =
  sd_n :: nat
  sd_capacity :: int
  sd_alignment :: int
  sd_start :: "int list"
  sd_end :: "int list"
  sd_weight :: "real list"
  sd_overlap :: "nat list list"
  sd_partners :: "nat list list"
  sd_declared_parents :: "nat list list"
  sd_num_intervals :: nat
  sd_total_at :: "int list"
  sd_buf_intervals :: "(nat \<times> nat) list"

record packer =
  pk_static :: static_data
  pk_permutation :: "nat list"
  pk_position :: "nat list"
  pk_sizes :: "int list"
  pk_eligible :: "bool list"
  pk_addr :: "int list"
  pk_allocated :: "bool list"
  pk_quality :: real
  pk_count :: nat

text \<open>The scratch vectors of one \<open>RecomputeAll\<close>, with the fields it rebuilds.\<close>

record recompute =
  rc_addr :: "int list"
  rc_allocated :: "bool list"
  rc_quality :: real
  rc_count :: nat
  rc_placed_at :: "int list"
  rc_has_none_at :: "bool list"
  rc_done_at :: "bool list"
  rc_max_top_at :: "int list"
  rc_not_done :: int

subsection \<open>The timeline\<close>

definition overlaps_idx :: "static_data \<Rightarrow> nat \<Rightarrow> nat \<Rightarrow> bool" where
  "overlaps_idx st x y \<longleftrightarrow> sd_start st ! x < sd_end st ! y \<and> sd_start st ! y < sd_end st ! x"

definition lower_bound :: "int list \<Rightarrow> int \<Rightarrow> nat" where
  "lower_bound pts v = length (takeWhile (\<lambda>p. p < v) pts)"

definition delta_step :: "(nat \<times> nat) \<Rightarrow> int list \<Rightarrow> int list" where
  "delta_step iv d =
     (let d' = d[fst iv := d ! fst iv + 1] in d'[snd iv := d' ! snd iv - 1])"

fun running_totals :: "int \<Rightarrow> int list \<Rightarrow> int list" where
  "running_totals r [] = []"
| "running_totals r (d # ds) = (r + d) # running_totals (r + d) ds"

definition timeline_points :: "int list \<Rightarrow> int list \<Rightarrow> int list" where
  "timeline_points starts ends = remdups_adj (sort (starts @ ends))"

definition build_interval_data :: "static_data \<Rightarrow> static_data" where
  "build_interval_data st =
     (let n = sd_n st;
          pts = timeline_points (sd_start st) (sd_end st);
          k = length pts - 1;
          st0 = st\<lparr>sd_num_intervals := k, sd_total_at := replicate k 0,
                   sd_buf_intervals := replicate n (0, 0)\<rparr>
      in if k = 0 then st0
         else let ivs = map (\<lambda>i. (lower_bound pts (sd_start st ! i), lower_bound pts (sd_end st ! i))) [0..<n];
                  deltas = fold delta_step ivs (replicate (k + 1) 0)
              in st0\<lparr>sd_total_at := running_totals 0 (take k deltas), sd_buf_intervals := ivs\<rparr>)"

subsection \<open>Placing one buffer\<close>

definition align_up :: "static_data \<Rightarrow> int \<Rightarrow> int" where
  "align_up st a = round_up_to_alignment a (sd_alignment st)"

definition packer_pair :: "static_data \<Rightarrow> nat \<Rightarrow> nat \<Rightarrow> nat \<times> nat" where
  "packer_pair st i j = (if j \<in> set (sd_declared_parents st ! i) then (j, i) else (i, j))"

definition others_top :: "int list \<Rightarrow> (nat \<Rightarrow> int option) \<Rightarrow> nat list \<Rightarrow> nat \<Rightarrow> int" where
  "others_top sizes addr cand partner =
     fold (\<lambda>q m. max m (the (addr q) + sizes ! q)) (filter (\<lambda>q. q \<noteq> partner) cand) 0"

definition slot_free :: "static_data \<Rightarrow> int list \<Rightarrow> (nat \<Rightarrow> int option) \<Rightarrow> nat \<Rightarrow> nat list \<Rightarrow> nat \<Rightarrow> bool" where
  "slot_free st sizes addr idx cand partner \<longleftrightarrow>
     partner \<in> set cand \<and>
     (case packer_pair st idx partner of (parent, child) \<Rightarrow> sizes ! child \<le> sizes ! parent) \<and>
     others_top sizes addr cand partner \<le> the (addr partner)"

definition place_decision ::
  "static_data \<Rightarrow> int list \<Rightarrow> (nat \<Rightarrow> int option) \<Rightarrow> nat list \<Rightarrow> nat \<Rightarrow> nat list \<Rightarrow> int option" where
  "place_decision st sizes addr partners idx cand =
     (let fit = (\<lambda>a. if a + sizes ! idx > sd_capacity st then None else Some a)
      in if cand = [] then fit 0
         else if \<exists>p\<in>set cand. addr p = None then None
         else (case find (slot_free st sizes addr idx cand) partners of
                 Some partner \<Rightarrow> fit (the (addr partner))
               | None \<Rightarrow>
                   fit (align_up st (fold (\<lambda>p m. max m (the (addr p) + sizes ! p)) cand (- (2 ^ 63))))))"

subsection \<open>Rebuilding the layout\<close>

definition init_intervals :: "static_data \<Rightarrow> recompute \<Rightarrow> recompute" where
  "init_intervals st rc =
     (let k = sd_num_intervals st;
          finished = map (\<lambda>t. sd_total_at st ! t = 0) [0..<k]
      in rc\<lparr>rc_placed_at := replicate k 0, rc_has_none_at := replicate k False,
            rc_done_at := finished, rc_max_top_at := replicate k 0,
            rc_not_done := int (length (filter Not finished))\<rparr>)"

definition addr_of :: "recompute \<Rightarrow> nat \<Rightarrow> int option" where
  "addr_of rc p = (if rc_allocated rc ! p then Some (rc_addr rc ! p) else None)"

definition gather_candidates :: "packer \<Rightarrow> nat \<Rightarrow> nat \<Rightarrow> nat list" where
  "gather_candidates p idx pos =
     filter (\<lambda>w. pk_position p ! w < pos \<and> pk_eligible p ! w) (sd_overlap (pk_static p) ! idx)"

definition commit_interval :: "static_data \<Rightarrow> bool \<Rightarrow> int \<Rightarrow> nat \<Rightarrow> recompute \<Rightarrow> recompute" where
  "commit_interval st set_none own_top t rc =
     (let placed = (rc_placed_at rc)[t := rc_placed_at rc ! t + 1];
          none = (if set_none then (rc_has_none_at rc)[t := True] else rc_has_none_at rc);
          tops = (if set_none then rc_max_top_at rc
                  else if own_top > rc_max_top_at rc ! t then (rc_max_top_at rc)[t := own_top]
                  else rc_max_top_at rc);
          finish = (\<not> rc_done_at rc ! t \<and> (none ! t \<or> placed ! t = sd_total_at st ! t))
      in rc\<lparr>rc_placed_at := placed, rc_has_none_at := none, rc_max_top_at := tops,
            rc_done_at := (if finish then (rc_done_at rc)[t := True] else rc_done_at rc),
            rc_not_done := (if finish then rc_not_done rc - 1 else rc_not_done rc)\<rparr>)"

definition commit_intervals :: "static_data \<Rightarrow> nat \<Rightarrow> bool \<Rightarrow> int \<Rightarrow> recompute \<Rightarrow> recompute" where
  "commit_intervals st idx set_none own_top rc =
     (let (lo, hi) = sd_buf_intervals st ! idx
      in fold (commit_interval st set_none own_top) [lo..<hi] rc)"

text \<open>The scan of a buffer's intervals: stop at the first that holds an evicted buffer,
  otherwise the highest top.\<close>

fun interval_floor :: "recompute \<Rightarrow> nat list \<Rightarrow> int \<Rightarrow> int option" where
  "interval_floor rc [] m = Some m"
| "interval_floor rc (t # ts) m =
     (if rc_has_none_at rc ! t then None
      else interval_floor rc ts (if rc_max_top_at rc ! t > m then rc_max_top_at rc ! t else m))"

definition decide_address :: "packer \<Rightarrow> nat \<Rightarrow> nat \<Rightarrow> recompute \<Rightarrow> int option" where
  "decide_address p pos idx rc =
     (let st = pk_static p; (lo, hi) = sd_buf_intervals st ! idx
      in if sd_partners st ! idx = []
         then (case interval_floor rc [lo..<hi] 0 of
                 None \<Rightarrow> None
               | Some max_top \<Rightarrow>
                   let aligned = align_up st max_top
                   in if aligned + pk_sizes p ! idx > sd_capacity st then None else Some aligned)
         else place_decision st (pk_sizes p) (addr_of rc) (sd_partners st ! idx) idx
                (gather_candidates p idx pos))"

definition recompute_one :: "packer \<Rightarrow> nat \<Rightarrow> nat \<Rightarrow> recompute \<Rightarrow> recompute" where
  "recompute_one p pos idx rc =
     (let st = pk_static p
      in if \<not> pk_eligible p ! idx
         then commit_intervals st idx False (-1) (rc\<lparr>rc_allocated := (rc_allocated rc)[idx := False]\<rparr>)
         else (case decide_address p pos idx rc of
                 Some a \<Rightarrow>
                   commit_intervals st idx False (a + pk_sizes p ! idx)
                     (rc\<lparr>rc_allocated := (rc_allocated rc)[idx := True],
                         rc_addr := (rc_addr rc)[idx := a],
                         rc_quality := rc_quality rc + sd_weight st ! idx * of_int (pk_sizes p ! idx),
                         rc_count := rc_count rc + 1\<rparr>)
               | None \<Rightarrow>
                   commit_intervals st idx True (-1)
                     (rc\<lparr>rc_allocated := (rc_allocated rc)[idx := False],
                         rc_addr := (rc_addr rc)[idx := 0]\<rparr>)))"

definition mark_evicted :: "nat list \<Rightarrow> bool list \<Rightarrow> bool list" where
  "mark_evicted is al = fold (\<lambda>i al. al[i := False]) is al"

fun recompute_loop :: "packer \<Rightarrow> nat \<Rightarrow> nat list \<Rightarrow> recompute \<Rightarrow> recompute" where
  "recompute_loop p pos [] rc = rc"
| "recompute_loop p pos (idx # rest) rc =
     (if rc_not_done rc = 0
      then rc\<lparr>rc_allocated := mark_evicted (idx # rest) (rc_allocated rc)\<rparr>
      else recompute_loop p (pos + 1) rest (recompute_one p pos idx rc))"

definition start_recompute :: "packer \<Rightarrow> recompute" where
  "start_recompute p =
     init_intervals (pk_static p)
       \<lparr>rc_addr = pk_addr p, rc_allocated = pk_allocated p, rc_quality = 0, rc_count = 0,
        rc_placed_at = [], rc_has_none_at = [], rc_done_at = [], rc_max_top_at = [], rc_not_done = 0\<rparr>"

definition recompute_all :: "packer \<Rightarrow> packer" where
  "recompute_all p =
     (let rc = recompute_loop p 0 (pk_permutation p) (start_recompute p)
      in p\<lparr>pk_addr := rc_addr rc, pk_allocated := rc_allocated rc,
           pk_quality := rc_quality rc, pk_count := rc_count rc\<rparr>)"

subsection \<open>Construction\<close>

definition int64_ok :: "int \<Rightarrow> bool" where
  "int64_ok v \<longleftrightarrow> - (2 ^ 63) \<le> v \<and> v < 2 ^ 63"

definition fields_readable :: "buffer \<Rightarrow> bool" where
  "fields_readable b \<longleftrightarrow> int64_ok (b_size b) \<and> 0 \<le> b_size b \<and> (\<forall>u\<in>set (uses b). int64_ok u) \<and>
     uses b \<noteq> [] \<and> last (uses b) \<noteq> 2 ^ 63 - 1 \<and> int64_ok (start_time b) \<and> int64_ok (end_time b)"

definition use_weight :: "buffer \<Rightarrow> real" where
  "use_weight b = of_nat (length (uses b)) + (if first_use_is_read b then 0 else 1 / 2)"

definition can_hand_over :: "buffer \<Rightarrow> bool" where
  "can_hand_over b \<longleftrightarrow> first_use_is_read b \<or> (length (uses b) > 1 \<and> last (uses b) > hd (uses b))"

definition declared_parents :: "buffer list \<Rightarrow> nat \<Rightarrow> nat list" where
  "declared_parents bs child =
     List.map_filter (\<lambda>pname. find (\<lambda>i. b_name (bs ! i) = pname) [0..<length bs])
       (in_place_parents (bs ! child))"

definition parents_valid :: "buffer list \<Rightarrow> nat \<Rightarrow> bool" where
  "parents_valid bs child \<longleftrightarrow>
     (\<forall>parent\<in>set (declared_parents bs child).
        can_hand_over (bs ! parent) \<and> end_time (bs ! parent) = start_time (bs ! child) + 1)"

text \<open>The partners of a buffer, an unordered set in the source: its parents, then the buffers that
  declare it.\<close>

definition inplace_partners :: "buffer list \<Rightarrow> nat \<Rightarrow> nat list" where
  "inplace_partners bs i =
     remdups (declared_parents bs i @ filter (\<lambda>c. i \<in> set (declared_parents bs c)) [0..<length bs])"

definition make_static :: "buffer list \<Rightarrow> int \<Rightarrow> int \<Rightarrow> static_data" where
  "make_static bs capacity alignment =
     (let n = length bs;
          starts = map start_time bs; ends = map end_time bs;
          over = (\<lambda>a c. starts ! a < ends ! c \<and> starts ! c < ends ! a)
      in build_interval_data
           \<lparr>sd_n = n, sd_capacity = capacity, sd_alignment = alignment,
            sd_start = starts, sd_end = ends, sd_weight = map use_weight bs,
            sd_overlap = map (\<lambda>a. filter (\<lambda>c. c \<noteq> a \<and> over a c) [0..<n]) [0..<n],
            sd_partners = map (inplace_partners bs) [0..<n],
            sd_declared_parents = map (declared_parents bs) [0..<n],
            sd_num_intervals = 0, sd_total_at = [], sd_buf_intervals = []\<rparr>)"

definition inverse_of :: "nat list \<Rightarrow> nat list" where
  "inverse_of perm = fold (\<lambda>pos acc. acc[perm ! pos := pos]) [0..<length perm] (replicate (length perm) 0)"

definition initial_packer ::
  "buffer list \<Rightarrow> nat list \<Rightarrow> int \<Rightarrow> int \<Rightarrow> bool list option \<Rightarrow> packer res" where
  "initial_packer bs perm capacity alignment eligible =
     bindE (check (0 < alignment) ValueError) (\<lambda>_.
     bindE (check (sort perm = [0..<length bs]) ValueError) (\<lambda>_.
     bindE (check (list_all fields_readable bs) ValueError) (\<lambda>_.
     bindE (check (distinct (map b_name bs)) ValueError) (\<lambda>_.
     bindE (check (list_all (parents_valid bs) [0..<length bs]) ValueError) (\<lambda>_.
     bindE (case eligible of
              None \<Rightarrow> Inr (replicate (length bs) True)
            | Some flags \<Rightarrow> bindE (check (length flags = length bs) ValueError) (\<lambda>_. Inr flags)) (\<lambda>flags.
       Inr \<lparr>pk_static = make_static bs capacity alignment, pk_permutation = perm,
          pk_position = inverse_of perm, pk_sizes = map b_size bs, pk_eligible = flags,
          pk_addr = replicate (length bs) 0, pk_allocated = replicate (length bs) False,
          pk_quality = 0, pk_count = 0\<rparr>))))))"

definition make_packer ::
  "buffer list \<Rightarrow> nat list \<Rightarrow> int \<Rightarrow> int \<Rightarrow> bool list option \<Rightarrow> packer res" where
  "make_packer bs perm capacity alignment eligible =
     bindE (initial_packer bs perm capacity alignment eligible) (\<lambda>p. Inr (recompute_all p))"

subsection \<open>Operations\<close>

definition packer_swap :: "nat \<Rightarrow> packer \<Rightarrow> (packer \<times> real) res" where
  "packer_swap i p =
     bindE (check (i + 1 < sd_n (pk_static p)) ValueError) (\<lambda>_.
       let x = pk_permutation p ! i; y = pk_permutation p ! (i + 1);
           p' = p\<lparr>pk_permutation := (pk_permutation p)[i := y, i + 1 := x],
                  pk_position := (pk_position p)[x := i + 1, y := i]\<rparr>
       in if \<not> (pk_eligible p ! x \<and> pk_eligible p ! y) then Inr (p', 0)
          else if \<not> overlaps_idx (pk_static p) x y then Inr (p', 0)
          else let q = recompute_all p' in Inr (q, pk_quality q - pk_quality p))"

definition move_entry :: "nat \<Rightarrow> nat \<Rightarrow> nat list \<Rightarrow> nat list" where
  "move_entry i j perm =
     (if i < j then take i perm @ drop (i + 1) (take (j + 1) perm) @ [perm ! i] @ drop (j + 1) perm
      else take j perm @ [perm ! i] @ drop j (take i perm) @ drop (i + 1) perm)"

definition move_in_permutation :: "nat \<Rightarrow> nat \<Rightarrow> packer \<Rightarrow> packer" where
  "move_in_permutation i j p =
     (let perm' = move_entry i j (pk_permutation p)
      in p\<lparr>pk_permutation := perm',
           pk_position := fold (\<lambda>q acc. acc[perm' ! q := q]) [min i j..<max i j + 1] (pk_position p)\<rparr>)"

definition packer_rotate :: "nat \<Rightarrow> nat \<Rightarrow> packer \<Rightarrow> (packer \<times> real) res" where
  "packer_rotate i j p =
     bindE (check (i < sd_n (pk_static p) \<and> j < sd_n (pk_static p)) ValueError) (\<lambda>_.
       if i = j then Inr (p, 0)
       else if \<not> pk_eligible p ! (pk_permutation p ! i) then Inr (move_in_permutation i j p, 0)
       else let q = recompute_all (move_in_permutation i j p) in Inr (q, pk_quality q - pk_quality p))"

definition packer_resize :: "nat \<Rightarrow> int \<Rightarrow> packer \<Rightarrow> (packer \<times> real) res" where
  "packer_resize idx new_size p =
     bindE (check (int64_ok new_size) TypeError) (\<lambda>_.
     bindE (check (idx < sd_n (pk_static p)) ValueError) (\<lambda>_.
     bindE (check (0 \<le> new_size) ValueError) (\<lambda>_.
       if pk_sizes p ! idx = new_size then Inr (p, 0)
       else let p' = p\<lparr>pk_sizes := (pk_sizes p)[idx := new_size]\<rparr>
            in if \<not> pk_eligible p ! idx then Inr (p', 0)
               else let q = recompute_all p' in Inr (q, pk_quality q - pk_quality p))))"

definition packer_set_eligible :: "nat \<Rightarrow> bool \<Rightarrow> packer \<Rightarrow> (packer \<times> real) res" where
  "packer_set_eligible idx flag p =
     bindE (check (idx < sd_n (pk_static p)) ValueError) (\<lambda>_.
       if pk_eligible p ! idx = flag then Inr (p, 0)
       else let q = recompute_all (p\<lparr>pk_eligible := (pk_eligible p)[idx := flag]\<rparr>)
            in Inr (q, pk_quality q - pk_quality p))"

definition packer_addresses :: "packer \<Rightarrow> int option list" where
  "packer_addresses p =
     map (\<lambda>i. if pk_allocated p ! i then Some (pk_addr p ! i) else None) [0..<sd_n (pk_static p)]"

text \<open>\<open>None\<close> is the infinite top of an evicted buffer.\<close>

definition top_or_inf :: "packer \<Rightarrow> nat \<Rightarrow> int option res" where
  "top_or_inf p idx =
     bindE (check (idx < sd_n (pk_static p)) ValueError) (\<lambda>_.
       Inr (if pk_allocated p ! idx then Some (pk_addr p ! idx + pk_sizes p ! idx) else None))"

definition is_fully_allocated :: "packer \<Rightarrow> nat \<Rightarrow> bool res" where
  "is_fully_allocated p idx =
     bindE (check (idx < sd_n (pk_static p)) ValueError) (\<lambda>_. Inr (pk_allocated p ! idx))"

definition packer_overlaps :: "packer \<Rightarrow> nat \<Rightarrow> nat \<Rightarrow> bool res" where
  "packer_overlaps p i j =
     bindE (check (i < sd_n (pk_static p) \<and> j < sd_n (pk_static p)) ValueError) (\<lambda>_.
       Inr (overlaps_idx (pk_static p) i j))"

definition packer_finalize :: "packer \<Rightarrow> buffer list \<Rightarrow> buffer list" where
  "packer_finalize p bs = map2 (\<lambda>b a. b\<lparr>address := a\<rparr>) bs (packer_addresses p)"

subsection \<open>The specification: placement from scratch\<close>

text \<open>The reference scans, for each buffer, every earlier eligible buffer it overlaps.\<close>

definition earlier_overlaps :: "static_data \<Rightarrow> bool list \<Rightarrow> nat list \<Rightarrow> nat \<Rightarrow> nat list" where
  "earlier_overlaps st elig prior idx = filter (\<lambda>p. overlaps_idx st idx p \<and> elig ! p) prior"

definition place_next ::
  "static_data \<Rightarrow> int list \<Rightarrow> bool list \<Rightarrow> (nat \<Rightarrow> int option) \<Rightarrow> nat list \<Rightarrow> nat \<Rightarrow> int option" where
  "place_next st sizes elig addr prior idx =
     (if \<not> elig ! idx then None
      else let cand = earlier_overlaps st elig prior idx
           in place_decision st sizes addr (filter (\<lambda>p. p \<in> set (sd_partners st ! idx)) cand) idx cand)"

fun place_from ::
  "static_data \<Rightarrow> int list \<Rightarrow> bool list \<Rightarrow> nat list \<Rightarrow> nat list \<Rightarrow> (nat \<Rightarrow> int option) \<Rightarrow> nat \<Rightarrow> int option" where
  "place_from st sizes elig prior [] addr = addr"
| "place_from st sizes elig prior (idx # rest) addr =
     place_from st sizes elig (prior @ [idx]) rest (addr(idx := place_next st sizes elig addr prior idx))"

definition placement :: "static_data \<Rightarrow> int list \<Rightarrow> bool list \<Rightarrow> nat list \<Rightarrow> nat \<Rightarrow> int option" where
  "placement st sizes elig perm = place_from st sizes elig [] perm (\<lambda>_. None)"

definition placement_quality :: "static_data \<Rightarrow> int list \<Rightarrow> (nat \<Rightarrow> int option) \<Rightarrow> real" where
  "placement_quality st sizes addr =
     (\<Sum>i\<in>{i. i < sd_n st \<and> addr i \<noteq> None}. sd_weight st ! i * of_int (sizes ! i))"

definition placed_count :: "static_data \<Rightarrow> (nat \<Rightarrow> int option) \<Rightarrow> nat" where
  "placed_count st addr = card {i. i < sd_n st \<and> addr i \<noteq> None}"


subsection \<open>One placement depends on the set of earlier buffers\<close>

lemma fold_max_Max: "fold (\<lambda>x m. max m (f x)) xs a = Max (insert a (f ` set xs))" for a :: "'b::linorder"
proof (induction xs arbitrary: a)
  case (Cons x xs)
  have "Max (insert (max a (f x)) (f ` set xs)) = Max (insert a (f ` set (x # xs)))"
  proof (cases "set xs = {}")
    case False
    then show ?thesis by (simp add: Max_insert max.assoc)
  qed simp
  with Cons show ?case by simp
qed simp

lemma others_top_ge: "q \<in> set cand \<Longrightarrow> q \<noteq> p \<Longrightarrow> the (addr q) + sizes ! q \<le> others_top sizes addr cand p"
  unfolding others_top_def fold_max_Max by (intro Max_ge) auto

lemma others_top_cong:
  assumes "set cand = set cand'" "\<And>p. p \<in> set cand \<Longrightarrow> addr p = addr' p"
  shows "others_top sizes addr cand p = others_top sizes addr' cand' p"
proof -
  have "(\<lambda>q. the (addr q) + sizes ! q) ` set (filter (\<lambda>q. q \<noteq> p) cand) =
      (\<lambda>q. the (addr' q) + sizes ! q) ` set (filter (\<lambda>q. q \<noteq> p) cand')"
    using assms by (intro image_cong) auto
  then show ?thesis unfolding others_top_def fold_max_Max by simp
qed

lemma slot_free_cong:
  assumes "set cand = set cand'" "\<And>p. p \<in> set cand \<Longrightarrow> addr p = addr' p"
  shows "slot_free st sizes addr idx cand p = slot_free st sizes addr' idx cand' p"
  using assms others_top_cong [OF assms] by (auto simp: slot_free_def)

text \<open>Two free slots lie at the same address, so the order of the partners does not matter.\<close>

lemma slot_free_same_address:
  assumes "slot_free st sizes addr idx cand p" "slot_free st sizes addr idx cand q"
    and "\<And>r. r \<in> set cand \<Longrightarrow> 0 \<le> sizes ! r"
  shows "the (addr p) = the (addr q)"
proof (cases "p = q")
  case False
  have mem: "p \<in> set cand" "q \<in> set cand" using assms(1,2) by (auto simp: slot_free_def)
  have "the (addr q) + sizes ! q \<le> the (addr p)" "the (addr p) + sizes ! p \<le> the (addr q)"
    using assms(1,2) others_top_ge [OF mem(2), of p addr sizes] others_top_ge [OF mem(1), of q addr sizes] False
    by (auto simp: slot_free_def)
  with assms(3) mem show ?thesis by (smt (verit))
qed simp

lemma place_decision_cong:
  assumes "set cand = set cand'" "\<And>p. p \<in> set cand \<Longrightarrow> addr p = addr' p"
    and "\<And>r. r \<in> set cand \<Longrightarrow> 0 \<le> sizes ! r"
    and "\<And>p. p \<in> set cand \<Longrightarrow> p \<in> set ps \<longleftrightarrow> p \<in> set ps'"
  shows "place_decision st sizes addr ps idx cand = place_decision st sizes addr' ps' idx cand'"
proof -
  let ?P = "slot_free st sizes addr idx cand" and ?P' = "slot_free st sizes addr' idx cand'"
  have P: "?P' = ?P" using assms(1,2) by (intro ext slot_free_cong [symmetric]) auto
  have cand_mem: "p \<in> set cand" if "?P p" for p using that by (simp add: slot_free_def)
  have "find ?P ps = None \<longleftrightarrow> find ?P' ps' = None"
    unfolding P find_None_iff using assms(4) cand_mem by blast
  moreover have "the (addr p) = the (addr' q)" if "find ?P ps = Some p" "find ?P' ps' = Some q" for p q
  proof -
    have "?P p" "?P q" using that unfolding P find_Some_iff by blast+
    with slot_free_same_address [OF this assms(3)] assms(2) cand_mem show ?thesis by simp
  qed
  moreover have "(\<lambda>p. the (addr p) + sizes ! p) ` set cand = (\<lambda>p. the (addr' p) + sizes ! p) ` set cand'"
    using assms(1,2) by (intro image_cong) auto
  moreover have "cand = [] \<longleftrightarrow> cand' = []" using assms(1) by (metis set_empty)
  moreover have "(\<exists>p\<in>set cand. addr p = None) \<longleftrightarrow> (\<exists>p\<in>set cand'. addr' p = None)" using assms(1,2) by auto
  ultimately show ?thesis
    unfolding place_decision_def Let_def fold_max_Max by (auto split: option.splits)
qed

lemma place_next_cong:
  assumes "\<And>p. overlaps_idx st idx p \<Longrightarrow> elig ! p \<Longrightarrow> p \<in> set prior \<longleftrightarrow> p \<in> set prior'"
    and "\<And>p. p \<in> set prior \<Longrightarrow> addr p = addr' p" "\<And>p. p \<in> set prior \<Longrightarrow> 0 \<le> sizes ! p"
  shows "place_next st sizes elig addr prior idx = place_next st sizes elig addr' prior' idx"
proof -
  have "set (earlier_overlaps st elig prior idx) = set (earlier_overlaps st elig prior' idx)"
    using assms(1) by (auto simp: earlier_overlaps_def)
  then show ?thesis unfolding place_next_def Let_def
    using assms(2,3) by (auto intro!: place_decision_cong simp: earlier_overlaps_def)
qed

subsection \<open>The placement as the solution of its equations\<close>

lemma place_from_other: "i \<notin> set rest \<Longrightarrow> place_from st sizes elig prior rest addr i = addr i"
  by (induction rest arbitrary: prior addr) auto

lemma place_from_eq:
  assumes "distinct (prior @ rest)" "k < length rest" "\<forall>p\<in>set (prior @ rest). 0 \<le> sizes ! p"
  shows "place_from st sizes elig prior rest addr (rest ! k) =
         place_next st sizes elig (place_from st sizes elig prior rest addr) (prior @ take k rest) (rest ! k)"
  using assms
proof (induction rest arbitrary: prior addr k)
  case (Cons idx rest)
  let ?addr = "addr(idx := place_next st sizes elig addr prior idx)"
  show ?case
  proof (cases k)
    case 0
    have "addr p = place_from st sizes elig (prior @ [idx]) rest ?addr p" if "p \<in> set prior" for p
    proof -
      have "p \<notin> set rest" "p \<noteq> idx" using that Cons.prems(1) by auto
      then show ?thesis by (simp add: place_from_other)
    qed
    then have "place_next st sizes elig addr prior idx =
        place_next st sizes elig (place_from st sizes elig (prior @ [idx]) rest ?addr) prior idx"
      using Cons.prems(3) by (intro place_next_cong) auto
    with 0 Cons.prems(1) show ?thesis by (simp add: place_from_other)
  next
    case (Suc k')
    with Cons.IH [of "prior @ [idx]" k' ?addr] Cons.prems show ?thesis by (simp del: fun_upd_apply)
  qed
qed simp

lemma placement_eq:
  assumes "distinct perm" "k < length perm" "\<forall>p\<in>set perm. 0 \<le> sizes ! p"
  shows "placement st sizes elig perm (perm ! k) =
         place_next st sizes elig (placement st sizes elig perm) (take k perm) (perm ! k)"
  unfolding placement_def using place_from_eq [of "[]"] assms by simp

lemma placement_outside: "i \<notin> set perm \<Longrightarrow> placement st sizes elig perm i = None"
  by (simp add: placement_def place_from_other)

lemma placement_ineligible:
  assumes "distinct perm" "\<forall>p\<in>set perm. 0 \<le> sizes ! p" "\<not> elig ! i"
  shows "placement st sizes elig perm i = None"
proof (cases "i \<in> set perm")
  case True
  then obtain l where "l < length perm" "perm ! l = i" by (auto simp: in_set_conv_nth)
  with placement_eq [OF assms(1) this(1) assms(2)] assms(3) show ?thesis by (simp add: place_next_def)
qed (simp add: placement_outside)

lemma placement_unique:
  assumes "distinct perm" "\<forall>p\<in>set perm. 0 \<le> sizes ! p"
    and "\<And>k. k < length perm \<Longrightarrow> A (perm ! k) = place_next st sizes elig A (take k perm) (perm ! k)"
    and "k < length perm"
  shows "A (perm ! k) = placement st sizes elig perm (perm ! k)"
  using assms(4)
proof (induction k rule: less_induct)
  case (less k)
  have "A p = placement st sizes elig perm p" if "p \<in> set (take k perm)" for p
    using that less by (auto simp: in_set_conv_nth)
  then have "place_next st sizes elig A (take k perm) (perm ! k) =
      place_next st sizes elig (placement st sizes elig perm) (take k perm) (perm ! k)"
    using assms(2) by (intro place_next_cong) (auto dest: in_set_takeD)
  with assms(3) [OF less.prems] placement_eq [OF assms(1) less.prems assms(2)] show ?case by simp
qed

lemma before_take: "distinct xs \<Longrightarrow> k < length xs \<Longrightarrow> before p (xs ! k) xs \<longleftrightarrow> p \<in> set (take k xs)"
proof -
  assume d: "distinct xs" and k: "k < length xs"
  have "before p (xs ! k) (take k xs @ xs ! k # drop (Suc k) xs) \<longleftrightarrow> p \<in> set (take k xs)"
  proof -
    have "distinct (take k xs @ xs ! k # drop (Suc k) xs)" using d k by (simp only: id_take_nth_drop [symmetric])
    then show ?thesis by (auto simp: before_append before_Cons dest: before_mem)
  qed
  then show ?thesis using k by (simp add: id_take_nth_drop [symmetric])
qed

text \<open>Only the relative order of overlapping eligible buffers matters.\<close>

lemma placement_reorder:
  assumes "distinct perm" "distinct perm'" "set perm' = set perm" "\<forall>p\<in>set perm. 0 \<le> sizes ! p"
    and same: "\<And>p i. overlaps_idx st i p \<Longrightarrow> elig ! p \<Longrightarrow> elig ! i \<Longrightarrow> before p i perm \<longleftrightarrow> before p i perm'"
  shows "placement st sizes elig perm' = placement st sizes elig perm"
proof
  fix i
  let ?A = "placement st sizes elig perm"
  have eq: "?A (perm' ! k) = place_next st sizes elig ?A (take k perm') (perm' ! k)" if k: "k < length perm'" for k
  proof (cases "elig ! (perm' ! k)")
    case True
    have "perm' ! k \<in> set perm" using k assms(3) nth_mem by blast
    then obtain l where l: "l < length perm" "perm ! l = perm' ! k" by (auto simp: in_set_conv_nth)
    have "?A (perm ! l) = place_next st sizes elig ?A (take l perm) (perm ! l)"
      by (rule placement_eq [OF assms(1) l(1) assms(4)])
    also have "\<dots> = place_next st sizes elig ?A (take k perm') (perm ! l)"
    proof (rule place_next_cong)
      fix p assume "overlaps_idx st (perm ! l) p" "elig ! p"
      with same [of "perm ! l" p] True l(2) before_take [OF assms(1) l(1)] before_take [OF assms(2) k]
      show "p \<in> set (take l perm) \<longleftrightarrow> p \<in> set (take k perm')" by simp
    qed (use assms(4) in \<open>auto dest: in_set_takeD\<close>)
    finally show ?thesis using l(2) by simp
  next
    case False
    then show ?thesis by (simp add: place_next_def placement_ineligible [OF assms(1,4)])
  qed
  show "placement st sizes elig perm' i = ?A i"
  proof (cases "i \<in> set perm'")
    case True
    then obtain k where "k < length perm'" "perm' ! k = i" by (auto simp: in_set_conv_nth)
    with placement_unique [OF assms(2) _ eq, of k] assms(3,4) show ?thesis by simp
  qed (use assms(3) in \<open>simp add: placement_outside\<close>)
qed

subsection \<open>A placement is a layout\<close>

lemma place_decision_none: "q \<in> set cand \<Longrightarrow> addr q = None \<Longrightarrow> place_decision st sizes addr ps idx cand = None"
  by (auto simp: place_decision_def Let_def)

lemma place_decision_Some:
  assumes "place_decision st sizes addr ps idx cand = Some a" "0 < sd_alignment st"
  shows "a + sizes ! idx \<le> sd_capacity st" "\<forall>p\<in>set cand. addr p \<noteq> None"
    and "(\<exists>q\<in>set ps. slot_free st sizes addr idx cand q \<and> a = the (addr q)) \<or>
         (\<forall>p\<in>set cand. the (addr p) + sizes ! p \<le> a) \<and> sd_alignment st dvd a \<and> (cand = [] \<longrightarrow> a = 0)"
proof -
  show "a + sizes ! idx \<le> sd_capacity st" "\<forall>p\<in>set cand. addr p \<noteq> None"
    using assms(1) by (auto simp: place_decision_def Let_def split: if_splits option.splits)
  consider "cand = []" "a = 0"
    | q where "find (slot_free st sizes addr idx cand) ps = Some q" "a = the (addr q)"
    | "a = align_up st (fold (\<lambda>p m. max m (the (addr p) + sizes ! p)) cand (- (2 ^ 63)))" "cand \<noteq> []"
    using assms(1) by (auto simp: place_decision_def Let_def split: if_splits option.splits)
  then show "(\<exists>q\<in>set ps. slot_free st sizes addr idx cand q \<and> a = the (addr q)) \<or>
      (\<forall>p\<in>set cand. the (addr p) + sizes ! p \<le> a) \<and> sd_alignment st dvd a \<and> (cand = [] \<longrightarrow> a = 0)"
  proof cases
    case (2 q)
    then have "slot_free st sizes addr idx cand q" "q \<in> set ps"
      by (auto simp: find_Some_iff)
    with 2 show ?thesis by blast
  next
    case 3
    have "the (addr p) + sizes ! p \<le> a" if "p \<in> set cand" for p
      using fold_max_ge [OF that, of "\<lambda>p. the (addr p) + sizes ! p" "- (2 ^ 63)"] round_up_ge [OF assms(2)] 3(1)
      unfolding align_up_def by (meson order_trans)
    then show ?thesis using 3 by (simp add: align_up_def)
  qed simp
qed

lemma placement_SomeD:
  assumes "distinct perm" "\<forall>p\<in>set perm. 0 \<le> sizes ! p" "0 < sd_alignment st"
    and "k < length perm" "placement st sizes elig perm (perm ! k) = Some a"
  defines "A \<equiv> placement st sizes elig perm" and "cand \<equiv> earlier_overlaps st elig (take k perm) (perm ! k)"
  shows "elig ! (perm ! k)" "a + sizes ! (perm ! k) \<le> sd_capacity st" "\<forall>p\<in>set cand. A p \<noteq> None"
    and "(\<exists>q\<in>set cand. q \<in> set (sd_partners st ! (perm ! k)) \<and> slot_free st sizes A (perm ! k) cand q \<and>
            a = the (A q)) \<or>
         (\<forall>p\<in>set cand. the (A p) + sizes ! p \<le> a) \<and> sd_alignment st dvd a \<and> (cand = [] \<longrightarrow> a = 0)"
proof -
  have eq: "A (perm ! k) = place_next st sizes elig A (take k perm) (perm ! k)"
    unfolding A_def by (rule placement_eq [OF assms(1,4,2)])
  then show el: "elig ! (perm ! k)" using assms(5) by (auto simp: A_def place_next_def split: if_splits)
  have pd: "place_decision st sizes A (filter (\<lambda>p. p \<in> set (sd_partners st ! (perm ! k))) cand) (perm ! k) cand = Some a"
    using eq el assms(5) by (simp add: place_next_def Let_def cand_def A_def)
  note f = place_decision_Some [OF pd assms(3)]
  show "a + sizes ! (perm ! k) \<le> sd_capacity st" "\<forall>p\<in>set cand. A p \<noteq> None" by (rule f)+
  show "(\<exists>q\<in>set cand. q \<in> set (sd_partners st ! (perm ! k)) \<and> slot_free st sizes A (perm ! k) cand q \<and>
            a = the (A q)) \<or>
         (\<forall>p\<in>set cand. the (A p) + sizes ! p \<le> a) \<and> sd_alignment st dvd a \<and> (cand = [] \<longrightarrow> a = 0)"
    using f(3) by auto
qed

lemma placement_in_bounds:
  assumes "distinct perm" "\<forall>p\<in>set perm. 0 \<le> sizes ! p" "0 < sd_alignment st"
    and "i \<in> set perm" "placement st sizes elig perm i = Some a"
  shows "0 \<le> a" "a + sizes ! i \<le> sd_capacity st" "sd_alignment st dvd a"
proof -
  let ?A = "placement st sizes elig perm"
  have all: "0 \<le> a \<and> a + sizes ! (perm ! k) \<le> sd_capacity st \<and> sd_alignment st dvd a"
    if "k < length perm" "?A (perm ! k) = Some a" for k a
    using that
  proof (induction k arbitrary: a rule: less_induct)
    case (less k)
    let ?cand = "earlier_overlaps st elig (take k perm) (perm ! k)"
    note f = placement_SomeD [OF assms(1-3) less.prems]
    have below: "0 \<le> the (?A p) \<and> sd_alignment st dvd the (?A p) \<and> 0 \<le> sizes ! p" if p: "p \<in> set ?cand" for p
    proof -
      from p obtain l where l: "l < k" "l < length perm" "p = perm ! l"
        by (auto simp: earlier_overlaps_def in_set_conv_nth)
      from p f(3) obtain b where "?A p = Some b" by blast
      with less.IH [of l b] l assms(2) show ?thesis by simp
    qed
    from f(4) show ?case
    proof
      assume "\<exists>q\<in>set ?cand. q \<in> set (sd_partners st ! (perm ! k)) \<and>
          slot_free st sizes ?A (perm ! k) ?cand q \<and> a = the (?A q)"
      with below f(2) show ?thesis by blast
    next
      assume stack: "(\<forall>p\<in>set ?cand. the (?A p) + sizes ! p \<le> a) \<and> sd_alignment st dvd a \<and> (?cand = [] \<longrightarrow> a = 0)"
      have "0 \<le> a"
      proof (cases ?cand)
        case (Cons p ps)
        with stack below [of p] show ?thesis by (fastforce intro: order_trans [of 0 "the (?A p) + sizes ! p"])
      qed (use stack in simp)
      with stack f(2) show ?thesis by blast
    qed
  qed
  obtain k where "k < length perm" "perm ! k = i" using assms(4) by (auto simp: in_set_conv_nth)
  with all [of k a] assms(5) show "0 \<le> a" "a + sizes ! i \<le> sd_capacity st" "sd_alignment st dvd a" by auto
qed

lemma overlaps_idx_sym: "overlaps_idx st i j \<Longrightarrow> overlaps_idx st j i"
  by (simp add: overlaps_idx_def)

lemma placement_above:
  assumes "distinct perm" "\<forall>p\<in>set perm. 0 \<le> sizes ! p" "0 < sd_alignment st"
    and "before j i perm" "overlaps_idx st i j"
    and "placement st sizes elig perm i = Some x" "placement st sizes elig perm j = Some y"
  shows "y + sizes ! j \<le> x \<or> (x = y \<and> j \<in> set (sd_partners st ! i))"
proof -
  from assms(4) obtain k where k: "k < length perm" "perm ! k = i" "j \<in> set (take k perm)"
    by (metis assms(1) before_mem before_take in_set_conv_nth)
  let ?cand = "earlier_overlaps st elig (take k perm) i"
  have "elig ! j" using placement_ineligible [OF assms(1,2)] assms(7) by fastforce
  then have j: "j \<in> set ?cand" using k assms(5) by (simp add: earlier_overlaps_def)
  from placement_SomeD(4) [OF assms(1-3) k(1), of elig x] assms(6) k(2)
  consider q where "q \<in> set (sd_partners st ! i)" "slot_free st sizes (placement st sizes elig perm) i ?cand q"
      "x = the (placement st sizes elig perm q)"
    | "\<forall>p\<in>set ?cand. the (placement st sizes elig perm p) + sizes ! p \<le> x"
    by auto
  then show ?thesis
  proof cases
    case (1 q)
    with others_top_ge [OF j, of q "placement st sizes elig perm" sizes] assms(7) show ?thesis
      by (cases "j = q") (auto simp: slot_free_def)
  next
    case 2
    with j assms(7) show ?thesis by force
  qed
qed

lemma placement_disjoint:
  assumes "distinct perm" "\<forall>p\<in>set perm. 0 \<le> sizes ! p" "0 < sd_alignment st"
    and "i \<in> set perm" "j \<in> set perm" "i \<noteq> j" "overlaps_idx st i j"
    and "placement st sizes elig perm i = Some x" "placement st sizes elig perm j = Some y"
  shows "disjoint_iv x (x + sizes ! i) y (y + sizes ! j) \<or>
         (x = y \<and> (i \<in> set (sd_partners st ! j) \<or> j \<in> set (sd_partners st ! i)))"
proof -
  have "before i j perm \<or> before j i perm"
    using assms(4-6) by (metis before_nth in_set_conv_nth linorder_neqE_nat)
  then show ?thesis
    using placement_above [OF assms(1-3) _ assms(7-9)]
      placement_above [OF assms(1-3) _ overlaps_idx_sym [OF assms(7)] assms(9,8)]
    by (auto simp: interval_simps)
qed

end
