(* ===== verification/Packer_Refinement.thy ===== *)
theory Packer_Refinement
  imports Perm_Packer
begin

text \<open>
  The permutation packer refines placement from scratch.  The first part is the timeline: the
  elementary intervals of a buffer and their live counts mean what the early stop and the
  fast path take them for.  The second is the loop of \<open>RecomputeAll\<close>, whose aggregates
  are summaries of the buffers placed so far.  The third is the operations: every public
  operation keeps the packer coherent, that is equal to the layout a rebuild would give.
\<close>

subsection \<open>The timeline\<close>

lemma takeWhile_sorted: "sorted xs \<Longrightarrow> takeWhile (\<lambda>p. p < v) xs = filter (\<lambda>p. p < v) xs" for v :: "'a::linorder"
proof (induction xs)
  case (Cons x xs)
  show ?case
  proof (cases "x < v")
    case False
    then have "\<forall>y\<in>set xs. \<not> y < v" using Cons.prems by auto
    then have "filter (\<lambda>p. p < v) xs = []" by (simp add: filter_empty_conv)
    with False show ?thesis by simp
  qed (use Cons in simp)
qed simp

lemma lower_bound_card:
  assumes "sorted pts" "distinct pts"
  shows "lower_bound pts v = card {p \<in> set pts. p < v}"
  using assms by (simp add: lower_bound_def takeWhile_sorted distinct_length_filter Collect_conj_eq Int_commute)

lemma lower_bound_mono:
  assumes "sorted pts" "distinct pts" "v \<in> set pts"
  shows "lower_bound pts v < lower_bound pts w \<longleftrightarrow> v < w"
proof
  assume "v < w"
  then have "{p \<in> set pts. p < v} \<subset> {p \<in> set pts. p < w}" using assms(3) by auto
  then show "lower_bound pts v < lower_bound pts w"
    by (simp add: lower_bound_card assms psubset_card_mono)
next
  assume less: "lower_bound pts v < lower_bound pts w"
  show "v < w"
  proof (rule ccontr)
    assume "\<not> v < w"
    then have "{p \<in> set pts. p < w} \<subseteq> {p \<in> set pts. p < v}" by auto
    then have "lower_bound pts w \<le> lower_bound pts v"
      by (simp add: lower_bound_card assms card_mono)
    with less show False by simp
  qed
qed

lemma lower_bound_length:
  assumes "sorted pts" "distinct pts" "v \<in> set pts"
  shows "lower_bound pts v < length pts"
proof -
  have "{p \<in> set pts. p < v} \<subset> set pts" using assms(3) by auto
  then have "card {p \<in> set pts. p < v} < card (set pts)" by (simp add: psubset_card_mono)
  then show ?thesis using assms by (simp add: lower_bound_card distinct_card)
qed

lemma distinct_remdups_adj_sorted: "sorted xs \<Longrightarrow> distinct (remdups_adj xs)"
proof (induction xs rule: remdups_adj.induct)
  case (3 x y xs)
  show ?case
  proof (cases "x = y")
    case False
    then have "x \<notin> set (y # xs)" using "3.prems" by (force simp: order.antisym)
    with 3 False show ?thesis by simp
  qed (use 3 in simp)
qed simp_all

lemma timeline_points_props:
  "sorted (timeline_points ss es)" "distinct (timeline_points ss es)"
  "set (timeline_points ss es) = set ss \<union> set es"
  unfolding timeline_points_def by (simp_all add: sorted_remdups_adj distinct_remdups_adj_sorted)

lemma length_delta_step [simp]: "length (delta_step iv d) = length d"
  by (simp add: delta_step_def Let_def)

lemma delta_step_nth:
  assumes "fst iv < length d" "snd iv < length d" "s < length d"
  shows "delta_step iv d ! s = d ! s + of_bool (fst iv = s) - of_bool (snd iv = s)"
  using assms by (cases "fst iv = s"; cases "snd iv = s") (auto simp: delta_step_def Let_def)

lemma delta_fold_nth:
  assumes "\<forall>iv\<in>set ivs. fst iv < length d \<and> snd iv < length d" "s < length d"
  shows "fold delta_step ivs d ! s = d ! s + (\<Sum>iv\<leftarrow>ivs. of_bool (fst iv = s) - of_bool (snd iv = s))"
  using assms
proof (induction ivs arbitrary: d)
  case (Cons iv ivs)
  with delta_step_nth [of iv d s] show ?case by simp
qed simp

lemma length_delta_fold [simp]: "length (fold delta_step ivs d) = length d"
  by (induction ivs arbitrary: d) simp_all

lemma length_running_totals [simp]: "length (running_totals r ds) = length ds"
  by (induction ds arbitrary: r) simp_all

lemma running_totals_nth: "t < length ds \<Longrightarrow> running_totals r ds ! t = r + sum_list (take (Suc t) ds)"
proof (induction ds arbitrary: r t)
  case (Cons d ds)
  then show ?case by (cases t) simp_all
qed simp

lemma sum_of_bool_le: "(\<Sum>s<Suc t. of_bool (a = s)) = (of_bool (a \<le> t) :: int)" for a :: nat
  by (induction t) auto

lemma delta_prefix_sum:
  assumes "\<forall>iv\<in>set ivs. fst iv < k + 1 \<and> snd iv < k + 1 \<and> fst iv < snd iv" "t < k"
  shows "running_totals 0 (take k (fold delta_step ivs (replicate (k + 1) 0))) ! t =
         int (length (filter (\<lambda>iv. fst iv \<le> t \<and> t < snd iv) ivs))"
proof -
  let ?d = "fold delta_step ivs (replicate (k + 1) 0)"
  have "running_totals 0 (take k ?d) ! t = sum_list (take (Suc t) ?d)"
    using assms(2) by (simp add: running_totals_nth min_def)
  also have "\<dots> = (\<Sum>s<Suc t. ?d ! s)"
    using assms(2) by (simp add: sum_list_sum_nth atLeast0LessThan min_def del: sum.lessThan_Suc)
  also have "\<dots> = (\<Sum>s<Suc t. \<Sum>iv\<leftarrow>ivs. of_bool (fst iv = s) - of_bool (snd iv = s))"
  proof (intro sum.cong refl)
    fix s assume "s \<in> {..<Suc t}"
    then have s: "s < k + 1" using assms(2) by simp
    then have "replicate (k + 1) 0 ! s = (0::int)" by (rule nth_replicate)
    with delta_fold_nth [of ivs "replicate (k + 1) 0" s] assms(1) s
    show "?d ! s = (\<Sum>iv\<leftarrow>ivs. of_bool (fst iv = s) - of_bool (snd iv = s))" by simp
  qed
  also have "\<dots> = (\<Sum>iv\<leftarrow>ivs. \<Sum>s<Suc t. of_bool (fst iv = s) - of_bool (snd iv = s))"
    by (induction ivs) (simp_all add: sum.distrib del: sum.lessThan_Suc)
  also have "\<dots> = (\<Sum>iv\<leftarrow>ivs. of_bool (fst iv \<le> t) - of_bool (snd iv \<le> t))"
    by (simp only: sum_subtractf sum_of_bool_le)
  also have "\<dots> = int (length (filter (\<lambda>iv. fst iv \<le> t \<and> t < snd iv) ivs))"
    using assms(1) by (induction ivs) auto
  finally show ?thesis .
qed

definition covers :: "static_data \<Rightarrow> nat \<Rightarrow> nat \<Rightarrow> bool" where
  "covers st i t \<longleftrightarrow> fst (sd_buf_intervals st ! i) \<le> t \<and> t < snd (sd_buf_intervals st ! i)"

text \<open>What the packer relies on: every buffer covers an interval, buffers overlap in time exactly
  when they share one, and the live counts and overlap lists are right.\<close>

definition static_ok :: "static_data \<Rightarrow> bool" where
  "static_ok st \<longleftrightarrow> 0 < sd_alignment st \<and>
     (\<forall>i<sd_n st. fst (sd_buf_intervals st ! i) < snd (sd_buf_intervals st ! i) \<and>
        snd (sd_buf_intervals st ! i) \<le> sd_num_intervals st) \<and>
     (\<forall>t<sd_num_intervals st. sd_total_at st ! t = int (card {i. i < sd_n st \<and> covers st i t})) \<and>
     (\<forall>i<sd_n st. \<forall>j<sd_n st. overlaps_idx st i j \<longleftrightarrow> (\<exists>t. covers st i t \<and> covers st j t)) \<and>
     (\<forall>i<sd_n st. set (sd_overlap st ! i) = {j. j < sd_n st \<and> j \<noteq> i \<and> overlaps_idx st i j})"

lemma build_interval_data_frame [simp]:
  "sd_n (build_interval_data st) = sd_n st" "sd_capacity (build_interval_data st) = sd_capacity st"
  "sd_alignment (build_interval_data st) = sd_alignment st" "sd_start (build_interval_data st) = sd_start st"
  "sd_end (build_interval_data st) = sd_end st" "sd_weight (build_interval_data st) = sd_weight st"
  "sd_overlap (build_interval_data st) = sd_overlap st" "sd_partners (build_interval_data st) = sd_partners st"
  "sd_declared_parents (build_interval_data st) = sd_declared_parents st"
  by (simp_all add: build_interval_data_def Let_def)

lemma overlaps_build_interval_data [simp]: "overlaps_idx (build_interval_data st) = overlaps_idx st"
  by (intro ext) (simp add: overlaps_idx_def)

lemma build_interval_data_ok:
  assumes "length (sd_start st) = sd_n st" "length (sd_end st) = sd_n st"
    and life: "\<forall>i<sd_n st. sd_start st ! i < sd_end st ! i"
  defines "st' \<equiv> build_interval_data st"
  shows "\<forall>i<sd_n st. fst (sd_buf_intervals st' ! i) < snd (sd_buf_intervals st' ! i) \<and>
           snd (sd_buf_intervals st' ! i) \<le> sd_num_intervals st'"
    and "\<forall>t<sd_num_intervals st'. sd_total_at st' ! t = int (card {i. i < sd_n st \<and> covers st' i t})"
    and "\<forall>i<sd_n st. \<forall>j<sd_n st. overlaps_idx st i j \<longleftrightarrow> (\<exists>t. covers st' i t \<and> covers st' j t)"
proof -
  define pts where "pts = timeline_points (sd_start st) (sd_end st)"
  define k where "k = length pts - 1"
  define lo where "lo i = lower_bound pts (sd_start st ! i)" for i
  define hi where "hi i = lower_bound pts (sd_end st ! i)" for i
  define ivs where "ivs = map (\<lambda>i. (lo i, hi i)) [0..<sd_n st]"
  note props = timeline_points_props [of "sd_start st" "sd_end st", folded pts_def]
  have mem: "sd_start st ! i \<in> set pts" "sd_end st ! i \<in> set pts" if "i < sd_n st" for i
    using that assms(1,2) by (auto simp: props(3))
  have "hi i < length pts" if "i < sd_n st" for i
    unfolding hi_def by (rule lower_bound_length [OF props(1,2) mem(2) [OF that]])
  then have bnd: "lo i < hi i" "hi i \<le> k" if "i < sd_n st" for i
    using that life lower_bound_mono [OF props(1,2) mem(1)] by (fastforce simp: lo_def hi_def k_def)+
  have over: "overlaps_idx st i j \<longleftrightarrow> lo i < hi j \<and> lo j < hi i" if "i < sd_n st" "j < sd_n st" for i j
    using lower_bound_mono [OF props(1,2) mem(1)] that by (simp add: overlaps_idx_def lo_def hi_def)
  have nk: "sd_num_intervals st' = k"
    by (simp add: st'_def build_interval_data_def Let_def k_def pts_def)
  have "n = 0" if "k = 0" "n = sd_n st" for n using bnd that by (metis gr_zeroI less_nat_zero_code le_zero_eq)
  then have iv: "sd_buf_intervals st' ! i = (lo i, hi i)" if "i < sd_n st" for i
    using that by (auto simp: st'_def build_interval_data_def Let_def k_def lo_def hi_def pts_def)
  have tot: "sd_total_at st' = running_totals 0 (take k (fold delta_step ivs (replicate (k + 1) 0)))" if "0 < k"
    using that by (simp add: st'_def build_interval_data_def Let_def k_def ivs_def lo_def [abs_def] hi_def [abs_def] pts_def)
  show "\<forall>i<sd_n st. fst (sd_buf_intervals st' ! i) < snd (sd_buf_intervals st' ! i) \<and>
      snd (sd_buf_intervals st' ! i) \<le> sd_num_intervals st'"
    using bnd iv nk by simp
  show "\<forall>t<sd_num_intervals st'. sd_total_at st' ! t = int (card {i. i < sd_n st \<and> covers st' i t})"
  proof (intro allI impI)
    fix t assume t: "t < sd_num_intervals st'"
    have tk: "t < k" using t nk by simp
    have "\<forall>iv\<in>set ivs. fst iv < k + 1 \<and> snd iv < k + 1 \<and> fst iv < snd iv"
      using bnd by (fastforce simp: ivs_def)
    from delta_prefix_sum [OF this tk] tot tk
    have "sd_total_at st' ! t = int (length (filter (\<lambda>iv. fst iv \<le> t \<and> t < snd iv) ivs))" by simp
    also have "length (filter (\<lambda>iv. fst iv \<le> t \<and> t < snd iv) ivs) =
        length (filter (\<lambda>i. lo i \<le> t \<and> t < hi i) [0..<sd_n st])"
      by (simp add: ivs_def filter_map comp_def)
    also have "\<dots> = card {i. i < sd_n st \<and> covers st' i t}"
      using iv by (subst distinct_length_filter) (auto simp: covers_def intro!: arg_cong [where f = card])
    finally show "sd_total_at st' ! t = int (card {i. i < sd_n st \<and> covers st' i t})" .
  qed
  show "\<forall>i<sd_n st. \<forall>j<sd_n st. overlaps_idx st i j \<longleftrightarrow> (\<exists>t. covers st' i t \<and> covers st' j t)"
  proof (intro allI impI)
    fix i j assume ij: "i < sd_n st" "j < sd_n st"
    have "(\<exists>t. covers st' i t \<and> covers st' j t) \<longleftrightarrow> max (lo i) (lo j) < min (hi i) (hi j)"
      using iv ij by (auto simp: covers_def intro!: exI [of _ "max (lo i) (lo j)"])
    then show "overlaps_idx st i j \<longleftrightarrow> (\<exists>t. covers st' i t \<and> covers st' j t)"
      using over bnd ij by auto
  qed
qed

lemma make_static_ok:
  assumes "0 < alignment" "\<forall>b\<in>set bs. start_time b < end_time b"
  shows "static_ok (make_static bs capacity alignment)"
proof -
  define st where "st = \<lparr>sd_n = length bs, sd_capacity = capacity, sd_alignment = alignment,
      sd_start = map start_time bs, sd_end = map end_time bs, sd_weight = map use_weight bs,
      sd_overlap = map (\<lambda>a. filter (\<lambda>c. c \<noteq> a \<and> map start_time bs ! a < map end_time bs ! c \<and>
        map start_time bs ! c < map end_time bs ! a) [0..<length bs]) [0..<length bs],
      sd_partners = map (inplace_partners bs) [0..<length bs],
      sd_declared_parents = map (declared_parents bs) [0..<length bs],
      sd_num_intervals = 0, sd_total_at = [], sd_buf_intervals = []\<rparr>"
  have eq: "make_static bs capacity alignment = build_interval_data st"
    by (simp add: make_static_def st_def Let_def)
  have "length (sd_start st) = sd_n st" "length (sd_end st) = sd_n st"
      "\<forall>i<sd_n st. sd_start st ! i < sd_end st ! i"
    using assms(2) by (simp_all add: st_def)
  note f = build_interval_data_ok [OF this]
  have "\<forall>i<sd_n st. set (sd_overlap st ! i) = {j. j < sd_n st \<and> j \<noteq> i \<and> overlaps_idx st i j}"
    by (auto simp: st_def overlaps_idx_def)
  with f assms(1) show ?thesis
    unfolding static_ok_def eq by (simp add: st_def)
qed

subsection \<open>Committing a buffer to its intervals\<close>

definition cell :: "recompute \<Rightarrow> nat \<Rightarrow> int \<times> bool \<times> int \<times> bool" where
  "cell rc t = (rc_placed_at rc ! t, rc_has_none_at rc ! t, rc_max_top_at rc ! t, rc_done_at rc ! t)"

definition commit_cell :: "int \<Rightarrow> bool \<Rightarrow> int \<Rightarrow> int \<times> bool \<times> int \<times> bool \<Rightarrow> int \<times> bool \<times> int \<times> bool" where
  "commit_cell total_here set_none own_top c =
     (case c of (placed, none, mx, fin) \<Rightarrow>
        (placed + 1, none \<or> set_none, if set_none then mx else max mx own_top,
         fin \<or> none \<or> set_none \<or> placed + 1 = total_here))"

definition shaped :: "nat \<Rightarrow> recompute \<Rightarrow> bool" where
  "shaped k rc \<longleftrightarrow> length (rc_placed_at rc) = k \<and> length (rc_has_none_at rc) = k \<and>
     length (rc_done_at rc) = k \<and> length (rc_max_top_at rc) = k \<and>
     rc_not_done rc = int (length (filter Not (rc_done_at rc)))"

lemma length_filter_Not_update:
  "i < length xs \<Longrightarrow> \<not> xs ! i \<Longrightarrow> int (length (filter Not (xs[i := True]))) = int (length (filter Not xs)) - 1"
proof (induction xs arbitrary: i)
  case (Cons x xs)
  then show ?case by (cases i) auto
qed simp

lemma commit_interval_shaped:
  "shaped k rc \<Longrightarrow> t < k \<Longrightarrow> shaped k (commit_interval st sn tp t rc)"
  using length_filter_Not_update [of t "rc_done_at rc"]
  by (simp add: shaped_def commit_interval_def Let_def)

lemma commit_interval_cell:
  assumes "shaped k rc" "t < k" "s < k"
  shows "cell (commit_interval st sn tp t rc) s =
         (if s = t then commit_cell (sd_total_at st ! t) sn tp (cell rc t) else cell rc s)"
  using assms by (auto simp: cell_def commit_cell_def commit_interval_def Let_def shaped_def)

lemma commit_interval_frame [simp]:
  "rc_addr (commit_interval st sn tp t rc) = rc_addr rc"
  "rc_allocated (commit_interval st sn tp t rc) = rc_allocated rc"
  "rc_quality (commit_interval st sn tp t rc) = rc_quality rc"
  "rc_count (commit_interval st sn tp t rc) = rc_count rc"
  by (simp_all add: commit_interval_def Let_def)

lemma commit_fold:
  fixes st :: static_data and sn :: bool and tp :: int
  assumes "shaped k rc" "\<forall>t\<in>set ts. t < k" "distinct ts"
  defines "rc' \<equiv> fold (commit_interval st sn tp) ts rc"
  shows "shaped k rc' \<and>
    (\<forall>s<k. cell rc' s =
       (if s \<in> set ts then commit_cell (sd_total_at st ! s) sn tp (cell rc s) else cell rc s)) \<and>
    rc_addr rc' = rc_addr rc \<and> rc_allocated rc' = rc_allocated rc \<and>
    rc_quality rc' = rc_quality rc \<and> rc_count rc' = rc_count rc"
  using assms(1-3) unfolding rc'_def
proof (induction ts arbitrary: rc)
  case (Cons t ts)
  have t: "t < k" and rest: "\<forall>t\<in>set ts. t < k" "distinct ts" "t \<notin> set ts" using Cons.prems by auto
  note IH = Cons.IH [OF commit_interval_shaped [OF Cons.prems(1) t, of st sn tp] rest(1,2)]
  with commit_interval_cell [OF Cons.prems(1) t, of _ st sn tp] rest(3) show ?case by auto
qed simp

lemma commit_intervals_effect:
  fixes sn :: bool and tp :: int
  assumes "shaped (sd_num_intervals st) rc" "static_ok st" "idx < sd_n st"
  defines "rc' \<equiv> commit_intervals st idx sn tp rc"
  shows "shaped (sd_num_intervals st) rc'"
    and "s < sd_num_intervals st \<Longrightarrow> cell rc' s =
           (if covers st idx s then commit_cell (sd_total_at st ! s) sn tp (cell rc s) else cell rc s)"
    and "rc_addr rc' = rc_addr rc" "rc_allocated rc' = rc_allocated rc"
    and "rc_quality rc' = rc_quality rc" "rc_count rc' = rc_count rc"
proof -
  obtain lo hi where iv: "sd_buf_intervals st ! idx = (lo, hi)" by fastforce
  then have rc': "rc' = fold (commit_interval st sn tp) [lo..<hi] rc"
    by (simp add: rc'_def commit_intervals_def)
  have "hi \<le> sd_num_intervals st" using assms(2,3) iv by (auto simp: static_ok_def)
  then have "\<forall>t\<in>set [lo..<hi]. t < sd_num_intervals st" "distinct [lo..<hi]" by auto
  note f = commit_fold [OF assms(1) this, of st sn tp, folded rc']
  show "shaped (sd_num_intervals st) rc'" "rc_addr rc' = rc_addr rc" "rc_allocated rc' = rc_allocated rc"
      "rc_quality rc' = rc_quality rc" "rc_count rc' = rc_count rc"
    using f by blast+
  show "cell rc' s = (if covers st idx s then commit_cell (sd_total_at st ! s) sn tp (cell rc s) else cell rc s)"
    if "s < sd_num_intervals st"
    using f that iv by (auto simp: covers_def)
qed

subsection \<open>The aggregates summarise the buffers placed so far\<close>

definition summary :: "static_data \<Rightarrow> int list \<Rightarrow> bool list \<Rightarrow> (nat \<Rightarrow> int option) \<Rightarrow> nat set \<Rightarrow> nat \<Rightarrow>
    int \<times> bool \<times> int \<times> bool" where
  "summary st sizes elig A S t =
     (let placed = int (card {p \<in> S. covers st p t});
          none = (\<exists>p\<in>S. elig ! p \<and> A p = None \<and> covers st p t)
      in (placed, none, Max (insert 0 ((\<lambda>p. the (A p) + sizes ! p) ` {p \<in> S. A p \<noteq> None \<and> covers st p t})),
          sd_total_at st ! t = 0 \<or> none \<or> placed = sd_total_at st ! t))"

lemma summary_other:
  assumes "\<not> covers st idx t"
  shows "summary st sizes elig A (insert idx S) t = summary st sizes elig A S t"
proof -
  have "{p \<in> insert idx S. covers st p t} = {p \<in> S. covers st p t}"
      "{p \<in> insert idx S. A p \<noteq> None \<and> covers st p t} = {p \<in> S. A p \<noteq> None \<and> covers st p t}"
      "(\<exists>p\<in>insert idx S. elig ! p \<and> A p = None \<and> covers st p t) \<longleftrightarrow>
       (\<exists>p\<in>S. elig ! p \<and> A p = None \<and> covers st p t)"
    using assms by auto
  then show ?thesis by (simp only: summary_def Let_def)
qed

lemma summary_commit:
  assumes "covers st idx t" "finite S" "idx \<notin> S" "insert idx S \<subseteq> {..<sd_n st}"
    and "sd_total_at st ! t = int (card {i. i < sd_n st \<and> covers st i t})"
    and "sn \<longleftrightarrow> elig ! idx \<and> A idx = None"
    and "tp = (case A idx of Some a \<Rightarrow> a + sizes ! idx | None \<Rightarrow> -1)" "elig ! idx \<or> A idx = None"
  shows "commit_cell (sd_total_at st ! t) sn tp (summary st sizes elig A S t) =
         summary st sizes elig A (insert idx S) t"
proof -
  let ?tops = "\<lambda>S. (\<lambda>p. the (A p) + sizes ! p) ` {p \<in> S. A p \<noteq> None \<and> covers st p t}"
  have set_eq: "{p \<in> insert idx S. covers st p t} = insert idx {p \<in> S. covers st p t}" using assms(1) by auto
  then have placed: "card {p \<in> insert idx S. covers st p t} = card {p \<in> S. covers st p t} + 1"
    using assms(2,3) by simp
  have "card {p \<in> insert idx S. covers st p t} \<le> card {i. i < sd_n st \<and> covers st i t}"
    using assms(4) by (intro card_mono) auto
  then have room: "int (card {p \<in> S. covers st p t}) < sd_total_at st ! t" using placed assms(5) by simp
  have none: "(\<exists>p\<in>insert idx S. elig ! p \<and> A p = None \<and> covers st p t) \<longleftrightarrow>
      (\<exists>p\<in>S. elig ! p \<and> A p = None \<and> covers st p t) \<or> sn"
    using assms(1,6) by auto
  have mx: "Max (insert 0 (?tops (insert idx S))) =
      (if sn then Max (insert 0 (?tops S)) else max (Max (insert 0 (?tops S))) tp)"
  proof (cases "A idx")
    case None
    have "?tops (insert idx S) = ?tops S" using None by auto
    moreover have "(-1::int) \<le> Max (insert 0 (?tops S))"
    proof -
      have "0 \<le> Max (insert 0 (?tops S))" using assms(2) by (intro Max_ge) auto
      then show ?thesis by simp
    qed
    ultimately show ?thesis using assms(7) None by (simp add: max_def)
  next
    case (Some a)
    then have "{p \<in> insert idx S. A p \<noteq> None \<and> covers st p t} = insert idx {p \<in> S. A p \<noteq> None \<and> covers st p t}"
      using assms(1) by auto
    then have "?tops (insert idx S) = insert tp (?tops S)" using Some assms(7) by simp
    moreover have "\<not> sn" using Some assms(6) by simp
    moreover have "Max (insert tp (insert 0 (?tops S))) = max tp (Max (insert 0 (?tops S)))"
      using assms(2) by (intro Max_insert) auto
    ultimately show ?thesis by (simp add: insert_commute [of 0] max.commute)
  qed
  show ?thesis
    unfolding summary_def Let_def commit_cell_def none mx placed using room by auto
qed

subsection \<open>The packer's shape\<close>

definition packer_ok :: "packer \<Rightarrow> bool" where
  "packer_ok p \<longleftrightarrow> static_ok (pk_static p) \<and> distinct (pk_permutation p) \<and>
     set (pk_permutation p) = {..<sd_n (pk_static p)} \<and>
     length (pk_position p) = sd_n (pk_static p) \<and>
     (\<forall>k<length (pk_permutation p). pk_position p ! (pk_permutation p ! k) = k) \<and>
     length (pk_sizes p) = sd_n (pk_static p) \<and> (\<forall>i<sd_n (pk_static p). 0 \<le> pk_sizes p ! i) \<and>
     length (pk_eligible p) = sd_n (pk_static p) \<and> length (pk_addr p) = sd_n (pk_static p) \<and>
     length (pk_allocated p) = sd_n (pk_static p)"

definition spec_of :: "packer \<Rightarrow> nat \<Rightarrow> int option" where
  "spec_of p = placement (pk_static p) (pk_sizes p) (pk_eligible p) (pk_permutation p)"

text \<open>A coherent packer shows the layout that placing its permutation from scratch gives.\<close>

definition coherent :: "packer \<Rightarrow> bool" where
  "coherent p \<longleftrightarrow> packer_ok p \<and> packer_addresses p = map (spec_of p) [0..<sd_n (pk_static p)] \<and>
     pk_quality p = placement_quality (pk_static p) (pk_sizes p) (spec_of p) \<and>
     pk_count p = placed_count (pk_static p) (spec_of p)"

lemma packer_okD:
  assumes "packer_ok p"
  shows "distinct (pk_permutation p)" "set (pk_permutation p) = {..<sd_n (pk_static p)}"
    and "\<forall>i\<in>set (pk_permutation p). 0 \<le> pk_sizes p ! i" "0 < sd_alignment (pk_static p)"
    and "length (pk_permutation p) = sd_n (pk_static p)" "static_ok (pk_static p)"
proof -
  show d: "distinct (pk_permutation p)" "set (pk_permutation p) = {..<sd_n (pk_static p)}"
    using assms by (auto simp: packer_ok_def)
  show "\<forall>i\<in>set (pk_permutation p). 0 \<le> pk_sizes p ! i" "0 < sd_alignment (pk_static p)" "static_ok (pk_static p)"
    using assms by (auto simp: packer_ok_def static_ok_def)
  show "length (pk_permutation p) = sd_n (pk_static p)" using d by (metis card_lessThan distinct_card)
qed

lemma spec_of_ineligible: "packer_ok p \<Longrightarrow> \<not> pk_eligible p ! i \<Longrightarrow> spec_of p i = None"
  unfolding spec_of_def by (rule placement_ineligible) (auto dest: packer_okD)

lemma spec_of_eq:
  assumes "packer_ok p" "pk_permutation p = prior @ idx # rest"
  shows "spec_of p idx = place_next (pk_static p) (pk_sizes p) (pk_eligible p) (spec_of p) prior idx"
  using placement_eq [OF packer_okD(1) [OF assms(1)] _ packer_okD(3) [OF assms(1)], of "length prior"] assms(2)
  by (simp add: spec_of_def nth_append)

lemma spec_of_in_bounds:
  assumes "packer_ok p" "spec_of p i = Some a" "i < sd_n (pk_static p)"
  shows "0 \<le> a" "a + pk_sizes p ! i \<le> sd_capacity (pk_static p)" "sd_alignment (pk_static p) dvd a"
  using placement_in_bounds [OF packer_okD(1) [OF assms(1)] packer_okD(3,4) [OF assms(1)]] assms(2,3)
    packer_okD(2) [OF assms(1)] by (auto simp: spec_of_def)

subsection \<open>The fast path and the candidate scan decide alike\<close>

definition agg_ok :: "packer \<Rightarrow> nat list \<Rightarrow> recompute \<Rightarrow> bool" where
  "agg_ok p prior rc \<longleftrightarrow>
     (let st = pk_static p; A = spec_of p in
      shaped (sd_num_intervals st) rc \<and> length (rc_addr rc) = sd_n st \<and> length (rc_allocated rc) = sd_n st \<and>
      (\<forall>i\<in>set prior. addr_of rc i = A i) \<and>
      (\<forall>t<sd_num_intervals st. cell rc t = summary st (pk_sizes p) (pk_eligible p) A (set prior) t) \<and>
      rc_quality rc = (\<Sum>i\<in>{i \<in> set prior. A i \<noteq> None}. sd_weight st ! i * of_int (pk_sizes p ! i)) \<and>
      rc_count rc = card {i \<in> set prior. A i \<noteq> None})"

lemma interval_floor_eq:
  "interval_floor rc ts m =
     (if \<exists>t\<in>set ts. rc_has_none_at rc ! t then None
      else Some (Max (insert m ((\<lambda>t. rc_max_top_at rc ! t) ` set ts))))"
proof (induction ts arbitrary: m)
  case (Cons t ts)
  have "Max (insert (max m (rc_max_top_at rc ! t)) ((\<lambda>t. rc_max_top_at rc ! t) ` set ts)) =
      Max (insert m ((\<lambda>t. rc_max_top_at rc ! t) ` set (t # ts)))"
    by (cases "set ts = {}") (simp_all add: max.assoc)
  moreover have "(if rc_max_top_at rc ! t > m then rc_max_top_at rc ! t else m) = max m (rc_max_top_at rc ! t)"
    by (simp add: max_def)
  ultimately show ?case by (simp add: Cons.IH)
qed simp

lemma place_decision_no_partners:
  assumes "\<forall>q\<in>set cand. addr q \<noteq> None \<longrightarrow> 0 \<le> the (addr q) + sizes ! q" "0 < sd_alignment st"
  shows "place_decision st sizes addr [] idx cand =
         (if \<exists>q\<in>set cand. addr q = None then None
          else let a = align_up st (Max (insert 0 ((\<lambda>q. the (addr q) + sizes ! q) ` set cand)))
               in if a + sizes ! idx > sd_capacity st then None else Some a)"
proof (cases "cand = []")
  case True
  have "align_up st 0 = 0" using assms(2) by (simp add: align_up_def round_up_dvd_id)
  with True show ?thesis by (simp add: place_decision_def Let_def)
next
  case False
  let ?tops = "(\<lambda>q. the (addr q) + sizes ! q) ` set cand"
  have "Max (insert (- (2 ^ 63)) ?tops) = Max (insert 0 ?tops)" if "\<forall>q\<in>set cand. addr q \<noteq> None"
  proof -
    from False obtain q where "q \<in> set cand" by (cases cand) auto
    then have "0 \<le> Max ?tops" using assms(1) that
      by (meson List.finite_set Max_ge finite_imageI imageI order_trans)
    with False show ?thesis by (simp add: max_def)
  qed
  then show ?thesis using False by (auto simp: place_decision_def Let_def fold_max_Max)
qed

lemma shared_interval:
  assumes "static_ok st" "idx < sd_n st" "q < sd_n st"
  shows "overlaps_idx st idx q \<longleftrightarrow> (\<exists>t<sd_num_intervals st. covers st idx t \<and> covers st q t)"
proof -
  have "overlaps_idx st idx q \<longleftrightarrow> (\<exists>t. covers st idx t \<and> covers st q t)"
      "\<forall>t. covers st idx t \<longrightarrow> t < sd_num_intervals st"
    using assms by (auto simp: static_ok_def covers_def)
  then show ?thesis by blast
qed

lemma Max_of_Max:
  fixes z :: "'b::linorder"
  assumes "finite T" "\<And>t. t \<in> T \<Longrightarrow> finite (B t)"
  shows "Max (insert z ((\<lambda>t. Max (insert z (B t))) ` T)) = Max (insert z (\<Union>t\<in>T. B t))"
  using assms
proof (induction T)
  case (insert t T)
  have "Max (insert z ((\<lambda>t. Max (insert z (B t))) ` insert t T)) =
      max (Max (insert z (B t))) (Max (insert z ((\<lambda>t. Max (insert z (B t))) ` T)))"
    unfolding image_insert insert_commute [of z] using insert.hyps by (intro Max_insert) auto
  also have "\<dots> = max (Max (insert z (B t))) (Max (insert z (\<Union>t\<in>T. B t)))" using insert by simp
  also have "\<dots> = Max (insert z (B t) \<union> insert z (\<Union>t\<in>T. B t))"
    using insert by (intro Max_Un [symmetric]) auto
  also have "insert z (B t) \<union> insert z (\<Union>t\<in>T. B t) = insert z (\<Union>t\<in>insert t T. B t)" by auto
  finally show ?case .
qed simp

lemma fast_path_correct:
  assumes ok: "packer_ok p" and perm: "pk_permutation p = prior @ idx # rest" and agg: "agg_ok p prior rc"
    and no: "sd_partners (pk_static p) ! idx = []" and el: "pk_eligible p ! idx"
  shows "decide_address p pos idx rc = spec_of p idx"
proof -
  define st where "st = pk_static p"
  define A where "A = spec_of p"
  define tp where "tp q = the (A q) + pk_sizes p ! q" for q
  let ?cand = "earlier_overlaps st (pk_eligible p) prior idx"
  let ?T = "{t. t < sd_num_intervals st \<and> covers st idx t}"
  obtain lo hi where iv: "sd_buf_intervals st ! idx = (lo, hi)" by fastforce
  note okD = packer_okD [OF ok, folded st_def]
  have idx: "idx < sd_n st" and prior: "\<forall>q\<in>set prior. q < sd_n st" using okD(2) perm by auto
  have T: "set [lo..<hi] = ?T"
    using iv okD(6) idx by (auto simp: static_ok_def covers_def dest: less_le_trans)
  have cell: "rc_has_none_at rc ! t \<longleftrightarrow> (\<exists>q\<in>set prior. pk_eligible p ! q \<and> A q = None \<and> covers st q t)"
      "rc_max_top_at rc ! t = Max (insert 0 (tp ` {q \<in> set prior. A q \<noteq> None \<and> covers st q t}))"
    if "t \<in> ?T" for t
    using agg that by (auto simp: agg_ok_def cell_def summary_def Let_def st_def A_def tp_def [abs_def])
  have elig: "pk_eligible p ! q" if "A q \<noteq> None" for q
    by (rule ccontr) (use spec_of_ineligible [OF ok] that in \<open>simp add: A_def\<close>)
  have cand: "q \<in> set ?cand \<longleftrightarrow> q \<in> set prior \<and> pk_eligible p ! q \<and> (\<exists>t\<in>?T. covers st q t)" for q
    using shared_interval [OF okD(6) idx, of q] prior by (auto simp: earlier_overlaps_def)
  have "(\<exists>t\<in>?T. rc_has_none_at rc ! t) \<longleftrightarrow>
      (\<exists>t\<in>?T. \<exists>q\<in>set prior. pk_eligible p ! q \<and> A q = None \<and> covers st q t)"
    by (rule bex_cong [OF refl cell(1)])
  also have "\<dots> \<longleftrightarrow> (\<exists>q\<in>set ?cand. A q = None)" unfolding Bex_def cand by blast
  finally have none: "(\<exists>t\<in>?T. rc_has_none_at rc ! t) \<longleftrightarrow> (\<exists>q\<in>set ?cand. A q = None)" .
  have tops: "Max (insert 0 ((\<lambda>t. rc_max_top_at rc ! t) ` ?T)) = Max (insert 0 (tp ` set ?cand))"
    if "\<forall>q\<in>set ?cand. A q \<noteq> None"
  proof -
    have "(\<lambda>t. rc_max_top_at rc ! t) ` ?T = (\<lambda>t. Max (insert 0 (tp ` {q \<in> set prior. A q \<noteq> None \<and> covers st q t}))) ` ?T"
      using cell(2) by (intro image_cong) auto
    also have "Max (insert 0 \<dots>) = Max (insert 0 (\<Union>t\<in>?T. tp ` {q \<in> set prior. A q \<noteq> None \<and> covers st q t}))"
      by (rule Max_of_Max) simp_all
    also have "(\<Union>t\<in>?T. tp ` {q \<in> set prior. A q \<noteq> None \<and> covers st q t}) = tp ` set ?cand"
      using that elig unfolding image_UN [symmetric] by (intro arg_cong [where f = "(`) tp"]) (auto simp: cand)
    finally show ?thesis .
  qed
  have pos_top: "\<forall>q\<in>set ?cand. A q \<noteq> None \<longrightarrow> 0 \<le> the (A q) + pk_sizes p ! q"
    using spec_of_in_bounds(1) [OF ok] prior okD(2,3) cand unfolding A_def st_def by fastforce
  have "spec_of p idx = place_decision st (pk_sizes p) A [] idx ?cand"
    using spec_of_eq [OF ok perm] el no by (simp add: place_next_def Let_def st_def A_def)
  also have "\<dots> = decide_address p pos idx rc"
    unfolding place_decision_no_partners [OF pos_top okD(4)] decide_address_def
    using no iv none tops by (auto simp: interval_floor_eq Let_def st_def [symmetric] T tp_def [abs_def] simp del: set_upt)
  finally show ?thesis ..
qed

lemma position_prior:
  assumes "packer_ok p" "pk_permutation p = prior @ idx # rest" "w < sd_n (pk_static p)"
  shows "pk_position p ! w < length prior \<longleftrightarrow> w \<in> set prior"
proof -
  have "w \<in> set (pk_permutation p)" using assms(1,3) packer_okD(2) by blast
  then obtain k where k: "k < length (pk_permutation p)" "pk_permutation p ! k = w"
    by (auto simp: in_set_conv_nth)
  have pos: "pk_position p ! w = k" using assms(1) k by (auto simp: packer_ok_def)
  have "w \<in> set prior \<longleftrightarrow> k < length prior"
  proof
    assume "k < length prior"
    then show "w \<in> set prior" using k assms(2) by (auto simp: nth_append)
  next
    assume "w \<in> set prior"
    then obtain l where "l < length prior" "prior ! l = w" by (auto simp: in_set_conv_nth)
    then have "pk_permutation p ! l = w" "l < length (pk_permutation p)" using assms(2) by (auto simp: nth_append)
    with k packer_okD(1) [OF assms(1)] \<open>l < length prior\<close> show "k < length prior"
      by (metis nth_eq_iff_index_eq)
  qed
  with pos show ?thesis by simp
qed

lemma candidate_scan_correct:
  assumes ok: "packer_ok p" and perm: "pk_permutation p = prior @ idx # rest" and agg: "agg_ok p prior rc"
    and some: "sd_partners (pk_static p) ! idx \<noteq> []" and el: "pk_eligible p ! idx"
  shows "decide_address p (length prior) idx rc = spec_of p idx"
proof -
  let ?st = "pk_static p" and ?g = "gather_candidates p idx (length prior)"
  let ?cand = "earlier_overlaps ?st (pk_eligible p) prior idx"
  note okD = packer_okD [OF ok]
  have idx: "idx < sd_n ?st" and prior: "\<forall>q\<in>set prior. q < sd_n ?st \<and> q \<noteq> idx" using okD(1,2) perm by auto
  have over: "set (sd_overlap ?st ! idx) = {j. j < sd_n ?st \<and> j \<noteq> idx \<and> overlaps_idx ?st idx j}"
    using okD(6) idx by (simp add: static_ok_def)
  have mem: "set ?g = set ?cand"
  proof (rule set_eqI)
    fix q
    show "q \<in> set ?g \<longleftrightarrow> q \<in> set ?cand"
      using prior position_prior [OF ok perm, of q] by (auto simp: gather_candidates_def earlier_overlaps_def over)
  qed
  have sub: "q \<in> set prior" if "q \<in> set ?g" for q using that mem by (auto simp: earlier_overlaps_def)
  have "place_decision ?st (pk_sizes p) (addr_of rc) (sd_partners ?st ! idx) idx ?g =
      place_decision ?st (pk_sizes p) (spec_of p)
        (filter (\<lambda>q. q \<in> set (sd_partners ?st ! idx)) ?cand) idx ?cand"
  proof (rule place_decision_cong)
    show "addr_of rc q = spec_of p q" if "q \<in> set ?g" for q
      using agg sub [OF that] by (simp add: agg_ok_def Let_def)
    show "0 \<le> pk_sizes p ! r" if "r \<in> set ?g" for r
      using sub [OF that] okD(3) perm by simp
  qed (use mem in auto)
  then show ?thesis
    using some el spec_of_eq [OF ok perm] by (simp add: decide_address_def place_next_def Let_def split: prod.split)
qed

lemma decide_address_correct:
  assumes "packer_ok p" "pk_permutation p = prior @ idx # rest" "agg_ok p prior rc" "pk_eligible p ! idx"
  shows "decide_address p (length prior) idx rc = spec_of p idx"
  using fast_path_correct [OF assms(1-3)] candidate_scan_correct [OF assms(1-3)] assms(4) by blast

subsection \<open>The loop\<close>

lemma recompute_one_eq:
  assumes "packer_ok p" "pk_permutation p = prior @ idx # rest" "agg_ok p prior rc"
  shows "recompute_one p (length prior) idx rc =
     commit_intervals (pk_static p) idx (pk_eligible p ! idx \<and> spec_of p idx = None)
       (case spec_of p idx of Some a \<Rightarrow> a + pk_sizes p ! idx | None \<Rightarrow> -1)
       (case spec_of p idx of
          Some a \<Rightarrow> rc\<lparr>rc_allocated := (rc_allocated rc)[idx := True], rc_addr := (rc_addr rc)[idx := a],
                      rc_quality := rc_quality rc + sd_weight (pk_static p) ! idx * of_int (pk_sizes p ! idx),
                      rc_count := rc_count rc + 1\<rparr>
        | None \<Rightarrow> rc\<lparr>rc_allocated := (rc_allocated rc)[idx := False],
                    rc_addr := (if pk_eligible p ! idx then (rc_addr rc)[idx := 0] else rc_addr rc)\<rparr>)"
proof (cases "pk_eligible p ! idx")
  case True
  then show ?thesis
    using decide_address_correct [OF assms True]
    by (simp add: recompute_one_def Let_def split: option.split)
next
  case False
  then show ?thesis using spec_of_ineligible [OF assms(1) False] by (simp add: recompute_one_def Let_def)
qed

lemma recompute_one_agg:
  assumes ok: "packer_ok p" and perm: "pk_permutation p = prior @ idx # rest" and agg: "agg_ok p prior rc"
  shows "agg_ok p (prior @ [idx]) (recompute_one p (length prior) idx rc)"
proof -
  define st where "st = pk_static p"
  define A where "A = spec_of p"
  define rc1 where "rc1 = (case A idx of
          Some a \<Rightarrow> rc\<lparr>rc_allocated := (rc_allocated rc)[idx := True], rc_addr := (rc_addr rc)[idx := a],
                      rc_quality := rc_quality rc + sd_weight st ! idx * of_int (pk_sizes p ! idx),
                      rc_count := rc_count rc + 1\<rparr>
        | None \<Rightarrow> rc\<lparr>rc_allocated := (rc_allocated rc)[idx := False],
                    rc_addr := (if pk_eligible p ! idx then (rc_addr rc)[idx := 0] else rc_addr rc)\<rparr>)"
  define tp where "tp = (case A idx of Some a \<Rightarrow> a + pk_sizes p ! idx | None \<Rightarrow> -1)"
  define sn where "sn = (pk_eligible p ! idx \<and> A idx = None)"
  have run: "recompute_one p (length prior) idx rc = commit_intervals st idx sn tp rc1"
    unfolding recompute_one_eq [OF assms] st_def A_def rc1_def tp_def sn_def ..
  note okD = packer_okD [OF ok, folded st_def]
  have idx: "idx < sd_n st" and prior: "set prior \<subseteq> {..<sd_n st}" "idx \<notin> set prior"
    using okD(1,2) perm by auto
  have old: "shaped (sd_num_intervals st) rc" "length (rc_addr rc) = sd_n st" "length (rc_allocated rc) = sd_n st"
      "\<forall>i\<in>set prior. addr_of rc i = A i"
      "\<forall>t<sd_num_intervals st. cell rc t = summary st (pk_sizes p) (pk_eligible p) A (set prior) t"
      "rc_quality rc = (\<Sum>i\<in>{i \<in> set prior. A i \<noteq> None}. sd_weight st ! i * of_int (pk_sizes p ! i))"
      "rc_count rc = card {i \<in> set prior. A i \<noteq> None}"
    using agg by (simp_all add: agg_ok_def Let_def st_def A_def)
  have sh: "shaped (sd_num_intervals st) rc1" and c1: "cell rc1 = cell rc"
    using old(1) by (auto simp: rc1_def shaped_def cell_def fun_eq_iff split: option.split)
  note f = commit_intervals_effect [OF sh okD(6) idx, where sn = sn and tp = tp]
  have len: "length (rc_addr rc1) = sd_n st" "length (rc_allocated rc1) = sd_n st"
    using old(2,3) by (auto simp: rc1_def split: option.split)
  have addr: "addr_of rc1 i = A i" if "i \<in> set (prior @ [idx])" for i
    using that old(2-4) idx prior(2)
    by (cases "i = idx") (auto simp: addr_of_def rc1_def split: option.split)
  have none: "pk_eligible p ! idx \<or> A idx = None" using spec_of_ineligible [OF ok] unfolding A_def by metis
  have cells: "cell (commit_intervals st idx sn tp rc1) t =
      summary st (pk_sizes p) (pk_eligible p) A (set (prior @ [idx])) t" if t: "t < sd_num_intervals st" for t
  proof -
    have "sd_total_at st ! t = int (card {i. i < sd_n st \<and> covers st i t})"
      using okD(6) t by (simp add: static_ok_def)
    then show ?thesis
      using f(2) [OF t] old(5) t c1 idx prior summary_commit [of st idx t "set prior" sn "pk_eligible p" A tp "pk_sizes p"]
        summary_other [of st idx t "pk_sizes p" "pk_eligible p" A "set prior"] none
      by (auto simp: sn_def tp_def)
  qed
  have split: "{i \<in> set (prior @ [idx]). A i \<noteq> None} =
      (if A idx = None then {i \<in> set prior. A i \<noteq> None} else insert idx {i \<in> set prior. A i \<noteq> None})"
    by auto
  have "rc_quality rc1 = (\<Sum>i\<in>{i \<in> set (prior @ [idx]). A i \<noteq> None}. sd_weight st ! i * of_int (pk_sizes p ! i)) \<and>
      rc_count rc1 = card {i \<in> set (prior @ [idx]). A i \<noteq> None}"
    unfolding split using old(6,7) prior(2) by (auto simp: rc1_def split: option.split)
  moreover have "addr_of (commit_intervals st idx sn tp rc1) i = addr_of rc1 i" for i
    by (simp add: addr_of_def f(3,4))
  ultimately show ?thesis
    using f(1,3-6) len addr cells unfolding run agg_ok_def Let_def st_def [symmetric] A_def [symmetric]
    by simp
qed

lemma start_recompute_agg:
  assumes "packer_ok p"
  shows "agg_ok p [] (start_recompute p)"
  using assms unfolding agg_ok_def Let_def
  by (simp add: start_recompute_def init_intervals_def Let_def shaped_def cell_def summary_def packer_ok_def)

text \<open>At the early stop every interval is saturated, so what is left rests on an evicted buffer.\<close>

lemma early_stop_evicts:
  assumes ok: "packer_ok p" and perm: "pk_permutation p = prior @ rest" and agg: "agg_ok p prior rc"
    and stop: "rc_not_done rc = 0" and idx: "idx \<in> set rest"
  shows "spec_of p idx = None"
proof (cases "pk_eligible p ! idx")
  case True
  define st where "st = pk_static p"
  note okD = packer_okD [OF ok, folded st_def]
  from split_list [OF idx] obtain as bs where rest: "rest = as @ idx # bs" by blast
  have n: "idx < sd_n st" "idx \<notin> set prior" "set prior \<subseteq> {..<sd_n st}" using okD(1,2) perm rest by auto
  define t where "t = fst (sd_buf_intervals st ! idx)"
  have t: "covers st idx t" "t < sd_num_intervals st"
    using okD(6) n(1) by (auto simp: static_ok_def covers_def t_def)
  have sh: "shaped (sd_num_intervals st) rc"
      and c: "cell rc t = summary st (pk_sizes p) (pk_eligible p) (spec_of p) (set prior) t"
    using agg t(2) by (simp_all add: agg_ok_def Let_def st_def)
  have "filter Not (rc_done_at rc) = []" using sh stop by (simp add: shaped_def)
  then have "\<forall>x\<in>set (rc_done_at rc). x" by (simp add: filter_empty_conv)
  then have fin: "rc_done_at rc ! t" using sh t(2) by (metis nth_mem shaped_def)
  have tot: "sd_total_at st ! t = int (card {i. i < sd_n st \<and> covers st i t})"
    using okD(6) t(2) by (simp add: static_ok_def)
  have "{q \<in> set prior. covers st q t} \<subset> {i. i < sd_n st \<and> covers st i t}" using n t(1) by auto
  then have "card {q \<in> set prior. covers st q t} < card {i. i < sd_n st \<and> covers st i t}"
    by (intro psubset_card_mono) auto
  with tot have room: "int (card {q \<in> set prior. covers st q t}) < sd_total_at st ! t" by simp
  have "sd_total_at st ! t \<noteq> 0" using room by linarith
  then have "\<exists>q\<in>set prior. pk_eligible p ! q \<and> spec_of p q = None \<and> covers st q t"
    using c fin room by (auto simp: cell_def summary_def Let_def)
  then obtain q where q: "q \<in> set prior" "pk_eligible p ! q" "spec_of p q = None" "covers st q t" by blast
  have "overlaps_idx st idx q" using shared_interval [OF okD(6) n(1)] q n(3) t by blast
  then have "q \<in> set (earlier_overlaps st (pk_eligible p) (prior @ as) idx)"
    using q by (simp add: earlier_overlaps_def)
  from place_decision_none [OF this, of "spec_of p"] q(3) True spec_of_eq [OF ok, of "prior @ as" idx bs] perm rest show ?thesis
    by (simp add: place_next_def Let_def st_def)
qed (rule spec_of_ineligible [OF ok])

definition finished :: "packer \<Rightarrow> recompute \<Rightarrow> bool" where
  "finished p rc \<longleftrightarrow> length (rc_addr rc) = sd_n (pk_static p) \<and> length (rc_allocated rc) = sd_n (pk_static p) \<and>
     (\<forall>i<sd_n (pk_static p). addr_of rc i = spec_of p i) \<and>
     rc_quality rc = placement_quality (pk_static p) (pk_sizes p) (spec_of p) \<and>
     rc_count rc = placed_count (pk_static p) (spec_of p)"

lemma mark_evicted_nth:
  "length (mark_evicted is al) = length al"
  "j < length al \<Longrightarrow> mark_evicted is al ! j \<longleftrightarrow> al ! j \<and> j \<notin> set is"
  unfolding mark_evicted_def
proof (induction "is" arbitrary: al)
  case (Cons i "is")
  { case 1 with Cons.IH(1) [of "al[i := False]"] show ?case by simp }
  { case 2 with Cons.IH(2) [of "al[i := False]"] show ?case by (cases "i = j") auto }
qed simp_all

lemma recompute_loop_finished:
  assumes "packer_ok p" "pk_permutation p = prior @ rest" "agg_ok p prior rc"
  shows "finished p (recompute_loop p (length prior) rest rc)"
  using assms(2,3)
proof (induction rest arbitrary: prior rc)
  case Nil
  have "set prior = {i. i < sd_n (pk_static p)}" using packer_okD(2) [OF assms(1)] Nil.prems(1) by auto
  then show ?case
    using Nil.prems(2) by (simp add: finished_def agg_ok_def Let_def placement_quality_def placed_count_def)
next
  case (Cons idx rest)
  show ?case
  proof (cases "rc_not_done rc = 0")
    case False
    have "agg_ok p (prior @ [idx]) (recompute_one p (length prior) idx rc)"
      by (rule recompute_one_agg [OF assms(1) Cons.prems])
    with Cons.IH [of "prior @ [idx]"] Cons.prems(1) False show ?thesis by simp
  next
    case True
    let ?rc = "recompute_loop p (length prior) (idx # rest) rc"
    have evicted: "spec_of p i = None" if "i \<in> set (idx # rest)" for i
      by (rule early_stop_evicts [OF assms(1) Cons.prems True that])
    have all: "set prior \<union> set (idx # rest) = {i. i < sd_n (pk_static p)}"
      using packer_okD(2) [OF assms(1)] Cons.prems(1) by auto
    have agg: "length (rc_addr rc) = sd_n (pk_static p)" "length (rc_allocated rc) = sd_n (pk_static p)"
        "\<forall>i\<in>set prior. addr_of rc i = spec_of p i"
      using Cons.prems(2) by (simp_all add: agg_ok_def Let_def)
    have "addr_of ?rc i = spec_of p i" if "i < sd_n (pk_static p)" for i
    proof (cases "i \<in> set (idx # rest)")
      case in_rest: True
      then have "\<not> rc_allocated ?rc ! i" using True agg(2) that by (simp add: mark_evicted_nth)
      then show ?thesis by (simp only: addr_of_def evicted [OF in_rest] if_False)
    next
      case False
      then have "rc_allocated ?rc ! i = rc_allocated rc ! i" "rc_addr ?rc = rc_addr rc"
        using True agg(2) that by (simp_all add: mark_evicted_nth)
      moreover have "i \<in> set prior" using all False that by blast
      ultimately show ?thesis using agg(3) by (simp only: addr_of_def)
    qed
    moreover have "{i \<in> set prior. spec_of p i \<noteq> None} = {i. i < sd_n (pk_static p) \<and> spec_of p i \<noteq> None}"
      using all evicted by (metis (no_types, lifting) Un_iff mem_Collect_eq)
    ultimately show ?thesis
      using Cons.prems(2) agg True
      by (simp add: finished_def agg_ok_def Let_def placement_quality_def placed_count_def mark_evicted_nth)
  qed
qed

lemma recompute_all_frame [simp]:
  "pk_static (recompute_all p) = pk_static p" "pk_permutation (recompute_all p) = pk_permutation p"
  "pk_position (recompute_all p) = pk_position p" "pk_sizes (recompute_all p) = pk_sizes p"
  "pk_eligible (recompute_all p) = pk_eligible p" "spec_of (recompute_all p) = spec_of p"
  by (simp_all add: recompute_all_def Let_def spec_of_def)

lemma recompute_all_coherent: "packer_ok p \<Longrightarrow> coherent (recompute_all p)"
proof -
  assume ok: "packer_ok p"
  define rc where "rc = recompute_loop p 0 (pk_permutation p) (start_recompute p)"
  have fin: "finished p rc"
    using recompute_loop_finished [OF ok _ start_recompute_agg [OF ok]] by (simp add: rc_def)
  have q: "recompute_all p = p\<lparr>pk_addr := rc_addr rc, pk_allocated := rc_allocated rc,
      pk_quality := rc_quality rc, pk_count := rc_count rc\<rparr>"
    by (simp add: recompute_all_def rc_def Let_def)
  have "packer_ok (recompute_all p)" using ok fin by (simp add: q packer_ok_def finished_def)
  moreover have "packer_addresses (recompute_all p) = map (addr_of rc) [0..<sd_n (pk_static p)]"
    by (simp add: q packer_addresses_def addr_of_def)
  moreover have "\<dots> = map (spec_of p) [0..<sd_n (pk_static p)]"
    using fin by (intro map_cong) (auto simp: finished_def)
  ultimately show ?thesis using fin by (simp add: coherent_def finished_def, simp add: q)
qed

subsection \<open>Construction\<close>

lemma fold_positions:
  assumes "distinct perm" "\<forall>i\<in>set perm. i < length acc" "\<forall>q\<in>set qs. q < length perm" "k < length perm"
  shows "length (fold (\<lambda>q acc. acc[perm ! q := q]) qs acc) = length acc \<and>
         fold (\<lambda>q acc. acc[perm ! q := q]) qs acc ! (perm ! k) = (if k \<in> set qs then k else acc ! (perm ! k))"
  using assms(2,3)
proof (induction qs arbitrary: acc)
  case (Cons q qs)
  have q: "q < length perm" using Cons.prems by simp
  note IH = Cons.IH [of "acc[perm ! q := q]"]
  have "acc[perm ! q := q] ! (perm ! k) = (if k = q then k else acc ! (perm ! k))"
    using assms(1,4) q Cons.prems(1) by (auto simp: nth_list_update nth_eq_iff_index_eq)
  with IH Cons.prems show ?case by auto
qed simp

lemma inverse_of_ok:
  assumes "distinct perm" "set perm = {..<length perm}"
  shows "length (inverse_of perm) = length perm" "k < length perm \<Longrightarrow> inverse_of perm ! (perm ! k) = k"
proof -
  have "\<forall>i\<in>set perm. i < length (replicate (length perm) (0::nat))" using assms(2) by simp
  note f = fold_positions [OF assms(1) this, of "[0..<length perm]"]
  show "k < length perm \<Longrightarrow> inverse_of perm ! (perm ! k) = k"
    using f [of k] by (simp add: inverse_of_def)
  show "length (inverse_of perm) = length perm"
    using f [of 0] by (cases "perm = []") (auto simp: inverse_of_def)
qed

lemma sort_upt_perm:
  assumes "sort perm = [0..<n]"
  shows "distinct perm" "set perm = {..<n}" "length perm = n"
proof -
  have "distinct (sort perm)" "set (sort perm) = {..<n}" "length (sort perm) = n"
    unfolding assms by auto
  then show "distinct perm" "set perm = {..<n}" "length perm = n" by simp_all
qed

lemma initial_packer_cases:
  assumes "initial_packer bs perm capacity alignment eligible = Inr p"
  obtains flags where "0 < alignment" "sort perm = [0..<length bs]" "list_all fields_readable bs"
    "distinct (map b_name bs)" "list_all (parents_valid bs) [0..<length bs]" "length flags = length bs"
    "eligible = None \<longrightarrow> flags = replicate (length bs) True"
    "p = \<lparr>pk_static = make_static bs capacity alignment, pk_permutation = perm,
          pk_position = inverse_of perm, pk_sizes = map b_size bs, pk_eligible = flags,
          pk_addr = replicate (length bs) 0, pk_allocated = replicate (length bs) False,
          pk_quality = 0, pk_count = 0\<rparr>"
  using assms by (cases eligible) (auto simp: initial_packer_def)

lemma make_packer_cases:
  assumes "make_packer bs perm capacity alignment eligible = Inr p"
  obtains q flags where "initial_packer bs perm capacity alignment eligible = Inr q" "p = recompute_all q"
    "0 < alignment" "sort perm = [0..<length bs]" "list_all fields_readable bs"
    "distinct (map b_name bs)" "list_all (parents_valid bs) [0..<length bs]" "length flags = length bs"
    "eligible = None \<longrightarrow> flags = replicate (length bs) True"
    "q = \<lparr>pk_static = make_static bs capacity alignment, pk_permutation = perm,
          pk_position = inverse_of perm, pk_sizes = map b_size bs, pk_eligible = flags,
          pk_addr = replicate (length bs) 0, pk_allocated = replicate (length bs) False,
          pk_quality = 0, pk_count = 0\<rparr>"
proof -
  from assms obtain q where q: "initial_packer bs perm capacity alignment eligible = Inr q" "p = recompute_all q"
    by (auto simp: make_packer_def)
  from initial_packer_cases [OF q(1)] q that show thesis by metis
qed

lemma make_static_frame [simp]:
  "sd_n (make_static bs c a) = length bs" "sd_capacity (make_static bs c a) = c"
  "sd_alignment (make_static bs c a) = a" "sd_start (make_static bs c a) = map start_time bs"
  "sd_end (make_static bs c a) = map end_time bs" "sd_weight (make_static bs c a) = map use_weight bs"
  "sd_partners (make_static bs c a) = map (inplace_partners bs) [0..<length bs]"
  by (simp_all add: make_static_def Let_def)

lemma make_packer_frame:
  assumes "make_packer bs perm capacity alignment eligible = Inr p"
  shows "pk_static p = make_static bs capacity alignment" "pk_permutation p = perm"
    and "pk_sizes p = map b_size bs" "eligible = None \<longrightarrow> pk_eligible p = replicate (length bs) True"
    and "0 < alignment" "sort perm = [0..<length bs]"
  using assms by (auto elim!: make_packer_cases)

lemma initial_packer_ok:
  assumes "initial_packer bs perm capacity alignment eligible = Inr p" "\<forall>b\<in>set bs. start_time b < end_time b"
  shows "packer_ok p"
  using assms(1)
proof (rule initial_packer_cases)
  fix flags
  assume al: "0 < alignment" and srt: "sort perm = [0..<length bs]" and readable: "list_all fields_readable bs"
    and fl: "length flags = length bs"
    and p: "p = \<lparr>pk_static = make_static bs capacity alignment, pk_permutation = perm,
          pk_position = inverse_of perm, pk_sizes = map b_size bs, pk_eligible = flags,
          pk_addr = replicate (length bs) 0, pk_allocated = replicate (length bs) False,
          pk_quality = 0, pk_count = 0\<rparr>"
  note perm = sort_upt_perm [OF srt]
  have "set perm = {..<length perm}" using perm by simp
  note inv = inverse_of_ok [OF perm(1) this]
  have "\<forall>i<length bs. 0 \<le> map b_size bs ! i" using readable by (simp add: list_all_length fields_readable_def)
  then show ?thesis
    unfolding p using inv perm fl make_static_ok [OF al assms(2), of capacity] by (simp add: packer_ok_def)
qed

lemma make_packer_coherent:
  assumes "make_packer bs perm capacity alignment eligible = Inr p" "\<forall>b\<in>set bs. start_time b < end_time b"
  shows "coherent p"
  using assms(1) initial_packer_ok [OF _ assms(2)] recompute_all_coherent by (auto simp: make_packer_def)

subsection \<open>Operations\<close>

lemma coherent_reorder:
  assumes "coherent p" "distinct perm'" "set perm' = set (pk_permutation p)" "length pos' = sd_n (pk_static p)"
    and "\<And>k. k < length perm' \<Longrightarrow> pos' ! (perm' ! k) = k"
    and "\<And>i j. overlaps_idx (pk_static p) i j \<Longrightarrow> pk_eligible p ! j \<Longrightarrow> pk_eligible p ! i \<Longrightarrow>
           before j i (pk_permutation p) \<longleftrightarrow> before j i perm'"
  shows "coherent (p\<lparr>pk_permutation := perm', pk_position := pos'\<rparr>)"
proof -
  let ?p = "p\<lparr>pk_permutation := perm', pk_position := pos'\<rparr>"
  have ok: "packer_ok p" using assms(1) by (simp add: coherent_def)
  then have ok': "packer_ok ?p" using assms(2-5) by (simp add: packer_ok_def)
  have "spec_of ?p = spec_of p"
    unfolding spec_of_def using assms(6) packer_okD [OF ok] assms(2,3)
    by (simp add: placement_reorder [of "pk_permutation p" perm'])
  moreover have "packer_addresses ?p = packer_addresses p" by (simp add: packer_addresses_def)
  ultimately show ?thesis using ok' assms(1) by (simp add: coherent_def)
qed

lemma packer_ok_reorder:
  assumes "packer_ok p" "distinct perm'" "set perm' = set (pk_permutation p)" "length pos' = sd_n (pk_static p)"
    and "\<And>k. k < length perm' \<Longrightarrow> pos' ! (perm' ! k) = k"
  shows "packer_ok (p\<lparr>pk_permutation := perm', pk_position := pos'\<rparr>)"
  using assms by (simp add: packer_ok_def)

lemma swap_list:
  assumes "i + 1 < length xs"
  shows "xs = take i xs @ xs ! i # xs ! (i + 1) # drop (i + 2) xs"
    and "xs[i := xs ! (i + 1), i + 1 := xs ! i] = take i xs @ xs ! (i + 1) # xs ! i # drop (i + 2) xs"
proof -
  have "drop i xs = xs ! i # xs ! (i + 1) # drop (i + 2) xs"
    using assms by (simp add: Cons_nth_drop_Suc)
  then show *: "xs = take i xs @ xs ! i # xs ! (i + 1) # drop (i + 2) xs"
    by (metis append_take_drop_id)
  have len: "length (take i xs) = i" using assms by simp
  show "xs[i := xs ! (i + 1), i + 1 := xs ! i] = take i xs @ xs ! (i + 1) # xs ! i # drop (i + 2) xs"
    using assms by (subst (1) *) (simp add: list_update_append len)
qed

lemma swap_positions:
  assumes "packer_ok p" "i + 1 < sd_n (pk_static p)"
  defines "perm \<equiv> pk_permutation p"
  defines "perm' \<equiv> perm[i := perm ! (i + 1), i + 1 := perm ! i]"
  defines "pos' \<equiv> (pk_position p)[perm ! i := i + 1, perm ! (i + 1) := i]"
  shows "distinct perm'" "set perm' = set perm" "length pos' = sd_n (pk_static p)"
    and "k < length perm' \<Longrightarrow> pos' ! (perm' ! k) = k"
proof -
  note okD = packer_okD [OF assms(1), folded perm_def]
  have i: "i + 1 < length perm" using assms(2) okD(5) by simp
  have "mset perm' = mset perm"
    unfolding perm'_def swap_list(2) [OF i] by (subst (4) swap_list(1) [OF i]) simp
  then show d: "distinct perm'" and "set perm' = set perm"
    using okD(1) by (metis mset_eq_imp_distinct_iff, metis mset_eq_setD)
  show "length pos' = sd_n (pk_static p)" using assms(1) by (simp add: pos'_def packer_ok_def)
  show "k < length perm' \<Longrightarrow> pos' ! (perm' ! k) = k"
  proof -
    assume k: "k < length perm'"
    then have k': "k < length perm" by (simp add: perm'_def)
    have inn: "perm ! l < length (pk_position p)" if "l < length perm" for l
      using that okD(2) assms(1) nth_mem [OF that] by (auto simp: packer_ok_def)
    have pos: "pk_position p ! (perm ! k) = k" using assms(1) k' by (simp add: packer_ok_def perm_def)
    have ne: "perm ! a = perm ! b \<longleftrightarrow> a = b" if "a < length perm" "b < length perm" for a b
      using okD(1) that by (simp add: nth_eq_iff_index_eq)
    show ?thesis
      using i k' inn pos ne unfolding pos'_def perm'_def
      by (cases "k = i"; cases "k = i + 1") (auto simp: nth_list_update)
  qed
qed

lemma before_swap:
  assumes "j \<noteq> x \<or> i \<noteq> y" "j \<noteq> y \<or> i \<noteq> x" "i \<noteq> j"
  shows "before j i (as @ x # y # bs) \<longleftrightarrow> before j i (as @ y # x # bs)"
  using assms by (auto simp: before_append before_Cons)

lemma packer_swap_coherent:
  assumes "coherent p" "packer_swap i p = Inr (q, d)"
  shows "coherent q" "d = pk_quality q - pk_quality p"
proof -
  define perm where "perm = pk_permutation p"
  define x where "x = perm ! i"
  define y where "y = perm ! (i + 1)"
  define perm' where "perm' = perm[i := y, i + 1 := x]"
  define pos' where "pos' = (pk_position p)[x := i + 1, y := i]"
  let ?p = "p\<lparr>pk_permutation := perm', pk_position := pos'\<rparr>"
  have ok: "packer_ok p" using assms(1) by (simp add: coherent_def)
  have i: "i + 1 < sd_n (pk_static p)"
      and q: "(\<not> (pk_eligible p ! x \<and> pk_eligible p ! y) \<or> \<not> overlaps_idx (pk_static p) x y) \<and> q = ?p \<and> d = 0 \<or>
        q = recompute_all ?p \<and> d = pk_quality q - pk_quality p"
    using assms(2) by (auto simp: packer_swap_def Let_def perm_def x_def y_def perm'_def pos'_def split: if_splits)
  have "i + 1 < length perm" using i packer_okD(5) [OF ok] by (simp add: perm_def)
  from swap_list [OF this] have lists: "perm = take i perm @ x # y # drop (i + 2) perm"
      "perm' = take i perm @ y # x # drop (i + 2) perm"
    by (simp_all add: x_def y_def perm'_def)
  have xy: "x \<noteq> y" using packer_okD(1) [OF ok] lists(1) by (auto simp: perm_def dest: arg_cong [where f = distinct])
  note s = swap_positions [OF ok i, folded perm_def, folded x_def y_def, folded perm'_def pos'_def]
  from q show "coherent q" "d = pk_quality q - pk_quality p"
  proof -
    have quiet: "coherent ?p" if "\<not> (pk_eligible p ! x \<and> pk_eligible p ! y) \<or> \<not> overlaps_idx (pk_static p) x y"
    proof (rule coherent_reorder [OF assms(1) s(1)])
      fix a b assume ab: "overlaps_idx (pk_static p) a b" "pk_eligible p ! b" "pk_eligible p ! a"
      then have "b \<noteq> x \<or> a \<noteq> y" "b \<noteq> y \<or> a \<noteq> x" using that by (auto dest: overlaps_idx_sym)
      moreover have "before c c perm = False" "before c c perm' = False" for c
        using packer_okD(1) [OF ok] s(1) by (auto simp: before_def perm_def)
      ultimately show "before b a (pk_permutation p) \<longleftrightarrow> before b a perm'"
        unfolding perm_def [symmetric] by (cases "a = b") (simp, metis before_swap lists)
    qed (use s in \<open>simp_all add: perm_def\<close>)
    have "packer_ok ?p" using s by (intro packer_ok_reorder [OF ok]) (simp_all add: perm_def)
    with q quiet recompute_all_coherent show "coherent q" "d = pk_quality q - pk_quality p" by auto
  qed
qed

lemma move_lists:
  assumes "i < length perm" "j < length perm" "i \<noteq> j"
  obtains as bs cs where "i < j" "perm = as @ perm ! i # bs @ cs" "length as = i" "length bs = j - i"
      "move_entry i j perm = as @ bs @ perm ! i # cs"
    | as bs cs where "j < i" "perm = as @ bs @ perm ! i # cs" "length as = j" "length bs = i - j"
      "move_entry i j perm = as @ perm ! i # bs @ cs"
proof (cases "i < j")
  case True
  have "drop (i + 1) perm = take (j - i) (drop (i + 1) perm) @ drop (j - i) (drop (i + 1) perm)"
    by (rule append_take_drop_id [symmetric])
  also have "take (j - i) (drop (i + 1) perm) = drop (i + 1) (take (j + 1) perm)" using True by (simp add: take_drop)
  also have "drop (j - i) (drop (i + 1) perm) = drop (j + 1) perm" using True by simp
  finally have "drop (i + 1) perm = drop (i + 1) (take (j + 1) perm) @ drop (j + 1) perm" .
  moreover have "perm = take i perm @ perm ! i # drop (i + 1) perm" using assms(1) by (simp add: id_take_nth_drop)
  ultimately show ?thesis
    using that(1) [OF True, of "take i perm" "drop (i + 1) (take (j + 1) perm)" "drop (j + 1) perm"] assms True
    by (simp add: move_entry_def)
next
  case False
  then have ji: "j < i" using assms(3) by simp
  have "perm = take i perm @ perm ! i # drop (i + 1) perm" using assms(1) by (simp add: id_take_nth_drop)
  moreover have "take i perm = take j perm @ drop j (take i perm)"
    using ji by (metis append_take_drop_id less_imp_le min.absorb1 take_take)
  ultimately have "perm = take j perm @ drop j (take i perm) @ perm ! i # drop (i + 1) perm"
    by (metis append.assoc)
  then show ?thesis
    using that(2) [OF ji, of "take j perm" "drop j (take i perm)" "drop (i + 1) perm"] assms ji
    by (simp add: move_entry_def)
qed

lemma before_move:
  assumes "i \<noteq> x" "j \<noteq> x"
  shows "before j i (as @ x # bs @ cs) \<longleftrightarrow> before j i (as @ bs @ x # cs)"
  using assms by (auto simp: before_append before_Cons)

lemma move_nth:
  assumes "k < length as \<or> length as + length bs < k"
  shows "(as @ bs @ x # cs) ! k = (as @ x # bs @ cs) ! k"
proof (cases "k < length as")
  case False
  have "(as @ bs @ x # cs) ! k = ((as @ bs @ [x]) @ cs) ! k" "(as @ x # bs @ cs) ! k = ((as @ x # bs) @ cs) ! k"
    by simp_all
  with False assms show ?thesis by (simp only: nth_append) simp
qed (simp add: nth_append)

lemma move_entry_facts:
  assumes "i < length perm" "j < length perm" "i \<noteq> j"
  defines "perm' \<equiv> move_entry i j perm"
  shows "mset perm' = mset perm"
    and "k \<notin> {min i j..<max i j + 1} \<Longrightarrow> perm' ! k = perm ! k"
    and "a \<noteq> perm ! i \<Longrightarrow> b \<noteq> perm ! i \<Longrightarrow> before b a perm \<longleftrightarrow> before b a perm'"
proof -
  define x where "x = perm ! i"
  have *: "mset perm' = mset perm \<and> (k \<notin> {min i j..<max i j + 1} \<longrightarrow> perm' ! k = perm ! k) \<and>
      (a \<noteq> x \<longrightarrow> b \<noteq> x \<longrightarrow> before b a perm \<longleftrightarrow> before b a perm')"
    using assms(1-3)
  proof (cases rule: move_lists)
    case (1 as bs cs)
    then have p: "perm = as @ x # bs @ cs" and p': "perm' = as @ bs @ x # cs" by (simp_all add: x_def perm'_def)
    have "perm' ! k = perm ! k" if "k \<notin> {min i j..<max i j + 1}"
      unfolding p p' using that 1(1,3,4) by (intro move_nth) auto
    moreover have "mset perm' = mset perm" by (subst p) (simp add: p')
    ultimately show ?thesis using before_move [of a x b as bs cs] p p' by auto
  next
    case (2 as bs cs)
    then have p: "perm = as @ bs @ x # cs" and p': "perm' = as @ x # bs @ cs" by (simp_all add: x_def perm'_def)
    have "perm' ! k = perm ! k" if "k \<notin> {min i j..<max i j + 1}"
      unfolding p p' using that 2(1,3,4) by (intro move_nth [symmetric]) auto
    moreover have "mset perm' = mset perm" by (subst p) (simp add: p')
    ultimately show ?thesis using before_move [of a x b as bs cs] p p' by auto
  qed
  then show "mset perm' = mset perm" "k \<notin> {min i j..<max i j + 1} \<Longrightarrow> perm' ! k = perm ! k"
      "a \<noteq> perm ! i \<Longrightarrow> b \<noteq> perm ! i \<Longrightarrow> before b a perm \<longleftrightarrow> before b a perm'"
    by (auto simp: x_def)
qed

lemma move_in_permutation_ok:
  assumes "packer_ok p" "i < sd_n (pk_static p)" "j < sd_n (pk_static p)" "i \<noteq> j"
  defines "q \<equiv> move_in_permutation i j p"
  defines "perm \<equiv> pk_permutation p" and "perm' \<equiv> move_entry i j (pk_permutation p)"
  shows "q = p\<lparr>pk_permutation := perm', pk_position := pk_position q\<rparr>"
    and "distinct perm'" "set perm' = set perm" "length (pk_position q) = sd_n (pk_static p)"
    and "k < length perm' \<Longrightarrow> pk_position q ! (perm' ! k) = k"
    and "a \<noteq> perm ! i \<Longrightarrow> b \<noteq> perm ! i \<Longrightarrow> before b a perm \<longleftrightarrow> before b a perm'"
proof -
  note okD = packer_okD [OF assms(1), folded perm_def]
  have ij: "i < length perm" "j < length perm" using assms(2,3) okD(5) by simp_all
  note facts = move_entry_facts [OF ij assms(4)]
  have p': "perm' = move_entry i j perm" by (simp add: perm'_def perm_def)
  show "q = p\<lparr>pk_permutation := perm', pk_position := pk_position q\<rparr>"
    by (simp add: q_def perm'_def move_in_permutation_def Let_def)
  show d: "distinct perm'" and st: "set perm' = set perm"
    using okD(1) facts(1) unfolding p' by (metis mset_eq_imp_distinct_iff, metis mset_eq_setD)
  show "a \<noteq> perm ! i \<Longrightarrow> b \<noteq> perm ! i \<Longrightarrow> before b a perm \<longleftrightarrow> before b a perm'"
    unfolding p' by (rule facts(3))
  have len: "length perm' = length perm" using facts(1) unfolding p' by (metis mset_eq_length)
  have pq: "pk_position q = fold (\<lambda>k acc. acc[perm' ! k := k]) [min i j..<max i j + 1] (pk_position p)"
    by (simp add: q_def perm'_def move_in_permutation_def Let_def)
  have lp: "length (pk_position p) = sd_n (pk_static p)" using assms(1) by (simp add: packer_ok_def)
  have "\<forall>k\<in>set perm'. k < length (pk_position p)" using st okD(2) lp by auto
  note f = fold_positions [OF d this, of "[min i j..<max i j + 1]", folded pq]
  have rng: "\<forall>k\<in>set [min i j..<max i j + 1]. k < length perm'" using ij len by auto
  show "length (pk_position q) = sd_n (pk_static p)" using f [OF rng, of i] ij len lp by simp
  show "pk_position q ! (perm' ! k) = k" if k: "k < length perm'"
  proof (cases "k \<in> {min i j..<max i j + 1}")
    case True
    then show ?thesis using f [OF rng k] by simp
  next
    case False
    then have "k \<notin> set [min i j..<max i j + 1]" by (simp only: set_upt) blast
    with f [OF rng k] have "pk_position q ! (perm' ! k) = pk_position p ! (perm' ! k)" by (simp only: if_False)
    also have "\<dots> = pk_position p ! (perm ! k)" unfolding p' by (simp only: facts(2) [OF False])
    finally have "pk_position q ! (perm' ! k) = pk_position p ! (perm ! k)" .
    with assms(1) k len show ?thesis by (simp add: packer_ok_def perm_def)
  qed
qed

lemma packer_rotate_coherent:
  assumes "coherent p" "packer_rotate i j p = Inr (q, d)"
  shows "coherent q" "d = pk_quality q - pk_quality p"
proof -
  have ok: "packer_ok p" using assms(1) by (simp add: coherent_def)
  let ?x = "pk_permutation p ! i" and ?m = "move_in_permutation i j p"
  from assms(2) have ij: "i < sd_n (pk_static p)" "j < sd_n (pk_static p)"
      and cases: "i = j \<and> q = p \<and> d = 0 \<or>
        i \<noteq> j \<and> \<not> pk_eligible p ! ?x \<and> q = ?m \<and> d = 0 \<or>
        i \<noteq> j \<and> q = recompute_all ?m \<and> d = pk_quality q - pk_quality p"
    by (auto simp: packer_rotate_def Let_def split: if_splits)
  have quiet: "coherent ?m" if ne: "i \<noteq> j" and el: "\<not> pk_eligible p ! ?x"
  proof -
    note m = move_in_permutation_ok [OF ok ij ne]
    show ?thesis
    proof (subst m(1), rule coherent_reorder [OF assms(1) m(2-5)])
      fix a b assume "pk_eligible p ! b" "pk_eligible p ! a"
      with el have "a \<noteq> ?x" "b \<noteq> ?x" by auto
      then show "before b a (pk_permutation p) \<longleftrightarrow> before b a (move_entry i j (pk_permutation p))" by (rule m(6))
    qed
  qed
  have rebuild: "coherent (recompute_all ?m)" if ne: "i \<noteq> j"
  proof -
    note m = move_in_permutation_ok [OF ok ij ne]
    have "packer_ok ?m" by (subst m(1)) (rule packer_ok_reorder [OF ok m(2-5)])
    then show ?thesis by (rule recompute_all_coherent)
  qed
  have "pk_quality ?m = pk_quality p" by (simp add: move_in_permutation_def Let_def)
  with cases quiet rebuild assms(1) show "coherent q" "d = pk_quality q - pk_quality p" by auto
qed

lemma place_decision_sizes_cong:
  assumes "sizes ! idx = sizes' ! idx" "\<And>q. q \<in> set cand \<Longrightarrow> sizes ! q = sizes' ! q"
  shows "place_decision st sizes addr ps idx cand = place_decision st sizes' addr ps idx cand"
proof -
  have tops: "(\<lambda>q. the (addr q) + sizes ! q) ` S = (\<lambda>q. the (addr q) + sizes' ! q) ` S" if "S \<subseteq> set cand" for S
    using that assms(2) by (intro image_cong) auto
  have "others_top sizes addr cand q = others_top sizes' addr cand q" for q
    unfolding others_top_def fold_max_Max by (subst tops) auto
  then have "slot_free st sizes addr idx cand q = slot_free st sizes' addr idx cand q" for q
    using assms by (auto simp: slot_free_def packer_pair_def)
  moreover have "Max (insert m ((\<lambda>q. the (addr q) + sizes ! q) ` set cand)) =
      Max (insert m ((\<lambda>q. the (addr q) + sizes' ! q) ` set cand))" for m
    using tops [of "set cand"] by simp
  ultimately show ?thesis unfolding place_decision_def Let_def fold_max_Max assms(1) by presburger
qed

lemma placement_sizes_cong:
  assumes "distinct perm" "\<forall>i\<in>set perm. 0 \<le> sizes ! i" "\<forall>i\<in>set perm. 0 \<le> sizes' ! i"
    and "\<And>i. elig ! i \<Longrightarrow> sizes ! i = sizes' ! i"
  shows "placement st sizes elig perm = placement st sizes' elig perm"
proof
  fix i
  have "place_next st sizes elig A prior idx = place_next st sizes' elig A prior idx" for A prior idx
    using assms(4) by (auto simp: place_next_def Let_def earlier_overlaps_def intro!: place_decision_sizes_cong)
  then have eq: "placement st sizes elig perm (perm ! k) =
      place_next st sizes' elig (placement st sizes elig perm) (take k perm) (perm ! k)" if "k < length perm" for k
    using placement_eq [OF assms(1) that assms(2)] by simp
  show "placement st sizes elig perm i = placement st sizes' elig perm i"
  proof (cases "i \<in> set perm")
    case True
    then obtain k where "k < length perm" "perm ! k = i" by (auto simp: in_set_conv_nth)
    with placement_unique [OF assms(1,3) eq, of k] show ?thesis by simp
  qed (simp add: placement_outside)
qed

lemma packer_resize_coherent:
  assumes "coherent p" "packer_resize idx n p = Inr (q, d)"
  shows "coherent q" "d = pk_quality q - pk_quality p"
proof -
  let ?p = "p\<lparr>pk_sizes := (pk_sizes p)[idx := n]\<rparr>"
  have ok: "packer_ok p" using assms(1) by (simp add: coherent_def)
  from assms(2) have idx: "idx < sd_n (pk_static p)" "0 \<le> n"
      and cases: "q = p \<and> d = 0 \<or> \<not> pk_eligible p ! idx \<and> q = ?p \<and> d = 0 \<or>
        q = recompute_all ?p \<and> d = pk_quality q - pk_quality p"
    by (auto simp: packer_resize_def Let_def split: if_splits)
  have ok': "packer_ok ?p" using ok idx by (auto simp: packer_ok_def nth_list_update)
  have quiet: "coherent ?p" if "\<not> pk_eligible p ! idx"
  proof -
    have same: "pk_sizes ?p ! i = pk_sizes p ! i" if "pk_eligible p ! i" for i
      using that \<open>\<not> pk_eligible p ! idx\<close> by (cases "i = idx") auto
    have sp: "spec_of ?p = spec_of p"
      using packer_okD(1,3) [OF ok'] packer_okD(3) [OF ok] same
      unfolding spec_of_def by (simp add: placement_sizes_cong [of _ "(pk_sizes p)[idx := n]" "pk_sizes p"])
    have "pk_sizes ?p ! i = pk_sizes p ! i" if "spec_of p i \<noteq> None" for i
      using same spec_of_ineligible [OF ok] that by metis
    then have "placement_quality (pk_static p) (pk_sizes ?p) (spec_of p) =
        placement_quality (pk_static p) (pk_sizes p) (spec_of p)"
      unfolding placement_quality_def by (intro sum.cong) auto
    moreover have "packer_addresses ?p = packer_addresses p" by (simp add: packer_addresses_def)
    ultimately show ?thesis using assms(1) ok' sp by (simp add: coherent_def)
  qed
  with cases recompute_all_coherent [OF ok'] assms(1)
  show "coherent q" "d = pk_quality q - pk_quality p" by auto
qed

lemma packer_set_eligible_coherent:
  assumes "coherent p" "packer_set_eligible idx flag p = Inr (q, d)"
  shows "coherent q" "d = pk_quality q - pk_quality p"
proof -
  let ?p = "p\<lparr>pk_eligible := (pk_eligible p)[idx := flag]\<rparr>"
  from assms(2) have cases: "q = p \<and> d = 0 \<or> q = recompute_all ?p \<and> d = pk_quality q - pk_quality p"
    by (auto simp: packer_set_eligible_def Let_def split: if_splits)
  have "packer_ok ?p" using assms(1) by (simp add: coherent_def packer_ok_def)
  with cases recompute_all_coherent assms(1) show "coherent q" "d = pk_quality q - pk_quality p" by auto
qed

subsection \<open>The packer as a state machine\<close>

datatype packer_op =
    Swap nat
  | Rotate nat nat
  | Resize nat int
  | SetEligible nat bool

fun apply_op :: "packer_op \<Rightarrow> packer \<Rightarrow> (packer \<times> real) res" where
  "apply_op (Swap i) p = packer_swap i p"
| "apply_op (Rotate i j) p = packer_rotate i j p"
| "apply_op (Resize idx n) p = packer_resize idx n p"
| "apply_op (SetEligible idx flag) p = packer_set_eligible idx flag p"

lemma apply_op_coherent:
  assumes "coherent p" "apply_op oper p = Inr (q, d)"
  shows "coherent q" "d = pk_quality q - pk_quality p"
  using assms(2)
  by (cases oper; simp add: packer_swap_coherent [OF assms(1)] packer_rotate_coherent [OF assms(1)]
      packer_resize_coherent [OF assms(1)] packer_set_eligible_coherent [OF assms(1)])+

lemma apply_op_frame:
  assumes "apply_op oper p = Inr (q, d)"
  shows "pk_static q = pk_static p"
  using assms
  by (cases oper) (auto simp: packer_swap_def packer_rotate_def packer_resize_def packer_set_eligible_def
      move_in_permutation_def Let_def split: if_splits)

inductive packer_reachable :: "buffer list \<Rightarrow> int \<Rightarrow> int \<Rightarrow> packer \<Rightarrow> bool" for bs capacity alignment where
  constructed: "make_packer bs perm capacity alignment eligible = Inr p \<Longrightarrow>
     packer_reachable bs capacity alignment p"
| operated: "packer_reachable bs capacity alignment p \<Longrightarrow> apply_op oper p = Inr (q, d) \<Longrightarrow>
     packer_reachable bs capacity alignment q"

lemma packer_reachable_inv:
  assumes "packer_reachable bs capacity alignment p" "\<forall>b\<in>set bs. start_time b < end_time b"
  shows "coherent p \<and> pk_static p = make_static bs capacity alignment"
  using assms(1)
proof (induction rule: packer_reachable.induct)
  case (constructed perm eligible p)
  then show ?case using make_packer_coherent [OF _ assms(2)] make_packer_frame(1) by blast
next
  case (operated p oper q d)
  then show ?case using apply_op_coherent(1) apply_op_frame by metis
qed

lemma declared_parents_name:
  assumes "q \<in> set (declared_parents bs i)"
  shows "q < length bs" "b_name (bs ! q) \<in> set (in_place_parents (bs ! i))"
  using assms by (auto simp: declared_parents_def set_map_filter_iff find_Some_iff)

lemma partners_pair:
  assumes "q \<in> set (inplace_partners bs i)"
  shows "in_place_pair (bs ! q) (bs ! i)"
  using assms declared_parents_name by (fastforce simp: inplace_partners_def in_place_pair_def)

lemma overlaps_make_static:
  "i < length bs \<Longrightarrow> j < length bs \<Longrightarrow>
     overlaps_idx (make_static bs c a) i j \<longleftrightarrow> overlaps_in_time (bs ! i) (bs ! j)"
  by (simp add: overlaps_idx_def overlaps_in_time_def)

lemma coherent_layout:
  assumes "coherent p" "pk_static p = make_static bs capacity alignment"
    and "i < length bs" "packer_addresses p ! i = Some x"
  shows "0 \<le> x" "x + pk_sizes p ! i \<le> capacity" "alignment dvd x"
    and "j < length bs \<Longrightarrow> i \<noteq> j \<Longrightarrow> packer_addresses p ! j = Some y \<Longrightarrow>
           overlaps_in_time (bs ! i) (bs ! j) \<Longrightarrow>
           disjoint_iv x (x + pk_sizes p ! i) y (y + pk_sizes p ! j) \<or>
           (x = y \<and> in_place_pair (bs ! i) (bs ! j))"
proof -
  have ok: "packer_ok p" using assms(1) by (simp add: coherent_def)
  have addr: "packer_addresses p ! k = spec_of p k" if "k < length bs" for k
    using assms(1,2) that by (simp add: coherent_def)
  show "0 \<le> x" "x + pk_sizes p ! i \<le> capacity" "alignment dvd x"
    using spec_of_in_bounds [OF ok, of i x] assms(2-4) addr by simp_all
  assume j: "j < length bs" "i \<noteq> j" "packer_addresses p ! j = Some y" "overlaps_in_time (bs ! i) (bs ! j)"
  have "i \<in> set (pk_permutation p)" "j \<in> set (pk_permutation p)"
    using packer_okD(2) [OF ok] assms(2,3) j(1) by simp_all
  from placement_disjoint [OF packer_okD(1) [OF ok] packer_okD(3,4) [OF ok] this j(2), of "pk_eligible p" x y]
  have "disjoint_iv x (x + pk_sizes p ! i) y (y + pk_sizes p ! j) \<or>
      (x = y \<and> (i \<in> set (inplace_partners bs j) \<or> j \<in> set (inplace_partners bs i)))"
    using assms(2-4) j addr by (simp add: overlaps_make_static spec_of_def)
  then show "disjoint_iv x (x + pk_sizes p ! i) y (y + pk_sizes p ! j) \<or>
      (x = y \<and> in_place_pair (bs ! i) (bs ! j))"
    using partners_pair by (auto simp: in_place_pair_def)
qed

subsection \<open>An example\<close>

text \<open>Three buffers for the witnesses: a child that can take its parent's slot over, and a buffer
  live across both.\<close>

definition demo_triple :: "buffer list" where
  "demo_triple = [demo_buffer ''p'' 2 [0, 1] [], demo_buffer ''c'' 2 [1, 2] [''p''], demo_buffer ''d'' 3 [0, 2] []]"

lemma demo_triple_lifetimes: "\<forall>b\<in>set demo_triple. start_time b < end_time b"
  by code_simp

definition demo_packer :: "packer res" where
  "demo_packer = bindE (make_packer demo_triple [0, 2, 1] 8 1 None) (\<lambda>p.
     bindE (packer_swap 1 p) (\<lambda>(q, d). Inr q))"

lemma demo_packer_addresses:
  "map_sum id packer_addresses demo_packer = Inr [Some 0, Some 0, Some 2]"
  by code_simp

lemma demo_packer_reachable:
  assumes "demo_packer = Inr q"
  shows "packer_reachable demo_triple 8 1 q"
proof -
  from assms obtain p d where "make_packer demo_triple [0, 2, 1] 8 1 None = Inr p" "apply_op (Swap 1) p = Inr (q, d)"
    by (auto simp: demo_packer_def)
  then show ?thesis by (blast intro: packer_reachable.intros)
qed

end
