(* ===== verification/Packer_Machine.thy ===== *)
theory Packer_Machine
  imports Packer_Refinement "HOL-Library.Signed_Division" "HOL-Library.Monad_Syntax"
begin

text \<open>
  The permutation packer at its machine width.  \<open>Perm_Packer\<close> evaluates the addresses of
  \<open>torch_spyre/csrc/perm_layout_native.cpp\<close> over the integers; the code computes them in
  \<open>int64_t\<close>, where a signed addition that leaves the range has no defined result.  Here every
  \<open>int64_t\<close> addition of the placement is checked, \<open>None\<close> standing for the overflow, and
  the arguments that the bindings convert to \<open>int64_t\<close> are refused outside the range with a
  \<open>TypeError\<close>.

  Two facts tie the layers.  An operation that completes has computed exactly what the integer
  packer computes, so what is proved there is proved of the code.  And it completes whenever the
  capacity, the alignment and a size add up to less than \<open>2 ^ 63\<close>: the tops the packer reads are
  at most the capacity, so no sum it forms is larger.
\<close>

subsection \<open>64-bit arithmetic\<close>

definition add64 :: "int \<Rightarrow> int \<Rightarrow> int option" where
  "add64 a b = (if int64_ok (a + b) then Some (a + b) else None)"

text \<open>\<open>((addr + a - 1) / a) * a\<close>, with the division that rounds towards zero.\<close>

definition align_up64 :: "static_data \<Rightarrow> int \<Rightarrow> int option" where
  "align_up64 st addr = do {
     let a = sd_alignment st;
     s \<leftarrow> add64 addr a;
     t \<leftarrow> add64 s (-1);
     Some ((t sdiv a) * a)
   }"

fun highest_top64 :: "int list \<Rightarrow> (nat \<Rightarrow> int option) \<Rightarrow> nat list \<Rightarrow> int \<Rightarrow> int option" where
  "highest_top64 sizes addr [] m = Some m"
| "highest_top64 sizes addr (q # qs) m = do {
     t \<leftarrow> add64 (the (addr q)) (sizes ! q);
     highest_top64 sizes addr qs (if t > m then t else m)
   }"

subsection \<open>Placing one buffer\<close>

definition fit64 :: "static_data \<Rightarrow> int list \<Rightarrow> nat \<Rightarrow> int \<Rightarrow> int option option" where
  "fit64 st sizes idx a = do {
     t \<leftarrow> add64 a (sizes ! idx);
     Some (if t > sd_capacity st then None else Some a)
   }"

text \<open>The loop over the partners: the first whose slot the other candidates leave free.\<close>

fun partner_slot64 ::
  "static_data \<Rightarrow> int list \<Rightarrow> (nat \<Rightarrow> int option) \<Rightarrow> nat \<Rightarrow> nat list \<Rightarrow> nat list \<Rightarrow> nat option option" where
  "partner_slot64 st sizes addr idx cand [] = Some None"
| "partner_slot64 st sizes addr idx cand (partner # ps) =
     (if partner \<notin> set cand then partner_slot64 st sizes addr idx cand ps
      else let (parent, child) = packer_pair st idx partner
           in if sizes ! child > sizes ! parent then partner_slot64 st sizes addr idx cand ps
              else do {
                others \<leftarrow> highest_top64 sizes addr (filter (\<lambda>q. q \<noteq> partner) cand) 0;
                if others \<le> the (addr partner) then Some (Some partner)
                else partner_slot64 st sizes addr idx cand ps
              })"

definition place_decision64 ::
  "static_data \<Rightarrow> int list \<Rightarrow> (nat \<Rightarrow> int option) \<Rightarrow> nat list \<Rightarrow> nat \<Rightarrow> nat list \<Rightarrow> int option option" where
  "place_decision64 st sizes addr partners idx cand =
     (if cand = [] then Some (if sizes ! idx > sd_capacity st then None else Some 0)
      else if \<exists>p\<in>set cand. addr p = None then Some None
      else do {
        max_top \<leftarrow> highest_top64 sizes addr cand (- (2 ^ 63));
        slot \<leftarrow> partner_slot64 st sizes addr idx cand partners;
        (case slot of
           Some partner \<Rightarrow> fit64 st sizes idx (the (addr partner))
         | None \<Rightarrow> do { aligned \<leftarrow> align_up64 st max_top; fit64 st sizes idx aligned })
      })"

subsection \<open>Rebuilding the layout\<close>

definition decide_address64 :: "packer \<Rightarrow> nat \<Rightarrow> nat \<Rightarrow> recompute \<Rightarrow> int option option" where
  "decide_address64 p pos idx rc =
     (let st = pk_static p; (lo, hi) = sd_buf_intervals st ! idx
      in if sd_partners st ! idx = []
         then (case interval_floor rc [lo..<hi] 0 of
                 None \<Rightarrow> Some None
               | Some max_top \<Rightarrow> do { aligned \<leftarrow> align_up64 st max_top; fit64 st (pk_sizes p) idx aligned })
         else place_decision64 st (pk_sizes p) (addr_of rc) (sd_partners st ! idx) idx
                (gather_candidates p idx pos))"

definition recompute_one64 :: "packer \<Rightarrow> nat \<Rightarrow> nat \<Rightarrow> recompute \<Rightarrow> recompute option" where
  "recompute_one64 p pos idx rc =
     (let st = pk_static p
      in if \<not> pk_eligible p ! idx
         then Some (commit_intervals st idx False (-1) (rc\<lparr>rc_allocated := (rc_allocated rc)[idx := False]\<rparr>))
         else do {
           r \<leftarrow> decide_address64 p pos idx rc;
           (case r of
              Some a \<Rightarrow> do {
                own_top \<leftarrow> add64 a (pk_sizes p ! idx);
                Some (commit_intervals st idx False own_top
                  (rc\<lparr>rc_allocated := (rc_allocated rc)[idx := True],
                      rc_addr := (rc_addr rc)[idx := a],
                      rc_quality := rc_quality rc + sd_weight st ! idx * of_int (pk_sizes p ! idx),
                      rc_count := rc_count rc + 1\<rparr>)) }
            | None \<Rightarrow>
                Some (commit_intervals st idx True (-1)
                  (rc\<lparr>rc_allocated := (rc_allocated rc)[idx := False],
                      rc_addr := (rc_addr rc)[idx := 0]\<rparr>)))
         })"

fun recompute_loop64 :: "packer \<Rightarrow> nat \<Rightarrow> nat list \<Rightarrow> recompute \<Rightarrow> recompute option" where
  "recompute_loop64 p pos [] rc = Some rc"
| "recompute_loop64 p pos (idx # rest) rc =
     (if rc_not_done rc = 0
      then Some (rc\<lparr>rc_allocated := mark_evicted (idx # rest) (rc_allocated rc)\<rparr>)
      else do { rc' \<leftarrow> recompute_one64 p pos idx rc; recompute_loop64 p (pos + 1) rest rc' })"

definition recompute_all64 :: "packer \<Rightarrow> packer option" where
  "recompute_all64 p = do {
     rc \<leftarrow> recompute_loop64 p 0 (pk_permutation p) (start_recompute p);
     Some (p\<lparr>pk_addr := rc_addr rc, pk_allocated := rc_allocated rc,
             pk_quality := rc_quality rc, pk_count := rc_count rc\<rparr>)
   }"

subsection \<open>Construction and operations\<close>

definition make_packer64 ::
  "buffer list \<Rightarrow> nat list \<Rightarrow> int \<Rightarrow> int \<Rightarrow> bool list option \<Rightarrow> packer res option" where
  "make_packer64 bs perm capacity alignment eligible =
     (if \<not> (int64_ok capacity \<and> int64_ok alignment) then Some (Inl TypeError)
      else case initial_packer bs perm capacity alignment eligible of
             Inl e \<Rightarrow> Some (Inl e)
           | Inr p \<Rightarrow> do { q \<leftarrow> recompute_all64 p; Some (Inr q) })"

text \<open>A rebuild and the change of quality it returns.\<close>

definition rebuild64 :: "packer \<Rightarrow> packer \<Rightarrow> (packer \<times> real) res option" where
  "rebuild64 p p' = do { q \<leftarrow> recompute_all64 p'; Some (Inr (q, pk_quality q - pk_quality p)) }"

definition packer_swap64 :: "nat \<Rightarrow> packer \<Rightarrow> (packer \<times> real) res option" where
  "packer_swap64 i p =
     (if \<not> i + 1 < sd_n (pk_static p) then Some (Inl ValueError)
      else let x = pk_permutation p ! i; y = pk_permutation p ! (i + 1);
               p' = p\<lparr>pk_permutation := (pk_permutation p)[i := y, i + 1 := x],
                      pk_position := (pk_position p)[x := i + 1, y := i]\<rparr>
           in if \<not> (pk_eligible p ! x \<and> pk_eligible p ! y) then Some (Inr (p', 0))
              else if \<not> overlaps_idx (pk_static p) x y then Some (Inr (p', 0))
              else rebuild64 p p')"

definition packer_rotate64 :: "nat \<Rightarrow> nat \<Rightarrow> packer \<Rightarrow> (packer \<times> real) res option" where
  "packer_rotate64 i j p =
     (if \<not> (i < sd_n (pk_static p) \<and> j < sd_n (pk_static p)) then Some (Inl ValueError)
      else if i = j then Some (Inr (p, 0))
      else if \<not> pk_eligible p ! (pk_permutation p ! i) then Some (Inr (move_in_permutation i j p, 0))
      else rebuild64 p (move_in_permutation i j p))"

definition packer_resize64 :: "nat \<Rightarrow> int \<Rightarrow> packer \<Rightarrow> (packer \<times> real) res option" where
  "packer_resize64 idx new_size p =
     (if \<not> int64_ok new_size then Some (Inl TypeError)
      else if \<not> idx < sd_n (pk_static p) then Some (Inl ValueError)
      else if new_size < 0 then Some (Inl ValueError)
      else if pk_sizes p ! idx = new_size then Some (Inr (p, 0))
      else let p' = p\<lparr>pk_sizes := (pk_sizes p)[idx := new_size]\<rparr>
           in if \<not> pk_eligible p ! idx then Some (Inr (p', 0)) else rebuild64 p p')"

definition packer_set_eligible64 :: "nat \<Rightarrow> bool \<Rightarrow> packer \<Rightarrow> (packer \<times> real) res option" where
  "packer_set_eligible64 idx flag p =
     (if \<not> idx < sd_n (pk_static p) then Some (Inl ValueError)
      else if pk_eligible p ! idx = flag then Some (Inr (p, 0))
      else rebuild64 p (p\<lparr>pk_eligible := (pk_eligible p)[idx := flag]\<rparr>))"

fun apply_op64 :: "packer_op \<Rightarrow> packer \<Rightarrow> (packer \<times> real) res option" where
  "apply_op64 (Swap i) p = packer_swap64 i p"
| "apply_op64 (Rotate i j) p = packer_rotate64 i j p"
| "apply_op64 (Resize idx n) p = packer_resize64 idx n p"
| "apply_op64 (SetEligible idx flag) p = packer_set_eligible64 idx flag p"

text \<open>The packers the code can hold: constructed and operated without an overflow.\<close>

inductive machine_reachable :: "buffer list \<Rightarrow> int \<Rightarrow> int \<Rightarrow> packer \<Rightarrow> bool" for bs capacity alignment where
  constructed64: "make_packer64 bs perm capacity alignment eligible = Some (Inr p) \<Longrightarrow>
     machine_reachable bs capacity alignment p"
| operated64: "machine_reachable bs capacity alignment p \<Longrightarrow> apply_op64 oper p = Some (Inr (q, d)) \<Longrightarrow>
     machine_reachable bs capacity alignment q"

text \<open>The bound under which nothing overflows, for one size and for the sizes an operation leaves.\<close>

definition fits64 :: "static_data \<Rightarrow> int \<Rightarrow> bool" where
  "fits64 st s \<longleftrightarrow> max 0 (sd_capacity st) + sd_alignment st + s < 2 ^ 63"

definition sizes_fit64 :: "packer \<Rightarrow> bool" where
  "sizes_fit64 p \<longleftrightarrow> list_all (fits64 (pk_static p)) (pk_sizes p)"

fun op_fits64 :: "static_data \<Rightarrow> packer_op \<Rightarrow> bool" where
  "op_fits64 st (Resize idx n) = fits64 st n"
| "op_fits64 st _ = True"


subsection \<open>What completes is the integer result\<close>

lemma add64_eq_Some: "add64 a b = Some c \<longleftrightarrow> int64_ok (a + b) \<and> c = a + b"
  by (auto simp: add64_def)

lemma align_up64_exact:
  assumes "align_up64 st addr = Some r" "0 \<le> addr" "0 < sd_alignment st"
  shows "r = align_up st addr"
proof -
  have "sgn t * (t div sd_alignment st) = t div sd_alignment st" if "0 \<le> t" for t
    using that by (cases "t = 0") simp_all
  with assms show ?thesis
    by (simp add: align_up64_def Let_def bind_eq_Some_conv add64_eq_Some align_up_def
        round_up_to_alignment_def signed_divide_int_def)
qed

lemma align_up64_defined:
  assumes "0 \<le> addr" "0 < sd_alignment st" "addr + sd_alignment st < 2 ^ 63"
  shows "align_up64 st addr \<noteq> None"
  using assms by (simp add: align_up64_def Let_def add64_def int64_ok_def)

lemma align_up_below:
  assumes "0 < sd_alignment st"
  shows "addr \<le> align_up st addr" "align_up st addr < addr + sd_alignment st"
  using round_up_ge [OF assms] round_up_lt [OF assms] by (simp_all add: align_up_def)

lemma highest_top64_exact:
  "highest_top64 sizes addr qs m = Some r \<Longrightarrow> r = fold (\<lambda>q m. max m (the (addr q) + sizes ! q)) qs m"
proof (induction qs arbitrary: m)
  case (Cons q qs)
  have "(if t > m then t else m) = max m t" for t :: int by simp
  with Cons show ?case by (simp add: bind_eq_Some_conv add64_eq_Some)
qed simp

lemma highest_top64_defined:
  "\<forall>q\<in>set qs. int64_ok (the (addr q) + sizes ! q) \<Longrightarrow> highest_top64 sizes addr qs m \<noteq> None"
  by (induction qs arbitrary: m) (simp_all add: add64_def)

lemma partner_slot64_exact:
  "partner_slot64 st sizes addr idx cand ps = Some r \<Longrightarrow> r = find (slot_free st sizes addr idx cand) ps"
proof (induction ps)
  case (Cons q ps)
  obtain parent child where pr: "packer_pair st idx q = (parent, child)" by fastforce
  show ?case
  proof (cases "q \<in> set cand \<and> sizes ! child \<le> sizes ! parent")
    case True
    with Cons.prems pr obtain others where o: "highest_top64 sizes addr (filter (\<lambda>r. r \<noteq> q) cand) 0 = Some others"
        "(if others \<le> the (addr q) then Some (Some q) else partner_slot64 st sizes addr idx cand ps) = Some r"
      by (auto simp: bind_eq_Some_conv)
    then have "others = others_top sizes addr cand q"
      using highest_top64_exact [OF o(1)] by (simp add: others_top_def)
    with o(2) True pr Cons.IH show ?thesis by (auto simp: slot_free_def split: if_splits)
  next
    case False
    then have "partner_slot64 st sizes addr idx cand ps = Some r"
      using Cons.prems pr by (cases "q \<in> set cand") (simp_all add: not_le)
    moreover have "\<not> slot_free st sizes addr idx cand q" using False pr by (auto simp: slot_free_def)
    ultimately show ?thesis using Cons.IH by simp
  qed
qed simp

lemma partner_slot64_defined:
  assumes "\<forall>q\<in>set cand. int64_ok (the (addr q) + sizes ! q)"
  shows "partner_slot64 st sizes addr idx cand ps \<noteq> None"
proof (induction ps)
  case (Cons q ps)
  have "highest_top64 sizes addr (filter (\<lambda>r. r \<noteq> q) cand) 0 \<noteq> None"
    using assms by (intro highest_top64_defined) simp
  with Cons show ?case by (auto split: prod.split)
qed simp

lemma fit64_exact: "fit64 st sizes idx a = Some r \<Longrightarrow> r = (if a + sizes ! idx > sd_capacity st then None else Some a)"
  by (auto simp: fit64_def bind_eq_Some_conv add64_eq_Some)

lemma fit64_defined: "int64_ok (a + sizes ! idx) \<Longrightarrow> fit64 st sizes idx a \<noteq> None"
  by (simp add: fit64_def add64_def)

text \<open>The candidates lie inside the capacity.\<close>

definition cand_inside :: "static_data \<Rightarrow> int list \<Rightarrow> (nat \<Rightarrow> int option) \<Rightarrow> nat list \<Rightarrow> bool" where
  "cand_inside st sizes addr cand \<longleftrightarrow>
     (\<forall>q\<in>set cand. 0 \<le> sizes ! q \<and> (\<forall>a. addr q = Some a \<longrightarrow> 0 \<le> a \<and> a + sizes ! q \<le> sd_capacity st))"

lemma highest_top_inside:
  assumes "cand_inside st sizes addr cand" "\<forall>q\<in>set cand. addr q \<noteq> None" "cand \<noteq> []"
  shows "0 \<le> fold (\<lambda>q m. max m (the (addr q) + sizes ! q)) cand (- (2 ^ 63))"
    and "fold (\<lambda>q m. max m (the (addr q) + sizes ! q)) cand (- (2 ^ 63)) \<le> sd_capacity st"
proof -
  have top_in: "0 \<le> the (addr q) + sizes ! q \<and> the (addr q) + sizes ! q \<le> sd_capacity st" if "q \<in> set cand" for q
    using assms(1,2) that by (force simp: cand_inside_def)
  obtain q where q: "q \<in> set cand" using assms(3) by (cases cand) auto
  show "0 \<le> fold (\<lambda>q m. max m (the (addr q) + sizes ! q)) cand (- (2 ^ 63))"
    unfolding fold_max_Max using q top_in [OF q] by (intro order_trans [OF _ Max_ge]) auto
  have "0 \<le> sd_capacity st" using top_in [OF q] by linarith
  then show "fold (\<lambda>q m. max m (the (addr q) + sizes ! q)) cand (- (2 ^ 63)) \<le> sd_capacity st"
    unfolding fold_max_Max using top_in by (intro Max.boundedI) auto
qed

lemma place_decision64_exact:
  assumes "place_decision64 st sizes addr partners idx cand = Some r"
    and "cand_inside st sizes addr cand" "0 < sd_alignment st"
  shows "r = place_decision st sizes addr partners idx cand"
proof (cases "cand = [] \<or> (\<exists>q\<in>set cand. addr q = None)")
  case True
  with assms(1) show ?thesis by (auto simp: place_decision64_def place_decision_def Let_def split: if_splits)
next
  case False
  let ?m = "fold (\<lambda>q m. max m (the (addr q) + sizes ! q)) cand (- (2 ^ 63))"
  let ?slot = "find (slot_free st sizes addr idx cand) partners"
  have ne: "(cand = []) = False" "(\<exists>q\<in>set cand. addr q = None) = False" using False by blast+
  from assms(1) obtain m slot where
    m: "highest_top64 sizes addr cand (- (2 ^ 63)) = Some m" "partner_slot64 st sizes addr idx cand partners = Some slot"
    and r: "(case slot of Some q \<Rightarrow> fit64 st sizes idx (the (addr q))
       | None \<Rightarrow> Option.bind (align_up64 st m) (fit64 st sizes idx)) = Some r"
    unfolding place_decision64_def ne if_False bind_eq_Some_conv by blast
  have eq: "m = ?m" "slot = ?slot" using highest_top64_exact [OF m(1)] partner_slot64_exact [OF m(2)] by simp_all
  have "0 \<le> ?m" using highest_top_inside [OF assms(2)] False by metis
  with r eq assms(3) have "r = (case ?slot of
        Some q \<Rightarrow> if the (addr q) + sizes ! idx > sd_capacity st then None else Some (the (addr q))
      | None \<Rightarrow> if align_up st ?m + sizes ! idx > sd_capacity st then None else Some (align_up st ?m))"
    by (auto simp: bind_eq_Some_conv dest!: fit64_exact align_up64_exact split: option.splits)
  with False show ?thesis by (auto simp: place_decision_def Let_def split: option.split)
qed

lemma place_decision64_defined:
  assumes "cand_inside st sizes addr cand" "0 < sd_alignment st" "0 \<le> sizes ! idx" "fits64 st (sizes ! idx)"
  shows "place_decision64 st sizes addr partners idx cand \<noteq> None"
proof (cases "cand = [] \<or> (\<exists>q\<in>set cand. addr q = None)")
  case False
  let ?m = "fold (\<lambda>q m. max m (the (addr q) + sizes ! q)) cand (- (2 ^ 63))"
  have inside: "0 \<le> the (addr q) \<and> 0 \<le> sizes ! q \<and> the (addr q) + sizes ! q \<le> sd_capacity st" if "q \<in> set cand" for q
    using assms(1) False that by (force simp: cand_inside_def)
  have ok: "int64_ok v" if "0 \<le> v" "v \<le> sd_capacity st + sd_alignment st + sizes ! idx" for v
    using assms(4) that by (auto simp: int64_ok_def fits64_def)
  have "\<forall>q\<in>set cand. int64_ok (the (addr q) + sizes ! q)"
    using inside ok assms(2,3) by (smt (verit))
  note defd = highest_top64_defined [OF this] partner_slot64_defined [OF this]
  then obtain m slot where m: "highest_top64 sizes addr cand (- (2 ^ 63)) = Some m"
      "partner_slot64 st sizes addr idx cand partners = Some slot" by (meson not_None_eq)
  have eq: "m = ?m" "slot = find (slot_free st sizes addr idx cand) partners"
    using highest_top64_exact [OF m(1)] partner_slot64_exact [OF m(2)] by simp_all
  have mb: "0 \<le> ?m" "?m \<le> sd_capacity st" using highest_top_inside [OF assms(1)] False by metis+
  have al: "align_up64 st m = Some (align_up st ?m)"
  proof -
    have "m + sd_alignment st < 2 ^ 63" using mb assms(3,4) by (simp add: eq fits64_def)
    with align_up64_defined [of m st] align_up64_exact [of st m] mb assms(2) eq show ?thesis by auto
  qed
  have "fit64 st sizes idx (align_up st ?m) \<noteq> None"
    using align_up_below [OF assms(2), of ?m] mb assms(3) by (intro fit64_defined ok) linarith+
  moreover have "fit64 st sizes idx (the (addr q)) \<noteq> None" if "slot = Some q" for q
  proof -
    have "q \<in> set cand" using that eq by (auto simp: find_Some_iff slot_free_def)
    with inside [OF this] assms(2,3) show ?thesis by (intro fit64_defined ok) linarith+
  qed
  ultimately show ?thesis using False m al by (auto simp: place_decision64_def split: option.split)
qed (auto simp: place_decision64_def)

subsection \<open>The loop computes the integer layout\<close>

lemma candidates_inside:
  assumes "packer_ok p" "pk_permutation p = prior @ idx # rest" "agg_ok p prior rc"
  shows "cand_inside (pk_static p) (pk_sizes p) (addr_of rc) (gather_candidates p idx (length prior))"
  unfolding cand_inside_def
proof
  fix q assume q: "q \<in> set (gather_candidates p idx (length prior))"
  have idx: "idx < sd_n (pk_static p)" using packer_okD(2) [OF assms(1)] assms(2) by auto
  then have n: "q < sd_n (pk_static p)"
    using q packer_okD(6) [OF assms(1)] by (auto simp: gather_candidates_def static_ok_def)
  then have "q \<in> set prior" using q position_prior [OF assms(1,2)] by (simp add: gather_candidates_def)
  then have "addr_of rc q = spec_of p q" using assms(3) by (simp add: agg_ok_def Let_def)
  moreover have "0 \<le> pk_sizes p ! q" using assms(1) n by (simp add: packer_ok_def)
  ultimately show "0 \<le> pk_sizes p ! q \<and>
      (\<forall>a. addr_of rc q = Some a \<longrightarrow> 0 \<le> a \<and> a + pk_sizes p ! q \<le> sd_capacity (pk_static p))"
    using spec_of_in_bounds [OF assms(1) _ n] by simp
qed

lemma interval_floor_inside:
  assumes "packer_ok p" "pk_permutation p = prior @ idx # rest" "agg_ok p prior rc"
    and "interval_floor rc [fst (sd_buf_intervals (pk_static p) ! idx)..<snd (sd_buf_intervals (pk_static p) ! idx)] 0 = Some m"
  shows "0 \<le> m" "m \<le> max 0 (sd_capacity (pk_static p))"
proof -
  let ?st = "pk_static p"
  let ?iv = "sd_buf_intervals ?st ! idx"
  have m: "m = Max (insert 0 ((\<lambda>t. rc_max_top_at rc ! t) ` set [fst ?iv..<snd ?iv]))"
    using assms(4) by (simp add: interval_floor_eq split: if_splits)
  then show "0 \<le> m" by (simp del: set_upt)
  have idx: "idx < sd_n ?st" and prior: "set prior \<subseteq> {..<sd_n ?st}"
    using packer_okD(2) [OF assms(1)] assms(2) by auto
  have "rc_max_top_at rc ! t \<le> max 0 (sd_capacity ?st)" if t: "t \<in> set [fst ?iv..<snd ?iv]" for t
  proof -
    have "t < sd_num_intervals ?st" using t packer_okD(6) [OF assms(1)] idx by (auto simp: static_ok_def)
    then have "rc_max_top_at rc ! t = Max (insert 0 ((\<lambda>q. the (spec_of p q) + pk_sizes p ! q) `
        {q \<in> set prior. spec_of p q \<noteq> None \<and> covers ?st q t}))"
      using assms(3) by (simp add: agg_ok_def Let_def cell_def summary_def)
    also have "\<dots> \<le> max 0 (sd_capacity ?st)"
      using spec_of_in_bounds(2) [OF assms(1)] prior by (intro Max.boundedI) (auto simp: le_max_iff_disj)
    finally show ?thesis .
  qed
  then show "m \<le> max 0 (sd_capacity ?st)" unfolding m by (intro Max.boundedI) auto
qed

lemma decide_address64_exact:
  assumes "packer_ok p" "pk_permutation p = prior @ idx # rest" "agg_ok p prior rc"
    and "decide_address64 p (length prior) idx rc = Some r"
  shows "r = decide_address p (length prior) idx rc"
proof (cases "sd_partners (pk_static p) ! idx = []")
  case True
  let ?iv = "sd_buf_intervals (pk_static p) ! idx"
  show ?thesis
  proof (cases "interval_floor rc [fst ?iv..<snd ?iv] 0")
    case None
    with True assms(4) show ?thesis by (simp add: decide_address64_def decide_address_def Let_def case_prod_beta)
  next
    case (Some m)
    note inside = interval_floor_inside [OF assms(1-3) Some]
    from Some True assms(4) obtain a where "align_up64 (pk_static p) m = Some a"
        "fit64 (pk_static p) (pk_sizes p) idx a = Some r"
      by (auto simp: decide_address64_def Let_def case_prod_beta bind_eq_Some_conv)
    with align_up64_exact [OF _ inside(1) packer_okD(4) [OF assms(1)]] fit64_exact
    show ?thesis using Some True by (simp add: decide_address_def Let_def case_prod_beta)
  qed
next
  case False
  with assms(4) place_decision64_exact [OF _ candidates_inside [OF assms(1-3)] packer_okD(4) [OF assms(1)]]
  show ?thesis by (simp add: decide_address64_def decide_address_def Let_def case_prod_beta)
qed

lemma decide_address64_defined:
  assumes "packer_ok p" "pk_permutation p = prior @ idx # rest" "agg_ok p prior rc" "sizes_fit64 p"
  shows "decide_address64 p (length prior) idx rc \<noteq> None"
proof -
  let ?st = "pk_static p"
  let ?iv = "sd_buf_intervals ?st ! idx"
  have al: "0 < sd_alignment ?st" by (rule packer_okD(4) [OF assms(1)])
  have "idx < sd_n ?st" using packer_okD(2) [OF assms(1)] assms(2) by auto
  then have sz: "0 \<le> pk_sizes p ! idx" "fits64 ?st (pk_sizes p ! idx)"
    using assms(1,4) by (simp_all add: packer_ok_def sizes_fit64_def list_all_length)
  show ?thesis
  proof (cases "sd_partners ?st ! idx = []")
    case False
    with place_decision64_defined [OF candidates_inside [OF assms(1-3)] al sz]
    show ?thesis by (simp add: decide_address64_def Let_def case_prod_beta)
  next
    case True
    show ?thesis
    proof (cases "interval_floor rc [fst ?iv..<snd ?iv] 0")
      case None
      with True show ?thesis by (simp add: decide_address64_def Let_def case_prod_beta)
    next
      case (Some m)
      note inside = interval_floor_inside [OF assms(1-3) Some]
      have "m + sd_alignment ?st < 2 ^ 63" using inside sz by (simp add: fits64_def)
      with align_up64_defined [OF inside(1) al] align_up64_exact [OF _ inside(1) al]
      have a: "align_up64 ?st m = Some (align_up ?st m)" by auto
      have "int64_ok (align_up ?st m + pk_sizes p ! idx)"
        using align_up_below [OF al, of m] inside sz by (simp add: int64_ok_def fits64_def)
      with fit64_defined a Some True show ?thesis by (simp add: decide_address64_def Let_def case_prod_beta)
    qed
  qed
qed

lemma recompute_one64_exact:
  assumes "packer_ok p" "pk_permutation p = prior @ idx # rest" "agg_ok p prior rc"
    and "recompute_one64 p (length prior) idx rc = Some rc'"
  shows "rc' = recompute_one p (length prior) idx rc"
  using assms(4) decide_address64_exact [OF assms(1-3)]
  by (auto simp: recompute_one64_def recompute_one_def Let_def bind_eq_Some_conv add64_eq_Some
      split: if_splits option.splits)

lemma recompute_one64_defined:
  assumes "packer_ok p" "pk_permutation p = prior @ idx # rest" "agg_ok p prior rc" "sizes_fit64 p"
  shows "recompute_one64 p (length prior) idx rc \<noteq> None"
proof (cases "pk_eligible p ! idx")
  case True
  from decide_address64_defined [OF assms] obtain r where r: "decide_address64 p (length prior) idx rc = Some r" by blast
  then have "r = spec_of p idx"
    using decide_address64_exact [OF assms(1-3) r] decide_address_correct [OF assms(1-3) True] by simp
  moreover have idx: "idx < sd_n (pk_static p)" using packer_okD(2) [OF assms(1)] assms(2) by auto
  then have "0 \<le> pk_sizes p ! idx" "fits64 (pk_static p) (pk_sizes p ! idx)"
    using assms(1,4) by (simp_all add: packer_ok_def sizes_fit64_def list_all_length)
  moreover have "0 < sd_alignment (pk_static p)" by (rule packer_okD(4) [OF assms(1)])
  ultimately have "int64_ok (a + pk_sizes p ! idx)" if "r = Some a" for a
    using spec_of_in_bounds [OF assms(1) _ idx, of a] that by (simp add: int64_ok_def fits64_def)
  with r True show ?thesis by (auto simp: recompute_one64_def Let_def add64_def split: option.split)
qed (simp add: recompute_one64_def Let_def)

lemma recompute_loop64:
  assumes "packer_ok p" "pk_permutation p = prior @ rest" "agg_ok p prior rc"
  shows "recompute_loop64 p (length prior) rest rc = Some rc' \<Longrightarrow> rc' = recompute_loop p (length prior) rest rc"
    and "sizes_fit64 p \<Longrightarrow> recompute_loop64 p (length prior) rest rc \<noteq> None"
  using assms(2,3)
proof (induction rest arbitrary: prior rc)
  case (Cons idx rest)
  { case 1
    note exact = recompute_one64_exact [OF assms(1) 1(2,3)]
    note IH = Cons.IH(1) [of "prior @ [idx]", OF _ _ recompute_one_agg [OF assms(1) 1(2,3)]]
    show ?case
    proof (cases "rc_not_done rc = 0")
      case False
      with 1(1) obtain rc1 where rc1: "recompute_one64 p (length prior) idx rc = Some rc1"
          "recompute_loop64 p (length prior + 1) rest rc1 = Some rc'"
        by (auto simp: bind_eq_Some_conv)
      with exact [OF rc1(1)] IH 1(2) False show ?thesis by simp
    qed (use 1(1) in simp) }
  { case 2
    note IH = Cons.IH(2) [of "prior @ [idx]", OF 2(1) _ recompute_one_agg [OF assms(1) 2(2,3)]]
    from recompute_one64_defined [OF assms(1) 2(2,3,1)] obtain rc1
      where rc1: "recompute_one64 p (length prior) idx rc = Some rc1" by blast
    with recompute_one64_exact [OF assms(1) 2(2,3) rc1] IH 2(2) show ?case by simp }
qed simp_all

lemma recompute_all64:
  assumes "packer_ok p"
  shows "recompute_all64 p = Some q \<Longrightarrow> q = recompute_all p"
    and "sizes_fit64 p \<Longrightarrow> recompute_all64 p \<noteq> None"
proof -
  have "pk_permutation p = [] @ pk_permutation p" by simp
  note loop = recompute_loop64 [OF assms this start_recompute_agg [OF assms], unfolded list.size(3)]
  show "recompute_all64 p = Some q \<Longrightarrow> q = recompute_all p"
    using loop(1) by (auto simp: recompute_all64_def recompute_all_def Let_def bind_eq_Some_conv)
  show "sizes_fit64 p \<Longrightarrow> recompute_all64 p \<noteq> None"
    using loop(2) by (auto simp: recompute_all64_def)
qed

subsection \<open>The operations refine the integer packer\<close>

lemma rebuild64:
  assumes "packer_ok p'"
  shows "rebuild64 p p' = Some r \<Longrightarrow> r = Inr (recompute_all p', pk_quality (recompute_all p') - pk_quality p)"
    and "sizes_fit64 p' \<Longrightarrow> rebuild64 p p' \<noteq> None"
  using recompute_all64 [OF assms] by (auto simp: rebuild64_def bind_eq_Some_conv)

lemma swap_packer_ok:
  assumes "packer_ok p" "i + 1 < sd_n (pk_static p)"
  shows "packer_ok (p\<lparr>pk_permutation := (pk_permutation p)[i := pk_permutation p ! (i + 1), i + 1 := pk_permutation p ! i],
     pk_position := (pk_position p)[pk_permutation p ! i := i + 1, pk_permutation p ! (i + 1) := i]\<rparr>)"
  using swap_positions [OF assms] by (intro packer_ok_reorder [OF assms(1)])

lemma rotate_packer_ok:
  assumes "packer_ok p" "i < sd_n (pk_static p)" "j < sd_n (pk_static p)" "i \<noteq> j"
  shows "packer_ok (move_in_permutation i j p)"
proof -
  note m = move_in_permutation_ok [OF assms]
  show ?thesis by (subst m(1)) (rule packer_ok_reorder [OF assms(1) m(2-5)])
qed

lemma resize_packer_ok:
  "packer_ok p \<Longrightarrow> 0 \<le> n \<Longrightarrow> packer_ok (p\<lparr>pk_sizes := (pk_sizes p)[idx := n]\<rparr>)"
  by (cases "idx < length (pk_sizes p)") (auto simp: packer_ok_def nth_list_update)

lemma eligible_packer_ok: "packer_ok p \<Longrightarrow> packer_ok (p\<lparr>pk_eligible := (pk_eligible p)[idx := flag]\<rparr>)"
  by (simp add: packer_ok_def)

lemmas edit_packer_ok = swap_packer_ok rotate_packer_ok resize_packer_ok eligible_packer_ok

lemma apply_op64_exact:
  assumes "packer_ok p" "apply_op64 oper p = Some r"
  shows "r = apply_op oper p"
proof (cases oper)
  case (Swap i)
  show ?thesis
  proof (cases "i + 1 < sd_n (pk_static p)")
    case True
    with assms(2) Swap rebuild64(1) [OF swap_packer_ok [OF assms(1) True], of p] show ?thesis
      by (auto simp: packer_swap64_def packer_swap_def Let_def check_def split: if_splits)
  qed (use assms(2) Swap in \<open>simp add: packer_swap64_def packer_swap_def check_def\<close>)
next
  case (Rotate i j)
  show ?thesis
  proof (cases "i < sd_n (pk_static p) \<and> j < sd_n (pk_static p) \<and> i \<noteq> j")
    case True
    with assms(2) Rotate rebuild64(1) [OF rotate_packer_ok [OF assms(1)], of i j p] show ?thesis
      by (auto simp: packer_rotate64_def packer_rotate_def Let_def check_def split: if_splits)
  qed (use assms(2) Rotate in \<open>auto simp: packer_rotate64_def packer_rotate_def check_def split: if_splits\<close>)
next
  case (Resize idx n)
  with assms(2) rebuild64(1) [OF resize_packer_ok [OF assms(1)], of n p idx] show ?thesis
    by (auto simp: packer_resize64_def packer_resize_def Let_def check_def split: if_splits)
next
  case (SetEligible idx flag)
  with assms(2) rebuild64(1) [OF eligible_packer_ok [OF assms(1)], of p idx flag] show ?thesis
    by (auto simp: packer_set_eligible64_def packer_set_eligible_def Let_def check_def split: if_splits)
qed

lemma sizes_fit64_resize:
  "sizes_fit64 p \<Longrightarrow> fits64 (pk_static p) n \<Longrightarrow> sizes_fit64 (p\<lparr>pk_sizes := (pk_sizes p)[idx := n]\<rparr>)"
  using set_update_subset_insert [of "pk_sizes p" idx n] by (auto simp: sizes_fit64_def list_all_iff)

lemma apply_op64_defined:
  assumes "packer_ok p" "sizes_fit64 p" "op_fits64 (pk_static p) oper"
  shows "apply_op64 oper p \<noteq> None"
proof (cases oper)
  case (Swap i)
  have "sizes_fit64 (p\<lparr>pk_permutation := xs, pk_position := ys\<rparr>)" for xs ys using assms(2) by (simp add: sizes_fit64_def)
  with Swap rebuild64(2) [OF swap_packer_ok [OF assms(1)], of i p] show ?thesis
    by (simp add: packer_swap64_def Let_def)
next
  case (Rotate i j)
  have "sizes_fit64 (move_in_permutation i j p)" using assms(2) by (simp add: sizes_fit64_def move_in_permutation_def Let_def)
  with Rotate rebuild64(2) [OF rotate_packer_ok [OF assms(1)], of i j p] show ?thesis
    by (simp add: packer_rotate64_def)
next
  case (Resize idx n)
  with assms(2,3) sizes_fit64_resize [OF assms(2)] rebuild64(2) [OF resize_packer_ok [OF assms(1)], of n idx p]
  show ?thesis by (simp add: packer_resize64_def Let_def)
next
  case (SetEligible idx flag)
  have "sizes_fit64 (p\<lparr>pk_eligible := xs\<rparr>)" for xs using assms(2) by (simp add: sizes_fit64_def)
  with SetEligible rebuild64(2) [OF eligible_packer_ok [OF assms(1)], of idx flag p] show ?thesis
    by (simp add: packer_set_eligible64_def)
qed

lemma make_packer64_exact:
  assumes "make_packer64 bs perm capacity alignment eligible = Some (Inr p)" "\<forall>b\<in>set bs. start_time b < end_time b"
  shows "make_packer bs perm capacity alignment eligible = Inr p"
  using assms(1) recompute_all64(1) [OF initial_packer_ok [OF _ assms(2)]]
  by (auto simp: make_packer64_def make_packer_def bind_eq_Some_conv split: if_splits sum.splits)

lemma make_packer64_defined:
  assumes "\<forall>b\<in>set bs. start_time b < end_time b" "\<forall>b\<in>set bs. max 0 capacity + alignment + b_size b < 2 ^ 63"
  shows "make_packer64 bs perm capacity alignment eligible \<noteq> None"
proof (cases "initial_packer bs perm capacity alignment eligible")
  case (Inr p)
  then have "pk_static p = make_static bs capacity alignment" "pk_sizes p = map b_size bs"
    by (auto elim: initial_packer_cases)
  with assms(2) have "sizes_fit64 p" by (simp add: sizes_fit64_def list_all_iff fits64_def)
  with Inr recompute_all64(2) [OF initial_packer_ok [OF Inr assms(1)]] show ?thesis
    by (auto simp: make_packer64_def)
qed (simp add: make_packer64_def)

lemma machine_packer_reachable:
  assumes "machine_reachable bs capacity alignment p" "\<forall>b\<in>set bs. start_time b < end_time b"
  shows "packer_reachable bs capacity alignment p"
  using assms(1)
proof (induction rule: machine_reachable.induct)
  case (constructed64 perm eligible p)
  from make_packer64_exact [OF this assms(2)] show ?case by (rule packer_reachable.constructed)
next
  case (operated64 p oper q d)
  have "packer_ok p" using packer_reachable_inv [OF operated64.IH assms(2)] by (simp add: coherent_def)
  from apply_op64_exact [OF this operated64.hyps(2)] packer_reachable.operated [OF operated64.IH] show ?case
    by metis
qed

lemmas machine_packer_inv = packer_reachable_inv [OF machine_packer_reachable]

subsection \<open>Properties\<close>

lemma map_sum_Inr_iff: "map_sum id f m = Inr y \<longleftrightarrow> (\<exists>x. m = Inr x \<and> y = f x)"
  by (cases m) auto

definition demo_machine :: "packer res option" where
  "demo_machine = do {
     r \<leftarrow> make_packer64 demo_triple [0, 2, 1] 8 1 None;
     (case r of
        Inl e \<Rightarrow> Some (Inl e)
      | Inr p \<Rightarrow> do { s \<leftarrow> packer_swap64 1 p; Some (map_sum id fst s) })
   }"

lemma demo_machine_addresses:
  "map_option (map_sum id (\<lambda>q. (packer_addresses q, pk_sizes q))) demo_machine =
     Some (Inr ([Some 0, Some 0, Some 2], [2, 2, 3]))"
  by code_simp

lemma demo_machine_reachable:
  obtains q where "demo_machine = Some (Inr q)" "packer_addresses q = [Some 0, Some 0, Some 2]"
    "pk_sizes q = [2, 2, 3]" "machine_reachable demo_triple 8 1 q"
proof -
  obtain q where q: "demo_machine = Some (Inr q)" "packer_addresses q = [Some 0, Some 0, Some 2]" "pk_sizes q = [2, 2, 3]"
    using demo_machine_addresses by (auto simp: map_sum_Inr_iff)
  from q(1) obtain r where r: "make_packer64 demo_triple [0, 2, 1] 8 1 None = Some r"
      "(case r of Inl e \<Rightarrow> Some (Inl e)
        | Inr p \<Rightarrow> do { s \<leftarrow> packer_swap64 1 p; Some (map_sum id fst s) }) = Some (Inr q)"
    by (auto simp: demo_machine_def bind_eq_Some_conv)
  obtain p where p: "r = Inr p" using r(2) by (cases r) simp_all
  then obtain d where "apply_op64 (Swap 1) p = Some (Inr (q, d))"
    using r(2) by (auto simp: bind_eq_Some_conv map_sum_Inr_iff)
  with r(1) p have "make_packer64 demo_triple [0, 2, 1] 8 1 None = Some (Inr p)"
      "apply_op64 (Swap 1) p = Some (Inr (q, d))" by simp_all
  then have "machine_reachable demo_triple 8 1 q" by (blast intro: machine_reachable.intros)
  with q that show thesis by blast
qed

text \<open>C6: However the packer was built and operated (swaps, rotations, resizes, eligibility changes,
  in any order), as long as none of its 64-bit additions overflowed, it shows the layout that placing its
  permutation from scratch gives, with its quality and its number of placed buffers: the
  per-interval fast path, the saturation early stop and the operations that skip the rebuild change
  nothing.\<close>

theorem packer_refines_placement:
  assumes "machine_reachable bs capacity alignment p" "\<forall>b\<in>set bs. start_time b < end_time b"
  shows "packer_addresses p =
           map (placement (pk_static p) (pk_sizes p) (pk_eligible p) (pk_permutation p)) [0..<length bs] \<and>
         pk_quality p = placement_quality (pk_static p) (pk_sizes p)
           (placement (pk_static p) (pk_sizes p) (pk_eligible p) (pk_permutation p)) \<and>
         pk_count p = placed_count (pk_static p)
           (placement (pk_static p) (pk_sizes p) (pk_eligible p) (pk_permutation p))"
proof -
  note inv = machine_packer_inv [OF assms assms(2)]
  then have "sd_n (pk_static p) = length bs" by simp
  with inv show ?thesis by (simp add: coherent_def spec_of_def [abs_def])
qed

theorem packer_refines_placement_witness:
  "\<exists>q. demo_machine = Some (Inr q) \<and> packer_addresses q = [Some 0, Some 0, Some 2] \<and>
     packer_addresses q =
       map (placement (pk_static q) (pk_sizes q) (pk_eligible q) (pk_permutation q)) [0..<length demo_triple]"
proof (rule demo_machine_reachable)
  fix q assume "demo_machine = Some (Inr q)" "packer_addresses q = [Some 0, Some 0, Some 2]"
    "machine_reachable demo_triple 8 1 q"
  with packer_refines_placement [OF _ demo_triple_lifetimes, of 8 1 q] show ?thesis by blast
qed

text \<open>C33: No 64-bit addition of the packer overflows while the capacity, the alignment and each size add up
  to less than \<open>2 ^ 63\<close>: the constructor returns or raises for buffers within the bound, and every operation returns or
  raises on a packer whose sizes, and a resize argument, are within it.\<close>

theorem packer_arithmetic_in_range:
  assumes "\<forall>b\<in>set bs. start_time b < end_time b"
  shows "((\<forall>b\<in>set bs. max 0 capacity + alignment + b_size b < 2 ^ 63) \<longrightarrow>
            make_packer64 bs perm capacity alignment eligible \<noteq> None) \<and>
         (machine_reachable bs capacity alignment p \<longrightarrow> sizes_fit64 p \<longrightarrow> op_fits64 (pk_static p) oper \<longrightarrow>
            apply_op64 oper p \<noteq> None)"
proof (intro conjI impI)
  assume "machine_reachable bs capacity alignment p" "sizes_fit64 p" "op_fits64 (pk_static p) oper"
  then show "apply_op64 oper p \<noteq> None"
    using machine_packer_inv [OF _ assms assms] by (intro apply_op64_defined) (auto simp: coherent_def)
qed (rule make_packer64_defined [OF assms])

theorem packer_arithmetic_in_range_witness:
  "\<exists>q. demo_machine = Some (Inr q) \<and> make_packer64 demo_triple [2, 1, 0] 8 1 None \<noteq> None \<and>
     apply_op64 (Resize 1 5) q \<noteq> None"
proof (rule demo_machine_reachable)
  fix q assume q: "demo_machine = Some (Inr q)" "pk_sizes q = [2, 2, 3]" "machine_reachable demo_triple 8 1 q"
  have st: "pk_static q = make_static demo_triple 8 1"
    using machine_packer_inv [OF q(3) demo_triple_lifetimes demo_triple_lifetimes] by simp
  have "sizes_fit64 q" "op_fits64 (pk_static q) (Resize 1 5)" by (simp_all add: sizes_fit64_def q(2) st fits64_def)
  moreover have "\<forall>b\<in>set demo_triple. max 0 8 + 1 + b_size b < 2 ^ 63" by code_simp
  ultimately show ?thesis
    using packer_arithmetic_in_range [OF demo_triple_lifetimes, of 8 1 "[2, 1, 0]" None q "Resize 1 5"] q by blast
qed

text \<open>C32: In every layout the packer shows, a placed buffer lies inside the capacity at an aligned address, and
  two placed buffers that are live at the same time occupy disjoint bytes unless one takes over
  the other's slot in place, at the same address.\<close>

theorem packer_layout_sound:
  assumes "machine_reachable bs capacity alignment p" "\<forall>b\<in>set bs. start_time b < end_time b"
    and "i < length bs" "packer_addresses p ! i = Some x"
  shows "0 \<le> x \<and> x + pk_sizes p ! i \<le> capacity \<and> alignment dvd x \<and>
    (\<forall>j y. j < length bs \<longrightarrow> i \<noteq> j \<longrightarrow> packer_addresses p ! j = Some y \<longrightarrow>
       overlaps_in_time (bs ! i) (bs ! j) \<longrightarrow>
       disjoint_iv x (x + pk_sizes p ! i) y (y + pk_sizes p ! j) \<or> (x = y \<and> in_place_pair (bs ! i) (bs ! j)))"
  using machine_packer_inv [OF assms(1,2,2)] coherent_layout [OF _ _ assms(3,4)] by blast

theorem packer_layout_sound_witness:
  "\<exists>q. demo_machine = Some (Inr q) \<and> packer_addresses q ! 2 = Some 2 \<and> 2 + pk_sizes q ! 2 \<le> 8"
proof (rule demo_machine_reachable)
  fix q assume q: "demo_machine = Some (Inr q)" "packer_addresses q = [Some 0, Some 0, Some 2]"
    "machine_reachable demo_triple 8 1 q"
  have "2 < length demo_triple" "packer_addresses q ! 2 = Some 2" using q(2) by (simp_all add: demo_triple_def)
  from packer_layout_sound [OF q(3) demo_triple_lifetimes this] q this show ?thesis by blast
qed

text \<open>Above the bound an addition can overflow on input the constructor accepts: a buffer of size
  \<open>2 ^ 63 - 1\<close> that would rest on another.\<close>

lemma constructor_overflows:
  "list_all fields_readable [demo_buffer ''a'' 100 [0, 1] [], demo_buffer ''b'' (2 ^ 63 - 1) [0, 1] []] \<and>
   make_packer64 [demo_buffer ''a'' 100 [0, 1] [], demo_buffer ''b'' (2 ^ 63 - 1) [0, 1] []] [0, 1] 1000 1 None = None"
  by code_simp

end
