(* ===== verification/Cooling_Schedules.thy ===== *)
theory Cooling_Schedules
  imports Plan_Solver Complex_Main "HOL-Library.Product_Lexorder"
begin

text \<open>
  The temperature controllers of the simulated-annealing solver
  (\<open>torch_spyre/_inductor/scratchpad/cooling_schedules.py\<close>).  A schedule's fields are a
  record; \<open>reset\<close> and \<open>update\<close> return the record they leave behind with the temperature,
  \<open>None\<close> to stop.  Floats are \<open>real\<close>, \<open>math.log\<close> and \<open>math.sqrt\<close> are \<open>ln\<close> and \<open>sqrt\<close>.
  The abstract class is the interface \<open>cooling_schedule\<close>: a running schedule gives positive
  temperatures and stops within a known number of updates.  Both concrete schedules interpret it.
\<close>

subsection \<open>The peak memory load\<close>

text \<open>The heap of end points is a list in ascending order: \<open>heappush\<close> inserts, \<open>heappop\<close> takes the head.\<close>

fun pop_ended :: "int \<Rightarrow> (int \<times> int) list \<Rightarrow> int \<Rightarrow> (int \<times> int) list \<times> int" where
  "pop_ended start [] load = ([], load)"
| "pop_ended start ((e, sz) # heap) load =
     (if e \<le> start then pop_ended start heap (load - sz) else ((e, sz) # heap, load))"

definition load_step :: "buffer \<Rightarrow> (int \<times> int) list \<times> int \<times> int \<Rightarrow> (int \<times> int) list \<times> int \<times> int" where
  "load_step b st =
     (let (heap, load, peak) = st;
          (heap', load') = pop_ended (start_time b) heap load;
          load'' = load' + b_size b
      in (insort (end_time b, b_size b) heap', load'', max peak load''))"

definition peak_memory_load :: "buffer list \<Rightarrow> int" where
  "peak_memory_load bs = snd (snd (fold load_step (sort_key start_time bs) ([], 0, 0)))"

definition default_initial_temperature :: "buffer list \<Rightarrow> real" where
  "default_initial_temperature bs = of_int (peak_memory_load bs) / 300"

subsection \<open>Geometric cooling\<close>

record exponential =
  ex_t_initial :: real
  ex_alpha :: real
  ex_steps_per_epoch :: int
  ex_epochs :: int
  ex_t :: real
  ex_i :: int

text \<open>The quotient of the temperatures is taken to be non-negative, where Python's power is real.\<close>

definition make_exponential :: "real \<Rightarrow> real \<Rightarrow> int \<Rightarrow> int \<Rightarrow> exponential res" where
  "make_exponential t_initial t_final steps_per_epoch epochs =
     bindE (if epochs \<le> 1 then Inr 1
            else if t_initial = 0 then Inl ZeroDivisionError
            else Inr ((t_final / t_initial) powr (1 / of_int (epochs - 1)))) (\<lambda>alpha.
       Inr \<lparr>ex_t_initial = t_initial, ex_alpha = alpha, ex_steps_per_epoch = steps_per_epoch,
            ex_epochs = epochs, ex_t = t_initial, ex_i = 0\<rparr>)"

definition exponential_reset :: "exponential \<Rightarrow> (exponential \<times> real option) res" where
  "exponential_reset s =
     (let s' = s\<lparr>ex_t := ex_t_initial s, ex_i := 0\<rparr> in Inr (s', Some (ex_t s')))"

definition exponential_update :: "bool \<Rightarrow> real \<Rightarrow> exponential \<Rightarrow> exponential \<times> real option" where
  "exponential_update accepted move_scale s =
     (let s1 = s\<lparr>ex_i := ex_i s + 1\<rparr>
      in if ex_i s1 \<ge> ex_steps_per_epoch s1 * ex_epochs s1 then (s1, None)
         else let s2 = (if ex_i s1 mod ex_steps_per_epoch s1 = 0 then s1\<lparr>ex_t := ex_t s1 * ex_alpha s1\<rparr> else s1)
              in (s2, Some (ex_t s2)))"

subsection \<open>Self-calibrating reheating\<close>

record reheating =
  rh_given_steps :: "int option"
  rh_cycles :: int
  rh_horizons_per_cycle :: real
  rh_steps_per_buffer :: int
  rh_min_steps :: int
  rh_max_steps :: int
  rh_rt_ab :: real
  rh_delta :: real
  rh_total_steps :: int
  rh_cycle_len :: int
  rh_seed_center :: real
  rh_alpha :: real
  rh_ema_beta :: real
  rh_snap_after :: int
  rh_i :: int
  rh_s :: nat
  rh_cycle :: int
  rh_center :: real
  rh_d_hat :: "real option"
  rh_sample_sum :: real
  rh_n_samples :: int

text \<open>The fields that \<open>set_buffers\<close> and \<open>reset\<close> create have no value before; here they start at 0.\<close>

definition make_reheating ::
  "int option \<Rightarrow> int \<Rightarrow> real \<Rightarrow> int \<Rightarrow> int \<Rightarrow> int \<Rightarrow> real \<Rightarrow> real \<Rightarrow> reheating res" where
  "make_reheating total_steps cycles horizons steps_per_buffer min_steps max_steps accept_hi accept_lo =
     bindE (check (0 < accept_lo \<and> accept_lo < accept_hi \<and> accept_hi < 1) ValueError) (\<lambda>_.
     bindE (check (1 \<le> cycles) ValueError) (\<lambda>_.
     bindE (check (0 < horizons) ValueError) (\<lambda>_.
       let a = - ln accept_hi; b = - ln accept_lo
       in Inr \<lparr>rh_given_steps = total_steps, rh_cycles = cycles, rh_horizons_per_cycle = horizons,
               rh_steps_per_buffer = steps_per_buffer, rh_min_steps = min_steps, rh_max_steps = max_steps,
               rh_rt_ab = sqrt (a * b), rh_delta = sqrt (b / a),
               rh_total_steps = (case total_steps of None \<Rightarrow> 0 | Some n \<Rightarrow> n),
               rh_cycle_len = 0, rh_seed_center = 1, rh_alpha = 0, rh_ema_beta = 0, rh_snap_after = 0,
               rh_i = 0, rh_s = 0, rh_cycle = 0, rh_center = 0, rh_d_hat = None, rh_sample_sum = 0,
               rh_n_samples = 0\<rparr>)))"

definition reheating_set_buffers :: "buffer list \<Rightarrow> reheating \<Rightarrow> reheating" where
  "reheating_set_buffers bs s =
     (let total_steps = (case rh_given_steps s of
            None \<Rightarrow> min (rh_max_steps s) (max (rh_min_steps s) (rh_steps_per_buffer s * int (length bs)))
          | Some n \<Rightarrow> max 1 n);
          cycle_len = max 1 (total_steps div rh_cycles s);
          quarter = min (cycle_len div 4) 20
      in s\<lparr>rh_total_steps := total_steps, rh_cycle_len := cycle_len,
           rh_alpha := rh_delta s powr (- 2 / of_int cycle_len),
           rh_ema_beta := min 1 (rh_horizons_per_cycle s / of_int cycle_len),
           rh_snap_after := (if quarter = 0 then 1 else quarter),
           rh_seed_center := default_initial_temperature bs / rh_delta s\<rparr>)"

definition reheating_temperature :: "reheating \<Rightarrow> real" where
  "reheating_temperature s = rh_center s * rh_delta s * rh_alpha s ^ rh_s s"

definition reheating_reset :: "reheating \<Rightarrow> (reheating \<times> real option) res" where
  "reheating_reset s =
     bindE (check (rh_cycle_len s \<noteq> 0) ValueError) (\<lambda>_.
       let s' = s\<lparr>rh_i := 0, rh_s := 0, rh_cycle := 0, rh_center := rh_seed_center s,
                  rh_d_hat := None, rh_sample_sum := 0, rh_n_samples := 0\<rparr>
       in Inr (s', Some (reheating_temperature s')))"

definition track_move_scale :: "real \<Rightarrow> reheating \<Rightarrow> reheating" where
  "track_move_scale move_scale s =
     (if move_scale > 0
      then case rh_d_hat s of
             None \<Rightarrow>
               let s1 = s\<lparr>rh_sample_sum := rh_sample_sum s + move_scale, rh_n_samples := rh_n_samples s + 1\<rparr>
               in if rh_n_samples s1 \<ge> rh_snap_after s1
                  then s1\<lparr>rh_d_hat := Some (rh_sample_sum s1 / of_int (rh_n_samples s1))\<rparr>
                  else s1
           | Some d \<Rightarrow> s\<lparr>rh_d_hat := Some (d + rh_ema_beta s * (move_scale - d))\<rparr>
      else s)"

definition recenter :: "reheating \<Rightarrow> reheating" where
  "recenter s = (case rh_d_hat s of None \<Rightarrow> s | Some d \<Rightarrow> s\<lparr>rh_center := d / rh_rt_ab s\<rparr>)"

definition reheating_update :: "bool \<Rightarrow> real \<Rightarrow> reheating \<Rightarrow> reheating \<times> real option" where
  "reheating_update accepted move_scale s =
     (let s1 = recenter (track_move_scale move_scale s);
          s2 = s1\<lparr>rh_i := rh_i s1 + 1\<rparr>
      in if rh_i s2 \<ge> rh_total_steps s2 then (s2, None)
         else let s3 = s2\<lparr>rh_s := rh_s s2 + 1\<rparr>;
                  s4 = (if int (rh_s s3) \<ge> rh_cycle_len s3 \<and> rh_cycle s3 < rh_cycles s3 - 1
                        then s3\<lparr>rh_cycle := rh_cycle s3 + 1, rh_s := 0\<rparr> else s3)
              in (s4, Some (reheating_temperature s4)))"

subsection \<open>The interface\<close>

text \<open>\<open>running\<close> is what \<open>reset\<close> establishes and \<open>update\<close> keeps; \<open>left\<close> bounds the updates to come.\<close>

locale cooling_schedule =
  fixes reset :: "'s \<Rightarrow> ('s \<times> real option) res"
    and update :: "bool \<Rightarrow> real \<Rightarrow> 's \<Rightarrow> 's \<times> real option"
    and ready :: "'s \<Rightarrow> bool" and running :: "'s \<Rightarrow> bool" and left :: "'s \<Rightarrow> nat"
  assumes reset_runs: "ready s \<Longrightarrow> \<exists>s' t. reset s = Inr (s', Some t) \<and> running s' \<and> 0 < t"
    and update_runs: "running s \<Longrightarrow> update acc scale s = (s', Some t) \<Longrightarrow>
          running s' \<and> 0 < t \<and> left s' < left s"
begin

text \<open>The temperatures of a run against any sequence of reports.\<close>

fun temperatures :: "(bool \<times> real) list \<Rightarrow> 's \<Rightarrow> real list" where
  "temperatures [] s = []"
| "temperatures ((acc, scale) # reports) s =
     (case update acc scale s of (s', None) \<Rightarrow> [] | (s', Some t) \<Rightarrow> t # temperatures reports s')"

lemma temperatures_bounded:
  assumes "running s"
  shows "length (temperatures reports s) \<le> left s \<and> (\<forall>t\<in>set (temperatures reports s). 0 < t)"
  using assms
proof (induction reports arbitrary: s)
  case (Cons r reports)
  obtain acc scale where r: "r = (acc, scale)" by fastforce
  obtain s' t where u: "update acc scale s = (s', t)" by fastforce
  show ?case
  proof (cases t)
    case (Some x)
    from update_runs [OF Cons.prems u [unfolded Some]] Cons.IH [of s'] show ?thesis by (simp add: r u Some)
  qed (simp add: r u)
qed simp

end

definition exponential_ready :: "exponential \<Rightarrow> bool" where
  "exponential_ready s \<longleftrightarrow> 0 < ex_t_initial s \<and> 0 < ex_alpha s"

definition exponential_running :: "exponential \<Rightarrow> bool" where
  "exponential_running s \<longleftrightarrow> 0 < ex_t s \<and> 0 < ex_alpha s"

definition exponential_left :: "exponential \<Rightarrow> nat" where
  "exponential_left s = nat (ex_steps_per_epoch s * ex_epochs s - ex_i s)"

interpretation geometric: cooling_schedule exponential_reset exponential_update
  exponential_ready exponential_running exponential_left
proof
  show "\<exists>s' t. exponential_reset s = Inr (s', Some t) \<and> exponential_running s' \<and> 0 < t"
    if "exponential_ready s" for s
    using that by (simp add: exponential_reset_def exponential_ready_def exponential_running_def Let_def)
  show "exponential_running s' \<and> 0 < t \<and> exponential_left s' < exponential_left s"
    if "exponential_running s" "exponential_update acc scale s = (s', Some t)" for s acc scale s' t
    using that by (auto simp: exponential_update_def exponential_running_def exponential_left_def Let_def
        split: if_splits)
qed

definition reheating_sized :: "reheating \<Rightarrow> bool" where
  "reheating_sized s \<longleftrightarrow> 0 < rh_cycle_len s \<and> 0 < rh_rt_ab s \<and> 0 < rh_delta s \<and> 0 < rh_alpha s \<and>
     0 < rh_ema_beta s \<and> rh_ema_beta s \<le> 1"

definition reheating_ready :: "reheating \<Rightarrow> bool" where
  "reheating_ready s \<longleftrightarrow> reheating_sized s \<and> 0 < rh_seed_center s"

definition reheating_running :: "reheating \<Rightarrow> bool" where
  "reheating_running s \<longleftrightarrow> reheating_sized s \<and> 0 < rh_center s \<and> 0 \<le> rh_sample_sum s \<and>
     0 \<le> rh_n_samples s \<and> (\<forall>d. rh_d_hat s = Some d \<longrightarrow> 0 < d)"

definition reheating_left :: "reheating \<Rightarrow> nat" where
  "reheating_left s = nat (rh_total_steps s - rh_i s)"

lemma ema_positive: "0 < d \<Longrightarrow> 0 < m \<Longrightarrow> 0 < b \<Longrightarrow> b \<le> 1 \<Longrightarrow> 0 < d + b * (m - d)" for d m b :: real
proof -
  assume a: "0 < d" "0 < m" "0 < b" "b \<le> 1"
  have "d + b * (m - d) = (1 - b) * d + b * m" by (simp add: algebra_simps)
  moreover have "0 \<le> (1 - b) * d" "0 < b * m" using a by simp_all
  ultimately show ?thesis by linarith
qed

lemma track_move_scale_running:
  "reheating_running s \<Longrightarrow> reheating_running (recenter (track_move_scale m s))"
  by (auto simp: reheating_running_def reheating_sized_def recenter_def track_move_scale_def Let_def
      intro!: divide_pos_pos ema_positive split: option.split if_splits)

lemma track_move_scale_frame [simp]:
  "rh_i (recenter (track_move_scale m s)) = rh_i s"
  "rh_total_steps (recenter (track_move_scale m s)) = rh_total_steps s"
  by (auto simp: recenter_def track_move_scale_def Let_def split: option.split)

interpretation reheat: cooling_schedule reheating_reset reheating_update
  reheating_ready reheating_running reheating_left
proof
  show "\<exists>s' t. reheating_reset s = Inr (s', Some t) \<and> reheating_running s' \<and> 0 < t"
    if "reheating_ready s" for s
    using that by (auto simp: reheating_reset_def reheating_ready_def reheating_running_def reheating_sized_def
        reheating_temperature_def Let_def)
  show "reheating_running s' \<and> 0 < t \<and> reheating_left s' < reheating_left s"
    if "reheating_running s" "reheating_update acc scale s = (s', Some t)" for s acc scale s' t
    using track_move_scale_running [OF that(1), of scale] that(2)
    by (auto simp: reheating_update_def reheating_running_def reheating_sized_def reheating_left_def
        reheating_temperature_def Let_def split: if_splits)
qed

lemma reheating_set_buffers_ready:
  assumes "make_reheating total_steps cycles horizons spb mn mx hi lo = Inr s" "0 < peak_memory_load bs"
  shows "reheating_ready (reheating_set_buffers bs s)"
proof -
  from assms(1) have p: "0 < lo" "lo < hi" "hi < 1" "1 \<le> cycles" "0 < horizons"
      and s: "rh_rt_ab s = sqrt (- ln hi * - ln lo)" "rh_delta s = sqrt (- ln lo / - ln hi)"
        "rh_horizons_per_cycle s = horizons"
    by (auto simp: make_reheating_def Let_def)
  have ln: "0 < - ln hi" "0 < - ln lo" using p by simp_all
  have d: "0 < rh_delta s" "0 < rh_rt_ab s"
    unfolding s using ln by (simp_all only: real_sqrt_gt_0_iff divide_pos_pos mult_pos_pos)
  let ?t = "reheating_set_buffers bs s"
  have "0 < rh_cycle_len ?t" by (simp add: reheating_set_buffers_def Let_def)
  moreover have "0 < rh_alpha ?t" using d by (simp add: reheating_set_buffers_def Let_def)
  moreover have "0 < rh_ema_beta ?t \<and> rh_ema_beta ?t \<le> 1"
    using p by (simp add: reheating_set_buffers_def Let_def s)
  moreover have "0 < rh_seed_center ?t"
    using d assms(2) by (simp add: reheating_set_buffers_def Let_def default_initial_temperature_def)
  moreover have "rh_rt_ab ?t = rh_rt_ab s" "rh_delta ?t = rh_delta s"
    by (simp_all add: reheating_set_buffers_def Let_def)
  ultimately show ?thesis using d by (simp add: reheating_ready_def reheating_sized_def)
qed

subsection \<open>The peak load is the largest live load\<close>

definition live_load :: "buffer list \<Rightarrow> int \<Rightarrow> int" where
  "live_load bs t = (\<Sum>b\<leftarrow>bs. if start_time b \<le> t \<and> t < end_time b then b_size b else 0)"

definition load_inv :: "buffer list \<Rightarrow> (int \<times> int) list \<times> int \<times> int \<Rightarrow> bool" where
  "load_inv ps st \<longleftrightarrow>
     (case st of (heap, load, peak) \<Rightarrow>
        sorted heap \<and>
        mset heap = image_mset (\<lambda>b. (end_time b, b_size b))
          (filter_mset (\<lambda>b. start_time (last ps) < end_time b) (mset ps)) \<and>
        load = sum_list (map snd heap) \<and> (\<forall>b\<in>set ps. live_load ps (start_time b) \<le> peak) \<and>
        (if ps = [] then peak = 0 else \<exists>b\<in>set ps. peak = live_load ps (start_time b)))"

lemma pop_ended_filter:
  "sorted heap \<Longrightarrow> pop_ended start heap load =
     (filter (\<lambda>x. start < fst x) heap, load - sum_list (map snd (filter (\<lambda>x. \<not> start < fst x) heap)))"
proof (induction heap arbitrary: load)
  case (Cons x heap)
  obtain e sz where x: "x = (e, sz)" by fastforce
  show ?case
  proof (cases "e \<le> start")
    case False
    have "\<forall>y\<in>set (x # heap). start < fst y" using False Cons.prems by (auto simp: x less_eq_prod_def)
    then have "filter (\<lambda>x. start < fst x) (x # heap) = x # heap" "filter (\<lambda>x. \<not> start < fst x) (x # heap) = []"
      by (simp_all only: filter_True filter_False not_not simp_thms)
    with False show ?thesis by (simp add: x)
  qed (use Cons in \<open>simp add: x\<close>)
qed simp

lemma sum_list_filter_split:
  "sum_list (map f xs) - sum_list (map f (filter (\<lambda>x. \<not> P x) xs)) = (sum_list (map f (filter P xs)) :: int)"
  by (induction xs) auto

lemma live_load_sum:
  assumes "\<forall>b\<in>set ps. start_time b \<le> t"
  shows "live_load ps t = sum_list (map b_size (filter (\<lambda>b. t < end_time b) ps))"
  using assms by (induction ps) (auto simp: live_load_def)

lemma live_load_snoc:
  "live_load (ps @ [b]) t = live_load ps t + (if start_time b \<le> t \<and> t < end_time b then b_size b else 0)"
  by (simp add: live_load_def)

lemma sum_snd_mset: "sum_list (map snd xs) = sum_mset (image_mset snd (mset xs))" for xs :: "('a \<times> int) list"
  by (metis mset_map sum_mset_sum_list)

text \<open>What the heap holds when a buffer has been pushed, and the load it sums to.\<close>

lemma load_step_heap:
  assumes "sorted heap" "mset heap = image_mset (\<lambda>b. (end_time b, b_size b))
        (filter_mset (\<lambda>b. start_time (last ps) < end_time b) (mset ps))"
    and "\<forall>b\<in>set ps. start_time b \<le> start_time b'" "start_time b' < end_time b'"
  defines "new \<equiv> insort (end_time b', b_size b') (filter (\<lambda>x. start_time b' < fst x) heap)"
  shows "sorted new"
    and "mset new = image_mset (\<lambda>b. (end_time b, b_size b))
           (filter_mset (\<lambda>b. start_time b' < end_time b) (mset (ps @ [b'])))"
    and "sum_list (map snd new) = live_load (ps @ [b']) (start_time b')"
    and "sum_list (map snd new) = sum_list (map snd (filter (\<lambda>x. start_time b' < fst x) heap)) + b_size b'"
proof -
  let ?s = "start_time b'" and ?k = "\<lambda>b. (end_time b, b_size b)"
  let ?heap = "filter (\<lambda>x. start_time b' < fst x) heap"
  have "mset ?heap = image_mset ?k (filter_mset (\<lambda>b. ?s < end_time b) (mset ps))"
  proof (cases "ps = []")
    case False
    then have "start_time (last ps) \<le> ?s" using assms(3) by simp
    then have "filter_mset (\<lambda>b. start_time (last ps) < end_time b \<and> ?s < end_time b) (mset ps) =
        filter_mset (\<lambda>b. ?s < end_time b) (mset ps)"
      by (intro filter_mset_cong) auto
    then show ?thesis by (simp add: assms(2) filter_mset_image_mset filter_filter_mset conj_commute)
  qed (use assms(2) in simp)
  then show ms: "mset new = image_mset ?k (filter_mset (\<lambda>b. ?s < end_time b) (mset (ps @ [b'])))"
    using assms(4) by (simp add: new_def)
  show "sorted new" using assms(1) by (simp add: new_def sorted_insort sorted_wrt_filter)
  have "sum_list (map snd new) = sum_list (map b_size (filter (\<lambda>b. ?s < end_time b) (ps @ [b'])))"
    unfolding sum_snd_mset ms by (simp add: multiset.map_comp comp_def flip: sum_mset_sum_list)
  also have "\<dots> = live_load (ps @ [b']) ?s" using assms(3) by (subst live_load_sum) auto
  finally show "sum_list (map snd new) = live_load (ps @ [b']) ?s" .
  show "sum_list (map snd new) = sum_list (map snd ?heap) + b_size b'"
    unfolding sum_snd_mset by (simp add: new_def)
qed

lemma load_step_inv:
  assumes "load_inv ps st" "\<forall>b\<in>set ps. start_time b \<le> start_time b'" "start_time b' < end_time b'" "0 \<le> b_size b'"
  shows "load_inv (ps @ [b']) (load_step b' st)"
proof -
  obtain heap load peak where st: "st = (heap, load, peak)" by (cases st)
  let ?s = "start_time b'" and ?ps = "ps @ [b']"
  define new where "new = insort (end_time b', b_size b') (filter (\<lambda>x. start_time b' < fst x) heap)"
  define load' where "load' = sum_list (map snd new)"
  have inv: "sorted heap" "mset heap = image_mset (\<lambda>b. (end_time b, b_size b))
        (filter_mset (\<lambda>b. start_time (last ps) < end_time b) (mset ps))"
      "load = sum_list (map snd heap)" "\<forall>b\<in>set ps. live_load ps (start_time b) \<le> peak"
      "if ps = [] then peak = 0 else \<exists>b\<in>set ps. peak = live_load ps (start_time b)"
    using assms(1) by (simp_all add: load_inv_def st)
  note heap = load_step_heap [OF inv(1,2) assms(2,3), folded new_def, folded load'_def]
  have step: "load_step b' st = (new, load', max peak load')"
    by (simp add: load_step_def st pop_ended_filter [OF inv(1)] new_def [symmetric] inv(3) sum_list_filter_split
        Let_def flip: heap(4))
  have later: "live_load ps (start_time b) \<le> load'" if "b \<in> set ps" "\<not> start_time b < ?s" for b
  proof -
    have "start_time b = ?s" using that assms(2) by force
    then show ?thesis using heap(3) assms(3,4) by (simp add: live_load_snoc)
  qed
  have early: "live_load ?ps (start_time b) = live_load ps (start_time b)" if "start_time b < ?s" for b
    using that by (simp add: live_load_snoc)
  have upper: "live_load ?ps (start_time b) \<le> max peak load'" if b: "b \<in> set ?ps" for b
  proof (cases "start_time b < ?s")
    case True
    then have "b \<in> set ps" using b by auto
    then show ?thesis using early [OF True] inv(4) by (simp add: max.coboundedI1)
  next
    case False
    then have "start_time b = ?s" using b assms(2) by force
    then show ?thesis using heap(3) by simp
  qed
  have attained: "\<exists>b\<in>set ?ps. max peak load' = live_load ?ps (start_time b)"
  proof (cases "peak \<le> load'")
    case True
    then show ?thesis using heap(3) by (intro bexI [of _ b']) (simp_all add: max_def)
  next
    case False
    have "ps \<noteq> []" using False inv(5) heap(3) assms(3,4) by (auto simp: live_load_def)
    then obtain b where b: "b \<in> set ps" "peak = live_load ps (start_time b)" using inv(5) by auto
    then have "start_time b < ?s" using later [OF b(1)] False by auto
    then show ?thesis using b early False by (intro bexI [of _ b]) (simp_all add: max_def)
  qed
  show ?thesis unfolding load_inv_def step using heap(1,2) load'_def upper attained by simp
qed

lemma load_fold_inv:
  assumes "load_inv ps st" "sorted_wrt (\<lambda>a b. start_time a \<le> start_time b) (ps @ qs)"
    and "\<forall>b\<in>set qs. start_time b < end_time b \<and> 0 \<le> b_size b"
  shows "load_inv (ps @ qs) (fold load_step qs st)"
  using assms
proof (induction qs arbitrary: ps st)
  case (Cons b qs)
  have "load_inv (ps @ [b]) (load_step b st)"
    using Cons.prems by (intro load_step_inv) (auto simp: sorted_wrt_append)
  with Cons.IH [of "ps @ [b]" "load_step b st"] Cons.prems show ?case by simp
qed simp

lemma live_load_perm: "mset as = mset bs \<Longrightarrow> live_load as t = live_load bs t"
proof -
  assume "mset as = mset bs"
  then have "image_mset (\<lambda>b. if start_time b \<le> t \<and> t < end_time b then b_size b else 0) (mset as) =
      image_mset (\<lambda>b. if start_time b \<le> t \<and> t < end_time b then b_size b else 0) (mset bs)" by (rule arg_cong)
  then show ?thesis unfolding live_load_def by (simp flip: sum_mset_sum_list)
qed

lemma peak_load_inv:
  assumes "\<forall>b\<in>set bs. start_time b < end_time b \<and> 0 \<le> b_size b"
  shows "(\<forall>b\<in>set bs. live_load bs (start_time b) \<le> peak_memory_load bs) \<and>
         (if bs = [] then peak_memory_load bs = 0
          else \<exists>b\<in>set bs. peak_memory_load bs = live_load bs (start_time b))"
proof -
  let ?srt = "sort_key start_time bs"
  have "sorted (map start_time ?srt)" by simp
  then have "sorted_wrt (\<lambda>a b. start_time a \<le> start_time b) ([] @ ?srt)" by (simp add: sorted_map)
  moreover have "load_inv [] ([], 0, 0)" by (simp add: load_inv_def)
  ultimately have inv: "load_inv ?srt (fold load_step ?srt ([], 0, 0))"
    using load_fold_inv [of "[]" "([], 0, 0)" ?srt] assms by simp
  obtain h l p where fl: "fold load_step ?srt ([], 0, 0) = (h, l, p)" by (cases "fold load_step ?srt ([], 0, 0)")
  have "live_load ?srt t = live_load bs t" for t by (rule live_load_perm) simp
  moreover have "?srt = [] \<longleftrightarrow> bs = []" by (metis length_0_conv length_sort)
  ultimately show ?thesis using inv by (simp add: load_inv_def fl peak_memory_load_def split: if_splits)
qed

lemma live_load_ge:
  assumes "b \<in> set bs" "\<forall>b\<in>set bs. 0 \<le> b_size b" "start_time b < end_time b"
  shows "b_size b \<le> live_load bs (start_time b)"
proof -
  have "b_size b = (if start_time b \<le> start_time b \<and> start_time b < end_time b then b_size b else 0)"
    using assms(3) by simp
  also have "\<dots> \<le> live_load bs (start_time b)"
    unfolding live_load_def using assms(1,2) by (intro member_le_sum_list) auto
  finally show ?thesis .
qed

text \<open>Between two starts the load only falls, so the largest load is reached at a start.\<close>

lemma live_load_latest_start:
  assumes "\<forall>b\<in>set bs. 0 \<le> b_size b" "bs \<noteq> []"
  shows "(\<exists>b\<in>set bs. live_load bs t \<le> live_load bs (start_time b)) \<or> live_load bs t = 0"
proof (cases "\<exists>b\<in>set bs. start_time b \<le> t")
  case True
  let ?S = "start_time ` {b \<in> set bs. start_time b \<le> t}"
  have "Max ?S \<in> ?S" using True by (intro Max_in) auto
  then obtain b where b: "b \<in> set bs" "start_time b \<le> t" "start_time b = Max ?S" by auto
  have "start_time c \<le> start_time b" if "c \<in> set bs" "start_time c \<le> t" for c
    unfolding b(3) using that by (intro Max_ge) auto
  then have "live_load bs t \<le> live_load bs (start_time b)"
    unfolding live_load_def using assms(1) b(2) by (intro sum_list_mono) fastforce
  with b(1) show ?thesis by blast
next
  case False
  then have "live_load bs t = sum_list (map (\<lambda>b. 0) bs)"
    unfolding live_load_def by (intro arg_cong [where f = sum_list] map_cong) auto
  then have "live_load bs t = 0" by simp
  then show ?thesis ..
qed

subsection \<open>Properties\<close>

definition demo_loads :: "buffer list" where
  "demo_loads = [demo_buffer ''x'' 3 [0, 2] [], demo_buffer ''y'' 2 [1] [], demo_buffer ''z'' 4 [3] []]"

lemma demo_loads_peak: "peak_memory_load demo_loads = 5"
  by code_simp

lemma demo_loads_live: "\<forall>b\<in>set demo_loads. start_time b < end_time b \<and> 0 \<le> b_size b"
  by code_simp

text \<open>C40: The sweep computes the peak load: at no tick are more bytes live than \<open>peak_memory_load\<close> says, and
  at some buffer's start exactly that many are.\<close>

theorem peak_load_is_peak:
  assumes "\<forall>b\<in>set bs. start_time b < end_time b \<and> 0 \<le> b_size b"
  shows "(\<forall>t. live_load bs t \<le> peak_memory_load bs) \<and>
         (bs \<noteq> [] \<longrightarrow> (\<exists>b\<in>set bs. peak_memory_load bs = live_load bs (start_time b)))"
proof (cases "bs = []")
  case True
  then show ?thesis by (simp add: live_load_def peak_memory_load_def)
next
  case False
  note inv = peak_load_inv [OF assms]
  from inv False obtain b where b: "b \<in> set bs" "peak_memory_load bs = live_load bs (start_time b)" by auto
  have "0 \<le> b_size b" "b_size b \<le> live_load bs (start_time b)" using live_load_ge [OF b(1)] assms b(1) by auto
  then have pos: "0 \<le> peak_memory_load bs" using b(2) by simp
  have "live_load bs t \<le> peak_memory_load bs" for t
    using live_load_latest_start [of bs t] assms False inv pos by (auto intro: order_trans)
  with b show ?thesis by blast
qed

theorem peak_load_is_peak_witness:
  "live_load demo_loads 1 \<le> 5 \<and> (\<exists>b\<in>set demo_loads. 5 = live_load demo_loads (start_time b))"
proof -
  have "demo_loads \<noteq> []" by (simp add: demo_loads_def)
  with peak_load_is_peak [OF demo_loads_live] show ?thesis unfolding demo_loads_peak by blast
qed

text \<open>A reheating schedule that was given its buffers starts at a positive temperature, stays positive,
  and gives at most \<open>total_steps\<close> further temperatures, whatever the annealer reports.\<close>

theorem reheating_budget:
  assumes "make_reheating total_steps cycles horizons spb mn mx hi lo = Inr s" "0 < peak_memory_load bs"
  shows "\<exists>s' t. reheating_reset (reheating_set_buffers bs s) = Inr (s', Some t) \<and> 0 < t \<and>
     (\<forall>reports. length (reheat.temperatures reports s') \<le> nat (rh_total_steps (reheating_set_buffers bs s)) \<and>
        (\<forall>x\<in>set (reheat.temperatures reports s'). 0 < x))"
proof -
  from reheat.reset_runs [OF reheating_set_buffers_ready [OF assms]] obtain s' t where
    r: "reheating_reset (reheating_set_buffers bs s) = Inr (s', Some t)" "reheating_running s'" "0 < t"
    by blast
  then have "reheating_left s' = nat (rh_total_steps (reheating_set_buffers bs s))"
    by (auto simp: reheating_reset_def reheating_left_def Let_def)
  with reheat.temperatures_bounded [OF r(2)] r show ?thesis by auto
qed

end
