(* ===== verification/Annealing.thy ===== *)
theory Annealing
  imports Packer_Refinement Cooling_Schedules Greedy_Solver Gap_Solver
begin

text \<open>
  The simulated-annealing layout solver \<open>SimulatedAnnealingLayoutSolver\<close>
  (\<open>torch_spyre/_inductor/scratchpad/simulated_annealing.py\<close>) over the permutation packer, the
  integer one, with which the 64-bit one agrees below the bound of \<open>Packer_Machine\<close>.

  \<open>annealer\<close> is the solver object after \<open>__init__\<close>; the buffer objects the caller holds are
  \<open>an_all\<close>, and \<open>self.buffers\<close> are the placeable ones, by index.  Python's \<open>random.Random\<close> is
  two parameters over a generator state: \<open>choices\<close> draws an index with the given weights and
  \<open>uniform\<close> is \<open>random()\<close>.  The schedule is the interface \<open>cooling_schedule\<close>.  The two loops
  that the source leaves without a bound, the anneal and the cleanup after an accepted move,
  are partial functions into \<open>option\<close>, so that running forever is \<open>None\<close>; both are shown to
  return.
\<close>

subsection \<open>Initial permutation\<close>

text \<open>\<open>SolverToPermutation.permutation\<close>, given what the wrapped solver's \<open>plan_layout\<close> returned.\<close>

definition max_address :: "buffer list \<Rightarrow> int" where
  "max_address bs = (case List.map_filter address bs of [] \<Rightarrow> 0 | a # as \<Rightarrow> fold max as a)"

definition address_key :: "buffer list \<Rightarrow> string \<Rightarrow> int res" where
  "address_key bs n =
     (case by_name bs n of
        None \<Rightarrow> Inl KeyError
      | Some b \<Rightarrow> Inr (case address b of Some a \<Rightarrow> a | None \<Rightarrow> max_address bs + 1))"

definition solver_permutation :: "buffer list res \<Rightarrow> buffer list \<Rightarrow> nat list res" where
  "solver_permutation planned buffers =
     bindE planned (\<lambda>allocated.
     bindE (mapE (\<lambda>b. address_key allocated (b_name b)) buffers) (\<lambda>keys.
       Inr (sort_key (\<lambda>i. keys ! i) [0..<length buffers])))"

datatype initial_option =
    InitialList "nat list"
  | FirstFit
  | BestFit
  | Greedy
  | InitialSolver "buffer list res"

definition initial_permutation :: "initial_option \<Rightarrow> buffer list \<Rightarrow> int \<Rightarrow> int \<Rightarrow> nat list res" where
  "initial_permutation initial buffers sz alignment =
     (case initial of
        InitialList perm \<Rightarrow>
          bindE (check (sort perm = [0..<length buffers]) ValueError) (\<lambda>_. Inr perm)
      | FirstFit \<Rightarrow> solver_permutation (gap_plan pick_gap_first buffers sz alignment) buffers
      | BestFit \<Rightarrow> solver_permutation (gap_plan pick_gap_best buffers sz alignment) buffers
      | Greedy \<Rightarrow> solver_permutation (greedy_plan buffers sz alignment) buffers
      | InitialSolver planned \<Rightarrow> solver_permutation planned buffers)"

subsection \<open>The solver object\<close>

record ('s, 'r) annealer =
  an_all :: "buffer list"
  an_placeable :: "nat list"
  an_size :: int
  an_alignment :: int
  an_plan :: packer
  an_best_quality :: real
  an_best_permutation :: "nat list"
  an_schedule :: 's
  an_random :: 'r
  an_quality_logs :: "real list list"
  an_temperature_logs :: "real list list"

definition annealer_caps :: capabilities where
  "annealer_caps = \<lparr>chooses_core_divisions = False, supports_paired_buffers = False,
     decides_lx_relayouts = False, generates_divisions = False, chooses_tilings = False,
     tilings_from_menu = False, linear_cost_only = False\<rparr>"

definition an_buffers :: "('s, 'r) annealer \<Rightarrow> buffer list" where
  "an_buffers a = map (\<lambda>i. an_all a ! i) (an_placeable a)"

text \<open>\<open>Inl\<close> of the result's sum is the early return of a solver with nothing to place
  (\<open>_skip_solve\<close>): only the buffer list is left.\<close>

definition init_annealer ::
  "buffer list \<Rightarrow> int \<Rightarrow> int \<Rightarrow> initial_option \<Rightarrow> (buffer list \<Rightarrow> 's) \<Rightarrow> 'r \<Rightarrow>
     (buffer list + ('s, 'r) annealer) res" where
  "init_annealer bs sz alignment initial make_schedule rng =
     bindE (init_solver annealer_caps bs sz alignment) (\<lambda>s.
     bindE (partition s) (\<lambda>(s', placeable, barred).
       if placeable = [] then Inr (Inl (s_buffers s'))
       else let buffers = map (\<lambda>i. s_buffers s' ! i) placeable
            in bindE (initial_permutation initial buffers sz alignment) (\<lambda>perm.
               bindE (make_packer buffers perm sz alignment None) (\<lambda>plan.
                 Inr (Inr \<lparr>an_all = s_buffers s', an_placeable = placeable, an_size = sz,
                   an_alignment = alignment, an_plan = plan, an_best_quality = pk_quality plan,
                   an_best_permutation = perm, an_schedule = make_schedule buffers, an_random = rng,
                   an_quality_logs = [], an_temperature_logs = []\<rparr>)))))"

definition is_optimal :: "('s, 'r) annealer \<Rightarrow> bool" where
  "is_optimal a \<longleftrightarrow> pk_count (an_plan a) = length (an_placeable a)"

subsection \<open>Reinserting one buffer\<close>

definition choice_weights :: "bool list \<Rightarrow> nat list" where
  "choice_weights allocated =
     (let n = length allocated; n_allocated = length (filter id allocated)
      in map (\<lambda>b. if b then n else n_allocated + 1) allocated)"

definition probe_bound :: "nat \<Rightarrow> bool list \<Rightarrow> nat" where
  "probe_bound i allocated =
     (let n = length allocated
      in if allocated ! i then n - 1
         else let upper = fold max (filter (\<lambda>pos. allocated ! pos) [0..<n]) 0 + 1
              in if upper > n - 1 then n - 1 else upper)"

fun probe_positions ::
  "nat \<Rightarrow> nat list \<Rightarrow> packer \<Rightarrow> real option list \<Rightarrow> real option list res" where
  "probe_positions i [] probe qualities = Inr qualities"
| "probe_positions i (p # ps) probe qualities =
     bindE (packer_swap (p - 1) probe) (\<lambda>(probe', d).
       probe_positions i ps probe' (if p \<noteq> i then qualities[p := Some (pk_quality probe')] else qualities))"

definition probe_qualities :: "nat \<Rightarrow> bool list \<Rightarrow> packer \<Rightarrow> real option list res" where
  "probe_qualities i allocated plan =
     (let n = length allocated; qualities = replicate n None
      in bindE (if i \<noteq> 0
                then bindE (packer_rotate i 0 plan) (\<lambda>(probe, d).
                       Inr (probe, qualities[0 := Some (pk_quality probe)]))
                else Inr (plan, qualities)) (\<lambda>(probe, qualities').
           probe_positions i [1..<probe_bound i allocated + 1] probe qualities'))"

definition move_scale_of :: "real \<Rightarrow> real option list \<Rightarrow> real" where
  "move_scale_of quality_before qualities =
     (let nonzero = filter (\<lambda>d. d > 0) (map (\<lambda>q. \<bar>q - quality_before\<bar>) (List.map_filter id qualities))
      in if nonzero = [] then 0 else sum_list nonzero / of_nat (length nonzero))"

definition insertion_points :: "real option list \<Rightarrow> nat list" where
  "insertion_points qualities =
     sort_key (\<lambda>pos. - the (qualities ! pos))
       (filter (\<lambda>pos. qualities ! pos \<noteq> None) [0..<length qualities])"

fun accept_point ::
  "('r \<Rightarrow> real \<times> 'r) \<Rightarrow> real \<Rightarrow> real \<Rightarrow> real option list \<Rightarrow> nat \<Rightarrow> nat list \<Rightarrow> 'r \<Rightarrow>
     (nat option \<times> 'r) res" where
  "accept_point uniform temperature quality_before qualities i [] rng = Inr (None, rng)"
| "accept_point uniform temperature quality_before qualities i (j # js) rng =
     (if i = j then Inl AssertionError
      else case qualities ! j of
             None \<Rightarrow> Inl AssertionError
           | Some qj \<Rightarrow>
               if qj > quality_before then Inr (Some j, rng)
               else if temperature = 0 then Inl ZeroDivisionError
               else case uniform rng of (u, rng') \<Rightarrow>
                      if u < exp ((qj - quality_before) / temperature) then Inr (Some j, rng')
                      else accept_point uniform temperature quality_before qualities i js rng')"

definition annealing_step_rotate ::
  "(nat list \<Rightarrow> 'r \<Rightarrow> nat \<times> 'r) \<Rightarrow> ('r \<Rightarrow> real \<times> 'r) \<Rightarrow> real \<Rightarrow> ('s, 'r) annealer \<Rightarrow>
     (('s, 'r) annealer \<times> (nat \<times> nat) option \<times> real) res" where
  "annealing_step_rotate choices uniform temperature a =
     (let plan = an_plan a; n = length (an_placeable a)
      in bindE (mapE (\<lambda>k. is_fully_allocated plan (pk_permutation plan ! k)) [0..<n]) (\<lambda>allocated.
         case choices (choice_weights allocated) (an_random a) of (i, rng) \<Rightarrow>
         bindE (probe_qualities i allocated plan) (\<lambda>qualities.
           let scale = move_scale_of (pk_quality plan) qualities
           in bindE (accept_point uniform temperature (pk_quality plan) qualities i
                       (insertion_points qualities) rng) (\<lambda>(target, rng').
                case target of
                  None \<Rightarrow> Inr (a\<lparr>an_random := rng'\<rparr>, None, scale)
                | Some j \<Rightarrow> bindE (packer_rotate i j plan) (\<lambda>(plan', d).
                    Inr (a\<lparr>an_plan := plan', an_random := rng'\<rparr>, Some (i, j), scale))))))"

subsection \<open>Cleaning up after an accepted move\<close>

fun top_above :: "int option \<Rightarrow> int option \<Rightarrow> bool" where
  "top_above None (Some y) = True"
| "top_above (Some x) (Some y) = (x > y)"
| "top_above x None = False"

definition out_of_order :: "packer \<Rightarrow> nat \<Rightarrow> bool res" where
  "out_of_order plan i =
     (let perm = pk_permutation plan
      in bindE (check (i + 1 < length perm) IndexError) (\<lambda>_.
         bindE (packer_overlaps plan (perm ! i) (perm ! (i + 1))) (\<lambda>ov.
           if ov then Inr False
           else bindE (top_or_inf plan (perm ! i)) (\<lambda>t1.
                bindE (top_or_inf plan (perm ! (i + 1))) (\<lambda>t2. Inr (top_above t1 t2))))))"

definition widen :: "packer \<Rightarrow> nat \<Rightarrow> nat \<Rightarrow> nat" where
  "widen plan i j = (if i = j \<and> j + 2 < length (pk_permutation plan) then j + 1 else j)"

partial_function (option) cleanup_loop :: "nat \<Rightarrow> nat \<Rightarrow> packer \<Rightarrow> packer res option" where
  "cleanup_loop i j plan =
     (if i \<le> j
      then case out_of_order plan i of
             Inl e \<Rightarrow> Some (Inl e)
           | Inr unsorted \<Rightarrow>
               if unsorted
               then (case packer_swap i plan of
                       Inl e \<Rightarrow> Some (Inl e)
                     | Inr r \<Rightarrow> cleanup_loop (if i > 0 then i - 1 else 1) (widen plan i j) (fst r))
               else cleanup_loop (i + 1) j plan
      else Some (Inr plan))"

declare cleanup_loop.simps [code]

definition annealing_step_swap :: "nat \<Rightarrow> nat \<Rightarrow> packer \<Rightarrow> packer res option" where
  "annealing_step_swap i j plan =
     (let n = length (pk_permutation plan)
      in if i = j \<or> n \<le> i \<or> n \<le> j then Some (Inl AssertionError)
         else let lo = min i j; hi = max i j
              in cleanup_loop (lo - 1) (if hi = n - 1 then n - 2 else hi) plan)"

subsection \<open>The anneal\<close>

definition note_best :: "('s, 'r) annealer \<Rightarrow> ('s, 'r) annealer" where
  "note_best a =
     (if pk_quality (an_plan a) > an_best_quality a
      then a\<lparr>an_best_quality := pk_quality (an_plan a), an_best_permutation := pk_permutation (an_plan a)\<rparr>
      else a)"

definition cleanup_step :: "('s, 'r) annealer \<Rightarrow> (nat \<times> nat) option \<Rightarrow> ('s, 'r) annealer res option" where
  "cleanup_step a move =
     (case move of
        None \<Rightarrow> Some (Inr a)
      | Some (i, j) \<Rightarrow>
          (case annealing_step_swap i j (an_plan a) of
             None \<Rightarrow> None
           | Some (Inl e) \<Rightarrow> Some (Inl e)
           | Some (Inr plan) \<Rightarrow> Some (Inr (a\<lparr>an_plan := plan\<rparr>))))"

text \<open>The body of the loop up to the logs: the rotation, the cleanup, the best layout so far.\<close>

definition anneal_step ::
  "(nat list \<Rightarrow> 'r \<Rightarrow> nat \<times> 'r) \<Rightarrow> ('r \<Rightarrow> real \<times> 'r) \<Rightarrow> real \<Rightarrow> ('s, 'r) annealer \<Rightarrow>
     (('s, 'r) annealer \<times> bool \<times> real) res option" where
  "anneal_step choices uniform temperature a =
     (case annealing_step_rotate choices uniform temperature a of
        Inl e \<Rightarrow> Some (Inl e)
      | Inr (a1, move, scale) \<Rightarrow>
          (case cleanup_step a1 move of
             None \<Rightarrow> None
           | Some (Inl e) \<Rightarrow> Some (Inl e)
           | Some (Inr a2) \<Rightarrow> Some (Inr (note_best a2, move \<noteq> None, scale))))"

definition close_logs :: "real list \<Rightarrow> real list \<Rightarrow> ('s, 'r) annealer \<Rightarrow> ('s, 'r) annealer" where
  "close_logs qlog tlog a =
     a\<lparr>an_quality_logs := an_quality_logs a @ [qlog], an_temperature_logs := an_temperature_logs a @ [tlog]\<rparr>"

partial_function (option) anneal_loop ::
  "(bool \<Rightarrow> real \<Rightarrow> 's \<Rightarrow> 's \<times> real option) \<Rightarrow> (nat list \<Rightarrow> 'r \<Rightarrow> nat \<times> 'r) \<Rightarrow> ('r \<Rightarrow> real \<times> 'r) \<Rightarrow>
     real option \<Rightarrow> real list \<Rightarrow> real list \<Rightarrow> ('s, 'r) annealer \<Rightarrow> ('s, 'r) annealer res option" where
  "anneal_loop update choices uniform temperature qlog tlog a =
     (case temperature of
        None \<Rightarrow> Some (Inr (close_logs qlog tlog a))
      | Some t \<Rightarrow>
          (case anneal_step choices uniform t a of
             None \<Rightarrow> None
           | Some (Inl e) \<Rightarrow> Some (Inl e)
           | Some (Inr r) \<Rightarrow>
               let a1 = fst r; qlog' = qlog @ [pk_quality (an_plan a1)]; tlog' = tlog @ [t]
               in if is_optimal a1 then Some (Inr (close_logs qlog' tlog' a1))
                  else let u = update (fst (snd r)) (snd (snd r)) (an_schedule a1)
                       in anneal_loop update choices uniform (snd u) qlog' tlog' (a1\<lparr>an_schedule := fst u\<rparr>)))"

definition anneal ::
  "('s \<Rightarrow> ('s \<times> real option) res) \<Rightarrow> (bool \<Rightarrow> real \<Rightarrow> 's \<Rightarrow> 's \<times> real option) \<Rightarrow>
     (nat list \<Rightarrow> 'r \<Rightarrow> nat \<times> 'r) \<Rightarrow> ('r \<Rightarrow> real \<times> 'r) \<Rightarrow> ('s, 'r) annealer \<Rightarrow> ('s, 'r) annealer res option" where
  "anneal reset update choices uniform a =
     (case reset (an_schedule a) of
        Inl e \<Rightarrow> Some (Inl e)
      | Inr (s, temperature) \<Rightarrow>
          anneal_loop update choices uniform temperature [] [] (a\<lparr>an_schedule := s\<rparr>))"

definition commit_best :: "('s, 'r) annealer \<Rightarrow> ('s, 'r) annealer res" where
  "commit_best a =
     (if pk_permutation (an_plan a) \<noteq> an_best_permutation a
      then bindE (make_packer (an_buffers a) (an_best_permutation a) (an_size a) (an_alignment a) None)
             (\<lambda>plan. Inr (a\<lparr>an_plan := plan\<rparr>))
      else Inr a)"

definition solve ::
  "('s \<Rightarrow> ('s \<times> real option) res) \<Rightarrow> (bool \<Rightarrow> real \<Rightarrow> 's \<Rightarrow> 's \<times> real option) \<Rightarrow>
     (nat list \<Rightarrow> 'r \<Rightarrow> nat \<times> 'r) \<Rightarrow> ('r \<Rightarrow> real \<times> 'r) \<Rightarrow> ('s, 'r) annealer \<Rightarrow> ('s, 'r) annealer res option" where
  "solve reset update choices uniform a =
     (if is_optimal a then Some (Inr a)
      else case anneal reset update choices uniform a of
             None \<Rightarrow> None
           | Some (Inl e) \<Rightarrow> Some (Inl e)
           | Some (Inr a') \<Rightarrow> Some (commit_best a'))"

text \<open>\<open>finalize\<close> writes through the shared buffer objects into the caller's list.\<close>

definition write_back :: "('s, 'r) annealer \<Rightarrow> buffer list" where
  "write_back a =
     fold (\<lambda>(i, b) bs. bs[i := b])
       (zip (an_placeable a) (packer_finalize (an_plan a) (an_buffers a))) (an_all a)"

definition annealer_plan_layout ::
  "('s \<Rightarrow> ('s \<times> real option) res) \<Rightarrow> (bool \<Rightarrow> real \<Rightarrow> 's \<Rightarrow> 's \<times> real option) \<Rightarrow>
     (nat list \<Rightarrow> 'r \<Rightarrow> nat \<times> 'r) \<Rightarrow> ('r \<Rightarrow> real \<times> 'r) \<Rightarrow> buffer list + ('s, 'r) annealer \<Rightarrow>
     buffer list res option" where
  "annealer_plan_layout reset update choices uniform solver =
     (case solver of
        Inl bs \<Rightarrow> Some (Inr bs)
      | Inr a \<Rightarrow>
          (case solve reset update choices uniform a of
             None \<Rightarrow> None
           | Some (Inl e) \<Rightarrow> Some (Inl e)
           | Some (Inr a') \<Rightarrow> Some (Inr (write_back a'))))"

subsection \<open>The cleanup returns and keeps the layout\<close>

definition top_val :: "packer \<Rightarrow> nat \<Rightarrow> int option" where
  "top_val p x = (if pk_allocated p ! x then Some (pk_addr p ! x + pk_sizes p ! x) else None)"

definition tops :: "packer \<Rightarrow> int option list" where
  "tops p = map (top_val p) (pk_permutation p)"

definition settled_at :: "packer \<Rightarrow> nat \<Rightarrow> bool" where
  "settled_at p k \<longleftrightarrow> overlaps_idx (pk_static p) (pk_permutation p ! k) (pk_permutation p ! (k + 1)) \<or>
     \<not> top_above (top_val p (pk_permutation p ! k)) (top_val p (pk_permutation p ! (k + 1)))"

text \<open>Everything a layout shows, apart from the allocation order.\<close>

definition same_layout :: "packer \<Rightarrow> packer \<Rightarrow> bool" where
  "same_layout p q \<longleftrightarrow> pk_static q = pk_static p \<and> pk_sizes q = pk_sizes p \<and> pk_eligible q = pk_eligible p \<and>
     pk_addr q = pk_addr p \<and> pk_allocated q = pk_allocated p \<and> pk_quality q = pk_quality p \<and>
     pk_count q = pk_count p \<and> mset (pk_permutation q) = mset (pk_permutation p)"

fun inversions :: "int option list \<Rightarrow> nat" where
  "inversions [] = 0"
| "inversions (x # xs) = length (filter (top_above x) xs) + inversions xs"

lemma top_above_asym: "top_above x y \<Longrightarrow> \<not> top_above y x"
  by (cases x; cases y) auto

lemma inversions_swap:
  "top_above x y \<Longrightarrow> inversions (as @ x # y # bs) = inversions (as @ y # x # bs) + 1"
proof (induction as)
  case (Cons a as)
  have "length (filter (top_above a) (as @ x # y # bs)) = length (filter (top_above a) (as @ y # x # bs))" by simp
  with Cons show ?case by simp
qed (auto simp: top_above_asym)

lemma same_layout_trans: "same_layout p q \<Longrightarrow> same_layout q r \<Longrightarrow> same_layout p r"
  by (simp add: same_layout_def)

lemma out_of_order_eq:
  assumes "packer_ok p" "i + 1 < sd_n (pk_static p)"
  shows "out_of_order p i = Inr (\<not> settled_at p i)"
proof -
  note okD = packer_okD [OF assms(1)]
  have i: "i < length (pk_permutation p)" "i + 1 < length (pk_permutation p)" using okD(5) assms(2) by auto
  have "pk_permutation p ! i < sd_n (pk_static p)" "pk_permutation p ! (i + 1) < sd_n (pk_static p)"
    using nth_mem [OF i(1)] nth_mem [OF i(2)] okD(2) by auto
  then show ?thesis
    using i by (simp add: out_of_order_def packer_overlaps_def top_or_inf_def check_def Let_def settled_at_def
        top_val_def [symmetric])
qed

lemma cleanup_swap:
  assumes "coherent p" "i + 1 < sd_n (pk_static p)" "\<not> settled_at p i"
  obtains q where "packer_swap i p = Inr (q, 0)" "coherent q" "same_layout p q"
    "pk_permutation q = (pk_permutation p)[i := pk_permutation p ! (i + 1), i + 1 := pk_permutation p ! i]"
    "inversions (tops p) = inversions (tops q) + 1"
proof -
  let ?perm = "pk_permutation p"
  define q where "q = p\<lparr>pk_permutation := ?perm[i := ?perm ! (i + 1), i + 1 := ?perm ! i],
      pk_position := (pk_position p)[?perm ! i := i + 1, ?perm ! (i + 1) := i]\<rparr>"
  have ok: "packer_ok p" using assms(1) by (simp add: coherent_def)
  have ap: "\<not> overlaps_idx (pk_static p) (?perm ! i) (?perm ! (i + 1))"
      "top_above (top_val p (?perm ! i)) (top_val p (?perm ! (i + 1)))"
    using assms(3) by (auto simp: settled_at_def)
  have sw: "packer_swap i p = Inr (q, 0)"
    using assms(2) ap(1) by (simp add: packer_swap_def Let_def check_def q_def)
  have len: "i + 1 < length ?perm" using assms(2) packer_okD(5) [OF ok] by simp
  note l = swap_list [OF len]
  have qp: "pk_permutation q = take i ?perm @ ?perm ! (i + 1) # ?perm ! i # drop (i + 2) ?perm"
    using l(2) by (simp add: q_def)
  have "mset (pk_permutation q) = mset ?perm" unfolding qp by (subst (5) l(1)) simp
  then have same: "same_layout p q" by (simp add: same_layout_def q_def)
  have tv: "top_val q = top_val p" by (intro ext) (simp add: top_val_def q_def)
  have tq: "tops q = map (top_val p) (take i ?perm) @ top_val p (?perm ! (i + 1)) # top_val p (?perm ! i) #
      map (top_val p) (drop (i + 2) ?perm)"
    unfolding tops_def tv qp by simp
  have "tops p = map (top_val p) (take i ?perm @ ?perm ! i # ?perm ! (i + 1) # drop (i + 2) ?perm)"
    unfolding tops_def using l(1) by (rule arg_cong)
  then have tp: "tops p = map (top_val p) (take i ?perm) @ top_val p (?perm ! i) # top_val p (?perm ! (i + 1)) #
      map (top_val p) (drop (i + 2) ?perm)"
    by simp
  have "inversions (tops p) = inversions (tops q) + 1" unfolding tp tq by (rule inversions_swap [OF ap(2)])
  with that [OF sw packer_swap_coherent(1) [OF assms(1) sw] same] show thesis by (simp add: q_def)
qed

lemma same_layout_top: "same_layout p q \<Longrightarrow> top_val q = top_val p"
  by (intro ext) (simp add: top_val_def same_layout_def)

lemma settled_other:
  assumes "same_layout p q" "pk_permutation q = (pk_permutation p)[i := y, i + 1 := x]"
    and "k + 1 \<noteq> i" "k \<noteq> i" "k \<noteq> i + 1"
  shows "settled_at q k \<longleftrightarrow> settled_at p k"
  using assms same_layout_top [OF assms(1)] by (simp add: settled_at_def same_layout_def)

lemma cleanup_swap_settled:
  assumes "same_layout p q" "i + 1 < length (pk_permutation p)" "\<not> settled_at p i"
    and "pk_permutation q = (pk_permutation p)[i := pk_permutation p ! (i + 1), i + 1 := pk_permutation p ! i]"
  shows "settled_at q i"
proof -
  have "top_above (top_val p (pk_permutation p ! i)) (top_val p (pk_permutation p ! (i + 1)))"
    using assms(3) by (simp add: settled_at_def)
  from top_above_asym [OF this] assms(2,4) same_layout_top [OF assms(1)] show ?thesis
    by (simp add: settled_at_def)
qed

definition settled_outside :: "nat \<Rightarrow> nat \<Rightarrow> packer \<Rightarrow> bool" where
  "settled_outside i j p \<longleftrightarrow> (\<forall>k. k + 1 < sd_n (pk_static p) \<longrightarrow> k < i \<or> j < k \<longrightarrow> settled_at p k)"

lemma settled_outside_swap:
  assumes "packer_ok p" "same_layout p q" "i + 1 < sd_n (pk_static p)" "\<not> settled_at p i" "i \<le> j"
    and "pk_permutation q = (pk_permutation p)[i := pk_permutation p ! (i + 1), i + 1 := pk_permutation p ! i]"
    and "settled_outside i j p"
  shows "settled_outside (if i > 0 then i - 1 else 1) (widen p i j) q"
  unfolding settled_outside_def
proof (intro allI impI)
  fix k assume k: "k + 1 < sd_n (pk_static q)" "k < (if i > 0 then i - 1 else 1) \<or> widen p i j < k"
  have len: "length (pk_permutation p) = sd_n (pk_static p)" by (rule packer_okD(5) [OF assms(1)])
  have n: "sd_n (pk_static q) = sd_n (pk_static p)" using assms(2) by (simp add: same_layout_def)
  show "settled_at q k"
  proof (cases "k = i")
    case True
    then show ?thesis using cleanup_swap_settled [OF assms(2) _ assms(4,6)] assms(3) len by simp
  next
    case False
    have "k + 1 \<noteq> i" "k \<noteq> i + 1" "k < i \<or> j < k"
      using k n len False assms(5) by (auto simp: widen_def split: if_splits)
    with settled_other [OF assms(2,6) _ False] assms(7) k(1) n show ?thesis by (auto simp: settled_outside_def)
  qed
qed

lemma cleanup_loop_returns:
  assumes "coherent p" "j + 1 < sd_n (pk_static p)" "i \<le> j + 1"
  shows "\<exists>q. cleanup_loop i j p = Some (Inr q) \<and> coherent q \<and> same_layout p q \<and>
     (settled_outside i j p \<longrightarrow> (\<forall>k. k + 1 < sd_n (pk_static p) \<longrightarrow> settled_at q k))"
  using assms
proof (induction "3 * inversions (tops p) + (j + 1 - i)" arbitrary: i j p rule: less_induct)
  case less
  have ok: "packer_ok p" using less.prems(1) by (simp add: coherent_def)
  show ?case
  proof (cases "i \<le> j")
    case False
    then have "cleanup_loop i j p = Some (Inr p)" by (subst cleanup_loop.simps) simp
    moreover have "settled_outside i j p \<longrightarrow> (\<forall>k. k + 1 < sd_n (pk_static p) \<longrightarrow> settled_at p k)"
      using False by (auto simp: settled_outside_def)
    ultimately show ?thesis using less.prems(1) by (auto simp: same_layout_def)
  next
    case True
    then have i: "i + 1 < sd_n (pk_static p)" using less.prems(2) by simp
    note ooo = out_of_order_eq [OF ok i]
    show ?thesis
    proof (cases "settled_at p i")
      case settled: True
      then have run: "cleanup_loop i j p = cleanup_loop (i + 1) j p"
        using True ooo by (subst cleanup_loop.simps) simp
      have "settled_outside (i + 1) j p" if "settled_outside i j p"
        using that settled by (auto simp: settled_outside_def less_Suc_eq)
      with less.hyps [of p j "i + 1"] less.prems True run show ?thesis by fastforce
    next
      case False
      obtain q where q: "packer_swap i p = Inr (q, 0)" "coherent q" "same_layout p q"
          "pk_permutation q = (pk_permutation p)[i := pk_permutation p ! (i + 1), i + 1 := pk_permutation p ! i]"
          "inversions (tops p) = inversions (tops q) + 1"
        by (rule cleanup_swap [OF less.prems(1) i False])
      let ?i = "if i > 0 then i - 1 else 1" and ?j = "widen p i j"
      have run: "cleanup_loop i j p = cleanup_loop ?i ?j q"
        using True ooo False q(1) by (subst cleanup_loop.simps) simp
      have n: "sd_n (pk_static q) = sd_n (pk_static p)" using q(3) by (simp add: same_layout_def)
      have wid: "j \<le> ?j" "?j \<le> j + 1" "?j + 1 < sd_n (pk_static q)"
        using less.prems(2) packer_okD(5) [OF ok] n by (auto simp: widen_def)
      have less': "3 * inversions (tops q) + (?j + 1 - ?i) < 3 * inversions (tops p) + (j + 1 - i)"
          and window: "?i \<le> ?j + 1"
        using True wid q(5) by auto
      from less.hyps [OF less' q(2) wid(3) window] obtain r where r: "cleanup_loop ?i ?j q = Some (Inr r)"
          "coherent r" "same_layout q r"
          "settled_outside ?i ?j q \<longrightarrow> (\<forall>k. k + 1 < sd_n (pk_static q) \<longrightarrow> settled_at r k)"
        by blast
      with run settled_outside_swap [OF ok q(3) i False True q(4)] same_layout_trans [OF q(3) r(3)] n
      show ?thesis by auto
    qed
  qed
qed

lemma annealing_step_swap_returns:
  assumes "coherent p" "i \<noteq> j" "i < sd_n (pk_static p)" "j < sd_n (pk_static p)"
  shows "\<exists>q. annealing_step_swap i j p = Some (Inr q) \<and> coherent q \<and> same_layout p q \<and>
     (settled_outside (min i j - 1) (max i j) p \<longrightarrow> (\<forall>k. k + 1 < sd_n (pk_static p) \<longrightarrow> settled_at q k))"
proof -
  let ?n = "sd_n (pk_static p)" and ?hi = "if max i j = sd_n (pk_static p) - 1 then sd_n (pk_static p) - 2 else max i j"
  have n: "length (pk_permutation p) = ?n" using assms(1) by (simp add: coherent_def packer_okD)
  have b: "?hi + 1 < ?n" "min i j - 1 \<le> ?hi + 1" using assms(2-4) by auto
  have run: "annealing_step_swap i j p = cleanup_loop (min i j - 1) ?hi p"
    using assms(2-4) n by (simp add: annealing_step_swap_def Let_def)
  have "settled_outside (min i j - 1) ?hi p" if "settled_outside (min i j - 1) (max i j) p"
    using that by (auto simp: settled_outside_def)
  with cleanup_loop_returns [OF assms(1) b] run show ?thesis by auto
qed

subsection \<open>The invariant of the search\<close>

text \<open>Documented behaviour of \<open>random.choices\<close>: with positive weights it draws an index of the list.\<close>

definition draws_index :: "(nat list \<Rightarrow> 'r \<Rightarrow> nat \<times> 'r) \<Rightarrow> bool" where
  "draws_index choices \<longleftrightarrow>
     (\<forall>ws r. ws \<noteq> [] \<longrightarrow> (\<forall>w\<in>set ws. 0 < w) \<longrightarrow> fst (choices ws r) < length ws)"

definition packs :: "('s, 'r) annealer \<Rightarrow> packer \<Rightarrow> bool" where
  "packs a p \<longleftrightarrow> coherent p \<and> pk_static p = make_static (an_buffers a) (an_size a) (an_alignment a) \<and>
     pk_sizes p = map b_size (an_buffers a) \<and> pk_eligible p = replicate (length (an_buffers a)) True"

definition permutation_quality :: "('s, 'r) annealer \<Rightarrow> nat list \<Rightarrow> real" where
  "permutation_quality a perm =
     (let st = make_static (an_buffers a) (an_size a) (an_alignment a); sizes = map b_size (an_buffers a)
      in placement_quality st sizes (placement st sizes (replicate (length (an_buffers a)) True) perm))"

definition packable :: "buffer list \<Rightarrow> int \<Rightarrow> bool" where
  "packable bs alignment \<longleftrightarrow> 0 < alignment \<and> list_all fields_readable bs \<and> distinct (map b_name bs) \<and>
     list_all (parents_valid bs) [0..<length bs] \<and> (\<forall>b\<in>set bs. start_time b < end_time b)"

definition annealer_inv :: "real \<Rightarrow> ('s, 'r) annealer \<Rightarrow> bool" where
  "annealer_inv q a \<longleftrightarrow> an_placeable a \<noteq> [] \<and> packs a (an_plan a) \<and> packable (an_buffers a) (an_alignment a) \<and>
     sort (an_best_permutation a) = [0..<length (an_buffers a)] \<and>
     an_best_quality a = permutation_quality a (an_best_permutation a) \<and> q \<le> an_best_quality a"

definition same_problem :: "('s, 'r) annealer \<Rightarrow> ('s, 'r) annealer \<Rightarrow> bool" where
  "same_problem a b \<longleftrightarrow> an_all b = an_all a \<and> an_placeable b = an_placeable a \<and> an_size b = an_size a \<and>
     an_alignment b = an_alignment a"

lemma same_problemD:
  assumes "same_problem a b"
  shows "an_buffers b = an_buffers a" "permutation_quality b = permutation_quality a" "packs b = packs a"
    and "an_placeable b = an_placeable a" "an_alignment b = an_alignment a" "an_size b = an_size a" "an_all b = an_all a"
  using assms by (auto simp: same_problem_def an_buffers_def permutation_quality_def packs_def fun_eq_iff)

lemma length_an_buffers [simp]: "length (an_buffers a) = length (an_placeable a)"
  by (simp add: an_buffers_def)

lemma packs_quality: "packs a p \<Longrightarrow> pk_quality p = permutation_quality a (pk_permutation p)"
  by (simp add: packs_def coherent_def permutation_quality_def Let_def spec_of_def [abs_def])

lemma packs_permutation:
  assumes "packs a p"
  shows "sort (pk_permutation p) = [0..<length (an_placeable a)]" "sd_n (pk_static p) = length (an_placeable a)"
proof -
  show n: "sd_n (pk_static p) = length (an_placeable a)" using assms by (simp add: packs_def)
  have "packer_ok p" using assms by (simp add: packs_def coherent_def)
  note okD = packer_okD [OF this]
  have "sort (pk_permutation p) = sorted_list_of_set (set (pk_permutation p))"
    using okD(1) by (simp add: sorted_list_of_set_sort_remdups distinct_remdups_id)
  then show "sort (pk_permutation p) = [0..<length (an_placeable a)]"
    using okD(2) n by (simp add: lessThan_atLeast0)
qed

lemma same_layout_packs: "packs a p \<Longrightarrow> same_layout p q \<Longrightarrow> coherent q \<Longrightarrow> packs a q"
  by (simp add: packs_def same_layout_def)

lemma packer_swap_total:
  assumes "i + 1 < sd_n (pk_static p)"
  shows "\<exists>q d. packer_swap i p = Inr (q, d) \<and> pk_static q = pk_static p"
  using assms by (auto simp: packer_swap_def check_def Let_def)

lemma packer_rotate_total:
  assumes "i < sd_n (pk_static p)" "j < sd_n (pk_static p)"
  shows "\<exists>q d. packer_rotate i j p = Inr (q, d) \<and> pk_static q = pk_static p \<and> pk_sizes q = pk_sizes p \<and>
     pk_eligible q = pk_eligible p"
  using assms by (auto simp: packer_rotate_def check_def Let_def move_in_permutation_def)

lemma packer_rotate_packs:
  assumes "packs a p" "i < length (an_placeable a)" "j < length (an_placeable a)"
  shows "\<exists>q d. packer_rotate i j p = Inr (q, d) \<and> packs a q"
proof -
  have "i < sd_n (pk_static p)" "j < sd_n (pk_static p)" using assms packs_permutation(2) [OF assms(1)] by simp_all
  from packer_rotate_total [OF this] obtain q d where q: "packer_rotate i j p = Inr (q, d)" "pk_static q = pk_static p"
      "pk_sizes q = pk_sizes p" "pk_eligible q = pk_eligible p"
    by blast
  moreover have "coherent q" using packer_rotate_coherent(1) [OF _ q(1)] assms(1) by (simp add: packs_def)
  ultimately show ?thesis using assms(1) by (auto simp: packs_def)
qed

subsection \<open>One reinsertion step\<close>

lemma probe_bound_le: "0 < length allocated \<Longrightarrow> probe_bound i allocated < length allocated"
  by (auto simp: probe_bound_def Let_def)

lemma probe_positions_total:
  assumes "\<forall>p\<in>set ps. 0 < p \<and> p < sd_n (pk_static probe)" "qs ! i = None" "length qs = n"
  shows "\<exists>qs'. probe_positions i ps probe qs = Inr qs' \<and> qs' ! i = None \<and> length qs' = n"
  using assms
proof (induction ps arbitrary: probe qs)
  case (Cons p ps)
  then have "p - 1 + 1 < sd_n (pk_static probe)" by simp
  from packer_swap_total [OF this] obtain q d where q: "packer_swap (p - 1) probe = Inr (q, d)"
      "pk_static q = pk_static probe"
    by blast
  let ?qs = "if p \<noteq> i then qs[p := Some (pk_quality q)] else qs"
  have "?qs ! i = None" "length ?qs = n" using Cons.prems by auto
  with Cons.IH [of q ?qs] Cons.prems(1) q show ?case by simp
qed simp

lemma probe_qualities_total:
  assumes "length allocated = sd_n (pk_static plan)" "i < length allocated"
  shows "\<exists>qs. probe_qualities i allocated plan = Inr qs \<and> qs ! i = None \<and> length qs = length allocated"
proof -
  let ?n = "length allocated"
  obtain probe qs where start: "(if i \<noteq> 0
      then bindE (packer_rotate i 0 plan) (\<lambda>(probe, d).
             Inr (probe, (replicate ?n None)[0 := Some (pk_quality probe)]))
      else Inr (plan, replicate ?n None)) = Inr (probe, qs)"
      "pk_static probe = pk_static plan" "qs ! i = None" "length qs = ?n"
  proof (cases "i = 0")
    case False
    have "i < sd_n (pk_static plan)" "0 < sd_n (pk_static plan)" using assms by simp_all
    from packer_rotate_total [OF this] obtain q d where "packer_rotate i 0 plan = Inr (q, d)"
        "pk_static q = pk_static plan"
      by blast
    with that [of q "(replicate ?n None)[0 := Some (pk_quality q)]"] False assms(2) show thesis by simp
  qed (use that [of plan "replicate ?n None"] assms in simp)
  have "\<forall>p\<in>set [1..<probe_bound i allocated + 1]. 0 < p \<and> p < sd_n (pk_static probe)"
    using probe_bound_le [of allocated i] assms start(2) by auto
  from probe_positions_total [OF this start(3,4)] start(1) show ?thesis
    by (simp add: probe_qualities_def Let_def)
qed

lemma accept_point_total:
  assumes "\<forall>j\<in>set js. j \<noteq> i \<and> qs ! j \<noteq> None" "temperature \<noteq> 0"
  shows "\<exists>target rng'. accept_point uniform temperature q0 qs i js rng = Inr (target, rng') \<and>
     (\<forall>j. target = Some j \<longrightarrow> j \<in> set js)"
  using assms
proof (induction js arbitrary: rng)
  case (Cons j js)
  then obtain qj where qj: "qs ! j = Some qj" "i \<noteq> j" by auto
  obtain u rng' where u: "uniform rng = (u, rng')" by fastforce
  from Cons.IH [of rng'] Cons.prems obtain target r where
    "accept_point uniform temperature q0 qs i js rng' = Inr (target, r)" "\<forall>j. target = Some j \<longrightarrow> j \<in> set js"
    by auto
  with qj u Cons.prems(2) show ?case by auto
qed simp

lemma insertion_points_mem:
  "j \<in> set (insertion_points qs) \<longleftrightarrow> j < length qs \<and> qs ! j \<noteq> None"
  by (auto simp: insertion_points_def)

lemma choice_weights_positive: "w \<in> set (choice_weights allocated) \<Longrightarrow> 0 < w"
  by (auto simp: choice_weights_def Let_def split: if_splits)

lemma length_choice_weights [simp]: "length (choice_weights allocated) = length allocated"
  by (simp add: choice_weights_def Let_def)

lemma allocated_flags:
  assumes "packer_ok p"
  shows "mapE (\<lambda>k. is_fully_allocated p (pk_permutation p ! k)) [0..<sd_n (pk_static p)] =
         Inr (map (\<lambda>k. pk_allocated p ! (pk_permutation p ! k)) [0..<sd_n (pk_static p)])"
proof (rule mapE_all)
  fix k assume "k \<in> set [0..<sd_n (pk_static p)]"
  then have "pk_permutation p ! k \<in> set (pk_permutation p)" using packer_okD(5) [OF assms] by simp
  then show "is_fully_allocated p (pk_permutation p ! k) = Inr (pk_allocated p ! (pk_permutation p ! k))"
    using packer_okD(2) [OF assms] by (simp add: is_fully_allocated_def check_def)
qed

definition valid_move :: "nat \<Rightarrow> (nat \<times> nat) option \<Rightarrow> bool" where
  "valid_move n move \<longleftrightarrow> (\<forall>i j. move = Some (i, j) \<longrightarrow> i \<noteq> j \<and> i < n \<and> j < n)"

lemma annealing_step_rotate_total:
  assumes "packs a (an_plan a)" "an_placeable a \<noteq> []" "draws_index choices" "temperature \<noteq> 0"
  shows "\<exists>plan rng move scale. annealing_step_rotate choices uniform temperature a =
       Inr (a\<lparr>an_plan := plan, an_random := rng\<rparr>, move, scale) \<and> packs a plan \<and>
       valid_move (length (an_placeable a)) move"
proof -
  define n where "n = length (an_placeable a)"
  define plan where "plan = an_plan a"
  define allocated where "allocated = map (\<lambda>k. pk_allocated plan ! (pk_permutation plan ! k)) [0..<n]"
  have sd: "sd_n (pk_static plan) = n" using packs_permutation(2) [OF assms(1)] by (simp add: plan_def n_def)
  have al: "mapE (\<lambda>k. is_fully_allocated plan (pk_permutation plan ! k)) [0..<n] = Inr allocated"
    unfolding allocated_def sd [symmetric] using assms(1)
    by (intro allocated_flags) (simp add: packs_def coherent_def plan_def)
  obtain i rng where ch: "choices (choice_weights allocated) (an_random a) = (i, rng)" by fastforce
  have len: "length allocated = n" by (simp add: allocated_def)
  have "0 < n" using assms(2) by (simp add: n_def)
  then have "choice_weights allocated \<noteq> []" using len by (metis length_0_conv length_choice_weights less_not_refl)
  moreover have "\<forall>w\<in>set (choice_weights allocated). 0 < w" using choice_weights_positive by blast
  ultimately have "fst (choices (choice_weights allocated) (an_random a)) < length (choice_weights allocated)"
    using assms(3) unfolding draws_index_def by blast
  then have i: "i < n" using ch len by simp
  obtain qs where qs: "probe_qualities i allocated plan = Inr qs" "qs ! i = None" "length qs = n"
    using probe_qualities_total [of allocated plan i] len sd i by auto
  have "\<forall>j\<in>set (insertion_points qs). j \<noteq> i \<and> qs ! j \<noteq> None" using qs(2) by (auto simp: insertion_points_mem)
  from accept_point_total [OF this assms(4), of uniform "pk_quality plan" rng]
  obtain target rng' where acc: "accept_point uniform temperature (pk_quality plan) qs i (insertion_points qs) rng =
        Inr (target, rng')" and mem: "\<forall>j. target = Some j \<longrightarrow> j \<in> set (insertion_points qs)"
    by blast
  have tgt: "\<forall>j. target = Some j \<longrightarrow> j < n \<and> j \<noteq> i"
    using mem qs(2,3) unfolding insertion_points_mem by metis
  have run: "annealing_step_rotate choices uniform temperature a =
      (case target of
         None \<Rightarrow> Inr (a\<lparr>an_random := rng'\<rparr>, None, move_scale_of (pk_quality plan) qs)
       | Some j \<Rightarrow> bindE (packer_rotate i j plan) (\<lambda>(plan', d).
           Inr (a\<lparr>an_plan := plan', an_random := rng'\<rparr>, Some (i, j), move_scale_of (pk_quality plan) qs)))"
    unfolding annealing_step_rotate_def Let_def plan_def [symmetric] n_def [symmetric]
    by (simp add: al ch qs(1) acc)
  show ?thesis
  proof (cases target)
    case None
    then have "annealing_step_rotate choices uniform temperature a =
        Inr (a\<lparr>an_plan := plan, an_random := rng'\<rparr>, None, move_scale_of (pk_quality plan) qs)"
      using run by (simp add: plan_def)
    moreover have "packs a plan" "valid_move (length (an_placeable a)) None"
      using assms(1) by (simp_all add: plan_def valid_move_def)
    ultimately show ?thesis by blast
  next
    case (Some j)
    then obtain q d where q: "packer_rotate i j plan = Inr (q, d)" "packs a q"
      using packer_rotate_packs [OF assms(1), of i j] i tgt by (auto simp: plan_def n_def)
    then have "annealing_step_rotate choices uniform temperature a =
        Inr (a\<lparr>an_plan := q, an_random := rng'\<rparr>, Some (i, j), move_scale_of (pk_quality plan) qs)"
      using run Some by simp
    moreover have "valid_move (length (an_placeable a)) (Some (i, j))"
      using Some tgt i by (simp add: valid_move_def n_def)
    ultimately show ?thesis using q(2) by blast
  qed
qed

subsection \<open>The anneal returns\<close>

lemma cleanup_step_total:
  assumes "packs a (an_plan a)" "valid_move (length (an_placeable a)) move"
  shows "\<exists>plan. cleanup_step a move = Some (Inr (a\<lparr>an_plan := plan\<rparr>)) \<and> packs a plan"
proof (cases move)
  case None
  then show ?thesis using assms(1) by (intro exI [of _ "an_plan a"]) (simp add: cleanup_step_def)
next
  case (Some m)
  obtain i j where m: "m = (i, j)" by fastforce
  have "i < sd_n (pk_static (an_plan a))" "j < sd_n (pk_static (an_plan a))" "i \<noteq> j" "coherent (an_plan a)"
    using assms Some m packs_permutation(2) [OF assms(1)] by (simp_all add: packs_def valid_move_def)
  from annealing_step_swap_returns [OF this(4,3,1,2)] obtain q where
    "annealing_step_swap i j (an_plan a) = Some (Inr q)" "coherent q" "same_layout (an_plan a) q"
    by blast
  with same_layout_packs [OF assms(1)] show ?thesis by (auto simp: cleanup_step_def Some m)
qed

lemma annealer_inv_note_best:
  assumes "annealer_inv q a" "packs a plan"
  shows "annealer_inv q (note_best (a\<lparr>an_plan := plan, an_random := rng\<rparr>))"
    and "same_problem a (note_best (a\<lparr>an_plan := plan, an_random := rng\<rparr>))"
    and "an_schedule (note_best (a\<lparr>an_plan := plan, an_random := rng\<rparr>)) = an_schedule a"
proof -
  let ?b = "note_best (a\<lparr>an_plan := plan, an_random := rng\<rparr>)"
  show same: "same_problem a ?b" and "an_schedule ?b = an_schedule a"
    by (simp_all add: note_best_def same_problem_def)
  note sp = same_problemD [OF same]
  have "an_plan ?b = plan" by (simp add: note_best_def)
  moreover have "sort (an_best_permutation ?b) = [0..<length (an_placeable a)]"
    using assms packs_permutation(1) [OF assms(2)] by (simp add: note_best_def annealer_inv_def)
  moreover have "an_best_quality ?b = permutation_quality a (an_best_permutation ?b) \<and> q \<le> an_best_quality ?b"
    using assms packs_quality [OF assms(2)] by (simp add: note_best_def annealer_inv_def)
  ultimately show "annealer_inv q ?b" using assms sp by (simp add: annealer_inv_def)
qed

lemma anneal_step_total:
  assumes "annealer_inv q a" "draws_index choices" "temperature \<noteq> 0"
  shows "\<exists>b acc scale. anneal_step choices uniform temperature a = Some (Inr (b, acc, scale)) \<and>
     annealer_inv q b \<and> same_problem a b \<and> an_schedule b = an_schedule a"
proof -
  have pk: "packs a (an_plan a)" "an_placeable a \<noteq> []" using assms(1) by (simp_all add: annealer_inv_def)
  from annealing_step_rotate_total [OF pk assms(2,3)] obtain plan rng move scale where
    rot: "annealing_step_rotate choices uniform temperature a = Inr (a\<lparr>an_plan := plan, an_random := rng\<rparr>, move, scale)"
      "packs a plan" "valid_move (length (an_placeable a)) move"
    by blast
  let ?a1 = "a\<lparr>an_plan := plan, an_random := rng\<rparr>"
  have sp: "same_problem a ?a1" by (simp add: same_problem_def)
  have "packs ?a1 (an_plan ?a1)" using rot(2) same_problemD(3) [OF sp] by simp
  from cleanup_step_total [OF this, of move] rot(3) obtain plan2 where
    cl: "cleanup_step ?a1 move = Some (Inr (?a1\<lparr>an_plan := plan2\<rparr>))" "packs ?a1 plan2"
    by auto
  then have "packs a plan2" using same_problemD(3) [OF sp] by simp
  note nb = annealer_inv_note_best [OF assms(1) this, of rng]
  have "anneal_step choices uniform temperature a =
      Some (Inr (note_best (a\<lparr>an_plan := plan2, an_random := rng\<rparr>), move \<noteq> None, scale))"
  proof -
    have "?a1\<lparr>an_plan := plan2\<rparr> = a\<lparr>an_plan := plan2, an_random := rng\<rparr>" by (cases a) simp
    then show ?thesis using rot(1) cl(1) by (simp only: anneal_step_def sum.case prod.case option.case)
  qed
  with nb show ?thesis by blast
qed

lemma annealer_inv_frame:
  "annealer_inv q (a\<lparr>an_schedule := s\<rparr>) = annealer_inv q a"
  "annealer_inv q (close_logs qlg tlg a) = annealer_inv q a"
  "same_problem a (b\<lparr>an_schedule := s\<rparr>) = same_problem a b"
  "same_problem a (close_logs qlg tlg b) = same_problem a b"
  "same_problem (a\<lparr>an_schedule := s\<rparr>) b = same_problem a b"
  by (simp_all add: annealer_inv_def packs_def permutation_quality_def an_buffers_def same_problem_def close_logs_def)

lemma same_problem_trans: "same_problem a b \<Longrightarrow> same_problem b c \<Longrightarrow> same_problem a c"
  by (simp add: same_problem_def)

context cooling_schedule
begin

lemma anneal_loop_returns:
  assumes "annealer_inv q a" "draws_index choices" "running (an_schedule a)"
    and "\<forall>t. temperature = Some t \<longrightarrow> 0 < t"
  shows "\<exists>b. anneal_loop update choices uniform temperature qlg tlg a = Some (Inr b) \<and>
     annealer_inv q b \<and> same_problem a b"
  using assms(1,3,4)
proof (induction "left (an_schedule a)" arbitrary: a temperature qlg tlg rule: less_induct)
  case less
  show ?case
  proof (cases temperature)
    case None
    then have "anneal_loop update choices uniform temperature qlg tlg a = Some (Inr (close_logs qlg tlg a))"
      by (subst anneal_loop.simps) simp
    with less.prems(1) show ?thesis
      by (intro exI [of _ "close_logs qlg tlg a"]) (simp add: annealer_inv_frame, simp add: same_problem_def)
  next
    case (Some t)
    then have "t \<noteq> 0" using less.prems(3) by auto
    from anneal_step_total [OF less.prems(1) assms(2) this, of uniform] obtain b acc scale where
      st: "anneal_step choices uniform t a = Some (Inr (b, acc, scale))" "annealer_inv q b" "same_problem a b"
        "an_schedule b = an_schedule a"
      by blast
    obtain s' t' where u: "update acc scale (an_schedule b) = (s', t')" by fastforce
    let ?qlg = "qlg @ [pk_quality (an_plan b)]" and ?tlg = "tlg @ [t]"
    have run: "anneal_loop update choices uniform temperature qlg tlg a =
        (if is_optimal b then Some (Inr (close_logs ?qlg ?tlg b))
         else anneal_loop update choices uniform t' ?qlg ?tlg (b\<lparr>an_schedule := s'\<rparr>))"
      using Some st(1) u by (subst anneal_loop.simps) (simp add: Let_def)
    show ?thesis
    proof (cases "is_optimal b")
      case True
      with run st(2,3) show ?thesis
        by (intro exI [of _ "close_logs ?qlg ?tlg b"]) (simp add: annealer_inv_frame)
    next
      case False
      show ?thesis
      proof (cases t')
        case stop: None
        then have "anneal_loop update choices uniform t' ?qlg ?tlg (b\<lparr>an_schedule := s'\<rparr>) =
            Some (Inr (close_logs ?qlg ?tlg (b\<lparr>an_schedule := s'\<rparr>)))"
          by (subst anneal_loop.simps) simp
        with run False st(2,3) show ?thesis
          by (intro exI [of _ "close_logs ?qlg ?tlg (b\<lparr>an_schedule := s'\<rparr>)"]) (simp add: annealer_inv_frame)
      next
        case next_t: (Some x)
        have up: "running s' \<and> 0 < x \<and> left s' < left (an_schedule a)"
          using update_runs [of "an_schedule a" acc scale s' x] less.prems(2) u st(4) next_t by simp
        have "\<exists>c. anneal_loop update choices uniform t' ?qlg ?tlg (b\<lparr>an_schedule := s'\<rparr>) = Some (Inr c) \<and>
            annealer_inv q c \<and> same_problem (b\<lparr>an_schedule := s'\<rparr>) c"
          using up st(2) next_t by (intro less.hyps) (simp_all add: annealer_inv_frame)
        with run False st(3) same_problem_trans show ?thesis by (fastforce simp: annealer_inv_frame)
      qed
    qed
  qed
qed

end

subsection \<open>The best layout is committed\<close>

lemma make_packer_total:
  assumes "packable bs alignment" "sort perm = [0..<length bs]"
  shows "\<exists>p. make_packer bs perm sz alignment None = Inr p \<and> coherent p \<and>
     pk_static p = make_static bs sz alignment \<and> pk_permutation p = perm \<and> pk_sizes p = map b_size bs \<and>
     pk_eligible p = replicate (length bs) True"
proof -
  from assms obtain p where p: "make_packer bs perm sz alignment None = Inr p"
    by (auto simp: make_packer_def initial_packer_def packable_def check_def)
  moreover have "coherent p" using p assms(1) by (auto intro: make_packer_coherent simp: packable_def)
  ultimately show ?thesis using make_packer_frame [OF p] by blast
qed

lemma make_packer_packable:
  assumes "make_packer bs perm sz alignment None = Inr p" "\<forall>b\<in>set bs. post_init b = Inr ()"
  shows "packable bs alignment"
proof -
  have rd: "list_all fields_readable bs" and rest: "0 < alignment" "distinct (map b_name bs)"
      "list_all (parents_valid bs) [0..<length bs]"
    using assms(1) by (auto elim!: make_packer_cases)
  have "start_time b < end_time b" if "b \<in> set bs" for b
  proof -
    have "uses_known b" using rd that by (simp add: list_all_iff fields_readable_def uses_known_def)
    then show ?thesis using assms(2) that by (simp add: post_initD)
  qed
  with rd rest show ?thesis by (simp add: packable_def)
qed

lemma commit_best_total:
  assumes "annealer_inv q a"
  shows "\<exists>b. commit_best a = Inr b \<and> packs a (an_plan b) \<and> same_problem a b \<and> q \<le> pk_quality (an_plan b)"
proof (cases "pk_permutation (an_plan a) = an_best_permutation a")
  case True
  have "pk_quality (an_plan a) = an_best_quality a"
    using assms packs_quality [of a "an_plan a"] True by (simp add: annealer_inv_def)
  with True assms show ?thesis
    by (intro exI [of _ a]) (simp add: commit_best_def annealer_inv_def same_problem_def)
next
  case False
  have inv: "packable (an_buffers a) (an_alignment a)" "sort (an_best_permutation a) = [0..<length (an_buffers a)]"
      "an_best_quality a = permutation_quality a (an_best_permutation a)" "q \<le> an_best_quality a"
    using assms by (simp_all add: annealer_inv_def)
  from make_packer_total [OF inv(1,2), of "an_size a"] obtain p where
    p: "make_packer (an_buffers a) (an_best_permutation a) (an_size a) (an_alignment a) None = Inr p"
      "packs a p" "pk_permutation p = an_best_permutation a"
    by (auto simp: packs_def)
  with packs_quality [OF p(2)] inv False show ?thesis
    by (intro exI [of _ "a\<lparr>an_plan := p\<rparr>"]) (simp add: commit_best_def same_problem_def)
qed

context cooling_schedule
begin

lemma solve_returns:
  assumes "annealer_inv q a" "q \<le> pk_quality (an_plan a)" "draws_index choices"
    and "ready (an_schedule a) \<or> is_optimal a"
  shows "\<exists>b. solve reset update choices uniform a = Some (Inr b) \<and> packs a (an_plan b) \<and> same_problem a b \<and>
     q \<le> pk_quality (an_plan b)"
proof (cases "is_optimal a")
  case True
  with assms(1,2) show ?thesis
    by (intro exI [of _ a]) (simp add: solve_def annealer_inv_def same_problem_def)
next
  case False
  with assms(4) reset_runs obtain s t where r: "reset (an_schedule a) = Inr (s, Some t)" "running s" "0 < t" by blast
  have "annealer_inv q (a\<lparr>an_schedule := s\<rparr>)" using assms(1) by (simp add: annealer_inv_frame)
  from anneal_loop_returns [OF this assms(3), of "Some t" uniform "[]" "[]"] r obtain b where
    b: "anneal_loop update choices uniform (Some t) [] [] (a\<lparr>an_schedule := s\<rparr>) = Some (Inr b)" "annealer_inv q b"
      "same_problem a b"
    by (auto simp: annealer_inv_frame)
  from commit_best_total [OF b(2)] obtain c where
    c: "commit_best b = Inr c" "packs b (an_plan c)" "same_problem b c" "q \<le> pk_quality (an_plan c)"
    by blast
  have "solve reset update choices uniform a = Some (Inr c)"
    using False r(1) b(1) c(1) by (simp add: solve_def anneal_def)
  with c same_problemD(3) [OF b(3)] same_problem_trans [OF b(3) c(3)] show ?thesis by auto
qed

end

subsection \<open>Writing the layout back\<close>

lemma fold_update_nth:
  assumes "distinct (map fst us)"
  shows "length (fold (\<lambda>(i, b) bs. bs[i := b]) us bs) = length bs \<and>
         (\<forall>j<length bs. fold (\<lambda>(i, b) bs. bs[i := b]) us bs ! j =
            (case map_of us j of Some b \<Rightarrow> b | None \<Rightarrow> bs ! j))"
  using assms
proof (induction us arbitrary: bs)
  case (Cons u us)
  obtain i b where u: "u = (i, b)" by fastforce
  have d: "distinct (map fst us)" "map_of us i = None" using Cons.prems u by (auto simp: map_of_eq_None_iff)
  from Cons.IH [OF d(1), of "bs[i := b]"] d(2) show ?case
    by (auto simp: u nth_list_update split: option.split)
qed simp

lemma write_back_nth:
  assumes "packs a (an_plan a)" "distinct (an_placeable a)" "set (an_placeable a) \<subseteq> {..<length (an_all a)}"
  shows "length (write_back a) = length (an_all a)"
    and "k < length (an_placeable a) \<Longrightarrow> write_back a ! (an_placeable a ! k) =
           (an_all a ! (an_placeable a ! k))\<lparr>address := packer_addresses (an_plan a) ! k\<rparr>"
    and "j < length (an_all a) \<Longrightarrow> j \<notin> set (an_placeable a) \<Longrightarrow> write_back a ! j = an_all a ! j"
proof -
  define fin where "fin = packer_finalize (an_plan a) (an_buffers a)"
  have addr: "length (packer_addresses (an_plan a)) = length (an_placeable a)"
    using packs_permutation(2) [OF assms(1)] by (simp add: packer_addresses_def)
  then have len: "length fin = length (an_placeable a)" by (simp add: fin_def packer_finalize_def)
  have "distinct (map fst (zip (an_placeable a) fin))" using assms(2) len by simp
  note f = fold_update_nth [OF this, of "an_all a"]
  have wb: "write_back a = fold (\<lambda>(i, b) bs. bs[i := b]) (zip (an_placeable a) fin) (an_all a)"
    by (simp add: write_back_def fin_def)
  show "length (write_back a) = length (an_all a)" using f by (simp add: wb)
  show "write_back a ! j = an_all a ! j" if "j < length (an_all a)" "j \<notin> set (an_placeable a)"
  proof -
    have "map_of (zip (an_placeable a) fin) j = None" using that(2) by (auto simp: map_of_eq_None_iff dest: set_zip_leftD)
    then show ?thesis using f that by (simp add: wb)
  qed
  show "write_back a ! (an_placeable a ! k) =
      (an_all a ! (an_placeable a ! k))\<lparr>address := packer_addresses (an_plan a) ! k\<rparr>"
    if k: "k < length (an_placeable a)"
  proof -
    have "map_of (zip (an_placeable a) fin) (an_placeable a ! k) = Some (fin ! k)"
      using map_of_zip_nth [OF len [symmetric] assms(2)] k len by simp
    moreover have "fin ! k = (an_all a ! (an_placeable a ! k))\<lparr>address := packer_addresses (an_plan a) ! k\<rparr>"
      using k addr by (simp add: fin_def packer_finalize_def an_buffers_def)
    moreover have "an_placeable a ! k < length (an_all a)" using k assms(3) nth_mem by blast
    ultimately show ?thesis using f by (simp add: wb)
  qed
qed

text \<open>The value of a layout: the use-weighted bytes of the placed buffers.\<close>

definition layout_quality :: "buffer list \<Rightarrow> real" where
  "layout_quality bs = (\<Sum>b\<leftarrow>bs. if address b = None then 0 else use_weight b * of_int (b_size b))"

lemma write_back_quality:
  assumes "packs a (an_plan a)" "distinct (an_placeable a)" "set (an_placeable a) \<subseteq> {..<length (an_all a)}"
    and "\<forall>b\<in>set (an_all a). address b = None"
  shows "layout_quality (write_back a) = pk_quality (an_plan a)"
proof -
  note wb = write_back_nth [OF assms(1-3)]
  let ?v = "\<lambda>b. if address b = None then 0 else use_weight b * of_int (b_size b)"
  let ?n = "length (an_placeable a)"
  have coh: "coherent (an_plan a)" and st: "pk_static (an_plan a) = make_static (an_buffers a) (an_size a) (an_alignment a)"
      and sz: "pk_sizes (an_plan a) = map b_size (an_buffers a)"
    using assms(1) by (simp_all add: packs_def)
  have addr: "packer_addresses (an_plan a) ! k = spec_of (an_plan a) k" if "k < ?n" for k
    using coh that st by (simp add: coherent_def)
  have "layout_quality (write_back a) = (\<Sum>i<length (an_all a). ?v (write_back a ! i))"
    unfolding layout_quality_def by (simp add: sum_list_sum_nth wb(1) atLeast0LessThan)
  also have "\<dots> = (\<Sum>i\<in>set (an_placeable a). ?v (write_back a ! i))"
    using assms(3,4) wb(3) by (intro sum.mono_neutral_right) auto
  also have "\<dots> = (\<Sum>k<?n. ?v (write_back a ! (an_placeable a ! k)))"
    using assms(2) by (intro sum.reindex_bij_betw [symmetric] bij_betw_nth) auto
  also have "\<dots> = (\<Sum>k<?n. if spec_of (an_plan a) k = None then 0
      else use_weight (an_buffers a ! k) * of_int (b_size (an_buffers a ! k)))"
    using wb(2) addr by (intro sum.cong) (auto simp: an_buffers_def use_weight_def)
  also have "\<dots> = placement_quality (pk_static (an_plan a)) (pk_sizes (an_plan a)) (spec_of (an_plan a))"
    unfolding placement_quality_def st sz by (intro sum.mono_neutral_cong_right) auto
  also have "\<dots> = pk_quality (an_plan a)" using coh by (simp add: coherent_def)
  finally show ?thesis .
qed

lemma write_back_layout:
  assumes "packs a (an_plan a)" "distinct (an_placeable a)" "set (an_placeable a) \<subseteq> {..<length (an_all a)}"
    and "\<forall>b\<in>set (an_all a). address b = None"
  shows "layout_ok (an_size a) (write_back a)"
    and "\<forall>i<length (write_back a). \<forall>x. address (write_back a ! i) = Some x \<longrightarrow> an_alignment a dvd x"
proof -
  note wb = write_back_nth [OF assms(1-3)]
  have coh: "coherent (an_plan a)" and st: "pk_static (an_plan a) = make_static (an_buffers a) (an_size a) (an_alignment a)"
      and sz: "pk_sizes (an_plan a) = map b_size (an_buffers a)"
    using assms(1) by (simp_all add: packs_def)
  have placed: "\<exists>k<length (an_placeable a). i = an_placeable a ! k \<and> packer_addresses (an_plan a) ! k = Some x"
    if "i < length (an_all a)" "address (write_back a ! i) = Some x" for i x
  proof -
    have "i \<in> set (an_placeable a)" using that wb(3) [of i] assms(4) by (metis nth_mem option.distinct(1))
    then obtain k where "k < length (an_placeable a)" "i = an_placeable a ! k" by (metis in_set_conv_nth)
    with that(2) wb(2) [of k] show ?thesis by auto
  qed
  note lay = coherent_layout [OF coh st]
  have in_bounds: "0 \<le> x \<and> x + b_size (write_back a ! i) \<le> an_size a \<and> an_alignment a dvd x"
    if i: "i < length (an_all a)" "address (write_back a ! i) = Some x" for i x
  proof -
    from placed [OF i] obtain k where k: "k < length (an_placeable a)" "i = an_placeable a ! k"
        "packer_addresses (an_plan a) ! k = Some x" by blast
    with lay(1-3) [of k x] wb(2) [OF k(1)] show ?thesis by (simp add: sz an_buffers_def)
  qed
  have "compatible (write_back a ! i) (write_back a ! j)"
    if ij: "i < length (an_all a)" "j < length (an_all a)" "i \<noteq> j" for i j
    unfolding compatible_def
  proof (intro allI impI)
    fix x y assume x: "address (write_back a ! i) = Some x" and y: "address (write_back a ! j) = Some y"
      and ov: "overlaps_in_time (write_back a ! i) (write_back a ! j)"
    from placed [OF ij(1) x] obtain k where k: "k < length (an_placeable a)" "i = an_placeable a ! k"
        "packer_addresses (an_plan a) ! k = Some x" by blast
    from placed [OF ij(2) y] obtain l where l: "l < length (an_placeable a)" "j = an_placeable a ! l"
        "packer_addresses (an_plan a) ! l = Some y" by blast
    have wi: "write_back a ! i = (an_buffers a ! k)\<lparr>address := Some x\<rparr>"
        and wj: "write_back a ! j = (an_buffers a ! l)\<lparr>address := Some y\<rparr>"
      using wb(2) [OF k(1)] wb(2) [OF l(1)] k l by (simp_all add: an_buffers_def)
    have "k \<noteq> l" using ij(3) k l by auto
    moreover have "overlaps_in_time (an_buffers a ! k) (an_buffers a ! l)" using ov unfolding wi wj by simp
    ultimately show "disjoint_iv x (x + b_size (write_back a ! i)) y (y + b_size (write_back a ! j)) \<or>
        x = y \<and> in_place_pair (write_back a ! i) (write_back a ! j)"
      using lay(4) [of k x l y] k l unfolding wi wj by (simp add: sz in_place_pair_def)
  qed
  with in_bounds show "layout_ok (an_size a) (write_back a)"
    by (simp add: layout_ok_def placed_in_bounds_def wb(1))
  show "\<forall>i<length (write_back a). \<forall>x. address (write_back a ! i) = Some x \<longrightarrow> an_alignment a dvd x"
    using in_bounds by (simp add: wb(1))
qed

subsection \<open>The constructed solver\<close>

lemma init_annealer_cases:
  assumes "init_annealer bs sz alignment initial make_schedule rng = Inr (Inr a)"
  obtains s' barred where
    "partition \<lparr>s_buffers = bs, s_limit = sz, s_alignment = alignment, s_caps = annealer_caps\<rparr> =
       Inr (s', an_placeable a, barred)"
    "an_all a = s_buffers s'" "an_placeable a \<noteq> []" "an_size a = sz" "an_alignment a = alignment"
    "make_packer (an_buffers a) (an_best_permutation a) sz alignment None = Inr (an_plan a)"
    "an_best_quality a = pk_quality (an_plan a)" "an_schedule a = make_schedule (an_buffers a)"
    "initial_permutation initial (an_buffers a) sz alignment = Inr (an_best_permutation a)"
  using assms
  by (auto simp: init_annealer_def init_solver_def check_def an_buffers_def Let_def split: if_splits)

lemma init_annealer_inv:
  assumes "init_annealer bs sz alignment initial make_schedule rng = Inr (Inr a)" "placement_input bs"
    and "\<forall>b\<in>set bs. address b = None"
  shows "annealer_inv (pk_quality (an_plan a)) a" "same_static bs (an_all a)"
    and "distinct (an_placeable a)" "set (an_placeable a) \<subseteq> {..<length (an_all a)}"
    and "\<forall>b\<in>set (an_all a). address b = None"
proof -
  from assms(1) obtain s' barred where
    part: "partition \<lparr>s_buffers = bs, s_limit = sz, s_alignment = alignment, s_caps = annealer_caps\<rparr> =
        Inr (s', an_placeable a, barred)" and all: "an_all a = s_buffers s'"
      and ne: "an_placeable a \<noteq> []" and par: "an_size a = sz" "an_alignment a = alignment"
      and mk: "make_packer (an_buffers a) (an_best_permutation a) sz alignment None = Inr (an_plan a)"
      and bq: "an_best_quality a = pk_quality (an_plan a)"
    by (rule init_annealer_cases)
  note pf = partition_Inr [OF part]
  show st: "same_static bs (an_all a)" using pf(1) all by simp
  have len: "length (an_all a) = length bs" by (rule same_static_length [OF st])
  show "distinct (an_placeable a)" and sub: "set (an_placeable a) \<subseteq> {..<length (an_all a)}"
    using pf(5,6) len by simp_all
  show "\<forall>b\<in>set (an_all a). address b = None"
  proof -
    have "address (an_all a ! i) = None" if "i < length bs" for i
      using pf(4) all that assms(3) nth_mem [OF that] by simp
    then show ?thesis using len by (auto simp: in_set_conv_nth)
  qed
  have "post_init (an_all a ! i) = Inr ()" if "i < length bs" for i
  proof -
    have "post_init (bs ! i) = Inr ()" using assms(2) that by (simp add: placement_input_def)
    then show ?thesis using same_static_nth [OF st that] by (metis post_init_static)
  qed
  then have "\<forall>b\<in>set (an_buffers a). post_init b = Inr ()" using sub len by (auto simp: an_buffers_def)
  from make_packer_packable [OF mk this] have pack: "packable (an_buffers a) alignment" .
  then have "coherent (an_plan a)" using make_packer_coherent [OF mk] by (simp add: packable_def)
  then have packs: "packs a (an_plan a)" using make_packer_frame [OF mk] par by (simp add: packs_def)
  then show "annealer_inv (pk_quality (an_plan a)) a"
    using ne pack par bq packs_quality [OF packs] make_packer_frame(2,6) [OF mk] by (simp add: annealer_inv_def)
qed

text \<open>Buffers of size 0 are all placed at once, so the anneal never starts at temperature 0.\<close>

lemma placement_zero_sizes:
  assumes "distinct perm" "\<forall>i\<in>set perm. sizes ! i = 0 \<and> elig ! i" "0 < sd_alignment st" "0 \<le> sd_capacity st"
    and "k < length perm"
  shows "placement st sizes elig perm (perm ! k) = Some 0"
  using assms(5)
proof (induction k rule: less_induct)
  case (less k)
  let ?A = "placement st sizes elig perm" and ?cand = "earlier_overlaps st elig (take k perm) (perm ! k)"
  have nonneg: "\<forall>i\<in>set perm. 0 \<le> sizes ! i" using assms(2) by simp
  have cand: "?A p = Some 0 \<and> sizes ! p = 0" if "p \<in> set ?cand" for p
  proof -
    from that obtain l where "l < k" "l < length perm" "p = perm ! l"
      by (auto simp: earlier_overlaps_def in_set_conv_nth)
    with less assms(2) show ?thesis by simp
  qed
  have idx: "sizes ! (perm ! k) = 0" "elig ! (perm ! k)" using assms(2) less.prems by simp_all
  have eq: "?A (perm ! k) = place_decision st sizes ?A
      (filter (\<lambda>p. p \<in> set (sd_partners st ! (perm ! k))) ?cand) (perm ! k) ?cand"
    using placement_eq [OF assms(1) less.prems nonneg] idx(2) by (simp add: place_next_def Let_def)
  have "fold (\<lambda>p m. max m (the (?A p) + sizes ! p)) ?cand (- (2 ^ 63)) = 0" if "?cand \<noteq> []"
  proof -
    have "(\<lambda>p. the (?A p) + sizes ! p) ` set ?cand = (\<lambda>p. 0) ` set ?cand" using cand by (intro image_cong) auto
    then show ?thesis unfolding fold_max_Max using that by (simp add: image_constant_conv)
  qed
  moreover have "align_up st 0 = 0" using assms(3) by (simp add: align_up_def round_up_dvd_id)
  moreover have "the (?A q) = 0" if "find (slot_free st sizes ?A (perm ! k) ?cand) ps = Some q" for q ps
    using that cand by (auto simp: find_Some_iff slot_free_def)
  moreover have "\<not> (\<exists>p\<in>set ?cand. ?A p = None)" using cand by auto
  ultimately show ?case
    unfolding eq place_decision_def Let_def using assms(4) idx(1)
    by (cases "?cand = []") (auto split: option.split)
qed

lemma zero_sizes_optimal:
  assumes "packs a (an_plan a)" "\<forall>b\<in>set (an_buffers a). b_size b = 0" "0 \<le> an_size a"
  shows "is_optimal a"
proof -
  let ?p = "an_plan a"
  have ok: "packer_ok ?p" and st: "pk_static ?p = make_static (an_buffers a) (an_size a) (an_alignment a)"
      and sz: "pk_sizes ?p = map b_size (an_buffers a)" "pk_eligible ?p = replicate (length (an_placeable a)) True"
      and cnt: "pk_count ?p = placed_count (pk_static ?p) (spec_of ?p)"
    using assms(1) by (simp_all add: packs_def coherent_def)
  note okD = packer_okD [OF ok]
  have "\<forall>i\<in>set (pk_permutation ?p). pk_sizes ?p ! i = 0 \<and> pk_eligible ?p ! i"
    using okD(2) st sz assms(2) by simp
  from placement_zero_sizes [OF okD(1) this okD(4)] st assms(3)
  have "spec_of ?p (pk_permutation ?p ! k) = Some 0" if "k < length (pk_permutation ?p)" for k
    using that by (simp add: spec_of_def)
  then have "spec_of ?p i = Some 0" if "i < length (an_placeable a)" for i
    using okD(2) st that by (metis in_set_conv_nth length_an_buffers lessThan_iff make_static_frame(1))
  then have "{i. i < sd_n (pk_static ?p) \<and> spec_of ?p i \<noteq> None} = {..<length (an_placeable a)}"
    using st by auto
  then show ?thesis by (simp add: is_optimal_def cnt placed_count_def)
qed

lemma annealer_ready:
  assumes "annealer_inv q a" "0 \<le> an_size a" "an_schedule a = reheating_set_buffers (an_buffers a) s"
    and "make_reheating total_steps cycles horizons spb mn mx hi lo = Inr s"
  shows "reheating_ready (an_schedule a) \<or> is_optimal a"
proof (cases "0 < peak_memory_load (an_buffers a)")
  case True
  then show ?thesis using reheating_set_buffers_ready [OF assms(4)] assms(3) by simp
next
  case False
  have pack: "packable (an_buffers a) (an_alignment a)" "packs a (an_plan a)"
    using assms(1) by (simp_all add: annealer_inv_def)
  then have bs: "\<forall>b\<in>set (an_buffers a). start_time b < end_time b \<and> 0 \<le> b_size b"
    by (auto simp: packable_def list_all_iff fields_readable_def)
  have "b_size b = 0" if b: "b \<in> set (an_buffers a)" for b
  proof -
    have "live_load (an_buffers a) (start_time b) \<le> 0" using peak_load_inv [OF bs] b False by fastforce
    moreover have "b_size b \<le> live_load (an_buffers a) (start_time b)" using live_load_ge [OF b] bs b by simp
    ultimately show ?thesis using bs b by fastforce
  qed
  then show ?thesis using zero_sizes_optimal [OF pack(2) _ assms(2)] by blast
qed

context cooling_schedule
begin

lemma plan_layout_returns:
  assumes "init_annealer bs limit al initial make_schedule rng = Inr solver" "placement_input bs"
    and "\<forall>b\<in>set bs. address b = None" "draws_index choices"
    and "\<And>a. solver = Inr a \<Longrightarrow> ready (an_schedule a) \<or> is_optimal a"
  shows "\<exists>bs'. annealer_plan_layout reset update choices uniform solver = Some (Inr bs') \<and>
     layout_ok limit bs' \<and> (\<forall>i<length bs'. \<forall>x. address (bs' ! i) = Some x \<longrightarrow> al dvd x) \<and>
     (\<forall>a. solver = Inr a \<longrightarrow> pk_quality (an_plan a) \<le> layout_quality bs')"
proof (cases solver)
  case (Inl bs')
  from assms(1) Inl obtain s' p b where part:
    "partition \<lparr>s_buffers = bs, s_limit = limit, s_alignment = al, s_caps = annealer_caps\<rparr> = Inr (s', p, b)"
      "bs' = s_buffers s'"
    by (auto simp: init_annealer_def init_solver_def check_def Let_def split: if_splits)
  note pf = partition_Inr [OF part(1)]
  have len: "length bs' = length bs" using same_static_length [OF pf(1)] part(2) by simp
  have "address (bs' ! i) = None" if "i < length bs'" for i
    using pf(4) part(2) that len assms(3) nth_mem [of i bs] by simp
  then show ?thesis
    using Inl by (auto simp: annealer_plan_layout_def layout_ok_def placed_in_bounds_def compatible_def)
next
  case (Inr a)
  note init = init_annealer_inv [OF assms(1) [unfolded Inr] assms(2,3)]
  have par: "an_size a = limit" "an_alignment a = al"
    using assms(1) unfolding Inr by (auto elim: init_annealer_cases)
  from solve_returns [OF init(1) order_refl assms(4) assms(5) [OF Inr], of uniform] obtain b where
    b: "solve reset update choices uniform a = Some (Inr b)" "packs a (an_plan b)" "same_problem a b"
      "pk_quality (an_plan a) \<le> pk_quality (an_plan b)"
    by blast
  note sp = same_problemD [OF b(3)]
  have wb: "packs b (an_plan b)" "distinct (an_placeable b)" "set (an_placeable b) \<subseteq> {..<length (an_all b)}"
      "\<forall>c\<in>set (an_all b). address c = None"
    using b(2) sp init(3-5) by simp_all
  from write_back_layout [OF this] write_back_quality [OF this] b(1,4) sp par show ?thesis
    by (simp add: annealer_plan_layout_def Inr)
qed

end

subsection \<open>Properties\<close>

definition demo_tail :: "buffer list" where
  "demo_tail = [demo_buffer ''a'' 1 [0, 2] [], demo_buffer ''b'' 1 [0] [], demo_buffer ''c'' 1 [2] [],
     demo_buffer ''d'' 2 [5] []]"

lemma demo_triple_input: "placement_input demo_triple" "\<forall>b\<in>set demo_triple. address b = None"
  by (simp_all add: placement_input_def demo_triple_def demo_buffer_def post_init_def check_def)

lemma demo_triple_partition:
  "partition \<lparr>s_buffers = demo_triple, s_limit = 4, s_alignment = 1, s_caps = annealer_caps\<rparr> =
     Inr (\<lparr>s_buffers = demo_triple, s_limit = 4, s_alignment = 1, s_caps = annealer_caps\<rparr>, [0, 1, 2], [])"
  by code_simp

lemma demo_triple_packer: "\<not> isl (make_packer demo_triple [0, 2, 1] 4 1 None)"
  by code_simp

lemma demo_triple_annealer:
  "\<exists>a. init_annealer demo_triple 4 1 (InitialList [0, 2, 1]) make_schedule rng = Inr (Inr a)"
proof -
  obtain p where p: "make_packer demo_triple [0, 2, 1] 4 1 None = Inr p"
    using demo_triple_packer by (metis sum.collapse(2))
  have "map (\<lambda>i. demo_triple ! i) [0, 1, 2] = demo_triple" by (simp add: demo_triple_def)
  moreover have "init_solver annealer_caps demo_triple 4 1 =
      Inr \<lparr>s_buffers = demo_triple, s_limit = 4, s_alignment = 1, s_caps = annealer_caps\<rparr>"
    by (simp add: init_solver_def check_def demo_triple_def demo_buffer_def)
  moreover have "initial_permutation (InitialList [0, 2, 1]) demo_triple 4 1 = Inr [0, 2, 1]"
    by code_simp
  ultimately show ?thesis
    using p by (simp add: init_annealer_def demo_triple_partition Let_def)
qed



text \<open>C28: The cleanup after an accepted move always returns, and changes no address, no quality and no count: only
  the allocation order.  Where the order outside the examined window was already settled, the
  whole order is settled afterwards: of two neighbours that are never live together, the lower top
  comes first.\<close>

theorem cleanup_returns_settled:
  assumes "packer_reachable bs capacity alignment p" "\<forall>b\<in>set bs. start_time b < end_time b"
    and "i \<noteq> j" "i < length bs" "j < length bs"
  shows "\<exists>q. annealing_step_swap i j p = Some (Inr q) \<and> same_layout p q \<and>
     (settled_outside (min i j - 1) (max i j) p \<longrightarrow> (\<forall>k. k + 1 < length bs \<longrightarrow> settled_at q k))"
proof -
  have inv: "coherent p" "sd_n (pk_static p) = length bs" using packer_reachable_inv [OF assms(1,2)] by simp_all
  from annealing_step_swap_returns [OF inv(1) assms(3)] assms(4,5) inv(2) show ?thesis by auto
qed

theorem cleanup_returns_settled_witness:
  "\<exists>p q. demo_packer = Inr p \<and> annealing_step_swap 0 2 p = Some (Inr q) \<and> packer_addresses q = packer_addresses p"
proof -
  obtain p where p: "demo_packer = Inr p" using map_sum_InrD [OF demo_packer_addresses] by metis
  have "(0::nat) \<noteq> 2" "0 < length demo_triple" "2 < length demo_triple" by (simp_all add: demo_triple_def)
  from cleanup_returns_settled [OF demo_packer_reachable [OF p] demo_triple_lifetimes this] obtain q where
    "annealing_step_swap 0 2 p = Some (Inr q)" "same_layout p q"
    by blast
  with p show ?thesis by (auto simp: same_layout_def packer_addresses_def)
qed

text \<open>A rotation also moves the tops of buffers beyond the rotated range, so the part of the order after
  the window need not be settled, and the cleanup leaves it so.\<close>

theorem cleanup_misses_tail:
  "\<exists>p q d r. make_packer demo_tail [0, 1, 2, 3] 8 1 None = Inr p \<and> (\<forall>k<3. settled_at p k) \<and>
     packer_rotate 0 1 p = Inr (q, d) \<and> annealing_step_swap 0 1 q = Some (Inr r) \<and> \<not> settled_at r 2"
proof -
  define run where "run = bindE (make_packer demo_tail [0, 1, 2, 3] 8 1 None) (\<lambda>p.
     bindE (packer_rotate 0 1 p) (\<lambda>(q, d). Inr (p, q, d)))"
  have n: "\<not> isl run" unfolding run_def by code_simp
  then obtain p q d where r: "run = Inr (p, q, d)" by (metis prod_cases3 sum.collapse(2))
  have before: "map_sum id (\<lambda>(p, q, d). list_all (settled_at p) [0, 1, 2]) run = Inr True" unfolding run_def by code_simp
  have after: "map_sum id (\<lambda>(p, q, d). map_option (map_sum id (\<lambda>r. settled_at r 2)) (annealing_step_swap 0 1 q)) run =
      Inr (Some (Inr False))"
    unfolding run_def by code_simp
  from after r obtain q' where "annealing_step_swap 0 1 q = Some (Inr q')" "\<not> settled_at q' 2"
    by (auto dest: map_sum_InrD)
  moreover have "\<forall>k<3. settled_at p k"
    using before r by (auto simp: less_Suc_eq numeral_3_eq_3 numeral_2_eq_2)
  moreover have "make_packer demo_tail [0, 1, 2, 3] 8 1 None = Inr p" "packer_rotate 0 1 p = Inr (q, d)"
    using r by (auto simp: run_def)
  ultimately show ?thesis by blast
qed

end
