(* ===== verification/Spec2Isabelle.thy ===== *)
theory Spec2Isabelle
  imports Sliding_Window Gap_Solver Greedy_Solver Exhaustive_Search Lx_Switching Hbm_Pool Dead_Code Beam_Search Fusion Kernel_Prep Tile_Options
    Operation_Mapping Subrange_Transfer Split_Space Slice_Ownership Packer_Machine Annealing
begin

text \<open>
  Verification of the decision procedures of the torch-spyre compiler back end
  (\<open>src/torch_spyre/_inductor\<close>).

  \<^bold>\<open>The program.\<close> torch-spyre extends the PyTorch Inductor compiler to the Spyre accelerator.  A lowered
  graph is a list of operations over named buffers.  The back end removes dead operations, chooses a
  device layout for every buffer and where to convert between layouts, chooses how each operation is
  tiled into counted loops and divided over cores, places buffers in the LX scratchpad and in the HBM pool,
  saves LX-resident buffers across opaque kernels, rebuilds the counted loops as scheduler nodes, fuses
  nodes into bundles and prepares one kernel per bundle.  Each of these is a pure decision over
  dictionaries, lists and integers around a sympy or Inductor core; the decisions are modelled, the
  sympy and Inductor queries are parameters.

  \<^bold>\<open>Conventions.\<close> A dataclass is a record, a raise is \<open>Inl\<close> of \<open>py_error\<close>, loops are \<open>foldE\<close>, \<open>mapE\<close> or
  recursion (theory Prelude).  Python integers are \<open>int\<close>, or \<open>nat\<close> where the code only counts; the
  64-bit integers of the C++ packer are \<open>int\<close> with an overflowing addition as \<open>None\<close> (Packer_Machine).  Names are
  strings.  A dictionary is a map, or an association list where its order is observed.  Every operation
  is executable, so the witnesses evaluate the definitions on concrete graphs.

  \<^bold>\<open>Theories and the code they model.\<close>
  \<^item> Prelude: results, folds over them, intervals, alignment (\<open>scratchpad/utils.py\<close>).
  \<^item> Sliding_Window: \<open>sliding_window_plan.py\<close>.  Every query row of an accepted plan finds its whole window in
    the buffer it reads, inside the cache; a block skips masking exactly when no column is masked.
  \<^item> Plan_Solver: \<open>scratchpad/plan_solver.py\<close>: buffers, tile specs, divisions and the solver base class, with
    the locale \<open>placement_solver\<close>, the contract of a layout solver.
  \<^item> Gap_Solver (\<open>firstfit_bestfit_solver.py\<close>), Greedy_Solver (\<open>greedy_solver.py\<close>): two solvers.  Buffers
    that are live together do not overlap except through the declared in-place pairs; both are
    interpretations of the contract.
  \<^item> Perm_Packer and Packer_Refinement (\<open>csrc/perm_layout_native.cpp\<close>): the C++ packer that turns an allocation
    order into a layout, and its specification \<open>placement\<close>, placing from scratch as the test suite's reference
    packer does.  Every operation keeps the packer equal to the specification.  These two compute addresses
    over the integers; Packer_Machine repeats the placement and the operations with every \<open>int64_t\<close> addition
    checked, shows that what completes equals the integer result, and gives a bound under which all completes.
  \<^item> Cooling_Schedules (\<open>scratchpad/cooling_schedules.py\<close>) and Annealing (\<open>scratchpad/simulated_annealing.py\<close>): the
    search over allocation orders.  The locale \<open>cooling_schedule\<close> is what a schedule promises; the search
    returns under any schedule that meets it, with a valid layout no worse than the initial one.
  \<^item> Exhaustive_Search (\<open>exhaustive_search.py\<close>): the search over core divisions, over any solver that meets
    the contract; it returns a choice of least HBM traffic.
  \<^item> Liveness (\<open>scratchpad/utils.py\<close>): use lists and counted-loop lifetimes.
  \<^item> Lx_Switching (\<open>lx_context_switching.py\<close>, the multi-output guard of \<open>allocator.py\<close>): dumps and restores
    around opaque kernels, against a semantics in which such a kernel may overwrite all of LX.
  \<^item> Hbm_Pool (\<open>hbm_pool_planning.py\<close>): the block allocator as the locale \<open>block_pool\<close>, alias groups and
    bundle scoping.
  \<^item> Dead_Code (\<open>deadcode_elimination.py\<close>): removal is unobservable; liveness is a least fixed point.
  \<^item> Restickify_Costs and Beam_Search (\<open>optimize_restickify.py\<close>): the cost nodes and the search for layouts.
  \<^item> Scheduler_Nodes, Fusion (\<open>fusion.py\<close>), Loop_Groups and Loop_Nests (\<open>scheduler.py\<close>, \<open>loop_info.py\<close>),
    Kernel_Prep (\<open>scheduler.py\<close>, \<open>lx_relayout.py\<close>, \<open>spyre_kernel.py\<close>): scheduling and kernel preparation.
  \<^item> Tiling_Space and Tile_Options (\<open>wsr/enumerate_tilings.py\<close>, \<open>wsr/span_overflow_hint_analysis.py\<close>,
    \<open>wsr/loop_tiling_common.py\<close>, \<open>scratchpad/coarse_tiling.py\<close>): the legal tilings of an operation.
  \<^item> Work_Division, Division_Legality and Division_Passes (\<open>work_division.py\<close>, the merge of
    \<open>work_division_constraints.py\<close>, the ownership record of \<open>pass_utils.py\<close>): legal factors, the greedy
    distributor, per-core spans, the legality test and its enumeration, the span search, hints and the two
    passes.  The passes commit a division that fits the cores, the floors, the domains and the span limit;
    the locale \<open>split_planner\<close> is the contract the distributor and the user's hint both meet.
  \<^item> Core_Mapping, Operation_Mapping and Subrange_Transfer (\<open>core_mapping.py\<close>, \<open>TensorWorkDivision\<close> of
    \<open>op_spec.py\<close>): which core owns which slice, agreement of an operation with its tensors, re-expression
    of ownership in aligned dimensions, copy edges and certified copies of a rectangle.
  \<^item> Slice_Ownership (\<open>slice_ownership.py\<close>): the proofs that one loop owns the slices of a device
    coordinate, or that a mixed-radix coordinate splits digit by digit, are sound at every point.
  \<^item> Tile_Strides, Device_Resize and Tile_Prediction (\<open>wsr/tile.py\<close>, \<open>_resize_device_layout\<close> of \<open>ir.py\<close>,
    \<open>wsr/tile_prediction.py\<close>, the post-tile layout of \<open>wsr/span_overflow_hint_analysis.py\<close>): the strides,
    indices and device layout of a tile, and the frame a tiling would leave.  The predicate \<open>describes\<close> is the
    abstract meaning of a device layout; resizing is a refinement of dividing the host sizes.
  \<^item> Split_Space (\<open>OpSplitSpace\<close> of \<open>work_division.py\<close>): the divisions and tilings of an operation as a space
    to move in, over the legality of Division_Legality and the frames of Tile_Prediction.
  \<^item> this theory: loop building, fusion and preparation composed.

  \<^bold>\<open>Interaction.\<close> A division committed by the passes is the ownership the core-mapping theories start from:
  the passes build it with \<open>core_to_slice_mapping\<close>, and the bijection of cores and slices is part of what
  they are shown to commit.  The placement solvers take the per-core sizes that result, the exhaustive
  search varies the divisions, and scheduling and kernel preparation keep the loops the tilings stand for.

  \<^bold>\<open>Bounds.\<close> Dead-code elimination iterates at most the number of operations plus one times, each pass but
  the last removing an operation.  The depth-first visit of loop units has a budget of one more than the
  number of units, each call marking a new unit.  Kernel preparation makes at most one attempt more than
  there are LX names, each failed attempt demoting one.  The cleanup of the annealer is bounded by three times
  the inversions of the order plus the window, its anneal by the steps a schedule has left; both loops are
  partial functions into \<open>option\<close> and are shown to return.  The additions
  of the packer stay in range while capacity, alignment and size add up to less than \<open>2 ^ 63\<close>; the annealer is
  modelled over the integer packer, with which the 64-bit one agrees below that bound.  The beam keeps 200 states; optimality is stated
  under the condition that no step has more than 200 combinations of live layouts, feasibility without it.

  \<^bold>\<open>Not modelled.\<close> The C++ runtime and bindings, execution and caching of kernels, profiling, logging and
  test tooling are I/O.  Lowerings, decompositions and custom operators register rewrites with PyTorch.  The
  cost model is floating point.  Coordinate analysis (\<open>pass_utils.py\<close>, \<open>views.py\<close>), layout propagation,
  padding and code generation manipulate sympy expressions and Inductor IR; where a modelled component
  asks them a question, the answer is a parameter.  So are the op-specific rules of work division.  The
  loop-region and fused-view analysis of \<open>core_mapping.py\<close> is sympy as well.  The CP-SAT solver calls
  an external solver, and the co-optimising annealer is driven by the cost model.
\<close>

section \<open>From loop stamps to emitted kernels\<close>

text \<open>
  The scheduling passes in the order the back end runs them: counted loops are built from the stamps,
  the nodes are fused into bundles, and the bundles' kernels are prepared.
\<close>

lemma live_nest_sub:
  "list_all (\<lambda>x. plain (fst x)) (loop_nest n) \<Longrightarrow> set (live_nest rem n) \<subseteq> set (loop_nest n)"
proof (induction rem n rule: live_nest.induct [case_names Loop Fused Node Nop Extern])
  case (Loop rem i ns c)
  have "set (live_nest rem x) \<subseteq> set (loop_nest x)" if h: "x \<in> set (live_nodes rem ns)" for x
  proof (rule Loop.IH [OF h])
    show "list_all (\<lambda>x. plain (fst x)) (loop_nest x)"
      using h Loop.prems by (force simp: live_nodes_def list_all_iff)
  qed
  then have "set (concat (map (live_nest rem) (live_nodes rem ns))) \<subseteq> set (concat (map loop_nest ns))"
    by (fastforce simp: live_nodes_def)
  then show ?case unfolding live_nest.simps loop_nest.simps set_map by (rule image_mono)
qed (auto simp: plain_def)

lemma live_nest_all:
  "list_all (\<lambda>x. plain (fst x)) (loop_nest n) \<Longrightarrow> live_nest {} n = loop_nest n"
proof (induction n rule: loop_nest.induct [case_names Loop Node Nop Extern Fused])
  case (Loop i ns c)
  have "live_nest {} x = loop_nest x" if h: "x \<in> set ns" for x
    using Loop.IH [OF h] Loop.prems h by (force simp: list_all_iff)
  then have c: "map (live_nest {}) ns = map loop_nest ns" by simp
  have "live_nodes {} ns = ns" by (simp add: live_nodes_def)
  then show ?case unfolding live_nest.simps loop_nest.simps by (simp only: c)
qed (auto simp: plain_def)

lemma mset_concat_map: "mset xs = mset ys \<Longrightarrow> mset (concat (map f xs)) = mset (concat (map f ys))"
proof -
  assume h: "mset xs = mset ys"
  have "mset (concat (map f zs)) = sum_mset (image_mset (\<lambda>x. mset (f x)) (mset zs))" for zs by (induction zs) auto
  then show ?thesis using h by simp
qed

lemma concat_concat_map: "concat (map (\<lambda>xs. concat (map f xs)) xss) = concat (map f (concat xss))"
  by (induction xss) auto

text \<open>The operations a group of scheduler nodes stands for, and the bundle made of it.\<close>

definition group_nest :: "sched_node list \<Rightarrow> (sched_node \<times> int list) list" where
  "group_nest g = concat (map loop_nest g)"

definition bundle_of :: "(sched_node list \<Rightarrow> node_info) \<Rightarrow> sched_node list \<Rightarrow> sched_node" where
  "bundle_of fi g = (if length g = 1 then hd g else FusedSchedulerNode (fi g) g)"

lemma singleton_eq: "length g = 1 \<Longrightarrow> g = [hd g]"
  by (cases g) auto

lemma bundle_nest_loop:
  "bundle_nest rem (CountedLoopSchedulerNode i ns c) = live_nest rem (CountedLoopSchedulerNode i ns c)"
  by (simp add: bundle_nest_def)

lemma bundle_nest_plain: "plain n \<Longrightarrow> set (bundle_nest rem n) \<subseteq> {(n, [])} \<and> bundle_nest {} n = [(n, [])]"
  by (cases n) (auto simp: plain_def bundle_nest_def live_nodes_def)

lemma bundle_nest_group:
  assumes "list_all (\<lambda>x. plain (fst x)) (group_nest g)"
  shows "set (bundle_nest rem (bundle_of fi g)) \<subseteq> set (group_nest g) \<and> bundle_nest {} (bundle_of fi g) = group_nest g"
proof (cases "length g = 1")
  case True
  then have g: "g = [hd g]" by (rule singleton_eq)
  then have p: "list_all (\<lambda>x. plain (fst x)) (loop_nest (hd g))" "group_nest g = loop_nest (hd g)"
    using assms by (metis group_nest_def concat.simps list.map append_Nil2)+
  show ?thesis
  proof (cases "is_loop_node (hd g)")
    case True
    then have "bundle_nest r (hd g) = live_nest r (hd g)" for r by (cases "hd g") (simp_all add: bundle_nest_loop)
    then show ?thesis using \<open>length g = 1\<close> p live_nest_sub live_nest_all by (simp add: bundle_of_def)
  next
    case False
    then have "loop_nest (hd g) = [(hd g, [])]" "plain (hd g)" using leaves_other [OF False] p(1) by auto
    then show ?thesis using \<open>length g = 1\<close> p(2) bundle_nest_plain by (simp add: bundle_of_def)
  qed
next
  case False
  have p: "list_all (\<lambda>x. plain (fst x)) (loop_nest n)" if h: "n \<in> set g" for n
    using h assms by (force simp: group_nest_def list_all_iff)
  then have "set (live_nest rem n) \<subseteq> set (loop_nest n)" "live_nest {} n = loop_nest n" if h: "n \<in> set g" for n
    using h live_nest_sub live_nest_all by blast+
  note n = this
  have "set (bundle_nest rem (bundle_of fi g)) \<subseteq> set (group_nest g)" using False n(1)
    by (auto simp: bundle_of_def bundle_nest_def group_nest_def live_nodes_def)
  moreover have "bundle_nest {} (bundle_of fi g) = concat (map (live_nest {}) g)" using False
    by (simp add: bundle_of_def bundle_nest_def live_nodes_def)
  moreover have "map (live_nest {}) g = map loop_nest g" using n(2) by simp
  ultimately show ?thesis by (simp only: group_nest_def)
qed

text \<open>The groups a schedule is cut into, whether fusion is on or off.\<close>

lemma fused_groups:
  "\<exists>gs. spyre_fuse_nodes fi fuse ns = map (bundle_of fi) gs \<and> mset (concat gs) = mset ns"
proof (cases fuse)
  case True
  let ?gs = "group_contiguous_fusable ns is_fusable_node is_hoistable_node"
  have "spyre_fuse_nodes fi fuse ns = map (bundle_of fi) ?gs" using True by (simp add: spyre_fuse_map bundle_of_def [abs_def])
  moreover have "mset (concat ?gs) = mset ns"
    using group_final(2) [of is_fusable_node is_hoistable_node ns] by (simp add: group_final(1) group_inv_def)
  ultimately show ?thesis by blast
next
  case False
  then have "spyre_fuse_nodes fi fuse ns = map (bundle_of fi) (map (\<lambda>n. [n]) ns)"
    by (simp add: spyre_fuse_nodes_def bundle_of_def comp_def)
  then show ?thesis by (intro exI [of _ "map (\<lambda>n. [n]) ns"]) (simp add: concat_singletons [of "\<lambda>n. n", simplified])
qed

lemma attempts_prepared:
  "prepare_attempts n emit validate rem bundles entry st = Kernels ks st' \<Longrightarrow>
     \<exists>r r'. prepare_bundles emit validate (lx_resident (prep_placement st')) rem bundles r = Prepared ks r'"
proof (induction n arbitrary: st)
  case (Suc n)
  show ?case
  proof (cases "prepare_bundles emit validate (lx_resident (prep_placement st)) rem bundles (removed_buffers st)")
    case (Prepared ks' r')
    then show ?thesis using Suc.prems by (auto intro!: exI)
  next
    case (Failed e failed r')
    then show ?thesis using Suc by (auto simp: Let_def split: if_splits)
  qed
qed simp

lemma bundles_prepared:
  "prepare_bundles emit validate lx rem bundles r = Prepared ks r' \<Longrightarrow>
     map fst ks = bundles \<and> (\<forall>(b, k)\<in>set ks. \<exists>r. prepare_kernel emit validate lx rem b (new_kernel r) = Inr k)"
proof (induction bundles arbitrary: r ks)
  case (Cons b bundles)
  obtain k where k: "prepare_kernel emit validate lx rem b (new_kernel r) = Inr k"
    using Cons.prems by (cases "prepare_kernel emit validate lx rem b (new_kernel r)") auto
  then obtain ks' where "prepare_bundles emit validate lx rem bundles (graph_removed k) = Prepared ks' r'" "ks = (b, k) # ks'"
    using Cons.prems by (auto split: attempt.splits)
  then show ?case using Cons.IH k by auto
qed auto

lemma kernels_prepared:
  assumes "prepare_spyre_kernels emit validate backend rem nodes st = Inr (ks, st')"
  shows "map fst ks = spyre_bundles backend nodes \<and>
    (\<forall>(b, k)\<in>set ks. scheduled_nodes k = map fst (bundle_nest rem b) \<and>
       concat (map spec_nest (op_specs k)) =
         emitted_specs emit (lx_resident (prep_placement st')) [] (bundle_nest rem b))"
proof -
  let ?out = "prepare_attempts (card (initial_lx_names (prep_placement st) (spyre_bundles backend nodes)) + 1)
      emit validate rem (spyre_bundles backend nodes) (removed_buffers st) st"
  have "?out = Kernels ks st'" using assms unfolding prepare_spyre_kernels_def Let_def by (cases ?out) simp_all
  then obtain r r' where
    "prepare_bundles emit validate (lx_resident (prep_placement st')) rem (spyre_bundles backend nodes) r = Prepared ks r'"
    using attempts_prepared by blast
  from bundles_prepared [OF this] show ?thesis by (fastforce dest: prepare_adds)
qed

text \<open>
  A grouping carries the stamps of \<open>nodes\<close>: its operations are the nodes, each standing under the
  trip counts stamped on it.
\<close>

definition carries_stamps :: "sched_node list \<Rightarrow> sched_node list list \<Rightarrow> bool" where
  "carries_stamps nodes gs \<longleftrightarrow> list_all plain nodes \<and>
     (\<exists>ns. mset ns = mset nodes \<and> mset (group_nest (concat gs)) = mset (map (\<lambda>n. (n, stamped_counts n)) ns))"

lemma fused_carries_stamps:
  assumes "well_stamped nodes" "build_loop_scheduler_nodes fi nodes m = Inr (res, m')"
  shows "\<exists>gs. spyre_fuse_nodes fi fuse res = map (bundle_of fi) gs \<and> carries_stamps nodes gs"
proof -
  obtain order where o: "mset order = mset [0..<length nodes]"
    "concat (map loop_nest res) = map (\<lambda>i. (nodes ! i, stamped_counts (nodes ! i))) order"
    using realise_stamps [OF assms(1), of fi m] assms(2) by auto
  obtain gs where g: "spyre_fuse_nodes fi fuse res = map (bundle_of fi) gs" "mset (concat gs) = mset res"
    using fused_groups by blast
  let ?ns = "map ((!) nodes) order"
  have "mset ?ns = mset nodes" using o(1) by (metis map_nth mset_map)
  moreover have "mset (group_nest (concat gs)) = mset (concat (map loop_nest res))"
    unfolding group_nest_def by (rule mset_concat_map [OF g(2)])
  then have "mset (group_nest (concat gs)) = mset (map (\<lambda>n. (n, stamped_counts n)) ?ns)" using o(2) by (simp add: comp_def)
  ultimately have "carries_stamps nodes gs" using well_stampedD(1) [OF assms(1)] unfolding carries_stamps_def list_all_iff by blast
  then show ?thesis using g(1) by blast
qed

lemma carried_group:
  assumes "carries_stamps nodes gs" "g \<in> set gs"
  shows "\<forall>x\<in>set (group_nest g). fst x \<in> set nodes \<and> plain (fst x) \<and> snd x = stamped_counts (fst x)"
proof -
  obtain ns where ns: "set ns = set nodes" "set (group_nest (concat gs)) = set (map (\<lambda>n. (n, stamped_counts n)) ns)"
    using assms(1) unfolding carries_stamps_def by (blast dest: mset_eq_setD)
  have "set (group_nest g) \<subseteq> set (group_nest (concat gs))" using assms(2) by (auto simp: group_nest_def)
  moreover have "\<forall>n\<in>set nodes. plain n" using assms(1) by (simp add: carries_stamps_def list_all_iff)
  ultimately show ?thesis using ns by fastforce
qed

lemma carried_bundle:
  assumes "carries_stamps nodes gs" "g \<in> set gs"
  shows "bundle_nest rem (bundle_of fi g) = map (\<lambda>n. (n, stamped_counts n)) (map fst (bundle_nest rem (bundle_of fi g)))"
    "fst ` set (bundle_nest rem (bundle_of fi g)) \<subseteq> set nodes" "bundle_nest {} (bundle_of fi g) = group_nest g"
proof -
  note c = carried_group [OF assms]
  have "list_all (\<lambda>x. plain (fst x)) (group_nest g)" using c by (simp add: list_all_iff)
  note n = bundle_nest_group [OF this]
  then have "\<forall>x\<in>set (bundle_nest rem (bundle_of fi g)). fst x \<in> set nodes \<and> snd x = stamped_counts (fst x)" using c by blast
  then show "bundle_nest rem (bundle_of fi g) = map (\<lambda>n. (n, stamped_counts n)) (map fst (bundle_nest rem (bundle_of fi g)))"
    "fst ` set (bundle_nest rem (bundle_of fi g)) \<subseteq> set nodes"
    by (auto intro!: nth_equalityI simp: prod_eq_iff)
  show "bundle_nest {} (bundle_of fi g) = group_nest g" using n by blast
qed

lemma carried_bundles_kept:
  assumes "carries_stamps nodes gs" "list_all is_scheduler_node nodes" "\<forall>b. backend b"
  shows "spyre_bundles backend (map (bundle_of fi) gs) = map (bundle_of fi) gs"
proof -
  have "is_fused_node (bundle_of fi g) \<or> is_scheduler_node (bundle_of fi g)" if h: "g \<in> set gs" for g
  proof (cases "length g = 1 \<and> \<not> is_loop_node (hd g)")
    case True
    then have "g = [hd g]" "loop_nest (hd g) = [(hd g, [])]" using singleton_eq leaves_other by blast+
    then have "(hd g, []) \<in> set (group_nest g)" by (metis group_nest_def list.map concat.simps append_Nil2 list.set_intros(1))
    then have "hd g \<in> set nodes" using carried_group [OF assms(1) h] by fastforce
    then show ?thesis using True assms(2) by (auto simp: bundle_of_def list_all_iff)
  next
    case False
    then show ?thesis by (cases "hd g") (auto simp: bundle_of_def)
  qed
  then show ?thesis using assms(3) by (auto simp: spyre_bundles_def filter_id_conv)
qed

text \<open>
  C1: What is emitted runs under the loops that were planned.  Take operations with well-formed loop
  stamps, build their counted loops, fuse the nodes into bundles and prepare the kernels.  Then the
  operation specs of every kernel, flattened, are what the handlers produced for its scheduled
  operations, each spec under exactly the trip counts stamped on its operation, outermost first, and
  every scheduled operation is one of the given ones.  When all of them are scheduler nodes of the Spyre
  back end and none was removed, the kernels together schedule each operation exactly once.
\<close>

theorem compiled_kernels_realise_stamps:
  assumes "well_stamped nodes" "build_loop_scheduler_nodes fi nodes m = Inr (res, m')"
    "prepare_spyre_kernels emit validate backend rem (spyre_fuse_nodes fi fuse res) st = Inr (ks, st')"
  shows "list_all (\<lambda>(b, k). set (scheduled_nodes k) \<subseteq> set nodes \<and>
      concat (map spec_nest (op_specs k)) =
        emitted_specs emit (lx_resident (prep_placement st')) []
          (map (\<lambda>n. (n, stamped_counts n)) (scheduled_nodes k))) ks \<and>
    (list_all is_scheduler_node nodes \<and> (\<forall>b. backend b) \<and> rem = {} \<longrightarrow>
       mset (concat (map (\<lambda>(b, k). scheduled_nodes k) ks)) = mset nodes)"
proof -
  obtain gs where g: "spyre_fuse_nodes fi fuse res = map (bundle_of fi) gs" "carries_stamps nodes gs"
    using fused_carries_stamps [OF assms(1,2)] by blast
  note k = kernels_prepared [OF assms(3), unfolded g(1)]
  have member: "\<exists>g\<in>set gs. b = bundle_of fi g" if h: "(b, k') \<in> set ks" for b k'
  proof -
    have "b \<in> set (map fst ks)" using h by force
    then show ?thesis using conjunct1 [OF k] by (auto simp: spyre_bundles_def)
  qed
  have "list_all (\<lambda>(b, k). set (scheduled_nodes k) \<subseteq> set nodes \<and>
      concat (map spec_nest (op_specs k)) = emitted_specs emit (lx_resident (prep_placement st')) []
          (map (\<lambda>n. (n, stamped_counts n)) (scheduled_nodes k))) ks"
    unfolding list_all_iff
  proof clarify
    fix b k' assume h: "(b, k') \<in> set ks"
    then obtain g where b: "g \<in> set gs" "b = bundle_of fi g" using member by blast
    have "scheduled_nodes k' = map fst (bundle_nest rem b)"
      "concat (map spec_nest (op_specs k')) = emitted_specs emit (lx_resident (prep_placement st')) [] (bundle_nest rem b)"
      using k h by blast+
    then show "set (scheduled_nodes k') \<subseteq> set nodes \<and> concat (map spec_nest (op_specs k')) =
      emitted_specs emit (lx_resident (prep_placement st')) [] (map (\<lambda>n. (n, stamped_counts n)) (scheduled_nodes k'))"
      using carried_bundle(1,2) [OF g(2) b(1), of rem fi] b(2) by simp
  qed
  moreover have "mset (concat (map (\<lambda>(b, k). scheduled_nodes k) ks)) = mset nodes"
    if h: "list_all is_scheduler_node nodes" "\<forall>b. backend b" "rem = {}"
  proof -
    have fk: "map fst ks = map (bundle_of fi) gs" using k carried_bundles_kept [OF g(2) h(1,2)] by simp
    have "map (\<lambda>(b, k). scheduled_nodes k) ks = map (\<lambda>x. map fst (bundle_nest {} (fst x))) ks"
      using conjunct2 [OF k] h(3) by (intro map_cong) auto
    also have "\<dots> = map (\<lambda>b. map fst (bundle_nest {} b)) (map fst ks)" by simp
    also have "\<dots> = map (\<lambda>g. map fst (group_nest g)) gs" using carried_bundle(3) [OF g(2)] unfolding fk by simp
    finally have "concat (map (\<lambda>(b, k). scheduled_nodes k) ks) = map fst (group_nest (concat gs))"
      by (simp add: group_nest_def map_concat comp_def concat_concat_map)
    then have "mset (concat (map (\<lambda>(b, k). scheduled_nodes k) ks)) = image_mset fst (mset (group_nest (concat gs)))" by simp
    then show ?thesis using g(2) by (auto simp: carries_stamps_def image_mset.compositionality comp_def)
  qed
  ultimately show ?thesis by blast
qed

definition pipeline_state :: prep_state where
  "pipeline_state = \<lparr>prep_placement = \<lparr>lx_resident = {}, relayout_copies = []\<rparr>, removed_buffers = {}\<rparr>"

definition pipeline_loops :: "sched_node list" where
  "pipeline_loops = (case build_loop_scheduler_nodes demo_info demo_nodes Map.empty of Inl e \<Rightarrow> [] | Inr (res, m') \<Rightarrow> res)"

lemma pipeline_kernels:
  "(case prepare_spyre_kernels demo_emit (\<lambda>_. Inr ()) (\<lambda>_. True) {} (spyre_fuse_nodes demo_info True pipeline_loops) pipeline_state of
      Inl (e, st') \<Rightarrow> []
    | Inr (ks, st') \<Rightarrow> map (\<lambda>(b, k). op_specs k) ks) =
   [[OpSpec ''x'', LoopSpec 4 [OpSpec ''a'', LoopSpec 2 [OpSpec ''b''], OpSpec ''c'']]]"
  by code_simp

theorem compiled_kernels_realise_stamps_witness:
  "\<exists>ks st'. prepare_spyre_kernels demo_emit (\<lambda>_. Inr ()) (\<lambda>_. True) {} (spyre_fuse_nodes demo_info True pipeline_loops) pipeline_state
       = Inr (ks, st') \<and>
     mset (concat (map (\<lambda>(b, k). scheduled_nodes k) ks)) = mset demo_nodes"
proof -
  have w: "well_stamped demo_nodes" "list_all is_scheduler_node demo_nodes" by code_simp+
  obtain res m' where b: "build_loop_scheduler_nodes demo_info demo_nodes Map.empty = Inr (res, m')"
    using realise_stamps [OF w(1)] by blast
  then have l: "pipeline_loops = res" by (simp add: pipeline_loops_def)
  obtain ks st' where p: "prepare_spyre_kernels demo_emit (\<lambda>_. Inr ()) (\<lambda>_. True) {} (spyre_fuse_nodes demo_info True res) pipeline_state
      = Inr (ks, st')"
    using pipeline_kernels unfolding l by (auto split: sum.splits)
  show ?thesis using compiled_kernels_realise_stamps [OF w(1) b p] w(2) p l by blast
qed

end
